(* ===== verification/Murlan_Prelude.thy ===== *)
theory Murlan_Prelude
  imports Main "HOL-Library.AList" "HOL-Library.Multiset" "HOL-Library.More_List"
begin

text \<open>
  Shared vocabulary of the Murlan development.

  The server is TypeScript. Its idioms are modelled once here and used by every
  component theory: a JavaScript \<^verbatim>\<open>Set\<close> whose insertion order is observable is
  a distinct list (\<open>set_add\<close>, \<open>set_delete\<close>), a JavaScript \<^verbatim>\<open>Map\<close> is an
  association list updated by \<^const>\<open>AList.update\<close> (which keeps the position of an
  existing key and appends a new one, as \<^verbatim>\<open>Map.set\<close> does), \<^verbatim>\<open>findIndex\<close>
  is \<open>find_index\<close>, \<^verbatim>\<open>Array.splice(i, 1)\<close> is \<open>remove_nth\<close>, a number printed into
  a template string is \<open>nat_str\<close>. An operation that can throw while it mutates a store
  is a function \<open>'s \<Rightarrow> ('e + 'a) \<times> 's\<close>: the error keeps the store as it was at
  the moment of the throw, so that a missing rollback stays visible.

  The locale \<open>invariant_system\<close> is the interface between a component that offers
  operations and the clients that run sequences of them; every stateful component
  interprets it with its own step function and invariant.
\<close>

named_theorems js_simps \<open>evaluation rules of the JavaScript idioms\<close>

type_synonym seat = nat
type_synonym cents = int
type_synonym user_id = string

subsection \<open>Sets with insertion order\<close>

definition set_add :: "'a \<Rightarrow> 'a list \<Rightarrow> 'a list" where
  "set_add x xs = (if x \<in> set xs then xs else xs @ [x])"

definition set_delete :: "'a \<Rightarrow> 'a list \<Rightarrow> 'a list" where
  "set_delete x xs = filter (\<lambda>y. y \<noteq> x) xs"

subsection \<open>Array idioms\<close>

fun find_index :: "('a \<Rightarrow> bool) \<Rightarrow> 'a list \<Rightarrow> nat option" where
  "find_index P [] = None"
| "find_index P (x # xs) = (if P x then Some 0 else map_option Suc (find_index P xs))"

definition remove_nth :: "nat \<Rightarrow> 'a list \<Rightarrow> 'a list" where
  "remove_nth i xs = take i xs @ drop (Suc i) xs"

subsection \<open>Numbers in template strings\<close>

definition digit_char :: "nat \<Rightarrow> char" where
  "digit_char d = char_of (48 + d)"

fun nat_str :: "nat \<Rightarrow> string" where
  "nat_str n = (if n < 10 then [digit_char n] else nat_str (n div 10) @ [digit_char (n mod 10)])"

declare nat_str.simps [simp del]

subsection \<open>Strings\<close>

text \<open>\<^verbatim>\<open>String.trim\<close> on characters of one byte.\<close>

definition is_blank :: "char \<Rightarrow> bool" where
  "is_blank c = (let n = of_char c :: nat in n = 32 \<or> n = 160 \<or> (9 \<le> n \<and> n \<le> 13))"

definition js_trim :: "string \<Rightarrow> string" where
  "js_trim s = rev (dropWhile is_blank (rev (dropWhile is_blank s)))"

subsection \<open>Stores with exceptions\<close>

type_synonym ('s, 'e, 'a) action = "'s \<Rightarrow> ('e + 'a) \<times> 's"

definition return_act :: "'a \<Rightarrow> ('s, 'e, 'a) action" where
  "return_act x s = (Inr x, s)"

definition throw_act :: "'e \<Rightarrow> ('s, 'e, 'a) action" where
  "throw_act e s = (Inl e, s)"

definition bind_act ::
  "('s, 'e, 'a) action \<Rightarrow> ('a \<Rightarrow> ('s, 'e, 'b) action) \<Rightarrow> ('s, 'e, 'b) action" where
  "bind_act m f s = (case m s of (Inl e, s') \<Rightarrow> (Inl e, s') | (Inr x, s') \<Rightarrow> f x s')"

fun for_each :: "('x \<Rightarrow> ('s, 'e, unit) action) \<Rightarrow> 'x list \<Rightarrow> ('s, 'e, unit) action" where
  "for_each f [] = return_act ()"
| "for_each f (x # xs) = bind_act (f x) (\<lambda>_. for_each f xs)"

subsection \<open>Systems that keep an invariant\<close>

locale invariant_system =
  fixes step :: "'s \<Rightarrow> 'op \<Rightarrow> 's"
    and inv :: "'s \<Rightarrow> bool"
  assumes step_inv: "inv s \<Longrightarrow> inv (step s op)"
begin

lemma run_inv: "inv s \<Longrightarrow> inv (foldl step s ops)"
  by (induction ops arbitrary: s) (auto intro: step_inv)

lemma run_frame:
  assumes "inv s" and "\<And>s op. inv s \<Longrightarrow> f (step s op) = f s"
  shows "f (foldl step s ops) = f s"
  using assms(1) by (induction ops arbitrary: s) (auto simp: assms(2) step_inv)

end

text \<open>
  A system in which a rejected operation changes nothing and an accepted one lowers a rank:
  whatever is thrown at it, only finitely many operations are accepted.
\<close>

fun accepted_count :: "('s \<Rightarrow> 'op \<Rightarrow> 's) \<Rightarrow> ('s \<Rightarrow> 'op \<Rightarrow> bool) \<Rightarrow> 's \<Rightarrow> 'op list \<Rightarrow> nat" where
  "accepted_count step accepts s [] = 0"
| "accepted_count step accepts s (op # ops) =
     (if accepts s op then 1 else 0) + accepted_count step accepts (step s op) ops"

locale ranked_system = invariant_system step inv
  for step :: "'s \<Rightarrow> 'op \<Rightarrow> 's" and inv :: "'s \<Rightarrow> bool" +
  fixes accepts :: "'s \<Rightarrow> 'op \<Rightarrow> bool"
    and rank_of :: "'s \<Rightarrow> nat"
  assumes rejected_same: "\<not> accepts s op \<Longrightarrow> step s op = s"
    and accepted_lowers: "inv s \<Longrightarrow> accepts s op \<Longrightarrow> rank_of (step s op) < rank_of s"
begin

lemma accepted_bound:
  "inv s \<Longrightarrow> accepted_count step accepts s ops + rank_of (foldl step s ops) \<le> rank_of s"
proof (induction ops arbitrary: s)
  case (Cons op ops)
  have "accepted_count step accepts (step s op) ops + rank_of (foldl step (step s op) ops)
      \<le> rank_of (step s op)" using Cons step_inv by blast
  with Cons.prems show ?case
    using accepted_lowers[of s op] rejected_same[of s op] by (cases "accepts s op") auto
qed simp

end

subsection \<open>Laws\<close>

lemma set_set_add [simp]: "set (set_add x xs) = insert x (set xs)"
  by (auto simp: set_add_def)

lemma distinct_set_add [simp]: "distinct (set_add x xs) \<longleftrightarrow> distinct xs"
  by (auto simp: set_add_def)

lemma set_set_delete [simp]: "set (set_delete x xs) = set xs - {x}"
  by (auto simp: set_delete_def)

lemma distinct_set_delete [simp]: "distinct xs \<Longrightarrow> distinct (set_delete x xs)"
  by (simp add: set_delete_def)

lemma find_index_Some:
  "find_index P xs = Some i \<Longrightarrow> i < length xs \<and> P (xs ! i) \<and> (\<forall>j<i. \<not> P (xs ! j))"
proof (induction xs arbitrary: i)
  case Nil
  then show ?case by simp
next
  case (Cons x xs)
  show ?case
  proof (cases "P x")
    case True
    with Cons.prems show ?thesis by simp
  next
    case False
    with Cons.prems obtain j where j: "find_index P xs = Some j" "i = Suc j" by auto
    from Cons.IH[OF j(1)] False j(2) show ?thesis
      by (auto simp: less_Suc_eq_0_disj)
  qed
qed

lemma find_index_None: "find_index P xs = None \<longleftrightarrow> (\<forall>x\<in>set xs. \<not> P x)"
  by (induction xs) auto

lemma mset_remove_nth:
  "i < length xs \<Longrightarrow> mset (remove_nth i xs) = mset xs - {#xs ! i#}"
proof -
  assume i: "i < length xs"
  have "mset xs = mset (take i xs @ xs ! i # drop (Suc i) xs)"
    using id_take_nth_drop[OF i] by simp
  then show ?thesis by (simp add: remove_nth_def)
qed

lemma length_remove_nth [simp]:
  "i < length xs \<Longrightarrow> length (remove_nth i xs) = length xs - 1"
  by (simp add: remove_nth_def)

lemma mset_concat_update:
  "k < length xs \<Longrightarrow> mset (concat (xs[k := ys])) + mset (xs ! k) = mset (concat xs) + mset ys"
proof (induction xs arbitrary: k)
  case (Cons x xs)
  then show ?case by (cases k) (auto simp: ac_simps)
qed simp

lemma distinct_concat_nth:
  "distinct (concat xss) \<Longrightarrow> i < length xss \<Longrightarrow> j < length xss \<Longrightarrow> i \<noteq> j \<Longrightarrow>
     set (xss ! i) \<inter> set (xss ! j) = {}"
proof (induction xss arbitrary: i j)
  case (Cons xs xss)
  have "set xs \<inter> set (xss ! k) = {}" if "k < length xss" for k
    using Cons.prems(1) that nth_mem[OF that] by fastforce
  with Cons show ?case by (cases i; cases j) (auto simp: Int_commute)
qed simp

lemma bind_act_Inr:
  "bind_act m f s = (Inr y, s'') \<longleftrightarrow> (\<exists>x s'. m s = (Inr x, s') \<and> f x s' = (Inr y, s''))"
  by (auto simp: bind_act_def split: prod.splits sum.splits)

lemma bind_act_Inl:
  "bind_act m f s = (Inl e, s'') \<longleftrightarrow>
     m s = (Inl e, s'') \<or> (\<exists>x s'. m s = (Inr x, s') \<and> f x s' = (Inl e, s''))"
  by (auto simp: bind_act_def split: prod.splits sum.splits)

lemma bind_act_frame:
  assumes "\<And>s. f (snd (m s)) = f s" "\<And>x s. f (snd (k x s)) = f s"
  shows "f (snd (bind_act m k s)) = f s"
proof (cases "m s")
  case (Pair r s')
  then have "f s' = f s" using assms(1)[of s] by simp
  with Pair assms(2) show ?thesis by (cases r) (simp_all add: bind_act_def)
qed

lemma return_act_snd [simp]: "snd (return_act x s) = s"
  by (simp add: return_act_def)

lemmas act_simps = return_act_def throw_act_def bind_act_Inr bind_act_Inl

lemma for_each_inv:
  assumes step: "\<And>x s r s'. P s \<Longrightarrow> f x s = (r, s') \<Longrightarrow> P s'"
    and "P s" and "for_each f xs s = (r, s')"
  shows "P s'"
  using assms(2,3)
proof (induction xs arbitrary: s)
  case Nil
  then show ?case by (simp add: return_act_def)
next
  case (Cons x xs)
  show ?case
  proof (cases "f x s")
    case (Pair r1 s1)
    with Cons.prems step have "P s1" by blast
    with Pair Cons show ?thesis by (cases r1) (auto simp: bind_act_def)
  qed
qed

subsubsection \<open>Printed numbers are digits and determine the number\<close>

lemma of_char_digit: "d < 10 \<Longrightarrow> of_char (digit_char d) = 48 + d"
  by (simp add: digit_char_def)

lemma nat_str_digits: "c \<in> set (nat_str n) \<Longrightarrow> c \<noteq> CHR '':''"
proof (induction n rule: nat_str.induct)
  case (1 n)
  have d: "digit_char k \<noteq> CHR '':''" if "k < 10" for k
  proof
    assume "digit_char k = CHR '':''"
    then have "of_char (digit_char k) = (58::nat)" by simp
    with of_char_digit[OF that] that show False by simp
  qed
  show ?case
  proof (cases "n < 10")
    case True
    with 1(2) d show ?thesis by (auto simp: nat_str.simps[of n])
  next
    case False
    with 1 d[of "n mod 10"] show ?thesis by (auto simp: nat_str.simps[of n])
  qed
qed

lemma digit_char_inj: "i < 10 \<Longrightarrow> j < 10 \<Longrightarrow> digit_char i = digit_char j \<longleftrightarrow> i = j"
  by (metis add_left_cancel of_char_digit)

lemma nat_str_nonempty [simp]: "nat_str n \<noteq> []"
  by (subst nat_str.simps) simp

lemma nat_str_inj: "nat_str m = nat_str n \<longleftrightarrow> m = n"
proof
  assume "nat_str m = nat_str n"
  then show "m = n"
  proof (induction m arbitrary: n rule: nat_str.induct)
    case (1 m)
    have last: "last (nat_str k) = digit_char (k mod 10)" for k
      by (subst nat_str.simps) simp
    have bl: "butlast (nat_str k) = (if k < 10 then [] else nat_str (k div 10))" for k
      by (subst nat_str.simps) (simp add: butlast_append)
    from 1(2) have "digit_char (m mod 10) = digit_char (n mod 10)"
      using last[of m] last[of n] by simp
    then have m10: "m mod 10 = n mod 10"
      using digit_char_inj[of "m mod 10" "n mod 10"] by simp
    from 1(2) have b: "butlast (nat_str m) = butlast (nat_str n)" by simp
    have "m div 10 = n div 10"
    proof (cases "m < 10")
      case True
      with b bl[of m] bl[of n] have "n < 10" by (metis nat_str_nonempty)
      with True show ?thesis by simp
    next
      case False
      with b bl[of m] bl[of n] have "\<not> n < 10" "nat_str (m div 10) = nat_str (n div 10)"
        by (auto split: if_splits)
      with 1(1)[OF False] show ?thesis by simp
    qed
    with m10 show ?case by (metis div_mult_mod_eq)
  qed
qed simp

end
