(* ===== verification/Engine.thy ===== *)
theory Engine
  imports Complex_Main Murlan_Prelude "HOL-Library.Word"
begin

text \<open>
  The rules engine (\<^verbatim>\<open>packages/engine/src/engine.ts\<close>): cards, the POWER and SEQ
  orders, combination detection, the beat relation, play validation, the deck, the
  Fisher-Yates shuffle over an injected random source and the deal.

  The random source of the code is a closure returning doubles in [0, 1); every double
  is a rational, so the model takes \<open>rng :: 'g \<Rightarrow> rat \<times> 'g\<close>, a generator over a
  hidden state. The shifts \<^verbatim>\<open>1 << aces\<close> and \<^verbatim>\<open>mask >> i\<close> are 32-bit
  operations and are kept at that width. Player-facing message texts are left out;
  the stable rejection codes are kept.
\<close>

subsection \<open>Card model\<close>

datatype suit = Spades | Hearts | Diamonds | Clubs

datatype rank =
  R3 | R4 | R5 | R6 | R7 | R8 | R9 | R10 | RJ | RQ | RK | RA | R2

datatype joker_color = Black | Red

datatype card = Standard rank suit | Joker joker_color

fun suit_str :: "suit \<Rightarrow> string" where
  "suit_str Spades = ''S''"
| "suit_str Hearts = ''H''"
| "suit_str Diamonds = ''D''"
| "suit_str Clubs = ''C''"

fun rank_str :: "rank \<Rightarrow> string" where
  "rank_str R3 = ''3''"
| "rank_str R4 = ''4''"
| "rank_str R5 = ''5''"
| "rank_str R6 = ''6''"
| "rank_str R7 = ''7''"
| "rank_str R8 = ''8''"
| "rank_str R9 = ''9''"
| "rank_str R10 = ''10''"
| "rank_str RJ = ''J''"
| "rank_str RQ = ''Q''"
| "rank_str RK = ''K''"
| "rank_str RA = ''A''"
| "rank_str R2 = ''2''"

fun color_str :: "joker_color \<Rightarrow> string" where
  "color_str Black = ''black''"
| "color_str Red = ''red''"

fun cardId :: "card \<Rightarrow> string" where
  "cardId (Joker c) = ''J-'' @ color_str c"
| "cardId (Standard r s) = rank_str r @ suit_str s"

subsection \<open>The two orders\<close>

fun power_of :: "rank \<Rightarrow> nat" where
  "power_of R3 = 0"
| "power_of R4 = 1"
| "power_of R5 = 2"
| "power_of R6 = 3"
| "power_of R7 = 4"
| "power_of R8 = 5"
| "power_of R9 = 6"
| "power_of R10 = 7"
| "power_of RJ = 8"
| "power_of RQ = 9"
| "power_of RK = 10"
| "power_of RA = 11"
| "power_of R2 = 12"

fun joker_power :: "joker_color \<Rightarrow> nat" where
  "joker_power Black = 13"
| "joker_power Red = 14"

fun singlePower :: "card \<Rightarrow> nat" where
  "singlePower (Joker c) = joker_power c"
| "singlePower (Standard r s) = power_of r"

text \<open>SEQ has no entry for the Ace, whose value in a run is 1 or 14.\<close>

fun seq_of :: "rank \<Rightarrow> nat option" where
  "seq_of R2 = Some 2"
| "seq_of R3 = Some 3"
| "seq_of R4 = Some 4"
| "seq_of R5 = Some 5"
| "seq_of R6 = Some 6"
| "seq_of R7 = Some 7"
| "seq_of R8 = Some 8"
| "seq_of R9 = Some 9"
| "seq_of R10 = Some 10"
| "seq_of RJ = Some 11"
| "seq_of RQ = Some 12"
| "seq_of RK = Some 13"
| "seq_of RA = None"

subsection \<open>Combinations\<close>

datatype combo_type = SingleC | PairC | TripleC | KolorC | BombC | FlushC

record combo =
  c_type :: combo_type
  c_cards :: "card list"
  c_size :: nat
  c_power :: "nat option"
  c_topSeq :: "nat option"

fun is_joker :: "card \<Rightarrow> bool" where
  "is_joker (Joker _) = True"
| "is_joker (Standard _ _) = False"

fun collect_run :: "card list \<Rightarrow> nat list \<Rightarrow> nat \<Rightarrow> (nat list \<times> nat) option" where
  "collect_run [] fixed aces = Some (fixed, aces)"
| "collect_run (Joker _ # cs) fixed aces = None"
| "collect_run (Standard r s # cs) fixed aces =
     (case seq_of r of
        None \<Rightarrow> collect_run cs fixed (aces + 1)
      | Some v \<Rightarrow> collect_run cs (fixed @ [v]) aces)"

definition ace_limit :: "nat \<Rightarrow> nat" where
  "ace_limit aces = nat (sint (push_bit (aces mod 32) (1 :: 32 word)))"

definition run_vals :: "nat list \<Rightarrow> nat \<Rightarrow> nat \<Rightarrow> nat list" where
  "run_vals fixed aces msk =
     sort (fixed @ map (\<lambda>i. if bit msk (i mod 32) then 14 else 1) [0..<aces])"

definition consecutive :: "nat list \<Rightarrow> bool" where
  "consecutive vals = list_all (\<lambda>i. i = 0 \<or> vals ! i = vals ! (i - 1) + 1) [0..<length vals]"

fun try_masks :: "nat list \<Rightarrow> nat \<Rightarrow> nat list \<Rightarrow> nat option" where
  "try_masks fixed aces [] = None"
| "try_masks fixed aces (m # ms) =
     (let vals = run_vals fixed aces m
      in if length (remdups vals) = length vals \<and> consecutive vals
         then (if vals = [] then None else Some (last vals))
         else try_masks fixed aces ms)"

definition straightTop :: "card list \<Rightarrow> nat option" where
  "straightTop cards =
     (if length cards < 5 then None
      else if list_ex is_joker cards then None
      else case collect_run cards [] 0 of
             None \<Rightarrow> None
           | Some (fixed, aces) \<Rightarrow> try_masks fixed aces [0..<ace_limit aces])"

fun first_rank :: "card list \<Rightarrow> rank option" where
  "first_rank (Standard r s # cs) = Some r"
| "first_rank cs = None"

fun first_suit :: "card list \<Rightarrow> suit option" where
  "first_suit (Standard r s # cs) = Some s"
| "first_suit cs = None"

fun has_rank :: "rank option \<Rightarrow> card \<Rightarrow> bool" where
  "has_rank ro (Standard r s) = (ro = Some r)"
| "has_rank ro (Joker _) = False"

fun has_suit :: "suit option \<Rightarrow> card \<Rightarrow> bool" where
  "has_suit so (Standard r s) = (so = Some s)"
| "has_suit so (Joker _) = False"

definition allSameRank :: "card list \<Rightarrow> bool" where
  "allSameRank cards =
     (if list_ex is_joker cards then False
      else list_all (has_rank (first_rank cards)) cards)"

definition allSameSuit :: "card list \<Rightarrow> bool" where
  "allSameSuit cards =
     (if list_ex is_joker cards then False
      else list_all (has_suit (first_suit cards)) cards)"

definition group_combo :: "combo_type \<Rightarrow> card list \<Rightarrow> nat \<Rightarrow> combo option" where
  "group_combo ty cards n =
     (if \<not> allSameRank cards then None
      else Some \<lparr>c_type = ty, c_cards = cards, c_size = n,
                 c_power = map_option power_of (first_rank cards), c_topSeq = None\<rparr>)"

definition identifyCombo :: "card list \<Rightarrow> combo option" where
  "identifyCombo cards =
     (let n = length cards in
      if n = 0 then None
      else if n = 1 then
        Some \<lparr>c_type = SingleC, c_cards = cards, c_size = 1,
              c_power = Some (singlePower (hd cards)), c_topSeq = None\<rparr>
      else if n = 2 then group_combo PairC cards 2
      else if n = 3 then group_combo TripleC cards 3
      else if n = 4 then group_combo BombC cards 4
      else case straightTop cards of
             None \<Rightarrow> None
           | Some t \<Rightarrow>
               Some \<lparr>c_type = (if allSameSuit cards then FlushC else KolorC), c_cards = cards,
                     c_size = n, c_power = None, c_topSeq = Some t\<rparr>)"

subsection \<open>Beat logic\<close>

text \<open>Comparisons of optional numbers: with an absent operand JavaScript yields false.\<close>

fun js_gt :: "nat option \<Rightarrow> nat option \<Rightarrow> bool" where
  "js_gt (Some a) (Some b) = (a > b)"
| "js_gt _ _ = False"

fun js_succ_of :: "nat option \<Rightarrow> nat option \<Rightarrow> bool" where
  "js_succ_of (Some a) (Some b) = (a = b + 1)"
| "js_succ_of _ _ = False"

definition beats :: "combo \<Rightarrow> combo \<Rightarrow> bool" where
  "beats candidate current =
     (if c_type candidate = FlushC then
        (if c_type current = FlushC then
           (if c_size candidate \<noteq> c_size current then False
            else js_gt (c_topSeq candidate) (c_topSeq current))
         else True)
      else if c_type candidate = BombC then
        (if c_type current = FlushC then False
         else if c_type current = BombC then js_gt (c_power candidate) (c_power current)
         else True)
      else if c_type candidate \<noteq> c_type current then False
      else case c_type candidate of
             SingleC \<Rightarrow> js_gt (c_power candidate) (c_power current)
           | PairC \<Rightarrow> js_gt (c_power candidate) (c_power current)
           | TripleC \<Rightarrow> js_gt (c_power candidate) (c_power current)
           | KolorC \<Rightarrow>
               (if c_size candidate \<noteq> c_size current then False
                else js_succ_of (c_topSeq candidate) (c_topSeq current))
           | _ \<Rightarrow> False)"

record play_check =
  pc_ok :: bool
  pc_combo :: "combo option"
  pc_code :: "string option"

definition validatePlay :: "card list \<Rightarrow> combo option \<Rightarrow> play_check" where
  "validatePlay cards current =
     (case identifyCombo cards of
        None \<Rightarrow> \<lparr>pc_ok = False, pc_combo = None, pc_code = Some ''invalid_combo''\<rparr>
      | Some combo \<Rightarrow>
          (case current of
             None \<Rightarrow> \<lparr>pc_ok = True, pc_combo = Some combo, pc_code = None\<rparr>
           | Some cur \<Rightarrow>
               if \<not> beats combo cur
               then \<lparr>pc_ok = False, pc_combo = Some combo, pc_code = Some ''does_not_beat''\<rparr>
               else \<lparr>pc_ok = True, pc_combo = Some combo, pc_code = None\<rparr>))"

subsection \<open>Deck, shuffle and deal\<close>

definition ranks :: "rank list" where
  "ranks = [R3, R4, R5, R6, R7, R8, R9, R10, RJ, RQ, RK, RA, R2]"

definition suits :: "suit list" where
  "suits = [Spades, Hearts, Diamonds, Clubs]"

definition buildDeck :: "card list" where
  "buildDeck =
     concat (map (\<lambda>s. map (\<lambda>r. Standard r s) ranks) suits) @ [Joker Black, Joker Red]"

fun shuffle_loop :: "('g \<Rightarrow> rat \<times> 'g) \<Rightarrow> nat \<Rightarrow> 'a list \<Rightarrow> 'g \<Rightarrow> 'a list \<times> 'g" where
  "shuffle_loop rng 0 a g = (a, g)"
| "shuffle_loop rng (Suc k) a g =
     (let i = Suc k;
          (r, g') = rng g;
          j = nat \<lfloor>r * of_nat (i + 1)\<rfloor>;
          tmp = a ! i;
          a1 = a[i := a ! j];
          a2 = a1[j := tmp]
      in shuffle_loop rng k a2 g')"

definition shuffle :: "'a list \<Rightarrow> ('g \<Rightarrow> rat \<times> 'g) \<Rightarrow> 'g \<Rightarrow> 'a list \<times> 'g" where
  "shuffle arr rng g = shuffle_loop rng (length arr - 1) arr g"

definition dealSizes :: "nat \<Rightarrow> nat list" where
  "dealSizes players =
     (if players = 2 then [18, 18]
      else if players = 3 then [18, 18, 18]
      else [14, 14, 13, 13])"

fun deal_slices :: "card list \<Rightarrow> nat list \<Rightarrow> nat \<Rightarrow> card list list" where
  "deal_slices deck [] i = []"
| "deal_slices deck (sz # sizes) i = take sz (drop i deck) # deal_slices deck sizes (i + sz)"

definition deal :: "nat \<Rightarrow> ('g \<Rightarrow> rat \<times> 'g) \<Rightarrow> 'g \<Rightarrow> card list list \<times> 'g" where
  "deal players rng g =
     (let (deck, g') = shuffle buildDeck rng g
      in (deal_slices deck (dealSizes players) 0, g'))"

definition is_three_of :: "suit \<Rightarrow> card \<Rightarrow> bool" where
  "is_three_of startSuit c = (c = Standard R3 startSuit)"

definition firstLeaderIndex :: "card list list \<Rightarrow> suit \<Rightarrow> nat" where
  "firstLeaderIndex hands startSuit =
     (case find_index (list_ex (is_three_of startSuit)) hands of None \<Rightarrow> 0 | Some h \<Rightarrow> h)"


subsection \<open>Ranks are ordered by POWER\<close>

instantiation rank :: linorder
begin

definition less_eq_rank :: "rank \<Rightarrow> rank \<Rightarrow> bool" where
  "less_eq_rank a b = (power_of a \<le> power_of b)"

definition less_rank :: "rank \<Rightarrow> rank \<Rightarrow> bool" where
  "less_rank a b = (power_of a < power_of b)"

instance
proof
  fix a b c :: rank
  show "a < b \<longleftrightarrow> a \<le> b \<and> \<not> b \<le> a" by (auto simp: less_eq_rank_def less_rank_def)
  show "a \<le> a" by (simp add: less_eq_rank_def)
  show "a \<le> b \<Longrightarrow> b \<le> c \<Longrightarrow> a \<le> c" by (simp add: less_eq_rank_def)
  show "a \<le> b \<Longrightarrow> b \<le> a \<Longrightarrow> a = b" by (cases a; cases b) (simp_all add: less_eq_rank_def)
  show "a \<le> b \<or> b \<le> a" by (auto simp: less_eq_rank_def)
qed

end

lemma power_of_inj: "power_of a = power_of b \<longleftrightarrow> a = b"
  by (cases a; cases b) simp_all

lemma power_of_bound: "power_of r \<le> 12"
  by (cases r) simp_all

lemma power_of_le_14 [simp]: "power_of r \<le> 14"
  by (cases r) simp_all

lemma singlePower_bound: "singlePower c \<le> 14"
proof (cases c)
  case (Standard r s)
  then show ?thesis using power_of_bound[of r] by simp
next
  case (Joker j)
  then show ?thesis by (cases j) simp_all
qed

lemma seq_of_bounds: "seq_of r = Some v \<Longrightarrow> 2 \<le> v \<and> v \<le> 13"
  by (cases r) auto

subsection \<open>Cards and the deck\<close>

lemma suit_str_inj: "suit_str s = suit_str t \<longleftrightarrow> s = t"
  by (cases s; cases t) simp_all

lemma rank_str_inj: "rank_str a = rank_str b \<longleftrightarrow> a = b"
  by (cases a; cases b) simp_all

lemma length_suit_str [simp]: "length (suit_str s) = 1"
  by (cases s) simp_all

lemma standard_id_not_joker: "rank_str r @ suit_str s \<noteq> CHR ''J'' # CHR ''-'' # color_str c"
  by (cases r; cases s; cases c) simp_all

lemma cardId_eq_iff [simp]: "cardId c = cardId d \<longleftrightarrow> c = d"
proof (cases c; cases d)
  fix r s r' s' assume c: "c = Standard r s" and d: "d = Standard r' s'"
  have "rank_str r @ suit_str s = rank_str r' @ suit_str s' \<longleftrightarrow> r = r' \<and> s = s'"
    by (subst append_eq_append_conv) (auto simp: rank_str_inj suit_str_inj)
  with c d show ?thesis by simp
next
  fix a b assume "c = Joker a" "d = Joker b"
  then show ?thesis by (cases a; cases b) simp_all
qed (auto simp: standard_id_not_joker dest: sym)

lemma buildDeck_length: "length buildDeck = 54"
  by (simp add: buildDeck_def ranks_def suits_def)

lemma buildDeck_distinct: "distinct buildDeck"
  by (simp add: buildDeck_def ranks_def suits_def)

lemma buildDeck_all: "c \<in> set buildDeck"
proof (cases c)
  case (Standard r s)
  then show ?thesis by (cases r; cases s) (simp_all add: buildDeck_def ranks_def suits_def)
next
  case (Joker j)
  then show ?thesis by (cases j) (simp_all add: buildDeck_def)
qed

instance card :: finite
proof
  have "(UNIV :: card set) = set buildDeck" using buildDeck_all by auto
  then show "finite (UNIV :: card set)" by (metis finite_set)
qed

subsection \<open>Beating\<close>

text \<open>
  What \<^const>\<open>identifyCombo\<close> builds: group combos carry a power, runs carry a top.
\<close>

definition combo_wf :: "combo \<Rightarrow> bool" where
  "combo_wf c \<longleftrightarrow>
     (if c_type c \<in> {KolorC, FlushC}
      then \<exists>t. c_topSeq c = Some t \<and> t \<le> 14 \<and> 5 \<le> c_size c
      else \<exists>p. c_power c = Some p \<and> p \<le> 14)
     \<and> c_size c = length (c_cards c) \<and> c_cards c \<noteq> []"

text \<open>A number that grows with every play put on the pile.\<close>

definition strength :: "combo \<Rightarrow> nat" where
  "strength c =
     (case c_type c of
        FlushC \<Rightarrow> 30 + the (c_topSeq c)
      | BombC \<Rightarrow> 15 + the (c_power c)
      | KolorC \<Rightarrow> the (c_topSeq c)
      | _ \<Rightarrow> the (c_power c))"

lemma strength_bound: "combo_wf c \<Longrightarrow> strength c \<le> 44"
  by (cases "c_type c") (auto simp: combo_wf_def strength_def)

lemma beats_strength:
  assumes "combo_wf c" "combo_wf d" "beats c d"
  shows "strength d < strength c"
  using assms
  by (cases "c_type c"; cases "c_type d")
    (auto simp: combo_wf_def strength_def beats_def split: if_splits)

lemma beats_irrefl: "\<not> beats c c"
  by (cases "c_type c"; cases "c_power c"; cases "c_topSeq c") (auto simp: beats_def)

lemma beats_asym: "beats c d \<Longrightarrow> \<not> beats d c"
  by (cases "c_type c"; cases "c_type d"; cases "c_power c"; cases "c_power d";
      cases "c_topSeq c"; cases "c_topSeq d") (auto simp: beats_def split: if_splits)

text \<open>A trick is a sequence of combos each of which beats the one below it.\<close>

fun beat_chain :: "combo list \<Rightarrow> bool" where
  "beat_chain [] = True"
| "beat_chain [c] = combo_wf c"
| "beat_chain (c # d # cs) = (combo_wf c \<and> beats d c \<and> beat_chain (d # cs))"

lemma beat_chain_wf: "beat_chain (c # cs) \<Longrightarrow> combo_wf c"
  by (cases cs) simp_all

lemma beat_chain_length: "beat_chain (c # cs) \<Longrightarrow> strength c + length cs \<le> 44"
proof (induction cs arbitrary: c)
  case Nil
  then show ?case using strength_bound by simp
next
  case (Cons d cs)
  then have "combo_wf c" "beats d c" "beat_chain (d # cs)" by auto
  moreover from this have "strength c < strength d"
    using beats_strength beat_chain_wf by blast
  ultimately show ?case using Cons.IH[of d] by simp
qed


subsection \<open>Runs\<close>

text \<open>
  The specification of a run: \<open>reads_as cards M\<close> says that the cards can take the
  values \<open>M\<close> (an Ace counts 1 or 14), \<open>is_run cards t\<close> that they can be read as the
  consecutive values up to \<open>t\<close>.
\<close>

definition run_values :: "card \<Rightarrow> nat set" where
  "run_values c =
     (case c of Joker _ \<Rightarrow> {}
      | Standard r _ \<Rightarrow> (case seq_of r of None \<Rightarrow> {1, 14} | Some v \<Rightarrow> {v}))"

definition reads_as :: "card list \<Rightarrow> nat multiset \<Rightarrow> bool" where
  "reads_as cards M \<longleftrightarrow> (\<exists>vs. list_all2 (\<lambda>c v. v \<in> run_values c) cards vs \<and> mset vs = M)"

definition run_to :: "nat \<Rightarrow> nat \<Rightarrow> nat list" where
  "run_to t n = [t + 1 - n ..< t + 1]"

definition is_run :: "card list \<Rightarrow> nat \<Rightarrow> bool" where
  "is_run cards t \<longleftrightarrow> length cards \<le> t \<and> reads_as cards (mset (run_to t (length cards)))"

lemma run_to_facts [simp]:
  "x \<in> set (run_to t n) \<longleftrightarrow> t + 1 \<le> x + n \<and> x \<le> t" "distinct (run_to t n)" "sorted (run_to t n)"
  "length (run_to t n) = min n (t + 1)"
  by (auto simp: run_to_def simp del: upt_Suc)

lemma last_run_to: "0 < n \<Longrightarrow> last (run_to t n) = t"
  by (simp add: run_to_def) linarith

lemma hd_run_to: "0 < n \<Longrightarrow> hd (run_to t n) = t + 1 - n"
  by (simp add: run_to_def del: upt_Suc)

text \<open>Fixed values \<open>F\<close> together with \<open>n\<close> aces, each low or high.\<close>

definition high_low :: "nat multiset \<Rightarrow> nat \<Rightarrow> nat multiset \<Rightarrow> bool" where
  "high_low F n M \<longleftrightarrow> (\<exists>k\<le>n. M = F + replicate_mset k 14 + replicate_mset (n - k) 1)"

lemma reads_as_Nil: "reads_as [] M \<longleftrightarrow> M = {#}"
  by (auto simp: reads_as_def)

lemma reads_as_Cons:
  "reads_as (c # cs) M \<longleftrightarrow> (\<exists>v\<in>run_values c. \<exists>M'. M = add_mset v M' \<and> reads_as cs M')"
proof
  assume "reads_as (c # cs) M"
  then obtain v vs where "v \<in> run_values c" "list_all2 (\<lambda>c v. v \<in> run_values c) cs vs"
    "M = add_mset v (mset vs)" by (auto simp: reads_as_def list_all2_Cons1)
  then show "\<exists>v\<in>run_values c. \<exists>M'. M = add_mset v M' \<and> reads_as cs M'"
    unfolding reads_as_def by blast
next
  assume "\<exists>v\<in>run_values c. \<exists>M'. M = add_mset v M' \<and> reads_as cs M'"
  then obtain v vs where "v \<in> run_values c" "list_all2 (\<lambda>c v. v \<in> run_values c) cs vs"
    "M = add_mset v (mset vs)" by (auto simp: reads_as_def)
  then show "reads_as (c # cs) M"
    unfolding reads_as_def by (intro exI[of _ "v # vs"]) simp
qed

lemma high_low_mem: "high_low F n M \<Longrightarrow> x \<in># M \<Longrightarrow> x \<in># F \<or> x = 14 \<or> x = 1"
  by (auto simp: high_low_def split: if_splits)

lemma high_low_add: "high_low (add_mset v F) n M \<longleftrightarrow> (\<exists>M'. M = add_mset v M' \<and> high_low F n M')"
  by (auto simp: high_low_def)

lemma high_low_Suc:
  "high_low F (Suc n) M \<longleftrightarrow> (\<exists>v\<in>{1, 14}. \<exists>M'. M = add_mset v M' \<and> high_low F n M')"
proof
  assume "high_low F (Suc n) M"
  then obtain k where k: "k \<le> Suc n" "M = F + replicate_mset k 14 + replicate_mset (Suc n - k) 1"
    by (auto simp: high_low_def)
  show "\<exists>v\<in>{1, 14}. \<exists>M'. M = add_mset v M' \<and> high_low F n M'"
  proof (cases k)
    case 0
    with k have "M = add_mset 1 (F + replicate_mset n 1)" by simp
    then show ?thesis by (auto simp: high_low_def intro!: exI[of _ "0::nat"])
  next
    case (Suc k')
    with k have "M = add_mset 14 (F + replicate_mset k' 14 + replicate_mset (n - k') 1)" "k' \<le> n"
      by auto
    then show ?thesis unfolding high_low_def by blast
  qed
next
  assume "\<exists>v\<in>{1, 14}. \<exists>M'. M = add_mset v M' \<and> high_low F n M'"
  then obtain v k where k: "k \<le> n" "v = 1 \<or> v = 14"
    "M = add_mset v (F + replicate_mset k 14 + replicate_mset (n - k) 1)"
    by (auto simp: high_low_def)
  show "high_low F (Suc n) M"
  proof (cases "v = 14")
    case True
    with k show ?thesis unfolding high_low_def by (intro exI[of _ "Suc k"]) auto
  next
    case False
    with k show ?thesis unfolding high_low_def by (intro exI[of _ k]) (auto simp: Suc_diff_le)
  qed
qed

lemma collect_run_reads:
  "collect_run cards fx a = Some (fixed, aces) \<Longrightarrow>
     \<exists>gs n. fixed = fx @ gs \<and> aces = a + n \<and> (\<forall>v\<in>set gs. 2 \<le> v \<and> v \<le> 13) \<and>
       length gs + n = length cards \<and> (\<forall>M. reads_as cards M \<longleftrightarrow> high_low (mset gs) n M)"
proof (induction cards fx a rule: collect_run.induct)
  case (1 fx a)
  then show ?case by (auto simp: reads_as_Nil high_low_def)
next
  case (2 j cs fx a)
  then show ?case by simp
next
  case (3 r s cs fx a)
  show ?case
  proof (cases "seq_of r")
    case None
    from 3(1)[OF None] 3(3) None obtain gs n where
      IH: "fixed = fx @ gs" "aces = a + 1 + n" "\<forall>v\<in>set gs. 2 \<le> v \<and> v \<le> 13"
        "length gs + n = length cs" "\<And>M. reads_as cs M \<longleftrightarrow> high_low (mset gs) n M" by auto
    have "run_values (Standard r s) = {1, 14}" using None by (simp add: run_values_def)
    then have "reads_as (Standard r s # cs) M \<longleftrightarrow> high_low (mset gs) (Suc n) M" for M
      by (simp add: reads_as_Cons high_low_Suc IH(5))
    with IH show ?thesis by (intro exI[of _ gs] exI[of _ "Suc n"]) auto
  next
    case (Some v)
    from 3(2)[OF Some] 3(3) Some obtain gs n where
      IH: "fixed = fx @ v # gs" "aces = a + n" "\<forall>v\<in>set gs. 2 \<le> v \<and> v \<le> 13"
        "length gs + n = length cs" "\<And>M. reads_as cs M \<longleftrightarrow> high_low (mset gs) n M" by auto
    have "run_values (Standard r s) = {v}" using Some by (simp add: run_values_def)
    then have "reads_as (Standard r s # cs) M \<longleftrightarrow> high_low (mset (v # gs)) n M" for M
      by (simp add: reads_as_Cons high_low_add IH(5))
    with IH seq_of_bounds[OF Some] show ?thesis
      by (intro exI[of _ "v # gs"] exI[of _ n]) auto
  qed
qed

lemma collect_run_None: "collect_run cards fx a = None \<Longrightarrow> list_ex is_joker cards"
  by (induction cards fx a rule: collect_run.induct) (auto split: option.splits)

lemma joker_never_reads: "list_ex is_joker cards \<Longrightarrow> \<not> reads_as cards M"
proof (induction cards arbitrary: M)
  case (Cons c cs)
  then show ?case by (cases c) (auto simp: reads_as_Cons run_values_def)
qed simp

text \<open>The masks the loop tries give exactly the ways to read the aces.\<close>

lemma ace_limit_small:
  assumes "aces < 31"
  shows "ace_limit aces = 2 ^ aces"
proof -
  have "push_bit aces (1 :: 32 word) = word_of_int (2 ^ aces)"
    by (simp add: push_bit_eq_mult)
  moreover have "sint (word_of_int (2 ^ aces) :: 32 word) = signed_take_bit 31 (2 ^ aces)"
    by (subst sint_sbintrunc') simp
  ultimately have "sint (push_bit aces (1 :: 32 word)) = signed_take_bit 31 (2 ^ aces)"
    by simp
  also have "\<dots> = (2 ^ aces :: int)"
  proof (rule signed_take_bit_int_eq_self)
    have "(0::int) \<le> 2 ^ aces" by simp
    then show "- (2 ^ 31) \<le> (2 ^ aces :: int)" by (rule order_trans[rotated]) simp
    show "(2 ^ aces :: int) < 2 ^ 31" using assms by (intro power_strict_increasing) auto
  qed
  finally show ?thesis using assms by (simp add: ace_limit_def nat_power_eq)
qed

lemma mset_ace_bits:
  "\<exists>k\<le>n. mset (map (\<lambda>i. if bit m i then 14 else (1::nat)) [0..<n]) =
       replicate_mset k 14 + replicate_mset (n - k) 1"
proof -
  have "high_low {#} n (mset (map (\<lambda>i. if bit m i then 14 else (1::nat)) [0..<n]))"
  proof (induction n)
    case 0
    then show ?case by (simp add: high_low_def)
  next
    case (Suc n)
    then show ?case unfolding high_low_Suc by auto
  qed
  then show ?thesis by (simp add: high_low_def)
qed

lemma mset_ace_mask:
  "k \<le> n \<Longrightarrow> mset (map (\<lambda>i. if bit (mask k :: nat) i then 14 else (1::nat)) [0..<n]) =
       replicate_mset k 14 + replicate_mset (n - k) 1"
proof (induction n)
  case 0
  then show ?case by simp
next
  case (Suc n)
  show ?case
  proof (cases "k = Suc n")
    case True
    then have "map (\<lambda>i. if bit (mask k :: nat) i then 14 else (1::nat)) [0..<Suc n] =
        replicate (Suc n) 14"
      by (auto simp: bit_mask_iff list_eq_iff_nth_eq simp del: upt_Suc replicate.simps)
    with True show ?thesis by (simp add: mset_replicate del: upt_Suc replicate.simps)
  next
    case False
    with Suc show ?thesis by (simp add: bit_mask_iff Suc_diff_le)
  qed
qed

lemma mset_run_vals:
  assumes "aces < 31"
  shows "(\<exists>m<ace_limit aces. mset (run_vals fixed aces m) = M) \<longleftrightarrow> high_low (mset fixed) aces M"
proof -
  have r: "mset (run_vals fixed aces m) =
      mset fixed + mset (map (\<lambda>i. if bit m i then 14 else 1) [0..<aces])" for m
  proof -
    have "map (\<lambda>i. if bit m (i mod 32) then 14 else (1::nat)) [0..<aces] =
          map (\<lambda>i. if bit m i then 14 else 1) [0..<aces]"
      using assms by (intro map_cong) auto
    then show ?thesis by (simp only: run_vals_def mset_sort mset_append)
  qed
  have "\<exists>m<ace_limit aces. mset (run_vals fixed aces m) = M"
    if "k \<le> aces" "M = mset fixed + replicate_mset k 14 + replicate_mset (aces - k) 1" for k
  proof (intro exI[of _ "mask k"] conjI)
    have "mask k < (2::nat) ^ k" by (simp add: mask_eq_exp_minus_1)
    also have "\<dots> \<le> 2 ^ aces" using that(1) by simp
    finally show "mask k < ace_limit aces" using assms by (simp add: ace_limit_small)
    show "mset (run_vals fixed aces (mask k)) = M"
      using that mset_ace_mask[OF that(1)] by (simp add: r add.assoc)
  qed
  moreover have "high_low (mset fixed) aces (mset (run_vals fixed aces m))" for m
    using mset_ace_bits[of aces m] by (auto simp: r high_low_def add.assoc)
  ultimately show ?thesis by (auto simp: high_low_def)
qed


lemma consecutive_iff:
  "consecutive vs \<longleftrightarrow> (vs = [] \<or> vs = [hd vs ..< hd vs + length vs])"
proof
  assume c: "consecutive vs"
  have "i < length vs \<Longrightarrow> vs ! i = vs ! 0 + i" for i
  proof (induction i)
    case (Suc i)
    with c have "vs ! Suc i = vs ! i + 1"
      by (auto simp: consecutive_def list_all_iff dest!: bspec[of _ _ "Suc i"])
    with Suc show ?case by simp
  qed simp
  then have "vs = [vs ! 0 ..< vs ! 0 + length vs]"
    by (intro nth_equalityI) simp_all
  then show "vs = [] \<or> vs = [hd vs ..< hd vs + length vs]"
    by (metis hd_conv_nth)
next
  assume h: "vs = [] \<or> vs = [hd vs ..< hd vs + length vs]"
  show "consecutive vs"
  proof (cases "vs = []")
    case False
    with h have "vs ! i = hd vs + i" if "i < length vs" for i
      using that nth_upt[of "hd vs" i "hd vs + length vs"] by simp
    then show ?thesis by (auto simp: consecutive_def list_all_iff)
  qed (simp add: consecutive_def)
qed

lemma sorted_run_iff:
  assumes "sorted vs" "vs \<noteq> []"
  shows "(length (remdups vs) = length vs \<and> consecutive vs \<and> last vs = t) \<longleftrightarrow>
     length vs \<le> t + 1 \<and> mset vs = mset (run_to t (length vs))"
proof
  assume "length (remdups vs) = length vs \<and> consecutive vs \<and> last vs = t"
  with assms have v: "vs = [hd vs ..< hd vs + length vs]" and t: "last vs = t"
    by (auto simp: consecutive_iff)
  have "last [hd vs ..< hd vs + length vs] = hd vs + length vs - 1"
    using assms(2) by (cases "length vs") auto
  with v t assms(2) have "t + 1 = hd vs + length vs" by (cases "length vs") auto
  with v show "length vs \<le> t + 1 \<and> mset vs = mset (run_to t (length vs))"
    unfolding run_to_def by (metis add_diff_cancel_right' le_add2)
next
  assume h: "length vs \<le> t + 1 \<and> mset vs = mset (run_to t (length vs))"
  have n: "0 < length vs" using assms(2) by simp
  from h have v: "vs = run_to t (length vs)"
    using assms(1) by (metis properties_for_sort run_to_facts(3))
  have "hd vs = t + 1 - length vs" "last vs = t" "distinct vs"
    using hd_run_to[OF n, of t] last_run_to[OF n, of t] run_to_facts(2)[of t "length vs"] v by simp_all
  moreover from this h v have "vs = [hd vs ..< hd vs + length vs]"
    by (simp add: run_to_def)
  ultimately show "length (remdups vs) = length vs \<and> consecutive vs \<and> last vs = t"
    by (simp add: consecutive_iff distinct_remdups_id)
qed

definition good_mask :: "nat list \<Rightarrow> nat \<Rightarrow> nat \<Rightarrow> nat \<Rightarrow> bool" where
  "good_mask fixed aces t m \<longleftrightarrow>
     length fixed + aces \<le> t + 1 \<and>
     mset (run_vals fixed aces m) = mset (run_to t (length fixed + aces))"

lemma length_run_vals [simp]: "length (run_vals fixed aces m) = length fixed + aces"
  by (simp add: run_vals_def)

lemma run_vals_wf: "0 < length fixed + aces \<Longrightarrow> sorted (run_vals fixed aces m) \<and> run_vals fixed aces m \<noteq> []"
  by (auto simp: run_vals_def dest: arg_cong[where f = length])

lemma good_mask_iff:
  assumes "0 < length fixed + aces"
  shows "good_mask fixed aces t m \<longleftrightarrow>
     distinct (run_vals fixed aces m) \<and> consecutive (run_vals fixed aces m) \<and>
     last (run_vals fixed aces m) = t"
proof -
  from run_vals_wf[OF assms, of m]
  have "sorted (run_vals fixed aces m)" "run_vals fixed aces m \<noteq> []" by simp_all
  from sorted_run_iff[OF this, of t] show ?thesis
    by (simp add: good_mask_def del: length_run_vals)
       (simp add: length_run_vals)
qed

lemma try_masks_iff:
  assumes "0 < length fixed + aces"
  shows "try_masks fixed aces ms =
     (case find_index (\<lambda>m. \<exists>t. good_mask fixed aces t m) ms of
        None \<Rightarrow> None | Some i \<Rightarrow> Some (last (run_vals fixed aces (ms ! i))))"
proof (induction ms)
  case (Cons m ms)
  have v: "run_vals fixed aces m \<noteq> []" using run_vals_wf[OF assms, of m] by simp
  show ?case
  proof (cases "\<exists>t. good_mask fixed aces t m")
    case True
    with v show ?thesis by (simp add: Let_def good_mask_iff[OF assms])
  next
    case False
    with Cons v show ?thesis
      by (auto simp: Let_def good_mask_iff[OF assms] split: option.splits)
  qed
qed simp

lemma good_mask_last:
  "0 < length fixed + aces \<Longrightarrow> good_mask fixed aces t m \<Longrightarrow> last (run_vals fixed aces m) = t"
  by (simp add: good_mask_iff)

lemma is_run_good_mask:
  assumes "collect_run cards [] 0 = Some (fixed, aces)" "length cards \<le> 30"
  shows "is_run cards t \<longleftrightarrow> (\<exists>m<ace_limit aces. good_mask fixed aces t m)"
proof -
  from collect_run_reads[OF assms(1)] have c: "\<forall>v\<in>set fixed. 2 \<le> v \<and> v \<le> 13"
    "length fixed + aces = length cards" "\<And>M. reads_as cards M \<longleftrightarrow> high_low (mset fixed) aces M"
    by auto
  let ?M = "mset (run_to t (length cards))"
  have a: "aces < 31" using c(2) assms(2) by simp
  have "length cards \<le> t" if "length cards \<le> t + 1" "high_low (mset fixed) aces ?M"
  proof (rule ccontr)
    assume "\<not> length cards \<le> t"
    with that(1) have "0 \<in># ?M" by auto
    from high_low_mem[OF that(2) this] c(1) show False by auto
  qed
  then have "is_run cards t \<longleftrightarrow> length cards \<le> t + 1 \<and> high_low (mset fixed) aces ?M"
    by (auto simp: is_run_def c(3))
  also have "\<dots> \<longleftrightarrow> (\<exists>m<ace_limit aces. good_mask fixed aces t m)"
    unfolding mset_run_vals[OF a, symmetric] by (auto simp: good_mask_def c(2))
  finally show ?thesis .
qed

text \<open>With every Ace low the first mask already succeeds, so the lowest reading wins.\<close>

lemma lower_run_is_first:
  assumes "collect_run cards [] 0 = Some (fixed, aces)" "length cards \<le> 30" "5 \<le> length cards"
    and "is_run cards t" "is_run cards t'" "t' < t"
  shows "good_mask fixed aces t' 0"
proof -
  from collect_run_reads[OF assms(1)] have c: "\<forall>v\<in>set fixed. 2 \<le> v \<and> v \<le> 13"
    "length fixed + aces = length cards" "\<And>M. reads_as cards M \<longleftrightarrow> high_low (mset fixed) aces M"
    by auto
  let ?M = "\<lambda>t. mset (run_to t (length cards))"
  have top: "x \<in># ?M x" for x using assms(3) by simp
  from assms(4) have "high_low (mset fixed) aces (?M t)" by (simp add: is_run_def c(3))
  from high_low_mem[OF this top] c(1) have "t \<le> 14" by auto
  from assms(5) obtain k where k: "k \<le> aces"
    "?M t' = mset fixed + replicate_mset k 14 + replicate_mset (aces - k) 1"
    by (auto simp: is_run_def c(3) high_low_def)
  have "k = 0"
  proof (rule ccontr)
    assume "k \<noteq> 0"
    then have "14 \<in># ?M t'" unfolding k(2) by simp
    with \<open>t \<le> 14\<close> \<open>t' < t\<close> show False by simp
  qed
  with k mset_ace_mask[of 0 aces] have "mset (run_vals fixed aces 0) = ?M t'"
    by (simp add: run_vals_def)
  with assms(5) show ?thesis by (simp add: good_mask_def c(2) is_run_def)
qed

lemma straightTop_Some:
  assumes "straightTop cards = Some t" "length cards \<le> 30"
  shows "5 \<le> length cards \<and> is_run cards t \<and> (\<forall>t'. is_run cards t' \<longrightarrow> t \<le> t')"
proof -
  from assms(1) obtain fixed aces where c: "5 \<le> length cards"
    "collect_run cards [] 0 = Some (fixed, aces)" "try_masks fixed aces [0..<ace_limit aces] = Some t"
    by (auto simp: straightTop_def split: if_splits option.splits)
  from collect_run_reads[OF c(2)] have n: "length fixed + aces = length cards" by auto
  then have a: "ace_limit aces = 2 ^ aces" using assms(2) by (intro ace_limit_small) simp
  have pos: "0 < length fixed + aces" unfolding n using c(1) by linarith
  let ?P = "\<lambda>m. \<exists>t. good_mask fixed aces t m"
  from c(3) obtain i where i: "find_index ?P [0..<ace_limit aces] = Some i"
    "t = last (run_vals fixed aces ([0..<ace_limit aces] ! i))"
    unfolding try_masks_iff[OF pos] by (auto split: option.splits)
  from find_index_Some[OF i(1)] have j: "i < ace_limit aces" "?P i"
    "\<And>j. j < i \<Longrightarrow> \<not> ?P j" by auto
  with i(2) good_mask_last[OF pos] have g: "good_mask fixed aces t i" by auto
  have r: "is_run cards t"
    using is_run_good_mask[OF c(2) assms(2)] g j(1) by blast
  have "t \<le> t'" if "is_run cards t'" for t'
  proof (rule ccontr)
    assume "\<not> t \<le> t'"
    then have g0: "good_mask fixed aces t' 0"
      using lower_run_is_first[OF c(2) assms(2) c(1) r that] by simp
    with j(3)[of 0] have "i = 0" by blast
    with good_mask_last[OF pos g] good_mask_last[OF pos g0] \<open>\<not> t \<le> t'\<close> show False by simp
  qed
  with r c(1) show ?thesis by blast
qed

lemma straightTop_None:
  assumes "straightTop cards = None" "length cards \<le> 30" "5 \<le> length cards"
  shows "\<not> is_run cards t"
proof (cases "list_ex is_joker cards")
  case True
  then show ?thesis by (simp add: is_run_def joker_never_reads)
next
  case False
  then obtain fixed aces where c: "collect_run cards [] 0 = Some (fixed, aces)"
    using collect_run_None[of cards "[]" 0] by (cases "collect_run cards [] 0") auto
  with assms(1,3) False have t: "try_masks fixed aces [0..<ace_limit aces] = None"
    by (simp add: straightTop_def)
  from collect_run_reads[OF c] have pos: "0 < length fixed + aces" using assms(3) by auto
  from t[unfolded try_masks_iff[OF pos]]
  have "find_index (\<lambda>m. \<exists>t. good_mask fixed aces t m) [0..<ace_limit aces] = None"
    by (simp split: option.splits)
  then show ?thesis
    using is_run_good_mask[OF c assms(2)] by (auto simp: find_index_None)
qed

text \<open>A run has at most fourteen cards, whatever the number of aces.\<close>

lemma run_vals_range:
  "\<forall>v\<in>set fixed. 2 \<le> v \<and> v \<le> 13 \<Longrightarrow> set (run_vals fixed aces m) \<subseteq> {1..14}"
  by (auto simp: run_vals_def)

lemma try_masks_Some_bound:
  assumes "\<forall>v\<in>set fixed. 2 \<le> v \<and> v \<le> 13" "try_masks fixed aces ms = Some t"
  shows "t \<le> 14 \<and> length fixed + aces \<le> 14"
  using assms(2)
proof (induction ms)
  case (Cons m ms)
  let ?v = "run_vals fixed aces m"
  show ?case
  proof (cases "distinct ?v \<and> consecutive ?v")
    case True
    with Cons.prems have t: "?v \<noteq> []" "t = last ?v" by (auto simp: Let_def split: if_splits)
    have sub: "set ?v \<subseteq> {1..14}" using assms(1) by (rule run_vals_range)
    have "length ?v = card (set ?v)" using True by (simp add: distinct_card del: length_run_vals)
    also have "\<dots> \<le> 14" using card_mono[OF _ sub] by simp
    finally have "length fixed + aces \<le> 14" by simp
    moreover from t sub last_in_set[of ?v] have "t \<in> {1..14}" by blast
    ultimately show ?thesis by simp
  next
    case False
    with Cons show ?thesis by (auto simp: Let_def split: if_splits)
  qed
qed simp

lemma straightTop_bound:
  assumes "straightTop cards = Some t"
  shows "t \<le> 14 \<and> 5 \<le> length cards \<and> length cards \<le> 14"
proof -
  from assms obtain fixed aces where c: "5 \<le> length cards"
    "collect_run cards [] 0 = Some (fixed, aces)" "try_masks fixed aces [0..<ace_limit aces] = Some t"
    by (auto simp: straightTop_def split: if_splits option.splits)
  from collect_run_reads[OF c(2)] try_masks_Some_bound[OF _ c(3)] c(1) show ?thesis by auto
qed

lemma is_run_bound:
  assumes "is_run cards t" "cards \<noteq> []"
  shows "t \<le> 14 \<and> length cards \<le> 14"
proof -
  from assms(1) obtain vs where vs: "list_all2 (\<lambda>c v. v \<in> run_values c) cards vs"
    "mset vs = mset (run_to t (length cards))" by (auto simp: is_run_def reads_as_def)
  have "v \<le> 14" if "v \<in> run_values c" for c v
    using that seq_of_bounds by (fastforce simp: run_values_def split: card.splits option.splits)
  with vs(1) have "\<forall>v\<in>set vs. v \<le> 14"
    by (metis in_set_conv_nth list_all2_conv_all_nth)
  moreover have "t \<in> set vs"
  proof -
    have "t \<in> set (run_to t (length cards))" using assms(2) by (cases cards) simp_all
    with vs(2) show ?thesis by (metis set_mset_mset)
  qed
  ultimately have "t \<le> 14" by blast
  with assms show ?thesis by (simp add: is_run_def)
qed

text \<open>C28: \<^verbatim>\<open>straightTop\<close> decides runs completely. It answers with a number exactly when there
  are at least five cards that can be read (each Ace low or high) as consecutive values, and the
  number is the smallest top such a reading has; every shorter, gapped, repeated or joker hand
  gets \<^verbatim>\<open>null\<close>, whatever the number of cards and aces.\<close>

theorem straightTop_spec:
  "straightTop cards =
     (if 5 \<le> length cards \<and> (\<exists>t. is_run cards t) then Some (LEAST t. is_run cards t) else None)"
proof (cases "straightTop cards")
  case None
  have "\<not> (5 \<le> length cards \<and> is_run cards t)" for t
    using straightTop_None[OF None, of t] is_run_bound[of cards t]
    by (cases "cards = []") auto
  with None show ?thesis by auto
next
  case (Some t)
  with straightTop_bound[OF Some]
  have s: "5 \<le> length cards" "is_run cards t" "\<And>t'. is_run cards t' \<Longrightarrow> t \<le> t'"
    using straightTop_Some[OF Some] by auto
  then have "(LEAST t. is_run cards t) = t" by (intro Least_equality) auto
  with s Some show ?thesis by auto
qed

subsection \<open>Combinations, specified by what a player sees\<close>

definition same_rank :: "card list \<Rightarrow> bool" where
  "same_rank cards \<longleftrightarrow> (\<exists>r. \<forall>c\<in>set cards. \<exists>s. c = Standard r s)"

definition same_suit :: "card list \<Rightarrow> bool" where
  "same_suit cards \<longleftrightarrow> (\<exists>s. \<forall>c\<in>set cards. \<exists>r. c = Standard r s)"

lemma has_rank_iff: "has_rank (Some r) c \<longleftrightarrow> (\<exists>s. c = Standard r s)"
  by (cases c) auto

lemma has_suit_iff: "has_suit (Some s) c \<longleftrightarrow> (\<exists>r. c = Standard r s)"
  by (cases c) auto

lemma allSameRank_iff:
  assumes "cards \<noteq> []"
  shows "allSameRank cards \<longleftrightarrow> same_rank cards"
proof (cases "hd cards")
  case (Standard r s)
  with assms obtain cs where c: "cards = Standard r s # cs" by (cases cards) auto
  have "\<not> list_ex is_joker cards" if "\<forall>c\<in>set cards. \<exists>s. c = Standard r s"
    using that by (force simp: list_ex_iff)
  with c show ?thesis
    by (auto simp: allSameRank_def same_rank_def list_all_iff has_rank_iff)
next
  case (Joker j)
  with assms obtain cs where "cards = Joker j # cs" by (cases cards) auto
  then show ?thesis by (simp add: allSameRank_def same_rank_def)
qed

lemma allSameSuit_iff:
  assumes "cards \<noteq> []"
  shows "allSameSuit cards \<longleftrightarrow> same_suit cards"
proof (cases "hd cards")
  case (Standard r s)
  with assms obtain cs where c: "cards = Standard r s # cs" by (cases cards) auto
  have "\<not> list_ex is_joker cards" if "\<forall>c\<in>set cards. \<exists>r. c = Standard r s"
    using that by (force simp: list_ex_iff)
  with c show ?thesis
    by (auto simp: allSameSuit_def same_suit_def list_all_iff has_suit_iff)
next
  case (Joker j)
  with assms obtain cs where "cards = Joker j # cs" by (cases cards) auto
  then show ?thesis by (simp add: allSameSuit_def same_suit_def)
qed

lemma same_rank_first: "same_rank cards \<Longrightarrow> cards \<noteq> [] \<Longrightarrow> \<exists>r. first_rank cards = Some r"
  by (cases cards) (auto simp: same_rank_def)

definition combo_kind :: "card list \<Rightarrow> combo_type option" where
  "combo_kind cards =
     (if length cards = 1 then Some SingleC
      else if length cards = 2 \<and> same_rank cards then Some PairC
      else if length cards = 3 \<and> same_rank cards then Some TripleC
      else if length cards = 4 \<and> same_rank cards then Some BombC
      else if 5 \<le> length cards \<and> (\<exists>t. is_run cards t)
           then Some (if same_suit cards then FlushC else KolorC)
      else None)"

lemma straightTop_is_run: "(\<exists>t. straightTop cards = Some t) \<longleftrightarrow> 5 \<le> length cards \<and> (\<exists>t. is_run cards t)"
  using straightTop_Some straightTop_bound straightTop_None is_run_bound
  by (cases "straightTop cards")
     (fastforce dest: straightTop_None is_run_bound)+

lemma group_combo_Some:
  assumes "cards \<noteq> []"
  shows "group_combo ty cards n = Some c \<longleftrightarrow>
    same_rank cards \<and> (\<exists>r. first_rank cards = Some r \<and> c = \<lparr>c_type = ty, c_cards = cards,
      c_size = n, c_power = Some (power_of r), c_topSeq = None\<rparr>)"
  using same_rank_first[OF _ assms] by (auto simp: group_combo_def allSameRank_iff[OF assms])

lemma identifyCombo_long:
  assumes "5 \<le> length cards"
  shows "identifyCombo cards = map_option (\<lambda>t. \<lparr>c_type = (if allSameSuit cards then FlushC else KolorC),
     c_cards = cards, c_size = length cards, c_power = None, c_topSeq = Some t\<rparr>) (straightTop cards)"
proof -
  have "length cards \<noteq> 0" "length cards \<noteq> 1" "length cards \<noteq> 2" "length cards \<noteq> 3"
    "length cards \<noteq> 4" using assms by auto
  then show ?thesis by (simp only: identifyCombo_def Let_def if_False) (cases "straightTop cards"; simp)
qed

lemma identifyCombo_facts:
  assumes "identifyCombo cards = Some c"
  shows "c_cards c = cards \<and> combo_wf c \<and> combo_kind cards = Some (c_type c)"
proof -
  from assms have ne: "cards \<noteq> []" by (auto simp: identifyCombo_def)
  note g = group_combo_Some[OF ne]
  consider "length cards = 1" | "length cards = 2" | "length cards = 3" | "length cards = 4"
    | "5 \<le> length cards" using ne by (cases "length cards") (auto, linarith)
  then show ?thesis
  proof cases
    case 1
    with assms ne singlePower_bound show ?thesis
      by (auto simp: identifyCombo_def Let_def combo_wf_def combo_kind_def)
  next
    case 5
    with assms obtain t where t: "straightTop cards = Some t"
      "c = \<lparr>c_type = (if allSameSuit cards then FlushC else KolorC), c_cards = cards,
             c_size = length cards, c_power = None, c_topSeq = Some t\<rparr>"
      by (auto simp: identifyCombo_long)
    moreover from t(1) have "\<exists>t. is_run cards t" using straightTop_is_run by blast
    ultimately show ?thesis using 5 ne straightTop_bound[OF t(1)]
      by (auto simp: combo_wf_def combo_kind_def allSameSuit_iff[OF ne])
  qed (use assms ne in \<open>auto simp: identifyCombo_def Let_def combo_wf_def combo_kind_def g\<close>)
qed

lemma identifyCombo_None:
  assumes "identifyCombo cards = None"
  shows "combo_kind cards = None"
proof (cases "cards = []")
  case True
  then show ?thesis by (simp add: combo_kind_def)
next
  case False
  note a = allSameRank_iff[OF False]
  consider "length cards = 1" | "length cards = 2" | "length cards = 3" | "length cards = 4"
    | "5 \<le> length cards" using False by (cases "length cards") (auto, linarith)
  then show ?thesis
  proof cases
    case 5
    with assms have "straightTop cards = None" by (simp add: identifyCombo_long)
    with 5 straightTop_is_run[of cards] show ?thesis by (simp add: combo_kind_def)
  qed (use assms a in \<open>auto simp: identifyCombo_def Let_def group_combo_def combo_kind_def
      split: if_splits\<close>)
qed

text \<open>C30: \<^verbatim>\<open>identifyCombo\<close> classifies every non-empty or empty set of cards as the rules say:
  one card is a single; two, three or four standard cards of one rank are a pair, a triple or a
  bomb; five or more cards that read as consecutive values are a flush when they share a suit and
  a kolor otherwise; anything else is no combination. The combination carries exactly the cards
  that were played.\<close>

theorem identifyCombo_classifies:
  "map_option c_type (identifyCombo cards) = combo_kind cards \<and>
   map_option c_cards (identifyCombo cards) =
     (if combo_kind cards = None then None else Some cards)"
  using identifyCombo_facts[of cards] identifyCombo_None[of cards]
  by (cases "identifyCombo cards") auto

subsection \<open>Legal plays\<close>

lemma validatePlay_ok:
  "pc_ok (validatePlay cards current) \<longleftrightarrow>
     (\<exists>c. identifyCombo cards = Some c \<and> pc_combo (validatePlay cards current) = Some c \<and>
        (case current of None \<Rightarrow> True | Some cur \<Rightarrow> beats c cur))"
  by (auto simp: validatePlay_def split: option.splits)

lemma validatePlay_combo:
  assumes "pc_ok (validatePlay cards current)"
  obtains c where "identifyCombo cards = Some c" "pc_combo (validatePlay cards current) = Some c"
    "combo_wf c" "c_cards c = cards" "cards \<noteq> []"
  using assms identifyCombo_facts that
  by (metis combo_wf_def validatePlay_ok)

text \<open>The plays of one trick: each is accepted by \<^verbatim>\<open>validatePlay\<close> against the one before.\<close>

fun trick :: "combo option \<Rightarrow> card list list \<Rightarrow> bool" where
  "trick cur [] = True"
| "trick cur (p # ps) =
     (pc_ok (validatePlay p cur) \<and> trick (pc_combo (validatePlay p cur)) ps)"

lemma trick_bound:
  "combo_wf c \<Longrightarrow> trick (Some c) ps \<Longrightarrow> strength c + length ps \<le> 44"
proof (induction ps arbitrary: c)
  case Nil
  then show ?case using strength_bound by simp
next
  case (Cons p ps)
  then obtain d where d: "identifyCombo p = Some d" "pc_combo (validatePlay p (Some c)) = Some d"
    "beats d c" by (auto simp: validatePlay_ok)
  then have "combo_wf d" using identifyCombo_facts by blast
  with Cons d show ?case using beats_strength[of d c] Cons.IH[of d] by fastforce
qed

text \<open>The beat relation makes every trick finite. No combination beats itself, two
  combinations never beat each other, and a sequence of plays in which each is accepted against
  the one before it, starting on an empty pile, has at most 45 plays.\<close>

theorem trick_is_finite:
  "trick None ps \<Longrightarrow> length ps \<le> 45 \<and> \<not> beats c c \<and> \<not> (beats c d \<and> beats d c)"
proof -
  assume t: "trick None ps"
  have "length ps \<le> 45"
  proof (cases ps)
    case (Cons p qs)
    with t obtain c where "combo_wf c" "pc_combo (validatePlay p None) = Some c"
      by (auto elim: validatePlay_combo)
    with t Cons trick_bound[of c qs] show ?thesis by auto
  qed simp
  with beats_irrefl beats_asym show ?thesis by blast
qed

theorem trick_is_finite_witness:
  "length [[Standard R3 Spades], [Standard R5 Clubs], [Joker Red]] \<le> 45"
  using trick_is_finite[of "[[Standard R3 Spades], [Standard R5 Clubs], [Joker Red]]"]
  by (simp add: validatePlay_def identifyCombo_def beats_def)

subsection \<open>The shuffle and the deal\<close>

definition rng_ok :: "('g \<Rightarrow> rat \<times> 'g) \<Rightarrow> bool" where
  "rng_ok rng \<longleftrightarrow> (\<forall>g. 0 \<le> fst (rng g) \<and> fst (rng g) < 1)"

lemma swap_mset:
  "i < length a \<Longrightarrow> j < length a \<Longrightarrow> mset (a[i := a ! j, j := a ! i]) = mset a"
  by (metis mset_swap list_update_swap nth_list_update_neq list_update_id)

lemma scaled_index: "0 \<le> r \<Longrightarrow> r < 1 \<Longrightarrow> 0 < n \<Longrightarrow> nat \<lfloor>r * of_nat n\<rfloor> < n" for r :: rat
proof -
  assume r: "0 \<le> r" "r < 1" "0 < n"
  then have "r * of_nat n < 1 * of_nat n" by (intro mult_strict_right_mono) auto
  then have "\<lfloor>r * of_nat n\<rfloor> < int n" by (simp add: floor_less_iff)
  then show ?thesis using r(3) by linarith
qed

lemma shuffle_loop_mset:
  assumes "rng_ok rng"
  shows "k < length a \<Longrightarrow> mset (fst (shuffle_loop rng k a g)) = mset a"
proof (induction k arbitrary: a g)
  case (Suc k)
  obtain r g' where r: "rng g = (r, g')" by (cases "rng g")
  define j where "j = nat \<lfloor>r * of_nat (Suc k + 1)\<rfloor>"
  from assms r have "0 \<le> r" "r < 1" unfolding rng_ok_def by (metis fst_conv)+
  then have "j < Suc k + 1" unfolding j_def by (intro scaled_index) auto
  then have j: "j < length a" using Suc.prems by simp
  let ?b = "a[Suc k := a ! j, j := a ! Suc k]"
  have "mset (fst (shuffle_loop rng k ?b g')) = mset ?b" using Suc.prems by (intro Suc.IH) simp
  also have "\<dots> = mset a" using Suc.prems j by (rule swap_mset)
  finally show ?case by (simp add: r j_def Let_def)
qed simp

lemma shuffle_mset:
  assumes "rng_ok rng"
  shows "mset (fst (shuffle arr rng g)) = mset arr"
proof (cases arr)
  case (Cons x xs)
  then show ?thesis by (simp add: shuffle_def shuffle_loop_mset[OF assms])
qed (simp add: shuffle_def)

lemma concat_deal_slices: "concat (deal_slices deck sizes i) = take (sum_list sizes) (drop i deck)"
  by (induction deck sizes i rule: deal_slices.induct) (simp_all add: take_add add.commute)

lemma length_deal_slices:
  "i + sum_list sizes \<le> length deck \<Longrightarrow> map length (deal_slices deck sizes i) = sizes"
  by (induction deck sizes i rule: deal_slices.induct) auto

lemma dealSizes_sum: "sum_list (dealSizes n) \<le> 54"
  by (simp add: dealSizes_def)

lemma deal_facts:
  assumes "rng_ok rng"
  shows "map length (fst (deal n rng g)) = dealSizes n"
    and "distinct (concat (fst (deal n rng g)))"
    and "n \<noteq> 2 \<Longrightarrow> mset (concat (fst (deal n rng g))) = mset buildDeck"
proof -
  obtain deck g' where sh: "shuffle buildDeck rng g = (deck, g')"
    by (cases "shuffle buildDeck rng g")
  then have m: "mset deck = mset buildDeck" using shuffle_mset[OF assms, of buildDeck g] by simp
  then have len: "length deck = 54" using buildDeck_length by (metis mset_eq_length)
  have d: "distinct deck" using m buildDeck_distinct by (metis mset_eq_imp_distinct_iff)
  have hands: "fst (deal n rng g) = deal_slices deck (dealSizes n) 0" by (simp add: deal_def sh)
  show "map length (fst (deal n rng g)) = dealSizes n"
    unfolding hands using len dealSizes_sum[of n] by (intro length_deal_slices) simp
  show "distinct (concat (fst (deal n rng g)))"
    unfolding hands concat_deal_slices using d by simp
  show "mset (concat (fst (deal n rng g))) = mset buildDeck" if "n \<noteq> 2"
    unfolding hands concat_deal_slices using that len m by (simp add: dealSizes_def)
qed

text \<open>For every random source that stays in [0, 1) the shuffle is a permutation, and the
  deal hands out disjoint hands of the sizes of the mode, with no card twice; with three or four
  players the whole 54-card deck is dealt, and with two players 36 of its cards.\<close>

theorem deal_correct:
  assumes "rng_ok rng"
  shows "mset (fst (shuffle arr rng g)) = mset arr \<and>
    map length (fst (deal n rng g)) = dealSizes n \<and>
    distinct (concat (fst (deal n rng g))) \<and>
    (n = 2 \<or> mset (concat (fst (deal n rng g))) = mset buildDeck)"
  using shuffle_mset[OF assms, of arr g] deal_facts[OF assms, of n g] by auto

definition half_rng :: "nat \<Rightarrow> rat \<times> nat" where
  "half_rng s = (if even s then 0 else 1/2, s + 1)"

theorem deal_correct_witness:
  "mset (fst (shuffle [1, 2, 3 :: nat] half_rng 0)) = {#1, 2, 3#} \<and>
   map length (fst (deal 4 half_rng 0)) = [14, 14, 13, 13] \<and>
   mset (concat (fst (deal 4 half_rng 0))) = mset buildDeck"
proof -
  have r: "rng_ok half_rng" by (simp add: rng_ok_def half_rng_def)
  show ?thesis
    using deal_correct[OF r, of "[1, 2, 3 :: nat]" 0 4] by (simp add: dealSizes_def)
qed

end
