(* ===== verification/Single_Game.thy ===== *)
theory Single_Game
  imports Engine
begin

text \<open>
  One game from the dealt hands to the finishing order
  (\<^verbatim>\<open>packages/server/src/game/singleGame.ts\<close>, class \<^verbatim>\<open>SingleGame\<close>).

  The private fields of the class are the record \<open>game\<close>. The methods \<^verbatim>\<open>play\<close>,
  \<^verbatim>\<open>pass\<close> and \<^verbatim>\<open>forfeitSeat\<close> are \<open>game_play\<close>, \<open>game_pass\<close> and
  \<open>game_forfeitSeat\<close>; each returns its result together with the new game. The two sets
  \<^verbatim>\<open>passed\<close> and \<^verbatim>\<open>gone\<close> keep their insertion order, which the code uses when
  it places the players who left.
\<close>

datatype game_status = Playing | Finished

datatype game_event =
  Played seat combo
| Passed seat
| TrickWon int "seat option"
| PlayerFinished seat nat
| GameEnded "seat list"

record action_result =
  ar_ok :: bool
  ar_code :: "string option"
  ar_events :: "game_event list"

record game =
  g_numPlayers :: nat
  g_hands :: "card list list"
  g_active :: "bool list"
  g_passed :: "seat list"
  g_finishingOrder :: "seat list"
  g_gone :: "seat list"
  g_pile :: "combo option"
  g_pileOwner :: "seat option"
  g_turn :: "seat option"
  g_status :: game_status
  g_openingCard :: "card option"
  g_opened :: bool

subsection \<open>Internals\<close>

definition activeCount :: "game \<Rightarrow> nat" where
  "activeCount g = foldl (\<lambda>n a. n + (if a then 1 else 0)) 0 (g_active g)"

definition seats_after :: "nat \<Rightarrow> seat \<Rightarrow> seat list" where
  "seats_after n from = map (\<lambda>step. (from + step) mod n) [1..<n + 1]"

definition nextActiveAfter :: "seat \<Rightarrow> game \<Rightarrow> seat option" where
  "nextActiveAfter from g = List.find (\<lambda>s. g_active g ! s) (seats_after (g_numPlayers g) from)"

definition nextEligible :: "seat \<Rightarrow> game \<Rightarrow> seat option" where
  "nextEligible from g =
     List.find (\<lambda>s. g_active g ! s \<and> s \<notin> set (g_passed g)) (seats_after (g_numPlayers g) from)"

definition contendersExcludingOwner :: "game \<Rightarrow> seat list" where
  "contendersExcludingOwner g =
     filter (\<lambda>s. Some s \<noteq> g_pileOwner g \<and> g_active g ! s \<and> s \<notin> set (g_passed g))
       [0..<g_numPlayers g]"

fun no_repeat_from :: "string list \<Rightarrow> string list \<Rightarrow> card list \<Rightarrow> bool" where
  "no_repeat_from handIds seen [] = True"
| "no_repeat_from handIds seen (c # cs) =
     (if cardId c \<in> set seen then False
      else if cardId c \<notin> set handIds then False
      else no_repeat_from handIds (set_add (cardId c) seen) cs)"

definition handHasAll :: "seat \<Rightarrow> card list \<Rightarrow> game \<Rightarrow> bool" where
  "handHasAll seat cards g = no_repeat_from (map cardId (g_hands g ! seat)) [] cards"

definition removeCards :: "seat \<Rightarrow> card list \<Rightarrow> game \<Rightarrow> game" where
  "removeCards seat cards g =
     g\<lparr>g_hands := (g_hands g)[seat :=
        filter (\<lambda>c. cardId c \<notin> set (map cardId cards)) (g_hands g ! seat)]\<rparr>"

definition place_holder :: "game \<Rightarrow> seat \<Rightarrow> game" where
  "place_holder g s =
     (if g_active g ! s \<and> s \<notin> set (g_gone g)
      then g\<lparr>g_active := (g_active g)[s := False], g_finishingOrder := g_finishingOrder g @ [s]\<rparr>
      else g)"

definition endGame :: "game \<Rightarrow> game_event list \<Rightarrow> game \<times> game_event list" where
  "endGame g events =
     (if g_status g = Finished then (g, events)
      else
        let g1 = foldl place_holder g [0..<g_numPlayers g];
            order = foldl (\<lambda>ord s. if s \<in> set ord then ord else ord @ [s])
                      (g_finishingOrder g1) (rev (g_gone g1));
            g2 = g1\<lparr>g_finishingOrder := order, g_status := Finished, g_turn := None,
                     g_pile := None, g_pileOwner := None, g_passed := []\<rparr>
        in (g2, events @ [GameEnded order]))"

definition resolveTrick :: "game \<Rightarrow> game_event list \<Rightarrow> game \<times> game_event list" where
  "resolveTrick g events =
     (let winner = g_pileOwner g;
          leadsNext = (case winner of
              Some w \<Rightarrow> if g_active g ! w then Some w else nextActiveAfter w g
            | None \<Rightarrow> None);
          g1 = g\<lparr>g_pile := None, g_pileOwner := None, g_passed := [], g_turn := leadsNext\<rparr>;
          events1 = events @ [TrickWon (case winner of Some w \<Rightarrow> int w | None \<Rightarrow> -1) leadsNext]
      in if leadsNext = None \<or> activeCount g1 \<le> 1 then endGame g1 events1 else (g1, events1))"

definition afterAction :: "seat \<Rightarrow> game \<Rightarrow> game_event list \<Rightarrow> game \<times> game_event list" where
  "afterAction seat g events =
     (if contendersExcludingOwner g = [] then resolveTrick g events
      else (g\<lparr>g_turn := nextEligible seat g\<rparr>, events))"

subsection \<open>Construction and reads\<close>

datatype game_error = WrongHandCount | LeaderOutOfRange

definition startGame ::
  "nat \<Rightarrow> card list list \<Rightarrow> seat \<Rightarrow> card option \<Rightarrow> game_error + game" where
  "startGame numPlayers hands leader openingCard =
     (if length hands \<noteq> numPlayers then Inl WrongHandCount
      else if leader \<ge> numPlayers then Inl LeaderOutOfRange
      else
        let g = \<lparr>g_numPlayers = numPlayers, g_hands = hands,
                 g_active = map (\<lambda>h. length h > 0) hands, g_passed = [], g_finishingOrder = [],
                 g_gone = [], g_pile = None, g_pileOwner = None, g_turn = Some leader,
                 g_status = Playing, g_openingCard = openingCard, g_opened = False\<rparr>
        in Inr (if \<not> g_active g ! leader
                then (case nextActiveAfter leader g of
                        None \<Rightarrow> g\<lparr>g_turn := None, g_status := Finished\<rparr>
                      | Some s \<Rightarrow> g\<lparr>g_turn := Some s\<rparr>)
                else g))"

definition handOf :: "seat \<Rightarrow> game \<Rightarrow> card list" where
  "handOf seat g = (if seat < length (g_hands g) then g_hands g ! seat else [])"

definition isOver :: "game \<Rightarrow> bool" where
  "isOver g = (g_status g = Finished)"

record game_snapshot =
  gs_numPlayers :: nat
  gs_status :: game_status
  gs_turn :: "seat option"
  gs_pile :: "combo option"
  gs_pileOwner :: "seat option"
  gs_handCounts :: "nat list"
  gs_active :: "bool list"
  gs_passed :: "seat list"
  gs_finishingOrder :: "seat list"
  gs_gone :: "seat list"
  gs_openingCard :: "card option"

definition game_snapshot_of :: "game \<Rightarrow> game_snapshot" where
  "game_snapshot_of g =
     \<lparr>gs_numPlayers = g_numPlayers g, gs_status = g_status g, gs_turn = g_turn g,
      gs_pile = g_pile g, gs_pileOwner = g_pileOwner g, gs_handCounts = map length (g_hands g),
      gs_active = g_active g, gs_passed = sort (g_passed g),
      gs_finishingOrder = g_finishingOrder g, gs_gone = sort (g_gone g),
      gs_openingCard = (if g_opened g then None else g_openingCard g)\<rparr>"

subsection \<open>Actions\<close>

definition game_fail :: "string \<Rightarrow> action_result" where
  "game_fail code = \<lparr>ar_ok = False, ar_code = Some code, ar_events = []\<rparr>"

definition game_ok :: "game_event list \<Rightarrow> action_result" where
  "game_ok events = \<lparr>ar_ok = True, ar_code = None, ar_events = events\<rparr>"

definition opening_missed :: "card list \<Rightarrow> game \<Rightarrow> bool" where
  "opening_missed cards g =
     (case g_openingCard g of
        None \<Rightarrow> False
      | Some oc \<Rightarrow> \<not> g_opened g \<and> \<not> list_ex (\<lambda>x. cardId x = cardId oc) cards)"

definition commit_play :: "seat \<Rightarrow> card list \<Rightarrow> combo \<Rightarrow> game \<Rightarrow> game" where
  "commit_play seat cards combo g =
     (removeCards seat cards g)\<lparr>g_pile := Some combo, g_pileOwner := Some seat, g_passed := [],
        g_opened := True\<rparr>"

definition after_play :: "seat \<Rightarrow> combo \<Rightarrow> game \<Rightarrow> game \<times> game_event list" where
  "after_play seat combo g1 =
     (if g_hands g1 ! seat = [] then
        let g2 = g1\<lparr>g_active := (g_active g1)[seat := False],
                     g_finishingOrder := g_finishingOrder g1 @ [seat]\<rparr>;
            events = [Played seat combo, PlayerFinished seat (length (g_finishingOrder g2))]
        in if activeCount g2 \<le> 1 then endGame g2 events else afterAction seat g2 events
      else afterAction seat g1 [Played seat combo])"

definition game_play :: "seat \<Rightarrow> card list \<Rightarrow> game \<Rightarrow> action_result \<times> game" where
  "game_play seat cards g =
     (if g_status g = Finished then (game_fail ''game_over'', g)
      else if Some seat \<noteq> g_turn g then (game_fail ''not_your_turn'', g)
      else if cards = [] then (game_fail ''no_cards_selected'', g)
      else if \<not> handHasAll seat cards g then (game_fail ''not_your_cards'', g)
      else if opening_missed cards g then (game_fail ''must_open'', g)
      else
        let check = validatePlay cards (g_pile g) in
        case (pc_ok check, pc_combo check) of
          (True, Some combo) \<Rightarrow>
            (let (g', events) = after_play seat combo (commit_play seat cards combo g)
             in (game_ok events, g'))
        | _ \<Rightarrow> (game_fail (case pc_code check of None \<Rightarrow> ''illegal'' | Some c \<Rightarrow> c), g))"

definition game_pass :: "seat \<Rightarrow> game \<Rightarrow> action_result \<times> game" where
  "game_pass seat g =
     (if g_status g = Finished then (game_fail ''game_over'', g)
      else if Some seat \<noteq> g_turn g then (game_fail ''not_your_turn'', g)
      else if g_pile g = None then (game_fail ''cannot_pass_leading'', g)
      else
        let (g', events) = afterAction seat (g\<lparr>g_passed := set_add seat (g_passed g)\<rparr>) [Passed seat]
        in (game_ok events, g'))"

definition leave_turn :: "seat \<Rightarrow> game \<Rightarrow> game \<times> game_event list" where
  "leave_turn seat g =
     (if g_pile g = None then
        let g1 = g\<lparr>g_turn := nextActiveAfter seat g\<rparr>
        in if g_turn g1 = None then endGame g1 [] else (g1, [])
      else if contendersExcludingOwner g = [] then resolveTrick g []
      else (g\<lparr>g_turn := nextEligible seat g\<rparr>, []))"

definition game_forfeitSeat :: "seat \<Rightarrow> game \<Rightarrow> game_event list \<times> game" where
  "game_forfeitSeat seat g =
     (if g_status g = Finished then ([], g)
      else if seat \<ge> g_numPlayers g then ([], g)
      else if seat \<in> set (g_gone g) then ([], g)
      else
        let g1 = g\<lparr>g_gone := set_add seat (g_gone g)\<rparr> in
        if \<not> g_active g1 ! seat then ([], g1)
        else
          let g2 = g1\<lparr>g_active := (g_active g1)[seat := False],
                       g_passed := set_delete seat (g_passed g1)\<rparr>;
              (g3, events) = (if g_turn g2 = Some seat then leave_turn seat g2 else (g2, []));
              (g4, events') = (if \<not> isOver g3 \<and> activeCount g3 \<le> 1 then endGame g3 events
                               else (g3, events))
          in (events', g4))"

datatype game_action = PlayAction seat "card list" | PassAction seat

fun game_apply :: "game_action \<Rightarrow> game \<Rightarrow> action_result \<times> game" where
  "game_apply (PlayAction seat cards) g = game_play seat cards g"
| "game_apply (PassAction seat) g = game_pass seat g"

text \<open>Everything the server may do to a running game: one action or one abandonment.\<close>

datatype game_op = Act game_action | Leave seat

fun game_step :: "game \<Rightarrow> game_op \<Rightarrow> game" where
  "game_step g (Act a) = snd (game_apply a g)"
| "game_step g (Leave seat) = snd (game_forfeitSeat seat g)"

subsection \<open>Counting and scanning seats\<close>

definition eligible :: "game \<Rightarrow> seat \<Rightarrow> bool" where
  "eligible g s \<longleftrightarrow> g_active g ! s \<and> s \<notin> set (g_passed g)"

lemma count_active: "foldl (\<lambda>n a. n + (if a then 1 else 0)) k as = k + length (filter id as)"
  by (induction as arbitrary: k) auto

lemma activeCount_card: "activeCount g = card {s. s < length (g_active g) \<and> g_active g ! s}"
  by (simp add: activeCount_def count_active length_filter_conv_card)

lemma activeCount_cong: "g_active g = g_active h \<Longrightarrow> activeCount g = activeCount h"
  by (simp add: activeCount_def)

lemma find_seats_after:
  assumes "List.find P (seats_after n from) = Some s"
  obtains k where "0 < k" "k \<le> n" "s = (from + k) mod n" "P s"
    "\<And>j. 0 < j \<Longrightarrow> j < k \<Longrightarrow> \<not> P ((from + j) mod n)"
proof -
  from assms obtain i where i: "i < n" "P (seats_after n from ! i)" "s = seats_after n from ! i"
    "\<forall>j<i. \<not> P (seats_after n from ! j)"
    by (auto simp: find_Some_iff seats_after_def simp del: upt_Suc)
  have at: "seats_after n from ! j = (from + Suc j) mod n" if "j < n" for j
    using that by (simp add: seats_after_def nth_append del: upt_Suc)
  show ?thesis
  proof (rule that[of "Suc i"])
    show "\<not> P ((from + j) mod n)" if "0 < j" "j < Suc i" for j
      using i(4) at[of "j - 1"] i(1) that by (cases j) auto
  qed (use i at in auto)
qed

lemma set_seats_after: "0 < n \<Longrightarrow> set (seats_after n from) = {..<n}"
proof
  assume n: "0 < n"
  show "set (seats_after n from) \<subseteq> {..<n}" using n by (auto simp: seats_after_def simp del: upt_Suc)
  show "{..<n} \<subseteq> set (seats_after n from)"
  proof
    fix s assume "s \<in> {..<n}"
    then have s: "s < n" by simp
    define k where "k = (s + n - from mod n - 1) mod n + 1"
    have "(from + k) mod n = (from mod n + k) mod n" by (simp add: mod_add_left_eq)
    also have "from mod n + k = (from mod n + 1) + (s + n - from mod n - 1) mod n" by (simp add: k_def)
    also have "\<dots> mod n = (from mod n + 1 + (s + n - from mod n - 1)) mod n" by (rule mod_add_right_eq)
    also have "from mod n + 1 + (s + n - from mod n - 1) = from mod n + (s + n - from mod n - 1) + 1"
      by simp
    also have "from mod n + (s + n - from mod n - 1) + 1 = s + n"
      using n mod_less_divisor[OF n, of "from"] by linarith
    finally have "(from + k) mod n = s" using s by simp
    moreover have "k \<in> {1..<n + 1}" using n mod_less_divisor[OF n] by (auto simp: k_def)
    ultimately show "s \<in> set (seats_after n from)"
      unfolding seats_after_def set_map set_upt by (rule image_eqI[OF sym])
  qed
qed

lemma find_seats_after_None:
  "0 < n \<Longrightarrow> List.find P (seats_after n from) = None \<longleftrightarrow> (\<forall>s<n. \<not> P s)"
  by (auto simp: find_None_iff set_seats_after)

text \<open>
  Seats are counted from the owner of the pile. When every seat up to distance \<open>d\<close> has
  nothing to say and somebody else still has, the scan from distance \<open>d\<close> stops before it
  comes back to the owner.
\<close>

lemma scan_from_owner:
  assumes "owner < n" "d < n" "\<And>j. 0 < j \<Longrightarrow> j \<le> d \<Longrightarrow> \<not> P ((owner + j) mod n)"
    and "c < n" "c \<noteq> owner" "P c"
  obtains d' where "d < d'" "d' < n" "P ((owner + d') mod n)"
    "List.find P (seats_after n ((owner + d) mod n)) = Some ((owner + d') mod n)"
    "\<And>j. 0 < j \<Longrightarrow> j < d' \<Longrightarrow> \<not> P ((owner + j) mod n)"
proof -
  define e where "e = (c + n - owner) mod n"
  have c: "c = (owner + e) mod n" "0 < e" "e < n"
  proof -
    show "c = (owner + e) mod n" using assms(1,4) by (simp add: e_def mod_add_right_eq)
    then show "0 < e" using assms(1,5) by (cases e) auto
    show "e < n" using assms(4) by (simp add: e_def)
  qed
  have "d < e" using assms(3)[of e] assms(6) c by (metis not_le)
  have add: "((owner + d) mod n + k) mod n = (owner + (d + k)) mod n" for k
    by (simp add: mod_add_left_eq add.assoc)
  have "List.find P (seats_after n ((owner + d) mod n)) \<noteq> None"
    using assms(4,6) find_seats_after_None[of n P] by auto
  then obtain s where s: "List.find P (seats_after n ((owner + d) mod n)) = Some s" by blast
  then obtain k where k: "0 < k" "s = (owner + (d + k)) mod n" "P s"
    "\<And>j. 0 < j \<Longrightarrow> j < k \<Longrightarrow> \<not> P ((owner + (d + j)) mod n)"
    by (auto elim!: find_seats_after simp: add)
  have "k \<le> e - d"
  proof (rule ccontr)
    assume "\<not> k \<le> e - d"
    with k(4)[of "e - d"] \<open>d < e\<close> c(1) assms(6) show False by simp
  qed
  show ?thesis
  proof (rule that[of "d + k"])
    show "\<not> P ((owner + j) mod n)" if "0 < j" "j < d + k" for j
      using assms(3)[of j] k(4)[of "j - d"] that by (cases "j \<le> d") auto
  qed (use k s \<open>k \<le> e - d\<close> \<open>d < e\<close> c(3) in auto)
qed

subsection \<open>The invariant of a game\<close>

definition core_inv :: "game \<Rightarrow> bool" where
  "core_inv g \<longleftrightarrow>
     0 < g_numPlayers g \<and> length (g_hands g) = g_numPlayers g \<and>
     length (g_active g) = g_numPlayers g \<and>
     distinct (g_gone g) \<and> set (g_gone g) \<subseteq> {..<g_numPlayers g} \<and>
     distinct (g_finishingOrder g) \<and>
     (\<forall>s<g_numPlayers g. g_active g ! s \<longleftrightarrow> g_hands g ! s \<noteq> [] \<and> s \<notin> set (g_gone g)) \<and>
     set (g_finishingOrder g) = {s. s < g_numPlayers g \<and> g_hands g ! s = []} \<and>
     distinct (g_passed g) \<and>
     (\<forall>s\<in>set (g_passed g). s < g_numPlayers g \<and> g_active g ! s)"

definition table_inv :: "game \<Rightarrow> bool" where
  "table_inv g \<longleftrightarrow>
     (case g_turn g of None \<Rightarrow> False
      | Some t \<Rightarrow> t < g_numPlayers g \<and> eligible g t \<and>
          (case (g_pile g, g_pileOwner g) of
             (None, None) \<Rightarrow> g_passed g = []
           | (Some c, Some w) \<Rightarrow> combo_wf c \<and> w < g_numPlayers g \<and> w \<notin> set (g_passed g) \<and>
               (\<exists>d. 0 < d \<and> d < g_numPlayers g \<and> t = (w + d) mod g_numPlayers g \<and>
                  (\<forall>j. 0 < j \<and> j < d \<longrightarrow> \<not> eligible g ((w + j) mod g_numPlayers g)))
           | _ \<Rightarrow> False))"

definition left_holding :: "game \<Rightarrow> seat list" where
  "left_holding g = rev (filter (\<lambda>s. g_hands g ! s \<noteq> []) (g_gone g))"

definition finished_inv :: "game \<Rightarrow> bool" where
  "finished_inv g \<longleftrightarrow>
     g_turn g = None \<and> g_pile g = None \<and> g_pileOwner g = None \<and> g_passed g = [] \<and>
     length (g_hands g) = g_numPlayers g \<and> length (g_active g) = g_numPlayers g \<and>
     distinct (g_finishingOrder g) \<and> set (g_finishingOrder g) = {..<g_numPlayers g} \<and>
     (\<forall>s<g_numPlayers g. \<not> g_active g ! s) \<and>
     (\<exists>stayed. g_finishingOrder g = stayed @ left_holding g \<and>
        (\<forall>s\<in>set stayed. s \<notin> set (g_gone g) \<or> g_hands g ! s = []))"

definition game_inv :: "game \<Rightarrow> bool" where
  "game_inv g \<longleftrightarrow>
     (case g_status g of
        Playing \<Rightarrow> core_inv g \<and> table_inv g \<and> 2 \<le> activeCount g
      | Finished \<Rightarrow> finished_inv g)"

subsubsection \<open>Ending a game\<close>

lemma place_holder_step:
  "place_holder (g\<lparr>g_active := as, g_finishingOrder := ord\<rparr>) s =
     g\<lparr>g_active := if as ! s \<and> s \<notin> set (g_gone g) then as[s := False] else as,
       g_finishingOrder := if as ! s \<and> s \<notin> set (g_gone g) then ord @ [s] else ord\<rparr>"
  by (simp add: place_holder_def)

lemma place_holders:
  assumes "n \<le> length (g_active g)"
  shows "foldl place_holder g [0..<n] =
    g\<lparr>g_active := map (\<lambda>s. g_active g ! s \<and> (n \<le> s \<or> s \<in> set (g_gone g))) [0..<length (g_active g)],
      g_finishingOrder := g_finishingOrder g @
        filter (\<lambda>s. g_active g ! s \<and> s \<notin> set (g_gone g)) [0..<n]\<rparr>"
  using assms
proof (induction n)
  case 0
  have "map (\<lambda>s. g_active g ! s) [0..<length (g_active g)] = g_active g" by (rule map_nth)
  then show ?case by simp
next
  case (Suc n)
  let ?L = "length (g_active g)"
  let ?as = "\<lambda>k. map (\<lambda>s. g_active g ! s \<and> (k \<le> s \<or> s \<in> set (g_gone g))) [0..<?L]"
  let ?q = "g_active g ! n \<and> n \<notin> set (g_gone g)"
  from Suc have ih: "foldl place_holder g [0..<n] = g\<lparr>g_active := ?as n, g_finishingOrder :=
      g_finishingOrder g @ filter (\<lambda>s. g_active g ! s \<and> s \<notin> set (g_gone g)) [0..<n]\<rparr>" by simp
  have "?as n ! n = g_active g ! n" using Suc.prems by simp
  moreover have "(if ?q then (?as n)[n := False] else ?as n) = ?as (Suc n)"
  proof (rule nth_equalityI)
    fix i assume "i < length (if ?q then (?as n)[n := False] else ?as n)"
    then have "i < ?L" by (simp split: if_splits)
    then show "(if ?q then (?as n)[n := False] else ?as n) ! i = ?as (Suc n) ! i"
      by (cases "i = n") (auto simp: nth_list_update Suc_le_eq)
  qed simp
  ultimately show ?case unfolding upt_Suc_append[OF le0] foldl_append ih foldl.simps
      place_holder_step by auto
qed

lemma foldl_add_missing:
  "distinct gs \<Longrightarrow> foldl (\<lambda>ord s. if s \<in> set ord then ord else ord @ [s]) ord gs =
     ord @ filter (\<lambda>s. s \<notin> set ord) gs"
proof (induction gs arbitrary: ord)
  case (Cons x gs)
  have "filter (\<lambda>s. s \<notin> set (ord @ [x])) gs = filter (\<lambda>s. s \<notin> set ord) gs"
    using Cons.prems by (intro filter_cong) auto
  with Cons show ?case by auto
qed simp

definition holders :: "game \<Rightarrow> seat list" where
  "holders g = filter (\<lambda>s. g_active g ! s \<and> s \<notin> set (g_gone g)) [0..<g_numPlayers g]"

lemma endGame_shape:
  assumes "core_inv g" "g_status g = Playing"
  shows "fst (endGame g ev) =
      g\<lparr>g_active := map (\<lambda>s. g_active g ! s \<and> (g_numPlayers g \<le> s \<or> s \<in> set (g_gone g))) [0..<g_numPlayers g],
        g_finishingOrder := (g_finishingOrder g @ holders g) @ left_holding g, g_status := Finished,
        g_turn := None, g_pile := None, g_pileOwner := None, g_passed := []\<rparr>"
proof -
  from assms(1) have "filter (\<lambda>s. s \<notin> set (g_finishingOrder g @ holders g)) (rev (g_gone g)) = left_holding g"
    unfolding left_holding_def rev_filter holders_def core_inv_def by (intro filter_cong) auto
  with assms show ?thesis
    by (simp add: endGame_def Let_def place_holders foldl_add_missing holders_def core_inv_def del: set_append)
qed

lemma endGame_facts:
  assumes "core_inv g" "g_status g = Playing"
  shows "finished_inv (fst (endGame g ev))" "g_status (fst (endGame g ev)) = Finished"
    "g_hands (fst (endGame g ev)) = g_hands g" "g_gone (fst (endGame g ev)) = g_gone g"
    "g_numPlayers (fst (endGame g ev)) = g_numPlayers g"
proof -
  let ?n = "g_numPlayers g"
  from assms(1) have c: "length (g_active g) = ?n" "distinct (g_gone g)" "set (g_gone g) \<subseteq> {..<?n}"
    "distinct (g_finishingOrder g)" "length (g_hands g) = ?n"
    "\<And>s. s < ?n \<Longrightarrow> g_active g ! s \<longleftrightarrow> g_hands g ! s \<noteq> [] \<and> s \<notin> set (g_gone g)"
    "set (g_finishingOrder g) = {s. s < ?n \<and> g_hands g ! s = []}"
    by (simp_all add: core_inv_def)
  let ?stayed = "g_finishingOrder g @ holders g"
  have h: "set (holders g) = {s. s < ?n \<and> g_hands g ! s \<noteq> [] \<and> s \<notin> set (g_gone g)}" "distinct (holders g)"
    using c(6) by (auto simp: holders_def)
  note e = endGame_shape[OF assms, of ev]
  have "distinct (?stayed @ left_holding g)"
    using c(2,4,7) h by (auto simp: left_holding_def)
  moreover have "set (?stayed @ left_holding g) = {..<?n}"
    using c(3,7) h by (auto simp: left_holding_def)
  moreover have "\<forall>s\<in>set ?stayed. s \<notin> set (g_gone g) \<or> g_hands g ! s = []"
    using c(7) h by auto
  moreover have "left_holding (fst (endGame g ev)) = left_holding g"
    unfolding e by (simp add: left_holding_def)
  ultimately show "finished_inv (fst (endGame g ev))"
    using c(1,5,6) unfolding finished_inv_def e by (auto simp: left_holding_def)
  show "g_status (fst (endGame g ev)) = Finished" "g_hands (fst (endGame g ev)) = g_hands g"
    "g_gone (fst (endGame g ev)) = g_gone g"
    "g_numPlayers (fst (endGame g ev)) = g_numPlayers g" by (simp_all add: e)
qed

subsubsection \<open>Winning a trick and moving on\<close>

lemma core_inv_table [simp]:
  "core_inv (g\<lparr>g_pile := p, g_pileOwner := w, g_turn := t, g_passed := []\<rparr>) \<longleftrightarrow>
   core_inv (g\<lparr>g_passed := []\<rparr>)"
  "core_inv (g\<lparr>g_turn := t\<rparr>) \<longleftrightarrow> core_inv g"
  "core_inv (g\<lparr>g_opened := b\<rparr>) \<longleftrightarrow> core_inv g"
  by (simp_all add: core_inv_def)

lemma core_inv_clear: "core_inv g \<Longrightarrow> core_inv (g\<lparr>g_passed := []\<rparr>)"
  by (simp add: core_inv_def)

lemma nextActiveAfter_Some:
  "nextActiveAfter w g = Some s \<Longrightarrow> 0 < g_numPlayers g \<Longrightarrow> s < g_numPlayers g \<and> g_active g ! s"
  by (auto simp: nextActiveAfter_def elim!: find_seats_after)

lemma nextActiveAfter_None:
  assumes "core_inv g" "nextActiveAfter w g = None"
  shows "activeCount g = 0"
proof -
  from assms have "\<forall>s<length (g_active g). \<not> g_active g ! s"
    by (simp add: nextActiveAfter_def core_inv_def find_seats_after_None)
  then show ?thesis by (simp add: activeCount_card)
qed

definition kept :: "game \<Rightarrow> game \<Rightarrow> bool" where
  "kept g g' \<longleftrightarrow> g_hands g' = g_hands g \<and> g_gone g' = g_gone g \<and> g_numPlayers g' = g_numPlayers g"

lemma endGame_inv:
  assumes "core_inv g" "g_status g = Playing" "endGame g ev = (g', ev')"
  shows "game_inv g'" "kept g g'" "g_status g' = Finished"
  using endGame_facts[OF assms(1,2), of ev] assms(3) by (simp_all add: game_inv_def kept_def)

lemma resolveTrick_inv:
  assumes "core_inv g" "g_status g = Playing" "g_pileOwner g = Some w" "w < g_numPlayers g"
    and "resolveTrick g ev = (g', ev')"
  shows "game_inv g'" "kept g g'" "g_pile g' = None"
proof -
  define leads where "leads = (if g_active g ! w then Some w else nextActiveAfter w g)"
  define g1 where "g1 = g\<lparr>g_pile := None, g_pileOwner := None, g_passed := [], g_turn := leads\<rparr>"
  have c1: "core_inv g1" "g_status g1 = Playing" "kept g g1" "g_pile g1 = None"
    using core_inv_clear[OF assms(1)] assms(2) by (simp_all add: g1_def kept_def core_inv_def)
  have r: "resolveTrick g ev = (let ev1 = ev @ [TrickWon (int w) leads] in
      if leads = None \<or> activeCount g1 \<le> 1 then endGame g1 ev1 else (g1, ev1))"
    by (simp add: resolveTrick_def assms(3) leads_def g1_def Let_def)
  have "game_inv g' \<and> kept g g' \<and> g_pile g' = None"
  proof (cases "leads = None \<or> activeCount g1 \<le> 1")
    case True
    with r assms(5) have e: "endGame g1 (ev @ [TrickWon (int w) leads]) = (g', ev')"
      by (simp only: Let_def if_True)
    from endGame_inv[OF c1(1,2) e] c1(3) show ?thesis
      by (auto simp: kept_def game_inv_def finished_inv_def)
  next
    case False
    with r assms(5) have "g' = g1" by (simp add: Let_def split: if_splits)
    moreover from False obtain t where t: "leads = Some t" by auto
    moreover have "t < g_numPlayers g \<and> g_active g ! t"
      using t assms(1,4) nextActiveAfter_Some[of w g t]
      by (auto simp: leads_def core_inv_def split: if_splits)
    ultimately show ?thesis using c1 False
      by (auto simp: game_inv_def table_inv_def eligible_def g1_def)
  qed
  then show "game_inv g'" "kept g g'" "g_pile g' = None" by simp_all
qed

lemma afterAction_inv:
  assumes "core_inv g" "g_status g = Playing" "g_pileOwner g = Some w" "w < g_numPlayers g"
    and "w \<notin> set (g_passed g)" "g_pile g = Some c" "combo_wf c" "d < g_numPlayers g"
    and "\<And>j. 0 < j \<Longrightarrow> j \<le> d \<Longrightarrow> \<not> eligible g ((w + j) mod g_numPlayers g)"
    and "afterAction ((w + d) mod g_numPlayers g) g ev = (g', ev')"
  shows "kept g g' \<and>
     (game_inv g' \<and> g_pile g' = None \<or>
      g_status g' = Playing \<and> core_inv g' \<and> table_inv g' \<and> g_pile g' = g_pile g \<and>
      g_passed g' = g_passed g \<and> g_active g' = g_active g)"
proof (cases "contendersExcludingOwner g = []")
  case True
  with assms(10) have "resolveTrick g ev = (g', ev')" by (simp add: afterAction_def)
  from resolveTrick_inv[OF assms(1-4) this] show ?thesis
    by (auto simp: game_inv_def split: game_status.splits)
next
  case False
  then obtain c where c: "c < g_numPlayers g" "c \<noteq> w" "eligible g c"
    using assms(3) by (auto simp: contendersExcludingOwner_def eligible_def filter_empty_conv)
  from scan_from_owner[OF assms(4,8,9) c] obtain d' where d': "d < d'" "d' < g_numPlayers g"
    "eligible g ((w + d') mod g_numPlayers g)"
    "List.find (eligible g) (seats_after (g_numPlayers g) ((w + d) mod g_numPlayers g)) =
       Some ((w + d') mod g_numPlayers g)"
    "\<And>j. 0 < j \<Longrightarrow> j < d' \<Longrightarrow> \<not> eligible g ((w + j) mod g_numPlayers g)" by blast
  have "nextEligible ((w + d) mod g_numPlayers g) g = Some ((w + d') mod g_numPlayers g)"
    using d'(4) by (simp add: nextEligible_def eligible_def[abs_def])
  with False assms(10) have g': "g' = g\<lparr>g_turn := Some ((w + d') mod g_numPlayers g)\<rparr>"
    by (simp add: afterAction_def)
  have "table_inv g'" unfolding table_inv_def g'
    using assms(3-7) d'
    by (auto simp: eligible_def intro!: exI[of _ d'])
  with assms(1,2) show ?thesis by (simp add: g' kept_def)
qed

subsubsection \<open>Playing\<close>

lemma no_repeat_from_iff:
  "no_repeat_from ids seen cards \<longleftrightarrow>
     distinct (map cardId cards) \<and> set (map cardId cards) \<inter> set seen = {} \<and>
     set (map cardId cards) \<subseteq> set ids"
  by (induction ids seen cards rule: no_repeat_from.induct) (auto simp: distinct_map)

lemma handHasAll_iff:
  "handHasAll seat cards g \<longleftrightarrow> distinct cards \<and> set cards \<subseteq> set (g_hands g ! seat)"
  by (auto simp: handHasAll_def no_repeat_from_iff distinct_map inj_on_def)

lemma removeCards_hand:
  "removeCards seat cards g =
     g\<lparr>g_hands := (g_hands g)[seat := filter (\<lambda>c. c \<notin> set cards) (g_hands g ! seat)]\<rparr>"
proof -
  have "cardId c \<in> set (map cardId cards) \<longleftrightarrow> c \<in> set cards" for c by auto
  then show ?thesis by (simp only: removeCards_def)
qed

lemma game_play_cases:
  obtains (rejected) code where "game_play seat cards g = (game_fail code, g)"
  | (accepted) combo g' ev where "g_status g = Playing" "g_turn g = Some seat"
      "distinct cards" "cards \<noteq> []" "set cards \<subseteq> set (g_hands g ! seat)" "\<not> opening_missed cards g"
      "pc_ok (validatePlay cards (g_pile g))" "pc_combo (validatePlay cards (g_pile g)) = Some combo"
      "combo_wf combo" "c_cards combo = cards"
      "after_play seat combo (commit_play seat cards combo g) = (g', ev)"
      "game_play seat cards g = (game_ok ev, g')"
proof (cases "g_status g = Finished \<or> Some seat \<noteq> g_turn g \<or> cards = [] \<or>
    \<not> handHasAll seat cards g \<or> opening_missed cards g")
  case True
  then have "\<exists>code. game_play seat cards g = (game_fail code, g)" by (auto simp: game_play_def)
  with rejected show ?thesis by blast
next
  case False
  then have f: "g_status g = Playing" "g_turn g = Some seat" "cards \<noteq> []"
    "handHasAll seat cards g" "\<not> opening_missed cards g" by (auto intro: game_status.exhaust)
  let ?chk = "validatePlay cards (g_pile g)"
  show ?thesis
  proof (cases "pc_ok ?chk")
    case True
    then obtain c where c: "pc_combo ?chk = Some c" "combo_wf c" "c_cards c = cards"
      by (auto elim: validatePlay_combo)
    obtain g' ev where a: "after_play seat c (commit_play seat cards c g) = (g', ev)" by fastforce
    have "game_play seat cards g = (game_ok ev, g')"
      using f True c(1) a by (simp add: game_play_def Let_def)
    then show ?thesis using accepted[OF f(1,2) _ f(3) _ f(5) True c a] f(4)
      by (auto simp: handHasAll_iff)
  next
    case False
    then have "game_play seat cards g =
        (game_fail (case pc_code ?chk of None \<Rightarrow> ''illegal'' | Some c \<Rightarrow> c), g)"
      using f by (simp add: game_play_def Let_def)
    then show ?thesis by (rule rejected)
  qed
qed

definition emptied :: "seat \<Rightarrow> game \<Rightarrow> game" where
  "emptied seat g = (if g_hands g ! seat = []
     then g\<lparr>g_active := (g_active g)[seat := False], g_finishingOrder := g_finishingOrder g @ [seat]\<rparr>
     else g)"

lemma after_play_emptied:
  obtains ev1 where "after_play seat combo g1 =
    (if g_hands g1 ! seat = [] \<and> activeCount (emptied seat g1) \<le> 1
     then endGame (emptied seat g1) ev1 else afterAction seat (emptied seat g1) ev1)"
proof (rule that)
  show "after_play seat combo g1 =
    (if g_hands g1 ! seat = [] \<and> activeCount (emptied seat g1) \<le> 1
     then endGame (emptied seat g1)
       (if g_hands g1 ! seat = [] then [Played seat combo, PlayerFinished seat (length (g_finishingOrder (emptied seat g1)))]
        else [Played seat combo])
     else afterAction seat (emptied seat g1)
       (if g_hands g1 ! seat = [] then [Played seat combo, PlayerFinished seat (length (g_finishingOrder (emptied seat g1)))]
        else [Played seat combo]))"
    by (simp add: after_play_def emptied_def Let_def)
qed

lemma emptied_commit_core:
  assumes "core_inv g" "seat < g_numPlayers g" "g_active g ! seat"
  shows "core_inv (emptied seat (commit_play seat cards combo g))"
proof (cases "filter (\<lambda>c. c \<notin> set cards) (g_hands g ! seat) = []")
  case True
  let ?n = "g_numPlayers g"
  from assms True show ?thesis
    unfolding core_inv_def emptied_def commit_play_def removeCards_hand
    by (auto simp: nth_list_update)
next
  case False
  with assms show ?thesis
    unfolding core_inv_def emptied_def commit_play_def removeCards_hand
    by (auto simp: nth_list_update)
qed

lemma after_play_inv:
  assumes "game_inv g" "g_status g = Playing" "g_turn g = Some seat" "combo_wf combo"
    and ap: "after_play seat combo (commit_play seat cards combo g) = (g', ev)"
  shows "game_inv g' \<and> kept (commit_play seat cards combo g) g'"
proof -
  from assms(1,2) have i: "core_inv g" "table_inv g" "2 \<le> activeCount g"
    by (simp_all add: game_inv_def)
  from i(2) assms(3) have seat: "seat < g_numPlayers g" "g_active g ! seat"
    by (simp_all add: table_inv_def eligible_def)
  let ?g1 = "commit_play seat cards combo g"
  let ?g2 = "emptied seat ?g1"
  have c2: "core_inv ?g2" using emptied_commit_core[OF i(1) seat] .
  have f2: "g_status ?g2 = Playing" "g_pileOwner ?g2 = Some seat" "g_numPlayers ?g2 = g_numPlayers g"
    "g_passed ?g2 = []" "g_pile ?g2 = Some combo"
    using assms(2) by (simp_all add: emptied_def commit_play_def removeCards_hand)
  have k2: "kept ?g1 g' \<longleftrightarrow> kept ?g2 g'" by (simp add: kept_def emptied_def)
  obtain ev1 where ap1: "after_play seat combo ?g1 =
    (if g_hands ?g1 ! seat = [] \<and> activeCount ?g2 \<le> 1 then endGame ?g2 ev1
     else afterAction seat ?g2 ev1)" by (rule after_play_emptied)
  show ?thesis unfolding k2
  proof (cases "g_hands ?g1 ! seat = [] \<and> activeCount ?g2 \<le> 1")
    case True
    with ap ap1 have "endGame ?g2 ev1 = (g', ev)" by simp
    from endGame_inv[OF c2 f2(1) this] show "game_inv g' \<and> kept ?g2 g'" by simp
  next
    case False
    with ap ap1 have a: "afterAction ((seat + 0) mod g_numPlayers ?g2) ?g2 ev1 = (g', ev)"
      using seat(1) f2(3) by (simp only: if_False) simp
    have cnt: "2 \<le> activeCount ?g2"
    proof (cases "g_hands ?g1 ! seat = []")
      case True
      with False show ?thesis by simp
    next
      case False
      then have "g_active ?g2 = g_active g"
        by (simp add: emptied_def commit_play_def removeCards_hand)
      with i(3) show ?thesis using activeCount_cong by metis
    qed
    from afterAction_inv[OF c2 f2(1,2) _ _ f2(5) assms(4) _ _ a] seat(1) f2(3,4)
    have "kept ?g2 g' \<and> (game_inv g' \<or> g_status g' = Playing \<and> core_inv g' \<and> table_inv g' \<and> g_active g' = g_active ?g2)"
      by auto
    with cnt show "game_inv g' \<and> kept ?g2 g'"
      by (auto simp: game_inv_def activeCount_cong[of g' ?g2])
  qed
qed

lemma game_play_inv:
  assumes "game_inv g"
  shows "game_inv (snd (game_play seat cards g))"
proof (cases rule: game_play_cases[of seat cards g])
  case (rejected code)
  with assms show ?thesis by simp
next
  case (accepted combo g' ev)
  with after_play_inv[OF assms accepted(1,2,9,11)] show ?thesis by simp
qed

subsubsection \<open>Passing\<close>

lemma game_pass_cases:
  obtains (rejected) code where "game_pass seat g = (game_fail code, g)"
  | (accepted) g' ev where "g_status g = Playing" "g_turn g = Some seat" "g_pile g \<noteq> None"
      "afterAction seat (g\<lparr>g_passed := set_add seat (g_passed g)\<rparr>) [Passed seat] = (g', ev)"
      "game_pass seat g = (game_ok ev, g')"
proof (cases "g_status g = Finished \<or> Some seat \<noteq> g_turn g \<or> g_pile g = None")
  case True
  then have "\<exists>code. game_pass seat g = (game_fail code, g)" by (auto simp: game_pass_def)
  with rejected show ?thesis by blast
next
  case False
  then have f: "g_status g = Playing" "g_turn g = Some seat" "g_pile g \<noteq> None"
    by (auto intro: game_status.exhaust)
  obtain g' ev where a: "afterAction seat (g\<lparr>g_passed := set_add seat (g_passed g)\<rparr>) [Passed seat] = (g', ev)"
    by fastforce
  then have "game_pass seat g = (game_ok ev, g')" using f by (auto simp: game_pass_def)
  from accepted[OF f a this] show ?thesis .
qed

lemma table_inv_pile:
  assumes "table_inv g" "g_pile g \<noteq> None" "g_turn g = Some t"
  obtains c w d where "g_pile g = Some c" "g_pileOwner g = Some w" "combo_wf c"
    "w < g_numPlayers g" "w \<notin> set (g_passed g)" "0 < d" "d < g_numPlayers g"
    "t = (w + d) mod g_numPlayers g" "w \<noteq> t"
    "\<forall>j. 0 < j \<and> j < d \<longrightarrow> \<not> eligible g ((w + j) mod g_numPlayers g)"
proof -
  from assms(2) obtain c where c: "g_pile g = Some c" by blast
  from assms(1,3) c obtain w where w: "g_pileOwner g = Some w"
    by (auto simp: table_inv_def split: option.splits)
  from assms(1,3) c w have f: "combo_wf c" "w < g_numPlayers g" "w \<notin> set (g_passed g)"
    and "\<exists>d. 0 < d \<and> d < g_numPlayers g \<and> t = (w + d) mod g_numPlayers g \<and>
       (\<forall>j. 0 < j \<and> j < d \<longrightarrow> \<not> eligible g ((w + j) mod g_numPlayers g))"
    by (simp_all add: table_inv_def)
  then obtain d where d: "0 < d" "d < g_numPlayers g" "t = (w + d) mod g_numPlayers g"
    "\<forall>j. 0 < j \<and> j < d \<longrightarrow> \<not> eligible g ((w + j) mod g_numPlayers g)" by blast
  have "w \<noteq> t" using d(1-3) f(2) by (cases "w + d < g_numPlayers g") (auto simp: le_mod_geq)
  then show ?thesis by (rule that[OF c w f d(1-3) _ d(4)])
qed

lemma after_pass_inv:
  assumes "game_inv g" "g_status g = Playing" "g_turn g = Some seat" "g_pile g \<noteq> None"
    and "afterAction seat (g\<lparr>g_passed := set_add seat (g_passed g)\<rparr>) [Passed seat] = (g', ev)"
  shows "game_inv g' \<and> kept g g' \<and>
    (g_pile g' = None \<or> g_pile g' = g_pile g \<and> g_passed g' = set_add seat (g_passed g) \<and> g_active g' = g_active g)"
proof -
  from assms(1,2) have i: "core_inv g" "table_inv g" "2 \<le> activeCount g"
    by (simp_all add: game_inv_def)
  obtain c w d where
    o: "g_pile g = Some c" "g_pileOwner g = Some w" "combo_wf c"
    "w < g_numPlayers g" "w \<notin> set (g_passed g)" "0 < d" "d < g_numPlayers g"
    "seat = (w + d) mod g_numPlayers g" "w \<noteq> seat"
    "\<forall>j. 0 < j \<and> j < d \<longrightarrow> \<not> eligible g ((w + j) mod g_numPlayers g)"
    by (rule table_inv_pile[OF i(2) assms(4,3)])
  let ?g1 = "g\<lparr>g_passed := set_add seat (g_passed g)\<rparr>"
  have s: "seat < g_numPlayers g" "g_active g ! seat"
    using i(2) assms(3) by (simp_all add: table_inv_def eligible_def)
  then have c1: "core_inv ?g1" using i(1) by (auto simp: core_inv_def)
  have n1: "\<not> eligible ?g1 ((w + j) mod g_numPlayers ?g1)" if "0 < j" "j \<le> d" for j
    using o(8) o(10) that by (cases "j = d") (auto simp: eligible_def)
  have "afterAction ((w + d) mod g_numPlayers ?g1) ?g1 [Passed seat] = (g', ev)"
    using assms(5) o(8) by simp
  from afterAction_inv[OF c1 _ _ _ _ _ o(3) _ n1 this] assms(2) o
  have "kept g g' \<and> (game_inv g' \<and> g_pile g' = None \<or> g_status g' = Playing \<and> core_inv g' \<and> table_inv g' \<and>
      g_pile g' = g_pile g \<and> g_passed g' = set_add seat (g_passed g) \<and> g_active g' = g_active g)"
    by (auto simp: kept_def)
  with i(3) show ?thesis by (auto simp: game_inv_def activeCount_cong[of g' g])
qed

lemma game_pass_inv:
  assumes "game_inv g"
  shows "game_inv (snd (game_pass seat g))"
proof (cases rule: game_pass_cases[of seat g])
  case (rejected code)
  with assms show ?thesis by simp
next
  case (accepted g' ev)
  with after_pass_inv[OF assms accepted(1-4)] show ?thesis by simp
qed

subsubsection \<open>Leaving\<close>

lemma leave_core:
  assumes "core_inv g" "seat < g_numPlayers g" "seat \<notin> set (g_gone g)"
  shows "core_inv (g\<lparr>g_gone := set_add seat (g_gone g), g_active := (g_active g)[seat := False],
     g_passed := set_delete seat (g_passed g)\<rparr>)"
  using assms unfolding core_inv_def
  by (auto simp: nth_list_update set_add_def)

definition left_game :: "seat \<Rightarrow> game \<Rightarrow> game" where
  "left_game seat g = g\<lparr>g_gone := set_add seat (g_gone g), g_active := (g_active g)[seat := False],
     g_passed := set_delete seat (g_passed g)\<rparr>"

lemma left_game_fields [simp]:
  "g_turn (left_game seat g) = g_turn g" "g_pile (left_game seat g) = g_pile g"
  "g_pileOwner (left_game seat g) = g_pileOwner g" "g_status (left_game seat g) = g_status g"
  "g_numPlayers (left_game seat g) = g_numPlayers g" "g_hands (left_game seat g) = g_hands g"
  "g_gone (left_game seat g) = set_add seat (g_gone g)"
  by (simp_all add: left_game_def)

lemma left_game_eligible:
  "s < length (g_active g) \<Longrightarrow> eligible (left_game seat g) s \<longleftrightarrow> eligible g s \<and> s \<noteq> seat"
  by (cases "s = seat") (auto simp: eligible_def left_game_def)

lemma leave_turn_inv:
  assumes "core_inv g" "table_inv g" "g_status g = Playing" "g_turn g = Some seat"
    and "seat \<notin> set (g_gone g)" "leave_turn seat (left_game seat g) = (g', ev)"
  shows "kept (left_game seat g) g' \<and>
    (game_inv g' \<and> g_pile g' = None \<or> g_status g' = Playing \<and> core_inv g' \<and>
     (activeCount g' = activeCount (left_game seat g)) \<and> (g_pile g' = g_pile g) \<and>
     (g_passed g' = set_delete seat (g_passed g)) \<and> g_active g' = g_active (left_game seat g) \<and> table_inv g')"
proof -
  let ?h = "left_game seat g"
  from assms(2,4) have seat: "seat < g_numPlayers g" "eligible g seat" by (simp_all add: table_inv_def)
  have ch: "core_inv ?h" using leave_core[OF assms(1) seat(1) assms(5)] by (simp add: left_game_def)
  have len: "length (g_active g) = g_numPlayers g" "0 < g_numPlayers g"
    using assms(1) by (simp_all add: core_inv_def)
  show ?thesis
  proof (cases "g_pile g = None")
    case True
    show ?thesis
    proof (cases "nextActiveAfter seat ?h")
      case None
      with True assms(6) have "endGame (?h\<lparr>g_turn := None\<rparr>) [] = (g', ev)"
        by (simp add: leave_turn_def Let_def)
      from endGame_inv[OF _ _ this] ch assms(3) show ?thesis
        by (auto simp: kept_def game_inv_def finished_inv_def)
    next
      case (Some t)
      with True assms(6) have g': "g' = ?h\<lparr>g_turn := Some t\<rparr>"
        by (simp add: leave_turn_def Let_def)
      have t: "t < g_numPlayers g" "g_active ?h ! t" using nextActiveAfter_Some[OF Some] len by simp_all
      have p: "g_pileOwner g = None" "g_passed g = []"
        using assms(2,4) True by (auto simp: table_inv_def split: option.splits)
      have "table_inv g'" using t p True by (simp add: table_inv_def g' eligible_def left_game_def set_delete_def)
      with ch assms(3) True show ?thesis
        by (simp add: g' kept_def activeCount_def left_game_def)
    qed
  next
    case False
    obtain c w d where
      o: "g_pile g = Some c" "g_pileOwner g = Some w" "combo_wf c"
      "w < g_numPlayers g" "w \<notin> set (g_passed g)" "0 < d" "d < g_numPlayers g"
      "seat = (w + d) mod g_numPlayers g" "w \<noteq> seat"
      "\<forall>j. 0 < j \<and> j < d \<longrightarrow> \<not> eligible g ((w + j) mod g_numPlayers g)"
      by (rule table_inv_pile[OF assms(2) False assms(4)])
    have n1: "\<not> eligible ?h ((w + j) mod g_numPlayers ?h)" if "0 < j" "j \<le> d" for j
      using o(8) o(10) that len by (cases "j = d") (auto simp: left_game_eligible)
    have a: "afterAction ((w + d) mod g_numPlayers ?h) ?h [] = (g', ev)"
      using assms(6) o(1) by (simp add: leave_turn_def afterAction_def flip: o(8))
    have "g_pileOwner ?h = Some w" "w < g_numPlayers ?h" "w \<notin> set (g_passed ?h)"
      "g_pile ?h = Some c" "d < g_numPlayers ?h" "g_status ?h = Playing"
      using o assms(3) by (simp_all add: left_game_def)
    note r = afterAction_inv[OF ch this(6,1,2,3,4) o(3) this(5) n1 a]
    then show ?thesis using o(1) by (auto simp: activeCount_def left_game_def)
  qed
qed

lemma game_forfeitSeat_cases:
  obtains (ignored) "g_status g = Finished \<or> seat \<ge> g_numPlayers g \<or> seat \<in> set (g_gone g)"
      "game_forfeitSeat seat g = ([], g)"
  | (emptied) "g_status g = Playing" "seat < g_numPlayers g" "seat \<notin> set (g_gone g)"
      "\<not> g_active g ! seat" "game_forfeitSeat seat g = ([], g\<lparr>g_gone := set_add seat (g_gone g)\<rparr>)"
  | (leaves) g3 ev where "g_status g = Playing" "seat < g_numPlayers g" "seat \<notin> set (g_gone g)"
      "g_active g ! seat"
      "(if g_turn g = Some seat then leave_turn seat (left_game seat g) else (left_game seat g, [])) = (g3, ev)"
      "snd (game_forfeitSeat seat g) =
         (if \<not> isOver g3 \<and> activeCount g3 \<le> 1 then fst (endGame g3 ev) else g3)"
proof (cases "g_status g = Finished \<or> seat \<ge> g_numPlayers g \<or> seat \<in> set (g_gone g)")
  case True
  then show ?thesis by (intro ignored) (auto simp: game_forfeitSeat_def)
next
  case False
  then have f: "g_status g = Playing" "seat < g_numPlayers g" "seat \<notin> set (g_gone g)"
    by (auto intro: game_status.exhaust)
  show ?thesis
  proof (cases "g_active g ! seat")
    case True
    obtain g3 ev where l: "(if g_turn g = Some seat then leave_turn seat (left_game seat g)
        else (left_game seat g, [])) = (g3, ev)" by fastforce
    have "snd (game_forfeitSeat seat g) =
         (if \<not> isOver g3 \<and> activeCount g3 \<le> 1 then fst (endGame g3 ev) else g3)"
      using f True l[unfolded left_game_def]
      by (simp add: game_forfeitSeat_def Let_def case_prod_beta)
    from leaves[OF f True l this] show ?thesis .
  next
    case no: False
    then show ?thesis using f by (intro emptied) (auto simp: game_forfeitSeat_def)
  qed
qed

lemma table_inv_left_game:
  assumes "core_inv g" "table_inv g" "g_turn g \<noteq> Some seat"
  shows "table_inv (left_game seat g)"
proof -
  from assms(2,3) obtain t where t: "g_turn g = Some t" "t \<noteq> seat"
    by (cases "g_turn g") (auto simp: table_inv_def)
  have n: "length (g_active g) = g_numPlayers g" "0 < g_numPlayers g"
    using assms(1) by (simp_all add: core_inv_def)
  have p: "g_passed (left_game seat g) = set_delete seat (g_passed g)" by (simp add: left_game_def)
  from assms(2) t have tt: "t < g_numPlayers g" "eligible g t" by (simp_all add: table_inv_def)
  then have te: "eligible (left_game seat g) t" using t(2) n by (simp add: left_game_eligible)
  show ?thesis
  proof (cases "g_pile g")
    case None
    with assms(2) t have "g_pileOwner g = None" "g_passed g = []"
      by (cases "g_pileOwner g"; simp add: table_inv_def)+
    with None t tt te p show ?thesis by (simp add: table_inv_def set_delete_def)
  next
    case (Some c)
    then have "g_pile g \<noteq> None" by simp
    from assms(2) this t(1) obtain c w d where
      o: "g_pile g = Some c" "g_pileOwner g = Some w" "combo_wf c"
      "w < g_numPlayers g" "w \<notin> set (g_passed g)" "0 < d" "d < g_numPlayers g"
      "t = (w + d) mod g_numPlayers g" "w \<noteq> t"
      "\<forall>j. 0 < j \<and> j < d \<longrightarrow> \<not> eligible g ((w + j) mod g_numPlayers g)"
      by (rule table_inv_pile)
    have "\<forall>j. 0 < j \<and> j < d \<longrightarrow> \<not> eligible (left_game seat g) ((w + j) mod g_numPlayers g)"
      using o(10) n by (simp add: left_game_eligible)
    with o t(1) tt te p show ?thesis by (auto simp: table_inv_def intro!: exI[of _ d])
  qed
qed

lemma table_inv_gone [simp]: "table_inv (g\<lparr>g_gone := x\<rparr>) = table_inv g"
  by (cases "g_turn g"; cases "g_pile g"; cases "g_pileOwner g")
     (simp_all add: table_inv_def eligible_def)

lemma game_forfeitSeat_inv:
  assumes "game_inv g"
  shows "game_inv (snd (game_forfeitSeat seat g))"
proof (cases rule: game_forfeitSeat_cases[of g seat])
  case ignored
  with assms show ?thesis by simp
next
  case emptied
  with assms have i: "core_inv g" "table_inv g" "2 \<le> activeCount g" by (simp_all add: game_inv_def)
  have "core_inv (g\<lparr>g_gone := set_add seat (g_gone g)\<rparr>)"
    using i(1) emptied(2-4) by (auto simp: core_inv_def set_add_def)
  then show ?thesis using i(2,3) emptied by (simp add: game_inv_def activeCount_def)
next
  case (leaves g3 ev)
  with assms have i: "core_inv g" "table_inv g" "2 \<le> activeCount g" by (simp_all add: game_inv_def)
  have "game_inv g3 \<or> g_status g3 = Playing \<and> core_inv g3 \<and> table_inv g3"
  proof (cases "g_turn g = Some seat")
    case True
    with leaves(5) leave_turn_inv[OF i(1,2) leaves(1) True leaves(3)] show ?thesis by auto
  next
    case False
    with leaves table_inv_left_game[OF i(1,2) False] leave_core[OF i(1) leaves(2,3)]
    show ?thesis by (auto simp: left_game_def)
  qed
  then show ?thesis unfolding leaves(6)
    using endGame_facts[of g3 ev]
    by (auto simp: isOver_def game_inv_def split: game_status.splits)
qed

lemma game_step_inv: "game_inv g \<Longrightarrow> game_inv (game_step g op)"
proof (cases op)
  case (Act a)
  assume "game_inv g"
  with Act show ?thesis by (cases a) (simp_all add: game_play_inv game_pass_inv)
qed (simp add: game_forfeitSeat_inv)

subsection \<open>Every game ends\<close>

definition cards_left :: "game \<Rightarrow> nat" where
  "cards_left g = sum_list (map length (g_hands g))"

definition still_in :: "game \<Rightarrow> seat set" where
  "still_in g = {s. s < g_numPlayers g \<and> eligible g s}"

definition game_rank :: "game \<Rightarrow> nat" where
  "game_rank g =
     (case g_status g of
        Finished \<Rightarrow> 0
      | Playing \<Rightarrow> cards_left g * (g_numPlayers g + 2)
          + (if g_pile g = None then 0 else 1 + card (still_in g))
          + (g_numPlayers g - length (g_gone g)) + 1)"

fun game_accepts :: "game \<Rightarrow> game_op \<Rightarrow> bool" where
  "game_accepts g (Act a) = ar_ok (fst (game_apply a g))"
| "game_accepts g (Leave seat) =
     (g_status g = Playing \<and> seat < g_numPlayers g \<and> seat \<notin> set (g_gone g))"

lemma finite_still_in [simp]: "finite (still_in g)"
  by (simp add: still_in_def)

lemma card_still_in: "card (still_in g) \<le> g_numPlayers g"
  using card_mono[of "{..<g_numPlayers g}" "still_in g"] by (auto simp: still_in_def)

lemma game_rank_upper:
  "game_rank g \<le> cards_left g * (g_numPlayers g + 2) + (1 + g_numPlayers g)
     + (g_numPlayers g - length (g_gone g)) + 1"
  using card_still_in[of g] by (simp add: game_rank_def split: game_status.splits)

lemma game_fail_ok [simp]: "\<not> ar_ok (game_fail code)" "ar_ok (game_ok ev)"
  by (simp_all add: game_fail_def game_ok_def)

lemma sum_length_update:
  "i < length xs \<Longrightarrow> sum_list (map length (xs[i := ys])) + length (xs ! i) =
     sum_list (map length xs) + length ys"
proof (induction xs arbitrary: i)
  case (Cons x xs)
  then show ?case by (cases i) (auto simp: algebra_simps)
qed simp

lemma commit_play_cards:
  assumes "seat < length (g_hands g)" "cards \<noteq> []" "set cards \<subseteq> set (g_hands g ! seat)"
  shows "cards_left (commit_play seat cards combo g) < cards_left g"
proof -
  let ?h = "g_hands g ! seat" and ?h' = "filter (\<lambda>c. c \<notin> set cards) (g_hands g ! seat)"
  from assms(2,3) obtain c where "c \<in> set ?h" "c \<in> set cards" by (cases cards) auto
  then have "length ?h' < length ?h" by (intro length_filter_less) auto
  with sum_length_update[OF assms(1), of ?h'] show ?thesis
    by (simp add: cards_left_def commit_play_def removeCards_hand)
qed

lemma rank_after_kept:
  assumes "kept g1 g'" "g_gone g1 = g_gone g" "g_numPlayers g1 = g_numPlayers g"
    and "cards_left g1 < cards_left g" "g_status g = Playing"
  shows "game_rank g' < game_rank g"
proof -
  let ?n = "g_numPlayers g"
  have k: "cards_left g' = cards_left g1" "g_gone g' = g_gone g" "g_numPlayers g' = ?n"
    using assms(1-3) by (simp_all add: kept_def cards_left_def)
  have "Suc (cards_left g') * (?n + 2) \<le> cards_left g * (?n + 2)"
    using assms(4) k(1) by (intro mult_right_mono) auto
  then show ?thesis using game_rank_upper[of g'] k assms(5) by (simp add: game_rank_def)
qed

lemma game_play_lowers:
  assumes "game_inv g" "ar_ok (fst (game_play seat cards g))"
  shows "game_rank (snd (game_play seat cards g)) < game_rank g"
proof (cases rule: game_play_cases[of seat cards g])
  case (rejected code)
  with assms show ?thesis by simp
next
  case (accepted combo g' ev)
  let ?g1 = "commit_play seat cards combo g"
  have "seat < length (g_hands g)"
    using assms(1) accepted(1,2) by (simp add: game_inv_def core_inv_def table_inv_def)
  then have "cards_left ?g1 < cards_left g" using accepted by (intro commit_play_cards)
  moreover have "kept ?g1 g'" using after_play_inv[OF assms(1) accepted(1,2,9,11)] by simp
  ultimately show ?thesis using accepted
    by (simp add: rank_after_kept[of ?g1 g' g] commit_play_def removeCards_def)
qed

lemma game_pass_lowers:
  assumes "game_inv g" "ar_ok (fst (game_pass seat g))"
  shows "game_rank (snd (game_pass seat g)) < game_rank g"
proof (cases rule: game_pass_cases[of seat g])
  case (rejected code)
  with assms show ?thesis by simp
next
  case (accepted g' ev)
  note p = after_pass_inv[OF assms(1) accepted(1-4)]
  then have k: "g_numPlayers g' = g_numPlayers g" "g_gone g' = g_gone g" "cards_left g' = cards_left g"
    by (simp_all add: kept_def cards_left_def)
  have seat: "seat \<in> still_in g"
    using assms(1) accepted(1,2) by (simp add: game_inv_def table_inv_def still_in_def)
  show ?thesis
  proof (cases "g_pile g' = None")
    case True
    with k accepted show ?thesis by (auto simp: game_rank_def split: game_status.splits)
  next
    case False
    with p have "still_in g' = still_in g - {seat}"
      by (auto simp: still_in_def eligible_def kept_def)
    then have "card (still_in g') < card (still_in g)"
      using psubset_card_mono[of "still_in g" "still_in g'"] seat by auto
    with k accepted show ?thesis by (auto simp: game_rank_def split: game_status.splits)
  qed
qed

lemma still_in_left_game: "core_inv g \<Longrightarrow> still_in (left_game seat g) \<subseteq> still_in g"
  by (auto simp: still_in_def left_game_eligible core_inv_def)

lemma rank_when_gone:
  assumes "g_hands g' = g_hands g" "g_numPlayers g' = g_numPlayers g"
    and "g_gone g' = set_add seat (g_gone g)" "seat \<notin> set (g_gone g)" "seat < g_numPlayers g"
    and "core_inv g" "g_status g = Playing"
    and "g_pile g' = None \<or> g_pile g' = g_pile g \<and> still_in g' \<subseteq> still_in g"
  shows "game_rank g' < game_rank g"
proof -
  have "card (set (g_gone g)) < card {..<g_numPlayers g}"
    using assms(4-6) by (intro psubset_card_mono) (auto simp: core_inv_def)
  then have "length (g_gone g) < g_numPlayers g"
    using assms(6) by (simp add: core_inv_def distinct_card)
  then have g: "g_numPlayers g' - length (g_gone g') < g_numPlayers g - length (g_gone g)"
    using assms(2-4) by (simp add: set_add_def)
  have c: "card (still_in g') \<le> card (still_in g)" if "still_in g' \<subseteq> still_in g"
    using that by (simp add: card_mono)
  show ?thesis using assms(1,2,7,8) g c
    by (auto simp: game_rank_def cards_left_def split: game_status.splits)
qed

lemma game_forfeitSeat_lowers:
  assumes "game_inv g" "g_status g = Playing" "seat < g_numPlayers g" "seat \<notin> set (g_gone g)"
  shows "game_rank (snd (game_forfeitSeat seat g)) < game_rank g"
proof (cases rule: game_forfeitSeat_cases[of g seat])
  case ignored
  with assms show ?thesis by auto
next
  case emptied
  with assms show ?thesis
    by (auto intro!: rank_when_gone simp: game_inv_def still_in_def eligible_def)
next
  case (leaves g3 ev)
  from assms(1,2) have i: "core_inv g" "table_inv g" by (simp_all add: game_inv_def)
  let ?h = "left_game seat g"
  have g3: "kept ?h g3 \<and> (g_status g3 = Playing \<longrightarrow> core_inv g3) \<and>
      (g_pile g3 = None \<or> g_pile g3 = g_pile g \<and> still_in g3 = still_in ?h)"
  proof (cases "g_turn g = Some seat")
    case True
    with leaves(5) leave_turn_inv[OF i leaves(1) True leaves(3)] show ?thesis
      by (auto simp: game_inv_def still_in_def eligible_def kept_def left_game_def)
  next
    case False
    with leaves leave_core[OF i(1) leaves(2,3)] show ?thesis
      by (auto simp: kept_def left_game_def)
  qed
  have lower: "game_rank g3 < game_rank g"
    using g3 still_in_left_game[OF i(1), of seat] assms(2-4) i(1)
    by (intro rank_when_gone) (auto simp: kept_def)
  show ?thesis
  proof (cases "\<not> isOver g3 \<and> activeCount g3 \<le> 1")
    case True
    then have p: "g_status g3 = Playing" by (simp add: isOver_def) (metis game_status.exhaust)
    with True g3 endGame_facts(2)[of g3 ev] lower leaves(6) show ?thesis by (simp add: game_rank_def)
  next
    case False
    with leaves(6) lower show ?thesis by auto
  qed
qed

lemma game_play_rejected: "\<not> ar_ok (fst (game_play seat cards g)) \<Longrightarrow> snd (game_play seat cards g) = g"
  by (cases rule: game_play_cases[of seat cards g]) auto

lemma game_pass_rejected: "\<not> ar_ok (fst (game_pass seat g)) \<Longrightarrow> snd (game_pass seat g) = g"
  by (cases rule: game_pass_cases[of seat g]) auto

lemma game_step_rejected: "\<not> game_accepts g op \<Longrightarrow> game_step g op = g"
proof (cases op)
  case (Act a)
  assume "\<not> game_accepts g op"
  with Act show ?thesis
    by (cases a) (simp_all add: game_play_rejected game_pass_rejected)
next
  case (Leave seat)
  assume "\<not> game_accepts g op"
  with Leave show ?thesis by (auto simp: game_forfeitSeat_def intro: game_status.exhaust)
qed

lemma game_step_lowers: "game_inv g \<Longrightarrow> game_accepts g op \<Longrightarrow> game_rank (game_step g op) < game_rank g"
proof (cases op)
  case (Act a)
  assume "game_inv g" "game_accepts g op"
  with Act show ?thesis by (cases a) (simp_all add: game_play_lowers game_pass_lowers)
qed (simp add: game_forfeitSeat_lowers)

interpretation game: ranked_system game_step game_inv game_accepts game_rank
  by unfold_locales (fact game_step_inv game_step_rejected game_step_lowers)+

subsection \<open>A fresh game\<close>

text \<open>
  A deal as the match makes it: at least two hands, one per seat, none empty, and a leader
  among the seats.
\<close>

definition dealt :: "nat \<Rightarrow> card list list \<Rightarrow> seat \<Rightarrow> bool" where
  "dealt n hands leader \<longleftrightarrow> 2 \<le> n \<and> length hands = n \<and> leader < n \<and> (\<forall>h\<in>set hands. h \<noteq> [])"

definition fresh_game :: "nat \<Rightarrow> card list list \<Rightarrow> seat \<Rightarrow> card option \<Rightarrow> game" where
  "fresh_game n hands leader oc =
     \<lparr>g_numPlayers = n, g_hands = hands, g_active = map (\<lambda>h. length h > 0) hands, g_passed = [],
      g_finishingOrder = [], g_gone = [], g_pile = None, g_pileOwner = None, g_turn = Some leader,
      g_status = Playing, g_openingCard = oc, g_opened = False\<rparr>"

lemma startGame_dealt: "dealt n hands leader \<Longrightarrow> startGame n hands leader oc = Inr (fresh_game n hands leader oc)"
  by (auto simp: startGame_def fresh_game_def dealt_def Let_def)

lemma fresh_game_inv:
  assumes "dealt n hands leader"
  shows "game_inv (fresh_game n hands leader oc)"
proof -
  let ?g = "fresh_game n hands leader oc"
  have "{s. s < length (g_active ?g) \<and> g_active ?g ! s} = {..<n}"
    using assms by (auto simp: fresh_game_def dealt_def)
  then have "activeCount ?g = n" by (simp add: activeCount_card)
  with assms show ?thesis
    by (auto simp: game_inv_def core_inv_def table_inv_def eligible_def fresh_game_def dealt_def)
qed

lemma fresh_game_reaches:
  assumes "dealt n hands leader" "startGame n hands leader oc = Inr g0"
  shows "game_inv (foldl game_step g0 ops)"
proof -
  have "g0 = fresh_game n hands leader oc" using assms by (simp add: startGame_dealt)
  then show ?thesis using game.run_inv[OF fresh_game_inv[OF assms(1)]] by simp
qed

lemma game_play_fields:
  assumes "game_inv g"
  shows "g_numPlayers (snd (game_play seat cards g)) = g_numPlayers g \<and>
    g_gone (snd (game_play seat cards g)) = g_gone g"
proof (cases rule: game_play_cases[of seat cards g])
  case (accepted combo g' ev)
  with after_play_inv[OF assms accepted(1,2,9,11)] show ?thesis
    by (simp add: kept_def commit_play_def removeCards_def)
qed simp

lemma game_pass_fields:
  assumes "game_inv g"
  shows "kept g (snd (game_pass seat g))"
proof (cases rule: game_pass_cases[of seat g])
  case (accepted g' ev)
  with after_pass_inv[OF assms accepted(1-4)] show ?thesis by simp
qed (simp add: kept_def)

lemma leaves_fields:
  assumes "game_inv g" "g_status g = Playing" "seat < g_numPlayers g" "seat \<notin> set (g_gone g)"
    and "(if g_turn g = Some seat then leave_turn seat (left_game seat g) else (left_game seat g, [])) = (g3, ev)"
  shows "kept (left_game seat g) g3 \<and> (g_status g3 = Playing \<longrightarrow> core_inv g3)"
proof (cases "g_turn g = Some seat")
  case True
  with assms leave_turn_inv[of g seat g3 ev] show ?thesis by (auto simp: game_inv_def)
next
  case False
  with assms leave_core[of g seat] show ?thesis
    by (auto simp: game_inv_def kept_def left_game_def)
qed

lemma game_forfeitSeat_fields:
  assumes "game_inv g"
  shows "g_hands (snd (game_forfeitSeat seat g)) = g_hands g \<and>
    g_numPlayers (snd (game_forfeitSeat seat g)) = g_numPlayers g \<and>
    g_gone (snd (game_forfeitSeat seat g)) =
      (if g_status g = Playing \<and> seat < g_numPlayers g then set_add seat (g_gone g) else g_gone g)"
proof (cases rule: game_forfeitSeat_cases[of g seat])
  case ignored
  then show ?thesis by (auto simp: set_add_def)
next
  case (leaves g3 ev)
  note k = leaves_fields[OF assms leaves(1-3,5)]
  then show ?thesis using leaves endGame_facts(3-5)[of g3 ev]
    by (auto simp: kept_def isOver_def intro: game_status.exhaust)
qed simp

lemma game_step_numPlayers: "game_inv g \<Longrightarrow> g_numPlayers (game_step g op) = g_numPlayers g"
proof (cases op)
  case (Act a)
  assume "game_inv g"
  with Act show ?thesis
    using game_pass_fields[of g] by (cases a) (simp_all add: game_play_fields kept_def)
qed (simp add: game_forfeitSeat_fields)

text \<open>A departure that leaves two holders of cards never ends the game.\<close>

lemma resolveTrick_goes_on:
  assumes "core_inv g" "g_status g = Playing" "g_pileOwner g = Some w" "2 \<le> activeCount g"
  shows "g_status (fst (resolveTrick g ev)) = Playing"
proof -
  have "nextActiveAfter w g \<noteq> None" using nextActiveAfter_None[OF assms(1), of w] assms(4) by auto
  moreover have "activeCount (g\<lparr>g_pile := None, g_pileOwner := None, g_passed := [], g_turn := t\<rparr>) =
      activeCount g" for t by (simp add: activeCount_def)
  ultimately show ?thesis using assms by (auto simp: resolveTrick_def Let_def)
qed

lemma game_forfeitSeat_goes_on:
  assumes "game_inv g" "g_status g = Playing" "seat < g_numPlayers g" "seat \<notin> set (g_gone g)"
    and "2 \<le> activeCount (left_game seat g)"
  shows "g_status (snd (game_forfeitSeat seat g)) = Playing"
proof (cases rule: game_forfeitSeat_cases[of g seat])
  case ignored
  with assms show ?thesis by auto
next
  case (leaves g3 ev)
  let ?h = "left_game seat g"
  from assms(1,2) have i: "core_inv g" "table_inv g" by (simp_all add: game_inv_def)
  have ch: "core_inv ?h" using leave_core[OF i(1) assms(3,4)] by (simp add: left_game_def)
  have "g_status g3 = Playing \<and> 2 \<le> activeCount g3"
  proof (cases "g_turn g = Some seat")
    case False
    with leaves(5) assms(2,5) show ?thesis by auto
  next
    case True
    have p3: "g_status g3 = Playing"
    proof (cases "g_pile g")
      case None
      have "nextActiveAfter seat ?h \<noteq> None" using nextActiveAfter_None[OF ch, of seat] assms(5) by auto
      with None True leaves(5) assms(2) show ?thesis by (auto simp: leave_turn_def Let_def)
    next
      case (Some c)
      then have "g_pile g \<noteq> None" by simp
      from i(2) this True obtain w where w: "g_pileOwner ?h = Some w" by (auto elim: table_inv_pile)
      have "g_status (fst (resolveTrick ?h [])) = Playing"
        using resolveTrick_goes_on[OF ch _ w assms(5)] assms(2) by simp
      with Some True leaves(5) assms(2) show ?thesis
        by (auto simp: leave_turn_def split: if_splits)
    qed
    with leave_turn_inv[OF i assms(2) True assms(4)] leaves(5) True assms(5) show ?thesis
      by (auto simp: game_inv_def)
  qed
  with leaves(6) show ?thesis by (simp split: if_splits)
qed (simp add: assms(2))

lemma run_numPlayers:
  assumes "dealt n hands leader" "startGame n hands leader oc = Inr g0"
  shows "g_numPlayers (foldl game_step g0 ops) = n"
proof -
  have g0: "g0 = fresh_game n hands leader oc" using assms by (simp add: startGame_dealt)
  show ?thesis unfolding g0
    using game.run_frame[OF fresh_game_inv[OF assms(1)], of g_numPlayers] game_step_numPlayers
    by (simp add: fresh_game_def)
qed

subsection \<open>Properties\<close>

text \<open>C1: in every state a game reaches while it is being played, by any sequence of plays,
  passes and departures from any seat, it is the turn of exactly one seat that exists, still
  holds cards, has not left, has not passed in the current trick and does not own the pile, and
  at least two seats are still in the game.\<close>

theorem game_turn_is_live:
  assumes "dealt n hands leader" "startGame n hands leader oc = Inr g0"
    and "g = foldl game_step g0 ops" "\<not> isOver g"
  shows "\<exists>t. g_turn g = Some t \<and> t < n \<and> g_hands g ! t \<noteq> [] \<and> t \<notin> set (g_gone g) \<and>
    t \<notin> set (g_passed g) \<and> g_pileOwner g \<noteq> Some t \<and> 2 \<le> activeCount g"
proof -
  have i: "game_inv g" using fresh_game_reaches[OF assms(1,2)] assms(3) by simp
  have p: "g_status g = Playing" using assms(4) by (simp add: isOver_def) (metis game_status.exhaust)
  have n: "g_numPlayers g = n" using run_numPlayers[OF assms(1,2)] assms(3) by simp
  from i p have c: "core_inv g" "table_inv g" "2 \<le> activeCount g" by (simp_all add: game_inv_def)
  from c(2) obtain t where t: "g_turn g = Some t" "t < n" "eligible g t"
    using n by (cases "g_turn g") (auto simp: table_inv_def)
  have "g_pileOwner g \<noteq> Some t"
  proof (cases "g_pile g")
    case None
    with c(2) t(1) show ?thesis by (cases "g_pileOwner g") (auto simp: table_inv_def)
  next
    case (Some c')
    then have "g_pile g \<noteq> None" by simp
    from c(2) this t(1) show ?thesis by (rule table_inv_pile) auto
  qed
  with t c n show ?thesis by (auto simp: eligible_def core_inv_def)
qed

definition demo_hands :: "card list list" where
  "demo_hands = [[Standard R3 Spades, Standard R5 Hearts], [Standard R4 Clubs, Joker Red],
     [Standard R7 Spades]]"

definition demo_game :: game where
  "demo_game = fresh_game 3 demo_hands 0 (Some (Standard R3 Spades))"

lemma demo_dealt: "dealt 3 demo_hands 0"
  by (simp add: dealt_def demo_hands_def)

lemma demo_start: "startGame 3 demo_hands 0 (Some (Standard R3 Spades)) = Inr demo_game"
  by (simp add: demo_game_def startGame_dealt[OF demo_dealt])

theorem game_turn_is_live_witness:
  "\<exists>t. g_turn (foldl game_step demo_game [Act (PlayAction 0 [Standard R3 Spades]), Leave 1]) = Some t"
proof -
  have "\<not> isOver (foldl game_step demo_game [Act (PlayAction 0 [Standard R3 Spades]), Leave 1])"
    by code_simp
  from game_turn_is_live[OF demo_dealt demo_start refl this] show ?thesis by blast
qed

text \<open>C10: no reachable state of a game is stuck, as long as the opening card, when one is
  required, is in the hand of the player to move: the player whose turn it is can always pass
  on a pile, and on an empty table can always lead, with the opening card if it is still owed
  and with any single card otherwise.\<close>

theorem game_progress:
  assumes "dealt n hands leader" "startGame n hands leader oc = Inr g0"
    and "g = foldl game_step g0 ops" "g_turn g = Some t" "\<not> isOver g"
    and "g_opened g \<or> g_openingCard g = None \<or> set_option (g_openingCard g) \<subseteq> set (handOf t g)"
  shows "if g_pile g \<noteq> None then ar_ok (fst (game_pass t g))
         else \<exists>c\<in>set (handOf t g). ar_ok (fst (game_play t [c] g))"
proof -
  have i: "game_inv g" using fresh_game_reaches[OF assms(1,2)] assms(3) by simp
  have p: "g_status g = Playing" using assms(5) by (simp add: isOver_def) (metis game_status.exhaust)
  from i p assms(4) have t: "t < length (g_hands g)" "g_hands g ! t \<noteq> []"
    by (auto simp: game_inv_def core_inv_def table_inv_def eligible_def)
  then have h: "handOf t g = g_hands g ! t" by (simp add: handOf_def)
  show ?thesis
  proof (cases "g_pile g")
    case None
    obtain c where c: "c \<in> set (handOf t g)" "\<not> opening_missed [c] g"
    proof (cases "g_opened g \<or> g_openingCard g = None")
      case True
      with that[of "hd (handOf t g)"] t h show ?thesis
        by (auto simp: opening_missed_def split: option.splits)
    next
      case False
      with assms(6) that show ?thesis by (auto simp: opening_missed_def)
    qed
    have "identifyCombo [c] \<noteq> None" by (simp add: identifyCombo_def)
    then have "pc_ok (validatePlay [c] None) \<and> pc_combo (validatePlay [c] None) \<noteq> None"
      by (auto simp: validatePlay_def)
    moreover have "handHasAll t [c] g" using c h by (simp add: handHasAll_iff)
    ultimately have "ar_ok (fst (game_play t [c] g))"
      using c(2) p assms(4) None by (auto simp: game_play_def Let_def split: prod.split)
    with c(1) None show ?thesis by auto
  next
    case (Some q)
    with p assms(4) show ?thesis by (simp add: game_pass_def split: prod.split)
  qed
qed

theorem game_progress_witness:
  "\<exists>c\<in>set (handOf 0 demo_game). ar_ok (fst (game_play 0 [c] demo_game))"
proof -
  have a: "g_turn demo_game = Some 0" "\<not> isOver demo_game" "g_pile demo_game = None"
    "g_opened demo_game \<or> g_openingCard demo_game = None \<or>
       set_option (g_openingCard demo_game) \<subseteq> set (handOf 0 demo_game)"
    by (simp_all add: demo_game_def fresh_game_def isOver_def handOf_def demo_hands_def)
  have "demo_game = foldl game_step demo_game []" by simp
  from game_progress[OF demo_dealt demo_start this a(1,2,4)] a(3) show ?thesis by simp
qed

text \<open>C2: every game terminates. From a fresh deal, whatever plays, passes and departures are
  submitted by whom in whatever order, at most (cards dealt) * (players + 2) + players + 1 of
  them are accepted; every other one is refused and changes nothing.\<close>

theorem game_terminates:
  assumes "dealt n hands leader" "startGame n hands leader oc = Inr g0"
  shows "accepted_count game_step game_accepts g0 ops \<le>
     sum_list (map length hands) * (n + 2) + n + 1"
proof -
  have g0: "g0 = fresh_game n hands leader oc" using assms by (simp add: startGame_dealt)
  have "game_rank g0 = sum_list (map length hands) * (n + 2) + n + 1"
    by (simp add: g0 fresh_game_def game_rank_def cards_left_def)
  with game.accepted_bound[OF fresh_game_inv[OF assms(1)], of oc ops] show ?thesis
    by (simp add: g0)
qed

theorem game_terminates_witness:
  "accepted_count game_step game_accepts demo_game
     [Act (PlayAction 0 [Standard R3 Spades]), Act (PassAction 2), Leave 1] \<le> 29"
  using game_terminates[OF demo_dealt demo_start,
      of "[Act (PlayAction 0 [Standard R3 Spades]), Act (PassAction 2), Leave 1]"]
  by (simp add: demo_hands_def)

text \<open>C4: when a game is over its finishing order is complete and fair: it names every seat
  exactly once, and the players who left while holding cards take the last places, the first to
  leave being the very last; nobody who stayed (or emptied the hand) is placed behind them.\<close>

theorem finishing_order_correct:
  assumes "dealt n hands leader" "startGame n hands leader oc = Inr g0"
    and "g = foldl game_step g0 ops" "isOver g"
  shows "distinct (g_finishingOrder g) \<and> set (g_finishingOrder g) = {..<n} \<and>
    (\<exists>stayed. g_finishingOrder g = stayed @ rev (filter (\<lambda>s. handOf s g \<noteq> []) (g_gone g)) \<and>
       list_all (\<lambda>s. s \<notin> set (g_gone g) \<or> handOf s g = []) stayed)"
proof -
  have i: "game_inv g" using fresh_game_reaches[OF assms(1,2)] assms(3) by simp
  have n: "g_numPlayers g = n" using run_numPlayers[OF assms(1,2)] assms(3) by simp
  from i assms(4) have f: "finished_inv g" by (simp add: game_inv_def isOver_def)
  then obtain stayed where st: "g_finishingOrder g = stayed @ left_holding g"
    "\<forall>s\<in>set stayed. s \<notin> set (g_gone g) \<or> g_hands g ! s = []"
    and len: "length (g_hands g) = n" and all: "set (g_finishingOrder g) = {..<n}"
    using n by (auto simp: finished_inv_def)
  have h: "handOf s g = g_hands g ! s" if "s < n" for s using that len by (simp add: handOf_def)
  have "filter (\<lambda>s. handOf s g \<noteq> []) (g_gone g) = filter (\<lambda>s. g_hands g ! s \<noteq> []) (g_gone g)"
  proof (rule filter_cong)
    fix s assume "s \<in> set (g_gone g)"
    show "(handOf s g \<noteq> []) = (g_hands g ! s \<noteq> [])"
    proof (cases "s < n")
      case False
      have "s \<notin> set (left_holding g)" using st(1) all False by auto
      with \<open>s \<in> set (g_gone g)\<close> have "g_hands g ! s = []" by (auto simp: left_holding_def)
      with False len show ?thesis by (simp add: handOf_def)
    qed (simp add: h)
  qed simp
  moreover have "\<forall>s\<in>set stayed. s < n" using st(1) all by auto
  ultimately have "g_finishingOrder g = stayed @ rev (filter (\<lambda>s. handOf s g \<noteq> []) (g_gone g))"
    "list_all (\<lambda>s. s \<notin> set (g_gone g) \<or> handOf s g = []) stayed"
    using st h by (auto simp: left_holding_def list_all_iff)
  with f n show ?thesis unfolding finished_inv_def by blast
qed

theorem finishing_order_correct_witness:
  "set (g_finishingOrder (foldl game_step demo_game [Leave 1, Act (PlayAction 0 [Standard R3 Spades]),
      Act (PlayAction 2 [Standard R7 Spades])])) = {..<3}"
proof -
  have "isOver (foldl game_step demo_game [Leave 1, Act (PlayAction 0 [Standard R3 Spades]),
      Act (PlayAction 2 [Standard R7 Spades])])" by code_simp
  from finishing_order_correct[OF demo_dealt demo_start refl this] show ?thesis by blast
qed

lemma kept_hands: "kept g g' \<Longrightarrow> g_hands g' = g_hands g"
  by (simp add: kept_def)

text \<open>C12: a play is accepted exactly when the game is on, it is the player's turn, the cards are
  distinct and really in the player's hand, the opening card is among them if it is still owed,
  and the rules engine accepts them against the pile. An accepted play takes exactly these cards
  out of that hand and touches no other hand; a refused one leaves the whole game as it was.\<close>

theorem game_play_correct:
  assumes "game_inv g"
  shows "(ar_ok (fst (game_play seat cards g)) \<longleftrightarrow>
      \<not> isOver g \<and> g_turn g = Some seat \<and> distinct cards \<and> cards \<noteq> [] \<and>
      set cards \<subseteq> set (g_hands g ! seat) \<and> \<not> opening_missed cards g \<and>
      pc_ok (validatePlay cards (g_pile g))) \<and>
    (if ar_ok (fst (game_play seat cards g))
     then g_hands (snd (game_play seat cards g)) =
            (g_hands g)[seat := filter (\<lambda>c. c \<notin> set cards) (g_hands g ! seat)]
     else snd (game_play seat cards g) = g)"
proof (cases rule: game_play_cases[of seat cards g])
  case (rejected code)
  have "\<not> (\<not> isOver g \<and> g_turn g = Some seat \<and> distinct cards \<and> cards \<noteq> [] \<and>
      set cards \<subseteq> set (g_hands g ! seat) \<and> \<not> opening_missed cards g \<and>
      pc_ok (validatePlay cards (g_pile g)))"
  proof
    assume a: "\<not> isOver g \<and> g_turn g = Some seat \<and> distinct cards \<and> cards \<noteq> [] \<and>
      set cards \<subseteq> set (g_hands g ! seat) \<and> \<not> opening_missed cards g \<and>
      pc_ok (validatePlay cards (g_pile g))"
    then obtain c where "pc_combo (validatePlay cards (g_pile g)) = Some c"
      by (auto elim: validatePlay_combo)
    with a have "ar_ok (fst (game_play seat cards g))"
      by (simp add: game_play_def Let_def isOver_def handHasAll_iff split: prod.split)
    with rejected show False by simp
  qed
  with rejected show ?thesis by simp
next
  case (accepted combo g' ev)
  have "kept (commit_play seat cards combo g) g'"
    using after_play_inv[OF assms accepted(1,2,9,11)] by simp
  from kept_hands[OF this] accepted show ?thesis
    by (simp add: isOver_def commit_play_def removeCards_hand)
qed

theorem game_play_correct_witness:
  "g_hands (snd (game_play 0 [Standard R3 Spades] demo_game)) =
     [[Standard R5 Hearts], [Standard R4 Clubs, Joker Red], [Standard R7 Spades]]"
proof -
  have i: "game_inv demo_game" unfolding demo_game_def by (rule fresh_game_inv[OF demo_dealt])
  have "ar_ok (fst (game_play 0 [Standard R3 Spades] demo_game))" by code_simp
  with game_play_correct[OF i, of 0 "[Standard R3 Spades]"]
  have "g_hands (snd (game_play 0 [Standard R3 Spades] demo_game)) =
    (g_hands demo_game)[0 := filter (\<lambda>c. c \<notin> set [Standard R3 Spades]) (g_hands demo_game ! 0)]"
    by meson
  then show ?thesis by (simp add: demo_game_def fresh_game_def demo_hands_def)
qed

subsection \<open>A quitting opener freezes the first game\<close>

lemma must_open_blocks:
  assumes "g_pile g = None" "g_openingCard g = Some oc" "\<not> g_opened g"
    and "\<And>t. g_turn g = Some t \<Longrightarrow> oc \<notin> set (g_hands g ! t)"
  shows "\<not> ar_ok (fst (game_play seat cards g))" "\<not> ar_ok (fst (game_pass seat g))"
proof -
  show "\<not> ar_ok (fst (game_play seat cards g))"
  proof (cases rule: game_play_cases[of seat cards g])
    case (accepted combo g' ev)
    with assms show ?thesis by (auto simp: opening_missed_def list_ex_iff)
  qed simp
  show "\<not> ar_ok (fst (game_pass seat g))" using assms(1) by (auto simp: game_pass_def)
qed



end
