(* ===== verification/Scoring.thy ===== *)
theory Scoring
  imports Engine
begin

text \<open>
  Match scoring and the primitives of the card switch
  (\<^verbatim>\<open>packages/server/src/match/scoring.ts\<close>, \<^verbatim>\<open>packages/shared/src/rules.ts\<close>).
  Scores and targets are JavaScript integers, modelled as \<open>int\<close>. The functions that throw
  return a sum whose left side is the error.
\<close>

datatype match_type = OneVOne | OneVOneVOne | TwoVTwo

definition playersForType :: "match_type \<Rightarrow> nat" where
  "playersForType ty =
     (if ty = OneVOne then 2 else if ty = OneVOneVOne then 3 else 4)"

fun place_points :: "match_type \<Rightarrow> int list" where
  "place_points OneVOne = [1, 0]"
| "place_points OneVOneVOne = [2, 1, 0]"
| "place_points TwoVTwo = [3, 2, 1, 0]"

datatype scoring_error = OrderLength | EmptyHand

definition scale_at :: "int list \<Rightarrow> nat \<Rightarrow> int" where
  "scale_at scale place = (if place < length scale then scale ! place else 0)"

definition gamePoints :: "match_type \<Rightarrow> seat list \<Rightarrow> scoring_error + int list" where
  "gamePoints ty finishingOrder =
     (let n = playersForType ty in
      if length finishingOrder \<noteq> n then Inl OrderLength
      else Inr (foldl (\<lambda>pts place. pts[finishingOrder ! place := scale_at (place_points ty) place])
                 (replicate n 0) [0..<length finishingOrder]))"

type_synonym teams = "seat list \<times> seat list"

definition DEFAULT_TEAMS :: teams where
  "DEFAULT_TEAMS = ([0, 2], [1, 3])"

definition teamOfSeat :: "seat \<Rightarrow> teams \<Rightarrow> nat" where
  "teamOfSeat seat teams = (if seat \<in> set (fst teams) then 0 else 1)"

definition team_sum :: "int list \<Rightarrow> seat list \<Rightarrow> int" where
  "team_sum perSeat grp =
     foldl (\<lambda>acc s. acc + (if s < length perSeat then perSeat ! s else 0)) 0 grp"

definition teamTotals :: "int list \<Rightarrow> teams \<Rightarrow> int list" where
  "teamTotals perSeat teams = [team_sum perSeat (fst teams), team_sum perSeat (snd teams)]"

record match_evaluation =
  ev_over :: bool
  ev_winnerSide :: "nat option"
  ev_newTarget :: int
  ev_extended :: bool

text \<open>\<^verbatim>\<open>Math.max()\<close> of no arguments is minus infinity, which no score equals.\<close>

definition evaluateMatch :: "int list \<Rightarrow> int \<Rightarrow> match_evaluation" where
  "evaluateMatch sideScores target =
     (case sideScores of
        [] \<Rightarrow> \<lparr>ev_over = False, ev_winnerSide = None, ev_newTarget = target, ev_extended = False\<rparr>
      | s # ss \<Rightarrow>
          (let maxVal = foldl max s ss;
               leaders = length (filter (\<lambda>x. x = maxVal) sideScores)
           in if leaders = 1 \<and> maxVal \<ge> target then
                \<lparr>ev_over = True, ev_winnerSide = find_index (\<lambda>x. x = maxVal) sideScores,
                 ev_newTarget = target, ev_extended = False\<rparr>
              else if leaders \<ge> 2 \<and> maxVal \<ge> target - 1 then
                \<lparr>ev_over = False, ev_winnerSide = None, ev_newTarget = target + 10, ev_extended = True\<rparr>
              else
                \<lparr>ev_over = False, ev_winnerSide = None, ev_newTarget = target, ev_extended = False\<rparr>))"

fun strongest_loop :: "card list \<Rightarrow> nat \<Rightarrow> nat \<Rightarrow> nat \<Rightarrow> nat" where
  "strongest_loop [] i best bestPow = best"
| "strongest_loop (c # cs) i best bestPow =
     (let p = singlePower c
      in if p > bestPow then strongest_loop cs (i + 1) i p else strongest_loop cs (i + 1) best bestPow)"

definition strongestIndexByPower :: "card list \<Rightarrow> scoring_error + nat" where
  "strongestIndexByPower hand =
     (case hand of [] \<Rightarrow> Inl EmptyHand
      | c # cs \<Rightarrow> Inr (strongest_loop cs 1 0 (singlePower c)))"

definition SWITCH_RANKS :: "rank list" where
  "SWITCH_RANKS = [R3, R4, R5, R6, R7, R8, R9, R10]"

fun isReturnEligible :: "card \<Rightarrow> bool" where
  "isReturnEligible (Standard r s) = (r \<in> set SWITCH_RANKS)"
| "isReturnEligible (Joker c) = False"

definition eligibleReturnCards :: "card list \<Rightarrow> card list" where
  "eligibleReturnCards hand = filter isReturnEligible hand"

subsection \<open>Points\<close>

definition is_order :: "match_type \<Rightarrow> seat list \<Rightarrow> bool" where
  "is_order ty ord \<longleftrightarrow> distinct ord \<and> set ord = {..<playersForType ty}"

lemma is_order_length: "is_order ty ord \<Longrightarrow> length ord = playersForType ty"
  by (metis card_lessThan distinct_card is_order_def)

lemma playersForType_bounds: "2 \<le> playersForType ty" "playersForType ty \<le> 4"
  by (simp_all add: playersForType_def)

lemma place_points_nth:
  "place < playersForType ty \<Longrightarrow> scale_at (place_points ty) place = int (playersForType ty) - 1 - int place"
  by (cases ty) (auto simp: playersForType_def scale_at_def less_Suc_eq numeral_eq_Suc)

lemma foldl_place_points:
  assumes "distinct ord" "k \<le> length ord" "\<forall>s\<in>set ord. s < length pts" "i < length ord"
  shows "foldl (\<lambda>pts place. pts[ord ! place := f place]) pts [0..<k] ! (ord ! i) =
    (if i < k then f i else pts ! (ord ! i))"
  using assms(2)
proof (induction k)
  case (Suc k)
  have len: "length (foldl (\<lambda>pts place. pts[ord ! place := f place]) pts [0..<j]) = length pts" for j
    by (induction j) auto
  have lt: "ord ! j < length pts" if "j < length ord" for j
    using assms(3) that nth_mem by blast
  have "ord ! i = ord ! k \<longleftrightarrow> i = k"
    using assms(1,4) Suc.prems by (simp add: nth_eq_iff_index_eq)
  then show ?case using Suc lt[of k] len
    by (auto simp: nth_list_update)
qed simp

lemma gamePoints_nth:
  assumes "is_order ty ord" "gamePoints ty ord = Inr pts" "i < playersForType ty"
  shows "pts ! (ord ! i) = int (playersForType ty) - 1 - int i"
proof -
  let ?n = "playersForType ty"
  have len: "length ord = ?n" using assms(1) by (rule is_order_length)
  have p: "pts = foldl (\<lambda>pts place. pts[ord ! place := scale_at (place_points ty) place])
      (replicate ?n 0) [0..<?n]"
    using assms(2) len by (simp add: gamePoints_def Let_def)
  have "pts ! (ord ! i) = scale_at (place_points ty) i"
    unfolding p using assms(1,3) len
    by (subst foldl_place_points) (auto simp: is_order_def)
  then show ?thesis using assms(3) by (simp add: place_points_nth)
qed

lemma length_foldl_update:
  "length (foldl (\<lambda>xs i. xs[f i := h i]) xs js) = length xs"
  by (induction js arbitrary: xs) simp_all

lemma gamePoints_length: "gamePoints ty ord = Inr pts \<Longrightarrow> length pts = playersForType ty"
  by (auto simp: gamePoints_def Let_def length_foldl_update split: if_splits)

lemma gamePoints_is_order: "is_order ty ord \<Longrightarrow> \<exists>pts. gamePoints ty ord = Inr pts"
  by (simp add: gamePoints_def is_order_length Let_def)

lemma sum_by_order:
  assumes "distinct ord" "set ord = {..<n}" "length xs = n"
  shows "sum_list xs = (\<Sum>i<n. xs ! (ord ! i))"
proof -
  have "sum_list xs = (\<Sum>s\<in>set ord. xs ! s)"
    using assms by (simp add: sum_list_sum_nth atLeast0LessThan)
  also have "\<dots> = sum_list (map (\<lambda>s. xs ! s) ord)"
    using assms(1) by (simp add: sum_list_distinct_conv_sum_set)
  also have "\<dots> = (\<Sum>i<length ord. xs ! (ord ! i))"
    by (simp add: sum_list_sum_nth atLeast0LessThan)
  finally show ?thesis using assms by (metis card_lessThan distinct_card)
qed

lemma gamePoints_sum:
  assumes "is_order ty ord" "gamePoints ty ord = Inr pts"
  shows "sum_list pts = int (playersForType ty * (playersForType ty - 1) div 2)"
proof -
  have "sum_list pts = (\<Sum>i<playersForType ty. int (playersForType ty) - 1 - int i)"
    using sum_by_order[of ord "playersForType ty" pts] assms gamePoints_nth[OF assms]
      gamePoints_length[OF assms(2)] by (simp add: is_order_def)
  moreover have "(\<Sum>i<playersForType ty. int (playersForType ty) - 1 - int i) =
      int (playersForType ty * (playersForType ty - 1) div 2)"
    by (cases ty) (simp_all add: playersForType_def, code_simp+)
  ultimately show ?thesis by simp
qed

subsection \<open>Winning\<close>

lemma foldl_max_Max: "foldl max x xs = Max (set (x # xs))" for x :: int
proof (induction xs arbitrary: x)
  case (Cons y ys)
  have "Max (insert x (insert y (set ys))) = Max (insert (max x y) (set ys))"
    by (cases "ys = []") (simp_all add: max.assoc)
  with Cons show ?case by simp
qed simp

definition sole_leader :: "int list \<Rightarrow> nat \<Rightarrow> bool" where
  "sole_leader scores side \<longleftrightarrow>
     side < length scores \<and> (\<forall>j<length scores. j \<noteq> side \<longrightarrow> scores ! j < scores ! side)"

lemma leaders_one_iff:
  assumes "scores \<noteq> []"
  shows "length (filter (\<lambda>x. x = Max (set scores)) scores) = 1 \<and>
      find_index (\<lambda>x. x = Max (set scores)) scores = Some i \<longleftrightarrow> sole_leader scores i"
proof -
  let ?m = "Max (set scores)"
  let ?L = "{j. j < length scores \<and> scores ! j = ?m}"
  have cnt: "length (filter (\<lambda>x. x = ?m) scores) = card ?L"
    by (simp add: length_filter_conv_card)
  have le: "scores ! j \<le> ?m" if "j < length scores" for j using that by simp
  have mem: "?m \<in> set scores" using assms by simp
  show ?thesis
  proof
    assume a: "length (filter (\<lambda>x. x = ?m) scores) = 1 \<and> find_index (\<lambda>x. x = ?m) scores = Some i"
    then have i: "i < length scores" "scores ! i = ?m" using find_index_Some[of "\<lambda>x. x = ?m" scores i] by auto
    from a cnt have "card ?L = 1" by simp
    then obtain k where k: "?L = {k}" by (rule card_1_singletonE)
    have "i \<in> ?L" using i by simp
    then have "i = k" unfolding k by simp
    with k have "?L = {i}" by (simp only:)
    show "sole_leader scores i" unfolding sole_leader_def
    proof (intro conjI allI impI)
      fix j assume j: "j < length scores" "j \<noteq> i"
      have "j \<notin> ?L" unfolding \<open>?L = {i}\<close> using j(2) by simp
      then have "scores ! j \<noteq> ?m" using j(1) by simp
      with le[OF j(1)] i(2) show "scores ! j < scores ! i" by linarith
    qed (fact i(1))
  next
    assume s: "sole_leader scores i"
    then have i: "scores ! i = ?m"
      using mem le by (metis in_set_conv_nth leD sole_leader_def)
    with s have "?L = {i}" by (auto simp: sole_leader_def)
    then have one: "length (filter (\<lambda>x. x = ?m) scores) = 1" using cnt by simp
    obtain k where k: "find_index (\<lambda>x. x = ?m) scores = Some k"
      using mem find_index_None[of "\<lambda>x. x = ?m" scores] by fastforce
    from find_index_Some[OF k] \<open>?L = {i}\<close> have "k = i" by auto
    with one k show "length (filter (\<lambda>x. x = ?m) scores) = 1 \<and> find_index (\<lambda>x. x = ?m) scores = Some i"
      by simp
  qed
qed

lemma evaluateMatch_unfold:
  assumes "scores \<noteq> []"
  shows "evaluateMatch scores target =
      (let m = Max (set scores); k = length (filter (\<lambda>x. x = Max (set scores)) scores) in
       if k = 1 \<and> m \<ge> target then
         \<lparr>ev_over = True, ev_winnerSide = find_index (\<lambda>x. x = m) scores,
          ev_newTarget = target, ev_extended = False\<rparr>
       else if k \<ge> 2 \<and> m \<ge> target - 1 then
         \<lparr>ev_over = False, ev_winnerSide = None, ev_newTarget = target + 10, ev_extended = True\<rparr>
       else \<lparr>ev_over = False, ev_winnerSide = None, ev_newTarget = target, ev_extended = False\<rparr>)"
proof -
  obtain s ss where c: "scores = s # ss" using assms by (cases scores) auto
  have "foldl max s ss = Max (set scores)" by (simp only: c foldl_max_Max)
  then show ?thesis by (simp add: evaluateMatch_def c Let_def)
qed

lemma sole_leader_max:
  assumes "sole_leader scores i"
  shows "scores ! i = Max (set scores)"
proof -
  have "scores \<noteq> []" using assms by (auto simp: sole_leader_def)
  from leaders_one_iff[OF this, of i] assms find_index_Some[of _ scores i] show ?thesis by auto
qed

lemma evaluateMatch_winner:
  assumes "scores \<noteq> []"
  shows "ev_over (evaluateMatch scores target) \<and> ev_winnerSide (evaluateMatch scores target) = Some i
       \<longleftrightarrow> sole_leader scores i \<and> target \<le> scores ! i"
  using leaders_one_iff[OF assms, of i] sole_leader_max[of scores i]
  by (auto simp: evaluateMatch_unfold[OF assms] Let_def)

lemma sole_leader_ex:
  assumes "scores \<noteq> []"
  shows "(\<exists>i. sole_leader scores i) \<longleftrightarrow> length (filter (\<lambda>x. x = Max (set scores)) scores) = 1"
proof
  assume "length (filter (\<lambda>x. x = Max (set scores)) scores) = 1"
  moreover have "Max (set scores) \<in> set scores" using assms by simp
  then obtain j where "find_index (\<lambda>x. x = Max (set scores)) scores = Some j"
    using find_index_None[of "\<lambda>x. x = Max (set scores)" scores] by fastforce
  ultimately show "\<exists>i. sole_leader scores i" using leaders_one_iff[OF assms] by blast
qed (use leaders_one_iff[OF assms] in blast)

text \<open>The match decision. A side wins exactly when it alone has the highest score and that
  score reaches the target; the target is raised by ten exactly when two or more sides share the
  highest score and it is at least one below the target; and the two never happen together.\<close>

theorem evaluateMatch_correct:
  assumes "scores \<noteq> []"
  shows "(ev_over (evaluateMatch scores target) \<and> ev_winnerSide (evaluateMatch scores target) = Some i
       \<longleftrightarrow> sole_leader scores i \<and> target \<le> scores ! i) \<and>
    (ev_extended (evaluateMatch scores target) \<longleftrightarrow>
       (\<nexists>i. sole_leader scores i) \<and> target - 1 \<le> Max (set scores)) \<and>
    ev_newTarget (evaluateMatch scores target) =
       (if ev_extended (evaluateMatch scores target) then target + 10 else target)"
proof -
  let ?k = "length (filter (\<lambda>x. x = Max (set scores)) scores)"
  have "Max (set scores) \<in> set scores" using assms by simp
  then have "?k \<noteq> 0" by (auto simp: filter_empty_conv)
  then have "?k \<ge> 2 \<longleftrightarrow> (\<nexists>i. sole_leader scores i)" unfolding sole_leader_ex[OF assms] by linarith
  then show ?thesis
    using evaluateMatch_winner[OF assms, of target i]
    by (auto simp: evaluateMatch_unfold[OF assms] Let_def)
qed

theorem evaluateMatch_correct_witness:
  "ev_over (evaluateMatch [22, 20, 19] 21) \<and> ev_winnerSide (evaluateMatch [22, 20, 19] 21) = Some 0"
proof -
  have "sole_leader [22, 20, 19 :: int] 0" by (auto simp: sole_leader_def less_Suc_eq)
  then show ?thesis using evaluateMatch_correct[of "[22, 20, 19]" 21 0] by simp
qed

subsection \<open>The card switch\<close>

lemma strongest_loop_spec:
  assumes "best < length pre" "bestPow = singlePower (pre ! best)"
    and "\<forall>c\<in>set pre. singlePower c \<le> bestPow"
  shows "strongest_loop cs (length pre) best bestPow < length (pre @ cs) \<and>
    (\<forall>c\<in>set (pre @ cs). singlePower c \<le> singlePower ((pre @ cs) ! strongest_loop cs (length pre) best bestPow))"
  using assms
proof (induction cs arbitrary: pre best bestPow)
  case (Cons c cs)
  show ?case
  proof (cases "singlePower c > bestPow")
    case True
    with Cons.prems have "\<forall>d\<in>set (pre @ [c]). singlePower d \<le> singlePower c" by fastforce
    with True Cons.IH[of "length pre" "pre @ [c]" "singlePower c"] show ?thesis by (simp add: Let_def)
  next
    case False
    with Cons.prems have "\<forall>d\<in>set (pre @ [c]). singlePower d \<le> bestPow"
      "bestPow = singlePower ((pre @ [c]) ! best)" by (auto simp: nth_append)
    with False Cons.prems(1) Cons.IH[of best "pre @ [c]" bestPow] show ?thesis by (simp add: Let_def)
  qed
qed (simp add: nth_append)

lemma strongestIndexByPower_spec:
  assumes "hand \<noteq> []"
  obtains i where "strongestIndexByPower hand = Inr i" "i < length hand"
    "\<forall>c\<in>set hand. singlePower c \<le> singlePower (hand ! i)"
proof -
  obtain c cs where h: "hand = c # cs" using assms by (cases hand) auto
  show ?thesis
    using that strongest_loop_spec[of 0 "[c]" "singlePower c" cs]
    by (simp add: h strongestIndexByPower_def)
qed

lemma isReturnEligible_iff: "isReturnEligible c \<longleftrightarrow> (\<exists>r s. c = Standard r s \<and> power_of r \<le> 7)"
proof (cases c)
  case (Standard r s)
  then show ?thesis by (cases r) (simp_all add: SWITCH_RANKS_def)
qed simp

end
