(* ===== verification/Fair.thy ===== *)
theory Fair
  imports Engine
begin

text \<open>
  Randomness of the deals: the cryptographic generator of
  \<^verbatim>\<open>packages/server/src/util/rng.ts\<close>, the HMAC stream of
  \<^verbatim>\<open>packages/server/src/fair/prng.ts\<close> and the commit-reveal service of
  \<^verbatim>\<open>packages/server/src/fair/provablyFair.ts\<close>.

  Node's \<^verbatim>\<open>crypto\<close> module is a parameter: \<open>bytes\<close> is the sequence of bytes
  \<^verbatim>\<open>randomBytes\<close> delivers, \<open>hmac key message\<close> the HMAC-SHA256 digest and \<open>sha\<close> the
  hexadecimal SHA-256 of a string. What is used of them is that a digest has 32 bytes
  (\<open>digest32\<close>).
\<close>

type_synonym byte = "8 word"

subsection \<open>cryptoRng\<close>

definition crypto_value :: "(nat \<Rightarrow> byte) \<Rightarrow> nat \<Rightarrow> nat" where
  "crypto_value bytes pos = foldl (\<lambda>v i. v * 256 + unat (bytes (pos + i))) 0 [0..<6]"

definition cryptoRng :: "(nat \<Rightarrow> byte) \<Rightarrow> nat \<Rightarrow> rat \<times> nat" where
  "cryptoRng bytes pos = (of_nat (crypto_value bytes pos) / 2 ^ 48, pos + 6)"

subsection \<open>hmacRng\<close>

record hmac_state =
  h_block :: nat
  h_buffer :: "byte list"
  h_pos :: nat

definition hmac_start :: hmac_state where
  "hmac_start = \<lparr>h_block = 0, h_buffer = [], h_pos = 0\<rparr>"

definition hmac_message :: "string \<Rightarrow> nat \<Rightarrow> nat \<Rightarrow> string" where
  "hmac_message clientSeed nonce block =
     clientSeed @ '':'' @ nat_str nonce @ '':'' @ nat_str block"

definition refill ::
  "(string \<Rightarrow> string \<Rightarrow> byte list) \<Rightarrow> string \<Rightarrow> string \<Rightarrow> nat \<Rightarrow> hmac_state \<Rightarrow> hmac_state" where
  "refill hmac serverSeed clientSeed nonce st =
     \<lparr>h_block = h_block st + 1,
      h_buffer = hmac serverSeed (hmac_message clientSeed nonce (h_block st)), h_pos = 0\<rparr>"

definition readUInt32BE :: "byte list \<Rightarrow> nat \<Rightarrow> nat" where
  "readUInt32BE buf pos =
     (if pos + 4 \<le> length buf
      then foldl (\<lambda>v i. v * 256 + unat (buf ! (pos + i))) 0 [0..<4] else 0)"

definition hmacRng ::
  "(string \<Rightarrow> string \<Rightarrow> byte list) \<Rightarrow> string \<Rightarrow> string \<Rightarrow> nat \<Rightarrow> hmac_state \<Rightarrow> rat \<times> hmac_state" where
  "hmacRng hmac serverSeed clientSeed nonce st =
     (let st1 = (if h_pos st + 4 > length (h_buffer st)
                 then refill hmac serverSeed clientSeed nonce st else st);
          v = readUInt32BE (h_buffer st1) (h_pos st1)
      in (of_nat v / 2 ^ 32, st1\<lparr>h_pos := h_pos st1 + 4\<rparr>))"

subsection \<open>Commit and reveal\<close>

record game_seed =
  gs_index :: nat
  gs_nonce :: nat

record fair_shuffle =
  f_serverSeed :: string
  f_serverSeedHash :: string
  f_clientSeed :: string
  f_numPlayers :: nat
  f_games :: "game_seed list"

text \<open>The generated seeds stand for the two \<^verbatim>\<open>randomBytes\<close> calls of the constructor.\<close>

definition createFairShuffle ::
  "(string \<Rightarrow> string) \<Rightarrow> nat \<Rightarrow> string option \<Rightarrow> string option \<Rightarrow> string \<Rightarrow> string \<Rightarrow> fair_shuffle" where
  "createFairShuffle sha numPlayers clientSeed serverSeed rndServer rndClient =
     (let seedSrv = (case serverSeed of Some s \<Rightarrow> if length s > 0 then s else rndServer | None \<Rightarrow> rndServer);
          seed = (case clientSeed of Some s \<Rightarrow> if length s > 0 then s else rndClient | None \<Rightarrow> rndClient)
      in \<lparr>f_serverSeed = seedSrv, f_serverSeedHash = sha seedSrv, f_clientSeed = seed,
          f_numPlayers = numPlayers, f_games = []\<rparr>)"

definition fair_deal ::
  "(string \<Rightarrow> string \<Rightarrow> byte list) \<Rightarrow> fair_shuffle \<Rightarrow> card list list \<times> fair_shuffle" where
  "fair_deal hmac f =
     (let nonce = length (f_games f);
          hands = fst (deal (f_numPlayers f)
                    (hmacRng hmac (f_serverSeed f) (f_clientSeed f) nonce) hmac_start)
      in (hands, f\<lparr>f_games := f_games f @ [\<lparr>gs_index = nonce, gs_nonce = nonce\<rparr>]\<rparr>))"

definition fair_commitment :: "fair_shuffle \<Rightarrow> string \<times> string" where
  "fair_commitment f = (f_serverSeedHash f, f_clientSeed f)"

record fair_reveal =
  r_serverSeed :: string
  r_serverSeedHash :: string
  r_clientSeed :: string
  r_numPlayers :: nat
  r_gameCount :: nat

definition fair_reveal_of :: "fair_shuffle \<Rightarrow> fair_reveal" where
  "fair_reveal_of f =
     \<lparr>r_serverSeed = f_serverSeed f, r_serverSeedHash = f_serverSeedHash f,
      r_clientSeed = f_clientSeed f, r_numPlayers = f_numPlayers f,
      r_gameCount = length (f_games f)\<rparr>"

definition verifyDeal ::
  "(string \<Rightarrow> string \<Rightarrow> byte list) \<Rightarrow> string \<Rightarrow> string \<Rightarrow> nat \<Rightarrow> nat \<Rightarrow> card list list" where
  "verifyDeal hmac serverSeed clientSeed nonce numPlayers =
     fst (deal numPlayers (hmacRng hmac serverSeed clientSeed nonce) hmac_start)"

definition verifyCommitment :: "(string \<Rightarrow> string) \<Rightarrow> string \<Rightarrow> string \<Rightarrow> bool" where
  "verifyCommitment sha serverSeed serverSeedHash = (sha serverSeed = serverSeedHash)"

text \<open>Deal \<open>k\<close> games in a row and collect their hands.\<close>

fun fair_deals ::
  "(string \<Rightarrow> string \<Rightarrow> byte list) \<Rightarrow> nat \<Rightarrow> fair_shuffle \<Rightarrow> card list list list \<times> fair_shuffle" where
  "fair_deals hmac 0 f = ([], f)"
| "fair_deals hmac (Suc k) f =
     (let (hands, f1) = fair_deal hmac f; (rest, f2) = fair_deals hmac k f1 in (hands # rest, f2))"

subsection \<open>Draws stay in the unit interval\<close>

lemma be_value_bound:
  "foldl (\<lambda>v i. v * 256 + unat (f i :: byte)) 0 [0..<n] < 256 ^ n"
proof (induction n)
  case (Suc n)
  let ?v = "foldl (\<lambda>v i. v * 256 + unat (f i)) 0 [0..<n]"
  have "unat (f n) < 2 ^ LENGTH(8)" by (rule unsigned_less)
  then have "unat (f n) < 256" by simp
  then have "?v * 256 + unat (f n) < (?v + 1) * 256" by simp
  also have "\<dots> \<le> 256 ^ n * 256" using Suc.IH by (intro mult_right_mono) auto
  finally show ?case by (simp add: mult.commute)
qed simp

lemma unit_interval: "v < n \<Longrightarrow> (0 :: rat) \<le> of_nat v / of_nat n \<and> (of_nat v / of_nat n :: rat) < 1"
  by (simp add: divide_less_eq)

lemma cryptoRng_ok: "rng_ok (cryptoRng bytes)"
proof -
  have "crypto_value bytes pos < 256 ^ 6" for pos
    unfolding crypto_value_def by (rule be_value_bound)
  then have "0 \<le> (of_nat (crypto_value bytes pos) :: rat) / of_nat (256 ^ 6) \<and>
      (of_nat (crypto_value bytes pos) :: rat) / of_nat (256 ^ 6) < 1" for pos by (rule unit_interval)
  then show ?thesis by (simp add: rng_ok_def cryptoRng_def)
qed

lemma readUInt32BE_bound: "readUInt32BE buf pos < 2 ^ 32"
  using be_value_bound[of "\<lambda>i. buf ! (pos + i)" 4] by (simp add: readUInt32BE_def)

lemma hmacRng_ok: "rng_ok (hmacRng hmac serverSeed clientSeed nonce)"
proof -
  have "0 \<le> (of_nat (readUInt32BE b p) :: rat) / of_nat (2 ^ 32) \<and>
      (of_nat (readUInt32BE b p) :: rat) / of_nat (2 ^ 32) < 1" for b p
    by (rule unit_interval[OF readUInt32BE_bound])
  then show ?thesis by (simp add: rng_ok_def hmacRng_def Let_def)
qed

subsection \<open>The stream is read within its buffer and never repeats a block\<close>

definition digest32 :: "(string \<Rightarrow> string \<Rightarrow> byte list) \<Rightarrow> bool" where
  "digest32 hmac \<longleftrightarrow> (\<forall>key msg. length (hmac key msg) = 32)"

lemma split_at_last_colon:
  "xs @ '':'' @ as = ys @ '':'' @ bs \<Longrightarrow> CHR '':'' \<notin> set as \<Longrightarrow> CHR '':'' \<notin> set bs \<Longrightarrow>
     xs = ys \<and> as = bs"
proof (induction xs arbitrary: ys)
  case Nil
  then show ?case by (cases ys) auto
next
  case (Cons x xs)
  then show ?case by (cases ys) auto
qed

lemma hmac_message_inj:
  "hmac_message cs nonce block = hmac_message cs nonce' block' \<longleftrightarrow> nonce = nonce' \<and> block = block'"
proof
  have no: "CHR '':'' \<notin> set (nat_str n)" for n using nat_str_digits by blast
  assume e: "hmac_message cs nonce block = hmac_message cs nonce' block'"
  then have "(cs @ '':'' @ nat_str nonce) @ '':'' @ nat_str block =
      (cs @ '':'' @ nat_str nonce') @ '':'' @ nat_str block'" by (simp add: hmac_message_def)
  from split_at_last_colon[OF this no no]
  show "nonce = nonce' \<and> block = block'" by (simp add: nat_str_inj)
qed simp

text \<open>The provably-fair random stream is sound. Every draw lies in [0, 1); with 32-byte
  digests every read stays inside the digest it reads from; and for one client seed no two
  (game, block) pairs ever ask for the same HMAC message, so no part of the stream is reused.\<close>

theorem hmac_stream_sound:
  assumes "digest32 hmac"
  shows "rng_ok (hmacRng hmac serverSeed clientSeed nonce) \<and>
    (let st' = snd (hmacRng hmac serverSeed clientSeed nonce st) in h_pos st' \<le> length (h_buffer st')) \<and>
    (hmac_message clientSeed nonce b = hmac_message clientSeed nonce' b' \<longleftrightarrow> nonce = nonce' \<and> b = b')"
proof -
  have "h_pos (snd (hmacRng hmac serverSeed clientSeed nonce st)) \<le>
      length (h_buffer (snd (hmacRng hmac serverSeed clientSeed nonce st)))"
    using assms by (simp add: hmacRng_def Let_def refill_def digest32_def)
  then show ?thesis by (simp add: hmacRng_ok hmac_message_inj)
qed

definition toy_hmac :: "string \<Rightarrow> string \<Rightarrow> byte list" where
  "toy_hmac key msg = map (\<lambda>i. of_nat (length key + length msg + i)) [0..<32]"

theorem hmac_stream_sound_witness:
  "rng_ok (hmacRng toy_hmac ''s'' ''c'' 0) \<and>
   h_pos (snd (hmacRng toy_hmac ''s'' ''c'' 0 hmac_start)) \<le>
     length (h_buffer (snd (hmacRng toy_hmac ''s'' ''c'' 0 hmac_start)))"
proof -
  have "digest32 toy_hmac" by (simp add: digest32_def toy_hmac_def)
  from hmac_stream_sound[OF this, of "''s''" "''c''" 0 hmac_start] show ?thesis by (simp add: Let_def)
qed

subsection \<open>Every deal can be recomputed after the reveal\<close>

lemma fair_deal_fields:
  assumes "fair_deal hmac f = (hands, f1)"
  shows "f_serverSeed f1 = f_serverSeed f \<and> f_clientSeed f1 = f_clientSeed f \<and>
    f_serverSeedHash f1 = f_serverSeedHash f \<and> f_numPlayers f1 = f_numPlayers f \<and>
    length (f_games f1) = Suc (length (f_games f)) \<and>
    hands = verifyDeal hmac (f_serverSeed f) (f_clientSeed f) (length (f_games f)) (f_numPlayers f)"
  using assms by (auto simp: fair_deal_def Let_def verifyDeal_def)

lemma fair_deals_fields:
  "fair_deals hmac k f = (deals, f') \<Longrightarrow>
     f_serverSeed f' = f_serverSeed f \<and> f_clientSeed f' = f_clientSeed f \<and>
     f_serverSeedHash f' = f_serverSeedHash f \<and> f_numPlayers f' = f_numPlayers f \<and>
     length (f_games f') = length (f_games f) + k \<and> length deals = k \<and>
     (\<forall>i<k. deals ! i = verifyDeal hmac (f_serverSeed f) (f_clientSeed f) (length (f_games f) + i) (f_numPlayers f))"
proof (induction k arbitrary: f deals f')
  case (Suc k)
  obtain hands f1 where d: "fair_deal hmac f = (hands, f1)" by fastforce
  obtain rest f2 where r: "fair_deals hmac k f1 = (rest, f2)" by fastforce
  have e: "deals = hands # rest" "f' = f2" using Suc.prems d r by auto
  note a = fair_deal_fields[OF d] and b = Suc.IH[OF r]
  show ?case unfolding e using a b by (auto simp: nth_Cons' less_Suc_eq_0_disj)
qed simp

text \<open>C34: commit and reveal work together. Whatever seeds a fair shuffle was created from and
  however many games were dealt, the revealed server seed matches the hash committed before the
  first deal, the number of games is the number of deals, and recomputing each game from the
  revealed seeds gives exactly the hands that were dealt.\<close>

theorem revealed_deals_verify:
  assumes "f0 = createFairShuffle sha n cs ss rndS rndC" "fair_deals hmac k f0 = (deals, f)"
  shows "verifyCommitment sha (r_serverSeed (fair_reveal_of f)) (fst (fair_commitment f0)) \<and>
    r_gameCount (fair_reveal_of f) = k \<and> length deals = k \<and>
    (\<forall>i<k. deals ! i = verifyDeal hmac (r_serverSeed (fair_reveal_of f)) (snd (fair_commitment f0)) i n)"
  using fair_deals_fields[OF assms(2)] assms(1)
  by (auto simp: createFairShuffle_def Let_def verifyCommitment_def fair_commitment_def fair_reveal_of_def)

definition toy_sha :: "string \<Rightarrow> string" where
  "toy_sha s = rev s"

theorem revealed_deals_verify_witness:
  "verifyDeal toy_hmac ''server'' ''client'' 1 2 =
     fst (fair_deals toy_hmac 2 (createFairShuffle toy_sha 2 (Some ''client'') (Some ''server'') ''r'' ''q'')) ! 1"
proof -
  let ?f0 = "createFairShuffle toy_sha 2 (Some ''client'') (Some ''server'') ''r'' ''q''"
  obtain deals f where d: "fair_deals toy_hmac 2 ?f0 = (deals, f)" by fastforce
  have s: "r_serverSeed (fair_reveal_of f) = ''server''"
    using fair_deals_fields[OF d] by (simp add: fair_reveal_of_def createFairShuffle_def Let_def)
  have c: "snd (fair_commitment ?f0) = ''client''" by (simp add: fair_commitment_def createFairShuffle_def Let_def)
  show ?thesis using revealed_deals_verify[OF refl d] s c d by simp
qed

subsection \<open>Dealers\<close>

fun crypto_pos :: "(nat \<Rightarrow> byte) \<Rightarrow> nat \<Rightarrow> nat \<Rightarrow> nat" where
  "crypto_pos bytes n 0 = 0"
| "crypto_pos bytes n (Suc k) = snd (deal n (cryptoRng bytes) (crypto_pos bytes n k))"

text \<open>The dealer of a room without a fair shuffle: a fresh deal with the cryptographic generator.\<close>

definition crypto_dealer :: "(nat \<Rightarrow> byte) \<Rightarrow> nat \<Rightarrow> nat \<Rightarrow> card list list" where
  "crypto_dealer bytes n k = fst (deal n (cryptoRng bytes) (crypto_pos bytes n k))"

lemma dealSizes_bounds: "n \<in> {2, 3, 4} \<Longrightarrow> length (dealSizes n) = n"
  "x \<in> set (dealSizes n) \<Longrightarrow> 13 \<le> x"
  by (auto simp: dealSizes_def split: if_splits)

lemma deal_hands:
  assumes "rng_ok rng" "n \<in> {2, 3, 4}"
  shows "length (fst (deal n rng g)) = n" "\<forall>h\<in>set (fst (deal n rng g)). 13 \<le> length h"
    "distinct (concat (fst (deal n rng g)))"
proof -
  note f = deal_facts[OF assms(1), of n g]
  show "length (fst (deal n rng g)) = n"
    using arg_cong[OF f(1), of length] dealSizes_bounds(1)[OF assms(2)] by simp
  show "\<forall>h\<in>set (fst (deal n rng g)). 13 \<le> length h"
    using f(1) dealSizes_bounds(2)[of _ n] by (metis in_set_conv_nth length_map nth_map nth_mem)
  show "distinct (concat (fst (deal n rng g)))" by (fact f(2))
qed

text \<open>The dealer of a fair shuffle: call \<open>k\<close> of \<^verbatim>\<open>deal()\<close> on the created object.\<close>

definition fair_dealer ::
  "(string \<Rightarrow> string \<Rightarrow> byte list) \<Rightarrow> fair_shuffle \<Rightarrow> nat \<Rightarrow> card list list" where
  "fair_dealer hmac f k = fst (fair_deal hmac (snd (fair_deals hmac k f)))"

lemma fair_dealer_eq:
  "fair_dealer hmac f k =
     verifyDeal hmac (f_serverSeed f) (f_clientSeed f) (length (f_games f) + k) (f_numPlayers f)"
proof -
  obtain ds f' where d: "fair_deals hmac k f = (ds, f')" by fastforce
  obtain hs f2 where e: "fair_deal hmac f' = (hs, f2)" by fastforce
  from fair_deals_fields[OF d] fair_deal_fields[OF e] show ?thesis by (simp add: fair_dealer_def d e)
qed

end
