(* ===== verification/Match_Play.thy ===== *)
theory Match_Play
  imports Single_Game Scoring Fair
begin

text \<open>
  The match orchestrator (\<^verbatim>\<open>packages/server/src/match/match.ts\<close>, class \<^verbatim>\<open>Match\<close>):
  a sequence of single games, scored by finishing place, with a card switch between the last
  and the first of the previous game, until one side has won.

  The dealer is injected into the class; here it is the argument \<open>dl\<close>, where \<open>dl k\<close> is what
  its call number \<open>k\<close> returns, and the field \<open>m_deals\<close> counts the calls. An operation is an
  action on the match: a thrown exception is the left value and keeps the fields that were
  already assigned.
\<close>

datatype match_phase = PlayingGame | AwaitingSwitch | MatchOver

datatype match_event =
  GameStarted nat seat
| GameScored nat "seat list" "int list" "int list" "int list option"
| TargetExtended int
| CardSwitchAuto seat seat card
| AwaitingSwitchEvent seat seat
| CardSwitchReturn seat seat "card option"
| NoSwap seat seat
| MatchEnded int "seat list" "int list"

record match_result =
  mr_ok :: bool
  mr_code :: "string option"
  mr_gameEvents :: "game_event list"
  mr_matchEvents :: "match_event list"

datatype match_error =
  DealerHandCount
| GameConstruction game_error
| ScoringFailure scoring_error
| NullDereference

record match_st =
  m_type :: match_type
  m_numPlayers :: nat
  m_teams :: teams
  m_startSuit :: suit
  m_target :: int
  m_cumulative :: "int list"
  m_state :: match_phase
  m_gameIndex :: nat
  m_game :: "game option"
  m_lastFinishingOrder :: "seat list option"
  m_matchWinner :: "(int \<times> seat list) option"
  m_goneSeats :: "seat list"
  m_pendingHands :: "card list list option"
  m_pendingWinner :: "seat option"
  m_pendingLoser :: "seat option"
  m_pendingReceivedId :: "string option"
  m_deals :: nat

type_synonym dealer = "nat \<Rightarrow> card list list"

definition match_ok :: "game_event list \<Rightarrow> match_event list \<Rightarrow> match_result" where
  "match_ok ge me = \<lparr>mr_ok = True, mr_code = None, mr_gameEvents = ge, mr_matchEvents = me\<rparr>"

definition match_fail :: "string option \<Rightarrow> match_result" where
  "match_fail code = \<lparr>mr_ok = False, mr_code = code, mr_gameEvents = [], mr_matchEvents = []\<rparr>"

subsection \<open>Internals\<close>

definition sideScores :: "match_st \<Rightarrow> int list" where
  "sideScores m =
     (if m_type m = TwoVTwo then teamTotals (m_cumulative m) (m_teams m) else m_cumulative m)"

definition seatsOfSide :: "nat \<Rightarrow> match_st \<Rightarrow> seat list" where
  "seatsOfSide side m =
     (if m_type m = TwoVTwo
      then (if side = 0 then fst (m_teams m) else if side = 1 then snd (m_teams m) else [])
      else [side])"

definition remainingSeats :: "match_st \<Rightarrow> seat list" where
  "remainingSeats m = filter (\<lambda>s. s \<notin> set (m_goneSeats m)) [0..<m_numPlayers m]"

definition present :: "match_st \<Rightarrow> seat list \<Rightarrow> seat list" where
  "present m grp = filter (\<lambda>s. s \<notin> set (m_goneSeats m)) grp"

definition mustEndAfterForfeit :: "match_st \<Rightarrow> bool" where
  "mustEndAfterForfeit m =
     (if m_type m = TwoVTwo
      then length (present m (fst (m_teams m))) = 0 \<or> length (present m (snd (m_teams m))) = 0
      else length (remainingSeats m) < 2)"

definition endByForfeit :: "seat list \<Rightarrow> match_st \<Rightarrow> match_event list \<times> match_st" where
  "endByForfeit remaining m =
     (let t0 = present m (fst (m_teams m));
          t1 = present m (snd (m_teams m));
          (winnerSide, winnerSeats) =
            (if m_type m = TwoVTwo then
               (if length t0 > 0 \<and> length t1 = 0 then (0, t0)
                else if length t1 > 0 \<and> length t0 = 0 then (1, t1)
                else (-1, []))
             else if length remaining = 1 then (int (hd remaining), [hd remaining])
             else (-1, []));
          m1 = m\<lparr>m_matchWinner := if winnerSide \<ge> 0 then Some (winnerSide, winnerSeats) else None,
                 m_state := MatchOver, m_game := None\<rparr>
      in ([MatchEnded winnerSide winnerSeats (sideScores m1)], m1))"

definition apply_gone :: "seat list \<Rightarrow> game \<Rightarrow> game" where
  "apply_gone seats g = foldl (\<lambda>g s. snd (game_forfeitSeat s g)) g seats"

definition beginPendingGame :: "seat \<Rightarrow> (match_st, match_error, match_event) action" where
  "beginPendingGame leader m =
     (case m_pendingHands m of
        None \<Rightarrow> (Inl NullDereference, m)
      | Some hands \<Rightarrow>
          (case startGame (m_numPlayers m) hands leader None of
             Inl e \<Rightarrow> (Inl (GameConstruction e), m)
           | Inr g0 \<Rightarrow>
               (let g = apply_gone (m_goneSeats m) g0;
                    m1 = m\<lparr>m_game := Some g, m_state := PlayingGame, m_pendingHands := None,
                           m_pendingWinner := None, m_pendingLoser := None,
                           m_pendingReceivedId := None\<rparr>
                in (Inr (GameStarted (m_gameIndex m)
                           (case g_turn g of None \<Rightarrow> leader | Some t \<Rightarrow> t)), m1))))"

definition take_deal :: "dealer \<Rightarrow> (match_st, match_error, card list list) action" where
  "take_deal dl m =
     (let hands = dl (m_deals m); m1 = m\<lparr>m_deals := m_deals m + 1\<rparr>
      in if length hands \<noteq> m_numPlayers m then (Inl DealerHandCount, m1) else (Inr hands, m1))"

definition set_pending :: "card list list \<Rightarrow> seat \<Rightarrow> seat \<Rightarrow> match_st \<Rightarrow> match_st" where
  "set_pending hands winner loser m =
     m\<lparr>m_pendingHands := Some hands, m_pendingWinner := Some winner, m_pendingLoser := Some loser,
       m_pendingReceivedId := None, m_gameIndex := m_gameIndex m + 1\<rparr>"

definition returnable :: "string option \<Rightarrow> card list \<Rightarrow> card list" where
  "returnable received hand = filter (\<lambda>c. Some (cardId c) \<noteq> received) (eligibleReturnCards hand)"

definition auto_give :: "card list list \<Rightarrow> seat \<Rightarrow> seat \<Rightarrow> nat \<Rightarrow> card list list" where
  "auto_give hands winner loser i =
     (let strongest = hands ! loser ! i;
          hands1 = hands[loser := remove_nth i (hands ! loser)]
      in hands1[winner := hands1 ! winner @ [strongest]])"

definition switch_cards ::
  "card list list \<Rightarrow> seat \<Rightarrow> seat \<Rightarrow> (match_st, match_error, match_event list) action" where
  "switch_cards hands winner loser m =
     (case strongestIndexByPower (hands ! loser) of
        Inl e \<Rightarrow> (Inl (ScoringFailure e), m)
      | Inr i \<Rightarrow>
          (let strongest = hands ! loser ! i;
               hands2 = auto_give hands winner loser i;
               received = Some (cardId strongest);
               m1 = m\<lparr>m_pendingHands := Some hands2, m_pendingReceivedId := received\<rparr>;
               given = CardSwitchAuto loser winner strongest
           in if returnable received (hands2 ! winner) = [] then
                bind_act (beginPendingGame loser)
                  (\<lambda>e. return_act [given, CardSwitchReturn winner loser None, e]) m1
              else (Inr [given, AwaitingSwitchEvent winner loser], m1\<lparr>m_state := AwaitingSwitch\<rparr>)))"

definition prepareNextGame ::
  "dealer \<Rightarrow> seat list \<Rightarrow> (match_st, match_error, match_event list) action" where
  "prepareNextGame dl prevOrder =
     (let winner = hd prevOrder; loser = last prevOrder in
      bind_act (take_deal dl) (\<lambda>hands m.
        let m1 = set_pending hands winner loser m in
        if loser \<in> set (m_goneSeats m1) then
          bind_act (beginPendingGame winner) (\<lambda>e. return_act [e]) m1
        else if length (filter is_joker (hands ! loser)) \<ge> 2 then
          bind_act (beginPendingGame winner) (\<lambda>e. return_act [NoSwap winner loser, e]) m1
        else switch_cards hands winner loser m1))"

definition add_points :: "int list \<Rightarrow> int list \<Rightarrow> int list" where
  "add_points cumulative points =
     map (\<lambda>i. cumulative ! i + (if i < length points then points ! i else 0)) [0..<length cumulative]"

definition onGameEnd :: "dealer \<Rightarrow> (match_st, match_error, match_event list) action" where
  "onGameEnd dl m =
     (case m_game m of
        None \<Rightarrow> (Inl NullDereference, m)
      | Some g \<Rightarrow>
          (let finishingOrder = g_finishingOrder g;
               m1 = m\<lparr>m_lastFinishingOrder := Some finishingOrder\<rparr> in
           case gamePoints (m_type m) finishingOrder of
             Inl e \<Rightarrow> (Inl (ScoringFailure e), m1)
           | Inr points \<Rightarrow>
               (let m2 = m1\<lparr>m_cumulative := add_points (m_cumulative m1) points\<rparr>;
                    scored = GameScored (m_gameIndex m2) finishingOrder points (m_cumulative m2)
                      (if m_type m2 = TwoVTwo then Some (teamTotals (m_cumulative m2) (m_teams m2))
                       else None);
                    scores = sideScores m2;
                    evaln = evaluateMatch scores (m_target m2) in
                case (ev_over evaln, ev_winnerSide evaln) of
                  (True, Some side) \<Rightarrow>
                    (let winnerSeats = present m2 (seatsOfSide side m2);
                         m3 = m2\<lparr>m_matchWinner := Some (int side, winnerSeats),
                                 m_state := MatchOver, m_game := None\<rparr>
                     in (Inr [scored, MatchEnded (int side) winnerSeats scores], m3))
                | _ \<Rightarrow>
                    (let m3 = (if ev_extended evaln then m2\<lparr>m_target := ev_newTarget evaln\<rparr> else m2);
                         ext = (if ev_extended evaln then [TargetExtended (m_target m3)] else [])
                     in bind_act (prepareNextGame dl finishingOrder)
                          (\<lambda>es. return_act ([scored] @ ext @ es)) m3))))"

subsection \<open>Construction\<close>

definition opens_with :: "suit \<Rightarrow> rank \<Rightarrow> card list \<Rightarrow> bool" where
  "opens_with st r h = list_ex (\<lambda>c. c = Standard r st) h"

fun opening_scan :: "suit \<Rightarrow> card list list \<Rightarrow> rank list \<Rightarrow> seat \<times> card option" where
  "opening_scan st hands [] = (0, None)"
| "opening_scan st hands (r # rs) =
     (case find_index (opens_with st r) hands of
        Some holder \<Rightarrow> (holder, Some (Standard r st))
      | None \<Rightarrow> opening_scan st hands rs)"

definition firstGameOpening :: "suit \<Rightarrow> card list list \<Rightarrow> seat \<times> card option" where
  "firstGameOpening st hands =
     opening_scan st hands [R3, R4, R5, R6, R7, R8, R9, R10, RJ, RQ, RK, RA, R2]"

definition startFirstGame :: "dealer \<Rightarrow> (match_st, match_error, unit) action" where
  "startFirstGame dl =
     bind_act (take_deal dl) (\<lambda>hands m.
       let (leader, openingCard) = firstGameOpening (m_startSuit m) hands in
       case startGame (m_numPlayers m) hands leader openingCard of
         Inl e \<Rightarrow> (Inl (GameConstruction e), m)
       | Inr g \<Rightarrow> (Inr (), m\<lparr>m_game := Some g, m_state := PlayingGame, m_gameIndex := 0\<rparr>))"

definition newMatch ::
  "dealer \<Rightarrow> match_type \<Rightarrow> int option \<Rightarrow> suit option \<Rightarrow> teams option \<Rightarrow> match_error + match_st" where
  "newMatch dl ty startTarget startSuit teams =
     (let n = playersForType ty;
          m = \<lparr>m_type = ty, m_numPlayers = n,
               m_teams = (case teams of None \<Rightarrow> DEFAULT_TEAMS | Some t \<Rightarrow> t),
               m_startSuit = (case startSuit of None \<Rightarrow> Spades | Some s \<Rightarrow> s),
               m_target = (case startTarget of None \<Rightarrow> 21 | Some t \<Rightarrow> t),
               m_cumulative = replicate n 0, m_state = PlayingGame, m_gameIndex = 0,
               m_game = None, m_lastFinishingOrder = None, m_matchWinner = None,
               m_goneSeats = [], m_pendingHands = None, m_pendingWinner = None,
               m_pendingLoser = None, m_pendingReceivedId = None, m_deals = 0\<rparr>
      in case startFirstGame dl m of (Inl e, _) \<Rightarrow> Inl e | (Inr _, m1) \<Rightarrow> Inr m1)"

subsection \<open>Reads\<close>

definition match_handOf :: "seat \<Rightarrow> match_st \<Rightarrow> card list" where
  "match_handOf seat m =
     (case (m_state m, m_game m) of
        (PlayingGame, Some g) \<Rightarrow> handOf seat g
      | _ \<Rightarrow> (case m_pendingHands m of
                Some hands \<Rightarrow> if seat < length hands then hands ! seat else []
              | None \<Rightarrow> []))"

definition eligibleReturnCardsForWinner :: "match_st \<Rightarrow> card list" where
  "eligibleReturnCardsForWinner m =
     (case (m_state m, m_pendingWinner m, m_pendingHands m) of
        (AwaitingSwitch, Some w, Some hands) \<Rightarrow>
          returnable (m_pendingReceivedId m) (if w < length hands then hands ! w else [])
      | _ \<Rightarrow> [])"

record match_snapshot =
  ms_type :: match_type
  ms_state :: match_phase
  ms_target :: int
  ms_gameIndex :: nat
  ms_cumulative :: "int list"
  ms_teamCumulative :: "int list option"
  ms_teams :: "teams option"
  ms_game :: "game_snapshot option"
  ms_lastFinishingOrder :: "seat list option"
  ms_pendingSwitch :: "(seat \<times> seat) option"
  ms_matchWinner :: "(int \<times> seat list) option"
  ms_gone :: "seat list"

definition match_snapshot_of :: "match_st \<Rightarrow> match_snapshot" where
  "match_snapshot_of m =
     \<lparr>ms_type = m_type m, ms_state = m_state m, ms_target = m_target m,
      ms_gameIndex = m_gameIndex m, ms_cumulative = m_cumulative m,
      ms_teamCumulative =
        (if m_type m = TwoVTwo then Some (teamTotals (m_cumulative m) (m_teams m)) else None),
      ms_teams = (if m_type m = TwoVTwo then Some (m_teams m) else None),
      ms_game = (if m_state m = PlayingGame then map_option game_snapshot_of (m_game m) else None),
      ms_lastFinishingOrder = m_lastFinishingOrder m,
      ms_pendingSwitch =
        (case (m_state m, m_pendingWinner m, m_pendingLoser m) of
           (AwaitingSwitch, Some w, Some l) \<Rightarrow> Some (w, l) | _ \<Rightarrow> None),
      ms_matchWinner = m_matchWinner m, ms_gone = sort (m_goneSeats m)\<rparr>"

subsection \<open>Actions\<close>

definition relay ::
  "dealer \<Rightarrow> action_result \<times> game \<Rightarrow> (match_st, match_error, match_result) action" where
  "relay dl rg m =
     (let r = fst rg; g = snd rg; m1 = m\<lparr>m_game := Some g\<rparr> in
      if \<not> ar_ok r then (Inr (match_fail (ar_code r)), m1)
      else if isOver g then
        bind_act (onGameEnd dl) (\<lambda>es. return_act (match_ok (ar_events r) es)) m1
      else (Inr (match_ok (ar_events r) []), m1))"

definition match_play ::
  "dealer \<Rightarrow> seat \<Rightarrow> card list \<Rightarrow> (match_st, match_error, match_result) action" where
  "match_play dl seat cards m =
     (case (m_state m, m_game m) of
        (PlayingGame, Some g) \<Rightarrow> relay dl (game_play seat cards g) m
      | _ \<Rightarrow> (Inr (match_fail (Some ''not_in_match'')), m))"

definition match_pass :: "dealer \<Rightarrow> seat \<Rightarrow> (match_st, match_error, match_result) action" where
  "match_pass dl seat m =
     (case (m_state m, m_game m) of
        (PlayingGame, Some g) \<Rightarrow> relay dl (game_pass seat g) m
      | _ \<Rightarrow> (Inr (match_fail (Some ''not_in_match'')), m))"

definition give_back :: "card list list \<Rightarrow> seat \<Rightarrow> seat \<Rightarrow> nat \<Rightarrow> card list list" where
  "give_back hands winner loser idx =
     (let returned = hands ! winner ! idx;
          hands1 = hands[winner := remove_nth idx (hands ! winner)]
      in hands1[loser := hands1 ! loser @ [returned]])"

definition match_switchGive ::
  "seat \<Rightarrow> card \<Rightarrow> (match_st, match_error, match_result) action" where
  "match_switchGive seat crd m =
     (case (m_state m, m_pendingHands m, m_pendingWinner m, m_pendingLoser m) of
        (AwaitingSwitch, Some hands, Some winner, Some loser) \<Rightarrow>
          (if seat \<noteq> winner then (Inr (match_fail (Some ''not_switch_winner'')), m)
           else if \<not> isReturnEligible crd then (Inr (match_fail (Some ''switch_rank'')), m)
           else if Some (cardId crd) = m_pendingReceivedId m
             then (Inr (match_fail (Some ''switch_same_card'')), m)
           else case find_index (\<lambda>x. cardId x = cardId crd) (hands ! winner) of
               None \<Rightarrow> (Inr (match_fail (Some ''not_your_cards'')), m)
             | Some idx \<Rightarrow>
                 (let returned = hands ! winner ! idx;
                      m1 = m\<lparr>m_pendingHands := Some (give_back hands winner loser idx)\<rparr>
                  in bind_act (beginPendingGame loser)
                       (\<lambda>e. return_act (match_ok []
                              [CardSwitchReturn winner loser (Some returned), e])) m1))
      | _ \<Rightarrow> (Inr (match_fail (Some ''no_pending_switch'')), m))"

definition onSwitchForfeit :: "seat \<Rightarrow> (match_st, match_error, match_event list) action" where
  "onSwitchForfeit seat m =
     (case m_pendingLoser m of
        Some loser \<Rightarrow>
          (if Some seat = m_pendingWinner m then
             bind_act (beginPendingGame loser)
               (\<lambda>e. return_act [CardSwitchReturn seat loser None, e]) m
           else (Inr [], m))
      | None \<Rightarrow> (Inr [], m))"

definition match_forfeit ::
  "dealer \<Rightarrow> seat \<Rightarrow> (match_st, match_error, match_result) action" where
  "match_forfeit dl seat m =
     (if m_state m = MatchOver then (Inr (match_fail (Some ''match_over'')), m)
      else if seat \<ge> m_numPlayers m then (Inr (match_fail (Some ''bad_seat'')), m)
      else if seat \<in> set (m_goneSeats m) then (Inr (match_ok [] []), m)
      else
        let m1 = m\<lparr>m_goneSeats := set_add seat (m_goneSeats m)\<rparr> in
        if mustEndAfterForfeit m1 then
          (let (es, m2) = endByForfeit (remainingSeats m1) m1 in (Inr (match_ok [] es), m2))
        else case (m_state m1, m_game m1) of
            (PlayingGame, Some g) \<Rightarrow>
              (let (ge, g') = game_forfeitSeat seat g; m2 = m1\<lparr>m_game := Some g'\<rparr> in
               if isOver g' then bind_act (onGameEnd dl) (\<lambda>es. return_act (match_ok ge es)) m2
               else (Inr (match_ok ge []), m2))
          | (AwaitingSwitch, _) \<Rightarrow>
              bind_act (onSwitchForfeit seat) (\<lambda>es. return_act (match_ok [] es)) m1
          | _ \<Rightarrow> (Inr (match_ok [] []), m1))"

datatype match_op =
  MPlay seat "card list" | MPass seat | MSwitch seat card | MForfeit seat

fun match_apply :: "dealer \<Rightarrow> match_op \<Rightarrow> (match_st, match_error, match_result) action" where
  "match_apply dl (MPlay seat cards) = match_play dl seat cards"
| "match_apply dl (MPass seat) = match_pass dl seat"
| "match_apply dl (MSwitch seat crd) = match_switchGive seat crd"
| "match_apply dl (MForfeit seat) = match_forfeit dl seat"

definition match_step :: "dealer \<Rightarrow> match_st \<Rightarrow> match_op \<Rightarrow> match_st" where
  "match_step dl m op = snd (match_apply dl op m)"

subsection \<open>The invariant of a match\<close>

definition teams_ok :: "match_type \<Rightarrow> teams \<Rightarrow> bool" where
  "teams_ok ty ts \<longleftrightarrow>
     ty = TwoVTwo \<longrightarrow> distinct (fst ts @ snd ts) \<and> set (fst ts @ snd ts) = {..<4} \<and>
       fst ts \<noteq> [] \<and> snd ts \<noteq> []"

definition dealer_ok :: "nat \<Rightarrow> dealer \<Rightarrow> bool" where
  "dealer_ok n dl \<longleftrightarrow>
     (\<forall>k. length (dl k) = n \<and> (\<forall>h\<in>set (dl k). 2 \<le> length h) \<and> distinct (concat (dl k)))"

definition points_per_game :: "match_type \<Rightarrow> nat" where
  "points_per_game ty = playersForType ty * (playersForType ty - 1) div 2"

definition base_inv :: "match_st \<Rightarrow> bool" where
  "base_inv m \<longleftrightarrow>
     m_numPlayers m = playersForType (m_type m) \<and> teams_ok (m_type m) (m_teams m) \<and>
     distinct (m_goneSeats m) \<and> set (m_goneSeats m) \<subseteq> {..<m_numPlayers m} \<and>
     length (m_cumulative m) = m_numPlayers m"

definition live_game :: "match_st \<Rightarrow> bool" where
  "live_game m \<longleftrightarrow>
     (case m_game m of None \<Rightarrow> False
      | Some g \<Rightarrow> game_inv g \<and> \<not> isOver g \<and> g_numPlayers g = m_numPlayers m \<and>
          set (g_gone g) = set (m_goneSeats m))"

definition pending_inv :: "match_st \<Rightarrow> bool" where
  "pending_inv m \<longleftrightarrow>
     (case (m_pendingHands m, m_pendingWinner m, m_pendingLoser m) of
        (Some hands, Some w, Some l) \<Rightarrow>
          length hands = m_numPlayers m \<and> (\<forall>h\<in>set hands. h \<noteq> []) \<and> distinct (concat hands) \<and>
          2 \<le> length (hands ! w) \<and> w < m_numPlayers m \<and> l < m_numPlayers m \<and> w \<noteq> l \<and>
          m_pendingReceivedId m \<noteq> None \<and> returnable (m_pendingReceivedId m) (hands ! w) \<noteq> []
      | _ \<Rightarrow> False)"

definition match_inv :: "match_st \<Rightarrow> bool" where
  "match_inv m \<longleftrightarrow> base_inv m \<and>
     (case m_state m of
        PlayingGame \<Rightarrow> \<not> mustEndAfterForfeit m \<and> live_game m \<and> m_matchWinner m = None \<and>
          sum_list (m_cumulative m) = int (m_gameIndex m * points_per_game (m_type m))
      | AwaitingSwitch \<Rightarrow> \<not> mustEndAfterForfeit m \<and> pending_inv m \<and> m_matchWinner m = None \<and>
          sum_list (m_cumulative m) = int (m_gameIndex m * points_per_game (m_type m))
      | MatchOver \<Rightarrow> m_game m = None \<and>
          (\<forall>side seats. m_matchWinner m = Some (side, seats) \<longrightarrow>
             set seats \<subseteq> {..<m_numPlayers m} - set (m_goneSeats m)))"

lemma enough_players:
  assumes "base_inv m" "\<not> mustEndAfterForfeit m"
  shows "2 \<le> card ({..<m_numPlayers m} - set (m_goneSeats m))"
proof (cases "m_type m = TwoVTwo")
  case True
  with assms(2) obtain a b where ab: "a \<in> set (fst (m_teams m))" "a \<notin> set (m_goneSeats m)"
    "b \<in> set (snd (m_teams m))" "b \<notin> set (m_goneSeats m)"
    by (auto simp: mustEndAfterForfeit_def present_def filter_empty_conv)
  with True assms(1) have "a \<noteq> b" "{a, b} \<subseteq> {..<m_numPlayers m} - set (m_goneSeats m)"
    by (auto simp: base_inv_def teams_ok_def playersForType_def)
  then show ?thesis using card_mono[of "{..<m_numPlayers m} - set (m_goneSeats m)" "{a, b}"] by simp
next
  case False
  have "set (remainingSeats m) = {..<m_numPlayers m} - set (m_goneSeats m)" "distinct (remainingSeats m)"
    by (auto simp: remainingSeats_def)
  with False assms(2) show ?thesis
    by (metis distinct_card mustEndAfterForfeit_def not_less)
qed

subsubsection \<open>Starting a prepared game\<close>

lemma activeCount_full:
  assumes "core_inv g" "\<forall>h\<in>set (g_hands g). h \<noteq> []"
  shows "activeCount (left_game seat g) = card ({..<g_numPlayers g} - set (g_gone g) - {seat})"
proof -
  have l: "length (g_active (left_game seat g)) = g_numPlayers g"
    using assms(1) by (simp add: left_game_def core_inv_def)
  have "g_active g ! s \<longleftrightarrow> s \<notin> set (g_gone g)" if "s < g_numPlayers g" for s
    using assms that nth_mem[of s "g_hands g"] by (auto simp: core_inv_def)
  moreover have "g_active (left_game seat g) ! s \<longleftrightarrow> s \<noteq> seat \<and> g_active g ! s" if "s < g_numPlayers g" for s
    using assms(1) that by (cases "s = seat") (auto simp: left_game_def core_inv_def)
  ultimately have "{s. s < g_numPlayers g \<and> g_active (left_game seat g) ! s} =
      {..<g_numPlayers g} - set (g_gone g) - {seat}" by auto
  then show ?thesis by (simp add: activeCount_card l)
qed

lemma apply_gone_inv:
  assumes "game_inv g" "g_status g = Playing" "\<forall>h\<in>set (g_hands g). h \<noteq> []" "distinct seats"
    and "set seats \<subseteq> {..<g_numPlayers g}" "set seats \<inter> set (g_gone g) = {}"
    and "2 \<le> card ({..<g_numPlayers g} - set (g_gone g) - set seats)"
  shows "game_inv (apply_gone seats g) \<and> g_status (apply_gone seats g) = Playing \<and>
    g_numPlayers (apply_gone seats g) = g_numPlayers g \<and> g_hands (apply_gone seats g) = g_hands g \<and>
    set (g_gone (apply_gone seats g)) = set (g_gone g) \<union> set seats"
  using assms
proof (induction seats arbitrary: g)
  case Nil
  then show ?case by (simp add: apply_gone_def)
next
  case (Cons x seats)
  let ?g' = "snd (game_forfeitSeat x g)"
  have x: "x < g_numPlayers g" "x \<notin> set (g_gone g)" using Cons.prems by auto
  have f: "g_hands ?g' = g_hands g" "g_numPlayers ?g' = g_numPlayers g"
    "g_gone ?g' = set_add x (g_gone g)"
    using game_forfeitSeat_fields[OF Cons.prems(1), of x] Cons.prems(2) x(1) by simp_all
  have "core_inv g" using Cons.prems(1,2) by (simp add: game_inv_def)
  then have "activeCount (left_game x g) = card ({..<g_numPlayers g} - set (g_gone g) - {x})"
    using Cons.prems(3) by (rule activeCount_full)
  also have "\<dots> \<ge> card ({..<g_numPlayers g} - set (g_gone g) - set (x # seats))"
    by (intro card_mono) auto
  finally have "2 \<le> activeCount (left_game x g)" using Cons.prems(7) by linarith
  then have p: "g_status ?g' = Playing"
    by (rule game_forfeitSeat_goes_on[OF Cons.prems(1,2) x])
  have seteq: "{..<g_numPlayers g} - insert x (set (g_gone g)) - set seats =
      {..<g_numPlayers g} - set (g_gone g) - set (x # seats)" by auto
  have "game_inv (apply_gone seats ?g') \<and> g_status (apply_gone seats ?g') = Playing \<and>
    g_numPlayers (apply_gone seats ?g') = g_numPlayers ?g' \<and> g_hands (apply_gone seats ?g') = g_hands ?g' \<and>
    set (g_gone (apply_gone seats ?g')) = set (g_gone ?g') \<union> set seats"
    using Cons.prems f p game_forfeitSeat_inv[OF Cons.prems(1), of x] seteq
    by (intro Cons.IH) auto
  then show ?case using f by (auto simp: apply_gone_def)
qed

lemma beginPendingGame_inv:
  assumes "base_inv m" "\<not> mustEndAfterForfeit m" "m_pendingHands m = Some hands"
    and "length hands = m_numPlayers m" "\<forall>h\<in>set hands. h \<noteq> []" "leader < m_numPlayers m"
  obtains e m' where "beginPendingGame leader m = (Inr e, m')" "m_state m' = PlayingGame"
    "live_game m'" "base_inv m'" "\<not> mustEndAfterForfeit m'" "m_cumulative m' = m_cumulative m"
    "m_gameIndex m' = m_gameIndex m" "m_type m' = m_type m" "m_matchWinner m' = m_matchWinner m"
    "map_option g_hands (m_game m') = Some hands" "m_goneSeats m' = m_goneSeats m"
proof -
  let ?n = "m_numPlayers m"
  have n: "2 \<le> ?n" using assms(1) playersForType_bounds by (simp add: base_inv_def)
  have d: "dealt ?n hands leader" using n assms(4-6) by (simp add: dealt_def)
  let ?g0 = "fresh_game ?n hands leader None"
  have "game_inv (apply_gone (m_goneSeats m) ?g0) \<and> g_status (apply_gone (m_goneSeats m) ?g0) = Playing \<and>
    g_numPlayers (apply_gone (m_goneSeats m) ?g0) = g_numPlayers ?g0 \<and>
    g_hands (apply_gone (m_goneSeats m) ?g0) = g_hands ?g0 \<and>
    set (g_gone (apply_gone (m_goneSeats m) ?g0)) = set (g_gone ?g0) \<union> set (m_goneSeats m)"
    using fresh_game_inv[OF d, of None] enough_players[OF assms(1,2)] assms(1,5)
    by (intro apply_gone_inv) (auto simp: fresh_game_def base_inv_def)
  then have g: "game_inv (apply_gone (m_goneSeats m) ?g0)" "\<not> isOver (apply_gone (m_goneSeats m) ?g0)"
    "g_numPlayers (apply_gone (m_goneSeats m) ?g0) = ?n"
    "set (g_gone (apply_gone (m_goneSeats m) ?g0)) = set (m_goneSeats m)"
    "g_hands (apply_gone (m_goneSeats m) ?g0) = hands"
    by (simp_all add: fresh_game_def isOver_def)
  define m' where "m' = m\<lparr>m_game := Some (apply_gone (m_goneSeats m) ?g0), m_state := PlayingGame,
     m_pendingHands := None, m_pendingWinner := None, m_pendingLoser := None, m_pendingReceivedId := None\<rparr>"
  have "beginPendingGame leader m = (Inr (GameStarted (m_gameIndex m)
      (case g_turn (apply_gone (m_goneSeats m) ?g0) of None \<Rightarrow> leader | Some t \<Rightarrow> t)), m')"
    by (simp add: beginPendingGame_def assms(3) startGame_dealt[OF d] Let_def m'_def)
  then show ?thesis
  proof (rule that)
    show "map_option g_hands (m_game m') = Some hands" using g(5) by (simp add: m'_def)
    show "live_game m'" using g by (simp add: m'_def live_game_def)
    show "base_inv m'" using assms(1) by (auto simp: m'_def base_inv_def)
    have "mustEndAfterForfeit m' = mustEndAfterForfeit m"
      by (simp add: m'_def mustEndAfterForfeit_def present_def remainingSeats_def)
    then show "\<not> mustEndAfterForfeit m'" using assms(2) by simp
  qed (simp_all add: m'_def)
qed

subsubsection \<open>Between two games\<close>

lemma move_card_mset:
  assumes "w < length hands" "l < length hands" "w \<noteq> l" "i < length (hands ! l)"
  shows "mset (concat (hands[l := remove_nth i (hands ! l), w := hands ! w @ [hands ! l ! i]])) =
    mset (concat hands)"
proof -
  let ?c = "hands ! l ! i" and ?h1 = "hands[l := remove_nth i (hands ! l)]"
  have rm: "mset (hands ! l) = mset (remove_nth i (hands ! l)) + {#?c#}"
    using assms(4) by (simp add: mset_remove_nth)
  have "mset (concat ?h1) + mset (hands ! l) = mset (concat hands) + mset (remove_nth i (hands ! l))"
    using mset_concat_update[OF assms(2)] .
  then have "mset (concat ?h1) + {#?c#} + mset (remove_nth i (hands ! l)) =
      mset (concat hands) + mset (remove_nth i (hands ! l))"
    unfolding rm by (simp only: ac_simps)
  then have 1: "mset (concat ?h1) + {#?c#} = mset (concat hands)" by (rule add_right_imp_eq)
  have "mset (concat (?h1[w := hands ! w @ [?c]])) + mset (hands ! w) =
      mset (concat ?h1) + mset (hands ! w @ [?c])"
    using mset_concat_update[of w ?h1 "hands ! w @ [?c]"] assms(1,3)
    by (simp only: length_list_update nth_list_update_neq)
  then have "mset (concat (?h1[w := hands ! w @ [?c]])) + mset (hands ! w) =
      (mset (concat ?h1) + {#?c#}) + mset (hands ! w)" by (simp add: ac_simps)
  then show ?thesis unfolding 1 by (rule add_right_imp_eq)
qed

lemma auto_give_facts:
  assumes "w < length hands" "l < length hands" "w \<noteq> l" "i < length (hands ! l)"
    and "\<forall>h\<in>set hands. 2 \<le> length h"
  shows "length (auto_give hands w l i) = length hands"
    and "\<forall>h\<in>set (auto_give hands w l i). h \<noteq> []"
    and "auto_give hands w l i ! w = hands ! w @ [hands ! l ! i]"
    and "mset (concat (auto_give hands w l i)) = mset (concat hands)"
proof -
  let ?c = "hands ! l ! i" and ?h1 = "hands[l := remove_nth i (hands ! l)]"
  have e: "auto_give hands w l i = ?h1[w := hands ! w @ [?c]]"
    using assms(1,3) by (simp add: auto_give_def Let_def)
  show "length (auto_give hands w l i) = length hands" by (simp add: e)
  show "auto_give hands w l i ! w = hands ! w @ [?c]" using assms(1) by (simp add: e)
  have "2 \<le> length (hands ! l)" using assms(2,5) by auto
  then have "length (remove_nth i (hands ! l)) = length (hands ! l) - 1" "remove_nth i (hands ! l) \<noteq> []"
    using assms(4) by (auto dest: arg_cong[where f = length])
  moreover have "h \<noteq> []" if "h \<in> set hands" for h using assms(5) that by fastforce
  ultimately show "\<forall>h\<in>set (auto_give hands w l i). h \<noteq> []"
    unfolding e by (auto dest!: set_update_subset_insert[THEN subsetD])
  show "mset (concat (auto_give hands w l i)) = mset (concat hands)"
    using move_card_mset[OF assms(1-4)] by (simp add: e)
qed

lemma set_pending_base:
  "base_inv (set_pending hands w l m) = base_inv m"
  "mustEndAfterForfeit (set_pending hands w l m) = mustEndAfterForfeit m"
  by (simp_all add: set_pending_def base_inv_def mustEndAfterForfeit_def present_def remainingSeats_def)

lemma base_inv_upd [simp]:
  "base_inv (m\<lparr>m_pendingHands := x\<rparr>) = base_inv m" "base_inv (m\<lparr>m_state := x1\<rparr>) = base_inv m"
  "base_inv (m\<lparr>m_pendingReceivedId := x2\<rparr>) = base_inv m" "base_inv (m\<lparr>m_deals := x3\<rparr>) = base_inv m"
  "base_inv (m\<lparr>m_game := x4\<rparr>) = base_inv m" "base_inv (m\<lparr>m_target := x5\<rparr>) = base_inv m"
  "base_inv (m\<lparr>m_lastFinishingOrder := x6\<rparr>) = base_inv m" "base_inv (m\<lparr>m_matchWinner := x7\<rparr>) = base_inv m"
  by (simp_all add: base_inv_def)

lemma mustEnd_upd [simp]:
  "mustEndAfterForfeit (m\<lparr>m_pendingHands := x\<rparr>) = mustEndAfterForfeit m"
  "mustEndAfterForfeit (m\<lparr>m_state := x1\<rparr>) = mustEndAfterForfeit m"
  "mustEndAfterForfeit (m\<lparr>m_pendingReceivedId := x2\<rparr>) = mustEndAfterForfeit m"
  "mustEndAfterForfeit (m\<lparr>m_deals := x3\<rparr>) = mustEndAfterForfeit m"
  "mustEndAfterForfeit (m\<lparr>m_game := x4\<rparr>) = mustEndAfterForfeit m"
  "mustEndAfterForfeit (m\<lparr>m_target := x5\<rparr>) = mustEndAfterForfeit m"
  "mustEndAfterForfeit (m\<lparr>m_lastFinishingOrder := x6\<rparr>) = mustEndAfterForfeit m"
  "mustEndAfterForfeit (m\<lparr>m_cumulative := x7\<rparr>) = mustEndAfterForfeit m"
  by (simp_all add: mustEndAfterForfeit_def present_def remainingSeats_def)

definition scored_inv :: "match_st \<Rightarrow> bool" where
  "scored_inv m \<longleftrightarrow> base_inv m \<and> \<not> mustEndAfterForfeit m \<and> m_matchWinner m = None \<and>
     sum_list (m_cumulative m) = int (m_gameIndex m * points_per_game (m_type m))"

lemma begin_scored:
  assumes "scored_inv m" "m_pendingHands m = Some hands"
    and "length hands = m_numPlayers m" "\<forall>h\<in>set hands. h \<noteq> []" "leader < m_numPlayers m"
  obtains e m' where "beginPendingGame leader m = (Inr e, m')" "match_inv m'" "m_state m' = PlayingGame"
    "map_option g_hands (m_game m') = Some hands"
proof -
  from assms(1) have b: "base_inv m" "\<not> mustEndAfterForfeit m" by (simp_all add: scored_inv_def)
  show ?thesis
  proof (rule beginPendingGame_inv[OF b assms(2-5)])
    fix e m'
    assume *: "beginPendingGame leader m = (Inr e, m')" "m_state m' = PlayingGame"
      "live_game m'" "base_inv m'" "\<not> mustEndAfterForfeit m'" "m_cumulative m' = m_cumulative m"
      "m_gameIndex m' = m_gameIndex m" "m_type m' = m_type m" "m_matchWinner m' = m_matchWinner m"
      "map_option g_hands (m_game m') = Some hands"
    then have "match_inv m'" using assms(1) by (simp add: match_inv_def scored_inv_def)
    with * that show thesis by blast
  qed
qed

lemma switch_cards_inv:
  assumes "scored_inv m" "m_pendingHands m = Some hands" "m_pendingWinner m = Some w"
    "m_pendingLoser m = Some l" "length hands = m_numPlayers m" "\<forall>h\<in>set hands. 2 \<le> length h"
    "distinct (concat hands)" "w < m_numPlayers m" "l < m_numPlayers m" "w \<noteq> l"
  obtains es m' where "switch_cards hands w l m = (Inr es, m')" "match_inv m'"
proof -
  have ne: "hands ! l \<noteq> []" using assms(5,6,9) nth_mem[of l hands] by fastforce
  obtain i where i: "strongestIndexByPower (hands ! l) = Inr i" "i < length (hands ! l)"
    using strongestIndexByPower_spec[OF ne] by blast
  let ?h2 = "auto_give hands w l i" and ?r = "Some (cardId (hands ! l ! i))"
  let ?m1 = "m\<lparr>m_pendingHands := Some ?h2, m_pendingReceivedId := ?r\<rparr>"
  have wl: "w < length hands" "l < length hands" using assms(5,8,9) by simp_all
  note f = auto_give_facts[OF wl assms(10) i(2) assms(6)]
  have d: "distinct (concat ?h2)" using f(4) assms(7) by (metis mset_eq_imp_distinct_iff)
  have s1: "scored_inv ?m1" using assms(1) by (simp add: scored_inv_def)
  show ?thesis
  proof (cases "returnable ?r (?h2 ! w) = []")
    case True
    obtain e m' where b: "beginPendingGame l ?m1 = (Inr e, m')" "match_inv m'"
      by (rule begin_scored[OF s1, of ?h2 l]) (use f assms(5,9) in auto)
    then have "switch_cards hands w l m =
        (Inr [CardSwitchAuto l w (hands ! l ! i), CardSwitchReturn w l None, e], m')"
      using True i(1) by (simp add: switch_cards_def Let_def bind_act_def return_act_def)
    then show ?thesis using that b(2) by blast
  next
    case False
    let ?m2 = "?m1\<lparr>m_state := AwaitingSwitch\<rparr>"
    have "switch_cards hands w l m = (Inr [CardSwitchAuto l w (hands ! l ! i), AwaitingSwitchEvent w l], ?m2)"
      using False i(1) by (simp add: switch_cards_def Let_def)
    moreover have "2 \<le> length (?h2 ! w)" using f(3) assms(6) wl(1) nth_mem[OF wl(1)] by fastforce
    then have "match_inv ?m2"
      using s1 False f d assms(3-5,8-10) by (simp add: match_inv_def pending_inv_def scored_inv_def)
    ultimately show ?thesis by (rule that)
  qed
qed

definition scored_next :: "match_st \<Rightarrow> bool" where
  "scored_next m \<longleftrightarrow> base_inv m \<and> \<not> mustEndAfterForfeit m \<and> m_matchWinner m = None \<and>
     sum_list (m_cumulative m) = int (Suc (m_gameIndex m) * points_per_game (m_type m))"

lemma order_ends:
  assumes "is_order ty ord"
  shows "hd ord < playersForType ty" "last ord < playersForType ty" "hd ord \<noteq> last ord"
proof -
  have l: "2 \<le> length ord" using assms playersForType_bounds(1) by (simp add: is_order_length)
  then have ne: "ord \<noteq> []" by auto
  show "hd ord < playersForType ty" "last ord < playersForType ty"
    using assms ne hd_in_set last_in_set by (auto simp: is_order_def)
  show "hd ord \<noteq> last ord"
  proof
    assume "hd ord = last ord"
    then have "ord ! 0 = ord ! (length ord - 1)" using ne by (simp add: hd_conv_nth last_conv_nth)
    with l ne assms nth_eq_iff_index_eq[of ord 0 "length ord - 1"] show False
      by (simp add: is_order_def)
  qed
qed

lemma prepareNextGame_inv:
  assumes "scored_next m" "dealer_ok (m_numPlayers m) dl" "is_order (m_type m) ord"
  obtains es m' where "prepareNextGame dl ord m = (Inr es, m')" "match_inv m'"
proof -
  let ?n = "m_numPlayers m" and ?hands = "dl (m_deals m)"
  have n: "?n = playersForType (m_type m)" using assms(1) by (simp add: scored_next_def base_inv_def)
  have h: "length ?hands = ?n" "\<forall>h\<in>set ?hands. 2 \<le> length h" "distinct (concat ?hands)"
    using assms(2) by (simp_all add: dealer_ok_def)
  have hne: "\<forall>h\<in>set ?hands. h \<noteq> []" using h(2) by fastforce
  define w l where "w = hd ord" and "l = last ord"
  have wl: "w < ?n" "l < ?n" "w \<noteq> l" using order_ends[OF assms(3)] n by (simp_all add: w_def l_def)
  let ?m0 = "m\<lparr>m_deals := m_deals m + 1\<rparr>"
  let ?m1 = "set_pending ?hands w l ?m0"
  have s1: "scored_inv ?m1" "m_pendingHands ?m1 = Some ?hands" "m_numPlayers ?m1 = ?n"
    "m_pendingWinner ?m1 = Some w" "m_pendingLoser ?m1 = Some l"
    using assms(1) by (simp_all add: scored_inv_def scored_next_def set_pending_base)
      (simp_all add: set_pending_def algebra_simps)
  have p: "prepareNextGame dl ord m =
     (if l \<in> set (m_goneSeats ?m1) then bind_act (beginPendingGame w) (\<lambda>e. return_act [e]) ?m1
      else if length (filter is_joker (?hands ! l)) \<ge> 2 then
        bind_act (beginPendingGame w) (\<lambda>e. return_act [NoSwap w l, e]) ?m1
      else switch_cards ?hands w l ?m1)"
    using h(1) by (simp add: prepareNextGame_def w_def l_def Let_def take_deal_def bind_act_def)
  obtain e m' where b: "beginPendingGame w ?m1 = (Inr e, m')" "match_inv m'"
    by (rule begin_scored[OF s1(1,2)]) (use h(1) hne wl s1(3) in auto)
  obtain es m2 where sw: "switch_cards ?hands w l ?m1 = (Inr es, m2)" "match_inv m2"
    by (rule switch_cards_inv[OF s1(1,2,4,5)]) (use h wl s1(3) in auto)
  show ?thesis
  proof (cases "l \<in> set (m_goneSeats ?m1)")
    case True
    with p b that show ?thesis by (simp add: bind_act_def return_act_def)
  next
    case no: False
    show ?thesis
    proof (cases "length (filter is_joker (?hands ! l)) \<ge> 2")
      case True
      with no p b that show ?thesis by (simp add: bind_act_def return_act_def)
    next
      case False
      with no p sw that show ?thesis by simp
    qed
  qed
qed

lemma length_add_points [simp]: "length (add_points xs ys) = length xs"
  by (simp add: add_points_def)

lemma sum_add_points: "length ys = length xs \<Longrightarrow> sum_list (add_points xs ys) = sum_list xs + sum_list ys"
  by (simp add: add_points_def sum_list_sum_nth atLeast0LessThan sum.distrib)

lemma sideScores_nonempty: "base_inv m \<Longrightarrow> sideScores m \<noteq> []"
  using playersForType_bounds(1)[of "m_type m"]
  by (auto simp: sideScores_def base_inv_def teamTotals_def)

lemma winner_side_bound:
  assumes "base_inv m" "ev_winnerSide (evaluateMatch (sideScores m) t) = Some side"
    "ev_over (evaluateMatch (sideScores m) t)"
  shows "set (seatsOfSide side m) \<subseteq> {..<m_numPlayers m}"
proof -
  have "sole_leader (sideScores m) side"
    using evaluateMatch_winner[OF sideScores_nonempty[OF assms(1)], of t side] assms(2,3) by simp
  then have "side < length (sideScores m)" by (simp add: sole_leader_def)
  then show ?thesis using assms(1)
    by (auto simp: sideScores_def seatsOfSide_def base_inv_def teams_ok_def teamTotals_def
        playersForType_def split: if_splits)
qed

definition ended_inv :: "match_st \<Rightarrow> bool" where
  "ended_inv m \<longleftrightarrow> base_inv m \<and> \<not> mustEndAfterForfeit m \<and> m_matchWinner m = None \<and>
     sum_list (m_cumulative m) = int (m_gameIndex m * points_per_game (m_type m)) \<and>
     (case m_game m of None \<Rightarrow> False
      | Some g \<Rightarrow> game_inv g \<and> isOver g \<and> g_numPlayers g = m_numPlayers m)"

lemma onGameEnd_inv:
  assumes "ended_inv m" "dealer_ok (m_numPlayers m) dl"
  obtains es m' where "onGameEnd dl m = (Inr es, m')" "match_inv m'"
proof -
  from assms(1) obtain g where g: "m_game m = Some g" "game_inv g" "isOver g"
    "g_numPlayers g = m_numPlayers m" by (cases "m_game m") (auto simp: ended_inv_def)
  from assms(1) have b: "base_inv m" "\<not> mustEndAfterForfeit m" "m_matchWinner m = None"
    "sum_list (m_cumulative m) = int (m_gameIndex m * points_per_game (m_type m))"
    by (simp_all add: ended_inv_def)
  have n: "m_numPlayers m = playersForType (m_type m)" "length (m_cumulative m) = m_numPlayers m"
    using b(1) by (simp_all add: base_inv_def)
  let ?ord = "g_finishingOrder g"
  have o: "is_order (m_type m) ?ord"
    using g n(1) by (simp add: game_inv_def isOver_def finished_inv_def is_order_def)
  then obtain pts where pts: "gamePoints (m_type m) ?ord = Inr pts" using gamePoints_is_order by blast
  define m2 where "m2 = m\<lparr>m_lastFinishingOrder := Some ?ord, m_cumulative := add_points (m_cumulative m) pts\<rparr>"
  define evl where "evl = evaluateMatch (sideScores m2) (m_target m2)"
  define m3 where "m3 = (if ev_extended evl then m2\<lparr>m_target := ev_newTarget evl\<rparr> else m2)"
  have b2: "base_inv m2" "\<not> mustEndAfterForfeit m2" using b(1,2) by (auto simp: m2_def base_inv_def)
  have "sum_list (m_cumulative m2) = sum_list (m_cumulative m) + sum_list pts"
    using gamePoints_length[OF pts] n by (simp add: m2_def sum_add_points)
  then have sum: "sum_list (m_cumulative m2) = int (Suc (m_gameIndex m2) * points_per_game (m_type m2))"
    using b(4) gamePoints_sum[OF o pts] by (simp add: m2_def points_per_game_def algebra_simps)
  have s3: "scored_next m3" "m_numPlayers m3 = m_numPlayers m" "m_type m3 = m_type m"
    using b2 sum b(3) by (simp_all add: m3_def scored_next_def) (simp_all add: m2_def)
  obtain es m4 where p: "prepareNextGame dl ?ord m3 = (Inr es, m4)" "match_inv m4"
    by (rule prepareNextGame_inv[OF s3(1)]) (use assms(2) o s3(2,3) in auto)
  show ?thesis
  proof (cases "ev_over evl \<and> ev_winnerSide evl \<noteq> None")
    case True
    then obtain side where side: "ev_over evl" "ev_winnerSide evl = Some side" by auto
    let ?seats = "present m2 (seatsOfSide side m2)"
    let ?m5 = "m2\<lparr>m_matchWinner := Some (int side, ?seats), m_state := MatchOver, m_game := None\<rparr>"
    have "\<exists>es. onGameEnd dl m = (Inr es, ?m5)"
      using side pts g(1) by (simp add: onGameEnd_def Let_def flip: m2_def evl_def)
    moreover have "match_inv ?m5"
      using b2(1) winner_side_bound[OF b2(1), of "m_target m2" side] side
      by (auto simp: match_inv_def present_def evl_def)
    ultimately show ?thesis using that by blast
  next
    case False
    then have "\<exists>es. onGameEnd dl m = (Inr es, m4)"
      using pts g(1) p(1)
      by (cases "ev_over evl"; cases "ev_winnerSide evl")
         (auto simp: onGameEnd_def Let_def m2_def evl_def m3_def bind_act_def return_act_def)
    with p(2) that show ?thesis by blast
  qed
qed

subsubsection \<open>Every operation keeps the invariant and throws nothing\<close>

lemma match_inv_playing:
  assumes "match_inv m" "m_state m = PlayingGame"
  obtains g where "m_game m = Some g" "game_inv g" "\<not> isOver g" "g_numPlayers g = m_numPlayers m"
    "set (g_gone g) = set (m_goneSeats m)" "base_inv m" "\<not> mustEndAfterForfeit m"
    "m_matchWinner m = None" "sum_list (m_cumulative m) = int (m_gameIndex m * points_per_game (m_type m))"
  using assms by (cases "m_game m") (auto simp: match_inv_def live_game_def)

lemma relay_inv:
  assumes "match_inv m" "m_state m = PlayingGame" "m_game m = Some g"
    and "game_inv g'" "g_numPlayers g' = g_numPlayers g" "g_gone g' = g_gone g" "\<not> ar_ok r \<Longrightarrow> g' = g"
    and "dealer_ok (m_numPlayers m) dl"
  obtains res m' where "relay dl (r, g') m = (Inr res, m')" "match_inv m'"
proof -
  let ?m1 = "m\<lparr>m_game := Some g'\<rparr>"
  have i: "base_inv m" "\<not> mustEndAfterForfeit m" "m_matchWinner m = None"
    "sum_list (m_cumulative m) = int (m_gameIndex m * points_per_game (m_type m))" "\<not> isOver g"
    "g_numPlayers g = m_numPlayers m" "set (g_gone g) = set (m_goneSeats m)"
    by (rule match_inv_playing[OF assms(1,2)]; simp add: assms(3))+
  have live: "match_inv ?m1" if "\<not> isOver g'"
    using that i assms(2,4-6) by (simp add: match_inv_def live_game_def)
  show ?thesis
  proof (cases "ar_ok r \<and> isOver g'")
    case True
    have "ended_inv ?m1" using True i assms(4,5) by (simp add: ended_inv_def)
    then obtain es m' where e: "onGameEnd dl ?m1 = (Inr es, m')" "match_inv m'"
      using assms(8) by (elim onGameEnd_inv) simp
    then have "relay dl (r, g') m = (Inr (match_ok (ar_events r) es), m')"
      using True by (simp add: relay_def Let_def bind_act_def return_act_def)
    then show ?thesis using that e(2) by blast
  next
    case False
    then have "\<not> isOver g'" using assms(7) i(5) by auto
    with False live have "\<exists>res. relay dl (r, g') m = (Inr res, ?m1)" by (auto simp: relay_def Let_def)
    then show ?thesis using that live \<open>\<not> isOver g'\<close> by blast
  qed
qed

lemma match_play_inv:
  assumes "match_inv m" "dealer_ok (m_numPlayers m) dl"
  obtains res m' where "match_play dl seat cards m = (Inr res, m')" "match_inv m'"
proof (cases "m_state m = PlayingGame")
  case True
  from match_inv_playing[OF assms(1) True] obtain g where g: "m_game m = Some g" "game_inv g" by metis
  obtain r g' where rg: "game_play seat cards g = (r, g')" by fastforce
  have "game_inv g'" "g_numPlayers g' = g_numPlayers g" "g_gone g' = g_gone g" "\<not> ar_ok r \<Longrightarrow> g' = g"
    using game_play_inv[OF g(2), of seat cards] game_play_fields[OF g(2), of seat cards]
      game_play_rejected[of seat cards g] rg by simp_all
  from relay_inv[OF assms(1) True g(1) this assms(2)] that g(1) True rg show ?thesis
    by (auto simp: match_play_def)
next
  case False
  then have "\<exists>res. match_play dl seat cards m = (Inr res, m)"
    by (cases "m_state m") (auto simp: match_play_def)
  with that assms(1) show ?thesis by blast
qed

lemma match_pass_inv:
  assumes "match_inv m" "dealer_ok (m_numPlayers m) dl"
  obtains res m' where "match_pass dl seat m = (Inr res, m')" "match_inv m'"
proof (cases "m_state m = PlayingGame")
  case True
  from match_inv_playing[OF assms(1) True] obtain g where g: "m_game m = Some g" "game_inv g" by metis
  obtain r g' where rg: "game_pass seat g = (r, g')" by fastforce
  have "game_inv g'" "g_numPlayers g' = g_numPlayers g" "g_gone g' = g_gone g" "\<not> ar_ok r \<Longrightarrow> g' = g"
    using game_pass_inv[OF g(2), of seat] game_pass_fields[OF g(2), of seat]
      game_pass_rejected[of seat g] rg by (simp_all add: kept_def)
  from relay_inv[OF assms(1) True g(1) this assms(2)] that g(1) True rg show ?thesis
    by (auto simp: match_pass_def)
next
  case False
  then have "\<exists>res. match_pass dl seat m = (Inr res, m)"
    by (cases "m_state m") (auto simp: match_pass_def)
  with that assms(1) show ?thesis by blast
qed

lemma match_inv_awaiting:
  assumes "match_inv m" "m_state m = AwaitingSwitch"
  obtains hands w l where "m_pendingHands m = Some hands" "m_pendingWinner m = Some w"
    "m_pendingLoser m = Some l" "scored_inv m" "length hands = m_numPlayers m"
    "\<forall>h\<in>set hands. h \<noteq> []" "distinct (concat hands)" "2 \<le> length (hands ! w)"
    "w < m_numPlayers m" "l < m_numPlayers m" "w \<noteq> l"
    "returnable (m_pendingReceivedId m) (hands ! w) \<noteq> []"
  using assms
  by (cases "m_pendingHands m"; cases "m_pendingWinner m"; cases "m_pendingLoser m")
     (auto simp: match_inv_def pending_inv_def scored_inv_def)

lemma give_back_facts:
  assumes "w < length hands" "l < length hands" "w \<noteq> l" "i < length (hands ! w)"
    and "\<forall>h\<in>set hands. h \<noteq> []" "2 \<le> length (hands ! w)"
  shows "length (give_back hands w l i) = length hands"
    and "\<forall>h\<in>set (give_back hands w l i). h \<noteq> []"
    and "mset (concat (give_back hands w l i)) = mset (concat hands)"
proof -
  let ?c = "hands ! w ! i" and ?h1 = "hands[w := remove_nth i (hands ! w)]"
  have e: "give_back hands w l i = ?h1[l := hands ! l @ [?c]]"
    using assms(2,3) by (simp add: give_back_def Let_def)
  show "length (give_back hands w l i) = length hands" by (simp add: e)
  have "remove_nth i (hands ! w) \<noteq> []"
    using assms(4,6) by (auto simp: remove_nth_def)
  with assms(5) show "\<forall>h\<in>set (give_back hands w l i). h \<noteq> []"
    unfolding e by (auto dest!: set_update_subset_insert[THEN subsetD])
  show "mset (concat (give_back hands w l i)) = mset (concat hands)"
    using move_card_mset[OF assms(2,1) _ assms(4)] assms(3) by (simp add: e)
qed

lemma match_switchGive_inv:
  assumes "match_inv m"
  obtains res m' where "match_switchGive seat c m = (Inr res, m')" "match_inv m'"
proof (cases "m_state m = AwaitingSwitch")
  case True
  obtain hands w l where p: "m_pendingHands m = Some hands" "m_pendingWinner m = Some w"
    "m_pendingLoser m = Some l" "scored_inv m" "length hands = m_numPlayers m"
    "\<forall>h\<in>set hands. h \<noteq> []" "distinct (concat hands)" "2 \<le> length (hands ! w)"
    "w < m_numPlayers m" "l < m_numPlayers m" "w \<noteq> l"
    "returnable (m_pendingReceivedId m) (hands ! w) \<noteq> []"
    by (rule match_inv_awaiting[OF assms True])
  show ?thesis
  proof (cases "seat \<noteq> w \<or> \<not> isReturnEligible c \<or> Some (cardId c) = m_pendingReceivedId m \<or>
      find_index (\<lambda>x. cardId x = cardId c) (hands ! w) = None")
    case rej: True
    then have "\<exists>res. match_switchGive seat c m = (Inr res, m)"
      using True p(1-3) by (auto simp: match_switchGive_def)
    with that assms show ?thesis by blast
  next
    case acc: False
    then obtain idx where idx: "find_index (\<lambda>x. cardId x = cardId c) (hands ! w) = Some idx" by auto
    then have lt: "idx < length (hands ! w)" using find_index_Some by blast
    let ?m1 = "m\<lparr>m_pendingHands := Some (give_back hands w l idx)\<rparr>"
    have wl: "w < length hands" "l < length hands" using p(5,9,10) by simp_all
    note f = give_back_facts[OF wl p(11) lt p(6,8)]
    have "scored_inv ?m1" using p(4) by (simp add: scored_inv_def)
    then obtain e m' where b: "beginPendingGame l ?m1 = (Inr e, m')" "match_inv m'"
      by (rule begin_scored[of _ "give_back hands w l idx" l]) (use f p(5,10) in auto)
    have "match_switchGive seat c m =
        (Inr (match_ok [] [CardSwitchReturn w l (Some (hands ! w ! idx)), e]), m')"
      using acc True p(1-3) idx b(1)
      by (simp add: match_switchGive_def Let_def bind_act_def return_act_def)
    then show ?thesis using that b(2) by blast
  qed
next
  case False
  then have "\<exists>res. match_switchGive seat c m = (Inr res, m)"
    by (cases "m_state m") (auto simp: match_switchGive_def)
  with that assms show ?thesis by blast
qed

lemma endByForfeit_inv:
  assumes "base_inv m" "remaining = remainingSeats m" "endByForfeit remaining m = (es, m')"
  shows "match_inv m'"
proof -
  have "set (remainingSeats m) \<subseteq> {..<m_numPlayers m} - set (m_goneSeats m)"
    by (auto simp: remainingSeats_def)
  moreover have "m_type m = TwoVTwo \<Longrightarrow>
      set (present m (fst (m_teams m))) \<union> set (present m (snd (m_teams m))) \<subseteq> {..<m_numPlayers m} - set (m_goneSeats m)"
    using assms(1) by (auto simp: present_def base_inv_def teams_ok_def playersForType_def)
  moreover have "hd (remainingSeats m) \<in> set (remainingSeats m)" if "length (remainingSeats m) = 1"
    using that by (cases "remainingSeats m") auto
  ultimately show ?thesis using assms
    by (auto simp: endByForfeit_def Let_def match_inv_def split: if_splits)
qed

lemma base_inv_gone:
  "base_inv m \<Longrightarrow> seat < m_numPlayers m \<Longrightarrow> base_inv (m\<lparr>m_goneSeats := set_add seat (m_goneSeats m)\<rparr>)"
  by (auto simp: base_inv_def)

lemma match_forfeit_inv:
  assumes "match_inv m" "dealer_ok (m_numPlayers m) dl"
  obtains res m' where "match_forfeit dl seat m = (Inr res, m')" "match_inv m'"
proof (cases "m_state m = MatchOver \<or> seat \<ge> m_numPlayers m \<or> seat \<in> set (m_goneSeats m)")
  case True
  then have "\<exists>res. match_forfeit dl seat m = (Inr res, m)" by (auto simp: match_forfeit_def)
  with that assms show ?thesis by blast
next
  case False
  let ?m1 = "m\<lparr>m_goneSeats := set_add seat (m_goneSeats m)\<rparr>"
  have b: "base_inv m" using assms(1) by (simp add: match_inv_def)
  have b1: "base_inv ?m1" using base_inv_gone[OF b] False by simp
  show ?thesis
  proof (cases "mustEndAfterForfeit ?m1")
    case True
    obtain es m2 where e: "endByForfeit (remainingSeats ?m1) ?m1 = (es, m2)" by fastforce
    then have "match_forfeit dl seat m = (Inr (match_ok [] es), m2)"
      using False True by (simp add: match_forfeit_def Let_def)
    with that endByForfeit_inv[OF b1 refl e] show ?thesis by blast
  next
    case go: False
    show ?thesis
    proof (cases "m_state m")
      case PlayingGame
      from assms(1) this obtain g where g: "m_game m = Some g" "game_inv g" "\<not> isOver g"
        "g_numPlayers g = m_numPlayers m" "set (g_gone g) = set (m_goneSeats m)"
        "m_matchWinner m = None"
        "sum_list (m_cumulative m) = int (m_gameIndex m * points_per_game (m_type m))"
        by (rule match_inv_playing)
      obtain ge g' where fg: "game_forfeitSeat seat g = (ge, g')" by fastforce
      have gp: "g_status g = Playing" using g(3) by (simp add: isOver_def) (metis game_status.exhaust)
      have g': "game_inv g'" "g_numPlayers g' = m_numPlayers m" "g_gone g' = set_add seat (g_gone g)"
        using game_forfeitSeat_inv[OF g(2), of seat] game_forfeitSeat_fields[OF g(2), of seat] fg g(4) gp False
        by simp_all
      let ?m2 = "?m1\<lparr>m_game := Some g'\<rparr>"
      have fe: "match_forfeit dl seat m =
          (if isOver g' then bind_act (onGameEnd dl) (\<lambda>es. return_act (match_ok ge es)) ?m2
           else (Inr (match_ok ge []), ?m2))"
        using False go PlayingGame g(1) fg by (simp add: match_forfeit_def Let_def)
      show ?thesis
      proof (cases "isOver g'")
        case True
        have "ended_inv ?m2" using True b1 go g' g(6,7) by (simp add: ended_inv_def)
        then obtain es m' where "onGameEnd dl ?m2 = (Inr es, m')" "match_inv m'"
          using assms(2) by (elim onGameEnd_inv) simp
        with fe True that show ?thesis by (simp add: bind_act_def return_act_def)
      next
        case no: False
        have "match_inv ?m2"
          using no b1 go g' g(5-7) PlayingGame by (simp add: match_inv_def live_game_def)
        with fe no that show ?thesis by simp
      qed
    next
      case AwaitingSwitch
      obtain hands w l where p: "m_pendingHands m = Some hands" "m_pendingWinner m = Some w"
        "m_pendingLoser m = Some l" "scored_inv m" "length hands = m_numPlayers m"
        "\<forall>h\<in>set hands. h \<noteq> []" "distinct (concat hands)" "2 \<le> length (hands ! w)"
        "w < m_numPlayers m" "l < m_numPlayers m" "w \<noteq> l"
        "returnable (m_pendingReceivedId m) (hands ! w) \<noteq> []"
        by (rule match_inv_awaiting[OF assms(1) AwaitingSwitch])
      have s1: "scored_inv ?m1" using b1 go p(4) by (simp add: scored_inv_def)
      obtain e m' where bg: "beginPendingGame l ?m1 = (Inr e, m')" "match_inv m'"
        by (rule begin_scored[OF s1, of hands l]) (use p in auto)
      have i1: "match_inv ?m1" using b1 go assms(1) AwaitingSwitch p(1-3)
        by (simp add: match_inv_def pending_inv_def)
      have fe: "match_forfeit dl seat m =
          bind_act (onSwitchForfeit seat) (\<lambda>es. return_act (match_ok [] es)) ?m1"
        using False go AwaitingSwitch by (simp add: match_forfeit_def Let_def)
      show ?thesis using fe bg i1 p(2,3) that
        by (cases "seat = w") (simp_all add: onSwitchForfeit_def bind_act_def return_act_def)
    next
      case MatchOver
      with False show ?thesis by simp
    qed
  qed
qed

lemma match_apply_inv:
  assumes "match_inv m" "dealer_ok (m_numPlayers m) dl"
  obtains res m' where "match_apply dl op m = (Inr res, m')" "match_inv m'"
proof (cases op)
  case (MPlay seat cards)
  with match_play_inv[OF assms, of seat cards] that show ?thesis by auto
next
  case (MPass seat)
  with match_pass_inv[OF assms, of seat] that show ?thesis by auto
next
  case (MSwitch seat c)
  with match_switchGive_inv[OF assms(1), of seat c] that show ?thesis by auto
next
  case (MForfeit seat)
  with match_forfeit_inv[OF assms, of seat] that show ?thesis by auto
qed

subsubsection \<open>The shape of a match never changes\<close>

definition shape :: "match_st \<Rightarrow> match_type \<times> nat \<times> teams" where
  "shape m = (m_type m, m_numPlayers m, m_teams m)"

lemma shape_upd [simp]:
  "shape (m\<lparr>m_pendingHands := x\<rparr>) = shape m" "shape (m\<lparr>m_state := x1\<rparr>) = shape m"
  "shape (m\<lparr>m_pendingReceivedId := x2\<rparr>) = shape m" "shape (m\<lparr>m_deals := x3\<rparr>) = shape m"
  "shape (m\<lparr>m_game := x4\<rparr>) = shape m" "shape (m\<lparr>m_target := x5\<rparr>) = shape m"
  "shape (m\<lparr>m_lastFinishingOrder := x6\<rparr>) = shape m" "shape (m\<lparr>m_matchWinner := x7\<rparr>) = shape m"
  "shape (m\<lparr>m_cumulative := x8\<rparr>) = shape m" "shape (m\<lparr>m_goneSeats := x9\<rparr>) = shape m"
  "shape (m\<lparr>m_pendingWinner := y\<rparr>) = shape m" "shape (m\<lparr>m_pendingLoser := y1\<rparr>) = shape m"
  "shape (m\<lparr>m_gameIndex := y2\<rparr>) = shape m"
  by (simp_all add: shape_def)

lemma shape_begin: "shape (snd (beginPendingGame l m)) = shape m"
  by (simp add: beginPendingGame_def Let_def split: option.split sum.split)

lemma shape_take_deal: "shape (snd (take_deal dl m)) = shape m"
  by (simp add: take_deal_def Let_def)

lemma shape_set_pending: "shape (set_pending hands w l m) = shape m"
  by (simp add: set_pending_def)

lemma shape_begin_bind: "shape (snd (bind_act (beginPendingGame l) (\<lambda>e. return_act (f e)) m)) = shape m"
  by (rule bind_act_frame) (simp_all add: shape_begin)

lemma shape_switch: "shape (snd (switch_cards hands w l m)) = shape m"
  by (simp add: switch_cards_def Let_def shape_begin_bind split: sum.split)

lemma shape_prepare: "shape (snd (prepareNextGame dl ord m)) = shape m"
  unfolding prepareNextGame_def Let_def
  by (rule bind_act_frame) (simp_all add: shape_take_deal shape_begin_bind shape_switch shape_set_pending)

lemma shape_onGameEnd: "shape (snd (onGameEnd dl m)) = shape m"
proof -
  have p: "shape (snd (bind_act (prepareNextGame dl ord) (\<lambda>es. return_act (f es)) m)) = shape m" for ord f m
    by (rule bind_act_frame) (simp_all add: shape_prepare)
  show ?thesis
    by (auto simp: onGameEnd_def Let_def p split: option.split sum.split bool.split prod.split)
qed

lemma shape_end_bind: "shape (snd (bind_act (onGameEnd dl) (\<lambda>es. return_act (f es)) m)) = shape m"
  by (rule bind_act_frame) (simp_all add: shape_onGameEnd)

lemma shape_relay: "shape (snd (relay dl rg m)) = shape m"
  by (simp add: relay_def Let_def shape_end_bind)

lemma shape_match_apply: "shape (snd (match_apply dl op m)) = shape m"
proof (cases op)
  case (MPlay seat cards)
  then show ?thesis by (auto simp: match_play_def shape_relay split: match_phase.split option.split)
next
  case (MPass seat)
  then show ?thesis by (auto simp: match_pass_def shape_relay split: match_phase.split option.split)
next
  case (MSwitch seat c)
  then show ?thesis
    by (auto simp: match_switchGive_def shape_begin_bind Let_def split: match_phase.split option.split)
next
  case (MForfeit seat)
  have s: "shape (snd (bind_act (onSwitchForfeit seat) (\<lambda>es. return_act (f es)) m)) = shape m" for f m
    by (rule bind_act_frame)
       (simp_all add: onSwitchForfeit_def shape_begin_bind split: option.split)
  have e: "shape (snd (endByForfeit rs m)) = shape m" for rs m
    by (simp add: endByForfeit_def Let_def split: prod.split)
  show ?thesis using MForfeit e
    by (auto simp: match_forfeit_def s shape_end_bind Let_def case_prod_beta
        split: match_phase.split option.split)
qed

definition match_good :: "nat \<Rightarrow> match_st \<Rightarrow> bool" where
  "match_good n m \<longleftrightarrow> match_inv m \<and> m_numPlayers m = n"

lemma match_step_good: "dealer_ok n dl \<Longrightarrow> match_good n m \<Longrightarrow> match_good n (match_step dl m op)"
proof -
  assume d: "dealer_ok n dl" and g: "match_good n m"
  then have "match_inv m" "dealer_ok (m_numPlayers m) dl" by (simp_all add: match_good_def)
  then obtain res m' where a: "match_apply dl op m = (Inr res, m')" "match_inv m'"
    by (rule match_apply_inv)
  with shape_match_apply[of dl op m] g show ?thesis
    by (simp add: match_good_def match_step_def shape_def)
qed

subsection \<open>The dealer as an interface\<close>

text \<open>
  A match relies on its dealer for one hand per seat, hands of at least two cards and no card
  dealt twice. Both dealers of the server provide this.
\<close>

locale card_dealer =
  fixes n :: nat and dl :: dealer
  assumes deals_hands: "length (dl k) = n"
    and deals_two: "h \<in> set (dl k) \<Longrightarrow> 2 \<le> length h"
    and deals_distinct: "distinct (concat (dl k))"
begin

lemma dealer_is_ok: "dealer_ok n dl"
  using deals_hands deals_two deals_distinct by (auto simp: dealer_ok_def)

end

sublocale card_dealer \<subseteq> invariant_system "match_step dl" "match_good n"
  by unfold_locales (rule match_step_good[OF dealer_is_ok])

context card_dealer
begin

lemma run_good: "match_good n m \<Longrightarrow> match_good n (foldl (match_step dl) m ops)"
  by (rule run_inv)

end

lemma dealer_ok_iff: "dealer_ok n dl \<longleftrightarrow> card_dealer n dl"
  by (auto simp: dealer_ok_def card_dealer_def)

lemma playersForType_range: "playersForType ty \<in> {2, 3, 4}"
  by (simp add: playersForType_def)

interpretation crypto: card_dealer "playersForType ty" "crypto_dealer bytes (playersForType ty)"
  for bytes ty
proof
  fix k h
  note d = deal_hands[OF cryptoRng_ok playersForType_range]
  show "length (crypto_dealer bytes (playersForType ty) k) = playersForType ty"
    "distinct (concat (crypto_dealer bytes (playersForType ty) k))"
    unfolding crypto_dealer_def by (rule d)+
  show "h \<in> set (crypto_dealer bytes (playersForType ty) k) \<Longrightarrow> 2 \<le> length h"
    unfolding crypto_dealer_def using d(2) by fastforce
qed

interpretation fair: card_dealer "playersForType ty"
  "fair_dealer hmac (createFairShuffle sha (playersForType ty) cs ss rs rc)" for hmac sha ty cs ss rs rc
proof
  fix k h
  note d = deal_hands[OF hmacRng_ok playersForType_range]
  show "length (fair_dealer hmac (createFairShuffle sha (playersForType ty) cs ss rs rc) k) = playersForType ty"
    "distinct (concat (fair_dealer hmac (createFairShuffle sha (playersForType ty) cs ss rs rc) k))"
    unfolding fair_dealer_eq verifyDeal_def createFairShuffle_def Let_def fair_shuffle.simps by (rule d)+
  show "h \<in> set (fair_dealer hmac (createFairShuffle sha (playersForType ty) cs ss rs rc) k) \<Longrightarrow> 2 \<le> length h"
    unfolding fair_dealer_eq verifyDeal_def createFairShuffle_def Let_def fair_shuffle.simps
    using d(2) by fastforce
qed

subsection \<open>A new match\<close>

lemma opening_scan_leader: "hands \<noteq> [] \<Longrightarrow> fst (opening_scan st hands rs) < length hands"
proof (induction rs)
  case (Cons r rs)
  then show ?case
    using find_index_Some[of "opens_with st r" hands] by (auto split: option.splits)
qed simp

lemma opening_scan_holder:
  "opening_scan st hands rs = (leader, Some oc) \<Longrightarrow> oc \<in> set (hands ! leader)"
proof (induction rs)
  case (Cons r rs)
  then show ?case
    using find_index_Some[of "opens_with st r" hands]
    by (auto simp: opens_with_def list_ex_iff split: option.splits)
qed simp

lemma newMatch_good:
  assumes "dealer_ok (playersForType ty) dl" "teams_ok ty (case ts of None \<Rightarrow> DEFAULT_TEAMS | Some t \<Rightarrow> t)"
  obtains m0 where "newMatch dl ty target st ts = Inr m0" "match_good (playersForType ty) m0"
    "m_state m0 = PlayingGame" "m_goneSeats m0 = []" "m_type m0 = ty"
proof -
  let ?n = "playersForType ty" and ?hands = "dl 0"
  let ?suit = "case st of None \<Rightarrow> Spades | Some x \<Rightarrow> x"
  have h: "length ?hands = ?n" "\<forall>h\<in>set ?hands. h \<noteq> []"
    using assms(1) by (fastforce simp: dealer_ok_def)+
  then have h3: "?hands \<noteq> []" using playersForType_bounds(1)[of ty] by auto
  obtain leader oc where fo: "firstGameOpening ?suit ?hands = (leader, oc)" by fastforce
  then have l: "leader < ?n" using opening_scan_leader[OF h3] h(1)
    by (metis firstGameOpening_def fst_conv)
  have d: "dealt ?n ?hands leader" using h l playersForType_bounds(1) by (simp add: dealt_def)
  define m where "m = \<lparr>m_type = ty, m_numPlayers = ?n,
      m_teams = (case ts of None \<Rightarrow> DEFAULT_TEAMS | Some t \<Rightarrow> t), m_startSuit = ?suit,
      m_target = (case target of None \<Rightarrow> 21 | Some t \<Rightarrow> t), m_cumulative = replicate ?n 0,
      m_state = PlayingGame, m_gameIndex = 0, m_game = Some (fresh_game ?n ?hands leader oc),
      m_lastFinishingOrder = None, m_matchWinner = None, m_goneSeats = [], m_pendingHands = None,
      m_pendingWinner = None, m_pendingLoser = None, m_pendingReceivedId = None, m_deals = 1\<rparr>"
  have "newMatch dl ty target st ts = Inr m"
    using h(1) fo startGame_dealt[OF d]
    by (simp add: newMatch_def Let_def startFirstGame_def bind_act_def take_deal_def m_def)
  moreover have "\<not> mustEndAfterForfeit m"
    using assms(2) playersForType_bounds(1)[of ty]
    by (auto simp: mustEndAfterForfeit_def m_def present_def remainingSeats_def teams_ok_def)
  then have "match_inv m" using assms(2) fresh_game_inv[OF d, of oc]
    by (simp add: match_inv_def m_def base_inv_def live_game_def isOver_def fresh_game_def sum_list_replicate)
  ultimately show ?thesis using that[of m] by (simp add: match_good_def m_def)
qed

lemma run_match_good:
  assumes "dealer_ok (playersForType ty) dl" "teams_ok ty (case ts of None \<Rightarrow> DEFAULT_TEAMS | Some t \<Rightarrow> t)"
    and "newMatch dl ty target st ts = Inr m0"
  shows "match_good (playersForType ty) (foldl (match_step dl) m0 ops)"
proof -
  have "match_good (playersForType ty) m0" using newMatch_good[OF assms(1,2), of target st] assms(3) by auto
  moreover have "card_dealer (playersForType ty) dl" using assms(1) by (simp add: dealer_ok_iff)
  ultimately show ?thesis by (intro card_dealer.run_good)
qed

subsection \<open>Properties\<close>

text \<open>C6: a match never crashes and never loses its thread. With any dealer that deals proper
  hands, a match starts, and after any sequence of plays, passes, card switches and departures no
  further operation throws; while a game is on, its turn is with a present seat of the match, and
  while a switch is owed, the winner holds a card that may be returned.\<close>

theorem match_never_throws:
  assumes "dealer_ok (playersForType ty) dl" "teams_ok ty (case ts of None \<Rightarrow> DEFAULT_TEAMS | Some t \<Rightarrow> t)"
  shows "\<exists>m0. newMatch dl ty target st ts = Inr m0 \<and>
    (let m = foldl (match_step dl) m0 ops in
      (\<exists>res. fst (match_apply dl op m) = Inr res) \<and>
      (case m_state m of
         PlayingGame \<Rightarrow> \<exists>g t. m_game m = Some g \<and> g_turn g = Some t \<and> t < playersForType ty \<and>
           t \<notin> set (m_goneSeats m) \<and> g_hands g ! t \<noteq> []
       | AwaitingSwitch \<Rightarrow> eligibleReturnCardsForWinner m \<noteq> []
       | MatchOver \<Rightarrow> m_game m = None))"
proof -
  obtain m0 where m0: "newMatch dl ty target st ts = Inr m0" by (rule newMatch_good[OF assms])
  define m where "m = foldl (match_step dl) m0 ops"
  have g: "match_inv m" "m_numPlayers m = playersForType ty"
    using run_match_good[OF assms m0] by (simp_all add: m_def match_good_def)
  then have d: "dealer_ok (m_numPlayers m) dl" using assms(1) by simp
  obtain res m' where "match_apply dl op m = (Inr res, m')" by (rule match_apply_inv[OF g(1) d])
  moreover have "case m_state m of
         PlayingGame \<Rightarrow> \<exists>g t. m_game m = Some g \<and> g_turn g = Some t \<and> t < playersForType ty \<and>
           t \<notin> set (m_goneSeats m) \<and> g_hands g ! t \<noteq> []
       | AwaitingSwitch \<Rightarrow> eligibleReturnCardsForWinner m \<noteq> []
       | MatchOver \<Rightarrow> m_game m = None"
  proof (cases "m_state m")
    case PlayingGame
    from g(1) this obtain g' where l: "m_game m = Some g'" "game_inv g'" "\<not> isOver g'"
      "g_numPlayers g' = m_numPlayers m" "set (g_gone g') = set (m_goneSeats m)"
      by (rule match_inv_playing)
    have "g_status g' = Playing" using l(3) by (simp add: isOver_def) (metis game_status.exhaust)
    with l(2) have "core_inv g'" "table_inv g'" by (simp_all add: game_inv_def)
    then obtain t where t: "g_turn g' = Some t" "t < g_numPlayers g'" "g_active g' ! t"
      by (cases "g_turn g'") (auto simp: table_inv_def eligible_def)
    then have "t \<notin> set (g_gone g') \<and> g_hands g' ! t \<noteq> []"
      using \<open>core_inv g'\<close> by (simp add: core_inv_def)
    with PlayingGame l(1,4,5) t(1,2) g(2) show ?thesis by simp
  next
    case AwaitingSwitch
    show ?thesis
      by (rule match_inv_awaiting[OF g(1) AwaitingSwitch])
         (simp add: AwaitingSwitch eligibleReturnCardsForWinner_def)
  next
    case MatchOver
    with g(1) show ?thesis by (simp add: match_inv_def)
  qed
  ultimately have "(\<exists>res. fst (match_apply dl op m) = Inr res) \<and>
      (case m_state m of
         PlayingGame \<Rightarrow> \<exists>g t. m_game m = Some g \<and> g_turn g = Some t \<and> t < playersForType ty \<and>
           t \<notin> set (m_goneSeats m) \<and> g_hands g ! t \<noteq> []
       | AwaitingSwitch \<Rightarrow> eligibleReturnCardsForWinner m \<noteq> []
       | MatchOver \<Rightarrow> m_game m = None)" by simp
  with m0 show ?thesis unfolding Let_def m_def by blast
qed

definition quit_dealer :: dealer where
  "quit_dealer k = [[Standard R3 Spades, Standard R3 Hearts], [Standard R4 Spades, Standard R4 Clubs],
     [Standard R5 Spades, Standard R5 Hearts]]"

lemma quit_dealer_ok: "dealer_ok (playersForType OneVOneVOne) quit_dealer"
  by (simp add: dealer_ok_def quit_dealer_def playersForType_def)

theorem match_never_throws_witness:
  "\<exists>m0. newMatch quit_dealer OneVOneVOne None None None = Inr m0 \<and>
     (\<exists>res. fst (match_apply quit_dealer (MPass 1) (foldl (match_step quit_dealer) m0
        [MPlay 0 [Standard R3 Spades]])) = Inr res)"
proof -
  have "teams_ok OneVOneVOne (case None of None \<Rightarrow> DEFAULT_TEAMS | Some t \<Rightarrow> t)" by (simp add: teams_ok_def)
  from match_never_throws[OF quit_dealer_ok this, of None None "[MPlay 0 [Standard R3 Spades]]" "MPass 1"]
  show ?thesis unfolding Let_def by blast
qed

text \<open>C18: a player who left is never a winner, and the end is final. Whatever happened in a
  match, when it is over the seats recorded as winners all belong to the match and none of them
  has left; from then on every operation is refused and leaves the match as it is.\<close>

theorem quitters_never_win:
  assumes "dealer_ok (playersForType ty) dl" "teams_ok ty (case ts of None \<Rightarrow> DEFAULT_TEAMS | Some t \<Rightarrow> t)"
    and "newMatch dl ty target st ts = Inr m0" "m = foldl (match_step dl) m0 ops" "m_state m = MatchOver"
  shows "(case m_matchWinner m of None \<Rightarrow> True
          | Some (side, seats) \<Rightarrow> set seats \<subseteq> {..<playersForType ty} - set (m_goneSeats m)) \<and>
    match_step dl m op = m \<and> \<not> mr_ok (projr (fst (match_apply dl op m)))"
proof -
  have g: "match_inv m" "m_numPlayers m = playersForType ty"
    using run_match_good[OF assms(1-3)] assms(4) by (simp_all add: match_good_def)
  have "match_apply dl op m = (Inr (match_fail (Some code)), m) \<Longrightarrow>
      match_step dl m op = m \<and> \<not> mr_ok (projr (fst (match_apply dl op m)))" for code
    by (simp add: match_step_def match_fail_def)
  moreover have "\<exists>code. match_apply dl op m = (Inr (match_fail (Some code)), m)"
    using assms(5)
    by (cases op) (auto simp: match_play_def match_pass_def match_switchGive_def match_forfeit_def)
  ultimately have "match_step dl m op = m \<and> \<not> mr_ok (projr (fst (match_apply dl op m)))" by blast
  with g assms(5) show ?thesis by (auto simp: match_inv_def split: option.splits)
qed

definition new_match_of :: "dealer \<Rightarrow> match_type \<Rightarrow> int option \<Rightarrow> match_st" where
  "new_match_of dl ty target = projr (newMatch dl ty target None None)"

lemma new_match_of_eq:
  assumes "dealer_ok (playersForType ty) dl"
  shows "newMatch dl ty target None None = Inr (new_match_of dl ty target)"
proof -
  have "teams_ok ty (case None of None \<Rightarrow> DEFAULT_TEAMS | Some t \<Rightarrow> t)"
    by (auto simp: teams_ok_def DEFAULT_TEAMS_def)
  then obtain m0 where "newMatch dl ty target None None = Inr m0" by (rule newMatch_good[OF assms])
  then show ?thesis by (simp add: new_match_of_def)
qed

theorem quitters_never_win_witness:
  "match_step quit_dealer (foldl (match_step quit_dealer) (new_match_of quit_dealer OneVOneVOne None)
      [MForfeit 0, MForfeit 1]) (MForfeit 2) =
   foldl (match_step quit_dealer) (new_match_of quit_dealer OneVOneVOne None) [MForfeit 0, MForfeit 1]"
proof -
  have t: "teams_ok OneVOneVOne (case None of None \<Rightarrow> DEFAULT_TEAMS | Some t \<Rightarrow> t)" by (simp add: teams_ok_def)
  have "m_state (foldl (match_step quit_dealer) (new_match_of quit_dealer OneVOneVOne None)
      [MForfeit 0, MForfeit 1]) = MatchOver" by code_simp
  from quitters_never_win[OF quit_dealer_ok t new_match_of_eq[OF quit_dealer_ok] refl this]
  show ?thesis by blast
qed

text \<open>Scores add up. In every state a running match reaches, the points of all seats
  together are the number of finished games times the points of one game (1, 3 or 6 for two,
  three or four players): every game is scored exactly once and hands out all its points.\<close>

theorem scores_add_up:
  assumes "dealer_ok (playersForType ty) dl" "teams_ok ty (case ts of None \<Rightarrow> DEFAULT_TEAMS | Some t \<Rightarrow> t)"
    and "newMatch dl ty target st ts = Inr m0" "m = foldl (match_step dl) m0 ops" "m_state m \<noteq> MatchOver"
  shows "sum_list (m_cumulative m) =
    int (m_gameIndex m) * (case ty of OneVOne \<Rightarrow> 1 | OneVOneVOne \<Rightarrow> 3 | TwoVTwo \<Rightarrow> 6)"
proof -
  have g: "match_inv m" "m_numPlayers m = playersForType ty"
    using run_match_good[OF assms(1-3)] assms(4) by (simp_all add: match_good_def)
  then have "playersForType (m_type m) = playersForType ty" by (simp add: match_inv_def base_inv_def)
  then have "int (points_per_game (m_type m)) = (case ty of OneVOne \<Rightarrow> 1 | OneVOneVOne \<Rightarrow> 3 | TwoVTwo \<Rightarrow> 6)"
    by (cases ty) (simp_all add: points_per_game_def playersForType_def)
  moreover have "sum_list (m_cumulative m) = int (m_gameIndex m * points_per_game (m_type m))"
    using g(1) assms(5) by (cases "m_state m") (simp_all add: match_inv_def)
  ultimately show ?thesis by simp
qed

definition quit_run :: "match_op list" where
  "quit_run = [MPlay 0 [Standard R3 Spades, Standard R3 Hearts], MForfeit 0,
     MPlay 1 [Standard R4 Spades, Standard R4 Clubs]]"

definition quit_match :: match_st where
  "quit_match = foldl (match_step quit_dealer) (new_match_of quit_dealer OneVOneVOne None) quit_run"

theorem scores_add_up_witness: "sum_list (m_cumulative quit_match) = 3"
proof -
  have t: "teams_ok OneVOneVOne (case None of None \<Rightarrow> DEFAULT_TEAMS | Some t \<Rightarrow> t)" by (simp add: teams_ok_def)
  have m: "quit_match = foldl (match_step quit_dealer) (new_match_of quit_dealer OneVOneVOne None) quit_run"
    by (simp add: quit_match_def)
  have s: "m_state quit_match \<noteq> MatchOver" by code_simp
  have i: "m_gameIndex quit_match = 1" by code_simp
  from scores_add_up[OF quit_dealer_ok t new_match_of_eq[OF quit_dealer_ok] m s] i show ?thesis by simp
qed

subsubsection \<open>The card switch\<close>

text \<open>The return of the card switch is exact. While a switch is pending, a return is
  accepted exactly when it comes from the winner, is a card of rank 3 to 10, is not the card just
  received and is in the winner's hand. Then that card moves to the loser, no card appears or is
  lost, and the next game starts; any other attempt leaves the match unchanged.\<close>

theorem switchGive_correct:
  assumes "match_inv m" "m_state m = AwaitingSwitch" "m_pendingHands m = Some hands"
    and "m_pendingWinner m = Some w" "m_pendingLoser m = Some l"
  shows "\<exists>res m'. match_switchGive seat c m = (Inr res, m') \<and>
    (mr_ok res \<longleftrightarrow> seat = w \<and> isReturnEligible c \<and> Some (cardId c) \<noteq> m_pendingReceivedId m \<and>
       c \<in> set (hands ! w)) \<and>
    (if mr_ok res
     then m_state m' = PlayingGame \<and>
       (\<exists>g. m_game m' = Some g \<and> mset (concat (g_hands g)) = mset (concat hands) \<and>
          c \<in> set (g_hands g ! l) \<and> c \<notin> set (g_hands g ! w))
     else m' = m)"
proof -
  obtain p4: "scored_inv m" and p5: "length hands = m_numPlayers m"
    and p6: "\<forall>h\<in>set hands. h \<noteq> []" and p7: "distinct (concat hands)" and p8: "2 \<le> length (hands ! w)"
    and p9: "w < m_numPlayers m" and p10: "l < m_numPlayers m" and p11: "w \<noteq> l"
    by (rule match_inv_awaiting[OF assms(1,2)]) (use assms(3-5) in auto)
  have fi: "find_index (\<lambda>x. cardId x = cardId c) (hands ! w) = None \<longleftrightarrow> c \<notin> set (hands ! w)"
    by (auto simp: find_index_None)
  show ?thesis
  proof (cases "seat = w \<and> isReturnEligible c \<and> Some (cardId c) \<noteq> m_pendingReceivedId m \<and> c \<in> set (hands ! w)")
    case False
    then have "\<exists>res. match_switchGive seat c m = (Inr res, m) \<and> \<not> mr_ok res"
      using assms(2-5) fi by (auto simp: match_switchGive_def match_fail_def split: option.split)
    with False show ?thesis by auto
  next
    case True
    with fi obtain idx where idx: "find_index (\<lambda>x. cardId x = cardId c) (hands ! w) = Some idx" by blast
    then have lt: "idx < length (hands ! w)" "hands ! w ! idx = c" using find_index_Some[OF idx] by auto
    let ?h = "give_back hands w l idx"
    let ?m1 = "m\<lparr>m_pendingHands := Some ?h\<rparr>"
    have wl: "w < length hands" "l < length hands" using p5 p9 p10 by simp_all
    note f = give_back_facts[OF wl p11 lt(1) p6 p8]
    have "scored_inv ?m1" using p4 by (simp add: scored_inv_def)
    then obtain e m' where b: "beginPendingGame l ?m1 = (Inr e, m')" "m_state m' = PlayingGame"
      "map_option g_hands (m_game m') = Some ?h"
      by (rule begin_scored[of _ ?h l]) (use f p5 p10 in auto)
    have sw: "match_switchGive seat c m =
        (Inr (match_ok [] [CardSwitchReturn w l (Some (hands ! w ! idx)), e]), m')"
      using True assms(2-5) idx b(1)
      by (simp add: match_switchGive_def Let_def bind_act_def return_act_def)
    have hl: "?h ! l = hands ! l @ [c]" using wl p11 lt(2) by (simp add: give_back_def Let_def)
    have "distinct (concat ?h)" using f(3) p7 by (metis mset_eq_imp_distinct_iff)
    from distinct_concat_nth[OF this, of w l] wl f(1) p11 hl have "c \<notin> set (?h ! w)" by auto
    with sw b(2,3) f(3) hl True show ?thesis by (auto simp: match_ok_def)
  qed
qed

lemma quit_match_facts:
  "m_state quit_match = AwaitingSwitch" "m_pendingWinner quit_match = Some 0"
  "m_pendingLoser quit_match = Some 2" "m_goneSeats quit_match = [0]"
  "m_pendingHands quit_match = Some [[Standard R3 Spades, Standard R3 Hearts, Standard R5 Spades],
     [Standard R4 Spades, Standard R4 Clubs], [Standard R5 Hearts]]"
  by code_simp+

lemma quit_match_inv: "match_inv quit_match"
proof -
  have "teams_ok OneVOneVOne (case None of None \<Rightarrow> DEFAULT_TEAMS | Some t \<Rightarrow> t)" by (simp add: teams_ok_def)
  from run_match_good[OF quit_dealer_ok this new_match_of_eq[OF quit_dealer_ok], of None quit_run]
  show ?thesis by (simp add: match_good_def quit_match_def)
qed

theorem switchGive_correct_witness:
  "\<exists>res m'. match_switchGive 1 (Standard R4 Spades) quit_match = (Inr res, m') \<and> \<not> mr_ok res"
  using switchGive_correct[OF quit_match_inv quit_match_facts(1,5,2,3), of 1 "Standard R4 Spades"]
  by auto

text \<open>The automatic give takes the strongest card. When the switch runs, the card that goes
  from the loser to the winner is one the loser really holds and no card of the loser beats it in
  the POWER order; the winner's hand is the old hand with that card at the end, and the cards of
  all seats together stay the same.\<close>

theorem auto_give_strongest:
  assumes "w < length hands" "l < length hands" "w \<noteq> l" "\<forall>h\<in>set hands. 2 \<le> length h"
  shows "\<exists>i. strongestIndexByPower (hands ! l) = Inr i \<and> i < length (hands ! l) \<and>
    (\<forall>c\<in>set (hands ! l). singlePower c \<le> singlePower (hands ! l ! i)) \<and>
    auto_give hands w l i ! w = hands ! w @ [hands ! l ! i] \<and>
    mset (concat (auto_give hands w l i)) = mset (concat hands)"
proof -
  have "hands ! l \<noteq> []" using assms(2,4) nth_mem[OF assms(2)] by fastforce
  then obtain i where i: "strongestIndexByPower (hands ! l) = Inr i" "i < length (hands ! l)"
    "\<forall>c\<in>set (hands ! l). singlePower c \<le> singlePower (hands ! l ! i)"
    by (rule strongestIndexByPower_spec)
  with auto_give_facts(3,4)[OF assms(1-3) i(2) assms(4)] show ?thesis by blast
qed

theorem auto_give_strongest_witness:
  "\<exists>i. strongestIndexByPower [Standard R5 Spades, Joker Black] = Inr i \<and> i < 2"
  using auto_give_strongest[of 0 "[[Standard R3 Spades, Standard R3 Hearts], [Standard R5 Spades, Joker Black]]" 1]
  by auto

subsubsection \<open>A winner who left still owes the return\<close>

definition needs_present :: "match_st \<Rightarrow> match_op \<Rightarrow> bool" where
  "needs_present m op =
     (case op of MSwitch seat _ \<Rightarrow> seat \<notin> set (m_goneSeats m)
      | MForfeit seat \<Rightarrow> seat \<in> set (m_goneSeats m)
      | _ \<Rightarrow> True)"

text \<open>A match can wait for a player who has left. There is a three-player match in which the
  player who finished first leaves before the game ends; the match then waits for that player's
  return card, and every play, every pass, every switch by a player still present and every
  repeated departure of the absent player leaves the match exactly as it is.\<close>

theorem gone_winner_blocks_match:
  "\<exists>ops. let m = foldl (match_step quit_dealer) (new_match_of quit_dealer OneVOneVOne None) ops in
     m_state m = AwaitingSwitch \<and> m_pendingWinner m = Some 0 \<and> 0 \<in> set (m_goneSeats m) \<and>
     list_all (\<lambda>op. match_step quit_dealer m op = m) (filter (needs_present m) opers)"
proof -
  have "match_step quit_dealer quit_match op = quit_match" if "needs_present quit_match op" for op
    using that quit_match_facts
    by (cases op) (auto simp: needs_present_def match_step_def match_play_def match_pass_def
        match_switchGive_def match_forfeit_def)
  then have "list_all (\<lambda>op. match_step quit_dealer quit_match op = quit_match)
      (filter (needs_present quit_match) opers)" by (auto simp: list_all_iff)
  with quit_match_facts show ?thesis
    unfolding Let_def by (intro exI[of _ quit_run]) (simp flip: quit_match_def)
qed

text \<open>The side of a player who left can win on the points collected before, with no seat to pay.\<close>

lemma absent_winner_has_no_seats:
  "m_matchWinner (foldl (match_step quit_dealer) (new_match_of quit_dealer OneVOneVOne (Some 2)) quit_run)
     = Some (0, [])"
  by code_simp

end
