(* ===== verification/Rooms.thy ===== *)
theory Rooms
  imports Match_Play
begin

text \<open>
  Rooms and the lobby (\<^verbatim>\<open>packages/server/src/room/roomManager.ts\<close>, class \<^verbatim>\<open>RoomManager\<close>):
  creation, private rooms and their share codes, joining, seating with the teams of two against
  two, the ready check, the start of a match, the forwarding of play, pass, switch and departure to
  the match of the room, rematches, and the public views.

  Seats that are mutated through a reference are replaced in the list of seats of the room, and a
  room in the map of rooms. The match object of a room is the pair of its dealer and its state.
  Messages for people are left out, an error is its code. The random bytes of share codes are an
  argument: \<open>rnd k i\<close> is byte \<open>i\<close> of draw \<open>k\<close>.
\<close>

subsection \<open>Data\<close>

record acting_user =
  ac_userId :: user_id
  ac_username :: string
  ac_avatar :: "string option"

record internal_seat =
  se_userId :: "user_id option"
  se_username :: "string option"
  se_avatar :: "string option"
  se_team :: "nat option"
  se_ready :: bool
  se_connected :: bool
  se_gone :: bool

datatype room_status = RoomWaiting | RoomReady | RoomInMatch | RoomFinished

record tournament_meta =
  tm_tournamentId :: string
  tm_round :: nat
  tm_index :: nat
  tm_players :: "user_id list"

record club_war_meta =
  cw_warId :: string
  cw_aUserId :: user_id
  cw_bUserId :: user_id
  cw_players :: "user_id list"

record room =
  rm_id :: string
  rm_type :: match_type
  rm_stakeCents :: cents
  rm_status :: room_status
  rm_seats :: "internal_seat list"
  rm_target :: int
  rm_match :: "(dealer \<times> match_st) option"
  rm_matchId :: "string option"
  rm_matchSeq :: nat
  rm_createdAt :: int
  rm_ranked :: bool
  rm_practice :: bool
  rm_private :: bool
  rm_joinCode :: "string option"
  rm_invited :: "user_id list"
  rm_tournament :: "tournament_meta option"
  rm_clubWar :: "club_war_meta option"

record room_manager =
  rs_rooms :: "(string \<times> room) list"
  rs_userRoom :: "(user_id \<times> string) list"
  rs_startTarget :: int
  rs_seq :: nat
  rs_instanceTag :: string

datatype room_error = RoomCode string | MatchThrew match_error

definition emptySeat :: internal_seat where
  "emptySeat = \<lparr>se_userId = None, se_username = None, se_avatar = None, se_team = None, se_ready = False,
     se_connected = False, se_gone = False\<rparr>"

definition get_room :: "string \<Rightarrow> room_manager \<Rightarrow> room option" where
  "get_room i s = map_of (rs_rooms s) i"

definition put_room :: "room \<Rightarrow> room_manager \<Rightarrow> room_manager" where
  "put_room r s = s\<lparr>rs_rooms := AList.update (rm_id r) r (rs_rooms s)\<rparr>"

definition del_room :: "string \<Rightarrow> room_manager \<Rightarrow> room_manager" where
  "del_room i s = s\<lparr>rs_rooms := AList.delete i (rs_rooms s)\<rparr>"

definition roomIdOf :: "user_id \<Rightarrow> room_manager \<Rightarrow> string option" where
  "roomIdOf u s = map_of (rs_userRoom s) u"

definition set_user_room :: "user_id \<Rightarrow> string \<Rightarrow> room_manager \<Rightarrow> room_manager" where
  "set_user_room u i s = s\<lparr>rs_userRoom := AList.update u i (rs_userRoom s)\<rparr>"

definition del_user_room :: "user_id \<Rightarrow> room_manager \<Rightarrow> room_manager" where
  "del_user_room u s = s\<lparr>rs_userRoom := AList.delete u (rs_userRoom s)\<rparr>"

definition roomOf :: "user_id \<Rightarrow> room_manager \<Rightarrow> room option" where
  "roomOf u s = (case roomIdOf u s of None \<Rightarrow> None | Some i \<Rightarrow> get_room i s)"

definition team_seats :: "nat \<Rightarrow> seat list" where
  "team_seats team = (if team = 0 then fst DEFAULT_TEAMS else snd DEFAULT_TEAMS)"

definition seat_index :: "user_id \<Rightarrow> room \<Rightarrow> nat option" where
  "seat_index u r = find_index (\<lambda>x. se_userId x = Some u) (rm_seats r)"

definition seatOf :: "string \<Rightarrow> user_id \<Rightarrow> room_manager \<Rightarrow> int" where
  "seatOf i u s =
     (case get_room i s of
        None \<Rightarrow> -1
      | Some r \<Rightarrow> (case seat_index u r of None \<Rightarrow> -1 | Some k \<Rightarrow> int k))"

subsection \<open>Share codes\<close>

definition genJoinCode :: "(nat \<Rightarrow> nat) \<Rightarrow> nat \<Rightarrow> string" where
  "genJoinCode bytes len = map (\<lambda>i. digit_char (bytes i mod 10)) [0..<len]"

definition CODE_LEN :: nat where
  "CODE_LEN = 6"

definition codeInUse :: "string \<Rightarrow> room_manager \<Rightarrow> bool" where
  "codeInUse code s = list_ex (\<lambda>p. rm_private (snd p) \<and> rm_joinCode (snd p) = Some code) (rs_rooms s)"

text \<open>The number of rooms whose code has at least a given length bounds the widening loop.\<close>

definition codes_from :: "nat \<Rightarrow> room_manager \<Rightarrow> nat" where
  "codes_from len s = length (filter (\<lambda>p. case rm_joinCode (snd p) of None \<Rightarrow> False | Some c \<Rightarrow> len \<le> length c) (rs_rooms s))"

lemma length_genJoinCode [simp]: "length (genJoinCode bytes len) = len"
  by (simp add: genJoinCode_def)

lemma length_filter_less:
  "\<lbrakk>\<And>x. P x \<Longrightarrow> Q x; x \<in> set xs; Q x; \<not> P x\<rbrakk> \<Longrightarrow> length (filter P xs) < length (filter Q xs)"
proof (induction xs)
  case (Cons y ys)
  have le: "length (filter P zs) \<le> length (filter Q zs)" for zs
    using Cons.prems(1) by (induction zs) auto
  show ?case
  proof (cases "x = y")
    case True
    then show ?thesis using Cons.prems(3,4) le[of ys] by simp
  next
    case False
    then have "length (filter P ys) < length (filter Q ys)" using Cons by simp
    then show ?thesis using Cons.prems(1)[of y] by auto
  qed
qed simp

lemma codes_from_less: "codeInUse c s \<Longrightarrow> codes_from (Suc (length c)) s < codes_from (length c) s"
proof -
  assume "codeInUse c s"
  then obtain p where p: "p \<in> set (rs_rooms s)" "rm_joinCode (snd p) = Some c" by (auto simp: codeInUse_def list_ex_iff)
  show ?thesis unfolding codes_from_def
    by (rule length_filter_less[OF _ p(1)]) (use p(2) in \<open>auto split: option.splits\<close>)
qed

function widenCode :: "(nat \<Rightarrow> nat \<Rightarrow> nat) \<Rightarrow> nat \<Rightarrow> nat \<Rightarrow> room_manager \<Rightarrow> string" where
  "widenCode rnd k len s =
     (let code = genJoinCode (rnd k) len in
      if \<not> codeInUse code s then code else widenCode rnd (k + 1) (len + 1) s)"
  by pat_completeness auto
termination
  by (relation "measure (\<lambda>(rnd, k, len, s). codes_from len s)") (auto dest: codes_from_less)

declare widenCode.simps [simp del]

definition genUniqueJoinCode :: "(nat \<Rightarrow> nat \<Rightarrow> nat) \<Rightarrow> room_manager \<Rightarrow> string" where
  "genUniqueJoinCode rnd s =
     (case List.find (\<lambda>code. \<not> codeInUse code s) (map (\<lambda>k. genJoinCode (rnd k) CODE_LEN) [0..<50]) of
        Some code \<Rightarrow> code
      | None \<Rightarrow> widenCode rnd 50 (CODE_LEN + 1) s)"

definition upper_char :: "char \<Rightarrow> char" where
  "upper_char c = (let n = of_char c :: nat in if 97 \<le> n \<and> n \<le> 122 then char_of (n - 32) else c)"

definition roomIdForCode :: "string \<Rightarrow> room_manager \<Rightarrow> string option" where
  "roomIdForCode code s =
     (let c = map upper_char (js_trim code) in
      if c = [] then None
      else map_option (rm_id \<circ> snd) (List.find (\<lambda>p. rm_private (snd p) \<and> rm_joinCode (snd p) = Some c) (rs_rooms s)))"

subsection \<open>Seating\<close>

definition room_full :: "room \<Rightarrow> bool" where
  "room_full r = list_all (\<lambda>x. se_userId x \<noteq> None) (rm_seats r)"

definition isFull :: "string \<Rightarrow> room_manager \<Rightarrow> bool" where
  "isFull i s = (case get_room i s of None \<Rightarrow> False | Some r \<Rightarrow> room_full r)"

definition allReady :: "string \<Rightarrow> room_manager \<Rightarrow> bool" where
  "allReady i s =
     (case get_room i s of None \<Rightarrow> False | Some r \<Rightarrow> list_all (\<lambda>x. se_userId x \<noteq> None \<and> se_ready x) (rm_seats r))"

definition open_seat :: "room \<Rightarrow> nat \<Rightarrow> bool" where
  "open_seat r k = (se_userId (rm_seats r ! k) = None)"

definition pickSeat :: "room \<Rightarrow> nat option \<Rightarrow> nat option" where
  "pickSeat r team =
     (case team of
        Some t \<Rightarrow> if rm_type r = TwoVTwo then List.find (open_seat r) (team_seats t)
                  else List.find (open_seat r) [0..<length (rm_seats r)]
      | None \<Rightarrow> List.find (open_seat r) [0..<length (rm_seats r)])"

definition occupied_seat :: "room \<Rightarrow> acting_user \<Rightarrow> nat \<Rightarrow> internal_seat" where
  "occupied_seat r user k =
     \<lparr>se_userId = Some (ac_userId user), se_username = Some (ac_username user), se_avatar = ac_avatar user,
      se_team = (if rm_type r = TwoVTwo then Some (if k \<in> set (team_seats 0) then 0 else 1) else None),
      se_ready = False, se_connected = True, se_gone = False\<rparr>"

definition take_seat :: "room \<Rightarrow> acting_user \<Rightarrow> nat \<Rightarrow> room" where
  "take_seat r user k =
     (let r1 = r\<lparr>rm_seats := (rm_seats r)[k := occupied_seat r user k]\<rparr>
      in if room_full r1 then r1\<lparr>rm_status := RoomReady\<rparr> else r1)"

text \<open>\<^verbatim>\<open>seat\<close>: whether the user was seated.\<close>

definition seat_user :: "room \<Rightarrow> acting_user \<Rightarrow> nat option \<Rightarrow> room_manager \<Rightarrow> bool \<times> room_manager" where
  "seat_user r user team s =
     (case pickSeat r team of
        None \<Rightarrow> (False, s)
      | Some k \<Rightarrow> (True, set_user_room (ac_userId user) (rm_id r) (put_room (take_seat r user k) s)))"

subsection \<open>Life cycle\<close>

definition new_room_id :: "nat \<Rightarrow> string" where
  "new_room_id n = ''room_'' @ nat_str n"

definition blank_room :: "string \<Rightarrow> match_type \<Rightarrow> cents \<Rightarrow> int \<Rightarrow> int \<Rightarrow> room" where
  "blank_room i ty stake target now =
     \<lparr>rm_id = i, rm_type = ty, rm_stakeCents = stake, rm_status = RoomWaiting,
      rm_seats = replicate (playersForType ty) emptySeat, rm_target = target, rm_match = None, rm_matchId = None,
      rm_matchSeq = 0, rm_createdAt = now, rm_ranked = False, rm_practice = False, rm_private = False,
      rm_joinCode = None, rm_invited = [], rm_tournament = None, rm_clubWar = None\<rparr>"

record create_payload =
  cp_type :: "match_type option"
  cp_stakeCents :: cents
  cp_team :: "nat option"
  cp_ranked :: bool
  cp_practice :: bool
  cp_private :: bool

definition opened_room ::
  "(nat \<Rightarrow> nat \<Rightarrow> nat) \<Rightarrow> string \<Rightarrow> match_type \<Rightarrow> create_payload \<Rightarrow> int \<Rightarrow> room_manager \<Rightarrow> room" where
  "opened_room rnd i ty p now s =
     (blank_room i ty (cp_stakeCents p) (rs_startTarget s) now)
       \<lparr>rm_ranked := cp_ranked p, rm_practice := cp_practice p, rm_private := cp_private p,
        rm_joinCode := (if cp_private p then Some (genUniqueJoinCode rnd s) else None)\<rparr>"

text \<open>An unknown match type is \<open>None\<close>. The result is the room and its share code.\<close>

definition createRoom ::
  "(nat \<Rightarrow> nat \<Rightarrow> nat) \<Rightarrow> acting_user \<Rightarrow> create_payload \<Rightarrow> int \<Rightarrow> room_manager \<Rightarrow>
     (string + string \<times> string option) \<times> room_manager" where
  "createRoom rnd user p now s =
     (if roomIdOf (ac_userId user) s \<noteq> None then (Inl ''already_in_room'', s)
      else if cp_stakeCents p < 0 then (Inl ''bad_stake'', s)
      else case cp_type p of
        None \<Rightarrow> (Inl ''bad_type'', s)
      | Some ty \<Rightarrow>
          let s0 = s\<lparr>rs_seq := rs_seq s + 1\<rparr>; i = new_room_id (rs_seq s0);
              r = opened_room rnd i ty p now s0
          in case seat_user r user (cp_team p) (put_room r s0) of
               (True, s1) \<Rightarrow> (Inr (i, rm_joinCode r), s1)
             | (False, s1) \<Rightarrow> (Inl ''seat_failed'', del_room i s1))"

definition createTournamentRoom ::
  "match_type \<Rightarrow> tournament_meta \<Rightarrow> int \<Rightarrow> room_manager \<Rightarrow> string \<times> room_manager" where
  "createTournamentRoom ty meta now s =
     (let s0 = s\<lparr>rs_seq := rs_seq s + 1\<rparr>; i = new_room_id (rs_seq s0);
          r = (blank_room i ty 0 (rs_startTarget s) now)\<lparr>rm_private := True, rm_tournament := Some meta\<rparr>
      in (i, put_room r s0))"

definition createClubWarRoom :: "club_war_meta \<Rightarrow> int \<Rightarrow> room_manager \<Rightarrow> string \<times> room_manager" where
  "createClubWarRoom meta now s =
     (let s0 = s\<lparr>rs_seq := rs_seq s + 1\<rparr>; i = new_room_id (rs_seq s0);
          r = (blank_room i OneVOne 0 (rs_startTarget s) now)\<lparr>rm_private := True, rm_clubWar := Some meta\<rparr>
      in (i, put_room r s0))"

definition tournamentMetaOf :: "string \<Rightarrow> room_manager \<Rightarrow> tournament_meta option" where
  "tournamentMetaOf i s = (case get_room i s of None \<Rightarrow> None | Some r \<Rightarrow> rm_tournament r)"

definition clubWarMetaOf :: "string \<Rightarrow> room_manager \<Rightarrow> club_war_meta option" where
  "clubWarMetaOf i s = (case get_room i s of None \<Rightarrow> None | Some r \<Rightarrow> rm_clubWar r)"

definition markInvited :: "string \<Rightarrow> user_id \<Rightarrow> room_manager \<Rightarrow> room_manager" where
  "markInvited i u s =
     (case get_room i s of None \<Rightarrow> s | Some r \<Rightarrow> put_room (r\<lparr>rm_invited := set_add u (rm_invited r)\<rparr>) s)"

definition join_refusal :: "room \<Rightarrow> user_id \<Rightarrow> string option" where
  "join_refusal r u =
     (if (case rm_tournament r of None \<Rightarrow> False | Some t \<Rightarrow> u \<notin> set (tm_players t)) then Some ''not_your_match''
      else if (case rm_clubWar r of None \<Rightarrow> False | Some c \<Rightarrow> u \<notin> set (cw_players c)) then Some ''not_your_match''
      else if rm_private r \<and> rm_tournament r = None \<and> rm_clubWar r = None \<and> u \<notin> set (rm_invited r)
      then Some ''not_invited''
      else if rm_status r \<noteq> RoomWaiting then Some ''room_unavailable''
      else None)"

definition joinRoom :: "acting_user \<Rightarrow> string \<Rightarrow> nat option \<Rightarrow> room_manager \<Rightarrow> (string + unit) \<times> room_manager" where
  "joinRoom user i team s =
     (if roomIdOf (ac_userId user) s \<noteq> None then (Inl ''already_in_room'', s)
      else case get_room i s of
        None \<Rightarrow> (Inl ''no_room'', s)
      | Some r \<Rightarrow>
          (case join_refusal r (ac_userId user) of
             Some code \<Rightarrow> (Inl code, s)
           | None \<Rightarrow>
               (case seat_user r user team s of
                  (True, s') \<Rightarrow> (Inr (), s') | (False, s') \<Rightarrow> (Inl ''room_full'', s'))))"

record leave_result =
  lr_ok :: bool
  lr_roomId :: "string option"
  lr_roomClosed :: "bool option"

definition vacate :: "nat option \<Rightarrow> room \<Rightarrow> room" where
  "vacate k r = (case k of None \<Rightarrow> r | Some k \<Rightarrow> r\<lparr>rm_seats := (rm_seats r)[k := emptySeat]\<rparr>)"

definition leaveRoom :: "user_id \<Rightarrow> room_manager \<Rightarrow> leave_result \<times> room_manager" where
  "leaveRoom u s =
     (case roomIdOf u s of
        None \<Rightarrow> (\<lparr>lr_ok = False, lr_roomId = None, lr_roomClosed = None\<rparr>, s)
      | Some i \<Rightarrow>
          (case get_room i s of
             None \<Rightarrow> (\<lparr>lr_ok = False, lr_roomId = None, lr_roomClosed = None\<rparr>, del_user_room u s)
           | Some r \<Rightarrow>
               let r1 = vacate (seat_index u r) r; s1 = del_user_room u (put_room r1 s)
               in if \<not> list_ex (\<lambda>x. se_userId x \<noteq> None) (rm_seats r1)
                  then (\<lparr>lr_ok = True, lr_roomId = Some i, lr_roomClosed = Some True\<rparr>, del_room i s1)
                  else (\<lparr>lr_ok = True, lr_roomId = Some i, lr_roomClosed = Some False\<rparr>,
                        if rm_status r1 = RoomReady then put_room (r1\<lparr>rm_status := RoomWaiting\<rparr>) s1 else s1)))"

definition setReady :: "user_id \<Rightarrow> bool \<Rightarrow> room_manager \<Rightarrow> (string + unit) \<times> room_manager" where
  "setReady u ready s =
     (case roomOf u s of
        None \<Rightarrow> (Inl ''no_room'', s)
      | Some r \<Rightarrow>
          (case seat_index u r of
             None \<Rightarrow> (Inl ''no_seat'', s)
           | Some k \<Rightarrow>
               if rm_status r = RoomInMatch then (Inl ''in_match'', s)
               else (Inr (), put_room (r\<lparr>rm_seats := (rm_seats r)[k := (rm_seats r ! k)\<lparr>se_ready := ready\<rparr>]\<rparr>) s)))"

text \<open>A move to a free seat and the exchange of two players; teams stay with the seats.\<close>

definition move_player :: "internal_seat list \<Rightarrow> nat \<Rightarrow> nat \<Rightarrow> nat \<Rightarrow> internal_seat list" where
  "move_player seats k free team =
     seats[free := (seats ! k)\<lparr>se_team := Some team, se_ready := False, se_gone := False\<rparr>, k := emptySeat]"

definition swap_players :: "internal_seat list \<Rightarrow> nat \<Rightarrow> nat \<Rightarrow> internal_seat list" where
  "swap_players seats k j =
     seats[k := (seats ! j)\<lparr>se_team := se_team (seats ! k), se_ready := False, se_gone := False\<rparr>,
           j := (seats ! k)\<lparr>se_team := se_team (seats ! j), se_ready := False, se_gone := False\<rparr>]"

definition reopen :: "room \<Rightarrow> room" where
  "reopen r = r\<lparr>rm_status := if room_full r then RoomReady else RoomWaiting\<rparr>"

definition switchTeam :: "user_id \<Rightarrow> nat \<Rightarrow> room_manager \<Rightarrow> (string + unit) \<times> room_manager" where
  "switchTeam u team s =
     (case roomOf u s of
        None \<Rightarrow> (Inl ''no_room'', s)
      | Some r \<Rightarrow>
          if rm_type r \<noteq> TwoVTwo then (Inl ''not_2v2'', s)
          else if rm_status r = RoomInMatch \<or> rm_match r \<noteq> None then (Inl ''in_match'', s)
          else case seat_index u r of
            None \<Rightarrow> (Inl ''no_seat'', s)
          | Some k \<Rightarrow>
              if se_team (rm_seats r ! k) = Some team then (Inr (), s)
              else case List.find (open_seat r) (team_seats team) of
                Some free \<Rightarrow> (Inr (), put_room (reopen (r\<lparr>rm_seats := move_player (rm_seats r) k free team\<rparr>)) s)
              | None \<Rightarrow>
                  (case List.find (\<lambda>j. se_userId (rm_seats r ! j) \<noteq> None \<and> se_userId (rm_seats r ! j) \<noteq> Some u) (team_seats team) of
                     None \<Rightarrow> (Inl ''team_full'', s)
                   | Some j \<Rightarrow> (Inr (), put_room (reopen (r\<lparr>rm_seats := swap_players (rm_seats r) k j\<rparr>)) s)))"

subsection \<open>The match of a room\<close>

text \<open>\<open>factory\<close> is the dealer factory of the constructor; a dealer given by the caller takes precedence.\<close>

definition room_match :: "dealer \<Rightarrow> room \<Rightarrow> match_error + match_st" where
  "room_match dl r =
     newMatch dl (rm_type r) (Some (rm_target r)) None (if rm_type r = TwoVTwo then Some DEFAULT_TEAMS else None)"

definition startMatch ::
  "(nat \<Rightarrow> dealer) \<Rightarrow> string \<Rightarrow> dealer option \<Rightarrow> room_manager \<Rightarrow> (room_error + unit) \<times> room_manager" where
  "startMatch factory i dealer s =
     (case get_room i s of
        None \<Rightarrow> (Inl (RoomCode ''no_room''), s)
      | Some r \<Rightarrow>
          if rm_status r = RoomInMatch then (Inl (RoomCode ''in_match''), s)
          else if \<not> isFull i s then (Inl (RoomCode ''not_full''), s)
          else let dl = (case dealer of None \<Rightarrow> factory (playersForType (rm_type r)) | Some d \<Rightarrow> d) in
            case room_match dl r of
              Inl e \<Rightarrow> (Inl (MatchThrew e), s)
            | Inr m \<Rightarrow> (Inr (), put_room (r\<lparr>rm_match := Some (dl, m), rm_status := RoomInMatch, rm_target := m_target m\<rparr>) s))"

text \<open>The result of a forwarded action is the result of the match and the room.\<close>

type_synonym room_action_result = "match_error + (match_result \<times> string option)"

definition live_match :: "user_id \<Rightarrow> room_manager \<Rightarrow> (room \<times> dealer \<times> match_st) option" where
  "live_match u s =
     (case roomOf u s of
        None \<Rightarrow> None
      | Some r \<Rightarrow> (case rm_match r of
                     None \<Rightarrow> None | Some (dl, m) \<Rightarrow> if rm_status r = RoomInMatch then Some (r, dl, m) else None))"

definition reflect_match :: "dealer \<Rightarrow> match_st \<Rightarrow> room \<Rightarrow> room" where
  "reflect_match dl m r =
     r\<lparr>rm_match := Some (dl, m), rm_target := m_target m,
       rm_status := (if m_state m = MatchOver then RoomFinished else rm_status r)\<rparr>"

definition forward ::
  "user_id \<Rightarrow> (dealer \<Rightarrow> seat \<Rightarrow> (match_st, match_error, match_result) action) \<Rightarrow> room_manager \<Rightarrow>
     room_action_result \<times> room_manager" where
  "forward u act s =
     (case live_match u s of
        None \<Rightarrow> (Inr (match_fail (Some ''not_in_match''), None), s)
      | Some (r, dl, m) \<Rightarrow>
          (case seat_index u r of
             None \<Rightarrow> (Inr (match_fail (Some ''no_seat''), None), s)
           | Some k \<Rightarrow>
               (case act dl k m of
                  (Inl e, m') \<Rightarrow> (Inl e, put_room (r\<lparr>rm_match := Some (dl, m')\<rparr>) s)
                | (Inr res, m') \<Rightarrow> (Inr (res, Some (rm_id r)), put_room (reflect_match dl m' r) s))))"

definition room_play :: "user_id \<Rightarrow> card list \<Rightarrow> room_manager \<Rightarrow> room_action_result \<times> room_manager" where
  "room_play u cards = forward u (\<lambda>dl k. match_play dl k cards)"

definition room_pass :: "user_id \<Rightarrow> room_manager \<Rightarrow> room_action_result \<times> room_manager" where
  "room_pass u = forward u (\<lambda>dl k. match_pass dl k)"

definition room_switchGive :: "user_id \<Rightarrow> card \<Rightarrow> room_manager \<Rightarrow> room_action_result \<times> room_manager" where
  "room_switchGive u crd = forward u (\<lambda>dl k. match_switchGive k crd)"

definition mark_gone :: "nat \<Rightarrow> room \<Rightarrow> room" where
  "mark_gone k r =
     r\<lparr>rm_seats := (rm_seats r)[k := (rm_seats r ! k)\<lparr>se_gone := True, se_connected := False, se_ready := False\<rparr>]\<rparr>"

definition room_forfeitSeat :: "user_id \<Rightarrow> room_manager \<Rightarrow> room_action_result \<times> room_manager" where
  "room_forfeitSeat u s =
     (case live_match u s of
        None \<Rightarrow> (Inr (match_fail (Some ''not_in_match''), None), s)
      | Some (r, dl, m) \<Rightarrow>
          (case seat_index u r of
             None \<Rightarrow> (Inr (match_fail (Some ''no_seat''), None), s)
           | Some k \<Rightarrow>
               (case match_forfeit dl k m of
                  (Inl e, m') \<Rightarrow> (Inl e, put_room (r\<lparr>rm_match := Some (dl, m')\<rparr>) s)
                | (Inr res, m') \<Rightarrow>
                    let r1 = reflect_match dl m' (if mr_ok res then mark_gone k r else r);
                        s1 = (if mr_ok res then del_user_room u s else s)
                    in (Inr (res, Some (rm_id r)), put_room r1 s1))))"

subsection \<open>After a match\<close>

definition resetForRematch :: "string \<Rightarrow> room_manager \<Rightarrow> bool \<times> room_manager" where
  "resetForRematch i s =
     (case get_room i s of
        None \<Rightarrow> (False, s)
      | Some r \<Rightarrow>
          if rm_status r \<noteq> RoomFinished \<or> rm_tournament r \<noteq> None then (False, s)
          else (True, put_room (r\<lparr>rm_match := None, rm_target := rs_startTarget s, rm_status := RoomWaiting,
                                  rm_seats := map (\<lambda>x. x\<lparr>se_ready := False\<rparr>) (rm_seats r)\<rparr>) s))"

definition clearGoneSeats :: "string \<Rightarrow> room_manager \<Rightarrow> room_manager" where
  "clearGoneSeats i s =
     (case get_room i s of
        None \<Rightarrow> s
      | Some r \<Rightarrow> put_room (r\<lparr>rm_seats := map (\<lambda>x. if se_gone x then emptySeat else x) (rm_seats r)\<rparr>) s)"

definition setConnected :: "user_id \<Rightarrow> bool \<Rightarrow> room_manager \<Rightarrow> room_manager" where
  "setConnected u isOn s =
     (case roomOf u s of
        None \<Rightarrow> s
      | Some r \<Rightarrow>
          (case seat_index u r of
             None \<Rightarrow> s
           | Some k \<Rightarrow> put_room (r\<lparr>rm_seats := (rm_seats r)[k := (rm_seats r ! k)\<lparr>se_connected := isOn\<rparr>]\<rparr>) s))"

definition match_id_for :: "string \<Rightarrow> nat \<Rightarrow> string \<Rightarrow> string" where
  "match_id_for i n tag = i @ ''-m'' @ nat_str n @ ''-'' @ tag"

definition assignMatchId :: "string \<Rightarrow> room_manager \<Rightarrow> string option \<times> room_manager" where
  "assignMatchId i s =
     (case get_room i s of
        None \<Rightarrow> (None, s)
      | Some r \<Rightarrow>
          let mid = match_id_for i (rm_matchSeq r + 1) (rs_instanceTag s)
          in (Some mid, put_room (r\<lparr>rm_matchSeq := rm_matchSeq r + 1, rm_matchId := Some mid\<rparr>) s))"

definition matchIdOf :: "string \<Rightarrow> room_manager \<Rightarrow> string option" where
  "matchIdOf i s = (case get_room i s of None \<Rightarrow> None | Some r \<Rightarrow> rm_matchId r)"

definition activeMatchIds :: "room_manager \<Rightarrow> string list" where
  "activeMatchIds s =
     foldl (\<lambda>ids p. case rm_matchId (snd p) of
                      Some mid \<Rightarrow> if rm_status (snd p) = RoomInMatch then set_add mid ids else ids
                    | None \<Rightarrow> ids) [] (rs_rooms s)"

definition seated_users :: "room \<Rightarrow> user_id list" where
  "seated_users r = List.map_filter se_userId (rm_seats r)"

definition deleteRoom :: "string \<Rightarrow> room_manager \<Rightarrow> room_manager" where
  "deleteRoom i s =
     (case get_room i s of
        None \<Rightarrow> s
      | Some r \<Rightarrow> del_room i (foldl (\<lambda>s u. del_user_room u s) s (seated_users r)))"

definition markFinished :: "string \<Rightarrow> room_manager \<Rightarrow> room_manager" where
  "markFinished i s =
     (case get_room i s of
        None \<Rightarrow> s
      | Some r \<Rightarrow>
          put_room (r\<lparr>rm_status := RoomFinished,
                      rm_target := (case rm_match r of None \<Rightarrow> rm_target r | Some (dl, m) \<Rightarrow> m_target m)\<rparr>) s)"

definition markPractice :: "string \<Rightarrow> room_manager \<Rightarrow> room_manager" where
  "markPractice i s =
     (case get_room i s of
        None \<Rightarrow> s
      | Some r \<Rightarrow> if rm_stakeCents r = 0 then put_room (r\<lparr>rm_practice := True\<rparr>) s else s)"

subsection \<open>Views\<close>

record lobby_room =
  lb_id :: string
  lb_type :: match_type
  lb_stakeCents :: cents
  lb_seatsFilled :: nat
  lb_seatsTotal :: nat
  lb_status :: room_status
  lb_createdAt :: int
  lb_teams :: "(nat \<times> nat) option"

record live_room =
  lv_roomId :: string
  lv_type :: match_type
  lv_target :: int
  lv_players :: "(nat \<times> string option) list"

definition listed :: "room \<Rightarrow> bool" where
  "listed r = (\<not> rm_ranked r \<and> \<not> rm_practice r \<and> \<not> rm_private r)"

definition team_filled :: "room \<Rightarrow> nat \<Rightarrow> nat" where
  "team_filled r t =
     length (filter (\<lambda>k. k < length (rm_seats r) \<and> se_userId (rm_seats r ! k) \<noteq> None) (team_seats t))"

definition lobby_entry :: "room \<Rightarrow> lobby_room" where
  "lobby_entry r =
     \<lparr>lb_id = rm_id r, lb_type = rm_type r, lb_stakeCents = rm_stakeCents r,
      lb_seatsFilled = length (filter (\<lambda>x. se_userId x \<noteq> None) (rm_seats r)),
      lb_seatsTotal = length (rm_seats r), lb_status = rm_status r, lb_createdAt = rm_createdAt r,
      lb_teams = (if rm_type r = TwoVTwo then Some (team_filled r 0, team_filled r 1) else None)\<rparr>"

definition live_entry :: "room \<Rightarrow> live_room" where
  "live_entry r =
     \<lparr>lv_roomId = rm_id r, lv_type = rm_type r, lv_target = rm_target r,
      lv_players = map (\<lambda>(k, x). (k, se_username x)) (List.enumerate 0 (rm_seats r))\<rparr>"

definition listLobby :: "room_manager \<Rightarrow> lobby_room list \<times> live_room list" where
  "listLobby s =
     (let all = map snd (rs_rooms s) in
      (map lobby_entry (filter (\<lambda>r. listed r \<and> (rm_status r = RoomWaiting \<or> rm_status r = RoomReady)) all),
       map live_entry (filter (\<lambda>r. listed r \<and> rm_status r = RoomInMatch) all)))"

record active_match =
  am_roomId :: string
  am_matchId :: "string option"
  am_type :: match_type
  am_stakeCents :: cents
  am_target :: int
  am_players :: "(nat \<times> string option \<times> bool) list"

definition active_entry :: "room \<Rightarrow> active_match" where
  "active_entry r =
     \<lparr>am_roomId = rm_id r, am_matchId = rm_matchId r, am_type = rm_type r, am_stakeCents = rm_stakeCents r,
      am_target = rm_target r,
      am_players = map (\<lambda>(k, x). (k, se_username x, se_connected x))
        (filter (\<lambda>(k, x). se_userId x \<noteq> None) (List.enumerate 0 (rm_seats r)))\<rparr>"

definition listActiveMatches :: "room_manager \<Rightarrow> active_match list" where
  "listActiveMatches s = map active_entry (filter (\<lambda>r. rm_status r = RoomInMatch) (map snd (rs_rooms s)))"

record room_state_dto =
  rd_id :: string
  rd_type :: match_type
  rd_stakeCents :: cents
  rd_status :: room_status
  rd_seats :: "(nat \<times> internal_seat) list"
  rd_target :: int
  rd_countdownMs :: "int option"
  rd_private :: bool
  rd_joinCode :: "string option"
  rd_tournament :: bool

definition roomStateDTO :: "string \<Rightarrow> room_manager \<Rightarrow> room_state_dto option" where
  "roomStateDTO i s =
     map_option (\<lambda>r. \<lparr>rd_id = rm_id r, rd_type = rm_type r, rd_stakeCents = rm_stakeCents r, rd_status = rm_status r,
         rd_seats = List.enumerate 0 (rm_seats r), rd_target = rm_target r, rd_countdownMs = None,
         rd_private = rm_private r, rd_joinCode = rm_joinCode r, rd_tournament = (rm_tournament r \<noteq> None)\<rparr>)
       (get_room i s)"

record public_game =
  pg_status :: game_status
  pg_turn :: "seat option"
  pg_pile :: "combo option"
  pg_pileOwner :: "seat option"
  pg_handCounts :: "nat list"
  pg_active :: "bool list"
  pg_passed :: "seat list"
  pg_finishingOrder :: "seat list"
  pg_gone :: "seat list"
  pg_turnDeadline :: "int option"

definition publicGameDTO :: "string \<Rightarrow> int option \<Rightarrow> room_manager \<Rightarrow> public_game option" where
  "publicGameDTO i deadline s =
     (case get_room i s of
        None \<Rightarrow> None
      | Some r \<Rightarrow>
          (case rm_match r of
             None \<Rightarrow> None
           | Some (dl, m) \<Rightarrow>
               map_option (\<lambda>g. \<lparr>pg_status = gs_status g, pg_turn = gs_turn g, pg_pile = gs_pile g,
                   pg_pileOwner = gs_pileOwner g, pg_handCounts = gs_handCounts g, pg_active = gs_active g,
                   pg_passed = gs_passed g, pg_finishingOrder = gs_finishingOrder g, pg_gone = gs_gone g,
                   pg_turnDeadline = deadline\<rparr>) (ms_game (match_snapshot_of m))))"

definition room_handOf :: "string \<Rightarrow> seat \<Rightarrow> room_manager \<Rightarrow> card list option" where
  "room_handOf i k s =
     (case get_room i s of
        None \<Rightarrow> None
      | Some r \<Rightarrow> (case rm_match r of None \<Rightarrow> None | Some (dl, m) \<Rightarrow> Some (match_handOf k m)))"

record scoreboard =
  sb_type :: match_type
  sb_target :: int
  sb_cumulative :: "int list"
  sb_teamTotals :: "int list option"

definition scoreboardDTO :: "string \<Rightarrow> room_manager \<Rightarrow> scoreboard option" where
  "scoreboardDTO i s =
     (case get_room i s of
        None \<Rightarrow> None
      | Some r \<Rightarrow>
          (case rm_match r of
             None \<Rightarrow> None
           | Some (dl, m) \<Rightarrow>
               Some \<lparr>sb_type = rm_type r, sb_target = m_target m, sb_cumulative = m_cumulative m,
                     sb_teamTotals = (if rm_type r = TwoVTwo then Some (teamTotals (m_cumulative m) DEFAULT_TEAMS)
                                      else None)\<rparr>))"

end
