(* ===== verification/Room_Safety.thy ===== *)
theory Room_Safety
  imports Rooms
begin

text \<open>
  What the rooms promise: every room is well formed and holds a proper match, a user is a member of
  a room exactly when the user has a seat there, share codes are unique, no operation ever throws,
  and what happens to the match of a room is a run of the match orchestrator.

  The histories considered are those the gateway produces: a rematch and a removal are asked for
  only when no departed player is still shown at the table, dealers deal proper hands, and teams
  are 0 or 1.
\<close>

subsection \<open>Reading an updated manager\<close>

lemma get_room_simps [simp]:
  "get_room i (put_room r s) = (if i = rm_id r then Some r else get_room i s)"
  "get_room i (del_room j s) = (if i = j then None else get_room i s)"
  "get_room i (set_user_room u j s) = get_room i s"
  "get_room i (del_user_room u s) = get_room i s"
  "get_room i (s\<lparr>rs_seq := n\<rparr>) = get_room i s"
  by (simp_all add: get_room_def put_room_def del_room_def set_user_room_def del_user_room_def
      AList.update_conv' AList.delete_conv')

lemma roomIdOf_simps [simp]:
  "roomIdOf u (put_room r s) = roomIdOf u s"
  "roomIdOf u (del_room j s) = roomIdOf u s"
  "roomIdOf u (set_user_room v j s) = (if u = v then Some j else roomIdOf u s)"
  "roomIdOf u (del_user_room v s) = (if u = v then None else roomIdOf u s)"
  "roomIdOf u (s\<lparr>rs_seq := n\<rparr>) = roomIdOf u s"
  by (simp_all add: roomIdOf_def put_room_def del_room_def set_user_room_def del_user_room_def
      AList.update_conv' AList.delete_conv')

lemma manager_simps [simp]:
  "rs_seq (put_room r s) = rs_seq s" "rs_seq (del_room j s) = rs_seq s"
  "rs_seq (set_user_room u j s) = rs_seq s" "rs_seq (del_user_room u s) = rs_seq s"
  "rs_startTarget (put_room r s) = rs_startTarget s" "rs_startTarget (del_room j s) = rs_startTarget s"
  "rs_rooms (set_user_room u j s) = rs_rooms s" "rs_rooms (del_user_room u s) = rs_rooms s"
  by (simp_all add: put_room_def del_room_def set_user_room_def del_user_room_def)

definition keyed :: "room_manager \<Rightarrow> bool" where
  "keyed s \<longleftrightarrow> distinct (map fst (rs_rooms s))"

lemma keyed_simps [simp]:
  "keyed s \<Longrightarrow> keyed (put_room r s)" "keyed s \<Longrightarrow> keyed (del_room i s)"
  "keyed (set_user_room u j s) = keyed s" "keyed (del_user_room u s) = keyed s"
  "keyed (s\<lparr>rs_seq := n\<rparr>) = keyed s"
  by (simp_all add: keyed_def put_room_def del_room_def set_user_room_def del_user_room_def
      distinct_update distinct_delete)

lemma get_room_mem: "keyed s \<Longrightarrow> get_room i s = Some r \<longleftrightarrow> (i, r) \<in> set (rs_rooms s)"
  by (simp add: keyed_def get_room_def)

subsection \<open>Well-formed rooms\<close>

definition sitter :: "internal_seat \<Rightarrow> user_id set" where
  "sitter x = (if se_gone x then {} else set_option (se_userId x))"

definition members :: "room \<Rightarrow> user_id set" where
  "members r = (\<Union>k<length (rm_seats r). sitter (rm_seats r ! k))"

definition seat_team :: "match_type \<Rightarrow> nat \<Rightarrow> nat option" where
  "seat_team ty k = (if ty = TwoVTwo then Some (if k \<in> set (team_seats 0) then 0 else 1) else None)"

text \<open>The seats: one per player, nobody twice, free seats are not departed, and on every occupied
  seat the team is that of the seat.\<close>

definition seats_ok :: "match_type \<Rightarrow> internal_seat list \<Rightarrow> bool" where
  "seats_ok ty xs \<longleftrightarrow>
     length xs = playersForType ty \<and>
     (\<forall>j<length xs. \<forall>k<length xs. se_userId (xs ! j) \<noteq> None \<longrightarrow> se_userId (xs ! j) = se_userId (xs ! k) \<longrightarrow> j = k) \<and>
     (\<forall>k<length xs. se_userId (xs ! k) = None \<longrightarrow> \<not> se_gone (xs ! k)) \<and>
     (\<forall>k<length xs. se_userId (xs ! k) \<noteq> None \<longrightarrow> se_team (xs ! k) = seat_team ty k)"

text \<open>A match that a dealer and a sequence of match operations produce.\<close>

definition match_run :: "match_type \<Rightarrow> dealer \<Rightarrow> match_st \<Rightarrow> bool" where
  "match_run ty dl m \<longleftrightarrow>
     (\<exists>target m0 ops. newMatch dl ty (Some target) None (if ty = TwoVTwo then Some DEFAULT_TEAMS else None) = Inr m0 \<and>
        m = foldl (match_step dl) m0 ops)"

lemma default_teams_ok:
  "teams_ok ty (case if ty = TwoVTwo then Some DEFAULT_TEAMS else None of None \<Rightarrow> DEFAULT_TEAMS | Some t \<Rightarrow> t)"
  by (auto simp: teams_ok_def DEFAULT_TEAMS_def)

lemma match_run_good: "match_run ty dl m \<Longrightarrow> dealer_ok (playersForType ty) dl \<Longrightarrow> match_good (playersForType ty) m"
  unfolding match_run_def using run_match_good[OF _ default_teams_ok] by blast

lemma match_run_step: "match_run ty dl m \<Longrightarrow> match_run ty dl (match_step dl m op)"
  unfolding match_run_def
proof (elim exE conjE)
  fix target m0 ops
  assume "newMatch dl ty (Some target) None (if ty = TwoVTwo then Some DEFAULT_TEAMS else None) = Inr m0"
    "m = foldl (match_step dl) m0 ops"
  then show "\<exists>target m0 ops. newMatch dl ty (Some target) None (if ty = TwoVTwo then Some DEFAULT_TEAMS else None) = Inr m0 \<and>
      match_step dl m op = foldl (match_step dl) m0 ops"
    by (intro exI[of _ target] exI[of _ m0] exI[of _ "ops @ [op]"]) simp
qed

definition match_part :: "room \<Rightarrow> bool" where
  "match_part r \<longleftrightarrow>
     (case rm_match r of
        None \<Rightarrow> rm_status r \<noteq> RoomInMatch \<and> (\<forall>k<length (rm_seats r). \<not> se_gone (rm_seats r ! k))
      | Some (dl, m) \<Rightarrow>
          (rm_status r = RoomInMatch \<or> rm_status r = RoomFinished) \<and>
          dealer_ok (playersForType (rm_type r)) dl \<and> match_run (rm_type r) dl m \<and>
          (rm_status r = RoomInMatch \<longrightarrow> m_state m \<noteq> MatchOver \<and> rm_target r = m_target m))"

definition room_ok :: "room \<Rightarrow> bool" where
  "room_ok r \<longleftrightarrow> seats_ok (rm_type r) (rm_seats r) \<and> (rm_status r = RoomReady \<longrightarrow> room_full r) \<and> match_part r"

definition room_code :: "room \<Rightarrow> string option" where
  "room_code r = (if rm_private r then rm_joinCode r else None)"

lemma room_code_upd [simp]:
  "room_code (r\<lparr>rm_status := st\<rparr>) = room_code r" "room_code (r\<lparr>rm_seats := xs\<rparr>) = room_code r"
  "room_code (r\<lparr>rm_match := m\<rparr>) = room_code r" "room_code (r\<lparr>rm_target := t\<rparr>) = room_code r"
  "room_code (r\<lparr>rm_matchId := i\<rparr>) = room_code r" "room_code (r\<lparr>rm_matchSeq := n\<rparr>) = room_code r"
  "room_code (r\<lparr>rm_practice := b\<rparr>) = room_code r" "room_code (r\<lparr>rm_invited := us\<rparr>) = room_code r"
  by (simp_all add: room_code_def)

definition code_of :: "string \<Rightarrow> room_manager \<Rightarrow> string option" where
  "code_of i s = Option.bind (get_room i s) room_code"

definition rooms_inv :: "room_manager \<Rightarrow> bool" where
  "rooms_inv s \<longleftrightarrow> keyed s \<and>
     (\<forall>i r. get_room i s = Some r \<longrightarrow> rm_id r = i \<and> room_ok r \<and> (\<exists>n\<le>rs_seq s. i = new_room_id n)) \<and>
     (\<forall>u i. roomIdOf u s = Some i \<longleftrightarrow> (\<exists>r. get_room i s = Some r \<and> u \<in> members r)) \<and>
     (\<forall>i j c. code_of i s = Some c \<longrightarrow> code_of j s = Some c \<longrightarrow> i = j)"

lemma rooms_invD:
  assumes "rooms_inv s"
  shows "keyed s"
    "get_room i s = Some r \<Longrightarrow> rm_id r = i" "get_room i s = Some r \<Longrightarrow> room_ok r"
    "get_room i s = Some r \<Longrightarrow> \<exists>n\<le>rs_seq s. i = new_room_id n"
    "roomIdOf u s = Some i \<longleftrightarrow> (\<exists>r. get_room i s = Some r \<and> u \<in> members r)"
    "code_of i s = Some c \<Longrightarrow> code_of j s = Some c \<Longrightarrow> i = j"
  using assms unfolding rooms_inv_def by blast+

lemma code_of_simps [simp]:
  "code_of i (put_room r s) = (if i = rm_id r then room_code r else code_of i s)"
  "code_of i (del_room j s) = (if i = j then None else code_of i s)"
  "code_of i (set_user_room u j s) = code_of i s"
  "code_of i (del_user_room u s) = code_of i s"
  by (simp_all add: code_of_def)

lemma code_of_same: "get_room i s = Some r \<Longrightarrow> room_code r' = room_code r \<Longrightarrow> room_code r' = code_of i s"
  by (simp add: code_of_def)

subsubsection \<open>Updates of the manager that keep the invariant\<close>

lemma inv_update:
  assumes "rooms_inv s" "get_room (rm_id r) s = Some r" "rm_id r' = rm_id r" "room_ok r'"
    and "members r' = members r" "room_code r' = room_code r"
  shows "rooms_inv (put_room r' s)"
proof -
  note I = rooms_invD[OF assms(1)]
  show ?thesis unfolding rooms_inv_def
  proof (intro conjI allI impI)
    show "keyed (put_room r' s)" using I(1) by simp
  next
    fix i q assume "get_room i (put_room r' s) = Some q"
    then show "rm_id q = i" "room_ok q" "\<exists>n\<le>rs_seq (put_room r' s). i = new_room_id n"
      using I(2-4)[of i q] I(4)[OF assms(2)] assms(3,4) by (auto split: if_splits)
  next
    fix u i show "roomIdOf u (put_room r' s) = Some i \<longleftrightarrow> (\<exists>q. get_room i (put_room r' s) = Some q \<and> u \<in> members q)"
      using I(5)[of u i] assms(2,3,5) by auto
  next
    fix i j c assume "code_of i (put_room r' s) = Some c" "code_of j (put_room r' s) = Some c"
    then show "i = j" using I(6)[of i c j] code_of_same[OF assms(2,6)] assms(3) by (simp split: if_splits)
  qed
qed

lemma inv_add_member:
  assumes "rooms_inv s" "get_room (rm_id r) s = Some r" "rm_id r' = rm_id r" "room_ok r'"
    and "members r' = insert u (members r)" "roomIdOf u s = None" "room_code r' = room_code r"
  shows "rooms_inv (set_user_room u (rm_id r) (put_room r' s))"
proof -
  note I = rooms_invD[OF assms(1)]
  show ?thesis unfolding rooms_inv_def
  proof (intro conjI allI impI)
    show "keyed (set_user_room u (rm_id r) (put_room r' s))" using I(1) by simp
  next
    fix i q assume "get_room i (set_user_room u (rm_id r) (put_room r' s)) = Some q"
    then show "rm_id q = i" "room_ok q" "\<exists>n\<le>rs_seq (set_user_room u (rm_id r) (put_room r' s)). i = new_room_id n"
      using I(2-4)[of i q] I(4)[OF assms(2)] assms(3,4) by (auto split: if_splits)
  next
    fix v i
    have "\<not> (\<exists>q. get_room i s = Some q \<and> u \<in> members q)" using I(5)[of u i] assms(6) by simp
    then show "roomIdOf v (set_user_room u (rm_id r) (put_room r' s)) = Some i \<longleftrightarrow>
        (\<exists>q. get_room i (set_user_room u (rm_id r) (put_room r' s)) = Some q \<and> v \<in> members q)"
      using I(5)[of v i] assms(2,3,5) by auto
  next
    fix i j c assume "code_of i (set_user_room u (rm_id r) (put_room r' s)) = Some c" "code_of j (set_user_room u (rm_id r) (put_room r' s)) = Some c"
    then show "i = j" using I(6)[of i c j] code_of_same[OF assms(2,7)] assms(3) by (simp split: if_splits)
  qed
qed

lemma inv_remove_member:
  assumes "rooms_inv s" "get_room (rm_id r) s = Some r" "rm_id r' = rm_id r" "room_ok r'"
    and "members r' = members r - {u}" "roomIdOf u s = Some (rm_id r)" "room_code r' = room_code r"
  shows "rooms_inv (put_room r' (del_user_room u s))"
proof -
  note I = rooms_invD[OF assms(1)]
  show ?thesis unfolding rooms_inv_def
  proof (intro conjI allI impI)
    show "keyed (put_room r' (del_user_room u s))" using I(1) by simp
  next
    fix i q assume "get_room i (put_room r' (del_user_room u s)) = Some q"
    then show "rm_id q = i" "room_ok q" "\<exists>n\<le>rs_seq (put_room r' (del_user_room u s)). i = new_room_id n"
      using I(2-4)[of i q] I(4)[OF assms(2)] assms(3,4) by (auto split: if_splits)
  next
    fix v i
    have "i \<noteq> rm_id r \<Longrightarrow> \<not> (\<exists>q. get_room i s = Some q \<and> u \<in> members q)" using I(5)[of u i] assms(6) by simp
    then show "roomIdOf v (put_room r' (del_user_room u s)) = Some i \<longleftrightarrow>
        (\<exists>q. get_room i (put_room r' (del_user_room u s)) = Some q \<and> v \<in> members q)"
      using I(5)[of v i] assms(2,3,5) by auto
  next
    fix i j c assume "code_of i (put_room r' (del_user_room u s)) = Some c" "code_of j (put_room r' (del_user_room u s)) = Some c"
    then show "i = j" using I(6)[of i c j] code_of_same[OF assms(2,7)] assms(3) by (simp split: if_splits)
  qed
qed

lemma inv_delete:
  assumes "rooms_inv s" "get_room i s = Some r" "members r = {}"
  shows "rooms_inv (del_room i s)"
proof -
  note I = rooms_invD[OF assms(1)]
  show ?thesis unfolding rooms_inv_def
  proof (intro conjI allI impI)
    show "keyed (del_room i s)" using I(1) by simp
  next
    fix j q assume "get_room j (del_room i s) = Some q"
    then show "rm_id q = j" "room_ok q" "\<exists>n\<le>rs_seq (del_room i s). j = new_room_id n"
      using I(2-4)[of j q] by (auto split: if_splits)
  next
    fix v j show "roomIdOf v (del_room i s) = Some j \<longleftrightarrow> (\<exists>q. get_room j (del_room i s) = Some q \<and> v \<in> members q)"
      using I(5)[of v j] assms(2,3) by auto
  next
    fix j k c assume "code_of j (del_room i s) = Some c" "code_of k (del_room i s) = Some c"
    then show "j = k" using I(6)[of j c k] by (simp split: if_splits)
  qed
qed

lemma fresh_room_id:
  assumes "rooms_inv s"
  shows "get_room (new_room_id (Suc (rs_seq s))) s = None"
proof (rule ccontr)
  assume "get_room (new_room_id (Suc (rs_seq s))) s \<noteq> None"
  then obtain q where "get_room (new_room_id (Suc (rs_seq s))) s = Some q" by blast
  from rooms_invD(4)[OF assms this] show False by (auto simp: new_room_id_def nat_str_inj)
qed

lemma inv_new_room:
  assumes "rooms_inv s" "rm_id r = new_room_id (Suc (rs_seq s))" "room_ok r" "members r = {}"
    and "\<And>i c. room_code r = Some c \<Longrightarrow> code_of i s \<noteq> Some c"
  shows "rooms_inv (put_room r (s\<lparr>rs_seq := rs_seq s + 1\<rparr>))"
proof -
  note I = rooms_invD[OF assms(1)]
  have fresh: "get_room (rm_id r) s = None" using fresh_room_id[OF assms(1)] assms(2) by simp
  have c: "code_of i (s\<lparr>rs_seq := n\<rparr>) = code_of i s" for i n by (simp add: code_of_def)
  show "rooms_inv (put_room r (s\<lparr>rs_seq := rs_seq s + 1\<rparr>))" unfolding rooms_inv_def
  proof (intro conjI allI impI)
    show "keyed (put_room r (s\<lparr>rs_seq := rs_seq s + 1\<rparr>))" using I(1) by simp
  next
    fix i q assume "get_room i (put_room r (s\<lparr>rs_seq := rs_seq s + 1\<rparr>)) = Some q"
    then show "rm_id q = i" "room_ok q" "\<exists>n\<le>rs_seq (put_room r (s\<lparr>rs_seq := rs_seq s + 1\<rparr>)). i = new_room_id n"
      using I(2-4)[of i q] assms(2,3) by (auto split: if_splits intro: le_SucI)
  next
    fix v i show "roomIdOf v (put_room r (s\<lparr>rs_seq := rs_seq s + 1\<rparr>)) = Some i \<longleftrightarrow>
        (\<exists>q. get_room i (put_room r (s\<lparr>rs_seq := rs_seq s + 1\<rparr>)) = Some q \<and> v \<in> members q)"
      using I(5)[of v i] fresh assms(4) by auto
  next
    fix i j c assume "code_of i (put_room r (s\<lparr>rs_seq := rs_seq s + 1\<rparr>)) = Some c"
      "code_of j (put_room r (s\<lparr>rs_seq := rs_seq s + 1\<rparr>)) = Some c"
    then show "i = j" using I(6)[of i c j] assms(5)[of c i] assms(5)[of c j] by (simp add: c split: if_splits)
  qed
qed

subsection \<open>Seats\<close>

lemma team_seats_bound: "k \<in> set (team_seats t) \<Longrightarrow> k < 4"
  by (auto simp: team_seats_def DEFAULT_TEAMS_def split: if_splits)

lemma nth_upd: "j < length xs \<Longrightarrow> xs[k := x] ! j = (if k = j then x else xs ! j)"
  by (cases "k = j") simp_all

lemma seat_index_Some:
  "seat_index u r = Some k \<Longrightarrow> k < length (rm_seats r) \<and> se_userId (rm_seats r ! k) = Some u"
  unfolding seat_index_def by (auto dest: find_index_Some)

lemma seat_index_None: "seat_index u r = None \<longleftrightarrow> (\<forall>k<length (rm_seats r). se_userId (rm_seats r ! k) \<noteq> Some u)"
  by (auto simp: seat_index_def find_index_None all_set_conv_all_nth)

lemma room_full_nth: "room_full r \<longleftrightarrow> (\<forall>k<length (rm_seats r). se_userId (rm_seats r ! k) \<noteq> None)"
  by (simp add: room_full_def list_all_length)

lemma seats_ok_uniq:
  "seats_ok ty xs \<Longrightarrow> j < length xs \<Longrightarrow> k < length xs \<Longrightarrow> se_userId (xs ! j) \<noteq> None \<Longrightarrow>
   se_userId (xs ! j) = se_userId (xs ! k) \<Longrightarrow> j = k"
  by (simp add: seats_ok_def)

lemma seats_ok_update:
  assumes "seats_ok ty xs" "k < length xs"
    and "\<And>j. j < length xs \<Longrightarrow> j \<noteq> k \<Longrightarrow> se_userId x \<noteq> None \<Longrightarrow> se_userId (xs ! j) \<noteq> se_userId x"
    and "se_userId x = None \<Longrightarrow> \<not> se_gone x" "se_userId x \<noteq> None \<Longrightarrow> se_team x = seat_team ty k"
  shows "seats_ok ty (xs[k := x])"
  using assms unfolding seats_ok_def by (auto simp: nth_upd)

text \<open>A change of the flags of a seat.\<close>

lemma seats_ok_flags:
  assumes "seats_ok ty xs" "k < length xs" "se_userId x = se_userId (xs ! k)" "se_team x = se_team (xs ! k)"
    and "se_userId x = None \<Longrightarrow> \<not> se_gone x"
  shows "seats_ok ty (xs[k := x])"
  by (rule seats_ok_update[OF assms(1,2)]) (use assms in \<open>auto simp: seats_ok_def\<close>)

definition others :: "nat \<Rightarrow> internal_seat list \<Rightarrow> user_id set" where
  "others k xs = (\<Union>j\<in>{j. j < length xs \<and> j \<noteq> k}. sitter (xs ! j))"

lemma members_split: "k < length (rm_seats r) \<Longrightarrow> members r = sitter (rm_seats r ! k) \<union> others k (rm_seats r)"
  by (auto simp: members_def others_def)

lemma others_upd [simp]: "others k (xs[k := x]) = others k xs"
  by (simp add: others_def)

lemma members_upd:
  "k < length (rm_seats r) \<Longrightarrow> rm_seats r' = (rm_seats r)[k := x] \<Longrightarrow> members r' = sitter x \<union> others k (rm_seats r)"
  using members_split[of k r'] by simp

lemma members_flags:
  assumes "k < length (rm_seats r)" "rm_seats r' = (rm_seats r)[k := x]" "sitter x = sitter (rm_seats r ! k)"
  shows "members r' = members r"
  using members_upd[OF assms(1,2)] members_split[OF assms(1)] assms(3) by simp

lemma members_removed:
  assumes "seats_ok ty (rm_seats r)" "k < length (rm_seats r)" "se_userId (rm_seats r ! k) = Some u"
    and "rm_seats r' = (rm_seats r)[k := x]" "sitter x = {}"
  shows "members r' = members r - {u}"
proof -
  have "u \<notin> others k (rm_seats r)"
    using assms(1-3) by (auto simp: others_def seats_ok_def sitter_def split: if_splits)
  moreover have "sitter (rm_seats r ! k) \<subseteq> {u}" using assms(3) by (simp add: sitter_def)
  ultimately show ?thesis using members_upd[OF assms(2,4)] members_split[OF assms(2)] assms(5) by auto
qed

lemma in_membersI: "k < length (rm_seats r) \<Longrightarrow> se_userId (rm_seats r ! k) = Some u \<Longrightarrow> \<not> se_gone (rm_seats r ! k) \<Longrightarrow> u \<in> members r"
  by (auto simp: members_def sitter_def intro!: bexI[of _ k])

lemma match_part_flags:
  assumes "match_part r" "se_gone x = se_gone (rm_seats r ! k)"
  shows "match_part (r\<lparr>rm_seats := (rm_seats r)[k := x]\<rparr>)"
  using assms by (auto simp: match_part_def nth_upd split: option.splits)

lemma open_room_facts:
  assumes "room_ok r" "rm_status r = RoomWaiting \<or> rm_status r = RoomReady \<or> rm_match r = None"
  shows "rm_match r = None" "k < length (rm_seats r) \<Longrightarrow> \<not> se_gone (rm_seats r ! k)"
  using assms by (auto simp: room_ok_def match_part_def split: option.splits)

lemma pickSeat_open:
  assumes "seats_ok (rm_type r) (rm_seats r)" "pickSeat r team = Some k"
  shows "k < length (rm_seats r)" "se_userId (rm_seats r ! k) = None"
proof -
  have f: "List.find (open_seat r) ks = Some k \<Longrightarrow> k \<in> set ks \<and> open_seat r k" for ks
    by (auto simp: find_Some_iff)
  have "k < length (rm_seats r) \<and> open_seat r k"
  proof (cases "team \<noteq> None \<and> rm_type r = TwoVTwo")
    case True
    then obtain t where "List.find (open_seat r) (team_seats t) = Some k" using assms(2) by (auto simp: pickSeat_def)
    from f[OF this] have "k \<in> set (team_seats t)" "open_seat r k" by simp_all
    with True assms(1) show ?thesis using team_seats_bound by (auto simp: seats_ok_def playersForType_def)
  next
    case False
    then have "List.find (open_seat r) [0..<length (rm_seats r)] = Some k"
      using assms(2) by (auto simp: pickSeat_def split: option.splits if_splits)
    from f[OF this] show ?thesis by simp
  qed
  then show "k < length (rm_seats r)" "se_userId (rm_seats r ! k) = None" by (simp_all add: open_seat_def)
qed

lemma take_seat_ok:
  assumes "room_ok r" "rm_status r = RoomWaiting" "pickSeat r team = Some k" "ac_userId user \<notin> members r"
  shows "room_ok (take_seat r user k)" "members (take_seat r user k) = insert (ac_userId user) (members r)"
    "rm_id (take_seat r user k) = rm_id r" "room_code (take_seat r user k) = room_code r"
proof -
  have so: "seats_ok (rm_type r) (rm_seats r)" using assms(1) by (simp add: room_ok_def)
  note k = pickSeat_open[OF so assms(3)]
  note o = open_room_facts[OF assms(1) disjI1[OF assms(2)]]
  have new: "se_userId (rm_seats r ! j) \<noteq> Some (ac_userId user)" if "j < length (rm_seats r)" for j
    using assms(4) o(2)[OF that] in_membersI[OF that] by auto
  have "seats_ok (rm_type r) ((rm_seats r)[k := occupied_seat r user k])"
    by (rule seats_ok_update[OF so k(1)]) (use new in \<open>auto simp: occupied_seat_def seat_team_def\<close>)
  then show "room_ok (take_seat r user k)"
    using o assms(2) by (auto simp: room_ok_def take_seat_def Let_def match_part_def occupied_seat_def nth_upd room_full_def)
  show "members (take_seat r user k) = insert (ac_userId user) (members r)"
    using members_upd[OF k(1), of "take_seat r user k"] members_split[OF k(1)] k(2)
    by (simp add: take_seat_def Let_def occupied_seat_def sitter_def)
  show "rm_id (take_seat r user k) = rm_id r" "room_code (take_seat r user k) = room_code r"
    by (simp_all add: take_seat_def Let_def room_code_def)
qed

lemma emptySeat_simps [simp]:
  "se_userId emptySeat = None" "\<not> se_gone emptySeat" "sitter emptySeat = {}"
  by (simp_all add: emptySeat_def sitter_def)

lemma vacate_ok:
  assumes "room_ok r" "u \<in> members r"
  shows "room_ok (let r1 = vacate (seat_index u r) r in if rm_status r1 = RoomReady then r1\<lparr>rm_status := RoomWaiting\<rparr> else r1)"
    and "members (vacate (seat_index u r) r) = members r - {u}"
proof -
  from assms(2) obtain j where "j < length (rm_seats r)" "se_userId (rm_seats r ! j) = Some u"
    by (auto simp: members_def sitter_def split: if_splits)
  then obtain k where k: "seat_index u r = Some k" using seat_index_None[of u r] by auto
  note ku = seat_index_Some[OF k]
  have so: "seats_ok (rm_type r) (rm_seats r)" using assms(1) by (simp add: room_ok_def)
  have "seats_ok (rm_type r) ((rm_seats r)[k := emptySeat])" by (rule seats_ok_update[OF so]) (use ku in auto)
  then show "room_ok (let r1 = vacate (seat_index u r) r in if rm_status r1 = RoomReady then r1\<lparr>rm_status := RoomWaiting\<rparr> else r1)"
    using assms(1) by (auto simp: k vacate_def room_ok_def match_part_def nth_upd Let_def split: option.splits if_splits)
  show "members (vacate (seat_index u r) r) = members r - {u}"
    by (rule members_removed[OF so, of k _ _ emptySeat]) (use ku in \<open>simp_all add: k vacate_def\<close>)
qed

lemma find_open:
  assumes "List.find (open_seat r) ks = Some f"
  shows "f \<in> set ks" "se_userId (rm_seats r ! f) = None"
  using assms by (auto simp: find_Some_iff open_seat_def)

lemma seat_team_of: "t < 2 \<Longrightarrow> k \<in> set (team_seats t) \<Longrightarrow> seat_team TwoVTwo k = Some t"
  by (cases "t = 0") (auto simp: seat_team_def team_seats_def DEFAULT_TEAMS_def)

lemma reopen_ok:
  assumes "seats_ok (rm_type r) xs" "rm_match r = None" "\<And>k. k < length xs \<Longrightarrow> \<not> se_gone (xs ! k)"
  shows "room_ok (reopen (r\<lparr>rm_seats := xs\<rparr>))"
  using assms by (auto simp: room_ok_def reopen_def match_part_def room_full_def)

lemma move_player_ok:
  assumes "seats_ok TwoVTwo (rm_seats r)" "rm_type r = TwoVTwo"
    and "\<And>j. j < length (rm_seats r) \<Longrightarrow> \<not> se_gone (rm_seats r ! j)"
    and k: "k < length (rm_seats r)" "se_userId (rm_seats r ! k) = Some u"
    and f: "f \<in> set (team_seats t)" "t < 2" "se_userId (rm_seats r ! f) = None"
  shows "seats_ok TwoVTwo (move_player (rm_seats r) k f t)"
    and "members (reopen (r\<lparr>rm_seats := move_player (rm_seats r) k f t\<rparr>)) = members r"
    and "j < length (rm_seats r) \<Longrightarrow> \<not> se_gone (move_player (rm_seats r) k f t ! j)"
proof -
  let ?x = "(rm_seats r ! k)\<lparr>se_team := Some t, se_ready := False, se_gone := False\<rparr>"
  have fl: "f < length (rm_seats r)" using team_seats_bound[OF f(1)] assms(1) by (simp add: seats_ok_def playersForType_def)
  have fk: "f \<noteq> k" using k(2) f(3) by auto
  have mp: "move_player (rm_seats r) k f t = (rm_seats r)[k := emptySeat, f := ?x]"
    using fk by (simp add: move_player_def list_update_swap)
  have s1: "seats_ok TwoVTwo ((rm_seats r)[k := emptySeat])" by (rule seats_ok_update[OF assms(1) k(1)]) auto
  show "seats_ok TwoVTwo (move_player (rm_seats r) k f t)" unfolding mp
    by (rule seats_ok_update[OF s1])
       (use fl k f assms(1) seat_team_of[OF f(2,1)] in \<open>auto simp: nth_upd seats_ok_def\<close>)
  show "j < length (rm_seats r) \<Longrightarrow> \<not> se_gone (move_player (rm_seats r) k f t ! j)"
    using assms(3) by (simp add: mp nth_upd)
  let ?r1 = "r\<lparr>rm_seats := (rm_seats r)[k := emptySeat]\<rparr>"
  have m1: "members ?r1 = members r - {u}" by (rule members_removed[OF assms(1) k]) auto
  have "members (reopen (r\<lparr>rm_seats := move_player (rm_seats r) k f t\<rparr>)) = sitter ?x \<union> others f (rm_seats ?r1)"
    by (rule members_upd) (use fl in \<open>simp_all add: reopen_def mp\<close>)
  also have "others f (rm_seats ?r1) = members ?r1"
    using members_split[of f ?r1] fl f(3) fk by (simp add: sitter_def)
  finally show "members (reopen (r\<lparr>rm_seats := move_player (rm_seats r) k f t\<rparr>)) = members r"
    using m1 k in_membersI[OF k assms(3)[OF k(1)]] by (auto simp: sitter_def)
qed

lemma swap_players_ok:
  assumes so: "seats_ok ty (rm_seats r)"
    and g: "\<And>i. i < length (rm_seats r) \<Longrightarrow> \<not> se_gone (rm_seats r ! i)"
    and k: "k < length (rm_seats r)" "se_userId (rm_seats r ! k) = Some u"
    and j: "j < length (rm_seats r)" "se_userId (rm_seats r ! j) = Some v" "v \<noteq> u"
  shows "seats_ok ty (swap_players (rm_seats r) k j)"
    and "members (reopen (r\<lparr>rm_seats := swap_players (rm_seats r) k j\<rparr>)) = members r"
    and "i < length (rm_seats r) \<Longrightarrow> \<not> se_gone (swap_players (rm_seats r) k j ! i)"
proof -
  let ?xs = "rm_seats r"
  let ?ys = "swap_players ?xs k j"
  define p where "p i = (if i = k then j else if i = j then k else i)" for i
  have jk: "j \<noteq> k" using k(2) j(2,3) by auto
  have len: "length ?ys = length ?xs" by (simp add: swap_players_def)
  have p: "p i < length ?xs" "p (p i) = i" if "i < length ?xs" for i using that k(1) j(1) by (auto simp: p_def)
  have n: "se_userId (?ys ! i) = se_userId (?xs ! p i)" "se_team (?ys ! i) = se_team (?xs ! i)" "\<not> se_gone (?ys ! i)"
    if "i < length ?xs" for i
    using that jk g by (auto simp: swap_players_def nth_upd p_def)
  have occ: "se_userId (?xs ! p i) \<noteq> None \<longleftrightarrow> se_userId (?xs ! i) \<noteq> None" for i using k j by (auto simp: p_def)
  show "seats_ok ty ?ys" unfolding seats_ok_def len
  proof (intro conjI allI impI)
    show "length ?xs = playersForType ty" using so by (simp add: seats_ok_def)
  next
    fix a b assume a: "a < length ?xs" and b: "b < length ?xs"
      and "se_userId (?ys ! a) \<noteq> None" "se_userId (?ys ! a) = se_userId (?ys ! b)"
    then have "se_userId (?xs ! p a) \<noteq> None" "se_userId (?xs ! p a) = se_userId (?xs ! p b)"
      unfolding n(1)[OF a] n(1)[OF b] by simp_all
    then have "p a = p b" by (rule seats_ok_uniq[OF so p(1)[OF a] p(1)[OF b]])
    then have "p (p a) = p (p b)" by (rule arg_cong)
    then show "a = b" unfolding p(2)[OF a] p(2)[OF b] .
  next
    fix a assume "a < length ?xs" then show "\<not> se_gone (?ys ! a)" by (rule n(3))
  next
    fix a assume a: "a < length ?xs" "se_userId (?ys ! a) \<noteq> None"
    then have "se_userId (?xs ! a) \<noteq> None" using n(1) occ by simp
    then show "se_team (?ys ! a) = seat_team ty a" using n(2)[OF a(1)] so a(1) by (auto simp: seats_ok_def)
  qed
  have st: "sitter (?ys ! i) = sitter (?xs ! p i)" if "i < length ?xs" for i
    using n(1,3)[OF that] g[OF p(1)[OF that]] by (simp add: sitter_def)
  have "p ` {..<length ?xs} = {..<length ?xs}"
  proof
    show "p ` {..<length ?xs} \<subseteq> {..<length ?xs}" using p(1) by auto
    show "{..<length ?xs} \<subseteq> p ` {..<length ?xs}"
    proof
      fix i assume "i \<in> {..<length ?xs}"
      then show "i \<in> p ` {..<length ?xs}" using p[of i] by (intro image_eqI[of _ _ "p i"]) simp_all
    qed
  qed
  then have "(\<Union>i<length ?xs. sitter (?xs ! i)) = (\<Union>i\<in>p ` {..<length ?xs}. sitter (?xs ! i))" by simp
  then show "members (reopen (r\<lparr>rm_seats := ?ys\<rparr>)) = members r"
    using st by (simp add: members_def reopen_def len)
  show "i < length ?xs \<Longrightarrow> \<not> se_gone (?ys ! i)" by (rule n(3))
qed

subsection \<open>Operations keep the invariant\<close>

lemma roomOf_Some:
  assumes "rooms_inv s"
  shows "roomOf u s = Some r \<longleftrightarrow> get_room (rm_id r) s = Some r \<and> u \<in> members r"
proof -
  have "roomOf u s = Some r \<longleftrightarrow> (\<exists>i. roomIdOf u s = Some i \<and> get_room i s = Some r)"
    by (simp add: roomOf_def split: option.split)
  also have "\<dots> \<longleftrightarrow> (\<exists>i. u \<in> members r \<and> get_room i s = Some r)"
    using rooms_invD(5)[OF assms, of u] by auto
  also have "\<dots> \<longleftrightarrow> get_room (rm_id r) s = Some r \<and> u \<in> members r"
    using rooms_invD(2)[OF assms] by blast
  finally show ?thesis .
qed

lemma roomIdOf_Some_room:
  assumes "rooms_inv s" "roomIdOf u s = Some i"
  obtains r where "get_room i s = Some r" "rm_id r = i" "room_ok r" "u \<in> members r"
  using assms rooms_invD(2,3)[OF assms(1)] rooms_invD(5)[OF assms(1), of u i] by blast

text \<open>A change of one room that keeps its members, its number and its code.\<close>

lemma inv_change:
  assumes "rooms_inv s" "get_room i s = Some r"
    and "rm_id r' = rm_id r" "members r' = members r" "room_code r' = room_code r" "room_ok r \<Longrightarrow> room_ok r'"
  shows "rooms_inv (put_room r' s)"
proof -
  have "rm_id r = i" "room_ok r" using rooms_invD(2,3)[OF assms(1,2)] by simp_all
  with assms show ?thesis by (intro inv_update[of _ r]) simp_all
qed

lemma put_put [simp]: "rm_id r' = rm_id r \<Longrightarrow> put_room r' (put_room r s) = put_room r' s"
  by (simp add: put_room_def)

lemma put_del_user: "put_room r (del_user_room u s) = del_user_room u (put_room r s)"
  by (simp add: put_room_def del_user_room_def)

lemma put_set_user: "set_user_room u i (put_room r s) = put_room r (set_user_room u i s)"
  by (simp add: put_room_def set_user_room_def)

lemma seat_user_inv:
  assumes "rooms_inv s" "get_room i s = Some r" "rm_status r = RoomWaiting" "roomIdOf (ac_userId user) s = None"
  shows "rooms_inv (snd (seat_user r user team s))"
proof (cases "pickSeat r team")
  case None
  with assms(1) show ?thesis by (simp add: seat_user_def)
next
  case (Some k)
  note I = rooms_invD(2,3)[OF assms(1,2)]
  have "ac_userId user \<notin> members r" using rooms_invD(5)[OF assms(1), of "ac_userId user" i] assms(2,4) by simp
  note t = take_seat_ok[OF I(2) assms(3) Some this]
  show ?thesis using inv_add_member[OF assms(1), of r "take_seat r user k"] assms(2,4) I(1) t Some
    by (simp add: seat_user_def)
qed

lemma joinRoom_inv: "rooms_inv s \<Longrightarrow> rooms_inv (snd (joinRoom user i team s))"
proof -
  assume I: "rooms_inv s"
  have "rooms_inv (snd (seat_user r user team s))"
    if "get_room i s = Some r" "join_refusal r (ac_userId user) = None" "roomIdOf (ac_userId user) s = None" for r
    using that(2) by (intro seat_user_inv[OF I that(1) _ that(3)]) (simp add: join_refusal_def split: if_splits)
  with I show ?thesis by (force simp: joinRoom_def split: option.split prod.split bool.split)
qed

lemma blank_room_ok:
  assumes "rm_status r = RoomWaiting" "rm_match r = None" "rm_seats r = replicate (playersForType (rm_type r)) emptySeat"
  shows "room_ok r" "members r = {}"
  using assms by (auto simp: room_ok_def seats_ok_def match_part_def members_def)

lemma codeInUse_code_of: "keyed s \<Longrightarrow> codeInUse c s \<longleftrightarrow> (\<exists>i. code_of i s = Some c)"
proof -
  assume k: "keyed s"
  have "codeInUse c s \<longleftrightarrow> (\<exists>i r. (i, r) \<in> set (rs_rooms s) \<and> rm_private r \<and> rm_joinCode r = Some c)"
    by (force simp: codeInUse_def list_ex_iff)
  also have "\<dots> \<longleftrightarrow> (\<exists>i r. get_room i s = Some r \<and> room_code r = Some c)"
    by (auto simp: get_room_mem[OF k] room_code_def)
  finally show ?thesis by (simp add: code_of_def bind_eq_Some_conv)
qed

lemma widenCode_unused: "\<not> codeInUse (widenCode rnd k len s) s"
proof (induction rnd k len s rule: widenCode.induct)
  case (1 rnd k len s)
  then show ?case by (subst widenCode.simps) (simp add: Let_def)
qed

lemma genUniqueJoinCode_unused: "\<not> codeInUse (genUniqueJoinCode rnd s) s"
  by (auto simp: genUniqueJoinCode_def widenCode_unused find_Some_iff split: option.split)

lemma opened_room_simps [simp]:
  "rm_status (opened_room rnd i ty p now s) = RoomWaiting" "rm_match (opened_room rnd i ty p now s) = None"
  "rm_id (opened_room rnd i ty p now s) = i" "rm_type (opened_room rnd i ty p now s) = ty"
  "rm_seats (opened_room rnd i ty p now s) = replicate (playersForType ty) emptySeat"
  "rm_private (opened_room rnd i ty p now s) = cp_private p"
  by (simp_all add: opened_room_def blank_room_def)

lemma createRoom_inv: "rooms_inv s \<Longrightarrow> rooms_inv (snd (createRoom rnd user p now s))"
proof (cases "roomIdOf (ac_userId user) s \<noteq> None \<or> cp_stakeCents p < 0 \<or> cp_type p = None")
  case True
  assume "rooms_inv s"
  with True show ?thesis by (auto simp: createRoom_def)
next
  case False
  assume I: "rooms_inv s"
  from False obtain ty where ty: "cp_type p = Some ty" by blast
  let ?s0 = "s\<lparr>rs_seq := rs_seq s + 1\<rparr>"
  let ?i = "new_room_id (rs_seq ?s0)"
  let ?r = "opened_room rnd ?i ty p now ?s0"
  have b: "room_ok ?r" "members ?r = {}" by (rule blank_room_ok; simp)+
  have c: "code_of j s \<noteq> Some c" if "room_code ?r = Some c" for j c
  proof -
    have "\<not> codeInUse c s" using that genUniqueJoinCode_unused[of rnd ?s0]
      by (auto simp: room_code_def codeInUse_def opened_room_def split: if_splits)
    then show ?thesis using codeInUse_code_of[OF rooms_invD(1)[OF I]] by auto
  qed
  have I1: "rooms_inv (put_room ?r ?s0)" by (rule inv_new_room[OF I _ b c]) simp
  have g: "get_room ?i (put_room ?r ?s0) = Some ?r" by simp
  have I2: "rooms_inv (snd (seat_user ?r user (cp_team p) (put_room ?r ?s0)))"
    by (rule seat_user_inv[OF I1 g]) (use False in simp_all)
  obtain ok s1 where su: "seat_user ?r user (cp_team p) (put_room ?r ?s0) = (ok, s1)" by fastforce
  have e: "createRoom rnd user p now s =
      (case seat_user ?r user (cp_team p) (put_room ?r ?s0) of
         (True, s1) \<Rightarrow> (Inr (?i, rm_joinCode ?r), s1) | (False, s1) \<Rightarrow> (Inl ''seat_failed'', del_room ?i s1))"
    using False ty by (simp add: createRoom_def Let_def split: prod.split bool.split)
  show ?thesis
  proof (cases ok)
    case True
    with I2 su show ?thesis unfolding e by simp
  next
    case f: False
    then have "s1 = put_room ?r ?s0" using su by (simp add: seat_user_def split: option.splits)
    with inv_delete[OF I1 g b(2)] have "rooms_inv (del_room ?i s1)" by (simp only:)
    with f su show ?thesis unfolding e by simp
  qed
qed

lemma createTournamentRoom_inv: "rooms_inv s \<Longrightarrow> rooms_inv (snd (createTournamentRoom ty meta now s))"
  unfolding createTournamentRoom_def Let_def snd_conv
  by (rule inv_new_room) (simp_all add: blank_room_def room_code_def blank_room_ok)

lemma createClubWarRoom_inv: "rooms_inv s \<Longrightarrow> rooms_inv (snd (createClubWarRoom meta now s))"
  unfolding createClubWarRoom_def Let_def snd_conv
  by (rule inv_new_room) (simp_all add: blank_room_def room_code_def blank_room_ok)

lemma leaveRoom_inv: "rooms_inv s \<Longrightarrow> rooms_inv (snd (leaveRoom u s))"
proof (cases "roomIdOf u s")
  case None
  assume "rooms_inv s"
  with None show ?thesis by (simp add: leaveRoom_def)
next
  case (Some i)
  assume I: "rooms_inv s"
  obtain r where r: "get_room i s = Some r" "rm_id r = i" "room_ok r" "u \<in> members r"
    by (rule roomIdOf_Some_room[OF I Some])
  let ?r1 = "vacate (seat_index u r) r"
  let ?r2 = "if rm_status ?r1 = RoomReady then ?r1\<lparr>rm_status := RoomWaiting\<rparr> else ?r1"
  have id: "rm_id ?r1 = i" "room_code ?r1 = room_code r"
    using r(2) by (simp_all add: vacate_def room_code_def split: option.split)
  have m2: "members ?r2 = members r - {u}" using vacate_ok(2)[OF r(3,4)] by (simp add: members_def)
  have ok: "room_ok ?r2" using vacate_ok(1)[OF r(3,4)] by (simp add: Let_def)
  have id2: "rm_id ?r2 = rm_id r" "room_code ?r2 = room_code r" using id r(2) by simp_all
  have I2: "rooms_inv (put_room ?r2 (del_user_room u s))"
    by (rule inv_remove_member[OF I _ id2(1) ok m2 _ id2(2)]) (simp_all only: r Some)
  have d: "del_room i (del_user_room u (put_room ?r1 s)) = del_room i (put_room ?r2 (del_user_room u s))"
    using id(1) by (simp add: del_room_def put_room_def del_user_room_def delete_update_same)
  have e: "snd (leaveRoom u s) =
      (if list_ex (\<lambda>x. se_userId x \<noteq> None) (rm_seats ?r1) then put_room ?r2 (del_user_room u s)
       else del_room i (put_room ?r2 (del_user_room u s)))"
    using Some r(1) d by (auto simp: leaveRoom_def Let_def put_del_user[symmetric])
  show ?thesis
  proof (cases "list_ex (\<lambda>x. se_userId x \<noteq> None) (rm_seats ?r1)")
    case True
    with I2 show ?thesis unfolding e by simp
  next
    case False
    then have "members ?r2 = {}" by (auto simp: members_def sitter_def list_ex_length)
    with inv_delete[OF I2, of i ?r2] id(1) False show ?thesis unfolding e by simp
  qed
qed

lemma flag_change:
  assumes I: "rooms_inv s" "get_room (rm_id r) s = Some r" and k: "k < length (rm_seats r)"
    and x: "se_userId x = se_userId (rm_seats r ! k)" "se_gone x = se_gone (rm_seats r ! k)" "se_team x = se_team (rm_seats r ! k)"
  shows "rooms_inv (put_room (r\<lparr>rm_seats := (rm_seats r)[k := x]\<rparr>) s)"
proof (rule inv_change[OF I])
  let ?r = "r\<lparr>rm_seats := (rm_seats r)[k := x]\<rparr>"
  show "rm_id ?r = rm_id r" "room_code ?r = room_code r" by (simp_all add: room_code_def)
  show "members ?r = members r" by (rule members_flags[OF k, of _ x]) (simp_all add: sitter_def x)
  assume ok: "room_ok r"
  then have so: "seats_ok (rm_type r) (rm_seats r)" by (simp add: room_ok_def)
  have "se_userId x = None \<Longrightarrow> \<not> se_gone x" using so k x by (simp add: seats_ok_def)
  then have "seats_ok (rm_type r) ((rm_seats r)[k := x])" by (rule seats_ok_flags[OF so k x(1,3)])
  moreover have "room_full ?r = room_full r" using x(1) by (auto simp: room_full_nth nth_upd)
  moreover have "match_part ?r" using match_part_flags[OF _ x(2)] ok by (simp add: room_ok_def)
  ultimately show "room_ok ?r" using ok by (simp add: room_ok_def)
qed

lemma setReady_inv: "rooms_inv s \<Longrightarrow> rooms_inv (snd (setReady u b s))"
proof -
  assume I: "rooms_inv s"
  have "rooms_inv (put_room (r\<lparr>rm_seats := (rm_seats r)[k := (rm_seats r ! k)\<lparr>se_ready := b\<rparr>]\<rparr>) s)"
    if "roomOf u s = Some r" "seat_index u r = Some k" for r k
  proof -
    have k: "k < length (rm_seats r)" using seat_index_Some[OF that(2)] by simp
    have g: "get_room (rm_id r) s = Some r" using that(1) roomOf_Some[OF I] by simp
    show ?thesis by (rule flag_change[OF I g k]) simp_all
  qed
  with I show ?thesis by (auto simp: setReady_def split: option.split)
qed

lemma setConnected_inv: "rooms_inv s \<Longrightarrow> rooms_inv (setConnected u b s)"
proof -
  assume I: "rooms_inv s"
  have "rooms_inv (put_room (r\<lparr>rm_seats := (rm_seats r)[k := (rm_seats r ! k)\<lparr>se_connected := b\<rparr>]\<rparr>) s)"
    if "roomOf u s = Some r" "seat_index u r = Some k" for r k
  proof -
    have k: "k < length (rm_seats r)" using seat_index_Some[OF that(2)] by simp
    have g: "get_room (rm_id r) s = Some r" using that(1) roomOf_Some[OF I] by simp
    show ?thesis by (rule flag_change[OF I g k]) simp_all
  qed
  with I show ?thesis by (auto simp: setConnected_def split: option.split)
qed

lemma switchTeam_inv: "rooms_inv s \<Longrightarrow> t < 2 \<Longrightarrow> rooms_inv (snd (switchTeam u t s))"
proof -
  assume I: "rooms_inv s" and t: "t < 2"
  have go: "rooms_inv (snd (switchTeam u t s))"
    if r: "roomOf u s = Some r" and c: "rm_type r = TwoVTwo" "rm_match r = None" and k: "seat_index u r = Some k" for r k
  proof -
    have g: "get_room (rm_id r) s = Some r" and ok: "room_ok r"
      using r roomOf_Some[OF I] rooms_invD(3)[OF I] by auto
    have so: "seats_ok TwoVTwo (rm_seats r)" using ok c(1) by (simp add: room_ok_def)
    note ku = seat_index_Some[OF k, THEN conjunct1] seat_index_Some[OF k, THEN conjunct2]
    note ng = open_room_facts(2)[OF ok disjI2[OF disjI2[OF c(2)]]]
    have new: "rooms_inv (put_room (reopen (r\<lparr>rm_seats := xs\<rparr>)) s)"
      if "seats_ok TwoVTwo xs" "members (reopen (r\<lparr>rm_seats := xs\<rparr>)) = members r" "\<And>i. i < length xs \<Longrightarrow> \<not> se_gone (xs ! i)" for xs
      by (rule inv_change[OF I g _ that(2)]) (use that(1,3) c in \<open>simp_all add: reopen_ok\<close>, simp_all add: reopen_def room_code_def)
    have mv: "rooms_inv (put_room (reopen (r\<lparr>rm_seats := move_player (rm_seats r) k f t\<rparr>)) s)"
      if "List.find (open_seat r) (team_seats t) = Some f" for f
      using move_player_ok[OF so c(1) ng ku find_open(1)[OF that] t find_open(2)[OF that]]
      by (intro new) (simp_all add: move_player_def)
    have sw: "rooms_inv (put_room (reopen (r\<lparr>rm_seats := swap_players (rm_seats r) k j\<rparr>)) s)"
      if f: "List.find (\<lambda>j. se_userId (rm_seats r ! j) \<noteq> None \<and> se_userId (rm_seats r ! j) \<noteq> Some u) (team_seats t) = Some j" for j
    proof -
      have j: "j \<in> set (team_seats t)" "se_userId (rm_seats r ! j) \<noteq> None" "se_userId (rm_seats r ! j) \<noteq> Some u"
        using f by (auto simp: find_Some_iff)
      then obtain v where v: "se_userId (rm_seats r ! j) = Some v" "v \<noteq> u" by auto
      have "j < length (rm_seats r)" using team_seats_bound[OF j(1)] so by (simp add: seats_ok_def playersForType_def)
      from swap_players_ok[OF so ng ku this v] show ?thesis by (intro new) (simp_all add: swap_players_def)
    qed
    show ?thesis using I mv sw by (auto simp: switchTeam_def r k split: option.split)
  qed
  show ?thesis
  proof (cases "\<exists>r k. roomOf u s = Some r \<and> rm_type r = TwoVTwo \<and> rm_match r = None \<and> seat_index u r = Some k")
    case True
    with go show ?thesis by blast
  next
    case False
    with I show ?thesis by (auto simp: switchTeam_def split: option.split)
  qed
qed

lemma chosen_match:
  assumes "dealer_ok (playersForType (rm_type r)) dl"
  obtains m where "room_match dl r = Inr m" "match_run (rm_type r) dl m" "m_state m \<noteq> MatchOver"
proof -
  obtain m where m: "room_match dl r = Inr m" "m_state m = PlayingGame"
    unfolding room_match_def by (rule newMatch_good[OF assms default_teams_ok])
  then have "match_run (rm_type r) dl m"
    unfolding match_run_def room_match_def by (intro exI[of _ "rm_target r"] exI[of _ m] exI[of _ "[]"]) simp
  with m that show ?thesis by simp
qed

definition dealer_for :: "(nat \<Rightarrow> dealer) \<Rightarrow> dealer option \<Rightarrow> room \<Rightarrow> dealer" where
  "dealer_for factory dealer r = (case dealer of None \<Rightarrow> factory (playersForType (rm_type r)) | Some d \<Rightarrow> d)"

lemma startMatch_inv:
  assumes I: "rooms_inv s"
    and d: "\<And>r. get_room i s = Some r \<Longrightarrow> dealer_ok (playersForType (rm_type r)) (dealer_for factory dealer r)"
  shows "rooms_inv (snd (startMatch factory i dealer s))"
    and "fst (startMatch factory i dealer s) \<noteq> Inl (MatchThrew e)"
proof -
  have "rooms_inv (snd (startMatch factory i dealer s)) \<and> fst (startMatch factory i dealer s) \<noteq> Inl (MatchThrew e)"
  proof (cases "get_room i s")
    case None
    with I show ?thesis by (simp add: startMatch_def)
  next
    case (Some r)
    obtain m where m: "room_match (dealer_for factory dealer r) r = Inr m" "match_run (rm_type r) (dealer_for factory dealer r) m" "m_state m \<noteq> MatchOver"
      by (rule chosen_match[OF d[OF Some]])
    let ?r = "r\<lparr>rm_match := Some (dealer_for factory dealer r, m), rm_status := RoomInMatch, rm_target := m_target m\<rparr>"
    have ok: "room_ok r \<Longrightarrow> room_ok ?r" using d[OF Some] m(2,3) by (simp add: room_ok_def match_part_def)
    have "rooms_inv (put_room ?r s)" by (rule inv_change[OF I Some _ _ _ ok]) (simp_all add: members_def)
    with I Some m(1) show ?thesis by (simp add: startMatch_def Let_def dealer_for_def)
  qed
  then show "rooms_inv (snd (startMatch factory i dealer s))"
    "fst (startMatch factory i dealer s) \<noteq> Inl (MatchThrew e)" by simp_all
qed

lemma live_match_Some:
  assumes "rooms_inv s" "live_match u s = Some (r, dl, m)"
  shows "get_room (rm_id r) s = Some r" "u \<in> members r" "room_ok r" "rm_match r = Some (dl, m)"
    "rm_status r = RoomInMatch"
    "dealer_ok (playersForType (rm_type r)) dl" "match_run (rm_type r) dl m"
    "match_good (playersForType (rm_type r)) m"
proof -
  have r: "roomOf u s = Some r" "rm_match r = Some (dl, m)" "rm_status r = RoomInMatch"
    using assms(2) by (auto simp: live_match_def split: option.splits if_splits)
  then show g: "get_room (rm_id r) s = Some r" "u \<in> members r" using roomOf_Some[OF assms(1)] by simp_all
  show ok: "room_ok r" by (rule rooms_invD(3)[OF assms(1) g(1)])
  show "rm_match r = Some (dl, m)" "rm_status r = RoomInMatch" using r by simp_all
  show d: "dealer_ok (playersForType (rm_type r)) dl" "match_run (rm_type r) dl m"
    using ok r by (simp_all add: room_ok_def match_part_def)
  show "match_good (playersForType (rm_type r)) m" by (rule match_run_good[OF d(2,1)])
qed

lemma reflect_match_simps [simp]:
  "rm_id (reflect_match dl m r) = rm_id r" "members (reflect_match dl m r) = members r"
  "room_code (reflect_match dl m r) = room_code r"
  by (simp_all add: reflect_match_def members_def)

lemma reflect_ok:
  assumes "room_ok r" "rm_status r = RoomInMatch" "dealer_ok (playersForType (rm_type r)) dl"
    and "match_run (rm_type r) dl m"
  shows "room_ok (reflect_match dl m r)"
  using assms by (auto simp: reflect_match_def room_ok_def match_part_def)

text \<open>An action of the orchestrator by the seat of the user.\<close>

lemma forward_inv:
  assumes I: "rooms_inv s"
    and a: "\<And>dl k. act dl k = match_apply dl (op k)"
  shows "rooms_inv (snd (forward u act s))" "fst (forward u act s) \<noteq> Inl e"
proof -
  have "rooms_inv (snd (forward u act s)) \<and> fst (forward u act s) \<noteq> Inl e"
  proof (cases "\<exists>r dl m k. live_match u s = Some (r, dl, m) \<and> seat_index u r = Some k")
    case False
    with I show ?thesis by (auto simp: forward_def split: option.split)
  next
    case True
    then obtain r dl m k where l: "live_match u s = Some (r, dl, m)" and k: "seat_index u r = Some k" by blast
    note L = live_match_Some[OF I l]
    have mi: "match_inv m" "dealer_ok (m_numPlayers m) dl" using L(6,8) by (simp_all add: match_good_def)
    obtain res m' where ap: "match_apply dl (op k) m = (Inr res, m')" by (rule match_apply_inv[OF mi])
    then have mg: "match_run (rm_type r) dl m'"
      using match_run_step[OF L(7), of "op k"] by (simp add: match_step_def)
    have "rooms_inv (put_room (reflect_match dl m' r) s)"
      by (rule inv_change[OF I L(1) _ _ _ reflect_ok[OF _ L(5,6) mg]]) simp_all
    with l k ap show ?thesis by (simp add: forward_def a)
  qed
  then show "rooms_inv (snd (forward u act s))" "fst (forward u act s) \<noteq> Inl e" by simp_all
qed

lemma mark_gone_ok:
  assumes "room_ok r" "rm_status r = RoomInMatch" "seat_index u r = Some k"
  shows "room_ok (mark_gone k r)" "members (mark_gone k r) = members r - {u}"
proof -
  have so: "seats_ok (rm_type r) (rm_seats r)" using assms(1) by (simp add: room_ok_def)
  note ku = seat_index_Some[OF assms(3), THEN conjunct1] seat_index_Some[OF assms(3), THEN conjunct2]
  let ?x = "(rm_seats r ! k)\<lparr>se_gone := True, se_connected := False, se_ready := False\<rparr>"
  have "seats_ok (rm_type r) ((rm_seats r)[k := ?x])"
    by (rule seats_ok_flags[OF so]) (use ku in simp_all)
  with assms(1,2) show "room_ok (mark_gone k r)"
    by (auto simp: mark_gone_def room_ok_def match_part_def split: option.splits)
  show "members (mark_gone k r) = members r - {u}"
    by (rule members_removed[OF so ku, of _ ?x]) (simp_all add: mark_gone_def sitter_def)
qed

lemma room_forfeitSeat_inv:
  assumes I: "rooms_inv s"
  shows "rooms_inv (snd (room_forfeitSeat u s))" "fst (room_forfeitSeat u s) \<noteq> Inl e"
proof -
  have "rooms_inv (snd (room_forfeitSeat u s)) \<and> fst (room_forfeitSeat u s) \<noteq> Inl e"
  proof (cases "\<exists>r dl m k. live_match u s = Some (r, dl, m) \<and> seat_index u r = Some k")
    case False
    with I show ?thesis by (auto simp: room_forfeitSeat_def split: option.split)
  next
    case True
    then obtain r dl m k where l: "live_match u s = Some (r, dl, m)" and k: "seat_index u r = Some k" by blast
    note L = live_match_Some[OF I l]
    have mi: "match_inv m" "dealer_ok (m_numPlayers m) dl" using L(6,8) by (simp_all add: match_good_def)
    obtain res m' where ap: "match_apply dl (MForfeit k) m = (Inr res, m')" by (rule match_apply_inv[OF mi])
    then have mg: "match_run (rm_type r) dl m'"
      using match_run_step[OF L(7), of "MForfeit k"] by (simp add: match_step_def)
    have u: "roomIdOf u s = Some (rm_id r)" using L(1,2) rooms_invD(5)[OF I] by blast
    have f: "rm_type (mark_gone k r) = rm_type r" "rm_status (mark_gone k r) = rm_status r"
      "rm_id (mark_gone k r) = rm_id r" "room_code (mark_gone k r) = room_code r" by (simp_all add: mark_gone_def)
    have "rooms_inv (put_room (reflect_match dl m' r) s)"
      by (rule inv_change[OF I L(1) _ _ _ reflect_ok[OF _ L(5,6) mg]]) simp_all
    moreover have "rooms_inv (put_room (reflect_match dl m' (mark_gone k r)) (del_user_room u s))"
    proof (rule inv_remove_member[OF I L(1)])
      show "room_ok (reflect_match dl m' (mark_gone k r))"
        by (rule reflect_ok) (use mark_gone_ok(1)[OF L(3,5) k] f L(5,6) mg in simp_all)
      show "members (reflect_match dl m' (mark_gone k r)) = members r - {u}"
        using mark_gone_ok(2)[OF L(3,5) k] by simp
    qed (simp_all add: f u)
    ultimately show ?thesis using l k ap by (simp add: room_forfeitSeat_def Let_def)
  qed
  then show "rooms_inv (snd (room_forfeitSeat u s))" "fst (room_forfeitSeat u s) \<noteq> Inl e" by simp_all
qed

lemma irrelevant_fields [simp]:
  "members (r\<lparr>rm_matchId := i\<rparr>) = members r" "members (r\<lparr>rm_matchSeq := n\<rparr>) = members r"
  "members (r\<lparr>rm_practice := b\<rparr>) = members r" "members (r\<lparr>rm_invited := us\<rparr>) = members r"
  "room_ok (r\<lparr>rm_matchId := i\<rparr>) = room_ok r" "room_ok (r\<lparr>rm_matchSeq := n\<rparr>) = room_ok r"
  "room_ok (r\<lparr>rm_practice := b\<rparr>) = room_ok r" "room_ok (r\<lparr>rm_invited := us\<rparr>) = room_ok r"
  by (auto simp: members_def room_ok_def match_part_def room_full_def split: option.splits)

lemma seats_ok_map:
  assumes "seats_ok ty xs"
    and "\<And>x. se_userId (f x) \<noteq> None \<Longrightarrow> se_userId (f x) = se_userId x \<and> se_team (f x) = se_team x"
    and "\<And>x. se_gone (f x) \<Longrightarrow> se_userId (f x) = se_userId x \<and> se_gone x"
  shows "seats_ok ty (map f xs)"
  unfolding seats_ok_def length_map
proof (intro conjI allI impI)
  show "length xs = playersForType ty" using assms(1) by (simp add: seats_ok_def)
next
  fix j k assume a: "j < length xs" "k < length xs" "se_userId (map f xs ! j) \<noteq> None"
    "se_userId (map f xs ! j) = se_userId (map f xs ! k)"
  show "j = k"
    by (rule seats_ok_uniq[OF assms(1) a(1,2)]) (use a assms(2)[of "xs ! j"] assms(2)[of "xs ! k"] in auto)
next
  fix k assume "k < length xs" "se_userId (map f xs ! k) = None"
  then show "\<not> se_gone (map f xs ! k)" using assms(1) assms(3)[of "xs ! k"] by (auto simp: seats_ok_def)
next
  fix k assume "k < length xs" "se_userId (map f xs ! k) \<noteq> None"
  then show "se_team (map f xs ! k) = seat_team ty k"
    using assms(1) assms(2)[of "xs ! k"] by (auto simp: seats_ok_def)
qed

definition no_gone :: "string \<Rightarrow> room_manager \<Rightarrow> bool" where
  "no_gone i s = (case get_room i s of None \<Rightarrow> True | Some r \<Rightarrow> list_all (\<lambda>x. \<not> se_gone x) (rm_seats r))"

lemma no_gone_nth: "no_gone i s \<Longrightarrow> get_room i s = Some r \<Longrightarrow> k < length (rm_seats r) \<Longrightarrow> \<not> se_gone (rm_seats r ! k)"
  by (simp add: no_gone_def list_all_length)

lemma resetForRematch_inv:
  assumes I: "rooms_inv s" and n: "no_gone i s"
  shows "rooms_inv (snd (resetForRematch i s))"
proof -
  have "rooms_inv (put_room (r\<lparr>rm_match := None, rm_target := rs_startTarget s, rm_status := RoomWaiting,
      rm_seats := map (\<lambda>x. x\<lparr>se_ready := False\<rparr>) (rm_seats r)\<rparr>) s)" (is "rooms_inv (put_room ?r s)")
    if r: "get_room i s = Some r" for r
  proof (rule inv_change[OF I r])
    show "members ?r = members r" by (simp add: members_def sitter_def)
    assume "room_ok r"
    then have "seats_ok (rm_type r) (rm_seats r)" by (simp add: room_ok_def)
    then have "seats_ok (rm_type r) (map (\<lambda>x. x\<lparr>se_ready := False\<rparr>) (rm_seats r))" by (rule seats_ok_map) simp_all
    then show "room_ok ?r" using no_gone_nth[OF n r] by (simp add: room_ok_def match_part_def)
  qed simp_all
  with I show ?thesis by (auto simp: resetForRematch_def split: option.split)
qed

lemma clearGoneSeats_inv:
  assumes I: "rooms_inv s"
  shows "rooms_inv (clearGoneSeats i s)"
proof -
  have "rooms_inv (put_room (r\<lparr>rm_seats := map (\<lambda>x. if se_gone x then emptySeat else x) (rm_seats r)\<rparr>) s)"
    (is "rooms_inv (put_room ?r s)") if r: "get_room i s = Some r" for r
  proof (rule inv_change[OF I r])
    have "sitter (if se_gone x then emptySeat else x) = sitter x" for x by (simp add: sitter_def)
    then show "members ?r = members r" by (simp add: members_def)
    assume ok: "room_ok r"
    then have so: "seats_ok (rm_type r) (rm_seats r)" by (simp add: room_ok_def)
    from so have "seats_ok (rm_type r) (map (\<lambda>x. if se_gone x then emptySeat else x) (rm_seats r))"
      by (rule seats_ok_map) (simp_all split: if_splits)
    moreover have "rm_status r = RoomReady \<Longrightarrow> room_full ?r"
      using ok open_room_facts(2)[OF ok] by (simp add: room_ok_def room_full_nth)
    moreover have "match_part ?r" using ok by (auto simp: room_ok_def match_part_def split: option.splits)
    ultimately show "room_ok ?r" by (simp add: room_ok_def)
  qed simp_all
  with I show ?thesis by (auto simp: clearGoneSeats_def split: option.split)
qed

lemma assignMatchId_inv:
  assumes I: "rooms_inv s"
  shows "rooms_inv (snd (assignMatchId i s))"
proof -
  have "rooms_inv (put_room (r\<lparr>rm_matchSeq := n, rm_matchId := mid\<rparr>) s)" if r: "get_room i s = Some r" for r n mid
    by (rule inv_change[OF I r]) simp_all
  with I show ?thesis by (simp add: assignMatchId_def Let_def split: option.split)
qed

lemma markInvited_inv:
  assumes I: "rooms_inv s"
  shows "rooms_inv (markInvited i u s)"
proof -
  have "rooms_inv (put_room (r\<lparr>rm_invited := us\<rparr>) s)" if r: "get_room i s = Some r" for r us
    by (rule inv_change[OF I r]) simp_all
  with I show ?thesis by (simp add: markInvited_def split: option.split)
qed

lemma markPractice_inv:
  assumes I: "rooms_inv s"
  shows "rooms_inv (markPractice i s)"
proof -
  have "rooms_inv (put_room (r\<lparr>rm_practice := True\<rparr>) s)" if r: "get_room i s = Some r" for r
    by (rule inv_change[OF I r]) simp_all
  with I show ?thesis by (simp add: markPractice_def split: option.split)
qed

lemma markFinished_inv:
  assumes I: "rooms_inv s"
  shows "rooms_inv (markFinished i s)"
proof -
  have "rooms_inv (put_room (r\<lparr>rm_status := RoomFinished, rm_target := t\<rparr>) s)" if r: "get_room i s = Some r" for r t
    by (rule inv_change[OF I r])
       (auto simp: members_def room_ok_def match_part_def room_full_def split: option.splits)
  with I show ?thesis by (simp add: markFinished_def split: option.split)
qed

text \<open>A removal: the mapping of every seated user goes, then the room.\<close>

lemma del_users_simps [simp]:
  "get_room i (foldl (\<lambda>s u. del_user_room u s) s us) = get_room i s"
  "roomIdOf v (foldl (\<lambda>s u. del_user_room u s) s us) = (if v \<in> set us then None else roomIdOf v s)"
  "keyed (foldl (\<lambda>s u. del_user_room u s) s us) = keyed s"
  "rs_seq (foldl (\<lambda>s u. del_user_room u s) s us) = rs_seq s"
  "code_of i (foldl (\<lambda>s u. del_user_room u s) s us) = code_of i s"
  by (induction us arbitrary: s) auto

lemma members_seated:
  assumes "\<And>k. k < length (rm_seats r) \<Longrightarrow> \<not> se_gone (rm_seats r ! k)"
  shows "members r = set (seated_users r)"
proof -
  have "set (seated_users r) = (\<Union>x\<in>set (rm_seats r). set_option (se_userId x))"
    by (force simp: seated_users_def List.map_filter_def)
  also have "\<dots> = (\<Union>k<length (rm_seats r). set_option (se_userId (rm_seats r ! k)))"
    by (force simp: in_set_conv_nth)
  finally show ?thesis using assms by (simp add: members_def sitter_def)
qed

lemma deleteRoom_inv:
  assumes I: "rooms_inv s" and n: "no_gone i s"
  shows "rooms_inv (deleteRoom i s)"
proof (cases "get_room i s")
  case None
  with I show ?thesis by (simp add: deleteRoom_def)
next
  case (Some r)
  note D = rooms_invD[OF I]
  let ?s = "del_room i (foldl (\<lambda>s u. del_user_room u s) s (seated_users r))"
  have m: "members r = set (seated_users r)" by (rule members_seated) (rule no_gone_nth[OF n Some])
  have "rooms_inv ?s" unfolding rooms_inv_def
  proof (intro conjI allI impI)
    show "keyed ?s" using D(1) by simp
  next
    fix j q assume "get_room j ?s = Some q"
    then show "rm_id q = j" "room_ok q" "\<exists>n\<le>rs_seq ?s. j = new_room_id n" using D(2-4)[of j q] by (auto split: if_splits)
  next
    fix u j
    have "roomIdOf u s = Some i \<longleftrightarrow> u \<in> members r" using D(5)[of u i] Some by simp
    then show "roomIdOf u ?s = Some j \<longleftrightarrow> (\<exists>q. get_room j ?s = Some q \<and> u \<in> members q)"
      using D(5)[of u j] m Some by (cases "j = i") auto
  next
    fix j k c assume "code_of j ?s = Some c" "code_of k ?s = Some c"
    then show "j = k" using D(6)[of j c k] by (simp split: if_splits)
  qed
  with Some show ?thesis by (simp add: deleteRoom_def)
qed

end
