(* ===== verification/Room_Properties.thy ===== *)
theory Room_Properties
  imports Room_Safety
begin

text \<open>
  The histories of the room manager as an inductive relation, and the properties of the rooms in
  every reachable state.
\<close>

subsection \<open>Histories\<close>

datatype room_op =
  RCreate "nat \<Rightarrow> nat \<Rightarrow> nat" acting_user create_payload int
| RTournament match_type tournament_meta int
| RClubWar club_war_meta int
| RInvite string user_id
| RJoin acting_user string "nat option"
| RLeave user_id
| RReady user_id bool
| RSwitchTeam user_id nat
| RStart string "dealer option"
| RPlay user_id "card list"
| RPass user_id
| RSwitch user_id card
| RForfeit user_id
| RReset string
| RClearGone string
| RConnected user_id bool
| RAssignId string
| RDelete string
| RFinished string
| RPractice string

text \<open>An operation gives the exception it threw, if any, and the new manager.\<close>

definition thrown_by :: "match_error + 'a \<Rightarrow> match_error option" where
  "thrown_by res = (case res of Inl e \<Rightarrow> Some e | Inr _ \<Rightarrow> None)"

definition start_thrown :: "room_error + unit \<Rightarrow> match_error option" where
  "start_thrown res = (case res of Inl (MatchThrew e) \<Rightarrow> Some e | _ \<Rightarrow> None)"

fun room_apply :: "(nat \<Rightarrow> dealer) \<Rightarrow> room_op \<Rightarrow> room_manager \<Rightarrow> match_error option \<times> room_manager" where
  "room_apply f (RCreate rnd user p now) s = (None, snd (createRoom rnd user p now s))"
| "room_apply f (RTournament ty meta now) s = (None, snd (createTournamentRoom ty meta now s))"
| "room_apply f (RClubWar meta now) s = (None, snd (createClubWarRoom meta now s))"
| "room_apply f (RInvite i u) s = (None, markInvited i u s)"
| "room_apply f (RJoin user i team) s = (None, snd (joinRoom user i team s))"
| "room_apply f (RLeave u) s = (None, snd (leaveRoom u s))"
| "room_apply f (RReady u b) s = (None, snd (setReady u b s))"
| "room_apply f (RSwitchTeam u t) s = (None, snd (switchTeam u t s))"
| "room_apply f (RStart i d) s = map_prod start_thrown id (startMatch f i d s)"
| "room_apply f (RPlay u cards) s = map_prod thrown_by id (room_play u cards s)"
| "room_apply f (RPass u) s = map_prod thrown_by id (room_pass u s)"
| "room_apply f (RSwitch u c) s = map_prod thrown_by id (room_switchGive u c s)"
| "room_apply f (RForfeit u) s = map_prod thrown_by id (room_forfeitSeat u s)"
| "room_apply f (RReset i) s = (None, snd (resetForRematch i s))"
| "room_apply f (RClearGone i) s = (None, clearGoneSeats i s)"
| "room_apply f (RConnected u b) s = (None, setConnected u b s)"
| "room_apply f (RAssignId i) s = (None, snd (assignMatchId i s))"
| "room_apply f (RDelete i) s = (None, deleteRoom i s)"
| "room_apply f (RFinished i) s = (None, markFinished i s)"
| "room_apply f (RPractice i) s = (None, markPractice i s)"

definition new_manager :: "int \<Rightarrow> string \<Rightarrow> room_manager" where
  "new_manager target tag =
     \<lparr>rs_rooms = [], rs_userRoom = [], rs_startTarget = target, rs_seq = 0, rs_instanceTag = tag\<rparr>"

text \<open>What the gateway asks for, and the dealers it passes.\<close>

definition proper_op :: "room_manager \<Rightarrow> room_op \<Rightarrow> bool" where
  "proper_op s op =
     (case op of
        RSwitchTeam u t \<Rightarrow> t < 2
      | RStart i (Some d) \<Rightarrow>
          (case get_room i s of None \<Rightarrow> True | Some r \<Rightarrow> dealer_ok (playersForType (rm_type r)) d)
      | RReset i \<Rightarrow> no_gone i s
      | RDelete i \<Rightarrow> no_gone i s
      | _ \<Rightarrow> True)"

definition factory_ok :: "(nat \<Rightarrow> dealer) \<Rightarrow> bool" where
  "factory_ok f \<longleftrightarrow> (\<forall>ty. dealer_ok (playersForType ty) (f (playersForType ty)))"

inductive rooms_reach :: "(nat \<Rightarrow> dealer) \<Rightarrow> room_manager \<Rightarrow> bool" for f where
  start: "rooms_reach f (new_manager target tag)"
| step: "rooms_reach f s \<Longrightarrow> proper_op s op \<Longrightarrow> rooms_reach f (snd (room_apply f op s))"

inductive_cases rooms_reach_cases: "rooms_reach f s"

lemma new_manager_inv: "rooms_inv (new_manager target tag)"
  by (simp add: rooms_inv_def new_manager_def keyed_def get_room_def roomIdOf_def code_of_def)

lemmas room_op_invs =
  createRoom_inv createTournamentRoom_inv createClubWarRoom_inv markInvited_inv joinRoom_inv leaveRoom_inv
  setReady_inv clearGoneSeats_inv setConnected_inv assignMatchId_inv markFinished_inv markPractice_inv

lemma forwarded_inv:
  assumes "rooms_inv s"
  shows "rooms_inv (snd (room_play u cards s))" "rooms_inv (snd (room_pass u s))" "rooms_inv (snd (room_switchGive u c s))"
    and "fst (room_play u cards s) \<noteq> Inl e" "fst (room_pass u s) \<noteq> Inl e" "fst (room_switchGive u c s) \<noteq> Inl e"
  unfolding room_play_def room_pass_def room_switchGive_def
  by (rule forward_inv[OF assms, of _ "\<lambda>k. MPlay k cards"] forward_inv[OF assms, of _ MPass]
        forward_inv[OF assms, of _ "\<lambda>k. MSwitch k c"]; simp)+

lemma room_apply_inv:
  assumes I: "rooms_inv s" and f: "factory_ok f" and p: "proper_op s op"
  shows "rooms_inv (snd (room_apply f op s))" "fst (room_apply f op s) = None"
proof -
  have start: "rooms_inv (snd (startMatch f i d s))" "fst (startMatch f i d s) \<noteq> Inl (MatchThrew e)"
    if "op = RStart i d" for i d e
  proof -
    have "dealer_ok (playersForType (rm_type r)) (dealer_for f d r)" if "get_room i s = Some r" for r
      using p f \<open>op = RStart i d\<close> that by (auto simp: proper_op_def dealer_for_def factory_ok_def split: option.split)
    from startMatch_inv[OF I this] show "rooms_inv (snd (startMatch f i d s))"
      "fst (startMatch f i d s) \<noteq> Inl (MatchThrew e)" by simp_all
  qed
  show "rooms_inv (snd (room_apply f op s))"
    by (cases op) (use I p start in \<open>simp_all add: room_op_invs forwarded_inv room_forfeitSeat_inv proper_op_def
        switchTeam_inv resetForRematch_inv deleteRoom_inv\<close>)
  have n: "thrown_by res = None" if "\<And>e. res \<noteq> Inl e" for res :: "match_error + 'b"
    using that by (cases res) (auto simp: thrown_by_def)
  have ns: "start_thrown res = None" if "\<And>e. res \<noteq> Inl (MatchThrew e)" for res
    using that by (auto simp: start_thrown_def split: sum.split room_error.split)
  show "fst (room_apply f op s) = None"
    by (cases op) (use I start in \<open>simp_all add: n ns forwarded_inv room_forfeitSeat_inv\<close>)
qed

lemma reach_inv: "rooms_reach f s \<Longrightarrow> factory_ok f \<Longrightarrow> rooms_inv s"
  by (induction rule: rooms_reach.induct) (simp_all add: new_manager_inv room_apply_inv)

subsection \<open>The manager of the server as an invariant system\<close>

definition room_step :: "(nat \<Rightarrow> dealer) \<Rightarrow> room_manager \<Rightarrow> room_op \<Rightarrow> room_manager" where
  "room_step f s op = (if proper_op s op then snd (room_apply f op s) else s)"

lemma server_factory_ok: "factory_ok (crypto_dealer bytes)"
  unfolding factory_ok_def using crypto.dealer_is_ok by blast

interpretation server_rooms: invariant_system "room_step (crypto_dealer bytes)" rooms_inv for bytes
  by unfold_locales (simp add: room_step_def room_apply_inv server_factory_ok)

lemma step_reach: "rooms_reach f s \<Longrightarrow> rooms_reach f (room_step f s op)"
  by (simp add: room_step_def rooms_reach.step)

lemma run_reach: "rooms_reach f s \<Longrightarrow> rooms_reach f (foldl (room_step f) s ops)"
  by (induction ops arbitrary: s) (simp_all add: step_reach)

text \<open>Operations that are proper in every state.\<close>

definition plain_op :: "room_op \<Rightarrow> bool" where
  "plain_op op =
     (case op of RSwitchTeam u t \<Rightarrow> t < 2 | RStart i d \<Rightarrow> d = None | RReset i \<Rightarrow> False | RDelete i \<Rightarrow> False | _ \<Rightarrow> True)"

lemma plain_proper: "plain_op op \<Longrightarrow> proper_op s op"
  by (cases op) (auto simp: plain_op_def proper_op_def)

lemma plain_run_reach:
  "rooms_reach f s \<Longrightarrow> list_all plain_op ops \<Longrightarrow> rooms_reach f (foldl (\<lambda>s op. snd (room_apply f op s)) s ops)"
  by (induction ops arbitrary: s) (simp_all add: rooms_reach.step plain_proper)

subsection \<open>A small history\<close>

definition demo_factory :: "nat \<Rightarrow> dealer" where
  "demo_factory n k = map (\<lambda>i. map (\<lambda>r. Standard r ([Spades, Clubs, Diamonds, Hearts] ! i)) [R3, R4]) [0..<n]"

lemma demo_factory_ok: "factory_ok demo_factory"
proof -
  have "list_all (\<lambda>n. distinct (concat (demo_factory n 0))) [2, 3, 4]" by code_simp
  then have d: "distinct (concat (demo_factory n k))" if "n \<in> {2, 3, 4}" for n k
    using that by (auto simp: demo_factory_def)
  have "dealer_ok n (demo_factory n)" if "n \<in> {2, 3, 4}" for n
    using d[OF that] by (auto simp: dealer_ok_def) (auto simp: demo_factory_def)
  with playersForType_range show ?thesis unfolding factory_ok_def by blast
qed

definition demo_user :: "char \<Rightarrow> acting_user" where
  "demo_user c = \<lparr>ac_userId = [c], ac_username = [c], ac_avatar = None\<rparr>"

definition demo_payload :: create_payload where
  "demo_payload = \<lparr>cp_type = Some OneVOne, cp_stakeCents = 0, cp_team = None, cp_ranked = False,
     cp_practice = False, cp_private = False\<rparr>"

definition demo_ops :: "room_op list" where
  "demo_ops =
     [RCreate (\<lambda>k i. 0) (demo_user CHR ''a'') demo_payload 0, RJoin (demo_user CHR ''b'') ''room_1'' None,
      RStart ''room_1'' None, RForfeit ''a'', RLeave ''b'', RClearGone ''room_1'']"

definition demo_after :: "nat \<Rightarrow> room_manager" where
  "demo_after n = foldl (\<lambda>s op. snd (room_apply demo_factory op s)) (new_manager 21 ''x'') (take n demo_ops)"

lemma demo_reach: "rooms_reach demo_factory (demo_after n)"
proof -
  have "list_all plain_op demo_ops" by code_simp
  then have "list_all plain_op (take n demo_ops)" by (auto simp: list_all_iff dest: in_set_takeD)
  then show ?thesis unfolding demo_after_def by (rule plain_run_reach[OF rooms_reach.start])
qed

subsection \<open>Properties\<close>

lemma match_run_type: "match_run ty dl m \<Longrightarrow> dealer_ok (playersForType ty) dl \<Longrightarrow> m_type m = ty"
proof -
  assume r: "match_run ty dl m" and d: "dealer_ok (playersForType ty) dl"
  then obtain target m0 ops where
    m0: "newMatch dl ty (Some target) None (if ty = TwoVTwo then Some DEFAULT_TEAMS else None) = Inr m0"
    and m: "m = foldl (match_step dl) m0 ops" by (auto simp: match_run_def)
  have "m_type m0 = ty" using newMatch_good[OF d default_teams_ok, of "Some target" None] m0 by auto
  moreover have "m_type (foldl (match_step dl) m' ops) = m_type m'" for m'
    using shape_match_apply by (induction ops arbitrary: m') (auto simp: match_step_def shape_def)
  ultimately show ?thesis by (simp add: m)
qed

lemma seat_team_mod: "k < playersForType ty \<Longrightarrow> seat_team ty k = (if ty = TwoVTwo then Some (k mod 2) else None)"
proof -
  assume k: "k < playersForType ty"
  have "ty = TwoVTwo \<Longrightarrow> k \<in> set [0, 1, 2, 3]" using k by (simp add: playersForType_def) arith
  then show ?thesis by (auto simp: seat_team_def team_seats_def DEFAULT_TEAMS_def)
qed

lemma seats_ok_team: "seats_ok ty xs \<Longrightarrow> k < length xs \<Longrightarrow> se_userId (xs ! k) \<noteq> None \<Longrightarrow> se_team (xs ! k) = seat_team ty k"
  by (simp add: seats_ok_def)

text \<open>C22: rooms are well formed. Every room of every reachable state has its own number, one
  seat per player of its match type, no user on two seats, and the team of an occupied seat is the
  team of its place; a room that waits holds no match, a room that is ready is full, and a room
  shown as in a match holds a match of its own type that is not over, with the target it shows.\<close>

theorem rooms_wellformed:
  assumes "rooms_reach f s" "factory_ok f" "get_room i s = Some r"
  shows "rm_id r = i \<and> length (rm_seats r) = playersForType (rm_type r) \<and>
    (\<forall>j k. j < k \<and> k < length (rm_seats r) \<and> se_userId (rm_seats r ! j) \<noteq> None \<longrightarrow>
       se_userId (rm_seats r ! j) \<noteq> se_userId (rm_seats r ! k)) \<and>
    (\<forall>k<length (rm_seats r). se_userId (rm_seats r ! k) \<noteq> None \<longrightarrow>
       se_team (rm_seats r ! k) = (if rm_type r = TwoVTwo then Some (k mod 2) else None)) \<and>
    (case rm_status r of
       RoomWaiting \<Rightarrow> rm_match r = None
     | RoomReady \<Rightarrow> rm_match r = None \<and> room_full r
     | RoomInMatch \<Rightarrow> (\<exists>dl m. rm_match r = Some (dl, m) \<and> m_state m \<noteq> MatchOver \<and> m_type m = rm_type r \<and>
         rm_target r = m_target m)
     | RoomFinished \<Rightarrow> True)"
proof -
  have I: "rooms_inv s" by (rule reach_inv[OF assms(1,2)])
  have id: "rm_id r = i" and ok: "room_ok r" using rooms_invD(2,3)[OF I assms(3)] by simp_all
  have so: "seats_ok (rm_type r) (rm_seats r)" using ok by (simp add: room_ok_def)
  have uniq: "se_userId (rm_seats r ! j) \<noteq> se_userId (rm_seats r ! k)"
    if "j < k \<and> k < length (rm_seats r) \<and> se_userId (rm_seats r ! j) \<noteq> None" for j k
  proof
    assume "se_userId (rm_seats r ! j) = se_userId (rm_seats r ! k)"
    with that have "j = k" by (intro seats_ok_uniq[OF so]) simp_all
    with that show False by simp
  qed
  have len: "length (rm_seats r) = playersForType (rm_type r)" using so by (simp add: seats_ok_def)
  have team: "se_team (rm_seats r ! k) = (if rm_type r = TwoVTwo then Some (k mod 2) else None)"
    if k: "k < length (rm_seats r)" and u: "se_userId (rm_seats r ! k) \<noteq> None" for k
  proof -
    have "se_team (rm_seats r ! k) = seat_team (rm_type r) k" by (rule seats_ok_team[OF so k u])
    also have "\<dots> = (if rm_type r = TwoVTwo then Some (k mod 2) else None)" by (rule seat_team_mod) (use k len in simp)
    finally show ?thesis .
  qed
  have st: "case rm_status r of
       RoomWaiting \<Rightarrow> rm_match r = None
     | RoomReady \<Rightarrow> rm_match r = None \<and> room_full r
     | RoomInMatch \<Rightarrow> (\<exists>dl m. rm_match r = Some (dl, m) \<and> m_state m \<noteq> MatchOver \<and> m_type m = rm_type r \<and>
         rm_target r = m_target m)
     | RoomFinished \<Rightarrow> True"
    using ok match_run_type by (auto simp: room_ok_def match_part_def split: room_status.split option.splits)
  show ?thesis using id len uniq team st by blast
qed

lemma demo_room_exists: "get_room ''room_1'' (demo_after 3) \<noteq> None"
  by code_simp

theorem rooms_wellformed_witness:
  "\<exists>r. get_room ''room_1'' (demo_after 3) = Some r \<and> rm_id r = ''room_1'' \<and> length (rm_seats r) = playersForType (rm_type r)"
  using demo_room_exists rooms_wellformed[OF demo_reach demo_factory_ok, of "''room_1''" 3] by blast

text \<open>C9: a user is in at most one room, and the map from users to rooms says which. In every
  reachable state the map sends a user to a room exactly when the user sits there and has not left
  the match; the room is then found, the user has exactly one seat in it, and a user the map does
  not know holds no seat anywhere except a seat kept for the display after leaving a match.\<close>

theorem rooms_membership:
  assumes "rooms_reach f s" "factory_ok f"
  shows "(roomIdOf u s = Some i \<longleftrightarrow>
      (\<exists>r k. get_room i s = Some r \<and> k < length (rm_seats r) \<and> se_userId (rm_seats r ! k) = Some u \<and>
         \<not> se_gone (rm_seats r ! k))) \<and>
    (roomIdOf u s = Some i \<longrightarrow>
       (\<exists>r k. roomOf u s = Some r \<and> rm_id r = i \<and> seatOf i u s = int k \<and>
          (\<forall>j<length (rm_seats r). se_userId (rm_seats r ! j) = Some u \<longrightarrow> j = k)))"
proof -
  have I: "rooms_inv s" by (rule reach_inv[OF assms])
  have m: "u \<in> members r \<longleftrightarrow> (\<exists>k<length (rm_seats r). se_userId (rm_seats r ! k) = Some u \<and> \<not> se_gone (rm_seats r ! k))" for r
    by (auto simp: members_def sitter_def split: if_splits)
  have "\<exists>r k. roomOf u s = Some r \<and> rm_id r = i \<and> seatOf i u s = int k \<and>
          (\<forall>j<length (rm_seats r). se_userId (rm_seats r ! j) = Some u \<longrightarrow> j = k)" if i: "roomIdOf u s = Some i"
  proof -
    obtain r where r: "get_room i s = Some r" "rm_id r = i" "room_ok r" "u \<in> members r"
      by (rule roomIdOf_Some_room[OF I i])
    obtain k where k: "seat_index u r = Some k"
      using r(4) seat_index_None[of u r] unfolding m by (cases "seat_index u r") auto
    note ku = seat_index_Some[OF k]
    have "seats_ok (rm_type r) (rm_seats r)" using r(3) by (simp add: room_ok_def)
    then have "\<forall>j<length (rm_seats r). se_userId (rm_seats r ! j) = Some u \<longrightarrow> j = k"
      using seats_ok_uniq[of "rm_type r" "rm_seats r" _ k] ku by auto
    moreover have "roomOf u s = Some r" using i r(1) by (simp add: roomOf_def)
    ultimately show ?thesis using r(1,2) k by (auto simp: seatOf_def)
  qed
  moreover have "roomIdOf u s = Some i \<longleftrightarrow> (\<exists>r. get_room i s = Some r \<and> u \<in> members r)" by (rule rooms_invD(5)[OF I])
  ultimately show ?thesis unfolding m by blast
qed

theorem rooms_membership_witness:
  "roomIdOf ''b'' (demo_after 4) = Some ''room_1'' \<longleftrightarrow>
    (\<exists>r k. get_room ''room_1'' (demo_after 4) = Some r \<and> k < length (rm_seats r) \<and>
       se_userId (rm_seats r ! k) = Some ''b'' \<and> \<not> se_gone (rm_seats r ! k))"
  using rooms_membership[OF demo_reach demo_factory_ok, of "''b''" 4 "''room_1''"] by blast

text \<open>No request on a room ever throws. In every reachable state every proper operation
  returns without an exception from the match behind the room: starting a match, playing, passing,
  returning a card and leaving the match included.\<close>

theorem rooms_never_throw:
  assumes "rooms_reach f s" "factory_ok f" "proper_op s op"
  shows "fst (room_apply f op s) = None"
  by (rule room_apply_inv(2)[OF reach_inv[OF assms(1,2)] assms(2,3)])

theorem rooms_never_throw_witness: "fst (room_apply demo_factory (RPass ''a'') (demo_after 3)) = None"
  by (rule rooms_never_throw[OF demo_reach demo_factory_ok]) (simp add: proper_op_def)


lemma demo_match_exists: "Option.bind (get_room ''room_1'' (demo_after 3)) (\<lambda>r. map_option (m_gameIndex \<circ> snd) (rm_match r)) = Some 0"
  by code_simp


subsubsection \<open>Joining\<close>

definition free_for :: "room \<Rightarrow> nat option \<Rightarrow> nat \<Rightarrow> bool" where
  "free_for r team k =
     (se_userId (rm_seats r ! k) = None \<and>
      (case team of Some t \<Rightarrow> rm_type r = TwoVTwo \<longrightarrow> k mod 2 = t | None \<Rightarrow> True))"

definition admits :: "room \<Rightarrow> user_id \<Rightarrow> bool" where
  "admits r u =
     (case rm_tournament r of
        Some t \<Rightarrow> u \<in> set (tm_players t) \<and> (case rm_clubWar r of Some c \<Rightarrow> u \<in> set (cw_players c) | None \<Rightarrow> True)
      | None \<Rightarrow> (case rm_clubWar r of Some c \<Rightarrow> u \<in> set (cw_players c) | None \<Rightarrow> rm_private r \<longrightarrow> u \<in> set (rm_invited r)))"

lemma join_refusal_None: "join_refusal r u = None \<longleftrightarrow> admits r u \<and> rm_status r = RoomWaiting"
  by (auto simp: join_refusal_def admits_def split: option.splits)

lemma find_upt: "List.find P [0..<n] = Some k \<longleftrightarrow> k < n \<and> P k \<and> (\<forall>j<k. \<not> P j)"
  by (auto simp: find_Some_iff)

lemma pickSeat_spec:
  assumes "seats_ok (rm_type r) (rm_seats r)" "team \<in> {None, Some 0, Some 1}"
  shows "pickSeat r team = Some k \<longleftrightarrow> k < length (rm_seats r) \<and> free_for r team k \<and> (\<forall>j<k. \<not> free_for r team j)"
    and "pickSeat r team = None \<longleftrightarrow> (\<forall>k<length (rm_seats r). \<not> free_for r team k)"
proof -
  have "pickSeat r team = List.find (free_for r team) [0..<length (rm_seats r)]"
  proof (cases "team \<noteq> None \<and> rm_type r = TwoVTwo")
    case True
    then have "length (rm_seats r) = 4" using assms(1) by (simp add: seats_ok_def playersForType_def)
    then have "[0..<length (rm_seats r)] = [0, 1, 2, 3]" by (simp add: upt_rec)
    with True assms(2) show ?thesis
      by (auto simp: pickSeat_def free_for_def open_seat_def team_seats_def DEFAULT_TEAMS_def)
  next
    case False
    then have "free_for r team = open_seat r" by (auto simp: free_for_def open_seat_def fun_eq_iff split: option.split)
    with False show ?thesis by (auto simp: pickSeat_def split: option.split)
  qed
  then show "pickSeat r team = Some k \<longleftrightarrow> k < length (rm_seats r) \<and> free_for r team k \<and> (\<forall>j<k. \<not> free_for r team j)"
    "pickSeat r team = None \<longleftrightarrow> (\<forall>k<length (rm_seats r). \<not> free_for r team k)"
    by (auto simp: find_upt find_None_iff)
qed

text \<open>Who may join, and where. In every reachable state a user is let in exactly when the user
  is in no room, the room exists, still waits, admits the user and has a free seat, of the wished
  team where one is given. The user then takes the first such seat, the map knows it, the room is
  ready exactly when that was the last free seat, and nobody else and no other room is touched; a
  refused join changes nothing.\<close>

theorem joinRoom_correct:
  assumes "rooms_reach f s" "factory_ok f" "team \<in> {None, Some 0, Some 1}"
  shows "case joinRoom user i team s of (res, s') \<Rightarrow>
    (res = Inr () \<longleftrightarrow> roomIdOf (ac_userId user) s = None \<and>
       (\<exists>r k. get_room i s = Some r \<and> rm_status r = RoomWaiting \<and> admits r (ac_userId user) \<and>
          k < length (rm_seats r) \<and> free_for r team k)) \<and>
    (if res = Inr () then roomIdOf (ac_userId user) s' = Some i \<and>
       (\<exists>r r' k. get_room i s = Some r \<and> get_room i s' = Some r' \<and> free_for r team k \<and> (\<forall>j<k. \<not> free_for r team j) \<and>
          rm_seats r' = (rm_seats r)[k := occupied_seat r user k] \<and> (rm_status r' = RoomReady \<longleftrightarrow> room_full r')) \<and>
       (\<forall>v. v \<noteq> ac_userId user \<longrightarrow> roomIdOf v s' = roomIdOf v s) \<and> (\<forall>j. j \<noteq> i \<longrightarrow> get_room j s' = get_room j s)
     else s' = s)"
proof -
  let ?u = "ac_userId user"
  have I: "rooms_inv s" by (rule reach_inv[OF assms(1,2)])
  show ?thesis
  proof (cases "\<exists>r. roomIdOf ?u s = None \<and> get_room i s = Some r \<and> join_refusal r ?u = None")
    case False
    then have "\<exists>res. joinRoom user i team s = (res, s) \<and> res \<noteq> Inr ()"
      by (auto simp: joinRoom_def split: option.split)
    then obtain res where j: "joinRoom user i team s = (res, s)" and res: "res \<noteq> Inr ()" by blast
    have no: "\<not> (roomIdOf ?u s = None \<and> (\<exists>r k. get_room i s = Some r \<and> rm_status r = RoomWaiting \<and> admits r ?u \<and>
          k < length (rm_seats r) \<and> free_for r team k))" using False join_refusal_None by blast
    show ?thesis unfolding j case_prod_conv using res no by simp
  next
    case True
    then obtain r where r: "roomIdOf ?u s = None" "get_room i s = Some r" "join_refusal r ?u = None" by blast
    have id: "rm_id r = i" and ok: "room_ok r" using rooms_invD(2,3)[OF I r(2)] by simp_all
    have so: "seats_ok (rm_type r) (rm_seats r)" using ok by (simp add: room_ok_def)
    have adm: "admits r ?u" and w: "rm_status r = RoomWaiting" using r(3) by (simp_all add: join_refusal_None)
    show ?thesis
    proof (cases "pickSeat r team")
      case None
      then have "joinRoom user i team s = (Inl ''room_full'', s)" using r by (simp add: joinRoom_def seat_user_def)
      with None pickSeat_spec(2)[OF so assms(3)] r(2) show ?thesis by auto
    next
      case (Some k)
      let ?s' = "set_user_room ?u i (put_room (take_seat r user k) s)"
      have j: "joinRoom user i team s = (Inr (), ?s')" using r Some id by (simp add: joinRoom_def seat_user_def)
      note k = Some[unfolded pickSeat_spec(1)[OF so assms(3)]]
      have t: "rm_id (take_seat r user k) = i" "rm_seats (take_seat r user k) = (rm_seats r)[k := occupied_seat r user k]"
        "rm_status (take_seat r user k) = RoomReady \<longleftrightarrow> room_full (take_seat r user k)"
        using id w by (simp_all add: take_seat_def Let_def room_full_def)
      show ?thesis unfolding j case_prod_conv
        using r(1,2) k adm w t by auto
    qed
  qed
qed

theorem joinRoom_correct_witness:
  "case joinRoom (demo_user CHR ''b'') ''room_1'' None (demo_after 1) of (res, s') \<Rightarrow>
     (if res = Inr () then roomIdOf ''b'' s' = Some ''room_1'' else s' = demo_after 1)"
  using joinRoom_correct[OF demo_reach[of 1] demo_factory_ok,
      where team = None and user = "demo_user CHR ''b''" and i = "''room_1''"]
  by (auto simp: demo_user_def split: prod.splits if_splits)

subsubsection \<open>Share codes\<close>

definition digit_code :: "string \<Rightarrow> bool" where
  "digit_code c \<longleftrightarrow> 6 \<le> length c \<and> (\<forall>d\<in>set c. \<exists>n<10. d = digit_char n)"

lemma genJoinCode_digits: "6 \<le> len \<Longrightarrow> digit_code (genJoinCode bytes len)"
  by (auto simp: digit_code_def genJoinCode_def intro!: exI[of _ "bytes _ mod 10"])

lemma widenCode_digits: "6 \<le> len \<Longrightarrow> digit_code (widenCode rnd k len s)"
proof (induction rnd k len s rule: widenCode.induct)
  case (1 rnd k len s)
  then show ?case by (subst widenCode.simps) (simp add: Let_def genJoinCode_digits)
qed

lemma genUniqueJoinCode_digits: "digit_code (genUniqueJoinCode rnd s)"
  by (auto simp: genUniqueJoinCode_def CODE_LEN_def widenCode_digits genJoinCode_digits find_Some_iff split: option.split)

lemma digit_plain: "n < 10 \<Longrightarrow> \<not> is_blank (digit_char n)" "n < 10 \<Longrightarrow> upper_char (digit_char n) = digit_char n"
  by (auto simp: is_blank_def upper_char_def of_char_digit Let_def)

lemma digit_code_normal: "digit_code c \<Longrightarrow> map upper_char (js_trim c) = c"
proof -
  assume c: "digit_code c"
  then have nb: "\<forall>d\<in>set c. \<not> is_blank d" and up: "\<forall>d\<in>set c. upper_char d = d"
    using digit_plain by (fastforce simp: digit_code_def)+
  have dw: "\<forall>d\<in>set xs. \<not> is_blank d \<Longrightarrow> dropWhile is_blank xs = xs" for xs by (cases xs) auto
  have "js_trim c = c" using nb by (simp add: js_trim_def dw)
  then show ?thesis using up by (simp add: map_idI)
qed

lemma roomIdForCode_spec:
  assumes "rooms_inv s" "digit_code c" "code_of i s = Some c"
  shows "roomIdForCode c s = Some i"
proof -
  note D = rooms_invD[OF assms(1)]
  let ?P = "\<lambda>p. rm_private (snd p) \<and> rm_joinCode (snd p) = Some c"
  have P: "?P p \<longleftrightarrow> room_code (snd p) = Some c" for p :: "string \<times> room" by (auto simp: room_code_def)
  obtain r where r: "get_room i s = Some r" "room_code r = Some c" using assms(3) by (auto simp: code_of_def bind_eq_Some_conv)
  then have "\<exists>p\<in>set (rs_rooms s). ?P p" using get_room_mem[OF D(1)] P by force
  then obtain q where q: "List.find ?P (rs_rooms s) = Some q" by (cases "List.find ?P (rs_rooms s)") (auto simp: find_None_iff)
  then have "q \<in> set (rs_rooms s)" "?P q" by (auto simp: find_Some_iff)
  then have "get_room (fst q) s = Some (snd q)" "room_code (snd q) = Some c" using get_room_mem[OF D(1)] P by simp_all
  then have "fst q = i" "rm_id (snd q) = i" using D(6)[of "fst q" c i] D(2)[of "fst q"] assms(3) by (simp_all add: code_of_def)
  with q digit_code_normal[OF assms(2)] show ?thesis using assms(2) by (auto simp: roomIdForCode_def Let_def digit_code_def)
qed

lemma createRoom_code:
  assumes "createRoom rnd user p now s = (Inr (i, Some c), s')"
  shows "c = genUniqueJoinCode rnd (s\<lparr>rs_seq := rs_seq s + 1\<rparr>)" "code_of i s' = Some c"
proof -
  let ?s0 = "s\<lparr>rs_seq := rs_seq s + 1\<rparr>"
  obtain ty where ty: "cp_type p = Some ty" and g: "roomIdOf (ac_userId user) s = None" "\<not> cp_stakeCents p < 0"
    using assms by (auto simp: createRoom_def split: if_splits option.splits)
  let ?r = "opened_room rnd (new_room_id (rs_seq ?s0)) ty p now ?s0"
  obtain ok s1 where su: "seat_user ?r user (cp_team p) (put_room ?r ?s0) = (ok, s1)" by fastforce
  have ok: "ok" "i = new_room_id (rs_seq ?s0)" "rm_joinCode ?r = Some c" "s' = s1"
    using assms su ty g by (auto simp: createRoom_def Let_def split: bool.splits)
  from ok(3) show "c = genUniqueJoinCode rnd ?s0" by (auto simp: opened_room_def blank_room_def split: if_splits)
  from ok(3) have pr: "cp_private p" by (auto simp: opened_room_def blank_room_def split: if_splits)
  from su ok(1) obtain k where "s1 = set_user_room (ac_userId user) (rm_id ?r) (put_room (take_seat ?r user k) (put_room ?r ?s0))"
    by (auto simp: seat_user_def split: option.splits)
  moreover have "room_code (take_seat ?r user k) = room_code ?r" "rm_id (take_seat ?r user k) = rm_id ?r"
    by (simp_all add: take_seat_def Let_def room_code_def)
  ultimately show "code_of i s' = Some c" using ok pr by (simp add: room_code_def)
qed

text \<open>C27: a share code leads to the room it was made for. A private room opened in any reachable
  state, whatever the random bytes, gets a code of at least six decimal digits that no live private
  room has; redeeming the code then finds exactly that room, and goes on finding it, in every later
  state in which the room exists with that code.\<close>

theorem share_code_redeems:
  assumes "rooms_reach f s" "factory_ok f" "createRoom rnd user p now s = (Inr (i, Some c), s')"
  shows "digit_code c \<and> \<not> codeInUse c s \<and> roomIdForCode c s' = Some i \<and>
    (\<forall>ops. case foldl (room_step f) s' ops of s'' \<Rightarrow>
       code_of i s'' = Some c \<longrightarrow> roomIdForCode c s'' = Some i)"
proof -
  have "rooms_reach f (snd (room_apply f (RCreate rnd user p now) s))"
    by (rule rooms_reach.step[OF assms(1)]) (simp add: proper_op_def)
  then have r': "rooms_reach f s'" by (simp add: assms(3))
  note c = createRoom_code[OF assms(3)]
  have d: "digit_code c" using genUniqueJoinCode_digits c(1) by simp
  have "\<not> codeInUse c s" using genUniqueJoinCode_unused[of rnd "s\<lparr>rs_seq := rs_seq s + 1\<rparr>"] c(1)
    by (simp add: codeInUse_def)
  moreover have "roomIdForCode c s'' = Some i" if "rooms_reach f s''" "code_of i s'' = Some c" for s''
    by (rule roomIdForCode_spec[OF reach_inv[OF that(1) assms(2)] d that(2)])
  ultimately show ?thesis using d r' c(2) run_reach[OF r'] by simp
qed

definition private_payload :: create_payload where
  "private_payload = demo_payload\<lparr>cp_private := True\<rparr>"

lemma private_room_opens:
  "fst (createRoom (\<lambda>k i. i) (demo_user CHR ''c'') private_payload 0 (demo_after 3)) = Inr (''room_2'', Some ''012345'')"
  by code_simp

theorem share_code_redeems_witness:
  "roomIdForCode ''012345'' (snd (createRoom (\<lambda>k i. i) (demo_user CHR ''c'') private_payload 0 (demo_after 3))) = Some ''room_2''"
proof -
  have "createRoom (\<lambda>k i. i) (demo_user CHR ''c'') private_payload 0 (demo_after 3) =
      (Inr (''room_2'', Some ''012345''), snd (createRoom (\<lambda>k i. i) (demo_user CHR ''c'') private_payload 0 (demo_after 3)))"
    using private_room_opens by (simp add: prod_eq_iff)
  from share_code_redeems[OF demo_reach demo_factory_ok this] show ?thesis by blast
qed

subsubsection \<open>A room without players\<close>

text \<open>A finished room on whose seats nobody sits any more.\<close>

definition deserted :: "string \<Rightarrow> room_manager \<Rightarrow> bool" where
  "deserted i s =
     (case get_room i s of
        None \<Rightarrow> False
      | Some r \<Rightarrow> rm_status r = RoomFinished \<and> list_all (\<lambda>x. se_userId x = None) (rm_seats r))"

lemma deserted_iff:
  "deserted i s \<longleftrightarrow> (\<exists>r. get_room i s = Some r \<and> rm_status r = RoomFinished \<and> (\<forall>k<length (rm_seats r). se_userId (rm_seats r ! k) = None))"
  by (auto simp: deserted_def list_all_length split: option.split)

lemma deserted_put:
  "deserted i s \<Longrightarrow> rm_id r \<noteq> i \<or> (rm_status r = RoomFinished \<and> (\<forall>k<length (rm_seats r). se_userId (rm_seats r ! k) = None)) \<Longrightarrow>
   deserted i (put_room r s)"
  by (auto simp: deserted_iff)

lemma deserted_simps [simp]:
  "deserted i (del_user_room u s) = deserted i s" "deserted i (set_user_room u j s) = deserted i s"
  "deserted i (s\<lparr>rs_seq := n\<rparr>) = deserted i s" "deserted i (del_room j s) \<longleftrightarrow> i \<noteq> j \<and> deserted i s"
  by (auto simp: deserted_iff)

text \<open>Whoever is in a room is not in the deserted one, so what a user does happens elsewhere.\<close>

lemma deserted_not_member:
  assumes "deserted i s" "get_room j s = Some r" "u \<in> members r" "rooms_inv s"
  shows "rm_id r \<noteq> i" "j \<noteq> i"
proof -
  show "j \<noteq> i" using assms(1-3) by (auto simp: deserted_iff members_def sitter_def split: if_splits)
  then show "rm_id r \<noteq> i" using rooms_invD(2)[OF assms(4,2)] by simp
qed

lemma deserted_roomOf:
  assumes "deserted i s" "rooms_inv s" "roomOf u s = Some r"
  shows "rm_id r \<noteq> i"
  using deserted_not_member(1)[OF assms(1) _ _ assms(2), of "rm_id r" r u] assms(3) roomOf_Some[OF assms(2)] by blast

lemma deserted_live:
  assumes "deserted i s" "rooms_inv s" "live_match u s = Some (r, dl, m)"
  shows "rm_id r \<noteq> i"
  using deserted_not_member(1)[OF assms(1) live_match_Some(1,2)[OF assms(2,3)] assms(2)] .

lemma deserted_forward:
  assumes "deserted i s" "rooms_inv s"
  shows "deserted i (snd (forward u act s))"
proof -
  have "deserted i (put_room q s)" if "live_match u s = Some (r, dl, m)" "rm_id q = rm_id r" for r dl m q
    by (rule deserted_put[OF assms(1)]) (use deserted_live[OF assms that(1)] that(2) in simp)
  with assms(1) show ?thesis
    by (auto simp: forward_def split: option.split sum.split prod.split)
qed

lemma deserted_forfeit:
  assumes "deserted i s" "rooms_inv s"
  shows "deserted i (snd (room_forfeitSeat u s))"
proof -
  have "deserted i (put_room q s)" if "live_match u s = Some (r, dl, m)" "rm_id q = rm_id r" for r dl m q
    by (rule deserted_put[OF assms(1)]) (use deserted_live[OF assms that(1)] that(2) in simp)
  with assms(1) show ?thesis
    by (auto simp: room_forfeitSeat_def Let_def put_del_user mark_gone_def split: option.split sum.split prod.split)
qed

lemma deserted_join:
  assumes "deserted i s" "rooms_inv s"
  shows "deserted i (snd (joinRoom user j team s))"
proof -
  have "deserted i (snd (seat_user r user team s))" if "get_room j s = Some r" "join_refusal r (ac_userId user) = None" for r
  proof -
    have "rm_status r = RoomWaiting" using that(2) by (simp add: join_refusal_None)
    then have "rm_id r \<noteq> i" using assms(1) that(1) rooms_invD(2)[OF assms(2) that(1)] by (auto simp: deserted_iff)
    then have "deserted i (put_room (take_seat r user k) s)" for k
      by (intro deserted_put[OF assms(1)]) (simp add: take_seat_def Let_def)
    with assms(1) show ?thesis by (simp add: seat_user_def split: option.split)
  qed
  with assms(1) show ?thesis by (force simp: joinRoom_def split: option.split prod.split bool.split)
qed

lemma deserted_start:
  assumes "deserted i s" "rooms_inv s"
  shows "deserted i (snd (startMatch f j d s))"
proof -
  have "deserted i (put_room q s)" if r: "get_room j s = Some r" and full: "isFull j s" and q: "rm_id q = rm_id r" for r q
  proof -
    have id: "rm_id r = j" and ok: "room_ok r" using rooms_invD(2,3)[OF assms(2) r] by simp_all
    have "0 < length (rm_seats r)" using ok playersForType_bounds(1)[of "rm_type r"] by (simp add: room_ok_def seats_ok_def)
    then have "j \<noteq> i" using assms(1) r full by (auto simp: deserted_iff isFull_def room_full_nth)
    then show ?thesis using id q by (intro deserted_put[OF assms(1)]) simp
  qed
  with assms(1) show ?thesis
    by (auto simp: startMatch_def Let_def split: option.split sum.split)
qed

lemma deserted_switch:
  assumes "deserted i s" "rooms_inv s"
  shows "deserted i (snd (switchTeam u t s))"
proof -
  have "deserted i (put_room q s)" if "roomOf u s = Some r" "rm_id q = rm_id r" for r q
    by (rule deserted_put[OF assms(1)]) (use deserted_roomOf[OF assms that(1)] that(2) in simp)
  with assms(1) show ?thesis
    by (auto simp: switchTeam_def reopen_def split: option.split)
qed

lemma deserted_leave:
  assumes "deserted i s" "rooms_inv s"
  shows "deserted i (snd (leaveRoom u s))"
proof (cases "roomIdOf u s")
  case None
  with assms(1) show ?thesis by (simp add: leaveRoom_def)
next
  case (Some j)
  obtain r where r: "get_room j s = Some r" "rm_id r = j" "room_ok r" "u \<in> members r"
    by (rule roomIdOf_Some_room[OF assms(2) Some])
  have ne: "j \<noteq> i" by (rule deserted_not_member(2)[OF assms(1) r(1,4) assms(2)])
  have p: "deserted i s' \<Longrightarrow> rm_id q = j \<Longrightarrow> deserted i (put_room q s')" for q s'
    using ne by (intro deserted_put) simp_all
  have id: "rm_id (vacate k r) = j" for k using r(2) by (simp add: vacate_def split: option.split)
  show ?thesis using Some r(1) ne assms(1) by (auto simp: leaveRoom_def Let_def id intro!: p)
qed

lemma deserted_create:
  assumes "deserted i s" "rooms_inv s"
  shows "deserted i (snd (createRoom rnd user p now s))"
proof -
  have ne: "i \<noteq> new_room_id (Suc (rs_seq s))" using assms(1) fresh_room_id[OF assms(2)] by (auto simp: deserted_iff)
  have p: "deserted i s' \<Longrightarrow> rm_id q = new_room_id (Suc (rs_seq s)) \<Longrightarrow> deserted i (put_room q s')" for q s'
    using ne by (intro deserted_put) auto
  show ?thesis using assms(1) ne
    by (auto simp: createRoom_def Let_def seat_user_def take_seat_def intro!: p split: option.split prod.split bool.split)
qed

lemma deserted_new:
  assumes "deserted i s" "rooms_inv s"
  shows "deserted i (snd (createTournamentRoom ty meta now s))" "deserted i (snd (createClubWarRoom cw now s))"
proof -
  have "i \<noteq> new_room_id (Suc (rs_seq s))" using assms(1) fresh_room_id[OF assms(2)] by (auto simp: deserted_iff)
  then show "deserted i (snd (createTournamentRoom ty meta now s))" "deserted i (snd (createClubWarRoom cw now s))"
    using assms(1) by (auto simp: createTournamentRoom_def createClubWarRoom_def Let_def blank_room_def intro!: deserted_put)
qed

definition removes :: "string \<Rightarrow> room_op \<Rightarrow> bool" where
  "removes i op = (op = RReset i \<or> op = RDelete i)"

lemma deserted_kept:
  assumes d: "deserted i s" and I: "rooms_inv s" and n: "\<not> removes i op"
  shows "deserted i (snd (room_apply f op s))"
proof -
  have p: "deserted i (put_room q s)"
    if "get_room j s = Some r" "rm_id q = rm_id r" "j \<noteq> i \<or> (rm_status q = RoomFinished \<and> (\<forall>k<length (rm_seats q). se_userId (rm_seats q ! k) = None))" for j r q
    using that rooms_invD(2)[OF I that(1)] by (intro deserted_put[OF d]) auto
  have u: "deserted i (put_room q s)" if "roomOf u s = Some r" "rm_id q = rm_id r" for u r q
    by (rule deserted_put[OF d]) (use deserted_roomOf[OF d I that(1)] that(2) in simp)
  have e: "get_room i s = Some r \<Longrightarrow> rm_status r = RoomFinished \<and> (\<forall>k<length (rm_seats r). se_userId (rm_seats r ! k) = None)" for r
    using d by (auto simp: deserted_iff)
  have del: "deserted i (foldl (\<lambda>s u. del_user_room u s) s us)" for us using d by (simp add: deserted_iff)
  show ?thesis
  proof (cases op)
    case (RReset j)
    then show ?thesis using d n by (auto simp: removes_def resetForRematch_def intro!: p split: option.split)
  next
    case (RDelete j)
    then show ?thesis using d n del by (auto simp: removes_def deleteRoom_def split: option.split)
  next
    case (RReady u b)
    then show ?thesis using d by (auto simp: setReady_def intro!: u split: option.split)
  next
    case (RConnected u b)
    then show ?thesis using d by (auto simp: setConnected_def intro!: u split: option.split)
  next
    case (RClearGone j)
    then show ?thesis using d e by (auto simp: clearGoneSeats_def intro!: p split: option.split)
  next
    case (RAssignId j)
    then show ?thesis using d e by (auto simp: assignMatchId_def Let_def intro!: p split: option.split)
  next
    case (RFinished j)
    then show ?thesis using d e by (auto simp: markFinished_def intro!: p split: option.split)
  next
    case (RPractice j)
    then show ?thesis using d e by (auto simp: markPractice_def intro!: p split: option.split)
  next
    case (RInvite j u)
    then show ?thesis using d e by (auto simp: markInvited_def intro!: p split: option.split)
  qed (use d I in \<open>simp_all add: deserted_create deserted_new deserted_join deserted_leave deserted_switch deserted_start
      deserted_forward deserted_forfeit room_play_def room_pass_def room_switchGive_def\<close>)
qed

text \<open>A room can stay behind without players for good. There is a history of a match of two in
  which one player leaves the match, which ends it, the other leaves the room before the departed
  seat is cleared, and the seat is cleared then: nobody sits in the room any more, the map sends
  nobody to it, and no sequence of operations removes it, except asking for its removal or for a
  rematch, which need a member of the room or a room that never started.\<close>

theorem deserted_room_stays:
  "\<exists>ops. case foldl (\<lambda>s op. snd (room_apply demo_factory op s)) (new_manager 21 ''x'') ops of s \<Rightarrow>
     rooms_reach demo_factory s \<and> deserted ''room_1'' s \<and> (\<forall>u. roomIdOf u s \<noteq> Some ''room_1'') \<and>
     (\<forall>later. list_all (\<lambda>op. \<not> removes ''room_1'' op) later \<longrightarrow>
        deserted ''room_1'' (foldl (room_step demo_factory) s later))"
proof -
  have t: "take 6 demo_ops = demo_ops" by (simp add: demo_ops_def)
  have d: "deserted ''room_1'' (demo_after 6)" by code_simp
  have I: "rooms_inv (demo_after 6)" by (rule reach_inv[OF demo_reach demo_factory_ok])
  have no: "roomIdOf u (demo_after 6) \<noteq> Some ''room_1''" for u
  proof
    assume "roomIdOf u (demo_after 6) = Some ''room_1''"
    then obtain r where "get_room ''room_1'' (demo_after 6) = Some r" "u \<in> members r" using rooms_invD(5)[OF I] by blast
    from deserted_not_member(2)[OF d this I] show False by simp
  qed
  have keep: "rooms_inv s \<Longrightarrow> deserted ''room_1'' s \<Longrightarrow> list_all (\<lambda>op. \<not> removes ''room_1'' op) later \<Longrightarrow>
      deserted ''room_1'' (foldl (room_step demo_factory) s later)" for later s
    by (induction later arbitrary: s)
       (simp_all add: room_step_def deserted_kept room_apply_inv(1)[OF _ demo_factory_ok])
  show ?thesis
    by (rule exI[of _ demo_ops])
       (use d no keep[OF I d] demo_reach[of 6] in \<open>simp add: demo_after_def t\<close>)
qed

theorem deserted_room_stays_witness:
  "\<exists>ops. deserted ''room_1'' (foldl (\<lambda>s op. snd (room_apply demo_factory op s)) (new_manager 21 ''x'') ops)"
proof -
  obtain ops where "case foldl (\<lambda>s op. snd (room_apply demo_factory op s)) (new_manager 21 ''x'') ops of s \<Rightarrow>
     rooms_reach demo_factory s \<and> deserted ''room_1'' s \<and> (\<forall>u. roomIdOf u s \<noteq> Some ''room_1'') \<and>
     (\<forall>later. list_all (\<lambda>op. \<not> removes ''room_1'' op) later \<longrightarrow>
        deserted ''room_1'' (foldl (room_step demo_factory) s later))"
    using deserted_room_stays by blast
  then show ?thesis by auto
qed

end
