(* ===== verification/Users.thy ===== *)
theory Users
  imports Murlan_Prelude "HOL-Library.Product_Lexorder"
begin

text \<open>
  The user store (\<^verbatim>\<open>packages/server/src/auth/userRepository.ts\<close>, class
  \<^verbatim>\<open>InMemoryUserRepository\<close>).

  The engagement-reward fields of a user, which one setter writes, are the nested record
  \<open>reward_state\<close>. The three maps of the class are association lists. A field of a patch is
  absent (\<^verbatim>\<open>undefined\<close>, leave as it is) or present. \<^verbatim>\<open>toLowerCase\<close> is modelled on ASCII letters.
\<close>

datatype user_role = PlainUser | AdminUser

datatype account_state = ActiveAccount | Frozen | Suspended | Banned

datatype kyc_status = KycNone | KycPending | KycVerified

record period_anchor =
  pa_period :: string
  pa_games :: nat
  pa_wins :: nat

record reward_state =
  rw_lastDailyClaim :: "int option"
  rw_dailyStreak :: nat
  rw_cardBack :: "string option"
  rw_tableFelt :: "string option"
  rw_claimedChallenges :: "string list"
  rw_claimedDailies :: "string list"
  rw_claimedWeeklies :: "string list"
  rw_collectedMilestones :: "nat list"
  rw_dailyAnchor :: "period_anchor option"
  rw_weeklyAnchor :: "period_anchor option"
  rw_badges :: "string list"
  rw_lastVipGift :: "string option"

record user =
  u_id :: user_id
  u_username :: string
  u_email :: string
  u_passwordHash :: string
  u_role :: user_role
  u_permissions :: "string list"
  u_balanceCents :: cents
  u_createdAt :: int
  u_tokenVersion :: nat
  u_emailVerified :: bool
  u_accountState :: account_state
  u_accountStateReason :: "string option"
  u_accountStateUntil :: "int option"
  u_depositAddress :: "string option"
  u_depositAddressIndex :: "nat option"
  u_kycStatus :: kyc_status
  u_dateOfBirth :: "string option"
  u_country :: "string option"
  u_selfExcludedUntil :: "int option"
  u_dailyDepositLimitCents :: "cents option"
  u_dailyLossLimitCents :: "cents option"
  u_xp :: int
  u_xpSpent :: int
  u_gamesPlayed :: nat
  u_wins :: nat
  u_biggestPotCents :: cents
  u_currentStreak :: nat
  u_avatar :: "string option"
  u_cosmetics :: "string list"
  u_rewards :: reward_state

record users =
  us_byId :: "(user_id \<times> user) list"
  us_byEmail :: "(string \<times> user_id) list"
  us_byUsername :: "(string \<times> user_id) list"
  us_seq :: nat

definition no_users :: users where
  "no_users = \<lparr>us_byId = [], us_byEmail = [], us_byUsername = [], us_seq = 0\<rparr>"

definition lower_char :: "char \<Rightarrow> char" where
  "lower_char c = (let n = of_char c :: nat in if 65 \<le> n \<and> n \<le> 90 then char_of (n + 32) else c)"

definition toLowerCase :: "string \<Rightarrow> string" where
  "toLowerCase s = map lower_char s"

definition user_key :: "nat \<Rightarrow> user_id" where
  "user_key n = ''u_'' @ nat_str n"

subsection \<open>Operations\<close>

record new_user =
  nu_username :: string
  nu_email :: string
  nu_passwordHash :: string
  nu_role :: "user_role option"

datatype duplicate_field = DupEmail | DupUsername

definition no_rewards :: reward_state where
  "no_rewards = \<lparr>rw_lastDailyClaim = None, rw_dailyStreak = 0, rw_cardBack = None, rw_tableFelt = None,
     rw_claimedChallenges = [], rw_claimedDailies = [], rw_claimedWeeklies = [], rw_collectedMilestones = [],
     rw_dailyAnchor = None, rw_weeklyAnchor = None, rw_badges = [], rw_lastVipGift = None\<rparr>"

definition blank_user :: "user_id \<Rightarrow> new_user \<Rightarrow> int \<Rightarrow> user" where
  "blank_user uid u now =
     \<lparr>u_id = uid, u_username = nu_username u, u_email = toLowerCase (nu_email u),
      u_passwordHash = nu_passwordHash u,
      u_role = (case nu_role u of None \<Rightarrow> PlainUser | Some r \<Rightarrow> r),
      u_permissions = [], u_balanceCents = 0, u_createdAt = now, u_tokenVersion = 0,
      u_emailVerified = False, u_accountState = ActiveAccount, u_accountStateReason = None,
      u_accountStateUntil = None, u_depositAddress = None, u_depositAddressIndex = None,
      u_kycStatus = KycNone, u_dateOfBirth = None, u_country = None, u_selfExcludedUntil = None,
      u_dailyDepositLimitCents = None, u_dailyLossLimitCents = None, u_xp = 0, u_xpSpent = 0, u_gamesPlayed = 0,
      u_wins = 0, u_biggestPotCents = 0, u_currentStreak = 0, u_avatar = None, u_cosmetics = [],
      u_rewards = no_rewards\<rparr>"

definition create_user :: "new_user \<Rightarrow> int \<Rightarrow> users \<Rightarrow> (duplicate_field + user) \<times> users" where
  "create_user u now s =
     (let email = toLowerCase (nu_email u); unameKey = toLowerCase (nu_username u) in
      if map_of (us_byEmail s) email \<noteq> None then (Inl DupEmail, s)
      else if map_of (us_byUsername s) unameKey \<noteq> None then (Inl DupUsername, s)
      else
        let n = us_seq s + 1; user = blank_user (user_key n) u now in
        (Inr user,
         \<lparr>us_byId = AList.update (user_key n) user (us_byId s),
          us_byEmail = AList.update email (user_key n) (us_byEmail s),
          us_byUsername = AList.update unameKey (user_key n) (us_byUsername s),
          us_seq = n\<rparr>))"

definition findById :: "user_id \<Rightarrow> users \<Rightarrow> user option" where
  "findById uid s = map_of (us_byId s) uid"

definition findManyByIds :: "user_id list \<Rightarrow> users \<Rightarrow> user list" where
  "findManyByIds uids s = concat (map (\<lambda>uid. case map_of (us_byId s) uid of None \<Rightarrow> [] | Some u \<Rightarrow> [u]) uids)"

definition findByEmail :: "string \<Rightarrow> users \<Rightarrow> user option" where
  "findByEmail email s =
     (case map_of (us_byEmail s) (toLowerCase email) of None \<Rightarrow> None | Some uid \<Rightarrow> findById uid s)"

definition findByUsername :: "string \<Rightarrow> users \<Rightarrow> user option" where
  "findByUsername name s =
     (case map_of (us_byUsername s) (toLowerCase name) of None \<Rightarrow> None | Some uid \<Rightarrow> findById uid s)"

definition put_user :: "user_id \<Rightarrow> user \<Rightarrow> users \<Rightarrow> users" where
  "put_user uid u s = s\<lparr>us_byId := AList.update uid u (us_byId s)\<rparr>"

text \<open>An operation that patches the stored record when there is one.\<close>

definition patch_user :: "user_id \<Rightarrow> (user \<Rightarrow> user) \<Rightarrow> users \<Rightarrow> user option \<times> users" where
  "patch_user uid f s =
     (case map_of (us_byId s) uid of None \<Rightarrow> (None, s) | Some u \<Rightarrow> (Some (f u), put_user uid (f u) s))"

definition adjustBalance :: "user_id \<Rightarrow> cents \<Rightarrow> users \<Rightarrow> cents option \<times> users" where
  "adjustBalance uid deltaCents s =
     (case map_of (us_byId s) uid of
        None \<Rightarrow> (None, s)
      | Some u \<Rightarrow>
          (let next = u_balanceCents u + deltaCents in
           if next < 0 then (None, s)
           else (Some next, put_user uid (u\<lparr>u_balanceCents := next\<rparr>) s)))"

definition used_indices :: "users \<Rightarrow> nat list" where
  "used_indices s = concat (map (\<lambda>(_, u). case u_depositAddressIndex u of None \<Rightarrow> [] | Some i \<Rightarrow> [i]) (us_byId s))"

definition assignDepositAddress ::
  "user_id \<Rightarrow> (nat \<Rightarrow> string) \<Rightarrow> users \<Rightarrow> (string \<times> nat) option \<times> users" where
  "assignDepositAddress uid derive s =
     (case map_of (us_byId s) uid of
        None \<Rightarrow> (None, s)
      | Some u \<Rightarrow>
          (case (u_depositAddress u, u_depositAddressIndex u) of
             (Some a, Some i) \<Rightarrow> (Some (a, i), s)
           | _ \<Rightarrow>
               (let used = used_indices s;
                    i = (if used = [] then 0 else foldl max 0 used + 1);
                    a = derive i
                in (Some (a, i), put_user uid (u\<lparr>u_depositAddress := Some a, u_depositAddressIndex := Some i\<rparr>) s))))"

definition keep_field :: "'a option \<Rightarrow> 'a \<Rightarrow> 'a" where
  "keep_field p old = (case p of None \<Rightarrow> old | Some v \<Rightarrow> v)"

record compliance_update =
  cu_kycStatus :: "kyc_status option"
  cu_dateOfBirth :: "string option option"
  cu_country :: "string option option"
  cu_selfExcludedUntil :: "int option option"

definition updateCompliance :: "user_id \<Rightarrow> compliance_update \<Rightarrow> users \<Rightarrow> user option \<times> users" where
  "updateCompliance uid p =
     patch_user uid (\<lambda>u. u\<lparr>u_kycStatus := keep_field (cu_kycStatus p) (u_kycStatus u),
       u_dateOfBirth := keep_field (cu_dateOfBirth p) (u_dateOfBirth u),
       u_country := keep_field (cu_country p) (u_country u),
       u_selfExcludedUntil := keep_field (cu_selfExcludedUntil p) (u_selfExcludedUntil u)\<rparr>)"

definition setLimits :: "user_id \<Rightarrow> cents option option \<Rightarrow> cents option option \<Rightarrow> users \<Rightarrow> user option \<times> users" where
  "setLimits uid depositLimit lossLimit =
     patch_user uid (\<lambda>u. u\<lparr>u_dailyDepositLimitCents := keep_field depositLimit (u_dailyDepositLimitCents u),
       u_dailyLossLimitCents := keep_field lossLimit (u_dailyLossLimitCents u)\<rparr>)"

record rewards_patch =
  rp_lastDailyClaim :: "int option option"
  rp_dailyStreak :: "nat option"
  rp_cosmetics :: "string list option"
  rp_cardBack :: "string option option"
  rp_tableFelt :: "string option option"
  rp_claimedChallenges :: "string list option"
  rp_claimedDailies :: "string list option"
  rp_claimedWeeklies :: "string list option"
  rp_collectedMilestones :: "nat list option"
  rp_dailyAnchor :: "period_anchor option option"
  rp_weeklyAnchor :: "period_anchor option option"
  rp_badges :: "string list option"
  rp_lastVipGift :: "string option option"

definition no_patch :: rewards_patch where
  "no_patch = \<lparr>rp_lastDailyClaim = None, rp_dailyStreak = None, rp_cosmetics = None, rp_cardBack = None,
     rp_tableFelt = None, rp_claimedChallenges = None, rp_claimedDailies = None, rp_claimedWeeklies = None,
     rp_collectedMilestones = None, rp_dailyAnchor = None, rp_weeklyAnchor = None, rp_badges = None,
     rp_lastVipGift = None\<rparr>"

definition patch_rewards :: "rewards_patch \<Rightarrow> reward_state \<Rightarrow> reward_state" where
  "patch_rewards p r =
     \<lparr>rw_lastDailyClaim = keep_field (rp_lastDailyClaim p) (rw_lastDailyClaim r),
      rw_dailyStreak = keep_field (rp_dailyStreak p) (rw_dailyStreak r),
      rw_cardBack = keep_field (rp_cardBack p) (rw_cardBack r),
      rw_tableFelt = keep_field (rp_tableFelt p) (rw_tableFelt r),
      rw_claimedChallenges = keep_field (rp_claimedChallenges p) (rw_claimedChallenges r),
      rw_claimedDailies = keep_field (rp_claimedDailies p) (rw_claimedDailies r),
      rw_claimedWeeklies = keep_field (rp_claimedWeeklies p) (rw_claimedWeeklies r),
      rw_collectedMilestones = keep_field (rp_collectedMilestones p) (rw_collectedMilestones r),
      rw_dailyAnchor = keep_field (rp_dailyAnchor p) (rw_dailyAnchor r),
      rw_weeklyAnchor = keep_field (rp_weeklyAnchor p) (rw_weeklyAnchor r),
      rw_badges = keep_field (rp_badges p) (rw_badges r),
      rw_lastVipGift = keep_field (rp_lastVipGift p) (rw_lastVipGift r)\<rparr>"

definition setRewards :: "user_id \<Rightarrow> rewards_patch \<Rightarrow> users \<Rightarrow> user option \<times> users" where
  "setRewards uid p =
     patch_user uid (\<lambda>u. u\<lparr>u_cosmetics := keep_field (rp_cosmetics p) (u_cosmetics u),
       u_rewards := patch_rewards p (u_rewards u)\<rparr>)"

definition topByXp :: "int \<Rightarrow> users \<Rightarrow> user list" where
  "topByXp limit s =
     take (nat (max 0 limit)) (sort_key (\<lambda>u. (- u_xp u, - int (u_wins u))) (map snd (us_byId s)))"

definition setAccountState ::
  "user_id \<Rightarrow> account_state \<Rightarrow> string option \<Rightarrow> int option \<Rightarrow> users \<Rightarrow> user option \<times> users" where
  "setAccountState uid st reason until =
     patch_user uid (\<lambda>u. u\<lparr>u_accountState := st, u_accountStateReason := reason, u_accountStateUntil := until\<rparr>)"

definition anonymize :: "user_id \<Rightarrow> users \<Rightarrow> bool \<times> users" where
  "anonymize uid s =
     (let (r, s') = patch_user uid (\<lambda>u. u\<lparr>u_username := ''deleted_'' @ toLowerCase (take 8 uid),
             u_email := ''deleted_'' @ uid @ ''@deleted.invalid'', u_passwordHash := ''!anonymized!'',
             u_dateOfBirth := None, u_country := None, u_avatar := None, u_accountState := Banned,
             u_accountStateReason := Some ''account_self_deleted'', u_accountStateUntil := None,
             u_tokenVersion := u_tokenVersion u + 1\<rparr>) s
      in (r \<noteq> None, s'))"

definition list_users :: "users \<Rightarrow> user list" where
  "list_users s = map snd (us_byId s)"

definition sumBalancesByRole :: "user_role \<Rightarrow> users \<Rightarrow> cents" where
  "sumBalancesByRole r s =
     foldl (\<lambda>acc (_, u). if u_role u = r then acc + u_balanceCents u else acc) 0 (us_byId s)"

definition applyMatchResult :: "user_id \<Rightarrow> bool \<Rightarrow> cents \<Rightarrow> int \<Rightarrow> users \<Rightarrow> user option \<times> users" where
  "applyMatchResult uid won pot xpGain =
     patch_user uid (\<lambda>u. u\<lparr>u_gamesPlayed := u_gamesPlayed u + 1,
        u_wins := u_wins u + (if won then 1 else 0), u_xp := u_xp u + max 0 xpGain,
        u_currentStreak := (if won then u_currentStreak u + 1 else 0),
        u_biggestPotCents := max (u_biggestPotCents u) pot\<rparr>)"

definition setAvatar :: "user_id \<Rightarrow> string \<Rightarrow> users \<Rightarrow> user option \<times> users" where
  "setAvatar uid a = patch_user uid (\<lambda>u. u\<lparr>u_avatar := Some a\<rparr>)"

definition addXp :: "user_id \<Rightarrow> int \<Rightarrow> users \<Rightarrow> user option \<times> users" where
  "addXp uid deltaXp = patch_user uid (\<lambda>u. u\<lparr>u_xp := max 0 (u_xp u + deltaXp)\<rparr>)"

definition bumpTokenVersion :: "user_id \<Rightarrow> users \<Rightarrow> nat option \<times> users" where
  "bumpTokenVersion uid s =
     (let (r, s') = patch_user uid (\<lambda>u. u\<lparr>u_tokenVersion := u_tokenVersion u + 1\<rparr>) s
      in (map_option u_tokenVersion r, s'))"

definition purchaseCosmetic :: "user_id \<Rightarrow> string \<Rightarrow> int \<Rightarrow> users \<Rightarrow> (string + unit) \<times> users" where
  "purchaseCosmetic uid cosmeticId cost s =
     (case map_of (us_byId s) uid of
        None \<Rightarrow> (Inl ''not_found'', s)
      | Some u \<Rightarrow>
          if cosmeticId \<in> set (u_cosmetics u) then (Inl ''owned'', s)
          else if u_xp u < cost then (Inl ''insufficient_xp'', s)
          else (Inr (), put_user uid (u\<lparr>u_xp := u_xp u - cost, u_cosmetics := u_cosmetics u @ [cosmeticId]\<rparr>) s))"

definition purchaseCosmeticXp :: "user_id \<Rightarrow> string \<Rightarrow> int \<Rightarrow> users \<Rightarrow> (string + unit) \<times> users" where
  "purchaseCosmeticXp uid cosmeticId costXp s =
     (case map_of (us_byId s) uid of
        None \<Rightarrow> (Inl ''not_found'', s)
      | Some u \<Rightarrow>
          if cosmeticId \<in> set (u_cosmetics u) then (Inr (), s)
          else if max 0 (u_xp u - u_xpSpent u) < costXp then (Inl ''insufficient_xp'', s)
          else (Inr (), put_user uid (u\<lparr>u_xpSpent := u_xpSpent u + costXp,
                  u_cosmetics := u_cosmetics u @ [cosmeticId]\<rparr>) s))"

definition setEmailVerified :: "user_id \<Rightarrow> bool \<Rightarrow> users \<Rightarrow> users" where
  "setEmailVerified uid b s = snd (patch_user uid (\<lambda>u. u\<lparr>u_emailVerified := b\<rparr>) s)"

definition setPassword :: "user_id \<Rightarrow> string \<Rightarrow> users \<Rightarrow> users" where
  "setPassword uid h s = snd (patch_user uid (\<lambda>u. u\<lparr>u_passwordHash := h\<rparr>) s)"

definition setRole :: "user_id \<Rightarrow> user_role \<Rightarrow> users \<Rightarrow> users" where
  "setRole uid r s = snd (patch_user uid (\<lambda>u. u\<lparr>u_role := r\<rparr>) s)"

definition setPermissions :: "user_id \<Rightarrow> string list \<Rightarrow> users \<Rightarrow> users" where
  "setPermissions uid ps s = snd (patch_user uid (\<lambda>u. u\<lparr>u_permissions := ps\<rparr>) s)"

subsection \<open>Balances\<close>

definition balance_of :: "users \<Rightarrow> user_id \<Rightarrow> cents" where
  "balance_of s uid = (case map_of (us_byId s) uid of None \<Rightarrow> 0 | Some u \<Rightarrow> u_balanceCents u)"

definition known :: "users \<Rightarrow> user_id set" where
  "known s = fst ` set (us_byId s)"

lemma known_iff: "uid \<in> known s \<longleftrightarrow> (\<exists>u. map_of (us_byId s) uid = Some u)"
  by (metis (no_types, lifting) known_def map_of_eq_None_iff not_None_eq)

lemma map_of_put [simp]: "map_of (us_byId (put_user uid u s)) = (map_of (us_byId s))(uid \<mapsto> u)"
  by (simp add: put_user_def update_conv')

lemma known_put: "known (put_user uid u s) = insert uid (known s)"
  by (auto simp: known_iff split: if_splits)

lemma balance_put: "balance_of (put_user uid u s) x = (if x = uid then u_balanceCents u else balance_of s x)"
  by (simp add: balance_of_def)

lemma adjustBalance_cases:
  obtains (missing) "uid \<notin> known s" "adjustBalance uid d s = (None, s)"
  | (overdraw) "uid \<in> known s" "balance_of s uid + d < 0" "adjustBalance uid d s = (None, s)"
  | (applied) s' where "uid \<in> known s" "0 \<le> balance_of s uid + d"
      "adjustBalance uid d s = (Some (balance_of s uid + d), s')" "known s' = known s"
      "\<And>x. balance_of s' x = (if x = uid then balance_of s uid + d else balance_of s x)"
proof (cases "map_of (us_byId s) uid")
  case None
  then show ?thesis by (intro missing) (auto simp: known_iff adjustBalance_def)
next
  case (Some u)
  then have k: "uid \<in> known s" "balance_of s uid = u_balanceCents u" by (auto simp: known_iff balance_of_def)
  show ?thesis
  proof (cases "u_balanceCents u + d < 0")
    case True
    with Some k show ?thesis by (intro overdraw) (auto simp: adjustBalance_def)
  next
    case False
    with Some k show ?thesis
      by (intro applied[of "put_user uid (u\<lparr>u_balanceCents := u_balanceCents u + d\<rparr>) s"])
         (auto simp: adjustBalance_def Let_def known_put balance_put)
  qed
qed

lemma patch_user_balance:
  "(\<And>u. u_balanceCents (f u) = u_balanceCents u) \<Longrightarrow> balance_of (snd (patch_user uid f s)) x = balance_of s x"
  by (auto simp: patch_user_def balance_put split: option.split) (auto simp: balance_of_def)

subsection \<open>Well-formed stores\<close>

text \<open>
  Every index entry leads to a stored user, every user is stored under its own id, and the ids
  are the printed sequence numbers.
\<close>

definition users_wf :: "users \<Rightarrow> bool" where
  "users_wf s \<longleftrightarrow>
     distinct (map fst (us_byId s)) \<and>
     known s = user_key ` {1..us_seq s} \<and>
     (\<forall>uid u. map_of (us_byId s) uid = Some u \<longrightarrow> u_id u = uid) \<and>
     (\<forall>e uid. map_of (us_byEmail s) e = Some uid \<longrightarrow> uid \<in> known s) \<and>
     (\<forall>e uid. map_of (us_byUsername s) e = Some uid \<longrightarrow> uid \<in> known s)"

lemma user_key_inj: "user_key m = user_key n \<longleftrightarrow> m = n"
  by (simp add: user_key_def nat_str_inj)

lemma new_key_fresh: "users_wf s \<Longrightarrow> user_key (us_seq s + 1) \<notin> known s"
  by (auto simp: users_wf_def user_key_inj)

lemma distinct_update_keys [simp]:
  "distinct (map fst (AList.update k v xs)) \<longleftrightarrow> distinct (map fst xs)"
  by (induction xs) (auto simp: update_keys image_iff split: if_splits)

lemma create_user_ok:
  assumes "users_wf s" "create_user u now s = (Inr user, s')"
  shows "users_wf s'" "known s' = insert (u_id user) (known s)" "u_id user \<notin> known s"
    "balance_of s' x = balance_of s x" "findByEmail (nu_email u) s' = Some user"
    "findByUsername (nu_username u) s' = Some user"
proof -
  let ?n = "us_seq s + 1"
  from assms(2) have s': "s' = \<lparr>us_byId = AList.update (user_key ?n) user (us_byId s),
      us_byEmail = AList.update (toLowerCase (nu_email u)) (user_key ?n) (us_byEmail s),
      us_byUsername = AList.update (toLowerCase (nu_username u)) (user_key ?n) (us_byUsername s),
      us_seq = ?n\<rparr>" and user: "user = blank_user (user_key ?n) u now"
    by (auto simp: create_user_def Let_def split: if_splits)
  have uid: "u_id user = user_key ?n" by (simp add: user blank_user_def)
  have k: "known s' = insert (user_key ?n) (known s)"
    by (auto simp: known_iff s' update_conv' split: if_splits)
  show "known s' = insert (u_id user) (known s)" by (simp add: k uid)
  show fresh: "u_id user \<notin> known s" using new_key_fresh[OF assms(1)] by (simp add: uid)
  show "users_wf s'" unfolding users_wf_def k
  proof (intro conjI)
    show "distinct (map fst (us_byId s'))" using assms(1) by (simp add: s' users_wf_def)
    have "{1..Suc (us_seq s)} = insert (Suc (us_seq s)) {1..us_seq s}" by auto
    then show "insert (user_key ?n) (known s) = user_key ` {1..us_seq s'}"
      using assms(1) by (simp add: s' users_wf_def)
  qed (use assms(1) uid in \<open>auto simp: s' update_conv' users_wf_def split: if_splits\<close>)
  have "user_key ?n \<notin> known s" using fresh uid by simp
  then have "map_of (us_byId s) (user_key ?n) = None" by (metis known_iff not_None_eq)
  then show "balance_of s' x = balance_of s x"
    by (auto simp: balance_of_def s' update_conv' user blank_user_def)
  show "findByEmail (nu_email u) s' = Some user" "findByUsername (nu_username u) s' = Some user"
    by (simp_all add: findByEmail_def findByUsername_def findById_def s' update_conv')
qed

lemma users_wf_put: "users_wf s \<Longrightarrow> uid \<in> known s \<Longrightarrow> u_id u = uid \<Longrightarrow> users_wf (put_user uid u s)"
  by (auto simp: users_wf_def known_put insert_absorb) (auto simp: put_user_def)

lemma adjustBalance_wf: "users_wf s \<Longrightarrow> users_wf (snd (adjustBalance uid d s))"
proof (cases "map_of (us_byId s) uid")
  case (Some u)
  moreover assume "users_wf s"
  ultimately have "u_id u = uid" by (simp add: users_wf_def)
  with Some \<open>users_wf s\<close> show ?thesis by (auto simp: adjustBalance_def Let_def users_wf_put known_iff)
qed (simp add: adjustBalance_def)

text \<open>Registration is unique and findable. Creating a user either reports the colliding field
  and changes nothing, or adds exactly one user with a new id and balance zero who is then found
  under the e-mail and the user name in any letter case, while every other balance stays.\<close>

theorem create_user_correct:
  assumes "users_wf s"
  shows "case create_user u now s of
      (Inl f, s') \<Rightarrow> s' = s \<and> (if f = DupEmail then map_of (us_byEmail s) (toLowerCase (nu_email u)) \<noteq> None
                    else map_of (us_byUsername s) (toLowerCase (nu_username u)) \<noteq> None)
    | (Inr user, s') \<Rightarrow> users_wf s' \<and> known s' = insert (u_id user) (known s) \<and> u_id user \<notin> known s \<and>
        u_balanceCents user = 0 \<and> balance_of s' = balance_of s \<and>
        findByEmail (nu_email u) s' = Some user \<and> findByUsername (nu_username u) s' = Some user"
proof (cases "create_user u now s")
  case (Pair r s')
  show ?thesis
  proof (cases r)
    case (Inl f)
    with Pair show ?thesis by (auto simp: create_user_def Let_def split: if_splits)
  next
    case (Inr user)
    with Pair have c: "create_user u now s = (Inr user, s')" by simp
    have "u_balanceCents user = 0"
      using c by (auto simp: create_user_def Let_def blank_user_def split: if_splits)
    with create_user_ok[OF assms c] c show ?thesis by (auto simp: fun_eq_iff)
  qed
qed

definition demo_new_user :: new_user where
  "demo_new_user = \<lparr>nu_username = ''Ana'', nu_email = ''Ana@X'', nu_passwordHash = ''h'', nu_role = None\<rparr>"

theorem create_user_correct_witness:
  "findByEmail (nu_email demo_new_user) (snd (create_user demo_new_user 5 no_users)) =
     Some (blank_user (user_key 1) demo_new_user 5)"
proof -
  have wf: "users_wf no_users" by (simp add: users_wf_def no_users_def known_def)
  obtain s' where c: "create_user demo_new_user 5 no_users =
      (Inr (blank_user (user_key 1) demo_new_user 5), s')"
    by (simp add: create_user_def no_users_def Let_def)
  show ?thesis using create_user_correct[OF wf, of demo_new_user 5] unfolding c by simp
qed

text \<open>The indices keep the keys of an anonymised user, so the old names still find the account.\<close>

lemma anonymize_keeps_lookup:
  assumes "findByUsername name s = Some u" "anonymize (u_id u) s = (True, s')" "u_id u \<in> known s"
    and "map_of (us_byUsername s) (toLowerCase name) = Some (u_id u)"
  shows "\<exists>v. findByUsername name s' = Some v \<and> u_accountState v = Banned"
proof -
  from assms(3) obtain w where w: "map_of (us_byId s) (u_id u) = Some w" by (auto simp: known_iff)
  with assms(2,4) show ?thesis
    by (auto simp: anonymize_def patch_user_def findByUsername_def findById_def put_user_def update_conv')
qed

end
