(* ===== verification/Ledger.thy ===== *)
theory Ledger
  imports Murlan_Prelude
begin

text \<open>
  The transactions ledger (\<^verbatim>\<open>packages/server/src/money/ledger.ts\<close>, class
  \<^verbatim>\<open>InMemoryLedger\<close>). Amounts are signed cents. The clock \<^verbatim>\<open>Date.now()\<close> is the
  argument \<open>now\<close> of the operations that stamp a row. A provider reference that is the empty
  string is falsy in JavaScript and is treated as absent, as the code does.

  The locale \<open>idempotent_ledger\<close> is the contract the wallet relies on: an insert under a
  reference happens at most once, and a replay returns the first row.
\<close>

datatype tx_type =
  Deposit | Withdrawal | Bet | PayoutTx | Rake | Purchase | TransferOut | TransferIn | AdminAdjust

datatype tx_status = TxPending | TxCompleted | TxFailed

record transaction =
  t_id :: string
  t_userId :: user_id
  t_type :: tx_type
  t_amountCents :: cents
  t_currency :: string
  t_status :: tx_status
  t_providerRef :: "string option"
  t_matchId :: "string option"
  t_reason :: "string option"
  t_createdAt :: int

record new_transaction =
  nt_userId :: user_id
  nt_type :: tx_type
  nt_amountCents :: cents
  nt_currency :: "string option"
  nt_status :: "tx_status option"
  nt_providerRef :: "string option"
  nt_matchId :: "string option"
  nt_reason :: "string option"

record ledger =
  l_rows :: "transaction list"
  l_byProviderRef :: "(string \<times> string) list"
  l_seq :: nat

definition empty_ledger :: ledger where
  "empty_ledger = \<lparr>l_rows = [], l_byProviderRef = [], l_seq = 0\<rparr>"

definition tx_key :: "nat \<Rightarrow> string" where
  "tx_key n = ''tx_'' @ nat_str n"

definition truthy :: "string option \<Rightarrow> bool" where
  "truthy r = (case r of None \<Rightarrow> False | Some s \<Rightarrow> s \<noteq> [])"

definition new_row :: "nat \<Rightarrow> new_transaction \<Rightarrow> int \<Rightarrow> transaction" where
  "new_row n tx now =
     \<lparr>t_id = tx_key n, t_userId = nt_userId tx, t_type = nt_type tx,
      t_amountCents = nt_amountCents tx,
      t_currency = (case nt_currency tx of None \<Rightarrow> ''USD'' | Some c \<Rightarrow> c),
      t_status = (case nt_status tx of None \<Rightarrow> TxCompleted | Some x \<Rightarrow> x),
      t_providerRef = nt_providerRef tx, t_matchId = nt_matchId tx, t_reason = nt_reason tx,
      t_createdAt = now\<rparr>"

datatype ledger_error = DuplicateProviderRef string

definition ledger_append ::
  "new_transaction \<Rightarrow> int \<Rightarrow> ledger \<Rightarrow> (ledger_error + transaction) \<times> ledger" where
  "ledger_append tx now l =
     (if truthy (nt_providerRef tx) \<and> map_of (l_byProviderRef l) (the (nt_providerRef tx)) \<noteq> None
      then (Inl (DuplicateProviderRef (the (nt_providerRef tx))), l)
      else
        let n = l_seq l + 1; row = new_row n tx now in
        (Inr row,
         \<lparr>l_rows = l_rows l @ [row],
          l_byProviderRef =
            (if truthy (t_providerRef row)
             then AList.update (the (t_providerRef row)) (t_id row) (l_byProviderRef l)
             else l_byProviderRef l),
          l_seq = n\<rparr>))"

definition row_by_id :: "string \<Rightarrow> ledger \<Rightarrow> transaction option" where
  "row_by_id i l = List.find (\<lambda>r. t_id r = i) (l_rows l)"

definition findByProviderRef :: "string \<Rightarrow> ledger \<Rightarrow> transaction option" where
  "findByProviderRef ref l =
     (case map_of (l_byProviderRef l) ref of None \<Rightarrow> None | Some i \<Rightarrow> row_by_id i l)"

text \<open>The argument \<open>ref\<close> is the mandatory provider reference of the row.\<close>

definition appendIdempotent ::
  "string \<Rightarrow> new_transaction \<Rightarrow> int \<Rightarrow> ledger \<Rightarrow> (ledger_error + transaction \<times> bool) \<times> ledger" where
  "appendIdempotent ref tx now l =
     (case map_of (l_byProviderRef l) ref of
        Some i \<Rightarrow> (Inr (the (row_by_id i l), False), l)
      | None \<Rightarrow>
          (case ledger_append (tx\<lparr>nt_providerRef := Some ref\<rparr>) now l of
             (Inl e, l') \<Rightarrow> (Inl e, l')
           | (Inr row, l') \<Rightarrow> (Inr (row, True), l')))"

record page_opts =
  po_take :: int
  po_cursor :: "string option"

definition listByUser :: "user_id \<Rightarrow> page_opts option \<Rightarrow> ledger \<Rightarrow> transaction list" where
  "listByUser uid opts l =
     (let mine = filter (\<lambda>r. t_userId r = uid) (l_rows l) in
      case opts of
        None \<Rightarrow> mine
      | Some po \<Rightarrow>
          (let newestFirst = rev mine;
               start = (if truthy (po_cursor po)
                        then (case find_index (\<lambda>r. t_id r = the (po_cursor po)) newestFirst of
                                None \<Rightarrow> 0 | Some i \<Rightarrow> i + 1)
                        else 0)
           in take (nat (max 0 (po_take po))) (drop start newestFirst)))"

definition ledger_all :: "ledger \<Rightarrow> transaction list" where
  "ledger_all l = l_rows l"

definition sumByUserAndType :: "user_id \<Rightarrow> tx_type \<Rightarrow> ledger \<Rightarrow> cents" where
  "sumByUserAndType uid ty l =
     foldl (\<lambda>acc r. acc + \<bar>t_amountCents r\<bar>) 0 (filter (\<lambda>r. t_userId r = uid \<and> t_type r = ty) (l_rows l))"

definition sumByUserTypesSince :: "user_id \<Rightarrow> tx_type list \<Rightarrow> int \<Rightarrow> ledger \<Rightarrow> cents" where
  "sumByUserTypesSince uid types since l =
     foldl (\<lambda>acc r. acc + t_amountCents r) 0
       (filter (\<lambda>r. t_userId r = uid \<and> t_type r \<in> set types \<and> t_createdAt r \<ge> since) (l_rows l))"

definition countByUserAndType :: "user_id \<Rightarrow> tx_type \<Rightarrow> ledger \<Rightarrow> nat" where
  "countByUserAndType uid ty l = length (filter (\<lambda>r. t_userId r = uid \<and> t_type r = ty) (l_rows l))"

definition listByUserTypeSince :: "user_id \<Rightarrow> tx_type \<Rightarrow> int \<Rightarrow> ledger \<Rightarrow> transaction list" where
  "listByUserTypeSince uid ty since l =
     rev (filter (\<lambda>r. t_userId r = uid \<and> t_type r = ty \<and> t_createdAt r \<ge> since) (l_rows l))"

definition add_to :: "string \<Rightarrow> cents \<Rightarrow> (string \<times> cents) list \<Rightarrow> (string \<times> cents) list" where
  "add_to k v m = AList.update k ((case map_of m k of None \<Rightarrow> 0 | Some x \<Rightarrow> x) + v) m"

definition sumsByUser :: "ledger \<Rightarrow> (user_id \<times> cents) list" where
  "sumsByUser l = foldl (\<lambda>m r. add_to (t_userId r) (t_amountCents r) m) [] (l_rows l)"

definition sumsByMatch :: "ledger \<Rightarrow> (string \<times> cents) list" where
  "sumsByMatch l =
     foldl (\<lambda>m r. if truthy (t_matchId r) then add_to (the (t_matchId r)) (t_amountCents r) m else m)
       [] (l_rows l)"

subsection \<open>Sums\<close>

definition user_sum :: "ledger \<Rightarrow> user_id \<Rightarrow> cents" where
  "user_sum l uid = (\<Sum>r\<leftarrow>l_rows l. if t_userId r = uid then t_amountCents r else 0)"

definition match_sum :: "ledger \<Rightarrow> string \<Rightarrow> cents" where
  "match_sum l mid = (\<Sum>r\<leftarrow>l_rows l. if t_matchId r = Some mid then t_amountCents r else 0)"

lemma add_to_map: "map_of (add_to k v m) = (map_of m)(k \<mapsto> (case map_of m k of None \<Rightarrow> 0 | Some x \<Rightarrow> x) + v)"
  by (simp add: add_to_def update_conv')

lemma sums_fold:
  "(case map_of (foldl (\<lambda>m r. if P r then add_to (key r) (val r) m else m) m0 rs) k of None \<Rightarrow> 0 | Some x \<Rightarrow> x) =
     (case map_of m0 k of None \<Rightarrow> 0 | Some x \<Rightarrow> x) + (\<Sum>r\<leftarrow>rs. if P r \<and> key r = k then val r else 0)"
  by (induction rs arbitrary: m0) (auto simp: add_to_map split: option.splits)

lemma sumsByUser_eq: "(case map_of (sumsByUser l) uid of None \<Rightarrow> 0 | Some x \<Rightarrow> x) = user_sum l uid"
  using sums_fold[of "\<lambda>_. True" t_userId t_amountCents "[]" "l_rows l" uid]
  by (simp add: sumsByUser_def user_sum_def)

lemma sumsByMatch_eq:
  assumes "mid \<noteq> []"
  shows "(case map_of (sumsByMatch l) mid of None \<Rightarrow> 0 | Some x \<Rightarrow> x) = match_sum l mid"
proof -
  have "(truthy (t_matchId r) \<and> the (t_matchId r) = mid) = (t_matchId r = Some mid)" for r :: transaction
    using assms by (auto simp: truthy_def split: option.splits)
  then show ?thesis
    using sums_fold[of "\<lambda>r. truthy (t_matchId r)" "\<lambda>r. the (t_matchId r)" t_amountCents "[]" "l_rows l" mid]
    by (simp add: sumsByMatch_def match_sum_def)
qed

subsection \<open>Well-formed ledgers\<close>

definition has_ref :: "string \<Rightarrow> transaction \<Rightarrow> bool" where
  "has_ref ref r \<longleftrightarrow> t_providerRef r = Some ref \<and> ref \<noteq> []"

definition ledger_wf :: "ledger \<Rightarrow> bool" where
  "ledger_wf l \<longleftrightarrow>
     l_seq l = length (l_rows l) \<and>
     map t_id (l_rows l) = map (\<lambda>i. tx_key (Suc i)) [0..<length (l_rows l)] \<and>
     (\<forall>ref i. map_of (l_byProviderRef l) ref = Some i \<longleftrightarrow> (\<exists>r\<in>set (l_rows l). has_ref ref r \<and> t_id r = i))"

lemma tx_key_inj: "tx_key m = tx_key n \<longleftrightarrow> m = n"
  by (simp add: tx_key_def nat_str_inj)

lemma ledger_wf_distinct:
  assumes "ledger_wf l"
  shows "distinct (map t_id (l_rows l))"
proof -
  have "map t_id (l_rows l) = map (\<lambda>i. tx_key (Suc i)) [0..<length (l_rows l)]"
    using assms by (simp add: ledger_wf_def)
  moreover have "distinct (map (\<lambda>i. tx_key (Suc i)) [0..<length (l_rows l)])"
    by (simp add: distinct_map inj_on_def tx_key_inj)
  ultimately show ?thesis by metis
qed

lemma row_by_id_mem:
  assumes "ledger_wf l" "r \<in> set (l_rows l)"
  shows "row_by_id (t_id r) l = Some r"
proof -
  have "inj_on t_id (set (l_rows l))" using ledger_wf_distinct[OF assms(1)] by (simp add: distinct_map)
  moreover have "List.find (\<lambda>x. t_id x = t_id r) (l_rows l) \<noteq> None"
    using assms(2) by (auto simp: find_None_iff)
  then obtain r' where f: "List.find (\<lambda>x. t_id x = t_id r) (l_rows l) = Some r'" by blast
  then have "r' \<in> set (l_rows l)" "t_id r' = t_id r" by (auto simp: find_Some_iff)
  ultimately have "r' = r" using assms(2) by (auto dest: inj_onD)
  with f show ?thesis by (simp add: row_by_id_def)
qed

lemma findByProviderRef_iff:
  assumes "ledger_wf l"
  shows "findByProviderRef ref l = Some r \<longleftrightarrow> r \<in> set (l_rows l) \<and> has_ref ref r"
proof
  assume "findByProviderRef ref l = Some r"
  then obtain i where i: "map_of (l_byProviderRef l) ref = Some i" "row_by_id i l = Some r"
    by (auto simp: findByProviderRef_def split: option.splits)
  with assms obtain r' where r': "r' \<in> set (l_rows l)" "has_ref ref r'" "t_id r' = i"
    unfolding ledger_wf_def by blast
  with row_by_id_mem[OF assms r'(1)] i(2) show "r \<in> set (l_rows l) \<and> has_ref ref r" by simp
next
  assume r: "r \<in> set (l_rows l) \<and> has_ref ref r"
  then have "map_of (l_byProviderRef l) ref = Some (t_id r)" using assms unfolding ledger_wf_def by blast
  with r row_by_id_mem[OF assms] show "findByProviderRef ref l = Some r" by (simp add: findByProviderRef_def)
qed

lemma byRef_None:
  assumes "ledger_wf l"
  shows "map_of (l_byProviderRef l) ref = None \<longleftrightarrow> findByProviderRef ref l = None"
proof (cases "map_of (l_byProviderRef l) ref")
  case (Some i)
  with assms obtain r where "r \<in> set (l_rows l)" "has_ref ref r" unfolding ledger_wf_def by blast
  then have "findByProviderRef ref l = Some r" using findByProviderRef_iff[OF assms] by blast
  with Some show ?thesis by simp
qed (simp add: findByProviderRef_def)

lemma ledger_append_new:
  assumes "ledger_wf l" "truthy (nt_providerRef tx) \<Longrightarrow> findByProviderRef (the (nt_providerRef tx)) l = None"
  obtains l' where "ledger_append tx now l = (Inr (new_row (Suc (l_seq l)) tx now), l')" "ledger_wf l'"
    "l_rows l' = l_rows l @ [new_row (Suc (l_seq l)) tx now]"
proof -
  let ?row = "new_row (Suc (l_seq l)) tx now"
  let ?byRef = "if truthy (t_providerRef ?row)
      then AList.update (the (t_providerRef ?row)) (t_id ?row) (l_byProviderRef l) else l_byProviderRef l"
  let ?l = "\<lparr>l_rows = l_rows l @ [?row], l_byProviderRef = ?byRef, l_seq = Suc (l_seq l)\<rparr>"
  have no: "\<not> (truthy (nt_providerRef tx) \<and> map_of (l_byProviderRef l) (the (nt_providerRef tx)) \<noteq> None)"
    using assms byRef_None[OF assms(1)] by auto
  have a: "ledger_append tx now l = (Inr ?row, ?l)"
    using no by (simp add: ledger_append_def Let_def)
  have w: "l_seq l = length (l_rows l)"
    "map t_id (l_rows l) = map (\<lambda>i. tx_key (Suc i)) [0..<length (l_rows l)]"
    "\<And>ref i. map_of (l_byProviderRef l) ref = Some i \<longleftrightarrow> (\<exists>r\<in>set (l_rows l). has_ref ref r \<and> t_id r = i)"
    using assms(1) unfolding ledger_wf_def by blast+
  have f: "t_providerRef ?row = nt_providerRef tx" "t_id ?row = tx_key (Suc (l_seq l))"
    by (simp_all add: new_row_def)
  have "map_of ?byRef ref = Some i \<longleftrightarrow> (\<exists>r\<in>set (l_rows ?l). has_ref ref r \<and> t_id r = i)" for ref i
  proof (cases "truthy (nt_providerRef tx) \<and> ref = the (nt_providerRef tx)")
    case True
    then have "map_of (l_byProviderRef l) ref = None" using no by simp
    then have "\<not> (\<exists>r\<in>set (l_rows l). has_ref ref r)" using w(3)[of ref] by force
    moreover have "has_ref ref ?row" using True f(1) by (auto simp: has_ref_def truthy_def split: option.splits)
    ultimately show ?thesis using True f by (auto simp: update_conv')
  next
    case False
    then have "\<not> has_ref ref ?row" using f(1) by (auto simp: has_ref_def truthy_def)
    moreover have "map_of ?byRef ref = map_of (l_byProviderRef l) ref"
      using False f(1) by (auto simp: update_conv')
    ultimately show ?thesis using w(3)[of ref i] by auto
  qed
  then have "ledger_wf ?l" using w(1,2) f(2) by (simp add: ledger_wf_def)
  with a that show ?thesis by simp
qed

subsection \<open>At most one row per reference\<close>

locale idempotent_ledger =
  fixes app :: "string \<Rightarrow> 'tx \<Rightarrow> 'l \<Rightarrow> ('row \<times> bool) \<times> 'l"
    and find_ref :: "string \<Rightarrow> 'l \<Rightarrow> 'row option"
    and wf :: "'l \<Rightarrow> bool"
  assumes app_old: "wf l \<Longrightarrow> find_ref r l = Some row \<Longrightarrow> app r tx l = ((row, False), l)"
    and app_new: "wf l \<Longrightarrow> r \<noteq> [] \<Longrightarrow> find_ref r l = None \<Longrightarrow>
      \<exists>row l'. app r tx l = ((row, True), l') \<and> find_ref r l' = Some row"
    and app_wf: "wf l \<Longrightarrow> r \<noteq> [] \<Longrightarrow> wf (snd (app r tx l))"
    and app_other: "wf l \<Longrightarrow> r \<noteq> [] \<Longrightarrow> r' \<noteq> r \<Longrightarrow> find_ref r' (snd (app r tx l)) = find_ref r' l"
begin

lemma found_stays: "wf l \<Longrightarrow> r \<noteq> [] \<Longrightarrow> find_ref q l = Some row \<Longrightarrow> find_ref q (snd (app r tx l)) = Some row"
  using app_old[of l r] app_other[of l r q tx] by (cases "q = r") auto

primrec created_count :: "string \<Rightarrow> (string \<times> 'tx) list \<Rightarrow> 'l \<Rightarrow> nat" where
  "created_count q [] l = 0"
| "created_count q (p # ps) l =
     (if fst p = q \<and> snd (fst (app (fst p) (snd p) l)) then 1 else 0)
     + created_count q ps (snd (app (fst p) (snd p) l))"

lemma no_second_row:
  "wf l \<Longrightarrow> \<forall>p\<in>set ps. fst p \<noteq> [] \<Longrightarrow> find_ref q l = Some row \<Longrightarrow> created_count q ps l = 0"
proof (induction ps arbitrary: l)
  case (Cons p ps)
  have "find_ref q (snd (app (fst p) (snd p) l)) = Some row" using Cons.prems by (simp add: found_stays)
  moreover have "wf (snd (app (fst p) (snd p) l))" using Cons.prems by (simp add: app_wf)
  moreover have "fst p = q \<Longrightarrow> \<not> snd (fst (app (fst p) (snd p) l))"
    using app_old[of l q row "snd p"] Cons.prems by simp
  ultimately show ?case using Cons by auto
qed simp

lemma at_most_one_row:
  "wf l \<Longrightarrow> \<forall>p\<in>set ps. fst p \<noteq> [] \<Longrightarrow> created_count q ps l \<le> 1"
proof (induction ps arbitrary: l)
  case (Cons p ps)
  let ?l = "snd (app (fst p) (snd p) l)"
  have w: "wf ?l" "\<forall>p\<in>set ps. fst p \<noteq> []" using Cons.prems by (simp_all add: app_wf)
  show ?case
  proof (cases "fst p = q \<and> snd (fst (app (fst p) (snd p) l))")
    case True
    then obtain row where "find_ref q ?l = Some row"
      using Cons.prems app_new[of l q "snd p"] app_old[of l q _ "snd p"]
      by (cases "find_ref q l") fastforce+
    then show ?thesis using no_second_row[OF w] True by simp
  next
    case False
    with Cons.IH[OF w] show ?thesis by (simp only: created_count.simps if_False)
  qed
qed simp

end

definition append_ref :: "string \<Rightarrow> new_transaction \<times> int \<Rightarrow> ledger \<Rightarrow> (transaction \<times> bool) \<times> ledger" where
  "append_ref ref txn l =
     (let (r, l') = appendIdempotent ref (fst txn) (snd txn) l in (projr r, l'))"

lemma appendIdempotent_old:
  assumes "ledger_wf l" "findByProviderRef ref l = Some row"
  shows "appendIdempotent ref tx now l = (Inr (row, False), l)"
  using assms byRef_None[OF assms(1), of ref]
  by (cases "map_of (l_byProviderRef l) ref") (auto simp: appendIdempotent_def findByProviderRef_def)

lemma appendIdempotent_new:
  assumes "ledger_wf l" "ref \<noteq> []" "findByProviderRef ref l = None"
  obtains row l' where "appendIdempotent ref tx now l = (Inr (row, True), l')" "ledger_wf l'"
    "l_rows l' = l_rows l @ [row]" "row = new_row (Suc (l_seq l)) (tx\<lparr>nt_providerRef := Some ref\<rparr>) now"
proof -
  have n: "map_of (l_byProviderRef l) ref = None" using assms(3) byRef_None[OF assms(1)] by simp
  obtain l' where a: "ledger_append (tx\<lparr>nt_providerRef := Some ref\<rparr>) now l =
      (Inr (new_row (Suc (l_seq l)) (tx\<lparr>nt_providerRef := Some ref\<rparr>) now), l')" "ledger_wf l'"
    "l_rows l' = l_rows l @ [new_row (Suc (l_seq l)) (tx\<lparr>nt_providerRef := Some ref\<rparr>) now]"
    by (rule ledger_append_new[OF assms(1), of "tx\<lparr>nt_providerRef := Some ref\<rparr>" now]) (use assms(3) in auto)
  have "appendIdempotent ref tx now l =
      (Inr (new_row (Suc (l_seq l)) (tx\<lparr>nt_providerRef := Some ref\<rparr>) now, True), l')"
    using n a(1) by (simp add: appendIdempotent_def)
  then show ?thesis using a(2,3) by (rule that) (rule refl)
qed

lemma find_ref_after:
  assumes "ledger_wf l" "ledger_wf l'" "l_rows l' = l_rows l @ [row]" "\<not> has_ref q row"
  shows "findByProviderRef q l' = findByProviderRef q l"
proof (cases "findByProviderRef q l")
  case None
  show ?thesis
  proof (cases "findByProviderRef q l'")
    case (Some r)
    then have "r \<in> set (l_rows l) \<and> has_ref q r"
      using findByProviderRef_iff[OF assms(2)] assms(3,4) by auto
    then have "findByProviderRef q l = Some r" using findByProviderRef_iff[OF assms(1)] by blast
    with None show ?thesis by simp
  qed (simp add: None)
next
  case (Some r)
  then have "r \<in> set (l_rows l') \<and> has_ref q r"
    using findByProviderRef_iff[OF assms(1)] assms(3) by auto
  with Some findByProviderRef_iff[OF assms(2)] show ?thesis by auto
qed

interpretation led: idempotent_ledger append_ref findByProviderRef ledger_wf
proof
  fix l r row and tx :: "new_transaction \<times> int"
  assume wf: "ledger_wf l"
  show "findByProviderRef r l = Some row \<Longrightarrow> append_ref r tx l = ((row, False), l)"
    using appendIdempotent_old[OF wf] by (simp add: append_ref_def)
  assume ne: "r \<noteq> []"
  have new: "\<exists>row l'. append_ref r tx l = ((row, True), l') \<and> ledger_wf l' \<and> l_rows l' = l_rows l @ [row] \<and>
      (\<forall>q. has_ref q row \<longleftrightarrow> q = r)" if f: "findByProviderRef r l = None"
  proof -
    obtain row l' where a: "appendIdempotent r (fst tx) (snd tx) l = (Inr (row, True), l')" "ledger_wf l'"
      "l_rows l' = l_rows l @ [row]" "row = new_row (Suc (l_seq l)) (fst tx\<lparr>nt_providerRef := Some r\<rparr>) (snd tx)"
      by (rule appendIdempotent_new[OF wf ne f])
    then have "append_ref r tx l = ((row, True), l')" by (simp add: append_ref_def)
    moreover have "\<forall>q. has_ref q row \<longleftrightarrow> q = r" using a(4) ne by (auto simp: has_ref_def new_row_def)
    ultimately show ?thesis using a(2,3) by blast
  qed
  show "findByProviderRef r l = None \<Longrightarrow>
      \<exists>row l'. append_ref r tx l = ((row, True), l') \<and> findByProviderRef r l' = Some row"
    using new findByProviderRef_iff by fastforce
  show "ledger_wf (snd (append_ref r tx l))"
    using new appendIdempotent_old[OF wf] wf
    by (cases "findByProviderRef r l") (auto simp: append_ref_def)
  show "r' \<noteq> r \<Longrightarrow> findByProviderRef r' (snd (append_ref r tx l)) = findByProviderRef r' l" for r'
    using new appendIdempotent_old[OF wf] find_ref_after[OF wf]
    by (cases "findByProviderRef r l") (fastforce simp: append_ref_def)+
qed

end
