(* ===== verification/Repositories.thy ===== *)
theory Repositories
  imports Scoring
begin

text \<open>
  The in-memory match and withdrawal stores
  (\<^verbatim>\<open>packages/server/src/money/matchesRepository.ts\<close>, class
  \<^verbatim>\<open>InMemoryMatchesRepository\<close>, and \<^verbatim>\<open>packages/server/src/money/withdrawals.ts\<close>,
  class \<^verbatim>\<open>InMemoryWithdrawals\<close>). Both guard their status transitions: only an active match
  is settled or cancelled, only a pending withdrawal is resolved, only a completed one reversed.
\<close>

subsection \<open>Matches\<close>

datatype match_status = ActiveMatch | Settled | Cancelled

record match_player =
  mp_seat :: seat
  mp_userId :: user_id

record match_record =
  r_id :: string
  r_type :: match_type
  r_stakeCents :: cents
  r_rakeBps :: int
  r_potCents :: cents
  r_status :: match_status
  r_winnerSeats :: "seat list option"
  r_players :: "match_player list"
  r_createdAt :: int
  r_endedAt :: "int option"

type_synonym matches = "(string \<times> match_record) list"

definition matches_create ::
  "string \<Rightarrow> match_type \<Rightarrow> cents \<Rightarrow> int \<Rightarrow> cents \<Rightarrow> match_player list \<Rightarrow> int \<Rightarrow> matches \<Rightarrow> matches" where
  "matches_create mid ty stake rakeBps pot players now ms =
     AList.update mid
       \<lparr>r_id = mid, r_type = ty, r_stakeCents = stake, r_rakeBps = rakeBps, r_potCents = pot,
        r_status = ActiveMatch, r_winnerSeats = None, r_players = players, r_createdAt = now,
        r_endedAt = None\<rparr> ms"

definition matches_find :: "string \<Rightarrow> matches \<Rightarrow> match_record option" where
  "matches_find mid ms = map_of ms mid"

definition matches_findManyByIds :: "string list \<Rightarrow> matches \<Rightarrow> match_record list" where
  "matches_findManyByIds mids ms =
     concat (map (\<lambda>mid. case map_of ms mid of None \<Rightarrow> [] | Some r \<Rightarrow> [r]) mids)"

definition markSettled :: "string \<Rightarrow> seat list \<Rightarrow> int \<Rightarrow> matches \<Rightarrow> matches" where
  "markSettled mid winnerSeats now ms =
     (case map_of ms mid of
        None \<Rightarrow> ms
      | Some r \<Rightarrow>
          if r_status r = ActiveMatch
          then AList.update mid (r\<lparr>r_status := Settled, r_winnerSeats := Some winnerSeats,
                 r_endedAt := Some now\<rparr>) ms
          else ms)"

definition markCancelled :: "string \<Rightarrow> int \<Rightarrow> matches \<Rightarrow> matches" where
  "markCancelled mid now ms =
     (case map_of ms mid of
        None \<Rightarrow> ms
      | Some r \<Rightarrow>
          if r_status r = ActiveMatch
          then AList.update mid (r\<lparr>r_status := Cancelled, r_endedAt := Some now\<rparr>) ms
          else ms)"

definition listActive :: "matches \<Rightarrow> match_record list" where
  "listActive ms = filter (\<lambda>r. r_status r = ActiveMatch) (map snd ms)"

subsection \<open>Withdrawals\<close>

datatype wd_status = WdPending | WdCompleted | WdRejected

record withdrawal =
  wd_id :: string
  wd_userId :: user_id
  wd_amountCents :: cents
  wd_destination :: string
  wd_status :: wd_status
  wd_createdAt :: int
  wd_resolvedAt :: "int option"
  wd_providerRef :: "string option"
  wd_network :: "string option"
  wd_txHash :: "string option"
  wd_resolvedByAdminId :: "string option"
  wd_failureReason :: "string option"

text \<open>A resolution field is absent (leave as it is) or present with a value that may be null.\<close>

record wd_resolution =
  wr_resolvedByAdminId :: "string option option"
  wr_providerRef :: "string option option"
  wr_network :: "string option option"
  wr_txHash :: "string option option"
  wr_failureReason :: "string option option"

definition no_resolution :: wd_resolution where
  "no_resolution = \<lparr>wr_resolvedByAdminId = None, wr_providerRef = None, wr_network = None,
     wr_txHash = None, wr_failureReason = None\<rparr>"

record withdrawals =
  ws_rows :: "withdrawal list"
  ws_seq :: nat

definition wd_key :: "nat \<Rightarrow> string" where
  "wd_key n = ''wd_'' @ nat_str n"

definition wd_create :: "user_id \<Rightarrow> cents \<Rightarrow> string \<Rightarrow> int \<Rightarrow> withdrawals \<Rightarrow> withdrawal \<times> withdrawals" where
  "wd_create uid amount dest now ws =
     (let n = ws_seq ws + 1;
          rec = \<lparr>wd_id = wd_key n, wd_userId = uid, wd_amountCents = amount, wd_destination = dest,
                 wd_status = WdPending, wd_createdAt = now, wd_resolvedAt = None,
                 wd_providerRef = None, wd_network = None, wd_txHash = None,
                 wd_resolvedByAdminId = None, wd_failureReason = None\<rparr>
      in (rec, \<lparr>ws_rows = ws_rows ws @ [rec], ws_seq = n\<rparr>))"

definition wd_find :: "string \<Rightarrow> withdrawals \<Rightarrow> withdrawal option" where
  "wd_find i ws = List.find (\<lambda>r. wd_id r = i) (ws_rows ws)"

definition keep_or :: "'a option \<Rightarrow> 'a \<Rightarrow> 'a" where
  "keep_or p old = (case p of None \<Rightarrow> old | Some v \<Rightarrow> v)"

definition stamp :: "wd_resolution \<Rightarrow> withdrawal \<Rightarrow> withdrawal" where
  "stamp a r =
     r\<lparr>wd_providerRef := keep_or (wr_providerRef a) (wd_providerRef r),
       wd_network := keep_or (wr_network a) (wd_network r),
       wd_txHash := keep_or (wr_txHash a) (wd_txHash r),
       wd_failureReason := keep_or (wr_failureReason a) (wd_failureReason r)\<rparr>"

text \<open>Mutation through the reference returned by \<^verbatim>\<open>rows.find\<close>: the first row with the id.\<close>

fun update_first :: "('a \<Rightarrow> bool) \<Rightarrow> ('a \<Rightarrow> 'a) \<Rightarrow> 'a list \<Rightarrow> 'a list" where
  "update_first P f [] = []"
| "update_first P f (x # xs) = (if P x then f x # xs else x # update_first P f xs)"

definition wd_update :: "string \<Rightarrow> (withdrawal \<Rightarrow> withdrawal) \<Rightarrow> withdrawals \<Rightarrow> withdrawals" where
  "wd_update i f ws = ws\<lparr>ws_rows := update_first (\<lambda>r. wd_id r = i) f (ws_rows ws)\<rparr>"

definition setStatusIfPending ::
  "string \<Rightarrow> wd_status \<Rightarrow> wd_resolution \<Rightarrow> int \<Rightarrow> withdrawals \<Rightarrow> withdrawal option \<times> withdrawals" where
  "setStatusIfPending i status audit now ws =
     (case wd_find i ws of
        None \<Rightarrow> (None, ws)
      | Some r \<Rightarrow>
          if wd_status r \<noteq> WdPending then (None, ws)
          else
            let f = (\<lambda>r. stamp audit (r\<lparr>wd_status := status, wd_resolvedAt := Some now,
                       wd_resolvedByAdminId := keep_or (wr_resolvedByAdminId audit) (wd_resolvedByAdminId r)\<rparr>))
            in (Some (f r), wd_update i f ws))"

definition wd_markReversed :: "string \<Rightarrow> int \<Rightarrow> withdrawals \<Rightarrow> withdrawals" where
  "wd_markReversed i now ws =
     (case wd_find i ws of
        None \<Rightarrow> ws
      | Some r \<Rightarrow>
          if wd_status r = WdCompleted
          then wd_update i (\<lambda>r. r\<lparr>wd_status := WdRejected, wd_resolvedAt := Some now,
                 wd_failureReason := Some ''payout failed on-chain (auto-reversed)''\<rparr>) ws
          else ws)"

definition wd_setAudit :: "string \<Rightarrow> wd_resolution \<Rightarrow> withdrawals \<Rightarrow> withdrawals" where
  "wd_setAudit i audit ws = wd_update i (stamp audit) ws"

definition wd_listPending :: "withdrawals \<Rightarrow> withdrawal list" where
  "wd_listPending ws = filter (\<lambda>r. wd_status r = WdPending) (ws_rows ws)"

definition wd_listByUser :: "user_id \<Rightarrow> int \<Rightarrow> withdrawals \<Rightarrow> withdrawal list" where
  "wd_listByUser uid limit ws =
     take (nat (max 1 (min 100 limit))) (rev (filter (\<lambda>r. wd_userId r = uid) (ws_rows ws)))"

definition listCompletedSince :: "int \<Rightarrow> withdrawals \<Rightarrow> withdrawal list" where
  "listCompletedSince since ws =
     filter (\<lambda>r. wd_status r = WdCompleted \<and>
       (case wd_resolvedAt r of None \<Rightarrow> wd_createdAt r | Some t \<Rightarrow> t) \<ge> since) (ws_rows ws)"

definition sumUserSince :: "user_id \<Rightarrow> int \<Rightarrow> withdrawals \<Rightarrow> cents" where
  "sumUserSince uid since ws =
     foldl (\<lambda>acc r. acc + wd_amountCents r) 0
       (filter (\<lambda>r. wd_userId r = uid \<and> wd_status r \<noteq> WdRejected \<and> wd_createdAt r \<ge> since) (ws_rows ws))"

subsection \<open>Laws of the match store\<close>

lemma map_of_markSettled:
  "map_of (markSettled mid seats now ms) =
     (case map_of ms mid of
        Some r \<Rightarrow> if r_status r = ActiveMatch
          then (map_of ms)(mid \<mapsto> r\<lparr>r_status := Settled, r_winnerSeats := Some seats, r_endedAt := Some now\<rparr>)
          else map_of ms
      | None \<Rightarrow> map_of ms)"
  by (simp add: markSettled_def update_conv' split: option.split)

lemma map_of_markCancelled:
  "map_of (markCancelled mid now ms) =
     (case map_of ms mid of
        Some r \<Rightarrow> if r_status r = ActiveMatch
          then (map_of ms)(mid \<mapsto> r\<lparr>r_status := Cancelled, r_endedAt := Some now\<rparr>)
          else map_of ms
      | None \<Rightarrow> map_of ms)"
  by (simp add: markCancelled_def update_conv' split: option.split)

subsection \<open>Laws of the withdrawal store\<close>

definition wds_wf :: "withdrawals \<Rightarrow> bool" where
  "wds_wf ws \<longleftrightarrow> map wd_id (ws_rows ws) = map (\<lambda>i. wd_key (Suc i)) [0..<ws_seq ws]"

lemma wd_key_inj: "wd_key m = wd_key n \<longleftrightarrow> m = n"
  by (simp add: wd_key_def nat_str_inj)

lemma map_update_first:
  "(\<And>x. h (f x) = h x) \<Longrightarrow> map h (update_first P f xs) = map h xs"
  by (induction xs) auto

lemma find_update_first:
  "(\<And>x. P (f x) = P x) \<Longrightarrow> List.find P (update_first P f xs) = map_option f (List.find P xs)"
  by (induction xs) auto

lemma find_update_first_other:
  "(\<And>x. P x \<Longrightarrow> \<not> Q x) \<Longrightarrow> (\<And>x. Q (f x) = Q x) \<Longrightarrow> List.find Q (update_first P f xs) = List.find Q xs"
  by (induction xs) auto

lemma stamp_fields [simp]:
  "wd_id (stamp a r) = wd_id r" "wd_userId (stamp a r) = wd_userId r"
  "wd_amountCents (stamp a r) = wd_amountCents r" "wd_status (stamp a r) = wd_status r"
  "wd_destination (stamp a r) = wd_destination r"
  by (simp_all add: stamp_def)

lemma wd_find_update:
  assumes "\<And>r. wd_id (f r) = wd_id r"
  shows "wd_find j (wd_update i f ws) = (if j = i then map_option f (wd_find i ws) else wd_find j ws)"
  using assms find_update_first[of "\<lambda>r. wd_id r = i" f "ws_rows ws"]
    find_update_first_other[of "\<lambda>r. wd_id r = i" "\<lambda>r. wd_id r = j" f "ws_rows ws"]
  by (auto simp: wd_find_def wd_update_def)

lemma wds_wf_update: "(\<And>r. wd_id (f r) = wd_id r) \<Longrightarrow> wds_wf (wd_update i f ws) = wds_wf ws"
  by (simp add: wds_wf_def wd_update_def map_update_first)

lemma wd_create_facts:
  assumes "wds_wf ws" "wd_create uid amt dest now ws = (rec, ws')"
  shows "wds_wf ws'" "wd_find (wd_id rec) ws = None" "wd_find (wd_id rec) ws' = Some rec"
    "j \<noteq> wd_id rec \<Longrightarrow> wd_find j ws' = wd_find j ws"
    "wd_status rec = WdPending" "wd_userId rec = uid" "wd_amountCents rec = amt"
proof -
  have r: "wd_id rec = wd_key (Suc (ws_seq ws))" "ws_rows ws' = ws_rows ws @ [rec]"
    "ws_seq ws' = Suc (ws_seq ws)" "wd_status rec = WdPending" "wd_userId rec = uid" "wd_amountCents rec = amt"
    using assms(2) by (auto simp: wd_create_def Let_def)
  show "wds_wf ws'" using assms(1) r by (simp add: wds_wf_def)
  have "wd_key (Suc (ws_seq ws)) \<notin> set (map wd_id (ws_rows ws))"
    using assms(1) unfolding wds_wf_def by (auto simp: wd_key_inj)
  then have n: "\<not> (\<exists>x\<in>set (ws_rows ws). wd_id x = wd_id rec)" using r(1) by force
  then show f: "wd_find (wd_id rec) ws = None" by (auto simp: wd_find_def find_None_iff)
  have app: "List.find P (xs @ [y]) = (case List.find P xs of None \<Rightarrow> if P y then Some y else None | z \<Rightarrow> z)" for P xs and y :: withdrawal
    by (induction xs) auto
  show "wd_find (wd_id rec) ws' = Some rec" using f by (simp add: wd_find_def r(2) app)
  show "j \<noteq> wd_id rec \<Longrightarrow> wd_find j ws' = wd_find j ws"
    by (auto simp: wd_find_def r(2) app split: option.split)
  show "wd_status rec = WdPending" "wd_userId rec = uid" "wd_amountCents rec = amt" by (fact r(4-6))+
qed

lemma setStatusIfPending_cases:
  obtains (refused) "wd_find i ws = None \<or> (\<exists>r. wd_find i ws = Some r \<and> wd_status r \<noteq> WdPending)"
      "setStatusIfPending i st audit now ws = (None, ws)"
  | (claimed) r r' ws' where "wd_find i ws = Some r" "wd_status r = WdPending"
      "setStatusIfPending i st audit now ws = (Some r', ws')" "wd_find i ws' = Some r'"
      "\<And>j. j \<noteq> i \<Longrightarrow> wd_find j ws' = wd_find j ws" "wd_status r' = st" "wd_userId r' = wd_userId r"
      "wd_amountCents r' = wd_amountCents r" "wds_wf ws' = wds_wf ws"
proof (cases "wd_find i ws")
  case None
  then show ?thesis by (intro refused) (auto simp: setStatusIfPending_def)
next
  case (Some r)
  show ?thesis
  proof (cases "wd_status r = WdPending")
    case False
    with Some show ?thesis by (intro refused) (auto simp: setStatusIfPending_def)
  next
    case True
    let ?f = "\<lambda>r. stamp audit (r\<lparr>wd_status := st, wd_resolvedAt := Some now,
       wd_resolvedByAdminId := keep_or (wr_resolvedByAdminId audit) (wd_resolvedByAdminId r)\<rparr>)"
    show ?thesis
      by (rule claimed[of r "?f r" "wd_update i ?f ws"])
         (use Some True in \<open>simp_all add: setStatusIfPending_def Let_def wd_find_update wds_wf_update\<close>)
  qed
qed

lemma wd_markReversed_find:
  "wd_find j (wd_markReversed i now ws) =
     (if j = i then map_option (\<lambda>r. if wd_status r = WdCompleted
        then r\<lparr>wd_status := WdRejected, wd_resolvedAt := Some now,
               wd_failureReason := Some ''payout failed on-chain (auto-reversed)''\<rparr> else r) (wd_find i ws)
      else wd_find j ws)"
  by (cases "wd_find i ws") (auto simp: wd_markReversed_def wd_find_update)

lemma wds_wf_markReversed [simp]: "wds_wf (wd_markReversed i now ws) = wds_wf ws"
  by (simp add: wd_markReversed_def wds_wf_update split: option.split)

lemma wds_wf_setAudit [simp]: "wds_wf (wd_setAudit i a ws) = wds_wf ws"
  by (simp add: wd_setAudit_def wds_wf_update)

lemma wd_setAudit_find:
  "wd_find j (wd_setAudit i a ws) = (if j = i then map_option (stamp a) (wd_find i ws) else wd_find j ws)"
  by (simp add: wd_setAudit_def wd_find_update)

end
