(* ===== verification/Wallet.thy ===== *)
theory Wallet
  imports Users Ledger Repositories
begin

text \<open>
  The wallet (\<^verbatim>\<open>packages/server/src/money/walletService.ts\<close>) with the unit of work it runs in
  (\<^verbatim>\<open>money/unitOfWork.ts\<close>) and the admin audit store (\<^verbatim>\<open>auth/adminAudit.ts\<close>).

  The stores a transaction context binds are one record, \<open>money_store\<close>; further services
  extend it. An operation is an action on the store that returns a value or an error together
  with the store at that moment. A unit of work is the function that says which store remains
  when its callback threw, given the store at the start and at the throw:
  \<open>in_memory_uow\<close> keeps the writes, a database is any function with \<open>rolls_back\<close>, which is what
  the documentation of \<^verbatim>\<open>$transaction\<close> promises. Amounts are integers, so the
  \<^verbatim>\<open>Number.isInteger\<close> checks hold. Each operation is one uninterrupted step, so the per-user
  chain of capped deposits (\<^verbatim>\<open>serializeDeposit\<close>) is the order of the steps.

  The locale \<open>ledger_wallet\<close> is what the money services rely on: a successful credit, debit or
  rake entry keeps the books balanced and appends exactly the row it describes.
\<close>

definition HOUSE_ACCOUNT_ID :: user_id where
  "HOUSE_ACCOUNT_ID = ''__house__''"

definition MAX_AMOUNT_CENTS :: cents where
  "MAX_AMOUNT_CENTS = 2000000000"

definition BALANCE_CEILING_CENTS :: cents where
  "BALANCE_CEILING_CENTS = 2000000000"

subsection \<open>Admin audit\<close>

datatype admin_action_type =
  BalanceAdjust | KycSet | RoleSet | PermissionsSet | WithdrawalApprove | WithdrawalReject |
  ProfileSelfUpdate | SupportResolve | AccountStateSet | ChatModeration | MatchVoid |
  TournamentCreate | TournamentReport | TournamentConfirm | TournamentCancel | TournamentDelete |
  ClubClose | AccountSelfDelete

record new_admin_action =
  na_adminId :: string
  na_action :: admin_action_type
  na_targetUserId :: "string option"
  na_amountCents :: "cents option"
  na_detail :: "string option"

record admin_action = new_admin_action +
  aa_id :: string
  aa_createdAt :: int

record admin_audit =
  aud_rows :: "admin_action list"
  aud_seq :: nat

definition audit_record :: "new_admin_action \<Rightarrow> int \<Rightarrow> admin_audit \<Rightarrow> admin_audit" where
  "audit_record a now au =
     (let n = aud_seq au + 1 in
      \<lparr>aud_rows = aud_rows au @ [new_admin_action.extend a \<lparr>aa_id = ''aa_'' @ nat_str n, aa_createdAt = now\<rparr>],
       aud_seq = n\<rparr>)"

definition audit_list :: "nat \<Rightarrow> admin_audit \<Rightarrow> admin_action list" where
  "audit_list limit au =
     rev (if limit = 0 then aud_rows au else drop (length (aud_rows au) - limit) (aud_rows au))"

definition sumAdjustmentsBy :: "string \<Rightarrow> int \<Rightarrow> admin_audit \<Rightarrow> cents" where
  "sumAdjustmentsBy adminId since au =
     foldl (\<lambda>acc r. acc + \<bar>case na_amountCents r of None \<Rightarrow> 0 | Some x \<Rightarrow> x\<bar>) 0
       (filter (\<lambda>r. na_adminId r = adminId \<and> na_action r = BalanceAdjust \<and> aa_createdAt r \<ge> since)
         (aud_rows au))"

subsection \<open>The store and its transactions\<close>

record money_store =
  m_users :: users
  m_ledger :: ledger
  m_matches :: matches
  m_withdrawals :: withdrawals
  m_audit :: admin_audit

datatype money_error =
  AmountNotPositive | AmountTooLarge | UserNotFound user_id
| BalanceCeilingError user_id cents cents
| InsufficientFundsError user_id cents cents
| DepositCapExceededError user_id cents cents cents
| CreditFailed user_id | SelfTransfer | RakeNegative | AdjustmentZero | RefBoundDebit
| LedgerFailure ledger_error
| NoWinner | PotNegative | RakeBpsRange
| WithdrawalError string | TournamentError string | ClubWarError string | ProviderThrew string

definition in_memory_uow :: "'s \<Rightarrow> 's \<Rightarrow> 's" where
  "in_memory_uow s0 s = s"

definition rolls_back :: "('s \<Rightarrow> 's \<Rightarrow> 's) \<Rightarrow> bool" where
  "rolls_back uow \<longleftrightarrow> (\<forall>s0 s. uow s0 s = s0)"

definition transaction_in :: "('s \<Rightarrow> 's \<Rightarrow> 's) \<Rightarrow> ('s, 'e, 'a) action \<Rightarrow> ('s, 'e, 'a) action" where
  "transaction_in uow fn s =
     (case fn s of (Inr x, s') \<Rightarrow> (Inr x, s') | (Inl e, s') \<Rightarrow> (Inl e, uow s s'))"

record 's wallet_service =
  w_uow :: "('s \<Rightarrow> 's \<Rightarrow> 's) option"
  w_txBound :: bool

definition bind_wallet :: "'s wallet_service" where
  "bind_wallet = \<lparr>w_uow = None, w_txBound = True\<rparr>"

definition run_wallet :: "'s wallet_service \<Rightarrow> ('s, 'e, 'a) action \<Rightarrow> ('s, 'e, 'a) action" where
  "run_wallet w fn s =
     (if w_txBound w then fn s
      else case w_uow w of Some uow \<Rightarrow> transaction_in uow fn s | None \<Rightarrow> fn s)"

definition run_tx :: "'s wallet_service \<Rightarrow> ('s wallet_service \<Rightarrow> ('s, 'e, 'a) action) \<Rightarrow> ('s, 'e, 'a) action" where
  "run_tx w fn s =
     (if w_txBound w then fn w s
      else case w_uow w of Some uow \<Rightarrow> transaction_in uow (fn bind_wallet) s | None \<Rightarrow> fn w s)"

definition proper_wallet :: "'s wallet_service \<Rightarrow> bool" where
  "proper_wallet w \<longleftrightarrow> (case w_uow w of None \<Rightarrow> True | Some uow \<Rightarrow> rolls_back uow \<or> uow = in_memory_uow)"

definition compensates :: "'s wallet_service \<Rightarrow> bool" where
  "compensates w \<longleftrightarrow> w_uow w = None \<and> \<not> w_txBound w"

subsection \<open>Credit and debit\<close>

record credit_options =
  co_type :: tx_type
  co_reason :: "string option"
  co_providerRef :: "string option"
  co_matchId :: "string option"
  co_currency :: "string option"
  co_depositCapCents :: "cents option"

record debit_options =
  do_type :: tx_type
  do_reason :: "string option"
  do_matchId :: "string option"
  do_currency :: "string option"

record move_result =
  mr_transaction :: transaction
  mr_balanceCents :: cents
  mr_idempotent :: bool

definition plain_credit :: "tx_type \<Rightarrow> string \<Rightarrow> credit_options" where
  "plain_credit ty reason = \<lparr>co_type = ty, co_reason = Some reason, co_providerRef = None,
     co_matchId = None, co_currency = None, co_depositCapCents = None\<rparr>"

definition plain_debit :: "tx_type \<Rightarrow> string \<Rightarrow> debit_options" where
  "plain_debit ty reason = \<lparr>do_type = ty, do_reason = Some reason, do_matchId = None, do_currency = None\<rparr>"

definition DAY_MS :: int where
  "DAY_MS = 86400000"

definition startOfDayMs :: "int \<Rightarrow> int" where
  "startOfDayMs now = (now div DAY_MS) * DAY_MS"

definition assertAmount :: "cents \<Rightarrow> money_error option" where
  "assertAmount amount =
     (if amount \<le> 0 then Some AmountNotPositive
      else if amount > MAX_AMOUNT_CENTS then Some AmountTooLarge else None)"

definition getBalance :: "user_id \<Rightarrow> 'z money_store_scheme \<Rightarrow> cents" where
  "getBalance uid s = (case findById uid (m_users s) of None \<Rightarrow> 0 | Some u \<Rightarrow> u_balanceCents u)"

definition depositCap_violated ::
  "user_id \<Rightarrow> cents \<Rightarrow> credit_options \<Rightarrow> int \<Rightarrow> 'z money_store_scheme \<Rightarrow> money_error option" where
  "depositCap_violated uid amount opts now s =
     (case co_depositCapCents opts of
        None \<Rightarrow> None
      | Some cap \<Rightarrow>
          (case findByProviderRef (the (co_providerRef opts)) (m_ledger s) of
             Some _ \<Rightarrow> None
           | None \<Rightarrow>
               (let used = sumByUserTypesSince uid [Deposit] (startOfDayMs now) (m_ledger s) in
                if used + amount > cap then Some (DepositCapExceededError uid used amount cap) else None)))"

definition credit_row :: "user_id \<Rightarrow> cents \<Rightarrow> credit_options \<Rightarrow> string option \<Rightarrow> new_transaction" where
  "credit_row uid amount opts ref =
     \<lparr>nt_userId = uid, nt_type = co_type opts, nt_amountCents = amount, nt_currency = co_currency opts,
      nt_status = None, nt_providerRef = ref, nt_matchId = co_matchId opts, nt_reason = co_reason opts\<rparr>"

definition credit_ref ::
  "user \<Rightarrow> user_id \<Rightarrow> cents \<Rightarrow> credit_options \<Rightarrow> int \<Rightarrow> ('z money_store_scheme, money_error, move_result) action" where
  "credit_ref user uid amount opts now s =
     (case depositCap_violated uid amount opts now s of
        Some e \<Rightarrow> (Inl e, s)
      | None \<Rightarrow>
          (case appendIdempotent (the (co_providerRef opts)) (credit_row uid amount opts (co_providerRef opts)) now (m_ledger s) of
             (Inl e, l) \<Rightarrow> (Inl (LedgerFailure e), s\<lparr>m_ledger := l\<rparr>)
           | (Inr (tx, created), l) \<Rightarrow>
               if \<not> created
               then (Inr \<lparr>mr_transaction = tx, mr_balanceCents = getBalance uid (s\<lparr>m_ledger := l\<rparr>), mr_idempotent = True\<rparr>,
                     s\<lparr>m_ledger := l\<rparr>)
               else if u_balanceCents user + amount > BALANCE_CEILING_CENTS
               then (Inl (BalanceCeilingError uid (u_balanceCents user) amount), s\<lparr>m_ledger := l\<rparr>)
               else
                 (case adjustBalance uid amount (m_users s) of
                    (None, us) \<Rightarrow> (Inl (CreditFailed uid), s\<lparr>m_ledger := l, m_users := us\<rparr>)
                  | (Some b, us) \<Rightarrow>
                      (Inr \<lparr>mr_transaction = tx, mr_balanceCents = b, mr_idempotent = False\<rparr>,
                       s\<lparr>m_ledger := l, m_users := us\<rparr>))))"

definition reversal_row :: "user_id \<Rightarrow> cents \<Rightarrow> credit_options \<Rightarrow> transaction \<Rightarrow> new_transaction" where
  "reversal_row uid amount opts tx =
     (credit_row uid (- amount) opts None)\<lparr>nt_reason := Some (''reversal: balance update failed ('' @ t_id tx @ '')'')\<rparr>"

definition credit_plain ::
  "'z money_store_scheme wallet_service \<Rightarrow> user \<Rightarrow> user_id \<Rightarrow> cents \<Rightarrow> credit_options \<Rightarrow> int \<Rightarrow>
     ('z money_store_scheme, money_error, move_result) action" where
  "credit_plain w user uid amount opts now s =
     (if u_balanceCents user + amount > BALANCE_CEILING_CENTS
      then (Inl (BalanceCeilingError uid (u_balanceCents user) amount), s)
      else
        case ledger_append (credit_row uid amount opts None) now (m_ledger s) of
          (Inl e, l) \<Rightarrow> (Inl (LedgerFailure e), s\<lparr>m_ledger := l\<rparr>)
        | (Inr tx, l) \<Rightarrow>
            (case adjustBalance uid amount (m_users s) of
               (None, us) \<Rightarrow>
                 (Inl (CreditFailed uid),
                  s\<lparr>m_users := us,
                    m_ledger := (if compensates w
                                 then snd (ledger_append (reversal_row uid amount opts tx) now l) else l)\<rparr>)
             | (Some b, us) \<Rightarrow>
                 (Inr \<lparr>mr_transaction = tx, mr_balanceCents = b, mr_idempotent = False\<rparr>,
                  s\<lparr>m_ledger := l, m_users := us\<rparr>)))"

definition credit ::
  "'z money_store_scheme wallet_service \<Rightarrow> user_id \<Rightarrow> cents \<Rightarrow> credit_options \<Rightarrow> int \<Rightarrow>
     ('z money_store_scheme, money_error, move_result) action" where
  "credit w uid amount opts now s =
     (case assertAmount amount of
        Some e \<Rightarrow> (Inl e, s)
      | None \<Rightarrow>
          run_wallet w (\<lambda>s.
            case findById uid (m_users s) of
              None \<Rightarrow> (Inl (UserNotFound uid), s)
            | Some user \<Rightarrow>
                if truthy (co_providerRef opts) then credit_ref user uid amount opts now s
                else credit_plain w user uid amount opts now s) s)"

definition debit ::
  "'z money_store_scheme wallet_service \<Rightarrow> user_id \<Rightarrow> cents \<Rightarrow> debit_options \<Rightarrow> int \<Rightarrow>
     ('z money_store_scheme, money_error, move_result) action" where
  "debit w uid amount opts now s =
     (case assertAmount amount of
        Some e \<Rightarrow> (Inl e, s)
      | None \<Rightarrow>
          run_wallet w (\<lambda>s.
            case adjustBalance uid (- amount) (m_users s) of
              (None, us) \<Rightarrow>
                (Inl (InsufficientFundsError uid amount (getBalance uid (s\<lparr>m_users := us\<rparr>))), s\<lparr>m_users := us\<rparr>)
            | (Some b, us) \<Rightarrow>
                (case ledger_append
                   \<lparr>nt_userId = uid, nt_type = do_type opts, nt_amountCents = - amount, nt_currency = do_currency opts,
                    nt_status = None, nt_providerRef = None, nt_matchId = do_matchId opts, nt_reason = do_reason opts\<rparr>
                   now (m_ledger s) of
                   (Inr tx, l) \<Rightarrow>
                     (Inr \<lparr>mr_transaction = tx, mr_balanceCents = b, mr_idempotent = False\<rparr>,
                      s\<lparr>m_users := us, m_ledger := l\<rparr>)
                 | (Inl e, l) \<Rightarrow>
                     (Inl (LedgerFailure e),
                      s\<lparr>m_ledger := l,
                        m_users := (if compensates w then snd (adjustBalance uid amount us) else us)\<rparr>))) s)"

subsection \<open>Composite movements\<close>

record transfer_result =
  tr_balanceCents :: cents
  tr_outTx :: transaction
  tr_inTx :: transaction

definition transfer ::
  "'z money_store_scheme wallet_service \<Rightarrow> user_id \<Rightarrow> user_id \<Rightarrow> cents \<Rightarrow> string option \<Rightarrow> int \<Rightarrow>
     ('z money_store_scheme, money_error, transfer_result) action" where
  "transfer w from to amount reason now s =
     (case assertAmount amount of
        Some e \<Rightarrow> (Inl e, s)
      | None \<Rightarrow>
          if from = to then (Inl SelfTransfer, s)
          else run_tx w (\<lambda>w.
            bind_act (debit w from amount
                (plain_debit TransferOut (case reason of None \<Rightarrow> ''transfer to '' @ to | Some r \<Rightarrow> r)) now) (\<lambda>out.
            bind_act (credit w to amount (plain_credit TransferIn (''transfer from '' @ from)) now) (\<lambda>credited.
            return_act \<lparr>tr_balanceCents = mr_balanceCents out, tr_outTx = mr_transaction out,
                        tr_inTx = mr_transaction credited\<rparr>))) s)"

definition rake_row :: "cents \<Rightarrow> string option \<Rightarrow> string option \<Rightarrow> string option \<Rightarrow> new_transaction" where
  "rake_row amount matchId reason ref =
     \<lparr>nt_userId = HOUSE_ACCOUNT_ID, nt_type = Rake, nt_amountCents = amount, nt_currency = None, nt_status = None,
      nt_providerRef = ref, nt_matchId = matchId,
      nt_reason = Some (case reason of None \<Rightarrow> ''rake'' | Some r \<Rightarrow> r)\<rparr>"

definition recordRake ::
  "'z money_store_scheme wallet_service \<Rightarrow> cents \<Rightarrow> string option \<Rightarrow> string option \<Rightarrow> string option \<Rightarrow> int \<Rightarrow>
     ('z money_store_scheme, money_error, transaction) action" where
  "recordRake w amount matchId reason ref now s =
     (if amount < 0 then (Inl RakeNegative, s)
      else run_wallet w (\<lambda>s.
        if truthy ref
        then (case appendIdempotent (the ref) (rake_row amount matchId reason ref) now (m_ledger s) of
                (Inl e, l) \<Rightarrow> (Inl (LedgerFailure e), s\<lparr>m_ledger := l\<rparr>)
              | (Inr (tx, _), l) \<Rightarrow> (Inr tx, s\<lparr>m_ledger := l\<rparr>))
        else (case ledger_append (rake_row amount matchId reason None) now (m_ledger s) of
                (Inl e, l) \<Rightarrow> (Inl (LedgerFailure e), s\<lparr>m_ledger := l\<rparr>)
              | (Inr tx, l) \<Rightarrow> (Inr tx, s\<lparr>m_ledger := l\<rparr>))) s)"

definition move_signed ::
  "'z money_store_scheme wallet_service \<Rightarrow> user_id \<Rightarrow> cents \<Rightarrow> string \<Rightarrow> string option \<Rightarrow> int \<Rightarrow>
     ('z money_store_scheme, money_error, move_result) action" where
  "move_signed w uid delta reason ref now =
     (if delta > 0 then credit w uid delta ((plain_credit AdminAdjust reason)\<lparr>co_providerRef := ref\<rparr>) now
      else debit w uid (- delta) (plain_debit AdminAdjust reason) now)"

definition adminAdjust ::
  "'z money_store_scheme wallet_service \<Rightarrow> user_id \<Rightarrow> cents \<Rightarrow> string \<Rightarrow> string option \<Rightarrow> int \<Rightarrow>
     ('z money_store_scheme, money_error, move_result) action" where
  "adminAdjust w uid delta reason ref now s =
     (if delta = 0 then (Inl AdjustmentZero, s)
      else if truthy ref \<and> delta < 0 then (Inl RefBoundDebit, s)
      else move_signed w uid delta reason ref now s)"

definition adminAdjustAudited ::
  "'z money_store_scheme wallet_service \<Rightarrow> user_id \<Rightarrow> cents \<Rightarrow> string \<Rightarrow> new_admin_action \<Rightarrow> string option \<Rightarrow> int \<Rightarrow>
     ('z money_store_scheme, money_error, move_result) action" where
  "adminAdjustAudited w uid delta reason audit ref now s =
     (let note = (\<lambda>res s. (Inr res,
                    if mr_idempotent res then s else s\<lparr>m_audit := audit_record audit now (m_audit s)\<rparr>)) in
      if delta = 0 then (Inl AdjustmentZero, s)
      else if truthy ref \<and> delta < 0 then (Inl RefBoundDebit, s)
      else case w_uow w of
        None \<Rightarrow> bind_act (adminAdjust w uid delta reason ref now) note s
      | Some uow \<Rightarrow> transaction_in uow (bind_act (move_signed bind_wallet uid delta reason ref now) note) s)"

subsection \<open>Queries\<close>

definition listTransactions :: "user_id \<Rightarrow> 'z money_store_scheme \<Rightarrow> transaction list" where
  "listTransactions uid s = listByUser uid None (m_ledger s)"

definition moved_since :: "tx_type \<Rightarrow> user_id \<Rightarrow> int \<Rightarrow> 'z money_store_scheme \<Rightarrow> cents" where
  "moved_since ty uid since s =
     foldl (\<lambda>acc t. acc + \<bar>t_amountCents t\<bar>) 0
       (filter (\<lambda>t. t_type t = ty \<and> t_createdAt t \<ge> since) (listByUser uid None (m_ledger s)))"

definition transferredOutSince :: "user_id \<Rightarrow> int \<Rightarrow> 'z money_store_scheme \<Rightarrow> cents" where
  "transferredOutSince = moved_since TransferOut"

definition transferredInSince :: "user_id \<Rightarrow> int \<Rightarrow> 'z money_store_scheme \<Rightarrow> cents" where
  "transferredInSince = moved_since TransferIn"

definition sumByTypesSince :: "user_id \<Rightarrow> tx_type list \<Rightarrow> int \<Rightarrow> 'z money_store_scheme \<Rightarrow> cents" where
  "sumByTypesSince uid types since s = sumByUserTypesSince uid types since (m_ledger s)"

definition getHouseRakeCents :: "'z money_store_scheme \<Rightarrow> cents" where
  "getHouseRakeCents s = sumByUserAndType HOUSE_ACCOUNT_ID Rake (m_ledger s)"

definition getHouseRakeCount :: "'z money_store_scheme \<Rightarrow> nat" where
  "getHouseRakeCount s = countByUserAndType HOUSE_ACCOUNT_ID Rake (m_ledger s)"

definition listHouseRakeSince :: "int \<Rightarrow> 'z money_store_scheme \<Rightarrow> transaction list" where
  "listHouseRakeSince since s = listByUserTypeSince HOUSE_ACCOUNT_ID Rake since (m_ledger s)"

definition stakedVolumeCents :: "user_id \<Rightarrow> 'z money_store_scheme \<Rightarrow> cents" where
  "stakedVolumeCents uid s = sumByUserAndType uid Bet (m_ledger s)"

definition listTransactionsPage :: "user_id \<Rightarrow> int option \<Rightarrow> string option \<Rightarrow> 'z money_store_scheme \<Rightarrow> transaction list" where
  "listTransactionsPage uid tk cursor s =
     (let tk' = min 500 (max 1 (case tk of None \<Rightarrow> 200 | Some n \<Rightarrow> n)) in
      listByUser uid (Some \<lparr>po_take = tk', po_cursor = cursor\<rparr>) (m_ledger s))"

record mismatch =
  mm_userId :: user_id
  mm_balanceCents :: cents
  mm_ledgerSum :: cents

definition reconcile :: "'z money_store_scheme \<Rightarrow> bool \<times> mismatch list" where
  "reconcile s =
     (let sumMap = sumsByUser (m_ledger s);
          userIds = filter (\<lambda>i. i \<noteq> HOUSE_ACCOUNT_ID) (map fst sumMap);
          balances = foldl (\<lambda>m u. AList.update (u_id u) (u_balanceCents u) m) [] (findManyByIds userIds (m_users s));
          mismatches = concat (map (\<lambda>uid.
            let ledgerSum = (case map_of sumMap uid of None \<Rightarrow> 0 | Some x \<Rightarrow> x);
                balanceCents = (case map_of balances uid of None \<Rightarrow> 0 | Some x \<Rightarrow> x)
            in if balanceCents \<noteq> ledgerSum
               then [\<lparr>mm_userId = uid, mm_balanceCents = balanceCents, mm_ledgerSum = ledgerSum\<rparr>] else []) userIds)
      in (mismatches = [], mismatches))"

definition matchLedgerSums :: "'z money_store_scheme \<Rightarrow> (string \<times> cents) list" where
  "matchLedgerSums s = sumsByMatch (m_ledger s)"

subsection \<open>Balanced books\<close>

text \<open>
  The books are balanced when every stored balance is the sum of the user's ledger rows, lies
  between zero and the ceiling, and every row belongs to a user or to the house.
\<close>

definition books_ok :: "'z money_store_scheme \<Rightarrow> bool" where
  "books_ok s \<longleftrightarrow> users_wf (m_users s) \<and> ledger_wf (m_ledger s) \<and>
     (\<forall>r\<in>set (l_rows (m_ledger s)). t_userId r \<in> insert HOUSE_ACCOUNT_ID (known (m_users s))) \<and>
     (\<forall>uid\<in>known (m_users s). balance_of (m_users s) uid = user_sum (m_ledger s) uid \<and>
        0 \<le> balance_of (m_users s) uid \<and> balance_of (m_users s) uid \<le> BALANCE_CEILING_CENTS)"

text \<open>Only balances and ledger change, and no user appears or disappears.\<close>

definition only_books :: "'z money_store_scheme \<Rightarrow> 'z money_store_scheme \<Rightarrow> bool" where
  "only_books s s' \<longleftrightarrow> (\<exists>us l. s' = s\<lparr>m_users := us, m_ledger := l\<rparr> \<and> known us = known (m_users s))"

definition posted :: "transaction \<Rightarrow> 'z money_store_scheme \<Rightarrow> 'z money_store_scheme \<Rightarrow> bool" where
  "posted row s s' \<longleftrightarrow> books_ok s' \<and> only_books s s' \<and>
     l_rows (m_ledger s') = l_rows (m_ledger s) @ [row]"

lemma only_books_refl [simp]: "only_books s s"
  unfolding only_books_def by (rule exI[of _ "m_users s"], rule exI[of _ "m_ledger s"]) simp

lemma only_books_trans [trans]:
  assumes "only_books s t" "only_books t u"
  shows "only_books s u"
proof -
  obtain us l where t: "t = s\<lparr>m_users := us, m_ledger := l\<rparr>" "known us = known (m_users s)"
    using assms(1) only_books_def by blast
  obtain us' l' where u: "u = t\<lparr>m_users := us', m_ledger := l'\<rparr>" "known us' = known (m_users t)"
    using assms(2) only_books_def by blast
  have "u = s\<lparr>m_users := us', m_ledger := l'\<rparr>" by (simp add: u(1) t(1))
  moreover have "known us' = known (m_users s)" by (simp add: u(2) t)
  ultimately show ?thesis unfolding only_books_def by blast
qed

lemma only_books_frame:
  assumes "only_books s s'"
  shows "m_matches s' = m_matches s" "m_withdrawals s' = m_withdrawals s" "m_audit s' = m_audit s"
    "known (m_users s') = known (m_users s)"
proof -
  obtain us l where t: "s' = s\<lparr>m_users := us, m_ledger := l\<rparr>" "known us = known (m_users s)"
    using assms only_books_def by blast
  show "m_matches s' = m_matches s" "m_withdrawals s' = m_withdrawals s" "m_audit s' = m_audit s"
    "known (m_users s') = known (m_users s)"
    unfolding t(1) by (simp_all add: t(2))
qed

lemma user_sum_snoc:
  "l_rows l' = l_rows l @ [row] \<Longrightarrow>
     user_sum l' uid = user_sum l uid + (if t_userId row = uid then t_amountCents row else 0)"
  by (simp add: user_sum_def)

lemma match_sum_snoc:
  "l_rows l' = l_rows l @ [row] \<Longrightarrow>
     match_sum l' mid = match_sum l mid + (if t_matchId row = Some mid then t_amountCents row else 0)"
  by (simp add: match_sum_def)

lemma HOUSE_unknown: "users_wf us \<Longrightarrow> HOUSE_ACCOUNT_ID \<notin> known us"
  by (auto simp: users_wf_def user_key_def HOUSE_ACCOUNT_ID_def)

lemma getBalance_eq: "getBalance uid s = balance_of (m_users s) uid"
  by (simp add: getBalance_def balance_of_def findById_def)

text \<open>A row together with the matching balance change keeps the books balanced.\<close>

lemma post_user_row:
  assumes "books_ok s" "ledger_wf l" "l_rows l = l_rows (m_ledger s) @ [row]"
    and adj: "adjustBalance (t_userId row) (t_amountCents row) (m_users s) = (Some b, us)"
    and "b \<le> BALANCE_CEILING_CENTS"
  shows "posted row s (s\<lparr>m_ledger := l, m_users := us\<rparr>)" "b = balance_of (m_users s) (t_userId row) + t_amountCents row"
    "b = balance_of us (t_userId row)"
proof -
  let ?u = "t_userId row"
  have a: "?u \<in> known (m_users s)" "0 \<le> b" "b = balance_of (m_users s) ?u + t_amountCents row"
    "known us = known (m_users s)" "\<And>x. balance_of us x = (if x = ?u then b else balance_of (m_users s) x)"
    by (rule adjustBalance_cases[of ?u "m_users s" "t_amountCents row"]; use adj in auto)+
  have "users_wf us" using adjustBalance_wf[of "m_users s" ?u "t_amountCents row"] assms(1) adj
    by (simp add: books_ok_def)
  then have "books_ok (s\<lparr>m_ledger := l, m_users := us\<rparr>)"
    using assms(1-3,5) a unfolding books_ok_def by (auto simp: user_sum_snoc[OF assms(3)])
  moreover have "only_books s (s\<lparr>m_ledger := l, m_users := us\<rparr>)"
    unfolding only_books_def by (rule exI[of _ us], rule exI[of _ l]) (simp add: a(4))
  ultimately show "posted row s (s\<lparr>m_ledger := l, m_users := us\<rparr>)" by (simp add: posted_def assms(3))
  show "b = balance_of (m_users s) ?u + t_amountCents row" by (fact a(3))
  show "b = balance_of us ?u" using a(5)[of ?u] by simp
qed

lemma post_house_row:
  assumes "books_ok s" "ledger_wf l" "l_rows l = l_rows (m_ledger s) @ [row]" "t_userId row = HOUSE_ACCOUNT_ID"
  shows "posted row s (s\<lparr>m_ledger := l\<rparr>)"
proof -
  have "HOUSE_ACCOUNT_ID \<notin> known (m_users s)" using assms(1) HOUSE_unknown by (auto simp: books_ok_def)
  then have "\<forall>uid\<in>known (m_users s). user_sum l uid = user_sum (m_ledger s) uid"
    using user_sum_snoc[OF assms(3)] assms(4) by auto
  then have "books_ok (s\<lparr>m_ledger := l\<rparr>)" using assms unfolding books_ok_def by auto
  moreover have "only_books s (s\<lparr>m_ledger := l\<rparr>)"
    unfolding only_books_def by (rule exI[of _ "m_users s"], rule exI[of _ l]) simp
  ultimately show ?thesis by (simp add: posted_def assms(3))
qed

lemma books_ok_balance:
  "books_ok s \<Longrightarrow> uid \<in> known (m_users s) \<Longrightarrow>
     balance_of (m_users s) uid = user_sum (m_ledger s) uid \<and>
     0 \<le> balance_of (m_users s) uid \<and> balance_of (m_users s) uid \<le> BALANCE_CEILING_CENTS"
  unfolding books_ok_def by blast

lemma posted_balance:
  assumes "books_ok s" "posted row s s'" "uid \<noteq> HOUSE_ACCOUNT_ID"
  shows "balance_of (m_users s') uid =
    balance_of (m_users s) uid + (if t_userId row = uid then t_amountCents row else 0)"
proof -
  have b: "books_ok s'" and k: "known (m_users s') = known (m_users s)"
    and r: "l_rows (m_ledger s') = l_rows (m_ledger s) @ [row]"
    using assms(2) only_books_frame(4)[of s s'] by (auto simp: posted_def)
  show ?thesis
  proof (cases "uid \<in> known (m_users s)")
    case True
    then show ?thesis
      using books_ok_balance[OF assms(1) True] books_ok_balance[OF b] k user_sum_snoc[OF r, of uid] by simp
  next
    case False
    have "t_userId row \<in> insert HOUSE_ACCOUNT_ID (known (m_users s))" using b r k by (auto simp: books_ok_def)
    with False assms(3) have "t_userId row \<noteq> uid" by auto
    moreover have "balance_of us uid = 0" if "known us = known (m_users s)" for us
    proof -
      have "map_of (us_byId us) uid = None" using False that by (metis known_iff not_None_eq)
      then show ?thesis by (simp add: balance_of_def)
    qed
    ultimately show ?thesis using k by simp
  qed
qed

subsection \<open>Laws of the wallet\<close>

lemma action_succeeds: "\<not> isl (fst p) \<Longrightarrow> \<exists>r s. p = (Inr r, s)"
  by (cases p, cases "fst p") auto

lemma transaction_Inr [simp]: "transaction_in uow fn s = (Inr x, s') \<longleftrightarrow> fn s = (Inr x, s')"
  by (auto simp: transaction_in_def split: prod.splits sum.splits)

lemma run_wallet_Inr [simp]: "run_wallet w fn s = (Inr x, s') \<longleftrightarrow> fn s = (Inr x, s')"
  by (auto simp: run_wallet_def split: option.splits)

lemma transaction_Inl:
  "rolls_back uow \<Longrightarrow> transaction_in uow fn s = (Inl e, s') \<Longrightarrow> s' = s"
  by (auto simp: transaction_in_def rolls_back_def split: prod.splits sum.splits)

lemma transaction_keeps:
  assumes "rolls_back uow" "P s" "\<And>x s'. fn s = (Inr x, s') \<Longrightarrow> P s'"
  shows "P (snd (transaction_in uow fn s))"
proof (cases "transaction_in uow fn s")
  case (Pair r s')
  then show ?thesis
  proof (cases r)
    case (Inl e)
    with Pair have "s' = s" using transaction_Inl[OF assms(1)] by metis
    with Pair assms(2) show ?thesis by simp
  next
    case (Inr x)
    with Pair have "fn s = (Inr x, s')" by simp
    with assms(3) Pair show ?thesis by simp
  qed
qed

lemma books_ok_find: "books_ok s \<Longrightarrow> findById uid (m_users s) = Some u \<Longrightarrow>
   uid \<in> known (m_users s) \<and> u_balanceCents u = balance_of (m_users s) uid"
  by (auto simp: findById_def known_iff balance_of_def)

lemma credit_row_fields [simp]:
  "t_userId (new_row n (credit_row uid amt opts ref) now) = uid"
  "t_amountCents (new_row n (credit_row uid amt opts ref) now) = amt"
  "t_type (new_row n (credit_row uid amt opts ref) now) = co_type opts"
  "t_matchId (new_row n (credit_row uid amt opts ref) now) = co_matchId opts"
  "t_providerRef (new_row n (credit_row uid amt opts ref) now) = ref"
  "t_reason (new_row n (credit_row uid amt opts ref) now) = co_reason opts"
  "(credit_row uid amt opts ref)\<lparr>nt_providerRef := ref'\<rparr> = credit_row uid amt opts ref'"
  by (simp_all add: new_row_def credit_row_def)

lemma rake_row_fields [simp]:
  "t_userId (new_row n (rake_row amt mid reason ref) now) = HOUSE_ACCOUNT_ID"
  "t_amountCents (new_row n (rake_row amt mid reason ref) now) = amt"
  "t_type (new_row n (rake_row amt mid reason ref) now) = Rake"
  "t_matchId (new_row n (rake_row amt mid reason ref) now) = mid"
  "t_providerRef (new_row n (rake_row amt mid reason ref) now) = ref"
  "(rake_row amt mid reason ref)\<lparr>nt_providerRef := ref'\<rparr> = rake_row amt mid reason ref'"
  by (simp_all add: new_row_def rake_row_def)

definition real_ref :: "string option \<Rightarrow> string option" where
  "real_ref ref = (if truthy ref then ref else None)"

lemma assertAmount_None: "assertAmount a = None \<longleftrightarrow> 0 < a \<and> a \<le> MAX_AMOUNT_CENTS"
  by (auto simp: assertAmount_def)

lemma credit_ref_ok:
  assumes "books_ok s" "findById uid (m_users s) = Some user" "co_providerRef opts = Some ref" "ref \<noteq> []"
    and "credit_ref user uid amt opts now s = (Inr r, s')"
  shows "(mr_idempotent r \<and> s' = s \<and> findByProviderRef ref (m_ledger s) = Some (mr_transaction r)) \<or>
     (\<not> mr_idempotent r \<and> findByProviderRef ref (m_ledger s) = None \<and> depositCap_violated uid amt opts now s = None \<and>
      mr_transaction r = new_row (Suc (l_seq (m_ledger s))) (credit_row uid amt opts (Some ref)) now \<and>
      posted (mr_transaction r) s s')"
proof -
  have wf: "ledger_wf (m_ledger s)" using assms(1) by (simp add: books_ok_def)
  let ?tx = "credit_row uid amt opts (Some ref)"
  have cap: "depositCap_violated uid amt opts now s = None"
    using assms(3,5) by (auto simp: credit_ref_def split: option.splits)
  show ?thesis
  proof (cases "findByProviderRef ref (m_ledger s)")
    case (Some row)
    with assms(3,5) cap appendIdempotent_old[OF wf Some, of ?tx now] show ?thesis
      by (simp add: credit_ref_def) auto
  next
    case None
    obtain row l where a: "appendIdempotent ref ?tx now (m_ledger s) = (Inr (row, True), l)" "ledger_wf l"
      "l_rows l = l_rows (m_ledger s) @ [row]" "row = new_row (Suc (l_seq (m_ledger s))) ?tx now"
      by (rule appendIdempotent_new[OF wf assms(4) None, of ?tx now]) simp
    have bal: "u_balanceCents user = balance_of (m_users s) uid" using books_ok_find[OF assms(1,2)] by simp
    obtain b us where adj: "adjustBalance uid amt (m_users s) = (Some b, us)" "s' = s\<lparr>m_ledger := l, m_users := us\<rparr>"
      "r = \<lparr>mr_transaction = row, mr_balanceCents = b, mr_idempotent = False\<rparr>"
      "balance_of (m_users s) uid + amt \<le> BALANCE_CEILING_CENTS"
      using assms(3,5) cap a(1) bal
      by (auto simp: credit_ref_def split: if_splits prod.splits option.splits)
    have b: "b = balance_of (m_users s) uid + amt"
      by (rule adjustBalance_cases[of uid "m_users s" amt]) (use adj(1) in auto)
    have "posted row s s'" unfolding adj(2)
      by (rule post_user_row(1)[OF assms(1) a(2,3), of b us]) (use adj(1,4) b a(4) in simp_all)
    with adj(3) cap a(4) None show ?thesis by simp
  qed
qed

lemma credit_plain_ok:
  assumes "books_ok s" "findById uid (m_users s) = Some user"
    and "credit_plain w user uid amt opts now s = (Inr r, s')"
  shows "\<not> mr_idempotent r"
    "mr_transaction r = new_row (Suc (l_seq (m_ledger s))) (credit_row uid amt opts None) now"
    "posted (mr_transaction r) s s'"
proof -
  have wf: "ledger_wf (m_ledger s)" using assms(1) by (simp add: books_ok_def)
  let ?tx = "credit_row uid amt opts None"
  obtain l where a: "ledger_append ?tx now (m_ledger s) = (Inr (new_row (Suc (l_seq (m_ledger s))) ?tx now), l)"
    "ledger_wf l" "l_rows l = l_rows (m_ledger s) @ [new_row (Suc (l_seq (m_ledger s))) ?tx now]"
    by (rule ledger_append_new[OF wf, of ?tx now]) (simp_all add: credit_row_def truthy_def)
  have bal: "u_balanceCents user = balance_of (m_users s) uid" using books_ok_find[OF assms(1,2)] by simp
  obtain b us where adj: "adjustBalance uid amt (m_users s) = (Some b, us)" "s' = s\<lparr>m_ledger := l, m_users := us\<rparr>"
    "r = \<lparr>mr_transaction = new_row (Suc (l_seq (m_ledger s))) ?tx now, mr_balanceCents = b, mr_idempotent = False\<rparr>"
    "balance_of (m_users s) uid + amt \<le> BALANCE_CEILING_CENTS"
    using assms(3) a(1) bal by (auto simp: credit_plain_def split: if_splits prod.splits option.splits)
  have b: "b = balance_of (m_users s) uid + amt"
    by (rule adjustBalance_cases[of uid "m_users s" amt]) (use adj(1) in auto)
  show "\<not> mr_idempotent r" "mr_transaction r = new_row (Suc (l_seq (m_ledger s))) ?tx now"
    by (simp_all add: adj(3))
  show "posted (mr_transaction r) s s'" unfolding adj(2,3)
    using post_user_row(1)[OF assms(1) a(2,3), of b us] adj(1,4) b by simp
qed

text \<open>A successful credit is a replay of a row that exists, or posts exactly one row.\<close>

lemma credit_ok:
  assumes "books_ok s" "credit w uid amt opts now s = (Inr r, s')"
  obtains (replay) ref where "co_providerRef opts = Some ref" "ref \<noteq> []" "s' = s"
      "findByProviderRef ref (m_ledger s) = Some (mr_transaction r)" "mr_idempotent r"
  | (posted) row where "mr_transaction r = row" "\<not> mr_idempotent r" "posted row s s'"
      "row = new_row (Suc (l_seq (m_ledger s))) (credit_row uid amt opts (real_ref (co_providerRef opts))) now"
      "uid \<in> known (m_users s)" "0 < amt" "amt \<le> MAX_AMOUNT_CENTS"
      "truthy (co_providerRef opts) \<Longrightarrow> findByProviderRef (the (co_providerRef opts)) (m_ledger s) = None"
      "truthy (co_providerRef opts) \<Longrightarrow> depositCap_violated uid amt opts now s = None"
proof -
  have amt: "assertAmount amt = None" using assms(2) by (auto simp: credit_def split: option.splits)
  obtain user where u: "findById uid (m_users s) = Some user"
    using assms(2) amt by (auto simp: credit_def split: option.splits)
  have k: "uid \<in> known (m_users s)" using books_ok_find[OF assms(1) u] by simp
  show thesis
  proof (cases "truthy (co_providerRef opts)")
    case True
    then obtain ref where ref: "co_providerRef opts = Some ref" "ref \<noteq> []" by (auto simp: truthy_def split: option.splits)
    have "credit_ref user uid amt opts now s = (Inr r, s')" using assms(2) amt u True by (simp add: credit_def)
    from credit_ref_ok[OF assms(1) u ref this] show thesis
    proof (elim disjE conjE)
      assume "mr_idempotent r" "s' = s" "findByProviderRef ref (m_ledger s) = Some (mr_transaction r)"
      with ref show thesis by (intro replay) auto
    next
      assume "\<not> mr_idempotent r" "findByProviderRef ref (m_ledger s) = None"
        "depositCap_violated uid amt opts now s = None"
        "mr_transaction r = new_row (Suc (l_seq (m_ledger s))) (credit_row uid amt opts (Some ref)) now"
        "posted (mr_transaction r) s s'"
      then show thesis by (intro posted[of "mr_transaction r"])
        (use ref True k amt in \<open>auto simp: real_ref_def assertAmount_None\<close>)
    qed
  next
    case False
    have "credit_plain w user uid amt opts now s = (Inr r, s')" using assms(2) amt u False by (simp add: credit_def)
    note p = credit_plain_ok[OF assms(1) u this]
    show thesis by (rule posted[of "mr_transaction r"])
      (use p False k amt in \<open>auto simp: real_ref_def assertAmount_None\<close>)
  qed
qed

definition debit_row :: "user_id \<Rightarrow> cents \<Rightarrow> debit_options \<Rightarrow> new_transaction" where
  "debit_row uid amt opts =
     \<lparr>nt_userId = uid, nt_type = do_type opts, nt_amountCents = - amt, nt_currency = do_currency opts,
      nt_status = None, nt_providerRef = None, nt_matchId = do_matchId opts, nt_reason = do_reason opts\<rparr>"

lemma debit_row_fields [simp]:
  "t_userId (new_row n (debit_row uid amt opts) now) = uid"
  "t_amountCents (new_row n (debit_row uid amt opts) now) = - amt"
  "t_type (new_row n (debit_row uid amt opts) now) = do_type opts"
  "t_matchId (new_row n (debit_row uid amt opts) now) = do_matchId opts"
  "t_providerRef (new_row n (debit_row uid amt opts) now) = None"
  "t_reason (new_row n (debit_row uid amt opts) now) = do_reason opts"
  by (simp_all add: new_row_def debit_row_def)

text \<open>A debit appends its row and lowers the balance, or refuses and leaves the store alone.\<close>

lemma debit_cases:
  assumes "books_ok s"
  obtains (bad_amount) e where "assertAmount amt = Some e" "debit w uid amt opts now s = (Inl e, s)"
  | (refused) "uid \<notin> known (m_users s) \<or> getBalance uid s < amt" "assertAmount amt = None"
      "fst (debit w uid amt opts now s) = Inl (InsufficientFundsError uid amt (getBalance uid s))"
      "proper_wallet w \<Longrightarrow> snd (debit w uid amt opts now s) = s"
  | (posted) s' where "uid \<in> known (m_users s)" "amt \<le> getBalance uid s" "0 < amt" "amt \<le> MAX_AMOUNT_CENTS"
      "debit w uid amt opts now s =
         (Inr \<lparr>mr_transaction = new_row (Suc (l_seq (m_ledger s))) (debit_row uid amt opts) now,
               mr_balanceCents = getBalance uid s - amt, mr_idempotent = False\<rparr>, s')"
      "posted (new_row (Suc (l_seq (m_ledger s))) (debit_row uid amt opts) now) s s'"
proof (cases "assertAmount amt")
  case (Some e)
  then show thesis by (intro bad_amount) (simp_all add: debit_def)
next
  case None
  let ?row = "new_row (Suc (l_seq (m_ledger s))) (debit_row uid amt opts) now"
  have wf: "ledger_wf (m_ledger s)" using assms by (simp add: books_ok_def)
  obtain l where a: "ledger_append (debit_row uid amt opts) now (m_ledger s) = (Inr ?row, l)"
    "ledger_wf l" "l_rows l = l_rows (m_ledger s) @ [?row]"
    by (rule ledger_append_new[OF wf, of "debit_row uid amt opts" now]) (simp_all add: debit_row_def truthy_def)
  have fail: thesis if "adjustBalance uid (- amt) (m_users s) = (None, m_users s)"
    "uid \<notin> known (m_users s) \<or> getBalance uid s < amt"
  proof (rule refused)
    have body: "(case adjustBalance uid (- amt) (m_users s) of (None, us) \<Rightarrow>
        (Inl (InsufficientFundsError uid amt (getBalance uid (s\<lparr>m_users := us\<rparr>))), s\<lparr>m_users := us\<rparr>) | (Some b, us) \<Rightarrow> f b us)
      = (Inl (InsufficientFundsError uid amt (getBalance uid s)), s)" for f
      using that(1) by simp
    show "fst (debit w uid amt opts now s) = Inl (InsufficientFundsError uid amt (getBalance uid s))"
      unfolding debit_def None option.case run_wallet_def transaction_in_def body by (simp split: option.split)
    show "proper_wallet w \<Longrightarrow> snd (debit w uid amt opts now s) = s"
      unfolding debit_def None option.case run_wallet_def transaction_in_def body
      by (auto simp: proper_wallet_def rolls_back_def in_memory_uow_def split: option.splits)
  qed (use that None in auto)
  show thesis
  proof (rule adjustBalance_cases[of uid "m_users s" "- amt"])
    fix us
    assume adj: "uid \<in> known (m_users s)" "0 \<le> balance_of (m_users s) uid + - amt"
      "adjustBalance uid (- amt) (m_users s) = (Some (balance_of (m_users s) uid + - amt), us)"
    have "balance_of (m_users s) uid \<le> BALANCE_CEILING_CENTS" using books_ok_balance[OF assms adj(1)] by simp
    then have p: "posted ?row s (s\<lparr>m_ledger := l, m_users := us\<rparr>)"
      using post_user_row(1)[OF assms a(2,3), of "balance_of (m_users s) uid + - amt" us] adj(3) None
      by (simp add: assertAmount_None)
    have "debit w uid amt opts now s =
         (Inr \<lparr>mr_transaction = ?row, mr_balanceCents = getBalance uid s - amt, mr_idempotent = False\<rparr>,
          s\<lparr>m_ledger := l, m_users := us\<rparr>)"
      using a(1) adj(3) None by (simp add: debit_def debit_row_def getBalance_eq)
    with p adj(1,2) None show thesis by (intro posted) (auto simp: getBalance_eq assertAmount_None)
  qed (use fail in \<open>auto simp: getBalance_eq\<close>)
qed

lemma recordRake_ok:
  assumes "books_ok s" "recordRake w amt mid reason ref now s = (Inr tx, s')"
  obtains (replay) "truthy ref" "s' = s" "findByProviderRef (the ref) (m_ledger s) = Some tx"
  | (posted) "posted tx s s'" "tx = new_row (Suc (l_seq (m_ledger s))) (rake_row amt mid reason (real_ref ref)) now"
      "0 \<le> amt" "truthy ref \<Longrightarrow> findByProviderRef (the ref) (m_ledger s) = None"
proof -
  have wf: "ledger_wf (m_ledger s)" using assms(1) by (simp add: books_ok_def)
  have amt: "0 \<le> amt" using assms(2) by (auto simp: recordRake_def split: if_splits)
  show thesis
  proof (cases "truthy ref")
    case True
    then obtain q where q: "ref = Some q" "q \<noteq> []" by (auto simp: truthy_def split: option.splits)
    let ?tx = "rake_row amt mid reason (Some q)"
    show thesis
    proof (cases "findByProviderRef q (m_ledger s)")
      case (Some row)
      with assms(2) amt True q appendIdempotent_old[OF wf Some, of ?tx now]
      have "tx = row" "s' = s" by (auto simp: recordRake_def)
      with Some True q show thesis by (intro replay) auto
    next
      case None
      obtain row l where a: "appendIdempotent q ?tx now (m_ledger s) = (Inr (row, True), l)" "ledger_wf l"
        "l_rows l = l_rows (m_ledger s) @ [row]" "row = new_row (Suc (l_seq (m_ledger s))) ?tx now"
        by (rule appendIdempotent_new[OF wf q(2) None, of ?tx now]) simp
      have "tx = row" "s' = s\<lparr>m_ledger := l\<rparr>" using assms(2) amt True q a(1) by (auto simp: recordRake_def)
      moreover have "posted row s (s\<lparr>m_ledger := l\<rparr>)"
        by (rule post_house_row[OF assms(1) a(2,3)]) (simp add: a(4))
      ultimately show thesis using a(4) amt None q True by (intro posted) (auto simp: real_ref_def)
    qed
  next
    case False
    let ?row = "new_row (Suc (l_seq (m_ledger s))) (rake_row amt mid reason None) now"
    obtain l where a: "ledger_append (rake_row amt mid reason None) now (m_ledger s) = (Inr ?row, l)" "ledger_wf l"
      "l_rows l = l_rows (m_ledger s) @ [?row]"
      by (rule ledger_append_new[OF wf, of "rake_row amt mid reason None" now]) (simp_all add: rake_row_def truthy_def)
    have "tx = ?row" "s' = s\<lparr>m_ledger := l\<rparr>" using assms(2) amt False a(1) by (auto simp: recordRake_def)
    moreover have "posted ?row s (s\<lparr>m_ledger := l\<rparr>)" by (rule post_house_row[OF assms(1) a(2,3)]) simp
    ultimately show thesis using amt False by (intro posted) (auto simp: real_ref_def)
  qed
qed

subsection \<open>Composite movements keep the books\<close>

lemma credit_keeps: "books_ok s \<Longrightarrow> credit w uid amt opts now s = (Inr r, s') \<Longrightarrow> books_ok s' \<and> only_books s s'"
  by (rule credit_ok[of s w uid amt opts now r s']) (auto simp: posted_def)

lemma debit_keeps: "books_ok s \<Longrightarrow> debit w uid amt opts now s = (Inr r, s') \<Longrightarrow> books_ok s' \<and> only_books s s'"
  by (rule debit_cases[of s amt w uid opts now]) (auto simp: posted_def)

lemma recordRake_keeps:
  "books_ok s \<Longrightarrow> recordRake w amt mid reason ref now s = (Inr r, s') \<Longrightarrow> books_ok s' \<and> only_books s s'"
  by (rule recordRake_ok[of s w amt mid reason ref now r s']) (auto simp: posted_def)

lemma move_signed_keeps:
  "books_ok s \<Longrightarrow> move_signed w uid d reason ref now s = (Inr r, s') \<Longrightarrow> books_ok s' \<and> only_books s s'"
  by (auto simp: move_signed_def split: if_splits dest: credit_keeps debit_keeps)

definition tx_wallet :: "('s \<Rightarrow> 's \<Rightarrow> 's) \<Rightarrow> 's wallet_service" where
  "tx_wallet uow = \<lparr>w_uow = Some uow, w_txBound = False\<rparr>"

lemma tx_wallet_simps [simp]:
  "w_uow (tx_wallet uow) = Some uow" "w_txBound (tx_wallet uow) = False"
  "run_wallet (tx_wallet uow) fn = transaction_in uow fn" "run_tx (tx_wallet uow) f = transaction_in uow (f bind_wallet)"
  by (simp_all add: tx_wallet_def run_wallet_def run_tx_def fun_eq_iff)

text \<open>With a database every failed movement leaves the store as it was.\<close>

lemma credit_fails_clean:
  assumes "rolls_back uow" "credit (tx_wallet uow) uid amt opts now s = (Inl e, s')"
  shows "s' = s"
  using assms transaction_Inl[OF assms(1)] by (auto simp: credit_def split: option.splits)

lemma debit_fails_clean:
  assumes "rolls_back uow" "debit (tx_wallet uow) uid amt opts now s = (Inl e, s')"
  shows "s' = s"
  using assms transaction_Inl[OF assms(1)] by (auto simp: debit_def split: option.splits)

lemma recordRake_fails_clean:
  assumes "rolls_back uow" "recordRake (tx_wallet uow) amt mid reason ref now s = (Inl e, s')"
  shows "s' = s"
  using assms transaction_Inl[OF assms(1)] by (auto simp: recordRake_def split: if_splits)

lemma transfer_rows:
  assumes "books_ok s" "transfer (tx_wallet uow) from to amt reason now s = (Inr r, s')"
  obtains m row1 row2 where "from \<noteq> to" "posted row1 s m" "posted row2 m s'"
    "t_userId row1 = from" "t_amountCents row1 = - amt" "t_userId row2 = to" "t_amountCents row2 = amt"
    "0 < amt" "amt \<le> getBalance from s" "tr_balanceCents r = getBalance from s - amt"
    "from \<in> known (m_users s)" "to \<in> known (m_users s)" "t_matchId row1 = None" "t_matchId row2 = None"
    "t_providerRef row1 = None" "t_providerRef row2 = None"
proof -
  let ?do = "plain_debit TransferOut (case reason of None \<Rightarrow> ''transfer to '' @ to | Some r \<Rightarrow> r)"
  let ?co = "plain_credit TransferIn (''transfer from '' @ from)"
  have ne: "from \<noteq> to" using assms(2) by (auto simp: transfer_def split: option.splits if_splits)
  obtain o1 o2 m where d: "debit bind_wallet from amt ?do now s = (Inr o1, m)"
    and c: "credit bind_wallet to amt ?co now m = (Inr o2, s')"
    and r: "r = \<lparr>tr_balanceCents = mr_balanceCents o1, tr_outTx = mr_transaction o1, tr_inTx = mr_transaction o2\<rparr>"
    using assms(2) by (auto simp: transfer_def act_simps split: option.splits if_splits)
  let ?row1 = "new_row (Suc (l_seq (m_ledger s))) (debit_row from amt ?do) now"
  have p1: "posted ?row1 s m" "amt \<le> getBalance from s" "0 < amt" "from \<in> known (m_users s)"
    "mr_balanceCents o1 = getBalance from s - amt"
    by (rule debit_cases[OF assms(1), of amt bind_wallet "from" ?do now]; use d in auto)+
  have bm: "books_ok m" "known (m_users m) = known (m_users s)"
    using p1(1) only_books_frame(4)[of s m] by (auto simp: posted_def)
  let ?row2 = "new_row (Suc (l_seq (m_ledger m))) (credit_row to amt ?co None) now"
  have p2: "posted ?row2 m s'" "to \<in> known (m_users m)"
    by (rule credit_ok[OF bm(1) c]; auto simp: plain_credit_def real_ref_def truthy_def)+
  show thesis
    by (rule that[OF ne p1(1) p2(1)]) (use p1 p2(2) bm(2) r in \<open>auto simp: plain_debit_def plain_credit_def\<close>)
qed

lemma transfer_keeps:
  "books_ok s \<Longrightarrow> transfer (tx_wallet uow) from to amt reason now s = (Inr r, s') \<Longrightarrow> books_ok s' \<and> only_books s s'"
  by (erule (1) transfer_rows) (auto simp: posted_def intro: only_books_trans)

lemma transfer_fails_clean:
  assumes "rolls_back uow" "transfer (tx_wallet uow) from to amt reason now s = (Inl e, s')"
  shows "s' = s"
  using assms transaction_Inl[OF assms(1)] by (auto simp: transfer_def split: option.splits if_splits)

subsection \<open>Reconciliation\<close>

lemma fold_update_lookup:
  assumes "\<And>u. u \<in> set xs \<Longrightarrow> k u = x \<Longrightarrow> v u = c"
  shows "map_of (foldl (\<lambda>m u. AList.update (k u) (v u) m) m0 xs) x =
    (if \<exists>u\<in>set xs. k u = x then Some c else map_of m0 x)"
  using assms by (induction xs arbitrary: m0) (auto simp: update_conv')

lemma set_findManyByIds: "set (findManyByIds ids us) = {u. \<exists>uid\<in>set ids. map_of (us_byId us) uid = Some u}"
  by (auto simp: findManyByIds_def split: option.splits)

lemma reconcile_balance:
  assumes "users_wf us" "uid \<in> set ids"
  shows "(case map_of (foldl (\<lambda>m u. AList.update (u_id u) (u_balanceCents u) m) [] (findManyByIds ids us)) uid of
            None \<Rightarrow> 0 | Some x \<Rightarrow> x) = balance_of us uid"
proof -
  have own: "u_id u = x" if "map_of (us_byId us) x = Some u" for u x
    using assms(1) that by (auto simp: users_wf_def)
  have "u_balanceCents u = balance_of us uid" if "u \<in> set (findManyByIds ids us)" "u_id u = uid" for u
    using that own by (auto simp: set_findManyByIds balance_of_def)
  moreover have "(\<exists>u\<in>set (findManyByIds ids us). u_id u = uid) \<longleftrightarrow> (\<exists>u. map_of (us_byId us) uid = Some u)"
    using assms(2) own by (force simp: set_findManyByIds)
  ultimately show ?thesis
    using fold_update_lookup[of "findManyByIds ids us" u_id uid u_balanceCents "balance_of us uid" "[]"]
    by (auto simp: balance_of_def)
qed

lemma sumsByUser_keys: "fst ` set (sumsByUser l) = t_userId ` set (l_rows l)"
proof -
  have "fst ` set (foldl (\<lambda>m r. add_to (t_userId r) (t_amountCents r) m) m0 rs) =
      fst ` set m0 \<union> t_userId ` set rs" for m0 and rs :: "transaction list"
    by (induction rs arbitrary: m0) (auto simp: add_to_map simp flip: dom_map_of_conv_image_fst)
  then show ?thesis by (simp add: sumsByUser_def)
qed

lemma reconcile_mismatches:
  assumes "users_wf (m_users s)"
  shows "set (snd (reconcile s)) =
    {\<lparr>mm_userId = uid, mm_balanceCents = balance_of (m_users s) uid, mm_ledgerSum = user_sum (m_ledger s) uid\<rparr> | uid.
       uid \<in> t_userId ` set (l_rows (m_ledger s)) \<and> uid \<noteq> HOUSE_ACCOUNT_ID \<and>
       balance_of (m_users s) uid \<noteq> user_sum (m_ledger s) uid}"
proof -
  let ?ids = "filter (\<lambda>i. i \<noteq> HOUSE_ACCOUNT_ID) (map fst (sumsByUser (m_ledger s)))"
  have ids: "uid \<in> set ?ids \<longleftrightarrow> uid \<in> t_userId ` set (l_rows (m_ledger s)) \<and> uid \<noteq> HOUSE_ACCOUNT_ID" for uid
    unfolding sumsByUser_keys[symmetric] by auto
  have "set (snd (reconcile s)) = (\<Union>uid\<in>set ?ids.
      if balance_of (m_users s) uid \<noteq> user_sum (m_ledger s) uid
      then {\<lparr>mm_userId = uid, mm_balanceCents = balance_of (m_users s) uid, mm_ledgerSum = user_sum (m_ledger s) uid\<rparr>} else {})"
    unfolding reconcile_def Let_def snd_conv sumsByUser_eq set_concat set_map image_image
    by (rule SUP_cong[OF refl]) (simp only: reconcile_balance[OF assms] split: if_split, simp)
  also have "\<dots> = {\<lparr>mm_userId = uid, mm_balanceCents = balance_of (m_users s) uid, mm_ledgerSum = user_sum (m_ledger s) uid\<rparr> | uid.
       uid \<in> set ?ids \<and> balance_of (m_users s) uid \<noteq> user_sum (m_ledger s) uid}"
    by auto
  finally show ?thesis unfolding ids by (simp add: conj_assoc)
qed

lemma reconcile_fst: "fst (reconcile s) \<longleftrightarrow> set (snd (reconcile s)) = {}"
  unfolding reconcile_def Let_def fst_conv snd_conv set_empty by (rule refl)

lemma books_reconcile:
  assumes "books_ok s"
  shows "reconcile s = (True, [])"
proof -
  have wf: "users_wf (m_users s)"
    and rows: "\<And>r. r \<in> set (l_rows (m_ledger s)) \<Longrightarrow> t_userId r \<in> insert HOUSE_ACCOUNT_ID (known (m_users s))"
    using assms unfolding books_ok_def by blast+
  have "set (snd (reconcile s)) = {}"
    unfolding reconcile_mismatches[OF wf] using rows books_ok_balance[OF assms] by auto
  then have "fst (reconcile s)" "snd (reconcile s) = []" using reconcile_fst[of s] by simp_all
  then show ?thesis by (metis prod.collapse)
qed

subsection \<open>Histories of wallet operations\<close>

datatype wallet_op =
  CreateUserOp new_user
| CreditOp user_id cents credit_options
| DebitOp user_id cents debit_options
| TransferOp user_id user_id cents "string option"
| RakeOp cents "string option" "string option" "string option"
| AdjustOp user_id cents string "string option"
| AuditedOp user_id cents string new_admin_action "string option"

fun wallet_step :: "('z money_store_scheme \<Rightarrow> 'z money_store_scheme \<Rightarrow> 'z money_store_scheme) \<Rightarrow>
    'z money_store_scheme \<Rightarrow> wallet_op \<times> int \<Rightarrow> 'z money_store_scheme" where
  "wallet_step uow s (CreateUserOp u, now) = s\<lparr>m_users := snd (create_user u now (m_users s))\<rparr>"
| "wallet_step uow s (CreditOp uid a opts, now) = snd (credit (tx_wallet uow) uid a opts now s)"
| "wallet_step uow s (DebitOp uid a opts, now) = snd (debit (tx_wallet uow) uid a opts now s)"
| "wallet_step uow s (TransferOp f t a reason, now) = snd (transfer (tx_wallet uow) f t a reason now s)"
| "wallet_step uow s (RakeOp a mid reason ref, now) = snd (recordRake (tx_wallet uow) a mid reason ref now s)"
| "wallet_step uow s (AdjustOp uid d reason ref, now) = snd (adminAdjust (tx_wallet uow) uid d reason ref now s)"
| "wallet_step uow s (AuditedOp uid d reason audit ref, now) =
     snd (adminAdjustAudited (tx_wallet uow) uid d reason audit ref now s)"

text \<open>What a movement may do: keep the books and only append ledger rows.\<close>

definition extends_books :: "'z money_store_scheme \<Rightarrow> 'z money_store_scheme \<Rightarrow> bool" where
  "extends_books s s' \<longleftrightarrow> books_ok s' \<and> known (m_users s) \<subseteq> known (m_users s') \<and>
     (\<exists>rows. l_rows (m_ledger s') = l_rows (m_ledger s) @ rows)"

lemma extends_refl: "books_ok s \<Longrightarrow> extends_books s s"
  by (simp add: extends_books_def)

lemma extends_trans: "extends_books s t \<Longrightarrow> extends_books t u \<Longrightarrow> extends_books s u"
  by (auto simp: extends_books_def)

lemma posted_extends: "posted row s s' \<Longrightarrow> extends_books s s'"
  using only_books_frame(4)[of s s'] by (auto simp: posted_def extends_books_def)

lemma credit_extends: "books_ok s \<Longrightarrow> credit w uid amt opts now s = (Inr r, s') \<Longrightarrow> extends_books s s'"
  by (rule credit_ok[of s w uid amt opts now r s']) (auto intro: posted_extends extends_refl)

lemma debit_extends: "books_ok s \<Longrightarrow> debit w uid amt opts now s = (Inr r, s') \<Longrightarrow> extends_books s s'"
  by (rule debit_cases[of s amt w uid opts now]) (auto intro: posted_extends)

lemma rake_extends: "books_ok s \<Longrightarrow> recordRake w a mid reason ref now s = (Inr r, s') \<Longrightarrow> extends_books s s'"
  by (rule recordRake_ok[of s w a mid reason ref now r s']) (auto intro: posted_extends extends_refl)

lemma transfer_extends:
  "books_ok s \<Longrightarrow> transfer (tx_wallet uow) f t a reason now s = (Inr r, s') \<Longrightarrow> extends_books s s'"
  by (rule transfer_rows[of s uow f t a reason now r s']) (auto intro: posted_extends extends_trans)

lemma move_extends: "books_ok s \<Longrightarrow> move_signed w uid d reason ref now s = (Inr r, s') \<Longrightarrow> extends_books s s'"
  by (auto simp: move_signed_def split: if_splits intro: credit_extends debit_extends)

lemma audit_extends: "extends_books s (s'\<lparr>m_audit := a\<rparr>) = extends_books s s'"
  by (simp add: extends_books_def books_ok_def)

lemma create_extends:
  assumes "books_ok s"
  shows "extends_books s (s\<lparr>m_users := snd (create_user u now (m_users s))\<rparr>)"
proof (cases "create_user u now (m_users s)")
  case (Pair r us)
  show ?thesis
  proof (cases r)
    case (Inl f)
    with Pair have "us = m_users s" by (auto simp: create_user_def Let_def split: if_splits)
    with Pair assms show ?thesis by (simp add: extends_refl)
  next
    case (Inr user)
    have wf: "users_wf (m_users s)" using assms by (simp add: books_ok_def)
    have "create_user u now (m_users s) = (Inr user, us)" using Pair Inr by simp
    note c = create_user_ok[OF wf this]
    have k: "known us = insert (u_id user) (known (m_users s))" "u_id user \<notin> known (m_users s)"
      "\<And>x. balance_of us x = balance_of (m_users s) x" "users_wf us" by (rule c)+
    have h: "u_id user \<noteq> HOUSE_ACCOUNT_ID" using HOUSE_unknown[OF k(4)] unfolding k(1) by (metis insertI1)
    have "map_of (us_byId (m_users s)) (u_id user) = None" using k(2) known_iff[of "u_id user" "m_users s"] by (cases "map_of (us_byId (m_users s)) (u_id user)") simp_all
    then have z: "balance_of (m_users s) (u_id user) = 0" by (simp add: balance_of_def)
    have "\<forall>r\<in>set (l_rows (m_ledger s)). t_userId r \<noteq> u_id user"
      using assms k(2) h unfolding books_ok_def by (metis insert_iff)
    then have "user_sum (m_ledger s) (u_id user) = 0"
      by (simp add: user_sum_def sum_list_eq_0_iff cong: map_cong)
    then have "books_ok (s\<lparr>m_users := us\<rparr>)" using assms k z unfolding books_ok_def by (auto simp: BALANCE_CEILING_CENTS_def)
    with Pair k(1) show ?thesis by (auto simp: extends_books_def)
  qed
qed

text \<open>In a database transaction an action that keeps the books when it succeeds always keeps them.\<close>

lemma clean_extends:
  assumes "books_ok s" "\<And>x s'. act s = (Inr x, s') \<Longrightarrow> extends_books s s'"
    "\<And>e s'. act s = (Inl e, s') \<Longrightarrow> s' = s"
  shows "extends_books s (snd (act s))"
proof (cases "act s")
  case (Pair r s')
  with assms extends_refl show ?thesis by (cases r) auto
qed

lemma transaction_extends:
  assumes "rolls_back uow" "books_ok s" "\<And>x s'. fn s = (Inr x, s') \<Longrightarrow> extends_books s s'"
  shows "extends_books s (snd (transaction_in uow fn s))"
  by (rule clean_extends[OF assms(2)]) (use assms(3) transaction_Inl[OF assms(1)] in auto)

lemma clean_steps:
  assumes "rolls_back uow" "books_ok s"
  shows "extends_books s (snd (credit (tx_wallet uow) uid a copts now s))"
    "extends_books s (snd (debit (tx_wallet uow) uid a dopts now s))"
    "extends_books s (snd (transfer (tx_wallet uow) f t a why now s))"
    "extends_books s (snd (recordRake (tx_wallet uow) a mid why ref now s))"
  by (rule clean_extends[OF assms(2)], erule credit_extends[OF assms(2)], erule credit_fails_clean[OF assms(1)])
     (rule clean_extends[OF assms(2)], erule debit_extends[OF assms(2)], erule debit_fails_clean[OF assms(1)],
      rule clean_extends[OF assms(2)], erule transfer_extends[OF assms(2)], erule transfer_fails_clean[OF assms(1)],
      rule clean_extends[OF assms(2)], erule rake_extends[OF assms(2)], erule recordRake_fails_clean[OF assms(1)])

lemma wallet_step_extends:
  assumes "rolls_back uow" "books_ok s"
  shows "extends_books s (wallet_step uow s op)"
proof (cases "(uow, s, op)" rule: wallet_step.cases)
  case (1 _ _ u now)
  then show ?thesis using create_extends[OF assms(2)] by simp
next
  case (6 _ _ uid d reason ref now)
  have "extends_books s (snd (move_signed (tx_wallet uow) uid d reason ref now s))"
    using clean_steps[OF assms] by (simp add: move_signed_def)
  with 6 show ?thesis using extends_refl[OF assms(2)] by (simp add: adminAdjust_def)
next
  case (7 _ _ uid d reason audit ref now)
  let ?fn = "bind_act (move_signed bind_wallet uid d reason ref now)
     (\<lambda>res s. (Inr res, if mr_idempotent res then s else s\<lparr>m_audit := audit_record audit now (m_audit s)\<rparr>))"
  have "extends_books s s'" if "?fn s = (Inr x, s')" for x s'
    using that move_extends[OF assms(2)] by (auto simp: bind_act_Inr audit_extends split: if_splits)
  then have "extends_books s (snd (transaction_in uow ?fn s))" by (rule transaction_extends[OF assms])
  with 7 show ?thesis using extends_refl[OF assms(2)] by (simp add: adminAdjustAudited_def Let_def)
qed (use clean_steps[OF assms] in simp_all)

interpretation wal: invariant_system "wallet_step uow" "\<lambda>s. rolls_back uow \<and> books_ok s" for uow
  by unfold_locales (use wallet_step_extends in \<open>auto simp: extends_books_def\<close>)

lemma wallet_run_extends:
  "rolls_back uow \<Longrightarrow> books_ok s \<Longrightarrow> extends_books s (foldl (wallet_step uow) s ops)"
proof (induction ops arbitrary: s)
  case (Cons op ops)
  have "extends_books s (wallet_step uow s op)" by (rule wallet_step_extends[OF Cons.prems])
  moreover from this have "extends_books (wallet_step uow s op) (foldl (wallet_step uow) (wallet_step uow s op) ops)"
    using Cons by (simp add: extends_books_def)
  ultimately show ?case using extends_trans by simp
qed (simp add: extends_refl)

lemma extends_find_ref:
  assumes "books_ok s" "extends_books s s'" "findByProviderRef ref (m_ledger s) = Some row"
  shows "findByProviderRef ref (m_ledger s') = Some row"
proof -
  have "ledger_wf (m_ledger s)" "ledger_wf (m_ledger s')"
    using assms(1,2) by (simp_all add: extends_books_def books_ok_def)
  with assms(2,3) show ?thesis by (auto simp: findByProviderRef_iff extends_books_def)
qed

definition empty_store :: money_store where
  "empty_store = \<lparr>m_users = no_users, m_ledger = empty_ledger, m_matches = [],
     m_withdrawals = \<lparr>ws_rows = [], ws_seq = 0\<rparr>, m_audit = \<lparr>aud_rows = [], aud_seq = 0\<rparr>\<rparr>"

lemma books_ok_empty: "books_ok empty_store"
  by (auto simp: books_ok_def empty_store_def no_users_def empty_ledger_def users_wf_def ledger_wf_def known_def)

subsection \<open>What a movement appends\<close>

text \<open>A movement appends rows that satisfy a predicate and leaves matches and withdrawals alone.\<close>

definition appends :: "(transaction \<Rightarrow> bool) \<Rightarrow> 'z money_store_scheme \<Rightarrow> 'z money_store_scheme \<Rightarrow> bool" where
  "appends Q s s' \<longleftrightarrow> books_ok s' \<and> m_matches s' = m_matches s \<and> m_withdrawals s' = m_withdrawals s \<and>
     (\<exists>new. l_rows (m_ledger s') = l_rows (m_ledger s) @ new \<and> (\<forall>row\<in>set new. Q row))"

lemma appends_refl: "books_ok s \<Longrightarrow> appends Q s s"
  unfolding appends_def by simp

lemma appends_trans: "appends Q s t \<Longrightarrow> appends Q t u \<Longrightarrow> appends Q s u"
  unfolding appends_def by auto

lemma posted_appends: "posted row s s' \<Longrightarrow> Q row \<Longrightarrow> appends Q s s'"
  using only_books_frame[of s s'] unfolding appends_def posted_def by auto

lemma appends_audit [simp]: "appends Q s (s'\<lparr>m_audit := a\<rparr>) = appends Q s s'"
  by (simp add: appends_def books_ok_def)

text \<open>The match and the reference an operation may write into its rows.\<close>

fun op_match :: "wallet_op \<Rightarrow> string option" where
  "op_match (CreditOp uid a opts) = co_matchId opts"
| "op_match (DebitOp uid a opts) = do_matchId opts"
| "op_match (RakeOp a mid reason ref) = mid"
| "op_match op = None"

fun op_ref :: "wallet_op \<Rightarrow> string option" where
  "op_ref (CreditOp uid a opts) = co_providerRef opts"
| "op_ref (RakeOp a mid reason ref) = ref"
| "op_ref (AdjustOp uid d reason ref) = ref"
| "op_ref (AuditedOp uid d reason audit ref) = ref"
| "op_ref op = None"

definition row_from :: "string option \<Rightarrow> string option \<Rightarrow> transaction \<Rightarrow> bool" where
  "row_from mid ref row \<longleftrightarrow> t_matchId row = mid \<and> (t_providerRef row = None \<or> t_providerRef row = ref)"

lemma credit_appends:
  assumes "books_ok s" "credit w uid a opts now s = (Inr r, s')"
  shows "appends (row_from (co_matchId opts) (co_providerRef opts)) s s'"
proof (rule credit_ok[OF assms])
  fix ref
  assume "s' = s"
  then show ?thesis using appends_refl[OF assms(1)] by simp
next
  fix row
  assume "posted row s s'"
    "row = new_row (Suc (l_seq (m_ledger s))) (credit_row uid a opts (real_ref (co_providerRef opts))) now"
  then show ?thesis by (auto intro!: posted_appends simp: row_from_def real_ref_def)
qed

lemma debit_appends:
  assumes "books_ok s" "debit w uid a opts now s = (Inr r, s')"
  shows "appends (row_from (do_matchId opts) ref) s s'"
  by (rule debit_cases[OF assms(1), of a w uid opts now])
     (use assms(2) in \<open>auto intro!: posted_appends simp: row_from_def\<close>)

lemma rake_appends:
  assumes "books_ok s" "recordRake w a mid reason ref now s = (Inr r, s')"
  shows "appends (row_from mid ref) s s'"
  by (rule recordRake_ok[OF assms])
     (use appends_refl[OF assms(1)] in \<open>auto intro!: posted_appends simp: row_from_def real_ref_def\<close>)

lemma transfer_appends:
  assumes "books_ok s" "transfer (tx_wallet uow) from to a reason now s = (Inr r, s')"
  shows "appends (row_from None ref) s s'"
proof (rule transfer_rows[OF assms])
  fix m row1 row2
  assume "posted row1 s m" "posted row2 m s'" "t_matchId row1 = None" "t_matchId row2 = None"
    "t_providerRef row1 = None" "t_providerRef row2 = None"
  then have "appends (row_from None ref) s m" "appends (row_from None ref) m s'"
    by (auto intro!: posted_appends simp: row_from_def)
  then show ?thesis by (rule appends_trans)
qed

lemma move_appends:
  assumes "books_ok s" "move_signed w uid d reason ref now s = (Inr r, s')"
  shows "appends (row_from None ref) s s'"
proof (cases "d > 0")
  case True
  then show ?thesis using assms
      credit_appends[OF assms(1), of w uid d "(plain_credit AdminAdjust reason)\<lparr>co_providerRef := ref\<rparr>" now r s']
    by (simp add: move_signed_def plain_credit_def)
next
  case False
  then show ?thesis using assms debit_appends[OF assms(1), of w uid "- d" "plain_debit AdminAdjust reason" now r s' ref]
    by (simp add: move_signed_def plain_debit_def)
qed

lemma clean_appends:
  assumes "books_ok s" "\<And>x s'. act s = (Inr x, s') \<Longrightarrow> appends Q s s'"
    "\<And>e s'. act s = (Inl e, s') \<Longrightarrow> s' = s"
  shows "appends Q s (snd (act s))"
proof (cases "act s")
  case (Pair r s')
  with assms appends_refl show ?thesis by (cases r) auto
qed

lemma clean_step_appends:
  assumes "rolls_back uow" "books_ok s"
  shows "appends (row_from (co_matchId copts) (co_providerRef copts)) s (snd (credit (tx_wallet uow) uid a copts now s))"
    "appends (row_from (do_matchId dopts) ref) s (snd (debit (tx_wallet uow) uid a dopts now s))"
    "appends (row_from None ref) s (snd (transfer (tx_wallet uow) f t a why now s))"
    "appends (row_from mid ref) s (snd (recordRake (tx_wallet uow) a mid why ref now s))"
  by (rule clean_appends[OF assms(2)], erule credit_appends[OF assms(2)], erule credit_fails_clean[OF assms(1)])
     (rule clean_appends[OF assms(2)], erule debit_appends[OF assms(2)], erule debit_fails_clean[OF assms(1)],
      rule clean_appends[OF assms(2)], erule transfer_appends[OF assms(2)], erule transfer_fails_clean[OF assms(1)],
      rule clean_appends[OF assms(2)], erule rake_appends[OF assms(2)], erule recordRake_fails_clean[OF assms(1)])

lemma wallet_step_appends:
  assumes "rolls_back uow" "books_ok s"
  shows "appends (row_from (op_match op) (op_ref op)) s (wallet_step uow s (op, now))"
proof (cases op)
  case (CreateUserOp u)
  then show ?thesis using create_extends[OF assms(2), of u now] by (simp add: appends_def extends_books_def)
next
  case (AdjustOp uid d reason ref)
  have "appends (row_from None ref) s (snd (move_signed (tx_wallet uow) uid d reason ref now s))"
    by (rule clean_appends[OF assms(2)]) (auto intro: move_appends[OF assms(2)]
        dest: credit_fails_clean[OF assms(1)] debit_fails_clean[OF assms(1)] simp: move_signed_def split: if_splits)
  with AdjustOp show ?thesis using appends_refl[OF assms(2)] by (simp add: adminAdjust_def)
next
  case (AuditedOp uid d reason audit ref)
  let ?fn = "bind_act (move_signed bind_wallet uid d reason ref now)
     (\<lambda>res s. (Inr res, if mr_idempotent res then s else s\<lparr>m_audit := audit_record audit now (m_audit s)\<rparr>))"
  have "appends (row_from None ref) s s'" if "?fn s = (Inr x, s')" for x s'
    using that move_appends[OF assms(2)] by (auto simp: bind_act_Inr split: if_splits)
  then have "appends (row_from None ref) s (snd (transaction_in uow ?fn s))"
    by (intro clean_appends[OF assms(2)]) (auto dest: transaction_Inl[OF assms(1)])
  with AuditedOp show ?thesis using appends_refl[OF assms(2)] by (simp add: adminAdjustAudited_def Let_def)
qed (use clean_step_appends[OF assms] in simp_all)

lemma appends_mono: "appends Q s s' \<Longrightarrow> (\<And>row. Q row \<Longrightarrow> R row) \<Longrightarrow> appends R s s'"
  unfolding appends_def by auto

subsection \<open>The interface of the money services\<close>

text \<open>
  What the services that pay several users rely on: crediting under a new reference appends one
  row that says what was paid, and touches nothing but the books. Paying a list of users under
  distinct new references then books exactly that list.
\<close>

definition ignore_act :: "('s, 'e, 'a) action \<Rightarrow> ('s, 'e, unit) action" where
  "ignore_act m = bind_act m (\<lambda>_. return_act ())"

lemma ignore_act_Inr: "ignore_act m s = (Inr u, s') \<longleftrightarrow> (\<exists>x. m s = (Inr x, s'))"
  by (simp add: ignore_act_def act_simps)

lemma for_each_Cons_Inr:
  "for_each f (x # xs) s = (Inr u, s') \<longleftrightarrow> (\<exists>m. f x s = (Inr (), m) \<and> for_each f xs m = (Inr u, s'))"
  by (simp add: bind_act_Inr)

lemma for_each_filter:
  "for_each (\<lambda>x. if P x then f x else return_act ()) xs = for_each f (filter P xs)"
proof (induction xs)
  case (Cons x xs)
  have ret: "bind_act (return_act ()) k = k ()" for k :: "unit \<Rightarrow> ('a, 'b, unit) action"
    by (simp add: fun_eq_iff bind_act_def return_act_def)
  from Cons.IH show ?case by (cases "P x") (simp_all add: ret)
qed simp

definition row_facts :: "transaction \<Rightarrow> user_id \<times> cents \<times> string option \<times> string option" where
  "row_facts r = (t_userId r, t_amountCents r, t_matchId r, t_providerRef r)"

definition pay_facts :: "user_id \<times> cents \<times> credit_options \<Rightarrow> user_id \<times> cents \<times> string option \<times> string option" where
  "pay_facts p = (fst p, fst (snd p), co_matchId (snd (snd p)), co_providerRef (snd (snd p)))"

locale ledger_wallet =
  fixes pay :: "user_id \<Rightarrow> cents \<Rightarrow> credit_options \<Rightarrow> int \<Rightarrow> ('s, 'e, 'r) action"
    and rows :: "'s \<Rightarrow> transaction list"
    and ok :: "'s \<Rightarrow> bool"
    and frame :: "'s \<Rightarrow> 's \<Rightarrow> bool"
  assumes pay_new: "ok s \<Longrightarrow> co_providerRef opts = Some ref \<Longrightarrow> ref \<noteq> [] \<Longrightarrow>
      \<forall>r\<in>set (rows s). t_providerRef r \<noteq> Some ref \<Longrightarrow> pay uid amt opts now s = (Inr x, s') \<Longrightarrow>
      ok s' \<and> frame s s' \<and> (\<exists>r. rows s' = rows s @ [r] \<and> row_facts r = pay_facts (uid, amt, opts))"
    and frame_refl: "frame s s"
    and frame_trans: "frame s t \<Longrightarrow> frame t u \<Longrightarrow> frame s u"
begin

lemma pay_all:
  assumes "ok s" "for_each (\<lambda>p. ignore_act (pay (fst p) (fst (snd p)) (snd (snd p)) now)) ps s = (Inr u, s')"
    and "\<forall>p\<in>set ps. \<exists>ref. co_providerRef (snd (snd p)) = Some ref \<and> ref \<noteq> []"
    and "distinct (map (\<lambda>p. co_providerRef (snd (snd p))) ps)"
    and "\<forall>p\<in>set ps. \<forall>r\<in>set (rows s). t_providerRef r \<noteq> co_providerRef (snd (snd p))"
  shows "ok s' \<and> frame s s' \<and> (\<exists>new. rows s' = rows s @ new \<and> map row_facts new = map pay_facts ps)"
  using assms
proof (induction ps arbitrary: s)
  case Nil
  then show ?case by (auto simp: return_act_def frame_refl)
next
  case (Cons p ps)
  obtain m x where m: "pay (fst p) (fst (snd p)) (snd (snd p)) now s = (Inr x, m)"
    "for_each (\<lambda>p. ignore_act (pay (fst p) (fst (snd p)) (snd (snd p)) now)) ps m = (Inr u, s')"
    using Cons.prems(2) unfolding for_each_Cons_Inr ignore_act_Inr by blast
  obtain ref where ref: "co_providerRef (snd (snd p)) = Some ref" "ref \<noteq> []" using Cons.prems(3) by auto
  have fresh: "\<forall>r\<in>set (rows s). t_providerRef r \<noteq> Some ref" using Cons.prems(5) ref by auto
  obtain r where r: "ok m" "frame s m" "rows m = rows s @ [r]" "row_facts r = pay_facts p"
    using pay_new[OF Cons.prems(1) ref fresh m(1)] by auto
  have tr: "t_providerRef r = Some ref" using r(4) ref by (simp add: row_facts_def pay_facts_def)
  have "\<forall>q\<in>set ps. \<forall>t\<in>set (rows m). t_providerRef t \<noteq> co_providerRef (snd (snd q))"
  proof (intro ballI)
    fix q t
    assume q: "q \<in> set ps" and "t \<in> set (rows m)"
    then consider "t \<in> set (rows s)" | "t = r" using r(3) by auto
    then show "t_providerRef t \<noteq> co_providerRef (snd (snd q))"
      using Cons.prems(4,5) q tr ref by cases force+
  qed
  with Cons.IH[OF r(1) m(2)] Cons.prems(3,4)
  obtain new where "ok s'" "frame m s'" "rows s' = rows m @ new" "map row_facts new = map pay_facts ps" by auto
  with r frame_trans[of s m s'] show ?case by (intro conjI exI[of _ "r # new"]) auto
qed

end

lemma findByProviderRef_None:
  "ledger_wf l \<Longrightarrow> ref \<noteq> [] \<Longrightarrow> findByProviderRef ref l = None \<longleftrightarrow> (\<forall>r\<in>set (l_rows l). t_providerRef r \<noteq> Some ref)"
  using findByProviderRef_iff[of l ref] by (cases "findByProviderRef ref l") (auto simp: has_ref_def)

interpretation wpay: ledger_wallet "credit w" "\<lambda>s. l_rows (m_ledger s)" books_ok only_books for w
proof (unfold_locales, goal_cases)
  case (1 s opts ref uid amt now x s')
  then have "ledger_wf (m_ledger s)" by (simp add: books_ok_def)
  then have none: "findByProviderRef ref (m_ledger s) = None" using findByProviderRef_None 1 by metis
  show ?case
    by (rule credit_ok[OF 1(1,5)])
       (use none 1(2,3) in \<open>auto simp: posted_def row_facts_def pay_facts_def real_ref_def truthy_def\<close>)
qed (auto intro: only_books_trans)

subsection \<open>Properties\<close>

text \<open>C5: the books always reconcile. Starting from balanced books, after any sequence of
  registrations, credits, debits, transfers, rake entries and admin adjustments in a
  transactional store, whatever fails on the way, the reconciliation reports no mismatch and every
  stored balance lies between zero and the ceiling.\<close>

theorem wallet_reconciles:
  assumes "rolls_back uow" "books_ok s"
  shows "reconcile (foldl (wallet_step uow) s ops) = (True, []) \<and>
    (\<forall>uid\<in>known (m_users (foldl (wallet_step uow) s ops)).
       0 \<le> getBalance uid (foldl (wallet_step uow) s ops) \<and>
       getBalance uid (foldl (wallet_step uow) s ops) \<le> BALANCE_CEILING_CENTS)"
proof -
  have b: "books_ok (foldl (wallet_step uow) s ops)" using wal.run_inv[of uow s ops] assms by blast
  show ?thesis unfolding getBalance_eq using books_reconcile[OF b] books_ok_balance[OF b] by blast
qed

definition rollback :: "'s \<Rightarrow> 's \<Rightarrow> 's" where
  "rollback s0 s = s0"

lemma rolls_back_rollback: "rolls_back rollback"
  by (simp add: rolls_back_def rollback_def)

theorem wallet_reconciles_witness:
  "fst (reconcile (foldl (wallet_step rollback) empty_store
     [(CreateUserOp demo_new_user, 1), (CreditOp ''u_1'' 500 (plain_credit Deposit ''d''), 2),
      (TransferOp ''u_1'' ''u_2'' 100 None, 3), (DebitOp ''u_1'' 200 (plain_debit Bet ''stake''), 4)]))"
  using wallet_reconciles[OF rolls_back_rollback books_ok_empty, of "[(CreateUserOp demo_new_user, 1),
      (CreditOp ''u_1'' 500 (plain_credit Deposit ''d''), 2), (TransferOp ''u_1'' ''u_2'' 100 None, 3),
      (DebitOp ''u_1'' 200 (plain_debit Bet ''stake''), 4)]"] by simp

text \<open>C13: a provider reference credits at most once. After a successful credit under a reference,
  whatever wallet operations happen in between, crediting again under the same reference (a
  retried webhook, with any amount, user, deposit cap or time) returns the first transaction,
  marked idempotent, and changes nothing.\<close>

theorem credit_at_most_once:
  assumes "rolls_back uow" "books_ok s"
    and "credit (tx_wallet uow) uid amt opts now s = (Inr r, s1)" "truthy (co_providerRef opts)"
    and "co_providerRef opts' = co_providerRef opts" "0 < amt'" "amt' \<le> MAX_AMOUNT_CENTS"
    and "uid' \<in> known (m_users (foldl (wallet_step uow) s1 ops))"
  shows "credit (tx_wallet uow) uid' amt' opts' later (foldl (wallet_step uow) s1 ops) =
    (Inr \<lparr>mr_transaction = mr_transaction r, mr_balanceCents = getBalance uid' (foldl (wallet_step uow) s1 ops),
          mr_idempotent = True\<rparr>, foldl (wallet_step uow) s1 ops)"
proof -
  obtain ref where ref: "co_providerRef opts = Some ref" "ref \<noteq> []"
    using assms(4) by (auto simp: truthy_def split: option.splits)
  have b1: "books_ok s1" using credit_keeps[OF assms(2,3)] by simp
  have "findByProviderRef ref (m_ledger s1) = Some (mr_transaction r)"
  proof (rule credit_ok[OF assms(2,3)])
    fix row
    assume "mr_transaction r = row" "posted row s s1"
      "row = new_row (Suc (l_seq (m_ledger s))) (credit_row uid amt opts (real_ref (co_providerRef opts))) now"
    then show ?thesis using b1 ref assms(4)
      by (auto simp: findByProviderRef_iff books_ok_def posted_def has_ref_def real_ref_def)
  qed (use ref in auto)
  then have f: "findByProviderRef ref (m_ledger (foldl (wallet_step uow) s1 ops)) = Some (mr_transaction r)"
    by (rule extends_find_ref[OF b1 wallet_run_extends[OF assms(1) b1]])
  have wf: "ledger_wf (m_ledger (foldl (wallet_step uow) s1 ops))"
    using wallet_run_extends[OF assms(1) b1, of ops] by (simp add: extends_books_def books_ok_def)
  obtain user where "findById uid' (m_users (foldl (wallet_step uow) s1 ops)) = Some user"
    using assms(8) by (auto simp: findById_def known_iff)
  then show ?thesis
    using f assms(4-7) ref appendIdempotent_old[OF wf f] transaction_Inr[of uow]
    by (simp add: credit_def assertAmount_def credit_ref_def depositCap_violated_def split: option.split)
qed

definition demo_store :: money_store where
  "demo_store = foldl (wallet_step rollback) empty_store
     [(CreateUserOp demo_new_user, 1), (CreateUserOp (demo_new_user\<lparr>nu_username := ''Ben'', nu_email := ''b@x''\<rparr>), 1),
      (CreditOp ''u_1'' 500 (plain_credit Deposit ''d''), 2)]"

lemma demo_store_books: "books_ok demo_store"
  using wal.run_inv[of rollback empty_store] rolls_back_rollback books_ok_empty unfolding demo_store_def by blast

lemma demo_store_known: "''u_1'' \<in> known (m_users demo_store)" "''u_2'' \<in> known (m_users demo_store)"
  by code_simp+

definition demo_deposit :: credit_options where
  "demo_deposit = (plain_credit Deposit ''d'')\<lparr>co_providerRef := Some ''tron:1'', co_depositCapCents := Some 900\<rparr>"

lemma demo_credit_succeeds: "\<exists>r s1. credit (tx_wallet rollback) ''u_1'' 300 demo_deposit 5 demo_store = (Inr r, s1)"
proof -
  have "\<not> isl (fst (credit (tx_wallet rollback) ''u_1'' 300 demo_deposit 5 demo_store))" by code_simp
  then show ?thesis by (rule action_succeeds)
qed

theorem credit_at_most_once_witness:
  "\<exists>r s1. credit (tx_wallet rollback) ''u_1'' 300 demo_deposit 5 demo_store = (Inr r, s1) \<and>
     snd (credit (tx_wallet rollback) ''u_1'' 900 demo_deposit 7 s1) = s1"
proof -
  obtain r s1 where c: "credit (tx_wallet rollback) ''u_1'' 300 demo_deposit 5 demo_store = (Inr r, s1)"
    using demo_credit_succeeds by blast
  have "''u_1'' \<in> known (m_users s1)"
    using only_books_frame(4)[of demo_store s1] credit_keeps[OF demo_store_books c] demo_store_known by simp
  then show ?thesis
    using c credit_at_most_once[OF rolls_back_rollback demo_store_books c, of demo_deposit 900 "''u_1''" "[]" 7]
    by (simp add: demo_deposit_def truthy_def MAX_AMOUNT_CENTS_def)
qed

text \<open>A transfer is atomic. In a transactional store a transfer either fails and leaves the
  store exactly as it was, or moves the amount from a sender who had it to a different existing
  receiver: the two balances change by the amount, every other balance stays, and the books
  stay balanced.\<close>

theorem transfer_atomic:
  assumes "rolls_back uow" "books_ok s"
  shows "case transfer (tx_wallet uow) from to amt reason now s of
      (Inl e, s') \<Rightarrow> s' = s
    | (Inr r, s') \<Rightarrow> from \<noteq> to \<and> 0 < amt \<and> amt \<le> getBalance from s \<and> to \<in> known (m_users s) \<and> books_ok s' \<and>
        tr_balanceCents r = getBalance from s - amt \<and>
        (\<forall>uid. uid \<noteq> HOUSE_ACCOUNT_ID \<longrightarrow> getBalance uid s' = getBalance uid s +
           (if uid = from then - amt else if uid = to then amt else 0))"
proof (cases "transfer (tx_wallet uow) from to amt reason now s")
  case (Pair res s')
  show ?thesis
  proof (cases res)
    case (Inl e)
    with Pair transfer_fails_clean[OF assms(1), of "from" to amt reason now s e s'] show ?thesis by simp
  next
    case (Inr r)
    with Pair have t: "transfer (tx_wallet uow) from to amt reason now s = (Inr r, s')" by simp
    show ?thesis
    proof (rule transfer_rows[OF assms(2) t])
      fix m row1 row2
      assume p: "posted row1 s m" "posted row2 m s'" and *: "from \<noteq> to"
        "t_userId row1 = from" "t_amountCents row1 = - amt" "t_userId row2 = to" "t_amountCents row2 = amt"
        "0 < amt" "amt \<le> getBalance from s" "tr_balanceCents r = getBalance from s - amt"
        "from \<in> known (m_users s)" "to \<in> known (m_users s)"
      have m: "books_ok m" and s': "books_ok s'" using p by (simp_all add: posted_def)
      have "balance_of (m_users s') uid = balance_of (m_users s) uid + (if uid = from then - amt else if uid = to then amt else 0)"
        if "uid \<noteq> HOUSE_ACCOUNT_ID" for uid
        using posted_balance[OF assms(2) p(1) that] posted_balance[OF m p(2) that] * by auto
      with t s' * show ?thesis by (auto simp: getBalance_eq)
    qed
  qed
qed

lemma demo_transfer_succeeds: "\<exists>r s'. transfer (tx_wallet rollback) ''u_1'' ''u_2'' 120 None 5 demo_store = (Inr r, s')"
proof -
  have "\<not> isl (fst (transfer (tx_wallet rollback) ''u_1'' ''u_2'' 120 None 5 demo_store))" by code_simp
  then show ?thesis by (rule action_succeeds)
qed

theorem transfer_atomic_witness:
  "\<exists>r s'. transfer (tx_wallet rollback) ''u_1'' ''u_2'' 120 None 5 demo_store = (Inr r, s') \<and>
     getBalance ''u_2'' s' = getBalance ''u_2'' demo_store + 120"
proof -
  obtain r s' where t: "transfer (tx_wallet rollback) ''u_1'' ''u_2'' 120 None 5 demo_store = (Inr r, s')"
    using demo_transfer_succeeds by blast
  have "''u_2'' \<noteq> HOUSE_ACCOUNT_ID" by (simp add: HOUSE_ACCOUNT_ID_def)
  then show ?thesis
    using transfer_atomic[OF rolls_back_rollback demo_store_books, of "''u_1''" "''u_2''" 120 None 5] t by auto
qed

lemma sumByUserTypesSince_snoc:
  "l_rows l' = l_rows l @ [row] \<Longrightarrow>
     sumByUserTypesSince uid types since l' = sumByUserTypesSince uid types since l +
       (if t_userId row = uid \<and> t_type row \<in> set types \<and> t_createdAt row \<ge> since then t_amountCents row else 0)"
  by (simp add: sumByUserTypesSince_def)

text \<open>The daily deposit cap holds. When a capped deposit is booked (and is not the replay of a
  known reference), the deposits of that user since the start of the UTC day, this one included,
  do not exceed the cap; when it is refused because of the cap, the store is unchanged.\<close>

theorem deposit_cap_holds:
  assumes "rolls_back uow" "books_ok s" "co_type opts = Deposit" "truthy (co_providerRef opts)"
    and "co_depositCapCents opts = Some cap"
  shows "case credit (tx_wallet uow) uid amt opts now s of
      (Inr r, s') \<Rightarrow> \<not> mr_idempotent r \<longrightarrow> sumByUserTypesSince uid [Deposit] (startOfDayMs now) (m_ledger s') \<le> cap
    | (Inl e, s') \<Rightarrow> s' = s"
proof (cases "credit (tx_wallet uow) uid amt opts now s")
  case (Pair res s')
  show ?thesis
  proof (cases res)
    case (Inl e)
    with Pair credit_fails_clean[OF assms(1), of uid amt opts now s e s'] show ?thesis by simp
  next
    case (Inr r)
    with Pair have c: "credit (tx_wallet uow) uid amt opts now s = (Inr r, s')" by simp
    have "sumByUserTypesSince uid [Deposit] (startOfDayMs now) (m_ledger s') \<le> cap" if new: "\<not> mr_idempotent r"
    proof (rule credit_ok[OF assms(2) c])
      fix row
      assume p: "posted row s s'"
        and row: "row = new_row (Suc (l_seq (m_ledger s))) (credit_row uid amt opts (real_ref (co_providerRef opts))) now"
        and cap: "truthy (co_providerRef opts) \<Longrightarrow> findByProviderRef (the (co_providerRef opts)) (m_ledger s) = None"
          "truthy (co_providerRef opts) \<Longrightarrow> depositCap_violated uid amt opts now s = None"
      have "sumByUserTypesSince uid [Deposit] (startOfDayMs now) (m_ledger s) + amt \<le> cap"
        using cap assms(4,5) by (auto simp: depositCap_violated_def Let_def split: if_splits)
      moreover have "t_createdAt row = now" by (simp add: row new_row_def)
      moreover have "startOfDayMs now \<le> now" unfolding startOfDayMs_def DAY_MS_def by presburger
      moreover have "l_rows (m_ledger s') = l_rows (m_ledger s) @ [row]" using p by (simp add: posted_def)
      ultimately show ?thesis using sumByUserTypesSince_snoc[of "m_ledger s'" "m_ledger s" row uid "[Deposit]" "startOfDayMs now"]
          assms(3) by (simp add: row)
    qed (use new in auto)
    with c show ?thesis by simp
  qed
qed

theorem deposit_cap_holds_witness:
  "case credit (tx_wallet rollback) ''u_1'' 300 demo_deposit 5 demo_store of
      (Inr r, s') \<Rightarrow> \<not> mr_idempotent r \<longrightarrow> sumByUserTypesSince ''u_1'' [Deposit] (startOfDayMs 5) (m_ledger s') \<le> 900
    | (Inl e, s') \<Rightarrow> s' = demo_store"
  by (rule deposit_cap_holds[OF rolls_back_rollback demo_store_books])
     (simp_all add: demo_deposit_def plain_credit_def truthy_def)

text \<open>What reconciliation reports. On every well-formed user store the reconciliation lists
  exactly the users with ledger rows, the house apart, whose stored balance differs from the sum
  of their rows, with both numbers, and says ok exactly when there is none.\<close>

theorem reconcile_exact:
  assumes "users_wf (m_users s)"
  shows "set (snd (reconcile s)) =
      {\<lparr>mm_userId = uid, mm_balanceCents = getBalance uid s, mm_ledgerSum = user_sum (m_ledger s) uid\<rparr> | uid.
         uid \<in> t_userId ` set (l_rows (m_ledger s)) \<and> uid \<noteq> HOUSE_ACCOUNT_ID \<and>
         getBalance uid s \<noteq> user_sum (m_ledger s) uid}
    \<and> (fst (reconcile s) \<longleftrightarrow> snd (reconcile s) = [])"
  unfolding getBalance_eq set_empty[symmetric]
  by (rule conjI[OF reconcile_mismatches[OF assms] reconcile_fst])

theorem reconcile_exact_witness:
  "set (snd (reconcile (demo_store\<lparr>m_ledger := empty_ledger\<rparr>))) = {}"
proof -
  have "users_wf (m_users (demo_store\<lparr>m_ledger := empty_ledger\<rparr>))" using demo_store_books by (simp add: books_ok_def)
  then show ?thesis using reconcile_exact[of "demo_store\<lparr>m_ledger := empty_ledger\<rparr>"] by (simp add: empty_ledger_def)
qed

definition in_memory_wallet :: "'s wallet_service" where
  "in_memory_wallet = \<lparr>w_uow = Some in_memory_uow, w_txBound = False\<rparr>"

text \<open>Without rollback a refused credit breaks the books. With the in-memory unit of work the
  ceiling is checked after the row of a referenced credit is appended: the credit is refused, the
  row stays without a balance behind it, and the reconciliation fails.\<close>

theorem in_memory_ceiling_breaks_books:
  "fst (credit in_memory_wallet ''u_1'' MAX_AMOUNT_CENTS
          (demo_deposit\<lparr>co_depositCapCents := None\<rparr>) 5 demo_store) = Inl (BalanceCeilingError ''u_1'' 500 MAX_AMOUNT_CENTS)
   \<and> \<not> fst (reconcile (snd (credit in_memory_wallet ''u_1'' MAX_AMOUNT_CENTS
          (demo_deposit\<lparr>co_depositCapCents := None\<rparr>) 5 demo_store)))"
  by code_simp

end
