(* ===== verification/Money_Service.thy ===== *)
theory Money_Service
  imports Wallet
begin

text \<open>
  Stakes, pots and settlement (\<^verbatim>\<open>packages/server/src/money/settlement.ts\<close> and
  \<^verbatim>\<open>money/moneyService.ts\<close>): escrow at the start of a match, payout of the winners and the house
  rake at its end, refund on cancel, and the recovery of matches orphaned by a crash.

  The set \<open>inFlight\<close> of claimed match ids is an argument of each operation; the texts of
  messages are left out. Divisions are exact: amounts are below \<open>2 ^ 53\<close>, where
  \<^verbatim>\<open>Math.floor(a / b)\<close> on integers is integer division.
\<close>

subsection \<open>Settlement\<close>

record payout =
  py_seat :: seat
  py_amountCents :: cents

record settlement =
  se_potCents :: cents
  se_rakeCents :: cents
  se_payouts :: "payout list"

definition potCents :: "cents \<Rightarrow> nat \<Rightarrow> cents" where
  "potCents stake players = stake * int players"

definition computeSettlement :: "cents \<Rightarrow> int \<Rightarrow> seat list \<Rightarrow> money_error + settlement" where
  "computeSettlement pot rakeBps winnerSeats =
     (if winnerSeats = [] then Inl NoWinner
      else if pot < 0 then Inl PotNegative
      else if rakeBps < 0 \<or> rakeBps > 10000 then Inl RakeBpsRange
      else
        let rake = (pot * rakeBps) div 10000;
            take = pot - rake;
            n = int (length winnerSeats);
            base = take div n;
            remainder = take - base * n
        in Inr \<lparr>se_potCents = pot, se_rakeCents = rake,
             se_payouts = map (\<lambda>(i, seat). \<lparr>py_seat = seat, py_amountCents = base + (if int i < remainder then 1 else 0)\<rparr>)
               (enumerate 0 winnerSeats)\<rparr>)"

subsection \<open>The money service\<close>

record escrow_result =
  er_ok :: bool
  er_potCents :: cents
  er_code :: "string option"
  er_insufficientUserIds :: "user_id list"

definition runAtomic ::
  "'s wallet_service \<Rightarrow> ('s \<Rightarrow> 's \<Rightarrow> 's) option \<Rightarrow> ('s wallet_service \<Rightarrow> ('s, 'e, 'a) action) \<Rightarrow> ('s, 'e, 'a) action" where
  "runAtomic w uow fn s =
     (case uow of Some u \<Rightarrow> transaction_in u (fn bind_wallet) s | None \<Rightarrow> fn w s)"

definition stake_debit :: "string \<Rightarrow> debit_options" where
  "stake_debit mid = \<lparr>do_type = Bet, do_reason = Some ''stake'', do_matchId = Some mid, do_currency = None\<rparr>"

definition escrow_writes ::
  "string \<Rightarrow> match_type \<Rightarrow> cents \<Rightarrow> int \<Rightarrow> match_player list \<Rightarrow> int \<Rightarrow> 'z money_store_scheme wallet_service \<Rightarrow>
     ('z money_store_scheme, money_error, unit) action" where
  "escrow_writes mid ty stake rakeBps players now w =
     bind_act (\<lambda>s. (Inr (), s\<lparr>m_matches :=
          matches_create mid ty stake rakeBps (potCents stake (length players)) players now (m_matches s)\<rparr>)) (\<lambda>_.
       if stake > 0
       then for_each (\<lambda>p. ignore_act (debit w (mp_userId p) stake (stake_debit mid) now)) players
       else return_act ())"

definition escrowLocked ::
  "'z money_store_scheme wallet_service \<Rightarrow> ('z money_store_scheme \<Rightarrow> 'z money_store_scheme \<Rightarrow> 'z money_store_scheme) option \<Rightarrow>
     string \<Rightarrow> match_type \<Rightarrow> cents \<Rightarrow> int \<Rightarrow> match_player list \<Rightarrow> int \<Rightarrow>
     ('z money_store_scheme, money_error, escrow_result) action" where
  "escrowLocked w uow mid ty stake rakeBps players now s =
     (case matches_find mid (m_matches s) of
        Some r \<Rightarrow> (Inr \<lparr>er_ok = True, er_potCents = r_potCents r, er_code = None, er_insufficientUserIds = []\<rparr>, s)
      | None \<Rightarrow>
          (let pot = potCents stake (length players);
               insufficient = (if stake > 0
                 then map mp_userId (filter (\<lambda>p. getBalance (mp_userId p) s < stake) players) else [])
           in if insufficient \<noteq> []
              then (Inr \<lparr>er_ok = False, er_potCents = pot, er_code = Some ''insufficient_funds'',
                         er_insufficientUserIds = insufficient\<rparr>, s)
              else case runAtomic w uow (escrow_writes mid ty stake rakeBps players now) s of
                (Inr _, s') \<Rightarrow> (Inr \<lparr>er_ok = True, er_potCents = pot, er_code = None, er_insufficientUserIds = []\<rparr>, s')
              | (Inl (InsufficientFundsError uid _ _), s') \<Rightarrow>
                  (Inr \<lparr>er_ok = False, er_potCents = pot, er_code = Some ''insufficient_funds'',
                        er_insufficientUserIds = [uid]\<rparr>, s')
              | (Inl e, s') \<Rightarrow> (Inl e, s')))"

definition escrow ::
  "'z money_store_scheme wallet_service \<Rightarrow> ('z money_store_scheme \<Rightarrow> 'z money_store_scheme \<Rightarrow> 'z money_store_scheme) option \<Rightarrow>
     string set \<Rightarrow> string \<Rightarrow> match_type \<Rightarrow> cents \<Rightarrow> int \<Rightarrow> match_player list \<Rightarrow> int \<Rightarrow>
     ('z money_store_scheme, money_error, escrow_result) action" where
  "escrow w uow inFlight mid ty stake rakeBps players now s =
     (if mid \<in> inFlight
      then (Inr \<lparr>er_ok = False, er_potCents = potCents stake (length players), er_code = Some ''busy'',
                 er_insufficientUserIds = []\<rparr>, s)
      else escrowLocked w uow mid ty stake rakeBps players now s)"

definition payout_ref :: "string \<Rightarrow> seat \<Rightarrow> string" where
  "payout_ref mid seat = ''payout:'' @ mid @ '':'' @ nat_str seat"

definition rake_ref :: "string \<Rightarrow> string" where
  "rake_ref mid = ''rake:'' @ mid"

definition refund_ref :: "string \<Rightarrow> seat \<Rightarrow> string" where
  "refund_ref mid seat = ''refund:'' @ mid @ '':'' @ nat_str seat"

definition match_credit :: "string \<Rightarrow> string \<Rightarrow> string \<Rightarrow> credit_options" where
  "match_credit mid reason ref =
     \<lparr>co_type = PayoutTx, co_reason = Some reason, co_providerRef = Some ref, co_matchId = Some mid,
      co_currency = None, co_depositCapCents = None\<rparr>"

text \<open>\<^verbatim>\<open>new Map(entries)\<close>: a later entry for a seat replaces an earlier one.\<close>

definition seatToUser :: "match_record \<Rightarrow> (seat \<times> user_id) list" where
  "seatToUser r = rev (map (\<lambda>p. (mp_seat p, mp_userId p)) (r_players r))"

definition settle_writes ::
  "match_record \<Rightarrow> seat list \<Rightarrow> settlement \<Rightarrow> int \<Rightarrow> 'z money_store_scheme wallet_service \<Rightarrow>
     ('z money_store_scheme, money_error, unit) action" where
  "settle_writes r winnerSeats st now w =
     bind_act
       (if r_potCents r > 0
        then bind_act
          (for_each (\<lambda>p. if py_amountCents p > 0
             then ignore_act (credit w (the (map_of (seatToUser r) (py_seat p))) (py_amountCents p)
                    (match_credit (r_id r) ''winnings'' (payout_ref (r_id r) (py_seat p))) now)
             else return_act ()) (se_payouts st))
          (\<lambda>_. if se_rakeCents st > 0
             then ignore_act (recordRake w (se_rakeCents st) (Some (r_id r)) None (Some (rake_ref (r_id r))) now)
             else return_act ())
        else return_act ())
       (\<lambda>_ s. (Inr (), s\<lparr>m_matches := markSettled (r_id r) winnerSeats now (m_matches s)\<rparr>))"

definition seated_winners :: "match_record \<Rightarrow> seat list \<Rightarrow> seat list" where
  "seated_winners r seats = filter (\<lambda>x. map_of (seatToUser r) x \<noteq> None) seats"

definition settle_record ::
  "'z money_store_scheme wallet_service \<Rightarrow> ('z money_store_scheme \<Rightarrow> 'z money_store_scheme \<Rightarrow> 'z money_store_scheme) option \<Rightarrow>
     match_record option \<Rightarrow> seat list \<Rightarrow> int \<Rightarrow> ('z money_store_scheme, money_error, settlement option) action" where
  "settle_record w uow found seats now s =
     (case found of
        None \<Rightarrow> (Inr None, s)
      | Some r \<Rightarrow>
          if r_status r \<noteq> ActiveMatch then (Inr None, s)
          else
            let winnerSeats = seated_winners r seats in
            if winnerSeats = [] then (Inr None, s)
            else case computeSettlement (r_potCents r) (r_rakeBps r) winnerSeats of
              Inl e \<Rightarrow> (Inl e, s)
            | Inr st \<Rightarrow>
                (case runAtomic w uow (settle_writes r winnerSeats st now) s of
                   (Inl e, s') \<Rightarrow> (Inl e, s') | (Inr _, s') \<Rightarrow> (Inr (Some st), s')))"

definition settle ::
  "'z money_store_scheme wallet_service \<Rightarrow> ('z money_store_scheme \<Rightarrow> 'z money_store_scheme \<Rightarrow> 'z money_store_scheme) option \<Rightarrow>
     string set \<Rightarrow> string \<Rightarrow> seat list \<Rightarrow> int \<Rightarrow> ('z money_store_scheme, money_error, settlement option) action" where
  "settle w uow inFlight mid seats now s =
     (if mid \<in> inFlight then (Inr None, s)
      else settle_record w uow (matches_find mid (m_matches s)) seats now s)"

definition refund_writes ::
  "match_record \<Rightarrow> int \<Rightarrow> 'z money_store_scheme wallet_service \<Rightarrow> ('z money_store_scheme, money_error, unit) action" where
  "refund_writes r now w =
     bind_act
       (if r_stakeCents r > 0
        then for_each (\<lambda>p. ignore_act (credit w (mp_userId p) (r_stakeCents r)
               (match_credit (r_id r) ''refund'' (refund_ref (r_id r) (mp_seat p))) now)) (r_players r)
        else return_act ())
       (\<lambda>_ s. (Inr (), s\<lparr>m_matches := markCancelled (r_id r) now (m_matches s)\<rparr>))"

definition refund_record ::
  "'z money_store_scheme wallet_service \<Rightarrow> ('z money_store_scheme \<Rightarrow> 'z money_store_scheme \<Rightarrow> 'z money_store_scheme) option \<Rightarrow>
     match_record option \<Rightarrow> int \<Rightarrow> ('z money_store_scheme, money_error, unit) action" where
  "refund_record w uow found now s =
     (case found of
        None \<Rightarrow> (Inr (), s)
      | Some r \<Rightarrow>
          if r_status r \<noteq> ActiveMatch then (Inr (), s) else runAtomic w uow (refund_writes r now) s)"

definition refund ::
  "'z money_store_scheme wallet_service \<Rightarrow> ('z money_store_scheme \<Rightarrow> 'z money_store_scheme \<Rightarrow> 'z money_store_scheme) option \<Rightarrow>
     string set \<Rightarrow> string \<Rightarrow> int \<Rightarrow> ('z money_store_scheme, money_error, unit) action" where
  "refund w uow inFlight mid now s =
     (if mid \<in> inFlight then (Inr (), s)
      else refund_record w uow (matches_find mid (m_matches s)) now s)"

fun refund_each ::
  "'z money_store_scheme wallet_service \<Rightarrow> ('z money_store_scheme \<Rightarrow> 'z money_store_scheme \<Rightarrow> 'z money_store_scheme) option \<Rightarrow>
     string set \<Rightarrow> string set \<Rightarrow> int \<Rightarrow> match_record list \<Rightarrow> string list \<Rightarrow>
     ('z money_store_scheme, money_error, string list) action" where
  "refund_each w uow inFlight live now [] refunded s = (Inr refunded, s)"
| "refund_each w uow inFlight live now (m # ms) refunded s =
     (if r_id m \<in> live then refund_each w uow inFlight live now ms refunded s
      else case refund w uow inFlight (r_id m) now s of
        (Inl e, s') \<Rightarrow> (Inl e, s')
      | (Inr _, s') \<Rightarrow> refund_each w uow inFlight live now ms (refunded @ [r_id m]) s')"

definition recoverOrphanedMatches ::
  "'z money_store_scheme wallet_service \<Rightarrow> ('z money_store_scheme \<Rightarrow> 'z money_store_scheme \<Rightarrow> 'z money_store_scheme) option \<Rightarrow>
     string set \<Rightarrow> string set \<Rightarrow> int \<Rightarrow> ('z money_store_scheme, money_error, string list) action" where
  "recoverOrphanedMatches w uow inFlight live now s =
     refund_each w uow inFlight live now (listActive (m_matches s)) [] s"

definition forfeitWinners :: "match_type \<Rightarrow> match_player list \<Rightarrow> seat \<Rightarrow> seat list \<times> seat list \<Rightarrow> seat list" where
  "forfeitWinners ty players abandonerSeat teams =
     (let seats = map mp_seat players in
      if ty = TwoVTwo
      then let abandonerTeam = (if abandonerSeat \<in> set (fst teams) then 0 else 1 :: nat) in
           filter (\<lambda>s. s \<in> set seats) (if abandonerTeam = 0 then snd teams else fst teams)
      else filter (\<lambda>s. s \<noteq> abandonerSeat) seats)"

subsection \<open>Conservation of the pot\<close>

lemma sum_enumerate:
  "(\<Sum>p\<leftarrow>map (\<lambda>(i, x). b + (if int i < rem then 1 else 0)) (enumerate k xs). p) =
     b * int (length xs) + max 0 (min (int (length xs)) (rem - int k))"
  by (induction xs arbitrary: k) (auto simp: algebra_simps max_def min_def)

lemma computeSettlement_pot:
  assumes "computeSettlement pot rakeBps seats = Inr st"
  shows "(\<Sum>p\<leftarrow>se_payouts st. py_amountCents p) + se_rakeCents st = pot"
    "map py_seat (se_payouts st) = seats" "0 \<le> se_rakeCents st" "\<forall>p\<in>set (se_payouts st). 0 \<le> py_amountCents p"
    "se_rakeCents st = pot * rakeBps div 10000" "0 \<le> pot" "se_rakeCents st \<le> pot"
    "\<forall>p\<in>set (se_payouts st). py_amountCents p - (pot - se_rakeCents st) div int (length seats) \<in> {0, 1}"
proof -
  have c: "seats \<noteq> []" "0 \<le> pot" "0 \<le> rakeBps" "rakeBps \<le> 10000"
    using assms by (auto simp: computeSettlement_def split: if_splits)
  define rake n base rem where "rake = pot * rakeBps div 10000" and "n = int (length seats)"
    and "base = (pot - rake) div n" and "rem = pot - rake - base * n"
  note defs = rake_def n_def base_def rem_def
  have st: "st = \<lparr>se_potCents = pot, se_rakeCents = rake,
      se_payouts = map (\<lambda>(i, seat). \<lparr>py_seat = seat, py_amountCents = base + (if int i < rem then 1 else 0)\<rparr>)
        (enumerate 0 seats)\<rparr>"
    using assms c by (simp add: computeSettlement_def Let_def defs)
  have "pot * rakeBps \<le> pot * 10000" using c by (simp add: mult_left_mono)
  then have r: "0 \<le> rake" "rake \<le> pot" using c by (auto simp: rake_def pos_imp_zdiv_nonneg_iff)
  have n: "0 < n" using c(1) by (simp add: n_def)
  have "rem = (pot - rake) mod n" by (simp add: rem_def base_def minus_div_mult_eq_mod)
  then have rem: "0 \<le> rem" "rem < n" using n by simp_all
  have b: "0 \<le> base" using r n by (simp add: base_def pos_imp_zdiv_nonneg_iff)
  have "map py_amountCents (se_payouts st) = map (\<lambda>(i, x). base + (if int i < rem then 1 else 0)) (enumerate 0 seats)"
    unfolding st by (simp add: comp_def case_prod_unfold)
  then have "(\<Sum>p\<leftarrow>se_payouts st. py_amountCents p) = base * n + max 0 (min n rem)"
    using sum_enumerate[where b = base and rem = rem and k = 0 and xs = seats] by (simp add: n_def)
  then show "(\<Sum>p\<leftarrow>se_payouts st. py_amountCents p) + se_rakeCents st = pot"
    using rem by (simp add: st rem_def)
  show "map py_seat (se_payouts st) = seats"
  proof -
    have "map py_seat (se_payouts st) = map snd (enumerate 0 seats)"
      unfolding st by (simp add: comp_def case_prod_unfold)
    then show ?thesis by simp
  qed
  show "0 \<le> se_rakeCents st" "se_rakeCents st \<le> pot" "0 \<le> pot" "se_rakeCents st = pot * rakeBps div 10000"
    using r c by (simp_all add: st rake_def)
  show "\<forall>p\<in>set (se_payouts st). 0 \<le> py_amountCents p" using b by (auto simp: st)
  show "\<forall>p\<in>set (se_payouts st). py_amountCents p - (pot - se_rakeCents st) div int (length seats) \<in> {0, 1}"
    by (auto simp: st base_def n_def)
qed

text \<open>A settlement splits the pot exactly. It is refused without winners, for a negative pot or
  for a rake rate outside 0 to 10000; otherwise the payouts, one per winning seat in order, and
  the rake add up to the pot, none is negative, the rake is the floor of its share, and any two
  payouts differ by at most one cent.\<close>

theorem computeSettlement_exact:
  "case computeSettlement pot rakeBps seats of
     Inl e \<Rightarrow> seats = [] \<or> pot < 0 \<or> rakeBps < 0 \<or> rakeBps > 10000
   | Inr st \<Rightarrow> (\<Sum>p\<leftarrow>se_payouts st. py_amountCents p) + se_rakeCents st = pot \<and>
       map py_seat (se_payouts st) = seats \<and> se_rakeCents st = pot * rakeBps div 10000 \<and> 0 \<le> se_rakeCents st \<and>
       (\<forall>p\<in>set (se_payouts st). 0 \<le> py_amountCents p) \<and>
       (\<forall>p\<in>set (se_payouts st). \<forall>q\<in>set (se_payouts st). py_amountCents p \<le> py_amountCents q + 1)"
proof (cases "computeSettlement pot rakeBps seats")
  case (Inl e)
  then show ?thesis by (auto simp: computeSettlement_def Let_def split: if_splits)
next
  case (Inr st)
  note c = computeSettlement_pot[OF Inr]
  have "py_amountCents p \<le> py_amountCents q + 1" if "p \<in> set (se_payouts st)" "q \<in> set (se_payouts st)" for p q
  proof -
    let ?b = "(pot - se_rakeCents st) div int (length seats)"
    have "py_amountCents p - ?b \<in> {0, 1}" "py_amountCents q - ?b \<in> {0, 1}" using c(8) that by blast+
    then show ?thesis by auto
  qed
  with Inr c(1-5) show ?thesis by simp
qed

theorem computeSettlement_exact_witness:
  "case computeSettlement 4001 500 [0, 2] of
     Inl e \<Rightarrow> False
   | Inr st \<Rightarrow> map py_amountCents (se_payouts st) = [1901, 1900] \<and> se_rakeCents st = 200 \<and>
       (\<forall>p\<in>set (se_payouts st). \<forall>q\<in>set (se_payouts st). py_amountCents p \<le> py_amountCents q + 1)"
  using computeSettlement_exact[where pot = 4001 and rakeBps = 500 and seats = "[0, 2]"] by (simp add: computeSettlement_def)

subsection \<open>References of a match\<close>

definition match_refs :: "string \<Rightarrow> string set" where
  "match_refs mid = range (payout_ref mid) \<union> {rake_ref mid} \<union> range (refund_ref mid)"

lemma last_colon:
  assumes "a @ CHR '':'' # x = b @ CHR '':'' # y" "CHR '':'' \<notin> set x" "CHR '':'' \<notin> set y"
  shows "a = b \<and> x = y"
proof -
  have "rev x @ CHR '':'' # rev a = rev y @ CHR '':'' # rev b"
    using arg_cong[OF assms(1), of rev] by simp
  moreover have cut: "takeWhile (\<lambda>c. c \<noteq> CHR '':'') (rev z @ CHR '':'' # r) = rev z" if "CHR '':'' \<notin> set z" for z r
    using that by (subst takeWhile_append2) auto
  ultimately have "rev x = rev y" using cut[OF assms(2)] cut[OF assms(3)] by metis
  then show ?thesis using assms(1) by simp
qed

lemma nat_str_colon [simp]: "CHR '':'' \<notin> set (nat_str n)"
  using nat_str_digits by blast

lemma ref_inj [simp]:
  "payout_ref m i = payout_ref m' j \<longleftrightarrow> m = m' \<and> i = j" "refund_ref m i = refund_ref m' j \<longleftrightarrow> m = m' \<and> i = j"
  "rake_ref m = rake_ref m' \<longleftrightarrow> m = m'" "payout_ref m i \<noteq> refund_ref m' j" "refund_ref m i \<noteq> payout_ref m' j"
  "payout_ref m i \<noteq> rake_ref m'" "rake_ref m \<noteq> payout_ref m' i" "refund_ref m i \<noteq> rake_ref m'" "rake_ref m \<noteq> refund_ref m' i"
  "payout_ref m i \<noteq> []" "refund_ref m i \<noteq> []" "rake_ref m \<noteq> []"
  using last_colon[of m "nat_str i" m' "nat_str j"] nat_str_inj
  by (auto simp: payout_ref_def refund_ref_def rake_ref_def)

lemma match_refs_disjoint: "ref \<in> match_refs m \<Longrightarrow> ref \<in> match_refs m' \<Longrightarrow> m = m'"
  by (auto simp: match_refs_def)

definition fresh_refs :: "string \<Rightarrow> ledger \<Rightarrow> bool" where
  "fresh_refs mid l \<longleftrightarrow> (\<forall>row\<in>set (l_rows l). \<forall>ref\<in>match_refs mid. t_providerRef row \<noteq> Some ref)"

lemma fresh_refs_snoc:
  "l_rows l' = l_rows l @ new \<Longrightarrow>
     fresh_refs mid l' \<longleftrightarrow> fresh_refs mid l \<and> (\<forall>row\<in>set new. \<forall>ref\<in>match_refs mid. t_providerRef row \<noteq> Some ref)"
  by (auto simp: fresh_refs_def)

lemma match_sum_append:
  "l_rows l' = l_rows l @ new \<Longrightarrow>
     match_sum l' mid = match_sum l mid + (\<Sum>r\<leftarrow>new. if t_matchId r = Some mid then t_amountCents r else 0)"
  by (simp add: match_sum_def)

subsection \<open>The money of a match\<close>

text \<open>
  A match record is sound when its pot is the sum of the stakes; while the match is active the
  ledger owes exactly the pot and no payout or refund was booked, and once it is closed its rows
  add up to zero. A match that does not exist has no rows.
\<close>

definition record_ok :: "string \<Rightarrow> match_record \<Rightarrow> bool" where
  "record_ok mid r \<longleftrightarrow> r_id r = mid \<and> 0 \<le> r_stakeCents r \<and> r_potCents r = potCents (r_stakeCents r) (length (r_players r)) \<and>
     0 \<le> r_rakeBps r \<and> r_rakeBps r \<le> 10000 \<and> distinct (map mp_seat (r_players r))"

definition match_money_ok :: "ledger \<Rightarrow> string \<Rightarrow> match_record option \<Rightarrow> bool" where
  "match_money_ok l mid found \<longleftrightarrow>
     (case found of
        None \<Rightarrow> fresh_refs mid l \<and> (\<forall>row\<in>set (l_rows l). t_matchId row \<noteq> Some mid)
      | Some r \<Rightarrow> record_ok mid r \<and>
          (if r_status r = ActiveMatch then match_sum l mid = - r_potCents r \<and> fresh_refs mid l
           else match_sum l mid = 0))"

definition money_inv :: "'z money_store_scheme \<Rightarrow> bool" where
  "money_inv s \<longleftrightarrow> books_ok s \<and> (\<forall>mid. match_money_ok (m_ledger s) mid (map_of (m_matches s) mid))"

lemma sum_list_zero: "\<forall>x\<in>set xs. f x = 0 \<Longrightarrow> (\<Sum>x\<leftarrow>xs. f x) = (0 :: int)"
  by (induction xs) auto

text \<open>New rows that belong to one match leave the money of every other match alone.\<close>

definition rows_of :: "string \<Rightarrow> transaction list \<Rightarrow> bool" where
  "rows_of mid new \<longleftrightarrow> (\<forall>row\<in>set new. (t_matchId row = None \<or> t_matchId row = Some mid) \<and>
     (\<forall>m. m \<noteq> mid \<longrightarrow> (\<forall>ref\<in>match_refs m. t_providerRef row \<noteq> Some ref)))"

lemma match_money_other:
  assumes "match_money_ok l m found" "l_rows l' = l_rows l @ new" "rows_of mid new" "m \<noteq> mid"
  shows "match_money_ok l' m found"
proof -
  have "(\<Sum>r\<leftarrow>new. if t_matchId r = Some m then t_amountCents r else 0) = 0"
    by (rule sum_list_zero) (use assms(3,4) in \<open>auto simp: rows_of_def\<close>)
  then have "match_sum l' m = match_sum l m" using match_sum_append[OF assms(2), of m] by simp
  moreover have "fresh_refs m l' = fresh_refs m l"
    using assms(3,4) fresh_refs_snoc[OF assms(2), of m] unfolding rows_of_def by blast
  ultimately show ?thesis using assms
    by (auto simp: match_money_ok_def rows_of_def split: option.splits)
qed

lemma money_inv_update:
  assumes "money_inv s" "books_ok s'" "l_rows (m_ledger s') = l_rows (m_ledger s) @ new" "rows_of mid new"
    and "\<And>m. m \<noteq> mid \<Longrightarrow> map_of (m_matches s') m = map_of (m_matches s) m"
    and "match_money_ok (m_ledger s') mid (map_of (m_matches s') mid)"
  shows "money_inv s'"
proof -
  have "match_money_ok (m_ledger s') m (map_of (m_matches s') m)" for m
    using assms(5)[of m] assms(6) match_money_other[OF _ assms(3,4), of m] assms(1)
    by (cases "m = mid") (auto simp: money_inv_def)
  with assms(2) show ?thesis by (simp add: money_inv_def)
qed

text \<open>Rows outside the matches: no match id and no reference of a match.\<close>

definition external_row :: "transaction \<Rightarrow> bool" where
  "external_row row \<longleftrightarrow> t_matchId row = None \<and> (\<forall>m. \<forall>ref\<in>match_refs m. t_providerRef row \<noteq> Some ref)"

lemma money_inv_external:
  assumes "money_inv s" "books_ok s'" "l_rows (m_ledger s') = l_rows (m_ledger s) @ new"
    and "\<forall>row\<in>set new. external_row row" "m_matches s' = m_matches s"
  shows "money_inv s'"
proof -
  have "match_money_ok (m_ledger s') m (map_of (m_matches s') m)" for m
  proof -
    have "rows_of (m @ ''x'') new" using assms(4) by (auto simp: rows_of_def external_row_def)
    moreover have "match_money_ok (m_ledger s) m (map_of (m_matches s) m)" using assms(1) by (simp add: money_inv_def)
    ultimately show ?thesis using match_money_other[OF _ assms(3), of m _ "m @ ''x''"] assms(5) by simp
  qed
  with assms(2) show ?thesis by (simp add: money_inv_def)
qed

subsection \<open>Escrow, settlement and refund keep the money of every match\<close>

text \<open>The rows a money operation on one match books, and the frame around them.\<close>

definition books_rows :: "string \<Rightarrow> (user_id \<times> cents \<times> string option \<times> string option) list \<Rightarrow>
    'z money_store_scheme \<Rightarrow> 'z money_store_scheme \<Rightarrow> bool" where
  "books_rows mid facts s s' \<longleftrightarrow> books_ok s' \<and> known (m_users s') = known (m_users s) \<and>
     (\<forall>m. m \<noteq> mid \<longrightarrow> map_of (m_matches s') m = map_of (m_matches s) m) \<and>
     (\<exists>new. l_rows (m_ledger s') = l_rows (m_ledger s) @ new \<and> map row_facts new = facts)"

lemma books_rows_balance:
  assumes "books_ok s" "books_rows mid facts s s'" "uid \<in> known (m_users s)"
  shows "getBalance uid s' = getBalance uid s + (\<Sum>f\<leftarrow>facts. if fst f = uid then fst (snd f) else 0)"
proof -
  obtain new where n: "books_ok s'" "known (m_users s') = known (m_users s)"
    "l_rows (m_ledger s') = l_rows (m_ledger s) @ new" "map row_facts new = facts"
    using assms(2) unfolding books_rows_def by blast
  have "(\<Sum>f\<leftarrow>facts. if fst f = uid then fst (snd f) else 0) =
      (\<Sum>r\<leftarrow>new. if t_userId r = uid then t_amountCents r else 0)"
    unfolding n(4)[symmetric] by (simp add: row_facts_def comp_def cong: if_cong)
  moreover have "user_sum (m_ledger s') uid = user_sum (m_ledger s) uid +
      (\<Sum>r\<leftarrow>new. if t_userId r = uid then t_amountCents r else 0)"
    by (simp add: user_sum_def n(3))
  ultimately show ?thesis
    using books_ok_balance[OF assms(1,3)] books_ok_balance[OF n(1), of uid] n(2) assms(3)
    by (simp add: getBalance_eq)
qed

lemma books_rows_match_rows:
  assumes "books_rows mid facts s s'" "m \<noteq> mid" "\<forall>f\<in>set facts. fst (snd (snd f)) = Some mid"
  shows "filter (\<lambda>r. t_matchId r = Some m) (l_rows (m_ledger s')) = filter (\<lambda>r. t_matchId r = Some m) (l_rows (m_ledger s))"
proof -
  obtain new where n: "l_rows (m_ledger s') = l_rows (m_ledger s) @ new" "map row_facts new = facts"
    using assms(1) unfolding books_rows_def by blast
  have "\<forall>r\<in>set new. t_matchId r = Some mid" using assms(3) n(2) by (auto simp: row_facts_def)
  with assms(2) show ?thesis by (simp add: n(1) filter_empty_conv)
qed

lemma debit_all:
  assumes "books_ok s"
    and "for_each (\<lambda>p. ignore_act (debit w (mp_userId p) stake (stake_debit mid) now)) ps s = (Inr u, s')"
  shows "books_ok s' \<and> only_books s s' \<and> (\<exists>new. l_rows (m_ledger s') = l_rows (m_ledger s) @ new \<and>
    map (\<lambda>r. (t_userId r, t_amountCents r, t_matchId r, t_providerRef r)) new =
      map (\<lambda>p. (mp_userId p, - stake, Some mid, None)) ps)"
  using assms
proof (induction ps arbitrary: s)
  case Nil
  then show ?case by (auto simp: return_act_def)
next
  case (Cons p ps)
  obtain m x where m: "debit w (mp_userId p) stake (stake_debit mid) now s = (Inr x, m)"
    "for_each (\<lambda>p. ignore_act (debit w (mp_userId p) stake (stake_debit mid) now)) ps m = (Inr u, s')"
    using Cons.prems(2) unfolding for_each_Cons_Inr ignore_act_Inr by blast
  let ?row = "new_row (Suc (l_seq (m_ledger s))) (debit_row (mp_userId p) stake (stake_debit mid)) now"
  have "posted ?row s m"
    by (rule debit_cases[OF Cons.prems(1), of stake w "mp_userId p" "stake_debit mid" now]) (use m(1) in auto)
  then have r: "books_ok m" "only_books s m" "l_rows (m_ledger m) = l_rows (m_ledger s) @ [?row]"
    by (simp_all add: posted_def)
  from Cons.IH[OF r(1) m(2)] obtain new where n: "books_ok s'" "only_books m s'"
    "l_rows (m_ledger s') = l_rows (m_ledger m) @ new"
    "map (\<lambda>r. (t_userId r, t_amountCents r, t_matchId r, t_providerRef r)) new =
      map (\<lambda>p. (mp_userId p, - stake, Some mid, None)) ps" by blast
  have "only_books s s'" using r(2) n(2) by (rule only_books_trans)
  with n r(3) show ?case by (intro conjI exI[of _ "?row # new"]) (simp_all add: stake_debit_def)
qed

lemma bind_writes_Inr:
  "bind_act (\<lambda>s. (Inr (), f s)) k s = (Inr u, s') \<longleftrightarrow> k () (f s) = (Inr u, s')"
  "bind_act m (\<lambda>_ s. (Inr (), f s)) s = (Inr (), s') \<longleftrightarrow> (\<exists>x t. m s = (Inr x, t) \<and> s' = f t)"
  by (auto simp: bind_act_def split: prod.splits sum.splits)

lemma books_ok_matches [simp]: "books_ok (s\<lparr>m_matches := ms\<rparr>) = books_ok s"
  by (simp add: books_ok_def)

lemma map_eq_facts:
  assumes "map f new = map g ps" "\<And>p. p \<in> set ps \<Longrightarrow> P (g p)"
  shows "\<forall>row\<in>set new. P (f row)"
proof
  fix row
  assume "row \<in> set new"
  then have "f row \<in> set (map f new)" by simp
  then have "f row \<in> g ` set ps" unfolding assms(1) by simp
  with assms(2) show "P (f row)" by auto
qed

lemma sum_map_facts:
  assumes "map f new = map g ps" "\<And>x. h (f x) = h' x"
  shows "(\<Sum>r\<leftarrow>new. h' r) = (\<Sum>p\<leftarrow>ps. h (g p))"
proof -
  have "map h' new = map h (map f new)" using assms(2) by simp
  then show ?thesis by (simp add: assms(1) comp_def)
qed

lemma escrow_writes_inv:
  assumes "money_inv s" "map_of (m_matches s) mid = None" "0 \<le> stake" "0 \<le> rakeBps" "rakeBps \<le> 10000"
    and "distinct (map mp_seat players)" "escrow_writes mid ty stake rakeBps players now w s = (Inr u, s')"
  shows "money_inv s'"
    "books_rows mid (map (\<lambda>p. (mp_userId p, - stake, Some mid, None)) (if stake > 0 then players else [])) s s'"
    "m_matches s' = matches_create mid ty stake rakeBps (potCents stake (length players)) players now (m_matches s)"
proof -
  let ?ms = "matches_create mid ty stake rakeBps (potCents stake (length players)) players now (m_matches s)"
  let ?s = "s\<lparr>m_matches := ?ms\<rparr>"
  have b: "books_ok ?s" using assms(1) by (simp add: money_inv_def)
  have k: "(if stake > 0 then for_each (\<lambda>p. ignore_act (debit w (mp_userId p) stake (stake_debit mid) now)) players
      else return_act ()) ?s = (Inr u, s')"
    using assms(7) by (simp add: escrow_writes_def bind_writes_Inr)
  obtain new where n: "books_ok s'" "only_books ?s s'" "l_rows (m_ledger s') = l_rows (m_ledger s) @ new"
    "map (\<lambda>r. (t_userId r, t_amountCents r, t_matchId r, t_providerRef r)) new =
      map (\<lambda>p. (mp_userId p, - stake, Some mid, None)) (if stake > 0 then players else [])"
  proof (cases "stake > 0")
    case True
    with k debit_all[OF b, of w stake mid now players u s'] show thesis using that by auto
  next
    case False
    with k have "s' = ?s" by (simp add: return_act_def)
    with False b show thesis using that[of "[]"] by simp
  qed
  have f: "\<forall>row\<in>set new. t_matchId row = Some mid \<and> t_providerRef row = None"
    using map_eq_facts[OF n(4), of "\<lambda>(_, _, m, r). m = Some mid \<and> r = None"] by auto
  have "(\<Sum>r\<leftarrow>new. if t_matchId r = Some mid then t_amountCents r else 0) =
      (\<Sum>p\<leftarrow>(if stake > 0 then players else []). - stake)"
    using sum_map_facts[OF n(4), of "\<lambda>(_, a, m, _). if m = Some mid then a else 0"] by simp
  then have "match_sum (m_ledger s') mid = match_sum (m_ledger s) mid - potCents stake (length players)"
    using match_sum_append[OF n(3), of mid] assms(3) by (simp add: potCents_def sum_list_triv)
  moreover have old: "fresh_refs mid (m_ledger s)" "\<forall>row\<in>set (l_rows (m_ledger s)). t_matchId row \<noteq> Some mid"
    using assms(1,2) by (auto simp: money_inv_def match_money_ok_def dest!: spec[of _ mid])
  moreover have "match_sum (m_ledger s) mid = 0" unfolding match_sum_def
    by (rule sum_list_zero) (use old(2) in auto)
  moreover have "fresh_refs mid (m_ledger s')" using old(1) f by (auto simp: fresh_refs_snoc[OF n(3)])
  moreover have ms: "m_matches s' = ?ms" using only_books_frame(1)[OF n(2)] by simp
  ultimately have "match_money_ok (m_ledger s') mid (map_of (m_matches s') mid)"
    using assms(3-6) by (simp add: matches_create_def match_money_ok_def record_ok_def update_conv')
  moreover have oth: "map_of (m_matches s') m = map_of (m_matches s) m" if "m \<noteq> mid" for m
    using that by (simp add: ms matches_create_def update_conv')
  ultimately show "money_inv s'" using f
    by (intro money_inv_update[OF assms(1) n(1,3)]) (auto simp: rows_of_def)
  show "m_matches s' = ?ms" by (fact ms)
  show "books_rows mid (map (\<lambda>p. (mp_userId p, - stake, Some mid, None)) (if stake > 0 then players else [])) s s'"
    unfolding books_rows_def
  proof (intro conjI allI impI exI)
    show "map row_facts new = map (\<lambda>p. (mp_userId p, - stake, Some mid, None)) (if stake > 0 then players else [])"
      using n(4) unfolding row_facts_def .
  qed (use n oth only_books_frame(4)[OF n(2)] in simp_all)
qed

text \<open>What settlement and refund credit, as a list for the shared payment loop.\<close>

definition settle_payments :: "match_record \<Rightarrow> settlement \<Rightarrow> (user_id \<times> cents \<times> credit_options) list" where
  "settle_payments r st =
     map (\<lambda>p. (the (map_of (seatToUser r) (py_seat p)), py_amountCents p,
               match_credit (r_id r) ''winnings'' (payout_ref (r_id r) (py_seat p))))
       (filter (\<lambda>p. py_amountCents p > 0) (se_payouts st))"

definition refund_payments :: "match_record \<Rightarrow> (user_id \<times> cents \<times> credit_options) list" where
  "refund_payments r =
     map (\<lambda>p. (mp_userId p, r_stakeCents r, match_credit (r_id r) ''refund'' (refund_ref (r_id r) (mp_seat p))))
       (r_players r)"

lemma for_each_map: "for_each f (map g xs) = for_each (\<lambda>x. f (g x)) xs"
  by (induction xs) auto

text \<open>Paying a list under distinct references of one match keeps every other match alone.\<close>

lemma pay_match:
  assumes "money_inv s" "for_each (\<lambda>p. ignore_act (credit w (fst p) (fst (snd p)) (snd (snd p)) now)) ps s = (Inr u, s')"
    and "\<forall>p\<in>set ps. \<exists>ref. ref \<in> match_refs mid \<and> co_providerRef (snd (snd p)) = Some ref \<and> co_matchId (snd (snd p)) = Some mid"
    and "distinct (map (\<lambda>p. co_providerRef (snd (snd p))) ps)" "fresh_refs mid (m_ledger s)"
  obtains new where "books_ok s'" "only_books s s'" "l_rows (m_ledger s') = l_rows (m_ledger s) @ new"
    "rows_of mid new" "\<forall>row\<in>set new. t_matchId row = Some mid"
    "(\<Sum>r\<leftarrow>new. t_amountCents r) = (\<Sum>p\<leftarrow>ps. fst (snd p))" "map row_facts new = map pay_facts ps"
proof -
  have refs: "ref \<noteq> []" if "ref \<in> match_refs mid" for ref
    using that by (auto simp: match_refs_def payout_ref_def rake_ref_def refund_ref_def)
  have fresh: "\<forall>p\<in>set ps. \<forall>r\<in>set (l_rows (m_ledger s)). t_providerRef r \<noteq> co_providerRef (snd (snd p))"
    using assms(3,5) unfolding fresh_refs_def by metis
  have "books_ok s" using assms(1) by (simp add: money_inv_def)
  moreover have "\<forall>p\<in>set ps. \<exists>ref. co_providerRef (snd (snd p)) = Some ref \<and> ref \<noteq> []" using assms(3) refs by blast
  ultimately obtain new where n: "books_ok s'" "only_books s s'" "l_rows (m_ledger s') = l_rows (m_ledger s) @ new"
    "map row_facts new = map pay_facts ps"
    using wpay.pay_all[OF _ assms(2) _ assms(4) fresh] by blast
  have facts: "\<forall>row\<in>set new. (\<lambda>(_, _, m, ref). m = Some mid \<and> (\<exists>x\<in>match_refs mid. ref = Some x)) (row_facts row)"
    by (rule map_eq_facts[OF n(4)]) (use assms(3) in \<open>fastforce simp: pay_facts_def\<close>)
  have "rows_of mid new" unfolding rows_of_def
  proof (intro ballI conjI allI impI)
    fix row m ref
    assume "row \<in> set new" "m \<noteq> mid" "ref \<in> match_refs m"
    with facts show "t_providerRef row \<noteq> Some ref"
      by (auto simp: row_facts_def dest!: bspec[of _ _ row]) (use match_refs_disjoint in blast)
  qed (use facts in \<open>auto simp: row_facts_def\<close>)
  moreover have "(\<Sum>r\<leftarrow>new. t_amountCents r) = (\<Sum>p\<leftarrow>ps. fst (snd p))"
    using sum_map_facts[OF n(4), of "\<lambda>(_, a, _, _). a" t_amountCents] by (simp add: row_facts_def pay_facts_def)
  moreover have "\<forall>row\<in>set new. t_matchId row = Some mid" using facts by (auto simp: row_facts_def)
  ultimately show thesis using n that by blast
qed

lemma match_sum_own:
  assumes "l_rows l' = l_rows l @ new" "\<forall>row\<in>set new. t_matchId row = Some mid"
  shows "match_sum l' mid = match_sum l mid + (\<Sum>r\<leftarrow>new. t_amountCents r)"
proof -
  have "map (\<lambda>r. if t_matchId r = Some mid then t_amountCents r else 0) new = map t_amountCents new"
    using assms(2) by simp
  then show ?thesis using match_sum_append[OF assms(1), of mid] by metis
qed

lemma refund_writes_inv:
  assumes "money_inv s" "map_of (m_matches s) mid = Some r" "r_status r = ActiveMatch"
    and "refund_writes r now w s = (Inr u, s')"
  shows "money_inv s'" "\<exists>r'. map_of (m_matches s') mid = Some r' \<and> r_status r' = Cancelled"
    "books_rows mid (map pay_facts (if r_stakeCents r > 0 then refund_payments r else [])) s s'"
proof -
  have r: "record_ok mid r" "match_sum (m_ledger s) mid = - r_potCents r" "fresh_refs mid (m_ledger s)"
    using assms(1-3) by (auto simp: money_inv_def match_money_ok_def dest!: spec[of _ mid])
  then have rid: "r_id r = mid" and pot: "0 \<le> r_stakeCents r"
    "r_potCents r = r_stakeCents r * int (length (r_players r))" "distinct (map mp_seat (r_players r))"
    by (auto simp: record_ok_def potCents_def)
  let ?ps = "if r_stakeCents r > 0 then refund_payments r else []"
  obtain t where t: "for_each (\<lambda>p. ignore_act (credit w (fst p) (fst (snd p)) (snd (snd p)) now)) ?ps s = (Inr (), t)"
    "s' = t\<lparr>m_matches := markCancelled mid now (m_matches t)\<rparr>"
    using assms(4) by (auto simp: refund_writes_def bind_writes_Inr refund_payments_def for_each_map rid split: if_splits)
  have dist: "distinct (map (\<lambda>p. co_providerRef (snd (snd p))) ?ps)"
    using pot(3) by (auto simp: refund_payments_def match_credit_def comp_def distinct_map inj_on_def rid)
  have refs: "\<forall>p\<in>set ?ps. \<exists>ref. ref \<in> match_refs mid \<and> co_providerRef (snd (snd p)) = Some ref \<and> co_matchId (snd (snd p)) = Some mid"
    by (auto simp: refund_payments_def match_credit_def match_refs_def rid)
  obtain new where n: "books_ok t" "only_books s t" "l_rows (m_ledger t) = l_rows (m_ledger s) @ new"
    "rows_of mid new" "\<forall>row\<in>set new. t_matchId row = Some mid"
    "(\<Sum>r\<leftarrow>new. t_amountCents r) = (\<Sum>p\<leftarrow>?ps. fst (snd p))" "map row_facts new = map pay_facts ?ps"
    by (rule pay_match[OF assms(1) t(1) refs dist r(3)])
  have "(\<Sum>p\<leftarrow>?ps. fst (snd p)) = r_potCents r"
    using pot by (auto simp: refund_payments_def comp_def sum_list_triv)
  then have z: "match_sum (m_ledger s') mid = 0" using match_sum_own[OF n(3,5)] r(2) n(6) t(2) by simp
  have mt: "m_matches t = m_matches s" using only_books_frame(1)[OF n(2)] .
  have now: "map_of (m_matches s') = (map_of (m_matches s))(mid \<mapsto> r\<lparr>r_status := Cancelled, r_endedAt := Some now\<rparr>)"
    using assms(2,3) by (simp add: t(2) mt map_of_markCancelled)
  then show "\<exists>r'. map_of (m_matches s') mid = Some r' \<and> r_status r' = Cancelled" by simp
  have "known (m_users s') = known (m_users s)" using only_books_frame(4)[OF n(2)] by (simp add: t(2))
  then show "books_rows mid (map pay_facts ?ps) s s'" using n t(2) now by (auto simp: books_rows_def)
  show "money_inv s'"
    by (rule money_inv_update[OF assms(1), of s' new mid])
       (use n t(2) now z r(1) in \<open>auto simp: match_money_ok_def record_ok_def\<close>)
qed

lemma settle_writes_inv:
  assumes "money_inv s" "map_of (m_matches s) mid = Some r" "r_status r = ActiveMatch" "distinct winnerSeats"
    and "computeSettlement (r_potCents r) (r_rakeBps r) winnerSeats = Inr st"
    and "settle_writes r winnerSeats st now w s = (Inr u, s')"
  shows "money_inv s'" "\<exists>r'. map_of (m_matches s') mid = Some r' \<and> r_status r' = Settled"
    "books_rows mid (map pay_facts (if r_potCents r > 0 then settle_payments r st else []) @
       (if r_potCents r > 0 \<and> se_rakeCents st > 0
        then [(HOUSE_ACCOUNT_ID, se_rakeCents st, Some mid, Some (rake_ref mid))] else [])) s s'"
proof -
  have r: "record_ok mid r" "match_sum (m_ledger s) mid = - r_potCents r" "fresh_refs mid (m_ledger s)"
    using assms(1-3) by (auto simp: money_inv_def match_money_ok_def dest!: spec[of _ mid])
  then have rid: "r_id r = mid" by (simp add: record_ok_def)
  note c = computeSettlement_pot[OF assms(5)]
  let ?ps = "if r_potCents r > 0 then settle_payments r st else []"
  obtain t v where t: "for_each (\<lambda>p. ignore_act (credit w (fst p) (fst (snd p)) (snd (snd p)) now)) ?ps s = (Inr (), t)"
    "(if r_potCents r > 0 \<and> se_rakeCents st > 0
      then ignore_act (recordRake w (se_rakeCents st) (Some mid) None (Some (rake_ref mid)) now) else return_act ()) t = (Inr (), v)"
    "s' = v\<lparr>m_matches := markSettled mid winnerSeats now (m_matches v)\<rparr>"
    using assms(6) by (auto simp: settle_writes_def bind_writes_Inr bind_act_Inr for_each_filter settle_payments_def
        for_each_map rid return_act_def split: if_splits)
  have "distinct (map py_seat (filter (\<lambda>p. py_amountCents p > 0) (se_payouts st)))"
    using assms(4) c(2) by (metis distinct_map_filter)
  then have dist: "distinct (map (\<lambda>p. co_providerRef (snd (snd p))) ?ps)"
    by (auto simp: settle_payments_def match_credit_def comp_def distinct_map inj_on_def rid)
  have refs: "\<forall>p\<in>set ?ps. \<exists>ref. ref \<in> match_refs mid \<and> co_providerRef (snd (snd p)) = Some ref \<and> co_matchId (snd (snd p)) = Some mid"
    by (auto simp: settle_payments_def match_credit_def match_refs_def rid)
  obtain new where n: "books_ok t" "only_books s t" "l_rows (m_ledger t) = l_rows (m_ledger s) @ new"
    "rows_of mid new" "\<forall>row\<in>set new. t_matchId row = Some mid"
    "(\<Sum>r\<leftarrow>new. t_amountCents r) = (\<Sum>p\<leftarrow>?ps. fst (snd p))" "map row_facts new = map pay_facts ?ps"
    by (rule pay_match[OF assms(1) t(1) refs dist r(3)])
  have paid: "(\<Sum>p\<leftarrow>settle_payments r st. fst (snd p)) = r_potCents r - se_rakeCents st"
  proof -
    have flt: "(\<Sum>p\<leftarrow>filter (\<lambda>p. py_amountCents p > 0) ps. py_amountCents p) = (\<Sum>p\<leftarrow>ps. py_amountCents p)"
      if "\<forall>p\<in>set ps. 0 \<le> py_amountCents p" for ps using that by (induction ps) auto
    show ?thesis using flt[OF c(4)] c(1) by (simp add: settle_payments_def comp_def)
  qed
  have norake: "\<forall>row\<in>set new. t_providerRef row \<noteq> Some (rake_ref mid)"
  proof -
    have "\<forall>row\<in>set new. (\<lambda>(_, _, _, ref). ref \<noteq> Some (rake_ref mid)) (row_facts row)"
      by (rule map_eq_facts[OF n(7)]) (auto simp: settle_payments_def match_credit_def pay_facts_def rid)
    then show ?thesis by (simp add: row_facts_def)
  qed
  obtain more where m: "books_ok v" "only_books t v" "l_rows (m_ledger v) = l_rows (m_ledger t) @ more"
    "rows_of mid more" "\<forall>row\<in>set more. t_matchId row = Some mid"
    "(\<Sum>r\<leftarrow>more. t_amountCents r) = (if r_potCents r > 0 then se_rakeCents st else 0)"
    "map row_facts more = (if r_potCents r > 0 \<and> se_rakeCents st > 0
        then [(HOUSE_ACCOUNT_ID, se_rakeCents st, Some mid, Some (rake_ref mid))] else [])"
  proof (cases "r_potCents r > 0 \<and> se_rakeCents st > 0")
    case True
    then obtain tx where "recordRake w (se_rakeCents st) (Some mid) None (Some (rake_ref mid)) now t = (Inr tx, v)"
      using t(2) unfolding ignore_act_Inr by (simp add: ignore_act_Inr) blast
    then show thesis
    proof (rule recordRake_ok[OF n(1)])
      assume "findByProviderRef (the (Some (rake_ref mid))) (m_ledger t) = Some tx"
      then have "\<exists>row\<in>set (l_rows (m_ledger s) @ new). t_providerRef row = Some (rake_ref mid)"
        using findByProviderRef_iff[of "m_ledger t"] n(1,3) by (auto simp: books_ok_def has_ref_def)
      with norake r(3) show thesis by (auto simp: fresh_refs_def match_refs_def)
    next
      assume "posted tx t v" "tx = new_row (Suc (l_seq (m_ledger t)))
          (rake_row (se_rakeCents st) (Some mid) None (real_ref (Some (rake_ref mid)))) now"
      moreover from this(2) have "rows_of mid [tx]" "t_matchId tx = Some mid" "t_amountCents tx = se_rakeCents st"
        "row_facts tx = (HOUSE_ACCOUNT_ID, se_rakeCents st, Some mid, Some (rake_ref mid))"
        by (auto simp: rows_of_def real_ref_def truthy_def match_refs_def row_facts_def)
      ultimately show thesis using that[of "[tx]"] True by (simp add: posted_def)
    qed
  next
    case False
    with t(2) have "v = t" by (auto simp: return_act_def)
    with False n(1) c(3) show thesis using that[of "[]"] by (auto simp: rows_of_def)
  qed
  have rows: "l_rows (m_ledger s') = l_rows (m_ledger s) @ (new @ more)" using n(3) m(3) t(3) by simp
  have "(\<Sum>r\<leftarrow>new @ more. t_amountCents r) = r_potCents r" using n(6) m(6) paid c(6) by auto
  then have z: "match_sum (m_ledger s') mid = 0"
    using match_sum_own[OF rows, of mid] r(2) n(5) m(5) by auto
  have mt: "m_matches v = m_matches s" using only_books_frame(1)[OF n(2)] only_books_frame(1)[OF m(2)] by simp
  have now: "map_of (m_matches s') =
      (map_of (m_matches s))(mid \<mapsto> r\<lparr>r_status := Settled, r_winnerSeats := Some winnerSeats, r_endedAt := Some now\<rparr>)"
    using assms(2,3) by (simp add: t(3) mt map_of_markSettled)
  then show "\<exists>r'. map_of (m_matches s') mid = Some r' \<and> r_status r' = Settled" by simp
  have kn: "known (m_users s') = known (m_users s)"
    using only_books_frame(4)[OF n(2)] only_books_frame(4)[OF m(2)] by (simp add: t(3))
  show "books_rows mid (map pay_facts ?ps @ (if r_potCents r > 0 \<and> se_rakeCents st > 0
        then [(HOUSE_ACCOUNT_ID, se_rakeCents st, Some mid, Some (rake_ref mid))] else [])) s s'"
    unfolding books_rows_def
  proof (intro conjI exI)
    show "map row_facts (new @ more) = map pay_facts ?ps @ (if r_potCents r > 0 \<and> se_rakeCents st > 0
        then [(HOUSE_ACCOUNT_ID, se_rakeCents st, Some mid, Some (rake_ref mid))] else [])"
      by (simp only: map_append n(7) m(7))
  qed (use rows now m(1) t(3) kn in auto)
  show "money_inv s'"
    by (rule money_inv_update[OF assms(1) _ rows, of mid])
       (use n m t(3) now z r(1) in \<open>auto simp: match_money_ok_def record_ok_def rows_of_def\<close>)
qed

subsection \<open>Histories of money operations\<close>

datatype money_op =
  WalletOp wallet_op
| EscrowOp string match_type cents int "match_player list"
| SettleOp string "seat list"
| RefundOp string
| RecoverOp "string set"

fun money_step :: "('z money_store_scheme \<Rightarrow> 'z money_store_scheme \<Rightarrow> 'z money_store_scheme) \<Rightarrow>
    'z money_store_scheme \<Rightarrow> money_op \<times> int \<Rightarrow> 'z money_store_scheme" where
  "money_step uow s (WalletOp op, now) = wallet_step uow s (op, now)"
| "money_step uow s (EscrowOp mid ty stake rakeBps players, now) =
     snd (escrow (tx_wallet uow) (Some uow) {} mid ty stake rakeBps players now s)"
| "money_step uow s (SettleOp mid seats, now) = snd (settle (tx_wallet uow) (Some uow) {} mid seats now s)"
| "money_step uow s (RefundOp mid, now) = snd (refund (tx_wallet uow) (Some uow) {} mid now s)"
| "money_step uow s (RecoverOp live, now) = snd (recoverOrphanedMatches (tx_wallet uow) (Some uow) {} live now s)"

text \<open>
  What the callers guarantee: wallet movements outside the money service name no match and no
  reference of a match; a match is opened with a non-negative stake, a valid rake rate and one
  player per seat; the winner seats reported are distinct.
\<close>

definition external_ref :: "string option \<Rightarrow> bool" where
  "external_ref ref \<longleftrightarrow> (\<forall>m. \<forall>x\<in>match_refs m. ref \<noteq> Some x)"

fun proper_op :: "money_op \<Rightarrow> bool" where
  "proper_op (WalletOp op) = (op_match op = None \<and> external_ref (op_ref op))"
| "proper_op (EscrowOp mid ty stake rakeBps players) =
     (0 \<le> stake \<and> 0 \<le> rakeBps \<and> rakeBps \<le> 10000 \<and> distinct (map mp_seat players))"
| "proper_op (SettleOp mid seats) = distinct seats"
| "proper_op _ = True"

lemma external_ref_None [simp]: "external_ref None"
  by (simp add: external_ref_def)

lemma external_inv: "money_inv s \<Longrightarrow> appends external_row s s' \<Longrightarrow> money_inv s'"
  using money_inv_external unfolding appends_def by blast

lemma wallet_step_external:
  assumes "rolls_back uow" "books_ok s" "proper_op (WalletOp op)"
  shows "appends external_row s (wallet_step uow s (op, now))"
  by (rule appends_mono[OF wallet_step_appends[OF assms(1,2)]])
     (use assms(3) in \<open>auto simp: row_from_def external_row_def external_ref_def\<close>)

lemma runAtomic_tx [simp]: "runAtomic w (Some uow) fn = transaction_in uow (fn bind_wallet)"
  by (simp add: runAtomic_def fun_eq_iff)

lemma transaction_cases:
  assumes "rolls_back uow"
  obtains (aborted) e where "transaction_in uow fn s = (Inl e, s)"
  | (committed) x s' where "transaction_in uow fn s = (Inr x, s')" "fn s = (Inr x, s')"
proof (cases "transaction_in uow fn s")
  case (Pair r s')
  then show thesis using transaction_Inl[OF assms, of fn s] by (cases r) (auto intro: aborted committed)
qed

text \<open>Escrow either charges everybody and opens the match, or changes nothing.\<close>

lemma escrow_cases:
  fixes s :: "'z money_store_scheme"
  assumes "rolls_back uow"
  obtains (unchanged) "snd (escrow w (Some uow) {} mid ty stake rakeBps players now s) = s"
      "\<And>r. fst (escrow w (Some uow) {} mid ty stake rakeBps players now s) = Inr r \<Longrightarrow> er_ok r \<Longrightarrow>
         map_of (m_matches s) mid \<noteq> None"
  | (opened) s' where "map_of (m_matches s) mid = None"
      "escrow_writes mid ty stake rakeBps players now bind_wallet s = (Inr (), s')"
      "escrow w (Some uow) {} mid ty stake rakeBps players now s =
         (Inr \<lparr>er_ok = True, er_potCents = potCents stake (length players), er_code = None, er_insufficientUserIds = []\<rparr>, s')"
proof (cases "map_of (m_matches s) mid")
  case (Some r)
  then show thesis by (intro unchanged) (simp_all add: escrow_def escrowLocked_def matches_find_def)
next
  case None
  let ?ins = "if stake > 0 then map mp_userId (filter (\<lambda>p. getBalance (mp_userId p) s < stake) players) else []"
  show thesis
  proof (cases "?ins = []")
    case False
    then show thesis using None by (intro unchanged) (auto simp: escrow_def escrowLocked_def matches_find_def Let_def)
  next
    case True
    note e = escrow_def escrowLocked_def matches_find_def Let_def
    consider (aborted) e where "transaction_in uow (escrow_writes mid ty stake rakeBps players now bind_wallet) s = (Inl e, s)"
      | (committed) x s' where "transaction_in uow (escrow_writes mid ty stake rakeBps players now bind_wallet) s = (Inr x, s')" "escrow_writes mid ty stake rakeBps players now bind_wallet s = (Inr x, s')"
      by (rule transaction_cases[OF assms])
    then show thesis
    proof cases
      case (aborted err)
      then show thesis using True None by (intro unchanged; cases err) (auto simp: e split: if_splits)
    next
      case (committed x s')
      then show thesis using True None by (intro opened[of s']) (simp_all add: e split: if_splits del: transaction_Inr)
    qed
  qed
qed

lemma seated_winners_distinct: "distinct seats \<Longrightarrow> distinct (seated_winners r seats)"
  by (simp add: seated_winners_def)

lemma settle_cases:
  assumes "rolls_back uow"
  obtains (unchanged) "snd (settle w (Some uow) {} mid seats now s) = s"
      "\<And>st. fst (settle w (Some uow) {} mid seats now s) \<noteq> Inr (Some st)"
  | (settled) r st s' where "map_of (m_matches s) mid = Some r" "r_status r = ActiveMatch"
      "computeSettlement (r_potCents r) (r_rakeBps r) (seated_winners r seats) = Inr st"
      "settle_writes r (seated_winners r seats) st now bind_wallet s = (Inr (), s')"
      "settle w (Some uow) {} mid seats now s = (Inr (Some st), s')"
proof (cases "map_of (m_matches s) mid")
  case None
  then show thesis by (intro unchanged) (simp_all add: settle_def settle_record_def matches_find_def)
next
  case (Some r)
  let ?seats = "seated_winners r seats"
  note e = settle_def settle_record_def matches_find_def Let_def
  show thesis
  proof (cases "r_status r = ActiveMatch \<and> ?seats \<noteq> []")
    case False
    then show thesis using Some by (intro unchanged) (auto simp: e)
  next
    case act: True
    show thesis
    proof (cases "computeSettlement (r_potCents r) (r_rakeBps r) ?seats")
      case (Inl err)
      then show thesis using Some act by (intro unchanged) (auto simp: e)
    next
      case (Inr st)
      consider (aborted) e where "transaction_in uow (settle_writes r ?seats st now bind_wallet) s = (Inl e, s)"
        | (committed) x s' where "transaction_in uow (settle_writes r ?seats st now bind_wallet) s = (Inr x, s')" "settle_writes r ?seats st now bind_wallet s = (Inr x, s')"
        by (rule transaction_cases[OF assms])
      then show thesis
      proof cases
        case (aborted err)
        then show thesis using Some act Inr by (intro unchanged) (auto simp: e)
      next
        case (committed x s')
        then show thesis using Some act Inr by (intro settled[of r st s']) (auto simp: e simp del: transaction_Inr)
      qed
    qed
  qed
qed

lemma refund_cases:
  assumes "rolls_back uow"
  obtains (unchanged) "snd (refund w (Some uow) {} mid now s) = s"
  | (refunded) r s' where "map_of (m_matches s) mid = Some r" "r_status r = ActiveMatch"
      "refund_writes r now bind_wallet s = (Inr (), s')" "refund w (Some uow) {} mid now s = (Inr (), s')"
proof (cases "map_of (m_matches s) mid")
  case None
  then show thesis by (intro unchanged) (simp add: refund_def refund_record_def matches_find_def)
next
  case (Some r)
  note e = refund_def refund_record_def matches_find_def
  show thesis
  proof (cases "r_status r = ActiveMatch")
    case False
    then show thesis using Some by (intro unchanged) (simp add: e)
  next
    case True
    consider (aborted) e where "transaction_in uow (refund_writes r now bind_wallet) s = (Inl e, s)"
      | (committed) x s' where "transaction_in uow (refund_writes r now bind_wallet) s = (Inr x, s')" "refund_writes r now bind_wallet s = (Inr x, s')"
      by (rule transaction_cases[OF assms])
    then show thesis
    proof cases
      case (aborted err)
      then show thesis using Some True by (intro unchanged) (simp add: e)
    next
      case (committed x s')
      then show thesis using Some True by (intro refunded[of r s']) (auto simp: e)
    qed
  qed
qed

lemma refund_inv: "rolls_back uow \<Longrightarrow> money_inv s \<Longrightarrow> money_inv (snd (refund w (Some uow) {} mid now s))"
  by (rule refund_cases[of uow w mid now s]) (auto intro: refund_writes_inv(1))

lemma refund_each_inv:
  assumes "rolls_back uow" "money_inv s"
  shows "money_inv (snd (refund_each w (Some uow) {} live now ms refunded s))"
  using assms(2)
proof (induction ms arbitrary: refunded s)
  case (Cons m ms)
  have "money_inv (snd (refund w (Some uow) {} (r_id m) now s))" by (rule refund_inv[OF assms(1) Cons.prems])
  with Cons show ?case by (auto split: prod.split sum.split)
qed simp

lemma money_step_inv:
  assumes "rolls_back uow" "money_inv s" "proper_op op"
  shows "money_inv (money_step uow s (op, now))"
proof (cases op)
  case (WalletOp wop)
  have "books_ok s" using assms(2) by (simp add: money_inv_def)
  then show ?thesis using WalletOp external_inv[OF assms(2) wallet_step_external[OF assms(1)]] assms(3) by simp
next
  case (EscrowOp mid ty stake rakeBps players)
  then show ?thesis using assms(2,3)
    by (cases rule: escrow_cases[OF assms(1), of "tx_wallet uow" mid ty stake rakeBps players now s])
       (auto intro: escrow_writes_inv)
next
  case (SettleOp mid seats)
  have "money_inv (snd (settle (tx_wallet uow) (Some uow) {} mid seats now s))"
  proof (rule settle_cases[OF assms(1), of "tx_wallet uow" mid seats now s])
    fix r st s'
    assume "map_of (m_matches s) mid = Some r" "r_status r = ActiveMatch"
      "computeSettlement (r_potCents r) (r_rakeBps r) (seated_winners r seats) = Inr st"
      "settle_writes r (seated_winners r seats) st now bind_wallet s = (Inr (), s')"
      and s': "settle (tx_wallet uow) (Some uow) {} mid seats now s = (Inr (Some st), s')"
    then have "money_inv s'"
      using settle_writes_inv(1)[OF assms(2)] seated_winners_distinct assms(3) SettleOp by (metis proper_op.simps(3))
    with s' show ?thesis by simp
  qed (use assms(2) in simp)
  with SettleOp show ?thesis by simp
next
  case (RefundOp mid)
  then show ?thesis using refund_inv[OF assms(1,2)] by simp
next
  case (RecoverOp live)
  then show ?thesis using refund_each_inv[OF assms(1,2)] by (simp add: recoverOrphanedMatches_def)
qed

text \<open>The system of proper operations keeps the money of every match.\<close>

definition proper_step ::
  "('z money_store_scheme \<Rightarrow> 'z money_store_scheme \<Rightarrow> 'z money_store_scheme) \<Rightarrow> 'z money_store_scheme \<Rightarrow> money_op \<times> int \<Rightarrow>
     'z money_store_scheme" where
  "proper_step uow s p = (if proper_op (fst p) then money_step uow s p else s)"

interpretation mon: invariant_system "proper_step uow" "\<lambda>s. rolls_back uow \<and> money_inv s" for uow
  by unfold_locales (auto simp: proper_step_def intro: money_step_inv)

lemma proper_run:
  "list_all (\<lambda>p. proper_op (fst p)) ops \<Longrightarrow> foldl (money_step uow) s ops = foldl (proper_step uow) s ops"
  by (induction ops arbitrary: s) (simp_all add: proper_step_def)

lemma money_run_inv:
  assumes "rolls_back uow" "money_inv s" "list_all (\<lambda>p. proper_op (fst p)) ops"
  shows "money_inv (foldl (money_step uow) s ops)"
  using mon.run_inv[of uow s ops] assms by (simp add: proper_run)

lemma money_inv_empty: "money_inv empty_store"
  using books_ok_empty
  unfolding money_inv_def by (simp add: match_money_ok_def fresh_refs_def) (simp add: fresh_refs_def empty_store_def empty_ledger_def)

subsection \<open>Properties\<close>

text \<open>C25: escrow takes every stake or nothing. In a transactional store an escrow that reports ok
  on a new match charges each player exactly the stake (per seat held), leaves every other
  balance alone and opens the match with the full pot; every other outcome leaves the store
  exactly as it was.\<close>

theorem escrow_all_or_nothing:
  assumes "rolls_back uow" "money_inv s" "0 \<le> stake" "0 \<le> rakeBps" "rakeBps \<le> 10000"
    and "distinct (map mp_seat players)" "map_of (m_matches s) mid = None"
  shows "case escrow (tx_wallet uow) (Some uow) {} mid ty stake rakeBps players now s of
      (Inr r, s') \<Rightarrow> if er_ok r
        then (\<forall>uid\<in>known (m_users s). getBalance uid s' = getBalance uid s
                - stake * int (length (filter (\<lambda>p. mp_userId p = uid) players))) \<and>
             (\<exists>m. map_of (m_matches s') mid = Some m \<and> r_status m = ActiveMatch \<and>
                r_potCents m = stake * int (length players) \<and> r_players m = players)
        else s' = s
    | (Inl e, s') \<Rightarrow> s' = s"
proof (rule escrow_cases[OF assms(1), of "tx_wallet uow" mid ty stake rakeBps players now s])
  assume "snd (escrow (tx_wallet uow) (Some uow) {} mid ty stake rakeBps players now s) = s"
    "\<And>r. fst (escrow (tx_wallet uow) (Some uow) {} mid ty stake rakeBps players now s) = Inr r \<Longrightarrow> er_ok r \<Longrightarrow>
         map_of (m_matches s) mid \<noteq> None"
  with assms(7) show ?thesis
    by (cases "escrow (tx_wallet uow) (Some uow) {} mid ty stake rakeBps players now s") (auto split: sum.split)
next
  fix s'
  assume w: "escrow_writes mid ty stake rakeBps players now bind_wallet s = (Inr (), s')"
    and e: "escrow (tx_wallet uow) (Some uow) {} mid ty stake rakeBps players now s =
       (Inr \<lparr>er_ok = True, er_potCents = potCents stake (length players), er_code = None, er_insufficientUserIds = []\<rparr>, s')"
  note i = escrow_writes_inv[OF assms(2,7,3-6) w]
  have b: "books_ok s" using assms(2) by (simp add: money_inv_def)
  have count: "(\<Sum>f\<leftarrow>map (\<lambda>p. (mp_userId p, - stake, Some mid, None :: string option)) ps. if fst f = uid then fst (snd f) else 0)
      = - stake * int (length (filter (\<lambda>p. mp_userId p = uid) ps))" for uid ps
    by (induction ps) (simp_all add: algebra_simps)
  have "getBalance uid s' = getBalance uid s - stake * int (length (filter (\<lambda>p. mp_userId p = uid) players))"
    if "uid \<in> known (m_users s)" for uid
    using books_rows_balance[OF b i(2) that] count[of uid players] assms(3) by (cases "stake > 0") auto
  then show ?thesis by (simp add: e i(3) matches_create_def update_conv' potCents_def)
qed

text \<open>C16: settlement pays exactly the winners. When a settlement goes through, the active match was
  charged nothing more: each user's balance grows by the payouts of the seats that user holds,
  every other balance stays, the payouts and the rake make up the pot, and the match is settled;
  any other outcome (unknown or closed match, no seated winner, failed transaction) leaves the
  store exactly as it was.\<close>

theorem settle_pays_winners:
  assumes "rolls_back uow" "money_inv s" "distinct seats"
  shows "case settle (tx_wallet uow) (Some uow) {} mid seats now s of
      (Inr (Some st), s') \<Rightarrow>
        (\<exists>r r'. map_of (m_matches s) mid = Some r \<and> r_status r = ActiveMatch \<and>
           map_of (m_matches s') mid = Some r' \<and> r_status r' = Settled \<and>
           (\<Sum>p\<leftarrow>se_payouts st. py_amountCents p) + se_rakeCents st = r_potCents r \<and>
           map py_seat (se_payouts st) = filter (\<lambda>x. x \<in> mp_seat ` set (r_players r)) seats \<and>
           (\<forall>uid\<in>known (m_users s). getBalance uid s' = getBalance uid s +
              (\<Sum>p\<leftarrow>se_payouts st. if map_of (seatToUser r) (py_seat p) = Some uid then py_amountCents p else 0)))
    | (_, s') \<Rightarrow> s' = s"
proof (rule settle_cases[OF assms(1), of "tx_wallet uow" mid seats now s])
  assume "snd (settle (tx_wallet uow) (Some uow) {} mid seats now s) = s"
    "\<And>st. fst (settle (tx_wallet uow) (Some uow) {} mid seats now s) \<noteq> Inr (Some st)"
  then show ?thesis
    by (cases "settle (tx_wallet uow) (Some uow) {} mid seats now s") (auto split: sum.split option.split)
next
  fix r st s'
  assume r: "map_of (m_matches s) mid = Some r" "r_status r = ActiveMatch"
    and c: "computeSettlement (r_potCents r) (r_rakeBps r) (seated_winners r seats) = Inr st"
    and w: "settle_writes r (seated_winners r seats) st now bind_wallet s = (Inr (), s')"
    and e: "settle (tx_wallet uow) (Some uow) {} mid seats now s = (Inr (Some st), s')"
  note i = settle_writes_inv[OF assms(2) r seated_winners_distinct[OF assms(3)] c w]
  note k = computeSettlement_pot[OF c]
  have b: "books_ok s" using assms(2) by (simp add: money_inv_def)
  have seat: "map_of (seatToUser r) x \<noteq> None \<longleftrightarrow> x \<in> mp_seat ` set (r_players r)" for x
    by (auto simp: seatToUser_def map_of_eq_None_iff image_iff)
  have ps: "\<forall>p\<in>set (se_payouts st). map_of (seatToUser r) (py_seat p) \<noteq> None"
  proof
    fix p
    assume "p \<in> set (se_payouts st)"
    then have "py_seat p \<in> set (seated_winners r seats)" unfolding k(2)[symmetric] by simp
    then show "map_of (seatToUser r) (py_seat p) \<noteq> None" unfolding seated_winners_def by simp
  qed
  have "getBalance uid s' = getBalance uid s +
      (\<Sum>p\<leftarrow>se_payouts st. if map_of (seatToUser r) (py_seat p) = Some uid then py_amountCents p else 0)"
    if u: "uid \<in> known (m_users s)" for uid
  proof -
    have ne: "uid \<noteq> HOUSE_ACCOUNT_ID" using u HOUSE_unknown b by (auto simp: books_ok_def)
    have pay: "(\<Sum>f\<leftarrow>map pay_facts (settle_payments r st). if fst f = uid then fst (snd f) else 0) =
        (\<Sum>p\<leftarrow>se_payouts st. if map_of (seatToUser r) (py_seat p) = Some uid then py_amountCents p else 0)"
    proof -
      have "(\<Sum>f\<leftarrow>map pay_facts (map (\<lambda>p. (the (map_of (seatToUser r) (py_seat p)), py_amountCents p,
               match_credit (r_id r) ''winnings'' (payout_ref (r_id r) (py_seat p)))) (filter (\<lambda>p. py_amountCents p > 0) xs)).
             if fst f = uid then fst (snd f) else 0) =
          (\<Sum>p\<leftarrow>xs. if map_of (seatToUser r) (py_seat p) = Some uid then py_amountCents p else 0)"
        if "\<forall>p\<in>set xs. map_of (seatToUser r) (py_seat p) \<noteq> None" "\<forall>p\<in>set xs. 0 \<le> py_amountCents p" for xs
        using that by (induction xs) (auto simp: pay_facts_def)
      from this[OF ps k(4)] show ?thesis by (simp only: settle_payments_def)
    qed
    show ?thesis
    proof (cases "r_potCents r > 0")
      case True
      with books_rows_balance[OF b i(3) u] pay ne show ?thesis by auto
    next
      case False
      then have "(\<Sum>p\<leftarrow>se_payouts st. py_amountCents p) = 0" using k(1,3,6,7) by linarith
      then have "\<forall>p\<in>set (se_payouts st). py_amountCents p = 0"
        using k(4) sum_list_nonneg_eq_0_iff[of "map py_amountCents (se_payouts st)"] by auto
      then have "(\<Sum>p\<leftarrow>se_payouts st. if map_of (seatToUser r) (py_seat p) = Some uid then py_amountCents p else 0) = 0"
        by (intro sum_list_zero) auto
      with books_rows_balance[OF b i(3) u] False show ?thesis by simp
    qed
  qed
  moreover have "map py_seat (se_payouts st) = filter (\<lambda>x. x \<in> mp_seat ` set (r_players r)) seats"
    unfolding k(2) seated_winners_def seat ..
  ultimately show ?thesis using e r i(2) k(1) by auto
qed

definition demo_match :: "money_store" where
  "demo_match = foldl (money_step rollback) demo_store
     [(WalletOp (TransferOp ''u_1'' ''u_2'' 200 None), 4),
      (EscrowOp ''m1'' OneVOne 100 500 [\<lparr>mp_seat = 0, mp_userId = ''u_1''\<rparr>, \<lparr>mp_seat = 1, mp_userId = ''u_2''\<rparr>], 5)]"

lemma money_inv_demo_store: "money_inv demo_store"
proof -
  have "demo_store = foldl (money_step rollback) empty_store
     [(WalletOp (CreateUserOp demo_new_user), 1),
      (WalletOp (CreateUserOp (demo_new_user\<lparr>nu_username := ''Ben'', nu_email := ''b@x''\<rparr>)), 1),
      (WalletOp (CreditOp ''u_1'' 500 (plain_credit Deposit ''d'')), 2)]"
    by (simp add: demo_store_def)
  also have "money_inv \<dots>"
    by (rule money_run_inv[OF rolls_back_rollback money_inv_empty]) (simp add: plain_credit_def)
  finally show ?thesis .
qed

lemma money_inv_demo_match: "money_inv demo_match"
  unfolding demo_match_def by (rule money_run_inv[OF rolls_back_rollback money_inv_demo_store]) simp

theorem escrow_all_or_nothing_witness:
  "case escrow (tx_wallet rollback) (Some rollback) {} ''m9'' OneVOne 100 500
      [\<lparr>mp_seat = 0, mp_userId = ''u_1''\<rparr>, \<lparr>mp_seat = 1, mp_userId = ''u_2''\<rparr>] 5 demo_store of
    (Inr r, s') \<Rightarrow> \<not> er_ok r \<longrightarrow> s' = demo_store | (Inl e, s') \<Rightarrow> s' = demo_store"
proof -
  have "map_of (m_matches demo_store) ''m9'' = None" by code_simp
  then show ?thesis
    using escrow_all_or_nothing[OF rolls_back_rollback money_inv_demo_store, of 100 500
        "[\<lparr>mp_seat = 0, mp_userId = ''u_1''\<rparr>, \<lparr>mp_seat = 1, mp_userId = ''u_2''\<rparr>]" "''m9''" OneVOne 5]
    by (auto split: prod.splits sum.splits if_splits)
qed

lemma demo_settles: "\<exists>st s'. settle (tx_wallet rollback) (Some rollback) {} ''m1'' [1] 9 demo_match = (Inr (Some st), s')"
proof -
  have "case fst (settle (tx_wallet rollback) (Some rollback) {} ''m1'' [1] 9 demo_match) of
      Inr (Some st) \<Rightarrow> True | _ \<Rightarrow> False" by code_simp
  then show ?thesis
    by (cases "settle (tx_wallet rollback) (Some rollback) {} ''m1'' [1] 9 demo_match")
       (auto split: sum.splits option.splits)
qed

theorem settle_pays_winners_witness:
  "\<exists>st s'. settle (tx_wallet rollback) (Some rollback) {} ''m1'' [1] 9 demo_match = (Inr (Some st), s') \<and>
     (\<exists>r'. map_of (m_matches s') ''m1'' = Some r' \<and> r_status r' = Settled)"
proof -
  obtain st s' where e: "settle (tx_wallet rollback) (Some rollback) {} ''m1'' [1] 9 demo_match = (Inr (Some st), s')"
    using demo_settles by blast
  then show ?thesis
    using settle_pays_winners[OF rolls_back_rollback money_inv_demo_match, of "[1]" "''m1''" 9] by auto
qed

text \<open>C3: no match ever mints or loses money. Starting from balanced books, after any sequence of
  proper operations in a transactional store, the per-match sums of the ledger owe exactly the
  pot of every active match and are zero for every settled or cancelled match.\<close>

theorem match_sums_conserved:
  assumes "rolls_back uow" "money_inv s" "list_all (\<lambda>p. proper_op (fst p)) ops"
    and "map_of (m_matches (foldl (money_step uow) s ops)) mid = Some r" "mid \<noteq> []"
  shows "(case map_of (matchLedgerSums (foldl (money_step uow) s ops)) mid of None \<Rightarrow> 0 | Some x \<Rightarrow> x) =
    (if r_status r = ActiveMatch then - (r_stakeCents r * int (length (r_players r))) else 0)"
proof -
  have "money_inv (foldl (money_step uow) s ops)" by (rule money_run_inv[OF assms(1-3)])
  then have "match_money_ok (m_ledger (foldl (money_step uow) s ops)) mid (Some r)"
    using assms(4) by (metis money_inv_def)
  then show ?thesis
    unfolding matchLedgerSums_def sumsByMatch_eq[OF assms(5)]
    by (auto simp: match_money_ok_def record_ok_def potCents_def)
qed

theorem match_sums_conserved_witness:
  "(case map_of (matchLedgerSums (foldl (money_step rollback) demo_match [(SettleOp ''m1'' [1], 9)])) ''m1'' of
      None \<Rightarrow> 0 | Some x \<Rightarrow> x) = 0"
proof -
  have "case map_of (m_matches (foldl (money_step rollback) demo_match [(SettleOp ''m1'' [1], 9)])) ''m1'' of
      Some r \<Rightarrow> r_status r = Settled | None \<Rightarrow> False" by code_simp
  then obtain r where "map_of (m_matches (foldl (money_step rollback) demo_match [(SettleOp ''m1'' [1], 9)])) ''m1'' = Some r"
    "r_status r = Settled" by (auto split: option.splits)
  then show ?thesis
    using match_sums_conserved[OF rolls_back_rollback money_inv_demo_match, of "[(SettleOp ''m1'' [1], 9)]" "''m1''" r]
    by simp
qed

subsection \<open>A closed match stays closed\<close>

text \<open>The match a record describes and its rows, as far as later operations may not touch them.\<close>

definition match_view :: "string \<Rightarrow> 'z money_store_scheme \<Rightarrow> match_record option \<times> transaction list" where
  "match_view mid s = (map_of (m_matches s) mid, filter (\<lambda>r. t_matchId r = Some mid) (l_rows (m_ledger s)))"

definition closed_match :: "string \<Rightarrow> 'z money_store_scheme \<Rightarrow> bool" where
  "closed_match mid s \<longleftrightarrow> (\<exists>r. map_of (m_matches s) mid = Some r \<and> r_status r \<noteq> ActiveMatch)"

lemma books_rows_view:
  assumes "books_rows mid facts s s'" "\<forall>f\<in>set facts. fst (snd (snd f)) = Some mid" "m \<noteq> mid"
  shows "match_view m s' = match_view m s"
  using books_rows_match_rows[OF assms(1,3,2)] assms(1,3) by (simp add: match_view_def books_rows_def)

lemma external_view:
  assumes "appends external_row s s'"
  shows "match_view m s' = match_view m s"
  using assms by (auto simp: appends_def match_view_def external_row_def filter_empty_conv)

lemma closed_view: "match_view mid s' = match_view mid s \<Longrightarrow> closed_match mid s' = closed_match mid s"
  by (simp add: match_view_def closed_match_def)

lemma refund_view:
  assumes "rolls_back uow" "money_inv s" "closed_match m s"
  shows "match_view m (snd (refund w (Some uow) {} mid now s)) = match_view m s"
proof (rule refund_cases[OF assms(1), of w mid now s])
  fix r s'
  assume r: "map_of (m_matches s) mid = Some r" "r_status r = ActiveMatch"
    and w: "refund_writes r now bind_wallet s = (Inr (), s')" "refund w (Some uow) {} mid now s = (Inr (), s')"
  have rid: "r_id r = mid"
    using assms(2) r(1) by (auto simp: money_inv_def match_money_ok_def record_ok_def dest!: spec[of _ mid])
  have "m \<noteq> mid" using assms(3) r by (auto simp: closed_match_def)
  then have "match_view m s' = match_view m s"
    by (intro books_rows_view[OF refund_writes_inv(3)[OF assms(2) r w(1)]])
       (auto simp: refund_payments_def pay_facts_def match_credit_def rid)
  with w show ?thesis by simp
qed simp

lemma refund_each_view:
  assumes "rolls_back uow" "money_inv s" "closed_match m s"
  shows "match_view m (snd (refund_each w (Some uow) {} live now ms refunded s)) = match_view m s"
  using assms(2,3)
proof (induction ms arbitrary: refunded s)
  case (Cons x ms)
  let ?s = "snd (refund w (Some uow) {} (r_id x) now s)"
  have v: "match_view m ?s = match_view m s" by (rule refund_view[OF assms(1) Cons.prems])
  have "money_inv ?s" "closed_match m ?s"
    using refund_inv[OF assms(1) Cons.prems(1)] closed_view[OF v] Cons.prems(2) by auto
  with Cons v show ?case by (auto split: prod.split sum.split)
qed simp

lemma money_step_view:
  assumes "rolls_back uow" "money_inv s" "proper_op op" "closed_match m s"
  shows "match_view m (money_step uow s (op, now)) = match_view m s"
proof (cases op)
  case (WalletOp wop)
  have "books_ok s" using assms(2) by (simp add: money_inv_def)
  then show ?thesis using WalletOp external_view[OF wallet_step_external[OF assms(1)]] assms(3) by simp
next
  case (EscrowOp mid ty stake rakeBps players)
  have "match_view m (snd (escrow (tx_wallet uow) (Some uow) {} mid ty stake rakeBps players now s)) = match_view m s"
  proof (rule escrow_cases[OF assms(1), of "tx_wallet uow" mid ty stake rakeBps players now s])
    fix s'
    assume n: "map_of (m_matches s) mid = None"
      and w: "escrow_writes mid ty stake rakeBps players now bind_wallet s = (Inr (), s')"
      and e: "escrow (tx_wallet uow) (Some uow) {} mid ty stake rakeBps players now s =
       (Inr \<lparr>er_ok = True, er_potCents = potCents stake (length players), er_code = None, er_insufficientUserIds = []\<rparr>, s')"
    have "m \<noteq> mid" using assms(4) n by (auto simp: closed_match_def)
    then have "match_view m s' = match_view m s"
      using books_rows_view[OF escrow_writes_inv(2)[OF assms(2) n _ _ _ _ w]] assms(3) EscrowOp by auto
    with e show ?thesis by simp
  qed simp
  with EscrowOp show ?thesis by simp
next
  case (SettleOp mid seats)
  have "match_view m (snd (settle (tx_wallet uow) (Some uow) {} mid seats now s)) = match_view m s"
  proof (rule settle_cases[OF assms(1), of "tx_wallet uow" mid seats now s])
    fix r st s'
    assume r: "map_of (m_matches s) mid = Some r" "r_status r = ActiveMatch"
      and w: "computeSettlement (r_potCents r) (r_rakeBps r) (seated_winners r seats) = Inr st"
        "settle_writes r (seated_winners r seats) st now bind_wallet s = (Inr (), s')"
      and e: "settle (tx_wallet uow) (Some uow) {} mid seats now s = (Inr (Some st), s')"
    have rid: "r_id r = mid"
      using assms(2) r(1) by (auto simp: money_inv_def match_money_ok_def record_ok_def dest!: spec[of _ mid])
    have d: "distinct (seated_winners r seats)" using assms(3) SettleOp by (simp add: seated_winners_distinct)
    have "m \<noteq> mid" using assms(4) r by (auto simp: closed_match_def)
    then have "match_view m s' = match_view m s"
      by (intro books_rows_view[OF settle_writes_inv(3)[OF assms(2) r d w]])
         (auto simp: settle_payments_def pay_facts_def match_credit_def rid split: if_splits)
    with e show ?thesis by simp
  qed simp
  with SettleOp show ?thesis by simp
next
  case (RefundOp mid)
  then show ?thesis using refund_view[OF assms(1,2,4)] by simp
next
  case (RecoverOp live)
  then show ?thesis using refund_each_view[OF assms(1,2,4)] by (simp add: recoverOrphanedMatches_def)
qed

text \<open>C11: a match is settled or refunded at most once. Once a match is settled or cancelled, no
  sequence of further proper operations (a repeated settlement, a refund, a crash recovery, a new
  escrow under the same id) changes its record or books another row for it.\<close>

theorem closed_match_is_final:
  assumes "rolls_back uow" "money_inv s" "closed_match mid s" "list_all (\<lambda>p. proper_op (fst p)) ops"
  shows "match_view mid (foldl (money_step uow) s ops) = match_view mid s"
  using assms(2-4)
proof (induction ops arbitrary: s)
  case (Cons p ops)
  obtain op now where p: "p = (op, now)" by (cases p)
  let ?s = "money_step uow s p"
  have v: "match_view mid ?s = match_view mid s"
    unfolding p by (rule money_step_view[OF assms(1) Cons.prems(1) _ Cons.prems(2)]) (use Cons.prems(3) p in simp)
  have "money_inv ?s" unfolding p by (rule money_step_inv[OF assms(1) Cons.prems(1)]) (use Cons.prems(3) p in simp)
  with Cons v closed_view[OF v] show ?case by simp
qed simp

theorem closed_match_is_final_witness:
  "match_view ''m1'' (foldl (money_step rollback) (money_step rollback demo_match (SettleOp ''m1'' [1], 9))
       [(SettleOp ''m1'' [0], 10), (RefundOp ''m1'', 11), (RecoverOp {}, 12)]) =
   match_view ''m1'' (money_step rollback demo_match (SettleOp ''m1'' [1], 9))"
proof (rule closed_match_is_final[OF rolls_back_rollback])
  show "money_inv (money_step rollback demo_match (SettleOp ''m1'' [1], 9))"
    by (rule money_step_inv[OF rolls_back_rollback money_inv_demo_match]) simp
  have "case map_of (m_matches (money_step rollback demo_match (SettleOp ''m1'' [1], 9))) ''m1'' of
      Some r \<Rightarrow> r_status r = Settled | None \<Rightarrow> False" by code_simp
  then show "closed_match ''m1'' (money_step rollback demo_match (SettleOp ''m1'' [1], 9))"
    by (auto simp: closed_match_def split: option.splits)
qed simp

end
