(* ===== verification/Withdrawals.thy ===== *)
theory Withdrawals
  imports Wallet
begin

text \<open>
  Withdrawals (\<^verbatim>\<open>packages/server/src/money/withdrawals.ts\<close>, class \<^verbatim>\<open>WithdrawalService\<close>), the
  triage of automatic payouts (\<^verbatim>\<open>withdrawalPolicy.ts\<close>, \<^verbatim>\<open>autoPayout.ts\<close>), the reconciler that
  reverses payouts that failed on-chain (\<^verbatim>\<open>paymentMonitor.ts\<close>) and the governance of manual
  adjustments (\<^verbatim>\<open>adminAdjustPolicy.ts\<close>).

  The payout provider and the address check are arguments: a provider is a function from the
  request to its result or to the message it threw. Messages for people are left out, an error is
  its code; reasons are written without diacritics.
\<close>

subsection \<open>The service\<close>

record payout_request =
  pq_withdrawalId :: string
  pq_amountCents :: cents
  pq_address :: string

record payout_result =
  pr_ok :: bool
  pr_providerRef :: "string option"
  pr_error :: "string option"
  pr_duplicate :: bool
  pr_ambiguous :: bool

record payout_provider =
  pp_name :: string
  pp_payout :: "payout_request \<Rightarrow> string + payout_result"

definition nullPayoutProvider :: payout_provider where
  "nullPayoutProvider = \<lparr>pp_name = ''null'', pp_payout = (\<lambda>_. Inr \<lparr>pr_ok = False, pr_providerRef = None,
     pr_error = Some ''no payout provider configured'', pr_duplicate = False, pr_ambiguous = False\<rparr>)\<rparr>"

record withdrawal_limits =
  lim_minCents :: cents
  lim_maxCents :: cents

definition default_limits :: withdrawal_limits where
  "default_limits = \<lparr>lim_minCents = 500, lim_maxCents = 1000000\<rparr>"

record 's withdrawal_service =
  sv_wallet :: "'s wallet_service"
  sv_limits :: withdrawal_limits
  sv_uow :: "('s \<Rightarrow> 's \<Rightarrow> 's) option"
  sv_validAddress :: "string \<Rightarrow> bool"

definition wd_fail :: "string \<Rightarrow> ('s, money_error, 'a) action" where
  "wd_fail code s = (Inl (WithdrawalError code), s)"

text \<open>\<^verbatim>\<open>catch (e)\<close> around the debit: a lack of funds becomes a withdrawal error.\<close>

definition as_withdrawal_error :: "money_error \<Rightarrow> money_error" where
  "as_withdrawal_error e =
     (case e of InsufficientFundsError _ _ _ \<Rightarrow> WithdrawalError ''insufficient_funds'' | _ \<Rightarrow> e)"

definition map_error :: "('e \<Rightarrow> 'f) \<Rightarrow> ('s, 'e, 'a) action \<Rightarrow> ('s, 'f, 'a) action" where
  "map_error f m s = (case m s of (Inl e, s') \<Rightarrow> (Inl (f e), s') | (Inr x, s') \<Rightarrow> (Inr x, s'))"

definition hold_debit ::
  "'z money_store_scheme wallet_service \<Rightarrow> user_id \<Rightarrow> cents \<Rightarrow> int \<Rightarrow> ('z money_store_scheme, money_error, move_result) action" where
  "hold_debit w uid amount now = debit w uid amount (plain_debit Withdrawal ''kerkese terheqjeje'') now"

definition create_row ::
  "user_id \<Rightarrow> cents \<Rightarrow> string \<Rightarrow> int \<Rightarrow> ('z money_store_scheme, money_error, withdrawal) action" where
  "create_row uid amount dest now s =
     (let (r, ws) = wd_create uid amount dest now (m_withdrawals s) in (Inr r, s\<lparr>m_withdrawals := ws\<rparr>))"

definition request_withdrawal ::
  "'z money_store_scheme withdrawal_service \<Rightarrow> user_id \<Rightarrow> cents \<Rightarrow> string \<Rightarrow> int \<Rightarrow>
     ('z money_store_scheme, money_error, withdrawal) action" where
  "request_withdrawal sv uid amount dest now s =
     (if amount \<le> 0 then wd_fail ''bad_amount'' s
      else if amount < lim_minCents (sv_limits sv) then wd_fail ''below_min'' s
      else if amount > lim_maxCents (sv_limits sv) then wd_fail ''above_max'' s
      else if dest = [] \<or> length (js_trim dest) < 4 then wd_fail ''bad_destination'' s
      else case sv_uow sv of
        Some uow \<Rightarrow> map_error as_withdrawal_error
          (transaction_in uow (bind_act (hold_debit bind_wallet uid amount now) (\<lambda>_. create_row uid amount dest now))) s
      | None \<Rightarrow>
          bind_act (map_error as_withdrawal_error (hold_debit (sv_wallet sv) uid amount now))
            (\<lambda>_. create_row uid amount dest now) s)"

definition claim ::
  "string \<Rightarrow> wd_status \<Rightarrow> wd_resolution \<Rightarrow> int \<Rightarrow> ('z money_store_scheme, money_error, withdrawal) action" where
  "claim i status audit now s =
     (case setStatusIfPending i status audit now (m_withdrawals s) of
        (None, ws) \<Rightarrow> wd_fail ''not_pending'' (s\<lparr>m_withdrawals := ws\<rparr>)
      | (Some r, ws) \<Rightarrow> (Inr r, s\<lparr>m_withdrawals := ws\<rparr>))"

definition approve ::
  "string \<Rightarrow> wd_resolution \<Rightarrow> int \<Rightarrow> ('z money_store_scheme, money_error, withdrawal) action" where
  "approve i audit now s =
     (case wd_find i (m_withdrawals s) of
        None \<Rightarrow> wd_fail ''not_found'' s
      | Some _ \<Rightarrow> claim i WdCompleted audit now s)"

definition refund_ref_of :: "string \<Rightarrow> string" where
  "refund_ref_of i = ''withdrawal_refund:'' @ i"

definition refund_credit ::
  "'z money_store_scheme wallet_service \<Rightarrow> string \<Rightarrow> withdrawal \<Rightarrow> string \<Rightarrow> int \<Rightarrow>
     ('z money_store_scheme, money_error, move_result) action" where
  "refund_credit w i r reason now =
     credit w (wd_userId r) (wd_amountCents r)
       ((plain_credit AdminAdjust reason)\<lparr>co_providerRef := Some (refund_ref_of i)\<rparr>) now"

definition self_resolved :: "string option option \<Rightarrow> withdrawal \<Rightarrow> bool" where
  "self_resolved by r =
     (case by of Some (Some a) \<Rightarrow> a \<noteq> [] \<and> wd_userId r = a | _ \<Rightarrow> False)"

definition reject ::
  "'z money_store_scheme withdrawal_service \<Rightarrow> string \<Rightarrow> wd_resolution \<Rightarrow> int \<Rightarrow>
     ('z money_store_scheme, money_error, withdrawal) action" where
  "reject sv i audit now s =
     (case wd_find i (m_withdrawals s) of
        None \<Rightarrow> wd_fail ''not_found'' s
      | Some r \<Rightarrow>
          if wd_status r \<noteq> WdPending then wd_fail ''not_pending'' s
          else if self_resolved (wr_resolvedByAdminId audit) r then wd_fail ''self_resolve'' s
          else
            let body = (\<lambda>w. bind_act (claim i WdRejected audit now) (\<lambda>claimed.
                          bind_act (refund_credit w i r ''rikthim terheqjeje'' now) (\<lambda>_. return_act claimed)))
            in case sv_uow sv of
                 Some uow \<Rightarrow> transaction_in uow (body bind_wallet) s
               | None \<Rightarrow> body (sv_wallet sv) s)"

definition set_audit :: "string \<Rightarrow> wd_resolution \<Rightarrow> 'z money_store_scheme \<Rightarrow> 'z money_store_scheme" where
  "set_audit i a s = s\<lparr>m_withdrawals := wd_setAudit i a (m_withdrawals s)\<rparr>"

definition mark_reversed :: "string \<Rightarrow> int \<Rightarrow> 'z money_store_scheme \<Rightarrow> 'z money_store_scheme" where
  "mark_reversed i now s = s\<lparr>m_withdrawals := wd_markReversed i now (m_withdrawals s)\<rparr>"

definition or_empty :: "string option \<Rightarrow> string" where
  "or_empty e = (case e of None \<Rightarrow> [] | Some x \<Rightarrow> x)"

definition resolved_by :: "string option \<Rightarrow> wd_resolution" where
  "resolved_by a = no_resolution\<lparr>wr_resolvedByAdminId := Some a\<rparr>"

definition payoutNow ::
  "'z money_store_scheme withdrawal_service \<Rightarrow> string \<Rightarrow> payout_provider option \<Rightarrow> string option \<Rightarrow> int \<Rightarrow>
     ('z money_store_scheme, money_error, withdrawal) action" where
  "payoutNow sv i payout adminId now s =
     (case wd_find i (m_withdrawals s) of
        None \<Rightarrow> wd_fail ''not_found'' s
      | Some rec \<Rightarrow>
          if wd_status rec \<noteq> WdPending then wd_fail ''not_pending'' s
          else if self_resolved (Some adminId) rec then wd_fail ''self_resolve'' s
          else if \<not> sv_validAddress sv (wd_destination rec) then wd_fail ''bad_destination'' s
          else case payout of
            None \<Rightarrow> approve i (resolved_by adminId) now s
          | Some p \<Rightarrow>
              if pp_name p = ''null'' then approve i (resolved_by adminId) now s
              else bind_act (claim i WdCompleted (resolved_by adminId) now) (\<lambda>claimed s.
                case pp_payout p \<lparr>pq_withdrawalId = i, pq_amountCents = wd_amountCents rec, pq_address = wd_destination rec\<rparr> of
                  Inl thrown \<Rightarrow> (Inl (ProviderThrew thrown), s)
                | Inr r \<Rightarrow>
                    if pr_ok r
                    then (Inr (claimed\<lparr>wd_providerRef := pr_providerRef r\<rparr>),
                          set_audit i (no_resolution\<lparr>wr_providerRef := Some (pr_providerRef r)\<rparr>) s)
                    else if pr_duplicate r
                    then (Inr (claimed\<lparr>wd_providerRef := pr_providerRef r, wd_failureReason := Some ''duplicate send (already paid)''\<rparr>),
                          set_audit i (no_resolution\<lparr>wr_providerRef := Some (pr_providerRef r),
                            wr_failureReason := Some (Some ''duplicate send (already paid) - marked paid, no refund'')\<rparr>) s)
                    else if pr_ambiguous r
                    then wd_fail ''payout_ambiguous''
                          (set_audit i (no_resolution\<lparr>wr_failureReason := Some (Some (take 280
                             (''AMBIGUOUS send - left as paid, NOT refunded (verify on-chain): '' @ or_empty (pr_error r))))\<rparr>) s)
                    else bind_act (refund_credit (sv_wallet sv) i rec ''rikthim: pagesa e terheqjes deshtoi'' now)
                           (\<lambda>_ s. wd_fail ''payout_failed'' (mark_reversed i now s)) s) s)"

datatype payout_outcome = Paid | DuplicateSend | AmbiguousSend | PayoutFailed | NotPending | BadDestination

record auto_outcome =
  ao_outcome :: payout_outcome
  ao_providerRef :: "string option"
  ao_error :: "string option"

definition outcome_only :: "payout_outcome \<Rightarrow> string option \<Rightarrow> auto_outcome" where
  "outcome_only oc e = \<lparr>ao_outcome = oc, ao_providerRef = None, ao_error = e\<rparr>"

text \<open>The background path: a provider that throws counts as an ambiguous send, nothing is thrown.\<close>

definition autoPayout ::
  "'z money_store_scheme withdrawal_service \<Rightarrow> string \<Rightarrow> payout_provider \<Rightarrow> int \<Rightarrow> 'z money_store_scheme \<Rightarrow>
     auto_outcome \<times> 'z money_store_scheme" where
  "autoPayout sv i p now s =
     (case wd_find i (m_withdrawals s) of
        None \<Rightarrow> (outcome_only NotPending (Some ''not_found''), s)
      | Some rec \<Rightarrow>
          if wd_status rec \<noteq> WdPending then (outcome_only NotPending None, s)
          else if \<not> sv_validAddress sv (wd_destination rec)
          then (outcome_only BadDestination (Some ''invalid destination''), s)
          else case claim i WdCompleted no_resolution now s of
            (Inl _, s1) \<Rightarrow> (outcome_only NotPending None, s1)
          | (Inr _, s1) \<Rightarrow>
              let r = (case pp_payout p \<lparr>pq_withdrawalId = i, pq_amountCents = wd_amountCents rec, pq_address = wd_destination rec\<rparr> of
                         Inl e \<Rightarrow> \<lparr>pr_ok = False, pr_providerRef = None, pr_error = Some (''payout threw (ambiguous): '' @ e),
                                   pr_duplicate = False, pr_ambiguous = True\<rparr>
                       | Inr r \<Rightarrow> r)
              in if pr_ok r
                 then (\<lparr>ao_outcome = Paid, ao_providerRef = pr_providerRef r, ao_error = None\<rparr>,
                       set_audit i (no_resolution\<lparr>wr_providerRef := Some (pr_providerRef r)\<rparr>) s1)
                 else if pr_duplicate r
                 then (\<lparr>ao_outcome = DuplicateSend, ao_providerRef = pr_providerRef r, ao_error = pr_error r\<rparr>,
                       set_audit i (no_resolution\<lparr>wr_providerRef := Some (pr_providerRef r),
                         wr_failureReason := Some (Some ''duplicate send (already paid) - auto, no refund'')\<rparr>) s1)
                 else if pr_ambiguous r
                 then (outcome_only AmbiguousSend (pr_error r),
                       set_audit i (no_resolution\<lparr>wr_failureReason := Some (Some (take 280
                          (''AMBIGUOUS auto-send - left paid, NOT refunded: '' @ or_empty (pr_error r))))\<rparr>) s1)
                 else
                   (outcome_only PayoutFailed (pr_error r),
                    case refund_credit (sv_wallet sv) i rec ''rikthim: auto-pagesa deshtoi'' now s1 of
                      (Inl _, s2) \<Rightarrow> s2
                    | (Inr _, s2) \<Rightarrow> mark_reversed i now s2))"

definition autoPaidSince :: "int \<Rightarrow> string option \<Rightarrow> 'z money_store_scheme \<Rightarrow> cents" where
  "autoPaidSince since dest s =
     foldl (\<lambda>acc r. acc + wd_amountCents r) 0
       (filter (\<lambda>r. wd_resolvedByAdminId r = None \<and> (dest = None \<or> Some (wd_destination r) = dest))
         (listCompletedSince since (m_withdrawals s)))"

subsection \<open>Reversal of payouts that failed on-chain\<close>

record binance_status =
  bs_withdrawOrderId :: string
  bs_status :: int
  bs_amountCents :: cents

definition BINANCE_WITHDRAW_FAILED :: "int list" where
  "BINANCE_WITHDRAW_FAILED = [1, 3, 5]"

definition bs_failed :: "binance_status \<Rightarrow> bool" where
  "bs_failed b = (bs_status b \<in> set BINANCE_WITHDRAW_FAILED)"

definition reversal_ref :: "string \<Rightarrow> string" where
  "reversal_ref i = ''withdrawal_reversal:'' @ i"

definition reverse_credit ::
  "'z money_store_scheme wallet_service \<Rightarrow> string \<Rightarrow> withdrawal \<Rightarrow> int \<Rightarrow>
     ('z money_store_scheme, money_error, move_result) action" where
  "reverse_credit w i r now =
     credit w (wd_userId r) (wd_amountCents r)
       ((plain_credit AdminAdjust ''rikthim: terheqja deshtoi ne Binance'')\<lparr>co_providerRef := Some (reversal_ref i)\<rparr>) now"

fun reconcileFailedWithdrawals ::
  "'z money_store_scheme wallet_service \<Rightarrow> binance_status list \<Rightarrow> nat \<Rightarrow> int \<Rightarrow> ('z money_store_scheme, money_error, nat) action" where
  "reconcileFailedWithdrawals w [] n now s = (Inr n, s)"
| "reconcileFailedWithdrawals w (b # bs) n now s =
     (if \<not> bs_failed b then reconcileFailedWithdrawals w bs n now s
      else case wd_find (bs_withdrawOrderId b) (m_withdrawals s) of
        None \<Rightarrow> reconcileFailedWithdrawals w bs n now s
      | Some r \<Rightarrow>
          if wd_status r \<noteq> WdCompleted then reconcileFailedWithdrawals w bs n now s
          else case reverse_credit w (bs_withdrawOrderId b) r now s of
            (Inl e, s1) \<Rightarrow> (Inl e, s1)
          | (Inr _, s1) \<Rightarrow>
              reconcileFailedWithdrawals w bs (n + 1) now (mark_reversed (bs_withdrawOrderId b) now s1))"

definition findStaleWithdrawals :: "withdrawal list \<Rightarrow> int \<Rightarrow> int \<Rightarrow> string set \<Rightarrow> withdrawal list" where
  "findStaleWithdrawals pending now thresholdMs alerted =
     filter (\<lambda>w. now - wd_createdAt w \<ge> thresholdMs \<and> wd_id w \<notin> alerted) pending"

definition pruneAlerted :: "string set \<Rightarrow> string list \<Rightarrow> string set" where
  "pruneAlerted alerted stillPending = alerted \<inter> set stillPending"

definition treasuryBufferCents :: "cents \<Rightarrow> cents \<Rightarrow> cents" where
  "treasuryBufferCents binanceUsdt playerLiabilities = binanceUsdt - playerLiabilities"

subsection \<open>Triage and governance\<close>

datatype withdrawal_tier = TierAuto | TierManual

record triage_input =
  ti_amountCents :: cents
  ti_priorTodayCents :: "cents option"
  ti_globalTodayCents :: "cents option"
  ti_destTodayCents :: "cents option"
  ti_recentTransferInCents :: "cents option"

record triage_config =
  tc_autoMaxCents :: cents
  tc_dailyAutoCapCents :: "cents option"
  tc_globalAutoCapCents :: "cents option"
  tc_destAutoCapCents :: "cents option"

definition or_zero :: "cents option \<Rightarrow> cents" where
  "or_zero x = (case x of None \<Rightarrow> 0 | Some v \<Rightarrow> v)"

definition over_cap :: "cents option \<Rightarrow> cents option \<Rightarrow> cents \<Rightarrow> bool" where
  "over_cap cap used amount = (case cap of None \<Rightarrow> False | Some c \<Rightarrow> c > 0 \<and> or_zero used + amount > c)"

definition classifyWithdrawal :: "triage_input \<Rightarrow> triage_config \<Rightarrow> withdrawal_tier \<times> string list" where
  "classifyWithdrawal i c =
     (let reasons =
        (if tc_autoMaxCents c \<le> 0 then [''auto disabled'']
         else if ti_amountCents i > tc_autoMaxCents c then [''above auto threshold''] else [])
        @ (if over_cap (tc_dailyAutoCapCents c) (ti_priorTodayCents i) (ti_amountCents i) then [''above daily auto cap''] else [])
        @ (if over_cap (tc_globalAutoCapCents c) (ti_globalTodayCents i) (ti_amountCents i) then [''above global auto cap''] else [])
        @ (if over_cap (tc_destAutoCapCents c) (ti_destTodayCents i) (ti_amountCents i)
           then [''above per-destination auto cap''] else [])
        @ (if or_zero (ti_recentTransferInCents i) > 0 then [''recent transfer-in (manual review)''] else [])
      in (if reasons = [] then TierAuto else TierManual, reasons))"

record process_outcome =
  po_tier :: withdrawal_tier
  po_autoPaid :: bool
  po_ambiguous :: bool
  po_error :: "string option"
  po_actionButtons :: bool

text \<open>
  The send is an action on the store that may not be configured; the notification is reduced to
  whether its interactive buttons are offered, which is when the row counts as still pending.
\<close>

definition processWithdrawal ::
  "string \<Rightarrow> triage_input \<Rightarrow> triage_config \<Rightarrow> (string \<Rightarrow> 's \<Rightarrow> auto_outcome \<times> 's) option \<Rightarrow> 's \<Rightarrow> process_outcome \<times> 's" where
  "processWithdrawal i inp cfg sendAuto s =
     (let tier = fst (classifyWithdrawal inp cfg) in
      case (tier, sendAuto) of
        (TierAuto, Some send) \<Rightarrow>
          (let (r, s') = send i s;
               autoPaid = (ao_outcome r = Paid \<or> ao_outcome r = DuplicateSend);
               ambiguous = (ao_outcome r = AmbiguousSend);
               err = (case ao_outcome r of
                   Paid \<Rightarrow> None
                 | DuplicateSend \<Rightarrow> Some (''duplicate send (already paid): '' @ or_empty (ao_error r))
                 | AmbiguousSend \<Rightarrow> Some (''ambiguous (maybe sent, NOT refunded): '' @ or_empty (ao_error r))
                 | NotPending \<Rightarrow> Some ''no longer pending at send time (already resolved) - not sent''
                 | _ \<Rightarrow> Some (case ao_error r of None \<Rightarrow> ''payout failed'' | Some e \<Rightarrow> e))
           in (\<lparr>po_tier = tier, po_autoPaid = autoPaid, po_ambiguous = ambiguous, po_error = err,
                po_actionButtons = (\<not> autoPaid \<and> \<not> ambiguous)\<rparr>, s'))
      | _ \<Rightarrow> (\<lparr>po_tier = tier, po_autoPaid = False, po_ambiguous = False, po_error = None, po_actionButtons = True\<rparr>, s))"

definition MAX_ADJUST_CENTS :: cents where
  "MAX_ADJUST_CENTS = 500000"

definition DAILY_ADJUST_CAP_CENTS :: cents where
  "DAILY_ADJUST_CAP_CENTS = 2000000"

datatype adjust_verdict = AdjustOk | OverCallLimit | OverDailyCap | SelfCredit

definition checkAdjustGovernance :: "admin_audit \<Rightarrow> string \<Rightarrow> user_id \<Rightarrow> cents \<Rightarrow> int \<Rightarrow> adjust_verdict" where
  "checkAdjustGovernance audit adminId target delta now =
     (if delta > 0 \<and> target = adminId then SelfCredit
      else if \<bar>delta\<bar> > MAX_ADJUST_CENTS then OverCallLimit
      else if sumAdjustmentsBy adminId (now - DAY_MS) audit + \<bar>delta\<bar> > DAILY_ADJUST_CAP_CENTS then OverDailyCap
      else AdjustOk)"

text \<open>
  The critical section of an adjustment, as the HTTP route and the bot run it: the governance
  check, then the audited movement.
\<close>

definition governed_adjust ::
  "'z money_store_scheme wallet_service \<Rightarrow> string \<Rightarrow> user_id \<Rightarrow> cents \<Rightarrow> string \<Rightarrow> string option \<Rightarrow> int \<Rightarrow>
     'z money_store_scheme \<Rightarrow> (adjust_verdict + (money_error + move_result)) \<times> 'z money_store_scheme" where
  "governed_adjust w adminId target delta reason ref now s =
     (case checkAdjustGovernance (m_audit s) adminId target delta now of
        AdjustOk \<Rightarrow>
          (let (r, s') = adminAdjustAudited w target delta reason
                 \<lparr>na_adminId = adminId, na_action = BalanceAdjust, na_targetUserId = Some target,
                  na_amountCents = Some delta,
                  na_detail = Some (if truthy ref then reason @ '' ['' @ the ref @ '']'' else reason)\<rparr> ref now s
           in (Inr r, s'))
      | v \<Rightarrow> (Inl v, s))"

subsection \<open>Refunds happen at most once\<close>

lemma refund_ref_inj [simp]:
  "refund_ref_of i = refund_ref_of j \<longleftrightarrow> i = j" "reversal_ref i = reversal_ref j \<longleftrightarrow> i = j"
  "refund_ref_of i \<noteq> reversal_ref j" "reversal_ref j \<noteq> refund_ref_of i" "refund_ref_of i \<noteq> []" "reversal_ref i \<noteq> []"
  by (simp_all add: refund_ref_of_def reversal_ref_def)

definition is_refund :: "string \<Rightarrow> transaction \<Rightarrow> bool" where
  "is_refund i t \<longleftrightarrow> t_providerRef t = Some (refund_ref_of i) \<or> t_providerRef t = Some (reversal_ref i)"

definition refund_rows :: "string \<Rightarrow> 'z money_store_scheme \<Rightarrow> transaction list" where
  "refund_rows i s = filter (is_refund i) (l_rows (m_ledger s))"

lemma is_refund_unique: "is_refund i t \<Longrightarrow> is_refund j t \<Longrightarrow> i = j"
  by (auto simp: is_refund_def)

text \<open>
  The held money of a withdrawal: while it is pending or completed nothing was given back, once it
  is rejected exactly one row gives the user exactly the amount back.
\<close>

definition held_ok :: "withdrawal option \<Rightarrow> transaction list \<Rightarrow> bool" where
  "held_ok found refunds \<longleftrightarrow>
     (case found of
        None \<Rightarrow> refunds = []
      | Some r \<Rightarrow> if wd_status r = WdRejected
          then \<exists>t. refunds = [t] \<and> t_userId t = wd_userId r \<and> t_amountCents t = wd_amountCents r
          else refunds = [])"

definition wd_inv :: "'z money_store_scheme \<Rightarrow> bool" where
  "wd_inv s \<longleftrightarrow> books_ok s \<and> wds_wf (m_withdrawals s) \<and>
     (\<forall>i. held_ok (wd_find i (m_withdrawals s)) (refund_rows i s))"

lemma wd_inv_update:
  assumes "wd_inv s" "books_ok s'" "wds_wf (m_withdrawals s')"
    and "l_rows (m_ledger s') = l_rows (m_ledger s) @ new"
    and "\<And>t j. t \<in> set new \<Longrightarrow> j \<noteq> i \<Longrightarrow> \<not> is_refund j t"
    and "\<And>j. j \<noteq> i \<Longrightarrow> wd_find j (m_withdrawals s') = wd_find j (m_withdrawals s)"
    and "held_ok (wd_find i (m_withdrawals s')) (refund_rows i s')"
  shows "wd_inv s'"
proof -
  have "held_ok (wd_find j (m_withdrawals s')) (refund_rows j s')" if "j \<noteq> i" for j
  proof -
    have "refund_rows j s' = refund_rows j s"
      using assms(5)[OF _ that] by (auto simp: refund_rows_def assms(4) filter_empty_conv)
    with assms(1,6) that show ?thesis by (simp add: wd_inv_def)
  qed
  with assms(2,3,7) show ?thesis unfolding wd_inv_def by metis
qed

lemma books_ok_withdrawals [simp]: "books_ok (s\<lparr>m_withdrawals := ws\<rparr>) = books_ok s"
  by (simp add: books_ok_def)

lemma refund_rows_withdrawals [simp]: "refund_rows i (s\<lparr>m_withdrawals := ws\<rparr>) = refund_rows i s"
  by (simp add: refund_rows_def)

text \<open>Giving the money back under a fresh reference books one refund row of the withdrawal.\<close>

lemma give_back_posts:
  assumes "books_ok s" "refund_rows i s = []"
    and "credit w uid amt ((plain_credit AdminAdjust reason)\<lparr>co_providerRef := Some ref\<rparr>) now s = (Inr x, s')"
    and "ref = refund_ref_of i \<or> ref = reversal_ref i"
  obtains t where "books_ok s'" "only_books s s'" "l_rows (m_ledger s') = l_rows (m_ledger s) @ [t]"
    "is_refund i t" "t_userId t = uid" "t_amountCents t = amt"
proof -
  have ref: "ref \<noteq> []" using assms(4) refund_ref_inj(5,6) by metis
  have none: "\<forall>t\<in>set (l_rows (m_ledger s)). t_providerRef t \<noteq> Some ref"
    using assms(2,4) by (auto simp: refund_rows_def filter_empty_conv is_refund_def)
  have co: "co_providerRef ((plain_credit AdminAdjust reason)\<lparr>co_providerRef := Some ref\<rparr>) = Some ref" by simp
  obtain t where t: "books_ok s'" "only_books s s'" "l_rows (m_ledger s') = l_rows (m_ledger s) @ [t]"
    "row_facts t = pay_facts (uid, amt, (plain_credit AdminAdjust reason)\<lparr>co_providerRef := Some ref\<rparr>)"
    using wpay.pay_new[OF assms(1) co ref none assms(3)] by blast
  then have "is_refund i t" "t_userId t = uid" "t_amountCents t = amt"
    using assms(4) by (auto simp: row_facts_def pay_facts_def is_refund_def)
  with t that show thesis by blast
qed

subsection \<open>Every operation keeps the held money in order\<close>

lemma held_row: "wd_inv s \<Longrightarrow> wd_find i (m_withdrawals s) = Some r \<Longrightarrow> wd_status r \<noteq> WdRejected \<Longrightarrow> refund_rows i s = []"
  by (auto simp: wd_inv_def held_ok_def dest!: spec[of _ i] split: if_splits)

lemma claim_cases:
  assumes "wds_wf (m_withdrawals s)"
  obtains (refused) "claim i st a now s = (Inl (WithdrawalError ''not_pending''), s)"
      "\<And>r. wd_find i (m_withdrawals s) = Some r \<Longrightarrow> wd_status r \<noteq> WdPending"
  | (claimed) r r' ws where "claim i st a now s = (Inr r', s\<lparr>m_withdrawals := ws\<rparr>)"
      "wd_find i (m_withdrawals s) = Some r" "wd_status r = WdPending" "wd_find i ws = Some r'" "wd_status r' = st"
      "wd_userId r' = wd_userId r" "wd_amountCents r' = wd_amountCents r" "wds_wf ws"
      "\<And>j. j \<noteq> i \<Longrightarrow> wd_find j ws = wd_find j (m_withdrawals s)"
proof (rule setStatusIfPending_cases[of i "m_withdrawals s" st a now])
  assume "wd_find i (m_withdrawals s) = None \<or> (\<exists>r. wd_find i (m_withdrawals s) = Some r \<and> wd_status r \<noteq> WdPending)"
    "setStatusIfPending i st a now (m_withdrawals s) = (None, m_withdrawals s)"
  then show thesis by (intro refused) (auto simp: claim_def wd_fail_def)
next
  fix r r' ws
  assume "wd_find i (m_withdrawals s) = Some r" "wd_status r = WdPending"
    "setStatusIfPending i st a now (m_withdrawals s) = (Some r', ws)" "wd_find i ws = Some r'"
    "\<And>j. j \<noteq> i \<Longrightarrow> wd_find j ws = wd_find j (m_withdrawals s)" "wd_status r' = st" "wd_userId r' = wd_userId r"
    "wd_amountCents r' = wd_amountCents r" "wds_wf ws = wds_wf (m_withdrawals s)"
  with assms show thesis by (intro claimed[of r' ws r]) (simp_all add: claim_def)
qed

lemma claim_completed_inv:
  assumes "wd_inv s" "claim i WdCompleted a now s = (Inr r', s1)"
  shows "wd_inv s1" "refund_rows i s1 = []" "\<exists>r. wd_find i (m_withdrawals s) = Some r \<and>
    wd_userId r' = wd_userId r \<and> wd_amountCents r' = wd_amountCents r"
    "wd_find i (m_withdrawals s1) = Some r'" "wd_status r' = WdCompleted"
    "m_users s1 = m_users s" "m_ledger s1 = m_ledger s"
proof -
  have wf: "wds_wf (m_withdrawals s)" using assms(1) by (simp add: wd_inv_def)
  obtain r ws where c: "s1 = s\<lparr>m_withdrawals := ws\<rparr>" "wd_find i (m_withdrawals s) = Some r" "wd_status r = WdPending"
    "wd_find i ws = Some r'" "wd_status r' = WdCompleted" "wd_userId r' = wd_userId r"
    "wd_amountCents r' = wd_amountCents r" "wds_wf ws"
    "\<And>j. j \<noteq> i \<Longrightarrow> wd_find j ws = wd_find j (m_withdrawals s)"
    by (rule claim_cases[OF wf, of i WdCompleted a now]) (use assms(2) in auto)
  have e: "refund_rows i s = []" using held_row[OF assms(1) c(2)] c(3) by simp
  show "wd_inv s1"
    by (rule wd_inv_update[OF assms(1), of _ "[]" i])
       (use assms(1) c e in \<open>simp_all add: wd_inv_def held_ok_def\<close>)
  show "refund_rows i s1 = []" "wd_find i (m_withdrawals s1) = Some r'" "wd_status r' = WdCompleted"
    "m_users s1 = m_users s" "m_ledger s1 = m_ledger s" using e c by simp_all
  show "\<exists>r. wd_find i (m_withdrawals s) = Some r \<and> wd_userId r' = wd_userId r \<and> wd_amountCents r' = wd_amountCents r"
    using c by blast
qed

lemma set_audit_inv:
  assumes "wd_inv s"
  shows "wd_inv (set_audit i a s)"
proof (rule wd_inv_update[OF assms, of _ "[]" i])
  have "held_ok (wd_find i (m_withdrawals s)) (refund_rows i s)" "wds_wf (m_withdrawals s)"
    using assms by (simp_all add: wd_inv_def)
  then show "held_ok (wd_find i (m_withdrawals (set_audit i a s))) (refund_rows i (set_audit i a s))"
    by (cases "wd_find i (m_withdrawals s)") (auto simp: set_audit_def wd_setAudit_find held_ok_def)
qed (use assms in \<open>auto simp: set_audit_def wd_inv_def wd_setAudit_find\<close>)

text \<open>Refund of a completed payout followed by its reversal.\<close>

lemma reverse_completed_inv:
  assumes "wd_inv s" "wd_find i (m_withdrawals s) = Some r" "wd_status r = WdCompleted"
    and "credit w (wd_userId r) (wd_amountCents r) ((plain_credit AdminAdjust reason)\<lparr>co_providerRef := Some ref\<rparr>) now s = (Inr x, s1)"
    and "ref = refund_ref_of i \<or> ref = reversal_ref i"
  shows "wd_inv (mark_reversed i now s1)"
    "\<exists>r'. wd_find i (m_withdrawals (mark_reversed i now s1)) = Some r' \<and> wd_status r' = WdRejected"
    "getBalance (wd_userId r) (mark_reversed i now s1) = getBalance (wd_userId r) s + wd_amountCents r"
proof -
  have b: "books_ok s" and e: "refund_rows i s = []" using assms(1) held_row[OF assms(1,2)] assms(3) by (auto simp: wd_inv_def)
  obtain t where t: "books_ok s1" "only_books s s1" "l_rows (m_ledger s1) = l_rows (m_ledger s) @ [t]"
    "is_refund i t" "t_userId t = wd_userId r" "t_amountCents t = wd_amountCents r"
    by (rule give_back_posts[OF b e assms(4,5)])
  have w: "m_withdrawals s1 = m_withdrawals s" using only_books_frame(2)[OF t(2)] .
  have f: "wd_find i (m_withdrawals (mark_reversed i now s1)) = Some (r\<lparr>wd_status := WdRejected, wd_resolvedAt := Some now,
               wd_failureReason := Some ''payout failed on-chain (auto-reversed)''\<rparr>)"
    using assms(2,3) by (simp add: mark_reversed_def wd_markReversed_find w)
  then show "\<exists>r'. wd_find i (m_withdrawals (mark_reversed i now s1)) = Some r' \<and> wd_status r' = WdRejected" by simp
  show "wd_inv (mark_reversed i now s1)"
  proof (rule wd_inv_update[OF assms(1), of _ "[t]" i])
    show "held_ok (wd_find i (m_withdrawals (mark_reversed i now s1))) (refund_rows i (mark_reversed i now s1))"
      unfolding f using e t(3-6) by (simp add: held_ok_def mark_reversed_def refund_rows_def)
  qed (use assms(1) t w is_refund_unique in \<open>auto simp: mark_reversed_def wd_markReversed_find wd_inv_def\<close>)
  have "t_userId t \<noteq> HOUSE_ACCOUNT_ID"
    using assms(4) b HOUSE_unknown t(5) unfolding books_ok_def
    by (auto simp: credit_def findById_def known_iff split: option.splits)
  then show "getBalance (wd_userId r) (mark_reversed i now s1) = getBalance (wd_userId r) s + wd_amountCents r"
    using posted_balance[OF b, of t s1 "wd_userId r"] t by (simp add: posted_def getBalance_eq mark_reversed_def)
qed

definition tx_service ::
  "('s \<Rightarrow> 's \<Rightarrow> 's) \<Rightarrow> withdrawal_limits \<Rightarrow> (string \<Rightarrow> bool) \<Rightarrow> 's withdrawal_service" where
  "tx_service uow lims valid =
     \<lparr>sv_wallet = tx_wallet uow, sv_limits = lims, sv_uow = Some uow, sv_validAddress = valid\<rparr>"

lemma tx_service_simps [simp]:
  "sv_wallet (tx_service uow lims valid) = tx_wallet uow" "sv_limits (tx_service uow lims valid) = lims"
  "sv_uow (tx_service uow lims valid) = Some uow" "sv_validAddress (tx_service uow lims valid) = valid"
  by (simp_all add: tx_service_def)

text \<open>A request holds the amount and opens a pending row, or changes nothing.\<close>

lemma request_cases:
  assumes "rolls_back uow" "books_ok s"
  obtains (refused) e where "request_withdrawal (tx_service uow lims valid) uid amt dest now s = (Inl e, s)"
  | (held) m t r s' where "request_withdrawal (tx_service uow lims valid) uid amt dest now s = (Inr r, s')"
      "posted t s m" "t_providerRef t = None" "t_matchId t = None" "t_userId t = uid" "t_amountCents t = - amt"
      "s' = m\<lparr>m_withdrawals := snd (wd_create uid amt dest now (m_withdrawals s))\<rparr>"
      "r = fst (wd_create uid amt dest now (m_withdrawals s))"
      "uid \<in> known (m_users s)" "lim_minCents lims \<le> amt" "amt \<le> lim_maxCents lims" "0 < amt" "amt \<le> getBalance uid s"
proof -
  let ?fn = "bind_act (hold_debit bind_wallet uid amt now) (\<lambda>_. create_row uid amt dest now)"
  note d = request_withdrawal_def wd_fail_def
  show thesis
  proof (cases "amt \<le> 0 \<or> amt < lim_minCents lims \<or> amt > lim_maxCents lims \<or> dest = [] \<or> length (js_trim dest) < 4")
    case True
    then have "\<exists>e. request_withdrawal (tx_service uow lims valid) uid amt dest now s = (Inl e, s)" by (auto simp: d)
    then show thesis using refused by blast
  next
    case False
    then have run: "request_withdrawal (tx_service uow lims valid) uid amt dest now s =
        map_error as_withdrawal_error (transaction_in uow ?fn) s" by (simp add: d)
    show thesis
    proof (cases "transaction_in uow ?fn s")
      case (Pair res s')
      show thesis
      proof (cases res)
        case (Inl e)
        with Pair transaction_Inl[OF assms(1), of ?fn s e s'] show thesis
          by (intro refused[of "as_withdrawal_error e"]) (simp add: run map_error_def)
      next
        case (Inr r)
        with Pair obtain x m where m: "hold_debit bind_wallet uid amt now s = (Inr x, m)"
          "create_row uid amt dest now m = (Inr r, s')" by (auto simp: bind_act_Inr)
        let ?do = "plain_debit Withdrawal ''kerkese terheqjeje''"
        let ?t = "new_row (Suc (l_seq (m_ledger s))) (debit_row uid amt ?do) now"
        have p: "posted ?t s m" "uid \<in> known (m_users s)" "amt \<le> getBalance uid s"
          by (rule debit_cases[OF assms(2), of amt bind_wallet uid ?do now]; use m(1) in \<open>auto simp: hold_debit_def\<close>)+
        have w: "m_withdrawals m = m_withdrawals s" using p(1) only_books_frame(2)[of s m] by (simp add: posted_def)
        have rs: "r = fst (wd_create uid amt dest now (m_withdrawals s))"
          "s' = m\<lparr>m_withdrawals := snd (wd_create uid amt dest now (m_withdrawals s))\<rparr>"
          using m(2) by (auto simp: create_row_def w split: prod.splits)
        show thesis
          by (rule held[of r s' ?t m]) (use p rs False Pair Inr in \<open>auto simp: run map_error_def plain_debit_def simp del: transaction_Inr\<close>)
      qed
    qed
  qed
qed

lemma request_inv:
  assumes "rolls_back uow" "wd_inv s"
  shows "wd_inv (snd (request_withdrawal (tx_service uow lims valid) uid amt dest now s))"
proof -
  have b: "books_ok s" and wf: "wds_wf (m_withdrawals s)" using assms(2) by (simp_all add: wd_inv_def)
  show ?thesis
  proof (rule request_cases[OF assms(1) b, of lims valid uid amt dest now])
    fix m t r s'
    assume req: "request_withdrawal (tx_service uow lims valid) uid amt dest now s = (Inr r, s')"
      and p: "posted t s m" "t_providerRef t = None"
      and s': "s' = m\<lparr>m_withdrawals := snd (wd_create uid amt dest now (m_withdrawals s))\<rparr>"
    obtain rec ws where c: "wd_create uid amt dest now (m_withdrawals s) = (rec, ws)" by force
    note cf = wd_create_facts[OF wf c]
    have none: "refund_rows (wd_id rec) s = []"
      using assms(2) cf(2) by (auto simp: wd_inv_def held_ok_def dest!: spec[of _ "wd_id rec"])
    have nr: "\<not> is_refund j t" for j using p(2) by (simp add: is_refund_def)
    have "wd_inv s'"
    proof (rule wd_inv_update[OF assms(2), of _ "[t]" "wd_id rec"])
      show "held_ok (wd_find (wd_id rec) (m_withdrawals s')) (refund_rows (wd_id rec) s')"
        using none nr p(1) cf(3,5) by (simp add: s' c held_ok_def refund_rows_def posted_def)
    qed (use p(1) nr cf in \<open>auto simp: s' c posted_def\<close>)
    with req show ?thesis by simp
  qed (use assms(2) in simp)
qed

lemma approve_inv: "wd_inv s \<Longrightarrow> wd_inv (snd (approve i a now s))"
proof -
  assume inv: "wd_inv s"
  then have wf: "wds_wf (m_withdrawals s)" by (simp add: wd_inv_def)
  have "wd_inv (snd (claim i WdCompleted a now s))"
  proof (cases "claim i WdCompleted a now s")
    case (Pair res s1)
    show ?thesis
    proof (cases res)
      case (Inl e)
      with Pair inv show ?thesis by (cases rule: claim_cases[OF wf, of i WdCompleted a now]) auto
    next
      case (Inr r)
      with Pair claim_completed_inv(1)[OF inv, of i a now r s1] show ?thesis by simp
    qed
  qed
  with inv show ?thesis by (simp add: approve_def wd_fail_def split: option.split)
qed

lemma reject_cases:
  assumes "rolls_back uow" "wd_inv s"
  obtains (refused) e where "reject (tx_service uow lims valid) i a now s = (Inl e, s)"
  | (returned) r r' s' where "reject (tx_service uow lims valid) i a now s = (Inr r', s')"
      "wd_find i (m_withdrawals s) = Some r" "wd_status r = WdPending" "wd_inv s'"
      "wd_find i (m_withdrawals s') = Some r'" "wd_status r' = WdRejected"
      "\<not> self_resolved (wr_resolvedByAdminId a) r"
proof (cases "wd_find i (m_withdrawals s)")
  case None
  then show thesis by (intro refused) (simp add: reject_def wd_fail_def)
next
  case (Some r)
  let ?fn = "bind_act (claim i WdRejected a now) (\<lambda>claimed.
      bind_act (refund_credit bind_wallet i r ''rikthim terheqjeje'' now) (\<lambda>_. return_act claimed))"
  show thesis
  proof (cases "wd_status r = WdPending \<and> \<not> self_resolved (wr_resolvedByAdminId a) r")
    case False
    with Some show thesis by (cases "wd_status r = WdPending") (auto intro!: refused simp: reject_def wd_fail_def)
  next
    case True
    with Some have run: "reject (tx_service uow lims valid) i a now s = transaction_in uow ?fn s"
      by (simp add: reject_def)
    show thesis
    proof (cases "transaction_in uow ?fn s")
      case (Pair res s')
      show thesis
      proof (cases res)
        case (Inl e)
        with Pair transaction_Inl[OF assms(1), of ?fn s e s'] show thesis by (intro refused[of e]) (simp add: run)
      next
        case (Inr r')
        with Pair obtain x s1 where c: "claim i WdRejected a now s = (Inr r', s1)"
          and g: "refund_credit bind_wallet i r ''rikthim terheqjeje'' now s1 = (Inr x, s')"
          by (auto simp: act_simps)
        have wf: "wds_wf (m_withdrawals s)" using assms(2) by (simp add: wd_inv_def)
        obtain ws where cl: "s1 = s\<lparr>m_withdrawals := ws\<rparr>" "wd_find i ws = Some r'" "wd_status r' = WdRejected"
          "wd_userId r' = wd_userId r" "wd_amountCents r' = wd_amountCents r" "wds_wf ws"
          "\<And>j. j \<noteq> i \<Longrightarrow> wd_find j ws = wd_find j (m_withdrawals s)"
          by (rule claim_cases[OF wf, of i WdRejected a now]) (use c Some in auto)
        have b: "books_ok s1" "refund_rows i s1 = []"
          using assms(2) held_row[OF assms(2) Some] True by (simp_all add: cl(1) wd_inv_def)
        obtain t where t: "books_ok s'" "only_books s1 s'" "l_rows (m_ledger s') = l_rows (m_ledger s1) @ [t]"
          "is_refund i t" "t_userId t = wd_userId r" "t_amountCents t = wd_amountCents r"
          by (rule give_back_posts[OF b g[unfolded refund_credit_def]]) simp
        have w: "m_withdrawals s' = ws" using only_books_frame(2)[OF t(2)] by (simp add: cl(1))
        have "wd_inv s'"
        proof (rule wd_inv_update[OF assms(2), of _ "[t]" i])
          show "held_ok (wd_find i (m_withdrawals s')) (refund_rows i s')"
            using b(2) t(3-6) cl(1-5) by (simp add: w held_ok_def refund_rows_def)
        qed (use t cl w is_refund_unique in auto)
        with Some True Pair Inr cl w show thesis by (intro returned[of r' s' r]) (simp_all add: run)
      qed
    qed
  qed
qed

lemma payoutNow_inv:
  assumes "rolls_back uow" "wd_inv s"
  shows "wd_inv (snd (payoutNow (tx_service uow lims valid) i p a now s))"
proof (cases "wd_find i (m_withdrawals s)")
  case None
  then show ?thesis using assms(2) by (simp add: payoutNow_def wd_fail_def)
next
  case (Some rec)
  let ?sv = "tx_service uow lims valid"
  show ?thesis
  proof (cases "wd_status rec = WdPending \<and> \<not> self_resolved (Some a) rec \<and> valid (wd_destination rec)
      \<and> p \<noteq> None \<and> pp_name (the p) \<noteq> ''null''")
    case False
    then show ?thesis using Some assms(2) approve_inv[OF assms(2)]
      by (auto simp: payoutNow_def wd_fail_def split: option.split)
  next
    case True
    then obtain q where q: "p = Some q" "pp_name q \<noteq> ''null''" by auto
    have wf: "wds_wf (m_withdrawals s)" using assms(2) by (simp add: wd_inv_def)
    show ?thesis
    proof (cases "claim i WdCompleted (resolved_by a) now s")
      case (Pair res s1)
      show ?thesis
      proof (cases res)
        case (Inl e)
        with Pair have "s1 = s" by (cases rule: claim_cases[OF wf, of i WdCompleted "resolved_by a" now]) auto
        with Inl Pair True Some q assms(2) show ?thesis by (simp add: payoutNow_def bind_act_def)
      next
        case (Inr r1)
        with Pair have c: "claim i WdCompleted (resolved_by a) now s = (Inr r1, s1)" by simp
        note cf = claim_completed_inv[OF assms(2) c]
        have same: "wd_userId r1 = wd_userId rec" "wd_amountCents r1 = wd_amountCents rec" using cf(3) Some by auto
        let ?req = "\<lparr>pq_withdrawalId = i, pq_amountCents = wd_amountCents rec, pq_address = wd_destination rec\<rparr>"
        let ?paybk = "refund_credit (tx_wallet uow) i rec ''rikthim: pagesa e terheqjes deshtoi'' now s1"
        have "wd_inv (snd (bind_act (refund_credit (tx_wallet uow) i rec ''rikthim: pagesa e terheqjes deshtoi'' now)
            (\<lambda>_ s. wd_fail ''payout_failed'' (mark_reversed i now s)) s1))"
        proof (cases ?paybk)
          case (Pair res s2)
          show ?thesis
          proof (cases res)
            case (Inl e)
            with Pair have "s2 = s1" using credit_fails_clean[OF assms(1)] by (simp add: refund_credit_def)
            with Inl Pair cf(1) show ?thesis by (simp add: bind_act_def)
          next
            case (Inr x)
            with Pair have "credit (tx_wallet uow) (wd_userId r1) (wd_amountCents r1) ((plain_credit AdminAdjust
                ''rikthim: pagesa e terheqjes deshtoi'')\<lparr>co_providerRef := Some (refund_ref_of i)\<rparr>) now s1 = (Inr x, s2)"
              by (simp add: refund_credit_def same)
            from reverse_completed_inv(1)[OF cf(1,4,5) this] have "wd_inv (mark_reversed i now s2)" by simp
            with Inr Pair show ?thesis by (simp add: bind_act_def wd_fail_def)
          qed
        qed
        with True Some q c cf(1) set_audit_inv[OF cf(1)] show ?thesis
          by (auto simp: payoutNow_def bind_act_def wd_fail_def split: sum.split)
      qed
    qed
  qed
qed

lemma autoPayout_inv:
  assumes "rolls_back uow" "wd_inv s"
  shows "wd_inv (snd (autoPayout (tx_service uow lims valid) i p now s))"
proof (cases "wd_find i (m_withdrawals s)")
  case None
  then show ?thesis using assms(2) by (simp add: autoPayout_def)
next
  case (Some rec)
  have wf: "wds_wf (m_withdrawals s)" using assms(2) by (simp add: wd_inv_def)
  show ?thesis
  proof (cases "claim i WdCompleted no_resolution now s")
    case (Pair res s1)
    show ?thesis
    proof (cases res)
      case (Inl e)
      with Pair have "s1 = s" by (cases rule: claim_cases[OF wf, of i WdCompleted no_resolution now]) auto
      with Inl Pair Some assms(2) show ?thesis by (simp add: autoPayout_def)
    next
      case (Inr r1)
      with Pair have c: "claim i WdCompleted no_resolution now s = (Inr r1, s1)" by simp
      note cf = claim_completed_inv[OF assms(2) c]
      have same: "wd_userId r1 = wd_userId rec" "wd_amountCents r1 = wd_amountCents rec" using cf(3) Some by auto
      have "wd_inv (case refund_credit (tx_wallet uow) i rec ''rikthim: auto-pagesa deshtoi'' now s1 of
                      (Inl _, s2) \<Rightarrow> s2 | (Inr _, s2) \<Rightarrow> mark_reversed i now s2)"
      proof (cases "refund_credit (tx_wallet uow) i rec ''rikthim: auto-pagesa deshtoi'' now s1")
        case (Pair res s2)
        show ?thesis
        proof (cases res)
          case (Inl e)
          with Pair have "s2 = s1" using credit_fails_clean[OF assms(1)] by (simp add: refund_credit_def)
          with Inl Pair cf(1) show ?thesis by simp
        next
          case (Inr x)
          with Pair have "credit (tx_wallet uow) (wd_userId r1) (wd_amountCents r1) ((plain_credit AdminAdjust
              ''rikthim: auto-pagesa deshtoi'')\<lparr>co_providerRef := Some (refund_ref_of i)\<rparr>) now s1 = (Inr x, s2)"
            by (simp add: refund_credit_def same)
          from reverse_completed_inv(1)[OF cf(1,4,5) this] have "wd_inv (mark_reversed i now s2)" by simp
          with Inr Pair show ?thesis by simp
        qed
      qed
      with Some c assms(2) set_audit_inv[OF cf(1)] show ?thesis
        by (simp add: autoPayout_def Let_def split: if_split)
    qed
  qed
qed

lemma reconcile_failed_inv:
  assumes "rolls_back uow" "wd_inv s"
  shows "wd_inv (snd (reconcileFailedWithdrawals (tx_wallet uow) bs n now s))"
  using assms(2)
proof (induction bs arbitrary: n s)
  case (Cons b bs)
  let ?i = "bs_withdrawOrderId b"
  show ?case
  proof (cases "bs_failed b \<and> (\<exists>r. wd_find ?i (m_withdrawals s) = Some r \<and> wd_status r = WdCompleted)")
    case False
    then show ?thesis using Cons by (auto split: option.split)
  next
    case True
    then obtain r where r: "wd_find ?i (m_withdrawals s) = Some r" "wd_status r = WdCompleted" by blast
    show ?thesis
    proof (cases "reverse_credit (tx_wallet uow) ?i r now s")
      case (Pair res s1)
      show ?thesis
      proof (cases res)
        case (Inl e)
        with Pair have "s1 = s" using credit_fails_clean[OF assms(1)] by (simp add: reverse_credit_def)
        with Inl Pair True r Cons.prems show ?thesis by simp
      next
        case (Inr x)
        with Pair have "credit (tx_wallet uow) (wd_userId r) (wd_amountCents r) ((plain_credit AdminAdjust
            ''rikthim: terheqja deshtoi ne Binance'')\<lparr>co_providerRef := Some (reversal_ref ?i)\<rparr>) now s = (Inr x, s1)"
          by (simp add: reverse_credit_def)
        from reverse_completed_inv(1)[OF Cons.prems r this] have "wd_inv (mark_reversed ?i now s1)" by simp
        with Inr Pair True r Cons.IH show ?thesis by simp
      qed
    qed
  qed
qed simp

subsection \<open>Histories\<close>

datatype wd_op =
  WdWallet wallet_op
| WdRequest user_id cents string
| WdApprove string wd_resolution
| WdReject string wd_resolution
| WdPayoutNow string "payout_provider option" "string option"
| WdAutoPayout string payout_provider
| WdReconcile "binance_status list"

fun wd_step ::
  "('z money_store_scheme \<Rightarrow> 'z money_store_scheme \<Rightarrow> 'z money_store_scheme) \<Rightarrow> withdrawal_limits \<Rightarrow> (string \<Rightarrow> bool) \<Rightarrow>
     'z money_store_scheme \<Rightarrow> wd_op \<times> int \<Rightarrow> 'z money_store_scheme" where
  "wd_step uow lims valid s (WdWallet op, now) = wallet_step uow s (op, now)"
| "wd_step uow lims valid s (WdRequest uid amt dest, now) =
     snd (request_withdrawal (tx_service uow lims valid) uid amt dest now s)"
| "wd_step uow lims valid s (WdApprove i a, now) = snd (approve i a now s)"
| "wd_step uow lims valid s (WdReject i a, now) = snd (reject (tx_service uow lims valid) i a now s)"
| "wd_step uow lims valid s (WdPayoutNow i p a, now) = snd (payoutNow (tx_service uow lims valid) i p a now s)"
| "wd_step uow lims valid s (WdAutoPayout i p, now) = snd (autoPayout (tx_service uow lims valid) i p now s)"
| "wd_step uow lims valid s (WdReconcile bs, now) = snd (reconcileFailedWithdrawals (tx_wallet uow) bs 0 now s)"

text \<open>Other wallet movements do not use the references of withdrawal refunds.\<close>

fun wd_proper :: "wd_op \<Rightarrow> bool" where
  "wd_proper (WdWallet op) = (\<forall>i. op_ref op \<noteq> Some (refund_ref_of i) \<and> op_ref op \<noteq> Some (reversal_ref i))"
| "wd_proper _ = True"

lemma wd_wallet_inv:
  assumes "rolls_back uow" "wd_inv s" "wd_proper (WdWallet op)"
  shows "wd_inv (wallet_step uow s (op, now))"
proof -
  have b: "books_ok s" using assms(2) by (simp add: wd_inv_def)
  obtain new where a: "books_ok (wallet_step uow s (op, now))"
    "m_withdrawals (wallet_step uow s (op, now)) = m_withdrawals s"
    "l_rows (m_ledger (wallet_step uow s (op, now))) = l_rows (m_ledger s) @ new"
    "\<forall>row\<in>set new. row_from (op_match op) (op_ref op) row"
    using wallet_step_appends[OF assms(1) b, of op now] unfolding appends_def by blast
  have nr: "\<not> is_refund j t" if "t \<in> set new" for j t
    using a(4) assms(3) that by (auto simp: row_from_def is_refund_def)
  then have "refund_rows j (wallet_step uow s (op, now)) = refund_rows j s" for j
    by (auto simp: refund_rows_def a(3) filter_empty_conv)
  with a(1,2) assms(2) show ?thesis by (simp add: wd_inv_def)
qed

lemma wd_step_inv:
  assumes "rolls_back uow" "wd_inv s" "wd_proper op"
  shows "wd_inv (wd_step uow lims valid s (op, now))"
proof (cases op)
  case (WdWallet wop)
  with wd_wallet_inv[OF assms(1,2)] assms(3) show ?thesis by simp
next
  case (WdReject i a)
  have "wd_inv (snd (reject (tx_service uow lims valid) i a now s))"
    by (rule reject_cases[OF assms(1,2), of lims valid i a now]) (use assms(2) in auto)
  with WdReject show ?thesis by simp
qed (use request_inv[OF assms(1,2)] approve_inv[OF assms(2)] payoutNow_inv[OF assms(1,2)]
      autoPayout_inv[OF assms(1,2)] reconcile_failed_inv[OF assms(1,2)] in simp_all)

definition wd_guarded where
  "wd_guarded uow lims valid s p = (if wd_proper (fst p) then wd_step uow lims valid s p else s)"

interpretation wdr: invariant_system "wd_guarded uow lims valid" "\<lambda>s. rolls_back uow \<and> wd_inv s" for uow lims valid
  by unfold_locales (auto simp: wd_guarded_def intro: wd_step_inv)

lemma wd_run: "list_all (\<lambda>p. wd_proper (fst p)) ops \<Longrightarrow>
    foldl (wd_step uow lims valid) s ops = foldl (wd_guarded uow lims valid) s ops"
  by (induction ops arbitrary: s) (simp_all add: wd_guarded_def)

subsection \<open>Properties\<close>

text \<open>A withdrawal request holds the money or changes nothing. When it succeeds the amount was
  within the limits and the balance, exactly this amount left the user's balance, and one new
  pending withdrawal of this user and amount exists; when it fails the store is unchanged.\<close>

theorem withdrawal_request_correct:
  assumes "rolls_back uow" "wd_inv s"
  shows "case request_withdrawal (tx_service uow lims valid) uid amt dest now s of
      (Inl e, s') \<Rightarrow> s' = s
    | (Inr r, s') \<Rightarrow> lim_minCents lims \<le> amt \<and> amt \<le> lim_maxCents lims \<and> 0 < amt \<and> amt \<le> getBalance uid s \<and>
        getBalance uid s' = getBalance uid s - amt \<and>
        (\<forall>v. v \<noteq> uid \<longrightarrow> v \<noteq> HOUSE_ACCOUNT_ID \<longrightarrow> getBalance v s' = getBalance v s) \<and>
        wd_find (wd_id r) (m_withdrawals s) = None \<and> wd_find (wd_id r) (m_withdrawals s') = Some r \<and>
        wd_status r = WdPending \<and> wd_userId r = uid \<and> wd_amountCents r = amt"
proof -
  have b: "books_ok s" and wf: "wds_wf (m_withdrawals s)" using assms(2) by (simp_all add: wd_inv_def)
  show ?thesis
  proof (rule request_cases[OF assms(1) b, of lims valid uid amt dest now])
    fix e
    assume e: "request_withdrawal (tx_service uow lims valid) uid amt dest now s = (Inl e, s)"
    show ?thesis by (simp add: e)
  next
    fix m t r s'
    assume req: "request_withdrawal (tx_service uow lims valid) uid amt dest now s = (Inr r, s')"
      and p: "posted t s m" "t_userId t = uid" "t_amountCents t = - amt"
      and s': "s' = m\<lparr>m_withdrawals := snd (wd_create uid amt dest now (m_withdrawals s))\<rparr>"
      and r: "r = fst (wd_create uid amt dest now (m_withdrawals s))"
      and g: "uid \<in> known (m_users s)" "lim_minCents lims \<le> amt" "amt \<le> lim_maxCents lims" "0 < amt" "amt \<le> getBalance uid s"
    have u: "uid \<noteq> HOUSE_ACCOUNT_ID" using g(1) HOUSE_unknown b by (auto simp: books_ok_def)
    have bal: "getBalance v s' = getBalance v s + (if uid = v then - amt else 0)" if "v \<noteq> HOUSE_ACCOUNT_ID" for v
      using posted_balance[OF b p(1) that] p(2,3) by (simp add: s' getBalance_eq)
    obtain ws where c: "wd_create uid amt dest now (m_withdrawals s) = (r, ws)" using r by (metis prod.collapse)
    note cf = wd_create_facts[OF wf c]
    show ?thesis using bal[OF u] bal cf g req by (simp add: s' c)
  qed
qed

lemma wd_inv_demo: "wd_inv demo_store"
proof -
  have none: "l_rows (m_ledger demo_store) = [new_row 1 (credit_row ''u_1'' 500 (plain_credit Deposit ''d'') None) 2]"
    by code_simp
  have w: "m_withdrawals demo_store = \<lparr>ws_rows = [], ws_seq = 0\<rparr>" by code_simp
  show ?thesis
    using demo_store_books by (simp add: wd_inv_def none w wds_wf_def wd_find_def held_ok_def refund_rows_def is_refund_def)
qed

theorem withdrawal_request_correct_witness:
  "case request_withdrawal (tx_service rollback default_limits (\<lambda>_. True)) ''u_1'' 500 ''Tabcdef'' 9 demo_store of
      (Inl e, s') \<Rightarrow> False | (Inr r, s') \<Rightarrow> getBalance ''u_1'' s' = getBalance ''u_1'' demo_store - 500"
proof -
  have "\<not> isl (fst (request_withdrawal (tx_service rollback default_limits (\<lambda>_. True)) ''u_1'' 500 ''Tabcdef'' 9 demo_store))"
    by code_simp
  then show ?thesis
    using withdrawal_request_correct[OF rolls_back_rollback wd_inv_demo, where lims=default_limits
        and valid="\<lambda>_. True" and uid="''u_1''" and amt=500 and dest="''Tabcdef''" and now=9]
    by (auto split: prod.splits sum.splits)
qed


definition failing_provider :: payout_provider where
  "failing_provider = \<lparr>pp_name = ''binance'', pp_payout = (\<lambda>_. Inr \<lparr>pr_ok = False, pr_providerRef = None,
     pr_error = Some ''rejected'', pr_duplicate = False, pr_ambiguous = False\<rparr>)\<rparr>"

definition demo_history :: "(wd_op \<times> int) list" where
  "demo_history = [(WdRequest ''u_1'' 500 ''Tabcdef'', 9), (WdAutoPayout ''wd_1'' failing_provider, 10),
     (WdReconcile [\<lparr>bs_withdrawOrderId = ''wd_1'', bs_status = 5, bs_amountCents = 500\<rparr>], 11)]"


definition maybe_sent :: "(string + payout_result) \<Rightarrow> bool" where
  "maybe_sent r = (case r of Inl _ \<Rightarrow> True | Inr x \<Rightarrow> pr_ok x \<or> pr_duplicate x \<or> pr_ambiguous x)"

lemma claim_books:
  assumes "wds_wf (m_withdrawals s)"
  shows "m_ledger (snd (claim i st a now s)) = m_ledger s" "m_users (snd (claim i st a now s)) = m_users s"
  by (rule claim_cases[OF assms, of i st a now]; simp)+

definition payout_request_of :: "string \<Rightarrow> withdrawal \<Rightarrow> payout_request" where
  "payout_request_of i r = \<lparr>pq_withdrawalId = i, pq_amountCents = wd_amountCents r, pq_address = wd_destination r\<rparr>"

lemma claim_pair:
  assumes "wds_wf (m_withdrawals s)" "claim i st a now s = (x, s1)"
  shows "m_ledger s1 = m_ledger s" "m_users s1 = m_users s"
  using claim_books[OF assms(1), of i st a now] assms(2) by simp_all

lemma set_audit_books [simp]:
  "m_ledger (set_audit i a s) = m_ledger s" "m_users (set_audit i a s) = m_users s"
  by (simp_all add: set_audit_def)

lemma approve_books:
  assumes "wds_wf (m_withdrawals s)"
  shows "m_ledger (snd (approve i a now s)) = m_ledger s" "m_users (snd (approve i a now s)) = m_users s"
  using claim_books[OF assms] by (simp_all add: approve_def wd_fail_def split: option.split)

lemma payoutNow_maybe_sent:
  assumes "wds_wf (m_withdrawals s)" "wd_find i (m_withdrawals s) = Some r"
    and "maybe_sent (pp_payout p (payout_request_of i r))"
  shows "m_ledger (snd (payoutNow sv i (Some p) a now s)) = m_ledger s \<and>
     m_users (snd (payoutNow sv i (Some p) a now s)) = m_users s"
proof -
  obtain x s1 where c: "claim i WdCompleted (resolved_by a) now s = (x, s1)" by fastforce
  note cb = claim_pair[OF assms(1) c]
  show ?thesis
  proof (cases "pp_payout p (payout_request_of i r)")
    case (Inl e)
    then show ?thesis
      using assms(2) approve_books[OF assms(1)] cb
      by (simp add: payoutNow_def wd_fail_def bind_act_def c payout_request_of_def split: sum.split)
  next
    case (Inr y)
    with assms(3) consider "pr_ok y" | "pr_duplicate y" | "pr_ambiguous y" by (auto simp: maybe_sent_def)
    then show ?thesis
      using Inr assms(2) approve_books[OF assms(1)] cb
      by cases (simp_all add: payoutNow_def wd_fail_def bind_act_def c payout_request_of_def split: sum.split)
  qed
qed

lemma autoPayout_maybe_sent:
  assumes "wds_wf (m_withdrawals s)" "wd_find i (m_withdrawals s) = Some r"
    and "maybe_sent (pp_payout p (payout_request_of i r))"
  shows "m_ledger (snd (autoPayout sv i p now s)) = m_ledger s \<and> m_users (snd (autoPayout sv i p now s)) = m_users s"
proof -
  obtain x s1 where c: "claim i WdCompleted no_resolution now s = (x, s1)" by fastforce
  note cb = claim_pair[OF assms(1) c]
  show ?thesis
  proof (cases "pp_payout p (payout_request_of i r)")
    case (Inl e)
    then show ?thesis
      using assms(2) cb by (simp add: autoPayout_def Let_def c payout_request_of_def split: sum.split)
  next
    case (Inr y)
    with assms(3) consider "pr_ok y" | "pr_duplicate y" | "pr_ambiguous y" by (auto simp: maybe_sent_def)
    then show ?thesis
      using Inr assms(2) cb
      by cases (simp_all add: autoPayout_def Let_def c payout_request_of_def split: sum.split)
  qed
qed

text \<open>C24: a payout is refunded only on a definite failure. Whatever the provider answers, a payout
  that it reports as sent, as a duplicate, as ambiguous, or that throws, leaves the ledger and all
  balances untouched; so do refused payouts.\<close>

theorem refund_only_on_definite_failure:
  assumes "wd_inv s" "wd_find i (m_withdrawals s) = Some r"
    and "maybe_sent (pp_payout p (payout_request_of i r))"
  shows "m_ledger (snd (payoutNow sv i (Some p) a now s)) = m_ledger s \<and>
     m_users (snd (payoutNow sv i (Some p) a now s)) = m_users s \<and>
     m_ledger (snd (autoPayout sv i p now s)) = m_ledger s \<and>
     m_users (snd (autoPayout sv i p now s)) = m_users s"
proof -
  have wf: "wds_wf (m_withdrawals s)" using assms(1) by (simp add: wd_inv_def)
  show ?thesis using payoutNow_maybe_sent[OF wf assms(2,3)] autoPayout_maybe_sent[OF wf assms(2,3)] by simp
qed

definition demo_pending :: "unit money_store_scheme" where
  "demo_pending = snd (request_withdrawal (tx_service rollback default_limits (\<lambda>_. True)) ''u_1'' 500 ''Tabcdef'' 9 demo_store)"

definition timeout_provider :: payout_provider where
  "timeout_provider = \<lparr>pp_name = ''binance'', pp_payout = (\<lambda>_. Inl ''timeout'')\<rparr>"

theorem refund_only_on_definite_failure_witness:
  "\<exists>r. wd_find ''wd_1'' (m_withdrawals demo_pending) = Some r \<and>
     m_ledger (snd (autoPayout (tx_service rollback default_limits (\<lambda>_. True)) ''wd_1'' timeout_provider 10 demo_pending)) =
       m_ledger demo_pending"
proof -
  have inv: "wd_inv demo_pending"
    unfolding demo_pending_def by (rule request_inv[OF rolls_back_rollback wd_inv_demo])
  have "wd_find ''wd_1'' (m_withdrawals demo_pending) \<noteq> None" by code_simp
  then obtain r where r: "wd_find ''wd_1'' (m_withdrawals demo_pending) = Some r" by auto
  then show ?thesis
    using refund_only_on_definite_failure[OF inv r, where p=timeout_provider and sv="tx_service rollback default_limits (\<lambda>_. True)"
        and now=10] by (simp add: timeout_provider_def maybe_sent_def)
qed

text \<open>
  The state an automatic payout leaves when its send failed, the refund was booked and marking the
  row reversed then failed: the error is caught and the row stays completed.
\<close>

definition refunded_not_marked :: "unit money_store_scheme" where
  "refunded_not_marked =
     (case claim ''wd_1'' WdCompleted no_resolution 10 demo_pending of
        (Inr r, s) \<Rightarrow> snd (refund_credit (tx_wallet rollback) ''wd_1'' r ''rikthim: auto-pagesa deshtoi'' 10 s)
      | (Inl _, s) \<Rightarrow> s)"


end
