(* ===== verification/Payments.thy ===== *)
theory Payments
  imports Wallet
begin

text \<open>
  Payments under provider references, for the services that hold a pool of buy-ins (tournaments and
  club wars): what one credit, a loop of credits and a rake booking do to the ledger as seen by
  reference, and how the other wallet operations leave these references alone.
\<close>

subsection \<open>References\<close>

definition no_colon :: "string \<Rightarrow> bool" where
  "no_colon i \<longleftrightarrow> CHR '':'' \<notin> set i"

lemma first_colon:
  "no_colon i \<Longrightarrow> no_colon j \<Longrightarrow> i @ CHR '':'' # u = j @ CHR '':'' # v \<longleftrightarrow> i = j \<and> u = v"
proof (induction i arbitrary: j)
  case Nil
  then show ?case by (cases j) (auto simp: no_colon_def)
next
  case (Cons c i)
  then show ?case by (cases j) (auto simp: no_colon_def)
qed

abbreviation paid :: "string \<Rightarrow> 'z money_store_scheme \<Rightarrow> transaction option" where
  "paid ref s \<equiv> findByProviderRef ref (m_ledger s)"

text \<open>The effect of one payment under a reference: the reference is booked, others are untouched.\<close>

definition pays :: "string \<Rightarrow> user_id \<Rightarrow> cents \<Rightarrow> 'z money_store_scheme \<Rightarrow> 'z money_store_scheme \<Rightarrow> bool" where
  "pays ref uid amt s s' \<longleftrightarrow> books_ok s' \<and> only_books s s' \<and> (\<forall>q. q \<noteq> ref \<longrightarrow> paid q s' = paid q s) \<and>
     (\<exists>row. paid ref s' = Some row \<and>
        (paid ref s = Some row \<and> s' = s \<or> paid ref s = None \<and> t_userId row = uid \<and> t_amountCents row = amt))"

lemma posted_pays:
  assumes "books_ok s" "posted row s s'" "t_providerRef row = Some ref" "ref \<noteq> []" "paid ref s = None"
  shows "pays ref (t_userId row) (t_amountCents row) s s'"
proof -
  have l: "ledger_wf (m_ledger s)" "ledger_wf (m_ledger s')" "l_rows (m_ledger s') = l_rows (m_ledger s) @ [row]"
    using assms(1,2) by (auto simp: posted_def books_ok_def)
  have "paid q s' = paid q s" if "q \<noteq> ref" for q
    using find_ref_after[OF l] assms(3) that by (simp add: has_ref_def)
  moreover have "paid ref s' = Some row"
    using findByProviderRef_iff[OF l(2)] l(3) assms(3,4) by (simp add: has_ref_def)
  ultimately show ?thesis using assms(2,5) by (simp add: pays_def posted_def)
qed

lemma pays_replay: "books_ok s \<Longrightarrow> paid ref s = Some row \<Longrightarrow> pays ref uid amt s s"
  by (simp add: pays_def)

lemma credit_pays:
  assumes "books_ok s" "credit w uid amt opts now s = (Inr x, s')" "co_providerRef opts = Some ref" "ref \<noteq> []"
  shows "pays ref uid amt s s'"
proof (rule credit_ok[OF assms(1,2)])
  fix q
  assume "co_providerRef opts = Some q" "s' = s"
    "findByProviderRef q (m_ledger s) = Some (mr_transaction x)"
  then show ?thesis using pays_replay[OF assms(1)] assms(3) by simp
next
  fix row
  assume p: "posted row s s'" and r: "row = new_row (Suc (l_seq (m_ledger s)))
      (credit_row uid amt opts
        (real_ref (co_providerRef opts))) now"
    and n: "truthy (co_providerRef opts) \<Longrightarrow>
      findByProviderRef (the (co_providerRef opts)) (m_ledger s) = None"
  show ?thesis
    using posted_pays[OF assms(1) p, of ref] r n assms(3,4) by (simp add: real_ref_def truthy_def)
qed

lemma rake_pays:
  assumes "books_ok s" "recordRake w amt mid why (Some ref) now s = (Inr x, s')" "ref \<noteq> []"
  shows "pays ref HOUSE_ACCOUNT_ID amt s s'"
proof (rule recordRake_ok[OF assms(1,2)])
  assume "s' = s" "findByProviderRef (the (Some ref)) (m_ledger s) = Some x"
  then show ?thesis using pays_replay[OF assms(1)] by simp
next
  assume "posted x s s'" "x = new_row (Suc (l_seq (m_ledger s))) (rake_row amt mid why (real_ref (Some ref))) now"
    "truthy (Some ref) \<Longrightarrow> findByProviderRef (the (Some ref)) (m_ledger s) = None"
  then show ?thesis using posted_pays[OF assms(1), of x s' ref] assms(3) by (simp add: real_ref_def truthy_def)
qed

lemma no_refs_paid:
  assumes "ledger_wf l" "map t_providerRef (l_rows l) = replicate n None"
  shows "findByProviderRef q l = None"
proof (cases "findByProviderRef q l")
  case (Some row)
  then have "row \<in> set (l_rows l)" "t_providerRef row = Some q"
    using findByProviderRef_iff[OF assms(1)] by (auto simp: has_ref_def)
  then have "Some q \<in> set (map t_providerRef (l_rows l))" by (metis image_eqI set_map)
  then show ?thesis unfolding assms(2) by simp
qed

subsection \<open>Amounts\<close>

definition amount_paid :: "string \<Rightarrow> 'z money_store_scheme \<Rightarrow> cents" where
  "amount_paid ref s = (case paid ref s of None \<Rightarrow> 0 | Some row \<Rightarrow> t_amountCents row)"

lemma debit_frame:
  assumes "books_ok s" "debit w uid amt opts now s = (Inr x, m)"
  shows "books_ok m" "only_books s m" "paid ref m = paid ref s"
proof -
  have p: "posted (new_row (Suc (l_seq (m_ledger s))) (debit_row uid amt opts) now) s m"
    by (rule debit_cases[OF assms(1), of amt w uid opts now]; use assms(2) in auto)
  then show "books_ok m" "only_books s m" by (simp_all add: posted_def)
  show "paid ref m = paid ref s"
    by (rule find_ref_after) (use p assms(1) in \<open>auto simp: posted_def books_ok_def has_ref_def\<close>)
qed

lemma pays_frame:
  assumes "pays ref uid amt s m"
  shows "books_ok m" "only_books s m" "q \<noteq> ref \<Longrightarrow> paid q m = paid q s"
  using assms by (simp_all add: pays_def)

lemma pays_new:
  assumes "pays ref uid amt s m" "paid ref s = None"
  shows "amount_paid ref m = amt" "paid ref m = Some row \<Longrightarrow> t_userId row = uid"
  using assms by (auto simp: pays_def amount_paid_def)

lemma optional_pay:
  assumes "books_ok s" "(if 0 < amt then ignore_act act else return_act ()) s = (Inr u, m)" "0 \<le> amt"
    and "\<And>x. act s = (Inr x, m) \<Longrightarrow> pays ref uid amt s m" "paid ref s = None"
  shows "books_ok m" "only_books s m" "q \<noteq> ref \<Longrightarrow> paid q m = paid q s" "amount_paid ref m = amt"
    "paid ref m = Some row \<Longrightarrow> t_userId row = uid"
proof -
  consider (skip) "amt = 0" "m = s" | (pay) "pays ref uid amt s m"
  proof (cases "0 < amt")
    case True
    then have "ignore_act act s = (Inr u, m)" using assms(2) by simp
    then obtain x where "act s = (Inr x, m)" by (auto simp: ignore_act_Inr)
    then show thesis by (intro pay assms(4))
  next
    case False
    then have "amt = 0" "m = s" using assms(2,3) by (simp_all add: return_act_def)
    then show thesis by (rule skip)
  qed
  then have "books_ok m \<and> only_books s m \<and> (q \<noteq> ref \<longrightarrow> paid q m = paid q s) \<and> amount_paid ref m = amt \<and>
      (paid ref m = Some row \<longrightarrow> t_userId row = uid)"
  proof cases
    case skip
    with assms(1,5) show ?thesis by (simp add: amount_paid_def)
  next
    case pay
    then show ?thesis using pays_frame[OF pay] pays_new[OF pay assms(5)] by blast
  qed
  then show "books_ok m" "only_books s m" "q \<noteq> ref \<Longrightarrow> paid q m = paid q s" "amount_paid ref m = amt"
    "paid ref m = Some row \<Longrightarrow> t_userId row = uid" by blast+
qed

lemma rake_bounds:
  assumes "0 \<le> pool" "0 \<le> bps" "bps \<le> (10000 :: int)"
  shows "0 \<le> (pool * bps) div 10000" "(pool * bps) div 10000 \<le> pool"
proof -
  have "0 \<le> pool * bps" using assms by simp
  then show "0 \<le> (pool * bps) div 10000" by simp
  have "pool * bps \<le> pool * 10000" using assms by (intro mult_left_mono) auto
  then have "(pool * bps) div 10000 \<le> (pool * 10000) div 10000" by (rule zdiv_mono1) simp
  then show "(pool * bps) div 10000 \<le> pool" by simp
qed

subsection \<open>A loop of credits\<close>

lemma credit_loop:
  assumes "books_ok s" "rolls_back uow" "inj ref" "\<And>u. ref u \<noteq> []" "\<And>u. co_providerRef (opts u) = Some (ref u)"
    and "for_each (\<lambda>uid. ignore_act (credit (tx_wallet uow) uid amt (opts uid) now)) us s = (r, s')"
  shows "books_ok s' \<and> only_books s s' \<and> (\<forall>q. q \<notin> range ref \<longrightarrow> paid q s' = paid q s) \<and>
    (\<forall>uid row. paid (ref uid) s' = Some row \<longrightarrow>
       paid (ref uid) s = Some row \<or> uid \<in> set us \<and> t_userId row = uid \<and> t_amountCents row = amt) \<and>
    (\<forall>uid. paid (ref uid) s \<noteq> None \<longrightarrow> paid (ref uid) s' \<noteq> None) \<and>
    (r = Inr () \<longrightarrow> (\<forall>uid\<in>set us. paid (ref uid) s' \<noteq> None))"
  using assms(1,6)
proof (induction us arbitrary: s)
  case Nil
  then show ?case by (auto simp: return_act_def)
next
  case (Cons uid us)
  let ?c = "credit (tx_wallet uow) uid amt (opts uid) now"
  show ?case
  proof (cases "?c s")
    case (Pair x m)
    show ?thesis
    proof (cases x)
      case (Inl e)
      have "m = s" using credit_fails_clean[OF assms(2)] Pair Inl by auto
      with Cons.prems Pair Inl have "r = Inl e" "s' = s" by (auto simp: bind_act_def ignore_act_def)
      with Cons.prems(1) show ?thesis by auto
    next
      case (Inr y)
      have p: "pays (ref uid) uid amt s m"
        by (rule credit_pays[OF Cons.prems(1) _ assms(5,4)]) (use Pair Inr in auto)
      have rest: "for_each (\<lambda>uid. ignore_act (credit (tx_wallet uow) uid amt (opts uid) now)) us m = (r, s')"
      proof -
        have "ignore_act ?c s = (Inr (), m)" using Pair Inr by (simp add: ignore_act_def bind_act_def return_act_def)
        then show ?thesis using Cons.prems(2) by (simp add: bind_act_def[of "ignore_act ?c"])
      qed
      have bm: "books_ok m" using p by (simp add: pays_def)
      note ih = Cons.IH[OF bm rest]
      note ih_ok = ih[THEN conjunct1] and ih_books = ih[THEN conjunct2, THEN conjunct1]
      note ih_rest = ih[THEN conjunct2, THEN conjunct2]
      note ih_other = ih_rest[THEN conjunct1, rule_format]
      note ih_src = ih_rest[THEN conjunct2, THEN conjunct1, rule_format]
      note ih_keep = ih_rest[THEN conjunct2, THEN conjunct2, THEN conjunct1, rule_format]
      note ih_all = ih_rest[THEN conjunct2, THEN conjunct2, THEN conjunct2, rule_format]
      have ob: "only_books s m" and oth: "\<And>q. q \<noteq> ref uid \<Longrightarrow> paid q m = paid q s"
        using p by (simp_all add: pays_def)
      obtain row0 where r0: "paid (ref uid) m = Some row0"
        "paid (ref uid) s = Some row0 \<or> t_userId row0 = uid \<and> t_amountCents row0 = amt"
        using p by (auto simp: pays_def)
      have keep: "paid (ref u) m \<noteq> None" if "paid (ref u) s \<noteq> None \<or> u = uid" for u
        using that oth[of "ref u"] r0(1) inj_eq[OF assms(3), of u uid] by (cases "u = uid") auto
      have src: "paid (ref u) s = Some row \<or> u \<in> set (uid # us) \<and> t_userId row = u \<and> t_amountCents row = amt"
        if "paid (ref u) s' = Some row" for u row
      proof -
        have "paid (ref u) m = Some row \<or> u \<in> set us \<and> t_userId row = u \<and> t_amountCents row = amt"
          by (rule ih_src[OF that])
        then show ?thesis
        proof
          assume m: "paid (ref u) m = Some row"
          show ?thesis
          proof (cases "u = uid")
            case True
            with m r0 show ?thesis by (elim disjE) simp_all
          next
            case False
            with m oth[of "ref u"] inj_eq[OF assms(3), of u uid] show ?thesis by auto
          qed
        qed simp
      qed
      show ?thesis
      proof (intro conjI allI impI ballI)
        show "books_ok s'" by (rule ih_ok)
        show "only_books s s'" by (rule only_books_trans[OF ob ih_books])
      next
        fix q
        assume n: "q \<notin> range ref"
        then have "q \<noteq> ref uid" by blast
        with oth[of q] ih_other[OF n] show "paid q s' = paid q s" by simp
      next
        fix u row
        assume "paid (ref u) s' = Some row"
        then show "paid (ref u) s = Some row \<or> u \<in> set (uid # us) \<and> t_userId row = u \<and> t_amountCents row = amt"
          by (rule src)
      next
        fix u
        assume "paid (ref u) s \<noteq> None"
        with keep[of u] have "paid (ref u) m \<noteq> None" by blast
        then show "paid (ref u) s' \<noteq> None" by (rule ih_keep)
      next
        fix u
        assume r: "r = Inr ()" and u: "u \<in> set (uid # us)"
        show "paid (ref u) s' \<noteq> None"
        proof (cases "u = uid")
          case True
          with keep[of u] have "paid (ref u) m \<noteq> None" by blast
          then show ?thesis by (rule ih_keep)
        next
          case False
          with u have "u \<in> set us" by simp
          then show ?thesis by (rule ih_all[OF r])
        qed
      qed
    qed
  qed
qed

subsection \<open>Other operations of the wallet\<close>

lemma only_books_more: "only_books s s' \<Longrightarrow> money_store.more s' = money_store.more s"
  by (auto simp: only_books_def)

lemma clean_more:
  assumes "\<And>x s'. act s = (Inr x, s') \<Longrightarrow> money_store.more s' = money_store.more s"
    "\<And>e s'. act s = (Inl e, s') \<Longrightarrow> s' = s"
  shows "money_store.more (snd (act s)) = money_store.more s"
proof (cases "act s")
  case (Pair r s')
  with assms show ?thesis by (cases r) auto
qed

lemma wallet_step_more:
  assumes "rolls_back uow" "books_ok s"
  shows "money_store.more (wallet_step uow s (op, now)) = money_store.more s"
proof (cases op)
  case (CreditOp uid a opts)
  have "money_store.more (snd (credit (tx_wallet uow) uid a opts now s)) = money_store.more s"
    by (rule clean_more) (auto dest: credit_keeps[OF assms(2)] credit_fails_clean[OF assms(1)] only_books_more)
  with CreditOp show ?thesis by simp
next
  case (DebitOp uid a opts)
  have "money_store.more (snd (debit (tx_wallet uow) uid a opts now s)) = money_store.more s"
    by (rule clean_more) (auto dest: debit_keeps[OF assms(2)] debit_fails_clean[OF assms(1)] only_books_more)
  with DebitOp show ?thesis by simp
next
  case (TransferOp f t a why)
  have "money_store.more (snd (transfer (tx_wallet uow) f t a why now s)) = money_store.more s"
    by (rule clean_more) (auto dest: transfer_keeps[OF assms(2)] transfer_fails_clean[OF assms(1)] only_books_more)
  with TransferOp show ?thesis by simp
next
  case (RakeOp a mid why ref)
  have "money_store.more (snd (recordRake (tx_wallet uow) a mid why ref now s)) = money_store.more s"
    by (rule clean_more) (auto dest: recordRake_keeps[OF assms(2)] recordRake_fails_clean[OF assms(1)] only_books_more)
  with RakeOp show ?thesis by simp
next
  case (AdjustOp uid d why ref)
  have "money_store.more (snd (move_signed (tx_wallet uow) uid d why ref now s)) = money_store.more s"
    by (rule clean_more, erule move_signed_keeps[OF assms(2), THEN conjunct2, THEN only_books_more])
       (auto dest: credit_fails_clean[OF assms(1)] debit_fails_clean[OF assms(1)] simp: move_signed_def split: if_splits)
  with AdjustOp show ?thesis by (simp add: adminAdjust_def)
next
  case (AuditedOp uid d why audit ref)
  let ?fn = "bind_act (move_signed bind_wallet uid d why ref now)
     (\<lambda>res s. (Inr res, if mr_idempotent res then s else s\<lparr>m_audit := audit_record audit now (m_audit s)\<rparr>))"
  have "money_store.more s' = money_store.more s" if "?fn s = (Inr x, s')" for x s'
    using that by (auto simp: bind_act_Inr split: if_splits dest!: move_signed_keeps[OF assms(2)] only_books_more)
  then have "money_store.more (snd (transaction_in uow ?fn s)) = money_store.more s"
    by (intro clean_more) (auto dest: transaction_Inl[OF assms(1)])
  with AuditedOp show ?thesis by (simp add: adminAdjustAudited_def Let_def)
qed simp

lemma appends_paid:
  assumes "books_ok s" "appends Q s s'" "\<And>row. Q row \<Longrightarrow> t_providerRef row \<noteq> Some q"
  shows "paid q s' = paid q s"
proof -
  obtain new where n: "l_rows (m_ledger s') = l_rows (m_ledger s) @ new" "\<forall>row\<in>set new. Q row"
    using assms(2) by (auto simp: appends_def)
  have wf: "ledger_wf (m_ledger s)" "ledger_wf (m_ledger s')" using assms(1,2) by (auto simp: appends_def books_ok_def)
  have "paid q s' = Some row \<longleftrightarrow> paid q s = Some row" for row
    unfolding findByProviderRef_iff[OF wf(1)] findByProviderRef_iff[OF wf(2)] n(1)
    using n(2) assms(3) by (auto simp: has_ref_def)
  then show ?thesis by (cases "paid q s"; cases "paid q s'") auto
qed

end
