(* ===== verification/Tournament.thy ===== *)
theory Tournament
  imports Payments
begin

text \<open>
  Tournaments (\<^verbatim>\<open>packages/server/src/tournament/tournamentService.ts\<close>): registration with
  escrow of the buy-in, the single-elimination bracket, the payout of the champion, cancellation,
  and the sweep of stale tournaments, over the in-memory repository of the same file and the wallet
  adapter \<^verbatim>\<open>tournamentWallet\<close> of \<^verbatim>\<open>app.ts\<close>.

  The store of the wallet is extended by the stored tournaments and by the recorded outcomes. The
  per-tournament lock makes every operation one step. A fresh identifier is an argument of
  \<open>create_tournament\<close>. The recorded outcomes live in memory, outside of transactions.
\<close>

subsection \<open>Data\<close>

datatype tn_status = TnRegistering | TnRunning | TnAwaiting | TnFinished | TnCancelled

record bracket_match =
  bm_round :: nat
  bm_index :: nat
  bm_aUserId :: "user_id option"
  bm_bUserId :: "user_id option"
  bm_winnerId :: "user_id option"

record tournament =
  tn_id :: string
  tn_name :: string
  tn_buyInCents :: cents
  tn_capacity :: nat
  tn_status :: tn_status
  tn_playerIds :: "user_id list"
  tn_bracket :: "bracket_match list"
  tn_prizePoolCents :: cents
  tn_rakeBps :: int
  tn_winnerId :: "user_id option"
  tn_pendingWinnerId :: "user_id option"
  tn_reportedByAdminId :: "string option"
  tn_clubId :: "string option"
  tn_createdAt :: int

record tourney_store = money_store +
  tn_rows :: "(string \<times> tournament) list"
  tn_outcomes :: "(string \<times> user_id) list"

record 's tournament_service =
  ts_wallet :: "'s wallet_service"
  ts_uow :: "('s \<Rightarrow> 's \<Rightarrow> 's) option"
  ts_rakeBps :: int
  ts_dualControl :: bool

definition VALID_CAPACITIES :: "nat list" where
  "VALID_CAPACITIES = [2, 4, 8]"

definition tn_fail :: "string \<Rightarrow> ('s, money_error, 'a) action" where
  "tn_fail code s = (Inl (TournamentError code), s)"

subsection \<open>The repository\<close>

definition tn_get :: "string \<Rightarrow> 'z tourney_store_scheme \<Rightarrow> tournament option" where
  "tn_get i s = map_of (tn_rows s) i"

definition tn_save :: "tournament \<Rightarrow> 'z tourney_store_scheme \<Rightarrow> 'z tourney_store_scheme" where
  "tn_save t s = s\<lparr>tn_rows := AList.update (tn_id t) t (tn_rows s)\<rparr>"

definition tn_delete :: "string \<Rightarrow> 'z tourney_store_scheme \<Rightarrow> 'z tourney_store_scheme" where
  "tn_delete i s = s\<lparr>tn_rows := AList.delete i (tn_rows s)\<rparr>"

definition tn_list :: "'z tourney_store_scheme \<Rightarrow> tournament list" where
  "tn_list s = filter (\<lambda>t. tn_clubId t = None) (map snd (tn_rows s))"

definition tn_listByClub :: "string \<Rightarrow> 'z tourney_store_scheme \<Rightarrow> tournament list" where
  "tn_listByClub c s =
     sort_key (\<lambda>t. - tn_createdAt t) (filter (\<lambda>t. tn_clubId t = Some c) (map snd (tn_rows s)))"

definition tn_listAll :: "'z tourney_store_scheme \<Rightarrow> tournament list" where
  "tn_listAll s = map snd (tn_rows s)"

subsection \<open>The wallet of the tournaments\<close>

definition tn_debit ::
  "'z money_store_scheme wallet_service \<Rightarrow> user_id \<Rightarrow> cents \<Rightarrow> string \<Rightarrow> int \<Rightarrow> ('z money_store_scheme, money_error, move_result) action" where
  "tn_debit w uid amount reason now = debit w uid amount (plain_debit Bet reason) now"

definition tn_credit ::
  "'z money_store_scheme wallet_service \<Rightarrow> user_id \<Rightarrow> cents \<Rightarrow> string \<Rightarrow> int \<Rightarrow> ('z money_store_scheme, money_error, move_result) action" where
  "tn_credit w uid amount reason now =
     credit w uid amount ((plain_credit PayoutTx reason)\<lparr>co_providerRef := Some reason\<rparr>) now"

definition buyin_ref :: "string \<Rightarrow> user_id \<Rightarrow> string" where
  "buyin_ref i uid = ''tournament buy-in:'' @ i @ '':'' @ uid"

definition tn_refund_ref :: "string \<Rightarrow> user_id \<Rightarrow> string" where
  "tn_refund_ref i uid = ''tournament refund:'' @ i @ '':'' @ uid"

definition prize_ref :: "string \<Rightarrow> string" where
  "prize_ref i = ''tournament prize:'' @ i"

definition tn_rake_ref :: "string \<Rightarrow> string" where
  "tn_rake_ref i = ''tournament-rake:'' @ i"

definition pay_champion ::
  "'z money_store_scheme wallet_service \<Rightarrow> user_id \<Rightarrow> cents \<Rightarrow> cents \<Rightarrow> string \<Rightarrow> int \<Rightarrow> ('z money_store_scheme, money_error, unit) action" where
  "pay_champion w winner prize rake i now =
     bind_act (if prize > 0 then ignore_act (tn_credit w winner prize (prize_ref i) now) else return_act ()) (\<lambda>_.
       if rake > 0 then ignore_act (recordRake w rake None None (Some (tn_rake_ref i)) now) else return_act ())"

subsection \<open>Recorded outcomes\<close>

definition outcomeKey :: "string \<Rightarrow> nat \<Rightarrow> nat \<Rightarrow> string" where
  "outcomeKey i r k = i @ '':'' @ nat_str r @ '':'' @ nat_str k"

definition recordRoomOutcome :: "string \<Rightarrow> nat \<Rightarrow> nat \<Rightarrow> user_id \<Rightarrow> 'z tourney_store_scheme \<Rightarrow> 'z tourney_store_scheme" where
  "recordRoomOutcome i r k w s = s\<lparr>tn_outcomes := AList.update (outcomeKey i r k) w (tn_outcomes s)\<rparr>"

definition recordedOutcome :: "string \<Rightarrow> nat \<Rightarrow> nat \<Rightarrow> 'z tourney_store_scheme \<Rightarrow> user_id option" where
  "recordedOutcome i r k s = map_of (tn_outcomes s) (outcomeKey i r k)"

definition starts_with :: "string \<Rightarrow> string \<Rightarrow> bool" where
  "starts_with p k = (take (length p) k = p)"

definition clearRecordedOutcomes :: "string \<Rightarrow> 'z tourney_store_scheme \<Rightarrow> 'z tourney_store_scheme" where
  "clearRecordedOutcomes i s =
     s\<lparr>tn_outcomes := filter (\<lambda>p. \<not> starts_with (i @ '':'') (fst p)) (tn_outcomes s)\<rparr>"

subsection \<open>Creation and registration\<close>

definition create_tournament ::
  "'z tourney_store_scheme tournament_service \<Rightarrow> string \<Rightarrow> cents \<Rightarrow> nat \<Rightarrow> string option \<Rightarrow> string \<Rightarrow> int \<Rightarrow>
     ('z tourney_store_scheme, money_error, tournament) action" where
  "create_tournament sv name buyIn cap club newId now s =
     (if cap \<notin> set VALID_CAPACITIES then tn_fail ''bad_capacity'' s
      else if buyIn < 0 then tn_fail ''bad_buyin'' s
      else
        let trimmed = take 40 (js_trim name);
            t = \<lparr>tn_id = newId, tn_name = (if trimmed = [] then ''Turne'' else trimmed), tn_buyInCents = buyIn,
                 tn_capacity = cap, tn_status = TnRegistering, tn_playerIds = [], tn_bracket = [],
                 tn_prizePoolCents = 0, tn_rakeBps = ts_rakeBps sv, tn_winnerId = None,
                 tn_pendingWinnerId = None, tn_reportedByAdminId = None, tn_clubId = club, tn_createdAt = now\<rparr>
        in (Inr t, tn_save t s))"

definition seedBracket :: "tournament \<Rightarrow> tournament" where
  "seedBracket t =
     t\<lparr>tn_bracket := map (\<lambda>k. \<lparr>bm_round = 0, bm_index = k, bm_aUserId = Some (tn_playerIds t ! (2 * k)),
                          bm_bUserId = Some (tn_playerIds t ! (2 * k + 1)), bm_winnerId = None\<rparr>)
                    [0..<(tn_capacity t + 1) div 2],
       tn_status := TnRunning\<rparr>"

definition enter :: "user_id \<Rightarrow> tournament \<Rightarrow> tournament" where
  "enter uid t =
     (let t1 = t\<lparr>tn_playerIds := tn_playerIds t @ [uid], tn_prizePoolCents := tn_prizePoolCents t + tn_buyInCents t\<rparr>
      in if length (tn_playerIds t1) = tn_capacity t1 then seedBracket t1 else t1)"

definition save_act :: "tournament \<Rightarrow> ('z tourney_store_scheme, money_error, tournament) action" where
  "save_act t s = (Inr t, tn_save t s)"

definition register_player ::
  "'z tourney_store_scheme tournament_service \<Rightarrow> string \<Rightarrow> user_id \<Rightarrow> int \<Rightarrow> ('z tourney_store_scheme, money_error, tournament) action" where
  "register_player sv i uid now s =
     (case tn_get i s of
        None \<Rightarrow> tn_fail ''not_found'' s
      | Some t \<Rightarrow>
          if tn_status t \<noteq> TnRegistering then tn_fail ''closed'' s
          else if uid \<in> set (tn_playerIds t) then tn_fail ''already_in'' s
          else if length (tn_playerIds t) \<ge> tn_capacity t then tn_fail ''full'' s
          else if tn_buyInCents t > 0 then
            (case ts_uow sv of
               Some uow \<Rightarrow> transaction_in uow (bind_act (tn_debit bind_wallet uid (tn_buyInCents t) (buyin_ref (tn_id t) uid) now)
                              (\<lambda>_. save_act (enter uid t))) s
             | None \<Rightarrow> bind_act (tn_debit (ts_wallet sv) uid (tn_buyInCents t) (buyin_ref (tn_id t) uid) now)
                              (\<lambda>_. save_act (enter uid t)) s)
          else save_act (enter uid t) s)"

subsection \<open>Results\<close>

definition finish ::
  "'z tourney_store_scheme tournament_service \<Rightarrow> tournament \<Rightarrow> user_id \<Rightarrow> int \<Rightarrow> ('z tourney_store_scheme, money_error, tournament) action" where
  "finish sv t winner now s =
     (let t' = t\<lparr>tn_winnerId := Some winner, tn_status := TnFinished\<rparr>;
          s1 = clearRecordedOutcomes (tn_id t) s;
          rake = (tn_prizePoolCents t * tn_rakeBps t) div 10000;
          prize = tn_prizePoolCents t - rake
      in case ts_uow sv of
           Some uow \<Rightarrow> transaction_in uow (bind_act (pay_champion bind_wallet winner prize rake (tn_id t) now) (\<lambda>_. save_act t')) s1
         | None \<Rightarrow> bind_act (pay_champion (ts_wallet sv) winner prize rake (tn_id t) now) (\<lambda>_. save_act t') s1)"

definition in_match :: "nat \<Rightarrow> nat \<Rightarrow> bracket_match \<Rightarrow> bool" where
  "in_match r k x = (bm_round x = r \<and> bm_index x = k)"

definition round_matches :: "nat \<Rightarrow> bracket_match list \<Rightarrow> bracket_match list" where
  "round_matches r b = sort_key bm_index (filter (\<lambda>x. bm_round x = r) b)"

definition next_round :: "nat \<Rightarrow> bracket_match list \<Rightarrow> bracket_match list" where
  "next_round r ms =
     map (\<lambda>k. \<lparr>bm_round = r + 1, bm_index = k, bm_aUserId = bm_winnerId (ms ! (2 * k)),
              bm_bUserId = bm_winnerId (ms ! (2 * k + 1)), bm_winnerId = None\<rparr>)
       [0..<(length ms + 1) div 2]"

definition decide :: "nat \<Rightarrow> nat \<Rightarrow> user_id \<Rightarrow> tournament \<Rightarrow> tournament" where
  "decide r k w t = t\<lparr>tn_bracket := update_first (in_match r k) (\<lambda>m. m\<lparr>bm_winnerId := Some w\<rparr>) (tn_bracket t)\<rparr>"

definition reportResult ::
  "'z tourney_store_scheme tournament_service \<Rightarrow> string \<Rightarrow> nat \<Rightarrow> nat \<Rightarrow> user_id \<Rightarrow> string option \<Rightarrow> bool \<Rightarrow> int \<Rightarrow>
     ('z tourney_store_scheme, money_error, tournament) action" where
  "reportResult sv i r k w adminId autoFinalize now s =
     (case tn_get i s of
        None \<Rightarrow> tn_fail ''not_found'' s
      | Some t \<Rightarrow>
          if tn_status t \<noteq> TnRunning then tn_fail ''not_running'' s
          else case List.find (in_match r k) (tn_bracket t) of
            None \<Rightarrow> tn_fail ''no_match'' s
          | Some m \<Rightarrow>
              if truthy (bm_winnerId m) then tn_fail ''already_decided'' s
              else if Some w \<noteq> bm_aUserId m \<and> Some w \<noteq> bm_bUserId m then tn_fail ''bad_winner'' s
              else if \<not> autoFinalize \<and> truthy (recordedOutcome i r k s) \<and> recordedOutcome i r k s \<noteq> Some w
              then tn_fail ''result_conflict'' s
              else
                let t1 = decide r k w t; ms = round_matches r (tn_bracket t1)
                in if \<forall>x\<in>set ms. truthy (bm_winnerId x) then
                     (if length ms = 1 then
                        let champion = the (bm_winnerId (hd ms))
                        in if ts_dualControl sv \<and> tn_buyInCents t > 0 \<and> \<not> autoFinalize
                           then save_act (t1\<lparr>tn_status := TnAwaiting, tn_pendingWinnerId := Some champion,
                                            tn_reportedByAdminId := adminId\<rparr>) s
                           else finish sv t1 champion now s
                      else save_act (t1\<lparr>tn_bracket := tn_bracket t1 @ next_round r ms\<rparr>) s)
                   else save_act t1 s)"

definition confirmChampion ::
  "'z tourney_store_scheme tournament_service \<Rightarrow> string \<Rightarrow> string \<Rightarrow> int \<Rightarrow> ('z tourney_store_scheme, money_error, tournament) action" where
  "confirmChampion sv i adminId now s =
     (case tn_get i s of
        None \<Rightarrow> tn_fail ''not_found'' s
      | Some t \<Rightarrow>
          if tn_status t \<noteq> TnAwaiting \<or> \<not> truthy (tn_pendingWinnerId t) then tn_fail ''not_awaiting'' s
          else if truthy (tn_reportedByAdminId t) \<and> tn_reportedByAdminId t = Some adminId then tn_fail ''same_admin'' s
          else finish sv (t\<lparr>tn_pendingWinnerId := None, tn_reportedByAdminId := None\<rparr>) (the (tn_pendingWinnerId t)) now s)"

subsection \<open>Cancellation\<close>

definition refund_buyins ::
  "'z money_store_scheme wallet_service \<Rightarrow> tournament \<Rightarrow> int \<Rightarrow> ('z money_store_scheme, money_error, unit) action" where
  "refund_buyins w t now =
     (if tn_buyInCents t > 0
      then for_each (\<lambda>uid. ignore_act (tn_credit w uid (tn_buyInCents t) (tn_refund_ref (tn_id t) uid) now)) (tn_playerIds t)
      else return_act ())"

definition void :: "tournament \<Rightarrow> tournament" where
  "void t = t\<lparr>tn_status := TnCancelled, tn_prizePoolCents := 0\<rparr>"

definition cancel ::
  "'z tourney_store_scheme tournament_service \<Rightarrow> string \<Rightarrow> int \<Rightarrow> ('z tourney_store_scheme, money_error, tournament) action" where
  "cancel sv i now s =
     (case tn_get i s of
        None \<Rightarrow> tn_fail ''not_found'' s
      | Some t \<Rightarrow>
          if tn_status t = TnFinished \<or> tn_status t = TnCancelled then tn_fail ''not_cancellable'' s
          else bind_act (refund_buyins (ts_wallet sv) t now)
                 (\<lambda>_ s. save_act (void t) (clearRecordedOutcomes (tn_id t) s)) s)"

definition adminDelete :: "string \<Rightarrow> ('z tourney_store_scheme, money_error, unit) action" where
  "adminDelete i s =
     (case tn_get i s of
        None \<Rightarrow> (Inr (), s)
      | Some t \<Rightarrow>
          if tn_status t \<noteq> TnFinished \<and> tn_status t \<noteq> TnCancelled then tn_fail ''active'' s
          else (Inr (), tn_delete (tn_id t) (clearRecordedOutcomes (tn_id t) s)))"

definition sweepable :: "tn_status \<Rightarrow> bool" where
  "sweepable st = (st = TnRegistering \<or> st = TnRunning \<or> st = TnAwaiting)"

text \<open>One round of the loop of \<^verbatim>\<open>sweepStale\<close>; a throw ends the sweep.\<close>

definition sweep_one ::
  "'z tourney_store_scheme tournament_service \<Rightarrow> int \<Rightarrow> int \<Rightarrow> tournament \<Rightarrow> ('z tourney_store_scheme, money_error, string list) action" where
  "sweep_one sv cutoff now snap s =
     (if \<not> sweepable (tn_status snap) \<or> tn_createdAt snap > cutoff then (Inr [], s)
      else case tn_get (tn_id snap) s of
        None \<Rightarrow> (Inr [], s)
      | Some t \<Rightarrow>
          if \<not> sweepable (tn_status t) then (Inr [], s)
          else bind_act (refund_buyins (ts_wallet sv) t now) (\<lambda>_ s. (Inr [tn_id t], tn_save (void t) s)) s)"

fun sweep_all ::
  "'z tourney_store_scheme tournament_service \<Rightarrow> int \<Rightarrow> int \<Rightarrow> tournament list \<Rightarrow> ('z tourney_store_scheme, money_error, string list) action" where
  "sweep_all sv cutoff now [] s = (Inr [], s)"
| "sweep_all sv cutoff now (snap # snaps) s =
     bind_act (sweep_one sv cutoff now snap) (\<lambda>v. bind_act (sweep_all sv cutoff now snaps) (\<lambda>vs. return_act (v @ vs))) s"

definition sweepStale ::
  "'z tourney_store_scheme tournament_service \<Rightarrow> int \<Rightarrow> int \<Rightarrow> ('z tourney_store_scheme, money_error, string list) action" where
  "sweepStale sv maxAgeMs now s = sweep_all sv (now - maxAgeMs) now (tn_listAll s) s"

subsection \<open>References of a tournament\<close>

definition tn_refs :: "string \<Rightarrow> string set" where
  "tn_refs i = insert (prize_ref i) (insert (tn_rake_ref i) (range (tn_refund_ref i)))"

lemma tn_ref_inj [simp]:
  "prize_ref i = prize_ref j \<longleftrightarrow> i = j" "tn_rake_ref i = tn_rake_ref j \<longleftrightarrow> i = j"
  "prize_ref i \<noteq> tn_rake_ref j" "tn_rake_ref j \<noteq> prize_ref i"
  "prize_ref i \<noteq> tn_refund_ref j u" "tn_refund_ref j u \<noteq> prize_ref i"
  "tn_rake_ref i \<noteq> tn_refund_ref j u" "tn_refund_ref j u \<noteq> tn_rake_ref i"
  "prize_ref i \<noteq> []" "tn_rake_ref i \<noteq> []" "tn_refund_ref i u \<noteq> []"
  "tn_refund_ref i u = tn_refund_ref i v \<longleftrightarrow> u = v"
  by (simp_all add: prize_ref_def tn_rake_ref_def tn_refund_ref_def)

lemma tn_refund_ref_inj:
  "no_colon i \<Longrightarrow> no_colon j \<Longrightarrow> tn_refund_ref i u = tn_refund_ref j v \<longleftrightarrow> i = j \<and> u = v"
  by (simp add: tn_refund_ref_def first_colon)

lemma tn_refs_disjoint:
  "no_colon i \<Longrightarrow> no_colon j \<Longrightarrow> i \<noteq> j \<Longrightarrow> ref \<in> tn_refs j \<Longrightarrow> ref \<notin> tn_refs i"
  by (auto simp: tn_refs_def tn_refund_ref_inj)

lemma tn_credit_pays:
  assumes "books_ok s" "tn_credit w uid amt ref now s = (Inr x, s')" "ref \<noteq> []"
  shows "pays ref uid amt s s'"
  using credit_pays[OF assms(1) assms(2)[unfolded tn_credit_def] _ assms(3)] by simp

subsection \<open>Escrow, prizes and refunds agree with the status\<close>

definition tn_shape :: "tournament \<Rightarrow> bool" where
  "tn_shape t \<longleftrightarrow> distinct (tn_playerIds t) \<and> length (tn_playerIds t) \<le> tn_capacity t \<and> 0 \<le> tn_buyInCents t \<and>
     0 \<le> tn_rakeBps t \<and> tn_rakeBps t \<le> 10000 \<and>
     tn_prizePoolCents t = (if tn_status t = TnCancelled then 0 else tn_buyInCents t * int (length (tn_playerIds t)))"

definition refunds_ok :: "tournament \<Rightarrow> 'z money_store_scheme \<Rightarrow> bool" where
  "refunds_ok t s \<longleftrightarrow> (\<forall>uid row. paid (tn_refund_ref (tn_id t) uid) s = Some row \<longrightarrow>
     uid \<in> set (tn_playerIds t) \<and> t_userId row = uid \<and> t_amountCents row = tn_buyInCents t)"

definition tn_books :: "tournament \<Rightarrow> 'z money_store_scheme \<Rightarrow> bool" where
  "tn_books t s \<longleftrightarrow> refunds_ok t s \<and>
     (case tn_status t of
        TnFinished \<Rightarrow> amount_paid (prize_ref (tn_id t)) s + amount_paid (tn_rake_ref (tn_id t)) s = tn_prizePoolCents t \<and>
          (\<forall>row. paid (prize_ref (tn_id t)) s = Some row \<longrightarrow> tn_winnerId t = Some (t_userId row))
      | TnCancelled \<Rightarrow> paid (prize_ref (tn_id t)) s = None \<and> paid (tn_rake_ref (tn_id t)) s = None \<and>
          (0 < tn_buyInCents t \<longrightarrow> (\<forall>uid\<in>set (tn_playerIds t). paid (tn_refund_ref (tn_id t) uid) s \<noteq> None))
      | _ \<Rightarrow> paid (prize_ref (tn_id t)) s = None \<and> paid (tn_rake_ref (tn_id t)) s = None)"

definition tn_inv :: "'z tourney_store_scheme \<Rightarrow> bool" where
  "tn_inv s \<longleftrightarrow> books_ok s \<and>
     (\<forall>i t. tn_get i s = Some t \<longrightarrow> tn_id t = i \<and> no_colon i \<and> tn_shape t \<and> tn_books t s)"

lemma tn_books_cong:
  assumes "\<And>ref. ref \<in> tn_refs (tn_id t) \<Longrightarrow> paid ref s' = paid ref s"
  shows "tn_books t s' = tn_books t s"
proof -
  have "paid (prize_ref (tn_id t)) s' = paid (prize_ref (tn_id t)) s"
    "paid (tn_rake_ref (tn_id t)) s' = paid (tn_rake_ref (tn_id t)) s"
    "\<And>uid. paid (tn_refund_ref (tn_id t) uid) s' = paid (tn_refund_ref (tn_id t) uid) s"
    by (rule assms; simp add: tn_refs_def)+
  then show ?thesis by (simp add: tn_books_def refunds_ok_def amount_paid_def split: tn_status.split)
qed

lemma tn_inv_update:
  assumes "tn_inv s" "books_ok s'" "no_colon i"
    and "\<And>j. j \<noteq> i \<Longrightarrow> tn_get j s' = tn_get j s" "\<And>ref. ref \<notin> tn_refs i \<Longrightarrow> paid ref s' = paid ref s"
    and "\<And>t. tn_get i s' = Some t \<Longrightarrow> tn_id t = i \<and> tn_shape t \<and> tn_books t s'"
  shows "tn_inv s'"
proof -
  have "tn_id t = j \<and> no_colon j \<and> tn_shape t \<and> tn_books t s'" if t: "tn_get j s' = Some t" for j t
  proof (cases "j = i")
    case True
    with t assms(3,6) show ?thesis by simp
  next
    case False
    with t assms(1,4) have j: "tn_id t = j" "no_colon j" "tn_shape t" "tn_books t s" by (auto simp: tn_inv_def)
    have "tn_books t s' = tn_books t s"
      by (rule tn_books_cong) (use j(1,2) False assms(3,5) tn_refs_disjoint in blast)
    with j show ?thesis by simp
  qed
  with assms(2) show ?thesis unfolding tn_inv_def by blast
qed

lemma tn_get_save [simp]: "tn_get j (tn_save t s) = (if j = tn_id t then Some t else tn_get j s)"
  by (simp add: tn_get_def tn_save_def update_conv')

lemma tn_get_delete [simp]: "tn_get j (tn_delete i s) = (if j = i then None else tn_get j s)"
  by (simp add: tn_get_def tn_delete_def delete_conv')

lemma tn_frames [simp]:
  "m_ledger (tn_save t s) = m_ledger s" "m_users (tn_save t s) = m_users s" "books_ok (tn_save t s) = books_ok s"
  "m_ledger (tn_delete i s) = m_ledger s" "books_ok (tn_delete i s) = books_ok s"
  "m_ledger (clearRecordedOutcomes i s) = m_ledger s" "m_users (clearRecordedOutcomes i s) = m_users s"
  "books_ok (clearRecordedOutcomes i s) = books_ok s" "tn_get j (clearRecordedOutcomes i s) = tn_get j s"
  "m_ledger (recordRoomOutcome i r k w s) = m_ledger s" "books_ok (recordRoomOutcome i r k w s) = books_ok s"
  "tn_get j (recordRoomOutcome i r k w s) = tn_get j s"
  by (simp_all add: tn_save_def tn_delete_def clearRecordedOutcomes_def recordRoomOutcome_def books_ok_def tn_get_def)

lemma tn_books_frame [simp]:
  "tn_books t (tn_save t' s) = tn_books t s" "tn_books t (tn_delete i s) = tn_books t s"
  "tn_books t (clearRecordedOutcomes i s) = tn_books t s" "tn_books t (recordRoomOutcome i r k w s) = tn_books t s"
  by (rule tn_books_cong; simp)+

lemma tn_inv_frame [simp]:
  "tn_inv (clearRecordedOutcomes i s) = tn_inv s" "tn_inv (recordRoomOutcome i r k w s) = tn_inv s"
  by (simp_all add: tn_inv_def)

lemma only_books_get:
  assumes "only_books s s'"
  shows "tn_get i s' = tn_get i s" "tn_outcomes s' = tn_outcomes s"
proof -
  obtain us l where "s' = s\<lparr>m_users := us, m_ledger := l\<rparr>" using assms by (auto simp: only_books_def)
  then show "tn_get i s' = tn_get i s" "tn_outcomes s' = tn_outcomes s" by (simp_all add: tn_get_def)
qed

text \<open>Saving a tournament after a movement that only touched its own references.\<close>

lemma tn_inv_saved:
  assumes "tn_inv s" "books_ok m" "only_books s m" "no_colon i" "tn_id t = i"
    and "\<And>ref. ref \<notin> tn_refs i \<Longrightarrow> paid ref m = paid ref s" "tn_shape t" "tn_books t m"
  shows "tn_inv (tn_save t m)"
  by (rule tn_inv_update[OF assms(1) _ assms(4)]) (use assms only_books_get[OF assms(3)] in auto)

lemma tn_inv_moved:
  assumes "tn_inv s" "books_ok m" "only_books s m" "no_colon i"
    and "\<And>ref. ref \<notin> tn_refs i \<Longrightarrow> paid ref m = paid ref s"
    and "\<And>t. tn_get i s = Some t \<Longrightarrow> tn_books t m"
  shows "tn_inv m"
  by (rule tn_inv_update[OF assms(1,2,4)])
     (use assms only_books_get[OF assms(3)] in \<open>auto simp: tn_inv_def\<close>)

subsection \<open>Refunding all buy-ins\<close>

lemma refund_loop:
  assumes "books_ok s" "rolls_back uow"
    and "for_each (\<lambda>uid. ignore_act (tn_credit (tx_wallet uow) uid amt (tn_refund_ref i uid) now)) us s = (r, s')"
  shows "books_ok s' \<and> only_books s s' \<and> (\<forall>ref. ref \<notin> range (tn_refund_ref i) \<longrightarrow> paid ref s' = paid ref s) \<and>
    (\<forall>uid row. paid (tn_refund_ref i uid) s' = Some row \<longrightarrow>
       paid (tn_refund_ref i uid) s = Some row \<or> uid \<in> set us \<and> t_userId row = uid \<and> t_amountCents row = amt) \<and>
    (\<forall>uid. paid (tn_refund_ref i uid) s \<noteq> None \<longrightarrow> paid (tn_refund_ref i uid) s' \<noteq> None) \<and>
    (r = Inr () \<longrightarrow> (\<forall>uid\<in>set us. paid (tn_refund_ref i uid) s' \<noteq> None))"
  by (rule credit_loop[OF assms(1,2) _ _ _ assms(3)[unfolded tn_credit_def]]) (simp_all add: inj_def)

subsection \<open>Every operation keeps the invariant\<close>

definition tx_tournaments :: "('s \<Rightarrow> 's \<Rightarrow> 's) \<Rightarrow> int \<Rightarrow> bool \<Rightarrow> 's tournament_service" where
  "tx_tournaments uow bps dual = \<lparr>ts_wallet = tx_wallet uow, ts_uow = Some uow, ts_rakeBps = bps, ts_dualControl = dual\<rparr>"

lemma tx_tournaments_simps [simp]:
  "ts_wallet (tx_tournaments uow bps dual) = tx_wallet uow" "ts_uow (tx_tournaments uow bps dual) = Some uow"
  "ts_rakeBps (tx_tournaments uow bps dual) = bps" "ts_dualControl (tx_tournaments uow bps dual) = dual"
  by (simp_all add: tx_tournaments_def)

lemma tn_inv_get:
  assumes "tn_inv s" "tn_get i s = Some t"
  shows "tn_id t = i" "no_colon i" "tn_shape t" "tn_books t s" "books_ok s"
  using assms by (auto simp: tn_inv_def)

definition unresolved :: "tournament \<Rightarrow> bool" where
  "unresolved t \<longleftrightarrow> tn_status t \<noteq> TnFinished \<and> tn_status t \<noteq> TnCancelled"

lemma tn_books_unresolved:
  "unresolved t \<Longrightarrow> tn_books t s \<longleftrightarrow> refunds_ok t s \<and> paid (prize_ref (tn_id t)) s = None \<and> paid (tn_rake_ref (tn_id t)) s = None"
  by (cases "tn_status t") (simp_all add: unresolved_def tn_books_def)

lemma tn_saved_in_place:
  assumes "tn_inv s" "no_colon (tn_id t)" "tn_shape t" "tn_books t s"
  shows "tn_inv (tn_save t s)"
  by (rule tn_inv_saved[OF assms(1) _ only_books_refl assms(2) refl _ assms(3,4)])
     (use assms(1) in \<open>simp_all add: tn_inv_def\<close>)

definition tn_fresh :: "string \<Rightarrow> 'z tourney_store_scheme \<Rightarrow> bool" where
  "tn_fresh i s \<longleftrightarrow> no_colon i \<and> tn_get i s = None \<and> (\<forall>ref\<in>tn_refs i. paid ref s = None)"

lemma create_inv:
  assumes "tn_inv s" "tn_fresh i s" "0 \<le> bps" "bps \<le> 10000"
  shows "tn_inv (snd (create_tournament (tx_tournaments uow bps dual) name buyIn cap club i now s))"
proof -
  have none: "paid (prize_ref i) s = None" "paid (tn_rake_ref i) s = None" "\<And>u. paid (tn_refund_ref i u) s = None"
    and nc: "no_colon i" using assms(2) by (auto simp: tn_fresh_def tn_refs_def)
  show ?thesis
    unfolding create_tournament_def Let_def tn_fail_def
    using assms(1,3,4) nc none
    by (auto intro!: tn_saved_in_place simp: tn_shape_def tn_books_def refunds_ok_def)
qed

lemma enter_fields [simp]:
  "tn_id (enter uid t) = tn_id t" "tn_playerIds (enter uid t) = tn_playerIds t @ [uid]"
  "tn_buyInCents (enter uid t) = tn_buyInCents t" "tn_capacity (enter uid t) = tn_capacity t"
  "tn_prizePoolCents (enter uid t) = tn_prizePoolCents t + tn_buyInCents t" "tn_rakeBps (enter uid t) = tn_rakeBps t"
  "tn_status (enter uid t) = (if Suc (length (tn_playerIds t)) = tn_capacity t then TnRunning else tn_status t)"
  by (simp_all add: enter_def seedBracket_def Let_def)

lemma enter_keeps:
  assumes "tn_shape t" "tn_status t = TnRegistering" "uid \<notin> set (tn_playerIds t)" "length (tn_playerIds t) < tn_capacity t"
  shows "tn_shape (enter uid t)" "unresolved (enter uid t)" "refunds_ok t s \<Longrightarrow> refunds_ok (enter uid t) s"
  using assms by (auto simp: tn_shape_def unresolved_def refunds_ok_def algebra_simps)

lemma register_cases:
  assumes "rolls_back uow"
  obtains (refused) e where "register_player (tx_tournaments uow bps dual) i uid now s = (Inl e, s)"
  | (entered) t m where "tn_get i s = Some t" "tn_status t = TnRegistering" "uid \<notin> set (tn_playerIds t)"
      "length (tn_playerIds t) < tn_capacity t"
      "register_player (tx_tournaments uow bps dual) i uid now s = (Inr (enter uid t), tn_save (enter uid t) m)"
      "if 0 < tn_buyInCents t then (\<exists>x. tn_debit bind_wallet uid (tn_buyInCents t) (buyin_ref (tn_id t) uid) now s = (Inr x, m)) else m = s"
proof -
  let ?sv = "tx_tournaments uow bps dual"
  show thesis
  proof (cases "tn_get i s")
    case None
    then show thesis by (intro refused) (simp add: register_player_def tn_fail_def)
  next
    case (Some t)
    show thesis
    proof (cases "tn_status t \<noteq> TnRegistering \<or> uid \<in> set (tn_playerIds t) \<or> length (tn_playerIds t) \<ge> tn_capacity t")
      case True
      then have "\<exists>e. register_player ?sv i uid now s = (Inl e, s)" by (auto simp: Some register_player_def tn_fail_def)
      then show thesis using refused by blast
    next
      case ok: False
      show thesis
      proof (cases "0 < tn_buyInCents t")
        case True
        let ?body = "bind_act (tn_debit bind_wallet uid (tn_buyInCents t) (buyin_ref (tn_id t) uid) now) (\<lambda>_. save_act (enter uid t))"
        have reg: "register_player ?sv i uid now s = transaction_in uow ?body s"
          using ok True by (simp add: register_player_def Some)
        show thesis
        proof (cases "transaction_in uow ?body s")
          case (Pair r s')
          show thesis
          proof (cases r)
            case (Inl e)
            have "s' = s" by (rule transaction_Inl[OF assms Pair[unfolded Inl]])
            with Inl Pair reg show thesis by (intro refused) simp
          next
            case (Inr t')
            with Pair have "?body s = (Inr t', s')" by simp
            then obtain x m where m: "tn_debit bind_wallet uid (tn_buyInCents t) (buyin_ref (tn_id t) uid) now s = (Inr x, m)"
              "t' = enter uid t" "s' = tn_save (enter uid t) m" by (auto simp: bind_act_Inr save_act_def)
            show thesis by (rule entered[OF Some]) (use ok True m reg Pair Inr in auto)
          qed
        qed
      next
        case False
        then show thesis using ok by (intro entered[OF Some]) (auto simp: register_player_def Some save_act_def)
      qed
    qed
  qed
qed

lemma register_inv:
  assumes "rolls_back uow" "tn_inv s"
  shows "tn_inv (snd (register_player (tx_tournaments uow bps dual) i uid now s))"
proof (rule register_cases[OF assms(1), of bps dual i uid now s])
  fix e
  assume "register_player (tx_tournaments uow bps dual) i uid now s = (Inl e, s)"
  with assms(2) show ?thesis by simp
next
  fix t m
  assume t: "tn_get i s = Some t" "tn_status t = TnRegistering" "uid \<notin> set (tn_playerIds t)"
      "length (tn_playerIds t) < tn_capacity t"
    and r: "register_player (tx_tournaments uow bps dual) i uid now s = (Inr (enter uid t), tn_save (enter uid t) m)"
    and m: "if 0 < tn_buyInCents t then (\<exists>x. tn_debit bind_wallet uid (tn_buyInCents t) (buyin_ref (tn_id t) uid) now s = (Inr x, m)) else m = s"
  note g = tn_inv_get[OF assms(2) t(1)]
  have f: "books_ok m" "only_books s m" "\<And>ref. paid ref m = paid ref s"
    using m debit_frame[OF g(5)] g(5) by (auto simp: tn_debit_def split: if_splits)
  have ur: "unresolved t" using t(2) by (simp add: unresolved_def)
  have b: "refunds_ok t s" "paid (prize_ref (tn_id t)) s = None" "paid (tn_rake_ref (tn_id t)) s = None"
    using g(4) tn_books_unresolved[OF ur] by blast+
  note k = enter_keeps[OF g(3) t(2-4)]
  have "refunds_ok (enter uid t) m" using k(3)[OF b(1)] f(3) by (simp add: refunds_ok_def)
  then have "tn_books (enter uid t) m" using b f(3) by (simp add: tn_books_unresolved[OF k(2)])
  then have "tn_inv (tn_save (enter uid t) m)"
    by (intro tn_inv_saved[OF assms(2) f(1,2) g(2)]) (use g(1) f(3) k(1) in auto)
  with r show ?thesis by simp
qed

lemma pay_champion_ok:
  assumes "books_ok s" "pay_champion w winner prize rake i now s = (Inr u, s')" "0 \<le> prize" "0 \<le> rake"
    and "paid (prize_ref i) s = None" "paid (tn_rake_ref i) s = None"
  shows "books_ok s'" "only_books s s'" "q \<noteq> prize_ref i \<Longrightarrow> q \<noteq> tn_rake_ref i \<Longrightarrow> paid q s' = paid q s"
    "amount_paid (prize_ref i) s' = prize" "amount_paid (tn_rake_ref i) s' = rake"
    "paid (prize_ref i) s' = Some row \<Longrightarrow> t_userId row = winner"
proof -
  obtain m where m: "(if 0 < prize then ignore_act (tn_credit w winner prize (prize_ref i) now) else return_act ()) s = (Inr (), m)"
    "(if 0 < rake then ignore_act (recordRake w rake None None (Some (tn_rake_ref i)) now) else return_act ()) m = (Inr u, s')"
    using assms(2) by (auto simp: pay_champion_def bind_act_Inr)
  note a = optional_pay[OF assms(1) m(1) assms(3) tn_credit_pays[OF assms(1) _ tn_ref_inj(9)] assms(5)]
  have r: "paid (tn_rake_ref i) m = None" using a(3)[where q="tn_rake_ref i"] assms(6) by simp
  note b = optional_pay[OF a(1) m(2) assms(4) rake_pays[OF a(1) _ tn_ref_inj(10)] r]
  show "books_ok s'" by (rule b(1))
  show "only_books s s'" by (rule only_books_trans[OF a(2) b(2)])
  show "q \<noteq> prize_ref i \<Longrightarrow> q \<noteq> tn_rake_ref i \<Longrightarrow> paid q s' = paid q s" using a(3) b(3) by simp
  have p: "paid (prize_ref i) s' = paid (prize_ref i) m" using b(3)[where q="prize_ref i"] by simp
  then show "amount_paid (prize_ref i) s' = prize" using a(4) by (simp add: amount_paid_def)
  show "amount_paid (tn_rake_ref i) s' = rake" by (rule b(4))
  show "paid (prize_ref i) s' = Some row \<Longrightarrow> t_userId row = winner" using a(5) p by simp
qed

lemma finish_cases:
  assumes "rolls_back uow"
  obtains (failed) e where "finish (tx_tournaments uow bps dual) t w now s = (Inl e, clearRecordedOutcomes (tn_id t) s)"
  | (finished) m where
      "finish (tx_tournaments uow bps dual) t w now s =
         (Inr (t\<lparr>tn_winnerId := Some w, tn_status := TnFinished\<rparr>), tn_save (t\<lparr>tn_winnerId := Some w, tn_status := TnFinished\<rparr>) m)"
      "pay_champion bind_wallet w (tn_prizePoolCents t - (tn_prizePoolCents t * tn_rakeBps t) div 10000)
         ((tn_prizePoolCents t * tn_rakeBps t) div 10000) (tn_id t) now (clearRecordedOutcomes (tn_id t) s) = (Inr (), m)"
proof -
  let ?s = "clearRecordedOutcomes (tn_id t) s"
  let ?t = "t\<lparr>tn_winnerId := Some w, tn_status := TnFinished\<rparr>"
  let ?body = "bind_act (pay_champion bind_wallet w (tn_prizePoolCents t - (tn_prizePoolCents t * tn_rakeBps t) div 10000)
         ((tn_prizePoolCents t * tn_rakeBps t) div 10000) (tn_id t) now) (\<lambda>_. save_act ?t)"
  have fin: "finish (tx_tournaments uow bps dual) t w now s = transaction_in uow ?body ?s"
    by (simp add: finish_def Let_def)
  show thesis
  proof (cases "transaction_in uow ?body ?s")
    case (Pair r s')
    show thesis
    proof (cases r)
      case (Inl e)
      have "s' = ?s" by (rule transaction_Inl[OF assms Pair[unfolded Inl]])
      with Inl Pair fin show thesis by (intro failed) simp
    next
      case (Inr x)
      with Pair have "?body ?s = (Inr x, s')" by simp
      then obtain m where "pay_champion bind_wallet w (tn_prizePoolCents t - (tn_prizePoolCents t * tn_rakeBps t) div 10000)
         ((tn_prizePoolCents t * tn_rakeBps t) div 10000) (tn_id t) now ?s = (Inr (), m)" "x = ?t" "s' = tn_save ?t m"
        by (auto simp: bind_act_Inr save_act_def)
      with Inr Pair fin show thesis by (intro finished) simp_all
    qed
  qed
qed

lemma finish_inv:
  assumes "rolls_back uow" "tn_inv s" "no_colon (tn_id t)" "tn_shape t" "tn_books t s" "unresolved t"
  shows "tn_inv (snd (finish (tx_tournaments uow bps dual) t w now s))"
proof (rule finish_cases[OF assms(1), of bps dual t w now s])
  fix e
  assume "finish (tx_tournaments uow bps dual) t w now s = (Inl e, clearRecordedOutcomes (tn_id t) s)"
  with assms(2) show ?thesis by simp
next
  fix m
  let ?c = "clearRecordedOutcomes (tn_id t) s"
  let ?t = "t\<lparr>tn_winnerId := Some w, tn_status := TnFinished\<rparr>"
  let ?rake = "(tn_prizePoolCents t * tn_rakeBps t) div 10000"
  assume f: "finish (tx_tournaments uow bps dual) t w now s = (Inr ?t, tn_save ?t m)"
    and p: "pay_champion bind_wallet w (tn_prizePoolCents t - ?rake) ?rake (tn_id t) now ?c = (Inr (), m)"
  have b: "refunds_ok t s" "paid (prize_ref (tn_id t)) s = None" "paid (tn_rake_ref (tn_id t)) s = None"
    using assms(5) tn_books_unresolved[OF assms(6)] by blast+
  have bk: "books_ok ?c" using assms(2) by (simp add: tn_inv_def)
  have pool: "0 \<le> tn_prizePoolCents t" "0 \<le> tn_rakeBps t" "tn_rakeBps t \<le> 10000"
    using assms(4) by (auto simp: tn_shape_def)
  have pr: "0 \<le> tn_prizePoolCents t - ?rake" "0 \<le> ?rake" using rake_bounds[OF pool] by simp_all
  have n: "paid (prize_ref (tn_id t)) ?c = None" "paid (tn_rake_ref (tn_id t)) ?c = None" using b by simp_all
  note o = pay_champion_ok[OF bk p pr n]
  have same: "paid q m = paid q s" if "q \<notin> {prize_ref (tn_id t), tn_rake_ref (tn_id t)}" for q
    using o(3)[where q=q] that by simp
  have "refunds_ok ?t m" using b(1) same by (simp add: refunds_ok_def)
  then have books: "tn_books ?t m" using o(4-6) by (simp add: tn_books_def)
  have shape: "tn_shape ?t" using assms(4,6) by (simp add: tn_shape_def unresolved_def)
  have "tn_inv (tn_save ?t m)"
  proof (rule tn_inv_saved[where i="tn_id t" and s="?c"])
    show "tn_inv ?c" using assms(2) by simp
    show "paid ref m = paid ref ?c" if "ref \<notin> tn_refs (tn_id t)" for ref
      using same[of ref] that by (auto simp: tn_refs_def)
  qed (use o(1,2) assms(3) shape books in simp_all)
  with f show ?thesis by simp
qed

text \<open>Steps that neither move money nor resolve the tournament.\<close>

definition same_money :: "tournament \<Rightarrow> tournament \<Rightarrow> bool" where
  "same_money t t' \<longleftrightarrow> tn_id t' = tn_id t \<and> tn_playerIds t' = tn_playerIds t \<and> tn_capacity t' = tn_capacity t \<and>
     tn_buyInCents t' = tn_buyInCents t \<and> tn_prizePoolCents t' = tn_prizePoolCents t \<and> tn_rakeBps t' = tn_rakeBps t"

lemma same_money_keeps:
  assumes "same_money t t'" "unresolved t" "unresolved t'"
  shows "tn_shape t' = tn_shape t" "tn_books t' s = tn_books t s"
  using assms by (simp_all add: same_money_def tn_shape_def tn_books_unresolved refunds_ok_def) (auto simp: unresolved_def)

lemma decide_fields [simp]:
  "tn_status (decide r k w t) = tn_status t" "same_money t (decide r k w t)"
  "tn_buyInCents (decide r k w t) = tn_buyInCents t" "tn_id (decide r k w t) = tn_id t"
  by (simp_all add: decide_def same_money_def)

text \<open>
  What a report does to the tournament: the pairing was open and the winner is one of its two
  players; then the round goes on, the next round is built, or the final is decided.
\<close>

definition reported :: "nat \<Rightarrow> nat \<Rightarrow> user_id \<Rightarrow> tournament \<Rightarrow> bool" where
  "reported r k w t \<longleftrightarrow> (\<exists>m. List.find (in_match r k) (tn_bracket t) = Some m \<and> \<not> truthy (bm_winnerId m) \<and>
     (Some w = bm_aUserId m \<or> Some w = bm_bUserId m))"

definition round_over :: "nat \<Rightarrow> tournament \<Rightarrow> bool" where
  "round_over r t \<longleftrightarrow> (\<forall>x\<in>set (round_matches r (tn_bracket t)). truthy (bm_winnerId x))"

lemma report_cases:
  obtains (refused) e where "reportResult sv i r k w a auto now s = (Inl e, s)"
  | (going) t where "tn_get i s = Some t" "tn_status t = TnRunning" "reported r k w t" "\<not> round_over r (decide r k w t)"
      "reportResult sv i r k w a auto now s = (Inr (decide r k w t), tn_save (decide r k w t) s)"
  | (advanced) t t' where "tn_get i s = Some t" "tn_status t = TnRunning" "reported r k w t" "round_over r (decide r k w t)"
      "length (round_matches r (tn_bracket (decide r k w t))) \<noteq> 1"
      "t' = (decide r k w t)\<lparr>tn_bracket := tn_bracket (decide r k w t) @ next_round r (round_matches r (tn_bracket (decide r k w t)))\<rparr>"
      "reportResult sv i r k w a auto now s = (Inr t', tn_save t' s)"
  | (parked) t t' where "tn_get i s = Some t" "tn_status t = TnRunning" "reported r k w t" "round_over r (decide r k w t)"
      "length (round_matches r (tn_bracket (decide r k w t))) = 1"
      "t' = (decide r k w t)\<lparr>tn_status := TnAwaiting,
         tn_pendingWinnerId := Some (the (bm_winnerId (hd (round_matches r (tn_bracket (decide r k w t)))))),
         tn_reportedByAdminId := a\<rparr>"
      "reportResult sv i r k w a auto now s = (Inr t', tn_save t' s)"
  | (final) t where "tn_get i s = Some t" "tn_status t = TnRunning" "reported r k w t" "round_over r (decide r k w t)"
      "length (round_matches r (tn_bracket (decide r k w t))) = 1"
      "reportResult sv i r k w a auto now s =
         finish sv (decide r k w t) (the (bm_winnerId (hd (round_matches r (tn_bracket (decide r k w t)))))) now s"
proof (cases "tn_get i s")
  case None
  then show thesis by (intro refused) (simp add: reportResult_def tn_fail_def)
next
  case (Some t)
  show thesis
  proof (cases "tn_status t = TnRunning")
    case False
    then show thesis by (intro refused) (simp add: reportResult_def tn_fail_def Some)
  next
    case run: True
    show thesis
    proof (cases "List.find (in_match r k) (tn_bracket t)")
      case None
      then show thesis by (intro refused) (simp add: reportResult_def tn_fail_def Some run)
    next
      case m: (Some m)
      let ?bad = "truthy (bm_winnerId m) \<or> (Some w \<noteq> bm_aUserId m \<and> Some w \<noteq> bm_bUserId m) \<or>
        (\<not> auto \<and> truthy (recordedOutcome i r k s) \<and> recordedOutcome i r k s \<noteq> Some w)"
      show thesis
      proof (cases ?bad)
        case True
        then have "\<exists>e. reportResult sv i r k w a auto now s = (Inl e, s)"
          by (auto simp: reportResult_def tn_fail_def Some run m)
        then show thesis using refused by blast
      next
        case ok: False
        let ?t = "decide r k w t" and ?ms = "round_matches r (tn_bracket (decide r k w t))"
        have eq: "reportResult sv i r k w a auto now s =
            (if round_over r ?t then
               (if length ?ms = 1
                then if ts_dualControl sv \<and> tn_buyInCents t > 0 \<and> \<not> auto
                     then save_act (?t\<lparr>tn_status := TnAwaiting, tn_pendingWinnerId := Some (the (bm_winnerId (hd ?ms))),
                                      tn_reportedByAdminId := a\<rparr>) s
                     else finish sv ?t (the (bm_winnerId (hd ?ms))) now s
                else save_act (?t\<lparr>tn_bracket := tn_bracket ?t @ next_round r ?ms\<rparr>) s)
             else save_act ?t s)"
        proof -
          have ok': "truthy (bm_winnerId m) = False" "(Some w \<noteq> bm_aUserId m \<and> Some w \<noteq> bm_bUserId m) = False"
            "(\<not> auto \<and> truthy (recordedOutcome i r k s) \<and> recordedOutcome i r k s \<noteq> Some w) = False"
            using ok by blast+
          show ?thesis
            by (simp only: reportResult_def Some run m Let_def ok' round_over_def option.case if_False simp_thms)
        qed
        have rep: "reported r k w t" using m ok unfolding reported_def by blast
        show thesis
        proof (cases "round_over r ?t")
          case False
          then show thesis by (intro going[OF Some run rep]) (simp_all add: eq save_act_def)
        next
          case over: True
          show thesis
          proof (cases "length ?ms = 1")
            case False
            then show thesis using over by (intro advanced[OF Some run rep over False refl]) (simp add: eq save_act_def)
          next
            case one: True
            show thesis
            proof (cases "ts_dualControl sv \<and> tn_buyInCents t > 0 \<and> \<not> auto")
              case True
              have "reportResult sv i r k w a auto now s = save_act (?t\<lparr>tn_status := TnAwaiting,
                  tn_pendingWinnerId := Some (the (bm_winnerId (hd ?ms))), tn_reportedByAdminId := a\<rparr>) s"
                unfolding eq by (simp only: over one True if_True simp_thms)
              then show thesis by (intro parked[OF Some run rep over one refl]) (simp only: save_act_def)
            next
              case False
              then have "reportResult sv i r k w a auto now s = finish sv ?t (the (bm_winnerId (hd ?ms))) now s"
                unfolding eq by (simp only: over one simp_thms(6) if_True if_False)
              then show thesis by (rule final[OF Some run rep over one])
            qed
          qed
        qed
      qed
    qed
  qed
qed

lemma report_inv:
  assumes "rolls_back uow" "tn_inv s"
  shows "tn_inv (snd (reportResult (tx_tournaments uow bps dual) i r k w a auto now s))"
proof -
  have save: "tn_inv (tn_save t' s)" if t: "tn_get i s = Some t" "tn_status t = TnRunning" "same_money t t'" "unresolved t'" for t t'
  proof -
    have u: "unresolved t" using t(2) by (simp add: unresolved_def)
    note g = tn_inv_get[OF assms(2) t(1)]
    show ?thesis
      by (rule tn_saved_in_place[OF assms(2)])
         (use g t(3) in \<open>simp_all add: same_money_keeps[OF t(3) u t(4)] same_money_def[of t t']\<close>)
  qed
  have keep: "same_money t ((decide r k w t)\<lparr>tn_bracket := b\<rparr>)"
    "same_money t ((decide r k w t)\<lparr>tn_status := TnAwaiting, tn_pendingWinnerId := p, tn_reportedByAdminId := q\<rparr>)" for t b p q
    by (simp_all add: same_money_def decide_def)
  show ?thesis
  proof (rule report_cases[of "tx_tournaments uow bps dual" i r k w a auto now s])
    fix e
    assume "reportResult (tx_tournaments uow bps dual) i r k w a auto now s = (Inl e, s)"
    with assms(2) show ?thesis by simp
  next
    fix t
    assume t: "tn_get i s = Some t" "tn_status t = TnRunning"
      and r: "reportResult (tx_tournaments uow bps dual) i r k w a auto now s = (Inr (decide r k w t), tn_save (decide r k w t) s)"
    have "tn_inv (tn_save (decide r k w t) s)" by (rule save[OF t]) (use t(2) in \<open>simp_all add: unresolved_def\<close>)
    with r show ?thesis by simp
  next
    fix t t'
    assume t: "tn_get i s = Some t" "tn_status t = TnRunning"
      and t': "t' = (decide r k w t)\<lparr>tn_bracket := tn_bracket (decide r k w t) @ next_round r (round_matches r (tn_bracket (decide r k w t)))\<rparr>"
      and r: "reportResult (tx_tournaments uow bps dual) i r k w a auto now s = (Inr t', tn_save t' s)"
    have "tn_inv (tn_save t' s)" by (rule save[OF t]) (use t(2) keep(1) in \<open>simp_all add: t' unresolved_def\<close>)
    with r show ?thesis by simp
  next
    fix t t'
    assume t: "tn_get i s = Some t" "tn_status t = TnRunning"
      and t': "t' = (decide r k w t)\<lparr>tn_status := TnAwaiting,
         tn_pendingWinnerId := Some (the (bm_winnerId (hd (round_matches r (tn_bracket (decide r k w t)))))),
         tn_reportedByAdminId := a\<rparr>"
      and r: "reportResult (tx_tournaments uow bps dual) i r k w a auto now s = (Inr t', tn_save t' s)"
    have "tn_inv (tn_save t' s)" by (rule save[OF t]) (use keep(2) in \<open>simp_all add: t' unresolved_def\<close>)
    with r show ?thesis by simp
  next
    fix t
    assume t: "tn_get i s = Some t" "tn_status t = TnRunning"
      and r: "reportResult (tx_tournaments uow bps dual) i r k w a auto now s =
        finish (tx_tournaments uow bps dual) (decide r k w t) (the (bm_winnerId (hd (round_matches r (tn_bracket (decide r k w t)))))) now s"
    have u: "unresolved t" "unresolved (decide r k w t)" using t(2) by (simp_all add: unresolved_def)
    note g = tn_inv_get[OF assms(2) t(1)]
    show ?thesis unfolding r
      by (rule finish_inv[OF assms]) (use g u(2) in \<open>simp_all add: same_money_keeps[OF decide_fields(2) u]\<close>)
  qed
qed

lemma confirm_inv:
  assumes "rolls_back uow" "tn_inv s"
  shows "tn_inv (snd (confirmChampion (tx_tournaments uow bps dual) i a now s))"
proof (cases "tn_get i s")
  case None
  with assms show ?thesis by (simp add: confirmChampion_def tn_fail_def)
next
  case (Some t)
  let ?t = "t\<lparr>tn_pendingWinnerId := None, tn_reportedByAdminId := None\<rparr>"
  note g = tn_inv_get[OF assms(2) Some]
  show ?thesis
  proof (cases "tn_status t = TnAwaiting")
    case True
    then have u: "unresolved t" "unresolved ?t" by (simp_all add: unresolved_def)
    have sm: "same_money t ?t" by (simp add: same_money_def)
    note k = same_money_keeps[OF sm u]
    have "tn_inv (snd (finish (tx_tournaments uow bps dual) ?t w now s))" for w
      by (rule finish_inv[OF assms]) (use g u(2) in \<open>simp_all add: k\<close>)
    with assms(2) show ?thesis by (simp add: confirmChampion_def Some tn_fail_def)
  next
    case False
    with assms(2) show ?thesis by (simp add: confirmChampion_def Some tn_fail_def)
  qed
qed

lemma refund_buyins_effect:
  assumes "rolls_back uow" "books_ok s" "refunds_ok t s" "refund_buyins (tx_wallet uow) t now s = (r, m)"
  shows "books_ok m" "only_books s m" "ref \<notin> range (tn_refund_ref (tn_id t)) \<Longrightarrow> paid ref m = paid ref s" "refunds_ok t m"
    "r = Inr () \<Longrightarrow> 0 < tn_buyInCents t \<Longrightarrow> uid \<in> set (tn_playerIds t) \<Longrightarrow> paid (tn_refund_ref (tn_id t) uid) m \<noteq> None"
proof -
  have "books_ok m \<and> only_books s m \<and> (ref \<notin> range (tn_refund_ref (tn_id t)) \<longrightarrow> paid ref m = paid ref s) \<and> refunds_ok t m \<and>
    (r = Inr () \<longrightarrow> 0 < tn_buyInCents t \<longrightarrow> uid \<in> set (tn_playerIds t) \<longrightarrow> paid (tn_refund_ref (tn_id t) uid) m \<noteq> None)"
  proof (cases "0 < tn_buyInCents t")
    case False
    with assms have "m = s" by (simp add: refund_buyins_def return_act_def)
    with False assms(2,3) show ?thesis by simp
  next
    case True
    then have "for_each (\<lambda>uid. ignore_act (tn_credit (tx_wallet uow) uid (tn_buyInCents t) (tn_refund_ref (tn_id t) uid) now))
        (tn_playerIds t) s = (r, m)" using assms(4) by (simp add: refund_buyins_def)
    note l = refund_loop[OF assms(2,1) this]
    have src: "paid (tn_refund_ref (tn_id t) u) s = Some row \<or> u \<in> set (tn_playerIds t) \<and> t_userId row = u \<and> t_amountCents row = tn_buyInCents t"
      if "paid (tn_refund_ref (tn_id t) u) m = Some row" for u row
      by (rule l[THEN conjunct2, THEN conjunct2, THEN conjunct2, THEN conjunct1, rule_format, OF that])
    have "refunds_ok t m" unfolding refunds_ok_def
    proof (intro allI impI)
      fix u row
      assume "paid (tn_refund_ref (tn_id t) u) m = Some row"
      from src[OF this] show "u \<in> set (tn_playerIds t) \<and> t_userId row = u \<and> t_amountCents row = tn_buyInCents t"
        using assms(3) unfolding refunds_ok_def by (elim disjE) simp_all
    qed
    with l show ?thesis by simp
  qed
  then show "books_ok m" "only_books s m" "ref \<notin> range (tn_refund_ref (tn_id t)) \<Longrightarrow> paid ref m = paid ref s" "refunds_ok t m"
    "r = Inr () \<Longrightarrow> 0 < tn_buyInCents t \<Longrightarrow> uid \<in> set (tn_playerIds t) \<Longrightarrow> paid (tn_refund_ref (tn_id t) uid) m \<noteq> None"
    by simp_all
qed

lemma void_fields [simp]: "tn_id (void t) = tn_id t" "tn_status (void t) = TnCancelled" "tn_playerIds (void t) = tn_playerIds t"
  "tn_buyInCents (void t) = tn_buyInCents t"
  by (simp_all add: void_def)

lemma void_inv:
  assumes "rolls_back uow" "tn_inv s" "tn_get i s = Some t" "unresolved t"
    and "refund_buyins (tx_wallet uow) t now s = (r, m)"
  shows "r \<noteq> Inr () \<Longrightarrow> tn_inv m" "r = Inr () \<Longrightarrow> tn_inv (tn_save (void t) m)"
proof -
  note g = tn_inv_get[OF assms(2,3)]
  have b: "refunds_ok t s" "paid (prize_ref (tn_id t)) s = None" "paid (tn_rake_ref (tn_id t)) s = None"
    using g(4) tn_books_unresolved[OF assms(4)] by blast+
  note e = refund_buyins_effect[OF assms(1) g(5) b(1) assms(5)]
  have same: "paid q m = paid q s" if "q \<notin> range (tn_refund_ref (tn_id t))" for q by (rule e(3)[OF that])
  have pn: "paid (prize_ref (tn_id t)) m = None" "paid (tn_rake_ref (tn_id t)) m = None"
  proof -
    have "prize_ref (tn_id t) \<notin> range (tn_refund_ref (tn_id t))" "tn_rake_ref (tn_id t) \<notin> range (tn_refund_ref (tn_id t))"
      by auto
    from same[OF this(1)] same[OF this(2)]
    show "paid (prize_ref (tn_id t)) m = None" "paid (tn_rake_ref (tn_id t)) m = None" using b(2,3) by simp_all
  qed
  have outside: "paid q m = paid q s" if "q \<notin> tn_refs i" for q
    using same[of q] that g(1) by (simp add: tn_refs_def)
  show "tn_inv m"
  proof (rule tn_inv_moved[OF assms(2) e(1,2) g(2) outside])
    fix t'
    assume "tn_get i s = Some t'"
    then have "t' = t" using assms(3) by simp
    then show "tn_books t' m" using e(4) pn by (simp add: tn_books_unresolved[OF assms(4)])
  qed
  assume r: "r = Inr ()"
  have books: "tn_books (void t) m" using e(4) pn e(5)[OF r] by (auto simp: tn_books_def refunds_ok_def)
  have shape: "tn_shape (void t)" using g(3) by (simp add: tn_shape_def void_def)
  show "tn_inv (tn_save (void t) m)"
    by (rule tn_inv_saved[OF assms(2) e(1,2) g(2)]) (use g(1) outside shape books in simp_all)
qed

lemma tn_save_clear: "tn_save t (clearRecordedOutcomes i s) = clearRecordedOutcomes i (tn_save t s)"
  by (simp add: tn_save_def clearRecordedOutcomes_def)

lemma cancel_inv:
  assumes "rolls_back uow" "tn_inv s"
  shows "tn_inv (snd (cancel (tx_tournaments uow bps dual) i now s))"
proof (cases "tn_get i s")
  case None
  with assms(2) show ?thesis by (simp add: cancel_def tn_fail_def)
next
  case (Some t)
  obtain r m where rm: "refund_buyins (tx_wallet uow) t now s = (r, m)" by fastforce
  show ?thesis
  proof (cases "unresolved t")
    case True
    note v = void_inv[OF assms Some True rm]
    have "snd (cancel (tx_tournaments uow bps dual) i now s) =
        (case r of Inl _ \<Rightarrow> m | Inr _ \<Rightarrow> clearRecordedOutcomes (tn_id t) (tn_save (void t) m))"
      using True by (auto simp: cancel_def Some unresolved_def bind_act_def rm save_act_def tn_save_clear split: sum.split)
    then show ?thesis using v by (cases r) simp_all
  next
    case False
    with assms(2) show ?thesis by (auto simp: cancel_def Some unresolved_def tn_fail_def)
  qed
qed

lemma delete_inv:
  assumes "tn_inv s"
  shows "tn_inv (snd (adminDelete i s))"
proof (cases "tn_get i s")
  case None
  with assms show ?thesis by (simp add: adminDelete_def)
next
  case (Some t)
  note g = tn_inv_get[OF assms Some]
  have "tn_inv (tn_delete (tn_id t) (clearRecordedOutcomes (tn_id t) s))"
    by (rule tn_inv_update[OF assms _ g(2)]) (use g(1,5) in simp_all)
  with assms show ?thesis by (simp add: adminDelete_def Some tn_fail_def)
qed

lemma sweep_one_inv:
  assumes "rolls_back uow" "tn_inv s"
  shows "tn_inv (snd (sweep_one (tx_tournaments uow bps dual) cutoff now snap s))"
proof (cases "tn_get (tn_id snap) s")
  case None
  with assms(2) show ?thesis by (simp add: sweep_one_def)
next
  case (Some t)
  obtain r m where rm: "refund_buyins (tx_wallet uow) t now s = (r, m)" by fastforce
  show ?thesis
  proof (cases "sweepable (tn_status t)")
    case True
    then have "unresolved t" by (auto simp: sweepable_def unresolved_def)
    note v = void_inv[OF assms Some this rm]
    then show ?thesis using assms(2) True
      by (cases r) (simp_all add: sweep_one_def Some bind_act_def rm)
  next
    case False
    with assms(2) show ?thesis by (simp add: sweep_one_def Some)
  qed
qed

lemma sweep_all_inv:
  assumes "rolls_back uow"
  shows "tn_inv s \<Longrightarrow> tn_inv (snd (sweep_all (tx_tournaments uow bps dual) cutoff now snaps s))"
proof (induction snaps arbitrary: s)
  case (Cons snap snaps)
  obtain r m where rm: "sweep_one (tx_tournaments uow bps dual) cutoff now snap s = (r, m)" by fastforce
  have m: "tn_inv m" using sweep_one_inv[OF assms Cons.prems, of bps dual cutoff now snap] rm by simp
  obtain r' m' where rm': "sweep_all (tx_tournaments uow bps dual) cutoff now snaps m = (r', m')" by fastforce
  have "tn_inv m'" using Cons.IH[OF m] rm' by simp
  with m show ?case by (cases r; cases r') (simp_all add: bind_act_def rm rm' return_act_def)
qed simp

subsection \<open>Histories\<close>

datatype tn_op =
  TnWallet wallet_op
| TnCreate string cents nat "string option" string
| TnRegister string user_id
| TnOutcome string nat nat user_id
| TnReport string nat nat user_id "string option" bool
| TnConfirm string string
| TnCancel string
| TnDelete string
| TnSweep int

fun tn_step ::
  "('z tourney_store_scheme \<Rightarrow> 'z tourney_store_scheme \<Rightarrow> 'z tourney_store_scheme) \<Rightarrow> int \<Rightarrow> bool \<Rightarrow>
     'z tourney_store_scheme \<Rightarrow> tn_op \<times> int \<Rightarrow> 'z tourney_store_scheme" where
  "tn_step uow bps dual s (TnWallet op, now) = wallet_step uow s (op, now)"
| "tn_step uow bps dual s (TnCreate name buyIn cap club i, now) =
     snd (create_tournament (tx_tournaments uow bps dual) name buyIn cap club i now s)"
| "tn_step uow bps dual s (TnRegister i uid, now) = snd (register_player (tx_tournaments uow bps dual) i uid now s)"
| "tn_step uow bps dual s (TnOutcome i r k w, now) = recordRoomOutcome i r k w s"
| "tn_step uow bps dual s (TnReport i r k w a auto, now) =
     snd (reportResult (tx_tournaments uow bps dual) i r k w a auto now s)"
| "tn_step uow bps dual s (TnConfirm i a, now) = snd (confirmChampion (tx_tournaments uow bps dual) i a now s)"
| "tn_step uow bps dual s (TnCancel i, now) = snd (cancel (tx_tournaments uow bps dual) i now s)"
| "tn_step uow bps dual s (TnDelete i, now) = snd (adminDelete i s)"
| "tn_step uow bps dual s (TnSweep age, now) = snd (sweepStale (tx_tournaments uow bps dual) age now s)"

text \<open>
  A new tournament gets an identifier that was never used, and other wallet movements stay away
  from the references of tournaments.
\<close>

definition tournament_ref :: "string \<Rightarrow> bool" where
  "tournament_ref q \<longleftrightarrow> (\<exists>i. q \<in> tn_refs i)"

fun tn_proper :: "tn_op \<Rightarrow> 'z tourney_store_scheme \<Rightarrow> bool" where
  "tn_proper (TnWallet op) s = (\<forall>q. op_ref op = Some q \<longrightarrow> \<not> tournament_ref q)"
| "tn_proper (TnCreate name buyIn cap club i) s = tn_fresh i s"
| "tn_proper _ s = True"

fun tn_history ::
  "('z tourney_store_scheme \<Rightarrow> 'z tourney_store_scheme \<Rightarrow> 'z tourney_store_scheme) \<Rightarrow> int \<Rightarrow> bool \<Rightarrow>
     'z tourney_store_scheme \<Rightarrow> (tn_op \<times> int) list \<Rightarrow> bool" where
  "tn_history uow bps dual s [] = True"
| "tn_history uow bps dual s (p # ps) = (tn_proper (fst p) s \<and> tn_history uow bps dual (tn_step uow bps dual s p) ps)"

lemma more_tn_get:
  fixes s s' :: "'z tourney_store_scheme"
  shows "money_store.more s' = money_store.more s \<Longrightarrow> tn_get i s' = tn_get i s"
  by (cases s; cases s') (simp add: tn_get_def)

lemma tn_wallet_inv:
  assumes "rolls_back uow" "tn_inv s" "tn_proper (TnWallet op) s"
  shows "tn_inv (wallet_step uow s (op, now))"
proof -
  have b: "books_ok s" using assms(2) by (simp add: tn_inv_def)
  note a = wallet_step_appends[OF assms(1) b, of op now]
  have p: "paid q (wallet_step uow s (op, now)) = paid q s" if "q \<in> tn_refs i" for q i
    by (rule appends_paid[OF b a]) (use assms(3) that in \<open>auto simp: row_from_def tournament_ref_def\<close>)
  have g: "tn_get i (wallet_step uow s (op, now)) = tn_get i s" for i
    by (rule more_tn_get[OF wallet_step_more[OF assms(1) b]])
  have "tn_books t (wallet_step uow s (op, now)) = tn_books t s" for t by (rule tn_books_cong) (rule p)
  moreover have "books_ok (wallet_step uow s (op, now))" using a by (simp add: appends_def)
  ultimately show ?thesis using assms(2) g by (simp add: tn_inv_def)
qed

lemma tn_step_inv:
  assumes "rolls_back uow" "0 \<le> bps" "bps \<le> 10000" "tn_inv s" "tn_proper op s"
  shows "tn_inv (tn_step uow bps dual s (op, now))"
  by (cases op)
     (use assms tn_wallet_inv[OF assms(1,4)] create_inv[OF assms(4) _ assms(2,3)] register_inv[OF assms(1,4)]
        report_inv[OF assms(1,4)] confirm_inv[OF assms(1,4)] cancel_inv[OF assms(1,4)] delete_inv[OF assms(4)]
        sweep_all_inv[OF assms(1,4)] in \<open>simp_all add: sweepStale_def\<close>)

definition tn_guarded where
  "tn_guarded uow bps dual s p = (if tn_proper (fst p) s then tn_step uow bps dual s p else s)"

interpretation trn: invariant_system "tn_guarded uow bps dual"
  "\<lambda>s. rolls_back uow \<and> 0 \<le> bps \<and> bps \<le> 10000 \<and> tn_inv s" for uow bps dual
  by unfold_locales (auto simp: tn_guarded_def intro: tn_step_inv)

lemma tn_run: "tn_history uow bps dual s ops \<Longrightarrow>
    foldl (tn_step uow bps dual) s ops = foldl (tn_guarded uow bps dual) s ops"
  by (induction ops arbitrary: s) (simp_all add: tn_guarded_def)

lemma tn_history_inv:
  assumes "rolls_back uow" "0 \<le> bps" "bps \<le> 10000" "tn_inv s" "tn_history uow bps dual s ops"
  shows "tn_inv (foldl (tn_step uow bps dual) s ops)"
  using trn.run_inv[of uow bps s dual ops] assms by (simp add: tn_run)

subsection \<open>Properties\<close>


definition demo_tourney :: tourney_store where
  "demo_tourney = \<lparr>m_users = m_users demo_store, m_ledger = m_ledger demo_store, m_matches = [],
     m_withdrawals = m_withdrawals demo_store, m_audit = m_audit demo_store, tn_rows = [], tn_outcomes = []\<rparr>"

lemma tn_inv_demo: "tn_inv demo_tourney"
proof -
  have "books_ok demo_tourney = books_ok demo_store" by (simp add: books_ok_def demo_tourney_def)
  moreover have "tn_get i demo_tourney = None" for i by (simp add: tn_get_def demo_tourney_def)
  ultimately show ?thesis using demo_store_books by (simp add: tn_inv_def)
qed

definition demo_cup :: "(tn_op \<times> int) list" where
  "demo_cup = [(TnWallet (CreditOp ''u_2'' 500 (plain_credit Deposit ''d'')), 3), (TnCreate ''Cup'' 100 2 None ''trn_1'', 4),
     (TnRegister ''trn_1'' ''u_1'', 5), (TnRegister ''trn_1'' ''u_2'', 6)]"

definition demo_final :: "(tn_op \<times> int) list" where
  "demo_final = demo_cup @ [(TnReport ''trn_1'' 0 0 ''u_2'' None True, 7)]"

lemma tn_history_append:
  "tn_history uow bps dual s (xs @ ys) = (tn_history uow bps dual s xs \<and> tn_history uow bps dual (foldl (tn_step uow bps dual) s xs) ys)"
  by (induction xs arbitrary: s) simp_all

lemma tn_fresh_iff:
  "tn_fresh i s \<longleftrightarrow> no_colon i \<and> tn_get i s = None \<and> paid (prize_ref i) s = None \<and> paid (tn_rake_ref i) s = None \<and>
     (\<forall>u. paid (tn_refund_ref i u) s = None)"
  by (auto simp: tn_fresh_def tn_refs_def)

lemma demo_cup_history: "tn_history rollback 500 False demo_tourney demo_cup"
proof -
  let ?s = "tn_step rollback 500 False demo_tourney (TnWallet (CreditOp ''u_2'' 500 (plain_credit Deposit ''d'')), 3)"
  have refs: "map t_providerRef (l_rows (m_ledger ?s)) = [None, None]" by code_simp
  have rows: "tn_rows ?s = []" by code_simp
  have "tn_inv ?s" by (rule tn_step_inv[OF rolls_back_rollback _ _ tn_inv_demo]) (simp_all add: plain_credit_def)
  then have wf: "ledger_wf (m_ledger ?s)" by (simp add: tn_inv_def books_ok_def)
  have "paid q ?s = None" for q by (rule no_refs_paid[OF wf, of 2]) (simp only: refs, simp add: numeral_2_eq_2)
  moreover have "tn_get ''trn_1'' ?s = None" by (simp only: tn_get_def rows map_of.simps)
  ultimately have "tn_fresh ''trn_1'' ?s" by (simp only: tn_fresh_iff) (simp add: no_colon_def)
  then show ?thesis by (simp add: demo_cup_def plain_credit_def)
qed


lemma buyin_balances:
  assumes "books_ok s" "tn_debit w uid amt ref now s = (Inr x, m)"
  shows "amt \<le> getBalance uid s" "getBalance uid m = getBalance uid s - amt"
    "v \<noteq> uid \<Longrightarrow> v \<noteq> HOUSE_ACCOUNT_ID \<Longrightarrow> getBalance v m = getBalance v s"
proof -
  have d: "debit w uid amt (plain_debit Bet ref) now s = (Inr x, m)" using assms(2) by (simp add: tn_debit_def)
  let ?row = "new_row (Suc (l_seq (m_ledger s))) (debit_row uid amt (plain_debit Bet ref)) now"
  have p: "posted ?row s m" "amt \<le> getBalance uid s" "uid \<in> known (m_users s)"
    by (rule debit_cases[OF assms(1), of amt w uid "plain_debit Bet ref" now]; use d in auto)+
  have u: "uid \<noteq> HOUSE_ACCOUNT_ID" using p(3) HOUSE_unknown assms(1) by (auto simp: books_ok_def)
  show "amt \<le> getBalance uid s" by (rule p(2))
  show "getBalance uid m = getBalance uid s - amt" using posted_balance[OF assms(1) p(1) u] by (simp add: getBalance_eq)
  show "v \<noteq> uid \<Longrightarrow> v \<noteq> HOUSE_ACCOUNT_ID \<Longrightarrow> getBalance v m = getBalance v s"
    using posted_balance[OF assms(1) p(1), of v] by (simp add: getBalance_eq)
qed

text \<open>A registration escrows the buy-in or changes nothing. When it succeeds the player was not
  registered before, could pay, exactly the buy-in left the player's balance for the pool, nobody
  else's balance changed, and the tournament starts exactly when its last place is taken; when it
  fails the store is unchanged.\<close>

theorem registration_correct:
  assumes "rolls_back uow" "tn_inv s"
  shows "case register_player (tx_tournaments uow bps dual) i uid now s of
      (Inl e, s') \<Rightarrow> s' = s
    | (Inr t, s') \<Rightarrow> \<exists>t0. tn_get i s = Some t0 \<and> tn_status t0 = TnRegistering \<and> uid \<notin> set (tn_playerIds t0) \<and>
        tn_get i s' = Some t \<and> tn_playerIds t = tn_playerIds t0 @ [uid] \<and>
        tn_prizePoolCents t = tn_prizePoolCents t0 + tn_buyInCents t0 \<and>
        (tn_status t = TnRunning \<longleftrightarrow> length (tn_playerIds t) = tn_capacity t) \<and>
        (tn_buyInCents t0 \<noteq> 0 \<longrightarrow> tn_buyInCents t0 \<le> getBalance uid s) \<and>
        getBalance uid s' = getBalance uid s - tn_buyInCents t0 \<and>
        (\<forall>v. v \<noteq> uid \<longrightarrow> v \<noteq> HOUSE_ACCOUNT_ID \<longrightarrow> getBalance v s' = getBalance v s)"
proof (rule register_cases[OF assms(1), of bps dual i uid now s])
  fix e
  assume e: "register_player (tx_tournaments uow bps dual) i uid now s = (Inl e, s)"
  show ?thesis by (simp add: e)
next
  fix t m
  assume t: "tn_get i s = Some t" "tn_status t = TnRegistering" "uid \<notin> set (tn_playerIds t)"
    and r: "register_player (tx_tournaments uow bps dual) i uid now s = (Inr (enter uid t), tn_save (enter uid t) m)"
    and m: "if 0 < tn_buyInCents t then (\<exists>x. tn_debit bind_wallet uid (tn_buyInCents t) (buyin_ref (tn_id t) uid) now s = (Inr x, m)) else m = s"
  note g = tn_inv_get[OF assms(2) t(1)]
  have nn: "0 \<le> tn_buyInCents t" using g(3) by (simp add: tn_shape_def)
  have b: "(tn_buyInCents t \<noteq> 0 \<longrightarrow> tn_buyInCents t \<le> getBalance uid s) \<and> getBalance uid m = getBalance uid s - tn_buyInCents t \<and>
      (v \<noteq> uid \<longrightarrow> v \<noteq> HOUSE_ACCOUNT_ID \<longrightarrow> getBalance v m = getBalance v s)" for v
  proof (cases "0 < tn_buyInCents t")
    case True
    with m obtain x where "tn_debit bind_wallet uid (tn_buyInCents t) (buyin_ref (tn_id t) uid) now s = (Inr x, m)" by auto
    from buyin_balances[OF g(5) this] show ?thesis by blast
  next
    case False
    with m nn show ?thesis by simp
  qed
  have "getBalance v (tn_save (enter uid t) m) = getBalance v m" for v by (simp add: getBalance_def)
  with b g(1) t show ?thesis by (simp add: r)
qed

theorem registration_correct_witness:
  "case register_player (tx_tournaments rollback 500 False) ''trn_1'' ''u_2'' 6
      (foldl (tn_step rollback 500 False) demo_tourney (butlast demo_cup)) of
      (Inl e, s') \<Rightarrow> False
    | (Inr t, s') \<Rightarrow> tn_playerIds t = [''u_1'', ''u_2''] \<and> tn_status t = TnRunning \<and>
        getBalance ''u_2'' s' = getBalance ''u_2'' (foldl (tn_step rollback 500 False) demo_tourney (butlast demo_cup)) - 100"
proof -
  let ?s = "foldl (tn_step rollback 500 False) demo_tourney (butlast demo_cup)"
  have "demo_cup = butlast demo_cup @ [last demo_cup]" by (simp add: demo_cup_def)
  then have "tn_history rollback 500 False demo_tourney (butlast demo_cup)"
    using demo_cup_history tn_history_append by metis
  then have inv: "tn_inv ?s" using tn_history_inv[OF rolls_back_rollback _ _ tn_inv_demo] by simp
  have f: "\<not> isl (fst (register_player (tx_tournaments rollback 500 False) ''trn_1'' ''u_2'' 6 ?s))"
    "map_option (\<lambda>t. (tn_playerIds t, tn_capacity t, tn_buyInCents t)) (tn_get ''trn_1'' ?s) = Some ([''u_1''], 2, 100)"
    by code_simp+
  from f(1) obtain t s' where r: "register_player (tx_tournaments rollback 500 False) ''trn_1'' ''u_2'' 6 ?s = (Inr t, s')"
    using action_succeeds by blast
  have c: "tn_capacity t = 2"
  proof (rule register_cases[OF rolls_back_rollback, where bps=500 and dual=False and i="''trn_1''" and uid="''u_2''" and now=6 and s="?s"])
  qed (use r f(2) in auto)
  show ?thesis
    using registration_correct[OF rolls_back_rollback inv, where bps=500 and dual=False and i="''trn_1''" and uid="''u_2''" and now=6] f(2) c by (auto simp: r)
qed

text \<open>
  A cancellation that fails half-way: the refunds are separate transactions, here the second one is
  refused because the balance of the second player is at the ceiling.
\<close>

definition failing_cancel :: "(tn_op \<times> int) list" where
  "failing_cancel = demo_cup @ [(TnWallet (CreditOp ''u_2'' (BALANCE_CEILING_CENTS - 400) (plain_credit Deposit ''d'')), 7),
     (TnCancel ''trn_1'', 8)]"

text \<open>A failed cancellation leaves refunds behind and the tournament running. Its final can then
  still be reported: from a pool of 200 with no rake the champion gets 200 although 100 were
  already refunded, so 300 leave the tournament.\<close>

theorem failed_cancel_overpays:
  "map_option tn_status (tn_get ''trn_1'' (foldl (tn_step rollback 0 False) demo_tourney failing_cancel)) = Some TnRunning \<and>
   amount_paid (tn_refund_ref ''trn_1'' ''u_1'') (foldl (tn_step rollback 0 False) demo_tourney
     (failing_cancel @ [(TnReport ''trn_1'' 0 0 ''u_1'' None False, 9)])) = 100 \<and>
   amount_paid (prize_ref ''trn_1'') (foldl (tn_step rollback 0 False) demo_tourney
     (failing_cancel @ [(TnReport ''trn_1'' 0 0 ''u_1'' None False, 9)])) = 200"
  by code_simp

end
