(* ===== verification/Tournament_Bracket.thy ===== *)
theory Tournament_Bracket
  imports Tournament
begin

text \<open>
  The bracket of a tournament is single elimination: the first round pairs the players in the order
  of registration, every later pairing is between the winners of the two pairings that feed it,
  earlier rounds are fully decided, and the champion won the only pairing of the last round. The
  invariant holds along every history of \<^theory_text>\<open>Tournament\<close>.
\<close>

subsection \<open>Well-formed brackets\<close>

definition bm_key :: "bracket_match \<Rightarrow> nat \<times> nat" where
  "bm_key m = (bm_round m, bm_index m)"

definition slots :: "nat \<Rightarrow> nat \<Rightarrow> nat" where
  "slots cap r = cap div 2 ^ Suc r"

definition round_keys :: "nat \<Rightarrow> nat \<Rightarrow> (nat \<times> nat) list" where
  "round_keys cap r = map (Pair r) [0..<slots cap r]"

definition bracket_keys :: "nat \<Rightarrow> nat \<Rightarrow> (nat \<times> nat) list" where
  "bracket_keys cap R = concat (map (round_keys cap) [0..<Suc R])"

definition fed :: "user_id list \<Rightarrow> bracket_match list \<Rightarrow> bracket_match \<Rightarrow> bool" where
  "fed players b m \<longleftrightarrow>
     (case bm_round m of
        0 \<Rightarrow> bm_aUserId m = Some (players ! (2 * bm_index m)) \<and> bm_bUserId m = Some (players ! (2 * bm_index m + 1))
      | Suc r \<Rightarrow> \<exists>m1\<in>set b. \<exists>m2\<in>set b. bm_key m1 = (r, 2 * bm_index m) \<and> bm_key m2 = (r, 2 * bm_index m + 1) \<and>
          bm_aUserId m = bm_winnerId m1 \<and> bm_bUserId m = bm_winnerId m2)"

definition bracket_wf :: "tournament \<Rightarrow> nat \<Rightarrow> bool" where
  "bracket_wf t R \<longleftrightarrow> tn_capacity t \<in> set VALID_CAPACITIES \<and> length (tn_playerIds t) = tn_capacity t \<and>
     0 < slots (tn_capacity t) R \<and> map bm_key (tn_bracket t) = bracket_keys (tn_capacity t) R \<and>
     (\<forall>m\<in>set (tn_bracket t). (bm_round m < R \<longrightarrow> truthy (bm_winnerId m)) \<and>
        (bm_winnerId m = None \<or> bm_winnerId m = bm_aUserId m \<or> bm_winnerId m = bm_bUserId m) \<and>
        fed (tn_playerIds t) (tn_bracket t) m)"

text \<open>The pairing of the last round is decided in favour of \<open>champ\<close>.\<close>

definition won_by :: "tournament \<Rightarrow> user_id option \<Rightarrow> bool" where
  "won_by t champ \<longleftrightarrow> truthy champ \<and> (\<exists>R. bracket_wf t R \<and> slots (tn_capacity t) R = 1 \<and>
     (\<exists>m\<in>set (tn_bracket t). bm_key m = (R, 0) \<and> bm_winnerId m = champ))"

definition bracket_ok :: "tournament \<Rightarrow> bool" where
  "bracket_ok t \<longleftrightarrow>
     (case tn_status t of
        TnRegistering \<Rightarrow> tn_capacity t \<in> set VALID_CAPACITIES \<and> length (tn_playerIds t) < tn_capacity t
      | TnRunning \<Rightarrow> \<exists>R. bracket_wf t R
      | TnAwaiting \<Rightarrow> won_by t (tn_pendingWinnerId t)
      | TnFinished \<Rightarrow> won_by t (tn_winnerId t)
      | TnCancelled \<Rightarrow> True)"

lemma truthy_not_None: "truthy x \<Longrightarrow> x \<noteq> None"
  by (cases x) (simp_all add: truthy_def)

lemma capacity_cases: "cap \<in> set VALID_CAPACITIES \<longleftrightarrow> cap = 2 \<or> cap = 4 \<or> cap = 8"
  by (auto simp: VALID_CAPACITIES_def)

lemma slots_cases:
  assumes "cap \<in> set VALID_CAPACITIES" "0 < slots cap R"
  shows "slots cap R = 1 \<or> even (slots cap R)" "slots cap (Suc R) = (slots cap R + 1) div 2 \<or> slots cap R = 1"
    "slots cap R \<noteq> 1 \<Longrightarrow> 0 < slots cap (Suc R)"
proof -
  have "R < 3"
  proof (rule ccontr)
    assume "\<not> R < 3"
    then have "(2::nat) ^ 4 \<le> 2 ^ Suc R" by (intro power_increasing) auto
    then have "cap < 2 ^ Suc R" using assms(1) by (auto simp: capacity_cases)
    with assms(2) show False by (simp add: slots_def)
  qed
  then have R: "R = 0 \<or> R = 1 \<or> R = 2" by auto
  have c: "cap = 2 \<or> cap = 4 \<or> cap = 8" using assms(1) capacity_cases by simp
  show "slots cap R = 1 \<or> even (slots cap R)" "slots cap (Suc R) = (slots cap R + 1) div 2 \<or> slots cap R = 1"
    "slots cap R \<noteq> 1 \<Longrightarrow> 0 < slots cap (Suc R)"
    using R c assms(2) by (elim disjE; simp add: slots_def)+
qed

lemma mem_round_keys [simp]: "(q, k) \<in> set (round_keys cap r) \<longleftrightarrow> q = r \<and> k < slots cap r"
  by (auto simp: round_keys_def)

lemma mem_bracket_keys: "(r, k) \<in> set (bracket_keys cap R) \<longleftrightarrow> r \<le> R \<and> k < slots cap r"
  by (auto simp: bracket_keys_def simp del: upt_Suc)

lemma bracket_keys_Suc: "bracket_keys cap (Suc R) = bracket_keys cap R @ round_keys cap (Suc R)"
  by (simp add: bracket_keys_def)

lemma bracket_mem_key:
  assumes "bracket_wf t R" "m \<in> set (tn_bracket t)"
  shows "bm_round m \<le> R" "bm_index m < slots (tn_capacity t) (bm_round m)"
proof -
  have keys: "map bm_key (tn_bracket t) = bracket_keys (tn_capacity t) R" using assms(1) by (simp add: bracket_wf_def)
  have "bm_key m \<in> set (map bm_key (tn_bracket t))" using assms(2) by simp
  then have "(bm_round m, bm_index m) \<in> set (bracket_keys (tn_capacity t) R)"
    unfolding keys by (simp only: bm_key_def)
  then show "bm_round m \<le> R" "bm_index m < slots (tn_capacity t) (bm_round m)" by (simp_all add: mem_bracket_keys)
qed

subsection \<open>Everybody in the bracket is a registered player\<close>

lemma bracket_participants:
  assumes "bracket_wf t R" "m \<in> set (tn_bracket t)"
  shows "\<exists>u\<in>set (tn_playerIds t). bm_aUserId m = Some u" "\<exists>u\<in>set (tn_playerIds t). bm_bUserId m = Some u"
proof -
  have wf: "length (tn_playerIds t) = tn_capacity t"
    "\<And>m. m \<in> set (tn_bracket t) \<Longrightarrow> bm_round m < R \<Longrightarrow> truthy (bm_winnerId m)"
    "\<And>m. m \<in> set (tn_bracket t) \<Longrightarrow> bm_winnerId m = None \<or> bm_winnerId m = bm_aUserId m \<or> bm_winnerId m = bm_bUserId m"
    "\<And>m. m \<in> set (tn_bracket t) \<Longrightarrow> fed (tn_playerIds t) (tn_bracket t) m"
    using assms(1) unfolding bracket_wf_def by blast+
  have "\<forall>m\<in>set (tn_bracket t). bm_round m = r \<longrightarrow>
      (\<exists>u\<in>set (tn_playerIds t). bm_aUserId m = Some u) \<and> (\<exists>u\<in>set (tn_playerIds t). bm_bUserId m = Some u)" for r
  proof (induction r)
    case 0
    show ?case
    proof (intro ballI impI)
      fix m
      assume m: "m \<in> set (tn_bracket t)" "bm_round m = 0"
      have "bm_index m < tn_capacity t div 2" using bracket_mem_key(2)[OF assms(1) m(1)] m(2) by (simp add: slots_def)
      then have "2 * bm_index m + 1 < length (tn_playerIds t)" using wf(1) by simp
      then show "(\<exists>u\<in>set (tn_playerIds t). bm_aUserId m = Some u) \<and> (\<exists>u\<in>set (tn_playerIds t). bm_bUserId m = Some u)"
        using wf(4)[OF m(1)] m(2) by (simp add: fed_def)
    qed
  next
    case (Suc r)
    have winner: "\<exists>u\<in>set (tn_playerIds t). bm_winnerId m1 = Some u"
      if "m1 \<in> set (tn_bracket t)" "bm_round m1 = r" "r < R" for m1
    proof -
      have "truthy (bm_winnerId m1)" using wf(2)[OF that(1)] that by simp
      then have "bm_winnerId m1 \<noteq> None" by (rule truthy_not_None)
      then have "bm_winnerId m1 = bm_aUserId m1 \<or> bm_winnerId m1 = bm_bUserId m1" using wf(3)[OF that(1)] by argo
      with Suc.IH that show ?thesis by metis
    qed
    show ?case
    proof (intro ballI impI)
      fix m
      assume m: "m \<in> set (tn_bracket t)" "bm_round m = Suc r"
      have "r < R" using bracket_mem_key(1)[OF assms(1) m(1)] m(2) by simp
      obtain m1 m2 where f: "m1 \<in> set (tn_bracket t)" "m2 \<in> set (tn_bracket t)" "bm_round m1 = r" "bm_round m2 = r"
        "bm_aUserId m = bm_winnerId m1" "bm_bUserId m = bm_winnerId m2"
        using wf(4)[OF m(1)] m(2) by (auto simp: fed_def bm_key_def)
      show "(\<exists>u\<in>set (tn_playerIds t). bm_aUserId m = Some u) \<and> (\<exists>u\<in>set (tn_playerIds t). bm_bUserId m = Some u)"
        using winner[OF f(1,3) \<open>r < R\<close>] winner[OF f(2,4) \<open>r < R\<close>] f(5,6) by simp
    qed
  qed
  then show "\<exists>u\<in>set (tn_playerIds t). bm_aUserId m = Some u" "\<exists>u\<in>set (tn_playerIds t). bm_bUserId m = Some u"
    using assms(2) by blast+
qed

lemma won_by_player:
  assumes "won_by t champ"
  shows "\<exists>u\<in>set (tn_playerIds t). champ = Some u"
proof -
  obtain R m where m: "truthy champ" "bracket_wf t R" "m \<in> set (tn_bracket t)" "bm_winnerId m = champ"
    using assms by (auto simp: won_by_def)
  then have "champ \<noteq> None" using truthy_not_None by blast
  moreover have "bm_winnerId m = None \<or> bm_winnerId m = bm_aUserId m \<or> bm_winnerId m = bm_bUserId m"
    using m(2,3) by (simp add: bracket_wf_def)
  ultimately show ?thesis using bracket_participants[OF m(2,3)] m(4) by metis
qed

subsection \<open>Deciding a pairing\<close>

lemma find_split:
  assumes "List.find P xs = Some x"
  obtains as bs where "xs = as @ x # bs" "update_first P f xs = as @ f x # bs" "P x" "\<forall>y\<in>set as. \<not> P y"
proof -
  have "\<exists>as bs. xs = as @ x # bs \<and> update_first P f xs = as @ f x # bs \<and> P x \<and> (\<forall>y\<in>set as. \<not> P y)"
    using assms
  proof (induction xs)
    case (Cons y xs)
    show ?case
    proof (cases "P y")
      case True
      with Cons.prems show ?thesis by (intro exI[of _ "[]"] exI[of _ xs]) simp
    next
      case False
      with Cons obtain as bs where "xs = as @ x # bs" "update_first P f xs = as @ f x # bs" "P x" "\<forall>y\<in>set as. \<not> P y"
        by auto
      with False show ?thesis by (intro exI[of _ "y # as"] exI[of _ bs]) simp
    qed
  qed simp
  with that show thesis by blast
qed

lemma fed_mono:
  assumes "fed players b m" "\<And>x. x \<in> set b \<Longrightarrow> bm_round x < bm_round m \<Longrightarrow> x \<in> set b'"
  shows "fed players b' m"
proof (cases "bm_round m")
  case 0
  with assms(1) show ?thesis by (simp add: fed_def)
next
  case (Suc r)
  then obtain m1 m2 where "m1 \<in> set b" "m2 \<in> set b" "bm_key m1 = (r, 2 * bm_index m)" "bm_key m2 = (r, 2 * bm_index m + 1)"
    "bm_aUserId m = bm_winnerId m1" "bm_bUserId m = bm_winnerId m2" using assms(1) by (auto simp: fed_def)
  moreover from this have "m1 \<in> set b'" "m2 \<in> set b'" using assms(2) Suc by (auto simp: bm_key_def)
  ultimately show ?thesis using Suc by (auto simp: fed_def)
qed

lemma decide_wf:
  assumes "bracket_wf t R" "reported r k w t"
  shows "bracket_wf (decide r k w t) R" "r = R"
proof -
  obtain m where m: "List.find (in_match r k) (tn_bracket t) = Some m" "\<not> truthy (bm_winnerId m)"
    "Some w = bm_aUserId m \<or> Some w = bm_bUserId m" using assms(2) by (auto simp: reported_def)
  let ?f = "\<lambda>m. m\<lparr>bm_winnerId := Some w\<rparr>"
  obtain as bs where b: "tn_bracket t = as @ m # bs" "update_first (in_match r k) ?f (tn_bracket t) = as @ ?f m # bs"
    "in_match r k m" by (rule find_split[OF m(1), of ?f])
  have mem: "m \<in> set (tn_bracket t)" using b(1) by simp
  have key: "bm_round m = r" "bm_index m = k" using b(3) by (simp_all add: in_match_def)
  have wf: "tn_capacity t \<in> set VALID_CAPACITIES" "length (tn_playerIds t) = tn_capacity t" "0 < slots (tn_capacity t) R"
    "map bm_key (tn_bracket t) = bracket_keys (tn_capacity t) R"
    and ok: "\<And>x. x \<in> set (tn_bracket t) \<Longrightarrow> (bm_round x < R \<longrightarrow> truthy (bm_winnerId x)) \<and>
      (bm_winnerId x = None \<or> bm_winnerId x = bm_aUserId x \<or> bm_winnerId x = bm_bUserId x) \<and>
      fed (tn_playerIds t) (tn_bracket t) x"
    using assms(1) unfolding bracket_wf_def by blast+
  have "\<not> r < R" using ok[OF mem] m(2) key by blast
  then show r: "r = R" using bracket_mem_key(1)[OF assms(1) mem] key by simp
  have fields: "tn_bracket (decide r k w t) = as @ ?f m # bs" "tn_capacity (decide r k w t) = tn_capacity t"
    "tn_playerIds (decide r k w t) = tn_playerIds t" using b(2) by (simp_all add: decide_def)
  have keys: "map bm_key (as @ ?f m # bs) = bracket_keys (tn_capacity t) R"
    using wf(4) by (simp add: b(1) bm_key_def)
  have keep: "x \<in> set (as @ ?f m # bs)" if "x \<in> set (tn_bracket t)" "bm_round x < R" for x
    using that key r b(1) by auto
  have fedm: "fed (tn_playerIds t) (as @ ?f m # bs) x" if x: "x \<in> set (tn_bracket t)" for x
  proof (rule fed_mono)
    show "fed (tn_playerIds t) (tn_bracket t) x" using ok[OF x] by simp
    show "y \<in> set (as @ ?f m # bs)" if "y \<in> set (tn_bracket t)" "bm_round y < bm_round x" for y
      using keep[OF that(1)] that(2) bracket_mem_key(1)[OF assms(1) x] by simp
  qed
  have "(bm_round x < R \<longrightarrow> truthy (bm_winnerId x)) \<and>
      (bm_winnerId x = None \<or> bm_winnerId x = bm_aUserId x \<or> bm_winnerId x = bm_bUserId x) \<and>
      fed (tn_playerIds t) (as @ ?f m # bs) x" if x: "x \<in> set (as @ ?f m # bs)" for x
  proof (cases "x = ?f m")
    case True
    have "fed (tn_playerIds t) (as @ ?f m # bs) (?f m)" using fedm[OF mem] by (simp add: fed_def split: nat.splits)
    then show ?thesis using key r m(3) by (simp add: True)
  next
    case False
    with x have "x \<in> set (tn_bracket t)" using b(1) by auto
    with ok fedm show ?thesis by blast
  qed
  with wf keys show "bracket_wf (decide r k w t) R" unfolding bracket_wf_def fields by blast
qed

subsection \<open>Building the next round\<close>

lemma filter_round_keys:
  "filter (\<lambda>p. fst p = r) (concat (map (round_keys cap) [0..<n])) = (if r < n then round_keys cap r else [])"
proof (induction n)
  case (Suc n)
  have "filter (\<lambda>p. fst p = r) (round_keys cap n) = (if r = n then round_keys cap n else [])"
    by (auto simp: round_keys_def filter_empty_conv intro: filter_True)
  with Suc show ?case by (auto simp: less_Suc_eq)
qed simp

lemma sort_key_sorted: "sorted (map f xs) \<Longrightarrow> sort_key f xs = xs"
proof (induction xs)
  case (Cons x xs)
  then have "sort_key f xs = xs" "\<forall>y\<in>set xs. f x \<le> f y" by auto
  then show ?case by (simp add: insort_is_Cons)
qed simp

lemma round_matches_keys:
  assumes "map bm_key b = bracket_keys cap R" "r \<le> R"
  shows "map bm_key (round_matches r b) = round_keys cap r"
proof -
  let ?ms = "filter (\<lambda>x. bm_round x = r) b"
  have "map bm_key ?ms = filter (\<lambda>p. fst p = r) (map bm_key b)" by (simp add: filter_map bm_key_def comp_def)
  also have "\<dots> = round_keys cap r" using assms by (simp add: bracket_keys_def filter_round_keys del: upt_Suc)
  finally have k: "map bm_key ?ms = round_keys cap r" .
  then have "map snd (map bm_key ?ms) = [0..<slots cap r]" by (simp add: round_keys_def comp_def)
  then have "map bm_index ?ms = [0..<slots cap r]" by (simp add: bm_key_def comp_def)
  then have "sorted (map bm_index ?ms)" by simp
  then show ?thesis using k by (simp add: round_matches_def sort_key_sorted)
qed

lemma set_round_matches [simp]: "set (round_matches r b) = {x\<in>set b. bm_round x = r}"
  by (auto simp: round_matches_def)

lemma next_round_wf:
  assumes "bracket_wf t R" "round_over R t" "length (round_matches R (tn_bracket t)) \<noteq> 1"
  shows "bracket_wf (t\<lparr>tn_bracket := tn_bracket t @ next_round R (round_matches R (tn_bracket t))\<rparr>) (Suc R)"
proof -
  let ?cap = "tn_capacity t" and ?b = "tn_bracket t" and ?ms = "round_matches R (tn_bracket t)"
  let ?new = "next_round R ?ms"
  have wf: "?cap \<in> set VALID_CAPACITIES" "length (tn_playerIds t) = ?cap" "0 < slots ?cap R"
    "map bm_key ?b = bracket_keys ?cap R"
    and ok: "\<And>x. x \<in> set ?b \<Longrightarrow> (bm_round x < R \<longrightarrow> truthy (bm_winnerId x)) \<and>
      (bm_winnerId x = None \<or> bm_winnerId x = bm_aUserId x \<or> bm_winnerId x = bm_bUserId x) \<and>
      fed (tn_playerIds t) ?b x"
    using assms(1) unfolding bracket_wf_def by blast+
  have mk: "map bm_key ?ms = round_keys ?cap R" by (rule round_matches_keys[OF wf(4)]) simp
  then have "length (map bm_key ?ms) = slots ?cap R" by (simp add: round_keys_def)
  then have len: "length ?ms = slots ?cap R" by simp
  have ne: "slots ?cap R \<noteq> 1" using assms(3) len by simp
  then have ev: "even (slots ?cap R)" and half: "slots ?cap (Suc R) = (length ?ms + 1) div 2" and pos: "0 < slots ?cap (Suc R)"
    using slots_cases[OF wf(1,3)] len by auto
  have nk: "map bm_key ?new = round_keys ?cap (Suc R)"
    by (simp add: next_round_def round_keys_def half bm_key_def comp_def)
  have at: "bm_key (?ms ! j) = (R, j)" "?ms ! j \<in> set ?b" if "j < slots ?cap R" for j
  proof -
    have "map bm_key ?ms ! j = round_keys ?cap R ! j" using mk by simp
    then show "bm_key (?ms ! j) = (R, j)" using that len by (simp add: round_keys_def)
    have "?ms ! j \<in> set ?ms" using that len by (intro nth_mem) simp
    then show "?ms ! j \<in> set ?b" by simp
  qed
  have old: "fed (tn_playerIds t) (?b @ ?new) x" if "x \<in> set ?b" for x
    by (rule fed_mono[of _ ?b]) (use ok[OF that] in auto)
  have new: "bm_round x = Suc R \<and> bm_winnerId x = None \<and> fed (tn_playerIds t) (?b @ ?new) x" if x: "x \<in> set ?new" for x
  proof -
    obtain j where j: "j < slots ?cap (Suc R)" "x = \<lparr>bm_round = R + 1, bm_index = j, bm_aUserId = bm_winnerId (?ms ! (2 * j)),
        bm_bUserId = bm_winnerId (?ms ! (2 * j + 1)), bm_winnerId = None\<rparr>"
      using x half by (auto simp: next_round_def)
    have "2 * j + 1 < slots ?cap R" using j(1) half len ev by (auto elim!: evenE)
    then have a: "bm_key (?ms ! (2 * j)) = (R, 2 * j)" "?ms ! (2 * j) \<in> set ?b"
      "bm_key (?ms ! (2 * j + 1)) = (R, 2 * j + 1)" "?ms ! (2 * j + 1) \<in> set ?b" using at by simp_all
    have "fed (tn_playerIds t) (?b @ ?new) x"
      unfolding fed_def j(2) using a by (simp add: bexI[of _ "?ms ! (2 * j)"] bexI[of _ "?ms ! (2 * j + 1)"])
    then show ?thesis by (simp add: j(2))
  qed
  have over: "truthy (bm_winnerId x)" if "x \<in> set ?b" "bm_round x < Suc R" for x
    using that ok[OF that(1)] assms(2) by (cases "bm_round x < R") (auto simp: round_over_def)
  have all: "(bm_round x < Suc R \<longrightarrow> truthy (bm_winnerId x)) \<and>
      (bm_winnerId x = None \<or> bm_winnerId x = bm_aUserId x \<or> bm_winnerId x = bm_bUserId x) \<and>
      fed (tn_playerIds t) (?b @ ?new) x" if "x \<in> set (?b @ ?new)" for x
  proof (cases "x \<in> set ?b")
    case True
    with ok[OF True] old[OF True] over[OF True] show ?thesis by blast
  next
    case False
    with that new show ?thesis by auto
  qed
  have keys: "map bm_key (?b @ ?new) = bracket_keys ?cap (Suc R)" using wf(4) nk by (simp add: bracket_keys_Suc)
  show ?thesis unfolding bracket_wf_def using wf(1,2) pos keys all by simp
qed

subsection \<open>Every operation keeps the brackets\<close>

lemma bracket_wf_cong:
  "tn_bracket t' = tn_bracket t \<Longrightarrow> tn_playerIds t' = tn_playerIds t \<Longrightarrow> tn_capacity t' = tn_capacity t \<Longrightarrow>
     bracket_wf t' R = bracket_wf t R"
  by (simp add: bracket_wf_def)

lemma won_by_cong:
  assumes "tn_bracket t' = tn_bracket t" "tn_playerIds t' = tn_playerIds t" "tn_capacity t' = tn_capacity t"
  shows "won_by t' champ = won_by t champ"
  unfolding won_by_def bracket_wf_cong[OF assms] assms(1,3) by (rule refl)

lemma final_won:
  assumes "bracket_wf t R" "round_over R t" "length (round_matches R (tn_bracket t)) = 1"
  shows "won_by t (Some (the (bm_winnerId (hd (round_matches R (tn_bracket t))))))"
proof -
  let ?ms = "round_matches R (tn_bracket t)"
  obtain m where m: "?ms = [m]" using assms(3) by (auto simp: length_Suc_conv)
  have mk: "map bm_key ?ms = round_keys (tn_capacity t) R"
    by (rule round_matches_keys[OF _ le_refl]) (use assms(1) in \<open>simp add: bracket_wf_def\<close>)
  then have k: "round_keys (tn_capacity t) R = [bm_key m]" by (simp add: m)
  then have "length (round_keys (tn_capacity t) R) = 1" by simp
  then have s: "slots (tn_capacity t) R = 1" by (simp add: round_keys_def)
  then have key: "bm_key m = (R, 0)" using k by (simp add: round_keys_def)
  have mem: "m \<in> set (tn_bracket t)" using m set_round_matches[of R "tn_bracket t"] by auto
  have tr: "truthy (bm_winnerId m)" using assms(2) by (simp add: round_over_def m)
  then have "Some (the (bm_winnerId m)) = bm_winnerId m" using truthy_not_None by simp
  then show ?thesis using assms(1) s key mem tr by (auto simp: won_by_def m)
qed

definition tb_inv :: "'z tourney_store_scheme \<Rightarrow> bool" where
  "tb_inv s \<longleftrightarrow> (\<forall>i t. tn_get i s = Some t \<longrightarrow> bracket_ok t)"

lemma tb_same: "tb_inv s \<Longrightarrow> (\<And>j. tn_get j s' = tn_get j s) \<Longrightarrow> tb_inv s'"
  by (simp add: tb_inv_def)

lemma tb_saved: "tb_inv s \<Longrightarrow> bracket_ok t \<Longrightarrow> tb_inv (tn_save t s)"
  by (simp add: tb_inv_def)

lemma pay_champion_frame:
  assumes "books_ok s" "pay_champion w winner prize rake i now s = (Inr u, s')"
  shows "only_books s s'"
proof -
  obtain m where m: "(if 0 < prize then ignore_act (tn_credit w winner prize (prize_ref i) now) else return_act ()) s = (Inr (), m)"
    "(if 0 < rake then ignore_act (recordRake w rake None None (Some (tn_rake_ref i)) now) else return_act ()) m = (Inr u, s')"
    using assms(2) by (auto simp: pay_champion_def bind_act_Inr)
  have a: "books_ok m \<and> only_books s m"
    using m(1) assms(1) credit_keeps[OF assms(1)]
    by (auto simp: ignore_act_Inr tn_credit_def return_act_def split: if_splits)
  then have bm: "books_ok m" by simp
  have "only_books m s'"
    using m(2) recordRake_keeps[OF bm] by (auto simp: ignore_act_Inr return_act_def split: if_splits)
  with a show ?thesis using only_books_trans by blast
qed

lemma finish_tb:
  assumes "rolls_back uow" "books_ok s" "tb_inv s" "won_by t (Some w)"
  shows "tb_inv (snd (finish (tx_tournaments uow bps dual) t w now s))"
proof (rule finish_cases[OF assms(1), of bps dual t w now s])
  fix e
  assume "finish (tx_tournaments uow bps dual) t w now s = (Inl e, clearRecordedOutcomes (tn_id t) s)"
  moreover have "tb_inv (clearRecordedOutcomes (tn_id t) s)" by (rule tb_same[OF assms(3)]) simp
  ultimately show ?thesis by simp
next
  fix m
  let ?t = "t\<lparr>tn_winnerId := Some w, tn_status := TnFinished\<rparr>"
  assume f: "finish (tx_tournaments uow bps dual) t w now s = (Inr ?t, tn_save ?t m)"
    and p: "pay_champion bind_wallet w (tn_prizePoolCents t - (tn_prizePoolCents t * tn_rakeBps t) div 10000)
         ((tn_prizePoolCents t * tn_rakeBps t) div 10000) (tn_id t) now (clearRecordedOutcomes (tn_id t) s) = (Inr (), m)"
  have "only_books (clearRecordedOutcomes (tn_id t) s) m"
    by (rule pay_champion_frame[OF _ p]) (simp add: assms(2))
  then have "tn_get j m = tn_get j s" for j using only_books_get(1) by fastforce
  then have "tb_inv m" by (rule tb_same[OF assms(3)])
  moreover have "won_by ?t (Some w)" using assms(4) won_by_cong[of ?t t "Some w"] by simp
  ultimately have "tb_inv (tn_save ?t m)" by (intro tb_saved) (simp_all add: bracket_ok_def)
  with f show ?thesis by simp
qed

lemma register_tb:
  assumes "rolls_back uow" "books_ok s" "tb_inv s"
  shows "tb_inv (snd (register_player (tx_tournaments uow bps dual) i uid now s))"
proof (rule register_cases[OF assms(1), of bps dual i uid now s])
  fix e
  assume "register_player (tx_tournaments uow bps dual) i uid now s = (Inl e, s)"
  with assms(3) show ?thesis by simp
next
  fix t m
  assume t: "tn_get i s = Some t" "tn_status t = TnRegistering"
    and r: "register_player (tx_tournaments uow bps dual) i uid now s = (Inr (enter uid t), tn_save (enter uid t) m)"
    and m: "if 0 < tn_buyInCents t then (\<exists>x. tn_debit bind_wallet uid (tn_buyInCents t) (buyin_ref (tn_id t) uid) now s = (Inr x, m)) else m = s"
  have "only_books s m" using m debit_frame(2)[OF assms(2)] by (auto simp: tn_debit_def split: if_splits)
  then have "tn_get j m = tn_get j s" for j using only_books_get(1) by fastforce
  then have tm: "tb_inv m" by (rule tb_same[OF assms(3)])
  have b: "tn_capacity t \<in> set VALID_CAPACITIES" "length (tn_playerIds t) < tn_capacity t"
    using assms(3) t by (auto simp: tb_inv_def bracket_ok_def split: tn_status.splits)
  have "bracket_ok (enter uid t)"
  proof (cases "Suc (length (tn_playerIds t)) = tn_capacity t")
    case False
    then show ?thesis using b t(2) by (simp add: bracket_ok_def)
  next
    case True
    let ?t = "t\<lparr>tn_playerIds := tn_playerIds t @ [uid], tn_prizePoolCents := tn_prizePoolCents t + tn_buyInCents t\<rparr>"
    have e: "enter uid t = seedBracket ?t" using True by (simp add: enter_def Let_def)
    have half: "(tn_capacity t + 1) div 2 = slots (tn_capacity t) 0" "0 < slots (tn_capacity t) 0"
      using b(1) by (auto simp: capacity_cases slots_def)
    have "bracket_wf (seedBracket ?t) 0"
      using b(1) True half
      by (auto simp: bracket_wf_def seedBracket_def bracket_keys_def round_keys_def bm_key_def comp_def fed_def)
    then show ?thesis by (auto simp: e bracket_ok_def seedBracket_def)
  qed
  with tm r show ?thesis by (simp add: tb_saved)
qed

lemma report_tb:
  assumes "rolls_back uow" "books_ok s" "tb_inv s"
  shows "tb_inv (snd (reportResult (tx_tournaments uow bps dual) i r k w a auto now s))"
proof -
  have R: "\<exists>R. r = R \<and> bracket_wf (decide r k w t) R"
    if "tn_get i s = Some t" "tn_status t = TnRunning" "reported r k w t" for t
  proof -
    from assms(3) that(1,2) obtain R where "bracket_wf t R"
      by (auto simp: tb_inv_def bracket_ok_def split: tn_status.splits)
    from decide_wf[OF this that(3)] show ?thesis by blast
  qed
  show ?thesis
  proof (rule report_cases[of "tx_tournaments uow bps dual" i r k w a auto now s])
    fix e
    assume "reportResult (tx_tournaments uow bps dual) i r k w a auto now s = (Inl e, s)"
    with assms(3) show ?thesis by simp
  next
    fix t
    assume t: "tn_get i s = Some t" "tn_status t = TnRunning" "reported r k w t"
      and r: "reportResult (tx_tournaments uow bps dual) i r k w a auto now s = (Inr (decide r k w t), tn_save (decide r k w t) s)"
    have "bracket_ok (decide r k w t)" using R[OF t] t(2) by (auto simp: bracket_ok_def)
    with assms(3) r show ?thesis by (simp add: tb_saved)
  next
    fix t t'
    assume t: "tn_get i s = Some t" "tn_status t = TnRunning" "reported r k w t"
      and o: "round_over r (decide r k w t)" "length (round_matches r (tn_bracket (decide r k w t))) \<noteq> 1"
      and t': "t' = (decide r k w t)\<lparr>tn_bracket := tn_bracket (decide r k w t) @ next_round r (round_matches r (tn_bracket (decide r k w t)))\<rparr>"
      and r: "reportResult (tx_tournaments uow bps dual) i r k w a auto now s = (Inr t', tn_save t' s)"
    obtain wf: "bracket_wf (decide r k w t) r" using R[OF t] by blast
    have "tn_status t' = TnRunning" using t(2) by (simp add: t')
    then have "bracket_ok t'" using next_round_wf[OF wf o] by (auto simp: t' bracket_ok_def)
    with assms(3) r show ?thesis by (simp add: tb_saved)
  next
    fix t t'
    assume t: "tn_get i s = Some t" "tn_status t = TnRunning" "reported r k w t"
      and o: "round_over r (decide r k w t)" "length (round_matches r (tn_bracket (decide r k w t))) = 1"
      and t': "t' = (decide r k w t)\<lparr>tn_status := TnAwaiting,
         tn_pendingWinnerId := Some (the (bm_winnerId (hd (round_matches r (tn_bracket (decide r k w t)))))),
         tn_reportedByAdminId := a\<rparr>"
      and r: "reportResult (tx_tournaments uow bps dual) i r k w a auto now s = (Inr t', tn_save t' s)"
    obtain wf: "bracket_wf (decide r k w t) r" using R[OF t] by blast
    have "won_by t' (tn_pendingWinnerId t')" using final_won[OF wf o] won_by_cong[of t' "decide r k w t"] by (simp add: t')
    then have "bracket_ok t'" by (simp add: t' bracket_ok_def)
    with assms(3) r show ?thesis by (simp add: tb_saved)
  next
    fix t
    assume t: "tn_get i s = Some t" "tn_status t = TnRunning" "reported r k w t"
      and o: "round_over r (decide r k w t)" "length (round_matches r (tn_bracket (decide r k w t))) = 1"
      and r: "reportResult (tx_tournaments uow bps dual) i r k w a auto now s =
        finish (tx_tournaments uow bps dual) (decide r k w t) (the (bm_winnerId (hd (round_matches r (tn_bracket (decide r k w t)))))) now s"
    obtain wf: "bracket_wf (decide r k w t) r" using R[OF t] by blast
    show ?thesis unfolding r by (rule finish_tb[OF assms final_won[OF wf o]])
  qed
qed

lemma confirm_tb:
  assumes "rolls_back uow" "books_ok s" "tb_inv s"
  shows "tb_inv (snd (confirmChampion (tx_tournaments uow bps dual) i a now s))"
proof (cases "tn_get i s")
  case None
  with assms show ?thesis by (simp add: confirmChampion_def tn_fail_def)
next
  case (Some t)
  let ?t = "t\<lparr>tn_pendingWinnerId := None, tn_reportedByAdminId := None\<rparr>"
  show ?thesis
  proof (cases "tn_status t = TnAwaiting \<and> truthy (tn_pendingWinnerId t)")
    case True
    then have "won_by t (tn_pendingWinnerId t)" using assms(3) Some by (auto simp: tb_inv_def bracket_ok_def split: tn_status.splits)
    then have "won_by ?t (Some (the (tn_pendingWinnerId t)))"
      using truthy_not_None True won_by_cong[of ?t t "tn_pendingWinnerId t"] by auto
    from finish_tb[OF assms this] assms(3) show ?thesis by (simp add: confirmChampion_def Some tn_fail_def)
  next
    case False
    with assms(3) show ?thesis by (auto simp add: confirmChampion_def Some tn_fail_def)
  qed
qed

lemma void_tb:
  assumes "rolls_back uow" "tn_inv s" "tb_inv s" "tn_get i s = Some t" "refund_buyins (tx_wallet uow) t now s = (r, m)"
  shows "tb_inv m" "tb_inv (tn_save (void t) m)"
proof -
  note g = tn_inv_get[OF assms(2,4)]
  have "refunds_ok t s" using g(4) by (simp add: tn_books_def)
  from refund_buyins_effect(2)[OF assms(1) g(5) this assms(5)] have "tn_get j m = tn_get j s" for j
    using only_books_get(1) by fastforce
  then show "tb_inv m" by (rule tb_same[OF assms(3)])
  then show "tb_inv (tn_save (void t) m)" by (rule tb_saved) (simp add: bracket_ok_def)
qed

lemma cancel_tb:
  assumes "rolls_back uow" "tn_inv s" "tb_inv s"
  shows "tb_inv (snd (cancel (tx_tournaments uow bps dual) i now s))"
proof (cases "tn_get i s")
  case None
  with assms(3) show ?thesis by (simp add: cancel_def tn_fail_def)
next
  case (Some t)
  obtain r m where rm: "refund_buyins (tx_wallet uow) t now s = (r, m)" by fastforce
  note v = void_tb[OF assms Some rm]
  have "tb_inv (tn_save (void t) (clearRecordedOutcomes (tn_id t) m))"
    by (rule tb_same[OF v(2)]) simp
  with v assms(3) show ?thesis
    by (cases r) (simp_all add: cancel_def Some tn_fail_def bind_act_def rm save_act_def)
qed

lemma sweep_one_tb:
  assumes "rolls_back uow" "tn_inv s" "tb_inv s"
  shows "tb_inv (snd (sweep_one (tx_tournaments uow bps dual) cutoff now snap s))"
proof (cases "tn_get (tn_id snap) s")
  case None
  with assms(3) show ?thesis by (simp add: sweep_one_def)
next
  case (Some t)
  obtain r m where rm: "refund_buyins (tx_wallet uow) t now s = (r, m)" by fastforce
  note v = void_tb[OF assms Some rm]
  with assms(3) show ?thesis by (cases r) (simp_all add: sweep_one_def Some bind_act_def rm)
qed

lemma sweep_all_tb:
  assumes "rolls_back uow"
  shows "tn_inv s \<Longrightarrow> tb_inv s \<Longrightarrow> tb_inv (snd (sweep_all (tx_tournaments uow bps dual) cutoff now snaps s))"
proof (induction snaps arbitrary: s)
  case (Cons snap snaps)
  obtain r m where rm: "sweep_one (tx_tournaments uow bps dual) cutoff now snap s = (r, m)" by fastforce
  have m: "tn_inv m" "tb_inv m"
    using sweep_one_inv[OF assms Cons.prems(1), of bps dual cutoff now snap]
      sweep_one_tb[OF assms Cons.prems, of bps dual cutoff now snap] rm by simp_all
  obtain r' m' where rm': "sweep_all (tx_tournaments uow bps dual) cutoff now snaps m = (r', m')" by fastforce
  have "tb_inv m'" using Cons.IH[OF m] rm' by simp
  with m(2) show ?case by (cases r; cases r') (simp_all add: bind_act_def rm rm' return_act_def)
qed simp

lemma create_tb:
  assumes "tb_inv s"
  shows "tb_inv (snd (create_tournament sv name buyIn cap club i now s))"
  using assms by (auto simp: create_tournament_def Let_def tn_fail_def bracket_ok_def capacity_cases intro!: tb_saved)

lemma delete_tb: "tb_inv s \<Longrightarrow> tb_inv (snd (adminDelete i s))"
  by (auto simp: adminDelete_def tn_fail_def tb_inv_def split: option.split if_splits)

lemma wallet_tb:
  assumes "rolls_back uow" "books_ok s" "tb_inv s"
  shows "tb_inv (wallet_step uow s (op, now))"
  by (rule tb_same[OF assms(3)]) (rule more_tn_get[OF wallet_step_more[OF assms(1,2)]])

lemma tn_step_tb:
  assumes "rolls_back uow" "tn_inv s" "tb_inv s"
  shows "tb_inv (tn_step uow bps dual s (op, now))"
proof -
  have b: "books_ok s" using assms(2) by (simp add: tn_inv_def)
  have o: "tb_inv (recordRoomOutcome i r k w s)" for i r k w by (rule tb_same[OF assms(3)]) simp
  show ?thesis
    by (cases op)
       (simp_all add: wallet_tb[OF assms(1) b assms(3)] create_tb[OF assms(3)] register_tb[OF assms(1) b assms(3)] o
         report_tb[OF assms(1) b assms(3)] confirm_tb[OF assms(1) b assms(3)] cancel_tb[OF assms] delete_tb[OF assms(3)]
         sweep_all_tb[OF assms] sweepStale_def)
qed

interpretation trb: invariant_system "tn_guarded uow bps dual"
  "\<lambda>s. (rolls_back uow \<and> 0 \<le> bps \<and> bps \<le> 10000 \<and> tn_inv s) \<and> tb_inv s" for uow bps dual
  by unfold_locales (auto simp: tn_guarded_def intro: tn_step_inv tn_step_tb)

subsection \<open>Properties\<close>

text \<open>C19: the bracket is a correct single elimination. After any history of a store whose brackets
  are well-formed, the champion of a finished tournament is a registered player who won the only
  pairing of the last round; every pairing of the first round is between the players of its two
  places, every later pairing is between the winners of the two pairings that feed it, and all
  rounds before the last are decided in favour of one of their two players.\<close>

theorem champion_won_the_bracket:
  assumes "rolls_back uow" "0 \<le> bps" "bps \<le> 10000" "tn_inv s" "tb_inv s" "tn_history uow bps dual s ops"
    and "tn_get i (foldl (tn_step uow bps dual) s ops) = Some t" "tn_status t = TnFinished"
  shows "\<exists>champ\<in>set (tn_playerIds t). tn_winnerId t = Some champ \<and>
    (\<exists>R. slots (tn_capacity t) R = 1 \<and> map bm_key (tn_bracket t) = bracket_keys (tn_capacity t) R \<and>
      (\<exists>m\<in>set (tn_bracket t). bm_key m = (R, 0) \<and> bm_winnerId m = Some champ) \<and>
      (\<forall>m\<in>set (tn_bracket t). fed (tn_playerIds t) (tn_bracket t) m \<and>
        (bm_round m < R \<longrightarrow> bm_winnerId m \<noteq> None \<and> (bm_winnerId m = bm_aUserId m \<or> bm_winnerId m = bm_bUserId m))))"
proof -
  have "tb_inv (foldl (tn_step uow bps dual) s ops)"
    using trb.run_inv[of uow bps s dual ops] assms(1-5) by (simp add: tn_run[OF assms(6)])
  then have w: "won_by t (tn_winnerId t)" using assms(7,8) by (auto simp: tb_inv_def bracket_ok_def split: tn_status.splits)
  obtain champ where c: "champ \<in> set (tn_playerIds t)" "tn_winnerId t = Some champ" using won_by_player[OF w] by blast
  obtain R where R: "bracket_wf t R" "slots (tn_capacity t) R = 1"
    "\<exists>m\<in>set (tn_bracket t). bm_key m = (R, 0) \<and> bm_winnerId m = tn_winnerId t" using w by (auto simp: won_by_def)
  have ok: "fed (tn_playerIds t) (tn_bracket t) m \<and>
        (bm_round m < R \<longrightarrow> bm_winnerId m \<noteq> None \<and> (bm_winnerId m = bm_aUserId m \<or> bm_winnerId m = bm_bUserId m))"
    if "m \<in> set (tn_bracket t)" for m
  proof -
    from R(1) that have "(bm_round m < R \<longrightarrow> truthy (bm_winnerId m)) \<and>
        (bm_winnerId m = None \<or> bm_winnerId m = bm_aUserId m \<or> bm_winnerId m = bm_bUserId m) \<and>
        fed (tn_playerIds t) (tn_bracket t) m" unfolding bracket_wf_def by blast
    then show ?thesis using truthy_not_None[of "bm_winnerId m"] by blast
  qed
  have "map bm_key (tn_bracket t) = bracket_keys (tn_capacity t) R" using R(1) by (simp add: bracket_wf_def)
  with c R(2,3) ok show ?thesis by (intro bexI[of _ champ] conjI exI[of _ R]) auto
qed

theorem champion_won_the_bracket_witness:
  "map_option tn_winnerId (tn_get ''trn_1'' (foldl (tn_step rollback 500 False) demo_tourney demo_final)) = Some (Some ''u_2'') \<and>
   (\<exists>t. tn_get ''trn_1'' (foldl (tn_step rollback 500 False) demo_tourney demo_final) = Some t \<and> ''u_2'' \<in> set (tn_playerIds t))"
proof -
  have h: "tn_history rollback 500 False demo_tourney demo_final"
    using demo_cup_history by (simp add: demo_final_def tn_history_append)
  have tb: "tb_inv demo_tourney" by (simp add: tb_inv_def demo_tourney_def tn_get_def)
  have e: "map_option (\<lambda>t. (tn_winnerId t, tn_status t)) (tn_get ''trn_1'' (foldl (tn_step rollback 500 False) demo_tourney demo_final)) =
      Some (Some ''u_2'', TnFinished)" by code_simp
  then obtain t where t: "tn_get ''trn_1'' (foldl (tn_step rollback 500 False) demo_tourney demo_final) = Some t"
    "tn_status t = TnFinished" "tn_winnerId t = Some ''u_2''" by auto
  then show ?thesis
    using champion_won_the_bracket[OF rolls_back_rollback _ _ tn_inv_demo tb h t(1,2)] by auto
qed

end
