(* ===== verification/Bot_Moves.thy ===== *)
theory Bot_Moves
  imports Single_Game "HOL-Library.AList" "HOL-Library.Char_ord" "HOL-Library.List_Lexorder"
begin

text \<open>
  The view a bot decides on and the enumeration of its legal plays
  (\<^verbatim>\<open>packages/server/src/bot/botDecision.ts\<close>, first half, and the same enumeration in
  \<^verbatim>\<open>botSearch.ts\<close>). A bot proposes singles, groups of one rank and runs of consecutive values, and
  keeps those that the rules engine accepts against the pile.

  An absent optional field of the view is \<open>None\<close>; \<^verbatim>\<open>null\<close> and \<^verbatim>\<open>undefined\<close> are not told apart, as
  in the code. The maps of the enumeration keep the order of insertion.
\<close>

subsection \<open>Tiers, moves and the view\<close>

datatype bot_tier = EasyBot | MediumBot | HardBot

datatype bot_move = BotPlay "card list" | BotPass

record bot_view =
  bv_hand :: "card list"
  bv_pile :: "combo option"
  bv_canPass :: bool
  bv_opponentCounts :: "nat list"
  bv_mustInclude :: "card option"
  bv_seen :: "card list option"
  bv_mySeat :: "seat option"
  bv_numPlayers :: "nat option"
  bv_pileOwner :: "seat option"
  bv_passed :: "seat list option"
  bv_active :: "bool list option"
  bv_handCounts :: "nat list option"
  bv_finishingOrder :: "seat list option"
  bv_partnerSeat :: "seat option"

text \<open>\<^verbatim>\<open>Array.reduce\<close> without a start value; the code calls it on non-empty arrays only.\<close>

definition js_reduce :: "('a \<Rightarrow> 'a \<Rightarrow> 'a) \<Rightarrow> 'a list \<Rightarrow> 'a" where
  "js_reduce f xs = foldl f (hd xs) (tl xs)"

lemma js_reduce_mem: "xs \<noteq> [] \<Longrightarrow> (\<And>a b. f a b = a \<or> f a b = b) \<Longrightarrow> js_reduce f xs \<in> set xs"
proof -
  assume ne: "xs \<noteq> []" and f: "\<And>a b. f a b = a \<or> f a b = b"
  have "foldl f x ys \<in> insert x (set ys)" for x ys
  proof (induction ys arbitrary: x)
    case (Cons y ys)
    then show ?case using f[of x y] by (metis foldl_Cons insert_iff list.set(2))
  qed simp
  from this[of "hd xs" "tl xs"] ne show ?thesis by (cases xs) (simp_all add: js_reduce_def)
qed

subsection \<open>Groups of one rank\<close>

definition standardCards :: "card list \<Rightarrow> card list" where
  "standardCards hand = filter (\<lambda>c. \<not> is_joker c) hand"

definition map_get :: "('k \<times> 'v list) list \<Rightarrow> 'k \<Rightarrow> 'v list" where
  "map_get m k = (case map_of m k of None \<Rightarrow> [] | Some l \<Rightarrow> l)"

fun add_rank :: "(rank \<times> card list) list \<Rightarrow> card \<Rightarrow> (rank \<times> card list) list" where
  "add_rank m (Standard r s) = AList.update r (map_get m r @ [Standard r s]) m"
| "add_rank m (Joker j) = m"

definition by_rank :: "card list \<Rightarrow> (rank \<times> card list) list" where
  "by_rank hand = foldl add_rank [] (standardCards hand)"

definition group_slices :: "card list \<Rightarrow> card list list" where
  "group_slices cards =
     (if 2 \<le> length cards then [take 2 cards] else []) @
     (if 3 \<le> length cards then [take 3 cards] else []) @
     (if 4 \<le> length cards then [take 4 cards] else [])"

definition groupPlays :: "card list \<Rightarrow> card list list" where
  "groupPlays hand = concat (map (\<lambda>p. group_slices (snd p)) (by_rank hand))"

subsection \<open>Runs of consecutive values\<close>

definition put_new :: "nat \<Rightarrow> card \<Rightarrow> (nat \<times> card) list \<Rightarrow> (nat \<times> card) list" where
  "put_new v c m = (if map_of m v = None then m @ [(v, c)] else m)"

fun add_value :: "(nat \<times> card) list \<Rightarrow> card \<Rightarrow> (nat \<times> card) list" where
  "add_value m (Standard r s) =
     (case seq_of r of
        None \<Rightarrow> put_new 14 (Standard r s) (put_new 1 (Standard r s) m)
      | Some v \<Rightarrow> put_new v (Standard r s) m)"
| "add_value m (Joker j) = m"

definition pick_run :: "(nat \<times> card) list \<Rightarrow> nat \<Rightarrow> nat \<Rightarrow> card list option" where
  "pick_run m start len = those (map (map_of m) [start..<start + len])"

definition scan_runs :: "card list \<Rightarrow> card list list" where
  "scan_runs cards =
     (let m = foldl add_value [] cards in
      concat (map (\<lambda>len. concat (map (\<lambda>start.
          case pick_run m start len of
            None \<Rightarrow> []
          | Some picked \<Rightarrow> if distinct (map cardId picked) then [picked] else [])
        [1..<16 - len])) [5..<min (length cards) 13 + 1]))"

definition straightPlays :: "card list \<Rightarrow> card list list" where
  "straightPlays hand =
     scan_runs (standardCards hand) @
     concat (map (\<lambda>s. scan_runs (filter (has_suit (Some s)) (standardCards hand))) [Spades, Hearts, Diamonds, Clubs])"

subsection \<open>Legal plays\<close>

definition raw_plays :: "card list \<Rightarrow> card list list" where
  "raw_plays hand = map (\<lambda>c. [c]) hand @ groupPlays hand @ straightPlays hand"

fun join_comma :: "string list \<Rightarrow> string" where
  "join_comma [] = []"
| "join_comma [x] = x"
| "join_comma (x # y # ys) = x @ '','' @ join_comma (y # ys)"

definition play_key :: "card list \<Rightarrow> string" where
  "play_key cards = join_comma (sort (map cardId cards))"

fun collect_plays :: "combo option \<Rightarrow> string list \<Rightarrow> card list list \<Rightarrow> combo list" where
  "collect_plays pile seen [] = []"
| "collect_plays pile seen (cards # raw) =
     (if play_key cards \<in> set seen then collect_plays pile seen raw
      else let seen' = play_key cards # seen in
        case identifyCombo cards of
          None \<Rightarrow> collect_plays pile seen' raw
        | Some combo \<Rightarrow>
            if (case pile of None \<Rightarrow> False | Some cur \<Rightarrow> \<not> beats combo cur) then collect_plays pile seen' raw
            else combo # collect_plays pile seen' raw)"

definition with_card :: "card option \<Rightarrow> combo list \<Rightarrow> combo list" where
  "with_card must plays =
     (case must of
        None \<Rightarrow> plays
      | Some m \<Rightarrow> filter (\<lambda>c. list_ex (\<lambda>x. cardId x = cardId m) (c_cards c)) plays)"

definition enumerateLegalPlays :: "card list \<Rightarrow> combo option \<Rightarrow> card option \<Rightarrow> combo list" where
  "enumerateLegalPlays hand pile must = with_card must (collect_plays pile [] (raw_plays hand))"

subsection \<open>Lemmas on the enumeration\<close>

lemma map_get_update: "map_get (AList.update k v m) j = (if j = k then v else map_get m j)"
  by (simp add: map_get_def AList.update_conv')

lemma by_rank_snoc: "by_rank (hand @ [c]) = add_rank (by_rank hand) c"
  by (cases c) (simp_all add: by_rank_def standardCards_def)

lemma by_rank_get: "map_get (by_rank hand) r = filter (has_rank (Some r)) hand"
proof (induction hand rule: rev_induct)
  case Nil
  then show ?case by (simp add: by_rank_def standardCards_def map_get_def)
next
  case (snoc c hand)
  then show ?case by (cases c) (auto simp: by_rank_snoc map_get_update)
qed

lemma by_rank_keys: "distinct (map fst (by_rank hand))"
proof (induction hand rule: rev_induct)
  case (snoc c hand)
  then show ?case by (cases c) (auto simp: by_rank_snoc distinct_update)
qed (simp add: by_rank_def standardCards_def)

lemma by_rank_entry: "(r, cards) \<in> set (by_rank hand) \<Longrightarrow> cards = filter (has_rank (Some r)) hand"
  using map_of_is_SomeI[OF by_rank_keys] by_rank_get[of hand r] by (simp add: map_get_def)

lemma groupPlays_facts:
  assumes "p \<in> set (groupPlays hand)"
  shows "set p \<subseteq> set hand" "distinct hand \<Longrightarrow> distinct p" "p \<noteq> []"
proof -
  from assms obtain r cards where e: "(r, cards) \<in> set (by_rank hand)" "p \<in> set (group_slices cards)"
    by (auto simp: groupPlays_def)
  note c = by_rank_entry[OF e(1)]
  obtain k where k: "p = take k cards" "2 \<le> k" "k \<le> length cards"
    using e(2) by (auto simp: group_slices_def split: if_splits)
  show "set p \<subseteq> set hand" using k(1) c by (auto dest: in_set_takeD)
  show "distinct hand \<Longrightarrow> distinct p" using k(1) c by simp
  show "p \<noteq> []" using k by (cases cards) auto
qed

lemma those_set: "those xs = Some ys \<Longrightarrow> set xs = Some ` set ys"
  by (induction xs arbitrary: ys) (auto split: option.splits)

lemma length_those: "those xs = Some ys \<Longrightarrow> length ys = length xs"
  by (induction xs arbitrary: ys) (auto split: option.splits)

lemma put_new_ran: "ran (map_of (put_new v c m)) \<subseteq> insert c (ran (map_of m))"
  by (auto simp: put_new_def ran_def map_add_def split: option.splits)

lemma add_values_ran: "ran (map_of (foldl add_value m cards)) \<subseteq> ran (map_of m) \<union> set cards"
proof (induction cards arbitrary: m)
  case (Cons c cards)
  have "ran (map_of (add_value m c)) \<subseteq> insert c (ran (map_of m))"
  proof (cases c)
    case (Standard r s)
    then show ?thesis using put_new_ran[of _ c m] put_new_ran[of 14 c "put_new 1 c m"]
      by (auto split: option.split)
  qed auto
  with Cons[of "add_value m c"] show ?case by auto
qed simp

lemma scan_runs_mem:
  assumes "p \<in> set (scan_runs cards)"
  shows "\<exists>len start. 5 \<le> len \<and> pick_run (foldl add_value [] cards) start len = Some p \<and> distinct (map cardId p)"
proof -
  from assms obtain len start where "len \<in> set [5..<min (length cards) 13 + 1]"
    "p \<in> set (case pick_run (foldl add_value [] cards) start len of None \<Rightarrow> []
        | Some picked \<Rightarrow> if distinct (map cardId picked) then [picked] else [])"
    by (simp add: scan_runs_def Let_def) blast
  then have "5 \<le> len \<and> pick_run (foldl add_value [] cards) start len = Some p \<and> distinct (map cardId p)"
    by (auto split: option.splits if_splits)
  then show ?thesis by blast
qed

lemma scan_runs_facts:
  assumes "p \<in> set (scan_runs cards)"
  shows "set p \<subseteq> set cards" "distinct p" "p \<noteq> []"
proof -
  let ?m = "foldl add_value [] cards"
  from assms obtain len start where p: "5 \<le> len" "pick_run ?m start len = Some p" "distinct (map cardId p)"
    using scan_runs_mem by blast
  have "Some ` set p = set (map (map_of ?m) [start..<start + len])"
    using those_set p(2) unfolding pick_run_def by metis
  then have "set p \<subseteq> ran (map_of ?m)" by (force simp: ran_def image_iff)
  then show "set p \<subseteq> set cards" using add_values_ran[of "[]" cards] by auto
  show "distinct p" using p(3) by (simp add: distinct_map)
  show "p \<noteq> []" using length_those p(1,2) unfolding pick_run_def by fastforce
qed

lemma raw_plays_facts:
  assumes "p \<in> set (raw_plays hand)" "distinct hand"
  shows "set p \<subseteq> set hand" "distinct p" "p \<noteq> []"
proof -
  consider c where "c \<in> set hand" "p = [c]" | "p \<in> set (groupPlays hand)"
    | "p \<in> set (scan_runs (standardCards hand))"
    | s where "p \<in> set (scan_runs (filter (has_suit (Some s)) (standardCards hand)))"
    using assms(1) by (auto simp: raw_plays_def straightPlays_def)
  then have "set p \<subseteq> set hand \<and> distinct p \<and> p \<noteq> []"
  proof cases
    case 2
    then show ?thesis using groupPlays_facts assms(2) by blast
  next
    case 3
    from scan_runs_facts[OF this] show ?thesis by (auto simp: standardCards_def)
  next
    case 4
    from scan_runs_facts[OF this] show ?thesis by (auto simp: standardCards_def)
  qed simp
  then show "set p \<subseteq> set hand" "distinct p" "p \<noteq> []" by simp_all
qed

text \<open>What is collected is a combo of its own cards that the engine accepts against the pile.\<close>

definition legal_combo :: "card list \<Rightarrow> combo option \<Rightarrow> combo \<Rightarrow> bool" where
  "legal_combo hand pile c \<longleftrightarrow>
     set (c_cards c) \<subseteq> set hand \<and> distinct (c_cards c) \<and> c_cards c \<noteq> [] \<and> identifyCombo (c_cards c) = Some c \<and>
     (case pile of None \<Rightarrow> True | Some cur \<Rightarrow> beats c cur)"

lemma identify_cards: "identifyCombo cards = Some c \<Longrightarrow> c_cards c = cards \<and> identifyCombo (c_cards c) = Some c"
  using identifyCombo_facts by fastforce

lemma collect_plays_mem:
  "c \<in> set (collect_plays pile seen raw) \<Longrightarrow>
   c_cards c \<in> set raw \<and> identifyCombo (c_cards c) = Some c \<and> (case pile of None \<Rightarrow> True | Some cur \<Rightarrow> beats c cur)"
  by (induction pile seen raw rule: collect_plays.induct)
     (auto simp: Let_def dest: identify_cards split: if_splits option.splits)

lemma enumerate_mem: "c \<in> set (enumerateLegalPlays hand pile must) \<Longrightarrow> c \<in> set (collect_plays pile [] (raw_plays hand))"
  by (auto simp: enumerateLegalPlays_def with_card_def split: option.splits)

lemma enumerate_legal:
  assumes "c \<in> set (enumerateLegalPlays hand pile must)" "distinct hand"
  shows "legal_combo hand pile c" "must = Some m \<Longrightarrow> m \<in> set (c_cards c)"
proof -
  have "c_cards c \<in> set (raw_plays hand)" using collect_plays_mem[OF enumerate_mem[OF assms(1)]] by simp
  from raw_plays_facts[OF this assms(2)] collect_plays_mem[OF enumerate_mem[OF assms(1)]]
  show "legal_combo hand pile c" by (simp add: legal_combo_def)
  show "must = Some m \<Longrightarrow> m \<in> set (c_cards c)"
    using assms(1) by (auto simp: enumerateLegalPlays_def with_card_def list_ex_iff)
qed

text \<open>Without a pile every single card of the hand is collected.\<close>

lemma identify_single: "identifyCombo [c] = Some \<lparr>c_type = SingleC, c_cards = [c], c_size = 1, c_power = Some (singlePower c), c_topSeq = None\<rparr>"
  by (simp add: identifyCombo_def)

lemma play_key_single: "play_key [c] = cardId c"
  by (simp add: play_key_def)

lemma collect_singles:
  assumes "c \<in> set hand" "cardId c \<notin> set seen"
  shows "\<exists>x\<in>set (collect_plays None seen (map (\<lambda>c. [c]) hand @ rest)). c_cards x = [c]"
  using assms
proof (induction hand arbitrary: seen)
  case (Cons d hand)
  show ?case
  proof (cases "d = c")
    case True
    with Cons.prems show ?thesis by (simp add: play_key_single identify_single Let_def)
  next
    case False
    then have "cardId c \<notin> set (cardId d # seen)" using Cons.prems by auto
    then have "\<exists>x\<in>set (collect_plays None (cardId d # seen) (map (\<lambda>c. [c]) hand @ rest)). c_cards x = [c]"
      using Cons False by auto
    moreover have "\<exists>x\<in>set (collect_plays None seen (map (\<lambda>c. [c]) hand @ rest)). c_cards x = [c]"
      using Cons False by auto
    ultimately show ?thesis by (simp add: play_key_single identify_single Let_def)
  qed
qed simp

lemma enumerate_leading:
  assumes "hand \<noteq> []" "\<And>m. must = Some m \<Longrightarrow> m \<in> set hand"
  shows "enumerateLegalPlays hand None must \<noteq> []"
proof -
  define c where "c = (case must of None \<Rightarrow> hd hand | Some m \<Rightarrow> m)"
  have "c \<in> set hand" using assms by (auto simp: c_def split: option.split)
  then obtain x where "x \<in> set (collect_plays None [] (raw_plays hand))" "c_cards x = [c]"
    using collect_singles[of c hand "[]"] unfolding raw_plays_def by auto
  then have "x \<in> set (enumerateLegalPlays hand None must)"
    by (auto simp: enumerateLegalPlays_def with_card_def c_def split: option.split)
  then show ?thesis by auto
qed

end
