(* ===== verification/Bot_Search.thy ===== *)
theory Bot_Search
  imports Bot_Moves
begin

text \<open>
  The sampled search of the stronger bots (\<^verbatim>\<open>packages/server/src/bot/botSearch.ts\<close>): for every
  candidate move the unseen cards are dealt at random to the other seats, the rest of the game is
  played out by a fast policy, and the move with the best average place is taken.

  The simulation keeps its own copy of the rules of a game (\<open>sim\<close>). An average of places is compared
  as a rational; the sums are small integers over one divisor, which doubles order the same way. The
  generator of random numbers is threaded through as in the shuffle of the engine.
\<close>

subsection \<open>Candidates\<close>

definition rootPlays :: "card list \<Rightarrow> combo option \<Rightarrow> card option \<Rightarrow> combo list" where
  "rootPlays hand pile must = with_card must (collect_plays pile [] (raw_plays hand))"

subsection \<open>The simulated game\<close>

record sim =
  sm_n :: nat
  sm_hands :: "card list list"
  sm_active :: "bool list"
  sm_passed :: "bool list"
  sm_pile :: "combo option"
  sm_owner :: "seat option"
  sm_turn :: "seat option"
  sm_order :: "seat list"
  sm_coop :: bool

definition drop_cards :: "card list \<Rightarrow> card list \<Rightarrow> card list" where
  "drop_cards hand cards = filter (\<lambda>c. cardId c \<notin> set (map cardId cards)) hand"

definition sim_activeCount :: "sim \<Rightarrow> nat" where
  "sim_activeCount s = foldl (\<lambda>n a. n + (if a then 1 else 0)) 0 (sm_active s)"

definition sim_nextActiveAfter :: "sim \<Rightarrow> seat \<Rightarrow> seat option" where
  "sim_nextActiveAfter s from = List.find (\<lambda>k. sm_active s ! k) (seats_after (sm_n s) from)"

definition sim_nextEligible :: "sim \<Rightarrow> seat \<Rightarrow> seat option" where
  "sim_nextEligible s from = List.find (\<lambda>k. sm_active s ! k \<and> \<not> sm_passed s ! k) (seats_after (sm_n s) from)"

definition sim_contenders :: "sim \<Rightarrow> nat" where
  "sim_contenders s =
     foldl (\<lambda>c k. if Some k = sm_owner s then c else if sm_active s ! k \<and> \<not> sm_passed s ! k then c + 1 else c)
       0 [0..<sm_n s]"

definition sim_place :: "sim \<Rightarrow> seat \<Rightarrow> sim" where
  "sim_place s k =
     (if sm_active s ! k then s\<lparr>sm_active := (sm_active s)[k := False], sm_order := sm_order s @ [k]\<rparr> else s)"

definition sim_endGame :: "sim \<Rightarrow> sim" where
  "sim_endGame s = (foldl sim_place s [0..<sm_n s])\<lparr>sm_turn := None\<rparr>"

definition sim_resolveTrick :: "sim \<Rightarrow> sim" where
  "sim_resolveTrick s =
     (let leads = (case sm_owner s of
            Some w \<Rightarrow> if sm_active s ! w then Some w else sim_nextActiveAfter s w
          | None \<Rightarrow> None);
          s1 = s\<lparr>sm_pile := None, sm_owner := None, sm_passed := replicate (sm_n s) False, sm_turn := leads\<rparr>
      in if leads = None \<or> sim_activeCount s1 \<le> 1 then sim_endGame s1 else s1)"

definition sim_afterAction :: "sim \<Rightarrow> seat \<Rightarrow> sim" where
  "sim_afterAction s seat =
     (if sim_contenders s = 0 then sim_resolveTrick s
      else let nx = sim_nextEligible s seat; s1 = s\<lparr>sm_turn := nx\<rparr>
        in if nx = None then sim_resolveTrick s1 else s1)"

definition applyPlay :: "sim \<Rightarrow> seat \<Rightarrow> combo \<Rightarrow> sim" where
  "applyPlay s seat combo =
     (let s1 = s\<lparr>sm_hands := (sm_hands s)[seat := drop_cards (sm_hands s ! seat) (c_cards combo)],
                 sm_pile := Some combo, sm_owner := Some seat\<rparr>
      in if sm_hands s1 ! seat = [] then
           let s2 = s1\<lparr>sm_active := (sm_active s1)[seat := False], sm_order := sm_order s1 @ [seat]\<rparr>
           in if sim_activeCount s2 \<le> 1 then sim_endGame s2 else sim_afterAction s2 seat
         else sim_afterAction s1 seat)"

definition applyPass :: "sim \<Rightarrow> seat \<Rightarrow> sim" where
  "applyPass s seat = sim_afterAction (s\<lparr>sm_passed := (sm_passed s)[seat := True]\<rparr>) seat"

subsection \<open>The rollout policy\<close>

definition lowestSingle :: "card list \<Rightarrow> card" where
  "lowestSingle hand = js_reduce (\<lambda>a b. if singlePower b < singlePower a then b else a) hand"

definition better_group :: "card list \<times> int \<Rightarrow> card list \<Rightarrow> card list \<times> int" where
  "better_group best cards =
     (let n = min (length cards) 3 in
      if n < 2 then best
      else let g = take n cards; score = int n * 100 - int (singlePower (hd g))
        in if score > snd best then (g, score) else best)"

definition rolloutLead :: "card list \<Rightarrow> card list" where
  "rolloutLead hand =
     (let c = lowestSingle hand
      in fst (foldl better_group ([c], 100 - int (singlePower c)) (map snd (by_rank hand))))"

definition better_single :: "combo \<Rightarrow> card option \<Rightarrow> card \<Rightarrow> card option" where
  "better_single pile best c =
     (if js_gt (Some (singlePower c)) (c_power pile) \<and>
         (case best of None \<Rightarrow> True | Some b \<Rightarrow> singlePower c < singlePower b)
      then Some c else best)"

definition better_match :: "combo \<Rightarrow> (card list \<times> nat option) option \<Rightarrow> card list \<Rightarrow> (card list \<times> nat option) option" where
  "better_match pile best cards =
     (if length cards < c_size pile then best
      else case identifyCombo (take (c_size pile) cards) of
          None \<Rightarrow> best
        | Some combo \<Rightarrow>
            if beats combo pile \<and> (case best of None \<Rightarrow> True | Some b \<Rightarrow> js_gt (snd b) (c_power combo))
            then Some (c_cards combo, c_power combo) else best)"

definition rolloutPlay :: "sim \<Rightarrow> seat \<Rightarrow> card list option" where
  "rolloutPlay s seat =
     (let hand = sm_hands s ! seat in
      case sm_pile s of
        None \<Rightarrow> Some (rolloutLead hand)
      | Some pile \<Rightarrow>
          if c_type pile = SingleC then map_option (\<lambda>c. [c]) (foldl (better_single pile) None hand)
          else if c_type pile = PairC \<or> c_type pile = TripleC
            then map_option fst (foldl (better_match pile) None (map snd (by_rank hand)))
          else None)"

definition last_card_goes :: "sim \<Rightarrow> card list \<Rightarrow> bool" where
  "last_card_goes s hand =
     (length hand = 1 \<and>
      (case sm_pile s of
         None \<Rightarrow> True
       | Some pile \<Rightarrow> c_type pile = SingleC \<and> js_gt (Some (singlePower (hd hand))) (c_power pile)))"

definition rolloutStep :: "sim \<Rightarrow> seat \<Rightarrow> sim" where
  "rolloutStep s seat =
     (let hand = sm_hands s ! seat in
      if last_card_goes s hand then applyPlay s seat (the (identifyCombo hand))
      else if sm_coop s \<and> sm_pile s \<noteq> None \<and> sm_owner s = Some ((seat + 2) mod sm_n s) then applyPass s seat
      else case rolloutPlay s seat of
          None \<Rightarrow> applyPass s seat
        | Some cards \<Rightarrow>
            (case identifyCombo cards of None \<Rightarrow> applyPass s seat | Some combo \<Rightarrow> applyPlay s seat combo))"

definition PLAYOUT_GUARD :: nat where
  "PLAYOUT_GUARD = 400"

definition teamDone :: "seat \<Rightarrow> seat option \<Rightarrow> sim \<Rightarrow> bool" where
  "teamDone me partner s =
     (\<not> sm_active s ! me \<and> (case partner of None \<Rightarrow> True | Some p \<Rightarrow> \<not> sm_active s ! p))"

fun playout :: "nat \<Rightarrow> seat \<Rightarrow> seat option \<Rightarrow> sim \<Rightarrow> sim" where
  "playout 0 me partner s = s"
| "playout (Suc guard) me partner s =
     (case sm_turn s of
        None \<Rightarrow> s
      | Some t \<Rightarrow> if teamDone me partner s then s else playout guard me partner (rolloutStep s t))"

definition finish_place :: "sim \<Rightarrow> seat \<Rightarrow> nat" where
  "finish_place s seat = (case find_index (\<lambda>x. x = seat) (sm_order s) of Some i \<Rightarrow> i + 1 | None \<Rightarrow> sm_n s)"

definition place_score :: "seat \<Rightarrow> seat option \<Rightarrow> sim \<Rightarrow> nat" where
  "place_score me partner s = finish_place s me + (case partner of None \<Rightarrow> 0 | Some p \<Rightarrow> finish_place s p)"

definition playoutScore :: "sim \<Rightarrow> seat \<Rightarrow> seat option \<Rightarrow> nat" where
  "playoutScore s me partner = place_score me partner (playout PLAYOUT_GUARD me partner s)"

subsection \<open>Dealing the unseen cards\<close>

definition unseen :: "bot_view \<Rightarrow> card list" where
  "unseen view =
     filter (\<lambda>c. cardId c \<notin> set (map cardId (bv_hand view @ (case bv_seen view of None \<Rightarrow> [] | Some s \<Rightarrow> s)))) buildDeck"

definition opt_nth :: "'a list option \<Rightarrow> nat \<Rightarrow> 'a \<Rightarrow> 'a" where
  "opt_nth xs i d = (case xs of None \<Rightarrow> d | Some l \<Rightarrow> if i < length l then l ! i else d)"

definition deal_seat :: "bot_view \<Rightarrow> card list \<Rightarrow> card list list \<times> nat \<Rightarrow> seat \<Rightarrow> card list list \<times> nat" where
  "deal_seat view bag acc k =
     (let (hands, i) = acc in
      if Some k = bv_mySeat view then (hands @ [bv_hand view], i)
      else if \<not> opt_nth (bv_active view) k True then (hands @ [[]], i)
      else let cnt = opt_nth (bv_handCounts view) k 0
        in (hands @ [take cnt (drop i bag)], i + cnt))"

definition boolFromSeats :: "seat list \<Rightarrow> nat \<Rightarrow> bool list" where
  "boolFromSeats seats n = foldl (\<lambda>b s. if s < n then b[s := True] else b) (replicate n False) seats"

definition sim_of_deal :: "bot_view \<Rightarrow> nat \<Rightarrow> card list list \<Rightarrow> sim" where
  "sim_of_deal view n hands =
     \<lparr>sm_n = n, sm_hands = hands,
      sm_active = (case bv_active view of None \<Rightarrow> map (\<lambda>h. h \<noteq> []) hands | Some a \<Rightarrow> a),
      sm_passed = boolFromSeats (case bv_passed view of None \<Rightarrow> [] | Some p \<Rightarrow> p) n,
      sm_pile = bv_pile view, sm_owner = bv_pileOwner view,
      sm_turn = Some (case bv_mySeat view of None \<Rightarrow> 0 | Some s \<Rightarrow> s),
      sm_order = (case bv_finishingOrder view of None \<Rightarrow> [] | Some ord \<Rightarrow> ord),
      sm_coop = (n = 4 \<and> bv_partnerSeat view \<noteq> None)\<rparr>"

definition determinize :: "bot_view \<Rightarrow> card list \<Rightarrow> ('g \<Rightarrow> rat \<times> 'g) \<Rightarrow> 'g \<Rightarrow> sim \<times> 'g" where
  "determinize view pool rng g =
     (let n = (case bv_numPlayers view of None \<Rightarrow> 0 | Some k \<Rightarrow> k);
          (bag, g') = shuffle pool rng g;
          hands = fst (foldl (deal_seat view bag) ([], 0) [0..<n])
      in (sim_of_deal view n hands, g'))"

subsection \<open>The search\<close>

definition is_run_combo :: "combo \<Rightarrow> bool" where
  "is_run_combo c = (c_type c = KolorC \<or> c_type c = FlushC)"

definition isTrump :: "combo \<Rightarrow> bool" where
  "isTrump c = (c_type c = BombC \<or> c_type c = FlushC)"

definition base_cost :: "combo \<Rightarrow> int" where
  "base_cost c =
     (if is_run_combo c then (case c_topSeq c of None \<Rightarrow> 0 | Some t \<Rightarrow> int t)
      else case c_power c of None \<Rightarrow> int (singlePower (hd (c_cards c))) | Some p \<Rightarrow> int p)"

definition candidateScore :: "combo \<Rightarrow> nat \<Rightarrow> int" where
  "candidateScore c handSize =
     (if length (c_cards c) = handSize then 1000000000
      else int (length (c_cards c)) * 100 - base_cost c - (if isTrump c then 1000 else 0))"

type_synonym candidate = "bot_move \<times> combo option"

definition candidates :: "bot_view \<Rightarrow> nat \<Rightarrow> combo list \<Rightarrow> bool \<Rightarrow> candidate list" where
  "candidates view maxCandidates plays canPass =
     map (\<lambda>c. (BotPlay (c_cards c), Some c))
       (take maxCandidates (sort_key (\<lambda>c. - candidateScore c (length (bv_hand view))) plays)) @
     (if canPass then [(BotPass, None)] else [])"

definition try_candidate :: "candidate \<Rightarrow> seat \<Rightarrow> sim \<Rightarrow> sim" where
  "try_candidate cand seat s = (case snd cand of Some c \<Rightarrow> applyPlay s seat c | None \<Rightarrow> applyPass s seat)"

fun simulate :: "bot_view \<Rightarrow> card list \<Rightarrow> ('g \<Rightarrow> rat \<times> 'g) \<Rightarrow> seat \<Rightarrow> candidate \<Rightarrow> nat \<Rightarrow> nat \<Rightarrow> 'g \<Rightarrow> nat \<times> 'g" where
  "simulate view pool rng seat cand 0 tot g = (tot, g)"
| "simulate view pool rng seat cand (Suc k) tot g =
     (let (s, g') = determinize view pool rng g
      in simulate view pool rng seat cand k
           (tot + playoutScore (try_candidate cand seat s) seat (bv_partnerSeat view)) g')"

fun best_candidate ::
  "bot_view \<Rightarrow> card list \<Rightarrow> ('g \<Rightarrow> rat \<times> 'g) \<Rightarrow> seat \<Rightarrow> nat \<Rightarrow> (candidate \<times> rat) option \<Rightarrow> candidate list \<Rightarrow> 'g \<Rightarrow>
     (candidate \<times> rat) option \<times> 'g" where
  "best_candidate view pool rng seat sims best [] g = (best, g)"
| "best_candidate view pool rng seat sims best (cand # cands) g =
     (let (tot, g') = simulate view pool rng seat cand sims 0 g;
          avg = of_nat tot / of_nat sims;
          best' = (case best of None \<Rightarrow> Some (cand, avg)
                   | Some (b, score) \<Rightarrow> if avg < score then Some (cand, avg) else best)
      in best_candidate view pool rng seat sims best' cands g')"

definition SIMS_PER_MOVE :: nat where
  "SIMS_PER_MOVE = 36"

definition MAX_CANDIDATES :: nat where
  "MAX_CANDIDATES = 14"

record search_opts =
  so_sims :: "nat option"
  so_maxCandidates :: "nat option"

definition goes_out :: "combo \<Rightarrow> nat \<Rightarrow> bool" where
  "goes_out c handSize = (length (c_cards c) = handSize)"

definition chooseBestMove ::
  "bot_view \<Rightarrow> ('g \<Rightarrow> rat \<times> 'g) \<Rightarrow> search_opts \<Rightarrow> 'g \<Rightarrow> bot_move option \<times> 'g" where
  "chooseBestMove view rng opts g =
     (case (bv_mySeat view, bv_numPlayers view) of
        (Some me, Some n) \<Rightarrow>
          (let plays = rootPlays (bv_hand view) (bv_pile view) (bv_mustInclude view);
               canPass = (bv_canPass view \<and> bv_pile view \<noteq> None)
           in if plays = [] then (if canPass then Some BotPass else None, g)
              else case List.find (\<lambda>c. goes_out c (length (bv_hand view))) plays of
                  Some c \<Rightarrow> (Some (BotPlay (c_cards c)), g)
                | None \<Rightarrow>
                    (let maxc = (case so_maxCandidates opts of None \<Rightarrow> MAX_CANDIDATES | Some m \<Rightarrow> m);
                         sims = (case so_sims opts of None \<Rightarrow> SIMS_PER_MOVE | Some k \<Rightarrow> k);
                         cands = candidates view maxc plays canPass
                     in if length cands = 1 then (Some (fst (hd cands)), g)
                        else let (best, g') = best_candidate view (unseen view) rng me sims None cands g
                          in (map_option (fst \<circ> fst) best, g')))
      | _ \<Rightarrow> (None, g))"

end
