(* ===== verification/Bot_Mirror.thy ===== *)
theory Bot_Mirror
  imports Bot_Search
begin

text \<open>
  The simulated game of the search against the real one (\<^verbatim>\<open>botSearch.ts\<close> against
  \<^verbatim>\<open>singleGame.ts\<close>): a simulation relation, what it shows of every operation, and the
  one rule on which the two part.
\<close>

subsection \<open>When a simulation mirrors a game\<close>

text \<open>While a game goes on every field corresponds; once it is over the game also lists the players
  who had left, which the simulation does not know.\<close>

definition mirrors :: "sim \<Rightarrow> game \<Rightarrow> bool" where
  "mirrors s g \<longleftrightarrow>
     sm_n s = g_numPlayers g \<and> sm_hands s = g_hands g \<and> sm_active s = g_active g \<and> sm_turn s = g_turn g \<and>
     (case g_status g of
        Playing \<Rightarrow> sm_pile s = g_pile g \<and> sm_owner s = g_pileOwner g \<and> sm_order s = g_finishingOrder g \<and>
          length (sm_passed s) = g_numPlayers g \<and> (\<forall>k<g_numPlayers g. sm_passed s ! k \<longleftrightarrow> k \<in> set (g_passed g))
      | Finished \<Rightarrow> g_finishingOrder g = sm_order s @ left_holding g)"

definition sim_of :: "bool \<Rightarrow> game \<Rightarrow> sim" where
  "sim_of coop g =
     \<lparr>sm_n = g_numPlayers g, sm_hands = g_hands g, sm_active = g_active g,
      sm_passed = boolFromSeats (g_passed g) (g_numPlayers g), sm_pile = g_pile g, sm_owner = g_pileOwner g,
      sm_turn = g_turn g, sm_order = g_finishingOrder g, sm_coop = coop\<rparr>"

lemma boolFromSeats_nth:
  "length (boolFromSeats xs n) = n \<and> (\<forall>k<n. boolFromSeats xs n ! k \<longleftrightarrow> k \<in> set xs)"
proof -
  have "length bs = n \<Longrightarrow> length (foldl (\<lambda>b s. if s < n then b[s := True] else b) bs xs) = n \<and>
    (\<forall>k<n. foldl (\<lambda>b s. if s < n then b[s := True] else b) bs xs ! k \<longleftrightarrow> bs ! k \<or> k \<in> set xs)" for bs
  proof (induction xs arbitrary: bs)
    case (Cons x xs)
    from Cons.IH[of "if x < n then bs[x := True] else bs"] Cons.prems show ?case
      by (auto simp: nth_list_update)
  qed simp
  from this[of "replicate n False"] show ?thesis by (simp add: boolFromSeats_def)
qed

lemma mirrors_sim_of: "g_status g = Playing \<Longrightarrow> mirrors (sim_of coop g) g"
  using boolFromSeats_nth[of "g_passed g" "g_numPlayers g"] by (simp add: mirrors_def sim_of_def)

lemma sim_active_same: "sm_active s = g_active g \<Longrightarrow> sim_activeCount s = activeCount g"
  by (simp add: sim_activeCount_def activeCount_def)

lemma find_cong: "(\<And>x. x \<in> set xs \<Longrightarrow> P x = Q x) \<Longrightarrow> List.find P xs = List.find Q xs"
  by (induction xs) auto

lemma sim_next_same: "mirrors s g \<Longrightarrow> sim_nextActiveAfter s k = nextActiveAfter k g"
  by (simp add: mirrors_def sim_nextActiveAfter_def nextActiveAfter_def)

lemma sim_eligible_same:
  assumes "mirrors s g" "g_status g = Playing" "0 < g_numPlayers g"
  shows "sim_nextEligible s k = nextEligible k g"
proof -
  have "x \<in> set (seats_after (g_numPlayers g) k) \<Longrightarrow> x < g_numPlayers g" for x
    using assms(3) by (simp add: set_seats_after)
  with assms(1,2) show ?thesis
    unfolding sim_nextEligible_def nextEligible_def by (auto simp: mirrors_def intro!: find_cong)
qed

lemma count_skipping:
  "foldl (\<lambda>c k. if P k then c else if Q k then c + 1 else c) m ks = m + length (filter (\<lambda>k. \<not> P k \<and> Q k) ks)"
  by (induction ks arbitrary: m) auto

lemma sim_contenders_same:
  assumes "mirrors s g" "g_status g = Playing"
  shows "sim_contenders s = length (contendersExcludingOwner g)"
proof -
  have "filter (\<lambda>k. Some k \<noteq> sm_owner s \<and> sm_active s ! k \<and> \<not> sm_passed s ! k) [0..<sm_n s] = contendersExcludingOwner g"
    unfolding contendersExcludingOwner_def using assms by (auto simp: mirrors_def intro!: filter_cong)
  then show ?thesis by (simp add: sim_contenders_def count_skipping)
qed

subsection \<open>Operations of the two\<close>

lemma sim_place_step:
  "sim_place (s\<lparr>sm_active := as, sm_order := ord\<rparr>) k =
     s\<lparr>sm_active := if as ! k then as[k := False] else as, sm_order := if as ! k then ord @ [k] else ord\<rparr>"
  by (simp add: sim_place_def)

lemma sim_places:
  assumes "n \<le> length (sm_active s)"
  shows "foldl sim_place s [0..<n] =
    s\<lparr>sm_active := map (\<lambda>k. sm_active s ! k \<and> n \<le> k) [0..<length (sm_active s)],
      sm_order := sm_order s @ filter (\<lambda>k. sm_active s ! k) [0..<n]\<rparr>"
  using assms
proof (induction n)
  case 0
  have "map (\<lambda>k. sm_active s ! k) [0..<length (sm_active s)] = sm_active s" by (rule map_nth)
  then show ?case by simp
next
  case (Suc n)
  let ?L = "length (sm_active s)"
  let ?as = "\<lambda>m. map (\<lambda>k. sm_active s ! k \<and> m \<le> k) [0..<?L]"
  from Suc have ih: "foldl sim_place s [0..<n] =
      s\<lparr>sm_active := ?as n, sm_order := sm_order s @ filter (\<lambda>k. sm_active s ! k) [0..<n]\<rparr>" by simp
  have "?as n ! n = sm_active s ! n" using Suc.prems by simp
  moreover have "(if sm_active s ! n then (?as n)[n := False] else ?as n) = ?as (Suc n)"
  proof (rule nth_equalityI)
    fix i assume "i < length (if sm_active s ! n then (?as n)[n := False] else ?as n)"
    then have "i < ?L" by (simp split: if_splits)
    then show "(if sm_active s ! n then (?as n)[n := False] else ?as n) ! i = ?as (Suc n) ! i"
      by (cases "i = n") (auto simp: nth_list_update Suc_le_eq)
  qed simp
  ultimately show ?case unfolding upt_Suc_append[OF le0] foldl_append ih foldl.simps sim_place_step by auto
qed

lemma mirrors_endGame:
  assumes "mirrors s g" "core_inv g" "g_status g = Playing"
  shows "mirrors (sim_endGame s) (fst (endGame g ev))"
proof -
  let ?n = "g_numPlayers g"
  have l: "length (g_active g) = ?n" "\<And>k. k < ?n \<Longrightarrow> g_active g ! k \<Longrightarrow> k \<notin> set (g_gone g)"
    using assms(2) by (auto simp: core_inv_def)
  have h: "filter (\<lambda>k. g_active g ! k) [0..<?n] = holders g"
    unfolding holders_def using l(2) by (intro filter_cong) auto
  have lh: "left_holding (fst (endGame g ev)) = left_holding g"
    using endGame_facts(3,4)[OF assms(2,3), of ev] by (simp add: left_holding_def)
  show ?thesis
    using assms(1,3) l h lh by (auto simp: mirrors_def sim_endGame_def sim_places endGame_shape[OF assms(2,3)])
qed

lemma mirrors_resolve:
  assumes "mirrors s g" "core_inv g" "g_status g = Playing"
  shows "mirrors (sim_resolveTrick s) (fst (resolveTrick g ev))"
proof -
  let ?n = "g_numPlayers g"
  define leads where "leads = (case g_pileOwner g of Some w \<Rightarrow> if g_active g ! w then Some w else nextActiveAfter w g | None \<Rightarrow> None)"
  let ?s1 = "s\<lparr>sm_pile := None, sm_owner := None, sm_passed := replicate ?n False, sm_turn := leads\<rparr>"
  let ?g1 = "g\<lparr>g_pile := None, g_pileOwner := None, g_passed := [], g_turn := leads\<rparr>"
  have m1: "mirrors ?s1 ?g1" using assms(1,3) by (simp add: mirrors_def)
  have c1: "core_inv ?g1" using core_inv_clear[OF assms(2)] by (simp add: core_inv_def)
  have "sim_resolveTrick s = (if leads = None \<or> sim_activeCount ?s1 \<le> 1 then sim_endGame ?s1 else ?s1)"
    using assms(1,3) sim_next_same[OF assms(1)]
    by (auto simp: sim_resolveTrick_def leads_def Let_def mirrors_def split: option.split)
  moreover have "sim_activeCount ?s1 = activeCount ?g1"
    using m1 by (intro sim_active_same) (simp add: mirrors_def)
  moreover have "fst (resolveTrick g ev) = (if leads = None \<or> activeCount ?g1 \<le> 1
      then fst (endGame ?g1 (ev @ [TrickWon (case g_pileOwner g of Some w \<Rightarrow> int w | None \<Rightarrow> -1) leads])) else ?g1)"
    by (simp add: resolveTrick_def leads_def[symmetric] Let_def)
  ultimately show ?thesis using m1 mirrors_endGame[OF m1 c1] assms(3) by simp
qed

lemma mirrors_after:
  assumes "mirrors s g" "core_inv g" "g_status g = Playing"
  shows "mirrors (sim_afterAction s seat) (fst (afterAction seat g ev))"
proof (cases "contendersExcludingOwner g = []")
  case True
  with mirrors_resolve[OF assms] sim_contenders_same[OF assms(1,3)] show ?thesis
    by (simp add: sim_afterAction_def afterAction_def)
next
  case False
  have n: "0 < g_numPlayers g" using assms(2) by (simp add: core_inv_def)
  from False obtain k where "k < g_numPlayers g" "g_active g ! k" "k \<notin> set (g_passed g)"
    by (auto simp: contendersExcludingOwner_def filter_empty_conv)
  with n have "nextEligible seat g \<noteq> None" by (auto simp: nextEligible_def find_seats_after_None)
  with False sim_contenders_same[OF assms(1,3)] sim_eligible_same[OF assms(1,3) n] assms(1,3) show ?thesis
    by (auto simp: sim_afterAction_def afterAction_def Let_def mirrors_def)
qed

lemma mirrors_pass:
  assumes "mirrors s g" "game_inv g" "ar_ok (fst (game_pass seat g))"
  shows "mirrors (applyPass s seat) (snd (game_pass seat g))"
proof (cases rule: game_pass_cases[of seat g])
  case (rejected code)
  with assms show ?thesis by simp
next
  case (accepted g' ev)
  let ?g1 = "g\<lparr>g_passed := set_add seat (g_passed g)\<rparr>"
  let ?s1 = "s\<lparr>sm_passed := (sm_passed s)[seat := True]\<rparr>"
  have i: "core_inv g" "seat < g_numPlayers g" "g_active g ! seat"
    using assms(2) accepted(1,2) by (simp_all add: game_inv_def table_inv_def eligible_def)
  have "core_inv ?g1" using i by (auto simp: core_inv_def)
  moreover have "mirrors ?s1 ?g1" using assms(1) accepted(1) i(2) by (auto simp: mirrors_def nth_list_update)
  ultimately have "mirrors (sim_afterAction ?s1 seat) (fst (afterAction seat ?g1 [Passed seat]))"
    using accepted(1) by (intro mirrors_after) simp_all
  with accepted show ?thesis by (simp add: applyPass_def)
qed

lemma mirrors_play:
  assumes "mirrors s g" "game_inv g" "g_passed g = []" "ar_ok (fst (game_play seat cards g))"
  obtains combo where "pc_combo (validatePlay cards (g_pile g)) = Some combo" "c_cards combo = cards"
    "mirrors (applyPlay s seat combo) (snd (game_play seat cards g))"
proof (cases rule: game_play_cases[of seat cards g])
  case (rejected code)
  with assms show ?thesis by simp
next
  case (accepted combo g' ev)
  let ?g1 = "commit_play seat cards combo g"
  let ?s1 = "s\<lparr>sm_hands := (sm_hands s)[seat := drop_cards (sm_hands s ! seat) (c_cards combo)],
                 sm_pile := Some combo, sm_owner := Some seat\<rparr>"
  let ?s2 = "?s1\<lparr>sm_active := (sm_active ?s1)[seat := False], sm_order := sm_order ?s1 @ [seat]\<rparr>"
  have i: "core_inv g" "seat < g_numPlayers g" "g_active g ! seat"
    using assms(2) accepted(1,2) by (simp_all add: game_inv_def table_inv_def eligible_def)
  have c2: "core_inv (emptied seat ?g1)" by (rule emptied_commit_core[OF i])
  have p2: "g_status (emptied seat ?g1) = Playing"
    using accepted(1) by (simp add: emptied_def commit_play_def removeCards_def)
  have m1: "mirrors ?s1 ?g1"
    using assms(1,3) accepted(1,10) by (simp add: mirrors_def commit_play_def removeCards_def drop_cards_def)
  obtain ev1 where a: "after_play seat combo ?g1 =
    (if g_hands ?g1 ! seat = [] \<and> activeCount (emptied seat ?g1) \<le> 1
     then endGame (emptied seat ?g1) ev1 else afterAction seat (emptied seat ?g1) ev1)" by (rule after_play_emptied)
  have h: "sm_hands ?s1 ! seat = g_hands ?g1 ! seat" using m1 by (simp add: mirrors_def)
  have "mirrors (applyPlay s seat combo) (fst (after_play seat combo ?g1))"
  proof (cases "g_hands ?g1 ! seat = []")
    case True
    have m2: "mirrors ?s2 (emptied seat ?g1)"
      using m1 True p2 by (simp add: mirrors_def emptied_def split: game_status.splits)
    have cnt: "sim_activeCount ?s2 = activeCount (emptied seat ?g1)"
      using m2 by (intro sim_active_same) (simp add: mirrors_def)
    have "applyPlay s seat combo = (if sim_activeCount ?s2 \<le> 1 then sim_endGame ?s2 else sim_afterAction ?s2 seat)"
      using True h by (simp add: applyPlay_def Let_def)
    then show ?thesis
      unfolding a using True cnt mirrors_endGame[OF m2 c2 p2, of ev1] mirrors_after[OF m2 c2 p2, of seat ev1] by simp
  next
    case False
    then have "emptied seat ?g1 = ?g1" by (simp add: emptied_def)
    moreover have "applyPlay s seat combo = sim_afterAction ?s1 seat"
      using False h by (simp add: applyPlay_def Let_def)
    ultimately show ?thesis
      unfolding a using False mirrors_after[OF m1, of seat ev1] c2 p2 by simp
  qed
  with accepted that show ?thesis by simp
qed

lemma validate_identifies:
  "pc_combo (validatePlay cards pile) = Some combo \<Longrightarrow> identifyCombo cards = Some combo"
  by (auto simp: validatePlay_def Let_def split: option.splits if_splits)

lemma after_pile_left:
  assumes "g_pile (fst (afterAction seat g ev)) \<noteq> None"
  shows "fst (afterAction seat g ev) = g\<lparr>g_turn := nextEligible seat g\<rparr>"
proof -
  have "g_pile (fst (endGame h ev')) = None" if "g_pile h = None" for h ev'
    using that by (simp add: endGame_def Let_def)
  then have "g_pile (fst (resolveTrick g ev)) = None" by (simp add: resolveTrick_def Let_def)
  with assms show ?thesis by (auto simp: afterAction_def split: if_splits)
qed

lemma play_pile_left:
  assumes "ar_ok (fst (game_play seat cards g))" "g_pile (snd (game_play seat cards g)) \<noteq> None"
  shows "g_passed (snd (game_play seat cards g)) = []" "g_numPlayers (snd (game_play seat cards g)) = g_numPlayers g"
    "g_status (snd (game_play seat cards g)) = Playing"
proof -
  consider combo g' ev where "g_status g = Playing" "after_play seat combo (commit_play seat cards combo g) = (g', ev)"
    "game_play seat cards g = (game_ok ev, g')"
    using assms(1) by (cases rule: game_play_cases[of seat cards g]) auto
  then have "g_passed (snd (game_play seat cards g)) = [] \<and> g_numPlayers (snd (game_play seat cards g)) = g_numPlayers g \<and>
    g_status (snd (game_play seat cards g)) = Playing"
  proof cases
    case 1
    let ?h = "emptied seat (commit_play seat cards combo g)"
    have h: "g_passed ?h = []" "g_numPlayers ?h = g_numPlayers g" "g_status ?h = Playing"
      using 1(1) by (simp_all add: emptied_def commit_play_def removeCards_def)
    obtain ev1 where a: "after_play seat combo (commit_play seat cards combo g) =
      (if g_hands (commit_play seat cards combo g) ! seat = [] \<and> activeCount ?h \<le> 1
       then endGame ?h ev1 else afterAction seat ?h ev1)" by (rule after_play_emptied)
    have "g_pile (fst (endGame ?h ev1)) = None" using h(3) by (simp add: endGame_def Let_def)
    moreover have g': "snd (game_play seat cards g) = fst (after_play seat combo (commit_play seat cards combo g))"
      using 1 by simp
    ultimately have "snd (game_play seat cards g) = fst (afterAction seat ?h ev1)"
      using assms(2) a by (cases "g_hands (commit_play seat cards combo g) ! seat = [] \<and> activeCount ?h \<le> 1") auto
    with after_pile_left[of seat ?h ev1] h assms(2) show ?thesis by simp
  qed
  then show "g_passed (snd (game_play seat cards g)) = []" "g_numPlayers (snd (game_play seat cards g)) = g_numPlayers g"
    "g_status (snd (game_play seat cards g)) = Playing" by simp_all
qed

lemma sim_endGame_table [simp]:
  "sm_pile (sim_endGame s) = sm_pile s" "sm_passed (sim_endGame s) = sm_passed s" "sm_hands (sim_endGame s) = sm_hands s"
  "sm_n (sim_endGame s) = sm_n s" "sm_turn (sim_endGame s) = None" "sm_coop (sim_endGame s) = sm_coop s"
proof -
  have "sm_pile (foldl sim_place s ks) = sm_pile s \<and> sm_passed (foldl sim_place s ks) = sm_passed s \<and>
      sm_hands (foldl sim_place s ks) = sm_hands s \<and> sm_n (foldl sim_place s ks) = sm_n s \<and>
      sm_coop (foldl sim_place s ks) = sm_coop s" for ks
    by (induction ks arbitrary: s) (simp_all add: sim_place_def)
  then show "sm_pile (sim_endGame s) = sm_pile s" "sm_passed (sim_endGame s) = sm_passed s"
    "sm_hands (sim_endGame s) = sm_hands s" "sm_n (sim_endGame s) = sm_n s" "sm_turn (sim_endGame s) = None"
    "sm_coop (sim_endGame s) = sm_coop s"
    by (simp_all add: sim_endGame_def)
qed

lemma sim_passed_stays:
  "sm_passed s ! p \<Longrightarrow> sm_pile (sim_afterAction s seat) = None \<or> sm_passed (sim_afterAction s seat) ! p"
  by (simp add: sim_afterAction_def sim_resolveTrick_def Let_def)

lemma play_keeps_passed:
  "sm_passed s ! p \<Longrightarrow> sm_pile (applyPlay s seat combo) = None \<or> sm_passed (applyPlay s seat combo) ! p"
  unfolding applyPlay_def Let_def by (split if_split, simp add: sim_passed_stays)+

subsection \<open>What the search promises and what it forgets\<close>

text \<open>C29: the simulation of the search follows the rules of the game. When a simulation mirrors a
  game, it still mirrors it after every pass the game accepts, and after every play it accepts while
  nobody has passed in the trick: same hands, same players in, same turn, same places, and the same
  pile while the game goes on. A simulation made from a running game mirrors it to begin with.\<close>

theorem search_mirrors_game:
  assumes "game_inv g" "mirrors s g"
  shows "(ar_ok (fst (game_pass seat g)) \<longrightarrow> mirrors (applyPass s seat) (snd (game_pass seat g))) \<and>
    (ar_ok (fst (game_play seat cards g)) \<and> g_passed g = [] \<longrightarrow>
      (\<exists>combo. identifyCombo cards = Some combo \<and> mirrors (applyPlay s seat combo) (snd (game_play seat cards g)))) \<and>
    (\<not> isOver h \<longrightarrow> mirrors (sim_of coop h) h)"
proof (intro conjI impI)
  show "mirrors (applyPass s seat) (snd (game_pass seat g))" if "ar_ok (fst (game_pass seat g))"
    by (rule mirrors_pass[OF assms(2,1) that])
  show "\<exists>combo. identifyCombo cards = Some combo \<and> mirrors (applyPlay s seat combo) (snd (game_play seat cards g))"
    if a: "ar_ok (fst (game_play seat cards g)) \<and> g_passed g = []"
  proof -
    obtain combo where c: "pc_combo (validatePlay cards (g_pile g)) = Some combo" "c_cards combo = cards"
      "mirrors (applyPlay s seat combo) (snd (game_play seat cards g))"
      by (rule mirrors_play[OF assms(2,1) conjunct2[OF a] conjunct1[OF a]])
    from validate_identifies[OF c(1)] c(3) show ?thesis by blast
  qed
  show "mirrors (sim_of coop h) h" if "\<not> isOver h"
    using that by (cases "g_status h") (simp_all add: isOver_def mirrors_sim_of)
qed

definition demo_passed :: game where
  "demo_passed = foldl game_step demo_game [Act (PlayAction 0 [Standard R3 Spades]), Act (PassAction 1)]"

lemma demo_passed_ok: "game_inv demo_passed" "game_inv demo_game" "\<not> isOver demo_passed"
  "mirrors (sim_of False demo_game) demo_game" "mirrors (sim_of False demo_passed) demo_passed"
proof -
  have r: "game_inv (foldl game_step demo_game ops)" for ops by (rule fresh_game_reaches[OF demo_dealt demo_start])
  show "game_inv demo_passed" unfolding demo_passed_def by (rule r)
  show "game_inv demo_game" using r[of "[]"] by simp
  have p: "g_status demo_passed = Playing" "g_status demo_game = Playing" by code_simp+
  then show "\<not> isOver demo_passed" by (simp add: isOver_def)
  show "mirrors (sim_of False demo_game) demo_game" "mirrors (sim_of False demo_passed) demo_passed"
    by (rule mirrors_sim_of, rule p)+
qed

theorem search_mirrors_game_witness:
  "(\<exists>combo. identifyCombo [Standard R3 Spades] = Some combo \<and>
     mirrors (applyPlay (sim_of False demo_game) 0 combo) (snd (game_play 0 [Standard R3 Spades] demo_game))) \<and>
   mirrors (sim_of False demo_passed) demo_passed"
proof
  have "ar_ok (fst (game_play 0 [Standard R3 Spades] demo_game)) \<and> g_passed demo_game = []" by code_simp
  then show "\<exists>combo. identifyCombo [Standard R3 Spades] = Some combo \<and>
     mirrors (applyPlay (sim_of False demo_game) 0 combo) (snd (game_play 0 [Standard R3 Spades] demo_game))"
    using search_mirrors_game[OF demo_passed_ok(2,4), of 0 "[Standard R3 Spades]"] by blast
  show "mirrors (sim_of False demo_passed) demo_passed"
    using search_mirrors_game[OF demo_passed_ok(2,4), of 0 "[]" demo_passed False] demo_passed_ok(3) by blast
qed

text \<open>The search forgets that a new play asks everybody again. Suppose the simulation mirrors a
  game in which a player has passed in the trick, and the player to move makes a play that leaves a
  pile to answer. In the game nobody is marked as passed any more; in the simulation that player is,
  unless the simulation has already closed the trick. Either way it no longer mirrors the game, in
  which the player may still answer the play.\<close>

theorem search_forgets_reopening:
  assumes "game_inv g" "mirrors s g" "p \<in> set (g_passed g)"
    and "ar_ok (fst (game_play seat cards g))" "g_pile (snd (game_play seat cards g)) \<noteq> None"
    and "identifyCombo cards = Some combo"
  shows "g_passed (snd (game_play seat cards g)) = [] \<and>
    (sm_pile (applyPlay s seat combo) = None \<or> sm_passed (applyPlay s seat combo) ! p) \<and>
    \<not> mirrors (applyPlay s seat combo) (snd (game_play seat cards g))"
proof -
  note left = play_pile_left[OF assms(4,5)]
  have p: "g_status g = Playing" using assms(4) by (cases rule: game_play_cases[of seat cards g]) auto
  have pn: "p < g_numPlayers g" using assms(1,3) p by (auto simp: game_inv_def core_inv_def)
  have "sm_passed s ! p" using assms(2,3) p pn by (simp add: mirrors_def)
  then have f: "sm_pile (applyPlay s seat combo) = None \<or> sm_passed (applyPlay s seat combo) ! p"
    by (rule play_keeps_passed)
  with left assms(5) pn have "\<not> mirrors (applyPlay s seat combo) (snd (game_play seat cards g))"
    by (auto simp: mirrors_def)
  with f left show ?thesis by simp
qed

theorem search_forgets_reopening_witness:
  "\<exists>combo. identifyCombo [Standard R7 Spades] = Some combo \<and>
     \<not> mirrors (applyPlay (sim_of False demo_passed) 2 combo) (snd (game_play 2 [Standard R7 Spades] demo_passed))"
proof -
  have "1 \<in> set (g_passed demo_passed)" "ar_ok (fst (game_play 2 [Standard R7 Spades] demo_passed))"
    "g_pile (snd (game_play 2 [Standard R7 Spades] demo_passed)) \<noteq> None" by code_simp+
  from search_forgets_reopening[OF demo_passed_ok(1,5) this identify_single] identify_single
  show ?thesis by blast
qed

end
