(* ===== verification/Bot_Playout.thy ===== *)
theory Bot_Playout
  imports Bot_Mirror
begin

text \<open>
  The rollouts of the search end by themselves: an invariant of simulated games, a rank that every
  step of a rollout lowers, and from the two that the guard of \<^verbatim>\<open>playoutScore\<close>
  (\<^verbatim>\<open>botSearch.ts\<close>) is never what stops a rollout.
\<close>

subsection \<open>The invariant of a simulated game\<close>

definition sim_core :: "sim \<Rightarrow> bool" where
  "sim_core s \<longleftrightarrow>
     0 < sm_n s \<and> length (sm_hands s) = sm_n s \<and> length (sm_active s) = sm_n s \<and> length (sm_passed s) = sm_n s \<and>
     (\<forall>k < sm_n s. sm_active s ! k \<longrightarrow> sm_hands s ! k \<noteq> [])"

definition sim_inv :: "sim \<Rightarrow> bool" where
  "sim_inv s \<longleftrightarrow> sim_core s \<and>
     (case sm_turn s of
        None \<Rightarrow> \<forall>k < sm_n s. \<not> sm_active s ! k
      | Some t \<Rightarrow> t < sm_n s \<and> sm_active s ! t \<and> \<not> sm_passed s ! t \<and>
          (sm_pile s \<noteq> None \<longrightarrow> (\<exists>w < sm_n s. sm_owner s = Some w)))"

definition sim_cards :: "sim \<Rightarrow> nat" where
  "sim_cards s = sum_list (map length (sm_hands s))"

definition sim_waiting :: "sim \<Rightarrow> seat set" where
  "sim_waiting s = {k. k < sm_n s \<and> sm_active s ! k \<and> \<not> sm_passed s ! k}"

definition sim_rank :: "sim \<Rightarrow> nat" where
  "sim_rank s =
     (if sm_turn s = None then 0
      else sim_cards s * (sm_n s + 2) + (if sm_pile s = None then 0 else 1 + card (sim_waiting s)) + 1)"

text \<open>The seats that have finished, or still play.\<close>

definition placed :: "sim \<Rightarrow> seat \<Rightarrow> bool" where
  "placed s k \<longleftrightarrow> sm_active s ! k \<or> k \<in> set (sm_order s)"

lemma card_sim_waiting: "card (sim_waiting s) \<le> sm_n s"
  using card_mono[of "{..<sm_n s}" "sim_waiting s"] by (auto simp: sim_waiting_def)

lemma sim_rank_upper: "sim_rank s \<le> sim_cards s * (sm_n s + 2) + sm_n s + 2"
  using card_sim_waiting[of s] by (simp add: sim_rank_def)

subsection \<open>Steps of the simulation\<close>

lemma sim_endGame_inv:
  assumes "sim_core s"
  shows "sim_inv (sim_endGame s)" "k < sm_n s \<Longrightarrow> placed s k \<Longrightarrow> placed (sim_endGame s) k"
  using assms by (auto simp: sim_endGame_def sim_places sim_core_def sim_inv_def placed_def)

lemma sim_resolve_inv:
  assumes "sim_core s" "sm_owner s = Some w" "w < sm_n s"
  shows "sim_inv (sim_resolveTrick s)" "sm_hands (sim_resolveTrick s) = sm_hands s" "sm_n (sim_resolveTrick s) = sm_n s"
    "sm_pile (sim_resolveTrick s) = None" "k < sm_n s \<Longrightarrow> placed s k \<Longrightarrow> placed (sim_resolveTrick s) k"
proof -
  define leads where "leads = (if sm_active s ! w then Some w else sim_nextActiveAfter s w)"
  let ?s1 = "s\<lparr>sm_pile := None, sm_owner := None, sm_passed := replicate (sm_n s) False, sm_turn := leads\<rparr>"
  have r: "sim_resolveTrick s = (if leads = None \<or> sim_activeCount ?s1 \<le> 1 then sim_endGame ?s1 else ?s1)"
    by (simp add: sim_resolveTrick_def assms(2) leads_def Let_def)
  have c: "sim_core ?s1" using assms(1) by (simp add: sim_core_def)
  have "t < sm_n s \<and> sm_active s ! t" if "leads = Some t" for t
    using that assms(1,3) by (auto simp: leads_def sim_nextActiveAfter_def sim_core_def elim!: find_seats_after split: if_splits)
  then have "sim_inv ?s1" if "leads \<noteq> None" using that c by (auto simp: sim_inv_def)
  then show "sim_inv (sim_resolveTrick s)" using r sim_endGame_inv(1)[OF c] by simp
  show "k < sm_n s \<Longrightarrow> placed s k \<Longrightarrow> placed (sim_resolveTrick s) k"
    using r sim_endGame_inv(2)[OF c, of k] by (simp add: placed_def)
qed (simp_all add: sim_resolveTrick_def Let_def)

lemma sim_after_inv:
  assumes "sim_core s" "sm_owner s = Some w" "w < sm_n s"
  shows "sim_inv (sim_afterAction s seat) \<and> sm_hands (sim_afterAction s seat) = sm_hands s \<and>
      sm_n (sim_afterAction s seat) = sm_n s \<and>
      (sm_pile (sim_afterAction s seat) = None \<or> sim_waiting (sim_afterAction s seat) = sim_waiting s) \<and>
      (\<forall>k < sm_n s. placed s k \<longrightarrow> placed (sim_afterAction s seat) k)"
proof (cases "sim_contenders s = 0 \<or> sim_nextEligible s seat = None")
  case True
  have "sim_core (s\<lparr>sm_turn := None\<rparr>)" using assms(1) by (simp add: sim_core_def)
  from sim_resolve_inv[OF assms] sim_resolve_inv[OF this, of w] assms(2,3) True show ?thesis
    by (auto simp: sim_afterAction_def Let_def placed_def)
next
  case False
  then obtain t where t: "sim_nextEligible s seat = Some t" by auto
  then have "t < sm_n s \<and> sm_active s ! t \<and> \<not> sm_passed s ! t"
    using assms(1) by (auto simp: sim_nextEligible_def sim_core_def elim!: find_seats_after)
  with False t assms show ?thesis
    by (auto simp: sim_afterAction_def sim_inv_def sim_core_def sim_waiting_def placed_def)
qed

lemma applyPass_lowers:
  assumes "sim_inv s" "sm_turn s = Some t" "sm_pile s \<noteq> None"
  shows "sim_inv (applyPass s t)" "sim_rank (applyPass s t) < sim_rank s" "sim_cards (applyPass s t) = sim_cards s"
    "sm_n (applyPass s t) = sm_n s" "k < sm_n s \<Longrightarrow> placed s k \<Longrightarrow> placed (applyPass s t) k"
proof -
  let ?s1 = "s\<lparr>sm_passed := (sm_passed s)[t := True]\<rparr>"
  from assms obtain w where w: "w < sm_n s" "sm_owner s = Some w" by (auto simp: sim_inv_def)
  have c: "sim_core ?s1" and t: "t \<in> sim_waiting s" using assms(1,2) by (auto simp: sim_inv_def sim_core_def sim_waiting_def)
  note a = sim_after_inv[OF c, of w t]
  have "sim_waiting ?s1 = sim_waiting s - {t}"
    using assms(1,2) by (auto simp: sim_waiting_def sim_inv_def sim_core_def nth_list_update)
  then have "sim_waiting ?s1 \<subset> sim_waiting s" using t by blast
  then have "card (sim_waiting ?s1) < card (sim_waiting s)"
    by (intro psubset_card_mono) (simp_all add: sim_waiting_def)
  with a w assms(2,3) show "sim_rank (applyPass s t) < sim_rank s"
    by (auto simp: applyPass_def sim_rank_def sim_cards_def)
  show "sim_inv (applyPass s t)" "sim_cards (applyPass s t) = sim_cards s" "sm_n (applyPass s t) = sm_n s"
    "k < sm_n s \<Longrightarrow> placed s k \<Longrightarrow> placed (applyPass s t) k"
    using a w by (auto simp: applyPass_def sim_cards_def placed_def)
qed

lemma applyPlay_lowers:
  assumes "sim_inv s" "sm_turn s = Some t" "c_cards combo \<noteq> []" "set (c_cards combo) \<subseteq> set (sm_hands s ! t)"
  shows "sim_inv (applyPlay s t combo)" "sim_rank (applyPlay s t combo) < sim_rank s"
    "sim_cards (applyPlay s t combo) < sim_cards s"
    "sm_n (applyPlay s t combo) = sm_n s" "k < sm_n s \<Longrightarrow> placed s k \<Longrightarrow> placed (applyPlay s t combo) k"
proof -
  let ?h = "drop_cards (sm_hands s ! t) (c_cards combo)"
  let ?s1 = "s\<lparr>sm_hands := (sm_hands s)[t := ?h], sm_pile := Some combo, sm_owner := Some t\<rparr>"
  let ?s2 = "?s1\<lparr>sm_active := (sm_active ?s1)[t := False], sm_order := sm_order ?s1 @ [t]\<rparr>"
  from assms(1,2) have t: "t < sm_n s" "sim_core s" "t < length (sm_hands s)" by (auto simp: sim_inv_def sim_core_def)
  obtain s3 where s3: "s3 = (if ?h = [] then ?s2 else ?s1)" by simp
  have f: "sm_owner s3 = Some t" "sm_n s3 = sm_n s" "sm_hands s3 = (sm_hands s)[t := ?h]" using s3 by simp_all
  have c: "sim_core s3" using t s3 by (auto simp: sim_core_def nth_list_update)
  have p: "placed s3 k" if "k < sm_n s" "placed s k" for k
    using that t s3 by (auto simp: placed_def nth_list_update sim_core_def)
  from assms(3,4) obtain x where "x \<in> set (c_cards combo)" "x \<in> set (sm_hands s ! t)" by (cases "c_cards combo") auto
  then have "length ?h < length (sm_hands s ! t)" unfolding drop_cards_def by (intro length_filter_less) auto
  with sum_length_update[OF t(3), of ?h] f(3) have less: "sim_cards s3 < sim_cards s" by (simp add: sim_cards_def)
  have "applyPlay s t combo = (if ?h = [] \<and> sim_activeCount s3 \<le> 1 then sim_endGame s3 else sim_afterAction s3 t)"
    using t(3) s3 by (simp add: applyPlay_def Let_def)
  then have r: "sim_inv (applyPlay s t combo) \<and> sm_hands (applyPlay s t combo) = sm_hands s3 \<and> sm_n (applyPlay s t combo) = sm_n s \<and>
    (\<forall>k < sm_n s. placed s k \<longrightarrow> placed (applyPlay s t combo) k)"
    using sim_after_inv[OF c f(1), of t] sim_endGame_inv[OF c] f(2) t(1) p by (auto split: if_splits)
  then show "sim_inv (applyPlay s t combo)" "sm_n (applyPlay s t combo) = sm_n s"
    "k < sm_n s \<Longrightarrow> placed s k \<Longrightarrow> placed (applyPlay s t combo) k" by simp_all
  from r less show l: "sim_cards (applyPlay s t combo) < sim_cards s" by (simp add: sim_cards_def)
  have "Suc (sim_cards (applyPlay s t combo)) * (sm_n s + 2) \<le> sim_cards s * (sm_n s + 2)"
    using l by (intro mult_right_mono) auto
  with r assms(2) sim_rank_upper[of "applyPlay s t combo"] show "sim_rank (applyPlay s t combo) < sim_rank s"
    by (simp add: sim_rank_def)
qed

subsection \<open>Steps of a rollout\<close>

lemma lowestSingle_mem: "hand \<noteq> [] \<Longrightarrow> lowestSingle hand \<in> set hand"
  using js_reduce_mem[of hand "\<lambda>a b. if singlePower b < singlePower a then b else a"]
  by (auto simp: lowestSingle_def)

lemma same_rank_combo:
  assumes "cards = take n (filter (has_rank (Some r)) hand)" "length cards = n" "n = 2 \<or> n = 3"
  shows "identifyCombo cards \<noteq> None"
proof -
  have "cards \<noteq> []" using assms(2,3) by auto
  moreover have "\<forall>c\<in>set cards. has_rank (Some r) c" using assms(1) by (auto dest: in_set_takeD)
  moreover have "has_rank (Some r) c \<Longrightarrow> \<not> is_joker c" for c by (cases c) simp_all
  ultimately have "allSameRank cards"
    using \<open>cards \<noteq> []\<close> by (cases cards; cases "hd cards") (auto simp: allSameRank_def list_all_iff list_ex_iff)
  with \<open>cards \<noteq> []\<close> show ?thesis using assms(2,3) by (auto simp: identifyCombo_def Let_def group_combo_def)
qed

lemma better_group_cases:
  "fst (better_group best cards) = fst best \<or>
   (\<exists>n. (n = 2 \<or> n = 3) \<and> fst (better_group best cards) = take n cards \<and> n \<le> length cards)"
proof (cases "length cards < 2")
  case False
  then have "min (length cards) 3 = 2 \<or> min (length cards) 3 = 3" "min (length cards) 3 \<le> length cards" by auto
  then show ?thesis by (auto simp: better_group_def Let_def)
qed (simp add: better_group_def Let_def)

lemma rolloutLead_facts:
  assumes "hand \<noteq> []"
  shows "rolloutLead hand \<noteq> []" "set (rolloutLead hand) \<subseteq> set hand" "identifyCombo (rolloutLead hand) \<noteq> None"
proof -
  let ?ok = "\<lambda>cards. cards \<noteq> [] \<and> set cards \<subseteq> set hand \<and> identifyCombo cards \<noteq> None"
  have g: "?ok (fst (foldl better_group best groups))"
    if "?ok (fst best)" "\<forall>cards\<in>set groups. \<exists>r. cards = filter (has_rank (Some r)) hand" for best groups
    using that
  proof (induction groups arbitrary: best)
    case (Cons cards groups)
    then obtain r where r: "cards = filter (has_rank (Some r)) hand" by auto
    have "?ok (fst (better_group best cards))"
      using better_group_cases[of best cards]
    proof
      assume "\<exists>n. (n = 2 \<or> n = 3) \<and> fst (better_group best cards) = take n cards \<and> n \<le> length cards"
      then obtain n where n: "n = 2 \<or> n = 3" "fst (better_group best cards) = take n cards" "n \<le> length cards" by blast
      with same_rank_combo[of "take n cards" n r hand] r show ?thesis by (auto dest: in_set_takeD)
    qed (use Cons.prems in simp)
    with Cons show ?case by simp
  qed simp
  have "\<forall>cards\<in>set (map snd (by_rank hand)). \<exists>r. cards = filter (has_rank (Some r)) hand"
    using by_rank_entry by fastforce
  with lowestSingle_mem[OF assms] identify_single have "?ok (rolloutLead hand)"
    unfolding rolloutLead_def Let_def by (intro g) simp_all
  then show "rolloutLead hand \<noteq> []" "set (rolloutLead hand) \<subseteq> set hand" "identifyCombo (rolloutLead hand) \<noteq> None"
    by simp_all
qed

lemma rolloutPlay_facts:
  assumes "rolloutPlay s t = Some cards" "sm_hands s ! t \<noteq> []"
  shows "set cards \<subseteq> set (sm_hands s ! t)" "sm_pile s = None \<Longrightarrow> identifyCombo cards \<noteq> None"
proof -
  let ?hand = "sm_hands s ! t"
  have single: "best' = Some c \<Longrightarrow> c \<in> set cs \<or> best = Some c"
    if "foldl (better_single pile) best cs = best'" for pile best best' c cs
    using that by (induction cs arbitrary: best) (auto simp: better_single_def split: if_splits)
  have match: "best' = Some b \<Longrightarrow> (\<exists>cs\<in>set groups. set (fst b) \<subseteq> set cs) \<or> best = Some b"
    if "foldl (better_match pile) best groups = best'" for pile best best' b groups
    using that
  proof (induction groups arbitrary: best)
    case (Cons cards groups)
    have "better_match pile best cards = Some b \<Longrightarrow> set (fst b) \<subseteq> set cards \<or> best = Some b"
      by (auto simp: better_match_def dest!: identify_cards[THEN conjunct1] in_set_takeD split: if_splits option.splits)
    with Cons show ?case by fastforce
  qed simp
  have gr: "set cs \<subseteq> set ?hand" if "cs \<in> set (map snd (by_rank ?hand))" for cs
    using that by_rank_entry by fastforce
  show "set cards \<subseteq> set ?hand"
  proof (cases "sm_pile s")
    case None
    with assms rolloutLead_facts[of ?hand] show ?thesis by (simp add: rolloutPlay_def)
  next
    case (Some pile)
    consider c where "foldl (better_single pile) None ?hand = Some c" "cards = [c]"
      | b where "foldl (better_match pile) None (map snd (by_rank ?hand)) = Some b" "cards = fst b"
      using assms(1) Some by (auto simp: rolloutPlay_def Let_def split: if_splits)
    then show ?thesis
    proof cases
      case (1 c)
      with single[OF refl 1(1)] show ?thesis by simp
    next
      case (2 b)
      with match[OF refl 2(1)] obtain cs where "cs \<in> set (map snd (by_rank ?hand))" "set (fst b) \<subseteq> set cs" by auto
      with gr 2(2) show ?thesis by blast
    qed
  qed
  show "sm_pile s = None \<Longrightarrow> identifyCombo cards \<noteq> None"
    using assms rolloutLead_facts[of ?hand] by (auto simp: rolloutPlay_def)
qed

lemma rolloutStep_cases:
  assumes "sim_inv s" "sm_turn s = Some t"
  obtains (pass) "rolloutStep s t = applyPass s t" "sm_pile s \<noteq> None"
  | (play) combo where "rolloutStep s t = applyPlay s t combo" "c_cards combo \<noteq> []"
      "set (c_cards combo) \<subseteq> set (sm_hands s ! t)"
proof -
  let ?hand = "sm_hands s ! t"
  have h: "?hand \<noteq> []" using assms by (auto simp: sim_inv_def sim_core_def)
  have ne: "identifyCombo cards = Some combo \<Longrightarrow> cards \<noteq> []" for cards combo by (auto simp: identifyCombo_def)
  consider "last_card_goes s ?hand" | "\<not> last_card_goes s ?hand" "sm_coop s" "sm_pile s \<noteq> None" "sm_owner s = Some ((t + 2) mod sm_n s)"
    | "\<not> last_card_goes s ?hand" "\<not> (sm_coop s \<and> sm_pile s \<noteq> None \<and> sm_owner s = Some ((t + 2) mod sm_n s))" by blast
  then show thesis
  proof cases
    case 1
    then obtain c where c: "?hand = [c]" by (auto simp: last_card_goes_def length_Suc_conv)
    then have "rolloutStep s t = applyPlay s t (the (identifyCombo [c]))" using 1 by (simp add: rolloutStep_def)
    with c identify_single show thesis by (intro play) auto
  next
    case 2
    then show thesis by (intro pass) (simp_all add: rolloutStep_def)
  next
    case 3
    then have r: "rolloutStep s t = (case rolloutPlay s t of None \<Rightarrow> applyPass s t
        | Some cards \<Rightarrow> (case identifyCombo cards of None \<Rightarrow> applyPass s t | Some combo \<Rightarrow> applyPlay s t combo))"
      unfolding rolloutStep_def Let_def by (simp only: if_False)
    have none: "rolloutPlay s t = None \<Longrightarrow> sm_pile s \<noteq> None"
      by (cases "sm_pile s") (simp_all add: rolloutPlay_def)
    show thesis
    proof (cases "rolloutPlay s t")
      case None
      with r none show thesis by (intro pass) simp_all
    next
      case (Some cards)
      note f = rolloutPlay_facts[OF Some h]
      show thesis
      proof (cases "identifyCombo cards")
        case None
        with Some r f(2) show thesis by (intro pass) auto
      next
        case (Some combo)
        with \<open>rolloutPlay s t = Some cards\<close> r f(1) identify_cards[OF Some] ne[OF Some] show thesis by (intro play) auto
      qed
    qed
  qed
qed

lemma rolloutStep_lowers:
  assumes "sim_inv s" "sm_turn s = Some t"
  shows "sim_inv (rolloutStep s t)" "sim_rank (rolloutStep s t) < sim_rank s" "sm_n (rolloutStep s t) = sm_n s"
    "k < sm_n s \<Longrightarrow> placed s k \<Longrightarrow> placed (rolloutStep s t) k"
proof -
  have "sim_inv (rolloutStep s t) \<and> sim_rank (rolloutStep s t) < sim_rank s \<and> sm_n (rolloutStep s t) = sm_n s \<and>
    (k < sm_n s \<longrightarrow> placed s k \<longrightarrow> placed (rolloutStep s t) k)"
  proof (cases rule: rolloutStep_cases[OF assms])
    case 1
    with applyPass_lowers[OF assms] show ?thesis by simp
  next
    case (2 combo)
    with applyPlay_lowers[OF assms 2(2,3)] show ?thesis by simp
  qed
  then show "sim_inv (rolloutStep s t)" "sim_rank (rolloutStep s t) < sim_rank s" "sm_n (rolloutStep s t) = sm_n s"
    "k < sm_n s \<Longrightarrow> placed s k \<Longrightarrow> placed (rolloutStep s t) k" by simp_all
qed

text \<open>A rollout given at least its rank in steps is over, and its result does not depend on the guard.\<close>

definition rollout_over :: "seat \<Rightarrow> seat option \<Rightarrow> sim \<Rightarrow> bool" where
  "rollout_over me partner s \<longleftrightarrow> sm_turn s = None \<or> teamDone me partner s"

lemma playout_ends:
  assumes "sim_inv s" "sim_rank s \<le> guard" "k < sm_n s" "placed s k"
  shows "rollout_over me partner (playout guard me partner s) \<and> sim_inv (playout guard me partner s) \<and>
    sm_n (playout guard me partner s) = sm_n s \<and> placed (playout guard me partner s) k"
  using assms
proof (induction guard arbitrary: s)
  case 0
  then show ?case by (auto simp: sim_rank_def rollout_over_def split: if_splits)
next
  case (Suc guard)
  show ?case
  proof (cases "rollout_over me partner s")
    case True
    then show ?thesis using Suc.prems by (auto simp: rollout_over_def split: option.split)
  next
    case False
    then obtain t where t: "sm_turn s = Some t" "\<not> teamDone me partner s" by (auto simp: rollout_over_def)
    note r = rolloutStep_lowers[OF Suc.prems(1) t(1)]
    from Suc.IH[OF r(1)] r Suc.prems t show ?thesis by simp
  qed
qed

end
