(* ===== verification/Bot_Decision.thy ===== *)
theory Bot_Decision
  imports Bot_Search
begin

text \<open>
  The decision of a bot (\<^verbatim>\<open>packages/server/src/bot/botDecision.ts\<close>, second half), the bookkeeping of
  bot rooms (\<^verbatim>\<open>realtime/botDriver.ts\<close>) and the view the gateway builds for a bot from the public
  snapshot of the match and the bot's own hand (\<^verbatim>\<open>driveBot\<close> in \<^verbatim>\<open>realtime/gateway.ts\<close>).

  Scores of leads contain halves and are rationals here; they are exact in doubles too.
\<close>

subsection \<open>Costs and scores\<close>

definition playCost :: "combo \<Rightarrow> int" where
  "playCost c = (if isTrump c then 1000 else 0) + base_cost c"

definition rankOf :: "card \<Rightarrow> rank option" where
  "rankOf c = (case c of Standard r s \<Rightarrow> Some r | Joker j \<Rightarrow> None)"

definition countRank :: "card list \<Rightarrow> rank \<Rightarrow> nat" where
  "countRank hand r = foldl (\<lambda>n c. if has_rank (Some r) c then n + 1 else n) 0 hand"

definition breaks_group :: "combo \<Rightarrow> card list \<Rightarrow> bool" where
  "breaks_group c hand =
     (c_type c = SingleC \<and> (case rankOf (hd (c_cards c)) of None \<Rightarrow> False | Some r \<Rightarrow> countRank hand r > 1))"

definition leadScore :: "combo \<Rightarrow> card list \<Rightarrow> rat" where
  "leadScore c hand =
     of_int (playCost c) - of_nat (length (c_cards c)) / 2 + (if isTrump c then 1000 else 0)
       + (if breaks_group c hand then 40 else 0)"

definition bestLead :: "combo list \<Rightarrow> card list \<Rightarrow> combo option" where
  "bestLead plays hand =
     (let opts = filter (\<lambda>c. \<not> isTrump c) plays
      in if opts = [] then None
         else Some (js_reduce (\<lambda>a b. if leadScore b hand < leadScore a hand then b else a) opts))"

definition unseenCards :: "card list \<Rightarrow> card list \<Rightarrow> card list" where
  "unseenCards hand seen = filter (\<lambda>c. cardId c \<notin> set (map cardId (hand @ seen))) buildDeck"

definition unloadScore :: "combo \<Rightarrow> card list \<Rightarrow> int" where
  "unloadScore c hand = int (length (c_cards c)) * 100 - playCost c - (if breaks_group c hand then 50 else 0)"

definition bestUnload :: "combo list \<Rightarrow> card list \<Rightarrow> combo" where
  "bestUnload plays hand =
     (let nonTrump = filter (\<lambda>c. \<not> isTrump c) plays;
          pool = (if nonTrump \<noteq> [] then nonTrump else plays)
      in js_reduce (\<lambda>a b. if unloadScore b hand > unloadScore a hand then b else a) pool)"

definition lockSingle :: "combo list \<Rightarrow> card list \<Rightarrow> card list \<Rightarrow> combo option" where
  "lockSingle plays hand seen =
     (let un = unseenCards hand seen;
          safe = filter (\<lambda>c. c_type c = SingleC \<and>
                   \<not> list_ex (\<lambda>u. singlePower u > singlePower (hd (c_cards c))) un) plays
      in if safe = [] then None
         else Some (js_reduce (\<lambda>a b. if singlePower (hd (c_cards a)) < singlePower (hd (c_cards b)) then a else b) safe))"

definition MEDIUM_BUDGET :: search_opts where
  "MEDIUM_BUDGET = \<lparr>so_sims = Some 36, so_maxCandidates = Some 14\<rparr>"

definition HARD_BUDGET :: search_opts where
  "HARD_BUDGET = \<lparr>so_sims = Some 64, so_maxCandidates = Some 16\<rparr>"

subsection \<open>Heuristics\<close>

definition cheapest_first :: "combo list \<Rightarrow> combo list" where
  "cheapest_first plays = sort_key playCost plays"

definition efficientHeuristic :: "bot_view \<Rightarrow> combo list \<Rightarrow> bool \<Rightarrow> bot_move" where
  "efficientHeuristic view plays canPass =
     (let sorted = cheapest_first plays;
          cheapestNonTrump = List.find (\<lambda>c. \<not> isTrump c) sorted
      in case bv_pile view of
           None \<Rightarrow> BotPlay (c_cards (case bestLead plays (bv_hand view) of Some c \<Rightarrow> c | None \<Rightarrow> hd sorted))
         | Some pile \<Rightarrow>
             (case cheapestNonTrump of
                Some c \<Rightarrow> BotPlay (c_cards c)
              | None \<Rightarrow> if canPass then BotPass else BotPlay (c_cards (hd sorted))))"

definition opponent_close :: "bot_view \<Rightarrow> bool" where
  "opponent_close view =
     (bv_opponentCounts view \<noteq> [] \<and> foldl min (hd (bv_opponentCounts view)) (tl (bv_opponentCounts view)) \<le> 2)"

definition plain_singles :: "combo list \<Rightarrow> combo list" where
  "plain_singles plays = filter (\<lambda>c. c_type c = SingleC \<and> \<not> isTrump c) plays"

definition endgame_lead :: "bot_view \<Rightarrow> combo list \<Rightarrow> combo" where
  "endgame_lead view plays =
     (if opponent_close view \<and> plain_singles plays \<noteq> []
      then js_reduce (\<lambda>a b. if playCost b > playCost a then b else a) (plain_singles plays)
      else case (case bv_seen view of
                   Some seen \<Rightarrow> if length (bv_hand view) \<le> 8 \<and> length (bv_hand view) > 1
                                then lockSingle plays (bv_hand view) seen else None
                 | None \<Rightarrow> None) of
             Some c \<Rightarrow> c
           | None \<Rightarrow> bestUnload plays (bv_hand view))"

definition endgameHeuristic :: "bot_view \<Rightarrow> combo list \<Rightarrow> bool \<Rightarrow> bot_move" where
  "endgameHeuristic view plays canPass =
     (let sorted = cheapest_first plays
      in case bv_pile view of
           None \<Rightarrow> BotPlay (c_cards (endgame_lead view plays))
         | Some pile \<Rightarrow>
             (case List.find (\<lambda>c. \<not> isTrump c) sorted of
                Some c \<Rightarrow> BotPlay (c_cards c)
              | None \<Rightarrow> if opponent_close view then BotPlay (c_cards (hd sorted))
                        else if canPass then BotPass else BotPlay (c_cards (hd sorted))))"

subsection \<open>Team play\<close>

definition next_opponent_near_out :: "seat \<Rightarrow> nat \<Rightarrow> nat list \<Rightarrow> seat \<Rightarrow> bool" where
  "next_opponent_near_out partner n counts me =
     (let nextSeat = (me + 1) mod n in nextSeat \<noteq> partner \<and> opt_nth (Some counts) nextSeat 99 \<le> 1)"

definition teamMove :: "bot_view \<Rightarrow> combo list \<Rightarrow> bool \<Rightarrow> bot_move option" where
  "teamMove view plays canPass =
     (case (bv_partnerSeat view, bv_handCounts view, bv_mySeat view, bv_numPlayers view) of
        (Some partner, Some counts, Some me, Some n) \<Rightarrow>
          (if bv_pile view \<noteq> None \<and> bv_pileOwner view = Some partner \<and> canPass then Some BotPass
           else if bv_pile view = None \<and> opt_nth (Some counts) partner 99 \<le> 1
                   \<and> \<not> next_opponent_near_out partner n counts me \<and> plain_singles plays \<noteq> []
           then Some (BotPlay (c_cards (js_reduce (\<lambda>a b. if playCost a < playCost b then a else b) (plain_singles plays))))
           else None)
      | _ \<Rightarrow> None)"

subsection \<open>The decision\<close>

definition searched_move ::
  "bot_view \<Rightarrow> bot_tier \<Rightarrow> ('g \<Rightarrow> rat \<times> 'g) \<Rightarrow> 'g \<Rightarrow> bot_move option \<times> 'g" where
  "searched_move view tier rng g =
     (if bv_mySeat view \<noteq> None \<and> bv_numPlayers view \<noteq> None
      then chooseBestMove view rng (if tier = HardBot then HARD_BUDGET else MEDIUM_BUDGET) g else (None, g))"

definition decideBotMove :: "bot_view \<Rightarrow> bot_tier \<Rightarrow> ('g \<Rightarrow> rat \<times> 'g) \<Rightarrow> 'g \<Rightarrow> bot_move \<times> 'g" where
  "decideBotMove view tier rng g =
     (let plays = enumerateLegalPlays (bv_hand view) (bv_pile view) (bv_mustInclude view);
          canPass = (bv_canPass view \<and> bv_pile view \<noteq> None)
      in if plays = [] then (BotPass, g)
         else case List.find (\<lambda>c. goes_out c (length (bv_hand view))) plays of
             Some c \<Rightarrow> (BotPlay (c_cards c), g)
           | None \<Rightarrow>
               (case teamMove view plays canPass of
                  Some mv \<Rightarrow> (mv, g)
                | None \<Rightarrow>
                    if tier = EasyBot then (efficientHeuristic view plays canPass, g)
                    else case searched_move view tier rng g of
                        (Some mv, g') \<Rightarrow> (mv, g')
                      | (None, g') \<Rightarrow> (endgameHeuristic view plays canPass, g')))"

subsection \<open>The bookkeeping of bot rooms\<close>

text \<open>Timers are left to the gateway; only the maps that a decision reads are kept.\<close>

record bot_driver =
  bd_tiers :: "string \<rightharpoonup> bot_tier"
  bd_seatTiers :: "string \<rightharpoonup> (seat \<rightharpoonup> bot_tier)"
  bd_seen :: "string \<rightharpoonup> card list"

definition setTier :: "string \<Rightarrow> bot_tier \<Rightarrow> bot_driver \<Rightarrow> bot_driver" where
  "setTier i t d = d\<lparr>bd_tiers := (bd_tiers d)(i \<mapsto> t)\<rparr>"

definition setSeatTier :: "string \<Rightarrow> seat \<Rightarrow> bot_tier \<Rightarrow> bot_driver \<Rightarrow> bot_driver" where
  "setSeatTier i k t d =
     (let m = (case bd_seatTiers d i of None \<Rightarrow> Map.empty | Some m \<Rightarrow> m)
      in d\<lparr>bd_seatTiers := (bd_seatTiers d)(i \<mapsto> m(k \<mapsto> t))\<rparr>)"

definition tier_of :: "string \<Rightarrow> seat option \<Rightarrow> bot_driver \<Rightarrow> bot_tier" where
  "tier_of i seat d =
     (case Option.bind seat (\<lambda>k. Option.bind (bd_seatTiers d i) (\<lambda>m. m k)) of
        Some t \<Rightarrow> t
      | None \<Rightarrow> (case bd_tiers d i of Some t \<Rightarrow> t | None \<Rightarrow> HardBot))"

definition hasTier :: "string \<Rightarrow> bot_driver \<Rightarrow> bool" where
  "hasTier i d = (bd_tiers d i \<noteq> None)"

definition seenCards :: "string \<Rightarrow> bot_driver \<Rightarrow> card list" where
  "seenCards i d = (case bd_seen d i of None \<Rightarrow> [] | Some l \<Rightarrow> l)"

definition appendSeen :: "string \<Rightarrow> card list \<Rightarrow> bot_driver \<Rightarrow> bot_driver" where
  "appendSeen i cards d = d\<lparr>bd_seen := (bd_seen d)(i \<mapsto> seenCards i d @ cards)\<rparr>"

definition resetSeen :: "string \<Rightarrow> bot_driver \<Rightarrow> bot_driver" where
  "resetSeen i d = d\<lparr>bd_seen := (bd_seen d)(i \<mapsto> [])\<rparr>"

definition bot_teardown :: "string \<Rightarrow> bot_driver \<Rightarrow> bot_driver" where
  "bot_teardown i d =
     d\<lparr>bd_tiers := (bd_tiers d)(i := None), bd_seatTiers := (bd_seatTiers d)(i := None), bd_seen := (bd_seen d)(i := None)\<rparr>"

subsection \<open>The view the gateway builds\<close>

definition must_include :: "card option \<Rightarrow> combo option \<Rightarrow> card list \<Rightarrow> card option" where
  "must_include opening pile hand =
     (case opening of
        Some (Standard r s) \<Rightarrow> if pile = None then List.find (\<lambda>c. c = Standard r s) hand else None
      | _ \<Rightarrow> None)"

definition partner_of :: "(seat list \<times> seat list) option \<Rightarrow> seat \<Rightarrow> seat option" where
  "partner_of teams seat =
     (case teams of
        None \<Rightarrow> None
      | Some ts \<Rightarrow>
          (case List.find (\<lambda>t. seat \<in> set t) [fst ts, snd ts] of
             None \<Rightarrow> None
           | Some t \<Rightarrow> List.find (\<lambda>s. s \<noteq> seat) t))"

definition drive_view ::
  "seat \<Rightarrow> game_snapshot \<Rightarrow> (seat list \<times> seat list) option \<Rightarrow> card list \<Rightarrow> card list \<Rightarrow> bot_view" where
  "drive_view seat snap teams seen hand =
     \<lparr>bv_hand = hand, bv_pile = gs_pile snap, bv_canPass = (gs_pile snap \<noteq> None),
      bv_opponentCounts = map snd (filter (\<lambda>p. fst p \<noteq> seat) (List.enumerate 0 (gs_handCounts snap))),
      bv_mustInclude = must_include (gs_openingCard snap) (gs_pile snap) hand, bv_seen = Some seen,
      bv_mySeat = Some seat, bv_numPlayers = Some (length (gs_handCounts snap)),
      bv_pileOwner = gs_pileOwner snap, bv_passed = Some (gs_passed snap), bv_active = Some (gs_active snap),
      bv_handCounts = Some (gs_handCounts snap), bv_finishingOrder = Some (gs_finishingOrder snap),
      bv_partnerSeat = partner_of teams seat\<rparr>"

definition switch_choice :: "card list \<Rightarrow> card option" where
  "switch_choice returnables =
     (if returnables = [] then None else Some (hd (sort_key singlePower returnables)))"

end
