(* ===== verification/Bot_Properties.thy ===== *)
theory Bot_Properties
  imports Bot_Decision
begin

text \<open>
  What the bots promise: every move is accepted by the game, the simulated game of the search follows
  the rules of the real one, and the guard on a rollout is never what ends it.
\<close>

subsection \<open>A bot chooses among the legal plays\<close>

lemma find_mem: "List.find P xs = Some x \<Longrightarrow> x \<in> set xs"
  by (auto simp: find_Some_iff)

text \<open>A move that plays a listed combo, or passes where passing is allowed.\<close>

definition offered :: "combo list \<Rightarrow> bool \<Rightarrow> bot_move \<Rightarrow> bool" where
  "offered plays canPass mv =
     (case mv of BotPlay cards \<Rightarrow> list_ex (\<lambda>c. c_cards c = cards) plays | BotPass \<Rightarrow> canPass)"

lemma offered_play: "c \<in> set plays \<Longrightarrow> offered plays canPass (BotPlay (c_cards c))"
  by (auto simp: offered_def list_ex_iff)

lemma reduce_pick: "opts \<noteq> [] \<Longrightarrow> js_reduce (\<lambda>a b. if P a b then b else a) opts \<in> set opts"
  by (rule js_reduce_mem) simp_all

lemma reduce_pick': "opts \<noteq> [] \<Longrightarrow> js_reduce (\<lambda>a b. if P a b then a else b) opts \<in> set opts"
  by (rule js_reduce_mem) simp_all

lemma cheapest_first_set: "set (cheapest_first plays) = set plays"
  by (simp add: cheapest_first_def)

lemma hd_cheapest: "plays \<noteq> [] \<Longrightarrow> hd (cheapest_first plays) \<in> set plays"
  using hd_in_set[of "cheapest_first plays"] by (simp add: cheapest_first_def set_empty[symmetric] del: set_empty)

lemma bestLead_mem: "bestLead plays hand = Some c \<Longrightarrow> c \<in> set plays"
  using reduce_pick[of "filter (\<lambda>c. \<not> isTrump c) plays" "\<lambda>a b. leadScore b hand < leadScore a hand"]
  by (auto simp: bestLead_def Let_def split: if_splits)

lemma bestUnload_mem: "plays \<noteq> [] \<Longrightarrow> bestUnload plays hand \<in> set plays"
proof -
  assume ne: "plays \<noteq> []"
  define pool where "pool = (let nt = filter (\<lambda>c. \<not> isTrump c) plays in if nt \<noteq> [] then nt else plays)"
  have "pool \<noteq> []" "set pool \<subseteq> set plays" using ne by (auto simp: pool_def Let_def)
  moreover have "bestUnload plays hand = js_reduce (\<lambda>a b. if unloadScore b hand > unloadScore a hand then b else a) pool"
    by (simp add: bestUnload_def pool_def Let_def)
  ultimately show ?thesis using reduce_pick[of pool "\<lambda>a b. unloadScore b hand > unloadScore a hand"] by auto
qed

lemma lockSingle_mem: "lockSingle plays hand seen = Some c \<Longrightarrow> c \<in> set plays"
  using reduce_pick'[of "filter (\<lambda>c. c_type c = SingleC \<and>
      \<not> list_ex (\<lambda>u. singlePower u > singlePower (hd (c_cards c))) (unseenCards hand seen)) plays"
      "\<lambda>a b. singlePower (hd (c_cards a)) < singlePower (hd (c_cards b))"]
  by (auto simp: lockSingle_def Let_def split: if_splits)

lemma plain_singles_pick:
  "plain_singles plays \<noteq> [] \<Longrightarrow> js_reduce (\<lambda>a b. if P a b then b else a) (plain_singles plays) \<in> set plays"
  "plain_singles plays \<noteq> [] \<Longrightarrow> js_reduce (\<lambda>a b. if P a b then a else b) (plain_singles plays) \<in> set plays"
  using reduce_pick[of "plain_singles plays" P] reduce_pick'[of "plain_singles plays" P] by (auto simp: plain_singles_def)

lemma efficient_offered: "plays \<noteq> [] \<Longrightarrow> offered plays canPass (efficientHeuristic view plays canPass)"
  by (auto simp: efficientHeuristic_def Let_def offered_def[of _ _ BotPass] cheapest_first_set
      intro!: offered_play dest: find_mem bestLead_mem intro: hd_cheapest split: option.split)

lemma endgame_lead_mem: "plays \<noteq> [] \<Longrightarrow> endgame_lead view plays \<in> set plays"
  by (auto simp: endgame_lead_def bestUnload_mem plain_singles_pick intro: lockSingle_mem split: option.split)

lemma endgame_offered: "plays \<noteq> [] \<Longrightarrow> offered plays canPass (endgameHeuristic view plays canPass)"
  by (auto simp: endgameHeuristic_def Let_def offered_def[of _ _ BotPass] cheapest_first_set
      intro!: offered_play hd_cheapest endgame_lead_mem dest: find_mem split: option.split)

lemma team_offered: "teamMove view plays canPass = Some mv \<Longrightarrow> offered plays canPass mv"
  by (auto simp: teamMove_def offered_def[of _ _ BotPass] intro!: offered_play plain_singles_pick split: option.splits if_splits)

lemma candidates_offered:
  assumes "cand \<in> set (candidates view m plays canPass)"
  shows "offered plays canPass (fst cand)"
  using assms by (auto simp: candidates_def offered_def[of _ _ BotPass] dest!: in_set_takeD intro!: offered_play split: if_splits)

lemma best_candidate_mem:
  assumes "fst (best_candidate view pool rng seat sims best cands g) = Some b"
  shows "fst b \<in> set cands \<or> best = Some b"
  using assms
proof (induction cands arbitrary: best g)
  case (Cons cand cands)
  obtain tot g' where s: "simulate view pool rng seat cand sims 0 g = (tot, g')" by fastforce
  from Cons.prems s show ?case
    by (auto simp: Let_def dest!: Cons.IH split: option.splits if_splits)
qed simp

lemma search_offered:
  assumes "fst (chooseBestMove view rng opts g) = Some mv"
  shows "offered (enumerateLegalPlays (bv_hand view) (bv_pile view) (bv_mustInclude view))
    (bv_canPass view \<and> bv_pile view \<noteq> None) mv"
proof -
  let ?plays = "rootPlays (bv_hand view) (bv_pile view) (bv_mustInclude view)"
  let ?cp = "bv_canPass view \<and> bv_pile view \<noteq> None"
  define m where "m = (case so_maxCandidates opts of None \<Rightarrow> MAX_CANDIDATES | Some m \<Rightarrow> m)"
  define k where "k = (case so_sims opts of None \<Rightarrow> SIMS_PER_MOVE | Some k \<Rightarrow> k)"
  let ?cands = "candidates view m ?plays ?cp"
  obtain me n where mn: "bv_mySeat view = Some me" "bv_numPlayers view = Some n"
    using assms by (auto simp: chooseBestMove_def split: option.splits)
  have e: "?plays = enumerateLegalPlays (bv_hand view) (bv_pile view) (bv_mustInclude view)"
    by (simp add: rootPlays_def enumerateLegalPlays_def)
  consider "?plays = []" | c where "List.find (\<lambda>c. goes_out c (length (bv_hand view))) ?plays = Some c"
    | "?plays \<noteq> []" "List.find (\<lambda>c. goes_out c (length (bv_hand view))) ?plays = None" by (cases "?plays = []") auto
  then have "offered ?plays ?cp mv"
  proof cases
    case 1
    with assms mn show ?thesis by (simp add: chooseBestMove_def offered_def split: if_splits)
  next
    case 2
    then have "?plays \<noteq> []" by auto
    with 2 assms mn find_mem[OF 2] show ?thesis by (auto simp: chooseBestMove_def Let_def offered_play)
  next
    case 3
    show ?thesis
    proof (cases "length ?cands = 1")
      case True
      then have "hd ?cands \<in> set ?cands" by (cases ?cands) simp_all
      moreover have "mv = fst (hd ?cands)"
        using True 3 assms mn by (simp add: chooseBestMove_def Let_def m_def[symmetric])
      ultimately show ?thesis using candidates_offered by simp
    next
      case False
      obtain best g' where b: "best_candidate view (unseen view) rng me k None ?cands g = (best, g')" by fastforce
      with False 3 assms mn obtain x where x: "best = Some x" "mv = fst (fst x)"
        by (auto simp: chooseBestMove_def Let_def m_def[symmetric] k_def[symmetric])
      with b best_candidate_mem[of view "unseen view" rng me k None ?cands g x] have "fst x \<in> set ?cands" by simp
      from candidates_offered[OF this] x(2) show ?thesis by simp
    qed
  qed
  then show ?thesis unfolding e .
qed

lemma decide_offered:
  fixes view :: bot_view
  defines "plays \<equiv> enumerateLegalPlays (bv_hand view) (bv_pile view) (bv_mustInclude view)"
  shows "plays \<noteq> [] \<Longrightarrow> offered plays (bv_canPass view \<and> bv_pile view \<noteq> None) (fst (decideBotMove view tier rng g))"
    and "plays = [] \<Longrightarrow> fst (decideBotMove view tier rng g) = BotPass"
proof -
  let ?cp = "bv_canPass view \<and> bv_pile view \<noteq> None"
  show "plays = [] \<Longrightarrow> fst (decideBotMove view tier rng g) = BotPass" by (simp add: decideBotMove_def plays_def)
  assume ne: "plays \<noteq> []"
  have s: "searched_move view tier rng g = (Some mv, g') \<Longrightarrow> offered plays ?cp mv" for mv g'
  proof -
    assume "searched_move view tier rng g = (Some mv, g')"
    then have "fst (chooseBestMove view rng (if tier = HardBot then HARD_BUDGET else MEDIUM_BUDGET) g) = Some mv"
      by (simp add: searched_move_def split: if_splits)
    from search_offered[OF this] show ?thesis unfolding plays_def .
  qed
  show "offered plays ?cp (fst (decideBotMove view tier rng g))"
    using ne find_mem[of _ plays] team_offered[of view plays ?cp] efficient_offered[OF ne, of ?cp view]
      endgame_offered[OF ne, of ?cp view] s
    by (auto simp: decideBotMove_def Let_def plays_def[symmetric] intro!: offered_play split: option.split prod.split)
qed

subsection \<open>Every move is accepted\<close>

text \<open>The fields of a game that a bot's view rests on, through a game.\<close>

definition opening_inv :: "card option \<Rightarrow> game \<Rightarrow> bool" where
  "opening_inv oc g \<longleftrightarrow> g_openingCard g = oc \<and> (g_pile g = None \<or> g_opened g) \<and> (\<forall>h\<in>set (g_hands g). distinct h)"

lemma place_holder_fields [simp]:
  "g_openingCard (foldl place_holder g xs) = g_openingCard g" "g_opened (foldl place_holder g xs) = g_opened g"
  "g_hands (foldl place_holder g xs) = g_hands g"
  by (induction xs arbitrary: g) (simp_all add: place_holder_def)

lemma opening_endGame: "opening_inv oc g \<Longrightarrow> opening_inv oc (fst (endGame g ev))"
  by (simp add: endGame_def opening_inv_def Let_def)

lemma opening_resolve: "opening_inv oc g \<Longrightarrow> opening_inv oc (fst (resolveTrick g ev))"
proof -
  assume "opening_inv oc g"
  then have "opening_inv oc (g\<lparr>g_pile := None, g_pileOwner := None, g_passed := [], g_turn := t\<rparr>)" for t
    by (simp add: opening_inv_def)
  from opening_endGame[OF this] this show ?thesis by (simp add: resolveTrick_def Let_def)
qed

lemma opening_turn [simp]:
  "opening_inv oc (g\<lparr>g_turn := t\<rparr>) = opening_inv oc g" "opening_inv oc (g\<lparr>g_passed := p\<rparr>) = opening_inv oc g"
  "opening_inv oc (g\<lparr>g_active := a\<rparr>) = opening_inv oc g" "opening_inv oc (g\<lparr>g_finishingOrder := ord\<rparr>) = opening_inv oc g"
  "opening_inv oc (g\<lparr>g_gone := q\<rparr>) = opening_inv oc g"
  by (simp_all add: opening_inv_def)

lemma opening_after: "opening_inv oc g \<Longrightarrow> opening_inv oc (fst (afterAction seat g ev))"
  by (simp add: afterAction_def opening_resolve)

lemma opening_commit: "opening_inv oc g \<Longrightarrow> opening_inv oc (commit_play seat cards combo g)"
proof (cases "seat < length (g_hands g)")
  case True
  assume "opening_inv oc g"
  with True show ?thesis
    by (auto simp: opening_inv_def commit_play_def removeCards_hand dest!: set_update_subset_insert[THEN subsetD])
qed (auto simp: opening_inv_def commit_play_def removeCards_hand list_update_beyond not_less)

lemma opening_play: "opening_inv oc g \<Longrightarrow> opening_inv oc (snd (game_play seat cards g))"
proof (cases rule: game_play_cases[of seat cards g])
  case (accepted combo g' ev)
  assume "opening_inv oc g"
  then have c: "opening_inv oc (commit_play seat cards combo g)" by (rule opening_commit)
  obtain ev1 where a: "after_play seat combo (commit_play seat cards combo g) =
    (if g_hands (commit_play seat cards combo g) ! seat = [] \<and> activeCount (emptied seat (commit_play seat cards combo g)) \<le> 1
     then endGame (emptied seat (commit_play seat cards combo g)) ev1
     else afterAction seat (emptied seat (commit_play seat cards combo g)) ev1)" by (rule after_play_emptied)
  have "opening_inv oc (emptied seat (commit_play seat cards combo g))" using c by (simp add: emptied_def)
  then have "opening_inv oc (fst (after_play seat combo (commit_play seat cards combo g)))"
    unfolding a by (simp add: opening_endGame opening_after)
  with accepted show ?thesis by simp
qed simp

lemma opening_pass: "opening_inv oc g \<Longrightarrow> opening_inv oc (snd (game_pass seat g))"
proof (cases rule: game_pass_cases[of seat g])
  case (accepted g' ev)
  assume "opening_inv oc g"
  then have "opening_inv oc (fst (afterAction seat (g\<lparr>g_passed := set_add seat (g_passed g)\<rparr>) [Passed seat]))"
    by (simp add: opening_after)
  with accepted show ?thesis by simp
qed simp

lemma opening_leave: "opening_inv oc g \<Longrightarrow> opening_inv oc (snd (game_forfeitSeat seat g))"
proof -
  assume o: "opening_inv oc g"
  have lt: "opening_inv oc h \<Longrightarrow> opening_inv oc (fst (leave_turn seat h))" for h
    by (simp add: leave_turn_def Let_def opening_endGame opening_resolve)
  show ?thesis
  proof (cases rule: game_forfeitSeat_cases[of g seat])
    case (leaves g3 ev)
    have "opening_inv oc (left_game seat g)" using o by (simp add: left_game_def)
    then have "opening_inv oc g3" using leaves(5) lt[of "left_game seat g"] by (auto split: if_splits)
    with leaves(6) show ?thesis using opening_endGame[of oc g3 ev] by (auto split: if_splits)
  qed (use o in simp_all)
qed

lemma opening_step: "opening_inv oc g \<Longrightarrow> opening_inv oc (game_step g op)"
proof (cases op)
  case (Act a)
  assume "opening_inv oc g"
  with Act show ?thesis by (cases a) (simp_all add: opening_play opening_pass)
qed (simp add: opening_leave)

interpretation opening_game: invariant_system game_step "opening_inv oc" for oc
  by unfold_locales (rule opening_step)

lemma legal_play_accepted:
  assumes "game_inv g" "\<not> isOver g" "g_turn g = Some seat" "legal_combo (g_hands g ! seat) (g_pile g) c"
    and "\<not> opening_missed (c_cards c) g"
  shows "ar_ok (fst (game_play seat (c_cards c) g))"
proof -
  have "handHasAll seat (c_cards c) g" using assms(4) by (simp add: handHasAll_iff legal_combo_def)
  moreover have "validatePlay (c_cards c) (g_pile g) = \<lparr>pc_ok = True, pc_combo = Some c, pc_code = None\<rparr>"
    using assms(4) by (auto simp: legal_combo_def validatePlay_def split: option.splits)
  ultimately show ?thesis
    using assms by (simp add: game_play_def isOver_def legal_combo_def Let_def case_prod_beta)
qed

lemma pass_accepted:
  assumes "\<not> isOver g" "g_turn g = Some seat" "g_pile g \<noteq> None"
  shows "ar_ok (fst (game_pass seat g))"
  using assms by (auto simp: game_pass_def isOver_def case_prod_beta)

lemma snapshot_fields [simp]:
  "gs_pile (game_snapshot_of g) = g_pile g" "gs_pileOwner (game_snapshot_of g) = g_pileOwner g"
  "gs_openingCard (game_snapshot_of g) = (if g_opened g then None else g_openingCard g)"
  "gs_handCounts (game_snapshot_of g) = map length (g_hands g)" "gs_active (game_snapshot_of g) = g_active g"
  "gs_passed (game_snapshot_of g) = sort (g_passed g)" "gs_finishingOrder (game_snapshot_of g) = g_finishingOrder g"
  by (simp_all add: game_snapshot_of_def)

lemma drive_view_fields [simp]:
  "bv_hand (drive_view seat snap teams seen hand) = hand"
  "bv_pile (drive_view seat snap teams seen hand) = gs_pile snap"
  "bv_canPass (drive_view seat snap teams seen hand) = (gs_pile snap \<noteq> None)"
  "bv_mustInclude (drive_view seat snap teams seen hand) = must_include (gs_openingCard snap) (gs_pile snap) hand"
  by (simp_all add: drive_view_def)

text \<open>What the seat to move needs for a legal move: it holds the opening card while that is owed.\<close>

definition can_open :: "game \<Rightarrow> seat \<Rightarrow> bool" where
  "can_open g seat \<longleftrightarrow>
     (case gs_openingCard (game_snapshot_of g) of None \<Rightarrow> True | Some c \<Rightarrow> c \<in> set (g_hands g ! seat))"

lemma find_same: "c \<in> set xs \<Longrightarrow> List.find (\<lambda>x. x = c) xs = Some c"
  by (induction xs) auto

lemma bot_move_accepted:
  assumes "game_inv g" "opening_inv oc g" "\<not> isOver g" "g_turn g = Some seat" "can_open g seat"
    and "case oc of Some c \<Rightarrow> \<not> is_joker c | None \<Rightarrow> True"
  shows "case fst (decideBotMove (drive_view seat (game_snapshot_of g) teams seen (handOf seat g)) tier rng gen) of
      BotPlay cards \<Rightarrow> ar_ok (fst (game_play seat cards g)) | BotPass \<Rightarrow> ar_ok (fst (game_pass seat g))"
proof -
  let ?view = "drive_view seat (game_snapshot_of g) teams seen (handOf seat g)"
  let ?plays = "enumerateLegalPlays (bv_hand ?view) (bv_pile ?view) (bv_mustInclude ?view)"
  have p: "g_status g = Playing" using assms(3) by (cases "g_status g") (simp_all add: isOver_def)
  with assms(1,4) have i: "core_inv g" "seat < g_numPlayers g" "g_active g ! seat"
    by (simp_all add: game_inv_def table_inv_def eligible_def)
  then have sl: "seat < length (g_hands g)" and hne: "g_hands g ! seat \<noteq> []" by (auto simp: core_inv_def)
  have hand: "handOf seat g = g_hands g ! seat" using sl by (simp add: handOf_def)
  have dh: "distinct (g_hands g ! seat)" using assms(2) sl by (simp add: opening_inv_def)
  have owed: "\<exists>c. must_include (gs_openingCard (game_snapshot_of g)) (g_pile g) (handOf seat g) = Some c \<and> g_openingCard g = Some c \<and> c \<in> set (g_hands g ! seat)"
    if "\<not> g_opened g" "g_openingCard g = Some c" for c
  proof -
    have "oc = Some c" "g_pile g = None" using assms(2) that by (auto simp: opening_inv_def)
    moreover from this(1) have "\<not> is_joker c" using assms(6) by simp
    moreover have "c \<in> set (g_hands g ! seat)" using assms(5) that by (simp add: can_open_def)
    moreover from this have "List.find (\<lambda>x. x = c) (g_hands g ! seat) = Some c" by (rule find_same)
    ultimately show ?thesis using that hand by (cases c) (simp_all add: must_include_def)
  qed
  have must: "m \<in> set (g_hands g ! seat)" if "bv_mustInclude ?view = Some m" for m
    using that hand by (auto simp: must_include_def split: option.splits card.splits if_splits dest: find_mem)
  show ?thesis
  proof (cases "?plays = []")
    case True
    have "g_pile g \<noteq> None"
    proof
      assume "g_pile g = None"
      then show False using enumerate_leading[of "handOf seat g" "bv_mustInclude ?view"] hne must True hand by simp
    qed
    then have "ar_ok (fst (game_pass seat g))" by (rule pass_accepted[OF assms(3,4)])
    then show ?thesis by (simp only: decide_offered(2)[OF True] bot_move.case)
  next
    case False
    from decide_offered(1)[OF False, of tier rng gen]
    have off: "offered ?plays (g_pile g \<noteq> None) (fst (decideBotMove ?view tier rng gen))" by simp
    show ?thesis
    proof (cases "fst (decideBotMove ?view tier rng gen)")
      case (BotPlay cards)
      with off obtain c where c: "c \<in> set ?plays" "c_cards c = cards" by (auto simp: offered_def list_ex_iff)
      have dv: "distinct (bv_hand ?view)" using dh hand by simp
      have "legal_combo (g_hands g ! seat) (g_pile g) c" using enumerate_legal(1)[OF c(1) dv] hand by simp
      moreover have "\<not> opening_missed (c_cards c) g"
      proof (cases "g_opened g \<or> g_openingCard g = None")
        case False
        then obtain x where x: "g_openingCard g = Some x" "\<not> g_opened g" by auto
        from owed[OF x(2,1)] have m: "bv_mustInclude ?view = Some x" using x by auto
        have "x \<in> set (c_cards c)" by (rule enumerate_legal(2)[OF c(1) dv m])
        then show ?thesis using x by (auto simp: opening_missed_def list_ex_iff)
      qed (auto simp: opening_missed_def split: option.split)
      ultimately show ?thesis using legal_play_accepted[OF assms(1,3,4)] BotPlay c(2) by auto
    next
      case BotPass
      with off pass_accepted[OF assms(3,4)] show ?thesis by (simp add: offered_def)
    qed
  qed
qed


definition zero_rng :: "nat \<Rightarrow> rat \<times> nat" where
  "zero_rng n = (0, n)"


end
