(* ===== verification/Bot_Deal.thy ===== *)
theory Bot_Deal
  imports Bot_Playout Bot_Properties
begin

text \<open>
  Every rollout of the search (\<^verbatim>\<open>botSearch.ts\<close>) starts from a sound simulated game:
  the unseen cards are enough for every other hand, and the rollout from any candidate move ends
  before the guard.
\<close>

subsection \<open>Dealing the unseen cards\<close>

definition need :: "bot_view \<Rightarrow> seat \<Rightarrow> nat" where
  "need view k =
     (if Some k = bv_mySeat view \<or> \<not> opt_nth (bv_active view) k True then 0 else opt_nth (bv_handCounts view) k 0)"

lemma deal_seat_step:
  assumes "i + need view m \<le> length bag"
  obtains h where "deal_seat view bag (hands, i) m = (hands @ [h], i + need view m)"
    "length h = (if Some m = bv_mySeat view then length (bv_hand view) else need view m)"
    "Some m = bv_mySeat view \<longrightarrow> h = bv_hand view"
proof -
  consider "Some m = bv_mySeat view" | "Some m \<noteq> bv_mySeat view" "\<not> opt_nth (bv_active view) m True"
    | "Some m \<noteq> bv_mySeat view" "opt_nth (bv_active view) m True" by blast
  then show thesis
  proof cases
    case 1
    then show thesis by (intro that[of "bv_hand view"]) (simp_all add: deal_seat_def need_def)
  next
    case 2
    then show thesis by (intro that[of "[]"]) (simp_all add: deal_seat_def need_def)
  next
    case 3
    then have n: "need view m = opt_nth (bv_handCounts view) m 0" by (simp add: need_def)
    with 3 assms show thesis by (intro that[of "take (need view m) (drop i bag)"]) (simp_all add: deal_seat_def Let_def)
  qed
qed

lemma dealt_seats:
  assumes "sum_list (map (need view) [0..<m]) \<le> length bag"
  shows "length (fst (foldl (deal_seat view bag) ([], 0) [0..<m])) = m \<and>
    snd (foldl (deal_seat view bag) ([], 0) [0..<m]) = sum_list (map (need view) [0..<m]) \<and>
    (\<forall>k<m. length (fst (foldl (deal_seat view bag) ([], 0) [0..<m]) ! k) =
      (if Some k = bv_mySeat view then length (bv_hand view) else need view k) \<and>
      (Some k = bv_mySeat view \<longrightarrow> fst (foldl (deal_seat view bag) ([], 0) [0..<m]) ! k = bv_hand view))"
  using assms
proof (induction m)
  case (Suc m)
  obtain hands i where d: "foldl (deal_seat view bag) ([], 0) [0..<m] = (hands, i)" by fastforce
  with Suc have h: "length hands = m" "i = sum_list (map (need view) [0..<m])"
    "\<forall>k<m. length (hands ! k) = (if Some k = bv_mySeat view then length (bv_hand view) else need view k) \<and>
      (Some k = bv_mySeat view \<longrightarrow> hands ! k = bv_hand view)" by simp_all
  have b: "i + need view m \<le> length bag" using Suc.prems h(2) by simp
  obtain h' where h': "deal_seat view bag (hands, i) m = (hands @ [h'], i + need view m)"
    "length h' = (if Some m = bv_mySeat view then length (bv_hand view) else need view m)"
    "Some m = bv_mySeat view \<longrightarrow> h' = bv_hand view" by (rule deal_seat_step[OF b, of hands])
  have "foldl (deal_seat view bag) ([], 0) [0..<Suc m] = (hands @ [h'], i + need view m)" using d h'(1) by simp
  with h h'(2,3) show ?case by (auto simp: nth_append less_Suc_eq)
qed simp

text \<open>What a view needs for a sound deal: it is the view of a player in the game, and the cards not
  seen yet suffice for the other hands.\<close>

definition view_ok :: "bot_view \<Rightarrow> nat \<Rightarrow> seat \<Rightarrow> bool" where
  "view_ok view n me \<longleftrightarrow>
     bv_numPlayers view = Some n \<and> bv_mySeat view = Some me \<and> me < n \<and> bv_hand view \<noteq> [] \<and>
     (\<exists>act. bv_active view = Some act \<and> length act = n \<and> act ! me) \<and>
     (\<exists>counts. bv_handCounts view = Some counts \<and> length counts = n \<and>
        (\<forall>k<n. opt_nth (bv_active view) k True \<longrightarrow> 0 < counts ! k)) \<and>
     (\<forall>ps. bv_passed view = Some ps \<longrightarrow> me \<notin> set ps) \<and>
     (bv_pile view \<noteq> None \<longrightarrow> (\<exists>w<n. bv_pileOwner view = Some w)) \<and>
     sum_list (map (need view) [0..<n]) \<le> length (unseen view) \<and>
     length (bv_hand view) + length (unseen view) \<le> 54"

lemma determinize_ok:
  fixes g :: 'g
  assumes "view_ok view n me" "rng_ok rng"
  defines "s \<equiv> fst (determinize view (unseen view) rng g)"
  shows "sim_inv s" "sm_turn s = Some me" "sm_n s = n" "sm_hands s ! me = bv_hand view" "sm_pile s = bv_pile view"
    "sim_cards s \<le> 54" "placed s me"
proof -
  define bag where "bag = fst (shuffle (unseen view) rng g)"
  define hands where "hands = fst (foldl (deal_seat view bag) ([], 0) [0..<n])"
  from assms(1) obtain act counts where v: "bv_numPlayers view = Some n" "bv_mySeat view = Some me" "me < n" "bv_hand view \<noteq> []"
    "bv_active view = Some act" "length act = n" "act ! me" "bv_handCounts view = Some counts" "length counts = n"
    "\<forall>k<n. act ! k \<longrightarrow> 0 < counts ! k" "\<forall>ps. bv_passed view = Some ps \<longrightarrow> me \<notin> set ps"
    "bv_pile view \<noteq> None \<longrightarrow> (\<exists>w<n. bv_pileOwner view = Some w)"
    "sum_list (map (need view) [0..<n]) \<le> length (unseen view)" "length (bv_hand view) + length (unseen view) \<le> 54"
    by (auto simp: view_ok_def opt_nth_def)
  have s: "s = sim_of_deal view n hands"
    using v(1) by (simp add: s_def determinize_def hands_def bag_def Let_def case_prod_beta)
  have "length bag = length (unseen view)"
    unfolding bag_def using shuffle_mset[OF assms(2)] mset_eq_length by blast
  with v(13) dealt_seats[of view n bag] v(2) have h: "length hands = n"
    "\<And>k. k < n \<Longrightarrow> length (hands ! k) = (if k = me then length (bv_hand view) else need view k)" "hands ! me = bv_hand view"
    using v(3) by (auto simp: hands_def)
  have f: "sm_n s = n" "sm_hands s = hands" "sm_active s = act" "sm_turn s = Some me" "sm_pile s = bv_pile view"
    "sm_owner s = bv_pileOwner view" using v by (simp_all add: s sim_of_deal_def)
  have p: "length (sm_passed s) = n" "\<not> sm_passed s ! me"
    using v(3,11) boolFromSeats_nth[of "[]" n] boolFromSeats_nth[of _ n]
    by (auto simp: s sim_of_deal_def split: option.split)
  have ne: "hands ! k \<noteq> []" if "k < n" "act ! k" for k
  proof (cases "k = me")
    case False
    then have "0 < need view k" using that v by (simp add: need_def opt_nth_def)
    with h(2)[OF that(1)] False show ?thesis by auto
  qed (use h(3) v(4) in simp)
  show "sim_inv s" using f p ne v(3,7,12) h(1) v(6) by (auto simp: sim_inv_def sim_core_def)
  show "sm_turn s = Some me" "sm_n s = n" "sm_hands s ! me = bv_hand view" "sm_pile s = bv_pile view" "placed s me"
    using f h(3) v(7) by (simp_all add: placed_def)
  have "sum_list (map length hands) = sum_list (map (\<lambda>k. length (hands ! k)) [0..<n])"
    using arg_cong[OF map_nth[of hands], of "\<lambda>xs. sum_list (map length xs)"] h(1) by (simp add: comp_def)
  also have "\<dots> = sum_list (map (\<lambda>k. (if k = me then length (bv_hand view) else 0) + need view k) [0..<n])"
    using h(2) v(2) by (intro arg_cong[where f = sum_list] map_cong) (auto simp: need_def)
  also have "\<dots> = length (bv_hand view) + sum_list (map (need view) [0..<n])"
    using v(3) by (simp add: sum_list_addf sum_list_distinct_conv_sum_set)
  finally show "sim_cards s \<le> 54" using v(13,14) f(2) by (simp add: sim_cards_def)
qed

subsection \<open>The view of a running game\<close>

text \<open>The cards in play: no card is in two hands, or both in a hand and in the bot's memory of the
  cards already played.\<close>

definition fair_cards :: "game \<Rightarrow> card list \<Rightarrow> bool" where
  "fair_cards g seen \<longleftrightarrow>
     (\<forall>j<g_numPlayers g. distinct (g_hands g ! j) \<and> set (g_hands g ! j) \<inter> set seen = {} \<and>
        (\<forall>k<g_numPlayers g. j \<noteq> k \<longrightarrow> set (g_hands g ! j) \<inter> set (g_hands g ! k) = {}))"

lemma unseen_set: "set (unseen view) = - set (bv_hand view @ (case bv_seen view of None \<Rightarrow> [] | Some s \<Rightarrow> s))"
  by (auto simp: unseen_def buildDeck_all)

lemma unseen_count: "length (unseen view) = card (set (unseen view))"
proof -
  have "distinct (unseen view)" unfolding unseen_def by (rule distinct_filter[OF buildDeck_distinct])
  then show ?thesis by (rule distinct_card[symmetric])
qed

lemma drive_view_ok:
  assumes "game_inv g" "\<not> isOver g" "g_turn g = Some seat" "fair_cards g seen"
  shows "view_ok (drive_view seat (game_snapshot_of g) teams seen (handOf seat g)) (g_numPlayers g) seat"
proof -
  let ?n = "g_numPlayers g"
  let ?view = "drive_view seat (game_snapshot_of g) teams seen (handOf seat g)"
  have p: "g_status g = Playing" using assms(2) by (cases "g_status g") (simp_all add: isOver_def)
  with assms(1,3) have i: "core_inv g" "table_inv g" "seat < ?n" "g_active g ! seat" "seat \<notin> set (g_passed g)"
    by (simp_all add: game_inv_def table_inv_def eligible_def)
  then have l: "length (g_hands g) = ?n" "length (g_active g) = ?n" "\<And>k. k < ?n \<Longrightarrow> g_active g ! k \<Longrightarrow> g_hands g ! k \<noteq> []"
    by (auto simp: core_inv_def)
  have hand: "handOf seat g = g_hands g ! seat" using i(3) l(1) by (simp add: handOf_def)
  have owner: "g_pile g \<noteq> None \<Longrightarrow> \<exists>w<?n. g_pileOwner g = Some w"
    by (rule table_inv_pile[OF i(2) _ assms(3)]) auto
  have u: "set (unseen ?view) = - (set (g_hands g ! seat) \<union> set seen)"
    by (simp add: unseen_set hand drive_view_def)
  have fin: "finite A" for A :: "card set" by (rule finite_subset[of _ "set buildDeck"]) (auto simp: buildDeck_all)
  let ?K = "{k. k < ?n \<and> k \<noteq> seat \<and> g_active g ! k}"
  have nd: "need ?view k = (if k \<in> ?K then card (set (g_hands g ! k)) else 0)" if "k < ?n" for k
    using that assms(4) l by (auto simp: need_def drive_view_def opt_nth_def fair_cards_def distinct_card)
  have "sum_list (map (need ?view) [0..<?n]) = (\<Sum>k\<in>{..<?n}. need ?view k)"
    by (simp add: sum_list_distinct_conv_sum_set atLeast0LessThan)
  also have "\<dots> = (\<Sum>k\<in>?K. card (set (g_hands g ! k)))"
    using nd by (intro sum.mono_neutral_cong_right) auto
  also have "\<dots> = card (\<Union>k\<in>?K. set (g_hands g ! k))"
    using assms(4) by (intro card_UN_disjoint[symmetric]) (auto simp: fair_cards_def)
  also have "\<dots> \<le> card (set (unseen ?view))"
    unfolding u using assms(4) i(3) by (intro card_mono fin) (auto simp: fair_cards_def)
  finally have enough: "sum_list (map (need ?view) [0..<?n]) \<le> length (unseen ?view)" by (simp only: unseen_count)
  have "length (g_hands g ! seat) + length (unseen ?view) = card (set (g_hands g ! seat) \<union> set (unseen ?view))"
    using assms(4) i(3) u unfolding unseen_count by (subst card_Un_disjoint) (auto simp: fair_cards_def distinct_card)
  also have "\<dots> \<le> card (set buildDeck)" by (rule card_mono) (auto simp: buildDeck_all)
  also have "\<dots> = 54" by (simp only: distinct_card[OF buildDeck_distinct] buildDeck_length)
  finally have "length (g_hands g ! seat) + length (unseen ?view) \<le> 54" .
  with enough i l owner hand show ?thesis unfolding view_ok_def
    by (auto simp: drive_view_def opt_nth_def)
qed

subsection \<open>Rollouts end\<close>

lemma try_candidate_ok:
  assumes "sim_inv s" "sm_turn s = Some me" "sm_hands s ! me = bv_hand view" "sm_pile s = bv_pile view"
    and "distinct (bv_hand view)" "me < sm_n s" "placed s me"
    and "cand \<in> set (candidates view m (rootPlays (bv_hand view) (bv_pile view) (bv_mustInclude view))
           (bv_canPass view \<and> bv_pile view \<noteq> None))"
  shows "sim_inv (try_candidate cand me s)" "sim_rank (try_candidate cand me s) < sim_rank s"
    "sm_n (try_candidate cand me s) = sm_n s" "placed (try_candidate cand me s) me"
proof -
  consider c where "snd cand = Some c" "c \<in> set (rootPlays (bv_hand view) (bv_pile view) (bv_mustInclude view))"
    | "snd cand = None" "bv_pile view \<noteq> None"
    using assms(8) by (auto simp: candidates_def dest!: in_set_takeD split: if_splits)
  then have "sim_inv (try_candidate cand me s) \<and> sim_rank (try_candidate cand me s) < sim_rank s \<and>
    sm_n (try_candidate cand me s) = sm_n s \<and> placed (try_candidate cand me s) me"
  proof cases
    case (1 c)
    have "c \<in> set (enumerateLegalPlays (bv_hand view) (bv_pile view) (bv_mustInclude view))"
      using 1(2) by (simp add: rootPlays_def enumerateLegalPlays_def)
    from enumerate_legal(1)[OF this assms(5)] have "c_cards c \<noteq> []" "set (c_cards c) \<subseteq> set (sm_hands s ! me)"
      using assms(3) by (simp_all add: legal_combo_def)
    from applyPlay_lowers[OF assms(1,2) this] assms(6,7) 1(1) show ?thesis by (simp add: try_candidate_def)
  next
    case 2
    with applyPass_lowers[OF assms(1,2)] assms(4,6,7) show ?thesis by (simp add: try_candidate_def)
  qed
  then show "sim_inv (try_candidate cand me s)" "sim_rank (try_candidate cand me s) < sim_rank s"
    "sm_n (try_candidate cand me s) = sm_n s" "placed (try_candidate cand me s) me" by simp_all
qed

lemma over_has_place:
  assumes "rollout_over me partner s" "sim_inv s" "me < sm_n s" "placed s me"
  shows "me \<in> set (sm_order s)"
  using assms by (auto simp: rollout_over_def teamDone_def sim_inv_def placed_def)

text \<open>C31: the guard of a rollout is never what ends it. In every game of at most four players, for
  the bot to move, as long as no card is counted twice, every rollout the search makes for any
  candidate move, over any deal of the unseen cards, is over within \<^verbatim>\<open>PLAYOUT_GUARD\<close> steps: the
  simulated game has ended, or the bot's side has finished. The bot has a finishing place in it, so
  the score is its real place and never the default for a rollout that was cut off.\<close>

theorem rollouts_end:
  assumes "dealt n hands leader" "startGame n hands leader oc = Inr g0" "n \<le> 4"
    and "g = foldl game_step g0 ops" "\<not> isOver g" "g_turn g = Some seat" "fair_cards g seen" "rng_ok rng"
    and "view = drive_view seat (game_snapshot_of g) teams seen (handOf seat g)"
    and "cand \<in> set (candidates view m (rootPlays (bv_hand view) (bv_pile view) (bv_mustInclude view))
           (bv_canPass view \<and> bv_pile view \<noteq> None))"
    and "e = playout PLAYOUT_GUARD seat (bv_partnerSeat view)
           (try_candidate cand seat (fst (determinize view (unseen view) rng gen)))"
  shows "(sm_turn e = None \<or> teamDone seat (bv_partnerSeat view) e) \<and> seat \<in> set (sm_order e)"
proof -
  let ?s = "fst (determinize view (unseen view) rng gen)"
  have inv: "game_inv g" unfolding assms(4) by (rule fresh_game_reaches[OF assms(1,2)])
  have gn: "g_numPlayers g = n" unfolding assms(4) using run_numPlayers[OF assms(1,2)] by simp
  have v: "view_ok view n seat" unfolding assms(9) gn[symmetric] by (rule drive_view_ok[OF inv assms(5-7)])
  have seat: "seat < n" using v by (simp add: view_ok_def)
  note d = determinize_ok[OF v assms(8), of gen]
  have p: "g_status g = Playing" using assms(5) by (cases "g_status g") (simp_all add: isOver_def)
  have "seat < length (g_hands g)" using inv p seat gn by (simp add: game_inv_def core_inv_def)
  then have dist: "distinct (bv_hand view)" using assms(7,9) seat gn by (simp add: handOf_def fair_cards_def)
  note t = try_candidate_ok[OF d(1,2,4,5) dist _ d(7) assms(10), unfolded d(3), OF seat]
  have "sim_cards ?s * (n + 2) \<le> 54 * 6" using d(6) assms(3) by (intro mult_mono) simp_all
  then have "sim_rank ?s \<le> 330" using sim_rank_upper[of ?s] d(3) assms(3) by simp
  with t(2) have "sim_rank (try_candidate cand seat ?s) \<le> PLAYOUT_GUARD" by (simp add: PLAYOUT_GUARD_def)
  from playout_ends[OF t(1) this _ t(4), unfolded t(3), OF seat, where me = seat and partner = "bv_partnerSeat view"] assms(11)
  have over: "rollout_over seat (bv_partnerSeat view) e" "sim_inv e" "sm_n e = n" "placed e seat" by simp_all
  then have "seat \<in> set (sm_order e)" using over_has_place seat by simp
  with over(1) show ?thesis by (simp add: rollout_over_def)
qed

definition demo_view :: bot_view where
  "demo_view = drive_view 0 (game_snapshot_of demo_game) None [] (handOf 0 demo_game)"

definition demo_candidates :: "candidate list" where
  "demo_candidates = candidates demo_view MAX_CANDIDATES
     (rootPlays (bv_hand demo_view) (bv_pile demo_view) (bv_mustInclude demo_view))
     (bv_canPass demo_view \<and> bv_pile demo_view \<noteq> None)"

theorem rollouts_end_witness:
  "demo_candidates \<noteq> [] \<and>
   0 \<in> set (sm_order (playout PLAYOUT_GUARD 0 None
     (try_candidate (hd demo_candidates) 0 (fst (determinize demo_view (unseen demo_view) zero_rng 0)))))"
proof
  show c: "demo_candidates \<noteq> []" by code_simp
  have f: "fair_cards demo_game []"
    by (simp add: fair_cards_def demo_game_def fresh_game_def demo_hands_def All_less_Suc numeral_3_eq_3 nth_Cons split: nat.split)
  have o: "\<not> isOver demo_game" "g_turn demo_game = Some 0" by (simp_all add: demo_game_def fresh_game_def isOver_def)
  have r: "rng_ok zero_rng" by (simp add: rng_ok_def zero_rng_def)
  have p: "bv_partnerSeat demo_view = None" by (simp add: demo_view_def drive_view_def partner_of_def)
  from rollouts_end[OF demo_dealt demo_start _ _ o f r demo_view_def
      hd_in_set[OF c, unfolded demo_candidates_def] refl, of "[]" 0] p
  show "0 \<in> set (sm_order (playout PLAYOUT_GUARD 0 None
     (try_candidate (hd demo_candidates) 0 (fst (determinize demo_view (unseen demo_view) zero_rng 0)))))"
    by (simp add: demo_candidates_def)
qed

end
