(* ===== verification/Tables.thy ===== *)
theory Tables
  imports Room_Properties Money_Service
begin

text \<open>
  The tables of the socket gateway (\<^verbatim>\<open>packages/server/src/realtime/gateway.ts\<close>): how a room of
  the room manager and a match record of the money service are kept together from the ready check to
  the payment. Handlers run to their first \<^verbatim>\<open>await\<close>; what follows an \<^verbatim>\<open>await\<close> is a task of
  the state, which any later step may run. A call of the money service is one task, because the
  service serialises it by a lock and a transaction; the code after it is another.

  What is left out: messages and broadcasts, rate limits, the provably fair seeds (a dealer is given
  when the match starts), the turn timers themselves (a timeout is an operation that may come at any
  time, as the handler checks the turn itself), rooms of bots, tournaments and club wars.
\<close>

subsection \<open>State\<close>

datatype money_call =
  EscrowCall string match_type cents "match_player list"
| RefundCall string
| SettleCall string "seat list"
| SweepCall "string list"

datatype money_reply =
  EscrowReply "money_error + escrow_result"
| RefundReply "money_error + unit"
| SettleReply "money_error + settlement option"
| SweepReply "money_error + string list"

text \<open>What an \<^verbatim>\<open>await\<close> returns to: the begin of a match after its escrow, the unreadying after a
  refund, the emergency refund of a failed begin, and the ends of a match.\<close>

datatype awaiting =
  BeginCharged string string "match_player list"
| BeginAborted string
| BeginFailed string
| MatchVoided string
| MatchSettled string
| AdminVoided
| Swept

text \<open>\<open>Gate i mid k blocked\<close> waits for the real-money checks of seat \<open>k\<close>; \<open>Rating i\<close> for the
  ranked result of a finished match.\<close>

datatype task =
  Gate string string nat bool
| Await money_call awaiting
| Resume money_reply awaiting
| Rating string

record tables =
  tb_rooms :: room_manager
  tb_money :: money_store
  tb_countdowns :: "string list"
  tb_finalized :: "string list"
  tb_strikes :: "user_id \<Rightarrow> nat"
  tb_offers :: "(string \<times> user_id list) list"
  tb_tasks :: "task list"

definition push_task :: "task \<Rightarrow> tables \<Rightarrow> tables" where
  "push_task k t = t\<lparr>tb_tasks := tb_tasks t @ [k]\<rparr>"

text \<open>A call takes the lock of its match at once, and is turned away while another call holds it.\<close>

fun call_mid :: "money_call \<Rightarrow> string option" where
  "call_mid (EscrowCall mid ty stake players) = Some mid"
| "call_mid (RefundCall mid) = Some mid"
| "call_mid (SettleCall mid seats) = Some mid"
| "call_mid (SweepCall live) = None"

fun busy_reply :: "money_call \<Rightarrow> money_reply" where
  "busy_reply (EscrowCall mid ty stake players) =
     EscrowReply (Inr \<lparr>er_ok = False, er_potCents = potCents stake (length players), er_code = Some ''busy'',
       er_insufficientUserIds = []\<rparr>)"
| "busy_reply (RefundCall mid) = RefundReply (Inr ())"
| "busy_reply (SettleCall mid seats) = SettleReply (Inr None)"
| "busy_reply (SweepCall live) = SweepReply (Inr [])"

fun task_lock :: "task \<Rightarrow> string option" where
  "task_lock (Await call k) = call_mid call"
| "task_lock _ = None"

definition in_flight :: "task list \<Rightarrow> string list" where
  "in_flight ts = List.map_filter task_lock ts"

definition call_money :: "money_call \<Rightarrow> awaiting \<Rightarrow> tables \<Rightarrow> tables" where
  "call_money call k t =
     push_task (case call_mid call of
         Some mid \<Rightarrow> if mid \<in> set (in_flight (tb_tasks t)) then Resume (busy_reply call) k else Await call k
       | None \<Rightarrow> Await call k) t"

definition with_rooms :: "room_manager \<Rightarrow> tables \<Rightarrow> tables" where
  "with_rooms s t = t\<lparr>tb_rooms := s\<rparr>"

definition is_bot :: "user_id \<Rightarrow> bool" where
  "is_bot u = (take 4 u = ''bot:'')"

definition userAtSeat :: "string \<Rightarrow> seat \<Rightarrow> room_manager \<Rightarrow> user_id option" where
  "userAtSeat i k s =
     (case get_room i s of
        None \<Rightarrow> None | Some r \<Rightarrow> if k < length (rm_seats r) then se_userId (rm_seats r ! k) else None)"

text \<open>The seated people of a room, with their seats, as the escrow is told.\<close>

definition charged_players :: "room \<Rightarrow> match_player list" where
  "charged_players r =
     concat (map (\<lambda>p. case se_userId (snd p) of
                        None \<Rightarrow> []
                      | Some u \<Rightarrow> if is_bot u then [] else [\<lparr>mp_seat = fst p, mp_userId = u\<rparr>])
       (List.enumerate 0 (rm_seats r)))"

definition unready_all :: "string \<Rightarrow> room_manager \<Rightarrow> room_manager" where
  "unready_all i s =
     (case get_room i s of None \<Rightarrow> s | Some r \<Rightarrow> foldl (\<lambda>s u. snd (setReady u False s)) s (seated_users r))"

definition clearRoomStrikes :: "string \<Rightarrow> tables \<Rightarrow> tables" where
  "clearRoomStrikes i t =
     (case get_room i (tb_rooms t) of
        None \<Rightarrow> t
      | Some r \<Rightarrow> t\<lparr>tb_strikes := foldl (\<lambda>f u. f(u := 0)) (tb_strikes t) (seated_users r)\<rparr>)"

definition clear_gone :: "string \<Rightarrow> tables \<Rightarrow> tables" where
  "clear_gone i t = with_rooms (clearGoneSeats i (tb_rooms t)) t"

subsection \<open>Starting a match\<close>

definition clearCountdown :: "string \<Rightarrow> tables \<Rightarrow> tables" where
  "clearCountdown i t = t\<lparr>tb_countdowns := removeAll i (tb_countdowns t)\<rparr>"

definition maybeStartCountdown :: "string \<Rightarrow> tables \<Rightarrow> tables" where
  "maybeStartCountdown i t =
     (if \<not> allReady i (tb_rooms t) then clearCountdown i t
      else if i \<in> set (tb_countdowns t) then t
      else t\<lparr>tb_countdowns := tb_countdowns t @ [i]\<rparr>)"

text \<open>The catch block of \<^verbatim>\<open>beginMatch\<close>: an emergency refund, then nobody is ready.\<close>

definition unready_unless_playing :: "string \<Rightarrow> tables \<Rightarrow> tables" where
  "unready_unless_playing i t =
     (case get_room i (tb_rooms t) of
        None \<Rightarrow> t
      | Some r \<Rightarrow> if rm_status r \<noteq> RoomInMatch then with_rooms (unready_all i (tb_rooms t)) t else t)"

definition begin_failed :: "string \<Rightarrow> tables \<Rightarrow> tables" where
  "begin_failed i t =
     (case matchIdOf i (tb_rooms t) of
        None \<Rightarrow> unready_unless_playing i t
      | Some mid \<Rightarrow> call_money (RefundCall mid) (BeginFailed i) t)"

text \<open>From the escrow to the start: \<open>charged\<close> tells whether stakes were taken.\<close>

definition start_table :: "(nat \<Rightarrow> dealer) \<Rightarrow> dealer option \<Rightarrow> string \<Rightarrow> string \<Rightarrow> bool \<Rightarrow> tables \<Rightarrow> tables" where
  "start_table fac dlr i mid charged t =
     (case startMatch fac i dlr (tb_rooms t) of
        (Inl (RoomCode c), s) \<Rightarrow>
          if charged then call_money (RefundCall mid) (BeginAborted i) (with_rooms s t)
          else with_rooms (unready_all i s) t
      | (Inl (MatchThrew e), s) \<Rightarrow> begin_failed i (with_rooms s t)
      | (Inr _, s) \<Rightarrow> with_rooms s t)"

definition charge_table :: "(nat \<Rightarrow> dealer) \<Rightarrow> dealer option \<Rightarrow> string \<Rightarrow> string \<Rightarrow> tables \<Rightarrow> tables" where
  "charge_table fac dlr i mid t =
     (case get_room i (tb_rooms t) of
        None \<Rightarrow> t
      | Some r \<Rightarrow>
          if rm_practice r \<or> charged_players r = [] then start_table fac dlr i mid False t
          else call_money (EscrowCall mid (rm_type r) (rm_stakeCents r) (charged_players r))
                  (BeginCharged i mid (charged_players r)) t)"

text \<open>The loop over the seats: the next occupied seat from \<open>k\<close> on is checked.\<close>

definition next_gate :: "(nat \<Rightarrow> dealer) \<Rightarrow> dealer option \<Rightarrow> string \<Rightarrow> string \<Rightarrow> nat \<Rightarrow> bool \<Rightarrow> tables \<Rightarrow> tables" where
  "next_gate fac dlr i mid k blocked t =
     (case get_room i (tb_rooms t) of
        None \<Rightarrow> t
      | Some r \<Rightarrow>
          (case List.find (\<lambda>j. se_userId (rm_seats r ! j) \<noteq> None) [k..<length (rm_seats r)] of
             Some j \<Rightarrow> push_task (Gate i mid j blocked) t
           | None \<Rightarrow> if blocked then t else charge_table fac dlr i mid t))"

definition tryBeginMatch :: "(nat \<Rightarrow> dealer) \<Rightarrow> dealer option \<Rightarrow> string \<Rightarrow> tables \<Rightarrow> tables" where
  "tryBeginMatch fac dlr i t =
     (if \<not> allReady i (tb_rooms t) then t
      else case get_room i (tb_rooms t) of
        None \<Rightarrow> t
      | Some r \<Rightarrow>
          let t1 = (case rm_matchId r of
                      None \<Rightarrow> t | Some prev \<Rightarrow> t\<lparr>tb_finalized := set_delete prev (tb_finalized t)\<rparr>)
          in case assignMatchId i (tb_rooms t1) of
               (None, s) \<Rightarrow> with_rooms s t1
             | (Some mid, s) \<Rightarrow>
                 if rm_stakeCents r > 0 then next_gate fac dlr i mid 0 False (with_rooms s t1)
                 else charge_table fac dlr i mid (with_rooms s t1))"

definition countdown_fires :: "(nat \<Rightarrow> dealer) \<Rightarrow> dealer option \<Rightarrow> string \<Rightarrow> tables \<Rightarrow> tables" where
  "countdown_fires fac dlr i t =
     (if i \<in> set (tb_countdowns t) then tryBeginMatch fac dlr i (clearCountdown i t) else t)"

definition gate_verdict :: "(nat \<Rightarrow> dealer) \<Rightarrow> dealer option \<Rightarrow> string \<Rightarrow> string \<Rightarrow> nat \<Rightarrow> bool \<Rightarrow> bool \<Rightarrow> tables \<Rightarrow> tables" where
  "gate_verdict fac dlr i mid k blocked allowed t =
     (if allowed then next_gate fac dlr i mid (k + 1) blocked t
      else let t1 = (case userAtSeat i k (tb_rooms t) of
                       None \<Rightarrow> t | Some u \<Rightarrow> with_rooms (snd (setReady u False (tb_rooms t))) t)
        in next_gate fac dlr i mid (k + 1) True t1)"

text \<open>The roster is checked again after the escrow.\<close>

definition rosterIntact :: "string \<Rightarrow> match_player list \<Rightarrow> room_manager \<Rightarrow> bool" where
  "rosterIntact i players s =
     (let live = (case get_room i s of None \<Rightarrow> [] | Some r \<Rightarrow> charged_players r)
      in length live = length players \<and> list_all (\<lambda>p. p \<in> set live) players)"

definition after_escrow ::
  "(nat \<Rightarrow> dealer) \<Rightarrow> dealer option \<Rightarrow> string \<Rightarrow> string \<Rightarrow> match_player list \<Rightarrow> money_error + escrow_result \<Rightarrow> tables \<Rightarrow> tables" where
  "after_escrow fac dlr i mid players reply t =
     (case reply of
        Inl e \<Rightarrow> begin_failed i t
      | Inr res \<Rightarrow>
          if \<not> er_ok res
          then with_rooms (foldl (\<lambda>s u. snd (setReady u False s)) (tb_rooms t) (er_insufficientUserIds res)) t
          else if \<not> rosterIntact i players (tb_rooms t) \<or> \<not> allReady i (tb_rooms t)
          then call_money (RefundCall mid) (BeginAborted i) t
          else start_table fac dlr i mid True t)"

subsection \<open>Ending a match\<close>

definition FINALIZED_CAP :: nat where
  "FINALIZED_CAP = 10000"

definition claimFinalize :: "string \<Rightarrow> tables \<Rightarrow> bool \<times> tables" where
  "claimFinalize i t =
     (let key = (case matchIdOf i (tb_rooms t) of None \<Rightarrow> i | Some mid \<Rightarrow> mid)
      in if key \<in> set (tb_finalized t) then (False, t)
         else let fin = tb_finalized t @ [key];
                  fin' = (if length fin > FINALIZED_CAP then tl fin else fin)
           in (True, t\<lparr>tb_finalized := fin', tb_rooms := markFinished i (tb_rooms t)\<rparr>))"

definition settleAndEmitMatchEnd :: "string \<Rightarrow> seat list \<Rightarrow> tables \<Rightarrow> tables" where
  "settleAndEmitMatchEnd i winnerSeats t =
     (case claimFinalize i t of
        (False, t1) \<Rightarrow> t1
      | (True, t1) \<Rightarrow>
          let practice = (case get_room i (tb_rooms t1) of None \<Rightarrow> False | Some r \<Rightarrow> rm_practice r)
          in case matchIdOf i (tb_rooms t1) of
               None \<Rightarrow> if winnerSeats = [] then clear_gone i (clearRoomStrikes i t1) else push_task (Rating i) t1
             | Some mid \<Rightarrow>
                 if winnerSeats = [] then call_money (RefundCall mid) (MatchVoided i) t1
                 else if practice then push_task (Rating i) t1
                 else call_money (SettleCall mid winnerSeats) (MatchSettled i) t1)"

definition match_event_effect :: "string \<Rightarrow> tables \<Rightarrow> match_event \<Rightarrow> tables" where
  "match_event_effect i t ev =
     (case ev of MatchEnded side seats scores \<Rightarrow> settleAndEmitMatchEnd i seats t | _ \<Rightarrow> t)"

definition applyResult :: "string \<Rightarrow> match_result \<Rightarrow> tables \<Rightarrow> tables" where
  "applyResult i res t = foldl (match_event_effect i) t (mr_matchEvents res)"

text \<open>The tail of a settled match, after the ranked result: strikes and departed seats are cleared.\<close>

definition after_rating :: "string \<Rightarrow> tables \<Rightarrow> tables" where
  "after_rating i t = clear_gone i (clearRoomStrikes i t)"

definition after_settle :: "string \<Rightarrow> money_error + settlement option \<Rightarrow> tables \<Rightarrow> tables" where
  "after_settle i reply t =
     (case reply of
        Inr (Some st) \<Rightarrow> push_task (Rating i) t
      | _ \<Rightarrow> clear_gone i t)"

definition after_void :: "string \<Rightarrow> money_error + unit \<Rightarrow> tables \<Rightarrow> tables" where
  "after_void i reply t = (case reply of Inl e \<Rightarrow> clear_gone i t | Inr _ \<Rightarrow> clear_gone i (clearRoomStrikes i t))"

definition adminVoidMatch :: "string \<Rightarrow> tables \<Rightarrow> tables" where
  "adminVoidMatch i t =
     (case get_room i (tb_rooms t) of
        None \<Rightarrow> t
      | Some r \<Rightarrow>
          if rm_status r \<noteq> RoomInMatch then t
          else case claimFinalize i t of
            (False, t1) \<Rightarrow> t1
          | (True, t1) \<Rightarrow>
              let t2 = clearRoomStrikes i t1
              in case matchIdOf i (tb_rooms t2) of
                   None \<Rightarrow> t2 | Some mid \<Rightarrow> call_money (RefundCall mid) AdminVoided t2)"

subsection \<open>Leaving and timing out\<close>

text \<open>A forwarded action applies its result when it is accepted; \<^verbatim>\<open>afterAction\<close> also forgets the
  missed turns of the player.\<close>

definition apply_forwarded :: "room_action_result \<times> room_manager \<Rightarrow> tables \<Rightarrow> bool \<times> tables" where
  "apply_forwarded p t =
     (case p of
        (Inr (res, Some i), s) \<Rightarrow> if mr_ok res then (True, applyResult i res (with_rooms s t)) else (False, with_rooms s t)
      | (_, s) \<Rightarrow> (False, with_rooms s t))"

definition no_strikes :: "user_id \<Rightarrow> tables \<Rightarrow> tables" where
  "no_strikes u t = t\<lparr>tb_strikes := (tb_strikes t)(u := 0)\<rparr>"

definition onAction :: "user_id \<Rightarrow> (room_manager \<Rightarrow> room_action_result \<times> room_manager) \<Rightarrow> tables \<Rightarrow> tables" where
  "onAction u act t =
     (let p = act (tb_rooms t)
      in case p of
           (Inr (res, _), s) \<Rightarrow> if mr_ok res then snd (apply_forwarded p (no_strikes u t)) else with_rooms s t
         | (_, s) \<Rightarrow> with_rooms s t)"

definition forfeitMatch :: "string \<Rightarrow> seat \<Rightarrow> tables \<Rightarrow> tables" where
  "forfeitMatch i k t =
     (case get_room i (tb_rooms t) of
        None \<Rightarrow> t
      | Some r \<Rightarrow>
          if rm_match r = None \<or> rm_status r \<noteq> RoomInMatch then t
          else case userAtSeat i k (tb_rooms t) of
            None \<Rightarrow> t
          | Some u \<Rightarrow>
              let t1 = no_strikes u t
              in case room_forfeitSeat u (tb_rooms t1) of
                   (Inr (res, Some j), s) \<Rightarrow>
                     if mr_ok res then applyResult i res (with_rooms s t1) else with_rooms s t1
                 | (_, s) \<Rightarrow> with_rooms s t1)"

definition leaveAndNotify :: "user_id \<Rightarrow> string \<Rightarrow> tables \<Rightarrow> tables" where
  "leaveAndNotify u i t =
     (case leaveRoom u (tb_rooms t) of
        (res, s) \<Rightarrow> if lr_roomClosed res = Some True then clearCountdown i (with_rooms s t)
                     else maybeStartCountdown i (with_rooms s t))"

definition cancelRematch :: "string \<Rightarrow> tables \<Rightarrow> tables" where
  "cancelRematch i t = t\<lparr>tb_offers := AList.delete i (tb_offers t)\<rparr>"

text \<open>\<open>sock\<close> is the room the socket remembers (\<^verbatim>\<open>socket.data.roomId\<close>).\<close>

definition onLeave :: "user_id \<Rightarrow> string option \<Rightarrow> tables \<Rightarrow> tables" where
  "onLeave u sock t =
     (case sock of
        None \<Rightarrow> t
      | Some i \<Rightarrow>
          let t1 = cancelRematch i t; k = seatOf i u (tb_rooms t)
          in case get_room i (tb_rooms t) of
               Some r \<Rightarrow> if rm_status r = RoomInMatch \<and> k \<ge> 0 then forfeitMatch i (nat k) t1 else leaveAndNotify u i t1
             | None \<Rightarrow> leaveAndNotify u i t1)"

text \<open>The last socket of a user is gone; and the grace period after it has passed.\<close>

definition onDisconnect :: "user_id \<Rightarrow> tables \<Rightarrow> tables" where
  "onDisconnect u t =
     (case roomOf u (tb_rooms t) of
        None \<Rightarrow> t
      | Some r \<Rightarrow>
          if rm_status r = RoomInMatch then with_rooms (setConnected u False (tb_rooms t)) t
          else leaveAndNotify u (rm_id r) t)"

definition onAbandon :: "string \<Rightarrow> user_id \<Rightarrow> tables \<Rightarrow> tables" where
  "onAbandon i u t =
     (let k = seatOf i u (tb_rooms t) in if k < 0 then t else forfeitMatch i (nat k) t)"

definition IDLE_FORFEIT_STRIKES :: nat where
  "IDLE_FORFEIT_STRIKES = 3"

text \<open>The first single card, weakest first, that the game accepts.\<close>

fun first_accepted :: "user_id \<Rightarrow> card list \<Rightarrow> room_manager \<Rightarrow> (room_action_result \<times> room_manager) option" where
  "first_accepted u [] s = None"
| "first_accepted u (c # cs) s =
     (case room_play u [c] s of
        (Inr (res, i), s') \<Rightarrow> if mr_ok res then Some (Inr (res, i), s') else first_accepted u cs s'
      | p \<Rightarrow> Some p)"

definition opening_of :: "string \<Rightarrow> room_manager \<Rightarrow> card option" where
  "opening_of i s =
     (case get_room i s of
        None \<Rightarrow> None
      | Some r \<Rightarrow> (case rm_match r of
          None \<Rightarrow> None | Some (dl, m) \<Rightarrow> Option.bind (ms_game (match_snapshot_of m)) gs_openingCard))"

definition forcedLead :: "string \<Rightarrow> user_id \<Rightarrow> seat \<Rightarrow> room_manager \<Rightarrow> (room_action_result \<times> room_manager) option" where
  "forcedLead i u k s =
     (case room_handOf i k s of
        None \<Rightarrow> None
      | Some hand \<Rightarrow>
          let singles = sort_key singlePower hand
          in case opening_of i s of
               None \<Rightarrow> first_accepted u singles s
             | Some oc \<Rightarrow> first_accepted u (oc # singles) s)"

definition miss_turn :: "user_id \<Rightarrow> tables \<Rightarrow> nat \<times> tables" where
  "miss_turn u t =
     (let n = tb_strikes t u + 1
      in (n, t\<lparr>tb_strikes := (tb_strikes t)(u := (if n \<ge> IDLE_FORFEIT_STRIKES then 0 else n))\<rparr>))"

definition turn_game :: "string \<Rightarrow> room_manager \<Rightarrow> game_snapshot option" where
  "turn_game i s =
     (case get_room i s of
        None \<Rightarrow> None
      | Some r \<Rightarrow> (case rm_match r of
          None \<Rightarrow> None | Some (dl, m) \<Rightarrow> if rm_status r = RoomInMatch then ms_game (match_snapshot_of m) else None))"

definition onTurnTimeout :: "string \<Rightarrow> seat \<Rightarrow> tables \<Rightarrow> tables" where
  "onTurnTimeout i k t =
     (case turn_game i (tb_rooms t) of
        None \<Rightarrow> t
      | Some g \<Rightarrow>
          if gs_turn g \<noteq> Some k then t
          else case userAtSeat i k (tb_rooms t) of
            None \<Rightarrow> t
          | Some u \<Rightarrow>
              let (n, t1) = miss_turn u t
              in if n \<ge> IDLE_FORFEIT_STRIKES then forfeitMatch i k t1
                 else if gs_pile g = None
                 then (case forcedLead i u k (tb_rooms t1) of
                         None \<Rightarrow> t1 | Some p \<Rightarrow> snd (apply_forwarded p t1))
                 else snd (apply_forwarded (room_pass u (tb_rooms t1)) t1))"

definition onSwitchTimeout :: "string \<Rightarrow> seat \<Rightarrow> tables \<Rightarrow> tables" where
  "onSwitchTimeout i k t =
     (case get_room i (tb_rooms t) of
        None \<Rightarrow> t
      | Some r \<Rightarrow>
          (case rm_match r of
             None \<Rightarrow> t
           | Some (dl, m) \<Rightarrow>
               if rm_status r \<noteq> RoomInMatch \<or> map_option fst (ms_pendingSwitch (match_snapshot_of m)) \<noteq> Some k then t
               else case userAtSeat i k (tb_rooms t) of
                 None \<Rightarrow> t
               | Some u \<Rightarrow>
                   let (n, t1) = miss_turn u t
                   in if n \<ge> IDLE_FORFEIT_STRIKES then forfeitMatch i k t1
                      else case sort_key singlePower (eligibleReturnCardsForWinner m) of
                        [] \<Rightarrow> t1
                      | weakest # _ \<Rightarrow> snd (apply_forwarded (room_switchGive u weakest (tb_rooms t1)) t1)))"

subsection \<open>Rematch\<close>

definition rosterPresent :: "room \<Rightarrow> bool" where
  "rosterPresent r =
     list_all (\<lambda>x. case se_userId x of None \<Rightarrow> False | Some u \<Rightarrow> is_bot u \<or> se_connected x) (rm_seats r)"

definition onRematch :: "user_id \<Rightarrow> string option \<Rightarrow> tables \<Rightarrow> tables" where
  "onRematch u sock t =
     (case sock of
        None \<Rightarrow> t
      | Some i \<Rightarrow>
          (case get_room i (tb_rooms t) of
             None \<Rightarrow> t
           | Some r \<Rightarrow>
               if rm_status r \<noteq> RoomFinished \<or> rm_tournament r \<noteq> None \<or> seat_index u r = None \<or> \<not> rosterPresent r then t
               else
                 let offer = set_add u (case map_of (tb_offers t) i of
                       Some us \<Rightarrow> us | None \<Rightarrow> filter is_bot (seated_users r));
                     t1 = t\<lparr>tb_offers := AList.update i offer (tb_offers t)\<rparr>
                 in if \<not> list_all (\<lambda>v. v \<in> set offer) (seated_users r) then t1
                    else let t2 = cancelRematch i t1
                      in case resetForRematch i (tb_rooms t2) of
                           (False, s) \<Rightarrow> with_rooms s t2
                         | (True, s) \<Rightarrow>
                             maybeStartCountdown i
                               (with_rooms (foldl (\<lambda>s v. snd (setReady v True s)) s (seated_users r)) t2)))"

subsection \<open>Rooms and readiness\<close>

definition onCreate :: "(nat \<Rightarrow> nat \<Rightarrow> nat) \<Rightarrow> acting_user \<Rightarrow> create_payload \<Rightarrow> int \<Rightarrow> tables \<Rightarrow> tables" where
  "onCreate rnd user p now t = with_rooms (snd (createRoom rnd user p now (tb_rooms t))) t"

definition onJoin :: "acting_user \<Rightarrow> string \<Rightarrow> nat option \<Rightarrow> tables \<Rightarrow> tables" where
  "onJoin user i team t =
     (case joinRoom user i team (tb_rooms t) of
        (Inl code, s) \<Rightarrow> with_rooms s t
      | (Inr _, s) \<Rightarrow>
          let s1 = (if tournamentMetaOf i s \<noteq> None then snd (setReady (ac_userId user) True s) else s)
          in maybeStartCountdown i (with_rooms s1 t))"

definition onJoinByCode :: "acting_user \<Rightarrow> string \<Rightarrow> tables \<Rightarrow> tables" where
  "onJoinByCode user code t =
     (case roomIdForCode code (tb_rooms t) of
        None \<Rightarrow> t
      | Some i \<Rightarrow>
          (case joinRoom user i None (markInvited i (ac_userId user) (tb_rooms t)) of
             (Inl c, s) \<Rightarrow> with_rooms s t
           | (Inr _, s) \<Rightarrow> maybeStartCountdown i (with_rooms s t)))"

definition onReady :: "user_id \<Rightarrow> string option \<Rightarrow> bool \<Rightarrow> tables \<Rightarrow> tables" where
  "onReady u sock ready t =
     (case setReady u ready (tb_rooms t) of
        (Inl code, s) \<Rightarrow> with_rooms s t
      | (Inr _, s) \<Rightarrow> (case sock of None \<Rightarrow> with_rooms s t | Some i \<Rightarrow> maybeStartCountdown i (with_rooms s t)))"

definition onSwitchTeam :: "user_id \<Rightarrow> string option \<Rightarrow> nat \<Rightarrow> tables \<Rightarrow> tables" where
  "onSwitchTeam u sock team t =
     (if team \<noteq> 0 \<and> team \<noteq> 1 then t
      else case switchTeam u team (tb_rooms t) of
        (Inl code, s) \<Rightarrow> with_rooms s t
      | (Inr _, s) \<Rightarrow> (case sock of None \<Rightarrow> with_rooms s t | Some i \<Rightarrow> maybeStartCountdown i (with_rooms s t)))"

definition onConnection :: "user_id \<Rightarrow> tables \<Rightarrow> tables" where
  "onConnection u t =
     (case roomOf u (tb_rooms t) of None \<Rightarrow> t | Some r \<Rightarrow> with_rooms (setConnected u True (tb_rooms t)) t)"

subsection \<open>Tasks\<close>

text \<open>\<open>locked\<close>: the matches other calls hold, which a sweep leaves alone.\<close>

definition run_call :: "string set \<Rightarrow> int \<Rightarrow> int \<Rightarrow> money_call \<Rightarrow> money_store \<Rightarrow> money_reply \<times> money_store" where
  "run_call locked rake now call s =
     (case call of
        EscrowCall mid ty stake players \<Rightarrow>
          map_prod EscrowReply id (escrow (tx_wallet rollback) (Some rollback) {} mid ty stake rake players now s)
      | RefundCall mid \<Rightarrow> map_prod RefundReply id (refund (tx_wallet rollback) (Some rollback) {} mid now s)
      | SettleCall mid seats \<Rightarrow> map_prod SettleReply id (settle (tx_wallet rollback) (Some rollback) {} mid seats now s)
      | SweepCall live \<Rightarrow>
          map_prod SweepReply id (recoverOrphanedMatches (tx_wallet rollback) (Some rollback) locked (set live) now s))"

definition resume :: "(nat \<Rightarrow> dealer) \<Rightarrow> dealer option \<Rightarrow> money_reply \<Rightarrow> awaiting \<Rightarrow> tables \<Rightarrow> tables" where
  "resume fac dlr reply k t =
     (case (k, reply) of
        (BeginCharged i mid players, EscrowReply res) \<Rightarrow> after_escrow fac dlr i mid players res t
      | (BeginAborted i, RefundReply (Inl e)) \<Rightarrow> begin_failed i t
      | (BeginAborted i, RefundReply (Inr _)) \<Rightarrow> with_rooms (unready_all i (tb_rooms t)) t
      | (BeginFailed i, RefundReply _) \<Rightarrow> unready_unless_playing i t
      | (MatchVoided i, RefundReply res) \<Rightarrow> after_void i res t
      | (MatchSettled i, SettleReply res) \<Rightarrow> after_settle i res t
      | _ \<Rightarrow> t)"

text \<open>Task \<open>n\<close> runs: a call is carried out and its continuation waits, everything else is done.\<close>

definition run_task :: "(nat \<Rightarrow> dealer) \<Rightarrow> int \<Rightarrow> dealer option \<Rightarrow> bool \<Rightarrow> int \<Rightarrow> nat \<Rightarrow> tables \<Rightarrow> tables" where
  "run_task fac rake dlr allowed now n t =
     (if n < length (tb_tasks t) then
        let t1 = t\<lparr>tb_tasks := remove_nth n (tb_tasks t)\<rparr>
        in case tb_tasks t ! n of
             Gate i mid k blocked \<Rightarrow> gate_verdict fac dlr i mid k blocked allowed t1
           | Await call k \<Rightarrow>
               (case run_call (set (in_flight (tb_tasks t1))) rake now call (tb_money t) of
                  (reply, s) \<Rightarrow> push_task (Resume reply k) (t1\<lparr>tb_money := s\<rparr>))
           | Resume reply k \<Rightarrow> resume fac dlr reply k t1
           | Rating i \<Rightarrow> after_rating i t1
      else t)"

definition sweep_starts :: "tables \<Rightarrow> tables" where
  "sweep_starts t = call_money (SweepCall (activeMatchIds (tb_rooms t))) Swept t"

subsection \<open>Histories\<close>

datatype table_op =
  TCreate "nat \<Rightarrow> nat \<Rightarrow> nat" acting_user create_payload int
| TJoin acting_user string "nat option"
| TJoinByCode acting_user string
| TReady user_id "string option" bool
| TSwitchTeam user_id "string option" nat
| TLeave user_id "string option"
| TDisconnect user_id
| TConnect user_id
| TAbandon string user_id
| TRematch user_id "string option"
| TOfferLapses string
| TCountdown string "dealer option"
| TPlay user_id "card list"
| TPass user_id
| TSwitch user_id card
| TTurnTimeout string seat
| TSwitchTimeout string seat
| TVoid string
| TSweep
| TTask nat bool "dealer option" int
| TWallet wallet_op int

fun table_apply :: "(nat \<Rightarrow> dealer) \<Rightarrow> int \<Rightarrow> tables \<Rightarrow> table_op \<Rightarrow> tables" where
  "table_apply fac rake t (TCreate rnd user p now) = onCreate rnd user p now t"
| "table_apply fac rake t (TJoin user i team) = onJoin user i team t"
| "table_apply fac rake t (TJoinByCode user code) = onJoinByCode user code t"
| "table_apply fac rake t (TReady u sock b) = onReady u sock b t"
| "table_apply fac rake t (TSwitchTeam u sock team) = onSwitchTeam u sock team t"
| "table_apply fac rake t (TLeave u sock) = onLeave u sock t"
| "table_apply fac rake t (TDisconnect u) = onDisconnect u t"
| "table_apply fac rake t (TConnect u) = onConnection u t"
| "table_apply fac rake t (TAbandon i u) = onAbandon i u t"
| "table_apply fac rake t (TRematch u sock) = onRematch u sock t"
| "table_apply fac rake t (TOfferLapses i) = cancelRematch i t"
| "table_apply fac rake t (TCountdown i dlr) = countdown_fires fac dlr i t"
| "table_apply fac rake t (TPlay u cards) = onAction u (room_play u cards) t"
| "table_apply fac rake t (TPass u) = onAction u (room_pass u) t"
| "table_apply fac rake t (TSwitch u c) = onAction u (room_switchGive u c) t"
| "table_apply fac rake t (TTurnTimeout i k) = onTurnTimeout i k t"
| "table_apply fac rake t (TSwitchTimeout i k) = onSwitchTimeout i k t"
| "table_apply fac rake t (TVoid i) = adminVoidMatch i t"
| "table_apply fac rake t TSweep = sweep_starts t"
| "table_apply fac rake t (TTask n allowed dlr now) = run_task fac rake dlr allowed now n t"
| "table_apply fac rake t (TWallet op now) = t\<lparr>tb_money := wallet_step rollback (tb_money t) (op, now)\<rparr>"

definition new_tables :: "int \<Rightarrow> string \<Rightarrow> money_store \<Rightarrow> tables" where
  "new_tables target tag s =
     \<lparr>tb_rooms = new_manager target tag, tb_money = s, tb_countdowns = [], tb_finalized = [], tb_strikes = (\<lambda>u. 0),
      tb_offers = [], tb_tasks = []\<rparr>"

end
