(* ===== verification/Table_Frames.thy ===== *)
theory Table_Frames
  imports Tables
begin

text \<open>
  What the operations of the room manager leave alone, as the tables need it: no operation but the
  start of a match puts a room in a match, the roster of a room in a match stays, the id of a match,
  its stake and its type never change, and rooms are numbered upwards. And who wins a match: distinct
  seats of its own.
\<close>

subsection \<open>The winners of a match\<close>

definition end_ok :: "nat \<Rightarrow> match_event \<Rightarrow> bool" where
  "end_ok n ev = (case ev of MatchEnded side seats scores \<Rightarrow> distinct seats \<and> set seats \<subseteq> {..<n} | _ \<Rightarrow> True)"

lemma end_ok_simps [simp]:
  "end_ok n (GameStarted a b)" "end_ok n (GameScored a c d e f)" "end_ok n (TargetExtended g)"
  "end_ok n (CardSwitchAuto h i j)" "end_ok n (AwaitingSwitchEvent h i)" "end_ok n (CardSwitchReturn h i k)"
  "end_ok n (NoSwap h i)" "end_ok n (MatchEnded g seats d) \<longleftrightarrow> distinct seats \<and> set seats \<subseteq> {..<n}"
  by (simp_all add: end_ok_def)

lemma begin_event: "beginPendingGame l m = (Inr e, m') \<Longrightarrow> end_ok n e"
  by (auto simp: beginPendingGame_def Let_def split: option.splits sum.splits)

lemma prepare_events: "prepareNextGame dl ord m = (Inr es, m') \<Longrightarrow> list_all (end_ok n) es"
  by (auto simp: prepareNextGame_def switch_cards_def bind_act_def return_act_def Let_def begin_event
      split: prod.splits sum.splits if_splits)

lemma seatsOfSide_distinct: "base_inv m \<Longrightarrow> distinct (seatsOfSide side m)"
  by (auto simp: seatsOfSide_def base_inv_def teams_ok_def)

lemma base_inv_scored:
  "base_inv m \<Longrightarrow> base_inv (m\<lparr>m_lastFinishingOrder := o1, m_cumulative := add_points (m_cumulative m) pts\<rparr>)"
  by (auto simp: base_inv_def)

lemma end_events:
  assumes "base_inv m" "onGameEnd dl m = (Inr es, m')"
  shows "list_all (end_ok (m_numPlayers m)) es"
proof -
  obtain g pts where g: "m_game m = Some g" and pts: "gamePoints (m_type m) (g_finishingOrder g) = Inr pts"
    using assms(2) by (auto simp: onGameEnd_def Let_def split: option.splits sum.splits)
  define m2 where "m2 = m\<lparr>m_lastFinishingOrder := Some (g_finishingOrder g), m_cumulative := add_points (m_cumulative m) pts\<rparr>"
  have b: "base_inv m2" unfolding m2_def by (rule base_inv_scored[OF assms(1)])
  have n: "m_numPlayers m2 = m_numPlayers m" by (simp add: m2_def)
  have w: "distinct (present m2 (seatsOfSide side m2)) \<and> set (present m2 (seatsOfSide side m2)) \<subseteq> {..<m_numPlayers m}"
    if "ev_over (evaluateMatch (sideScores m2) (m_target m2))"
      "ev_winnerSide (evaluateMatch (sideScores m2) (m_target m2)) = Some side" for side
    using winner_side_bound[OF b that(2,1)] seatsOfSide_distinct[OF b] n by (auto simp: present_def)
  show ?thesis using assms(2) g pts w
    by (auto simp: onGameEnd_def Let_def bind_act_def return_act_def prepare_events simp flip: m2_def
        split: prod.splits sum.splits if_splits bool.splits option.splits)
qed

lemma relay_events:
  assumes "base_inv m" "relay dl rg m = (Inr res, m')"
  shows "list_all (end_ok (m_numPlayers m)) (mr_matchEvents res)"
proof -
  let ?m = "m\<lparr>m_game := Some (snd rg)\<rparr>"
  have "base_inv ?m" using assms(1) by simp
  from end_events[OF this] have e: "onGameEnd dl ?m = (Inr es, m'') \<Longrightarrow> list_all (end_ok (m_numPlayers m)) es" for es m''
    by simp
  show ?thesis using assms(2)
    by (auto simp: relay_def Let_def bind_act_def return_act_def match_ok_def match_fail_def e
        split: prod.splits sum.splits if_splits)
qed

lemma match_fail_events [simp]: "mr_matchEvents (match_fail c) = []" "mr_matchEvents (match_ok ge es) = es"
  by (simp_all add: match_fail_def match_ok_def)

lemma forfeit_end_events:
  assumes "base_inv m" "endByForfeit (remainingSeats m) m = (es, m')"
  shows "list_all (end_ok (m_numPlayers m)) es"
proof -
  have "distinct (present m (fst (m_teams m))) \<and> set (present m (fst (m_teams m))) \<subseteq> {..<m_numPlayers m} \<and>
      distinct (present m (snd (m_teams m))) \<and> set (present m (snd (m_teams m))) \<subseteq> {..<m_numPlayers m}"
    if "m_type m = TwoVTwo"
    using assms(1) that by (auto simp: present_def base_inv_def teams_ok_def playersForType_def)
  moreover have "hd (remainingSeats m) < m_numPlayers m" if "length (remainingSeats m) = 1"
  proof -
    have "hd (remainingSeats m) \<in> set (remainingSeats m)" using that by (cases "remainingSeats m") auto
    then show ?thesis by (simp add: remainingSeats_def)
  qed
  ultimately show ?thesis using assms(2)
    by (auto simp: endByForfeit_def Let_def split: if_splits)
qed

lemma switch_forfeit_events: "onSwitchForfeit seat m = (Inr es, m') \<Longrightarrow> list_all (end_ok n) es"
  by (auto simp: onSwitchForfeit_def bind_act_def return_act_def Let_def begin_event
      split: prod.splits sum.splits if_splits option.splits)

lemma match_events:
  assumes "match_inv m" "match_apply dl op m = (Inr res, m')"
  shows "list_all (end_ok (m_numPlayers m)) (mr_matchEvents res)"
proof -
  have b: "base_inv m" using assms(1) by (simp add: match_inv_def)
  show ?thesis
  proof (cases op)
    case (MPlay seat cards)
    with assms(2) relay_events[OF b] show ?thesis by (auto simp: match_play_def split: match_phase.splits option.splits)
  next
    case (MPass seat)
    with assms(2) relay_events[OF b] show ?thesis by (auto simp: match_pass_def split: match_phase.splits option.splits)
  next
    case (MSwitch seat c)
    with assms(2) show ?thesis
      by (auto simp: match_switchGive_def Let_def bind_act_def return_act_def begin_event
          split: match_phase.splits option.splits if_splits prod.splits sum.splits)
  next
    case (MForfeit seat)
    let ?m = "m\<lparr>m_goneSeats := set_add seat (m_goneSeats m)\<rparr>"
    have f: "list_all (end_ok (m_numPlayers m)) es" if "\<not> seat \<ge> m_numPlayers m" "endByForfeit (remainingSeats ?m) ?m = (es, m'')" for es m''
      using forfeit_end_events[OF base_inv_gone[OF b] that(2)] that(1) by simp
    have e: "list_all (end_ok (m_numPlayers m)) es"
      if "\<not> seat \<ge> m_numPlayers m" "onGameEnd dl (?m\<lparr>m_game := Some g\<rparr>) = (Inr es, m'')" for g es m''
    proof -
      have "base_inv (?m\<lparr>m_game := Some g\<rparr>)" using base_inv_gone[OF b, of seat] that(1) by simp
      from end_events[OF this that(2)] show ?thesis by simp
    qed
    show ?thesis using assms(2) MForfeit
      by (auto simp: match_forfeit_def Let_def bind_act_def return_act_def f e switch_forfeit_events
          split: match_phase.splits option.splits if_splits prod.splits sum.splits)
  qed
qed

subsection \<open>Rosters\<close>

definition roster :: "room \<Rightarrow> user_id option list" where
  "roster r = map se_userId (rm_seats r)"

definition people :: "room \<Rightarrow> user_id set" where
  "people r = {u. Some u \<in> set (roster r)}"

lemma charged_roster:
  "charged_players r = concat (map (\<lambda>p. case snd p of None \<Rightarrow> [] | Some u \<Rightarrow> if is_bot u then [] else
     [\<lparr>mp_seat = fst p, mp_userId = u\<rparr>]) (List.enumerate 0 (roster r)))"
  unfolding charged_players_def roster_def enumerate_eq_zip zip_map2 length_map map_map
  by (intro arg_cong[of _ _ concat] map_cong) (auto split: option.split)

lemma charged_cong: "roster r' = roster r \<Longrightarrow> charged_players r' = charged_players r"
  by (simp add: charged_roster)

lemma charged_seats: "mp_seat ` set (charged_players r) \<subseteq> {..<length (rm_seats r)}"
  by (auto simp: charged_players_def in_set_enumerate_eq split: option.splits if_splits)

lemma charged_full:
  assumes "room_full r" "\<forall>u\<in>people r. \<not> is_bot u"
  shows "mp_seat ` set (charged_players r) = {..<length (rm_seats r)}"
proof
  show "{..<length (rm_seats r)} \<subseteq> mp_seat ` set (charged_players r)"
  proof
    fix k assume k: "k \<in> {..<length (rm_seats r)}"
    then obtain u where u: "se_userId (rm_seats r ! k) = Some u" using assms(1) by (auto simp: room_full_nth)
    then have "\<not> is_bot u" using assms(2) k by (force simp: people_def roster_def in_set_conv_nth)
    then have "\<lparr>mp_seat = k, mp_userId = u\<rparr> \<in> set (charged_players r)"
      using u k by (auto simp: charged_players_def in_set_enumerate_eq intro!: bexI[of _ "(k, rm_seats r ! k)"])
    then show "k \<in> mp_seat ` set (charged_players r)" by force
  qed
qed (rule charged_seats)

lemma charged_distinct: "distinct (map mp_seat (charged_players r))"
proof -
  have "distinct (map mp_seat (concat (map (\<lambda>p. case se_userId (snd p) of None \<Rightarrow> [] | Some u \<Rightarrow> if is_bot u then [] else
      [\<lparr>mp_seat = fst p, mp_userId = u\<rparr>]) (List.enumerate n xs)))) \<and>
    (\<forall>p\<in>set (concat (map (\<lambda>p. case se_userId (snd p) of None \<Rightarrow> [] | Some u \<Rightarrow> if is_bot u then [] else
      [\<lparr>mp_seat = fst p, mp_userId = u\<rparr>]) (List.enumerate n xs))). n \<le> mp_seat p)" for n xs
    by (induction xs arbitrary: n) (force split: option.split)+
  then show ?thesis unfolding charged_players_def by blast
qed

subsection \<open>Tame changes\<close>

definition facts_of :: "room \<Rightarrow> match_type \<times> cents \<times> bool \<times> string option \<times> nat" where
  "facts_of r = (rm_type r, rm_stakeCents r, rm_practice r, rm_matchId r, rm_matchSeq r)"

definition room_tame :: "room \<Rightarrow> room \<Rightarrow> bool" where
  "room_tame r r' \<longleftrightarrow> facts_of r' = facts_of r \<and>
     (rm_status r' = RoomInMatch \<longrightarrow> rm_status r = RoomInMatch \<and> roster r' = roster r) \<and>
     people r' \<subseteq> people r \<union> {u. \<not> is_bot u}"

definition room_fresh :: "room_manager \<Rightarrow> string \<Rightarrow> room \<Rightarrow> bool" where
  "room_fresh s i r \<longleftrightarrow> rm_matchId r = None \<and> rm_matchSeq r = 0 \<and> rm_status r \<noteq> RoomInMatch \<and> 0 \<le> rm_stakeCents r \<and>
     (\<forall>k\<le>rs_seq s. i \<noteq> new_room_id k) \<and> people r \<subseteq> {u. \<not> is_bot u}"

definition tame :: "room_manager \<Rightarrow> room_manager \<Rightarrow> bool" where
  "tame s s' \<longleftrightarrow> rs_instanceTag s' = rs_instanceTag s \<and> rs_seq s \<le> rs_seq s' \<and>
     (\<forall>i r'. get_room i s' = Some r' \<longrightarrow>
        (case get_room i s of None \<Rightarrow> room_fresh s i r' | Some r \<Rightarrow> room_tame r r'))"

lemma room_tame_refl [simp]: "room_tame r r"
  by (simp add: room_tame_def)

lemma room_tame_trans: "room_tame r r' \<Longrightarrow> room_tame r' r'' \<Longrightarrow> room_tame r r''"
  by (auto simp: room_tame_def)

lemma tame_refl [simp]: "tame s s"
  by (simp add: tame_def split: option.split)

lemma fresh_tame: "room_fresh s i r \<Longrightarrow> room_tame r r' \<Longrightarrow> room_fresh s i r'"
  by (auto simp: room_fresh_def room_tame_def facts_of_def)

lemma tame_trans:
  assumes "rooms_inv s" "tame s s'" "tame s' s''"
  shows "tame s s''"
  unfolding tame_def
proof (intro conjI allI impI)
  show "rs_instanceTag s'' = rs_instanceTag s" "rs_seq s \<le> rs_seq s''" using assms by (simp_all add: tame_def)
  fix i r'' assume r'': "get_room i s'' = Some r''"
  show "case get_room i s of None \<Rightarrow> room_fresh s i r'' | Some r \<Rightarrow> room_tame r r''"
  proof (cases "get_room i s'")
    case None
    then have f: "room_fresh s' i r''" using assms(3) r'' by (auto simp: tame_def dest!: spec[of _ i])
    have le: "rs_seq s \<le> rs_seq s'" using assms(2) by (simp add: tame_def)
    have "get_room i s = None"
    proof (rule ccontr)
      assume "get_room i s \<noteq> None"
      then obtain n where "n \<le> rs_seq s" "i = new_room_id n" using rooms_invD(4)[OF assms(1), of i] by blast
      moreover from this(1) le have "n \<le> rs_seq s'" by simp
      ultimately show False using f unfolding room_fresh_def by blast
    qed
    moreover have "room_fresh s i r''" using f le by (auto simp: room_fresh_def)
    ultimately show ?thesis by simp
  next
    case (Some r')
    then have "room_tame r' r''" using assms(3) r'' by (auto simp: tame_def dest!: spec[of _ i])
    moreover have "case get_room i s of None \<Rightarrow> room_fresh s i r' | Some r \<Rightarrow> room_tame r r'"
      using assms(2) Some by (auto simp: tame_def)
    ultimately show ?thesis by (auto intro: fresh_tame room_tame_trans split: option.splits)
  qed
qed

text \<open>How a change of the manager is tame.\<close>

lemma tag_simps [simp]:
  "rs_instanceTag (put_room r s) = rs_instanceTag s" "rs_instanceTag (del_room j s) = rs_instanceTag s"
  "rs_instanceTag (set_user_room u j s) = rs_instanceTag s" "rs_instanceTag (del_user_room u s) = rs_instanceTag s"
  "rs_instanceTag (foldl (\<lambda>s u. del_user_room u s) s us) = rs_instanceTag s"
  by (simp_all add: put_room_def del_room_def set_user_room_def del_user_room_def)
     (induction us arbitrary: s; simp add: del_user_room_def)

lemma tame_put:
  assumes "tame s s'" "get_room (rm_id r') s = Some r" "room_tame r r'"
  shows "tame s (put_room r' s')"
  using assms by (auto simp: tame_def)

lemma tame_simps [simp]:
  "tame s (set_user_room u i s') = tame s s'" "tame s (del_user_room u s') = tame s s'"
  "tame s s' \<Longrightarrow> tame s (del_room i s')"
  "tame s (foldl (\<lambda>s u. del_user_room u s) s' us) = tame s s'"
  by (auto simp: tame_def)


text \<open>A change of one room that keeps its roster.\<close>

lemma tame_same:
  assumes "get_room i s = Some r" "rooms_inv s" "rm_id r' = rm_id r" "facts_of r' = facts_of r" "roster r' = roster r"
    and "rm_status r' = RoomInMatch \<Longrightarrow> rm_status r = RoomInMatch"
  shows "tame s (put_room r' s)"
proof (rule tame_put[OF tame_refl])
  show "get_room (rm_id r') s = Some r" using rooms_invD(2)[OF assms(2,1)] assms(1,3) by simp
  show "room_tame r r'" using assms(4-6) by (auto simp: room_tame_def people_def)
qed

lemma roster_upd [simp]:
  "roster (r\<lparr>rm_seats := xs\<rparr>) = map se_userId xs" "roster (r\<lparr>rm_invited := us\<rparr>) = roster r"
  "roster (r\<lparr>rm_match := m\<rparr>) = roster r" "roster (r\<lparr>rm_target := t\<rparr>) = roster r"
  "roster (r\<lparr>rm_status := st\<rparr>) = roster r"
  by (simp_all add: roster_def)

lemma facts_upd [simp]:
  "facts_of (r\<lparr>rm_seats := xs\<rparr>) = facts_of r" "facts_of (r\<lparr>rm_invited := us\<rparr>) = facts_of r"
  "facts_of (r\<lparr>rm_match := m\<rparr>) = facts_of r" "facts_of (r\<lparr>rm_target := t\<rparr>) = facts_of r"
  "facts_of (r\<lparr>rm_status := st\<rparr>) = facts_of r"
  by (simp_all add: facts_of_def)

lemma roster_flag: "se_userId x = se_userId (rm_seats r ! k) \<Longrightarrow> map se_userId ((rm_seats r)[k := x]) = roster r"
  by (cases "k < length (rm_seats r)") (simp_all add: roster_def map_update list_update_same_conv list_update_beyond not_less)

lemma roomOf_room: "rooms_inv s \<Longrightarrow> roomOf u s = Some r \<Longrightarrow> get_room (rm_id r) s = Some r"
  by (simp add: roomOf_Some)

lemma markInvited_tame: "rooms_inv s \<Longrightarrow> tame s (markInvited i u s)"
  by (auto simp: markInvited_def intro: tame_same split: option.split)

lemma setReady_tame: "rooms_inv s \<Longrightarrow> tame s (snd (setReady u b s))"
  by (auto simp: setReady_def roster_flag intro!: tame_same[OF roomOf_room] split: option.split)

lemma setConnected_tame: "rooms_inv s \<Longrightarrow> tame s (setConnected u b s)"
  by (auto simp: setConnected_def roster_flag intro!: tame_same[OF roomOf_room] split: option.split)

lemma markFinished_tame: "rooms_inv s \<Longrightarrow> tame s (markFinished i s)"
  by (auto simp: markFinished_def intro: tame_same split: option.split)

lemma resetForRematch_tame: "rooms_inv s \<Longrightarrow> tame s (snd (resetForRematch i s))"
  by (auto simp: resetForRematch_def comp_def intro!: tame_same split: option.split) (simp_all add: roster_def)

lemma reflect_facts [simp]:
  "facts_of (reflect_match dl m r) = facts_of r" "roster (reflect_match dl m r) = roster r"
  "facts_of (mark_gone k r) = facts_of r" "roster (mark_gone k r) = roster r" "rm_id (mark_gone k r) = rm_id r"
  "rm_status (mark_gone k r) = rm_status r"
  by (simp_all add: reflect_match_def mark_gone_def roster_flag)

lemma forward_tame:
  assumes "rooms_inv s"
  shows "tame s (snd (forward u act s))"
proof -
  have "tame s (put_room q s)" if "live_match u s = Some (r, dl, m)" "rm_id q = rm_id r" "facts_of q = facts_of r" "roster q = roster r"
    for r dl m q
    using live_match_Some(1,5)[OF assms that(1)] that(2-4) by (intro tame_same[OF _ assms]) auto
  then show ?thesis by (auto simp: forward_def split: option.split prod.split sum.split)
qed

lemma room_forfeitSeat_tame:
  assumes "rooms_inv s"
  shows "tame s (snd (room_forfeitSeat u s))"
proof -
  have "tame s (put_room q s)" if "live_match u s = Some (r, dl, m)" "rm_id q = rm_id r" "facts_of q = facts_of r" "roster q = roster r"
    for r dl m q
    using live_match_Some(1,5)[OF assms that(1)] that(2-4) by (intro tame_same[OF _ assms]) auto
  then show ?thesis by (auto simp: room_forfeitSeat_def Let_def put_del_user split: option.split prod.split sum.split)
qed


lemma clearGoneSeats_tame:
  assumes "rooms_inv s" "\<And>r. get_room i s = Some r \<Longrightarrow> rm_status r \<noteq> RoomInMatch"
  shows "tame s (clearGoneSeats i s)"
proof (cases "get_room i s")
  case None
  then show ?thesis by (simp add: clearGoneSeats_def)
next
  case (Some r)
  let ?r = "r\<lparr>rm_seats := map (\<lambda>x. if se_gone x then emptySeat else x) (rm_seats r)\<rparr>"
  have "room_tame r ?r" using assms(2)[OF Some]
    by (auto simp: room_tame_def people_def roster_def image_iff split: if_splits)
  moreover have "get_room (rm_id ?r) s = Some r" using Some rooms_invD(2)[OF assms(1) Some] by simp
  ultimately show ?thesis using tame_put[OF tame_refl, of ?r s r] Some by (simp add: clearGoneSeats_def)
qed

lemma set_update_people: "set xs \<subseteq> set (rm_seats r) \<union> {emptySeat} \<Longrightarrow> people (r\<lparr>rm_seats := xs\<rparr>) \<subseteq> people r"
  by (force simp: people_def roster_def)

lemma leaveRoom_tame:
  assumes "rooms_inv s" "\<And>r. roomOf u s = Some r \<Longrightarrow> rm_status r \<noteq> RoomInMatch"
  shows "tame s (snd (leaveRoom u s))"
proof (cases "roomIdOf u s")
  case None
  then show ?thesis by (simp add: leaveRoom_def)
next
  case (Some i)
  obtain r where r: "get_room i s = Some r" "rm_id r = i" "room_ok r" "u \<in> members r"
    by (rule roomIdOf_Some_room[OF assms(1) Some])
  have st: "rm_status r \<noteq> RoomInMatch" using assms(2) Some r(1) by (simp add: roomOf_def)
  let ?r1 = "vacate (seat_index u r) r"
  have v: "facts_of ?r1 = facts_of r" "rm_status ?r1 = rm_status r" "rm_id ?r1 = i" "people ?r1 \<subseteq> people r"
  proof -
    show "facts_of ?r1 = facts_of r" "rm_status ?r1 = rm_status r" "rm_id ?r1 = i"
      using r(2) by (simp_all add: vacate_def split: option.split)
    show "people ?r1 \<subseteq> people r"
      using set_update_people[of "(rm_seats r)[k := emptySeat]" r for k] set_update_subset_insert[of "rm_seats r" _ emptySeat]
      by (auto simp: vacate_def split: option.split)
  qed
  have t: "tame s (put_room ?r1 s)" by (rule tame_put[OF tame_refl, of _ _ r]) (use v st r in \<open>auto simp: room_tame_def\<close>)
  have t2: "tame s (put_room (?r1\<lparr>rm_status := RoomWaiting\<rparr>) s)"
    by (rule tame_put[OF tame_refl, of _ _ r]) (use v st r in \<open>auto simp: room_tame_def people_def\<close>)
  have t3: "tame s (del_user_room u (put_room (?r1\<lparr>rm_status := RoomWaiting\<rparr>) s))" using t2 by simp
  then show ?thesis using t Some r(1) v(3) by (auto simp: leaveRoom_def Let_def put_del_user)
qed

lemma seat_user_tame:
  assumes "tame s s'" "get_room (rm_id r) s' = Some r" "rm_status r \<noteq> RoomInMatch" "\<not> is_bot (ac_userId user)"
    and "case get_room (rm_id r) s of None \<Rightarrow> room_fresh s (rm_id r) r | Some q \<Rightarrow> room_tame q r"
  shows "tame s (snd (seat_user r user team s'))"
proof -
  have t: "room_tame r (take_seat r user k)" for k
    using assms(3,4) set_update_subset_insert[of "rm_seats r" k "occupied_seat r user k"]
    by (force simp: room_tame_def take_seat_def Let_def facts_of_def people_def roster_def occupied_seat_def)
  have "rm_id (take_seat r user k) = rm_id r" for k by (simp add: take_seat_def Let_def)
  then have "tame s (put_room (take_seat r user k) s')" for k
    using assms(1,5) t[of k] fresh_tame[OF _ t[of k]] room_tame_trans[OF _ t[of k]]
    by (auto simp: tame_def split: option.splits)
  with assms(1) show ?thesis by (simp add: seat_user_def split: option.split)
qed

lemma joinRoom_tame:
  assumes "rooms_inv s" "\<not> is_bot (ac_userId user)"
  shows "tame s (snd (joinRoom user i team s))"
proof -
  have "tame s (snd (seat_user r user team s))" if "get_room i s = Some r" "join_refusal r (ac_userId user) = None" for r
  proof -
    have id: "rm_id r = i" by (rule rooms_invD(2)[OF assms(1) that(1)])
    have "rm_status r \<noteq> RoomInMatch" using that(2) by (auto simp: join_refusal_def split: if_splits)
    then show ?thesis by (intro seat_user_tame[OF tame_refl _ _ assms(2)]) (simp_all add: id that(1))
  qed
  then show ?thesis by (force simp: joinRoom_def split: option.split prod.split bool.split)
qed

lemma new_room_fresh:
  assumes "rooms_inv s" "rm_seats r = replicate n emptySeat" "rm_matchId r = None" "rm_matchSeq r = 0" "rm_status r = RoomWaiting"
    and "0 \<le> rm_stakeCents r" "rm_id r = new_room_id (Suc (rs_seq s))"
  shows "room_fresh s (rm_id r) r" "get_room (rm_id r) s = None" "tame s (put_room r (s\<lparr>rs_seq := Suc (rs_seq s)\<rparr>))"
proof -
  show f: "room_fresh s (rm_id r) r" using assms(2-7)
    by (auto simp: room_fresh_def new_room_id_def nat_str_inj people_def roster_def)
  show n: "get_room (rm_id r) s = None" using fresh_room_id[OF assms(1)] assms(7) by simp
  show "tame s (put_room r (s\<lparr>rs_seq := Suc (rs_seq s)\<rparr>))"
    using f n by (auto simp: tame_def split: option.split)
qed

lemma createRoom_tame:
  assumes "rooms_inv s" "\<not> is_bot (ac_userId user)"
  shows "tame s (snd (createRoom rnd user p now s))"
proof -
  have "tame s (snd (seat_user r user team (put_room r (s\<lparr>rs_seq := Suc (rs_seq s)\<rparr>))))"
    if "0 \<le> cp_stakeCents p" "r = opened_room rnd (new_room_id (Suc (rs_seq s))) ty p now s0" for r ty s0 team
  proof -
    have f: "room_fresh s (rm_id r) r" "get_room (rm_id r) s = None" "tame s (put_room r (s\<lparr>rs_seq := Suc (rs_seq s)\<rparr>))"
      using that by (intro new_room_fresh[OF assms(1), of _ "playersForType ty"]; simp add: opened_room_def blank_room_def)+
    show ?thesis by (rule seat_user_tame[OF f(3) _ _ assms(2)]) (use f that(2) in simp_all)
  qed
  note t = this
  have d: "tame s s1" if "0 \<le> cp_stakeCents p" "cp_type p = Some ty"
    "seat_user (opened_room rnd (new_room_id (Suc (rs_seq s))) ty p now s0) user (cp_team p)
       (put_room (opened_room rnd (new_room_id (Suc (rs_seq s))) ty p now s0) (s\<lparr>rs_seq := Suc (rs_seq s)\<rparr>)) = (b, s1)" for ty s0 b s1
    using t[OF that(1) refl, of ty s0 "cp_team p"] that(3) by simp
  show ?thesis by (auto simp: createRoom_def Let_def d split: option.split prod.split bool.split)
qed

lemma enum_people: "u \<in> people r \<longleftrightarrow> (\<exists>k<length (rm_seats r). se_userId (rm_seats r ! k) = Some u)"
  by (force simp: people_def roster_def in_set_conv_nth)

lemma switchTeam_tame:
  assumes "rooms_inv s"
  shows "tame s (snd (switchTeam u t s))"
proof -
  have go: "tame s (put_room (reopen (r\<lparr>rm_seats := xs\<rparr>)) s)"
    if "roomOf u s = Some r" "se_userId ` set xs \<subseteq> insert None (se_userId ` set (rm_seats r))" for r xs
  proof (rule tame_put[OF tame_refl])
    show "get_room (rm_id (reopen (r\<lparr>rm_seats := xs\<rparr>))) s = Some r"
      using roomOf_room[OF assms that(1)] by (simp add: reopen_def)
    show "room_tame r (reopen (r\<lparr>rm_seats := xs\<rparr>))" using that(2)
      by (auto simp: room_tame_def reopen_def people_def roster_def)
  qed
  have mv: "se_userId ` set (move_player xs k f t) \<subseteq> insert None (se_userId ` set xs)" if "k < length xs" for xs k f
    using that by (auto simp: move_player_def dest!: set_update_subset_insert[THEN subsetD])
  have sw: "se_userId ` set (swap_players xs k j) \<subseteq> insert None (se_userId ` set xs)" if "k < length xs" "j < length xs" for xs k j
    using that by (auto simp: swap_players_def dest!: set_update_subset_insert[THEN subsetD])
  show ?thesis
  proof (cases "\<exists>r k. roomOf u s = Some r \<and> seat_index u r = Some k \<and> rm_type r = TwoVTwo")
    case False
    then show ?thesis by (auto simp: switchTeam_def split: option.split)
  next
    case True
    then obtain r k where r: "roomOf u s = Some r" "seat_index u r = Some k" "rm_type r = TwoVTwo" by blast
    have k: "k < length (rm_seats r)" using seat_index_Some[OF r(2)] by simp
    have "room_ok r" using rooms_invD(3)[OF assms roomOf_room[OF assms r(1)]] .
    then have len: "length (rm_seats r) = 4" using r(3) by (simp add: room_ok_def seats_ok_def playersForType_def)
    have j: "j < length (rm_seats r)" if "List.find P (team_seats t) = Some j" for P j
      using that team_seats_bound[of j t] len by (auto simp: find_Some_iff)
    show ?thesis using r by (auto simp: switchTeam_def intro!: go[OF r(1) mv[OF k]] go[OF r(1) sw[OF k j]] split: option.split)
  qed
qed

subsection \<open>Several changes\<close>

definition moves :: "room_manager \<Rightarrow> room_manager \<Rightarrow> bool" where
  "moves s s' \<longleftrightarrow> rooms_inv s' \<and> tame s s'"

lemma moves_refl: "rooms_inv s \<Longrightarrow> moves s s"
  by (simp add: moves_def)

lemma moves_trans: "rooms_inv s \<Longrightarrow> moves s s' \<Longrightarrow> moves s' s'' \<Longrightarrow> moves s s''"
  by (auto simp: moves_def intro: tame_trans)

lemma setReady_moves: "rooms_inv s \<Longrightarrow> moves s (snd (setReady u b s))"
  by (simp add: moves_def setReady_inv setReady_tame)

lemma set_all_moves: "rooms_inv s \<Longrightarrow> moves s (foldl (\<lambda>s u. snd (setReady u b s)) s us)"
proof (induction us arbitrary: s)
  case Nil
  then show ?case by (simp add: moves_refl)
next
  case (Cons u us)
  have m: "moves s (snd (setReady u b s))" by (rule setReady_moves[OF Cons.prems])
  then have "moves (snd (setReady u b s)) (foldl (\<lambda>s u. snd (setReady u b s)) (snd (setReady u b s)) us)"
    by (intro Cons.IH) (simp add: moves_def)
  from moves_trans[OF Cons.prems m this] show ?case by simp
qed

lemma unready_all_moves: "rooms_inv s \<Longrightarrow> moves s (unready_all i s)"
  by (simp add: unready_all_def moves_refl set_all_moves split: option.split)

end
