(* ===== verification/Table_Invariant.thy ===== *)
theory Table_Invariant
  imports Table_Frames
begin

text \<open>
  The invariant that ties rooms, match records and pending tasks together: a room in a match has an
  active record with its stake and its players, every pending task knows what it may still do, no
  two tasks work on the same match, and at most one task starts a match in a room.
\<close>

subsection \<open>Match ids\<close>

lemma split_at_dash:
  assumes "a @ CHR ''-'' # x = b @ CHR ''-'' # y" "CHR ''-'' \<notin> set a" "CHR ''-'' \<notin> set b"
  shows "a = b \<and> x = y"
  using assms by (induction a arbitrary: b) (auto simp: Cons_eq_append_conv append_eq_Cons_conv)

lemma nat_str_codes: "c \<in> set (nat_str n) \<Longrightarrow> of_char c \<ge> (48::nat)"
proof (induction n rule: nat_str.induct)
  case (1 n)
  then show ?case by (cases "n < 10") (auto simp: nat_str.simps[of n] of_char_digit)
qed

lemma nat_str_dash [simp]: "CHR ''-'' \<notin> set (nat_str n)"
  using nat_str_codes[of "CHR ''-''" n] by auto

lemma match_id_inj:
  assumes "match_id_for (new_room_id k) n tag = match_id_for (new_room_id k') n' tag"
  shows "k = k' \<and> n = n'"
proof -
  have "nat_str k @ CHR ''-'' # (CHR ''m'' # nat_str n @ CHR ''-'' # tag) = nat_str k' @ CHR ''-'' # (CHR ''m'' # nat_str n' @ CHR ''-'' # tag)"
    using assms by (simp add: match_id_for_def new_room_id_def)
  from split_at_dash[OF this] have "nat_str k = nat_str k'" "nat_str n @ CHR ''-'' # tag = nat_str n' @ CHR ''-'' # tag" by simp_all
  moreover from split_at_dash[OF this(2)] have "nat_str n = nat_str n'" by simp
  ultimately show ?thesis by (simp add: nat_str_inj)
qed

definition used :: "room_manager \<Rightarrow> string \<Rightarrow> bool" where
  "used s mid \<longleftrightarrow> (\<exists>k n. mid = match_id_for (new_room_id k) n (rs_instanceTag s) \<and> k \<le> rs_seq s \<and>
     (\<forall>r. get_room (new_room_id k) s = Some r \<longrightarrow> n \<le> rm_matchSeq r))"

lemma usedI:
  "mid = match_id_for (new_room_id k) n (rs_instanceTag s) \<Longrightarrow> k \<le> rs_seq s \<Longrightarrow>
   (\<And>r. get_room (new_room_id k) s = Some r \<Longrightarrow> n \<le> rm_matchSeq r) \<Longrightarrow> used s mid"
  unfolding used_def by blast

definition numbered :: "string \<Rightarrow> room_manager \<Rightarrow> bool" where
  "numbered i s \<longleftrightarrow> (\<exists>k\<le>rs_seq s. i = new_room_id k)"

definition idle :: "string \<Rightarrow> room_manager \<Rightarrow> bool" where
  "idle i s \<longleftrightarrow> (\<forall>r. get_room i s = Some r \<longrightarrow> rm_status r \<noteq> RoomInMatch)"

definition quiet :: "string \<Rightarrow> room_manager \<Rightarrow> bool" where
  "quiet mid s \<longleftrightarrow> (\<forall>i r. get_room i s = Some r \<longrightarrow> rm_matchId r = Some mid \<longrightarrow> rm_status r \<noteq> RoomInMatch)"

subsection \<open>Rooms\<close>

definition room_ids :: "string \<Rightarrow> room \<Rightarrow> bool" where
  "room_ids tag r \<longleftrightarrow> rm_matchId r = (if rm_matchSeq r = 0 then None else Some (match_id_for (rm_id r) (rm_matchSeq r) tag)) \<and>
     0 \<le> rm_stakeCents r \<and> (\<forall>u\<in>people r. \<not> is_bot u)"

definition active_record :: "money_store \<Rightarrow> string \<Rightarrow> match_record \<Rightarrow> bool" where
  "active_record m mid rec \<longleftrightarrow> map_of (m_matches m) mid = Some rec \<and> r_status rec = ActiveMatch"

definition funded :: "money_store \<Rightarrow> room \<Rightarrow> string \<Rightarrow> bool" where
  "funded m r mid \<longleftrightarrow> (\<exists>rec. active_record m mid rec \<and> r_stakeCents rec = rm_stakeCents r \<and>
     set (r_players rec) = set (charged_players r))"

definition live_ok :: "money_store \<Rightarrow> string set \<Rightarrow> room \<Rightarrow> bool" where
  "live_ok m fin r \<longleftrightarrow> (rm_status r = RoomInMatch \<longrightarrow> None \<notin> set (roster r) \<and>
     (\<exists>mid. rm_matchId r = Some mid \<and> mid \<notin> fin \<and> (\<not> rm_practice r \<longrightarrow> funded m r mid)))"

subsection \<open>Tasks\<close>

fun begin_of :: "awaiting \<Rightarrow> string option" where
  "begin_of (BeginCharged i mid ps) = Some i"
| "begin_of (BeginAborted i) = Some i"
| "begin_of (BeginFailed i) = Some i"
| "begin_of _ = None"

fun begin_room :: "task \<Rightarrow> string option" where
  "begin_room (Gate i mid k b) = Some i"
| "begin_room (Await call k) = begin_of k"
| "begin_room (Resume reply k) = begin_of k"
| "begin_room (Rating i) = None"

fun task_mid :: "task \<Rightarrow> string option" where
  "task_mid (Gate i mid k b) = Some mid"
| "task_mid (Await call k) = call_mid call"
| "task_mid (Resume reply k) = (case k of BeginCharged i mid ps \<Rightarrow> Some mid | _ \<Rightarrow> None)"
| "task_mid (Rating i) = None"

text \<open>A match that is being started; a record just opened for it; a record whose winners are known.\<close>

definition waiting :: "room_manager \<Rightarrow> string set \<Rightarrow> string \<Rightarrow> string \<Rightarrow> bool" where
  "waiting s fin i mid \<longleftrightarrow> (\<forall>r. get_room i s = Some r \<longrightarrow> rm_matchId r = Some mid) \<and>
     (\<forall>j r. get_room j s = Some r \<longrightarrow> rm_matchId r = Some mid \<longrightarrow> j = i) \<and> quiet mid s \<and> mid \<notin> fin"

lemma waitingD:
  assumes "waiting s fin i mid"
  shows "get_room i s = Some r \<Longrightarrow> rm_matchId r = Some mid" "get_room j s = Some r \<Longrightarrow> rm_matchId r = Some mid \<Longrightarrow> j = i"
    "quiet mid s" "mid \<notin> fin"
  using assms unfolding waiting_def by blast+

lemma waitingI:
  assumes "\<And>r. get_room i s = Some r \<Longrightarrow> rm_matchId r = Some mid"
    "\<And>j r. get_room j s = Some r \<Longrightarrow> rm_matchId r = Some mid \<Longrightarrow> j = i" "quiet mid s" "mid \<notin> fin"
  shows "waiting s fin i mid"
  using assms unfolding waiting_def by blast

text \<open>Another room gets a new id or state.\<close>

lemma waiting_other:
  assumes "waiting s fin j x" "\<And>h. get_room h s' = (if h = i then Some r' else get_room h s)" "j \<noteq> i"
    and "rm_matchId r' \<noteq> Some x" "quiet x s'"
  shows "waiting s' fin j x"
proof (rule waitingI)
  note w = waitingD[OF assms(1)]
  show "rm_matchId r = Some x" if "get_room j s' = Some r" for r using that w(1) assms(2,3) by simp
  show "h = j" if "get_room h s' = Some r" "rm_matchId r = Some x" for h r
    using that w(2)[of h r] assms(2)[of h] assms(4) by (cases "h = i") simp_all
qed (use assms(5) waitingD(4)[OF assms(1)] in simp_all)

lemma waiting_fin: "waiting s fin i mid \<Longrightarrow> mid \<notin> fin' \<Longrightarrow> waiting s fin' i mid"
  unfolding waiting_def by blast

definition stake_of :: "string \<Rightarrow> room_manager \<Rightarrow> cents \<Rightarrow> bool" where
  "stake_of i s stake \<longleftrightarrow> 0 \<le> stake \<and> (\<forall>r. get_room i s = Some r \<longrightarrow> rm_stakeCents r = stake)"

definition opened_for :: "money_store \<Rightarrow> room_manager \<Rightarrow> string \<Rightarrow> string \<Rightarrow> match_player list \<Rightarrow> bool" where
  "opened_for m s i mid ps \<longleftrightarrow> (\<exists>rec. active_record m mid rec \<and> r_players rec = ps \<and> distinct (map mp_seat ps) \<and>
     stake_of i s (r_stakeCents rec))"

definition payable :: "money_store \<Rightarrow> string \<Rightarrow> seat list \<Rightarrow> bool" where
  "payable m mid seats \<longleftrightarrow> (\<exists>rec. active_record m mid rec \<and> distinct seats \<and> seats \<noteq> [] \<and>
     set seats \<subseteq> mp_seat ` set (r_players rec))"

fun task_ok :: "room_manager \<Rightarrow> money_store \<Rightarrow> string set \<Rightarrow> task \<Rightarrow> bool" where
  "task_ok s m fin (Gate i mid k b) \<longleftrightarrow> waiting s fin i mid \<and> map_of (m_matches m) mid = None"
| "task_ok s m fin (Await (EscrowCall mid ty stake ps) k) \<longleftrightarrow> (\<exists>i. k = BeginCharged i mid ps \<and> waiting s fin i mid \<and>
     map_of (m_matches m) mid = None \<and> distinct (map mp_seat ps) \<and> stake_of i s stake)"
| "task_ok s m fin (Await (RefundCall mid) k) \<longleftrightarrow> quiet mid s \<and> (\<forall>i mid' ps. k \<noteq> BeginCharged i mid' ps)"
| "task_ok s m fin (Await (SettleCall mid seats) k) \<longleftrightarrow> quiet mid s \<and> (\<exists>i. k = MatchSettled i) \<and> payable m mid seats"
| "task_ok s m fin (Await (SweepCall live) k) \<longleftrightarrow> k = Swept"
| "task_ok s m fin (Resume reply k) \<longleftrightarrow> (\<forall>i mid ps. k = BeginCharged i mid ps \<longrightarrow> waiting s fin i mid \<and>
     (\<forall>res. reply = EscrowReply (Inr res) \<longrightarrow> er_ok res \<longrightarrow> opened_for m s i mid ps))"
| "task_ok s m fin (Rating i) \<longleftrightarrow> True"

definition task_mids :: "task list \<Rightarrow> string list" where
  "task_mids ts = List.map_filter task_mid ts"

definition begin_rooms :: "task list \<Rightarrow> string list" where
  "begin_rooms ts = List.map_filter begin_room ts"

lemma in_task_mids: "mid \<in> set (task_mids ts) \<longleftrightarrow> (\<exists>k\<in>set ts. task_mid k = Some mid)"
  and in_begin_rooms: "i \<in> set (begin_rooms ts) \<longleftrightarrow> (\<exists>k\<in>set ts. begin_room k = Some i)"
  by (force simp: task_mids_def begin_rooms_def List.map_filter_def)+

lemma mids_append [simp]:
  "task_mids (xs @ ys) = task_mids xs @ task_mids ys" "begin_rooms (xs @ ys) = begin_rooms xs @ begin_rooms ys"
  "task_mids [k] = (case task_mid k of None \<Rightarrow> [] | Some mid \<Rightarrow> [mid])"
  "begin_rooms [k] = (case begin_room k of None \<Rightarrow> [] | Some i \<Rightarrow> [i])" "task_mids [] = []" "begin_rooms [] = []"
  by (simp_all add: task_mids_def begin_rooms_def List.map_filter_def split: option.split)

text \<open>A match id that no room with a pending start has.\<close>

definition foreign :: "room_manager \<Rightarrow> task list \<Rightarrow> string \<Rightarrow> bool" where
  "foreign s ts mid \<longleftrightarrow> (\<forall>j\<in>set (begin_rooms ts). \<forall>r. get_room j s = Some r \<longrightarrow> rm_matchId r \<noteq> Some mid)"

text \<open>The match of a room with a pending start is a matter of that start alone.\<close>

definition owned :: "room_manager \<Rightarrow> task list \<Rightarrow> bool" where
  "owned s ts \<longleftrightarrow> (\<forall>k\<in>set ts. \<forall>mid. task_mid k = Some mid \<longrightarrow>
     (\<forall>i\<in>set (begin_rooms ts). \<forall>r. get_room i s = Some r \<longrightarrow> rm_matchId r = Some mid \<longrightarrow> begin_room k = Some i))"

definition tinv :: "room_manager \<Rightarrow> money_store \<Rightarrow> string set \<Rightarrow> task list \<Rightarrow> bool" where
  "tinv s m fin ts \<longleftrightarrow> rooms_inv s \<and> money_inv m \<and>
     (\<forall>i r. get_room i s = Some r \<longrightarrow> room_ids (rs_instanceTag s) r \<and> live_ok m fin r) \<and>
     (\<forall>mid\<in>fin. used s mid) \<and>
     (\<forall>k n. map_of (m_matches m) (match_id_for (new_room_id k) n (rs_instanceTag s)) \<noteq> None \<longrightarrow>
        used s (match_id_for (new_room_id k) n (rs_instanceTag s))) \<and>
     (\<forall>k\<in>set ts. task_ok s m fin k \<and> (\<forall>i. begin_room k = Some i \<longrightarrow> idle i s \<and> numbered i s) \<and>
        (\<forall>mid. task_mid k = Some mid \<longrightarrow> used s mid)) \<and>
     distinct (task_mids ts) \<and> distinct (begin_rooms ts) \<and> owned s ts"

definition tables_inv :: "tables \<Rightarrow> bool" where
  "tables_inv t \<longleftrightarrow> tinv (tb_rooms t) (tb_money t) (set (tb_finalized t)) (tb_tasks t)"

lemma tinvD:
  assumes "tinv s m fin ts"
  shows "rooms_inv s" "money_inv m" "get_room i s = Some r \<Longrightarrow> room_ids (rs_instanceTag s) r"
    "get_room i s = Some r \<Longrightarrow> live_ok m fin r" "mid \<in> fin \<Longrightarrow> used s mid"
    "k \<in> set ts \<Longrightarrow> task_ok s m fin k" "k \<in> set ts \<Longrightarrow> begin_room k = Some i \<Longrightarrow> idle i s"
    "k \<in> set ts \<Longrightarrow> begin_room k = Some i \<Longrightarrow> numbered i s"
    "k \<in> set ts \<Longrightarrow> task_mid k = Some mid \<Longrightarrow> used s mid" "distinct (task_mids ts)" "distinct (begin_rooms ts)"
    "map_of (m_matches m) (match_id_for (new_room_id n) q (rs_instanceTag s)) \<noteq> None \<Longrightarrow>
       used s (match_id_for (new_room_id n) q (rs_instanceTag s))"
    "owned s ts"
  using assms unfolding tinv_def by blast+

lemma tinvI:
  assumes "rooms_inv s" "money_inv m" "\<And>i r. get_room i s = Some r \<Longrightarrow> room_ids (rs_instanceTag s) r"
    "\<And>i r. get_room i s = Some r \<Longrightarrow> live_ok m fin r" "\<And>mid. mid \<in> fin \<Longrightarrow> used s mid"
    "\<And>n q. map_of (m_matches m) (match_id_for (new_room_id n) q (rs_instanceTag s)) \<noteq> None \<Longrightarrow>
       used s (match_id_for (new_room_id n) q (rs_instanceTag s))"
    "\<And>k. k \<in> set ts \<Longrightarrow> task_ok s m fin k"
    "\<And>k i. k \<in> set ts \<Longrightarrow> begin_room k = Some i \<Longrightarrow> idle i s \<and> numbered i s"
    "\<And>k mid. k \<in> set ts \<Longrightarrow> task_mid k = Some mid \<Longrightarrow> used s mid"
    "distinct (task_mids ts)" "distinct (begin_rooms ts)" "owned s ts"
  shows "tinv s m fin ts"
  using assms unfolding tinv_def by blast


subsection \<open>What keeps the invariant\<close>

lemma tame_facts:
  assumes "tame s s'" "get_room i s' = Some r'"
  obtains (old) r where "get_room i s = Some r" "room_tame r r'" | (fresh) "get_room i s = None" "room_fresh s i r'"
  using assms unfolding tame_def by (cases "get_room i s") (force split: option.splits)+

lemma used_moves: "tame s s' \<Longrightarrow> used s mid \<Longrightarrow> used s' mid"
proof -
  assume t: "tame s s'" and u: "used s mid"
  then obtain k n where k: "mid = match_id_for (new_room_id k) n (rs_instanceTag s)" "k \<le> rs_seq s"
    "\<forall>r. get_room (new_room_id k) s = Some r \<longrightarrow> n \<le> rm_matchSeq r" by (auto simp: used_def)
  have "n \<le> rm_matchSeq r'" if "get_room (new_room_id k) s' = Some r'" for r'
    using tame_facts[OF t that] k(2,3) by cases (auto simp: room_tame_def room_fresh_def facts_of_def)
  moreover have "rs_instanceTag s' = rs_instanceTag s" "k \<le> rs_seq s'" using t k(2) by (auto simp: tame_def)
  ultimately show ?thesis using k(1) unfolding used_def by metis
qed

lemma numbered_moves: "tame s s' \<Longrightarrow> numbered i s \<Longrightarrow> numbered i s'"
  unfolding tame_def numbered_def using le_trans by blast

lemma idle_moves: "tame s s' \<Longrightarrow> idle i s \<Longrightarrow> idle i s'"
  unfolding idle_def by (blast elim: tame_facts intro: sym dest: room_tame_def[THEN iffD1] room_fresh_def[THEN iffD1])

lemma quiet_moves: "tame s s' \<Longrightarrow> quiet mid s \<Longrightarrow> quiet mid s'"
  unfolding quiet_def
proof (intro allI impI)
  fix i r' assume a: "tame s s'" "\<forall>i r. get_room i s = Some r \<longrightarrow> rm_matchId r = Some mid \<longrightarrow> rm_status r \<noteq> RoomInMatch"
    "get_room i s' = Some r'" "rm_matchId r' = Some mid"
  from a(1,3) show "rm_status r' \<noteq> RoomInMatch"
    by (rule tame_facts) (use a(2,4) in \<open>auto simp: room_tame_def room_fresh_def facts_of_def\<close>)
qed

lemma id_back: "tame s s' \<Longrightarrow> get_room j s' = Some r' \<Longrightarrow> rm_matchId r' = Some mid \<Longrightarrow> \<exists>r. get_room j s = Some r \<and> rm_matchId r = Some mid"
  by (erule tame_facts, assumption) (auto simp: room_tame_def room_fresh_def facts_of_def)

lemma waiting_moves: "tame s s' \<Longrightarrow> numbered i s \<Longrightarrow> waiting s fin i mid \<Longrightarrow> waiting s' fin i mid"
proof -
  assume a: "tame s s'" "numbered i s" "waiting s fin i mid"
  note w = waitingD[OF a(3)]
  have "j = i" if "get_room j s' = Some r'" "rm_matchId r' = Some mid" for j r'
    using id_back[OF a(1) that] w(2) by blast
  moreover have "rm_matchId r' = Some mid" if "get_room i s' = Some r'" for r'
    using tame_facts[OF a(1) that] a(2) w(1) by cases (auto simp: room_tame_def room_fresh_def facts_of_def numbered_def)
  moreover have "quiet mid s'" by (rule quiet_moves[OF a(1) w(3)])
  ultimately show ?thesis using w(4) unfolding waiting_def by blast
qed

lemma stake_moves: "tame s s' \<Longrightarrow> numbered i s \<Longrightarrow> stake_of i s stake \<Longrightarrow> stake_of i s' stake"
proof -
  assume a: "tame s s'" "numbered i s" "stake_of i s stake"
  have "rm_stakeCents r' = stake" if "get_room i s' = Some r'" for r'
    using tame_facts[OF a(1) that] a(2,3) by cases (auto simp: stake_of_def room_tame_def room_fresh_def facts_of_def numbered_def)
  with a show ?thesis by (simp add: stake_of_def)
qed

lemma opened_moves: "tame s s' \<Longrightarrow> numbered i s \<Longrightarrow> opened_for m s i mid ps \<Longrightarrow> opened_for m s' i mid ps"
  unfolding opened_for_def using stake_moves by blast

lemma task_moves:
  assumes "tame s s'" "task_ok s m fin k" "\<And>i. begin_room k = Some i \<Longrightarrow> numbered i s"
  shows "task_ok s' m fin k"
  using assms(2,3)
proof (cases k)
  case (Await call kk)
  with assms show ?thesis
    by (cases call) (auto simp: waiting_moves stake_moves quiet_moves)
next
  case (Resume reply kk)
  with assms show ?thesis
    by (cases kk) (auto simp: waiting_moves opened_moves)
qed (auto simp: waiting_moves[OF assms(1)])

lemma owned_moves:
  assumes "tame s s'" "owned s ts"
  shows "owned s' ts"
  using assms(2) id_back[OF assms(1)] unfolding owned_def by blast

lemma room_ids_tame: "room_ids tag r \<Longrightarrow> room_tame r r' \<Longrightarrow> rm_id r' = rm_id r \<Longrightarrow> room_ids tag r'"
  by (auto simp: room_ids_def room_tame_def facts_of_def)

lemma live_ok_tame: "live_ok m fin r \<Longrightarrow> room_tame r r' \<Longrightarrow> live_ok m fin r'"
  using charged_cong[of r' r] by (auto simp: live_ok_def room_tame_def facts_of_def funded_def)

lemma room_fresh_ok: "room_fresh s i r \<Longrightarrow> room_ids tag r \<and> live_ok m fin r"
  by (auto simp: room_fresh_def room_ids_def live_ok_def)

lemma tinv_moves:
  assumes "tinv s m fin ts" "moves s s'"
  shows "tinv s' m fin ts"
proof -
  note I = tinvD[OF assms(1)]
  have t: "tame s s'" and I': "rooms_inv s'" and tag: "rs_instanceTag s' = rs_instanceTag s"
    using assms(2) by (simp_all add: moves_def tame_def)
  have "room_ids (rs_instanceTag s') r' \<and> live_ok m fin r'" if r': "get_room i s' = Some r'" for i r'
    using t r'
  proof (cases rule: tame_facts)
    case (old r)
    have "rm_id r' = rm_id r" using rooms_invD(2)[OF I' r'] rooms_invD(2)[OF I(1) old(1)] by simp
    with old I(3,4)[OF old(1)] show ?thesis by (auto simp: tag intro: room_ids_tame live_ok_tame)
  qed (simp add: room_fresh_ok)
  note room = this
  show ?thesis
  proof (rule tinvI[OF I' I(2)])
    fix i r assume "get_room i s' = Some r"
    then show "room_ids (rs_instanceTag s') r" "live_ok m fin r" using room by blast+
  next
    fix k assume k: "k \<in> set ts"
    show "task_ok s' m fin k" by (rule task_moves[OF t I(6)[OF k] I(8)[OF k]])
    show "idle i s' \<and> numbered i s'" if "begin_room k = Some i" for i
      using idle_moves[OF t I(7)[OF k that]] numbered_moves[OF t I(8)[OF k that]] by simp
    show "used s' mid" if "task_mid k = Some mid" for mid by (rule used_moves[OF t I(9)[OF k that]])
  qed (use I(5,10,11,12) used_moves[OF t] owned_moves[OF t I(13)] in \<open>simp_all add: tag\<close>)
qed

text \<open>Tasks come and go.\<close>

lemma tinv_drop:
  assumes "tinv s m fin (xs @ k # ys)"
  shows "tinv s m fin (xs @ ys)" "k \<in> set (xs @ k # ys)"
    "task_mid k = Some mid \<Longrightarrow> mid \<notin> set (task_mids (xs @ ys))"
    "begin_room k = Some i \<Longrightarrow> i \<notin> set (begin_rooms (xs @ ys))"
    "begin_room k = Some i \<Longrightarrow> get_room i s = Some r \<Longrightarrow> rm_matchId r = Some mid \<Longrightarrow> mid \<notin> set (task_mids (xs @ ys))"
proof -
  note I = tinvD[OF assms]
  have e: "task_mids (k # ys) = task_mids [k] @ task_mids ys" "begin_rooms (k # ys) = begin_rooms [k] @ begin_rooms ys"
    using mids_append(1)[of "[k]" ys] mids_append(2)[of "[k]" ys] by simp_all
  have sub: "k' \<in> set (xs @ ys) \<Longrightarrow> k' \<in> set (xs @ k # ys)" for k' by auto
  have "distinct (task_mids (xs @ ys))" "distinct (begin_rooms (xs @ ys))" using I(10,11) e by auto
  moreover have "owned s (xs @ ys)"
  proof -
    have "set (begin_rooms (xs @ ys)) \<subseteq> set (begin_rooms (xs @ k # ys))" using e by auto
    with I(13) sub show ?thesis unfolding owned_def by blast
  qed
  ultimately show "tinv s m fin (xs @ ys)"
    by (intro tinvI I(1,2,3,4,5,12) conjI I(6)[OF sub] I(7)[OF sub] I(8)[OF sub] I(9)[OF sub])
  show "begin_room k = Some i \<Longrightarrow> get_room i s = Some r \<Longrightarrow> rm_matchId r = Some mid \<Longrightarrow> mid \<notin> set (task_mids (xs @ ys))"
  proof
    assume k: "begin_room k = Some i" "get_room i s = Some r" "rm_matchId r = Some mid" "mid \<in> set (task_mids (xs @ ys))"
    then obtain k' where k': "k' \<in> set (xs @ ys)" "task_mid k' = Some mid" by (auto simp: in_task_mids)
    have "i \<in> set (begin_rooms (xs @ k # ys))" using k(1) e by simp
    then have "begin_room k' = Some i" using I(13) k(2,3) sub[OF k'(1)] k'(2) unfolding owned_def by blast
    then have "i \<in> set (begin_rooms (xs @ ys))" using k'(1) in_begin_rooms by blast
    with k(1) I(11) e show False by auto
  qed
  show "task_mid k = Some mid \<Longrightarrow> mid \<notin> set (task_mids (xs @ ys))" using I(10) e by simp
  show "begin_room k = Some i \<Longrightarrow> i \<notin> set (begin_rooms (xs @ ys))" using I(11) e by simp
qed simp

lemma tinv_push:
  assumes "tinv s m fin ts" "task_ok s m fin k" "\<And>i. begin_room k = Some i \<Longrightarrow> idle i s \<and> numbered i s \<and> i \<notin> set (begin_rooms ts)"
    and "\<And>i r mid. begin_room k = Some i \<Longrightarrow> get_room i s = Some r \<Longrightarrow> rm_matchId r = Some mid \<Longrightarrow> mid \<notin> set (task_mids ts)"
    and "\<And>mid. task_mid k = Some mid \<Longrightarrow> used s mid \<and> mid \<notin> set (task_mids ts) \<and> foreign s ts mid"
  shows "tinv s m fin (ts @ [k])"
proof -
  note I = tinvD[OF assms(1)]
  show ?thesis
  proof (rule tinvI[OF I(1,2,3,4,5,12)])
    fix k' assume "k' \<in> set (ts @ [k])"
    then consider "k' = k" | "k' \<in> set ts" by auto
    note c = this
    show "task_ok s m fin k'" by (cases rule: c) (use assms(2) I(6) in simp_all)
    show "idle i s \<and> numbered i s" if "begin_room k' = Some i" for i
      by (cases rule: c) (use assms(3) I(7,8) that in simp_all)
    show "used s mid" if "task_mid k' = Some mid" for mid
      by (cases rule: c) (use assms(5) I(9) that in simp_all)
  next
    show "owned s (ts @ [k])" unfolding owned_def
    proof (intro ballI allI impI)
      fix k' mid i r
      assume a: "k' \<in> set (ts @ [k])" "task_mid k' = Some mid" "i \<in> set (begin_rooms (ts @ [k]))" "get_room i s = Some r"
        "rm_matchId r = Some mid"
      have i: "i \<in> set (begin_rooms ts) \<or> begin_room k = Some i" using a(3) by (auto split: option.splits)
      show "begin_room k' = Some i"
      proof (cases "k' = k")
        case True
        with i a(2,4,5) assms(5) show ?thesis unfolding foreign_def by blast
      next
        case False
        then have k': "k' \<in> set ts" using a(1) by simp
        then have "mid \<in> set (task_mids ts)" using a(2) in_task_mids by blast
        with i a(4,5) assms(4) have "i \<in> set (begin_rooms ts)" by blast
        with I(13) k' a(2,4,5) show ?thesis unfolding owned_def by blast
      qed
    qed
  qed (use I(10,11) assms(3,5) in \<open>auto split: option.split\<close>)
qed

text \<open>A change of one record that no room and no task depends on.\<close>

lemma task_money:
  assumes "task_ok s m fin k" "\<And>x. task_mid k = Some x \<Longrightarrow> map_of (m_matches m') x = map_of (m_matches m) x"
  shows "task_ok s m' fin k"
  using assms
proof (cases k)
  case (Await call kk)
  with assms show ?thesis
    by (cases call) (auto simp: payable_def active_record_def)
next
  case (Resume reply kk)
  with assms show ?thesis
    by (cases kk) (auto simp: opened_for_def active_record_def)
qed auto

lemma tinv_records:
  assumes "tinv s m fin ts" "money_inv m'"
    and "\<And>x. x \<in> set (task_mids ts) \<or> \<not> quiet x s \<Longrightarrow> map_of (m_matches m') x = map_of (m_matches m) x"
    and "\<And>x. map_of (m_matches m') x \<noteq> None \<Longrightarrow> map_of (m_matches m) x \<noteq> None \<or> used s x"
  shows "tinv s m' fin ts"
proof -
  note I = tinvD[OF assms(1)]
  have live: "live_ok m' fin r" if "get_room i s = Some r" for i r
  proof -
    have "rm_matchId r = Some x \<Longrightarrow> rm_status r = RoomInMatch \<Longrightarrow> \<not> quiet x s" for x
      using that by (auto simp: quiet_def)
    then show ?thesis using I(4)[OF that] assms(3) by (auto simp: live_ok_def funded_def active_record_def)
  qed
  have u: "used s x" if "x = match_id_for (new_room_id n) q (rs_instanceTag s)" "map_of (m_matches m') x \<noteq> None" for x n q
    using that I(12)[of n q] assms(4)[of x] by auto
  show ?thesis
  proof (rule tinvI[OF I(1) assms(2) I(3) live I(5)])
    fix k assume k: "k \<in> set ts"
    have "x \<in> set (task_mids ts)" if "task_mid k = Some x" for x using k that in_task_mids by blast
    then show "task_ok s m' fin k" using assms(3) by (intro task_money[OF I(6)[OF k]]) blast
  qed (use I(7-11,13) u in simp_all)
qed

lemma tinv_money:
  assumes "tinv s m fin ts" "money_inv m'" "\<And>x. x \<noteq> mid \<Longrightarrow> map_of (m_matches m') x = map_of (m_matches m) x"
    and "quiet mid s" "mid \<notin> set (task_mids ts)" "used s mid"
  shows "tinv s m' fin ts"
proof (rule tinv_records[OF assms(1,2)])
  fix x assume "x \<in> set (task_mids ts) \<or> \<not> quiet x s"
  with assms(4,5) have "x \<noteq> mid" by auto
  then show "map_of (m_matches m') x = map_of (m_matches m) x" by (rule assms(3))
next
  fix x assume "map_of (m_matches m') x \<noteq> None"
  then show "map_of (m_matches m) x \<noteq> None \<or> used s x" using assms(3)[of x] assms(6) by (cases "x = mid") auto
qed

lemma tinv_fin:
  assumes "tinv s m fin ts" "fin' \<subseteq> fin"
  shows "tinv s m fin' ts"
proof -
  note I = tinvD[OF assms(1)]
  have "task_ok s m fin' k" if "task_ok s m fin k" for k
  proof -
    have w: "waiting s fin' i mid" if "waiting s fin i mid" for i mid
      using that assms(2) waitingD(4)[OF that] waiting_fin by blast
    show ?thesis using that by (cases "(s, m, fin, k)" rule: task_ok.cases) (auto intro: w)
  qed
  moreover have "live_ok m fin' r" if "live_ok m fin r" for r using that assms(2) by (auto simp: live_ok_def)
  ultimately show ?thesis using I assms(2) by (intro tinvI) blast+
qed

text \<open>A match id is closed for good.\<close>

lemma task_fin:
  assumes "task_ok s m fin k" "task_mid k \<noteq> Some mid"
  shows "task_ok s m (insert mid fin) k"
proof -
  have w: "waiting s (insert mid fin) i x" if "waiting s fin i x" "x \<noteq> mid" for i x
    using that waitingD(4)[OF that(1)] waiting_fin by blast
  show ?thesis using assms by (cases "(s, m, fin, k)" rule: task_ok.cases) (auto intro: w)
qed

lemma tinv_close:
  assumes "tinv s m fin ts" "quiet mid s" "mid \<notin> set (task_mids ts)" "used s mid"
  shows "tinv s m (insert mid fin) ts"
proof -
  note I = tinvD[OF assms(1)]
  have live: "live_ok m (insert mid fin) r" if "get_room i s = Some r" for i r
    using I(4)[OF that] assms(2) that by (auto simp: live_ok_def quiet_def)
  have ne: "k \<in> set ts \<Longrightarrow> task_mid k \<noteq> Some mid" for k using assms(3) by (auto simp: in_task_mids)
  show ?thesis using I(1-3,5-13) live task_fin[OF I(6) ne] assms(4) by (intro tinvI) blast+
qed

text \<open>The id of a room in a match belongs to no task.\<close>

lemma live_mid_free:
  assumes "tinv s m fin ts" "get_room i s = Some r" "rm_status r = RoomInMatch" "rm_matchId r = Some mid"
  shows "mid \<notin> set (task_mids ts)" "i \<notin> set (begin_rooms ts)" "mid \<notin> fin" "used s mid"
proof -
  note I = tinvD[OF assms(1)]
  have nq: "\<not> quiet mid s" using assms(2-4) by (auto simp: quiet_def)
  have "quiet mid s" if "k \<in> set ts" "task_mid k = Some mid" for k
    using I(6)[OF that(1)] that(2)
    by (cases "(s, m, fin, k)" rule: task_ok.cases) (auto simp: waiting_def split: awaiting.splits)
  with nq show "mid \<notin> set (task_mids ts)" by (auto simp: in_task_mids)
  show "i \<notin> set (begin_rooms ts)" using I(7) assms(2,3) by (auto simp: in_begin_rooms idle_def)
  show "mid \<notin> fin" using I(4)[OF assms(2)] assms(3,4) by (auto simp: live_ok_def)
  obtain n where n: "n \<le> rs_seq s" "i = new_room_id n" using rooms_invD(4)[OF I(1) assms(2)] by blast
  have "mid = match_id_for i (rm_matchSeq r) (rs_instanceTag s)"
    using I(3)[OF assms(2)] assms(4) rooms_invD(2)[OF I(1) assms(2)] by (auto simp: room_ids_def split: if_splits)
  then show "used s mid" unfolding used_def
    by (intro exI[of _ n] exI[of _ "rm_matchSeq r"]) (use n assms(2) in simp)
qed

lemma same_mid_same_room:
  assumes "tinv s m fin ts" "get_room i s = Some r" "get_room j s = Some q" "rm_matchId r = Some mid" "rm_matchId q = Some mid"
  shows "i = j"
proof -
  note I = tinvD[OF assms(1)]
  obtain n where n: "i = new_room_id n" using rooms_invD(4)[OF I(1) assms(2)] by blast
  obtain n' where n': "j = new_room_id n'" using rooms_invD(4)[OF I(1) assms(3)] by blast
  have "mid = match_id_for i (rm_matchSeq r) (rs_instanceTag s)" "mid = match_id_for j (rm_matchSeq q) (rs_instanceTag s)"
    using I(3)[OF assms(2)] I(3)[OF assms(3)] assms(4,5) rooms_invD(2)[OF I(1)] assms(2,3)
    by (auto simp: room_ids_def split: if_splits)
  then show "i = j" using match_id_inj n n' by metis
qed


subsection \<open>A new id, and the start\<close>

lemma tinv_assign:
  assumes T: "tinv s m fin ts" and r: "get_room i s = Some r" "rm_status r \<noteq> RoomInMatch" "i \<notin> set (begin_rooms ts)"
    and a: "assignMatchId i s = (Some mid, s')"
  shows "tinv s' m fin ts" "waiting s' fin i mid" "mid \<notin> set (task_mids ts)" "used s' mid" "numbered i s'" "idle i s'"
    "map_of (m_matches m) mid = None" "foreign s' ts mid"
    "\<exists>r'. get_room i s' = Some r' \<and> rm_matchId r' = Some mid \<and> rm_type r' = rm_type r \<and> rm_stakeCents r' = rm_stakeCents r"
proof -
  note I = tinvD[OF T]
  let ?tag = "rs_instanceTag s"
  let ?r = "r\<lparr>rm_matchSeq := rm_matchSeq r + 1, rm_matchId := Some mid\<rparr>"
  have id: "rm_id r = i" by (rule rooms_invD(2)[OF I(1) r(1)])
  have mid: "mid = match_id_for i (rm_matchSeq r + 1) ?tag" and s': "s' = put_room ?r s"
    using a r(1) by (auto simp: assignMatchId_def Let_def)
  obtain n where n: "n \<le> rs_seq s" "i = new_room_id n" using rooms_invD(4)[OF I(1) r(1)] by blast
  have g: "get_room j s' = (if j = i then Some ?r else get_room j s)" for j by (simp add: s' id)
  have tag: "rs_instanceTag s' = ?tag" and seq: "rs_seq s' = rs_seq s" by (simp_all add: s')
  have u: "used s' x" if x: "used s x" for x
  proof -
    obtain k q where k: "x = match_id_for (new_room_id k) q ?tag" "k \<le> rs_seq s"
      "\<forall>r. get_room (new_room_id k) s = Some r \<longrightarrow> q \<le> rm_matchSeq r" using x unfolding used_def by blast
    have "\<forall>r. get_room (new_room_id k) s' = Some r \<longrightarrow> q \<le> rm_matchSeq r" using k(3) r(1) by (auto simp: g)
    with k show ?thesis unfolding used_def tag seq by blast
  qed
  have fresh: "\<not> used s mid"
  proof
    assume "used s mid"
    then obtain k q where k: "mid = match_id_for (new_room_id k) q ?tag"
      "\<forall>r. get_room (new_room_id k) s = Some r \<longrightarrow> q \<le> rm_matchSeq r" unfolding used_def by blast
    have "k = n" "q = rm_matchSeq r + 1" using match_id_inj[of n "rm_matchSeq r + 1" ?tag k q] mid k(1) n(2) by auto
    with k(2) r(1) n(2) show False by auto
  qed
  have other: "rm_matchId q \<noteq> Some mid" if "get_room j s = Some q" for j q
  proof
    assume q: "rm_matchId q = Some mid"
    then have m1: "mid = match_id_for j (rm_matchSeq q) ?tag"
      using I(3)[OF that] rooms_invD(2)[OF I(1) that] by (auto simp: room_ids_def split: if_splits)
    obtain n' where "n' \<le> rs_seq s" "j = new_room_id n'" using rooms_invD(4)[OF I(1), of j q] \<open>get_room j s = Some q\<close> by blast
    with m1 \<open>get_room j s = Some q\<close> have "used s mid" by (intro usedI[of _ n' "rm_matchSeq q"]) auto
    with fresh show False by simp
  qed
  have mfree: "mid \<notin> fin" using I(5) fresh by blast
  show free: "mid \<notin> set (task_mids ts)" using I(9) fresh by (auto simp: in_task_mids)
  show "used s' mid" unfolding used_def tag seq
    by (intro exI[of _ n] exI[of _ "rm_matchSeq r + 1"]) (use n mid in \<open>simp add: g\<close>)
  show "map_of (m_matches m) mid = None" using I(12)[of n "rm_matchSeq r + 1"] fresh unfolding mid n(2) by blast
  show "numbered i s'" using n by (auto simp: numbered_def seq)
  show "idle i s'" using r(2) by (simp add: idle_def g)
  show "foreign s' ts mid" using r(3) other by (auto simp: foreign_def g)
  have quiet: "quiet x s'" if "quiet x s" for x using that r(2) by (auto simp: quiet_def g)
  show "waiting s' fin i mid"
    by (rule waitingI) (use mfree other r(2) in \<open>auto simp: g quiet_def split: if_splits\<close>)
  show "\<exists>r'. get_room i s' = Some r' \<and> rm_matchId r' = Some mid \<and> rm_type r' = rm_type r \<and> rm_stakeCents r' = rm_stakeCents r"
    by (simp add: g)
  have w: "waiting s' fin j x" if "waiting s fin j x" "j \<noteq> i" "x \<noteq> mid" for j x
    by (rule waiting_other[OF that(1) g that(2)]) (use that(3) quiet[OF waitingD(3)[OF that(1)]] in simp_all)
  have st: "stake_of j s' c" if "stake_of j s c" for j c using that r(1) unfolding stake_of_def g by auto
  have op: "opened_for m s' j x ps" if "opened_for m s j x ps" for j x ps using that st unfolding opened_for_def by blast
  show "tinv s' m fin ts"
  proof (rule tinvI)
    show "rooms_inv s'" using assignMatchId_inv[OF I(1), of i] a by simp
    fix j q assume q: "get_room j s' = Some q"
    show "room_ids (rs_instanceTag s') q"
      using I(3)[OF r(1)] I(3)[of j q] q mid id by (auto simp: g tag room_ids_def people_def roster_def split: if_splits)
    show "live_ok m fin q" using I(4)[of j q] q r(2) by (auto simp: g live_ok_def split: if_splits)
  next
    fix k assume k: "k \<in> set ts"
    have nm: "task_mid k \<noteq> Some mid" using free k by (auto simp: in_task_mids)
    have ni: "begin_room k \<noteq> Some i" using r(3) k by (auto simp: in_begin_rooms)
    show "task_ok s' m fin k" using I(6)[OF k] nm ni
      by (cases "(s, m, fin, k)" rule: task_ok.cases) (auto intro: w quiet st op)
    show "idle j s' \<and> numbered j s'" if "begin_room k = Some j" for j
      using I(7,8)[OF k that] ni that by (auto simp: idle_def g numbered_def seq)
    show "used s' x" if "task_mid k = Some x" for x by (rule u[OF I(9)[OF k that]])
  next
    show "owned s' ts" using I(13) r(3) free unfolding owned_def g by (auto simp: in_task_mids split: if_splits)
  qed (use I u in \<open>auto simp: tag\<close>)
qed

lemma tinv_start:
  assumes T: "tinv s m fin ts" and r: "get_room i s = Some r" "i \<notin> set (begin_rooms ts)" "rm_matchId r = Some mid"
    and free: "mid \<notin> set (task_mids ts)" "mid \<notin> fin" and full: "room_full r" and pay: "rm_practice r \<or> funded m r mid"
    and r': "rm_id r' = rm_id r" "facts_of r' = facts_of r" "roster r' = roster r" "rooms_inv (put_room r' s)"
  shows "tinv (put_room r' s) m fin ts"
proof -
  note I = tinvD[OF T]
  have id: "rm_id r = i" by (rule rooms_invD(2)[OF I(1) r(1)])
  have g: "get_room j (put_room r' s) = (if j = i then Some r' else get_room j s)" for j by (simp add: r'(1) id)
  have f: "rm_matchId r' = Some mid" "rm_matchSeq r' = rm_matchSeq r" "rm_stakeCents r' = rm_stakeCents r" "rm_practice r' = rm_practice r"
    using r'(2) r(3) by (simp_all add: facts_of_def)
  have u: "used (put_room r' s) x" if x: "used s x" for x
  proof -
    obtain k q where k: "x = match_id_for (new_room_id k) q (rs_instanceTag s)" "k \<le> rs_seq s"
      "\<forall>r. get_room (new_room_id k) s = Some r \<longrightarrow> q \<le> rm_matchSeq r" using x unfolding used_def by blast
    have "\<forall>r. get_room (new_room_id k) (put_room r' s) = Some r \<longrightarrow> q \<le> rm_matchSeq r" using k(3) r(1) f(2) unfolding g by auto
    with k show ?thesis by (intro usedI[of _ k q]) (simp_all only: manager_simps tag_simps)
  qed
  have q: "quiet x (put_room r' s)" if "quiet x s" "x \<noteq> mid" for x
    using that f(1) unfolding quiet_def g by auto
  have w: "waiting (put_room r' s) fin j x" if "waiting s fin j x" "j \<noteq> i" "x \<noteq> mid" for j x
    by (rule waiting_other[OF that(1) g that(2)]) (use that(3) f(1) q[OF waitingD(3)[OF that(1)]] in simp_all)
  have st: "stake_of j (put_room r' s) c" if "stake_of j s c" for j c using that r(1) f(3) unfolding stake_of_def g by auto
  have op: "opened_for m (put_room r' s) j x ps" if "opened_for m s j x ps" for j x ps using that st unfolding opened_for_def by blast
  have new: "live_ok m fin r'" using full pay free(2) f charged_cong[OF r'(3)] r'(3)
    by (auto simp: live_ok_def funded_def room_full_def roster_def list_all_iff)
  show ?thesis
  proof (rule tinvI[OF r'(4) I(2)])
    fix j p assume p: "get_room j (put_room r' s) = Some p"
    show "room_ids (rs_instanceTag (put_room r' s)) p"
      using I(3)[OF r(1)] I(3)[of j p] p r(3) f r'(1,3) by (auto simp: g room_ids_def people_def split: if_splits)
    show "live_ok m fin p" using I(4)[of j p] p new by (auto simp: g split: if_splits)
  next
    fix k assume k: "k \<in> set ts"
    have nm: "task_mid k \<noteq> Some mid" using free k by (auto simp: in_task_mids)
    have ni: "begin_room k \<noteq> Some i" using r(2) k by (auto simp: in_begin_rooms)
    show "task_ok (put_room r' s) m fin k" using I(6)[OF k] nm ni
      by (cases "(s, m, fin, k)" rule: task_ok.cases) (auto intro: w q st op)
    show "idle j (put_room r' s) \<and> numbered j (put_room r' s)" if "begin_room k = Some j" for j
      using I(7,8)[OF k that] ni that r'(1) id by (auto simp: idle_def numbered_def)
    show "used (put_room r' s) x" if "task_mid k = Some x" for x by (rule u[OF I(9)[OF k that]])
  next
    show "owned (put_room r' s) ts" using I(13) r(2) unfolding owned_def g by auto
  qed (use I u in auto)
qed

end
