(* ===== verification/Table_Steps.thy ===== *)
theory Table_Steps
  imports Table_Invariant
begin

text \<open>
  Every handler of the tables keeps the invariant: the calls of the money service, the start of a
  match from the countdown on, its end, departures, timeouts and rematches.
\<close>

subsection \<open>Calls of the money service\<close>

lemma escrow_call:
  assumes "money_inv m" "map_of (m_matches m) mid = None" "distinct (map mp_seat ps)" "0 \<le> stake" "0 \<le> rake" "rake \<le> 10000"
    and "escrow (tx_wallet rollback) (Some rollback) {} mid ty stake rake ps now m = (res, m')"
  obtains (same) "m' = m" "\<And>r. res = Inr r \<Longrightarrow> \<not> er_ok r"
  | (opened) rec where "money_inv m'" "\<And>x. x \<noteq> mid \<Longrightarrow> map_of (m_matches m') x = map_of (m_matches m) x"
      "active_record m' mid rec" "r_players rec = ps" "r_stakeCents rec = stake"
proof (rule escrow_cases[OF rolls_back_rollback, of "tx_wallet rollback" mid ty stake rake ps now m])
  assume "snd (escrow (tx_wallet rollback) (Some rollback) {} mid ty stake rake ps now m) = m"
    "\<And>r. fst (escrow (tx_wallet rollback) (Some rollback) {} mid ty stake rake ps now m) = Inr r \<Longrightarrow> er_ok r \<Longrightarrow>
       map_of (m_matches m) mid \<noteq> None"
  then show thesis using assms(2,7) by (intro same) auto
next
  fix s' assume w: "escrow_writes mid ty stake rake ps now bind_wallet m = (Inr (), s')"
    and e: "escrow (tx_wallet rollback) (Some rollback) {} mid ty stake rake ps now m =
       (Inr \<lparr>er_ok = True, er_potCents = potCents stake (length ps), er_code = None, er_insufficientUserIds = []\<rparr>, s')"
  note i = escrow_writes_inv[OF assms(1,2,4,5,6,3) w]
  have m': "m' = s'" using e assms(7) by simp
  show thesis
    by (rule opened[of "the (map_of (m_matches s') mid)"])
       (use i(1) in \<open>simp_all add: m' i(3) matches_create_def update_conv' active_record_def\<close>)
qed

lemma refund_call:
  assumes "money_inv m" "refund (tx_wallet rollback) (Some rollback) {} mid now m = (res, m')"
  shows "money_inv m'" "\<And>x. x \<noteq> mid \<Longrightarrow> map_of (m_matches m') x = map_of (m_matches m) x"
    "map_of (m_matches m) x = None \<Longrightarrow> map_of (m_matches m') x = None"
proof -
  have "money_inv m' \<and> (\<forall>x. x \<noteq> mid \<longrightarrow> map_of (m_matches m') x = map_of (m_matches m) x) \<and>
      (map_of (m_matches m) mid = None \<longrightarrow> map_of (m_matches m') mid = None)"
  proof (rule refund_cases[OF rolls_back_rollback, of "tx_wallet rollback" mid now m])
    assume "snd (refund (tx_wallet rollback) (Some rollback) {} mid now m) = m"
    with assms show ?thesis by simp
  next
    fix r s' assume r: "map_of (m_matches m) mid = Some r" "r_status r = ActiveMatch"
      and w: "refund_writes r now bind_wallet m = (Inr (), s')"
      and e: "refund (tx_wallet rollback) (Some rollback) {} mid now m = (Inr (), s')"
    show ?thesis using refund_writes_inv[OF assms(1) r w] e assms(2) r(1) by (simp add: books_rows_def)
  qed
  then show "money_inv m'" "\<And>x. x \<noteq> mid \<Longrightarrow> map_of (m_matches m') x = map_of (m_matches m) x"
    "map_of (m_matches m) x = None \<Longrightarrow> map_of (m_matches m') x = None" by (metis+)
qed

lemma settle_call:
  assumes "money_inv m" "distinct seats" "settle (tx_wallet rollback) (Some rollback) {} mid seats now m = (res, m')"
  shows "money_inv m'" "\<And>x. x \<noteq> mid \<Longrightarrow> map_of (m_matches m') x = map_of (m_matches m) x"
proof -
  have "money_inv m' \<and> (\<forall>x. x \<noteq> mid \<longrightarrow> map_of (m_matches m') x = map_of (m_matches m) x)"
  proof (rule settle_cases[OF rolls_back_rollback, of "tx_wallet rollback" mid seats now m])
    assume "snd (settle (tx_wallet rollback) (Some rollback) {} mid seats now m) = m"
    with assms show ?thesis by simp
  next
    fix r st s' assume r: "map_of (m_matches m) mid = Some r" "r_status r = ActiveMatch"
      and c: "computeSettlement (r_potCents r) (r_rakeBps r) (seated_winners r seats) = Inr st"
      and w: "settle_writes r (seated_winners r seats) st now bind_wallet m = (Inr (), s')"
      and e: "settle (tx_wallet rollback) (Some rollback) {} mid seats now m = (Inr (Some st), s')"
    show ?thesis using settle_writes_inv[OF assms(1) r seated_winners_distinct[OF assms(2)] c w] e assms(3)
      by (simp add: books_rows_def)
  qed
  then show "money_inv m'" "\<And>x. x \<noteq> mid \<Longrightarrow> map_of (m_matches m') x = map_of (m_matches m) x" by blast+
qed

text \<open>A sweep leaves the live and the locked matches alone.\<close>

lemma locked_refund: "mid \<in> locked \<Longrightarrow> refund w uow locked mid now m = (Inr (), m)"
  and free_refund: "mid \<notin> locked \<Longrightarrow> refund w uow locked mid now m = refund w uow {} mid now m"
  by (simp_all add: refund_def)

lemma sweep_call:
  assumes "money_inv m" "refund_each (tx_wallet rollback) (Some rollback) locked live now rs done m = (res, m')"
  shows "money_inv m' \<and> (\<forall>x. x \<in> live \<or> x \<in> locked \<longrightarrow> map_of (m_matches m') x = map_of (m_matches m) x) \<and>
    (\<forall>x. map_of (m_matches m) x = None \<longrightarrow> map_of (m_matches m') x = None)"
  using assms
proof (induction rs arbitrary: "done" m)
  case Nil
  then show ?case by simp
next
  case (Cons r rs)
  show ?case
  proof (cases "r_id r \<in> live")
    case True
    with Cons show ?thesis by simp
  next
    case False
    obtain a m1 where f: "refund (tx_wallet rollback) (Some rollback) locked (r_id r) now m = (a, m1)" by fastforce
    have m1: "money_inv m1 \<and> (\<forall>x. x \<in> live \<or> x \<in> locked \<longrightarrow> map_of (m_matches m1) x = map_of (m_matches m) x) \<and>
        (\<forall>x. map_of (m_matches m) x = None \<longrightarrow> map_of (m_matches m1) x = None)"
    proof (cases "r_id r \<in> locked")
      case True
      then have "m1 = m" using f by (simp add: locked_refund)
      with Cons.prems(1) show ?thesis by simp
    next
      case no: False
      note c = refund_call[OF Cons.prems(1) f[unfolded free_refund[OF no]]]
      have "map_of (m_matches m1) x = map_of (m_matches m) x" if "x \<in> live \<or> x \<in> locked" for x
        by (rule c(2)) (use that False no in blast)
      with c(1,3) show ?thesis by blast
    qed
    show ?thesis
    proof (cases a)
      case (Inl e)
      with Cons.prems(2) False f m1 show ?thesis by simp
    next
      case (Inr u)
      then have "refund_each (tx_wallet rollback) (Some rollback) locked live now rs (done @ [r_id r]) m1 = (res, m')"
        using Cons.prems(2) False f by simp
      from Cons.IH[OF _ this] m1 show ?thesis by metis
    qed
  qed
qed


subsection \<open>Changes of the tables\<close>

lemma irrelevant_parts [simp]:
  "tables_inv (t\<lparr>tb_countdowns := c\<rparr>) = tables_inv t" "tables_inv (t\<lparr>tb_strikes := f\<rparr>) = tables_inv t"
  "tables_inv (t\<lparr>tb_offers := os\<rparr>) = tables_inv t"
  by (simp_all add: tables_inv_def)

lemma with_rooms_simps [simp]:
  "tb_rooms (with_rooms s t) = s" "tb_money (with_rooms s t) = tb_money t" "tb_finalized (with_rooms s t) = tb_finalized t"
  "tb_tasks (with_rooms s t) = tb_tasks t" "with_rooms s (with_rooms s' t) = with_rooms s t" "with_rooms (tb_rooms t) t = t"
  by (simp_all add: with_rooms_def)

lemma push_simps [simp]:
  "tb_rooms (push_task k t) = tb_rooms t" "tb_money (push_task k t) = tb_money t"
  "tb_finalized (push_task k t) = tb_finalized t" "tb_tasks (push_task k t) = tb_tasks t @ [k]"
  by (simp_all add: push_task_def)

lemma side_simps [simp]:
  "tb_rooms (clearCountdown i t) = tb_rooms t" "tb_tasks (clearCountdown i t) = tb_tasks t"
  "tb_rooms (maybeStartCountdown i t) = tb_rooms t" "tb_rooms (no_strikes u t) = tb_rooms t"
  "tb_rooms (clearRoomStrikes i t) = tb_rooms t" "tb_rooms (cancelRematch i t) = tb_rooms t"
  "tb_tasks (no_strikes u t) = tb_tasks t" "tb_tasks (clearRoomStrikes i t) = tb_tasks t"
  "tb_finalized (no_strikes u t) = tb_finalized t" "tb_money (no_strikes u t) = tb_money t"
  "tables_inv (clearCountdown i t) = tables_inv t" "tables_inv (maybeStartCountdown i t) = tables_inv t"
  "tables_inv (no_strikes u t) = tables_inv t" "tables_inv (clearRoomStrikes i t) = tables_inv t"
  "tables_inv (cancelRematch i t) = tables_inv t"
  by (simp_all add: clearCountdown_def maybeStartCountdown_def no_strikes_def clearRoomStrikes_def cancelRematch_def
      split: option.split)

lemma tables_rooms_inv: "tables_inv t \<Longrightarrow> rooms_inv (tb_rooms t)"
  by (simp add: tables_inv_def tinv_def)

lemma rooms_move: "tables_inv t \<Longrightarrow> moves (tb_rooms t) s \<Longrightarrow> tables_inv (with_rooms s t)"
  by (simp add: tables_inv_def tinv_moves)

lemma in_flight_mids: "set (in_flight ts) \<subseteq> set (task_mids ts)"
proof
  fix mid assume "mid \<in> set (in_flight ts)"
  then obtain k where k: "k \<in> set ts" "task_lock k = Some mid" by (auto simp: in_flight_def List.map_filter_def)
  have "task_mid k = Some mid" using k(2) by (cases k) auto
  with k(1) show "mid \<in> set (task_mids ts)" using in_task_mids by blast
qed

lemma call_free: "call_mid call = Some mid \<Longrightarrow> mid \<notin> set (task_mids (tb_tasks t)) \<Longrightarrow>
   call_money call k t = push_task (Await call k) t"
  using in_flight_mids[of "tb_tasks t"] by (auto simp: call_money_def)

text \<open>A room in which no start is under way; and one whose start has its match id.\<close>

definition no_start :: "string \<Rightarrow> tables \<Rightarrow> bool" where
  "no_start i t \<longleftrightarrow> tables_inv t \<and> idle i (tb_rooms t) \<and> numbered i (tb_rooms t) \<and> i \<notin> set (begin_rooms (tb_tasks t)) \<and>
     (\<forall>r mid. get_room i (tb_rooms t) = Some r \<longrightarrow> rm_matchId r = Some mid \<longrightarrow> mid \<notin> set (task_mids (tb_tasks t)))"

definition starting :: "string \<Rightarrow> string \<Rightarrow> tables \<Rightarrow> bool" where
  "starting i mid t \<longleftrightarrow> no_start i t \<and> waiting (tb_rooms t) (set (tb_finalized t)) i mid \<and> used (tb_rooms t) mid \<and>
     mid \<notin> set (task_mids (tb_tasks t))"

lemma no_start_inv: "no_start i t \<Longrightarrow> tables_inv t"
  by (simp add: no_start_def)

lemma no_start_moves:
  assumes "no_start i t" "moves (tb_rooms t) s"
  shows "no_start i (with_rooms s t)"
proof -
  have t: "tame (tb_rooms t) s" using assms(2) by (simp add: moves_def)
  have "mid \<notin> set (task_mids (tb_tasks t))" if "get_room i s = Some r" "rm_matchId r = Some mid" for r mid
    using id_back[OF t that] assms(1) by (auto simp: no_start_def)
  then show ?thesis using assms rooms_move idle_moves[OF t] numbered_moves[OF t] by (auto simp: no_start_def)
qed

lemma starting_moves:
  assumes "starting i mid t" "moves (tb_rooms t) s"
  shows "starting i mid (with_rooms s t)"
proof -
  have t: "tame (tb_rooms t) s" using assms(2) by (simp add: moves_def)
  have a: "no_start i t" "numbered i (tb_rooms t)" "waiting (tb_rooms t) (set (tb_finalized t)) i mid" "used (tb_rooms t) mid"
    "mid \<notin> set (task_mids (tb_tasks t))" using assms(1) by (simp_all add: starting_def no_start_def)
  show ?thesis unfolding starting_def with_rooms_simps
    by (intro conjI no_start_moves[OF a(1) assms(2)] waiting_moves[OF t a(2,3)] used_moves[OF t a(4)] a(5))
qed

lemma starting_waits: "starting i mid t \<Longrightarrow> waiting (tb_rooms t) (set (tb_finalized t)) i mid"
  by (simp add: starting_def)

lemma starting_foreign: "starting i mid t \<Longrightarrow> foreign (tb_rooms t) (tb_tasks t) mid"
  unfolding foreign_def starting_def no_start_def using waitingD(2) by blast

text \<open>A task of the start is added.\<close>

lemma push_start:
  assumes "starting i mid t" "task_ok (tb_rooms t) (tb_money t) (set (tb_finalized t)) k" "begin_room k = Some i"
    and "task_mid k = Some mid \<or> task_mid k = None"
  shows "tables_inv (push_task k t)"
proof -
  have s: "no_start i t" "used (tb_rooms t) mid" "mid \<notin> set (task_mids (tb_tasks t))" "foreign (tb_rooms t) (tb_tasks t) mid"
    using assms(1) starting_foreign[OF assms(1)] by (simp_all add: starting_def)
  show ?thesis unfolding tables_inv_def push_simps
    by (rule tinv_push) (use s assms(2-4) in \<open>auto simp: no_start_def tables_inv_def\<close>)
qed

lemma push_doomed:
  assumes "no_start i t" "begin_room k = Some i" "task_ok (tb_rooms t) (tb_money t) (set (tb_finalized t)) k"
    and "\<And>mid. task_mid k = Some mid \<Longrightarrow> (\<exists>r. get_room i (tb_rooms t) = Some r \<and> rm_matchId r = Some mid)"
  shows "tables_inv (push_task k t)"
proof -
  have T: "tinv (tb_rooms t) (tb_money t) (set (tb_finalized t)) (tb_tasks t)" using assms(1) by (simp add: no_start_def tables_inv_def)
  note I = tinvD[OF T]
  have ok: "used (tb_rooms t) mid \<and> mid \<notin> set (task_mids (tb_tasks t)) \<and> foreign (tb_rooms t) (tb_tasks t) mid"
    if "task_mid k = Some mid" for mid
  proof -
    from assms(4)[OF that] obtain r where r: "get_room i (tb_rooms t) = Some r" "rm_matchId r = Some mid" by blast
    from rooms_invD(4)[OF I(1) r(1)] obtain n where n: "n \<le> rs_seq (tb_rooms t)" "i = new_room_id n" by blast
    have "mid = match_id_for i (rm_matchSeq r) (rs_instanceTag (tb_rooms t))"
      using I(3)[OF r(1)] r(2) rooms_invD(2)[OF I(1) r(1)] by (auto simp: room_ids_def split: if_splits)
    then have "used (tb_rooms t) mid" by (intro usedI[of _ n "rm_matchSeq r"]) (use n r(1) in auto)
    moreover have "foreign (tb_rooms t) (tb_tasks t) mid"
      unfolding foreign_def using same_mid_same_room[OF T r(1) _ r(2)] assms(1) by (auto simp: no_start_def)
    ultimately show ?thesis using assms(1) r by (auto simp: no_start_def)
  qed
  show ?thesis unfolding tables_inv_def push_simps
    by (rule tinv_push[OF T assms(3)]) (use ok assms(1,2) in \<open>auto simp: no_start_def\<close>)
qed


subsection \<open>The start of a match\<close>

lemma unready_steps: "tables_inv t \<Longrightarrow> tables_inv (with_rooms (unready_all i (tb_rooms t)) t)"
  by (rule rooms_move) (simp_all add: unready_all_moves tables_rooms_inv)

lemma unready_unless_inv: "tables_inv t \<Longrightarrow> tables_inv (unready_unless_playing i t)"
  by (simp add: unready_unless_playing_def unready_steps split: option.split)

lemma begin_failed_inv:
  assumes "no_start i t"
  shows "tables_inv (begin_failed i t)"
proof (cases "matchIdOf i (tb_rooms t)")
  case None
  then show ?thesis using unready_unless_inv[OF no_start_inv[OF assms]] by (simp add: begin_failed_def)
next
  case (Some mid)
  then obtain r where r: "get_room i (tb_rooms t) = Some r" "rm_matchId r = Some mid" by (auto simp: matchIdOf_def split: option.splits)
  have T: "tinv (tb_rooms t) (tb_money t) (set (tb_finalized t)) (tb_tasks t)" using assms by (simp add: no_start_def tables_inv_def)
  have "mid \<notin> set (task_mids (tb_tasks t))" using assms r by (auto simp: no_start_def)
  then have e: "call_money (RefundCall mid) (BeginFailed i) t = push_task (Await (RefundCall mid) (BeginFailed i)) t"
    by (intro call_free) simp_all
  have "quiet mid (tb_rooms t)" unfolding quiet_def
    using assms same_mid_same_room[OF T _ r(1) _ r(2)] by (auto simp: no_start_def idle_def)
  then show ?thesis unfolding begin_failed_def Some option.case e
    by (intro push_doomed[OF assms]) (use r in auto)
qed

lemma refund_start:
  assumes "starting i mid t" "k = BeginAborted i \<or> k = BeginFailed i"
  shows "tables_inv (call_money (RefundCall mid) k t)"
proof -
  have "call_money (RefundCall mid) k t = push_task (Await (RefundCall mid) k) t"
    by (rule call_free[of _ mid]) (use assms(1) in \<open>auto simp: starting_def\<close>)
  moreover have "quiet mid (tb_rooms t)" using assms(1) waitingD(3) by (auto simp: starting_def)
  then have "tables_inv (push_task (Await (RefundCall mid) k) t)"
    by (intro push_start[OF assms(1)]) (use assms(2) in auto)
  ultimately show ?thesis by simp
qed

lemma starting_room:
  assumes "starting i mid t" "get_room i (tb_rooms t) = Some r"
  shows "rm_matchId r = Some mid" "rm_id r = i" "\<forall>u\<in>people r. \<not> is_bot u" "rm_status r \<noteq> RoomInMatch"
    "0 \<le> rm_stakeCents r" "room_ok r"
proof -
  have T: "tinv (tb_rooms t) (tb_money t) (set (tb_finalized t)) (tb_tasks t)" "idle i (tb_rooms t)"
    using assms(1) by (simp_all add: starting_def no_start_def tables_inv_def)
  note I = tinvD[OF T(1)]
  show "rm_matchId r = Some mid" using assms waitingD(1) by (auto simp: starting_def)
  show "rm_id r = i" "room_ok r" using rooms_invD(2,3)[OF I(1) assms(2)] by simp_all
  show "\<forall>u\<in>people r. \<not> is_bot u" "0 \<le> rm_stakeCents r" using I(3)[OF assms(2)] by (simp_all add: room_ids_def)
  show "rm_status r \<noteq> RoomInMatch" using T(2) assms(2) by (simp add: idle_def)
qed

lemma full_charges: "room_full r \<Longrightarrow> \<forall>u\<in>people r. \<not> is_bot u \<Longrightarrow> room_ok r \<Longrightarrow> charged_players r \<noteq> []"
proof
  assume "room_full r" "\<forall>u\<in>people r. \<not> is_bot u" "room_ok r" "charged_players r = []"
  then have "{..<length (rm_seats r)} = {}" using charged_full[of r] by simp
  then show False using \<open>room_ok r\<close> playersForType_bounds(1)[of "rm_type r"] by (simp add: room_ok_def seats_ok_def lessThan_empty_iff)
qed

definition dealer_fits :: "dealer option \<Rightarrow> string \<Rightarrow> room_manager \<Rightarrow> bool" where
  "dealer_fits dlr i s \<longleftrightarrow> (case dlr of None \<Rightarrow> True | Some d \<Rightarrow>
     (\<forall>r. get_room i s = Some r \<longrightarrow> dealer_ok (playersForType (rm_type r)) d))"

lemma dealer_fits_for:
  "factory_ok fac \<Longrightarrow> dealer_fits dlr i s \<Longrightarrow> get_room i s = Some r \<Longrightarrow> dealer_ok (playersForType (rm_type r)) (dealer_for fac dlr r)"
  by (auto simp: dealer_fits_def dealer_for_def factory_ok_def split: option.splits)

lemma dealer_fits_moves:
  assumes "numbered i s" "tame s s'" "dealer_fits dlr i s"
  shows "dealer_fits dlr i s'"
proof -
  have "\<exists>r. get_room i s = Some r \<and> rm_type r = rm_type r'" if "get_room i s' = Some r'" for r'
    using tame_facts[OF assms(2) that] assms(1) by cases (auto simp: room_tame_def facts_of_def room_fresh_def numbered_def)
  with assms(3) show ?thesis unfolding dealer_fits_def by (auto split: option.splits)
qed

lemma start_table_inv:
  assumes s: "starting i mid t" and d: "factory_ok fac" "dealer_fits dlr i (tb_rooms t)"
    and c: "\<And>r. get_room i (tb_rooms t) = Some r \<Longrightarrow>
      if charged then \<exists>rec. active_record (tb_money t) mid rec \<and> set (r_players rec) = set (charged_players r) \<and>
        r_stakeCents rec = rm_stakeCents r
      else rm_practice r \<or> charged_players r = []"
  shows "tables_inv (start_table fac dlr i mid charged t)"
proof -
  let ?s = "tb_rooms t"
  have n: "no_start i t" using s by (simp add: starting_def)
  have T: "tinv ?s (tb_money t) (set (tb_finalized t)) (tb_tasks t)" using n by (simp add: no_start_def tables_inv_def)
  note I = tinvD(1)[OF T]
  obtain res s' where st: "startMatch fac i dlr ?s = (res, s')" by fastforce
  have si: "rooms_inv s'" "res \<noteq> Inl (MatchThrew e)" for e
    using startMatch_inv[OF I, of i fac dlr] dealer_fits_for[OF d] st by auto
  show ?thesis
  proof (cases res)
    case (Inl err)
    then obtain code where e: "err = RoomCode code" using si(2) by (cases err) auto
    have "s' = ?s" using st Inl by (auto simp: startMatch_def Let_def split: option.splits if_splits sum.splits)
    then show ?thesis using Inl e st refund_start[OF s] unready_steps[OF no_start_inv[OF n]]
      by (simp add: start_table_def)
  next
    case (Inr u)
    then obtain r m where r: "get_room i ?s = Some r" "room_full r"
      and s': "s' = put_room (r\<lparr>rm_match := Some (dealer_for fac dlr r, m), rm_status := RoomInMatch, rm_target := m_target m\<rparr>) ?s"
      using st by (auto simp: startMatch_def Let_def dealer_for_def isFull_def split: option.splits if_splits sum.splits)
    note q = starting_room[OF s r(1)]
    let ?r = "r\<lparr>rm_match := Some (dealer_for fac dlr r, m), rm_status := RoomInMatch, rm_target := m_target m\<rparr>"
    have "rm_practice r \<or> funded (tb_money t) r mid"
      using c[OF r(1)] full_charges[OF r(2) q(3,6)] by (auto simp: funded_def split: if_splits)
    then have "tinv (put_room ?r ?s) (tb_money t) (set (tb_finalized t)) (tb_tasks t)"
      using s n r(2) si(1) waitingD(4)[OF starting_waits[OF s]]
      by (intro tinv_start[OF T r(1) _ q(1)]) (simp_all add: starting_def no_start_def s')
    then show ?thesis using Inr st s' by (simp add: start_table_def tables_inv_def)
  qed
qed


lemma charge_table_inv:
  assumes s: "starting i mid t" and d: "factory_ok fac" "dealer_fits dlr i (tb_rooms t)"
    and m: "map_of (m_matches (tb_money t)) mid = None"
  shows "tables_inv (charge_table fac dlr i mid t)"
proof (cases "get_room i (tb_rooms t)")
  case None
  then show ?thesis using s by (simp add: charge_table_def starting_def no_start_def)
next
  case (Some r)
  note q = starting_room[OF s Some]
  show ?thesis
  proof (cases "rm_practice r \<or> charged_players r = []")
    case True
    have "tables_inv (start_table fac dlr i mid False t)"
      by (rule start_table_inv[OF s d]) (use Some True in auto)
    with Some True show ?thesis by (simp add: charge_table_def)
  next
    case False
    let ?k = "Await (EscrowCall mid (rm_type r) (rm_stakeCents r) (charged_players r)) (BeginCharged i mid (charged_players r))"
    have "tables_inv (push_task ?k t)"
      by (rule push_start[OF s]) (use starting_waits[OF s] m q(5) Some charged_distinct in \<open>simp_all add: stake_of_def\<close>)
    moreover have "charge_table fac dlr i mid t = push_task ?k t"
      using Some False s by (simp add: charge_table_def call_free starting_def)
    ultimately show ?thesis by simp
  qed
qed

lemma next_gate_inv:
  assumes s: "starting i mid t" and d: "factory_ok fac" "dealer_fits dlr i (tb_rooms t)"
    and m: "map_of (m_matches (tb_money t)) mid = None"
  shows "tables_inv (next_gate fac dlr i mid k blocked t)"
proof -
  have "tables_inv (push_task (Gate i mid j b) t)" for j b
    by (rule push_start[OF s]) (use starting_waits[OF s] m in simp_all)
  with s charge_table_inv[OF assms] show ?thesis
    by (simp add: next_gate_def starting_def no_start_def split: option.split)
qed

lemma tryBeginMatch_inv:
  assumes T: "tables_inv t" and i: "idle i (tb_rooms t)" "i \<notin> set (begin_rooms (tb_tasks t))"
    and d: "factory_ok fac" "dealer_fits dlr i (tb_rooms t)"
  shows "tables_inv (tryBeginMatch fac dlr i t)"
proof (cases "get_room i (tb_rooms t)")
  case None
  with T show ?thesis by (simp add: tryBeginMatch_def)
next
  case (Some r)
  define t1 where "t1 = (case rm_matchId r of None \<Rightarrow> t | Some prev \<Rightarrow> t\<lparr>tb_finalized := set_delete prev (tb_finalized t)\<rparr>)"
  have t1: "tb_rooms t1 = tb_rooms t" "tb_tasks t1 = tb_tasks t" "tb_money t1 = tb_money t"
    "set (tb_finalized t1) \<subseteq> set (tb_finalized t)"
    by (auto simp: t1_def set_delete_def split: option.split)
  have T1: "tinv (tb_rooms t) (tb_money t) (set (tb_finalized t1)) (tb_tasks t)"
    using T t1(4) by (auto simp: tables_inv_def intro: tinv_fin)
  obtain mid s' where a: "assignMatchId i (tb_rooms t) = (Some mid, s')"
    using Some by (simp add: assignMatchId_def Let_def)
  have st: "rm_status r \<noteq> RoomInMatch" using i(1) Some by (simp add: idle_def)
  note A = tinv_assign[OF T1 Some st i(2) a]
  let ?t = "with_rooms s' t1"
  have inv: "tables_inv ?t" using A(1) t1 by (simp add: tables_inv_def)
  have s: "starting i mid ?t"
    using inv A(2-6) i(2) A(9) t1 unfolding starting_def no_start_def by auto
  have f: "dealer_fits dlr i s'" using d(2) A(9) Some by (auto simp: dealer_fits_def split: option.split)
  have m: "map_of (m_matches (tb_money ?t)) mid = None" using A(7) t1(3) by simp
  have "tables_inv (next_gate fac dlr i mid 0 False ?t)" "tables_inv (charge_table fac dlr i mid ?t)"
    using next_gate_inv[OF s d(1) _ m] charge_table_inv[OF s d(1) _ m] f by simp_all
  then show ?thesis using T Some a by (simp add: tryBeginMatch_def Let_def flip: t1_def) (simp add: t1(1) a)
qed

lemma countdown_inv:
  assumes "tables_inv t" "idle i (tb_rooms t)" "i \<notin> set (begin_rooms (tb_tasks t))" "factory_ok fac" "dealer_fits dlr i (tb_rooms t)"
  shows "tables_inv (countdown_fires fac dlr i t)"
  using assms by (simp add: countdown_fires_def tryBeginMatch_inv)

lemma gate_verdict_inv:
  assumes s: "starting i mid t" and d: "factory_ok fac" "dealer_fits dlr i (tb_rooms t)"
    and m: "map_of (m_matches (tb_money t)) mid = None"
  shows "tables_inv (gate_verdict fac dlr i mid k blocked allowed t)"
proof -
  have I: "rooms_inv (tb_rooms t)" using s tables_rooms_inv by (auto simp: starting_def no_start_def)
  have "tables_inv (next_gate fac dlr i mid (k + 1) True (with_rooms (snd (setReady u False (tb_rooms t))) t))" for u
  proof (rule next_gate_inv[OF starting_moves[OF s setReady_moves[OF I]] d(1)])
    show "dealer_fits dlr i (tb_rooms (with_rooms (snd (setReady u False (tb_rooms t))) t))"
      unfolding with_rooms_simps
      by (rule dealer_fits_moves[OF _ setReady_tame[OF I] d(2)]) (use s in \<open>simp add: starting_def no_start_def\<close>)
  qed (use m in simp)
  with next_gate_inv[OF s d m] show ?thesis by (simp add: gate_verdict_def split: option.split)
qed

lemma intact_charged:
  assumes "rosterIntact i ps s" "get_room i s = Some r" "distinct (map mp_seat ps)"
  shows "set ps = set (charged_players r)"
proof -
  have "set ps \<subseteq> set (charged_players r)" "length (charged_players r) = length ps"
    using assms(1,2) by (auto simp: rosterIntact_def list_all_iff Let_def)
  moreover have "distinct ps" "distinct (charged_players r)" using assms(3) charged_distinct by (simp_all add: distinct_map)
  ultimately show ?thesis by (intro card_subset_eq) (simp_all add: distinct_card)
qed

lemma after_escrow_inv:
  assumes s: "starting i mid t" and d: "factory_ok fac" "dealer_fits dlr i (tb_rooms t)"
    and o: "\<And>res. reply = Inr res \<Longrightarrow> er_ok res \<Longrightarrow> opened_for (tb_money t) (tb_rooms t) i mid ps"
  shows "tables_inv (after_escrow fac dlr i mid ps reply t)"
proof (cases reply)
  case (Inl e)
  then show ?thesis using s begin_failed_inv by (simp add: after_escrow_def starting_def)
next
  case (Inr res)
  have T: "tables_inv t" using s by (simp add: starting_def no_start_def)
  show ?thesis
  proof (cases "er_ok res")
    case False
    have "tables_inv (with_rooms (foldl (\<lambda>s u. snd (setReady u False s)) (tb_rooms t) us) t)" for us
      by (rule rooms_move[OF T set_all_moves[OF tables_rooms_inv[OF T]]])
    with Inr False show ?thesis by (simp add: after_escrow_def)
  next
    case True
    obtain rec where rec: "active_record (tb_money t) mid rec" "r_players rec = ps" "distinct (map mp_seat ps)"
      "stake_of i (tb_rooms t) (r_stakeCents rec)" using o[OF Inr True] unfolding opened_for_def by blast
    have "tables_inv (start_table fac dlr i mid True t)" if "rosterIntact i ps (tb_rooms t)"
      by (rule start_table_inv[OF s d]) (use rec intact_charged[OF that] in \<open>auto simp: stake_of_def\<close>)
    moreover have "tables_inv (call_money (RefundCall mid) (BeginAborted i) t)" by (rule refund_start[OF s]) simp
    ultimately show ?thesis using Inr True by (simp add: after_escrow_def)
  qed
qed


subsection \<open>The end of a match\<close>

definition seats_of_type :: "string \<Rightarrow> room_manager \<Rightarrow> nat" where
  "seats_of_type i s = (case get_room i s of None \<Rightarrow> 0 | Some r \<Rightarrow> playersForType (rm_type r))"

text \<open>A match with an id that nothing has claimed yet, whose record covers its seats.\<close>

definition ending :: "string \<Rightarrow> string \<Rightarrow> tables \<Rightarrow> bool" where
  "ending i mid t \<longleftrightarrow> tables_inv t \<and> mid \<notin> set (task_mids (tb_tasks t)) \<and> i \<notin> set (begin_rooms (tb_tasks t)) \<and>
     mid \<notin> set (tb_finalized t) \<and> used (tb_rooms t) mid \<and>
     (\<exists>r. get_room i (tb_rooms t) = Some r \<and> rm_matchId r = Some mid \<and>
        (\<not> rm_practice r \<longrightarrow> (\<exists>rec. active_record (tb_money t) mid rec \<and>
           {..<playersForType (rm_type r)} \<subseteq> mp_seat ` set (r_players rec))))"

definition ended :: "string \<Rightarrow> string \<Rightarrow> tables \<Rightarrow> bool" where
  "ended i mid t \<longleftrightarrow> tables_inv t \<and> matchIdOf i (tb_rooms t) = Some mid \<and> mid \<in> set (tb_finalized t)"

lemma live_ending:
  assumes T: "tables_inv t" and r: "get_room i (tb_rooms t) = Some r" "rm_status r = RoomInMatch"
  obtains mid where "ending i mid t" "rm_matchId r = Some mid"
proof -
  have T': "tinv (tb_rooms t) (tb_money t) (set (tb_finalized t)) (tb_tasks t)" using T by (simp add: tables_inv_def)
  note I = tinvD[OF T']
  obtain mid where mid: "rm_matchId r = Some mid" "\<not> rm_practice r \<longrightarrow> funded (tb_money t) r mid" and full: "None \<notin> set (roster r)"
    using I(4)[OF r(1)] r(2) by (auto simp: live_ok_def)
  note f = live_mid_free[OF T' r mid(1)]
  have ok: "room_ok r" by (rule rooms_invD(3)[OF I(1) r(1)])
  have "room_full r" using full unfolding room_full_def roster_def list_all_iff by force
  moreover have "\<forall>u\<in>people r. \<not> is_bot u" using I(3)[OF r(1)] by (simp add: room_ids_def)
  ultimately have "mp_seat ` set (charged_players r) = {..<playersForType (rm_type r)}"
    using charged_full ok by (simp add: room_ok_def seats_ok_def)
  then have "\<not> rm_practice r \<longrightarrow> (\<exists>rec. active_record (tb_money t) mid rec \<and>
           {..<playersForType (rm_type r)} \<subseteq> mp_seat ` set (r_players rec))"
    using mid(2) by (auto simp: funded_def)
  then have "ending i mid t" using T f r(1) mid(1) by (simp add: ending_def)
  with mid(1) that show thesis by blast
qed

lemma ending_moves:
  assumes "ending i mid t" "moves (tb_rooms t) s" "get_room i s \<noteq> None"
  shows "ending i mid (with_rooms s t)" "seats_of_type i s = seats_of_type i (tb_rooms t)"
proof -
  obtain r where r: "get_room i (tb_rooms t) = Some r" "rm_matchId r = Some mid"
    "\<not> rm_practice r \<longrightarrow> (\<exists>rec. active_record (tb_money t) mid rec \<and> {..<playersForType (rm_type r)} \<subseteq> mp_seat ` set (r_players rec))"
    using assms(1) by (auto simp: ending_def)
  obtain r' where r': "get_room i s = Some r'" using assms(3) by blast
  have t: "tame (tb_rooms t) s" using assms(2) by (simp add: moves_def)
  have "facts_of r' = facts_of r" using tame_facts[OF t r'] r(1) by cases (auto simp: room_tame_def)
  then have f: "rm_type r' = rm_type r" "rm_matchId r' = Some mid" "rm_practice r' = rm_practice r" using r(2) by (simp_all add: facts_of_def)
  show "seats_of_type i s = seats_of_type i (tb_rooms t)" using r(1) r' f by (simp add: seats_of_type_def)
  show "ending i mid (with_rooms s t)"
    using assms(1) rooms_move[OF _ assms(2)] used_moves[OF t] r' r(3) f by (auto simp: ending_def)
qed

lemma claim_ending:
  assumes e: "ending i mid t"
  obtains t' where "claimFinalize i t = (True, t')" "tables_inv t'" "tb_rooms t' = markFinished i (tb_rooms t)"
    "tb_tasks t' = tb_tasks t" "tb_money t' = tb_money t" "mid \<in> set (tb_finalized t')" "quiet mid (tb_rooms t')"
    "used (tb_rooms t') mid" "foreign (tb_rooms t') (tb_tasks t') mid" "matchIdOf i (tb_rooms t') = Some mid"
proof -
  let ?s = "markFinished i (tb_rooms t)"
  let ?fin = "tb_finalized t @ [mid]"
  define fin' where "fin' = (if length ?fin > FINALIZED_CAP then tl ?fin else ?fin)"
  let ?t = "t\<lparr>tb_finalized := fin', tb_rooms := ?s\<rparr>"
  have T: "tables_inv t" using e by (simp add: ending_def)
  have I: "rooms_inv (tb_rooms t)" by (rule tables_rooms_inv[OF T])
  have mv: "moves (tb_rooms t) ?s" by (simp add: moves_def markFinished_inv[OF I] markFinished_tame[OF I])
  obtain r where r: "get_room i (tb_rooms t) = Some r" "rm_matchId r = Some mid" using e by (auto simp: ending_def)
  have id: "rm_id r = i" by (rule rooms_invD(2)[OF I r(1)])
  have g: "get_room i ?s = Some (r\<lparr>rm_status := RoomFinished, rm_target := (case rm_match r of None \<Rightarrow> rm_target r | Some (dl, m) \<Rightarrow> m_target m)\<rparr>)"
    using r(1) id by (simp add: markFinished_def)
  have T': "tinv ?s (tb_money t) (set (tb_finalized t)) (tb_tasks t)"
    using rooms_move[OF T mv] by (simp add: tables_inv_def)
  have u: "used ?s mid" using e used_moves mv by (auto simp: ending_def moves_def)
  have same: "j = i" if "get_room j ?s = Some q" "rm_matchId q = Some mid" for j q
    using same_mid_same_room[OF T' that(1) g that(2)] r(2) by simp
  have q: "quiet mid ?s" unfolding quiet_def
  proof (intro allI impI)
    fix j p assume p: "get_room j ?s = Some p" "rm_matchId p = Some mid"
    then have "j = i" by (rule same)
    with g p(1) show "rm_status p \<noteq> RoomInMatch" by auto
  qed
  have f: "foreign ?s (tb_tasks t) mid" using same e by (auto simp: foreign_def ending_def)
  have "set fin' \<subseteq> insert mid (set (tb_finalized t))"
    by (cases "tb_finalized t") (auto simp: fin'_def)
  then have "tinv ?s (tb_money t) (set fin') (tb_tasks t)"
    using tinv_close[OF T' q _ u] e by (auto simp: ending_def intro: tinv_fin)
  then have "tables_inv ?t" by (simp add: tables_inv_def)
  moreover have "mid \<in> set fin'" by (cases "tb_finalized t") (auto simp: fin'_def FINALIZED_CAP_def)
  moreover have "claimFinalize i t = (True, ?t)"
    using e r by (simp add: claimFinalize_def matchIdOf_def ending_def Let_def fin'_def)
  moreover have "matchIdOf i ?s = Some mid" using g r(2) by (simp add: matchIdOf_def)
  ultimately show thesis using q u f by (intro that[of ?t]) simp_all
qed

lemma push_end:
  assumes "tables_inv t" "mid \<notin> set (task_mids (tb_tasks t))" "used (tb_rooms t) mid" "foreign (tb_rooms t) (tb_tasks t) mid"
    and "task_ok (tb_rooms t) (tb_money t) (set (tb_finalized t)) (Await call k)" "call_mid call = Some mid" "begin_of k = None"
  shows "tables_inv (call_money call k t)" "tb_tasks (call_money call k t) = tb_tasks t @ [Await call k]"
    "tb_rooms (call_money call k t) = tb_rooms t" "tb_finalized (call_money call k t) = tb_finalized t"
    "tb_money (call_money call k t) = tb_money t"
proof -
  have e: "call_money call k t = push_task (Await call k) t" by (rule call_free[OF assms(6,2)])
  show "tables_inv (call_money call k t)" unfolding e tables_inv_def push_simps
    by (rule tinv_push) (use assms in \<open>auto simp: tables_inv_def\<close>)
  show "tb_tasks (call_money call k t) = tb_tasks t @ [Await call k]" "tb_rooms (call_money call k t) = tb_rooms t"
    "tb_finalized (call_money call k t) = tb_finalized t" "tb_money (call_money call k t) = tb_money t" by (simp_all add: e)
qed

lemma push_rating: "tables_inv t \<Longrightarrow> tables_inv (push_task (Rating i) t)"
  unfolding tables_inv_def push_simps by (rule tinv_push) auto

lemma settle_emit:
  assumes e: "ending i mid t" and w: "distinct seats" "set seats \<subseteq> {..<seats_of_type i (tb_rooms t)}"
  shows "ended i mid (settleAndEmitMatchEnd i seats t)"
    "seats \<noteq> [] \<Longrightarrow> get_room i (tb_rooms t) = Some r \<Longrightarrow> \<not> rm_practice r \<Longrightarrow>
     tb_tasks (settleAndEmitMatchEnd i seats t) = tb_tasks t @ [Await (SettleCall mid seats) (MatchSettled i)] \<and>
     tb_rooms (settleAndEmitMatchEnd i seats t) = markFinished i (tb_rooms t) \<and>
     tb_money (settleAndEmitMatchEnd i seats t) = tb_money t"
proof -
  obtain t' where t': "claimFinalize i t = (True, t')" "tables_inv t'" "tb_rooms t' = markFinished i (tb_rooms t)"
    "tb_tasks t' = tb_tasks t" "tb_money t' = tb_money t" "mid \<in> set (tb_finalized t')" "quiet mid (tb_rooms t')"
    "used (tb_rooms t') mid" "foreign (tb_rooms t') (tb_tasks t') mid" "matchIdOf i (tb_rooms t') = Some mid"
    by (rule claim_ending[OF e])
  have I: "rooms_inv (tb_rooms t)" by (rule tables_rooms_inv) (use e in \<open>simp add: ending_def\<close>)
  obtain q where q: "get_room i (tb_rooms t) = Some q"
    "\<not> rm_practice q \<Longrightarrow> \<exists>rec. active_record (tb_money t) mid rec \<and> {..<playersForType (rm_type q)} \<subseteq> mp_seat ` set (r_players rec)"
    and free: "mid \<notin> set (task_mids (tb_tasks t'))"
    using e t'(4) by (auto simp: ending_def)
  have p: "(case get_room i (tb_rooms t') of None \<Rightarrow> False | Some r \<Rightarrow> rm_practice r) = rm_practice q"
    using q(1) rooms_invD(2)[OF I q(1)] by (simp add: t'(3) markFinished_def)
  have "payable (tb_money t') mid seats" if "\<not> rm_practice q" "seats \<noteq> []"
    using q(2)[OF that(1)] w q(1) that(2) t'(5) by (auto simp: payable_def seats_of_type_def)
  then have call: "tables_inv (call_money call k t')" "tb_tasks (call_money call k t') = tb_tasks t @ [Await call k]"
    "tb_rooms (call_money call k t') = tb_rooms t'" "tb_finalized (call_money call k t') = tb_finalized t'"
    "tb_money (call_money call k t') = tb_money t'"
    if "call = RefundCall mid \<and> k = MatchVoided i \<or> call = SettleCall mid seats \<and> k = MatchSettled i \<and> \<not> rm_practice q \<and> seats \<noteq> []" for call k
    using push_end[OF t'(2) free t'(8,9), of call k] t'(4,7) that by auto
  let ?k = "if seats = [] then (RefundCall mid, MatchVoided i) else (SettleCall mid seats, MatchSettled i)"
  have ev: "settleAndEmitMatchEnd i seats t = (if seats \<noteq> [] \<and> rm_practice q then push_task (Rating i) t'
      else if seats = [] then call_money (RefundCall mid) (MatchVoided i) t' else call_money (SettleCall mid seats) (MatchSettled i) t')"
    by (simp add: settleAndEmitMatchEnd_def t'(1,10) p Let_def)
  show "ended i mid (settleAndEmitMatchEnd i seats t)"
    using call t'(2,6,10) push_rating[OF t'(2)] by (auto simp: ended_def ev)
  show "tb_tasks (settleAndEmitMatchEnd i seats t) = tb_tasks t @ [Await (SettleCall mid seats) (MatchSettled i)] \<and>
     tb_rooms (settleAndEmitMatchEnd i seats t) = markFinished i (tb_rooms t) \<and>
     tb_money (settleAndEmitMatchEnd i seats t) = tb_money t"
    if "seats \<noteq> []" "get_room i (tb_rooms t) = Some r" "\<not> rm_practice r"
    using that q(1) call t'(3,5) by (simp add: ev)
qed

lemma ended_again: "ended i mid t \<Longrightarrow> settleAndEmitMatchEnd i seats t = t"
  by (simp add: settleAndEmitMatchEnd_def claimFinalize_def ended_def Let_def)

lemma event_effect:
  assumes "ending i mid t \<or> ended i mid t" "end_ok (seats_of_type i (tb_rooms t)) ev"
  shows "ending i mid (match_event_effect i t ev) \<and> match_event_effect i t ev = t \<or> ended i mid (match_event_effect i t ev)"
  using assms settle_emit(1)[of i mid t] ended_again[of i mid t]
  by (cases ev) (auto simp: match_event_effect_def)

lemma applyResult_inv:
  assumes "ending i mid t \<or> ended i mid t" "ended i mid t \<or> list_all (end_ok (seats_of_type i (tb_rooms t))) evs"
  shows "tables_inv (foldl (match_event_effect i) t evs)"
  using assms
proof (induction evs arbitrary: t)
  case Nil
  then show ?case by (auto simp: ending_def ended_def)
next
  case (Cons ev evs)
  show ?case
  proof (cases "ended i mid t")
    case True
    then have "match_event_effect i t ev = t" by (cases ev) (simp_all add: match_event_effect_def ended_again)
    with Cons True show ?thesis by simp
  next
    case False
    then have "ending i mid (match_event_effect i t ev) \<and> match_event_effect i t ev = t \<or> ended i mid (match_event_effect i t ev)"
      using Cons.prems by (intro event_effect) auto
    then show ?thesis using Cons.IH[of "match_event_effect i t ev"] Cons.prems(2) False by auto
  qed
qed


subsection \<open>Actions\<close>

text \<open>An accepted or refused action of a player, as the manager forwards it.\<close>

definition forwarded :: "room_manager \<Rightarrow> user_id \<Rightarrow> room_action_result \<times> room_manager \<Rightarrow> bool" where
  "forwarded s u p \<longleftrightarrow> (case p of
     (Inr (res, None), s') \<Rightarrow> moves s s'
   | (Inr (res, Some i), s') \<Rightarrow> moves s s' \<and> get_room i s' \<noteq> None \<and> roomIdOf u s = Some i \<and>
       (\<exists>r. get_room i s = Some r \<and> rm_status r = RoomInMatch) \<and> list_all (end_ok (seats_of_type i s)) (mr_matchEvents res)
   | (Inl e, s') \<Rightarrow> False)"

lemma match_run_players: "match_good n m \<Longrightarrow> m_numPlayers m = n"
  by (simp add: match_good_def)

lemma forward_forwarded:
  assumes I: "rooms_inv s" and a: "\<And>dl k. act dl k = match_apply dl (op k)"
  shows "forwarded s u (forward u act s)"
proof (cases "\<exists>r dl m k. live_match u s = Some (r, dl, m) \<and> seat_index u r = Some k")
  case False
  with I show ?thesis by (auto simp: forward_def forwarded_def moves_refl split: option.splits)
next
  case True
  then obtain r dl m k where l: "live_match u s = Some (r, dl, m)" and k: "seat_index u r = Some k" by blast
  note L = live_match_Some[OF I l]
  have mi: "match_inv m" "dealer_ok (m_numPlayers m) dl" and n: "m_numPlayers m = playersForType (rm_type r)"
    using L(6,8) by (simp_all add: match_good_def)
  obtain res m' where ap: "match_apply dl (op k) m = (Inr res, m')" by (rule match_apply_inv[OF mi])
  have ev: "list_all (end_ok (playersForType (rm_type r))) (mr_matchEvents res)" using match_events[OF mi(1) ap] n by simp
  have u: "roomIdOf u s = Some (rm_id r)" using L(1,2) rooms_invD(5)[OF I] by blast
  have "moves s (snd (forward u act s))" by (simp add: moves_def forward_inv(1)[OF I a] forward_tame[OF I])
  then show ?thesis using l k ap L(1,5) ev u
    by (simp add: forward_def forwarded_def a seats_of_type_def)
qed

lemma forfeit_forwarded:
  assumes I: "rooms_inv s"
  shows "forwarded s u (room_forfeitSeat u s)"
proof (cases "\<exists>r dl m k. live_match u s = Some (r, dl, m) \<and> seat_index u r = Some k")
  case False
  with I show ?thesis by (auto simp: room_forfeitSeat_def forwarded_def moves_refl split: option.splits)
next
  case True
  then obtain r dl m k where l: "live_match u s = Some (r, dl, m)" and k: "seat_index u r = Some k" by blast
  note L = live_match_Some[OF I l]
  have mi: "match_inv m" "dealer_ok (m_numPlayers m) dl" and n: "m_numPlayers m = playersForType (rm_type r)"
    using L(6,8) by (simp_all add: match_good_def)
  obtain res m' where ap: "match_apply dl (MForfeit k) m = (Inr res, m')" by (rule match_apply_inv[OF mi])
  have ev: "list_all (end_ok (playersForType (rm_type r))) (mr_matchEvents res)" using match_events[OF mi(1) ap] n by simp
  have u: "roomIdOf u s = Some (rm_id r)" using L(1,2) rooms_invD(5)[OF I] by blast
  have mv: "moves s (snd (room_forfeitSeat u s))" by (simp add: moves_def room_forfeitSeat_inv(1)[OF I] room_forfeitSeat_tame[OF I])
  let ?q = "reflect_match dl m' (if mr_ok res then mark_gone k r else r)"
  let ?s = "put_room ?q (if mr_ok res then del_user_room u s else s)"
  have e: "room_forfeitSeat u s = (Inr (res, Some (rm_id r)), ?s)"
    using ap unfolding room_forfeitSeat_def l option.case prod.case k Let_def by simp
  have "rm_id ?q = rm_id r" by simp
  then have "get_room (rm_id r) ?s = Some ?q" by simp
  moreover have "moves s ?s" using mv unfolding e snd_conv .
  ultimately show ?thesis unfolding e using L(1,5) ev u by (simp add: forwarded_def seats_of_type_def)
qed

lemma actions_forwarded:
  assumes "rooms_inv s"
  shows "forwarded s u (room_play u cards s)" "forwarded s u (room_pass u s)" "forwarded s u (room_switchGive u c s)"
  unfolding room_play_def room_pass_def room_switchGive_def
  by (rule forward_forwarded[OF assms, of _ "\<lambda>k. MPlay k cards"] forward_forwarded[OF assms, of _ MPass]
        forward_forwarded[OF assms, of _ "\<lambda>k. MSwitch k c"]; simp)+

lemma forwarded_end:
  assumes T: "tables_inv t" and f: "forwarded (tb_rooms t) u (Inr (res, Some i), s')"
  obtains mid where "ending i mid t" "ending i mid (with_rooms s' t)" "seats_of_type i s' = seats_of_type i (tb_rooms t)"
    "tables_inv (applyResult i res (with_rooms s' t))"
proof -
  obtain r where r: "get_room i (tb_rooms t) = Some r" "rm_status r = RoomInMatch" and m: "moves (tb_rooms t) s'" "get_room i s' \<noteq> None"
    and ev: "list_all (end_ok (seats_of_type i (tb_rooms t))) (mr_matchEvents res)"
    using f by (auto simp: forwarded_def)
  obtain mid where e: "ending i mid t" by (rule live_ending[OF T r])
  note e' = ending_moves[OF e m]
  have "tables_inv (applyResult i res (with_rooms s' t))" unfolding applyResult_def
    by (rule applyResult_inv[of _ mid]) (use e' ev in simp_all)
  with e e' that show thesis by blast
qed

lemma forwarded_cases:
  assumes "forwarded s u p"
  obtains (none) res s' where "p = (Inr (res, None), s')" "moves s s'"
  | (some) res i s' where "p = (Inr (res, Some i), s')" "moves s s'"
  using assms unfolding forwarded_def by (auto split: prod.splits sum.splits option.splits)

lemma apply_forwarded_inv:
  assumes "tables_inv t" "forwarded (tb_rooms t) u p"
  shows "tables_inv (snd (apply_forwarded p t))"
  using assms(2)
proof (cases rule: forwarded_cases)
  case (none res s')
  with rooms_move[OF assms(1)] show ?thesis by (simp add: apply_forwarded_def)
next
  case (some res i s')
  have "tables_inv (applyResult i res (with_rooms s' t))" using forwarded_end[OF assms(1)] assms(2) some(1) by metis
  with some rooms_move[OF assms(1) some(2)] show ?thesis by (simp add: apply_forwarded_def)
qed

lemma onAction_inv:
  assumes T: "tables_inv t" and f: "forwarded (tb_rooms t) u (act (tb_rooms t))"
  shows "tables_inv (onAction u act t)"
  using f
proof (cases rule: forwarded_cases)
  case (none res s')
  have "tables_inv (snd (apply_forwarded (act (tb_rooms t)) (no_strikes u t)))"
    by (rule apply_forwarded_inv) (use T f in simp_all)
  with none rooms_move[OF T none(2)] show ?thesis by (simp add: onAction_def)
next
  case (some res i s')
  have "tables_inv (snd (apply_forwarded (act (tb_rooms t)) (no_strikes u t)))"
    by (rule apply_forwarded_inv) (use T f in simp_all)
  with some rooms_move[OF T some(2)] show ?thesis by (simp add: onAction_def)
qed

text \<open>The player of a seat is nowhere else.\<close>

definition at_home :: "string \<Rightarrow> user_id \<Rightarrow> room_manager \<Rightarrow> bool" where
  "at_home i u s \<longleftrightarrow> roomIdOf u s = None \<or> roomIdOf u s = Some i"

lemma forfeitMatch_inv:
  assumes T: "tables_inv t" and h: "\<And>u. userAtSeat i k (tb_rooms t) = Some u \<Longrightarrow> at_home i u (tb_rooms t)"
  shows "tables_inv (forfeitMatch i k t)"
proof -
  have "tables_inv (case room_forfeitSeat u (tb_rooms (no_strikes u t)) of
      (Inr (res, Some j), s) \<Rightarrow> if mr_ok res then applyResult i res (with_rooms s (no_strikes u t)) else with_rooms s (no_strikes u t)
    | (_, s) \<Rightarrow> with_rooms s (no_strikes u t))" if u: "userAtSeat i k (tb_rooms t) = Some u" for u
  proof -
    let ?t = "no_strikes u t"
    have T': "tables_inv ?t" using T by simp
    have f: "forwarded (tb_rooms ?t) u (room_forfeitSeat u (tb_rooms ?t))"
      by (rule forfeit_forwarded) (use tables_rooms_inv[OF T] in simp)
    from f show ?thesis
    proof (cases rule: forwarded_cases)
      case (none res s')
      with rooms_move[OF T' none(2)] show ?thesis by simp
    next
      case (some res j s')
      have "roomIdOf u (tb_rooms t) = Some j" using f some(1) by (auto simp: forwarded_def)
      with h[OF u] have "j = i" by (simp add: at_home_def)
      have "tables_inv (applyResult j res (with_rooms s' ?t))" using forwarded_end[OF T'] f some(1) by metis
      with some \<open>j = i\<close> rooms_move[OF T' some(2)] show ?thesis by simp
    qed
  qed
  with T show ?thesis by (auto simp: forfeitMatch_def Let_def split: option.split)
qed


text \<open>A second action of the same player, after a refused one.\<close>

lemma forward_roomIdOf: "roomIdOf v (snd (forward u act s)) = roomIdOf v s"
  by (auto simp: forward_def split: option.split prod.split sum.split)

lemma forwarded_trans:
  assumes I: "rooms_inv s" and f: "moves s s0" "roomIdOf u s0 = roomIdOf u s" "forwarded s0 u p"
  shows "forwarded s u p"
  using f(3)
proof (cases rule: forwarded_cases)
  case (none res s')
  with moves_trans[OF I f(1)] show ?thesis by (simp add: forwarded_def)
next
  case (some res i s')
  have mv: "moves s s'" by (rule moves_trans[OF I f(1) some(2)])
  have t: "tame s s0" using f(1) by (simp add: moves_def)
  obtain r0 where r0: "get_room i s0 = Some r0" "rm_status r0 = RoomInMatch" and p: "roomIdOf u s0 = Some i" "get_room i s' \<noteq> None"
    "list_all (end_ok (seats_of_type i s0)) (mr_matchEvents res)"
    using f(3) some(1) by (auto simp: forwarded_def)
  obtain r where "get_room i s = Some r" "room_tame r r0"
    using tame_facts[OF t r0(1)] r0(2) by cases (auto simp: room_fresh_def)
  then have "\<exists>r. get_room i s = Some r \<and> rm_status r = RoomInMatch" "seats_of_type i s = seats_of_type i s0"
    using r0 by (auto simp: room_tame_def facts_of_def seats_of_type_def)
  with mv p f(2) show ?thesis unfolding some(1) by (simp add: forwarded_def)
qed

end
