(* ===== verification/Table_Handlers.thy ===== *)
theory Table_Handlers
  imports Table_Steps
begin

text \<open>
  The remaining handlers of the tables keep the invariant: seats and readiness, departures, turn
  timers, rematches, the tasks and the periodic sweep. A calm step is one that none of the races
  below disturbs; the calm steps form an inductive relation with the invariant.
\<close>

subsection \<open>Seats, readiness, departures\<close>

lemma join_moves: "rooms_inv s \<Longrightarrow> \<not> is_bot (ac_userId user) \<Longrightarrow> moves s (snd (joinRoom user i team s))"
  by (simp add: moves_def joinRoom_inv joinRoom_tame)

lemma onCreate_inv: "tables_inv t \<Longrightarrow> \<not> is_bot (ac_userId user) \<Longrightarrow> tables_inv (onCreate rnd user p now t)"
  unfolding onCreate_def
  by (rule rooms_move) (simp_all add: moves_def tables_rooms_inv createRoom_inv createRoom_tame)

lemma onJoin_inv:
  assumes T: "tables_inv t" and b: "\<not> is_bot (ac_userId user)"
  shows "tables_inv (onJoin user i team t)"
proof -
  note I = tables_rooms_inv[OF T]
  obtain res s where j: "joinRoom user i team (tb_rooms t) = (res, s)" by fastforce
  have m: "moves (tb_rooms t) s" using join_moves[OF I b, of i team] j by simp
  then have "rooms_inv s" by (simp add: moves_def)
  from moves_trans[OF I m setReady_moves[OF this]] have "moves (tb_rooms t) (snd (setReady u r s))" for u r .
  with j rooms_move[OF T] m show ?thesis by (simp add: onJoin_def Let_def split: sum.split)
qed

lemma onJoinByCode_inv:
  assumes T: "tables_inv t" and b: "\<not> is_bot (ac_userId user)"
  shows "tables_inv (onJoinByCode user code t)"
proof -
  note I = tables_rooms_inv[OF T]
  have "moves (tb_rooms t) s" if "joinRoom user i None (markInvited i (ac_userId user) (tb_rooms t)) = (res, s)" for i res s
  proof -
    have m: "moves (tb_rooms t) (markInvited i (ac_userId user) (tb_rooms t))"
      by (simp add: moves_def markInvited_inv[OF I] markInvited_tame[OF I])
    have "moves (markInvited i (ac_userId user) (tb_rooms t)) s"
      using join_moves[OF markInvited_inv[OF I] b] that by (metis snd_conv)
    with moves_trans[OF I m] show ?thesis .
  qed
  then have "tables_inv (with_rooms s t)" if "joinRoom user i None (markInvited i (ac_userId user) (tb_rooms t)) = (res, s)" for i res s
    using rooms_move[OF T] that by blast
  with T show ?thesis by (auto simp: onJoinByCode_def split: option.split prod.split sum.split)
qed

lemma onReady_inv: "tables_inv t \<Longrightarrow> tables_inv (onReady u sock b t)"
proof -
  assume T: "tables_inv t"
  obtain res s where s: "setReady u b (tb_rooms t) = (res, s)" by fastforce
  have "moves (tb_rooms t) s" using setReady_moves[OF tables_rooms_inv[OF T], of u b] s by simp
  with s rooms_move[OF T] show ?thesis by (simp add: onReady_def split: sum.split option.split)
qed

lemma onSwitchTeam_inv: "tables_inv t \<Longrightarrow> tables_inv (onSwitchTeam u sock team t)"
proof -
  assume T: "tables_inv t"
  obtain res s where s: "switchTeam u team (tb_rooms t) = (res, s)" by fastforce
  have "moves (tb_rooms t) s" if "team < 2"
    using switchTeam_inv[OF tables_rooms_inv[OF T] that, of u] switchTeam_tame[OF tables_rooms_inv[OF T], of u team] s
    by (simp add: moves_def)
  with s rooms_move[OF T] T show ?thesis by (auto simp: onSwitchTeam_def split: sum.split option.split)
qed

lemma connected_inv: "tables_inv t \<Longrightarrow> tables_inv (with_rooms (setConnected u b (tb_rooms t)) t)"
  by (rule rooms_move) (simp_all add: moves_def tables_rooms_inv setConnected_inv setConnected_tame)

lemma onConnection_inv: "tables_inv t \<Longrightarrow> tables_inv (onConnection u t)"
  by (simp add: onConnection_def connected_inv split: option.split)

lemma leaveAndNotify_inv:
  assumes T: "tables_inv t" and q: "\<And>r. roomOf u (tb_rooms t) = Some r \<Longrightarrow> rm_status r \<noteq> RoomInMatch"
  shows "tables_inv (leaveAndNotify u i t)"
proof -
  obtain res s where s: "leaveRoom u (tb_rooms t) = (res, s)" by fastforce
  have "tame (tb_rooms t) (snd (leaveRoom u (tb_rooms t)))" by (rule leaveRoom_tame[OF tables_rooms_inv[OF T] q])
  then have "moves (tb_rooms t) s" using leaveRoom_inv[OF tables_rooms_inv[OF T], of u] s by (simp add: moves_def)
  with s rooms_move[OF T] show ?thesis by (simp add: leaveAndNotify_def)
qed

lemma onDisconnect_inv: "tables_inv t \<Longrightarrow> tables_inv (onDisconnect u t)"
  by (auto simp: onDisconnect_def connected_inv intro: leaveAndNotify_inv split: option.split)

text \<open>A member has a seat.\<close>

lemma member_seat:
  assumes "rooms_inv s" "roomIdOf u s = Some i" "get_room i s = Some r"
  shows "seatOf i u s \<ge> 0"
proof -
  have "u \<in> members r" using rooms_invD(5)[OF assms(1), of u i] assms(2,3) by auto
  then have "seat_index u r \<noteq> None" by (auto simp: seat_index_None members_def sitter_def split: if_splits)
  then show ?thesis using assms(3) by (auto simp: seatOf_def)
qed

lemma seatOf_user: "seatOf i u s = int k \<Longrightarrow> userAtSeat i k s = Some u"
  by (auto simp: seatOf_def userAtSeat_def split: option.splits dest: seat_index_Some)

lemma forfeit_own:
  assumes T: "tables_inv t" and h: "at_home i u (tb_rooms t)" and k: "seatOf i u (tb_rooms t) \<ge> 0"
  shows "tables_inv (forfeitMatch i (nat (seatOf i u (tb_rooms t))) t)"
proof (rule forfeitMatch_inv[OF T])
  fix v assume v: "userAtSeat i (nat (seatOf i u (tb_rooms t))) (tb_rooms t) = Some v"
  have "userAtSeat i (nat (seatOf i u (tb_rooms t))) (tb_rooms t) = Some u" by (rule seatOf_user) (use k in simp)
  with v h show "at_home i v (tb_rooms t)" by simp
qed

lemma onLeave_inv:
  assumes T: "tables_inv t" and h: "\<And>i. sock = Some i \<Longrightarrow> at_home i u (tb_rooms t)"
  shows "tables_inv (onLeave u sock t)"
proof (cases sock)
  case None
  with T show ?thesis by (simp add: onLeave_def)
next
  case (Some i)
  let ?t = "cancelRematch i t"
  note I = tables_rooms_inv[OF T]
  have T': "tables_inv ?t" using T by simp
  have leave: "tables_inv (leaveAndNotify u i ?t)"
    if "\<not> (\<exists>r. get_room i (tb_rooms t) = Some r \<and> rm_status r = RoomInMatch \<and> seatOf i u (tb_rooms t) \<ge> 0)"
  proof (rule leaveAndNotify_inv[OF T'])
    fix r assume r: "roomOf u (tb_rooms ?t) = Some r"
    then have "roomIdOf u (tb_rooms t) = Some i" "get_room i (tb_rooms t) = Some r"
      using h[OF Some] by (auto simp: at_home_def roomOf_def split: option.splits)
    then show "rm_status r \<noteq> RoomInMatch" using member_seat[OF I] that by blast
  qed
  have "tables_inv (forfeitMatch i (nat (seatOf i u (tb_rooms ?t))) ?t)" if "seatOf i u (tb_rooms t) \<ge> 0"
    by (rule forfeit_own[OF T']) (use h[OF Some] that in simp_all)
  with leave Some show ?thesis by (auto simp: onLeave_def Let_def split: option.split)
qed

lemma onAbandon_inv: "tables_inv t \<Longrightarrow> at_home i u (tb_rooms t) \<Longrightarrow> tables_inv (onAbandon i u t)"
  by (simp add: onAbandon_def Let_def forfeit_own)

subsection \<open>Timers\<close>

lemma miss_turn_simps [simp]:
  "tb_rooms (snd (miss_turn u t)) = tb_rooms t" "tables_inv (snd (miss_turn u t)) = tables_inv t"
  by (simp_all add: miss_turn_def Let_def)

lemma first_accepted_forwarded:
  assumes "rooms_inv s" "first_accepted u cs s = Some p"
  shows "forwarded s u p"
  using assms
proof (induction cs arbitrary: s)
  case Nil
  then show ?case by simp
next
  case (Cons c cs)
  have f: "forwarded s u (room_play u [c] s)" by (rule actions_forwarded(1)[OF Cons.prems(1)])
  show ?case
  proof (cases "\<exists>res i s'. room_play u [c] s = (Inr (res, i), s') \<and> \<not> mr_ok res")
    case False
    then have "p = room_play u [c] s" using Cons.prems(2) by (auto split: prod.splits sum.splits if_splits)
    with f show ?thesis by simp
  next
    case True
    then obtain res i s' where r: "room_play u [c] s = (Inr (res, i), s')" "\<not> mr_ok res" by blast
    have m: "moves s s'" using f r(1) by (auto simp: forwarded_def split: option.splits)
    have "roomIdOf u s' = roomIdOf u s" using forward_roomIdOf[of u u _ s] r(1) unfolding room_play_def by (metis snd_conv)
    moreover have "forwarded s' u p" using Cons.IH[of s'] Cons.prems(2) r m by (simp add: moves_def)
    ultimately show ?thesis by (rule forwarded_trans[OF Cons.prems(1) m])
  qed
qed

lemma forcedLead_forwarded: "rooms_inv s \<Longrightarrow> forcedLead i u k s = Some p \<Longrightarrow> forwarded s u p"
  using first_accepted_forwarded[of s u _ p] unfolding forcedLead_def Let_def by (auto split: option.splits simp del: first_accepted.simps)

lemma timeout_inv:
  assumes "tables_inv t" "forwarded (tb_rooms t) u p" "miss_turn u t = (n, t1)"
  shows "tables_inv (snd (apply_forwarded p t1))"
proof -
  have "t1 = snd (miss_turn u t)" using assms(3) by simp
  with assms show ?thesis by (intro apply_forwarded_inv[of _ u]) simp_all
qed

lemma onTurnTimeout_inv:
  assumes T: "tables_inv t" and h: "\<And>u. userAtSeat i k (tb_rooms t) = Some u \<Longrightarrow> at_home i u (tb_rooms t)"
  shows "tables_inv (onTurnTimeout i k t)"
proof -
  note A = actions_forwarded[OF tables_rooms_inv[OF T]]
  have m: "tb_rooms t1 = tb_rooms t" "tables_inv t1" if "miss_turn u t = (n, t1)" for u n t1
    using miss_turn_simps[of u t] T that by simp_all
  have "tables_inv (forfeitMatch i k t1)" if "miss_turn u t = (n, t1)" for u n t1
    by (rule forfeitMatch_inv) (use m[OF that] h in simp_all)
  moreover have "tables_inv (snd (apply_forwarded p t1))" if "miss_turn u t = (n, t1)" "forcedLead i u k (tb_rooms t1) = Some p" for u n t1 p
    using forcedLead_forwarded[OF tables_rooms_inv[OF m(2)[OF that(1)]] that(2)] timeout_inv[OF T _ that(1)] m(1)[OF that(1)] by simp
  moreover have "tables_inv (snd (apply_forwarded (room_pass u (tb_rooms t1)) t1))" if "miss_turn u t = (n, t1)" for u n t1
    using timeout_inv[OF T _ that] A(2) m(1)[OF that] by metis
  ultimately show ?thesis using T m(2)
    by (auto simp: onTurnTimeout_def split: option.split prod.split)
qed

lemma onSwitchTimeout_inv:
  assumes T: "tables_inv t" and h: "\<And>u. userAtSeat i k (tb_rooms t) = Some u \<Longrightarrow> at_home i u (tb_rooms t)"
  shows "tables_inv (onSwitchTimeout i k t)"
proof -
  note A = actions_forwarded[OF tables_rooms_inv[OF T]]
  have m: "tb_rooms t1 = tb_rooms t" "tables_inv t1" if "miss_turn u t = (n, t1)" for u n t1
    using miss_turn_simps[of u t] T that by simp_all
  have "tables_inv (forfeitMatch i k t1)" if "miss_turn u t = (n, t1)" for u n t1
    by (rule forfeitMatch_inv) (use m[OF that] h in simp_all)
  moreover have "tables_inv (snd (apply_forwarded (room_switchGive u c (tb_rooms t1)) t1))" if "miss_turn u t = (n, t1)" for u n t1 c
    using timeout_inv[OF T _ that] A(3) m(1)[OF that] by metis
  ultimately show ?thesis using T m(2)
    by (auto simp: onSwitchTimeout_def split: option.split prod.split list.split)
qed


subsection \<open>Voiding, clearing, rematches\<close>

lemma adminVoidMatch_inv:
  assumes T: "tables_inv t"
  shows "tables_inv (adminVoidMatch i t)"
proof (cases "\<exists>r. get_room i (tb_rooms t) = Some r \<and> rm_status r = RoomInMatch")
  case False
  with T show ?thesis by (auto simp: adminVoidMatch_def split: option.split)
next
  case True
  then obtain r where r: "get_room i (tb_rooms t) = Some r" "rm_status r = RoomInMatch" by blast
  obtain mid where e: "ending i mid t" by (rule live_ending[OF T r])
  obtain t' where t': "claimFinalize i t = (True, t')" "tables_inv t'" "tb_tasks t' = tb_tasks t" "quiet mid (tb_rooms t')"
    "used (tb_rooms t') mid" "foreign (tb_rooms t') (tb_tasks t') mid" "matchIdOf i (tb_rooms t') = Some mid"
    by (rule claim_ending[OF e]) blast
  have "tables_inv (call_money (RefundCall mid) AdminVoided (clearRoomStrikes i t'))"
    by (rule push_end(1)) (use t' e in \<open>simp_all add: ending_def\<close>)
  with r t' show ?thesis by (simp add: adminVoidMatch_def Let_def)
qed

lemma clear_gone_inv:
  assumes "tables_inv t" "idle i (tb_rooms t)"
  shows "tables_inv (clear_gone i t)"
  unfolding clear_gone_def
  by (rule rooms_move[OF assms(1)])
     (use assms clearGoneSeats_inv clearGoneSeats_tame tables_rooms_inv in \<open>auto simp: moves_def idle_def\<close>)

lemma onRematch_inv:
  assumes T: "tables_inv t" and g: "\<And>i. sock = Some i \<Longrightarrow> no_gone i (tb_rooms t)"
  shows "tables_inv (onRematch u sock t)"
proof -
  have go: "tables_inv (with_rooms s t') \<and> tables_inv (with_rooms (foldl (\<lambda>s v. snd (setReady v True s)) s us) t')"
    if "tables_inv t'" "tb_rooms t' = tb_rooms t" "sock = Some i" "resetForRematch i (tb_rooms t') = (b, s)" for t' i b s us
  proof -
    note I = tables_rooms_inv[OF that(1)]
    have m: "moves (tb_rooms t') s" using resetForRematch_inv[OF I, of i] resetForRematch_tame[OF I, of i] g that(2-4)
      by (simp add: moves_def)
    then have "rooms_inv s" by (simp add: moves_def)
    from moves_trans[OF I m set_all_moves[OF this]] m show ?thesis using rooms_move[OF that(1)] by blast
  qed
  have c: "tables_inv (t\<lparr>tb_offers := o1\<rparr>)" "tb_rooms (t\<lparr>tb_offers := o1\<rparr>) = tb_rooms t"
    "tables_inv (cancelRematch i (t\<lparr>tb_offers := o1\<rparr>))" "tb_rooms (cancelRematch i (t\<lparr>tb_offers := o1\<rparr>)) = tb_rooms t" for o1 i
    using T by simp_all
  show ?thesis using T c(1,2) go[OF c(3,4)]
    by (auto simp: onRematch_def Let_def split: option.split prod.split bool.split)
qed

subsection \<open>Tasks\<close>

lemma popped:
  assumes T: "tables_inv t" and n: "n < length (tb_tasks t)"
  defines "k \<equiv> tb_tasks t ! n" and "t1 \<equiv> t\<lparr>tb_tasks := remove_nth n (tb_tasks t)\<rparr>"
  shows "tables_inv t1" "task_ok (tb_rooms t1) (tb_money t1) (set (tb_finalized t1)) k" "begin_room k = Some i \<Longrightarrow> no_start i t1"
    "task_mid k = Some mid \<Longrightarrow> mid \<notin> set (task_mids (tb_tasks t1))" "task_mid k = Some mid \<Longrightarrow> used (tb_rooms t1) mid"
    "begin_room k = Some i \<Longrightarrow> task_mid k = Some mid \<Longrightarrow> waiting (tb_rooms t1) (set (tb_finalized t1)) i mid \<Longrightarrow> starting i mid t1"
proof -
  have s: "tb_tasks t = take n (tb_tasks t) @ k # drop (Suc n) (tb_tasks t)" unfolding k_def by (rule id_take_nth_drop[OF n])
  have T': "tinv (tb_rooms t) (tb_money t) (set (tb_finalized t)) (take n (tb_tasks t) @ k # drop (Suc n) (tb_tasks t))"
    using T s by (simp add: tables_inv_def)
  have e: "tb_tasks t1 = take n (tb_tasks t) @ drop (Suc n) (tb_tasks t)" "tb_rooms t1 = tb_rooms t"
    "tb_money t1 = tb_money t" "tb_finalized t1 = tb_finalized t" by (simp_all add: t1_def remove_nth_def)
  note D = tinv_drop[OF T'] and I = tinvD[OF T']
  show inv: "tables_inv t1" using D(1) by (simp add: tables_inv_def e)
  show "task_ok (tb_rooms t1) (tb_money t1) (set (tb_finalized t1)) k" using I(6)[OF D(2)] by (simp add: e)
  show ns: "no_start i t1" if "begin_room k = Some i" for i
    using I(7,8)[OF D(2) that] D(4)[OF that] D(5)[OF that] inv by (auto simp: no_start_def e)
  show free: "mid \<notin> set (task_mids (tb_tasks t1))" if "task_mid k = Some mid" for mid using D(3)[OF that] by (simp add: e)
  show us: "used (tb_rooms t1) mid" if "task_mid k = Some mid" for mid using I(9)[OF D(2) that] by (simp add: e)
  show "starting i mid t1" if "begin_room k = Some i" "task_mid k = Some mid" "waiting (tb_rooms t1) (set (tb_finalized t1)) i mid"
    using that ns free us by (simp add: starting_def)
qed

text \<open>The task of a call is replaced by the task of its continuation.\<close>

lemma continued:
  assumes inv: "tinv (tb_rooms t) m (set (tb_finalized t)) (tb_tasks t)" and ok: "task_ok (tb_rooms t) m (set (tb_finalized t)) k"
    and b: "\<And>i. begin_room k = Some i \<Longrightarrow> no_start i t"
    and mid: "\<And>mid. task_mid k = Some mid \<Longrightarrow> used (tb_rooms t) mid \<and> mid \<notin> set (task_mids (tb_tasks t)) \<and> foreign (tb_rooms t) (tb_tasks t) mid"
  shows "tables_inv (push_task k (t\<lparr>tb_money := m\<rparr>))"
proof -
  have "tinv (tb_rooms t) m (set (tb_finalized t)) (tb_tasks t @ [k])"
  proof (rule tinv_push[OF inv ok])
    show "idle i (tb_rooms t) \<and> numbered i (tb_rooms t) \<and> i \<notin> set (begin_rooms (tb_tasks t))" if "begin_room k = Some i" for i
      using b[OF that] by (simp add: no_start_def)
    show "mid \<notin> set (task_mids (tb_tasks t))"
      if "begin_room k = Some i" "get_room i (tb_rooms t) = Some r" "rm_matchId r = Some mid" for i r mid
      using b[OF that(1)] that(2,3) by (simp add: no_start_def)
  qed (rule mid)
  then show ?thesis by (simp add: tables_inv_def)
qed

text \<open>A step of a call.\<close>

lemma run_escrow:
  assumes s: "starting i mid t" and k: "task_ok (tb_rooms t) (tb_money t) (set (tb_finalized t)) (Await (EscrowCall mid ty stake ps) k)"
    and bi: "begin_of k = Some i" and r: "0 \<le> rake" "rake \<le> 10000"
    and c: "run_call locked rake now (EscrowCall mid ty stake ps) (tb_money t) = (reply, m)"
  shows "tables_inv (push_task (Resume reply k) (t\<lparr>tb_money := m\<rparr>))"
proof -
  have kk: "k = BeginCharged i mid ps" "map_of (m_matches (tb_money t)) mid = None" "distinct (map mp_seat ps)" "stake_of i (tb_rooms t) stake"
    using k bi by auto
  have n: "no_start i t" and w: "waiting (tb_rooms t) (set (tb_finalized t)) i mid" and u: "used (tb_rooms t) mid"
    and f: "mid \<notin> set (task_mids (tb_tasks t))" using s by (simp_all add: starting_def)
  have T: "tinv (tb_rooms t) (tb_money t) (set (tb_finalized t)) (tb_tasks t)" using n by (simp add: no_start_def tables_inv_def)
  note I = tinvD[OF T]
  obtain res where e: "escrow (tx_wallet rollback) (Some rollback) {} mid ty stake rake ps now (tb_money t) = (res, m)" "reply = EscrowReply res"
    using c by (cases "escrow (tx_wallet rollback) (Some rollback) {} mid ty stake rake ps now (tb_money t)") (auto simp: run_call_def)
  have "0 \<le> stake" using kk(4) by (simp add: stake_of_def)
  note esc = escrow_call[OF I(2) kk(2,3) this r e(1)]
  have "tinv (tb_rooms t) m (set (tb_finalized t)) (tb_tasks t) \<and>
      (\<forall>x. res = Inr x \<longrightarrow> er_ok x \<longrightarrow> opened_for m (tb_rooms t) i mid ps)"
  proof (cases rule: esc)
    case 1
    with T show ?thesis by blast
  next
    case opened: (2 rec)
    have "opened_for m (tb_rooms t) i mid ps" unfolding opened_for_def
      using opened(3-5) kk(3,4) by blast
    moreover have "tinv (tb_rooms t) m (set (tb_finalized t)) (tb_tasks t)"
      by (rule tinv_money[OF T opened(1,2) waitingD(3)[OF w] f u])
    ultimately show ?thesis by simp
  qed
  then show ?thesis using w n u f starting_foreign[OF s] by (intro continued) (auto simp: kk(1) e(2))
qed

lemma run_refund:
  assumes T: "tables_inv t" and k: "task_ok (tb_rooms t) (tb_money t) (set (tb_finalized t)) (Await (RefundCall mid) k)"
    and n: "\<And>i. begin_of k = Some i \<Longrightarrow> no_start i t" and u: "used (tb_rooms t) mid" and f: "mid \<notin> set (task_mids (tb_tasks t))"
    and c: "run_call locked rake now (RefundCall mid) (tb_money t) = (reply, m)"
  shows "tables_inv (push_task (Resume reply k) (t\<lparr>tb_money := m\<rparr>))"
proof -
  have T': "tinv (tb_rooms t) (tb_money t) (set (tb_finalized t)) (tb_tasks t)" using T by (simp add: tables_inv_def)
  obtain res where e: "refund (tx_wallet rollback) (Some rollback) {} mid now (tb_money t) = (res, m)"
    using c by (cases "refund (tx_wallet rollback) (Some rollback) {} mid now (tb_money t)") (auto simp: run_call_def)
  note r = refund_call[OF tinvD(2)[OF T'] e]
  have q: "quiet mid (tb_rooms t)" using k by simp
  have "tinv (tb_rooms t) m (set (tb_finalized t)) (tb_tasks t)" by (rule tinv_money[OF T' r(1,2) q f u])
  then show ?thesis using k n by (intro continued) (auto split: awaiting.splits)
qed

lemma run_settle:
  assumes T: "tables_inv t" and k: "task_ok (tb_rooms t) (tb_money t) (set (tb_finalized t)) (Await (SettleCall mid seats) k)"
    and u: "used (tb_rooms t) mid" and f: "mid \<notin> set (task_mids (tb_tasks t))"
    and c: "run_call locked rake now (SettleCall mid seats) (tb_money t) = (reply, m)"
  shows "tables_inv (push_task (Resume reply k) (t\<lparr>tb_money := m\<rparr>))"
proof -
  have T': "tinv (tb_rooms t) (tb_money t) (set (tb_finalized t)) (tb_tasks t)" using T by (simp add: tables_inv_def)
  have d: "distinct seats" using k by (auto simp: payable_def)
  obtain res where e: "settle (tx_wallet rollback) (Some rollback) {} mid seats now (tb_money t) = (res, m)"
    using c by (cases "settle (tx_wallet rollback) (Some rollback) {} mid seats now (tb_money t)") (auto simp: run_call_def)
  note r = settle_call[OF tinvD(2)[OF T'] d e]
  have q: "quiet mid (tb_rooms t)" using k by simp
  have "tinv (tb_rooms t) m (set (tb_finalized t)) (tb_tasks t)" by (rule tinv_money[OF T' r(1,2) q f u])
  then show ?thesis using k by (intro continued) auto
qed

text \<open>The sweep: every match in play is among the ids it was given, and no start has just been charged.\<close>

definition sweep_safe :: "string list \<Rightarrow> tables \<Rightarrow> bool" where
  "sweep_safe live t \<longleftrightarrow> set (activeMatchIds (tb_rooms t)) \<subseteq> set live \<and>
     list_all (\<lambda>k. case k of Resume reply (BeginCharged i mid ps) \<Rightarrow> False | _ \<Rightarrow> True) (tb_tasks t)"

lemma activeMatchIds_fold:
  "set (foldl (\<lambda>ids p. case rm_matchId (snd p) of Some mid \<Rightarrow> if rm_status (snd p) = RoomInMatch then set_add mid ids else ids
     | None \<Rightarrow> ids) ids rs) =
   set ids \<union> {mid. \<exists>p\<in>set rs. rm_matchId (snd p) = Some mid \<and> rm_status (snd p) = RoomInMatch}"
  by (induction rs arbitrary: ids) (auto split: option.split)

lemma activeMatchIds_quiet:
  assumes "rooms_inv s"
  shows "mid \<in> set (activeMatchIds s) \<longleftrightarrow> \<not> quiet mid s"
  using get_room_mem[OF rooms_invD(1)[OF assms]]
  by (force simp: activeMatchIds_def activeMatchIds_fold quiet_def)

lemma run_sweep:
  assumes T: "tables_inv t" and safe: "sweep_safe live t"
    and c: "run_call (set (in_flight (tb_tasks t))) rake now (SweepCall live) (tb_money t) = (reply, m)"
  shows "tables_inv (push_task (Resume reply Swept) (t\<lparr>tb_money := m\<rparr>))"
proof -
  let ?locked = "set (in_flight (tb_tasks t))"
  have T': "tinv (tb_rooms t) (tb_money t) (set (tb_finalized t)) (tb_tasks t)" using T by (simp add: tables_inv_def)
  note I = tinvD[OF T']
  obtain res where e: "refund_each (tx_wallet rollback) (Some rollback) ?locked (set live) now (listActive (m_matches (tb_money t))) [] (tb_money t) = (res, m)"
    using c by (cases "recoverOrphanedMatches (tx_wallet rollback) (Some rollback) ?locked (set live) now (tb_money t)")
      (auto simp: run_call_def recoverOrphanedMatches_def)
  note r = sweep_call[OF I(2) e]
  have same: "map_of (m_matches m) x = map_of (m_matches (tb_money t)) x" if "x \<in> set (task_mids (tb_tasks t)) \<or> \<not> quiet x (tb_rooms t)" for x
  proof (cases "quiet x (tb_rooms t)")
    case False
    then have "x \<in> set live" using safe activeMatchIds_quiet[OF I(1)] by (auto simp: sweep_safe_def)
    with r show ?thesis by blast
  next
    case True
    with that obtain k where k: "k \<in> set (tb_tasks t)" "task_mid k = Some x" by (auto simp: in_task_mids)
    show ?thesis
    proof (cases k)
      case (Gate i mid j b)
      then have "map_of (m_matches (tb_money t)) x = None" using I(6)[OF k(1)] k(2) by simp
      with r show ?thesis by simp
    next
      case (Await call kk)
      then have "x \<in> ?locked" using k by (force simp: in_flight_def List.map_filter_def)
      with r show ?thesis by blast
    next
      case (Resume reply kk)
      with k safe show ?thesis by (cases kk) (auto simp: sweep_safe_def list_all_iff dest!: bspec[OF _ k(1)])
    next
      case (Rating i)
      with k show ?thesis by simp
    qed
  qed
  have "tinv (tb_rooms t) m (set (tb_finalized t)) (tb_tasks t)"
    by (rule tinv_records[OF T' _ same]) (use r in auto)
  then show ?thesis by (intro continued) simp_all
qed


lemma run_call_inv:
  assumes T: "tables_inv t" and n: "n < length (tb_tasks t)" and k: "tb_tasks t ! n = Await call kk"
    and r: "0 \<le> rake" "rake \<le> 10000"
    and safe: "\<And>live. call = SweepCall live \<Longrightarrow> sweep_safe live (t\<lparr>tb_tasks := remove_nth n (tb_tasks t)\<rparr>)"
    and c: "run_call (set (in_flight (remove_nth n (tb_tasks t)))) rake now call (tb_money t) = (reply, m)"
  shows "tables_inv (push_task (Resume reply kk) (t\<lparr>tb_tasks := remove_nth n (tb_tasks t), tb_money := m\<rparr>))"
proof -
  let ?t = "t\<lparr>tb_tasks := remove_nth n (tb_tasks t)\<rparr>"
  note P = popped[OF T n, unfolded k]
  have c': "run_call (set (in_flight (tb_tasks ?t))) rake now call (tb_money ?t) = (reply, m)" using c by simp
  show ?thesis
  proof (cases call)
    case (EscrowCall mid ty stake ps)
    obtain i where b: "begin_of kk = Some i" and w: "waiting (tb_rooms ?t) (set (tb_finalized ?t)) i mid"
      using P(2) EscrowCall by auto
    have "starting i mid ?t" by (rule P(6)) (use b w EscrowCall in simp_all)
    from run_escrow[OF this _ b r c'[unfolded EscrowCall]] P(2) EscrowCall
    show "tables_inv (push_task (Resume reply kk) (?t\<lparr>tb_money := m\<rparr>))" by blast
  next
    case (RefundCall mid)
    have "no_start i ?t" if "begin_of kk = Some i" for i by (rule P(3)) (use that in simp)
    from run_refund[OF P(1) _ this _ _ c'[unfolded RefundCall]] P(2,4,5) RefundCall
    show "tables_inv (push_task (Resume reply kk) (?t\<lparr>tb_money := m\<rparr>))" by simp
  next
    case (SettleCall mid seats)
    from run_settle[OF P(1) _ _ _ c'[unfolded SettleCall]] P(2,4,5) SettleCall
    show "tables_inv (push_task (Resume reply kk) (?t\<lparr>tb_money := m\<rparr>))" by simp
  next
    case (SweepCall live)
    have "kk = Swept" using P(2) SweepCall by simp
    with run_sweep[OF P(1) safe[OF SweepCall] c'[unfolded SweepCall]]
    show "tables_inv (push_task (Resume reply kk) (?t\<lparr>tb_money := m\<rparr>))" by simp
  qed
qed

text \<open>What a task may clear: the departed seats of a room that is not playing again already.\<close>

definition clears :: "task \<Rightarrow> string option" where
  "clears k = (case k of Rating i \<Rightarrow> Some i | Resume reply (MatchSettled i) \<Rightarrow> Some i | Resume reply (MatchVoided i) \<Rightarrow> Some i | _ \<Rightarrow> None)"

definition calm_task :: "task \<Rightarrow> dealer option \<Rightarrow> tables \<Rightarrow> bool" where
  "calm_task k dlr t \<longleftrightarrow> (case clears k of None \<Rightarrow> True | Some i \<Rightarrow> idle i (tb_rooms t)) \<and>
     (case begin_room k of None \<Rightarrow> True | Some i \<Rightarrow> dealer_fits dlr i (tb_rooms t)) \<and>
     (case k of Await (SweepCall live) kk \<Rightarrow> sweep_safe live t | _ \<Rightarrow> True)"

lemma resume_inv:
  assumes T: "tables_inv t" and n: "n < length (tb_tasks t)" and k: "tb_tasks t ! n = Resume reply kk"
    and calm: "calm_task (Resume reply kk) dlr (t\<lparr>tb_tasks := remove_nth n (tb_tasks t)\<rparr>)" and f: "factory_ok fac"
  shows "tables_inv (resume fac dlr reply kk (t\<lparr>tb_tasks := remove_nth n (tb_tasks t)\<rparr>))"
proof -
  let ?t = "t\<lparr>tb_tasks := remove_nth n (tb_tasks t)\<rparr>"
  note P = popped[OF T n, unfolded k]
  show ?thesis
  proof (cases kk)
    case (BeginCharged i mid ps)
    have s: "starting i mid ?t" by (rule P(6)) (use P(2) BeginCharged in simp_all)
    have "tables_inv (after_escrow fac dlr i mid ps res ?t)" if "reply = EscrowReply res" for res
      by (rule after_escrow_inv[OF s f]) (use calm P(2) BeginCharged that in \<open>simp_all add: calm_task_def clears_def\<close>)
    with P(1) BeginCharged show ?thesis by (cases reply) (simp_all add: resume_def)
  next
    case (BeginAborted i)
    have "no_start i ?t" by (rule P(3)) (use BeginAborted in simp)
    from begin_failed_inv[OF this] unready_steps[OF P(1), of i] P(1) BeginAborted show ?thesis
      by (auto simp: resume_def split: money_reply.split sum.split)
  next
    case (BeginFailed i)
    with P(1) unready_unless_inv[OF P(1)] show ?thesis by (simp add: resume_def split: money_reply.split)
  next
    case (MatchVoided i)
    have "idle i (tb_rooms ?t)" using calm MatchVoided by (simp add: calm_task_def clears_def)
    then have "tables_inv (after_void i res ?t)" for res
      by (cases res) (simp_all add: after_void_def clear_gone_inv P(1))
    with P(1) MatchVoided show ?thesis by (cases reply) (simp_all add: resume_def)
  next
    case (MatchSettled i)
    have "idle i (tb_rooms ?t)" using calm MatchSettled by (simp add: calm_task_def clears_def)
    then have "tables_inv (clear_gone i ?t)" by (rule clear_gone_inv[OF P(1)])
    with push_rating[OF P(1), of i] have "tables_inv (after_settle i res ?t)" for res
      by (auto simp: after_settle_def split: sum.split option.split)
    with P(1) MatchSettled show ?thesis by (cases reply) (simp_all add: resume_def)
  qed (use P(1) in \<open>simp_all add: resume_def\<close>)
qed

lemma run_task_inv:
  assumes T: "tables_inv t" and f: "factory_ok fac" and r: "0 \<le> rake" "rake \<le> 10000"
    and calm: "n < length (tb_tasks t) \<Longrightarrow> calm_task (tb_tasks t ! n) dlr (t\<lparr>tb_tasks := remove_nth n (tb_tasks t)\<rparr>)"
  shows "tables_inv (run_task fac rake dlr allowed now n t)"
proof (cases "n < length (tb_tasks t)")
  case False
  with T show ?thesis by (simp add: run_task_def)
next
  case n: True
  let ?t = "t\<lparr>tb_tasks := remove_nth n (tb_tasks t)\<rparr>"
  note P = popped[OF T n] and calm = calm[OF n]
  show ?thesis
  proof (cases "tb_tasks t ! n")
    case (Gate i mid k b)
    have s: "starting i mid ?t" by (rule P(6)) (use P(2) Gate in simp_all)
    have "tables_inv (gate_verdict fac dlr i mid k b allowed ?t)"
      by (rule gate_verdict_inv[OF s f]) (use calm P(2) Gate in \<open>simp_all add: calm_task_def clears_def\<close>)
    with n Gate show ?thesis by (simp add: run_task_def)
  next
    case (Await call kk)
    obtain reply m where c: "run_call (set (in_flight (remove_nth n (tb_tasks t)))) rake now call (tb_money t) = (reply, m)" by fastforce
    have "tables_inv (push_task (Resume reply kk) (t\<lparr>tb_tasks := remove_nth n (tb_tasks t), tb_money := m\<rparr>))"
      by (rule run_call_inv[OF T n Await r _ c]) (use calm Await in \<open>simp add: calm_task_def\<close>)
    with n Await c show ?thesis by (simp add: run_task_def)
  next
    case (Resume reply kk)
    with n resume_inv[OF T n Resume calm[unfolded Resume] f] show ?thesis by (simp add: run_task_def)
  next
    case (Rating i)
    have "idle i (tb_rooms ?t)" using calm Rating by (simp add: calm_task_def clears_def)
    then have "tables_inv (clear_gone i (clearRoomStrikes i ?t))" using P(1) by (intro clear_gone_inv) simp_all
    with n Rating show ?thesis by (simp add: run_task_def after_rating_def)
  qed
qed

lemma sweep_starts_inv: "tables_inv t \<Longrightarrow> tables_inv (sweep_starts t)"
  unfolding sweep_starts_def call_money_def call_mid.simps option.case tables_inv_def push_simps
  by (rule tinv_push) auto

lemma wallet_inv:
  assumes T: "tables_inv t" and p: "Money_Service.proper_op (WalletOp op)"
  shows "tables_inv (t\<lparr>tb_money := wallet_step rollback (tb_money t) (op, now)\<rparr>)"
proof -
  have T': "tinv (tb_rooms t) (tb_money t) (set (tb_finalized t)) (tb_tasks t)" using T by (simp add: tables_inv_def)
  note I = tinvD[OF T']
  have "books_ok (tb_money t)" using I(2) by (simp add: money_inv_def)
  note a = wallet_step_external[OF rolls_back_rollback this p, of now]
  have "tinv (tb_rooms t) (wallet_step rollback (tb_money t) (op, now)) (set (tb_finalized t)) (tb_tasks t)"
    by (rule tinv_records[OF T' external_inv[OF I(2) a]]) (use a in \<open>simp_all add: appends_def\<close>)
  then show ?thesis by (simp add: tables_inv_def)
qed

end
