(* ===== verification/Table_Properties.thy ===== *)
theory Table_Properties
  imports Table_Handlers
begin

text \<open>
  The histories of the tables and their properties: in calm histories every match in play is paid
  for, every end of a match reaches the money service and pays; and three histories in which the
  handlers of the gateway, each right for itself, together lose the winner's pot, pay a player who
  had left, or charge a player who did not agree to play again.
\<close>

subsection \<open>Calm histories\<close>

lemma idle_code [code]: "idle i s = (case get_room i s of None \<Rightarrow> True | Some r \<Rightarrow> rm_status r \<noteq> RoomInMatch)"
  by (simp add: idle_def split: option.split)

lemma dealer_fits_None [simp]: "dealer_fits None i s"
  by (simp add: dealer_fits_def)

text \<open>
  A step is calm when no socket acts on a room its user has left, no rematch is asked for beside a
  departed player, no countdown fires twice for one start, no settlement comes back after the next
  match has begun, and no sweep works with a list of live matches that is out of date. Sockets belong
  to people, and payments outside the matches name no match.
\<close>

fun calm_op :: "tables \<Rightarrow> table_op \<Rightarrow> bool" where
  "calm_op t (TCreate rnd user p now) \<longleftrightarrow> \<not> is_bot (ac_userId user)"
| "calm_op t (TJoin user i team) \<longleftrightarrow> \<not> is_bot (ac_userId user)"
| "calm_op t (TJoinByCode user code) \<longleftrightarrow> \<not> is_bot (ac_userId user)"
| "calm_op t (TLeave u sock) \<longleftrightarrow> (case sock of None \<Rightarrow> True | Some i \<Rightarrow> at_home i u (tb_rooms t))"
| "calm_op t (TAbandon i u) \<longleftrightarrow> at_home i u (tb_rooms t)"
| "calm_op t (TRematch u sock) \<longleftrightarrow> (case sock of None \<Rightarrow> True | Some i \<Rightarrow> no_gone i (tb_rooms t))"
| "calm_op t (TCountdown i dlr) \<longleftrightarrow> idle i (tb_rooms t) \<and> i \<notin> set (begin_rooms (tb_tasks t)) \<and> dealer_fits dlr i (tb_rooms t)"
| "calm_op t (TTurnTimeout i k) \<longleftrightarrow> (case userAtSeat i k (tb_rooms t) of None \<Rightarrow> True | Some u \<Rightarrow> at_home i u (tb_rooms t))"
| "calm_op t (TSwitchTimeout i k) \<longleftrightarrow> (case userAtSeat i k (tb_rooms t) of None \<Rightarrow> True | Some u \<Rightarrow> at_home i u (tb_rooms t))"
| "calm_op t (TTask n allowed dlr now) \<longleftrightarrow>
     (n < length (tb_tasks t) \<longrightarrow> calm_task (tb_tasks t ! n) dlr (t\<lparr>tb_tasks := remove_nth n (tb_tasks t)\<rparr>))"
| "calm_op t (TWallet op now) \<longleftrightarrow> Money_Service.proper_op (WalletOp op)"
| "calm_op t _ \<longleftrightarrow> True"

text \<open>The tag of a server instance is new: no record has an id that this instance could give.\<close>

definition tag_new :: "string \<Rightarrow> money_store \<Rightarrow> bool" where
  "tag_new tag m \<longleftrightarrow> (\<forall>k n. map_of (m_matches m) (match_id_for (new_room_id k) n tag) = None)"

inductive calm_reach :: "(nat \<Rightarrow> dealer) \<Rightarrow> int \<Rightarrow> tables \<Rightarrow> bool" for fac rake where
  start: "money_inv m \<Longrightarrow> tag_new tag m \<Longrightarrow> calm_reach fac rake (new_tables target tag m)"
| step: "calm_reach fac rake t \<Longrightarrow> calm_op t op \<Longrightarrow> calm_reach fac rake (table_apply fac rake t op)"

lemma new_tables_inv: "money_inv m \<Longrightarrow> tag_new tag m \<Longrightarrow> tables_inv (new_tables target tag m)"
  unfolding tables_inv_def new_tables_def tables.simps
  by (rule tinvI[OF new_manager_inv]) (simp_all add: new_manager_def get_room_def tag_new_def owned_def)

lemma table_apply_inv:
  assumes T: "tables_inv t" and c: "calm_op t op" and f: "factory_ok fac" and r: "0 \<le> rake" "rake \<le> 10000"
  shows "tables_inv (table_apply fac rake t op)"
proof (cases op)
  case (TLeave u sock)
  with c onLeave_inv[OF T, of sock u] show ?thesis by (cases sock) simp_all
next
  case (TRematch u sock)
  with c onRematch_inv[OF T, of sock u] show ?thesis by (cases sock) simp_all
next
  case (TTurnTimeout i k)
  with c onTurnTimeout_inv[OF T, of i k] show ?thesis by (auto split: option.splits)
next
  case (TSwitchTimeout i k)
  with c onSwitchTimeout_inv[OF T, of i k] show ?thesis by (auto split: option.splits)
next
  case (TTask n allowed dlr now)
  with c run_task_inv[OF T f r, of n dlr] show ?thesis by simp
qed (use T c f in \<open>simp_all add: onCreate_inv onJoin_inv onJoinByCode_inv onReady_inv onSwitchTeam_inv onDisconnect_inv
      onConnection_inv onAbandon_inv countdown_inv onAction_inv actions_forwarded tables_rooms_inv adminVoidMatch_inv
      sweep_starts_inv wallet_inv\<close>)

lemma calm_inv: "calm_reach fac rake t \<Longrightarrow> factory_ok fac \<Longrightarrow> 0 \<le> rake \<Longrightarrow> rake \<le> 10000 \<Longrightarrow> tables_inv t"
  by (induction rule: calm_reach.induct) (simp_all add: new_tables_inv table_apply_inv)

subsection \<open>Money on the table\<close>

lemma charged_length: "mp_seat ` set (charged_players r) = {..<n} \<Longrightarrow> set ps = set (charged_players r) \<Longrightarrow>
  distinct (map mp_seat ps) \<Longrightarrow> length ps = n"
  using distinct_card[of "map mp_seat ps"] by simp

text \<open>C14: a match in play is paid for. In every calm state each room in a match that is not for
  practice has an active match record under its current match id, with the stake of the room, with
  exactly the seated players as its players and every seat among them; and the ledger holds one
  stake for each seat under that id.\<close>

theorem live_table_is_funded:
  assumes "calm_reach fac rake t" "factory_ok fac" "0 \<le> rake" "rake \<le> 10000"
    and "get_room i (tb_rooms t) = Some r" "rm_status r = RoomInMatch" "\<not> rm_practice r"
  shows "\<exists>mid rec. rm_matchId r = Some mid \<and> map_of (m_matches (tb_money t)) mid = Some rec \<and> r_status rec = ActiveMatch \<and>
    r_stakeCents rec = rm_stakeCents r \<and> set (r_players rec) = set (charged_players r) \<and>
    mp_seat ` set (r_players rec) = {..<playersForType (rm_type r)} \<and>
    match_sum (m_ledger (tb_money t)) mid = - (rm_stakeCents r * int (playersForType (rm_type r)))"
proof -
  have T: "tinv (tb_rooms t) (tb_money t) (set (tb_finalized t)) (tb_tasks t)"
    using calm_inv[OF assms(1-4)] by (simp add: tables_inv_def)
  note I = tinvD[OF T]
  obtain mid rec where mid: "rm_matchId r = Some mid" "None \<notin> set (roster r)" and rec: "active_record (tb_money t) mid rec"
    "r_stakeCents rec = rm_stakeCents r" "set (r_players rec) = set (charged_players r)"
    using I(4)[OF assms(5)] assms(6,7) unfolding live_ok_def funded_def by blast
  have "room_full r" using mid(2) unfolding room_full_def roster_def list_all_iff by force
  moreover have "\<forall>u\<in>people r. \<not> is_bot u" using I(3)[OF assms(5)] by (simp add: room_ids_def)
  moreover have "length (rm_seats r) = playersForType (rm_type r)"
    using rooms_invD(3)[OF I(1) assms(5)] by (simp add: room_ok_def seats_ok_def)
  ultimately have seats: "mp_seat ` set (charged_players r) = {..<playersForType (rm_type r)}" using charged_full by simp
  have "match_money_ok (m_ledger (tb_money t)) mid (map_of (m_matches (tb_money t)) mid)" using I(2) by (simp add: money_inv_def)
  then have "record_ok mid rec" "match_sum (m_ledger (tb_money t)) mid = - r_potCents rec"
    using rec(1) by (auto simp: match_money_ok_def active_record_def)
  moreover from this(1) have "length (r_players rec) = playersForType (rm_type r)"
    using charged_length[OF seats rec(3)] by (simp add: record_ok_def)
  ultimately have "match_sum (m_ledger (tb_money t)) mid = - (rm_stakeCents r * int (playersForType (rm_type r)))"
    using rec(2) by (simp add: record_ok_def potCents_def)
  with mid(1) rec seats show ?thesis by (auto simp: active_record_def)
qed

subsection \<open>A small table\<close>

definition table_money :: money_store where
  "table_money = money_step rollback demo_store (WalletOp (TransferOp ''u_1'' ''u_2'' 200 None), 4)"

definition table_user :: "string \<Rightarrow> acting_user" where
  "table_user u = \<lparr>ac_userId = u, ac_username = u, ac_avatar = None\<rparr>"

definition table_payload :: create_payload where
  "table_payload = demo_payload\<lparr>cp_stakeCents := 100\<rparr>"

definition table_run :: "int \<Rightarrow> table_op list \<Rightarrow> tables" where
  "table_run target ops = foldl (table_apply demo_factory 500) (new_tables target ''x'' table_money) ops"

definition next_task :: table_op where
  "next_task = TTask 0 True None 5"

definition table_open :: "table_op list" where
  "table_open = [TCreate (\<lambda>k i. 0) (table_user ''u_1'') table_payload 0, TJoin (table_user ''u_2'') ''room_1'' None,
     TReady ''u_1'' (Some ''room_1'') True, TReady ''u_2'' (Some ''room_1'') True, TCountdown ''room_1'' None]"

definition table_start :: "table_op list" where
  "table_start = table_open @ replicate 4 next_task"

text \<open>Calm steps without dealers of their own, checked along a run.\<close>

fun calm_here :: "tables \<Rightarrow> table_op \<Rightarrow> bool" where
  "calm_here t (TCreate rnd user p now) \<longleftrightarrow> \<not> is_bot (ac_userId user)"
| "calm_here t (TJoin user i team) \<longleftrightarrow> \<not> is_bot (ac_userId user)"
| "calm_here t (TLeave u (Some i)) \<longleftrightarrow> at_home i u (tb_rooms t)"
| "calm_here t (TCountdown i None) \<longleftrightarrow> idle i (tb_rooms t) \<and> i \<notin> set (begin_rooms (tb_tasks t))"
| "calm_here t (TTask n allowed None now) \<longleftrightarrow> n < length (tb_tasks t) \<and>
     (case tb_tasks t ! n of Await (SweepCall live) kk \<Rightarrow> False
      | k \<Rightarrow> (case clears k of None \<Rightarrow> True | Some i \<Rightarrow> idle i (tb_rooms t)))"
| "calm_here t (TReady u sock b) \<longleftrightarrow> True"
| "calm_here t (TPlay u cards) \<longleftrightarrow> True"
| "calm_here t (TPass u) \<longleftrightarrow> True"
| "calm_here t (TVoid i) \<longleftrightarrow> True"
| "calm_here t _ \<longleftrightarrow> False"

lemma calm_here_op: "calm_here t op \<Longrightarrow> calm_op t op"
  by (cases "(t, op)" rule: calm_here.cases)
     (auto simp: calm_task_def split: option.splits task.splits money_call.splits)

fun calm_run :: "tables \<Rightarrow> table_op list \<Rightarrow> bool" where
  "calm_run t [] = True"
| "calm_run t (op # ops) = (calm_here t op \<and> calm_run (table_apply demo_factory 500 t op) ops)"

lemma calm_run_reach: "calm_reach demo_factory 500 t \<Longrightarrow> calm_run t ops \<Longrightarrow> calm_reach demo_factory 500 (foldl (table_apply demo_factory 500) t ops)"
  by (induction ops arbitrary: t) (simp_all add: calm_reach.step calm_here_op)

lemma table_run_calm: "calm_run (new_tables target ''x'' table_money) ops \<Longrightarrow> calm_reach demo_factory 500 (table_run target ops)"
proof -
  assume c: "calm_run (new_tables target ''x'' table_money) ops"
  have m: "money_inv table_money" unfolding table_money_def
    by (rule money_step_inv[OF rolls_back_rollback money_inv_demo_store]) simp
  have "m_matches table_money = []" by code_simp
  then have "tag_new ''x'' table_money" by (simp add: tag_new_def)
  with calm_run_reach[OF calm_reach.start[OF m] c] show ?thesis by (simp add: table_run_def)
qed

lemma table_start_calm: "calm_reach demo_factory 500 (table_run 1 table_start)"
  by (rule table_run_calm) code_simp

lemma table_started:
  "case get_room ''room_1'' (tb_rooms (table_run 1 table_start)) of
     None \<Rightarrow> False | Some r \<Rightarrow> rm_status r = RoomInMatch \<and> \<not> rm_practice r \<and> rm_stakeCents r = 100 \<and> rm_type r = OneVOne \<and>
       rm_matchId r = Some ''room_1-m1-x''"
  by code_simp

theorem live_table_is_funded_witness:
  "match_sum (m_ledger (tb_money (table_run 1 table_start))) ''room_1-m1-x'' = - 200"
proof -
  from table_started obtain r where r: "get_room ''room_1'' (tb_rooms (table_run 1 table_start)) = Some r"
    "rm_status r = RoomInMatch" "\<not> rm_practice r" "rm_stakeCents r = 100" "rm_type r = OneVOne" "rm_matchId r = Some ''room_1-m1-x''"
    by (auto split: option.splits)
  then show ?thesis using live_table_is_funded[OF table_start_calm demo_factory_ok _ _ r(1-3)]
    by (auto simp: playersForType_def)
qed

subsection \<open>The end of a match is settled\<close>

fun no_end :: "match_event \<Rightarrow> bool" where
  "no_end (MatchEnded side seats scores) = False"
| "no_end _ = True"

lemma begin_no_end: "beginPendingGame l m = (Inr e, m') \<Longrightarrow> no_end e"
  by (auto simp: beginPendingGame_def Let_def split: option.splits sum.splits)

lemma prepare_no_end: "prepareNextGame dl ord m = (Inr es, m') \<Longrightarrow> list_all no_end es"
  by (auto simp: prepareNextGame_def switch_cards_def bind_act_def return_act_def Let_def begin_no_end
      split: prod.splits sum.splits if_splits)

text \<open>Only the last event of an action can be the end of the match.\<close>

definition end_last :: "match_event list \<Rightarrow> bool" where
  "end_last es = list_all no_end (butlast es)"

lemma no_end_last: "list_all no_end es \<Longrightarrow> end_last es"
  by (auto simp: end_last_def list_all_iff dest: in_set_butlastD)

lemma end_last_simps [simp]: "end_last []" "end_last [e]" "no_end e \<Longrightarrow> end_last [e, e']"
  by (simp_all add: end_last_def)

lemma onGameEnd_last: "onGameEnd dl m = (Inr es, m') \<Longrightarrow> end_last es"
proof -
  assume "onGameEnd dl m = (Inr es, m')"
  then have "list_all no_end es \<or> (\<exists>e e'. es = [e, e'] \<and> no_end e)"
    by (auto simp: onGameEnd_def Let_def bind_act_def return_act_def prepare_no_end
        split: option.splits sum.splits prod.splits if_splits bool.splits)
  then show ?thesis by (auto intro: no_end_last)
qed

lemma relay_last: "relay dl rg m = (Inr res, m') \<Longrightarrow> end_last (mr_matchEvents res)"
  by (auto simp: relay_def Let_def bind_act_def return_act_def onGameEnd_last split: prod.splits sum.splits if_splits)

lemma match_play_last: "match_play dl k cards m = (Inr res, m') \<Longrightarrow> end_last (mr_matchEvents res)"
  by (auto simp: match_play_def relay_last split: match_phase.splits option.splits)


lemma match_pass_last: "match_pass dl k m = (Inr res, m') \<Longrightarrow> end_last (mr_matchEvents res)"
  by (auto simp: match_pass_def relay_last split: match_phase.splits option.splits)

lemma forward_last:
  assumes "\<And>dl k m m' res. act dl k m = (Inr res, m') \<Longrightarrow> end_last (mr_matchEvents res)" "forward u act s = (Inr (res, i), s')"
  shows "end_last (mr_matchEvents res)"
  using assms(2) by (auto simp: forward_def dest: assms(1) split: option.splits prod.splits sum.splits)

lemma no_end_effect: "list_all no_end es \<Longrightarrow> foldl (match_event_effect i) t es = t"
proof (induction es)
  case (Cons e es)
  then show ?case by (cases e) (simp_all add: match_event_effect_def)
qed simp

lemma end_last_effect:
  assumes "end_last es" "MatchEnded side seats scores \<in> set es"
  shows "foldl (match_event_effect i) t es = settleAndEmitMatchEnd i seats t"
proof -
  have ne: "es \<noteq> []" using assms(2) by auto
  then have e: "es = butlast es @ [last es]" by simp
  have b: "list_all no_end (butlast es)" using assms(1) by (simp add: end_last_def)
  have "MatchEnded side seats scores \<notin> set (butlast es)" using b by (auto simp: list_all_iff)
  then have "last es = MatchEnded side seats scores" using assms(2) e by (metis Un_iff set_append empty_iff insert_iff list.set(1,2))
  then have "foldl (match_event_effect i) t es = foldl (match_event_effect i) (foldl (match_event_effect i) t (butlast es)) [MatchEnded side seats scores]"
    by (metis e foldl_append)
  then show ?thesis by (simp add: no_end_effect[OF b] match_event_effect_def)
qed


definition table_end :: "table_op list" where
  "table_end = table_start @ [TPlay ''u_1'' [Standard R3 Spades], TPass ''u_2'']"

lemma table_end_calm: "calm_reach demo_factory 500 (table_run 1 table_end)"
  by (rule table_run_calm) code_simp

lemma table_last_play:
  "fst (room_play ''u_1'' [Standard R4 Spades] (tb_rooms (table_run 1 table_end))) =
     Inr (\<lparr>mr_ok = True, mr_code = None,
       mr_gameEvents = [Played 0 \<lparr>c_type = SingleC, c_cards = [Standard R4 Spades], c_size = 1, c_power = Some 1, c_topSeq = None\<rparr>,
         PlayerFinished 0 1, GameEnded [0, 1]],
       mr_matchEvents = [GameScored 0 [0, 1] [1, 0] [1, 0] None, MatchEnded 0 [0] [1, 0]]\<rparr>, Some ''room_1'')"
  by code_simp

lemma table_last_room:
  "case get_room ''room_1'' (tb_rooms (table_run 1 table_end)) of
     None \<Rightarrow> False | Some r \<Rightarrow> \<not> rm_practice r \<and> rm_matchId r = Some ''room_1-m1-x''"
  by code_simp


lemma settle_not_none:
  assumes "map_of (m_matches m) mid = Some r" "r_status r = ActiveMatch" "seated_winners r seats \<noteq> []"
  shows "fst (settle w uow {} mid seats now m) \<noteq> Inr None"
  using assms by (simp add: settle_def settle_record_def matches_find_def Let_def split: sum.split prod.split)

lemma seated_all: "set seats \<subseteq> mp_seat ` set (r_players r) \<Longrightarrow> seated_winners r seats = seats"
  by (force simp: seated_winners_def filter_id_conv seatToUser_def map_of_eq_None_iff image_iff)

lemma settle_payable:
  assumes "money_inv m" "active_record m mid r" "distinct seats" "seats \<noteq> []" "set seats \<subseteq> mp_seat ` set (r_players r)"
  shows "case settle (tx_wallet rollback) (Some rollback) {} mid seats now m of
      (Inr (Some st), m') \<Rightarrow> map py_seat (se_payouts st) = seats \<and>
        (\<Sum>p\<leftarrow>se_payouts st. py_amountCents p) + se_rakeCents st = r_potCents r \<and>
        map_option r_status (map_of (m_matches m') mid) = Some Settled
    | (Inr None, m') \<Rightarrow> False
    | (Inl e, m') \<Rightarrow> m' = m"
proof -
  have r: "map_of (m_matches m) mid = Some r" "r_status r = ActiveMatch" using assms(2) by (simp_all add: active_record_def)
  note s = settle_not_none[OF r, of seats "tx_wallet rollback" "Some rollback" now, unfolded seated_all[OF assms(5)], OF assms(4)]
  show ?thesis
  proof (rule settle_cases[OF rolls_back_rollback, of "tx_wallet rollback" mid seats now m])
    assume "snd (settle (tx_wallet rollback) (Some rollback) {} mid seats now m) = m"
      "\<And>st. fst (settle (tx_wallet rollback) (Some rollback) {} mid seats now m) \<noteq> Inr (Some st)"
    then show ?thesis using s
      by (cases "settle (tx_wallet rollback) (Some rollback) {} mid seats now m") (auto split: sum.split option.split)
  next
    fix r' st m'
    assume r': "map_of (m_matches m) mid = Some r'" "r_status r' = ActiveMatch"
      and c: "computeSettlement (r_potCents r') (r_rakeBps r') (seated_winners r' seats) = Inr st"
      and w: "settle_writes r' (seated_winners r' seats) st now bind_wallet m = (Inr (), m')"
      and e: "settle (tx_wallet rollback) (Some rollback) {} mid seats now m = (Inr (Some st), m')"
    have [simp]: "r' = r" using r r' by simp
    note i = settle_writes_inv[OF assms(1) r' seated_winners_distinct[OF assms(3)] c w]
    show ?thesis using computeSettlement_pot[OF c] i seated_all[OF assms(5)] by (simp add: e)
  qed
qed


definition table_settling :: "table_op list" where
  "table_settling = table_end @ [TPlay ''u_1'' [Standard R4 Spades]]"

lemma table_settling_calm: "calm_reach demo_factory 500 (table_run 1 table_settling)"
  by (rule table_run_calm) code_simp

lemma table_settling_task: "tb_tasks (table_run 1 table_settling) = [Await (SettleCall ''room_1-m1-x'' [0]) (MatchSettled ''room_1'')]"
  by code_simp


subsection \<open>Histories that go wrong\<close>

definition table_balances :: "tables \<Rightarrow> cents list" where
  "table_balances t = map (\<lambda>u. getBalance u (tb_money t)) [''u_1'', ''u_2'']"

definition table_record :: "string \<Rightarrow> tables \<Rightarrow> match_status option" where
  "table_record mid t = map_option r_status (map_of (m_matches (tb_money t)) mid)"

definition table_status :: "string \<Rightarrow> tables \<Rightarrow> room_status option" where
  "table_status i t = map_option rm_status (get_room i (tb_rooms t))"

text \<open>A player presses ready again while the escrow of the start runs: the countdown starts a second
  time, and fires when the match is in play.\<close>

definition table_double :: "table_op list" where
  "table_double = table_open @ [TReady ''u_2'' (Some ''room_1'') True] @ replicate 4 next_task @ [TCountdown ''room_1'' None] @
     replicate 6 next_task @ [TLeave ''u_1'' (Some ''room_1'')] @ replicate 2 next_task"


text \<open>The first player has two sockets, one of which remembers a room that was left before.\<close>

definition table_stale :: "table_op list" where
  "table_stale = [TCreate (\<lambda>k i. 0) (table_user ''u_1'') table_payload 0, TLeave ''u_1'' (Some ''room_1''),
     TCreate (\<lambda>k i. 0) (table_user ''u_1'') table_payload 0, TJoin (table_user ''u_2'') ''room_2'' None,
     TReady ''u_1'' (Some ''room_2'') True, TReady ''u_2'' (Some ''room_2'') True, TCountdown ''room_2'' None] @ replicate 4 next_task @
     [TLeave ''u_1'' (Some ''room_1''), TTurnTimeout ''room_2'' 0, TLeave ''u_2'' (Some ''room_2'')] @ replicate 2 next_task"

text \<open>A player can leave a match in play without forfeiting it, and win it. The socket of the
  first player that remembers an old room sends leave: the gateway finds no match in that room and
  takes the player out of the room of the match, whose seat is empty from then on. The clock of the
  empty seat finds nobody to forfeit; when the second player gives up, the pot goes to the player
  who had left.\<close>

theorem stale_leave_wins:
  "let t = table_run 21 table_stale in
     table_balances t = [390, 100] \<and> table_record ''room_2-m1-x'' t = Some Settled"
  by code_simp

definition table_again :: "table_op list" where
  "table_again = table_settling @ replicate 3 next_task @
     [TReady ''u_1'' (Some ''room_1'') True, TCountdown ''room_1'' None] @ replicate 4 next_task"

text \<open>A finished match can start again without the loser's consent. After the settlement both
  players are still marked as ready; when the winner presses ready, the countdown runs, the match
  starts again and the second player, who did nothing, is charged a second stake.\<close>

theorem restart_without_consent:
  "let t = table_run 1 table_again in
     table_balances t = [290, 0] \<and> table_record ''room_1-m1-x'' t = Some Settled \<and>
     table_record ''room_1-m2-x'' t = Some ActiveMatch \<and> table_status ''room_1'' t = Some RoomInMatch"
  by code_simp

end
