(* ===== verification/ClubWars.thy ===== *)
theory ClubWars
  imports Payments
begin

text \<open>
  Club wars (\<^verbatim>\<open>packages/server/src/social/clubWarService.ts\<close>): two clubs play every member of one roster
  against every member of the other, for a pool of buy-ins. Registration with escrow, the start, the
  results, the payout of the winning club or the refund of a tie, cancellation and the sweep of stale
  wars, over the in-memory repository of \<^verbatim>\<open>clubWarRepository.ts\<close> and the wallet adapter
  \<^verbatim>\<open>clubWarWallet\<close> of \<^verbatim>\<open>app.ts\<close>.

  The store of the wallet is extended by the stored wars. The per-war lock makes every operation one
  step. The repository stores copies, so a war that is changed in memory and not saved is unchanged.
\<close>

subsection \<open>Data\<close>

datatype cw_status = CwRegistering | CwRunning | CwFinished | CwCancelled

record war_pairing =
  wp_aUserId :: user_id
  wp_bUserId :: user_id
  wp_winnerId :: "user_id option"

record club_war =
  cw_id :: string
  cw_clubAId :: string
  cw_clubBId :: string
  cw_status :: cw_status
  cw_stakeCents :: cents
  cw_rakeBps :: int
  cw_size :: nat
  cw_rosterA :: "user_id list"
  cw_rosterB :: "user_id list"
  cw_pairings :: "war_pairing list"
  cw_scoreA :: nat
  cw_scoreB :: nat
  cw_prizePoolCents :: cents
  cw_winnerClubId :: "string option"
  cw_createdAt :: int

record war_store = money_store +
  cw_rows :: "(string \<times> club_war) list"

text \<open>The service; its wallet may be missing, its unit of work is missing in memory.\<close>

record 's war_service =
  cs_rakeBps :: int
  cs_wallet :: "'s wallet_service option"
  cs_uow :: "('s \<Rightarrow> 's \<Rightarrow> 's) option"

definition MAX_SIZE :: int where
  "MAX_SIZE = 5"

definition cw_fail :: "string \<Rightarrow> ('s, money_error, 'a) action" where
  "cw_fail code s = (Inl (ClubWarError code), s)"

text \<open>\<^verbatim>\<open>this.wallet!\<close>: a call on a missing wallet throws.\<close>

definition need_wallet :: "'s war_service \<Rightarrow> ('s wallet_service \<Rightarrow> ('s, money_error, 'a) action) \<Rightarrow> ('s, money_error, 'a) action" where
  "need_wallet sv act s = (case cs_wallet sv of None \<Rightarrow> (Inl (ProviderThrew ''TypeError''), s) | Some w \<Rightarrow> act w s)"

subsection \<open>The repository\<close>

definition cw_get :: "string \<Rightarrow> 'z war_store_scheme \<Rightarrow> club_war option" where
  "cw_get i s = map_of (cw_rows s) i"

definition cw_save :: "club_war \<Rightarrow> 'z war_store_scheme \<Rightarrow> 'z war_store_scheme" where
  "cw_save w s = s\<lparr>cw_rows := AList.update (cw_id w) w (cw_rows s)\<rparr>"

definition cw_listForClub :: "string \<Rightarrow> int \<Rightarrow> 'z war_store_scheme \<Rightarrow> club_war list" where
  "cw_listForClub c limit s =
     take (nat (max 0 limit))
       (sort_key (\<lambda>w. - cw_createdAt w) (filter (\<lambda>w. cw_clubAId w = c \<or> cw_clubBId w = c) (map snd (cw_rows s))))"

definition cw_listActive :: "'z war_store_scheme \<Rightarrow> club_war list" where
  "cw_listActive s = filter (\<lambda>w. cw_status w = CwRegistering \<or> cw_status w = CwRunning) (map snd (cw_rows s))"

definition cw_save_act :: "club_war \<Rightarrow> ('z war_store_scheme, money_error, club_war) action" where
  "cw_save_act w s = (Inr w, cw_save w s)"

subsection \<open>The wallet of the wars\<close>

definition cw_debit ::
  "'z money_store_scheme wallet_service \<Rightarrow> user_id \<Rightarrow> cents \<Rightarrow> string \<Rightarrow> int \<Rightarrow> ('z money_store_scheme, money_error, move_result) action" where
  "cw_debit w uid amount reason now = debit w uid amount (plain_debit Bet reason) now"

definition cw_credit ::
  "'z money_store_scheme wallet_service \<Rightarrow> user_id \<Rightarrow> cents \<Rightarrow> string \<Rightarrow> int \<Rightarrow> ('z money_store_scheme, money_error, move_result) action" where
  "cw_credit w uid amount reason now =
     credit w uid amount ((plain_credit PayoutTx reason)\<lparr>co_providerRef := Some reason\<rparr>) now"

definition cw_buyin_ref :: "string \<Rightarrow> user_id \<Rightarrow> string" where
  "cw_buyin_ref i uid = ''clubwar:'' @ i @ '':buyin:'' @ uid"

definition cw_refund_ref :: "string \<Rightarrow> user_id \<Rightarrow> string" where
  "cw_refund_ref i uid = ''clubwar:'' @ i @ '':refund:'' @ uid"

definition cw_payout_ref :: "string \<Rightarrow> string" where
  "cw_payout_ref i = ''clubwar:'' @ i @ '':payout''"

text \<open>The references of one winner's share and of the rake, made from the reference of the payout.\<close>

definition share_ref :: "string \<Rightarrow> user_id \<Rightarrow> string" where
  "share_ref ref uid = ref @ '':'' @ uid"

definition cw_rake_ref :: "string \<Rightarrow> string" where
  "cw_rake_ref ref = ''clubwar-rake:'' @ ref"

definition share_credit :: "string \<Rightarrow> user_id \<Rightarrow> credit_options" where
  "share_credit ref uid = (plain_credit PayoutTx (''clubwar prize:'' @ ref))\<lparr>co_providerRef := Some (share_ref ref uid)\<rparr>"

definition payoutSplit ::
  "'z money_store_scheme wallet_service \<Rightarrow> user_id list \<Rightarrow> cents \<Rightarrow> cents \<Rightarrow> string \<Rightarrow> int \<Rightarrow> ('z money_store_scheme, money_error, unit) action" where
  "payoutSplit w winners per rake ref now =
     bind_act (for_each (\<lambda>uid. ignore_act (credit w uid per (share_credit ref uid) now)) winners) (\<lambda>_.
       if rake > 0 then ignore_act (recordRake w rake None None (Some (cw_rake_ref ref)) now) else return_act ())"

subsection \<open>Creation and registration\<close>

definition create_war ::
  "'z war_store_scheme war_service \<Rightarrow> string \<Rightarrow> string \<Rightarrow> cents \<Rightarrow> int \<Rightarrow> string \<Rightarrow> int \<Rightarrow> ('z war_store_scheme, money_error, club_war) action" where
  "create_war sv clubA clubB stake n newId now s =
     (if clubA = clubB then cw_fail ''same_club'' s
      else if stake < 0 then cw_fail ''bad_stake'' s
      else if stake > 0 \<and> cs_wallet sv = None then cw_fail ''no_wallet'' s
      else if n < 1 \<or> n > MAX_SIZE then cw_fail ''bad_size'' s
      else cw_save_act
        \<lparr>cw_id = newId, cw_clubAId = clubA, cw_clubBId = clubB, cw_status = CwRegistering, cw_stakeCents = stake,
         cw_rakeBps = cs_rakeBps sv, cw_size = nat n, cw_rosterA = [], cw_rosterB = [], cw_pairings = [],
         cw_scoreA = 0, cw_scoreB = 0, cw_prizePoolCents = 0, cw_winnerClubId = None, cw_createdAt = now\<rparr> s)"

definition begin_war :: "club_war \<Rightarrow> club_war" where
  "begin_war w =
     w\<lparr>cw_pairings := concat (map (\<lambda>a. map (\<lambda>b. \<lparr>wp_aUserId = a, wp_bUserId = b, wp_winnerId = None\<rparr>) (cw_rosterB w)) (cw_rosterA w)),
       cw_status := CwRunning\<rparr>"

text \<open>\<open>sideA\<close>: the player joins the first club's roster.\<close>

definition seat_war :: "user_id \<Rightarrow> bool \<Rightarrow> club_war \<Rightarrow> club_war" where
  "seat_war uid sideA w =
     (let w1 = (if sideA then w\<lparr>cw_rosterA := cw_rosterA w @ [uid]\<rparr> else w\<lparr>cw_rosterB := cw_rosterB w @ [uid]\<rparr>);
          w2 = w1\<lparr>cw_prizePoolCents := cw_prizePoolCents w1 + cw_stakeCents w1\<rparr>
      in if length (cw_rosterA w2) \<ge> cw_size w2 \<and> length (cw_rosterB w2) \<ge> cw_size w2 then begin_war w2 else w2)"

text \<open>The compensating refund of the source answers a failing save, which the stores of this model
  do not have.\<close>

definition register_war ::
  "'z war_store_scheme war_service \<Rightarrow> string \<Rightarrow> user_id \<Rightarrow> bool \<Rightarrow> int \<Rightarrow> ('z war_store_scheme, money_error, club_war) action" where
  "register_war sv i uid sideA now s =
     (case cw_get i s of
        None \<Rightarrow> cw_fail ''not_found'' s
      | Some w \<Rightarrow>
          if cw_status w \<noteq> CwRegistering then cw_fail ''closed'' s
          else if uid \<in> set (cw_rosterA w) \<or> uid \<in> set (cw_rosterB w) then cw_fail ''already'' s
          else if length (if sideA then cw_rosterA w else cw_rosterB w) \<ge> cw_size w then cw_fail ''full'' s
          else case cs_uow sv of
            Some uow \<Rightarrow>
              if cw_stakeCents w > 0 then
                transaction_in uow
                  (bind_act (need_wallet sv (\<lambda>_. cw_debit bind_wallet uid (cw_stakeCents w) (cw_buyin_ref (cw_id w) uid) now))
                    (\<lambda>_. cw_save_act (seat_war uid sideA w))) s
              else cw_save_act (seat_war uid sideA w) s
          | None \<Rightarrow>
              bind_act
                (if cw_stakeCents w > 0
                 then ignore_act (need_wallet sv (\<lambda>wa. cw_debit wa uid (cw_stakeCents w) (cw_buyin_ref (cw_id w) uid) now))
                 else return_act ())
                (\<lambda>_. cw_save_act (seat_war uid sideA w)) s)"

definition start_war :: "string \<Rightarrow> ('z war_store_scheme, money_error, club_war) action" where
  "start_war i s =
     (case cw_get i s of
        None \<Rightarrow> cw_fail ''not_found'' s
      | Some w \<Rightarrow>
          if cw_status w \<noteq> CwRegistering then cw_fail ''not_registering'' s
          else if cw_rosterA w = [] \<or> cw_rosterB w = [] then cw_fail ''empty_side'' s
          else cw_save_act (begin_war w) s)"

subsection \<open>Results and payout\<close>

definition verdict :: "club_war \<Rightarrow> string option" where
  "verdict w =
     (if cw_scoreA w > cw_scoreB w then Some (cw_clubAId w)
      else if cw_scoreB w > cw_scoreA w then Some (cw_clubBId w) else None)"

definition decideWinner :: "club_war \<Rightarrow> club_war" where
  "decideWinner w = w\<lparr>cw_winnerClubId := verdict w\<rparr>"

definition refundAll :: "'z war_store_scheme war_service \<Rightarrow> club_war \<Rightarrow> int \<Rightarrow> ('z war_store_scheme, money_error, unit) action" where
  "refundAll sv w now =
     (if cw_stakeCents w = 0 then return_act ()
      else for_each (\<lambda>uid. ignore_act (need_wallet sv (\<lambda>wa. cw_credit wa uid (cw_stakeCents w) (cw_refund_ref (cw_id w) uid) now)))
             (cw_rosterA w @ cw_rosterB w))"

definition war_winners :: "club_war \<Rightarrow> user_id list" where
  "war_winners w = (if cw_winnerClubId w = Some (cw_clubAId w) then cw_rosterA w else cw_rosterB w)"

text \<open>The share of one winner, and the rake with the cents that cannot be shared.\<close>

definition war_share :: "club_war \<Rightarrow> cents" where
  "war_share w =
     (cw_prizePoolCents w - (cw_prizePoolCents w * cw_rakeBps w) div 10000) div int (length (war_winners w))"

definition war_rake :: "club_war \<Rightarrow> cents" where
  "war_rake w =
     (let rake = (cw_prizePoolCents w * cw_rakeBps w) div 10000; prize = cw_prizePoolCents w - rake
      in rake + (prize - war_share w * int (length (war_winners w))))"

definition payoutSettled :: "'z war_store_scheme war_service \<Rightarrow> club_war \<Rightarrow> int \<Rightarrow> ('z war_store_scheme, money_error, unit) action" where
  "payoutSettled sv w now =
     (if cw_stakeCents w = 0 \<or> cw_prizePoolCents w = 0 then return_act ()
      else if \<not> truthy (cw_winnerClubId w) then refundAll sv w now
      else need_wallet sv (\<lambda>wa. payoutSplit wa (war_winners w) (war_share w) (war_rake w) (cw_payout_ref (cw_id w)) now))"

definition all_decided :: "club_war \<Rightarrow> bool" where
  "all_decided w = list_all (\<lambda>p. truthy (wp_winnerId p)) (cw_pairings w)"

definition finish_war :: "'z war_store_scheme war_service \<Rightarrow> club_war \<Rightarrow> int \<Rightarrow> ('z war_store_scheme, money_error, club_war) action" where
  "finish_war sv w now = bind_act (payoutSettled sv w now) (\<lambda>_. cw_save_act (w\<lparr>cw_status := CwFinished\<rparr>))"

definition is_pairing :: "user_id \<Rightarrow> user_id \<Rightarrow> war_pairing \<Rightarrow> bool" where
  "is_pairing a b p = (wp_aUserId p = a \<and> wp_bUserId p = b)"

definition record_win :: "user_id \<Rightarrow> user_id \<Rightarrow> user_id \<Rightarrow> club_war \<Rightarrow> club_war" where
  "record_win a b winner w =
     (let w1 = w\<lparr>cw_pairings := update_first (is_pairing a b) (\<lambda>p. p\<lparr>wp_winnerId := Some winner\<rparr>) (cw_pairings w)\<rparr>
      in if winner = a then w1\<lparr>cw_scoreA := cw_scoreA w1 + 1\<rparr> else w1\<lparr>cw_scoreB := cw_scoreB w1 + 1\<rparr>)"

definition report_war ::
  "'z war_store_scheme war_service \<Rightarrow> string \<Rightarrow> user_id \<Rightarrow> user_id \<Rightarrow> user_id \<Rightarrow> int \<Rightarrow> ('z war_store_scheme, money_error, club_war) action" where
  "report_war sv i a b winner now s =
     (case cw_get i s of
        None \<Rightarrow> cw_fail ''not_found'' s
      | Some w \<Rightarrow>
          if cw_status w \<noteq> CwRunning then cw_fail ''not_running'' s
          else case List.find (is_pairing a b) (cw_pairings w) of
            None \<Rightarrow> cw_fail ''no_pairing'' s
          | Some p \<Rightarrow>
              if truthy (wp_winnerId p) then (Inr w, s)
              else if winner \<noteq> a \<and> winner \<noteq> b then cw_fail ''bad_winner'' s
              else
                let w1 = record_win a b winner w
                in if all_decided w1
                   then let w2 = decideWinner w1 in finish_war sv w2 now (cw_save w2 s)
                   else cw_save_act w1 s)"

subsection \<open>Cancellation and the sweep\<close>

definition void_war :: "'z war_store_scheme war_service \<Rightarrow> club_war \<Rightarrow> int \<Rightarrow> ('z war_store_scheme, money_error, club_war) action" where
  "void_war sv w now = bind_act (refundAll sv w now) (\<lambda>_. cw_save_act (w\<lparr>cw_status := CwCancelled\<rparr>))"

definition cancel_war :: "'z war_store_scheme war_service \<Rightarrow> string \<Rightarrow> int \<Rightarrow> ('z war_store_scheme, money_error, club_war) action" where
  "cancel_war sv i now s =
     (case cw_get i s of
        None \<Rightarrow> cw_fail ''not_found'' s
      | Some w \<Rightarrow> if cw_status w \<noteq> CwRegistering then cw_fail ''not_cancellable'' s else void_war sv w now s)"

text \<open>One round of the loop of \<^verbatim>\<open>sweepStaleWars\<close>; a throw ends the sweep.\<close>

definition sweep_war ::
  "'z war_store_scheme war_service \<Rightarrow> int \<Rightarrow> int \<Rightarrow> club_war \<Rightarrow> ('z war_store_scheme, money_error, string list) action" where
  "sweep_war sv cutoff now snap s =
     (if cw_createdAt snap > cutoff then (Inr [], s)
      else case cw_get (cw_id snap) s of
        None \<Rightarrow> (Inr [], s)
      | Some w \<Rightarrow>
          if cw_status w \<noteq> CwRegistering \<and> cw_status w \<noteq> CwRunning then (Inr [], s)
          else bind_act
            (if cw_status w = CwRunning \<and> cw_pairings w \<noteq> [] \<and> all_decided w
             then finish_war sv (decideWinner w) now
             else void_war sv w now)
            (\<lambda>_. return_act [cw_id w]) s)"

fun sweep_wars ::
  "'z war_store_scheme war_service \<Rightarrow> int \<Rightarrow> int \<Rightarrow> club_war list \<Rightarrow> ('z war_store_scheme, money_error, string list) action" where
  "sweep_wars sv cutoff now [] s = (Inr [], s)"
| "sweep_wars sv cutoff now (snap # snaps) s =
     bind_act (sweep_war sv cutoff now snap) (\<lambda>v. bind_act (sweep_wars sv cutoff now snaps) (\<lambda>vs. return_act (v @ vs))) s"

definition sweepStaleWars ::
  "'z war_store_scheme war_service \<Rightarrow> int \<Rightarrow> int \<Rightarrow> ('z war_store_scheme, money_error, string list) action" where
  "sweepStaleWars sv maxAgeMs now s = sweep_wars sv (now - maxAgeMs) now (cw_listActive s) s"

end
