(* ===== verification/Club_War_Money.thy ===== *)
theory Club_War_Money
  imports ClubWars
begin

text \<open>
  The pool of a club war: an invariant that ties the status of every war, its results and its entries
  in the ledger, kept by every operation, whatever fails on the way. From it: where the money of a
  finished, cancelled or running war is, and which club wins; and a cancellation that fails half-way.
\<close>

subsection \<open>References of a war\<close>

abbreviation war_share_ref :: "string \<Rightarrow> user_id \<Rightarrow> string" where
  "war_share_ref i \<equiv> share_ref (cw_payout_ref i)"

abbreviation war_rake_ref :: "string \<Rightarrow> string" where
  "war_rake_ref i \<equiv> cw_rake_ref (cw_payout_ref i)"

definition cw_refs :: "string \<Rightarrow> string set" where
  "cw_refs i = insert (war_rake_ref i) (range (cw_refund_ref i) \<union> range (war_share_ref i))"

lemmas cw_ref_defs = cw_refund_ref_def cw_payout_ref_def share_ref_def cw_rake_ref_def

lemma cw_ref_inj [simp]:
  "cw_refund_ref i u = cw_refund_ref i v \<longleftrightarrow> u = v" "share_ref ref u = share_ref ref v \<longleftrightarrow> u = v"
  "war_rake_ref i \<noteq> cw_refund_ref j u" "cw_refund_ref j u \<noteq> war_rake_ref i"
  "war_rake_ref i \<noteq> war_share_ref j u" "war_share_ref j u \<noteq> war_rake_ref i"
  "war_rake_ref i = war_rake_ref j \<longleftrightarrow> i = j"
  "cw_refund_ref i u \<noteq> []" "war_share_ref i u \<noteq> []" "war_rake_ref i \<noteq> []"
  by (simp_all add: cw_ref_defs)

lemma cw_refund_share: "no_colon i \<Longrightarrow> no_colon j \<Longrightarrow> cw_refund_ref i u \<noteq> war_share_ref j v"
  by (simp add: cw_ref_defs first_colon)

lemma cw_ref_same:
  "no_colon i \<Longrightarrow> no_colon j \<Longrightarrow> cw_refund_ref i u = cw_refund_ref j v \<longleftrightarrow> i = j \<and> u = v"
  "no_colon i \<Longrightarrow> no_colon j \<Longrightarrow> war_share_ref i u = war_share_ref j v \<longleftrightarrow> i = j \<and> u = v"
  by (simp_all add: cw_ref_defs first_colon)

lemma cw_refs_disjoint: "no_colon i \<Longrightarrow> no_colon j \<Longrightarrow> i \<noteq> j \<Longrightarrow> ref \<in> cw_refs j \<Longrightarrow> ref \<notin> cw_refs i"
  using cw_refund_share[of i j] cw_refund_share[of j i] by (auto simp: cw_refs_def cw_ref_same) metis+

subsection \<open>The invariant\<close>

definition won_by :: "(war_pairing \<Rightarrow> user_id) \<Rightarrow> club_war \<Rightarrow> nat" where
  "won_by side w = length (filter (\<lambda>p. wp_winnerId p = Some (side p)) (cw_pairings w))"

text \<open>The pairings of a war that has begun: everybody against everybody, and the score counts them.\<close>

definition drawn :: "club_war \<Rightarrow> bool" where
  "drawn w \<longleftrightarrow> cw_rosterA w \<noteq> [] \<and> cw_rosterB w \<noteq> [] \<and>
     map (\<lambda>p. (wp_aUserId p, wp_bUserId p)) (cw_pairings w) = List.product (cw_rosterA w) (cw_rosterB w) \<and>
     (\<forall>p\<in>set (cw_pairings w). wp_winnerId p \<in> {None, Some (wp_aUserId p), Some (wp_bUserId p)}) \<and>
     cw_scoreA w = won_by wp_aUserId w \<and> cw_scoreB w = won_by wp_bUserId w"

definition war_shape :: "club_war \<Rightarrow> bool" where
  "war_shape w \<longleftrightarrow> distinct (cw_rosterA w @ cw_rosterB w) \<and> [] \<notin> set (cw_rosterA w @ cw_rosterB w) \<and>
     0 \<le> cw_stakeCents w \<and> 0 \<le> cw_rakeBps w \<and> cw_rakeBps w \<le> 10000 \<and> 0 < cw_size w \<and>
     cw_clubAId w \<noteq> cw_clubBId w \<and> cw_clubAId w \<noteq> [] \<and> cw_clubBId w \<noteq> [] \<and>
     cw_prizePoolCents w = cw_stakeCents w * int (length (cw_rosterA w @ cw_rosterB w)) \<and>
     (cw_status w = CwRegistering \<longrightarrow> cw_pairings w = [] \<and> cw_scoreA w = 0 \<and> cw_scoreB w = 0) \<and>
     (cw_status w = CwRunning \<longrightarrow> drawn w) \<and>
     (cw_status w = CwFinished \<longrightarrow> drawn w \<and> all_decided w \<and> cw_winnerClubId w = verdict w)"

text \<open>The war is decided: its result cannot change any more.\<close>

definition settling :: "club_war \<Rightarrow> bool" where
  "settling w \<longleftrightarrow> (cw_status w = CwRunning \<or> cw_status w = CwFinished) \<and> all_decided w"

definition war_refunds :: "club_war \<Rightarrow> 'z money_store_scheme \<Rightarrow> bool" where
  "war_refunds w s \<longleftrightarrow> (\<forall>uid row. paid (cw_refund_ref (cw_id w) uid) s = Some row \<longrightarrow>
     uid \<in> set (cw_rosterA w @ cw_rosterB w) \<and> t_userId row = uid \<and> t_amountCents row = cw_stakeCents w)"

definition war_prizes :: "club_war \<Rightarrow> 'z money_store_scheme \<Rightarrow> bool" where
  "war_prizes w s \<longleftrightarrow>
     (\<forall>uid row. paid (war_share_ref (cw_id w) uid) s = Some row \<longrightarrow>
        settling w \<and> cw_stakeCents w \<noteq> 0 \<and> verdict w \<noteq> None \<and> uid \<in> set (war_winners (decideWinner w)) \<and>
        t_userId row = uid \<and> t_amountCents row = war_share (decideWinner w)) \<and>
     (\<forall>row. paid (war_rake_ref (cw_id w)) s = Some row \<longrightarrow>
        settling w \<and> cw_stakeCents w \<noteq> 0 \<and> verdict w \<noteq> None \<and> t_amountCents row = war_rake (decideWinner w))"

definition all_refunded :: "club_war \<Rightarrow> 'z money_store_scheme \<Rightarrow> bool" where
  "all_refunded w s \<longleftrightarrow> (\<forall>uid\<in>set (cw_rosterA w @ cw_rosterB w). paid (cw_refund_ref (cw_id w) uid) s \<noteq> None)"

definition all_paid :: "club_war \<Rightarrow> 'z money_store_scheme \<Rightarrow> bool" where
  "all_paid w s \<longleftrightarrow> (\<forall>uid\<in>set (war_winners (decideWinner w)). paid (war_share_ref (cw_id w) uid) s \<noteq> None) \<and>
     (0 < war_rake (decideWinner w) \<longrightarrow> paid (war_rake_ref (cw_id w)) s \<noteq> None)"

definition war_books :: "club_war \<Rightarrow> 'z money_store_scheme \<Rightarrow> bool" where
  "war_books w s \<longleftrightarrow> war_refunds w s \<and> war_prizes w s \<and>
     (cw_status w = CwFinished \<longrightarrow> cw_stakeCents w \<noteq> 0 \<longrightarrow> (if verdict w = None then all_refunded w s else all_paid w s)) \<and>
     (cw_status w = CwCancelled \<longrightarrow> cw_stakeCents w \<noteq> 0 \<longrightarrow> all_refunded w s)"

definition war_inv :: "'z war_store_scheme \<Rightarrow> bool" where
  "war_inv s \<longleftrightarrow> books_ok s \<and>
     (\<forall>i w. cw_get i s = Some w \<longrightarrow> cw_id w = i \<and> no_colon i \<and> war_shape w \<and> war_books w s)"

lemma war_inv_get:
  assumes "war_inv s" "cw_get i s = Some w"
  shows "cw_id w = i" "no_colon i" "war_shape w" "war_books w s" "books_ok s"
  using assms by (auto simp: war_inv_def)

lemma war_books_cong:
  assumes "\<And>ref. ref \<in> cw_refs (cw_id w) \<Longrightarrow> paid ref s' = paid ref s"
  shows "war_books w s' = war_books w s"
proof -
  have "paid (war_rake_ref (cw_id w)) s' = paid (war_rake_ref (cw_id w)) s"
    "\<And>uid. paid (cw_refund_ref (cw_id w) uid) s' = paid (cw_refund_ref (cw_id w) uid) s"
    "\<And>uid. paid (war_share_ref (cw_id w) uid) s' = paid (war_share_ref (cw_id w) uid) s"
    by (rule assms; simp add: cw_refs_def)+
  then show ?thesis by (simp add: war_books_def war_refunds_def war_prizes_def all_refunded_def all_paid_def)
qed

text \<open>A movement under the references of one war: books stay, other references too.\<close>

definition war_moved :: "string \<Rightarrow> 'z money_store_scheme \<Rightarrow> 'z money_store_scheme \<Rightarrow> bool" where
  "war_moved i s m \<longleftrightarrow> books_ok m \<and> only_books s m \<and> (\<forall>ref. ref \<notin> cw_refs i \<longrightarrow> paid ref m = paid ref s)"

lemma war_moved_refl [simp]: "books_ok s \<Longrightarrow> war_moved i s s"
  by (simp add: war_moved_def only_books_refl)

lemma war_moved_trans: "war_moved i s m \<Longrightarrow> war_moved i m m' \<Longrightarrow> war_moved i s m'"
  using only_books_trans by (auto simp: war_moved_def)

lemma cw_get_save [simp]: "cw_get j (cw_save w s) = (if j = cw_id w then Some w else cw_get j s)"
  by (simp add: cw_get_def cw_save_def update_conv')

lemma cw_frames [simp]:
  "m_ledger (cw_save w s) = m_ledger s" "m_users (cw_save w s) = m_users s" "books_ok (cw_save w s) = books_ok s"
  by (simp_all add: cw_save_def books_ok_def)

lemma war_books_save [simp]: "war_books w (cw_save w' s) = war_books w s"
  by (rule war_books_cong) simp

lemma only_books_cw_get: "only_books s s' \<Longrightarrow> cw_get i s' = cw_get i s"
  by (auto simp: only_books_def cw_get_def)

lemma war_inv_after:
  assumes "war_inv s" "war_moved i s m" "no_colon i"
  shows "(\<And>w. cw_get i s = Some w \<Longrightarrow> war_books w m) \<Longrightarrow> war_inv m"
    and "cw_id w = i \<Longrightarrow> war_shape w \<Longrightarrow> war_books w m \<Longrightarrow> war_inv (cw_save w m)"
proof -
  have b: "books_ok m" "\<And>ref. ref \<notin> cw_refs i \<Longrightarrow> paid ref m = paid ref s" "\<And>j. cw_get j m = cw_get j s"
    using assms(2) only_books_cw_get by (auto simp: war_moved_def)
  have other: "cw_id v = j \<and> no_colon j \<and> war_shape v \<and> war_books v m" if "cw_get j s = Some v" "j \<noteq> i" for j v
  proof -
    have "war_books v m = war_books v s"
      by (rule war_books_cong) (use war_inv_get[OF assms(1) that(1)] that(2) assms(3) b(2) cw_refs_disjoint in blast)
    with war_inv_get[OF assms(1) that(1)] show ?thesis by simp
  qed
  show "(\<And>w. cw_get i s = Some w \<Longrightarrow> war_books w m) \<Longrightarrow> war_inv m"
    unfolding war_inv_def b(3) using b(1) other war_inv_get[OF assms(1)] by metis
  show "cw_id w = i \<Longrightarrow> war_shape w \<Longrightarrow> war_books w m \<Longrightarrow> war_inv (cw_save w m)"
    using b(1,3) other assms(3) by (auto simp: war_inv_def)
qed

lemma war_inv_saved:
  assumes "war_inv s" "no_colon (cw_id w)" "war_shape w" "war_books w s"
  shows "war_inv (cw_save w s)"
  by (rule war_inv_after(2)[OF assms(1) _ assms(2) refl assms(3,4)]) (use assms(1) in \<open>simp add: war_inv_def\<close>)

subsection \<open>What the payments do\<close>

definition tx_wars :: "('s \<Rightarrow> 's \<Rightarrow> 's) \<Rightarrow> int \<Rightarrow> 's war_service" where
  "tx_wars uow bps = \<lparr>cs_rakeBps = bps, cs_wallet = Some (tx_wallet uow), cs_uow = Some uow\<rparr>"

lemma tx_wars_simps [simp]:
  "cs_rakeBps (tx_wars uow bps) = bps" "cs_wallet (tx_wars uow bps) = Some (tx_wallet uow)" "cs_uow (tx_wars uow bps) = Some uow"
  "need_wallet (tx_wars uow bps) act = act (tx_wallet uow)"
  by (simp_all add: tx_wars_def need_wallet_def fun_eq_iff)

lemma refundAll_effect:
  assumes "rolls_back uow" "books_ok s" "war_refunds w s" "refundAll (tx_wars uow bps) w now s = (r, m)"
  shows "war_moved (cw_id w) s m" "war_refunds w m" "q \<notin> range (cw_refund_ref (cw_id w)) \<Longrightarrow> paid q m = paid q s"
    "r = Inr () \<Longrightarrow> cw_stakeCents w \<noteq> 0 \<Longrightarrow> all_refunded w m"
proof -
  let ?ref = "cw_refund_ref (cw_id w)" and ?us = "cw_rosterA w @ cw_rosterB w"
  have "war_moved (cw_id w) s m \<and> war_refunds w m \<and> (q \<notin> range ?ref \<longrightarrow> paid q m = paid q s) \<and>
    (r = Inr () \<longrightarrow> cw_stakeCents w \<noteq> 0 \<longrightarrow> all_refunded w m)"
  proof (cases "cw_stakeCents w = 0")
    case True
    with assms have "m = s" by (simp add: refundAll_def return_act_def)
    with True assms(2,3) show ?thesis by simp
  next
    case False
    then have "for_each (\<lambda>uid. ignore_act (credit (tx_wallet uow) uid (cw_stakeCents w)
        ((plain_credit PayoutTx (?ref uid))\<lparr>co_providerRef := Some (?ref uid)\<rparr>) now)) ?us s = (r, m)"
      using assms(4) by (simp add: refundAll_def cw_credit_def)
    note l = credit_loop[OF assms(2,1) _ _ _ this, of ?ref]
    have inj: "inj ?ref" by (simp add: inj_def)
    note l = l[OF inj]
    have l1: "books_ok m" "only_books s m" "\<And>q. q \<notin> range ?ref \<Longrightarrow> paid q m = paid q s"
      "r = Inr () \<Longrightarrow> \<forall>uid\<in>set ?us. paid (?ref uid) m \<noteq> None"
      using l by auto
    have src: "paid (?ref u) s = Some row \<or> u \<in> set ?us \<and> t_userId row = u \<and> t_amountCents row = cw_stakeCents w"
      if "paid (?ref u) m = Some row" for u row
      using l that by auto
    have "war_refunds w m"
      unfolding war_refunds_def using src assms(3)[unfolded war_refunds_def] by blast
    moreover have "war_moved (cw_id w) s m" using l1(1-3) by (auto simp: war_moved_def cw_refs_def)
    ultimately show ?thesis using l1(3,4) by (simp add: all_refunded_def)
  qed
  then show "war_moved (cw_id w) s m" "war_refunds w m" "q \<notin> range (cw_refund_ref (cw_id w)) \<Longrightarrow> paid q m = paid q s"
    "r = Inr () \<Longrightarrow> cw_stakeCents w \<noteq> 0 \<Longrightarrow> all_refunded w m" by blast+
qed

lemma optional_rake:
  assumes "books_ok s" "rolls_back uow"
    and "(if 0 < amt then ignore_act (recordRake (tx_wallet uow) amt None None (Some ref) now) else return_act ()) s = (r, m)" "ref \<noteq> []"
  shows "books_ok m \<and> only_books s m \<and> (\<forall>q. q \<noteq> ref \<longrightarrow> paid q m = paid q s) \<and>
    (\<forall>row. paid ref m = Some row \<longrightarrow> paid ref s = Some row \<or> t_amountCents row = amt) \<and>
    (r = Inr () \<longrightarrow> 0 < amt \<longrightarrow> paid ref m \<noteq> None)"
proof (cases "0 < amt")
  case True
  show ?thesis
  proof (cases "recordRake (tx_wallet uow) amt None None (Some ref) now s")
    case (Pair x s')
    show ?thesis
    proof (cases x)
      case (Inl e)
      have "s' = s" using recordRake_fails_clean[OF assms(2)] Pair Inl by auto
      with Inl Pair True assms(3) have "r = Inl e" "m = s" by (auto simp: ignore_act_def bind_act_def)
      with assms(1) show ?thesis by simp
    next
      case (Inr y)
      with Pair True assms(3) have m: "m = s'" by (auto simp: ignore_act_def bind_act_def return_act_def)
      have p: "pays ref HOUSE_ACCOUNT_ID amt s m" by (rule rake_pays[OF assms(1) _ assms(4)]) (use Pair Inr m in auto)
      then show ?thesis by (auto simp: pays_def)
    qed
  qed
next
  case False
  with assms(1,3) show ?thesis by (simp add: return_act_def)
qed

lemma payoutSplit_effect:
  assumes "rolls_back uow" "books_ok s" "payoutSplit (tx_wallet uow) ws per rake (cw_payout_ref i) now s = (r, m)"
  shows "war_moved i s m \<and> (\<forall>q. q \<notin> insert (war_rake_ref i) (range (war_share_ref i)) \<longrightarrow> paid q m = paid q s) \<and>
    (\<forall>u row. paid (war_share_ref i u) m = Some row \<longrightarrow>
       paid (war_share_ref i u) s = Some row \<or> u \<in> set ws \<and> t_userId row = u \<and> t_amountCents row = per) \<and>
    (\<forall>row. paid (war_rake_ref i) m = Some row \<longrightarrow> paid (war_rake_ref i) s = Some row \<or> t_amountCents row = rake) \<and>
    (r = Inr () \<longrightarrow> (\<forall>u\<in>set ws. paid (war_share_ref i u) m \<noteq> None) \<and> (0 < rake \<longrightarrow> paid (war_rake_ref i) m \<noteq> None))"
proof -
  let ?ref = "war_share_ref i"
  let ?loop = "for_each (\<lambda>uid. ignore_act (credit (tx_wallet uow) uid per (share_credit (cw_payout_ref i) uid) now)) ws"
  obtain x n where n: "?loop s = (x, n)" by fastforce
  have inj: "inj ?ref" by (simp add: inj_def)
  have opts: "co_providerRef (share_credit (cw_payout_ref i) u) = Some (?ref u)" for u by (simp add: share_credit_def)
  note l = credit_loop[OF assms(2,1) inj cw_ref_inj(9) opts n]
  have l1: "books_ok n" "only_books s n" "\<And>q. q \<notin> range ?ref \<Longrightarrow> paid q n = paid q s"
    "x = Inr () \<Longrightarrow> \<forall>u\<in>set ws. paid (?ref u) n \<noteq> None"
    using l by auto
  have src: "paid (?ref u) s = Some row \<or> u \<in> set ws \<and> t_userId row = u \<and> t_amountCents row = per"
    if "paid (?ref u) n = Some row" for u row
    using l that by auto
  have rk: "paid (war_rake_ref i) n = paid (war_rake_ref i) s" by (rule l1(3)) auto
  show ?thesis
  proof (cases x)
    case (Inl e)
    then have "r = Inl e" "m = n" using assms(3) n by (auto simp: payoutSplit_def bind_act_def)
    with l1 src rk show ?thesis by (simp add: war_moved_def cw_refs_def)
  next
    case (Inr y)
    then have "(if 0 < rake then ignore_act (recordRake (tx_wallet uow) rake None None (Some (war_rake_ref i)) now) else return_act ()) n = (r, m)"
      using assms(3) n by (simp add: payoutSplit_def bind_act_def)
    note o = optional_rake[OF l1(1) assms(1) this cw_ref_inj(10)]
    have o1: "books_ok m" "only_books n m" "\<And>q. q \<noteq> war_rake_ref i \<Longrightarrow> paid q m = paid q n"
      "\<And>row. paid (war_rake_ref i) m = Some row \<Longrightarrow> paid (war_rake_ref i) n = Some row \<or> t_amountCents row = rake"
      "r = Inr () \<Longrightarrow> 0 < rake \<Longrightarrow> paid (war_rake_ref i) m \<noteq> None"
      using o by auto
    have sh: "paid (?ref u) m = paid (?ref u) n" for u by (rule o1(3)) simp
    have "only_books s m" by (rule only_books_trans[OF l1(2) o1(2)])
    then have "war_moved i s m" using o1(1,3) l1(3) by (simp add: war_moved_def cw_refs_def)
    with o1 l1 src rk sh Inr show ?thesis by simp
  qed
qed

subsection \<open>Paying and voiding keep the invariant\<close>

lemma decideWinner_simps [simp]:
  "cw_id (decideWinner w) = cw_id w" "cw_status (decideWinner w) = cw_status w" "cw_winnerClubId (decideWinner w) = verdict w"
  "cw_stakeCents (decideWinner w) = cw_stakeCents w" "cw_rosterA (decideWinner w) = cw_rosterA w"
  "cw_clubAId (decideWinner w) = cw_clubAId w" "cw_clubBId (decideWinner w) = cw_clubBId w" "cw_rakeBps (decideWinner w) = cw_rakeBps w"
  "cw_size (decideWinner w) = cw_size w" "cw_pairings (decideWinner w) = cw_pairings w" "cw_scoreA (decideWinner w) = cw_scoreA w"
  "cw_scoreB (decideWinner w) = cw_scoreB w"
  "cw_rosterB (decideWinner w) = cw_rosterB w" "cw_prizePoolCents (decideWinner w) = cw_prizePoolCents w"
  "decideWinner (decideWinner w) = decideWinner w" "verdict (decideWinner w) = verdict w"
  "all_decided (decideWinner w) = all_decided w" "settling (decideWinner w) = settling w"
  "decideWinner (w\<lparr>cw_status := st\<rparr>) = (decideWinner w)\<lparr>cw_status := st\<rparr>"
  by (simp_all add: decideWinner_def verdict_def all_decided_def settling_def)

lemma decided_frames [simp]:
  "war_refunds (decideWinner w) s = war_refunds w s" "war_prizes (decideWinner w) s = war_prizes w s"
  "all_refunded (decideWinner w) s = all_refunded w s" "all_paid (decideWinner w) s = all_paid w s"
  "war_books (decideWinner w) s = war_books w s" "drawn (decideWinner w) = drawn w"
  by (simp_all add: war_refunds_def war_prizes_def all_refunded_def all_paid_def war_books_def drawn_def won_by_def decideWinner_def
      verdict_def settling_def all_decided_def)

lemma status_frames [simp]:
  "verdict (w\<lparr>cw_status := st\<rparr>) = verdict w" "all_decided (w\<lparr>cw_status := st\<rparr>) = all_decided w"
  "drawn (w\<lparr>cw_status := st\<rparr>) = drawn w" "war_winners (w\<lparr>cw_status := st\<rparr>) = war_winners w"
  "war_share (w\<lparr>cw_status := st\<rparr>) = war_share w" "war_rake (w\<lparr>cw_status := st\<rparr>) = war_rake w"
  by (simp_all add: verdict_def all_decided_def drawn_def won_by_def war_winners_def war_share_def war_rake_def Let_def)

lemma verdict_truthy: "war_shape w \<Longrightarrow> truthy (verdict w) \<longleftrightarrow> verdict w \<noteq> None"
  by (auto simp: war_shape_def verdict_def truthy_def)

lemma war_prizes_cong:
  assumes "\<And>u. paid (war_share_ref (cw_id w) u) m = paid (war_share_ref (cw_id w) u) s"
    "paid (war_rake_ref (cw_id w)) m = paid (war_rake_ref (cw_id w)) s"
  shows "war_prizes w m = war_prizes w s"
  by (simp add: war_prizes_def assms)

lemma war_refunds_cong:
  "(\<And>u. paid (cw_refund_ref (cw_id w) u) m = paid (cw_refund_ref (cw_id w) u) s) \<Longrightarrow> war_refunds w m = war_refunds w s"
  by (simp add: war_refunds_def)

lemma settling_drawn: "war_shape w \<Longrightarrow> settling w \<Longrightarrow> drawn w"
  by (auto simp: war_shape_def settling_def)

lemma settling_pool: "war_shape w \<Longrightarrow> settling w \<Longrightarrow> cw_stakeCents w \<noteq> 0 \<Longrightarrow> cw_prizePoolCents w \<noteq> 0"
proof -
  assume w: "war_shape w" "settling w" and "cw_stakeCents w \<noteq> 0"
  moreover have "0 < length (cw_rosterA w @ cw_rosterB w)" using settling_drawn[OF w] by (simp add: drawn_def)
  moreover have "cw_prizePoolCents w = cw_stakeCents w * int (length (cw_rosterA w @ cw_rosterB w))" using w(1) by (simp add: war_shape_def)
  ultimately show "cw_prizePoolCents w \<noteq> 0" by (metis mult_eq_0_iff of_nat_0_less_iff less_irrefl)
qed

lemma refunds_leave_prizes:
  assumes "rolls_back uow" "books_ok s" "war_refunds w s" "refundAll (tx_wars uow bps) w now s = (r, m)" "no_colon (cw_id w)"
  shows "war_prizes w m = war_prizes w s"
proof -
  note e = refundAll_effect(3)[OF assms(1-4)]
  show ?thesis
    by (rule war_prizes_cong; rule e) (use cw_refund_share[OF assms(5,5)] in \<open>auto dest: sym\<close>)
qed

text \<open>Settling a decided war: what is paid agrees with the books, and all of it once it returns.\<close>

lemma payoutSettled_effect:
  assumes "rolls_back uow" "books_ok s" "war_shape w" "settling w" "war_refunds w s" "war_prizes w s" "no_colon (cw_id w)"
    and "payoutSettled (tx_wars uow bps) (decideWinner w) now s = (r, m)"
  shows "war_moved (cw_id w) s m \<and> war_refunds w m \<and> war_prizes w m \<and>
    (r = Inr () \<longrightarrow> cw_stakeCents w \<noteq> 0 \<longrightarrow> (if verdict w = None then all_refunded w m else all_paid w m))"
proof (cases "cw_stakeCents w = 0")
  case True
  with assms(8) have "m = s" by (simp add: payoutSettled_def return_act_def)
  with True assms(2,5,6) show ?thesis by simp
next
  case False
  then have pool: "cw_prizePoolCents w \<noteq> 0" by (rule settling_pool[OF assms(3,4)])
  show ?thesis
  proof (cases "verdict w")
    case None
    then have rf: "refundAll (tx_wars uow bps) (decideWinner w) now s = (r, m)"
      using assms(8) False pool by (simp add: payoutSettled_def truthy_def)
    have rs: "war_refunds (decideWinner w) s" using assms(5) by simp
    note e = refundAll_effect[OF assms(1,2) rs rf]
    have "war_prizes (decideWinner w) m = war_prizes (decideWinner w) s"
      by (rule refunds_leave_prizes[OF assms(1,2) rs rf]) (simp add: assms(7))
    with e(1,2,4) None assms(6) show ?thesis by simp
  next
    case (Some c)
    then have "truthy (verdict w)" using verdict_truthy[OF assms(3)] by simp
    then have sp: "payoutSplit (tx_wallet uow) (war_winners (decideWinner w)) (war_share (decideWinner w)) (war_rake (decideWinner w))
        (cw_payout_ref (cw_id w)) now s = (r, m)"
      using assms(8) False pool by (simp add: payoutSettled_def)
    note e = payoutSplit_effect[OF assms(1,2) sp]
    have "cw_refund_ref (cw_id w) u \<notin> insert (war_rake_ref (cw_id w)) (range (war_share_ref (cw_id w)))" for u
      using cw_refund_share[OF assms(7,7)] by auto
    with e have "\<And>u. paid (cw_refund_ref (cw_id w) u) m = paid (cw_refund_ref (cw_id w) u) s" by blast
    then have "war_refunds w m" using assms(5) war_refunds_cong by blast
    moreover have "war_prizes w m"
      using e assms(4,6) False Some unfolding war_prizes_def by blast
    moreover have "war_moved (cw_id w) s m" using e by blast
    ultimately show ?thesis using e Some by (simp add: all_paid_def)
  qed
qed

text \<open>The war is saved with the decision, paid, and saved again as finished; or only voided.\<close>

lemma decided_shape: "cw_status w = CwRunning \<Longrightarrow> war_shape (decideWinner w) = war_shape w"
  by (simp add: war_shape_def)

lemma finish_war_inv:
  assumes "rolls_back uow" "war_inv s" "cw_get i s = Some w'" "w' = w \<or> w' = decideWinner w"
    and "cw_status w = CwRunning" "all_decided w"
  shows "war_inv (snd (finish_war (tx_wars uow bps) (decideWinner w) now s))"
proof -
  note g' = war_inv_get[OF assms(2,3)]
  have same: "cw_id w' = cw_id w" "war_shape w' = war_shape w" "war_books w' s = war_books w s"
    using assms(4) decided_shape[OF assms(5)] by (elim disjE; simp)+
  then have shape: "war_shape w" and g: "cw_id w = i" "no_colon (cw_id w)" "war_refunds w s" "war_prizes w s"
    using g' by (simp_all add: war_books_def)
  have sh: "drawn w" using shape assms(5) by (simp add: war_shape_def)
  have st: "settling w" using assms(5,6) by (simp add: settling_def)
  obtain r m where rm: "payoutSettled (tx_wars uow bps) (decideWinner w) now s = (r, m)" by fastforce
  note e = payoutSettled_effect[OF assms(1) g'(5) shape st g(3,4,2) rm]
  let ?f = "(decideWinner w)\<lparr>cw_status := CwFinished\<rparr>"
  have mv: "war_moved i s m" using e g(1) by simp
  show ?thesis
  proof (cases r)
    case (Inl err)
    have "war_books w'' m" if "cw_get i s = Some w''" for w''
    proof -
      have "war_books w m" using e assms(5) by (simp add: war_books_def)
      then have "war_books w' m" using assms(4) by (elim disjE) simp_all
      with that assms(3) show ?thesis by simp
    qed
    then have "war_inv m" by (rule war_inv_after(1)[OF assms(2) mv g'(2)])
    with Inl show ?thesis by (simp add: finish_war_def bind_act_def rm)
  next
    case (Inr x)
    have st': "settling ?f = settling w" using st by (simp add: settling_def)
    have "war_shape ?f" using shape sh assms(6) by (simp add: war_shape_def)
    moreover have "war_books ?f m"
      using e Inr st st' unfolding war_books_def war_refunds_def war_prizes_def all_refunded_def all_paid_def by simp
    ultimately have "war_inv (cw_save ?f m)" by (intro war_inv_after(2)[OF assms(2) mv g'(2)]) (simp_all add: g(1))
    with Inr show ?thesis by (simp add: finish_war_def bind_act_def rm cw_save_act_def)
  qed
qed

lemma void_war_inv:
  assumes "rolls_back uow" "war_inv s" "cw_get i s = Some w" "\<not> settling w" "cw_status w \<noteq> CwFinished" "cw_status w \<noteq> CwCancelled"
  shows "war_inv (snd (void_war (tx_wars uow bps) w now s))"
proof -
  note g = war_inv_get[OF assms(2,3)]
  have b: "war_refunds w s" "war_prizes w s" using g(4) by (simp_all add: war_books_def)
  obtain r m where rm: "refundAll (tx_wars uow bps) w now s = (r, m)" by fastforce
  note e = refundAll_effect[OF assms(1) g(5) b(1) rm]
  have nc: "no_colon (cw_id w)" using g(1,2) by simp
  have p: "war_prizes w m" using refunds_leave_prizes[OF assms(1) g(5) b(1) rm nc] b(2) by simp
  have mv: "war_moved i s m" using e(1) g(1) by simp
  let ?v = "w\<lparr>cw_status := CwCancelled\<rparr>"
  show ?thesis
  proof (cases r)
    case (Inl err)
    have "war_books w'' m" if "cw_get i s = Some w''" for w''
      using that assms(3,5,6) e(2) p by (auto simp: war_books_def)
    then have "war_inv m" by (rule war_inv_after(1)[OF assms(2) mv g(2)])
    with Inl show ?thesis by (simp add: void_war_def bind_act_def rm)
  next
    case (Inr x)
    have "war_shape ?v" using g(3) by (simp add: war_shape_def)
    moreover have "war_books ?v m"
      using e(2) p e(4) Inr assms(4) unfolding war_books_def war_refunds_def war_prizes_def all_refunded_def settling_def by auto
    ultimately have "war_inv (cw_save ?v m)" by (intro war_inv_after(2)[OF assms(2) mv g(2)]) (simp_all add: g(1))
    with Inr show ?thesis by (simp add: void_war_def bind_act_def rm cw_save_act_def)
  qed
qed

subsection \<open>Every operation keeps the invariant\<close>

definition cw_fresh :: "string \<Rightarrow> 'z war_store_scheme \<Rightarrow> bool" where
  "cw_fresh i s \<longleftrightarrow> no_colon i \<and> cw_get i s = None \<and> (\<forall>ref\<in>cw_refs i. paid ref s = None)"

lemma create_war_inv:
  assumes "war_inv s" "cw_fresh i s" "0 \<le> bps" "bps \<le> 10000" "a \<noteq> []" "b \<noteq> []"
  shows "war_inv (snd (create_war (tx_wars uow bps) a b stake n i now s))"
proof -
  have none: "paid (war_rake_ref i) s = None" "\<And>u. paid (cw_refund_ref i u) s = None" "\<And>u. paid (war_share_ref i u) s = None"
    and nc: "no_colon i" using assms(2) by (auto simp: cw_fresh_def cw_refs_def)
  show ?thesis
    unfolding create_war_def cw_fail_def cw_save_act_def
    using assms(1,3-6) nc none
    by (auto intro!: war_inv_saved simp: war_shape_def war_books_def war_refunds_def war_prizes_def)
qed

lemma no_prizes: "cw_status w = CwRegistering \<Longrightarrow> war_prizes w s \<longleftrightarrow>
    paid (war_rake_ref (cw_id w)) s = None \<and> (\<forall>u. paid (war_share_ref (cw_id w) u) s = None)"
  by (auto simp: war_prizes_def settling_def)

lemma draw_pairings: "map (\<lambda>p. (wp_aUserId p, wp_bUserId p))
    (concat (map (\<lambda>a. map (\<lambda>b. \<lparr>wp_aUserId = a, wp_bUserId = b, wp_winnerId = None\<rparr>) bs) as)) = List.product as bs"
  by (induction as) (simp_all add: comp_def)

lemma begin_fields [simp]:
  "cw_id (begin_war w) = cw_id w" "cw_rosterA (begin_war w) = cw_rosterA w" "cw_rosterB (begin_war w) = cw_rosterB w"
  "cw_stakeCents (begin_war w) = cw_stakeCents w" "cw_status (begin_war w) = CwRunning" "cw_size (begin_war w) = cw_size w"
  "cw_clubAId (begin_war w) = cw_clubAId w" "cw_clubBId (begin_war w) = cw_clubBId w" "cw_rakeBps (begin_war w) = cw_rakeBps w"
  "cw_prizePoolCents (begin_war w) = cw_prizePoolCents w" "cw_scoreA (begin_war w) = cw_scoreA w" "cw_scoreB (begin_war w) = cw_scoreB w"
  by (simp_all add: begin_war_def)

lemma begin_undecided: "p \<in> set (cw_pairings (begin_war w)) \<Longrightarrow> wp_winnerId p = None"
  by (auto simp: begin_war_def)

lemma begin_drawn:
  assumes "cw_rosterA w \<noteq> []" "cw_rosterB w \<noteq> []" "cw_scoreA w = 0" "cw_scoreB w = 0"
  shows "drawn (begin_war w)" "\<not> all_decided (begin_war w)"
proof -
  have m: "map (\<lambda>p. (wp_aUserId p, wp_bUserId p)) (cw_pairings (begin_war w)) = List.product (cw_rosterA w) (cw_rosterB w)"
    by (simp add: begin_war_def draw_pairings)
  have "won_by side (begin_war w) = 0" for side
    unfolding won_by_def using begin_undecided[of _ w] by (auto simp: filter_empty_conv)
  with assms m begin_undecided[of _ w] show "drawn (begin_war w)" by (simp add: drawn_def)
  have "length (cw_pairings (begin_war w)) = length (cw_rosterA w) * length (cw_rosterB w)"
    using arg_cong[OF m, of length] by simp
  then have "cw_pairings (begin_war w) \<noteq> []" using assms(1,2) by (metis length_0_conv mult_eq_0_iff)
  then obtain p where "p \<in> set (cw_pairings (begin_war w))" by (cases "cw_pairings (begin_war w)") auto
  then show "\<not> all_decided (begin_war w)" using begin_undecided[of p w] by (auto simp: all_decided_def list_all_iff truthy_def intro!: bexI[of _ p])
qed

lemma begin_keeps:
  assumes "war_shape w" "cw_status w = CwRegistering" "cw_rosterA w \<noteq> []" "cw_rosterB w \<noteq> []" "war_refunds w s" "war_prizes w s"
  shows "war_shape (begin_war w)" "war_books (begin_war w) s"
proof -
  have z: "cw_scoreA w = 0" "cw_scoreB w = 0" using assms(1,2) by (simp_all add: war_shape_def)
  note d = begin_drawn[OF assms(3,4) z]
  show "war_shape (begin_war w)" using assms(1) d(1) by (simp add: war_shape_def)
  show "war_books (begin_war w) s"
    using assms(5) assms(6)[unfolded no_prizes[OF assms(2)]] by (simp add: war_books_def war_refunds_def war_prizes_def)
qed

text \<open>The seat of a new player, before the war may begin.\<close>

definition seated_only :: "user_id \<Rightarrow> bool \<Rightarrow> club_war \<Rightarrow> club_war" where
  "seated_only uid sideA w =
     (let w1 = (if sideA then w\<lparr>cw_rosterA := cw_rosterA w @ [uid]\<rparr> else w\<lparr>cw_rosterB := cw_rosterB w @ [uid]\<rparr>)
      in w1\<lparr>cw_prizePoolCents := cw_prizePoolCents w1 + cw_stakeCents w1\<rparr>)"

lemma seat_war_eq:
  "seat_war uid sideA w =
     (let w2 = seated_only uid sideA w
      in if length (cw_rosterA w2) \<ge> cw_size w2 \<and> length (cw_rosterB w2) \<ge> cw_size w2 then begin_war w2 else w2)"
  by (simp add: seat_war_def seated_only_def Let_def)

lemma seated_only_keeps:
  assumes "war_shape w" "cw_status w = CwRegistering" "uid \<notin> set (cw_rosterA w)" "uid \<notin> set (cw_rosterB w)" "uid \<noteq> []"
    "war_refunds w s" "war_prizes w s"
  shows "war_shape (seated_only uid sideA w)" "cw_status (seated_only uid sideA w) = CwRegistering"
    "war_refunds (seated_only uid sideA w) s" "war_prizes (seated_only uid sideA w) s" "cw_id (seated_only uid sideA w) = cw_id w"
proof -
  show "war_shape (seated_only uid sideA w)" using assms(1-5) by (auto simp: war_shape_def seated_only_def algebra_simps)
  show st: "cw_status (seated_only uid sideA w) = CwRegistering" and i: "cw_id (seated_only uid sideA w) = cw_id w"
    using assms(2) by (simp_all add: seated_only_def)
  show "war_refunds (seated_only uid sideA w) s" using assms(6) by (auto simp: war_refunds_def seated_only_def)
  show "war_prizes (seated_only uid sideA w) s" using assms(7) no_prizes[OF st, of s] no_prizes[OF assms(2), of s] i by simp
qed

lemma seat_keeps:
  assumes "war_shape w" "cw_status w = CwRegistering" "uid \<notin> set (cw_rosterA w)" "uid \<notin> set (cw_rosterB w)" "uid \<noteq> []"
    "war_refunds w s" "war_prizes w s"
  shows "war_shape (seat_war uid sideA w)" "war_books (seat_war uid sideA w) s" "cw_id (seat_war uid sideA w) = cw_id w"
proof -
  let ?w = "seated_only uid sideA w"
  note k = seated_only_keeps[OF assms, of sideA]
  have "0 < cw_size ?w" using k(1) by (simp add: war_shape_def)
  then have ne: "cw_rosterA ?w \<noteq> []" "cw_rosterB ?w \<noteq> []"
    if "length (cw_rosterA ?w) \<ge> cw_size ?w \<and> length (cw_rosterB ?w) \<ge> cw_size ?w" using that by auto
  show "war_shape (seat_war uid sideA w)" "cw_id (seat_war uid sideA w) = cw_id w"
    using k begin_keeps(1)[OF k(1,2) ne k(3,4)] by (simp_all add: seat_war_eq Let_def)
  have "war_books ?w s" using k(2-4) by (simp add: war_books_def)
  then show "war_books (seat_war uid sideA w) s" using begin_keeps(2)[OF k(1,2) ne k(3,4)] by (simp add: seat_war_eq Let_def)
qed

lemma cw_debit_frame:
  assumes "books_ok s" "cw_debit w uid amt ref now s = (Inr x, m)"
  shows "war_moved i s m" "paid q m = paid q s"
  using debit_frame[OF assms(1) assms(2)[unfolded cw_debit_def]] by (auto simp: war_moved_def)

lemma register_war_cases:
  assumes "rolls_back uow"
  obtains (refused) e where "register_war (tx_wars uow bps) i uid sideA now s = (Inl e, s)"
  | (entered) w m where "cw_get i s = Some w" "cw_status w = CwRegistering" "uid \<notin> set (cw_rosterA w)" "uid \<notin> set (cw_rosterB w)"
      "length (if sideA then cw_rosterA w else cw_rosterB w) < cw_size w"
      "register_war (tx_wars uow bps) i uid sideA now s = (Inr (seat_war uid sideA w), cw_save (seat_war uid sideA w) m)"
      "if 0 < cw_stakeCents w then (\<exists>x. cw_debit bind_wallet uid (cw_stakeCents w) (cw_buyin_ref (cw_id w) uid) now s = (Inr x, m)) else m = s"
proof -
  let ?sv = "tx_wars uow bps"
  show thesis
  proof (cases "cw_get i s")
    case None
    then show thesis by (intro refused) (simp add: register_war_def cw_fail_def)
  next
    case (Some w)
    show thesis
    proof (cases "cw_status w \<noteq> CwRegistering \<or> uid \<in> set (cw_rosterA w) \<or> uid \<in> set (cw_rosterB w) \<or>
        length (if sideA then cw_rosterA w else cw_rosterB w) \<ge> cw_size w")
      case True
      then have "\<exists>e. register_war ?sv i uid sideA now s = (Inl e, s)" by (auto simp: Some register_war_def cw_fail_def)
      then show thesis using refused by blast
    next
      case ok: False
      show thesis
      proof (cases "0 < cw_stakeCents w")
        case True
        let ?body = "bind_act (cw_debit bind_wallet uid (cw_stakeCents w) (cw_buyin_ref (cw_id w) uid) now) (\<lambda>_. cw_save_act (seat_war uid sideA w))"
        have reg: "register_war ?sv i uid sideA now s = transaction_in uow ?body s"
          using ok True by (simp add: register_war_def Some)
        show thesis
        proof (cases "transaction_in uow ?body s")
          case (Pair r s')
          show thesis
          proof (cases r)
            case (Inl e)
            have "s' = s" by (rule transaction_Inl[OF assms Pair[unfolded Inl]])
            with Inl Pair reg show thesis by (intro refused) simp
          next
            case (Inr w')
            with Pair have "?body s = (Inr w', s')" by simp
            then obtain x m where m: "cw_debit bind_wallet uid (cw_stakeCents w) (cw_buyin_ref (cw_id w) uid) now s = (Inr x, m)"
              "w' = seat_war uid sideA w" "s' = cw_save (seat_war uid sideA w) m" by (auto simp: bind_act_Inr cw_save_act_def)
            show thesis by (rule entered[OF Some]) (use ok True m reg Pair Inr in auto)
          qed
        qed
      next
        case False
        then show thesis using ok by (intro entered[OF Some]) (auto simp: register_war_def Some cw_save_act_def)
      qed
    qed
  qed
qed

lemma register_war_inv:
  assumes "rolls_back uow" "war_inv s" "uid \<noteq> []"
  shows "war_inv (snd (register_war (tx_wars uow bps) i uid sideA now s))"
proof (rule register_war_cases[OF assms(1), of bps i uid sideA now s])
  fix e
  assume "register_war (tx_wars uow bps) i uid sideA now s = (Inl e, s)"
  with assms(2) show ?thesis by simp
next
  fix w m
  assume w: "cw_get i s = Some w" "cw_status w = CwRegistering" "uid \<notin> set (cw_rosterA w)" "uid \<notin> set (cw_rosterB w)"
    and r: "register_war (tx_wars uow bps) i uid sideA now s = (Inr (seat_war uid sideA w), cw_save (seat_war uid sideA w) m)"
    and m: "if 0 < cw_stakeCents w then (\<exists>x. cw_debit bind_wallet uid (cw_stakeCents w) (cw_buyin_ref (cw_id w) uid) now s = (Inr x, m)) else m = s"
  note g = war_inv_get[OF assms(2) w(1)]
  have f: "war_moved i s m" "\<And>q. paid q m = paid q s"
    using m cw_debit_frame[OF g(5)] g(5) by (auto split: if_splits)
  have b: "war_refunds w m" "war_prizes w m" using g(4) by (simp_all add: war_books_def war_refunds_def war_prizes_def f(2))
  note k = seat_keeps[OF g(3) w(2-4) assms(3) b, of sideA]
  have "war_inv (cw_save (seat_war uid sideA w) m)"
    by (rule war_inv_after(2)[OF assms(2) f(1) g(2) _ k(1,2)]) (simp add: k(3) g(1))
  with r show ?thesis by simp
qed

lemma start_war_inv:
  assumes "war_inv s"
  shows "war_inv (snd (start_war i s))"
proof (cases "cw_get i s")
  case None
  with assms show ?thesis by (simp add: start_war_def cw_fail_def)
next
  case (Some w)
  note g = war_inv_get[OF assms Some]
  have b: "war_refunds w s" "war_prizes w s" using g(4) by (simp_all add: war_books_def)
  have "war_inv (cw_save (begin_war w) s)"
    if "cw_status w = CwRegistering" "cw_rosterA w \<noteq> []" "cw_rosterB w \<noteq> []"
    by (rule war_inv_saved[OF assms _ begin_keeps[OF g(3) that b]]) (use g(1,2) in simp)
  with assms show ?thesis by (simp add: start_war_def Some cw_fail_def cw_save_act_def)
qed

text \<open>Recording the winner of an undecided pairing keeps the score.\<close>

lemma update_first_map:
  "(\<And>x. P x \<Longrightarrow> g (f x) = g x) \<Longrightarrow> map g (update_first P f xs) = map g xs"
  by (induction xs) simp_all

lemma update_first_found:
  "List.find P xs = Some x \<Longrightarrow> \<exists>ys zs. xs = ys @ x # zs \<and> update_first P f xs = ys @ f x # zs \<and> P x"
proof (induction xs)
  case (Cons y ys)
  show ?case
  proof (cases "P y")
    case True
    show ?thesis by (rule exI[of _ "[]"], rule exI[of _ ys]) (use Cons.prems True in simp)
  next
    case False
    with Cons obtain us zs where u: "ys = us @ x # zs" "update_first P f ys = us @ f x # zs" "P x" by auto
    have "update_first P f (y # ys) = (y # us) @ f x # zs" using u(2) False by simp
    with u(1,3) show ?thesis by (metis append_Cons)
  qed
qed simp

lemma record_win_keeps:
  assumes "war_shape w" "cw_status w = CwRunning" "List.find (is_pairing a b) (cw_pairings w) = Some p" "\<not> truthy (wp_winnerId p)"
    and "winner = a \<or> winner = b"
  shows "war_shape (record_win a b winner w)" "\<not> all_decided w"
proof -
  obtain ys zs where e: "cw_pairings w = ys @ p # zs"
    "update_first (is_pairing a b) (\<lambda>p. p\<lparr>wp_winnerId := Some winner\<rparr>) (cw_pairings w) = ys @ p\<lparr>wp_winnerId := Some winner\<rparr> # zs"
    and p: "wp_aUserId p = a" "wp_bUserId p = b"
    using update_first_found[OF assms(3), of "\<lambda>p. p\<lparr>wp_winnerId := Some winner\<rparr>"] unfolding is_pairing_def by blast
  have d: "drawn w" using assms(1,2) by (simp add: war_shape_def)
  have m: "map (\<lambda>p. (wp_aUserId p, wp_bUserId p)) (cw_pairings w) = List.product (cw_rosterA w) (cw_rosterB w)"
    using d by (simp add: drawn_def)
  have "(a, b) \<in> set (map (\<lambda>p. (wp_aUserId p, wp_bUserId p)) (cw_pairings w))" using e(1) p by auto
  then have ab: "a \<in> set (cw_rosterA w)" "b \<in> set (cw_rosterB w)" unfolding m by auto
  then have ne: "a \<noteq> b" "a \<noteq> []" "b \<noteq> []" using assms(1) by (auto simp: war_shape_def)
  have np: "wp_winnerId p = None"
    using d e(1) p ne assms(4) by (auto simp: drawn_def truthy_def)
  show "\<not> all_decided w" using e(1) assms(4) by (simp add: all_decided_def)
  let ?r = "record_win a b winner w"
  have r: "cw_pairings ?r = ys @ p\<lparr>wp_winnerId := Some winner\<rparr> # zs" "cw_rosterA ?r = cw_rosterA w" "cw_rosterB ?r = cw_rosterB w"
    "cw_scoreA ?r = cw_scoreA w + (if winner = a then 1 else 0)" "cw_scoreB ?r = cw_scoreB w + (if winner = a then 0 else 1)"
    by (simp_all add: record_win_def Let_def e(2))
  have "drawn ?r"
    using d p ne(1) np assms(5) by (auto simp: drawn_def won_by_def r e(1))
  then show "war_shape (record_win a b winner w)" using assms(1,2) by (simp add: war_shape_def record_win_def Let_def)
qed

lemma undecided_no_prizes:
  assumes "war_prizes w s" "\<not> settling w"
  shows "paid (war_rake_ref (cw_id w)) s = None" "paid (war_share_ref (cw_id w) u) s = None"
  using assms by (auto simp: war_prizes_def)

lemma report_war_inv:
  assumes "rolls_back uow" "war_inv s"
  shows "war_inv (snd (report_war (tx_wars uow bps) i a b winner now s))"
proof (cases "cw_get i s")
  case None
  with assms(2) show ?thesis by (simp add: report_war_def cw_fail_def)
next
  case (Some w)
  note g = war_inv_get[OF assms(2) Some]
  show ?thesis
  proof (cases "cw_status w = CwRunning")
    case False
    with assms(2) show ?thesis by (simp add: report_war_def Some cw_fail_def)
  next
    case run: True
    show ?thesis
    proof (cases "List.find (is_pairing a b) (cw_pairings w)")
      case None
      with assms(2) run show ?thesis by (simp add: report_war_def Some cw_fail_def)
    next
      case (Some p)
      show ?thesis
      proof (cases "truthy (wp_winnerId p) \<or> winner \<noteq> a \<and> winner \<noteq> b")
        case True
        with assms(2) run Some show ?thesis by (auto simp: report_war_def \<open>cw_get i s = Some w\<close> cw_fail_def)
      next
        case False
        then have n: "\<not> truthy (wp_winnerId p)" "winner = a \<or> winner = b" by blast+
        let ?w = "record_win a b winner w"
        note k = record_win_keeps[OF g(3) run Some n]
        have st: "cw_status ?w = CwRunning" "cw_id ?w = cw_id w" "cw_rosterA ?w = cw_rosterA w" "cw_rosterB ?w = cw_rosterB w"
          "cw_stakeCents ?w = cw_stakeCents w"
          using run by (simp_all add: record_win_def Let_def)
        have b: "war_refunds w s" "war_prizes w s" using g(4) by (simp_all add: war_books_def)
        have ns: "\<not> settling w" using k(2) by (simp add: settling_def)
        have bk: "war_books ?w s"
          using b(1) undecided_no_prizes[OF b(2) ns] st by (simp add: war_books_def war_refunds_def war_prizes_def)
        have saved: "war_inv (cw_save ?w s)" "war_inv (cw_save (decideWinner ?w) s)"
          using k(1) bk g(1,2) st decided_shape[OF st(1)] by (auto intro!: war_inv_saved[OF assms(2)])
        have fin: "war_inv (snd (finish_war (tx_wars uow bps) (decideWinner ?w) now (cw_save (decideWinner ?w) s)))" if "all_decided ?w"
          by (rule finish_war_inv[OF assms(1) saved(2) _ _ st(1) that, of i]) (use g(1) st in auto)
        have "report_war (tx_wars uow bps) i a b winner now s =
            (if all_decided ?w then finish_war (tx_wars uow bps) (decideWinner ?w) now (cw_save (decideWinner ?w) s) else cw_save_act ?w s)"
          using run Some n by (auto simp: report_war_def \<open>cw_get i s = Some w\<close> Let_def)
        then show ?thesis using saved(1) fin by (simp add: cw_save_act_def)
      qed
    qed
  qed
qed

lemma cancel_war_inv:
  assumes "rolls_back uow" "war_inv s"
  shows "war_inv (snd (cancel_war (tx_wars uow bps) i now s))"
proof (cases "cw_get i s")
  case None
  with assms(2) show ?thesis by (simp add: cancel_war_def cw_fail_def)
next
  case (Some w)
  have "war_inv (snd (void_war (tx_wars uow bps) w now s))" if "cw_status w = CwRegistering"
    by (rule void_war_inv[OF assms Some]) (use that in \<open>simp_all add: settling_def\<close>)
  with assms(2) show ?thesis by (simp add: cancel_war_def Some cw_fail_def)
qed

lemma sweep_war_inv:
  assumes "rolls_back uow" "war_inv s"
  shows "war_inv (snd (sweep_war (tx_wars uow bps) cutoff now snap s))"
proof (cases "cw_get (cw_id snap) s")
  case None
  with assms(2) show ?thesis by (simp add: sweep_war_def)
next
  case (Some w)
  note g = war_inv_get[OF assms(2) Some]
  have ne: "cw_pairings w \<noteq> []" if "cw_status w = CwRunning"
  proof -
    have d: "drawn w" using g(3) that by (simp add: war_shape_def)
    then have "length (cw_pairings w) = length (cw_rosterA w) * length (cw_rosterB w)"
      unfolding drawn_def by (metis length_map length_product)
    with d show ?thesis by (auto simp: drawn_def)
  qed
  let ?act = "if cw_status w = CwRunning \<and> cw_pairings w \<noteq> [] \<and> all_decided w
      then finish_war (tx_wars uow bps) (decideWinner w) now else void_war (tx_wars uow bps) w now"
  have act: "war_inv (snd (?act s))" if "cw_status w = CwRegistering \<or> cw_status w = CwRunning"
  proof (cases "cw_status w = CwRunning \<and> cw_pairings w \<noteq> [] \<and> all_decided w")
    case True
    then show ?thesis using finish_war_inv[OF assms Some disjI1[OF refl]] by simp
  next
    case False
    have "\<not> settling w" using False ne that by (auto simp: settling_def)
    then have "war_inv (snd (void_war (tx_wars uow bps) w now s))"
      using void_war_inv[OF assms Some] that by auto
    then show ?thesis by (simp only: if_not_P[OF False])
  qed
  obtain r m where rm: "?act s = (r, m)" by fastforce
  show ?thesis using act assms(2) rm
    by (cases r) (auto simp: sweep_war_def Some bind_act_def return_act_def)
qed

lemma sweep_wars_inv:
  assumes "rolls_back uow"
  shows "war_inv s \<Longrightarrow> war_inv (snd (sweep_wars (tx_wars uow bps) cutoff now snaps s))"
proof (induction snaps arbitrary: s)
  case (Cons snap snaps)
  obtain r m where rm: "sweep_war (tx_wars uow bps) cutoff now snap s = (r, m)" by fastforce
  have m: "war_inv m" using sweep_war_inv[OF assms Cons.prems, of bps cutoff now snap] rm by simp
  obtain r' m' where rm': "sweep_wars (tx_wars uow bps) cutoff now snaps m = (r', m')" by fastforce
  have "war_inv m'" using Cons.IH[OF m] rm' by simp
  with m show ?case by (cases r; cases r') (simp_all add: bind_act_def rm rm' return_act_def)
qed simp

subsection \<open>Histories\<close>

datatype cw_op =
  CwWallet wallet_op
| CwCreate string string cents int string
| CwRegister string user_id bool
| CwStart string
| CwReport string user_id user_id user_id
| CwCancel string
| CwSweep int

fun cw_step ::
  "('z war_store_scheme \<Rightarrow> 'z war_store_scheme \<Rightarrow> 'z war_store_scheme) \<Rightarrow> int \<Rightarrow> 'z war_store_scheme \<Rightarrow> cw_op \<times> int \<Rightarrow> 'z war_store_scheme" where
  "cw_step uow bps s (CwWallet op, now) = wallet_step uow s (op, now)"
| "cw_step uow bps s (CwCreate a b stake n i, now) = snd (create_war (tx_wars uow bps) a b stake n i now s)"
| "cw_step uow bps s (CwRegister i uid sideA, now) = snd (register_war (tx_wars uow bps) i uid sideA now s)"
| "cw_step uow bps s (CwStart i, now) = snd (start_war i s)"
| "cw_step uow bps s (CwReport i a b w, now) = snd (report_war (tx_wars uow bps) i a b w now s)"
| "cw_step uow bps s (CwCancel i, now) = snd (cancel_war (tx_wars uow bps) i now s)"
| "cw_step uow bps s (CwSweep age, now) = snd (sweepStaleWars (tx_wars uow bps) age now s)"

text \<open>
  A new war gets an identifier that was never used, clubs and players have identifiers, and other
  wallet movements stay away from the references of wars.
\<close>

fun cw_proper :: "cw_op \<Rightarrow> 'z war_store_scheme \<Rightarrow> bool" where
  "cw_proper (CwWallet op) s = (\<forall>q. op_ref op = Some q \<longrightarrow> (\<forall>i. q \<notin> cw_refs i))"
| "cw_proper (CwCreate a b stake n i) s = (cw_fresh i s \<and> a \<noteq> [] \<and> b \<noteq> [])"
| "cw_proper (CwRegister i uid sideA) s = (uid \<noteq> [])"
| "cw_proper _ s = True"

fun cw_history ::
  "('z war_store_scheme \<Rightarrow> 'z war_store_scheme \<Rightarrow> 'z war_store_scheme) \<Rightarrow> int \<Rightarrow> 'z war_store_scheme \<Rightarrow> (cw_op \<times> int) list \<Rightarrow> bool" where
  "cw_history uow bps s [] = True"
| "cw_history uow bps s (p # ps) = (cw_proper (fst p) s \<and> cw_history uow bps (cw_step uow bps s p) ps)"

lemma more_cw_get:
  fixes s s' :: "'z war_store_scheme"
  shows "money_store.more s' = money_store.more s \<Longrightarrow> cw_get i s' = cw_get i s"
  by (cases s; cases s') (simp add: cw_get_def)

lemma cw_wallet_inv:
  assumes "rolls_back uow" "war_inv s" "cw_proper (CwWallet op) s"
  shows "war_inv (wallet_step uow s (op, now))"
proof -
  have b: "books_ok s" using assms(2) by (simp add: war_inv_def)
  note a = wallet_step_appends[OF assms(1) b, of op now]
  have p: "paid q (wallet_step uow s (op, now)) = paid q s" if "q \<in> cw_refs i" for q i
    by (rule appends_paid[OF b a]) (use assms(3) that in \<open>auto simp: row_from_def\<close>)
  have g: "cw_get i (wallet_step uow s (op, now)) = cw_get i s" for i
    by (rule more_cw_get[OF wallet_step_more[OF assms(1) b]])
  have "war_books w (wallet_step uow s (op, now)) = war_books w s" for w by (rule war_books_cong) (rule p)
  moreover have "books_ok (wallet_step uow s (op, now))" using a by (simp add: appends_def)
  ultimately show ?thesis using assms(2) g by (simp add: war_inv_def)
qed

lemma cw_step_inv:
  assumes "rolls_back uow" "0 \<le> bps" "bps \<le> 10000" "war_inv s" "cw_proper op s"
  shows "war_inv (cw_step uow bps s (op, now))"
  by (cases op)
     (use assms cw_wallet_inv[OF assms(1,4)] create_war_inv[OF assms(4) _ assms(2,3)] register_war_inv[OF assms(1,4)]
        start_war_inv[OF assms(4)] report_war_inv[OF assms(1,4)] cancel_war_inv[OF assms(1,4)] sweep_wars_inv[OF assms(1,4)]
      in \<open>simp_all add: sweepStaleWars_def\<close>)

definition cw_guarded where
  "cw_guarded uow bps s p = (if cw_proper (fst p) s then cw_step uow bps s p else s)"

interpretation wars: invariant_system "cw_guarded uow bps"
  "\<lambda>s. rolls_back uow \<and> 0 \<le> bps \<and> bps \<le> 10000 \<and> war_inv s" for uow bps
  by unfold_locales (auto simp: cw_guarded_def intro: cw_step_inv)

lemma cw_run: "cw_history uow bps s ops \<Longrightarrow> foldl (cw_step uow bps) s ops = foldl (cw_guarded uow bps) s ops"
  by (induction ops arbitrary: s) (simp_all add: cw_guarded_def)

lemma cw_history_inv:
  assumes "rolls_back uow" "0 \<le> bps" "bps \<le> 10000" "war_inv s" "cw_history uow bps s ops"
  shows "war_inv (foldl (cw_step uow bps) s ops)"
  using wars.run_inv[of uow bps s ops] assms by (simp add: cw_run)

subsection \<open>Properties\<close>

lemma war_pool_shared:
  assumes "war_shape w" "war_winners w \<noteq> []"
  shows "war_share w * int (length (war_winners w)) + war_rake w = cw_prizePoolCents w" "0 \<le> war_rake w"
proof -
  let ?rake = "(cw_prizePoolCents w * cw_rakeBps w) div 10000" and ?n = "int (length (war_winners w))"
  have pool: "0 \<le> cw_prizePoolCents w" "0 \<le> cw_rakeBps w" "cw_rakeBps w \<le> 10000" using assms(1) by (auto simp: war_shape_def)
  show "war_share w * ?n + war_rake w = cw_prizePoolCents w" by (simp add: war_rake_def Let_def)
  have n: "0 < ?n" using assms(2) by simp
  have "war_share w * ?n \<le> cw_prizePoolCents w - ?rake"
    unfolding war_share_def using pos_mod_bound[OF n] n by (metis div_mult_mod_eq le_add_same_cancel1 pos_mod_sign)
  then show "0 \<le> war_rake w" using rake_bounds(1)[OF pool] by (simp add: war_rake_def Let_def)
qed

lemma sum_same: "\<forall>u\<in>set us. f u = (c::int) \<Longrightarrow> (\<Sum>u\<leftarrow>us. f u) = c * int (length us)"
  by (induction us) (simp_all add: algebra_simps)

lemma paid_amounts:
  assumes "war_books w s"
  shows "paid (cw_refund_ref (cw_id w) u) s \<noteq> None \<Longrightarrow> amount_paid (cw_refund_ref (cw_id w) u) s = cw_stakeCents w"
    "paid (war_share_ref (cw_id w) u) s \<noteq> None \<Longrightarrow> amount_paid (war_share_ref (cw_id w) u) s = war_share (decideWinner w)"
    "paid (war_rake_ref (cw_id w)) s \<noteq> None \<Longrightarrow> amount_paid (war_rake_ref (cw_id w)) s = war_rake (decideWinner w)"
  using assms by (auto simp: amount_paid_def war_books_def war_refunds_def war_prizes_def)

lemma finished_war_paid:
  assumes "war_shape w" "war_books w s" "cw_status w = CwFinished" "verdict w \<noteq> None"
  shows "u \<in> set (war_winners w) \<Longrightarrow> amount_paid (war_share_ref (cw_id w) u) s = war_share w"
    "amount_paid (war_rake_ref (cw_id w)) s = war_rake w" "war_winners w \<noteq> []"
proof -
  have w: "cw_winnerClubId w = verdict w" "drawn w" using assms(1,3) by (simp_all add: war_shape_def)
  then have d [simp]: "decideWinner w = w" by (simp add: decideWinner_def)
  show ne: "war_winners w \<noteq> []" using w(2) by (simp add: war_winners_def drawn_def)
  have sh: "amount_paid (war_share_ref (cw_id w) u) s = war_share w \<and> amount_paid (war_rake_ref (cw_id w)) s = war_rake w"
    if u: "u \<in> set (war_winners w)" for u
  proof (cases "cw_stakeCents w = 0")
    case True
    then have "cw_prizePoolCents w = 0" using assms(1) by (simp add: war_shape_def)
    then have "war_share w = 0" "war_rake w = 0" by (simp_all add: war_share_def war_rake_def)
    with True assms(2) show ?thesis
      by (cases "paid (war_share_ref (cw_id w) u) s"; cases "paid (war_rake_ref (cw_id w)) s")
         (auto simp: war_books_def war_prizes_def amount_paid_def)
  next
    case False
    then have a: "all_paid w s" using assms(2-4) by (simp add: war_books_def)
    then have "amount_paid (war_share_ref (cw_id w) u) s = war_share w"
      using paid_amounts(2)[OF assms(2)] u by (simp add: all_paid_def)
    moreover have "amount_paid (war_rake_ref (cw_id w)) s = war_rake w"
    proof (cases "paid (war_rake_ref (cw_id w)) s = None")
      case True
      with a war_pool_shared(2)[OF assms(1) ne] show ?thesis by (auto simp: all_paid_def amount_paid_def)
    next
      case False
      then show ?thesis using paid_amounts(3)[OF assms(2)] by simp
    qed
    ultimately show ?thesis by simp
  qed
  then show "u \<in> set (war_winners w) \<Longrightarrow> amount_paid (war_share_ref (cw_id w) u) s = war_share w" by blast
  obtain v where "v \<in> set (war_winners w)" using ne by (meson hd_in_set)
  then show "amount_paid (war_rake_ref (cw_id w)) s = war_rake w" using sh by blast
qed


text \<open>C35: the winning club is the one that won more pairings. In every history a finished war has
  played every player of the one roster against every player of the other, each pairing was won by
  one of its two players, the score of a club is the number of pairings its players won, and the club
  with the higher score is the winner, with none if they are equal.\<close>

theorem club_war_counts_wins:
  assumes "rolls_back uow" "0 \<le> bps" "bps \<le> 10000" "war_inv s" "cw_history uow bps s ops"
    and "cw_get i (foldl (cw_step uow bps) s ops) = Some w" "cw_status w = CwFinished"
  shows "map (\<lambda>p. (wp_aUserId p, wp_bUserId p)) (cw_pairings w) = List.product (cw_rosterA w) (cw_rosterB w) \<and>
    (\<forall>p\<in>set (cw_pairings w). wp_winnerId p = Some (wp_aUserId p) \<or> wp_winnerId p = Some (wp_bUserId p)) \<and>
    cw_scoreA w = length (filter (\<lambda>p. wp_winnerId p = Some (wp_aUserId p)) (cw_pairings w)) \<and>
    cw_scoreA w + cw_scoreB w = length (cw_rosterA w) * length (cw_rosterB w) \<and>
    cw_winnerClubId w = (if cw_scoreB w < cw_scoreA w then Some (cw_clubAId w)
      else if cw_scoreA w < cw_scoreB w then Some (cw_clubBId w) else None)"
proof -
  have inv: "war_inv (foldl (cw_step uow bps) s ops)" by (rule cw_history_inv[OF assms(1-5)])
  note g = war_inv_get[OF inv assms(6)]
  have sh: "drawn w" "all_decided w" "cw_winnerClubId w = verdict w" "distinct (cw_rosterA w @ cw_rosterB w)"
    using g(3) assms(7) by (simp_all add: war_shape_def)
  have pr: "map (\<lambda>p. (wp_aUserId p, wp_bUserId p)) (cw_pairings w) = List.product (cw_rosterA w) (cw_rosterB w)"
    using sh(1) by (simp add: drawn_def)
  have won: "wp_winnerId p = Some (wp_aUserId p) \<or> wp_winnerId p = Some (wp_bUserId p)" if p: "p \<in> set (cw_pairings w)" for p
  proof -
    have "truthy (wp_winnerId p)" using sh(2) p by (simp add: all_decided_def list_all_iff)
    with sh(1) p show ?thesis by (auto simp: drawn_def truthy_def)
  qed
  have ne: "wp_aUserId p \<noteq> wp_bUserId p" if p: "p \<in> set (cw_pairings w)" for p
  proof -
    have "(wp_aUserId p, wp_bUserId p) \<in> set (map (\<lambda>p. (wp_aUserId p, wp_bUserId p)) (cw_pairings w))" using p by auto
    then show ?thesis unfolding pr using sh(4) by auto
  qed
  have "filter (\<lambda>p. wp_winnerId p = Some (wp_bUserId p)) (cw_pairings w) = filter (\<lambda>p. wp_winnerId p \<noteq> Some (wp_aUserId p)) (cw_pairings w)"
    by (rule filter_cong) (use won ne in force)+
  then have "cw_scoreA w + cw_scoreB w = length (cw_pairings w)"
    using sh(1) by (simp add: drawn_def won_by_def sum_length_filter_compl)
  also have "\<dots> = length (cw_rosterA w) * length (cw_rosterB w)" using arg_cong[OF pr, of length] by simp
  finally have total: "cw_scoreA w + cw_scoreB w = length (cw_rosterA w) * length (cw_rosterB w)" .
  have "cw_scoreA w = length (filter (\<lambda>p. wp_winnerId p = Some (wp_aUserId p)) (cw_pairings w))"
    using sh(1) by (simp add: drawn_def won_by_def)
  with pr won total sh(3) show ?thesis by (simp add: verdict_def)
qed

subsection \<open>A small war\<close>

definition demo_wars :: war_store where
  "demo_wars = \<lparr>m_users = m_users demo_store, m_ledger = m_ledger demo_store, m_matches = [],
     m_withdrawals = m_withdrawals demo_store, m_audit = m_audit demo_store, cw_rows = []\<rparr>"

lemma war_inv_demo: "war_inv demo_wars"
proof -
  have "books_ok demo_wars = books_ok demo_store" by (simp add: books_ok_def demo_wars_def)
  moreover have "cw_get i demo_wars = None" for i by (simp add: cw_get_def demo_wars_def)
  ultimately show ?thesis using demo_store_books by (simp add: war_inv_def)
qed

definition demo_enlist :: "(cw_op \<times> int) list" where
  "demo_enlist = [(CwWallet (CreditOp ''u_2'' 500 (plain_credit Deposit ''d'')), 3), (CwCreate ''a'' ''b'' 100 2 ''w1'', 4),
     (CwRegister ''w1'' ''u_1'' True, 5), (CwRegister ''w1'' ''u_2'' False, 6)]"

definition demo_war :: "(cw_op \<times> int) list" where
  "demo_war = demo_enlist @ [(CwStart ''w1'', 7), (CwReport ''w1'' ''u_1'' ''u_2'' ''u_2'', 8)]"

lemma cw_history_append:
  "cw_history uow bps s (xs @ ys) = (cw_history uow bps s xs \<and> cw_history uow bps (foldl (cw_step uow bps) s xs) ys)"
  by (induction xs arbitrary: s) simp_all

lemma cw_fresh_iff:
  "cw_fresh i s \<longleftrightarrow> no_colon i \<and> cw_get i s = None \<and> paid (war_rake_ref i) s = None \<and>
     (\<forall>u. paid (cw_refund_ref i u) s = None) \<and> (\<forall>u. paid (war_share_ref i u) s = None)"
  by (auto simp: cw_fresh_def cw_refs_def)

lemma demo_enlist_history: "cw_history rollback 500 demo_wars demo_enlist"
proof -
  let ?s = "cw_step rollback 500 demo_wars (CwWallet (CreditOp ''u_2'' 500 (plain_credit Deposit ''d'')), 3)"
  have refs: "map t_providerRef (l_rows (m_ledger ?s)) = [None, None]" by code_simp
  have rows: "cw_rows ?s = []" by code_simp
  have "war_inv ?s" by (rule cw_step_inv[OF rolls_back_rollback _ _ war_inv_demo]) (simp_all add: plain_credit_def)
  then have wf: "ledger_wf (m_ledger ?s)" by (simp add: war_inv_def books_ok_def)
  have "paid q ?s = None" for q by (rule no_refs_paid[OF wf, of 2]) (simp only: refs, simp add: numeral_2_eq_2)
  moreover have "cw_get ''w1'' ?s = None" by (simp only: cw_get_def rows map_of.simps)
  ultimately have "cw_fresh ''w1'' ?s" by (simp only: cw_fresh_iff) (simp add: no_colon_def)
  then show ?thesis by (simp add: demo_enlist_def plain_credit_def)
qed

lemma demo_war_history: "cw_history rollback 500 demo_wars demo_war"
  using demo_enlist_history by (simp add: demo_war_def cw_history_append)

lemma demo_war_finished:
  "case cw_get ''w1'' (foldl (cw_step rollback 500) demo_wars demo_war) of
     None \<Rightarrow> False
   | Some w \<Rightarrow> cw_status w = CwFinished \<and> cw_winnerClubId w = Some ''b'' \<and> war_winners w = [''u_2''] \<and> cw_stakeCents w = 100 \<and>
       cw_rosterA w @ cw_rosterB w = [''u_1'', ''u_2''] \<and> cw_scoreA w = 0 \<and> length (cw_pairings w) = 1"
  by code_simp

lemma demo_war_result:
  obtains w where "cw_get ''w1'' (foldl (cw_step rollback 500) demo_wars demo_war) = Some w" "cw_status w = CwFinished"
    "cw_winnerClubId w = Some ''b''" "war_winners w = [''u_2'']" "cw_stakeCents w = 100"
    "cw_rosterA w @ cw_rosterB w = [''u_1'', ''u_2'']" "cw_scoreA w = 0" "length (cw_pairings w) = 1"
  using demo_war_finished by (auto split: option.splits)


theorem club_war_counts_wins_witness:
  "\<exists>w. cw_get ''w1'' (foldl (cw_step rollback 500) demo_wars demo_war) = Some w \<and> cw_scoreB w = 1"
proof (rule demo_war_result)
  fix w
  assume w: "cw_get ''w1'' (foldl (cw_step rollback 500) demo_wars demo_war) = Some w" "cw_status w = CwFinished"
    "cw_scoreA w = 0" "length (cw_pairings w) = 1"
  have bps: "(0 :: int) \<le> 500" "(500 :: int) \<le> 10000" by simp_all
  note c = club_war_counts_wins[OF rolls_back_rollback bps war_inv_demo demo_war_history w(1,2)]
  have "length (cw_pairings w) = length (cw_rosterA w) * length (cw_rosterB w)"
    using arg_cong[OF conjunct1[OF c], of length] by simp
  moreover have "cw_scoreA w + cw_scoreB w = length (cw_rosterA w) * length (cw_rosterB w)" using c by blast
  ultimately show ?thesis using w(1,3,4) by simp
qed

text \<open>
  A cancellation that fails half-way: the refund of the second player is refused because the balance
  is at the ceiling. The war is still open, and its founder can start it.
\<close>

definition failing_war_cancel :: "(cw_op \<times> int) list" where
  "failing_war_cancel = demo_enlist @ [(CwWallet (CreditOp ''u_2'' (BALANCE_CEILING_CENTS - 400) (plain_credit Deposit ''d'')), 7),
     (CwCancel ''w1'', 8)]"

text \<open>A failed cancellation leaves a refund behind and the war open. It can be started and
  played: from a pool of 200 without rake the winner gets 200 although 100 were already refunded to
  the same player.\<close>

theorem failed_war_cancel_overpays:
  "map_option cw_status (cw_get ''w1'' (foldl (cw_step rollback 0) demo_wars failing_war_cancel)) = Some CwRegistering \<and>
   amount_paid (cw_refund_ref ''w1'' ''u_1'') (foldl (cw_step rollback 0) demo_wars
     (failing_war_cancel @ [(CwStart ''w1'', 9), (CwReport ''w1'' ''u_1'' ''u_2'' ''u_1'', 10)])) = 100 \<and>
   amount_paid (war_share_ref ''w1'' ''u_1'') (foldl (cw_step rollback 0) demo_wars
     (failing_war_cancel @ [(CwStart ''w1'', 9), (CwReport ''w1'' ''u_1'' ''u_2'' ''u_1'', 10)])) = 200"
  by code_simp
end
