(* ===== verification/Clubs.thy ===== *)
theory Clubs
  imports Rooms
begin

text \<open>
  Clubs (\<^verbatim>\<open>packages/server/src/social/clubService.ts\<close> and the in-memory repository of
  \<^verbatim>\<open>clubRepository.ts\<close>): creation, joining, leaving, privacy and disbanding.

  A method of the service is a sequence of calls of the repository; each call is one step, and
  between two of them other requests may run. What a request does next is a task of the state. The
  joins of a club wait for each other between counting its members and adding one, as in
  \<^verbatim>\<open>serializeJoin\<close>. Left out are the detail records that are only sent back; Unicode's letters and
  digits are the parameter \<open>uni\<close>, a share code and the time are arguments.
\<close>

subsection \<open>Data\<close>

datatype club_role = ClubFounder | ClubMember

record club =
  cl_id :: string
  cl_name :: string
  cl_tag :: string
  cl_founderId :: user_id
  cl_createdAt :: int
  cl_private :: bool
  cl_joinCode :: "string option"

record club_member =
  mb_userId :: user_id
  mb_clubId :: string
  mb_role :: club_role
  mb_joinedAt :: int

record clubs =
  cb_clubs :: "(string \<times> club) list"
  cb_members :: "(user_id \<times> club_member) list"
  cb_seq :: nat

datatype club_error = ClubError string | DuplicateClubTagError | AlreadyInClub

definition MAX_CLUB_MEMBERS :: nat where
  "MAX_CLUB_MEMBERS = 100"

subsection \<open>The repository\<close>

definition upper :: "string \<Rightarrow> string" where
  "upper s = map upper_char s"

definition club_id :: "nat \<Rightarrow> string" where
  "club_id n = ''club_'' @ nat_str n"

definition getClub :: "string \<Rightarrow> clubs \<Rightarrow> club option" where
  "getClub i s = map_of (cb_clubs s) i"

definition getByTag :: "string \<Rightarrow> clubs \<Rightarrow> club option" where
  "getByTag tag s = List.find (\<lambda>c. cl_tag c = upper tag) (map snd (cb_clubs s))"

definition getByCode :: "string \<Rightarrow> clubs \<Rightarrow> club option" where
  "getByCode code s =
     (let up = upper (js_trim code)
      in if up = [] then None else List.find (\<lambda>c. cl_private c \<and> cl_joinCode c = Some up) (map snd (cb_clubs s)))"

definition memberOf :: "user_id \<Rightarrow> clubs \<Rightarrow> club_member option" where
  "memberOf u s = map_of (cb_members s) u"

definition club_roster :: "string \<Rightarrow> clubs \<Rightarrow> club_member list" where
  "club_roster i s = filter (\<lambda>m. mb_clubId m = i) (map snd (cb_members s))"

definition countMembers :: "string \<Rightarrow> clubs \<Rightarrow> nat" where
  "countMembers i s = length (club_roster i s)"

text \<open>The founder first, then by the time of joining. Between two founders the comparison of the source
  puts either first, so that their order is the engine's choice; the model keeps the order of the map.\<close>

definition listMembers :: "string \<Rightarrow> clubs \<Rightarrow> club_member list" where
  "listMembers i s =
     filter (\<lambda>m. mb_role m = ClubFounder) (club_roster i s) @
     sort_key mb_joinedAt (filter (\<lambda>m. mb_role m \<noteq> ClubFounder) (club_roster i s))"

definition listClubs :: "nat \<Rightarrow> clubs \<Rightarrow> (club \<times> nat) list" where
  "listClubs limit s =
     take limit (sort_key (\<lambda>p. - int (snd p)) (sort_key (\<lambda>p. - cl_createdAt (fst p))
       (map (\<lambda>c. (c, countMembers (cl_id c) s)) (filter (\<lambda>c. \<not> cl_private c) (map snd (cb_clubs s))))))"

definition createClub ::
  "string \<Rightarrow> string \<Rightarrow> user_id \<Rightarrow> bool \<Rightarrow> string \<Rightarrow> int \<Rightarrow> (clubs, club_error, club) action" where
  "createClub name tag founder priv code now s =
     (let tg = upper tag
      in if list_ex (\<lambda>c. cl_tag c = tg) (map snd (cb_clubs s)) then (Inl DuplicateClubTagError, s)
         else let n = cb_seq s + 1;
                  c = \<lparr>cl_id = club_id n, cl_name = name, cl_tag = tg, cl_founderId = founder, cl_createdAt = now, cl_private = priv,
                       cl_joinCode = (if priv then Some code else None)\<rparr>
           in (Inr c, s\<lparr>cb_seq := n, cb_clubs := AList.update (cl_id c) c (cb_clubs s),
                 cb_members := AList.update founder \<lparr>mb_userId = founder, mb_clubId = cl_id c, mb_role = ClubFounder, mb_joinedAt = now\<rparr>
                   (cb_members s)\<rparr>))"

definition addMember :: "user_id \<Rightarrow> string \<Rightarrow> club_role \<Rightarrow> int \<Rightarrow> (clubs, club_error, unit) action" where
  "addMember u i role now s =
     (if memberOf u s \<noteq> None then (Inl AlreadyInClub, s)
      else (Inr (), s\<lparr>cb_members := AList.update u \<lparr>mb_userId = u, mb_clubId = i, mb_role = role, mb_joinedAt = now\<rparr> (cb_members s)\<rparr>))"

definition removeMember :: "user_id \<Rightarrow> clubs \<Rightarrow> clubs" where
  "removeMember u s = s\<lparr>cb_members := AList.delete u (cb_members s)\<rparr>"

definition deleteClub :: "string \<Rightarrow> clubs \<Rightarrow> clubs" where
  "deleteClub i s =
     s\<lparr>cb_clubs := AList.delete i (cb_clubs s), cb_members := filter (\<lambda>p. mb_clubId (snd p) \<noteq> i) (cb_members s)\<rparr>"

definition setClubRole :: "user_id \<Rightarrow> club_role \<Rightarrow> clubs \<Rightarrow> clubs" where
  "setClubRole u role s =
     (case memberOf u s of None \<Rightarrow> s | Some m \<Rightarrow> s\<lparr>cb_members := AList.update u (m\<lparr>mb_role := role\<rparr>) (cb_members s)\<rparr>)"

definition setFounder :: "string \<Rightarrow> user_id \<Rightarrow> clubs \<Rightarrow> clubs" where
  "setFounder i u s =
     (case getClub i s of None \<Rightarrow> s | Some c \<Rightarrow> s\<lparr>cb_clubs := AList.update i (c\<lparr>cl_founderId := u\<rparr>) (cb_clubs s)\<rparr>)"

definition setPrivacy :: "string \<Rightarrow> bool \<Rightarrow> string \<Rightarrow> clubs \<Rightarrow> clubs" where
  "setPrivacy i priv code s =
     (case getClub i s of
        None \<Rightarrow> s
      | Some c \<Rightarrow>
          s\<lparr>cb_clubs := AList.update i
             (c\<lparr>cl_private := priv, cl_joinCode := (if priv \<and> (cl_joinCode c = None \<or> cl_joinCode c = Some []) then Some code else cl_joinCode c)\<rparr>) (cb_clubs s)\<rparr>)"

subsection \<open>The service: requests in steps\<close>

definition is_alnum :: "char \<Rightarrow> bool" where
  "is_alnum c = (let n = of_char c :: nat in 48 \<le> n \<and> n \<le> 57 \<or> 65 \<le> n \<and> n \<le> 90 \<or> 97 \<le> n \<and> n \<le> 122)"

definition name_ok :: "(char \<Rightarrow> bool) \<Rightarrow> string \<Rightarrow> bool" where
  "name_ok uni name = (3 \<le> length name \<and> length name \<le> 32 \<and> list_all (\<lambda>c. uni c \<or> c \<in> set '' '' \<or> c = CHR 0x27 \<or> c \<in> set ''._-'') name)"

definition tag_ok :: "string \<Rightarrow> bool" where
  "tag_ok tag = (2 \<le> length tag \<and> length tag \<le> 5 \<and> list_all is_alnum tag)"

text \<open>What a request still has to do; the joins and the departures look like this:
  \<open>JoinFind\<close> the club, \<open>JoinCount\<close> its members, \<open>JoinAdd\<close> oneself; \<open>LeaveRemove\<close> oneself, \<open>LeaveList\<close> who
  remains, then \<open>LeaveDelete\<close> the club or \<open>LeaveRole\<close> and \<open>LeaveFounder\<close> for the heir.\<close>

datatype club_task =
  JoinFind user_id string
| JoinCode user_id string
| JoinCount user_id string
| JoinAdd user_id string
| LeaveRemove user_id string bool
| LeaveList string bool
| LeaveDelete string
| LeaveRole string user_id
| LeaveFounder string user_id
| CreateStore user_id string string bool
| PrivacyStore string bool
| CloseStore string

record club_house = clubs +
  ch_tasks :: "club_task list"

definition todo :: "club_task \<Rightarrow> club_house \<Rightarrow> club_house" where
  "todo k s = s\<lparr>ch_tasks := ch_tasks s @ [k]\<rparr>"

definition in_store :: "(clubs \<Rightarrow> clubs) \<Rightarrow> club_house \<Rightarrow> club_house" where
  "in_store f s = clubs.extend (f (clubs.truncate s)) \<lparr>ch_tasks = ch_tasks s\<rparr>"

abbreviation store_of :: "club_house \<Rightarrow> clubs" where
  "store_of s \<equiv> clubs.truncate s"

datatype club_op =
  OpCreate user_id string string bool
| OpJoin user_id string
| OpJoinByCode user_id string
| OpSetPrivacy user_id bool
| OpLeave user_id
| OpClose string

text \<open>The first call of a request, and what the answer leads to. An error ends the request.\<close>

definition request :: "(char \<Rightarrow> bool) \<Rightarrow> club_op \<Rightarrow> club_house \<Rightarrow> club_house" where
  "request uni op s =
     (case op of
        OpCreate u name tag priv \<Rightarrow>
          if memberOf u (store_of s) \<noteq> None \<or> \<not> name_ok uni (js_trim name) \<or> \<not> tag_ok tag then s
          else todo (CreateStore u (js_trim name) (upper tag) priv) s
      | OpJoin u i \<Rightarrow> if memberOf u (store_of s) \<noteq> None then s else todo (JoinFind u i) s
      | OpJoinByCode u code \<Rightarrow> if memberOf u (store_of s) \<noteq> None then s else todo (JoinCode u code) s
      | OpSetPrivacy u priv \<Rightarrow>
          (case memberOf u (store_of s) of
             None \<Rightarrow> s
           | Some m \<Rightarrow> if mb_role m \<noteq> ClubFounder then s else todo (PrivacyStore (mb_clubId m) priv) s)
      | OpLeave u \<Rightarrow>
          (case memberOf u (store_of s) of
             None \<Rightarrow> s | Some m \<Rightarrow> todo (LeaveRemove u (mb_clubId m) (mb_role m = ClubFounder)) s)
      | OpClose i \<Rightarrow> if getClub i (store_of s) = None then s else todo (CloseStore i) s)"

text \<open>One step of a request: a call of the repository, and what its answer leads to.\<close>

definition perform :: "club_task \<Rightarrow> string \<Rightarrow> int \<Rightarrow> club_house \<Rightarrow> club_house" where
  "perform k code now s =
     (case k of
        JoinFind u i \<Rightarrow>
          (case getClub i (store_of s) of
             None \<Rightarrow> s | Some c \<Rightarrow> if cl_private c then s else todo (JoinCount u i) s)
      | JoinCode u cd \<Rightarrow>
          (case getByCode cd (store_of s) of None \<Rightarrow> s | Some c \<Rightarrow> todo (JoinCount u (cl_id c)) s)
      | JoinCount u i \<Rightarrow> if countMembers i (store_of s) \<ge> MAX_CLUB_MEMBERS then s else todo (JoinAdd u i) s
      | JoinAdd u i \<Rightarrow> in_store (\<lambda>c. snd (addMember u i ClubMember now c)) s
      | LeaveRemove u i founder \<Rightarrow> todo (LeaveList i founder) (in_store (removeMember u) s)
      | LeaveList i founder \<Rightarrow>
          (case listMembers i (store_of s) of
             [] \<Rightarrow> todo (LeaveDelete i) s
           | heir # _ \<Rightarrow> if founder then todo (LeaveRole i (mb_userId heir)) s else s)
      | LeaveDelete i \<Rightarrow> in_store (deleteClub i) s
      | LeaveRole i u \<Rightarrow> todo (LeaveFounder i u) (in_store (setClubRole u ClubFounder) s)
      | LeaveFounder i u \<Rightarrow> in_store (setFounder i u) s
      | CreateStore u name tag priv \<Rightarrow> in_store (\<lambda>c. snd (createClub name tag u priv code now c)) s
      | PrivacyStore i priv \<Rightarrow> in_store (setPrivacy i priv code) s
      | CloseStore i \<Rightarrow> in_store (deleteClub i) s)"

text \<open>A join counts only when no other join of the club is between its count and its addition.\<close>

fun waits_for :: "club_task \<Rightarrow> club_task list \<Rightarrow> bool" where
  "waits_for (JoinCount u i) ts = list_ex (\<lambda>k. case k of JoinAdd v j \<Rightarrow> j = i | _ \<Rightarrow> False) ts"
| "waits_for _ ts = False"

definition run_club_task :: "nat \<Rightarrow> string \<Rightarrow> int \<Rightarrow> club_house \<Rightarrow> club_house" where
  "run_club_task n code now s =
     (if n < length (ch_tasks s) \<and> \<not> waits_for (ch_tasks s ! n) (ch_tasks s)
      then perform (ch_tasks s ! n) code now (s\<lparr>ch_tasks := remove_nth n (ch_tasks s)\<rparr>) else s)"

datatype club_event = Request club_op | Step nat string int

fun club_step :: "(char \<Rightarrow> bool) \<Rightarrow> club_house \<Rightarrow> club_event \<Rightarrow> club_house" where
  "club_step uni s (Request op) = request uni op s"
| "club_step uni s (Step n code now) = run_club_task n code now s"

definition new_club_house :: club_house where
  "new_club_house = \<lparr>cb_clubs = [], cb_members = [], cb_seq = 0, ch_tasks = []\<rparr>"

text \<open>A request that runs without interruption: at most five calls follow the first.\<close>

fun run_first :: "nat \<Rightarrow> string \<Rightarrow> int \<Rightarrow> club_house \<Rightarrow> club_house" where
  "run_first 0 code now s = s"
| "run_first (Suc n) code now s = run_first n code now (run_club_task 0 code now s)"

definition whole_request :: "(char \<Rightarrow> bool) \<Rightarrow> club_op \<Rightarrow> string \<Rightarrow> int \<Rightarrow> club_house \<Rightarrow> club_house" where
  "whole_request uni op code now s = run_first 5 code now (request uni op s)"

subsection \<open>What a caller is shown\<close>

text \<open>A private club does not exist for others, and the share code is for members.\<close>

definition show_club :: "string \<Rightarrow> user_id option \<Rightarrow> clubs \<Rightarrow> (club \<times> string option) option" where
  "show_club i caller s =
     (case getClub i s of
        None \<Rightarrow> None
      | Some c \<Rightarrow>
          let member = (case caller of
                None \<Rightarrow> False | Some u \<Rightarrow> (case memberOf u s of None \<Rightarrow> False | Some m \<Rightarrow> mb_clubId m = i))
          in if cl_private c \<and> \<not> member then None else Some (c, if member then cl_joinCode c else None))"

definition getMyClub :: "user_id \<Rightarrow> clubs \<Rightarrow> (club \<times> string option) option" where
  "getMyClub u s =
     (case memberOf u s of
        None \<Rightarrow> None
      | Some m \<Rightarrow> (case getClub (mb_clubId m) s of None \<Rightarrow> None | Some c \<Rightarrow> Some (c, cl_joinCode c)))"

end
