(* ===== verification/Club_Properties.thy ===== *)
theory Club_Properties
  imports Clubs
begin

text \<open>
  Properties of clubs: the limit on members holds however requests interleave; requests that run one
  after the other leave every club with exactly one founder; and two departures that interleave can
  leave a club without any.
\<close>

subsection \<open>The store inside the state\<close>

lemma store_simps [simp]:
  "store_of (in_store f s) = f (store_of s)" "ch_tasks (in_store f s) = ch_tasks s"
  "store_of (todo k s) = store_of s" "ch_tasks (todo k s) = ch_tasks s @ [k]"
  "store_of (s\<lparr>ch_tasks := ts\<rparr>) = store_of s"
  by (simp_all add: in_store_def todo_def clubs.defs)

lemma member_frames [simp]:
  "memberOf u (s\<lparr>cb_clubs := cs\<rparr>) = memberOf u s" "countMembers i (s\<lparr>cb_clubs := cs\<rparr>) = countMembers i s"
  "memberOf u (s\<lparr>cb_seq := n\<rparr>) = memberOf u s" "countMembers i (s\<lparr>cb_seq := n\<rparr>) = countMembers i s"
  "getClub i (s\<lparr>cb_members := ms\<rparr>) = getClub i s" "getClub i (s\<lparr>cb_seq := n\<rparr>) = getClub i s"
  by (simp_all add: memberOf_def countMembers_def club_roster_def getClub_def)

subsection \<open>Counting\<close>

lemma countMembers_eq: "countMembers i s = length (filter (\<lambda>p. mb_clubId (snd p) = i) (cb_members s))"
  by (simp add: countMembers_def club_roster_def filter_map comp_def)

lemma filter_update_le: "length (filter P (AList.update k v al)) \<le> length (filter P al) + (if P (k, v) then 1 else 0)"
  by (induction al) auto

lemma filter_update_same:
  "map_of al k = Some w \<Longrightarrow> P (k, w) = P (k, v) \<Longrightarrow> length (filter P (AList.update k v al)) = length (filter P al)"
  by (induction al) (auto split: if_splits)

lemma filter_delete_le: "length (filter P (AList.delete k al)) \<le> length (filter P al)"
  by (induction al) auto

lemma filter_conj_le: "length (filter (\<lambda>x. Q x \<and> P x) xs) \<le> length (filter P xs)"
  by (induction xs) auto

definition adding :: "string \<Rightarrow> club_task list \<Rightarrow> nat" where
  "adding i ts = length (filter (\<lambda>k. case k of JoinAdd v j \<Rightarrow> j = i | _ \<Rightarrow> False) ts)"

lemma adding_simps [simp]:
  "adding i [] = 0" "adding i (ts @ us) = adding i ts + adding i us"
  "adding i (k # ts) = (case k of JoinAdd v j \<Rightarrow> if j = i then 1 else 0 | _ \<Rightarrow> 0) + adding i ts"
  by (simp_all add: adding_def split: club_task.split)

lemma adding_remove: "n < length ts \<Longrightarrow> adding i ts = adding i (remove_nth n ts) + adding i [ts ! n]"
  by (subst id_take_nth_drop[of n ts]) (simp_all add: remove_nth_def)

lemma not_waiting: "\<not> waits_for (JoinCount u i) ts \<Longrightarrow> adding i ts = 0"
  by (auto simp: adding_def filter_empty_conv list_ex_iff split: club_task.splits)

subsection \<open>The limit holds in every interleaving\<close>

fun join_club :: "club_task \<Rightarrow> string option" where
  "join_club (JoinCount u i) = Some i"
| "join_club (JoinAdd u i) = Some i"
| "join_club _ = None"

definition issued :: "clubs \<Rightarrow> string \<Rightarrow> bool" where
  "issued s i \<longleftrightarrow> (\<exists>n\<le>cb_seq s. i = club_id n)"

definition cap_inv :: "club_house \<Rightarrow> bool" where
  "cap_inv s \<longleftrightarrow>
     (\<forall>i. countMembers i (store_of s) + adding i (ch_tasks s) \<le> MAX_CLUB_MEMBERS) \<and>
     (\<forall>p\<in>set (cb_members (store_of s)). issued (store_of s) (mb_clubId (snd p))) \<and>
     (\<forall>p\<in>set (cb_clubs (store_of s)). cl_id (snd p) = fst p \<and> issued (store_of s) (fst p)) \<and>
     (\<forall>k\<in>set (ch_tasks s). \<forall>i. join_club k = Some i \<longrightarrow> issued (store_of s) i)"

lemma update_subset: "set (AList.update k v al) \<subseteq> insert (k, v) (set al)"
  by (induction al) auto

lemma delete_subset: "set (AList.delete k al) \<subseteq> set al"
  by (induction al) auto

lemma club_id_inj [simp]: "club_id m = club_id n \<longleftrightarrow> m = n"
  by (simp add: club_id_def nat_str_inj)

lemma not_issued_next: "\<not> issued s (club_id (Suc (cb_seq s)))"
  by (auto simp: issued_def)

lemma issued_mono: "issued s i \<Longrightarrow> cb_seq s \<le> cb_seq s' \<Longrightarrow> issued s' i"
  by (auto simp: issued_def intro: order_trans)

text \<open>A change of the store that adds no member, club or number.\<close>

definition shrinks :: "clubs \<Rightarrow> clubs \<Rightarrow> bool" where
  "shrinks s s' \<longleftrightarrow> cb_seq s' = cb_seq s \<and> (\<forall>i. countMembers i s' \<le> countMembers i s) \<and>
     (\<forall>p\<in>set (cb_members s'). \<exists>q\<in>set (cb_members s). mb_clubId (snd q) = mb_clubId (snd p)) \<and>
     (\<forall>p\<in>set (cb_clubs s'). \<exists>q\<in>set (cb_clubs s). fst q = fst p \<and> (cl_id (snd q) = fst q \<longrightarrow> cl_id (snd p) = fst p))"

lemma cap_shrinks:
  assumes "cap_inv s" "shrinks (store_of s) (f (store_of s))"
  shows "cap_inv (in_store f s)"
proof -
  have q: "cb_seq (f (store_of s)) = cb_seq (store_of s)" using assms(2) by (simp add: shrinks_def)
  have iss: "issued (f (store_of s)) i = issued (store_of s) i" for i by (simp add: issued_def q)
  have "countMembers i (f (store_of s)) + adding i (ch_tasks s) \<le> MAX_CLUB_MEMBERS" for i
  proof -
    have "countMembers i (f (store_of s)) \<le> countMembers i (store_of s)" using assms(2) by (simp add: shrinks_def)
    moreover have "countMembers i (store_of s) + adding i (ch_tasks s) \<le> MAX_CLUB_MEMBERS" using assms(1) by (simp add: cap_inv_def)
    ultimately show ?thesis by linarith
  qed
  moreover have "\<forall>p\<in>set (cb_members (f (store_of s))). issued (store_of s) (mb_clubId (snd p))"
  proof
    fix p assume "p \<in> set (cb_members (f (store_of s)))"
    then obtain r where "r \<in> set (cb_members (store_of s))" "mb_clubId (snd r) = mb_clubId (snd p)"
      using assms(2) unfolding shrinks_def by blast
    with assms(1) show "issued (store_of s) (mb_clubId (snd p))" unfolding cap_inv_def by metis
  qed
  moreover have "\<forall>p\<in>set (cb_clubs (f (store_of s))). cl_id (snd p) = fst p \<and> issued (store_of s) (fst p)"
  proof
    fix p assume "p \<in> set (cb_clubs (f (store_of s)))"
    then obtain r where "r \<in> set (cb_clubs (store_of s))" "fst r = fst p" "cl_id (snd r) = fst r \<longrightarrow> cl_id (snd p) = fst p"
      using assms(2) unfolding shrinks_def by blast
    with assms(1) show "cl_id (snd p) = fst p \<and> issued (store_of s) (fst p)" unfolding cap_inv_def by metis
  qed
  ultimately show ?thesis using assms(1) by (simp add: cap_inv_def iss)
qed

lemma shrinking:
  "shrinks s (removeMember u s)" "shrinks s (deleteClub i s)" "shrinks s (setClubRole u role s)"
  "shrinks s (setFounder i u s)" "shrinks s (setPrivacy i priv code s)" "shrinks s s"
proof -
  show "shrinks s (removeMember u s)"
    using delete_subset[of u "cb_members s"]
    by (auto simp: shrinks_def removeMember_def countMembers_eq filter_delete_le) (meson snd_conv subsetD)?
  show "shrinks s (deleteClub i s)"
    using delete_subset[of i "cb_clubs s"] by (auto simp: shrinks_def deleteClub_def countMembers_eq filter_conj_le) force
  show refl: "shrinks s s" by (auto simp: shrinks_def)
  show "shrinks s (setClubRole u role s)"
  proof (cases "memberOf u s")
    case None
    then show ?thesis by (auto simp: shrinks_def setClubRole_def)
  next
    case (Some m)
    have "countMembers i (setClubRole u role s) = countMembers i s" for i
      using Some by (simp add: setClubRole_def countMembers_eq memberOf_def filter_update_same)
    moreover have "\<exists>q\<in>set (cb_members s). mb_clubId (snd q) = mb_clubId (snd p)" if "p \<in> set (cb_members (setClubRole u role s))" for p
    proof -
      have "p \<in> insert (u, m\<lparr>mb_role := role\<rparr>) (set (cb_members s))"
        using that update_subset[of u "m\<lparr>mb_role := role\<rparr>" "cb_members s"] Some by (auto simp: setClubRole_def)
      moreover have "(u, m) \<in> set (cb_members s)" using Some by (simp add: memberOf_def map_of_SomeD)
      ultimately show ?thesis by force
    qed
    ultimately show ?thesis using Some by (auto simp: shrinks_def setClubRole_def)
  qed
  have clubs: "shrinks s (s\<lparr>cb_clubs := AList.update i c (cb_clubs s)\<rparr>)"
    if "getClub i s = Some c0" "cl_id c = cl_id c0" for i c c0
  proof -
    have "(i, c0) \<in> set (cb_clubs s)" using that(1) by (simp add: getClub_def map_of_SomeD)
    then have "\<exists>q\<in>set (cb_clubs s). fst q = fst p \<and> (cl_id (snd q) = fst q \<longrightarrow> cl_id (snd p) = fst p)"
      if "p \<in> set (AList.update i c (cb_clubs s))" for p
      using that \<open>cl_id c = cl_id c0\<close> update_subset[of i c "cb_clubs s"] by force
    then show ?thesis by (auto simp: shrinks_def)
  qed
  show "shrinks s (setFounder i u s)"
  proof (cases "getClub i s")
    case (Some c)
    then show ?thesis using clubs[OF Some, of "c\<lparr>cl_founderId := u\<rparr>"] by (simp add: setFounder_def)
  qed (simp add: setFounder_def refl)
  show "shrinks s (setPrivacy i priv code s)"
  proof (cases "getClub i s")
    case (Some c)
    then show ?thesis unfolding setPrivacy_def by (simp only: option.case) (rule clubs[OF Some], simp)
  qed (simp add: setPrivacy_def refl)
qed

lemma cap_tasks:
  assumes "cap_inv s" "\<And>i. adding i ts \<le> adding i (ch_tasks s)" "\<And>k i. k \<in> set ts \<Longrightarrow> join_club k = Some i \<Longrightarrow> issued (store_of s) i"
  shows "cap_inv (s\<lparr>ch_tasks := ts\<rparr>)"
proof -
  note I = assms(1)[unfolded cap_inv_def]
  have "countMembers i (store_of s) + adding i ts \<le> MAX_CLUB_MEMBERS" for i
  proof -
    have "countMembers i (store_of s) + adding i (ch_tasks s) \<le> MAX_CLUB_MEMBERS" using I by blast
    with assms(2)[of i] show ?thesis by linarith
  qed
  with I assms(3) show ?thesis unfolding cap_inv_def by simp
qed

lemma cap_todo:
  assumes "cap_inv s" "\<And>v i. k \<noteq> JoinAdd v i" "\<And>i. join_club k = Some i \<Longrightarrow> issued (store_of s) i"
  shows "cap_inv (todo k s)"
proof -
  have "adding i [k] = 0" for i using assms(2) by (cases k) auto
  then show ?thesis using assms(1,3) by (auto simp: cap_inv_def)
qed

lemma cap_create:
  assumes "cap_inv s"
  shows "cap_inv (in_store (\<lambda>c. snd (createClub name tag u priv code now c)) s)"
proof (cases "list_ex (\<lambda>c. cl_tag c = upper tag) (map snd (cb_clubs (store_of s)))")
  case True
  then show ?thesis using cap_shrinks[OF assms, of "\<lambda>c. snd (createClub name tag u priv code now c)"] shrinking(6)
    by (simp add: createClub_def)
next
  case False
  let ?c = "store_of s" and ?n = "Suc (cb_seq (store_of s))"
  let ?club = "\<lparr>cl_id = club_id ?n, cl_name = name, cl_tag = upper tag, cl_founderId = u, cl_createdAt = now, cl_private = priv,
                 cl_joinCode = (if priv then Some code else None)\<rparr>"
  let ?m = "\<lparr>mb_userId = u, mb_clubId = club_id ?n, mb_role = ClubFounder, mb_joinedAt = now\<rparr>"
  let ?s = "in_store (\<lambda>c. snd (createClub name tag u priv code now c)) s"
  have st: "cb_seq (store_of ?s) = ?n" "cb_clubs (store_of ?s) = AList.update (club_id ?n) ?club (cb_clubs ?c)"
    "cb_members (store_of ?s) = AList.update u ?m (cb_members ?c)" "ch_tasks ?s = ch_tasks s"
    using False by (simp_all add: createClub_def Let_def)
  have old: "issued (store_of ?s) i" if "issued ?c i" for i
    by (rule issued_mono[OF that]) (use st(1) in linarith)
  have new: "issued (store_of ?s) (club_id ?n)" unfolding issued_def st by blast
  note I = assms[unfolded cap_inv_def]
  have none: "countMembers (club_id ?n) ?c = 0"
    using I not_issued_next[of ?c] by (auto simp: countMembers_eq filter_empty_conv)
  have noadd: "adding (club_id ?n) (ch_tasks s) = 0"
  proof -
    have "JoinAdd v (club_id ?n) \<notin> set (ch_tasks s)" for v
      using I not_issued_next[of ?c] join_club.simps(2) by metis
    then show ?thesis unfolding adding_def by (auto simp: filter_empty_conv split: club_task.splits)
  qed
  have cnt: "countMembers i (store_of ?s) \<le> countMembers i ?c + (if i = club_id ?n then 1 else 0)" for i
    unfolding countMembers_eq st(3) using filter_update_le[of "\<lambda>p. mb_clubId (snd p) = i" u ?m "cb_members ?c"] by auto
  have "countMembers i (store_of ?s) + adding i (ch_tasks ?s) \<le> MAX_CLUB_MEMBERS" for i
  proof (cases "i = club_id ?n")
    case True
    then show ?thesis using cnt[of i] none noadd by (simp add: st(4) MAX_CLUB_MEMBERS_def)
  next
    case False
    then have "countMembers i (store_of ?s) \<le> countMembers i ?c" using cnt[of i] by simp
    moreover have "countMembers i ?c + adding i (ch_tasks s) \<le> MAX_CLUB_MEMBERS" using I by blast
    ultimately show ?thesis unfolding st(4) by linarith
  qed
  moreover have "issued (store_of ?s) (mb_clubId (snd p))" if "p \<in> set (cb_members (store_of ?s))" for p
    using that update_subset[of u ?m "cb_members ?c"] I old new unfolding st(3) by auto
  moreover have "cl_id (snd p) = fst p \<and> issued (store_of ?s) (fst p)" if "p \<in> set (cb_clubs (store_of ?s))" for p
    using that update_subset[of "club_id ?n" ?club "cb_clubs ?c"] I old new unfolding st(2) by auto
  moreover have "\<forall>k\<in>set (ch_tasks ?s). \<forall>i. join_club k = Some i \<longrightarrow> issued (store_of ?s) i"
    unfolding st(4) using I old by blast
  ultimately show ?thesis unfolding cap_inv_def by blast
qed

lemma cap_add:
  assumes "cap_inv s" "countMembers i (store_of s) + adding i (ch_tasks s) < MAX_CLUB_MEMBERS" "issued (store_of s) i"
  shows "cap_inv (in_store (\<lambda>c. snd (addMember u i ClubMember now c)) s)"
proof (cases "memberOf u (store_of s)")
  case (Some m)
  then show ?thesis using cap_shrinks[OF assms(1), of "\<lambda>c. snd (addMember u i ClubMember now c)"] shrinking(6)
    by (simp add: addMember_def)
next
  case None
  let ?c = "store_of s" and ?s = "in_store (\<lambda>c. snd (addMember u i ClubMember now c)) s"
  let ?m = "\<lparr>mb_userId = u, mb_clubId = i, mb_role = ClubMember, mb_joinedAt = now\<rparr>"
  have st: "cb_seq (store_of ?s) = cb_seq ?c" "cb_clubs (store_of ?s) = cb_clubs ?c"
    "cb_members (store_of ?s) = AList.update u ?m (cb_members ?c)" "ch_tasks ?s = ch_tasks s"
    using None by (simp_all add: addMember_def)
  have iss: "issued (store_of ?s) j = issued ?c j" for j by (simp add: issued_def st(1) del: store_simps(1))
  note I = assms(1)[unfolded cap_inv_def]
  have cnt: "countMembers j (store_of ?s) \<le> countMembers j ?c + (if j = i then 1 else 0)" for j
    unfolding countMembers_eq st(3) using filter_update_le[of "\<lambda>p. mb_clubId (snd p) = j" u ?m "cb_members ?c"] by auto
  have "countMembers j (store_of ?s) + adding j (ch_tasks ?s) \<le> MAX_CLUB_MEMBERS" for j
  proof (cases "j = i")
    case True
    then show ?thesis using cnt[of j] assms(2) by (simp add: st(4) del: store_simps(1))
  next
    case False
    then have "countMembers j (store_of ?s) \<le> countMembers j ?c" using cnt[of j] by simp
    moreover have "countMembers j ?c + adding j (ch_tasks s) \<le> MAX_CLUB_MEMBERS" using I by blast
    ultimately show ?thesis unfolding st(4) by linarith
  qed
  moreover have "issued ?c (mb_clubId (snd p))" if "p \<in> set (cb_members (store_of ?s))" for p
    using that update_subset[of u ?m "cb_members ?c"] I assms(3) unfolding st(3) by auto
  ultimately show ?thesis using I unfolding cap_inv_def iss st(2,4) by blast
qed

lemma find_in_set: "List.find P xs = Some x \<Longrightarrow> x \<in> set xs"
  by (induction xs) (auto split: if_splits)

lemma known_club:
  assumes "cap_inv s"
  shows "getClub i (store_of s) = Some c \<Longrightarrow> issued (store_of s) i"
    and "getByCode cd (store_of s) = Some c \<Longrightarrow> issued (store_of s) (cl_id c)"
proof -
  have e: "cl_id (snd p) = fst p \<and> issued (store_of s) (fst p)" if "p \<in> set (cb_clubs (store_of s))" for p
    using assms that by (simp add: cap_inv_def)
  show "getClub i (store_of s) = Some c \<Longrightarrow> issued (store_of s) i"
    using e by (force simp: getClub_def dest: map_of_SomeD)
  assume "getByCode cd (store_of s) = Some c"
  then have "c \<in> set (map snd (cb_clubs (store_of s)))"
    unfolding getByCode_def Let_def by (auto split: if_splits dest: find_in_set)
  then obtain p where "p \<in> set (cb_clubs (store_of s))" "c = snd p" by auto
  with e show "issued (store_of s) (cl_id c)" by metis
qed

lemma cap_request: "cap_inv s \<Longrightarrow> cap_inv (request uni op s)"
  by (auto simp: request_def intro!: cap_todo split: club_op.split option.split)

lemma cap_perform:
  assumes s: "cap_inv s" and n: "n < length (ch_tasks s)" and w: "\<not> waits_for (ch_tasks s ! n) (ch_tasks s)"
  shows "cap_inv (perform (ch_tasks s ! n) code now (s\<lparr>ch_tasks := remove_nth n (ch_tasks s)\<rparr>))"
proof -
  let ?k = "ch_tasks s ! n" and ?s = "s\<lparr>ch_tasks := remove_nth n (ch_tasks s)\<rparr>"
  have sub: "set (remove_nth n (ch_tasks s)) \<subseteq> set (ch_tasks s)" by (auto simp: remove_nth_def dest: in_set_takeD in_set_dropD)
  note a = adding_remove[OF n]
  have iss: "issued (store_of s) i" if "join_club k = Some i" "k \<in> set (ch_tasks s)" for k i
    using s that by (simp add: cap_inv_def)
  have I: "cap_inv ?s" by (rule cap_tasks[OF s]) (use a sub iss in auto)
  have cnt: "countMembers i (store_of s) + adding i (ch_tasks s) \<le> MAX_CLUB_MEMBERS" for i using s by (simp add: cap_inv_def)
  have k: "?k \<in> set (ch_tasks s)" using n by simp
  have shrink: "(\<And>c. shrinks c (f c)) \<Longrightarrow> cap_inv (in_store f ?s)" for f by (rule cap_shrinks[OF I])
  show ?thesis
  proof (cases ?k)
    case (JoinFind u i)
    then show ?thesis using I known_club(1)[OF I] by (auto simp: perform_def intro!: cap_todo split: option.split)
  next
    case (JoinCode u cd)
    then show ?thesis using I known_club(2)[OF I] by (auto simp: perform_def intro!: cap_todo split: option.split)
  next
    case (JoinCount u i)
    have "adding i (ch_tasks s) = 0" using w JoinCount not_waiting by simp
    then have z: "adding i (remove_nth n (ch_tasks s)) = 0" using a[of i] by simp
    have "cap_inv (todo (JoinAdd u i) ?s)" if "countMembers i (store_of s) < MAX_CLUB_MEMBERS"
      using I iss[OF _ k, of i] JoinCount z that by (auto simp: cap_inv_def)
    then show ?thesis using I JoinCount by (simp add: perform_def)
  next
    case (JoinAdd u i)
    have "countMembers i (store_of ?s) + adding i (ch_tasks ?s) < MAX_CLUB_MEMBERS" using cnt[of i] a[of i] JoinAdd by simp
    then show ?thesis using cap_add[OF I] iss[OF _ k, of i] JoinAdd by (simp add: perform_def)
  next
    case (LeaveList i f)
    then show ?thesis using I by (auto simp: perform_def intro!: cap_todo split: list.split)
  next
    case (CreateStore u name tag priv)
    then show ?thesis using cap_create[OF I] by (simp add: perform_def)
  qed (auto simp: perform_def intro!: shrink shrinking cap_todo)
qed

lemma cap_step: "cap_inv s \<Longrightarrow> cap_inv (club_step uni s ev)"
  by (cases ev) (simp_all add: cap_request run_club_task_def cap_perform)

interpretation house: invariant_system "club_step uni" cap_inv for uni
  by unfold_locales (rule cap_step)

lemma cap_new: "cap_inv new_club_house"
  by (simp add: cap_inv_def new_club_house_def clubs.defs countMembers_eq)

text \<open>C37: a club never has more members than the limit. However the calls of concurrent requests
  interleave, no club has more than 100 members at any time; the serialised joins suffice for it.\<close>

theorem club_limit_holds:
  "countMembers i (store_of (foldl (club_step uni) new_club_house events)) \<le> MAX_CLUB_MEMBERS"
proof -
  have "cap_inv (foldl (club_step uni) new_club_house events)" by (rule house.run_inv[OF cap_new])
  then have "countMembers i (store_of (foldl (club_step uni) new_club_house events)) +
      adding i (ch_tasks (foldl (club_step uni) new_club_house events)) \<le> MAX_CLUB_MEMBERS"
    by (simp add: cap_inv_def)
  then show ?thesis by simp
qed

subsection \<open>Requests one after the other\<close>

text \<open>Clubs and members as maps: each club is founded by one of its members, who alone has the role.\<close>

definition well_founded_clubs :: "(string \<Rightarrow> club option) \<Rightarrow> (user_id \<Rightarrow> club_member option) \<Rightarrow> bool" where
  "well_founded_clubs C M \<longleftrightarrow>
     (\<forall>u m. M u = Some m \<longrightarrow> mb_userId m = u \<and> C (mb_clubId m) \<noteq> None) \<and>
     (\<forall>u m c. M u = Some m \<longrightarrow> C (mb_clubId m) = Some c \<longrightarrow> (mb_role m = ClubFounder \<longleftrightarrow> cl_founderId c = u)) \<and>
     (\<forall>i c. C i = Some c \<longrightarrow> cl_id c = i \<and> (\<exists>m. M (cl_founderId c) = Some m \<and> mb_clubId m = i)) \<and>
     (\<forall>i j a b. C i = Some a \<longrightarrow> C j = Some b \<longrightarrow> cl_tag a = cl_tag b \<longrightarrow> i = j)"

lemma wfcI:
  assumes "\<And>u m. M u = Some m \<Longrightarrow> mb_userId m = u" "\<And>u m. M u = Some m \<Longrightarrow> C (mb_clubId m) \<noteq> None"
    "\<And>u m c. M u = Some m \<Longrightarrow> C (mb_clubId m) = Some c \<Longrightarrow> mb_role m = ClubFounder \<longleftrightarrow> cl_founderId c = u"
    "\<And>i c. C i = Some c \<Longrightarrow> cl_id c = i" "\<And>i c. C i = Some c \<Longrightarrow> \<exists>m. M (cl_founderId c) = Some m \<and> mb_clubId m = i"
    "\<And>i j a b. C i = Some a \<Longrightarrow> C j = Some b \<Longrightarrow> cl_tag a = cl_tag b \<Longrightarrow> i = j"
  shows "well_founded_clubs C M"
  unfolding well_founded_clubs_def using assms by blast

lemma wfcD:
  assumes "well_founded_clubs C M"
  shows "M u = Some m \<Longrightarrow> mb_userId m = u" "M u = Some m \<Longrightarrow> C (mb_clubId m) \<noteq> None"
    "M u = Some m \<Longrightarrow> C (mb_clubId m) = Some c \<Longrightarrow> mb_role m = ClubFounder \<longleftrightarrow> cl_founderId c = u"
    "C i = Some c \<Longrightarrow> cl_id c = i" "C i = Some c \<Longrightarrow> \<exists>m. M (cl_founderId c) = Some m \<and> mb_clubId m = i"
    "C i = Some a \<Longrightarrow> C j = Some b \<Longrightarrow> cl_tag a = cl_tag b \<Longrightarrow> i = j"
  using assms unfolding well_founded_clubs_def by blast+

lemma wfc_drop:
  assumes "well_founded_clubs C M"
  shows "well_founded_clubs (C(i := None)) (\<lambda>u. case M u of None \<Rightarrow> None | Some m \<Rightarrow> if mb_clubId m = i then None else Some m)"
  by (rule wfcI) (use wfcD[OF assms] in \<open>fastforce split: option.splits if_splits\<close>)+

lemma wfc_join:
  assumes "well_founded_clubs C M" "M u = None" "C i \<noteq> None" "mb_userId m = u" "mb_clubId m = i" "mb_role m = ClubMember"
  shows "well_founded_clubs C (M(u := Some m))"
  by (rule wfcI) (use wfcD[OF assms(1)] assms(2-6) in \<open>fastforce split: if_splits\<close>)+

lemma wfc_club:
  assumes "well_founded_clubs C M" "C i = Some c" "cl_id c' = cl_id c" "cl_founderId c' = cl_founderId c" "cl_tag c' = cl_tag c"
  shows "well_founded_clubs (C(i := Some c')) M"
  by (rule wfcI) (use wfcD[OF assms(1)] assms(2-5) in \<open>fastforce split: if_splits\<close>)+

lemma wfc_new:
  assumes "well_founded_clubs C M" "M u = None" "C i = None" "cl_id c = i" "cl_founderId c = u" "\<And>j a. C j = Some a \<Longrightarrow> cl_tag a \<noteq> cl_tag c"
    "mb_userId m = u" "mb_clubId m = i" "mb_role m = ClubFounder"
  shows "well_founded_clubs (C(i := Some c)) (M(u := Some m))" (is "well_founded_clubs ?C ?M")
proof (rule wfcI)
  note D = wfcD[OF assms(1)]
  have other: "mb_clubId n \<noteq> i" if "M w = Some n" for w n using D(2)[OF that] assms(3) by auto
  show "mb_userId n = w" if "?M w = Some n" for w n using that D(1)[of w n] assms(7) by (auto split: if_splits)
  show "?C (mb_clubId n) \<noteq> None" if "?M w = Some n" for w n using that D(2)[of w n] assms(8) by (auto split: if_splits)
  show "mb_role n = ClubFounder \<longleftrightarrow> cl_founderId d = w" if "?M w = Some n" "?C (mb_clubId n) = Some d" for w n d
  proof (cases "w = u")
    case True
    with that assms(5,8,9) show ?thesis by auto
  next
    case False
    with that(1) have n: "M w = Some n" by simp
    with that(2) other[OF n] D(3)[OF n, of d] show ?thesis by simp
  qed
  show "cl_id d = j" if "?C j = Some d" for j d using that D(4)[of j d] assms(4) by (auto split: if_splits)
  show "\<exists>n. ?M (cl_founderId d) = Some n \<and> mb_clubId n = j" if "?C j = Some d" for j d
  proof (cases "j = i")
    case True
    with that assms(5,8) show ?thesis by auto
  next
    case False
    with that obtain n where n: "M (cl_founderId d) = Some n" "mb_clubId n = j" using D(5)[of j d] by auto
    with assms(2) have "cl_founderId d \<noteq> u" by auto
    with n show ?thesis by simp
  qed
  show "j = k" if "?C j = Some a" "?C k = Some b" "cl_tag a = cl_tag b" for j k a b
    using that D(6)[of j a k b] assms(6)[of j a] assms(6)[of k b] by (auto split: if_splits)
qed

text \<open>Somebody who is not the founder leaves; or the founder, and a remaining member is the heir.\<close>

lemma wfc_leave:
  assumes "well_founded_clubs C M" "M u = Some m" "mb_role m \<noteq> ClubFounder"
  shows "well_founded_clubs C (M(u := None))" (is "well_founded_clubs C ?M")
proof (rule wfcI)
  note D = wfcD[OF assms(1)]
  have old: "M w = Some n" if "?M w = Some n" for w n using that by (auto split: if_splits)
  show "mb_userId n = w" if "?M w = Some n" for w n using D(1)[OF old[OF that]] .
  show "C (mb_clubId n) \<noteq> None" if "?M w = Some n" for w n using D(2)[OF old[OF that]] .
  show "mb_role n = ClubFounder \<longleftrightarrow> cl_founderId d = w" if "?M w = Some n" "C (mb_clubId n) = Some d" for w n d
    using D(3)[OF old[OF that(1)] that(2)] .
  show "cl_id d = i" if "C i = Some d" for i d using D(4)[OF that] .
  show "\<exists>n. ?M (cl_founderId d) = Some n \<and> mb_clubId n = i" if d: "C i = Some d" for i d
  proof -
    obtain n where n: "M (cl_founderId d) = Some n" "mb_clubId n = i" using D(5)[OF d] by blast
    then have "mb_role n = ClubFounder" using D(3)[OF n(1), of d] d by simp
    with n(1) assms(2,3) have "cl_founderId d \<noteq> u" by auto
    with n show ?thesis by simp
  qed
  show "i = j" if "C i = Some a" "C j = Some b" "cl_tag a = cl_tag b" for i j a b using D(6)[OF that] .
qed

lemma wfc_heir:
  assumes "well_founded_clubs C M" "M u = Some m" "mb_role m = ClubFounder" "C (mb_clubId m) = Some c"
    "M v = Some h" "mb_clubId h = mb_clubId m" "v \<noteq> u"
  shows "well_founded_clubs (C(mb_clubId m := Some (c\<lparr>cl_founderId := v\<rparr>))) (M(u := None, v := Some (h\<lparr>mb_role := ClubFounder\<rparr>)))"
    (is "well_founded_clubs ?C ?M")
proof (rule wfcI)
  note D = wfcD[OF assms(1)]
  have f: "cl_founderId c = u" using D(3)[OF assms(2,4)] assms(3) by simp
  show "mb_userId n = w" if "?M w = Some n" for w n
    using that D(1)[of w n] D(1)[OF assms(5)] by (auto split: if_splits)
  show "?C (mb_clubId n) \<noteq> None" if "?M w = Some n" for w n
    using that D(2)[of w n] assms(6) by (auto split: if_splits)
  show "mb_role n = ClubFounder \<longleftrightarrow> cl_founderId d = w" if "?M w = Some n" "?C (mb_clubId n) = Some d" for w n d
  proof (cases "w = v")
    case True
    with that assms(6) show ?thesis by auto
  next
    case False
    with that(1) have n: "M w = Some n" "w \<noteq> u" by (auto split: if_splits)
    show ?thesis
    proof (cases "mb_clubId n = mb_clubId m")
      case True
      with that(2) have "d = c\<lparr>cl_founderId := v\<rparr>" by simp
      with D(3)[OF n(1), of c] True assms(4) f n(2) False show ?thesis by auto
    next
      case False
      with that(2) D(3)[OF n(1), of d] show ?thesis by simp
    qed
  qed
  show "cl_id d = i" if "?C i = Some d" for i d
    using that D(4)[of i d] D(4)[OF assms(4)] by (auto split: if_splits)
  show "\<exists>n. ?M (cl_founderId d) = Some n \<and> mb_clubId n = i" if "?C i = Some d" for i d
  proof (cases "i = mb_clubId m")
    case True
    with that assms(6) show ?thesis by auto
  next
    case False
    with that have d: "C i = Some d" by simp
    obtain n where n: "M (cl_founderId d) = Some n" "mb_clubId n = i" using D(5)[OF d] by blast
    have "cl_founderId d \<noteq> u" "cl_founderId d \<noteq> v" using n False assms(2,5,6) by auto
    with n show ?thesis by simp
  qed
  show "i = j" if "?C i = Some a" "?C j = Some b" "cl_tag a = cl_tag b" for i j a b
    using that D(6)[of i a j b] D(6)[OF assms(4), of j b] D(6)[of i a, OF _ assms(4)] by (auto split: if_splits)
qed

definition founder_ok :: "clubs \<Rightarrow> bool" where
  "founder_ok s \<longleftrightarrow> distinct (map fst (cb_clubs s)) \<and> distinct (map fst (cb_members s)) \<and> (\<forall>i. getClub i s \<noteq> None \<longrightarrow> issued s i) \<and>
     well_founded_clubs (\<lambda>i. getClub i s) (\<lambda>u. memberOf u s)"

lemma map_of_keep: "distinct (map fst al) \<Longrightarrow>
    map_of (filter (\<lambda>p. Q (snd p)) al) k = (case map_of al k of None \<Rightarrow> None | Some v \<Rightarrow> if Q v then Some v else None)"
  by (induction al) (auto split: option.split simp: map_of_eq_None_iff image_iff) 

lemma member_updates [simp]:
  "memberOf v (s\<lparr>cb_members := AList.update u m (cb_members s)\<rparr>) = (if v = u then Some m else memberOf v s)"
  "getClub j (s\<lparr>cb_clubs := AList.update i c (cb_clubs s)\<rparr>) = (if j = i then Some c else getClub j s)"
  "memberOf v (removeMember u s) = (if v = u then None else memberOf v s)" "getClub i (removeMember u s) = getClub i s"
  by (simp_all add: memberOf_def getClub_def removeMember_def update_conv' delete_conv')

lemma filter_key_unique: "distinct (map fst al) \<Longrightarrow> map_of al k = Some v \<Longrightarrow> filter (\<lambda>p. fst p = k) al = [(k, v)]"
proof (induction al)
  case (Cons p al)
  show ?case
  proof (cases "fst p = k")
    case True
    then have "k \<notin> set (map fst al)" using Cons.prems(1) by simp
    then have "filter (\<lambda>p. fst p = k) al = []" by (induction al) auto
    with True Cons.prems(2) show ?thesis by auto
  next
    case False
    with Cons show ?thesis by (cases p) auto
  qed
qed simp

lemma deleted_club:
  assumes "distinct (map fst (cb_members s))"
  shows "memberOf u (deleteClub i s) = (case memberOf u s of None \<Rightarrow> None | Some m \<Rightarrow> if mb_clubId m = i then None else Some m)"
    "getClub j (deleteClub i s) = (if j = i then None else getClub j s)"
  using map_of_keep[OF assms, of "\<lambda>m. mb_clubId m \<noteq> i" u]
  by (auto simp: memberOf_def getClub_def deleteClub_def delete_conv' split: option.splits)

lemma roster_members:
  assumes "distinct (map fst (cb_members s))"
  shows "m \<in> set (listMembers i s) \<longleftrightarrow> (\<exists>u. memberOf u s = Some m) \<and> mb_clubId m = i"
  using assms by (force simp: listMembers_def club_roster_def memberOf_def)

lemma whole_steps:
  "ch_tasks s = [] \<Longrightarrow> run_club_task 0 code now s = s"
  "ch_tasks s = [k] \<Longrightarrow> run_club_task 0 code now s = perform k code now (s\<lparr>ch_tasks := []\<rparr>)"
  by (cases k; simp add: run_club_task_def remove_nth_def)+

lemma run_first_funpow [simp]: "run_first n code now s = (run_club_task 0 code now ^^ n) s"
  by (induction n arbitrary: s) (simp_all add: funpow_swap1)

lemma funpow_idle: "ch_tasks s = [] \<Longrightarrow> ((run_club_task 0 code now) ^^ n) s = s"
  by (induction n) (simp_all add: whole_steps(1))

lemma issued_frames [simp]:
  "issued (s\<lparr>cb_clubs := cs\<rparr>) i = issued s i" "issued (s\<lparr>cb_members := ms\<rparr>) i = issued s i"
  "issued (removeMember u s) i = issued s i" "issued (deleteClub j s) i = issued s i"
  by (simp_all add: issued_def removeMember_def deleteClub_def)

lemma keys_distinct [simp]:
  "distinct (map fst (cb_clubs (removeMember u s))) = distinct (map fst (cb_clubs s))"
  "distinct (map fst (cb_members s)) \<Longrightarrow> distinct (map fst (cb_members (removeMember u s)))"
  "distinct (map fst (cb_members s)) \<Longrightarrow> distinct (map fst (cb_members (deleteClub i s)))"
  "distinct (map fst (cb_clubs s)) \<Longrightarrow> distinct (map fst (cb_clubs (deleteClub i s)))"
  by (simp_all add: removeMember_def deleteClub_def distinct_delete distinct_map_filter)


lemma founder_delete: "founder_ok s \<Longrightarrow> founder_ok (deleteClub i s)"
proof -
  assume s: "founder_ok s"
  then have d: "distinct (map fst (cb_members s))" by (simp add: founder_ok_def)
  have e: "(\<lambda>j. getClub j (deleteClub i s)) = (\<lambda>j. getClub j s)(i := None)" by (auto simp: deleted_club[OF d])
  show ?thesis using s wfc_drop[of "\<lambda>j. getClub j s" "\<lambda>u. memberOf u s" i]
    unfolding founder_ok_def e by (auto simp: deleted_club[OF d])
qed

lemma founder_add: "founder_ok s \<Longrightarrow> getClub i s \<noteq> None \<Longrightarrow> founder_ok (snd (addMember u i ClubMember now s))"
proof (cases "memberOf u s")
  case None
  assume s: "founder_ok s" "getClub i s \<noteq> None"
  let ?m = "\<lparr>mb_userId = u, mb_clubId = i, mb_role = ClubMember, mb_joinedAt = now\<rparr>"
  have e: "(\<lambda>v. memberOf v (s\<lparr>cb_members := AList.update u ?m (cb_members s)\<rparr>)) = (\<lambda>v. memberOf v s)(u := Some ?m)" by auto
  show ?thesis using s None wfc_join[of "\<lambda>i. getClub i s" "\<lambda>u. memberOf u s" u i ?m]
    unfolding founder_ok_def addMember_def by (simp add: e distinct_update del: member_updates(1))
qed (simp add: addMember_def)

lemma founder_privacy: "founder_ok s \<Longrightarrow> founder_ok (setPrivacy i priv code s)"
proof (cases "getClub i s")
  case (Some c)
  assume s: "founder_ok s"
  let ?c = "c\<lparr>cl_private := priv, cl_joinCode := (if priv \<and> (cl_joinCode c = None \<or> cl_joinCode c = Some []) then Some code else cl_joinCode c)\<rparr>"
  have e: "(\<lambda>j. getClub j (s\<lparr>cb_clubs := AList.update i ?c (cb_clubs s)\<rparr>)) = (\<lambda>j. getClub j s)(i := Some ?c)" by auto
  have w: "well_founded_clubs ((\<lambda>j. getClub j s)(i := Some ?c)) (\<lambda>u. memberOf u s)"
    by (rule wfc_club[where c = c]) (use s Some in \<open>simp_all add: founder_ok_def\<close>)
  have p: "setPrivacy i priv code s = s\<lparr>cb_clubs := AList.update i ?c (cb_clubs s)\<rparr>" by (simp add: setPrivacy_def Some)
  show ?thesis using s Some w unfolding founder_ok_def p e by (simp add: distinct_update)
qed (simp add: setPrivacy_def)

lemma founder_create:
  assumes "founder_ok s" "memberOf u s = None"
  shows "founder_ok (snd (createClub name tag u priv code now s))"
proof (cases "list_ex (\<lambda>c. cl_tag c = upper tag) (map snd (cb_clubs s))")
  case True
  with assms(1) show ?thesis by (simp add: createClub_def)
next
  case False
  let ?n = "Suc (cb_seq s)"
  let ?c = "\<lparr>cl_id = club_id ?n, cl_name = name, cl_tag = upper tag, cl_founderId = u, cl_createdAt = now, cl_private = priv,
                 cl_joinCode = (if priv then Some code else None)\<rparr>"
  let ?m = "\<lparr>mb_userId = u, mb_clubId = club_id ?n, mb_role = ClubFounder, mb_joinedAt = now\<rparr>"
  let ?s = "s\<lparr>cb_seq := ?n, cb_clubs := AList.update (club_id ?n) ?c (cb_clubs s), cb_members := AList.update u ?m (cb_members s)\<rparr>"
  have run: "snd (createClub name tag u priv code now s) = ?s" using False by (simp add: createClub_def Let_def)
  have tag: "cl_tag c \<noteq> upper tag" if "getClub i s = Some c" for i c
    using False that by (force simp: list_ex_iff getClub_def dest: map_of_SomeD)
  have new: "getClub (club_id ?n) s = None"
    using assms(1) not_issued_next[of s] by (auto simp: founder_ok_def)
  have C: "(\<lambda>i. getClub i ?s) = (\<lambda>i. getClub i s)(club_id ?n := Some ?c)" by (auto simp: getClub_def update_conv')
  have M: "(\<lambda>v. memberOf v ?s) = (\<lambda>v. memberOf v s)(u := Some ?m)" by (auto simp: memberOf_def update_conv')
  have "issued ?s i" if "getClub i ?s \<noteq> None" for i
  proof (cases "i = club_id ?n")
    case True
    then show ?thesis unfolding issued_def by auto
  next
    case False
    with that have "getClub i s \<noteq> None" using fun_cong[OF C, of i] by simp
    with assms(1) have "issued s i" by (simp add: founder_ok_def)
    then show ?thesis by (rule issued_mono) simp
  qed
  moreover have "well_founded_clubs (\<lambda>i. getClub i ?s) (\<lambda>v. memberOf v ?s)"
    unfolding C M by (rule wfc_new) (use assms new tag in \<open>simp_all add: founder_ok_def\<close>)
  moreover have "distinct (map fst (cb_clubs ?s))" "distinct (map fst (cb_members ?s))"
    using assms(1) by (simp_all add: founder_ok_def distinct_update)
  ultimately show ?thesis unfolding run founder_ok_def by blast
qed

lemma founder_leave:
  assumes "founder_ok s" "memberOf u s = Some m"
  shows "listMembers (mb_clubId m) (removeMember u s) = [] \<Longrightarrow> founder_ok (deleteClub (mb_clubId m) (removeMember u s))"
    and "mb_role m \<noteq> ClubFounder \<Longrightarrow> founder_ok (removeMember u s)"
    and "listMembers (mb_clubId m) (removeMember u s) = h # hs \<Longrightarrow> mb_role m = ClubFounder \<Longrightarrow>
      founder_ok (setFounder (mb_clubId m) (mb_userId h) (setClubRole (mb_userId h) ClubFounder (removeMember u s)))"
proof -
  let ?C = "\<lambda>i. getClub i s" and ?M = "\<lambda>u. memberOf u s" and ?r = "removeMember u s" and ?i = "mb_clubId m"
  have s: "distinct (map fst (cb_clubs s))" "distinct (map fst (cb_members s))" "\<And>i. getClub i s \<noteq> None \<Longrightarrow> issued s i"
    "well_founded_clubs ?C ?M" using assms(1) by (simp_all add: founder_ok_def)
  note D = wfcD[OF s(4)]
  obtain c where c: "getClub ?i s = Some c" using D(2)[OF assms(2)] by auto
  have dr: "distinct (map fst (cb_members ?r))" using s(2) by simp
  have M: "(\<lambda>v. memberOf v ?r) = ?M(u := None)" by auto
  show "listMembers ?i ?r = [] \<Longrightarrow> founder_ok (deleteClub ?i ?r)"
  proof -
    have e: "(\<lambda>j. getClub j (deleteClub ?i ?r)) = ?C(?i := None)" by (auto simp: deleted_club[OF dr])
    have f: "(\<lambda>v. memberOf v (deleteClub ?i ?r)) = (\<lambda>v. case ?M v of None \<Rightarrow> None | Some m' \<Rightarrow> if mb_clubId m' = ?i then None else Some m')"
      using assms(2) by (auto simp: deleted_club[OF dr])
    show ?thesis unfolding founder_ok_def e f using s wfc_drop[OF s(4), of ?i] by (auto simp: deleted_club[OF dr])
  qed
  show "mb_role m \<noteq> ClubFounder \<Longrightarrow> founder_ok ?r"
    unfolding founder_ok_def M using s wfc_leave[OF s(4) assms(2)] by simp
  assume l: "listMembers ?i ?r = h # hs" and role: "mb_role m = ClubFounder"
  let ?v = "mb_userId h" and ?h = "h\<lparr>mb_role := ClubFounder\<rparr>"
  have "h \<in> set (listMembers ?i ?r)" using l by simp
  then obtain w where w: "memberOf w ?r = Some h" "mb_clubId h = ?i" unfolding roster_members[OF dr] by blast
  then have v: "?M w = Some h" "w \<noteq> u" by (auto split: if_splits)
  then have "?v = w" using D(1) by blast
  with v w have h: "?M ?v = Some h" "?v \<noteq> u" "memberOf ?v ?r = Some h" by simp_all
  let ?s = "setFounder ?i ?v (setClubRole ?v ClubFounder ?r)"
  have q: "?s = ?r\<lparr>cb_members := AList.update ?v ?h (cb_members ?r), cb_clubs := AList.update ?i (c\<lparr>cl_founderId := ?v\<rparr>) (cb_clubs s)\<rparr>"
    using h(3) c by (simp add: setFounder_def setClubRole_def removeMember_def getClub_def memberOf_def)
  have e: "(\<lambda>j. getClub j ?s) = ?C(?i := Some (c\<lparr>cl_founderId := ?v\<rparr>))" unfolding q by (auto simp: getClub_def update_conv')
  have f: "(\<lambda>x. memberOf x ?s) = ?M(u := None, ?v := Some ?h)"
    unfolding q by (auto simp: memberOf_def update_conv' removeMember_def delete_conv')
  have "issued ?s j" if "getClub j ?s \<noteq> None" for j
  proof -
    have "getClub j s \<noteq> None" using fun_cong[OF e, of j] that c by (auto split: if_splits)
    with s(3) show ?thesis unfolding q by simp
  qed
  moreover have "well_founded_clubs (\<lambda>j. getClub j ?s) (\<lambda>x. memberOf x ?s)"
    unfolding e f by (rule wfc_heir[OF s(4) assms(2) role c h(1) w(2) h(2)])
  moreover have "distinct (map fst (cb_clubs ?s))" "distinct (map fst (cb_members ?s))"
    unfolding q using s(1) dr by (simp_all add: distinct_update)
  ultimately show "founder_ok ?s" unfolding founder_ok_def by blast
qed

definition at_rest :: "club_house \<Rightarrow> bool" where
  "at_rest s \<longleftrightarrow> founder_ok (store_of s) \<and> ch_tasks s = []"

lemma run_next:
  "ch_tasks s = [k] \<Longrightarrow> (run_club_task 0 code now ^^ Suc n) s = (run_club_task 0 code now ^^ n) (perform k code now (s\<lparr>ch_tasks := []\<rparr>))"
  by (simp add: funpow_swap1 whole_steps(2))

lemma rest_done: "ch_tasks s = [] \<Longrightarrow> founder_ok (store_of s) \<Longrightarrow> at_rest ((run_club_task 0 code now ^^ n) s)"
  by (simp add: funpow_idle at_rest_def)

lemma join_rest:
  assumes "at_rest s" "getClub i (store_of s) \<noteq> None"
  shows "at_rest ((run_club_task 0 code now ^^ Suc (Suc n)) (todo (JoinCount u i) s))"
proof -
  have t: "ch_tasks (todo (JoinCount u i) s) = [JoinCount u i]" "founder_ok (store_of s)" "ch_tasks s = []"
    using assms(1) by (simp_all add: at_rest_def)
  have a: "ch_tasks (todo (JoinAdd u i) (s\<lparr>ch_tasks := []\<rparr>)) = [JoinAdd u i]" by simp
  have "perform (JoinCount u i) code now ((todo (JoinCount u i) s)\<lparr>ch_tasks := []\<rparr>) =
      (if countMembers i (store_of s) \<ge> MAX_CLUB_MEMBERS then s\<lparr>ch_tasks := []\<rparr> else todo (JoinAdd u i) (s\<lparr>ch_tasks := []\<rparr>))"
    by (simp add: perform_def todo_def clubs.defs)
  then show ?thesis
    unfolding run_next[OF t(1)]
    by (simp only: split: if_split) (simp add: t rest_done founder_add[OF t(2) assms(2)] run_next[OF a] perform_def del: funpow.simps)
qed

lemma todo_rest [simp]: "at_rest s \<Longrightarrow> (todo k s)\<lparr>ch_tasks := []\<rparr> = s" "at_rest s \<Longrightarrow> s\<lparr>ch_tasks := []\<rparr> = s"
  by (simp_all add: at_rest_def todo_def)

lemma run_todo:
  assumes "at_rest s"
  shows "(run_club_task 0 code now ^^ Suc n) (todo k s) = (run_club_task 0 code now ^^ n) (perform k code now s)"
proof -
  have "ch_tasks (todo k s) = [k]" using assms by (simp add: at_rest_def)
  from run_next[OF this] show ?thesis using assms by simp
qed

lemma one_call:
  assumes "at_rest s" "perform k code now s = in_store f s" "founder_ok (f (store_of s))"
  shows "at_rest ((run_club_task 0 code now ^^ Suc n) (todo k s))"
  unfolding run_todo[OF assms(1)] assms(2) by (rule rest_done) (use assms(1,3) in \<open>simp_all add: at_rest_def\<close>)

lemma idle_rest: "at_rest s \<Longrightarrow> at_rest ((run_club_task 0 code now ^^ n) s)"
  by (simp add: at_rest_def rest_done[unfolded at_rest_def] funpow_idle)

lemma leave_rest:
  assumes r: "at_rest s" and m: "memberOf u (store_of s) = Some m"
  shows "at_rest ((run_club_task 0 code now ^^ 5) (todo (LeaveRemove u (mb_clubId m) (mb_role m = ClubFounder)) s))"
proof -
  let ?run = "run_club_task 0 code now" and ?i = "mb_clubId m" and ?f = "mb_role m = ClubFounder"
  let ?s1 = "in_store (removeMember u) s"
  have ok: "founder_ok (store_of s)" and t: "ch_tasks ?s1 = []" and t' [simp]: "ch_tasks s = []" using r by (simp_all add: at_rest_def)
  note L = founder_leave[OF ok m]
  have one: "(?run ^^ 5) (todo (LeaveRemove u ?i ?f) s) = (?run ^^ 4) (todo (LeaveList ?i ?f) ?s1)"
    using run_todo[OF r, where code=code and now=now and n=4] by (simp add: perform_def numeral_eq_Suc)
  have next1: "(?run ^^ Suc n) (todo k x) = (?run ^^ n) (perform k code now x)" if "ch_tasks x = []" for n k x
  proof -
    have "(todo k x)\<lparr>ch_tasks := []\<rparr> = x" "ch_tasks (todo k x) = [k]" using that by (simp_all add: todo_def)
    then show ?thesis using run_next[where s="todo k x" and k=k and code=code and now=now and n=n] by simp
  qed
  have two: "(?run ^^ 4) (todo (LeaveList ?i ?f) ?s1) = (?run ^^ 3) (perform (LeaveList ?i ?f) code now ?s1)"
    using next1[OF t, where n=3] by (simp add: numeral_eq_Suc)
  show ?thesis
  proof (cases "listMembers ?i (removeMember u (store_of s))")
    case Nil
    then have "perform (LeaveList ?i ?f) code now ?s1 = todo (LeaveDelete ?i) ?s1" by (simp add: perform_def)
    moreover have "(?run ^^ 3) (todo (LeaveDelete ?i) ?s1) = (?run ^^ 2) (in_store (deleteClub ?i) ?s1)"
      using next1[OF t, where n=2] by (simp add: perform_def numeral_eq_Suc)
    moreover have "at_rest ((?run ^^ 2) (in_store (deleteClub ?i) ?s1))" by (rule rest_done) (simp_all add: t L(1)[OF Nil] del: funpow.simps)
    ultimately show ?thesis unfolding one two by simp
  next
    case (Cons h hs)
    show ?thesis
    proof (cases "mb_role m = ClubFounder")
      case False
      then have "perform (LeaveList ?i ?f) code now ?s1 = ?s1" using Cons by (simp add: perform_def)
      moreover have "at_rest ((?run ^^ 3) ?s1)" by (rule rest_done) (simp_all add: t L(2)[OF False])
      ultimately show ?thesis unfolding one two by simp
    next
      case True
      let ?v = "mb_userId h"
      let ?s2 = "in_store (setClubRole ?v ClubFounder) ?s1"
      have "perform (LeaveList ?i ?f) code now ?s1 = todo (LeaveRole ?i ?v) ?s1" using Cons True by (simp add: perform_def)
      moreover have "(?run ^^ 3) (todo (LeaveRole ?i ?v) ?s1) = (?run ^^ 2) (todo (LeaveFounder ?i ?v) ?s2)"
        using next1[OF t, where n=2] by (simp add: perform_def numeral_eq_Suc)
      moreover have "(?run ^^ 2) (todo (LeaveFounder ?i ?v) ?s2) = (?run ^^ 1) (in_store (setFounder ?i ?v) ?s2)"
        using next1[where x="?s2" and n=1] t by (simp add: perform_def numeral_eq_Suc)
      moreover have "at_rest ((?run ^^ 1) (in_store (setFounder ?i ?v) ?s2))"
        by (rule rest_done) (simp_all add: t L(3)[OF Cons True])
      ultimately show ?thesis unfolding one two by simp
    qed
  qed
qed

lemma whole_rest:
  assumes "at_rest s"
  shows "at_rest (whole_request uni op code now s)"
proof -
  let ?run = "run_club_task 0 code now"
  have ok: "founder_ok (store_of s)" using assms by (simp add: at_rest_def)
  have e: "(?run ^^ 5) (todo k s) = (?run ^^ 4) (perform k code now s)" for k
    using run_todo[OF assms, where code=code and now=now and n=4] by (simp add: numeral_eq_Suc)
  have miss: "at_rest ((?run ^^ 5) (todo k s))" if "perform k code now s = s" for k
    unfolding e that by (rule idle_rest[OF assms])
  have hit: "at_rest ((?run ^^ 5) (todo k s))"
    if "perform k code now s = todo (JoinCount u i) s" "getClub i (store_of s) \<noteq> None" for k u i
    unfolding e that(1) using join_rest[OF assms that(2), where code=code and now=now and n=2 and u=u] by (simp add: numeral_eq_Suc)
  have once: "at_rest ((?run ^^ 5) (todo k s))" if "perform k code now s = in_store f s" "founder_ok (f (store_of s))" for k f
    using one_call[OF assms that, where n=4] by (simp add: numeral_eq_Suc)
  note idle = idle_rest[OF assms, where code=code and now=now and n=5]
  have coded: "getClub (cl_id c) (store_of s) \<noteq> None" if "getByCode cd (store_of s) = Some c" for cd c
  proof -
    have "c \<in> set (map snd (cb_clubs (store_of s)))"
      using that unfolding getByCode_def Let_def by (auto split: if_splits dest: find_in_set)
    then obtain i where "(i, c) \<in> set (cb_clubs (store_of s))" by auto
    then have "getClub i (store_of s) = Some c" using ok by (simp add: getClub_def founder_ok_def)
    then show ?thesis using ok wfcD(4)[of "\<lambda>i. getClub i (store_of s)" "\<lambda>u. memberOf u (store_of s)" i c] by (auto simp: founder_ok_def)
  qed
  show ?thesis
  proof (cases op)
    case (OpCreate u name tag priv)
    then show ?thesis using idle once[of "CreateStore u (js_trim name) (upper tag) priv"] founder_create[OF ok]
      by (auto simp: whole_request_def request_def perform_def)
  next
    case (OpJoin u i)
    have "at_rest ((?run ^^ 5) (todo (JoinFind u i) s))"
    proof (cases "getClub i (store_of s)")
      case None
      then show ?thesis by (intro miss) (simp add: perform_def)
    next
      case (Some c)
      then show ?thesis by (cases "cl_private c") (auto intro: miss hit[of _ u i] simp: perform_def simp del: funpow.simps)
    qed
    with OpJoin idle show ?thesis by (simp add: whole_request_def request_def)
  next
    case (OpJoinByCode u cd)
    have "at_rest ((?run ^^ 5) (todo (JoinCode u cd) s))"
    proof (cases "getByCode cd (store_of s)")
      case None
      then show ?thesis by (intro miss) (simp add: perform_def)
    next
      case (Some c)
      then show ?thesis by (intro hit[OF _ coded[OF Some], of _ u]) (simp add: perform_def)
    qed
    with OpJoinByCode idle show ?thesis by (simp add: whole_request_def request_def)
  next
    case (OpSetPrivacy u priv)
    then show ?thesis using idle once[of "PrivacyStore i priv" "setPrivacy i priv code" for i] founder_privacy[OF ok]
      by (auto simp: whole_request_def request_def perform_def split: option.split)
  next
    case (OpLeave u)
    then show ?thesis using idle leave_rest[OF assms, of u]
      by (auto simp: whole_request_def request_def split: option.split)
  next
    case (OpClose i)
    then show ?thesis using idle once[of "CloseStore i" "deleteClub i"] founder_delete[OF ok]
      by (auto simp: whole_request_def request_def perform_def)
  qed
qed

fun serve :: "(char \<Rightarrow> bool) \<Rightarrow> club_house \<Rightarrow> club_op \<times> string \<times> int \<Rightarrow> club_house" where
  "serve uni s (op, code, now) = whole_request uni op code now s"

definition requests_run :: "(char \<Rightarrow> bool) \<Rightarrow> (club_op \<times> string \<times> int) list \<Rightarrow> club_house" where
  "requests_run uni reqs = foldl (serve uni) new_club_house reqs"

lemma requests_rest: "at_rest (requests_run uni reqs)"
proof -
  have "at_rest (foldl (serve uni) s reqs)" if "at_rest s" for s
    using that by (induction reqs arbitrary: s) (auto simp: whole_rest)
  moreover have "at_rest new_club_house"
    by (simp add: at_rest_def new_club_house_def founder_ok_def clubs.defs well_founded_clubs_def getClub_def memberOf_def)
  ultimately show ?thesis by (simp add: requests_run_def)
qed

text \<open>C38: every club has exactly one founder. After any requests that run one after the other, a
  member belongs to a club that exists, the founder of a club is one of its members, and among its
  members exactly the founder has the founder's role; a club that the last member left is gone.\<close>

theorem one_founder:
  assumes "getClub i (store_of (requests_run uni reqs)) = Some c"
  shows "cl_id c = i \<and> (\<exists>m. memberOf (cl_founderId c) (store_of (requests_run uni reqs)) = Some m \<and> mb_clubId m = i) \<and>
    map mb_userId (filter (\<lambda>m. mb_role m = ClubFounder) (listMembers i (store_of (requests_run uni reqs)))) = [cl_founderId c] \<and>
    (\<forall>m\<in>set (listMembers i (store_of (requests_run uni reqs))). memberOf (mb_userId m) (store_of (requests_run uni reqs)) = Some m)"
proof -
  define s where "s = store_of (requests_run uni reqs)"
  have ok: "founder_ok s" using requests_rest[of uni reqs] by (simp add: at_rest_def s_def)
  then have d: "distinct (map fst (cb_members s))" by (simp add: founder_ok_def)
  note W = wfcD[of "\<lambda>i. getClub i s" "\<lambda>u. memberOf u s"]
  have wf: "well_founded_clubs (\<lambda>i. getClub i s) (\<lambda>u. memberOf u s)" using ok by (simp add: founder_ok_def)
  have c: "getClub i s = Some c" using assms by (simp add: s_def)
  obtain m where m: "memberOf (cl_founderId c) s = Some m" "mb_clubId m = i" using W(5)[OF wf c] by blast
  have role: "mb_role m = ClubFounder" using W(3)[OF wf m(1), of c] m(2) c by simp
  have only: "mb_clubId (snd p) = i \<and> mb_role (snd p) = ClubFounder \<longleftrightarrow> fst p = cl_founderId c" if p: "p \<in> set (cb_members s)" for p
  proof -
    have e: "memberOf (fst p) s = Some (snd p)" using p d by (simp add: memberOf_def)
    show ?thesis using W(3)[OF wf e, of c] c m role e by auto
  qed
  have "filter (\<lambda>m. mb_role m = ClubFounder) (listMembers i s) = filter (\<lambda>m. mb_clubId m = i \<and> mb_role m = ClubFounder) (map snd (cb_members s))"
    by (simp add: listMembers_def club_roster_def filter_sort[symmetric])
  also have "\<dots> = map snd (filter (\<lambda>p. fst p = cl_founderId c) (cb_members s))"
    using only by (simp add: filter_map comp_def cong: filter_cong)
  also have "\<dots> = [m]" using m(1) d unfolding memberOf_def by (simp add: filter_key_unique)
  finally have "map mb_userId (filter (\<lambda>m. mb_role m = ClubFounder) (listMembers i s)) = [cl_founderId c]"
    using W(1)[OF wf m(1)] by simp
  moreover have "memberOf (mb_userId n) s = Some n" if "n \<in> set (listMembers i s)" for n
    using that W(1)[OF wf] unfolding roster_members[OF d] by metis
  ultimately show ?thesis using W(4)[OF wf c] m unfolding s_def by blast
qed

theorem one_founder_witness:
  "\<exists>c. getClub ''club_1'' (store_of (requests_run is_alnum
       [(OpCreate ''u1'' ''Club'' ''abc'' False, [], 1), (OpJoin ''u2'' ''club_1'', [], 2), (OpLeave ''u1'', [], 3)])) = Some c \<and>
     cl_founderId c = ''u2'' \<and> cl_id c = ''club_1''"
proof -
  let ?s = "requests_run is_alnum
       [(OpCreate ''u1'' ''Club'' ''abc'' False, [], 1), (OpJoin ''u2'' ''club_1'', [], 2), (OpLeave ''u1'', [], 3)]"
  have "map_option cl_founderId (getClub ''club_1'' (store_of ?s)) = Some ''u2''" by code_simp
  then obtain c where c: "getClub ''club_1'' (store_of ?s) = Some c" "cl_founderId c = ''u2''" by auto
  then show ?thesis using one_founder[OF c(1)] by blast
qed

subsection \<open>Departures that interleave\<close>

definition demo_uni :: "char \<Rightarrow> bool" where
  "demo_uni c = is_alnum c"

definition three_members :: "club_event list" where
  "three_members = [Request (OpCreate ''u1'' ''Club'' ''abc'' False), Step 0 [] 1] @
     concat (map (\<lambda>u. [Request (OpJoin u ''club_1''), Step 0 [] 2, Step 0 [] 2, Step 0 [] 3]) [''u2'', ''u3''])"

definition both_leave :: "club_event list" where
  "both_leave = [Request (OpLeave ''u1''), Request (OpLeave ''u2''), Step 0 [] 4, Step 1 [] 4, Step 0 [] 4, Step 0 [] 4, Step 0 [] 4, Step 0 [] 4]"

text \<open>Two departures that interleave leave a club without a founder. The founder and the heir
  leave at the same time: the heir is chosen, leaves, and is then made the founder. All requests are
  done; the club has a member, but none with the founder's role, and its founder is not a member.\<close>

theorem founderless_club:
  "let s = foldl (club_step demo_uni) new_club_house (three_members @ both_leave) in
     ch_tasks s = [] \<and> map_option cl_founderId (getClub ''club_1'' (store_of s)) = Some ''u2'' \<and>
     map (\<lambda>m. (mb_userId m, mb_role m)) (listMembers ''club_1'' (store_of s)) = [(''u3'', ClubMember)]"
  by code_simp

end
