(* ===== verification/Calendar.thy ===== *)
theory Calendar
  imports Murlan_Prelude
begin

text \<open>
  Days and weeks in Universal Time, as the rewards use them (\<^verbatim>\<open>utcDayKey\<close> and \<^verbatim>\<open>isoWeekKey\<close> of
  \<^verbatim>\<open>packages/server/src/rewards/quests.ts\<close>, \<^verbatim>\<open>dayIndex\<close> of \<^verbatim>\<open>rewardsService.ts\<close>).

  The part of JavaScript's \<^verbatim>\<open>Date\<close> that the code uses is modelled by the definitions of the language:
  a time is a number of milliseconds, a day the quotient by the length of a day, and the year of a day
  the one whose first day (\<open>day_from_year\<close>) is the last not after it. Years are those after 99, where
  \<^verbatim>\<open>Date.UTC\<close> takes a year as it is.
\<close>

subsection \<open>Years\<close>

definition dayIndex :: "int \<Rightarrow> int" where
  "dayIndex ms = ms div 86400000"

definition day_from_year :: "int \<Rightarrow> int" where
  "day_from_year y = 365 * (y - 1970) + (y - 1969) div 4 - (y - 1901) div 100 + (y - 1601) div 400"

lemma day_from_year_step: "day_from_year y + 364 \<le> day_from_year (y + 1)"
proof -
  have e: "day_from_year (y + 1) = 365 * (y - 1970) + 365 + (y - 1968) div 4 - (y - 1900) div 100 + (y - 1600) div 400"
    by (simp add: day_from_year_def)
  have a: "(y - 1969) div 4 \<le> (y - 1968) div 4" by (rule zdiv_mono1) simp_all
  have b: "(y - 1601) div 400 \<le> (y - 1600) div 400" by (rule zdiv_mono1) simp_all
  have "(y - 1900) div 100 \<le> (y - 1901 + 100) div 100" by (rule zdiv_mono1) simp_all
  then have c: "(y - 1900) div 100 \<le> (y - 1901) div 100 + 1" by simp
  show ?thesis unfolding e unfolding day_from_year_def using a b c by (simp only: algebra_simps)
qed

function year_from :: "int \<Rightarrow> int \<Rightarrow> int" where
  "year_from d y = (if day_from_year (y + 1) \<le> d then year_from d (y + 1) else y)"
  by auto
termination
proof (relation "measure (\<lambda>(d, y). nat (d - day_from_year y))", goal_cases)
  case (2 d y)
  then show ?case using day_from_year_step[of y] by simp
qed simp

declare year_from.simps [simp del]

text \<open>The search starts at a year that has begun: no year is longer than 366 days, or shorter than 365.\<close>

definition year_of_day :: "int \<Rightarrow> int" where
  "year_of_day d = year_from d (1970 + d div (if 0 \<le> d then 366 else 365))"

lemma year_from_bounds:
  "day_from_year y \<le> d \<Longrightarrow> day_from_year (year_from d y) \<le> d \<and> d < day_from_year (year_from d y + 1)"
  by (induction d y rule: year_from.induct) (subst (1 2) year_from.simps, auto)

lemma start_year:
  fixes d :: int
  defines "k \<equiv> d div (if 0 \<le> d then 366 else 365)"
  shows "day_from_year (1970 + k) \<le> d"
proof -
  have e: "day_from_year (1970 + k) = 365 * k + (k + 1) div 4 - (k + 69) div 100 + (k + 369) div 400"
    by (simp add: day_from_year_def algebra_simps)
  show ?thesis
  proof (cases "0 \<le> d")
    case True
    then have "366 * k \<le> d" "0 \<le> k" by (simp_all add: k_def pos_imp_zdiv_nonneg_iff)
    moreover have "(k + 1) div 4 - (k + 69) div 100 + (k + 369) div 400 \<le> k" if "2 \<le> k" using that by linarith
    moreover have "k = 0 \<or> k = 1 \<or> 2 \<le> k" using \<open>0 \<le> k\<close> by auto
    ultimately show ?thesis unfolding e by auto
  next
    case False
    then have k: "365 * k \<le> d" "k < 0" by (simp_all add: k_def div_neg_pos_less0)
    have far: "(k + 1) div 4 - (k + 69) div 100 + (k + 369) div 400 \<le> 0" if "k \<le> - 7" using that by linarith
    have near: "k = - 1 \<or> k = - 2 \<or> k = - 3 \<or> k = - 4 \<or> k = - 5 \<or> k = - 6 \<or> k \<le> - 7" using k(2) by arith
    then have "(k + 1) div 4 - (k + 69) div 100 + (k + 369) div 400 \<le> 0" using far by auto
    with k show ?thesis unfolding e by linarith
  qed
qed

lemma year_of_day: "day_from_year (year_of_day d) \<le> d" "d < day_from_year (year_of_day d + 1)"
  using year_from_bounds[OF start_year[of d]] by (simp_all add: year_of_day_def)

subsection \<open>Printed keys\<close>

definition int_str :: "int \<Rightarrow> string" where
  "int_str y = (if y < 0 then CHR ''-'' # nat_str (nat (- y)) else nat_str (nat y))"

definition padStart0 :: "nat \<Rightarrow> string \<Rightarrow> string" where
  "padStart0 n s = replicate (n - length s) CHR ''0'' @ s"

definition leap_day :: "int \<Rightarrow> int" where
  "leap_day y = (if day_from_year (y + 1) - day_from_year y = 366 then 1 else 0)"

definition month_starts :: "int \<Rightarrow> int list" where
  "month_starts l = [0, 31, 59 + l, 90 + l, 120 + l, 151 + l, 181 + l, 212 + l, 243 + l, 273 + l, 304 + l, 334 + l]"

text \<open>Month (from 1) and day of the month.\<close>

definition month_and_date :: "int \<Rightarrow> nat \<times> nat" where
  "month_and_date d =
     (let y = year_of_day d; n = d - day_from_year y; starts = month_starts (leap_day y);
          m = length (takeWhile (\<lambda>s. s \<le> n) starts)
      in (m, nat (n - starts ! (m - 1) + 1)))"

definition iso_year :: "int \<Rightarrow> string" where
  "iso_year y =
     (if 0 \<le> y \<and> y \<le> 9999 then padStart0 4 (nat_str (nat y))
      else (if y < 0 then CHR ''-'' else CHR ''+'') # padStart0 6 (nat_str (nat \<bar>y\<bar>)))"

definition utcDayKey :: "int \<Rightarrow> string" where
  "utcDayKey now =
     (let d = dayIndex now; (m, t) = month_and_date d
      in take 10 (iso_year (year_of_day d) @ ''-'' @ padStart0 2 (nat_str m) @ ''-'' @ padStart0 2 (nat_str t)))"

text \<open>Monday is day 1 of the week and Sunday day 7.\<close>

definition iso_day :: "int \<Rightarrow> int" where
  "iso_day d = (let w = (d + 4) mod 7 in if w = 0 then 7 else w)"

definition isoWeekKey :: "int \<Rightarrow> string" where
  "isoWeekKey now =
     (let d = dayIndex now;
          thursday = d + 4 - iso_day d;
          weekYear = year_of_day thursday;
          week = (thursday - day_from_year weekYear + 1 + 6) div 7
      in int_str weekYear @ ''-W'' @ padStart0 2 (nat_str (nat week)))"

subsection \<open>A day has one year\<close>

lemma day_from_year_mono: "y \<le> z \<Longrightarrow> day_from_year y \<le> day_from_year z"
proof (induction z rule: int_ge_induct)
  case (step i)
  then show ?case using day_from_year_step[of i] by simp
qed simp

lemma year_of_day_unique:
  assumes "day_from_year y \<le> d" "d < day_from_year (y + 1)"
  shows "year_of_day d = y"
proof (rule ccontr)
  assume "year_of_day d \<noteq> y"
  then consider "year_of_day d + 1 \<le> y" | "y + 1 \<le> year_of_day d" by linarith
  then show False
  proof cases
    case 1
    then show False using day_from_year_mono[OF 1] year_of_day(2)[of d] assms(1) by simp
  next
    case 2
    then show False using day_from_year_mono[OF 2] year_of_day(1)[of d] assms(2) by simp
  qed
qed

lemma year_length: "day_from_year (y + 1) \<le> day_from_year y + 367"
proof -
  have e: "day_from_year (y + 1) = 365 * (y - 1970) + 365 + (y - 1968) div 4 - (y - 1900) div 100 + (y - 1600) div 400"
    by (simp add: day_from_year_def)
  have "(y - 1968) div 4 \<le> (y - 1969 + 4) div 4" by (rule zdiv_mono1) simp_all
  then have a: "(y - 1968) div 4 \<le> (y - 1969) div 4 + 1" by simp
  have "(y - 1600) div 400 \<le> (y - 1601 + 400) div 400" by (rule zdiv_mono1) simp_all
  then have b: "(y - 1600) div 400 \<le> (y - 1601) div 400 + 1" by simp
  have c: "(y - 1901) div 100 \<le> (y - 1900) div 100" by (rule zdiv_mono1) simp_all
  show ?thesis unfolding e unfolding day_from_year_def using a b c by (simp only: algebra_simps)
qed

subsection \<open>The keys tell days and weeks apart\<close>

lemma pad2:
  assumes "n < 100"
  shows "padStart0 2 (nat_str n) = [digit_char (n div 10), digit_char (n mod 10)]"
proof (cases "n < 10")
  case True
  have "CHR ''0'' = (char_of (48 :: nat) :: char)" by code_simp
  with True show ?thesis by (simp add: nat_str.simps[of n] padStart0_def digit_char_def)
next
  case False
  have "n div 10 < 10" using assms by simp
  then show ?thesis using False by (simp add: nat_str.simps[of n] nat_str.simps[of "n div 10"] padStart0_def)
qed

lemma pad2_inj:
  assumes "m < 100" "n < 100"
  shows "padStart0 2 (nat_str m) = padStart0 2 (nat_str n) \<longleftrightarrow> m = n"
proof -
  have "m div 10 < 10" "n div 10 < 10" using assms by simp_all
  then have "padStart0 2 (nat_str m) = padStart0 2 (nat_str n) \<longleftrightarrow> m div 10 = n div 10 \<and> m mod 10 = n mod 10"
    by (simp add: pad2 assms digit_char_inj)
  then show ?thesis by (metis mult_div_mod_eq)
qed

lemma length_pad2 [simp]: "n < 100 \<Longrightarrow> length (padStart0 2 (nat_str n)) = 2"
  by (simp add: pad2)

lemma nat_str_all_digits: "set (nat_str n) \<subseteq> digit_char ` {..<10}"
proof (induction n rule: nat_str.induct)
  case (1 n)
  then show ?case by (subst nat_str.simps) auto
qed

lemma no_minus: "CHR ''-'' \<notin> set (nat_str n)"
proof
  assume "CHR ''-'' \<in> set (nat_str n)"
  then obtain d where d: "d < 10" "CHR ''-'' = digit_char d" using nat_str_all_digits by blast
  then have "(of_char (CHR ''-'') :: nat) = 48 + d" by (simp add: digit_char_def)
  then show False by simp
qed

lemma int_str_inj: "int_str x = int_str y \<longleftrightarrow> x = y"
proof -
  have minus: "nat_str n \<noteq> CHR ''-'' # xs" for n xs using no_minus[of n] by auto
  show ?thesis using minus minus[THEN not_sym] by (auto simp: int_str_def nat_str_inj)
qed

text \<open>The Thursday of a week, and the first Monday the weeks are counted from.\<close>

lemma thursday: "d + 4 - iso_day d = 7 * ((d + 3) div 7)"
proof -
  define m where "m = (d + 3) mod 7"
  have m: "0 \<le> m" "m < 7" by (simp_all add: m_def)
  have "d + 4 = (d + 3) + 1" by simp
  then have "(d + 4) mod 7 = (m + 1) mod 7" unfolding m_def by (simp only: mod_add_left_eq)
  then have "iso_day d = m + 1" using m by (cases "m = 6") (simp_all add: iso_day_def Let_def)
  moreover have "d + 3 = 7 * ((d + 3) div 7) + m" by (simp add: m_def)
  ultimately show ?thesis by linarith
qed

lemma week_bounds:
  "0 \<le> (t - day_from_year (year_of_day t) + 1 + 6) div 7" "(t - day_from_year (year_of_day t) + 1 + 6) div 7 < 100"
  using year_of_day[of t] year_length[of "year_of_day t"] by (simp_all add: pos_imp_zdiv_nonneg_iff)

text \<open>The key of a day tells days apart in the years of four digits.\<close>

lemma nat_str_4:
  assumes "1000 \<le> n" "n < 10000"
  shows "length (nat_str n) = 4"
proof -
  have "n div 10 \<ge> 10" "n div 10 div 10 \<ge> 10" "n div 10 div 10 div 10 < 10" using assms by simp_all
  then show ?thesis
    using assms by (simp add: nat_str.simps[of n] nat_str.simps[of "n div 10"] nat_str.simps[of "n div 100"]
      nat_str.simps[of "n div 1000"] div_mult2_eq[symmetric])
qed

lemma month_and_date_day:
  assumes "month_and_date d = (m, t)"
  shows "0 < m" "m \<le> 12" "0 < t" "t < 100" "d = day_from_year (year_of_day d) + month_starts (leap_day (year_of_day d)) ! (m - 1) + int t - 1"
proof -
  define n where "n = d - day_from_year (year_of_day d)"
  define st where "st = month_starts (leap_day (year_of_day d))"
  have n: "0 \<le> n" "n < 367" using year_of_day[of d] year_length[of "year_of_day d"] by (simp_all add: n_def)
  have len: "length st = 12" "st ! 0 = 0" by (simp_all add: st_def month_starts_def)
  have mt: "m = length (takeWhile (\<lambda>s. s \<le> n) st)" "t = nat (n - st ! (m - 1) + 1)"
    using assms by (auto simp: month_and_date_def Let_def n_def st_def)
  show "m \<le> 12" using length_takeWhile_le[of "\<lambda>s. s \<le> n" st] len mt by simp
  have hd: "st = 0 # tl st" using len by (cases st) auto
  show m: "0 < m" unfolding mt(1) by (subst hd) (simp add: n(1))
  have "takeWhile (\<lambda>s. s \<le> n) st ! (m - 1) \<in> set (takeWhile (\<lambda>s. s \<le> n) st)" using m mt(1) by (intro nth_mem) simp
  then have "st ! (m - 1) \<le> n" using m mt(1) by (auto dest: set_takeWhileD simp: takeWhile_nth)
  moreover have "0 \<le> st ! (m - 1)"
  proof -
    have "\<forall>x\<in>set st. 0 \<le> x" by (simp add: st_def month_starts_def leap_day_def)
    then show ?thesis using len m \<open>m \<le> 12\<close> by simp
  qed
  moreover have "n \<le> st ! (m - 1) + 32"
  proof (cases "m = 12")
    case True
    with n show ?thesis by (simp add: st_def month_starts_def leap_day_def)
  next
    case False
    with \<open>m \<le> 12\<close> len mt(1) have "m < length st" by simp
    then have late: "\<not> st ! m \<le> n" unfolding mt(1) by (rule nth_length_takeWhile)
    have "\<forall>i<11. st ! Suc i \<le> st ! i + 31"
      by (simp add: st_def month_starts_def leap_day_def numeral_eq_Suc All_less_Suc)
    moreover have "m - 1 < 11" using False m \<open>m \<le> 12\<close> by simp
    ultimately have "st ! Suc (m - 1) \<le> st ! (m - 1) + 31" by blast
    then show ?thesis using m late by simp
  qed
  ultimately show "0 < t" "t < 100" "d = day_from_year (year_of_day d) + st ! (m - 1) + int t - 1"
    using n unfolding mt(2) by (simp_all add: n_def)
qed

lemma day_key_exact:
  assumes "1000 \<le> year_of_day (dayIndex a)" "year_of_day (dayIndex a) \<le> 9999"
    and "1000 \<le> year_of_day (dayIndex b)" "year_of_day (dayIndex b) \<le> 9999"
  shows "utcDayKey a = utcDayKey b \<longleftrightarrow> dayIndex a = dayIndex b"
proof
  assume e: "utcDayKey a = utcDayKey b"
  obtain m t where mt: "month_and_date (dayIndex a) = (m, t)" by (cases "month_and_date (dayIndex a)")
  obtain m' t' where mt': "month_and_date (dayIndex b) = (m', t')" by (cases "month_and_date (dayIndex b)")
  note A = month_and_date_day[OF mt] and B = month_and_date_day[OF mt']
  have key: "utcDayKey now = nat_str (nat (year_of_day (dayIndex now))) @ ''-'' @ padStart0 2 (nat_str i) @ ''-'' @ take 2 (padStart0 2 (nat_str j))"
    if "month_and_date (dayIndex now) = (i, j)" "i \<le> 12" "1000 \<le> year_of_day (dayIndex now)" "year_of_day (dayIndex now) \<le> 9999" for now i j
  proof -
    have "length (nat_str (nat (year_of_day (dayIndex now)))) = 4" using that by (intro nat_str_4) simp_all
    with that show ?thesis by (simp add: utcDayKey_def Let_def iso_year_def padStart0_def[of 4])
  qed
  note pad = length_pad2[OF A(4)] length_pad2[OF B(4)]
  have "length (nat_str (nat (year_of_day (dayIndex a)))) = 4" "length (nat_str (nat (year_of_day (dayIndex b)))) = 4"
    using assms by (simp_all add: nat_str_4)
  then have "nat (year_of_day (dayIndex a)) = nat (year_of_day (dayIndex b)) \<and> m = m' \<and> t = t'"
    using e A(2,4) B(2,4) pad unfolding key[OF mt A(2) assms(1,2)] key[OF mt' B(2) assms(3,4)]
    by (simp add: nat_str_inj pad2_inj)
  moreover from this have "year_of_day (dayIndex a) = year_of_day (dayIndex b)" using assms by (simp add: eq_nat_nat_iff)
  ultimately show "dayIndex a = dayIndex b" using A(5) B(5) by simp
qed (simp add: utcDayKey_def)

text \<open>Two times have the same week key if and only if no Monday's midnight is between them, also where
  a week belongs to two years.\<close>

definition week_index :: "int \<Rightarrow> int" where
  "week_index now = (dayIndex now + 3) div 7"

lemma week_key_iff: "isoWeekKey a = isoWeekKey b \<longleftrightarrow> week_index a = week_index b"
proof -
  define s t where "s = 7 * week_index a" and "t = 7 * week_index b"
  define w where "w x = (x - day_from_year (year_of_day x) + 1 + 6) div 7" for x
  have key: "isoWeekKey now = int_str (year_of_day x) @ ''-W'' @ padStart0 2 (nat_str (nat (w x)))"
    if "x = 7 * week_index now" for now x
    unfolding isoWeekKey_def Let_def thursday w_def that week_index_def ..
  have w: "0 \<le> w x" "w x < 100" for x unfolding w_def by (rule week_bounds)+
  have "isoWeekKey a = isoWeekKey b \<longleftrightarrow> year_of_day s = year_of_day t \<and> w s = w t"
    unfolding key[OF s_def] key[OF t_def] using w[of s] w[of t] by (simp add: int_str_inj pad2_inj eq_nat_nat_iff)
  also have "\<dots> \<longleftrightarrow> s = t"
  proof
    assume e: "year_of_day s = year_of_day t \<and> w s = w t"
    define f where "f = day_from_year (year_of_day s)"
    have y: "year_of_day t = year_of_day s" and ws: "w s = w t" using e by simp_all
    have "(7 + (s - f)) div 7 = (7 + (t - f)) div 7" using ws by (simp add: w_def f_def y)
    moreover obtain i j where ij: "s = 7 * i" "t = 7 * j" by (simp add: s_def t_def)
    moreover have "(7 + (7 * k - f)) div 7 = (7 - f) div 7 + k" for k
    proof -
      have "7 + (7 * k - f) = (7 - f) + k * 7" by simp
      then show ?thesis by (simp only: div_mult_self1)
    qed
    ultimately have "i = j" by simp
    then show "s = t" by (simp add: ij)
  qed simp
  finally show ?thesis by (simp add: s_def t_def)
qed

end
