(* ===== verification/Quests.thy ===== *)
theory Quests
  imports Calendar Users "HOL-Library.Word"
begin

text \<open>
  What a player can earn (\<^verbatim>\<open>packages/server/src/rewards/quests.ts\<close>, \<^verbatim>\<open>rewards/achievements.ts\<close>,
  \<^verbatim>\<open>profile/level.ts\<close>, \<^verbatim>\<open>vip/vipService.ts\<close>): levels, the rotating quests of a day and of a week
  with their seeded choice, the milestones, the anchors progress is measured from, the achievements
  and the loyalty tiers.

  The two hash functions compute on 32-bit words, as \<^verbatim>\<open>Math.imul\<close> and the shifts do. A random
  number is a word divided by \<^verbatim>\<open>2^32\<close>; scaled by a length it is rounded down exactly, because the
  product is far below the precision of a double. Titles and icons are left out. \<^verbatim>\<open>Math.sqrt\<close> is the
  integer root; the two agree for all amounts of XP below \<^verbatim>\<open>10^15\<close>.
\<close>

unbundle bit_operations_syntax

subsection \<open>Levels\<close>

fun isqrt :: "nat \<Rightarrow> nat" where
  "isqrt 0 = 0"
| "isqrt (Suc n) = (let r = isqrt n in if (r + 1) * (r + 1) \<le> Suc n then r + 1 else r)"

record level_info =
  lv_level :: nat
  lv_intoLevel :: nat
  lv_levelSpan :: nat

definition levelInfo :: "int \<Rightarrow> level_info" where
  "levelInfo xp =
     (let safe = nat (max 0 xp);
          level = isqrt (safe div 100) + 1;
          curBase = 100 * (level - 1) ^ 2;
          nextBase = 100 * level ^ 2
      in \<lparr>lv_level = level, lv_intoLevel = safe - curBase, lv_levelSpan = nextBase - curBase\<rparr>)"

subsection \<open>Quests\<close>

datatype quest_metric = M_gamesPlayed | M_wins | M_level | M_currentStreak | M_biggestPotCents

record quest =
  q_id :: string
  q_goal :: nat
  q_metric :: quest_metric
  q_rewardXp :: nat

definition quest_def :: "string \<Rightarrow> nat \<Rightarrow> quest_metric \<Rightarrow> nat \<Rightarrow> quest" where
  "quest_def i goal m xp = \<lparr>q_id = i, q_goal = goal, q_metric = m, q_rewardXp = xp\<rparr>"

definition DAILY_COUNT :: nat where
  "DAILY_COUNT = 3"

definition WEEKLY_COUNT :: nat where
  "WEEKLY_COUNT = 3"

definition DAILY_POOL :: "quest list" where
  "DAILY_POOL =
    [quest_def ''d_play2'' 2 M_gamesPlayed 30,
     quest_def ''d_play4'' 4 M_gamesPlayed 45,
     quest_def ''d_play6'' 6 M_gamesPlayed 60,
     quest_def ''d_win1'' 1 M_wins 40,
     quest_def ''d_win2'' 2 M_wins 55,
     quest_def ''d_win3'' 3 M_wins 70,
     quest_def ''d_streak2'' 2 M_currentStreak 50,
     quest_def ''d_streak3'' 3 M_currentStreak 80]"

definition WEEKLY_POOL :: "quest list" where
  "WEEKLY_POOL =
    [quest_def ''w_play20'' 20 M_gamesPlayed 150,
     quest_def ''w_play40'' 40 M_gamesPlayed 250,
     quest_def ''w_win10'' 10 M_wins 200,
     quest_def ''w_win20'' 20 M_wins 350,
     quest_def ''w_streak5'' 5 M_currentStreak 300,
     quest_def ''w_level'' 1 M_level 400]"

subsection \<open>Milestones\<close>

record milestone =
  ms_level :: nat
  ms_cosmeticId :: "string option"
  ms_bonusXp :: nat

definition MILESTONE_STEP :: nat where
  "MILESTONE_STEP = 5"

definition MILESTONES :: "milestone list" where
  "MILESTONES =
    [\<lparr>ms_level = 5, ms_cosmeticId = Some ''cb_ivory'', ms_bonusXp = 100\<rparr>,
     \<lparr>ms_level = 10, ms_cosmeticId = Some ''felt_charcoal'', ms_bonusXp = 150\<rparr>,
     \<lparr>ms_level = 15, ms_cosmeticId = Some ''cb_ocean'', ms_bonusXp = 200\<rparr>,
     \<lparr>ms_level = 20, ms_cosmeticId = Some ''felt_forest'', ms_bonusXp = 250\<rparr>,
     \<lparr>ms_level = 25, ms_cosmeticId = Some ''cb_emerald'', ms_bonusXp = 300\<rparr>,
     \<lparr>ms_level = 30, ms_cosmeticId = Some ''felt_sapphire'', ms_bonusXp = 400\<rparr>]"

definition milestoneFor :: "nat \<Rightarrow> milestone option" where
  "milestoneFor level =
     (if level < MILESTONE_STEP \<or> level mod MILESTONE_STEP \<noteq> 0 then None
      else case List.find (\<lambda>m. ms_level m = level) MILESTONES of
        Some m \<Rightarrow> Some m
      | None \<Rightarrow> Some \<lparr>ms_level = level, ms_cosmeticId = None, ms_bonusXp = 200 + level * 10\<rparr>)"

subsection \<open>Seeded choice\<close>

definition hash_char :: "32 word \<Rightarrow> char \<Rightarrow> 32 word" where
  "hash_char h c = (h XOR of_char c) * 0x01000193"

definition hashSeed :: "string \<Rightarrow> 32 word" where
  "hashSeed s = foldl hash_char 0x811c9dc5 s"

text \<open>The next state of the generator and its next number, still to be divided by \<^verbatim>\<open>2^32\<close>.\<close>

definition mulberry32 :: "32 word \<Rightarrow> 32 word \<times> 32 word" where
  "mulberry32 a =
     (let a = a + 0x6d2b79f5;
          t = (a XOR drop_bit 15 a) * (1 OR a);
          t = (t + (t XOR drop_bit 7 t) * (61 OR t)) XOR t
      in (a, t XOR drop_bit 14 t))"

definition swap_at :: "nat \<Rightarrow> nat \<Rightarrow> 'a list \<Rightarrow> 'a list" where
  "swap_at i j xs = xs[i := xs ! j, j := xs ! i]"

text \<open>\<open>k\<close> rounds of the shuffle are left, the next one at index \<open>i\<close>.\<close>

fun pick_loop :: "nat \<Rightarrow> nat \<Rightarrow> 'a list \<Rightarrow> 32 word \<Rightarrow> 'a list" where
  "pick_loop 0 i arr a = arr"
| "pick_loop (Suc k) i arr a =
     (let (a', r) = mulberry32 a; j = i + nat ((uint r * int (length arr - i)) div 2 ^ 32)
      in pick_loop k (Suc i) (swap_at i j arr) a')"

definition pickSeeded :: "'a list \<Rightarrow> nat \<Rightarrow> 32 word \<Rightarrow> 'a list" where
  "pickSeeded pool cnt seed = (let n = min cnt (length pool) in take n (pick_loop n 0 pool seed))"

definition dailyQuestsFor :: "int \<Rightarrow> quest list" where
  "dailyQuestsFor now = pickSeeded DAILY_POOL DAILY_COUNT (hashSeed (''daily:'' @ utcDayKey now))"

definition weeklyQuestsFor :: "int \<Rightarrow> quest list" where
  "weeklyQuestsFor now = pickSeeded WEEKLY_POOL WEEKLY_COUNT (hashSeed (''weekly:'' @ isoWeekKey now))"

definition dailyClaimKey :: "int \<Rightarrow> string \<Rightarrow> string" where
  "dailyClaimKey now i = utcDayKey now @ '':'' @ i"

definition weeklyClaimKey :: "int \<Rightarrow> string \<Rightarrow> string" where
  "weeklyClaimKey now i = isoWeekKey now @ '':'' @ i"

subsection \<open>Progress\<close>

definition questMetricValue :: "user \<Rightarrow> quest_metric \<Rightarrow> int" where
  "questMetricValue u m =
     (case m of
        M_gamesPlayed \<Rightarrow> int (u_gamesPlayed u)
      | M_wins \<Rightarrow> int (u_wins u)
      | M_level \<Rightarrow> int (lv_level (levelInfo (u_xp u)))
      | M_currentStreak \<Rightarrow> int (u_currentStreak u)
      | M_biggestPotCents \<Rightarrow> u_biggestPotCents u)"

definition effectiveAnchor :: "user \<Rightarrow> string \<Rightarrow> period_anchor option \<Rightarrow> period_anchor" where
  "effectiveAnchor u period stored =
     (case stored of
        Some a \<Rightarrow> if pa_period a = period then a
                  else \<lparr>pa_period = period, pa_games = u_gamesPlayed u, pa_wins = u_wins u\<rparr>
      | None \<Rightarrow> \<lparr>pa_period = period, pa_games = u_gamesPlayed u, pa_wins = u_wins u\<rparr>)"

definition questPeriodProgress :: "user \<Rightarrow> quest_metric \<Rightarrow> period_anchor \<Rightarrow> int" where
  "questPeriodProgress u m baseline =
     (case m of
        M_gamesPlayed \<Rightarrow> max 0 (int (u_gamesPlayed u) - int (pa_games baseline))
      | M_wins \<Rightarrow> max 0 (int (u_wins u) - int (pa_wins baseline))
      | _ \<Rightarrow> questMetricValue u m)"

subsection \<open>Achievements\<close>

record achievement =
  ac_id :: string
  ac_metric :: quest_metric
  ac_threshold :: int

definition ACHIEVEMENTS :: "achievement list" where
  "ACHIEVEMENTS =
    [\<lparr>ac_id = ''first_win'', ac_metric = M_wins, ac_threshold = 1\<rparr>,
     \<lparr>ac_id = ''wins_10'', ac_metric = M_wins, ac_threshold = 10\<rparr>,
     \<lparr>ac_id = ''wins_100'', ac_metric = M_wins, ac_threshold = 100\<rparr>,
     \<lparr>ac_id = ''games_1000'', ac_metric = M_gamesPlayed, ac_threshold = 1000\<rparr>,
     \<lparr>ac_id = ''streak_5'', ac_metric = M_currentStreak, ac_threshold = 5\<rparr>,
     \<lparr>ac_id = ''streak_10'', ac_metric = M_currentStreak, ac_threshold = 10\<rparr>,
     \<lparr>ac_id = ''level_10'', ac_metric = M_level, ac_threshold = 10\<rparr>,
     \<lparr>ac_id = ''level_25'', ac_metric = M_level, ac_threshold = 25\<rparr>,
     \<lparr>ac_id = ''pot_100'', ac_metric = M_biggestPotCents, ac_threshold = 10000\<rparr>]"

definition isAchievementMet :: "user \<Rightarrow> achievement \<Rightarrow> bool" where
  "isAchievementMet u a = (questMetricValue u (ac_metric a) \<ge> ac_threshold a)"

definition newlyEarnedAchievements :: "user \<Rightarrow> string list" where
  "newlyEarnedAchievements u =
     map ac_id (filter (\<lambda>a. ac_id a \<notin> set (rw_badges (u_rewards u)) \<and> isAchievementMet u a) ACHIEVEMENTS)"

definition achievementById :: "string \<Rightarrow> achievement option" where
  "achievementById i = List.find (\<lambda>a. ac_id a = i) ACHIEVEMENTS"

datatype season_badge_kind = Finalist | Top3 | SeasonChampion

definition badge_kind_name :: "season_badge_kind \<Rightarrow> string" where
  "badge_kind_name k = (case k of Finalist \<Rightarrow> ''finalist'' | Top3 \<Rightarrow> ''top3'' | SeasonChampion \<Rightarrow> ''champion'')"

definition seasonBadgeId :: "nat \<Rightarrow> season_badge_kind \<Rightarrow> string" where
  "seasonBadgeId n k = ''season_'' @ nat_str n @ ''_'' @ badge_kind_name k"

subsection \<open>Loyalty tiers\<close>

record vip_tier =
  vt_key :: string
  vt_minStakedCents :: cents
  vt_xpBoostBps :: int

definition VIP_TIERS :: "vip_tier list" where
  "VIP_TIERS =
    [\<lparr>vt_key = ''standard'', vt_minStakedCents = 0, vt_xpBoostBps = 0\<rparr>,
     \<lparr>vt_key = ''bronze'', vt_minStakedCents = 10000, vt_xpBoostBps = 1000\<rparr>,
     \<lparr>vt_key = ''silver'', vt_minStakedCents = 100000, vt_xpBoostBps = 2000\<rparr>,
     \<lparr>vt_key = ''gold'', vt_minStakedCents = 1000000, vt_xpBoostBps = 3500\<rparr>,
     \<lparr>vt_key = ''diamond'', vt_minStakedCents = 5000000, vt_xpBoostBps = 5000\<rparr>]"

definition vipTierFor :: "cents \<Rightarrow> vip_tier" where
  "vipTierFor staked = foldl (\<lambda>result t. if staked \<ge> vt_minStakedCents t then t else result) (VIP_TIERS ! 0) VIP_TIERS"

record vip_status =
  vs_stakedCents :: cents
  vs_tier :: vip_tier
  vs_next :: "vip_tier option"
  vs_toNextCents :: cents

definition vip_getStatus :: "cents \<Rightarrow> vip_status" where
  "vip_getStatus staked =
     (let tier = vipTierFor staked;
          next = (case find_index (\<lambda>t. vt_key t = vt_key tier) VIP_TIERS of
                    None \<Rightarrow> None
                  | Some i \<Rightarrow> if i < length VIP_TIERS - 1 then Some (VIP_TIERS ! (i + 1)) else None)
      in \<lparr>vs_stakedCents = staked, vs_tier = tier, vs_next = next,
          vs_toNextCents = (case next of None \<Rightarrow> 0 | Some t \<Rightarrow> max 0 (vt_minStakedCents t - staked))\<rparr>)"

end
