(* ===== verification/Rewards.thy ===== *)
theory Rewards
  imports Quests Wallet
begin

text \<open>
  The rewards service (\<^verbatim>\<open>packages/server/src/rewards/rewardsService.ts\<close>): the catalogue of the shop,
  daily rewards, challenges, quests, level rewards, the weekly gift, and purchases for money and for XP.

  A claim reads the user, decides, and writes; the per-user lock makes it one step. \<open>claimVipGift\<close> is
  also given as its read and its write, because \<open>buyXp\<close> does not take the lock. A claim answers \<open>None\<close>
  where the source answers \<^verbatim>\<open>null\<close>. The store is the one of the wallet, whose user store is patched by
  \<open>on_users\<close>. Names of items are left out.
\<close>

subsection \<open>The shop\<close>

datatype cosmetic_type = CardBack | TableFelt

record cosmetic =
  co_id :: string
  co_kind :: cosmetic_type
  co_cost :: cents
  co_costXp :: "int option"
  co_featured :: bool

definition money_item :: "string \<Rightarrow> cosmetic_type \<Rightarrow> cents \<Rightarrow> cosmetic" where
  "money_item i k c = \<lparr>co_id = i, co_kind = k, co_cost = c, co_costXp = None, co_featured = False\<rparr>"

definition xp_item :: "string \<Rightarrow> cosmetic_type \<Rightarrow> int \<Rightarrow> cosmetic" where
  "xp_item i k x = \<lparr>co_id = i, co_kind = k, co_cost = 0, co_costXp = Some x, co_featured = False\<rparr>"

definition featured :: "cosmetic \<Rightarrow> cosmetic" where
  "featured c = c\<lparr>co_featured := True\<rparr>"

definition COSMETICS :: "cosmetic list" where
  "COSMETICS =
    [money_item ''cb_classic'' CardBack 0,
     xp_item ''cb_ivory'' CardBack 150,
     xp_item ''cb_ocean'' CardBack 250,
     xp_item ''cb_crimson'' CardBack 250,
     xp_item ''cb_emerald'' CardBack 350,
     xp_item ''cb_sunset'' CardBack 350,
     xp_item ''cb_sapphire'' CardBack 500,
     xp_item ''cb_violet'' CardBack 500,
     xp_item ''cb_rose'' CardBack 800,
     xp_item ''cb_jade'' CardBack 1200,
     money_item ''cb_gold'' CardBack 300,
     money_item ''cb_carbon'' CardBack 500,
     featured (money_item ''cb_royal'' CardBack 600),
     featured (money_item ''cb_platinum'' CardBack 800),
     money_item ''felt_red'' TableFelt 0,
     xp_item ''felt_charcoal'' TableFelt 150,
     xp_item ''felt_forest'' TableFelt 250,
     xp_item ''felt_teal'' TableFelt 250,
     xp_item ''felt_sand'' TableFelt 250,
     xp_item ''felt_emerald'' TableFelt 350,
     xp_item ''felt_sapphire'' TableFelt 500,
     xp_item ''felt_plum'' TableFelt 500,
     xp_item ''felt_amber'' TableFelt 800,
     money_item ''felt_wine'' TableFelt 450,
     money_item ''felt_obsidian'' TableFelt 600,
     featured (money_item ''felt_midnight'' TableFelt 700),
     featured (money_item ''felt_royalblue'' TableFelt 900),
     xp_item ''cb_mint'' CardBack 250,
     xp_item ''cb_slate'' CardBack 250,
     xp_item ''cb_coral'' CardBack 350,
     xp_item ''cb_lava'' CardBack 500,
     money_item ''cb_onyx'' CardBack 500,
     featured (money_item ''cb_aurora'' CardBack 700),
     xp_item ''felt_moss'' TableFelt 250,
     xp_item ''felt_cocoa'' TableFelt 250,
     xp_item ''felt_steel'' TableFelt 350,
     xp_item ''felt_rosewood'' TableFelt 500,
     money_item ''felt_onyx'' TableFelt 600,
     featured (money_item ''felt_aurora'' TableFelt 700)]"

definition isXpPriced :: "cosmetic \<Rightarrow> bool" where
  "isXpPriced c = (case co_costXp c of None \<Rightarrow> False | Some x \<Rightarrow> x > 0)"

definition DEAL_PCT :: int where
  "DEAL_PCT = 20"

text \<open>\<^verbatim>\<open>Math.round\<close> rounds a half up.\<close>

definition dealPriceCents :: "cents \<Rightarrow> cents" where
  "dealPriceCents c = (2 * (c * (100 - DEAL_PCT)) + 100) div 200"

definition dailyDealId :: "int \<Rightarrow> string option" where
  "dailyDealId now =
     (let paid = filter (\<lambda>c. co_cost c > 0) COSMETICS
      in if paid = [] then None else Some (co_id (paid ! nat (dayIndex now mod int (length paid)))))"

definition find_cosmetic :: "string \<Rightarrow> cosmetic option" where
  "find_cosmetic i = List.find (\<lambda>c. co_id c = i) COSMETICS"

definition VIP_GIFT_POOL :: "string list" where
  "VIP_GIFT_POOL = [''cb_ocean'', ''felt_forest'', ''cb_emerald'', ''felt_teal'', ''cb_sunset'',
     ''felt_plum'', ''cb_mint'', ''felt_moss'', ''cb_sapphire'', ''felt_amber'']"

definition VIP_GIFT_XP :: nat where
  "VIP_GIFT_XP = 120"

definition weekIndex :: "string \<Rightarrow> nat \<Rightarrow> nat" where
  "weekIndex weekKey m = nat (uint (foldl hash_char 2166136261 weekKey) mod int m)"

definition CHALLENGES :: "quest list" where
  "CHALLENGES =
    [quest_def ''play3'' 3 M_gamesPlayed 30,
     quest_def ''win1'' 1 M_wins 40,
     quest_def ''win5'' 5 M_wins 90,
     quest_def ''level3'' 3 M_level 60,
     quest_def ''streak3'' 3 M_currentStreak 70,
     quest_def ''play10'' 10 M_gamesPlayed 120,
     quest_def ''play25'' 25 M_gamesPlayed 250,
     quest_def ''win10'' 10 M_wins 180,
     quest_def ''win25'' 25 M_wins 400,
     quest_def ''level5'' 5 M_level 150,
     quest_def ''level10'' 10 M_level 350,
     quest_def ''streak5'' 5 M_currentStreak 140]"

definition dailyReward :: "nat \<Rightarrow> nat" where
  "dailyReward streak = 25 + 5 * min (max streak 1 - 1) 6"

text \<open>A free item is owned by everybody, an item for XP is not.\<close>

definition owns :: "user \<Rightarrow> cosmetic \<Rightarrow> bool" where
  "owns u c = ((co_cost c = 0 \<and> \<not> isXpPriced c) \<or> co_id c \<in> set (u_cosmetics u))"

subsection \<open>Writes to the user store\<close>

definition on_users :: "(users \<Rightarrow> 'a \<times> users) \<Rightarrow> 'z money_store_scheme \<Rightarrow> 'a \<times> 'z money_store_scheme" where
  "on_users f s = (let (r, us) = f (m_users s) in (r, s\<lparr>m_users := us\<rparr>))"

definition give_xp :: "user_id \<Rightarrow> nat \<Rightarrow> users \<Rightarrow> users" where
  "give_xp uid xp s = snd (addXp uid (int xp) s)"

definition mark_reward :: "user_id \<Rightarrow> rewards_patch \<Rightarrow> users \<Rightarrow> users" where
  "mark_reward uid p s = snd (setRewards uid p s)"

subsection \<open>Anchors and milestones\<close>

definition needs_anchor :: "period_anchor option \<Rightarrow> string \<Rightarrow> bool" where
  "needs_anchor stored key = (case stored of None \<Rightarrow> True | Some a \<Rightarrow> pa_period a \<noteq> key)"

definition resolveAnchors :: "user_id \<Rightarrow> user \<Rightarrow> int \<Rightarrow> users \<Rightarrow> (period_anchor \<times> period_anchor) \<times> users" where
  "resolveAnchors uid u now s =
     (let dayKey = utcDayKey now; weekKey = isoWeekKey now; r = u_rewards u;
          daily = effectiveAnchor u dayKey (rw_dailyAnchor r);
          weekly = effectiveAnchor u weekKey (rw_weeklyAnchor r);
          d = needs_anchor (rw_dailyAnchor r) dayKey; w = needs_anchor (rw_weeklyAnchor r) weekKey;
          patch = no_patch\<lparr>rp_dailyAnchor := (if d then Some (Some daily) else None),
                          rp_weeklyAnchor := (if w then Some (Some weekly) else None)\<rparr>
      in ((daily, weekly), if d \<or> w then mark_reward uid patch s else s))"

fun first_some :: "('a \<Rightarrow> 'b option) \<Rightarrow> 'a list \<Rightarrow> 'b option" where
  "first_some f [] = None"
| "first_some f (x # xs) = (case f x of None \<Rightarrow> first_some f xs | Some y \<Rightarrow> Some y)"

definition milestone_levels :: "nat \<Rightarrow> nat list" where
  "milestone_levels cur = map (\<lambda>k. MILESTONE_STEP * Suc k) [0..<cur div MILESTONE_STEP]"

definition pendingMilestone :: "user \<Rightarrow> milestone option" where
  "pendingMilestone u =
     first_some (\<lambda>lvl. if lvl \<in> set (rw_collectedMilestones (u_rewards u)) then None else milestoneFor lvl)
       (milestone_levels (lv_level (levelInfo (u_xp u))))"

subsection \<open>Claims\<close>

definition claimed_today :: "int option \<Rightarrow> int \<Rightarrow> bool" where
  "claimed_today lastClaim now = (case lastClaim of None \<Rightarrow> False | Some l \<Rightarrow> dayIndex now \<le> dayIndex l)"

definition next_streak :: "reward_state \<Rightarrow> int \<Rightarrow> nat" where
  "next_streak r now =
     (case rw_lastDailyClaim r of
        Some l \<Rightarrow> if dayIndex l = dayIndex now - 1 then rw_dailyStreak r + 1 else 1
      | None \<Rightarrow> 1)"

definition claimDaily :: "user_id \<Rightarrow> int \<Rightarrow> users \<Rightarrow> (nat \<times> nat) option \<times> users" where
  "claimDaily uid now s =
     (case findById uid s of
        None \<Rightarrow> (None, s)
      | Some u \<Rightarrow>
          if claimed_today (rw_lastDailyClaim (u_rewards u)) now then (None, s)
          else
            let streak = next_streak (u_rewards u) now; xp = dailyReward streak
            in (Some (xp, streak),
                mark_reward uid (no_patch\<lparr>rp_lastDailyClaim := Some (Some now), rp_dailyStreak := Some streak\<rparr>)
                  (give_xp uid xp s)))"

definition claimChallenge :: "user_id \<Rightarrow> string \<Rightarrow> users \<Rightarrow> nat option \<times> users" where
  "claimChallenge uid i s =
     (case List.find (\<lambda>c. q_id c = i) CHALLENGES of
        None \<Rightarrow> (None, s)
      | Some c \<Rightarrow>
          (case findById uid s of
             None \<Rightarrow> (None, s)
           | Some u \<Rightarrow>
               if q_id c \<in> set (rw_claimedChallenges (u_rewards u)) then (None, s)
               else if questMetricValue u (q_metric c) < int (q_goal c) then (None, s)
               else (Some (q_rewardXp c),
                 mark_reward uid (no_patch\<lparr>rp_claimedChallenges := Some (rw_claimedChallenges (u_rewards u) @ [q_id c])\<rparr>)
                   (give_xp uid (q_rewardXp c) s))))"

definition claimDailyQuest :: "user_id \<Rightarrow> string \<Rightarrow> int \<Rightarrow> users \<Rightarrow> nat option \<times> users" where
  "claimDailyQuest uid i now s =
     (case List.find (\<lambda>q. q_id q = i) (dailyQuestsFor now) of
        None \<Rightarrow> (None, s)
      | Some q \<Rightarrow>
          (case findById uid s of
             None \<Rightarrow> (None, s)
           | Some u \<Rightarrow>
               let key = dailyClaimKey now (q_id q)
               in if key \<in> set (rw_claimedDailies (u_rewards u)) then (None, s)
                  else case resolveAnchors uid u now s of
                    ((daily, weekly), s1) \<Rightarrow>
                      if questPeriodProgress u (q_metric q) daily < int (q_goal q) then (None, s1)
                      else (Some (q_rewardXp q),
                        mark_reward uid (no_patch\<lparr>rp_claimedDailies := Some (rw_claimedDailies (u_rewards u) @ [key])\<rparr>)
                          (give_xp uid (q_rewardXp q) s1))))"

definition claimWeeklyQuest :: "user_id \<Rightarrow> string \<Rightarrow> int \<Rightarrow> users \<Rightarrow> nat option \<times> users" where
  "claimWeeklyQuest uid i now s =
     (case List.find (\<lambda>q. q_id q = i) (weeklyQuestsFor now) of
        None \<Rightarrow> (None, s)
      | Some q \<Rightarrow>
          (case findById uid s of
             None \<Rightarrow> (None, s)
           | Some u \<Rightarrow>
               let key = weeklyClaimKey now (q_id q)
               in if key \<in> set (rw_claimedWeeklies (u_rewards u)) then (None, s)
                  else case resolveAnchors uid u now s of
                    ((daily, weekly), s1) \<Rightarrow>
                      if questPeriodProgress u (q_metric q) weekly < int (q_goal q) then (None, s1)
                      else (Some (q_rewardXp q),
                        mark_reward uid (no_patch\<lparr>rp_claimedWeeklies := Some (rw_claimedWeeklies (u_rewards u) @ [key])\<rparr>)
                          (give_xp uid (q_rewardXp q) s1))))"

definition claimLevelReward :: "user_id \<Rightarrow> users \<Rightarrow> milestone option \<times> users" where
  "claimLevelReward uid s =
     (case findById uid s of
        None \<Rightarrow> (None, s)
      | Some u \<Rightarrow>
          (case pendingMilestone u of
             None \<Rightarrow> (None, s)
           | Some m \<Rightarrow>
               if ms_level m \<in> set (rw_collectedMilestones (u_rewards u)) then (None, s)
               else
                 let s1 = mark_reward uid
                       (no_patch\<lparr>rp_collectedMilestones := Some (rw_collectedMilestones (u_rewards u) @ [ms_level m])\<rparr>) s;
                     s2 = (if ms_bonusXp m > 0 then give_xp uid (ms_bonusXp m) s1 else s1);
                     s3 = (case ms_cosmeticId m of
                             None \<Rightarrow> s2
                           | Some c \<Rightarrow> if c \<noteq> [] \<and> find_cosmetic c \<noteq> None \<and> c \<notin> set (u_cosmetics u)
                                       then snd (purchaseCosmetic uid c 0 s2) else s2)
                 in (Some m, s3)))"

subsection \<open>The weekly gift\<close>

definition isVipGiftAvailable :: "user_id \<Rightarrow> int \<Rightarrow> users \<Rightarrow> bool" where
  "isVipGiftAvailable uid now s =
     (case findById uid s of None \<Rightarrow> False | Some u \<Rightarrow> rw_lastVipGift (u_rewards u) \<noteq> Some (isoWeekKey now))"

datatype gift = GiftCosmetic string | GiftXp nat

definition gift_item :: "user \<Rightarrow> string \<Rightarrow> string option" where
  "gift_item u week =
     (let n = length VIP_GIFT_POOL; start = weekIndex week n
      in List.find (\<lambda>i. i \<notin> set (u_cosmetics u)) (map (\<lambda>k. VIP_GIFT_POOL ! ((start + k) mod n)) [0..<n]))"

text \<open>What the gift writes, for the user that was read.\<close>

definition write_gift :: "user_id \<Rightarrow> user \<Rightarrow> string \<Rightarrow> users \<Rightarrow> gift \<times> users" where
  "write_gift uid u week s =
     (case gift_item u week of
        Some i \<Rightarrow>
          (GiftCosmetic i,
           mark_reward uid (no_patch\<lparr>rp_cosmetics := Some (u_cosmetics u @ [i]), rp_lastVipGift := Some (Some week)\<rparr>) s)
      | None \<Rightarrow>
          (GiftXp VIP_GIFT_XP,
           give_xp uid VIP_GIFT_XP (mark_reward uid (no_patch\<lparr>rp_lastVipGift := Some (Some week)\<rparr>) s)))"

definition claimVipGift :: "bool \<Rightarrow> user_id \<Rightarrow> bool \<Rightarrow> int \<Rightarrow> users \<Rightarrow> (string + gift) \<times> users" where
  "claimVipGift enabled uid isVip now s =
     (if \<not> enabled then (Inl ''disabled'', s)
      else if \<not> isVip then (Inl ''not_vip'', s)
      else case findById uid s of
        None \<Rightarrow> (Inl ''not_found'', s)
      | Some u \<Rightarrow>
          if rw_lastVipGift (u_rewards u) = Some (isoWeekKey now) then (Inl ''already'', s)
          else let (g, s') = write_gift uid u (isoWeekKey now) s in (Inr g, s'))"

subsection \<open>Purchases\<close>

datatype buy_error = GrantRejected string | WalletThrew money_error

text \<open>The charge and the grant inside the transaction.\<close>

definition charge_and_grant ::
  "user_id \<Rightarrow> cosmetic \<Rightarrow> cents \<Rightarrow> int \<Rightarrow> ('z money_store_scheme, buy_error, unit) action" where
  "charge_and_grant uid c charge now s =
     (case debit bind_wallet uid charge (plain_debit Purchase (''cosmetic:'' @ co_id c)) now s of
        (Inl e, s1) \<Rightarrow> (Inl (WalletThrew e), s1)
      | (Inr _, s1) \<Rightarrow>
          (case on_users (purchaseCosmetic uid (co_id c) 0) s1 of
             (Inl code, s2) \<Rightarrow> (Inl (GrantRejected code), s2)
           | (Inr _, s2) \<Rightarrow> (Inr (), s2)))"

definition refundPurchase ::
  "'z money_store_scheme wallet_service \<Rightarrow> user_id \<Rightarrow> cents \<Rightarrow> string \<Rightarrow> int \<Rightarrow> 'z money_store_scheme \<Rightarrow> 'z money_store_scheme" where
  "refundPurchase w uid amount i now s = snd (credit w uid amount (plain_credit Purchase (''cosmetic-refund:'' @ i)) now s)"

definition dealt_price :: "cosmetic \<Rightarrow> int \<Rightarrow> cents" where
  "dealt_price c now = (if dailyDealId now = Some (co_id c) then dealPriceCents (co_cost c) else co_cost c)"

text \<open>The answers to what was thrown: only a lack of funds and a rejected grant are answers.\<close>

definition wallet_answer :: "money_error \<Rightarrow> money_error + (string + unit)" where
  "wallet_answer e = (case e of InsufficientFundsError v a b \<Rightarrow> Inr (Inl ''insufficient_funds'') | _ \<Rightarrow> Inl e)"

definition buy_answer :: "buy_error + unit \<Rightarrow> money_error + (string + unit)" where
  "buy_answer r =
     (case r of Inr _ \<Rightarrow> Inr (Inr ()) | Inl (GrantRejected code) \<Rightarrow> Inr (Inl code) | Inl (WalletThrew e) \<Rightarrow> wallet_answer e)"

text \<open>Without a unit of work a rejected grant is refunded.\<close>

definition charge_then_grant ::
  "'z money_store_scheme wallet_service \<Rightarrow> user_id \<Rightarrow> cosmetic \<Rightarrow> cents \<Rightarrow> int \<Rightarrow>
     ('z money_store_scheme, money_error, string + unit) action" where
  "charge_then_grant w uid c charge now s =
     (case debit w uid charge (plain_debit Purchase (''cosmetic:'' @ co_id c)) now s of
        (Inl e, s1) \<Rightarrow> (wallet_answer e, s1)
      | (Inr _, s1) \<Rightarrow>
          (case on_users (purchaseCosmetic uid (co_id c) 0) s1 of
             (Inl code, s2) \<Rightarrow> (Inr (Inl code), refundPurchase w uid charge (co_id c) now s2)
           | (Inr _, s2) \<Rightarrow> (Inr (Inr ()), s2)))"

text \<open>Left is an exception, right the answer: an error code or success.\<close>

definition buy ::
  "('z money_store_scheme \<Rightarrow> 'z money_store_scheme \<Rightarrow> 'z money_store_scheme) option \<Rightarrow> 'z money_store_scheme wallet_service \<Rightarrow>
     user_id \<Rightarrow> string \<Rightarrow> int \<Rightarrow> ('z money_store_scheme, money_error, string + unit) action" where
  "buy uow w uid i now s =
     (case find_cosmetic i of
        None \<Rightarrow> (Inr (Inl ''not_found''), s)
      | Some c \<Rightarrow>
          if isXpPriced c then (Inr (Inl ''wrong_currency''), s)
          else if co_cost c = 0 then (Inr (Inl ''owned''), s)
          else case findById uid (m_users s) of
            None \<Rightarrow> (Inr (Inl ''not_found''), s)
          | Some u \<Rightarrow>
              if i \<in> set (u_cosmetics u) then (Inr (Inl ''owned''), s)
              else case uow of
                Some tx \<Rightarrow>
                  (let (r, s1) = transaction_in tx (charge_and_grant uid c (dealt_price c now) now) s in (buy_answer r, s1))
              | None \<Rightarrow> charge_then_grant w uid c (dealt_price c now) now s)"

definition buyXp :: "user_id \<Rightarrow> string \<Rightarrow> users \<Rightarrow> (string + unit) \<times> users" where
  "buyXp uid i s =
     (case find_cosmetic i of
        None \<Rightarrow> (Inl ''not_found'', s)
      | Some c \<Rightarrow>
          if \<not> isXpPriced c then (Inl ''wrong_currency'', s)
          else case findById uid s of
            None \<Rightarrow> (Inl ''not_found'', s)
          | Some u \<Rightarrow>
              if i \<in> set (u_cosmetics u) then (Inl ''owned'', s)
              else purchaseCosmeticXp uid i (the (co_costXp c)) s)"

definition equip :: "user_id \<Rightarrow> string \<Rightarrow> users \<Rightarrow> (string + unit) \<times> users" where
  "equip uid i s =
     (case find_cosmetic i of
        None \<Rightarrow> (Inl ''not_found'', s)
      | Some c \<Rightarrow>
          (case findById uid s of
             None \<Rightarrow> (Inl ''not_found'', s)
           | Some u \<Rightarrow>
               if \<not> owns u c then (Inl ''not_owned'', s)
               else (Inr (), mark_reward uid
                  (case co_kind c of
                     CardBack \<Rightarrow> no_patch\<lparr>rp_cardBack := Some (Some (co_id c))\<rparr>
                   | TableFelt \<Rightarrow> no_patch\<lparr>rp_tableFelt := Some (Some (co_id c))\<rparr>) s)))"

subsection \<open>The status\<close>

record quest_row =
  qr_id :: string
  qr_goal :: nat
  qr_progress :: int
  qr_done :: bool
  qr_claimed :: bool
  qr_rewardXp :: nat

definition questRows :: "user \<Rightarrow> quest list \<Rightarrow> period_anchor \<Rightarrow> string list \<Rightarrow> (string \<Rightarrow> string) \<Rightarrow> quest_row list" where
  "questRows u quests baseline claimedKeys keyFor =
     map (\<lambda>q. let progress = min (questPeriodProgress u (q_metric q) baseline) (int (q_goal q))
              in \<lparr>qr_id = q_id q, qr_goal = q_goal q, qr_progress = progress, qr_done = (progress \<ge> int (q_goal q)),
                  qr_claimed = (keyFor (q_id q) \<in> set claimedKeys), qr_rewardXp = q_rewardXp q\<rparr>) quests"

record shop_row =
  sh_id :: string
  sh_kind :: cosmetic_type
  sh_cost :: cents
  sh_costXp :: "int option"
  sh_owned :: bool
  sh_featured :: bool

record rewards_status =
  st_xp :: int
  st_level :: nat
  st_spendableXp :: int
  st_canClaim :: bool
  st_streak :: nat
  st_dailyXp :: nat
  st_challenges :: "quest_row list"
  st_dailyQuests :: "quest_row list"
  st_weeklyQuests :: "quest_row list"
  st_levelReward :: "milestone option"
  st_achievements :: "(string \<times> int \<times> int \<times> bool) list"
  st_shop :: "shop_row list"
  st_equipped :: "string option \<times> string option"
  st_dailyDeal :: "(string \<times> int \<times> cents) option"

definition challenge_row :: "user \<Rightarrow> quest \<Rightarrow> quest_row" where
  "challenge_row u c =
     (let progress = min (questMetricValue u (q_metric c)) (int (q_goal c))
      in \<lparr>qr_id = q_id c, qr_goal = q_goal c, qr_progress = progress, qr_done = (progress \<ge> int (q_goal c)),
          qr_claimed = (q_id c \<in> set (rw_claimedChallenges (u_rewards u))), qr_rewardXp = q_rewardXp c\<rparr>)"

text \<open>Reading the status awards the achievements that are due and rolls the anchors over.\<close>

definition rewards_status_of :: "user_id \<Rightarrow> int \<Rightarrow> users \<Rightarrow> rewards_status option \<times> users" where
  "rewards_status_of uid now s =
     (case findById uid s of
        None \<Rightarrow> (None, s)
      | Some u0 \<Rightarrow>
          let newly = newlyEarnedAchievements u0;
              s1 = (if newly = [] then s
                    else mark_reward uid (no_patch\<lparr>rp_badges := Some (rw_badges (u_rewards u0) @ newly)\<rparr>) s);
              u = (case findById uid s1 of None \<Rightarrow> u0 | Some v \<Rightarrow> v)
          in case resolveAnchors uid u now s1 of
            ((daily, weekly), s2) \<Rightarrow>
              let r = u_rewards u; canClaim = \<not> claimed_today (rw_lastDailyClaim r) now
              in (Some
                 \<lparr>st_xp = u_xp u, st_level = lv_level (levelInfo (u_xp u)), st_spendableXp = max 0 (u_xp u - u_xpSpent u),
                  st_canClaim = canClaim, st_streak = rw_dailyStreak r,
                  st_dailyXp = dailyReward (if canClaim then next_streak r now else rw_dailyStreak r),
                  st_challenges = map (challenge_row u) CHALLENGES,
                  st_dailyQuests = questRows u (dailyQuestsFor now) daily (rw_claimedDailies r) (dailyClaimKey now),
                  st_weeklyQuests = questRows u (weeklyQuestsFor now) weekly (rw_claimedWeeklies r) (weeklyClaimKey now),
                  st_levelReward = pendingMilestone u,
                  st_achievements = map (\<lambda>a. (ac_id a, ac_threshold a, min (questMetricValue u (ac_metric a)) (ac_threshold a),
                     ac_id a \<in> set (rw_badges r))) ACHIEVEMENTS,
                  st_shop = map (\<lambda>c. \<lparr>sh_id = co_id c, sh_kind = co_kind c, sh_cost = co_cost c,
                     sh_costXp = (if isXpPriced c then co_costXp c else None), sh_owned = owns u c, sh_featured = co_featured c\<rparr>) COSMETICS,
                  st_equipped = (rw_cardBack r, rw_tableFelt r),
                  st_dailyDeal = (case dailyDealId now of None \<Rightarrow> None
                     | Some i \<Rightarrow> (case find_cosmetic i of None \<Rightarrow> None
                         | Some c \<Rightarrow> Some (co_id c, DEAL_PCT, dealPriceCents (co_cost c))))\<rparr>, s2))"

end
