(* ===== verification/Reward_Properties.thy ===== *)
theory Reward_Properties
  imports Rewards
begin

text \<open>
  Properties of the rewards: no reward is granted twice and XP comes from nothing else; a purchase for
  money charges exactly its price or changes nothing; the keys of a period; the quests of a period are
  different quests of the pool. Two histories show what the service does not intend: a weekly quest
  that is always done, and a purchase that a concurrent gift undoes.
\<close>

subsection \<open>What a claim reads and writes\<close>

type_synonym claims = "int option \<times> string list \<times> string list \<times> string list \<times> nat list \<times> string option"

definition claims_of :: "reward_state \<Rightarrow> claims" where
  "claims_of r = (rw_lastDailyClaim r, rw_claimedChallenges r, rw_claimedDailies r, rw_claimedWeeklies r,
     rw_collectedMilestones r, rw_lastVipGift r)"

definition patch_claims :: "rewards_patch \<Rightarrow> claims \<Rightarrow> claims" where
  "patch_claims p c =
     (case c of (ld, cc, cd, cw, cm, vg) \<Rightarrow>
        (keep_field (rp_lastDailyClaim p) ld, keep_field (rp_claimedChallenges p) cc, keep_field (rp_claimedDailies p) cd,
         keep_field (rp_claimedWeeklies p) cw, keep_field (rp_collectedMilestones p) cm, keep_field (rp_lastVipGift p) vg))"

text \<open>XP and claims of a user.\<close>

definition rv :: "users \<Rightarrow> user_id \<Rightarrow> (int \<times> claims) option" where
  "rv s v = map_option (\<lambda>u. (u_xp u, claims_of (u_rewards u))) (findById v s)"

lemma findById_put [simp]: "findById v (put_user uid u s) = (if v = uid then Some u else findById v s)"
  by (simp add: findById_def)

lemma find_patch [simp]:
  "findById v (snd (patch_user uid f s)) = (if v = uid then map_option f (findById uid s) else findById v s)"
  by (auto simp: patch_user_def findById_def split: option.split)

lemma rv_mark [simp]:
  "rv (mark_reward uid p s) v = (if v = uid then map_option (\<lambda>(x, c). (x, patch_claims p c)) (rv s uid) else rv s v)"
  by (simp add: rv_def mark_reward_def setRewards_def patch_rewards_def claims_of_def patch_claims_def option.map_comp comp_def)

lemma rv_xp [simp]:
  "rv (give_xp uid n s) v = (if v = uid then map_option (\<lambda>(x, c). (max 0 (x + int n), c)) (rv s uid) else rv s v)"
  by (simp add: rv_def give_xp_def addXp_def option.map_comp comp_def)

lemma rv_match [simp]:
  "rv (snd (applyMatchResult uid won pot g s)) v =
     (if v = uid then map_option (\<lambda>(x, c). (x + max 0 g, c)) (rv s uid) else rv s v)"
  by (simp add: rv_def applyMatchResult_def option.map_comp comp_def)

lemma rv_put_same:
  "map_of (us_byId s) uid = Some u0 \<Longrightarrow> u_xp u = u_xp u0 \<Longrightarrow> u_rewards u = u_rewards u0 \<Longrightarrow> rv (put_user uid u s) = rv s"
  by (auto simp: rv_def findById_def)

lemma rv_purchase [simp]: "rv (snd (purchaseCosmetic uid c 0 s)) = rv s" "rv (snd (purchaseCosmeticXp uid c n s)) = rv s"
  by (auto simp: purchaseCosmetic_def purchaseCosmeticXp_def rv_put_same split: option.split)

lemma patch_claims_none [simp]:
  "patch_claims no_patch c = c" "patch_claims (no_patch\<lparr>rp_dailyAnchor := a, rp_weeklyAnchor := b\<rparr>) c = c"
  "patch_claims (no_patch\<lparr>rp_badges := d\<rparr>) c = c" "patch_claims (no_patch\<lparr>rp_cardBack := e\<rparr>) c = c"
  "patch_claims (no_patch\<lparr>rp_tableFelt := f\<rparr>) c = c"
  by (simp_all add: patch_claims_def no_patch_def keep_field_def split: prod.split)

lemma rv_anchors [simp]: "rv (snd (resolveAnchors uid u now s)) = rv s"
  by (rule ext) (simp add: resolveAnchors_def Let_def option.map_id)

lemma rv_equip [simp]: "rv (snd (equip uid i s)) = rv s"
  by (rule ext) (simp add: equip_def option.map_id split: option.split cosmetic_type.split)

lemma rv_status [simp]: "rv (snd (rewards_status_of uid now s)) = rv s"
proof (cases "findById uid s")
  case (Some u0)
  define s1 where "s1 = (if newlyEarnedAchievements u0 = [] then s
    else mark_reward uid (no_patch\<lparr>rp_badges := Some (rw_badges (u_rewards u0) @ newlyEarnedAchievements u0)\<rparr>) s)"
  define u where "u = (case findById uid s1 of None \<Rightarrow> u0 | Some v \<Rightarrow> v)"
  obtain d w s2 where r: "resolveAnchors uid u now s1 = ((d, w), s2)" by (metis prod.exhaust)
  have "snd (rewards_status_of uid now s) = s2"
    unfolding rewards_status_of_def Some option.case Let_def by (simp only: s1_def[symmetric] u_def[symmetric] r prod.case snd_conv)
  moreover have "rv s2 = rv s1" using rv_anchors[of uid u now s1] r by simp
  moreover have "rv s1 = rv s" by (rule ext) (simp add: s1_def option.map_id)
  ultimately show ?thesis by simp
qed (simp add: rewards_status_of_def)

lemma rv_buyXp [simp]: "rv (snd (buyXp uid i s)) = rv s"
  by (simp add: buyXp_def split: option.split)


subsection \<open>Rewards and what records them\<close>

text \<open>What can be granted: the reward of a day, a challenge, a quest of a day or a week, a milestone, the
  gift of a week. \<open>recorded T c k\<close>: the claims \<open>c\<close> record the reward \<open>k\<close>, claimed at the latest at \<open>T\<close>.\<close>

datatype reward_key =
  DayReward int | ChallengeReward string | DailyQuestReward int string | WeeklyQuestReward int string
| MilestoneReward nat | WeeklyGift int

fun recorded :: "int \<Rightarrow> claims \<Rightarrow> reward_key \<Rightarrow> bool" where
  "recorded T (ld, cc, cd, cw, cm, vg) (DayReward d) = (\<exists>l. ld = Some l \<and> d \<le> dayIndex l)"
| "recorded T (ld, cc, cd, cw, cm, vg) (ChallengeReward i) = (i \<in> set cc)"
| "recorded T (ld, cc, cd, cw, cm, vg) (DailyQuestReward d i) = (\<forall>n. dayIndex n = d \<longrightarrow> dailyClaimKey n i \<in> set cd)"
| "recorded T (ld, cc, cd, cw, cm, vg) (WeeklyQuestReward w i) = (\<forall>n. week_index n = w \<longrightarrow> weeklyClaimKey n i \<in> set cw)"
| "recorded T (ld, cc, cd, cw, cm, vg) (MilestoneReward l) = (l \<in> set cm)"
| "recorded T (ld, cc, cd, cw, cm, vg) (WeeklyGift w) = (\<exists>n\<le>T. vg = Some (isoWeekKey n) \<and> w \<le> week_index n)"

datatype reward_op =
  RwDaily | RwChallenge string | RwDailyQuest string | RwWeeklyQuest string | RwLevel | RwGift bool bool
| RwBuyXp string | RwEquip string | RwStatus

text \<open>The reward an operation grants, and how much XP with it.\<close>

fun claim :: "reward_op \<Rightarrow> user_id \<Rightarrow> int \<Rightarrow> users \<Rightarrow> (reward_key \<times> nat) option \<times> users" where
  "claim RwDaily uid now s =
     (let (r, s') = claimDaily uid now s in (map_option (\<lambda>(xp, k). (DayReward (dayIndex now), xp)) r, s'))"
| "claim (RwChallenge i) uid now s =
     (let (r, s') = claimChallenge uid i s in (map_option (\<lambda>xp. (ChallengeReward i, xp)) r, s'))"
| "claim (RwDailyQuest i) uid now s =
     (let (r, s') = claimDailyQuest uid i now s in (map_option (\<lambda>xp. (DailyQuestReward (dayIndex now) i, xp)) r, s'))"
| "claim (RwWeeklyQuest i) uid now s =
     (let (r, s') = claimWeeklyQuest uid i now s in (map_option (\<lambda>xp. (WeeklyQuestReward (week_index now) i, xp)) r, s'))"
| "claim RwLevel uid now s =
     (let (r, s') = claimLevelReward uid s in (map_option (\<lambda>m. (MilestoneReward (ms_level m), ms_bonusXp m)) r, s'))"
| "claim (RwGift enabled isVip) uid now s =
     (let (r, s') = claimVipGift enabled uid isVip now s
      in (case r of Inl e \<Rightarrow> None
          | Inr g \<Rightarrow> Some (WeeklyGift (week_index now), case g of GiftCosmetic i \<Rightarrow> 0 | GiftXp xp \<Rightarrow> xp), s'))"
| "claim (RwBuyXp i) uid now s = (None, snd (buyXp uid i s))"
| "claim (RwEquip i) uid now s = (None, snd (equip uid i s))"
| "claim RwStatus uid now s = (None, snd (rewards_status_of uid now s))"

text \<open>A claim grants nothing and keeps XP and claims, or grants a reward that was not recorded.\<close>

definition granted :: "user_id \<Rightarrow> int \<Rightarrow> reward_key \<Rightarrow> nat \<Rightarrow> users \<Rightarrow> users \<Rightarrow> bool" where
  "granted uid now k xp s s' \<longleftrightarrow>
     (\<exists>y c c'. rv s uid = Some (y, c) \<and> rv s' = (rv s)(uid := Some (y + int xp, c')) \<and>
        (\<forall>T\<le>now. \<not> recorded T c k) \<and> recorded now c' k \<and> (\<forall>T\<le>now. \<forall>j. recorded T c j \<longrightarrow> recorded now c' j))"

definition claim_ok :: "user_id \<Rightarrow> int \<Rightarrow> (reward_key \<times> nat) option \<Rightarrow> users \<Rightarrow> users \<Rightarrow> bool" where
  "claim_ok uid now g s s' \<longleftrightarrow> (case g of None \<Rightarrow> rv s' = rv s | Some (k, xp) \<Rightarrow> granted uid now k xp s s')"

definition xp_nonneg :: "users \<Rightarrow> bool" where
  "xp_nonneg s \<longleftrightarrow> (\<forall>v y c. rv s v = Some (y, c) \<longrightarrow> 0 \<le> y)"

lemma recorded_later: "recorded T c k \<Longrightarrow> T \<le> now \<Longrightarrow> recorded now c k"
  by (cases k; cases c) (auto intro: order_trans)

lemma rv_known: "findById uid s = Some u \<Longrightarrow> rv s uid = Some (u_xp u, claims_of (u_rewards u))"
  by (simp add: rv_def)

lemma day_key_same: "dayIndex a = dayIndex b \<Longrightarrow> dailyClaimKey a i = dailyClaimKey b i"
  by (simp add: dailyClaimKey_def utcDayKey_def)

lemma week_key_same: "week_index a = week_index b \<Longrightarrow> weeklyClaimKey a i = weeklyClaimKey b i"
  using week_key_iff[of a b] by (simp add: weeklyClaimKey_def)

text \<open>Every claim ends like this: XP added and one claim recorded.\<close>

lemma grantedI:
  assumes "findById uid s = Some u" "xp_nonneg s"
    and "rv s' = (rv s)(uid := Some (u_xp u + int xp, patch_claims p (claims_of (u_rewards u))))"
    and "\<And>T. T \<le> now \<Longrightarrow> \<not> recorded T (claims_of (u_rewards u)) k"
    and "recorded now (patch_claims p (claims_of (u_rewards u))) k"
    and "\<And>T j. T \<le> now \<Longrightarrow> recorded T (claims_of (u_rewards u)) j \<Longrightarrow> recorded now (patch_claims p (claims_of (u_rewards u))) j"
  shows "claim_ok uid now (Some (k, xp)) s s'"
  unfolding claim_ok_def granted_def option.case prod.case
  by (rule exI[of _ "u_xp u"], rule exI[of _ "claims_of (u_rewards u)"], rule exI[of _ "patch_claims p (claims_of (u_rewards u))"])
     (use assms(3-6) rv_known[OF assms(1)] in blast)

lemma nonneg_mark:
  assumes "xp_nonneg s"
  shows "xp_nonneg (mark_reward uid p s)"
  unfolding xp_nonneg_def
proof (intro allI impI)
  fix v y c
  assume "rv (mark_reward uid p s) v = Some (y, c)"
  then have "\<exists>c'. rv s v = Some (y, c')" by (cases c; cases "v = uid"; cases "rv s uid") auto
  with assms show "0 \<le> y" unfolding xp_nonneg_def by blast
qed

lemma rv_grant:
  assumes "findById uid s = Some u" "xp_nonneg s" "rv s1 = rv s"
  shows "rv (mark_reward uid p (give_xp uid xp s1)) = (rv s)(uid := Some (u_xp u + int xp, patch_claims p (claims_of (u_rewards u))))"
    "rv (give_xp uid xp (mark_reward uid p s1)) = (rv s)(uid := Some (u_xp u + int xp, patch_claims p (claims_of (u_rewards u))))"
    "rv (mark_reward uid p s1) = (rv s)(uid := Some (u_xp u + int 0, patch_claims p (claims_of (u_rewards u))))"
proof -
  have x: "0 \<le> u_xp u" using rv_known[OF assms(1)] assms(2) unfolding xp_nonneg_def by blast
  then show "rv (mark_reward uid p (give_xp uid xp s1)) = (rv s)(uid := Some (u_xp u + int xp, patch_claims p (claims_of (u_rewards u))))"
    "rv (give_xp uid xp (mark_reward uid p s1)) = (rv s)(uid := Some (u_xp u + int xp, patch_claims p (claims_of (u_rewards u))))"
    "rv (mark_reward uid p s1) = (rv s)(uid := Some (u_xp u + int 0, patch_claims p (claims_of (u_rewards u))))"
    by (auto simp: assms(3) rv_known[OF assms(1)])
qed


lemma claim_ok_none: "rv s' = rv s \<Longrightarrow> claim_ok uid now None s s'"
  by (simp add: claim_ok_def)

lemmas patch_fields = patch_claims_def claims_of_def no_patch_def keep_field_def

text \<open>Recorded rewards stay recorded when one list of claims grows.\<close>

lemma recorded_mono:
  assumes "recorded T (ld, cc, cd, cw, cm, vg) j" "T \<le> now" "set cc \<subseteq> set cc'" "set cd \<subseteq> set cd'" "set cw \<subseteq> set cw'" "set cm \<subseteq> set cm'"
    and "\<And>l. ld = Some l \<Longrightarrow> \<exists>l'. ld' = Some l' \<and> dayIndex l \<le> dayIndex l'"
    and "\<And>n. vg = Some (isoWeekKey n) \<Longrightarrow> n \<le> now \<Longrightarrow> \<exists>n'\<le>now. vg' = Some (isoWeekKey n') \<and> week_index n \<le> week_index n'"
  shows "recorded now (ld', cc', cd', cw', cm', vg') j"
proof (cases j)
  case (DayReward d)
  then obtain l where "ld = Some l" "d \<le> dayIndex l" using assms(1) by auto
  with assms(7)[of l] DayReward show ?thesis by force
next
  case (WeeklyGift w)
  then obtain n where "n \<le> T" "vg = Some (isoWeekKey n)" "w \<le> week_index n" using assms(1) by auto
  then obtain n' where "n' \<le> now" "vg' = Some (isoWeekKey n')" "w \<le> week_index n'"
    using assms(2) assms(8)[of n] by fastforce
  with WeeklyGift show ?thesis by auto
qed (use assms in auto)

lemma daily_claim_ok:
  assumes "xp_nonneg s"
  shows "claim_ok uid now (fst (claim RwDaily uid now s)) s (snd (claim RwDaily uid now s))"
proof (cases "findById uid s")
  case None
  then show ?thesis by (simp add: claimDaily_def claim_ok_none)
next
  case (Some u)
  let ?r = "u_rewards u"
  show ?thesis
  proof (cases "claimed_today (rw_lastDailyClaim ?r) now")
    case True
    then show ?thesis using Some by (simp add: claimDaily_def claim_ok_none)
  next
    case False
    let ?p = "no_patch\<lparr>rp_lastDailyClaim := Some (Some now), rp_dailyStreak := Some (next_streak ?r now)\<rparr>"
    let ?xp = "dailyReward (next_streak ?r now)"
    have "claim_ok uid now (Some (DayReward (dayIndex now), ?xp)) s (mark_reward uid ?p (give_xp uid ?xp s))"
    proof (rule grantedI[OF Some assms rv_grant(1)[OF Some assms refl]])
      show "\<not> recorded T (claims_of ?r) (DayReward (dayIndex now))" for T
        using False by (auto simp: claims_of_def claimed_today_def)
      show "recorded now (patch_claims ?p (claims_of ?r)) (DayReward (dayIndex now))" by (simp add: patch_fields)
      show "recorded now (patch_claims ?p (claims_of ?r)) j" if "T \<le> now" "recorded T (claims_of ?r) j" for T j
        using that(2) False unfolding patch_fields
        by (simp del: recorded.simps, elim recorded_mono) (use that(1) in \<open>auto simp: claimed_today_def split: option.splits\<close>)
    qed
    then show ?thesis using Some False by (simp add: claimDaily_def Let_def)
  qed
qed

lemma challenge_claim_ok:
  assumes "xp_nonneg s"
  shows "claim_ok uid now (fst (claim (RwChallenge i) uid now s)) s (snd (claim (RwChallenge i) uid now s))"
proof (cases "List.find (\<lambda>c. q_id c = i) CHALLENGES")
  case None
  then show ?thesis by (simp add: claimChallenge_def claim_ok_none)
next
  case (Some c)
  then have i: "q_id c = i" by (auto simp: find_Some_iff)
  note c = Some
  show ?thesis
  proof (cases "findById uid s")
    case None
    then show ?thesis using c by (simp add: claimChallenge_def claim_ok_none)
  next
    case (Some u)
    let ?r = "u_rewards u"
    show ?thesis
    proof (cases "q_id c \<in> set (rw_claimedChallenges ?r) \<or> questMetricValue u (q_metric c) < int (q_goal c)")
      case True
      then show ?thesis using c Some by (auto simp: claimChallenge_def claim_ok_none)
    next
      case False
      let ?p = "no_patch\<lparr>rp_claimedChallenges := Some (rw_claimedChallenges ?r @ [q_id c])\<rparr>"
      have "claim_ok uid now (Some (ChallengeReward i, q_rewardXp c)) s (mark_reward uid ?p (give_xp uid (q_rewardXp c) s))"
      proof (rule grantedI[OF Some assms rv_grant(1)[OF Some assms refl]])
        show "\<not> recorded T (claims_of ?r) (ChallengeReward i)" for T using False i by (simp add: claims_of_def)
        show "recorded now (patch_claims ?p (claims_of ?r)) (ChallengeReward i)" by (simp add: patch_fields i)
        show "recorded now (patch_claims ?p (claims_of ?r)) j" if "T \<le> now" "recorded T (claims_of ?r) j" for T j
          using that(2) unfolding patch_fields by (simp del: recorded.simps, elim recorded_mono) (use that(1) in auto)
      qed
      then show ?thesis using c Some False by (simp add: claimChallenge_def)
    qed
  qed
qed

lemma daily_quest_claim_ok:
  assumes "xp_nonneg s"
  shows "claim_ok uid now (fst (claim (RwDailyQuest i) uid now s)) s (snd (claim (RwDailyQuest i) uid now s))"
proof (cases "List.find (\<lambda>q. q_id q = i) (dailyQuestsFor now)")
  case None
  then show ?thesis by (simp add: claimDailyQuest_def claim_ok_none)
next
  case (Some q)
  then have i: "q_id q = i" by (auto simp: find_Some_iff)
  note q = Some
  show ?thesis
  proof (cases "findById uid s")
    case None
    then show ?thesis using q by (simp add: claimDailyQuest_def claim_ok_none)
  next
    case (Some u)
    let ?r = "u_rewards u"
    obtain d w s1 where a: "resolveAnchors uid u now s = ((d, w), s1)" by (metis prod.exhaust)
    then have s1: "rv s1 = rv s" using rv_anchors[of uid u now s] by simp
    show ?thesis
    proof (cases "dailyClaimKey now (q_id q) \<in> set (rw_claimedDailies ?r) \<or> questPeriodProgress u (q_metric q) d < int (q_goal q)")
      case True
      then show ?thesis using q Some a s1 by (auto simp: claimDailyQuest_def claim_ok_none Let_def)
    next
      case False
      let ?p = "no_patch\<lparr>rp_claimedDailies := Some (rw_claimedDailies ?r @ [dailyClaimKey now i])\<rparr>"
      have "claim_ok uid now (Some (DailyQuestReward (dayIndex now) i, q_rewardXp q)) s (mark_reward uid ?p (give_xp uid (q_rewardXp q) s1))"
      proof (rule grantedI[OF Some assms rv_grant(1)[OF Some assms s1]])
        show "\<not> recorded T (claims_of ?r) (DailyQuestReward (dayIndex now) i)" for T using False i by (auto simp: claims_of_def)
        show "recorded now (patch_claims ?p (claims_of ?r)) (DailyQuestReward (dayIndex now) i)"
          by (simp add: patch_fields) (metis day_key_same)
        show "recorded now (patch_claims ?p (claims_of ?r)) j" if "T \<le> now" "recorded T (claims_of ?r) j" for T j
          using that(2) unfolding patch_fields by (simp del: recorded.simps, elim recorded_mono) (use that(1) in auto)
      qed
      then show ?thesis using q Some False a i by (simp add: claimDailyQuest_def Let_def)
    qed
  qed
qed

lemma weekly_quest_claim_ok:
  assumes "xp_nonneg s"
  shows "claim_ok uid now (fst (claim (RwWeeklyQuest i) uid now s)) s (snd (claim (RwWeeklyQuest i) uid now s))"
proof (cases "List.find (\<lambda>q. q_id q = i) (weeklyQuestsFor now)")
  case None
  then show ?thesis by (simp add: claimWeeklyQuest_def claim_ok_none)
next
  case (Some q)
  then have i: "q_id q = i" by (auto simp: find_Some_iff)
  note q = Some
  show ?thesis
  proof (cases "findById uid s")
    case None
    then show ?thesis using q by (simp add: claimWeeklyQuest_def claim_ok_none)
  next
    case (Some u)
    let ?r = "u_rewards u"
    obtain d w s1 where a: "resolveAnchors uid u now s = ((d, w), s1)" by (metis prod.exhaust)
    then have s1: "rv s1 = rv s" using rv_anchors[of uid u now s] by simp
    show ?thesis
    proof (cases "weeklyClaimKey now (q_id q) \<in> set (rw_claimedWeeklies ?r) \<or> questPeriodProgress u (q_metric q) w < int (q_goal q)")
      case True
      then show ?thesis using q Some a s1 by (auto simp: claimWeeklyQuest_def claim_ok_none Let_def)
    next
      case False
      let ?p = "no_patch\<lparr>rp_claimedWeeklies := Some (rw_claimedWeeklies ?r @ [weeklyClaimKey now i])\<rparr>"
      have "claim_ok uid now (Some (WeeklyQuestReward (week_index now) i, q_rewardXp q)) s (mark_reward uid ?p (give_xp uid (q_rewardXp q) s1))"
      proof (rule grantedI[OF Some assms rv_grant(1)[OF Some assms s1]])
        show "\<not> recorded T (claims_of ?r) (WeeklyQuestReward (week_index now) i)" for T using False i by (auto simp: claims_of_def)
        show "recorded now (patch_claims ?p (claims_of ?r)) (WeeklyQuestReward (week_index now) i)"
          by (simp add: patch_fields) (metis week_key_same)
        show "recorded now (patch_claims ?p (claims_of ?r)) j" if "T \<le> now" "recorded T (claims_of ?r) j" for T j
          using that(2) unfolding patch_fields by (simp del: recorded.simps, elim recorded_mono) (use that(1) in auto)
      qed
      then show ?thesis using q Some False a i by (simp add: claimWeeklyQuest_def Let_def)
    qed
  qed
qed

lemma level_claim_ok:
  assumes "xp_nonneg s"
  shows "claim_ok uid now (fst (claim RwLevel uid now s)) s (snd (claim RwLevel uid now s))"
proof (cases "findById uid s")
  case None
  then show ?thesis by (simp add: claimLevelReward_def claim_ok_none)
next
  case (Some u)
  let ?r = "u_rewards u"
  show ?thesis
  proof (cases "pendingMilestone u")
    case None
    then show ?thesis using Some by (simp add: claimLevelReward_def claim_ok_none)
  next
    case (Some m)
    note u = \<open>findById uid s = Some u\<close>
    show ?thesis
    proof (cases "ms_level m \<in> set (rw_collectedMilestones ?r)")
      case True
      then show ?thesis using u Some by (simp add: claimLevelReward_def claim_ok_none)
    next
      case False
      let ?p = "no_patch\<lparr>rp_collectedMilestones := Some (rw_collectedMilestones ?r @ [ms_level m])\<rparr>"
      let ?s' = "snd (claimLevelReward uid s)"
      have "rv ?s' = rv (give_xp uid (ms_bonusXp m) (mark_reward uid ?p s))"
      proof -
        have none: "rv (give_xp uid 0 t) = rv t" if "xp_nonneg t" for t
        proof (rule ext)
          fix v
          have "0 \<le> y" if "rv t uid = Some (y, c)" for y c using that \<open>xp_nonneg t\<close> unfolding xp_nonneg_def by blast
          then show "rv (give_xp uid 0 t) v = rv t v" by (cases "rv t uid") (auto simp: max_def)
        qed
        from none[OF nonneg_mark[OF assms]] show ?thesis
          using u Some False by (simp add: claimLevelReward_def Let_def split: option.split)
      qed
      then have e: "rv ?s' = (rv s)(uid := Some (u_xp u + int (ms_bonusXp m), patch_claims ?p (claims_of ?r)))"
        using rv_grant(2)[OF u assms refl, of "ms_bonusXp m" ?p] by simp
      have "claim_ok uid now (Some (MilestoneReward (ms_level m), ms_bonusXp m)) s ?s'"
      proof (rule grantedI[OF u assms e])
        show "\<not> recorded T (claims_of ?r) (MilestoneReward (ms_level m))" for T using False by (simp add: claims_of_def)
        show "recorded now (patch_claims ?p (claims_of ?r)) (MilestoneReward (ms_level m))" by (simp add: patch_fields)
        show "recorded now (patch_claims ?p (claims_of ?r)) j" if "T \<le> now" "recorded T (claims_of ?r) j" for T j
          using that(2) unfolding patch_fields by (simp del: recorded.simps, elim recorded_mono) (use that(1) in auto)
      qed
      moreover have "fst (claimLevelReward uid s) = Some m" using u Some False by (simp add: claimLevelReward_def Let_def)
      ultimately show ?thesis by (simp add: case_prod_beta Let_def)
    qed
  qed
qed

lemma gift_claim_ok:
  assumes "xp_nonneg s"
  shows "claim_ok uid now (fst (claim (RwGift e b) uid now s)) s (snd (claim (RwGift e b) uid now s))"
proof (cases "\<not> e \<or> \<not> b \<or> findById uid s = None")
  case True
  then show ?thesis by (auto simp: claimVipGift_def claim_ok_none)
next
  case False
  then obtain u where u: "findById uid s = Some u" and eb: "e" "b" by auto
  let ?r = "u_rewards u" and ?week = "isoWeekKey now"
  show ?thesis
  proof (cases "rw_lastVipGift ?r = Some ?week")
    case True
    then show ?thesis using u eb by (simp add: claimVipGift_def claim_ok_none)
  next
    case False
    define g where "g = (case gift_item u ?week of None \<Rightarrow> GiftXp VIP_GIFT_XP | Some i \<Rightarrow> GiftCosmetic i)"
    define xp where "xp = (case g of GiftCosmetic i \<Rightarrow> 0 | GiftXp n \<Rightarrow> n)"
    define p where "p = (case gift_item u ?week of None \<Rightarrow> no_patch\<lparr>rp_lastVipGift := Some (Some ?week)\<rparr>
      | Some i \<Rightarrow> no_patch\<lparr>rp_cosmetics := Some (u_cosmetics u @ [i]), rp_lastVipGift := Some (Some ?week)\<rparr>)"
    define s' where "s' = snd (write_gift uid u ?week s)"
    have "fst (write_gift uid u ?week s) = g" by (simp add: write_gift_def g_def split: option.split)
    then have w: "write_gift uid u ?week s = (g, s')" by (simp add: s'_def prod_eq_iff)
    have pf: "patch_claims p (ld, cc, cd, cw, cm, vg) = (ld, cc, cd, cw, cm, Some ?week)" for ld cc cd cw cm vg
      by (simp add: p_def patch_fields split: option.split)
    have rv: "rv s' = (rv s)(uid := Some (u_xp u + int xp, patch_claims p (claims_of ?r)))"
    proof (cases "gift_item u ?week")
      case None
      then show ?thesis using rv_grant(2)[OF u assms refl, of xp p] by (simp add: s'_def write_gift_def g_def xp_def p_def)
    next
      case (Some i)
      then show ?thesis using rv_grant(3)[OF u assms refl, of p] by (simp add: s'_def write_gift_def g_def xp_def p_def)
    qed
    have week: "week_index n < week_index now" if "rw_lastVipGift ?r = Some (isoWeekKey n)" "n \<le> now" for n
    proof -
      have "isoWeekKey n \<noteq> ?week" using that(1) False by auto
      then have "week_index n \<noteq> week_index now" by (simp add: week_key_iff)
      moreover have "week_index n \<le> week_index now" using that(2) by (simp add: week_index_def dayIndex_def zdiv_mono1)
      ultimately show ?thesis by simp
    qed
    have "claim_ok uid now (Some (WeeklyGift (week_index now), xp)) s s'"
    proof (rule grantedI[OF u assms rv])
      show "\<not> recorded T (claims_of ?r) (WeeklyGift (week_index now))" if "T \<le> now" for T
      proof
        assume "recorded T (claims_of ?r) (WeeklyGift (week_index now))"
        then obtain n where n: "n \<le> T" "rw_lastVipGift ?r = Some (isoWeekKey n)" "week_index now \<le> week_index n"
          by (auto simp: claims_of_def)
        with week[of n] that show False by simp
      qed
      show "recorded now (patch_claims p (claims_of ?r)) (WeeklyGift (week_index now))"
        unfolding claims_of_def pf by auto
      show "recorded now (patch_claims p (claims_of ?r)) j" if "T \<le> now" "recorded T (claims_of ?r) j" for T j
      proof -
        have "\<exists>n'\<le>now. Some ?week = Some (isoWeekKey n') \<and> week_index n \<le> week_index n'"
          if "rw_lastVipGift ?r = Some (isoWeekKey n)" "n \<le> now" for n
          using week[OF that] by (intro exI[of _ now]) simp
        then show ?thesis using that(2) unfolding claims_of_def pf by (elim recorded_mono) (use that(1) in auto)
      qed
    qed
    then show ?thesis using u eb False w by (simp add: claimVipGift_def xp_def split: gift.split_asm)
  qed
qed

lemma claim_ok:
  assumes "xp_nonneg s"
  shows "claim_ok uid now (fst (claim op uid now s)) s (snd (claim op uid now s))"
proof (cases op)
  case (RwBuyXp i)
  then show ?thesis by (simp add: claim_ok_none)
next
  case (RwEquip i)
  then show ?thesis by (simp add: claim_ok_none)
next
  case RwStatus
  then show ?thesis by (simp add: claim_ok_none)
qed (simp_all only: daily_claim_ok[OF assms] challenge_claim_ok[OF assms] daily_quest_claim_ok[OF assms]
  weekly_quest_claim_ok[OF assms] level_claim_ok[OF assms] gift_claim_ok[OF assms])

subsection \<open>A purchase for money\<close>

lemma balance_frame: "adjustBalance uid d us = (r, us') \<Longrightarrow> rv us' = rv us"
  by (auto simp: adjustBalance_def rv_put_same Let_def split: option.splits if_splits)

lemma debit_frame_rv: "rv (m_users (snd (debit bind_wallet uid amt opts now s))) = rv (m_users s)"
  by (auto simp: debit_def run_wallet_def bind_wallet_def compensates_def balance_frame
      split: option.split prod.split sum.split)

lemma charge_frame: "rv (m_users (snd (charge_and_grant uid c amt now s))) = rv (m_users s)"
proof (cases "debit bind_wallet uid amt (plain_debit Purchase (''cosmetic:'' @ co_id c)) now s")
  case (Pair r s1)
  then have s1: "rv (m_users s1) = rv (m_users s)"
    using debit_frame_rv[of uid amt "plain_debit Purchase (''cosmetic:'' @ co_id c)" now s] by simp
  show ?thesis
  proof (cases r)
    case (Inr m)
    obtain g us where g: "purchaseCosmetic uid (co_id c) 0 (m_users s1) = (g, us)" by fastforce
    then have "rv us = rv (m_users s1)" using rv_purchase(1)[of uid "co_id c" "m_users s1"] by simp
    then show ?thesis using Pair Inr s1 g by (cases g) (simp_all add: charge_and_grant_def on_users_def)
  qed (use Pair s1 in \<open>simp add: charge_and_grant_def\<close>)
qed

lemma tx_frame:
  assumes "rolls_back uow"
  shows "rv (m_users (snd (transaction_in uow (charge_and_grant uid c amt now) s))) = rv (m_users s)"
  using charge_frame[of uid c amt now s] assms
  by (cases "charge_and_grant uid c amt now s"; cases "fst (charge_and_grant uid c amt now s)")
     (simp_all add: transaction_in_def rolls_back_def)

lemma buy_frame: "rolls_back uow \<Longrightarrow> rv (m_users (snd (buy (Some uow) w uid i now s))) = rv (m_users s)"
  by (simp add: buy_def case_prod_beta Let_def tx_frame split: option.split)

subsection \<open>Histories\<close>

datatype reward_event = Claim reward_op | BuyItem string | PlayedMatch bool cents int

type_synonym grants = "(user_id \<times> reward_key \<times> nat) list"

text \<open>The log collects the rewards granted.\<close>

fun reward_step :: "('z money_store_scheme \<Rightarrow> 'z money_store_scheme \<Rightarrow> 'z money_store_scheme) \<Rightarrow>
    grants \<times> 'z money_store_scheme \<Rightarrow> user_id \<times> int \<times> reward_event \<Rightarrow> grants \<times> 'z money_store_scheme" where
  "reward_step uow (gs, s) (uid, now, Claim op) =
     (gs @ (case fst (claim op uid now (m_users s)) of None \<Rightarrow> [] | Some (k, xp) \<Rightarrow> [(uid, k, xp)]),
      s\<lparr>m_users := snd (claim op uid now (m_users s))\<rparr>)"
| "reward_step uow (gs, s) (uid, now, BuyItem i) = (gs, snd (buy (Some uow) (tx_wallet uow) uid i now s))"
| "reward_step uow (gs, s) (uid, now, PlayedMatch won pot g) =
     (gs, s\<lparr>m_users := snd (applyMatchResult uid won pot g (m_users s))\<rparr>)"

definition granted_xp :: "user_id \<Rightarrow> grants \<Rightarrow> int" where
  "granted_xp uid gs = (\<Sum>(v, k, xp)\<leftarrow>gs. if v = uid then int xp else 0)"

fun match_xp :: "user_id \<Rightarrow> (user_id \<times> int \<times> reward_event) list \<Rightarrow> int" where
  "match_xp uid [] = 0"
| "match_xp uid ((v, now, PlayedMatch won pot g) # es) = (if v = uid then max 0 g else 0) + match_xp uid es"
| "match_xp uid (e # es) = match_xp uid es"

definition log_keys :: "grants \<Rightarrow> (user_id \<times> reward_key) list" where
  "log_keys gs = map (\<lambda>(v, k, xp). (v, k)) gs"

definition logged :: "int \<Rightarrow> grants \<Rightarrow> users \<Rightarrow> bool" where
  "logged T gs us \<longleftrightarrow> distinct (log_keys gs) \<and> xp_nonneg us \<and>
     (\<forall>(v, k)\<in>set (log_keys gs). \<exists>y c. rv us v = Some (y, c) \<and> recorded T c k)"

definition xp_of :: "users \<Rightarrow> user_id \<Rightarrow> int" where
  "xp_of us v = (case rv us v of None \<Rightarrow> 0 | Some (y, c) \<Rightarrow> y)"

lemma loggedD:
  assumes "logged T gs us" "(v, k) \<in> set (log_keys gs)"
  shows "\<exists>y c. rv us v = Some (y, c) \<and> recorded T c k"
proof -
  have "\<forall>p\<in>set (log_keys gs). case p of (v, k) \<Rightarrow> \<exists>y c. rv us v = Some (y, c) \<and> recorded T c k"
    using assms(1) unfolding logged_def by (rule conjunct2[OF conjunct2])
  from bspec[OF this assms(2)] show ?thesis by (simp only: prod.case)
qed

lemma logged_frame:
  assumes "logged T gs us" "rv us' = rv us" "T \<le> now"
  shows "logged now gs us'"
proof -
  have "\<exists>y c. rv us' v = Some (y, c) \<and> recorded now c k" if mem: "(v, k) \<in> set (log_keys gs)" for v k
  proof -
    obtain y c where o: "rv us v = Some (y, c)" "recorded T c k" using loggedD[OF assms(1) mem] by (elim exE conjE)
    show ?thesis by (rule exI[of _ y], rule exI[of _ c]) (use o(1) assms(2) recorded_later[OF o(2) assms(3)] in metis)
  qed
  then show ?thesis using assms(1,2) unfolding logged_def xp_nonneg_def by (auto simp del: recorded.simps)
qed

lemma logged_grant:
  assumes "logged T gs us" "granted uid now k xp us us'" "T \<le> now"
  shows "logged now (gs @ [(uid, k, xp)]) us'" "xp_of us' v = xp_of us v + (if v = uid then int xp else 0)"
proof -
  obtain y c c' where g: "rv us uid = Some (y, c)" "rv us' = (rv us)(uid := Some (y + int xp, c'))" "\<not> recorded T c k"
    "recorded now c' k" "\<And>j. recorded T c j \<Longrightarrow> recorded now c' j"
    using assms(2,3) unfolding granted_def by blast
  have L: "distinct (log_keys gs)" "xp_nonneg us" "\<And>v j. (v, j) \<in> set (log_keys gs) \<Longrightarrow> \<exists>y c. rv us v = Some (y, c) \<and> recorded T c j"
    using assms(1) unfolding logged_def by auto
  have new: "(uid, k) \<notin> set (log_keys gs)" using L(3)[of uid k] g(1,3) by auto
  have keys: "log_keys (gs @ [(uid, k, xp)]) = log_keys gs @ [(uid, k)]" by (simp add: log_keys_def)
  have "\<exists>y c. rv us' v = Some (y, c) \<and> recorded now c j" if "(v, j) \<in> set (log_keys gs @ [(uid, k)])" for v j
  proof (cases "(v, j) = (uid, k)")
    case False
    with that obtain y0 c0 where o: "rv us v = Some (y0, c0)" "recorded T c0 j" using L(3)[of v j] by auto
    show ?thesis
    proof (cases "v = uid")
      case True
      with o g show ?thesis by auto
    next
      case False
      with o g(2) recorded_later[OF o(2) assms(3)] show ?thesis by auto
    qed
  qed (use g in auto)
  moreover have "0 \<le> z" if "rv us' v = Some (z, d)" for v z d
  proof (cases "v = uid")
    case True
    with that g have "z = y + int xp" by simp
    moreover have "0 \<le> y" using L(2) g(1) unfolding xp_nonneg_def by blast
    ultimately show ?thesis by simp
  next
    case False
    with that g(2) L(2) show ?thesis unfolding xp_nonneg_def by (metis fun_upd_other)
  qed
  ultimately show "logged now (gs @ [(uid, k, xp)]) us'"
    using L(1) new unfolding logged_def keys xp_nonneg_def by (auto simp del: recorded.simps)
  show "xp_of us' v = xp_of us v + (if v = uid then int xp else 0)" by (simp add: xp_of_def g)
qed

lemma reward_step_ok:
  assumes "rolls_back uow" "logged T gs (m_users s)" "T \<le> now" "reward_step uow (gs, s) (uid, now, e) = (gs', s')"
  shows "logged now gs' (m_users s')"
    "rv (m_users s) v \<noteq> None \<Longrightarrow> rv (m_users s') v \<noteq> None \<and>
       xp_of (m_users s') v = xp_of (m_users s) v + (granted_xp v gs' - granted_xp v gs) + match_xp v [(uid, now, e)]"
proof -
  have pos: "xp_nonneg (m_users s)" using assms(2) by (simp add: logged_def)
  have "logged now gs' (m_users s') \<and> (rv (m_users s) v \<noteq> None \<longrightarrow> rv (m_users s') v \<noteq> None \<and>
       xp_of (m_users s') v = xp_of (m_users s) v + (granted_xp v gs' - granted_xp v gs) + match_xp v [(uid, now, e)])"
  proof (cases e)
    case (Claim op)
    note ok = claim_ok[OF pos, of uid now op]
    show ?thesis
    proof (cases "fst (claim op uid now (m_users s))")
      case None
      with ok have "rv (m_users s') = rv (m_users s)" "gs' = gs" using assms(4) Claim by (auto simp: claim_ok_def)
      then show ?thesis using logged_frame[OF assms(2) _ assms(3)] Claim by (simp add: xp_of_def)
    next
      case (Some kx)
      obtain k xp where kx: "kx = (k, xp)" by (cases kx)
      have l: "gs' = gs @ [(uid, k, xp)]" and u: "m_users s' = snd (claim op uid now (m_users s))"
        using assms(4) Claim Some kx by auto
      have g: "granted uid now k xp (m_users s) (m_users s')" using ok Some kx u by (simp add: claim_ok_def)
      then have "rv (m_users s') v \<noteq> None" if "rv (m_users s) v \<noteq> None" using that by (auto simp: granted_def)
      then show ?thesis using logged_grant[OF assms(2) g assms(3)] Claim l by (simp add: granted_xp_def)
    qed
  next
    case (BuyItem i)
    then have "rv (m_users s') = rv (m_users s)" "gs' = gs"
      using assms(4) buy_frame[OF assms(1), of "tx_wallet uow" uid i now s] by auto
    then show ?thesis using logged_frame[OF assms(2) _ assms(3)] BuyItem by (simp add: xp_of_def)
  next
    case (PlayedMatch won pot g)
    have r: "rv (m_users s') x = (if x = uid then map_option (\<lambda>(y, c). (y + max 0 g, c)) (rv (m_users s) uid) else rv (m_users s) x)" for x
      using assms(4) PlayedMatch by auto
    have l: "gs' = gs" using assms(4) PlayedMatch by auto
    have "logged now gs (m_users s')"
    proof -
      have "\<exists>y c. rv (m_users s') x = Some (y, c) \<and> recorded now c k" if mem: "(x, k) \<in> set (log_keys gs)" for x k
      proof -
        obtain y c where o: "rv (m_users s) x = Some (y, c)" "recorded T c k" using loggedD[OF assms(2) mem] by (elim exE conjE)
        show ?thesis
          by (rule exI[of _ "if x = uid then y + max 0 g else y"], rule exI[of _ c])
             (use o(1) recorded_later[OF o(2) assms(3)] in \<open>cases c; auto simp: r simp del: recorded.simps\<close>)
      qed
      moreover have "xp_nonneg (m_users s')"
        unfolding xp_nonneg_def
      proof (intro allI impI)
        fix x y c
        assume "rv (m_users s') x = Some (y, c)"
        then obtain z where "rv (m_users s) x = Some (z, c)" "z \<le> y" by (cases "x = uid") (auto simp: r)
        with pos show "0 \<le> y" unfolding xp_nonneg_def by (metis order_trans)
      qed
      ultimately show ?thesis using assms(2) unfolding logged_def by (auto simp del: recorded.simps)
    qed
    moreover have "xp_of (m_users s') v = xp_of (m_users s) v + match_xp v [(uid, now, e)]" if "rv (m_users s) v \<noteq> None"
      using that PlayedMatch by (auto simp: xp_of_def r)
    ultimately show ?thesis using l by (auto simp: r)
  qed
  then show "logged now gs' (m_users s')"
    "rv (m_users s) v \<noteq> None \<Longrightarrow> rv (m_users s') v \<noteq> None \<and>
       xp_of (m_users s') v = xp_of (m_users s) v + (granted_xp v gs' - granted_xp v gs) + match_xp v [(uid, now, e)]"
    by blast+
qed

lemma match_xp_cons: "match_xp v (e # es) = match_xp v [e] + match_xp v es"
  by (cases e; cases "snd (snd e)") auto

lemma reward_run_ok:
  assumes "rolls_back uow" "sorted (T # map (\<lambda>(u, t, e). t) es)" "logged T gs (m_users s)"
    and "foldl (reward_step uow) (gs, s) es = (gs', s')"
  shows "distinct (log_keys gs')"
    "rv (m_users s) v \<noteq> None \<Longrightarrow> rv (m_users s') v \<noteq> None \<and>
       xp_of (m_users s') v = xp_of (m_users s) v + (granted_xp v gs' - granted_xp v gs) + match_xp v es"
proof -
  have "distinct (log_keys gs') \<and> (rv (m_users s) v \<noteq> None \<longrightarrow> rv (m_users s') v \<noteq> None \<and>
       xp_of (m_users s') v = xp_of (m_users s) v + (granted_xp v gs' - granted_xp v gs) + match_xp v es)"
    using assms(2-4)
  proof (induction es arbitrary: T gs s)
    case Nil
    then show ?case by (simp add: logged_def)
  next
    case (Cons e es)
    obtain uid now ev where e: "e = (uid, now, ev)" by (cases e)
    obtain gs1 s1 where st: "reward_step uow (gs, s) e = (gs1, s1)" by fastforce
    have T: "T \<le> now" "sorted (now # map (\<lambda>(u, t, e). t) es)" using Cons.prems(1) e by auto
    note one = reward_step_ok[OF assms(1) Cons.prems(2) T(1) st[unfolded e]]
    have run: "foldl (reward_step uow) (gs1, s1) es = (gs', s')" using Cons.prems(3) st by simp
    show ?case using Cons.IH[OF T(2) one(1) run] one(2)[of v] match_xp_cons[of v e es] unfolding e by fastforce
  qed
  then show "distinct (log_keys gs')"
    "rv (m_users s) v \<noteq> None \<Longrightarrow> rv (m_users s') v \<noteq> None \<and>
       xp_of (m_users s') v = xp_of (m_users s) v + (granted_xp v gs' - granted_xp v gs) + match_xp v es"
    by blast+
qed

text \<open>C33: no reward is granted twice. In every history of claims, purchases and matches whose times do
  not go back, each daily reward, challenge, quest of a day or week, milestone and weekly gift is granted
  to a player at most once, and the player's XP is the XP before, plus the XP of the granted rewards,
  plus the XP of the matches.\<close>

theorem rewards_granted_once:
  assumes "rolls_back uow" "\<forall>u\<in>set (list_users (m_users s)). 0 \<le> u_xp u" "sorted (map (\<lambda>(v, t, e). t) es)"
    and "foldl (reward_step uow) ([], s) es = (gs, s')" "findById uid (m_users s) = Some u"
  shows "distinct (map (\<lambda>(v, k, xp). (v, k)) gs) \<and>
    (\<exists>u'. findById uid (m_users s') = Some u' \<and> u_xp u' = u_xp u + granted_xp uid gs + match_xp uid es)"
proof -
  obtain T where T: "sorted (T # map (\<lambda>(v, t, e). t) es)"
  proof (cases es)
    case Nil
    then show ?thesis using that[of 0] by simp
  next
    case (Cons e es')
    then show ?thesis using that[of "case e of (v, t, x) \<Rightarrow> t"] assms(3) by (cases e) auto
  qed
  have "xp_nonneg (m_users s)"
    unfolding xp_nonneg_def rv_def
  proof (intro allI impI)
    fix v y c
    assume "map_option (\<lambda>u. (u_xp u, claims_of (u_rewards u))) (findById v (m_users s)) = Some (y, c)"
    then obtain w where "findById v (m_users s) = Some w" "y = u_xp w" by auto
    moreover from this have "w \<in> set (list_users (m_users s))"
      by (auto simp: findById_def list_users_def dest!: map_of_SomeD intro: rev_image_eqI)
    ultimately show "0 \<le> y" using assms(2) by blast
  qed
  then have L: "logged T [] (m_users s)" by (simp add: logged_def log_keys_def)
  note run = reward_run_ok[OF assms(1) T L assms(4)]
  have "rv (m_users s) uid \<noteq> None" "xp_of (m_users s) uid = u_xp u" using assms(5) by (simp_all add: rv_def xp_of_def)
  then have "rv (m_users s') uid \<noteq> None" "xp_of (m_users s') uid = u_xp u + granted_xp uid gs + match_xp uid es"
    using run(2)[of uid] by (simp_all add: granted_xp_def)
  then show ?thesis using run(1) by (auto simp: rv_def xp_of_def log_keys_def)
qed

definition demo_history :: "(user_id \<times> int \<times> reward_event) list" where
  "demo_history = [(''u_1'', 10, Claim RwDaily), (''u_1'', 20, Claim RwDaily), (''u_1'', 30, PlayedMatch True 100 50),
     (''u_1'', 40, Claim (RwChallenge ''win1'')), (''u_1'', 50, Claim (RwChallenge ''win1'')), (''u_2'', 60, Claim RwDaily)]"

theorem rewards_granted_once_witness:
  "\<exists>gs s'. foldl (reward_step rollback) ([], demo_store) demo_history = (gs, s') \<and>
     map (\<lambda>(v, k, xp). (v, k)) gs = [(''u_1'', DayReward 0), (''u_1'', ChallengeReward ''win1''), (''u_2'', DayReward 0)] \<and>
     (\<exists>u'. findById ''u_1'' (m_users s') = Some u' \<and> u_xp u' = 115)"
proof -
  obtain gs s' where r: "foldl (reward_step rollback) ([], demo_store) demo_history = (gs, s')" by fastforce
  have g: "fst (foldl (reward_step rollback) ([], demo_store) demo_history) =
      [(''u_1'', DayReward 0, 25), (''u_1'', ChallengeReward ''win1'', 40), (''u_2'', DayReward 0, 25)]" by code_simp
  have x: "list_all (\<lambda>u. 0 \<le> u_xp u) (list_users (m_users demo_store))" by code_simp
  have f: "map_option u_xp (findById ''u_1'' (m_users demo_store)) = Some 0" by code_simp
  then obtain u where u: "findById ''u_1'' (m_users demo_store) = Some u" "u_xp u = 0" by auto
  have "\<exists>u'. findById ''u_1'' (m_users s') = Some u' \<and> u_xp u' = u_xp u + granted_xp ''u_1'' gs + match_xp ''u_1'' demo_history"
    using rewards_granted_once[OF rolls_back_rollback _ _ r u(1)] x by (simp add: list_all_iff demo_history_def)
  moreover have gs: "gs = [(''u_1'', DayReward 0, 25), (''u_1'', ChallengeReward ''win1'', 40), (''u_2'', DayReward 0, 25)]"
    using g unfolding r by simp
  moreover have "match_xp ''u_1'' demo_history = 50" by (simp add: demo_history_def)
  ultimately have "\<exists>u'. findById ''u_1'' (m_users s') = Some u' \<and> u_xp u' = 115" by (simp add: u(2) granted_xp_def)
  then show ?thesis by (intro exI[of _ gs] exI[of _ s'] conjI r) (simp_all add: gs)
qed

subsection \<open>What a purchase does\<close>

lemma debit_users:
  "debit bind_wallet uid amt opts now s = (Inr m, s1) \<Longrightarrow> \<exists>b. adjustBalance uid (- amt) (m_users s) = (Some b, m_users s1)"
  by (auto simp: debit_def run_wallet_def bind_wallet_def compensates_def split: option.splits prod.splits sum.splits)

lemma charge_and_grant_Inr:
  assumes "books_ok s" "charge_and_grant uid c amt now s = (Inr x, s')" "findById uid (m_users s) = Some u"
  shows "amt \<le> getBalance uid s" "getBalance uid s' = getBalance uid s - amt" "co_id c \<notin> set (u_cosmetics u)"
    "map_option u_cosmetics (findById uid (m_users s')) = Some (u_cosmetics u @ [co_id c])"
    "\<exists>row. l_rows (m_ledger s') = l_rows (m_ledger s) @ [row] \<and> t_userId row = uid \<and> t_type row = Purchase \<and> t_amountCents row = - amt"
    "books_ok s'"
proof -
  let ?opts = "plain_debit Purchase (''cosmetic:'' @ co_id c)"
  obtain m s1 where d: "debit bind_wallet uid amt ?opts now s = (Inr m, s1)"
    and g: "on_users (purchaseCosmetic uid (co_id c) 0) s1 = (Inr (), s')"
    using assms(2) unfolding charge_and_grant_def by (auto split: prod.splits sum.splits)
  obtain b where b: "adjustBalance uid (- amt) (m_users s) = (Some b, m_users s1)" using debit_users[OF d] by blast
  then have "m_users s1 = put_user uid (u\<lparr>u_balanceCents := u_balanceCents u - amt\<rparr>) (m_users s)"
    using assms(3) by (auto simp: adjustBalance_def findById_def[symmetric] Let_def split: if_splits)
  then have u1: "findById uid (m_users s1) = Some (u\<lparr>u_balanceCents := u_balanceCents u - amt\<rparr>)" by simp
  have p: "amt \<le> getBalance uid s" "posted (new_row (Suc (l_seq (m_ledger s))) (debit_row uid amt ?opts) now) s s1"
    using d by (cases rule: debit_cases[OF assms(1), of amt bind_wallet uid ?opts now]; simp)+
  then have ok: "books_ok s1" and rows: "l_rows (m_ledger s1) = l_rows (m_ledger s) @ [new_row (Suc (l_seq (m_ledger s))) (debit_row uid amt ?opts) now]"
    by (simp_all add: posted_def)
  let ?u2 = "u\<lparr>u_balanceCents := u_balanceCents u - amt, u_cosmetics := u_cosmetics u @ [co_id c]\<rparr>"
  have g2: "co_id c \<notin> set (u_cosmetics u)" "s' = s1\<lparr>m_users := put_user uid ?u2 (m_users s1)\<rparr>"
    using g u1 by (auto simp: on_users_def purchaseCosmetic_def findById_def Let_def split: if_splits prod.splits)
  show "amt \<le> getBalance uid s" by (fact p(1))
  show "co_id c \<notin> set (u_cosmetics u)" by (fact g2(1))
  show "getBalance uid s' = getBalance uid s - amt" using assms(3) by (simp add: g2(2) getBalance_def)
  show "map_option u_cosmetics (findById uid (m_users s')) = Some (u_cosmetics u @ [co_id c])" by (simp add: g2(2))
  show "\<exists>row. l_rows (m_ledger s') = l_rows (m_ledger s) @ [row] \<and> t_userId row = uid \<and> t_type row = Purchase \<and> t_amountCents row = - amt"
    using rows by (simp add: g2(2) plain_debit_def)
  have k: "uid \<in> known (m_users s1)" using u1 by (auto simp: known_iff findById_def)
  have "users_wf (m_users s1)" using ok by (simp add: books_ok_def)
  then have "u_id (u\<lparr>u_balanceCents := u_balanceCents u - amt\<rparr>) = uid"
    using u1 unfolding users_wf_def findById_def by metis
  then have "u_id ?u2 = uid" by simp
  define us where "us = put_user uid ?u2 (m_users s1)"
  have "users_wf us" using ok k \<open>u_id ?u2 = uid\<close> unfolding us_def by (intro users_wf_put) (simp_all add: books_ok_def)
  moreover have "balance_of us v = balance_of (m_users s1) v" for v
    using u1 unfolding us_def by (simp add: balance_put) (simp add: balance_of_def findById_def)
  moreover have "known us = known (m_users s1)" using k by (simp add: us_def known_put insert_absorb)
  ultimately have "books_ok (s1\<lparr>m_users := us\<rparr>)" using ok unfolding books_ok_def by (simp, metis)
  then show "books_ok s'" by (simp add: g2(2) us_def)
qed

lemma dealt_price_le: "0 < co_cost c \<Longrightarrow> dealt_price c now \<le> co_cost c"
proof -
  have "(160 * x + 100) div 200 \<le> x" if "0 < x" for x :: int using that by linarith
  then show "0 < co_cost c \<Longrightarrow> dealt_price c now \<le> co_cost c" by (simp add: dealt_price_def dealPriceCents_def DEAL_PCT_def)
qed

text \<open>C36: a purchase charges its price or changes nothing. With the transaction of a database a
  purchase that succeeds adds the item to a player who did not have it, lowers the balance by exactly
  today's price, which is at most the listed price, and books that price; every other answer and every
  exception leaves the whole store as it was.\<close>

theorem purchase_all_or_nothing:
  assumes "books_ok s" "rolls_back uow" "buy (Some uow) w uid i now s = (r, s')"
  shows "case r of
      Inr (Inr _) \<Rightarrow> (\<exists>c u. find_cosmetic i = Some c \<and> findById uid (m_users s) = Some u \<and> i \<notin> set (u_cosmetics u) \<and>
         dealt_price c now \<le> co_cost c \<and> getBalance uid s' = getBalance uid s - dealt_price c now \<and> 0 \<le> getBalance uid s' \<and>
         map_option u_cosmetics (findById uid (m_users s')) = Some (u_cosmetics u @ [i]) \<and>
         (\<exists>row. l_rows (m_ledger s') = l_rows (m_ledger s) @ [row] \<and> t_userId row = uid \<and> t_type row = Purchase \<and>
            t_amountCents row = - dealt_price c now) \<and> books_ok s')
    | _ \<Rightarrow> s' = s"
proof -
  have cases: "s' = s \<and> (\<forall>x. r \<noteq> Inr (Inr x)) \<or> (\<exists>c u. find_cosmetic i = Some c \<and> 0 < co_cost c \<and> findById uid (m_users s) = Some u \<and>
      charge_and_grant uid c (dealt_price c now) now s = (Inr (), s') \<and> r = Inr (Inr ()))"
  proof -
    have "\<forall>c\<in>set COSMETICS. 0 \<le> co_cost c"
      by (simp add: COSMETICS_def money_item_def xp_item_def featured_def)
    moreover have "c \<in> set COSMETICS" if "find_cosmetic i = Some c" for c
      using that by (auto simp: find_cosmetic_def find_Some_iff)
    ultimately have pos: "0 < co_cost c" if "find_cosmetic i = Some c" "co_cost c \<noteq> 0" for c using that by fastforce
    have tx: "t = s \<and> (\<forall>x. buy_answer q \<noteq> Inr (Inr x)) \<or> charge_and_grant uid c p now s = (Inr (), t) \<and> buy_answer q = Inr (Inr ())"
      if "transaction_in uow (charge_and_grant uid c p now) s = (q, t)" for c p q t
    proof (cases q)
      case (Inl e)
      then have "t = s" using transaction_Inl[OF assms(2)] that by metis
      moreover have "buy_answer q \<noteq> Inr (Inr x)" for x
        using Inl by (auto simp: buy_answer_def wallet_answer_def split: buy_error.split money_error.split)
      ultimately show ?thesis by blast
    qed (use that in \<open>simp add: buy_answer_def\<close>)
    show ?thesis
      using assms(3) tx pos unfolding buy_def by (fastforce split: option.splits if_splits prod.splits simp: Let_def)
  qed
  then show ?thesis
  proof (elim disjE exE conjE)
    fix c u
    assume c: "find_cosmetic i = Some c" "0 < co_cost c" "findById uid (m_users s) = Some u"
      "charge_and_grant uid c (dealt_price c now) now s = (Inr (), s')" "r = Inr (Inr ())"
    have i: "co_id c = i" using c(1) by (auto simp: find_cosmetic_def find_Some_iff)
    show ?thesis
      using c charge_and_grant_Inr[OF assms(1) c(4,3)] dealt_price_le[OF c(2)] unfolding i by auto
  qed (auto split: sum.split)
qed

definition rich_store :: money_store where
  "rich_store = snd (credit (tx_wallet rollback) ''u_1'' 1000 (plain_credit Deposit ''d'') 5 demo_store)"

theorem purchase_all_or_nothing_witness:
  "\<exists>s'. buy (Some rollback) (tx_wallet rollback) ''u_1'' ''cb_gold'' 6 rich_store = (Inr (Inr ()), s') \<and>
     getBalance ''u_1'' s' = getBalance ''u_1'' rich_store - 240 \<and> books_ok s'"
proof -
  obtain r s1 where c: "credit (tx_wallet rollback) ''u_1'' 1000 (plain_credit Deposit ''d'') 5 demo_store = (Inr r, s1)"
  proof -
    have "\<not> isl (fst (credit (tx_wallet rollback) ''u_1'' 1000 (plain_credit Deposit ''d'') 5 demo_store))" by code_simp
    then show ?thesis using that action_succeeds by blast
  qed
  then have ok: "books_ok rich_store" using credit_keeps[OF demo_store_books c] by (simp add: rich_store_def)
  obtain q s' where b: "buy (Some rollback) (tx_wallet rollback) ''u_1'' ''cb_gold'' 6 rich_store = (q, s')" by fastforce
  have "fst (buy (Some rollback) (tx_wallet rollback) ''u_1'' ''cb_gold'' 6 rich_store) = Inr (Inr ())" by code_simp
  then have q: "q = Inr (Inr ())" using b by simp
  have p: "map_option (\<lambda>c. dealt_price c 6) (find_cosmetic ''cb_gold'') = Some 240" by code_simp
  show ?thesis using purchase_all_or_nothing[OF ok rolls_back_rollback b] p b unfolding q by auto
qed

subsection \<open>Keys and quests of a period\<close>

lemma colon_key:
  assumes "CHR '':'' \<notin> set a" "CHR '':'' \<notin> set b"
  shows "a @ CHR '':'' # i = b @ CHR '':'' # j \<longleftrightarrow> a = b \<and> i = j"
  using assms by (induction a arbitrary: b) (auto simp: append_eq_Cons_conv Cons_eq_append_conv, (case_tac b; auto)+)

text \<open>C39: a claim key says exactly which week and which quest it stands for: the keys of two claims are
  equal if and only if the quest is the same and no Monday's midnight in Universal Time is between the
  claims, also around the turn of the year.\<close>

theorem weekly_keys_exact:
  "weeklyClaimKey a i = weeklyClaimKey b j \<longleftrightarrow> (dayIndex a + 3) div 7 = (dayIndex b + 3) div 7 \<and> i = j"
proof -
  have "CHR '':'' \<notin> set (int_str y)" for y using nat_str_digits by (auto simp: int_str_def)
  moreover have "CHR '':'' \<notin> set (padStart0 n (nat_str m))" for n m using nat_str_digits by (auto simp: padStart0_def)
  ultimately have "CHR '':'' \<notin> set (isoWeekKey t)" for t by (simp add: isoWeekKey_def Let_def)
  from colon_key[OF this this] show ?thesis by (simp add: weeklyClaimKey_def week_key_iff week_index_def)
qed

lemma swap_at_mset: "i < length xs \<Longrightarrow> j < length xs \<Longrightarrow> mset (swap_at i j xs) = mset xs"
  by (simp add: swap_at_def mset_swap)

lemma pick_index: "nat ((uint (r :: 32 word) * int n) div 2 ^ 32) < n" if "0 < n"
proof -
  have "uint r < 2 ^ 32" using uint_bounded[of r] by simp
  then have "uint r * int n < int n * 2 ^ 32" using that by simp
  then have "(uint r * int n) div 2 ^ 32 < int n" by (simp add: div_less_iff_less_mult)
  then show ?thesis using that by (simp add: nat_less_iff pos_imp_zdiv_nonneg_iff)
qed

lemma pick_loop_mset: "k + i \<le> length arr \<Longrightarrow> mset (pick_loop k i arr a) = mset arr"
proof (induction k arbitrary: i arr a)
  case (Suc k)
  obtain a' r where m: "mulberry32 a = (a', r)" by fastforce
  let ?j = "i + nat ((uint r * int (length arr - i)) div 2 ^ 32)"
  have "0 < length arr - i" using Suc.prems by simp
  from pick_index[OF this, of r] have "?j < length arr" by linarith
  moreover have "length (swap_at i ?j arr) = length arr" by (simp add: swap_at_def)
  ultimately show ?case using Suc.IH[of "Suc i" "swap_at i ?j arr" a'] Suc.prems m swap_at_mset[of i arr ?j] by simp
qed simp

text \<open>The seeded choice picks different elements of the pool, whatever the seed: as many as asked
  for, or the whole pool if it is smaller, so that a day and a week have three different quests.\<close>

theorem pickSeeded_correct:
  "length (pickSeeded pool n seed) = min n (length pool) \<and>
   (\<exists>rest. mset (pickSeeded pool n seed) + mset rest = mset pool) \<and>
   length (dailyQuestsFor now) = 3 \<and> distinct (map q_id (dailyQuestsFor now)) \<and> set (dailyQuestsFor now) \<subseteq> set DAILY_POOL \<and>
   length (weeklyQuestsFor now) = 3 \<and> distinct (map q_id (weeklyQuestsFor now)) \<and> set (weeklyQuestsFor now) \<subseteq> set WEEKLY_POOL"
proof -
  have part: "length (pickSeeded xs m sd) = min m (length xs) \<and> (\<exists>rest. mset (pickSeeded xs m sd) + mset rest = mset xs)" for xs :: "'x list" and m sd
  proof -
    let ?n = "min m (length xs)" and ?ys = "pick_loop (min m (length xs)) 0 xs sd"
    have ms: "mset ?ys = mset xs" by (rule pick_loop_mset) simp
    then have "length ?ys = length xs" by (metis size_mset)
    moreover have "mset (take ?n ?ys) + mset (drop ?n ?ys) = mset xs" using ms by (metis append_take_drop_id mset_append)
    ultimately show ?thesis unfolding pickSeeded_def Let_def by auto
  qed
  have quests: "length (pickSeeded xs 3 sd) = 3 \<and> distinct (map q_id (pickSeeded xs 3 sd)) \<and> set (pickSeeded xs 3 sd) \<subseteq> set xs"
    if d: "distinct (map q_id xs)" "3 \<le> length xs" for xs sd
  proof -
    obtain rest where r: "mset (pickSeeded xs 3 sd) + mset rest = mset xs" using part[of xs 3 sd] by blast
    then have e: "mset (pickSeeded xs 3 sd @ rest) = mset xs" by simp
    then have "mset (map q_id (pickSeeded xs 3 sd @ rest)) = mset (map q_id xs)" by (metis mset_map)
    then have "distinct (map q_id (pickSeeded xs 3 sd @ rest))" using d(1) by (metis mset_eq_imp_distinct_iff)
    moreover have "set (pickSeeded xs 3 sd @ rest) = set xs" using e by (metis set_mset_mset)
    ultimately show ?thesis using part[of xs 3 sd] d(2) by auto
  qed
  have D: "distinct (map q_id DAILY_POOL)" "3 \<le> length DAILY_POOL" by (simp_all add: DAILY_POOL_def quest_def_def)
  have W: "distinct (map q_id WEEKLY_POOL)" "3 \<le> length WEEKLY_POOL" by (simp_all add: WEEKLY_POOL_def quest_def_def)
  show ?thesis using part[of pool n seed] quests[OF D] quests[OF W]
    by (simp add: dailyQuestsFor_def weeklyQuestsFor_def DAILY_COUNT_def WEEKLY_COUNT_def)
qed

subsection \<open>What the service does not intend\<close>

text \<open>The weekly quest to climb one more level asks for level 1, which every player has: whenever it is
  among the quests of the week, a player who never played can claim it.\<close>

lemma level_at_least_1: "1 \<le> lv_level (levelInfo xp)"
  by (simp add: levelInfo_def Let_def)

theorem level_quest_always_done:
  assumes "q \<in> set WEEKLY_POOL" "q_metric q = M_level" "q \<in> set (weeklyQuestsFor now)"
    and "findById uid s = Some u" "weeklyClaimKey now (q_id q) \<notin> set (rw_claimedWeeklies (u_rewards u))"
  shows "fst (claimWeeklyQuest uid (q_id q) now s) = Some 400"
proof -
  have q: "q = quest_def ''w_level'' 1 M_level 400" using assms(1,2) by (auto simp: WEEKLY_POOL_def quest_def_def)
  have "set (weeklyQuestsFor now) \<subseteq> set WEEKLY_POOL"
  proof -
    have "mset (take m (pick_loop m 0 WEEKLY_POOL sd)) \<subseteq># mset WEEKLY_POOL" if "m \<le> length WEEKLY_POOL" for m sd
      using pick_loop_mset[of m 0 WEEKLY_POOL sd] that
      by (metis add.right_neutral append_take_drop_id mset_append mset_subset_eq_add_left)
    then show ?thesis unfolding weeklyQuestsFor_def pickSeeded_def Let_def by (metis min.cobounded2 set_mset_mono set_mset_mset)
  qed
  then have "List.find (\<lambda>x. q_id x = q_id q) (weeklyQuestsFor now) = Some q"
  proof -
    obtain x where x: "List.find (\<lambda>x. q_id x = q_id q) (weeklyQuestsFor now) = Some x"
      using assms(3) by (cases "List.find (\<lambda>x. q_id x = q_id q) (weeklyQuestsFor now)") (auto simp: find_None_iff)
    then have "x \<in> set (weeklyQuestsFor now)" "q_id x = q_id q" by (auto simp: find_Some_iff)
    with \<open>set (weeklyQuestsFor now) \<subseteq> set WEEKLY_POOL\<close> have "x \<in> set WEEKLY_POOL" "q_id x = ''w_level''" by (auto simp: q quest_def_def)
    then have "x = q" by (auto simp: q WEEKLY_POOL_def quest_def_def)
    with x show ?thesis by simp
  qed
  then show ?thesis using assms(4,5) level_at_least_1[of "u_xp u"]
    by (auto simp: claimWeeklyQuest_def Let_def q quest_def_def questPeriodProgress_def questMetricValue_def split: prod.split)
qed

text \<open>A gift that was read before a purchase for XP and is written after it removes the bought item: the
  XP is spent and the item is gone. (\<open>buyXp\<close> does not take the lock the gift holds.)\<close>

definition xp_store :: users where
  "xp_store = snd (addXp ''u_1'' 500 (m_users demo_store))"

theorem gift_undoes_purchase:
  "case findById ''u_1'' xp_store of
     None \<Rightarrow> False
   | Some u \<Rightarrow>
       let s = snd (write_gift ''u_1'' u (isoWeekKey 0) (snd (buyXp ''u_1'' ''cb_ivory'' xp_store)))
       in fst (buyXp ''u_1'' ''cb_ivory'' xp_store) = Inr () \<and>
          map_option u_xpSpent (findById ''u_1'' s) = Some 150 \<and>
          map_option (\<lambda>v. ''cb_ivory'' \<in> set (u_cosmetics v)) (findById ''u_1'' s) = Some False"
  by code_simp

end
