(* ===== verification/Spec2Isabelle.thy ===== *)
theory Spec2Isabelle
  imports Room_Properties Money_Service Withdrawals Tournament_Bracket Bot_Deal Table_Properties Club_War_Money Club_Properties Reward_Properties
begin

section \<open>Murlan: a verification development\<close>

text \<open>
  Murlan is an online card game played for money. Its server is a TypeScript program
  (\<^verbatim>\<open>src/packages/server/src\<close>) over a rules engine (\<^verbatim>\<open>src/packages/engine/src/engine.ts\<close>); the client is a view
  of what the server sends. This development models the parts of the server that decide who may
  play what, who wins, and where the money goes, and proves what makes them correct.

  \<^bold>\<open>How the parts interact.\<close> A socket request reaches the gateway, which asks the room manager. The
  room manager finds the room and the seat of the user and forwards the action to the match of the
  room; the match plays single games one after the other, and a single game asks the rules engine
  whether the cards may be played. Before a match starts, the match money service takes the stakes
  from the wallets; when it ends, the service pays the pot, less the rake, or refunds. The wallet is
  the only writer of balances, and every balance change is a row of the ledger. Withdrawals hold
  money until an administrator or an automatic payout decides; tournaments hold buy-ins in a pool.

  \<^bold>\<open>The theories\<close>, each importing the ones it builds on:

  \<^item> \<^verbatim>\<open>Murlan_Prelude\<close>: insertion-ordered sets, index search, the action type (state to error or
    value, and state) with its sequencing, strings of numbers, the interfaces \<open>invariant_system\<close> and
    \<open>ranked_system\<close>, and the lemmas all components share.
  \<^item> \<^verbatim>\<open>Engine\<close> (\<^verbatim>\<open>engine/src/engine.ts\<close>): cards, the two orders, classification of card sets, the beat
    relation, validation of a play, the deck, the shuffle and the deal. The bit tricks of straights
    are kept on 32-bit words and proved equal to a specification by sets of values.
  \<^item> \<^verbatim>\<open>Single_Game\<close> (\<^verbatim>\<open>game/singleGame.ts\<close>): the state machine of one game, with its liveness,
    termination and the order of finishing.
  \<^item> \<^verbatim>\<open>Scoring\<close>, \<^verbatim>\<open>Fair\<close> (\<^verbatim>\<open>match/scoring.ts\<close>, \<^verbatim>\<open>shared/src/rules.ts\<close>, \<^verbatim>\<open>fair/\<close>, \<^verbatim>\<open>util/rng.ts\<close>): points, the
    target, the switch of cards, and the committed and revealed shuffle.
  \<^item> \<^verbatim>\<open>Match_Play\<close> (\<^verbatim>\<open>match/match.ts\<close>): a match as a sequence of games; it never throws, scores add up,
    and players who left never win. The dealer is an interface (\<open>card_dealer\<close>), interpreted on the two
    dealers of the server.
  \<^item> \<^verbatim>\<open>Rooms\<close>, \<^verbatim>\<open>Room_Safety\<close>, \<^verbatim>\<open>Room_Properties\<close> (\<^verbatim>\<open>room/roomManager.ts\<close>): the whole room manager, the
    invariant of its state, and its properties over an inductive relation of histories.
  \<^item> \<^verbatim>\<open>Bot_Moves\<close>, \<^verbatim>\<open>Bot_Search\<close>, \<^verbatim>\<open>Bot_Decision\<close> (\<^verbatim>\<open>bot/botDecision.ts\<close>, \<^verbatim>\<open>bot/botSearch.ts\<close>,
    \<^verbatim>\<open>realtime/botDriver.ts\<close> and \<^verbatim>\<open>driveBot\<close> of the gateway): the enumeration of legal plays, the sampled
    search with its own copy of the rules, the heuristics and the choice of a move. \<^verbatim>\<open>Bot_Properties\<close>:
    every move is accepted by the game. \<^verbatim>\<open>Bot_Mirror\<close>: a simulation relation between the simulated game
    and the real one, and the rule on which they part. \<^verbatim>\<open>Bot_Playout\<close>, \<^verbatim>\<open>Bot_Deal\<close>: a rank for
    simulated games, from which every rollout ends before its guard.
  \<^item> \<^verbatim>\<open>Users\<close>, \<^verbatim>\<open>Ledger\<close>, \<^verbatim>\<open>Repositories\<close> (\<^verbatim>\<open>auth/userRepository.ts\<close>, \<^verbatim>\<open>money/ledger.ts\<close>,
    \<^verbatim>\<open>money/matchesRepository.ts\<close>, \<^verbatim>\<open>auth/adminAudit.ts\<close>): the in-memory stores, which the program
    gives as the specification of the database adapters.
  \<^item> \<^verbatim>\<open>Wallet\<close> (\<^verbatim>\<open>money/walletService.ts\<close>, \<^verbatim>\<open>money/unitOfWork.ts\<close>): credits, debits, transfers, provider
    references and reconciliation. The unit of work is an interface with the rollback of a database
    transaction.
  \<^item> \<^verbatim>\<open>Money_Service\<close> (\<^verbatim>\<open>money/moneyService.ts\<close>, \<^verbatim>\<open>money/settlement.ts\<close>): escrow, settlement, refund and
    crash recovery of a match.
  \<^item> \<^verbatim>\<open>Withdrawals\<close> (\<^verbatim>\<open>money/withdrawals.ts\<close>, \<^verbatim>\<open>money/autoPayout.ts\<close>, \<^verbatim>\<open>money/paymentMonitor.ts\<close> and the
    policies): held money, payouts, rejections and reversals.
  \<^item> \<^verbatim>\<open>Tournament\<close>, \<^verbatim>\<open>Tournament_Bracket\<close> (\<^verbatim>\<open>tournament/tournamentService.ts\<close> and the wallet adapter of
    \<^verbatim>\<open>app.ts\<close>): registration, the bracket, the prize and the refunds.
  \<^item> \<^verbatim>\<open>Tables\<close> (\<^verbatim>\<open>realtime/gateway.ts\<close>): how the gateway keeps the rooms and the match money together.
    A handler runs to its first \<^verbatim>\<open>await\<close>; the rest is a task of the state, and tasks and requests
    interleave in any order. \<^verbatim>\<open>Table_Frames\<close> says what each operation of the rooms may change,
    \<^verbatim>\<open>Table_Invariant\<close> states the invariant that ties rooms, records, tasks and finalised matches,
    \<^verbatim>\<open>Table_Steps\<close> and \<^verbatim>\<open>Table_Handlers\<close> prove that every handler and task keeps it in calm histories
    (\<open>calm_op\<close>), and \<^verbatim>\<open>Table_Properties\<close> has the properties, and three histories that are not calm.
  \<^item> \<^verbatim>\<open>Payments\<close>: which payments a reference can still receive, shared by tournaments and club wars.
    \<^verbatim>\<open>ClubWars\<close>, \<^verbatim>\<open>Club_War_Money\<close> (\<^verbatim>\<open>social/clubWarService.ts\<close>, \<^verbatim>\<open>social/clubWarRepository.ts\<close> and
    the wallet adapter of \<^verbatim>\<open>app.ts\<close>): registration with escrow, results, the payout of the pool, refunds
    and the sweep, and the invariant that ties the wars to the ledger.
  \<^item> \<^verbatim>\<open>Clubs\<close>, \<^verbatim>\<open>Club_Properties\<close> (\<^verbatim>\<open>social/clubService.ts\<close>, \<^verbatim>\<open>social/clubRepository.ts\<close>): members and
    founders, with the store calls of different requests interleaved; the limit on members in every
    interleaving, the one founder when requests run one after the other, and a club left without one
    when they do not.
  \<^item> \<^verbatim>\<open>Calendar\<close>, \<^verbatim>\<open>Quests\<close>, \<^verbatim>\<open>Rewards\<close> (\<^verbatim>\<open>rewards/quests.ts\<close>, \<^verbatim>\<open>rewards/achievements.ts\<close>,
    \<^verbatim>\<open>rewards/rewardsService.ts\<close>, \<^verbatim>\<open>profile/level.ts\<close>, \<^verbatim>\<open>vip/vipService.ts\<close>): days and weeks, the seeded
    choice of quests on 32-bit words, the shop, and the claims. \<^verbatim>\<open>Reward_Properties\<close>: no reward twice,
    XP from nothing else, purchases that charge their price or change nothing, exact keys of a week.

  \<^bold>\<open>Conventions.\<close> Records have the fields of the source; an object changed through a reference is
  replaced in the state it lives in. A method that may throw is an action whose left value is the
  exception and whose state keeps what was assigned before. Messages for people are left out and
  error codes kept. Time, random bytes, hashes and identifiers are arguments. Money is in whole cents,
  as in the source, where all amounts are checked to be safe integers; they are integers here.
  Asynchronous methods that the source serialises by a lock or a transaction are atomic steps.

  \<^bold>\<open>Bounds and fuel.\<close> No loop needs fuel where its termination is proved: the share code loop of the
  rooms ends because every longer code leaves fewer rooms to collide with (\<open>codes_from\<close>); a game ends
  because every accepted operation lowers the rank \<open>ranked_system\<close> asks for. The guard
  of a rollout (400 steps) is part of the source and the fuel of its model; a simulated game of four
  players and 54 cards has a rank of at most 330, so the guard is never reached.

  \<^bold>\<open>What modelling showed.\<close> The behaviours that the code does not intend are proved as theorems, so that
  they can be reproduced: a game whose opener quits (\<^verbatim>\<open>Single_Game\<close>), a match waiting for a player
  who left (\<^verbatim>\<open>Match_Play\<close>), a room that stays without players (\<^verbatim>\<open>Room_Properties\<close>), a search
  that plays by an older passing rule than the game (\<^verbatim>\<open>Bot_Mirror\<close>), a refused credit
  that leaves a row without a store that rolls back (\<^verbatim>\<open>Wallet\<close>), a refund that is paid twice
  (\<^verbatim>\<open>Withdrawals\<close>), a cancellation that fails half-way (\<^verbatim>\<open>Tournament\<close>, \<^verbatim>\<open>Club_War_Money\<close>), a club
  without a founder (\<^verbatim>\<open>Club_Properties\<close>), a weekly quest that is always done and a gift that undoes a
  purchase (\<^verbatim>\<open>Reward_Properties\<close>), and, where room and money
  meet, a winner who is not paid, a player who leaves a match and wins it, and a match that starts
  without the consent of the player it charges (\<^verbatim>\<open>Table_Properties\<close>).

  \<^bold>\<open>Not modelled.\<close> The client (views, stores, sounds and translations), the wiring of \<^verbatim>\<open>app.ts\<close>, the HTTP
  routes and the socket gateway beyond the tables: messages, broadcasts, limits and timers. The database adapters, the chain and payment providers, mail, push and the messaging bots:
  they call services outside the repository. The remaining components of the server that keep state
  of their own are listed in the manifest with the reason.
\<close>

end
